(* ===== verification/Prelude.thy ===== *)
theory Prelude
  imports Main "HOL-Library.AList" "HOL-Library.List_Lexorder" "HOL-Library.Char_ord"
begin

text \<open>
  Shared vocabulary of the development: the Python values and exceptions the modelled modules
  use, dictionaries as association lists in insertion order (Python's dict order), list
  slices, the string operations of the standard library (\<open>lower\<close>, \<open>split\<close>, \<open>startswith\<close>,
  \<open>int(...)\<close>), and two generic locales about machines that run over a list of events:
  \<open>step_machine\<close> (an invariant kept by one step is kept by a run) and \<open>step_refinement\<close>
  (a simulation of one step is a simulation of a run). Strings are lists of characters; the
  case mapping is the ASCII one.
\<close>

named_theorems dict_simps
named_theorems slice_simps
named_theorems py_simps

section \<open>Exceptions and results\<close>

datatype py_exc = TypeError | ValueError | AttributeError | KeyError | IndexError
  | AssertionError | OtherError string

type_synonym 'a result = "py_exc + 'a"

fun bind_result :: "'e + 'a \<Rightarrow> ('a \<Rightarrow> 'e + 'b) \<Rightarrow> 'e + 'b" where
  "bind_result (Inl e) f = Inl e"
| "bind_result (Inr x) f = f x"

fun traverse :: "('a \<Rightarrow> 'e + 'b) \<Rightarrow> 'a list \<Rightarrow> 'e + 'b list" where
  "traverse f [] = Inr []"
| "traverse f (x # xs) =
     bind_result (f x) (\<lambda>y. bind_result (traverse f xs) (\<lambda>ys. Inr (y # ys)))"

lemma bind_result_Inr_iff:
  "bind_result r f = Inr y \<longleftrightarrow> (\<exists>x. r = Inr x \<and> f x = Inr y)"
  by (cases r) auto

lemma bind_result_Inl_iff:
  "bind_result r f = Inl e \<longleftrightarrow> r = Inl e \<or> (\<exists>x. r = Inr x \<and> f x = Inl e)"
  by (cases r) auto

lemma bind_result_assoc:
  "bind_result (bind_result r f) g = bind_result r (\<lambda>x. bind_result (f x) g)"
  by (cases r) auto

lemma traverse_map: "traverse f (map g xs) = traverse (f \<circ> g) xs"
  by (induction xs) auto

lemma traverse_Inr: "(\<And>x. x \<in> set xs \<Longrightarrow> f x = Inr (g x)) \<Longrightarrow> traverse f xs = Inr (map g xs)"
  by (induction xs) auto

lemma traverse_length: "traverse f xs = Inr ys \<Longrightarrow> length ys = length xs"
  by (induction xs arbitrary: ys) (auto simp: bind_result_Inr_iff)

section \<open>Dictionaries in insertion order\<close>

type_synonym ('k, 'v) dict = "('k \<times> 'v) list"

definition dict_get :: "('k, 'v) dict \<Rightarrow> 'k \<Rightarrow> 'v option" where
  "dict_get d k = map_of d k"

definition dict_set :: "'k \<Rightarrow> 'v \<Rightarrow> ('k, 'v) dict \<Rightarrow> ('k, 'v) dict" where
  "dict_set k v d = AList.update k v d"

definition dict_del :: "'k \<Rightarrow> ('k, 'v) dict \<Rightarrow> ('k, 'v) dict" where
  "dict_del k d = AList.delete k d"

fun dict_merge :: "('k, 'v) dict \<Rightarrow> ('k, 'v) dict \<Rightarrow> ('k, 'v) dict" where
  "dict_merge d [] = d"
| "dict_merge d ((k, v) # e) = dict_merge (dict_set k v d) e"

definition dict_keys :: "('k, 'v) dict \<Rightarrow> 'k list" where
  "dict_keys d = map fst d"

abbreviation dict_wf :: "('k, 'v) dict \<Rightarrow> bool" where
  "dict_wf d \<equiv> distinct (map fst d)"

lemma dict_get_Nil [simp]: "dict_get [] k = None"
  by (simp add: dict_get_def)

lemma dict_get_set [simp, dict_simps]:
  "dict_get (dict_set k v d) k' = (if k = k' then Some v else dict_get d k')"
  by (simp add: dict_get_def dict_set_def update_conv)

lemma dict_get_del [simp, dict_simps]:
  "dict_get (dict_del k d) k' = (if k = k' then None else dict_get d k')"
  by (simp add: dict_get_def dict_del_def delete_conv)

lemma dict_set_wf [simp, dict_simps]: "dict_wf d \<Longrightarrow> dict_wf (dict_set k v d)"
  by (simp add: dict_set_def distinct_update)

lemma dict_del_wf [simp, dict_simps]: "dict_wf d \<Longrightarrow> dict_wf (dict_del k d)"
  by (simp add: dict_del_def distinct_delete)

lemma dict_set_keys [dict_simps]: "fst ` set (dict_set k v d) = insert k (fst ` set d)"
  by (simp add: dict_set_def dom_update)

lemma dict_set_subset: "set (dict_set k v d) \<subseteq> insert (k, v) (set d)"
proof -
  have "set (AList.update k v d) \<subseteq> insert (k, v) (set d)"
    by (induction d) auto
  then show ?thesis by (simp add: dict_set_def)
qed

lemma dict_set_length: "length (dict_set k v d) \<le> Suc (length d)"
proof -
  have "length (AList.update k v d) \<le> Suc (length d)" by (induction d) auto
  then show ?thesis by (simp add: dict_set_def)
qed

lemma dict_get_in: "dict_get d k = Some v \<Longrightarrow> (k, v) \<in> set d"
  by (simp add: dict_get_def map_of_SomeD)

lemma dict_get_wf: "dict_wf d \<Longrightarrow> (k, v) \<in> set d \<Longrightarrow> dict_get d k = Some v"
  by (simp add: dict_get_def)

lemma dict_merge_wf [simp, dict_simps]: "dict_wf d \<Longrightarrow> dict_wf (dict_merge d e)"
  by (induction d e rule: dict_merge.induct) auto

lemma dict_get_merge_notin:
  "k \<notin> fst ` set e \<Longrightarrow> dict_get (dict_merge d e) k = dict_get d k"
  by (induction d e rule: dict_merge.induct) auto

lemma dict_get_merge [dict_simps]:
  "dict_wf e \<Longrightarrow> dict_get (dict_merge d e) k =
     (case dict_get e k of Some v \<Rightarrow> Some v | None \<Rightarrow> dict_get d k)"
proof (induction d e rule: dict_merge.induct)
  case (1 d)
  then show ?case by simp
next
  case (2 d k' v e)
  show ?case
  proof (cases "k = k'")
    case True
    with "2.prems" have "k \<notin> fst ` set e" by auto
    then have "dict_get (dict_merge (dict_set k' v d) e) k = Some v"
      using True by (simp add: dict_get_merge_notin)
    with True show ?thesis by (simp add: dict_get_def)
  next
    case False
    with 2 have "dict_get (dict_merge (dict_set k' v d) e) k =
        (case dict_get e k of Some v \<Rightarrow> Some v | None \<Rightarrow> dict_get (dict_set k' v d) k)"
      by simp
    moreover have "dict_get ((k', v) # e) k = dict_get e k"
      using False by (simp add: dict_get_def)
    ultimately show ?thesis using False by (simp split: option.splits)
  qed
qed

text \<open>A property of every value of a dictionary.\<close>

definition values_ok :: "('v \<Rightarrow> bool) \<Rightarrow> ('k, 'v) dict \<Rightarrow> bool" where
  "values_ok P d = list_all (\<lambda>(_, v). P v) d"

lemma values_ok_Nil [simp]: "values_ok P []"
  by (simp add: values_ok_def)

lemma values_ok_set: "values_ok P d \<Longrightarrow> P v \<Longrightarrow> values_ok P (dict_set k v d)"
  using dict_set_subset [of k v d] by (auto simp: values_ok_def list_all_iff)

lemma values_ok_del: "values_ok P d \<Longrightarrow> values_ok P (dict_del k d)"
  by (auto simp: values_ok_def list_all_iff dict_del_def AList.delete_eq)

lemma values_ok_get: "values_ok P d \<Longrightarrow> dict_get d k = Some v \<Longrightarrow> P v"
  using dict_get_in [of d k v] by (auto simp: values_ok_def list_all_iff)

lemma values_ok_merge: "values_ok P d \<Longrightarrow> values_ok P e \<Longrightarrow> values_ok P (dict_merge d e)"
  by (induction d e rule: dict_merge.induct) (auto simp: values_ok_def list_all_iff dest!: subsetD [OF dict_set_subset])

section \<open>List slices\<close>

text \<open>\<open>xs[i:j]\<close> for non-negative bounds, and the clamping of a bound of either sign.\<close>

definition slice :: "nat \<Rightarrow> nat \<Rightarrow> 'a list \<Rightarrow> 'a list" where
  "slice i j xs = drop i (take j xs)"

definition clamp_index :: "nat \<Rightarrow> int \<Rightarrow> nat" where
  "clamp_index n i = nat (if i < 0 then max 0 (int n + i) else min (int n) i)"

definition py_slice :: "int \<Rightarrow> int \<Rightarrow> 'a list \<Rightarrow> 'a list" where
  "py_slice i j xs = slice (clamp_index (length xs) i) (clamp_index (length xs) j) xs"

definition last_n :: "nat \<Rightarrow> 'a list \<Rightarrow> 'a list" where
  \<comment> \<open>\<open>xs[-n:]\<close> for a positive \<open>n\<close>\<close>
  "last_n n xs = drop (length xs - n) xs"

lemma length_slice [slice_simps]: "length (slice i j xs) = min j (length xs) - i"
  by (simp add: slice_def)

lemma slice_empty [simp]: "slice i j [] = []"
  by (simp add: slice_def)

lemma slice_0 [simp]: "slice 0 j xs = take j xs"
  by (simp add: slice_def)

lemma take_slice [slice_simps]: "take n (slice i (i + n + 1) xs) = slice i (i + n) xs"
  by (simp add: slice_def take_drop add.commute)

lemma slice_append [slice_simps]:
  "i \<le> j \<Longrightarrow> j \<le> k \<Longrightarrow> slice i j xs @ slice j k xs = slice i k xs"
proof -
  assume ij: "i \<le> j" and jk: "j \<le> k"
  have "take (j - i) (drop i (take k xs)) @ drop (j - i) (drop i (take k xs)) = drop i (take k xs)"
    by (rule append_take_drop_id)
  with ij jk show ?thesis
    by (simp add: slice_def take_drop min_def)
qed

lemma py_slice_nonneg [slice_simps]:
  "0 \<le> i \<Longrightarrow> 0 \<le> j \<Longrightarrow> py_slice i j xs = slice (nat i) (nat j) xs"
proof -
  assume i: "0 \<le> i" and j: "0 \<le> j"
  then have c: "clamp_index (length xs) i = min (length xs) (nat i)"
    "clamp_index (length xs) j = min (length xs) (nat j)"
    by (auto simp: clamp_index_def)
  have "take (min (length xs) (nat j)) xs = take (nat j) xs"
    by (simp add: min_def)
  moreover have "drop (min (length xs) (nat i)) (take (nat j) xs) = drop (nat i) (take (nat j) xs)"
    by (simp add: min_def)
  ultimately show ?thesis by (simp add: py_slice_def slice_def c)
qed

lemma find_append: "find P (xs @ ys) = (case find P xs of None \<Rightarrow> find P ys | Some x \<Rightarrow> Some x)"
  by (induction xs) auto

lemma find_in_set: "find P xs = Some x \<Longrightarrow> x \<in> set xs"
  by (auto simp: find_Some_iff)

lemma find_distinct: "distinct (map f xs) \<Longrightarrow> x \<in> set xs \<Longrightarrow> find (\<lambda>y. f y = f x) xs = Some x"
  by (induction xs) (auto simp: image_iff)

section \<open>Strings\<close>

definition is_upper :: "char \<Rightarrow> bool" where
  "is_upper c = (65 \<le> (of_char c :: nat) \<and> (of_char c :: nat) \<le> 90)"

definition is_digit :: "char \<Rightarrow> bool" where
  "is_digit c = (48 \<le> (of_char c :: nat) \<and> (of_char c :: nat) \<le> 57)"

definition is_space :: "char \<Rightarrow> bool" where
  "is_space c = ((of_char c :: nat) = 32 \<or> (9 \<le> (of_char c :: nat) \<and> (of_char c :: nat) \<le> 13))"

definition lower_char :: "char \<Rightarrow> char" where
  "lower_char c = (if is_upper c then char_of ((of_char c :: nat) + 32) else c)"

definition lower :: "string \<Rightarrow> string" where
  "lower s = map lower_char s"

lemma lower_char_idem [simp]: "lower_char (lower_char c) = lower_char c"
proof (cases "is_upper c")
  case True
  then have "(of_char (char_of ((of_char c :: nat) + 32) :: char) :: nat) = of_char c + 32"
    by (simp add: is_upper_def)
  with True show ?thesis by (simp add: lower_char_def is_upper_def)
qed (simp add: lower_char_def)

lemma lower_idem [simp]: "lower (lower s) = lower s"
  by (simp add: lower_def)

lemma lower_Nil [simp]: "lower [] = []"
  by (simp add: lower_def)

definition startswith :: "string \<Rightarrow> string \<Rightarrow> bool" where
  "startswith p s = (take (length p) s = p)"

definition endswith :: "string \<Rightarrow> string \<Rightarrow> bool" where
  "endswith p s = (length p \<le> length s \<and> drop (length s - length p) s = p)"

fun contains_sub :: "string \<Rightarrow> string \<Rightarrow> bool" where
  \<comment> \<open>\<open>p in s\<close>\<close>
  "contains_sub p [] = (p = [])"
| "contains_sub p (c # s) = (startswith p (c # s) \<or> contains_sub p s)"

text \<open>\<open>s.split(sep)\<close> for a one-character separator: never empty, joined back by \<open>sep\<close>.\<close>

fun split_on :: "char \<Rightarrow> string \<Rightarrow> string list" where
  "split_on sep [] = [[]]"
| "split_on sep (c # s) =
     (if c = sep then [] # split_on sep s
      else (case split_on sep s of [] \<Rightarrow> [[c]] | w # ws \<Rightarrow> (c # w) # ws))"

fun join_on :: "string \<Rightarrow> string list \<Rightarrow> string" where
  "join_on sep [] = []"
| "join_on sep [w] = w"
| "join_on sep (w # ws) = w @ sep @ join_on sep ws"

lemma split_on_nonempty [simp]: "split_on sep s \<noteq> []"
  by (induction s) (auto split: list.splits)

lemma split_on_nosep: "sep \<notin> set s \<Longrightarrow> split_on sep s = [s]"
  by (induction s) auto

lemma split_on_append:
  "sep \<notin> set s \<Longrightarrow> split_on sep (s @ sep # t) = s # split_on sep t"
  by (induction s) auto

lemma join_split: "join_on [sep] (split_on sep s) = s"
proof (induction s)
  case (Cons c s)
  obtain w ws where "split_on sep s = w # ws"
    using split_on_nonempty by (metis neq_Nil_conv)
  with Cons show ?case by (cases ws) auto
qed simp

text \<open>Decimal numerals: \<open>str(n)\<close> and \<open>int(s)\<close>.\<close>

definition digit_char :: "nat \<Rightarrow> char" where
  "digit_char d = char_of (48 + d)"

definition digit_val :: "char \<Rightarrow> nat" where
  "digit_val c = of_char c - 48"

fun nat_digits :: "nat \<Rightarrow> string" where
  "nat_digits n = (if n < 10 then [digit_char n] else nat_digits (n div 10) @ [digit_char (n mod 10)])"

declare nat_digits.simps [simp del]

definition int_str :: "int \<Rightarrow> string" where
  "int_str i = (if i < 0 then ''-'' @ nat_digits (nat (- i)) else nat_digits (nat i))"

definition digits_val :: "string \<Rightarrow> nat" where
  "digits_val s = foldl (\<lambda>n c. 10 * n + digit_val c) 0 s"

text \<open>
  \<open>int(s)\<close> skips surrounding white space, takes one sign, and wants digits in which single
  underscores may stand between two digits; anything else is a ValueError.
\<close>

fun digits_ok :: "string \<Rightarrow> bool" where
  "digits_ok [] = False"
| "digits_ok [c] = is_digit c"
| "digits_ok (c # d # s) =
     (is_digit c \<and> (if d = CHR ''_'' then digits_ok s else digits_ok (d # s)))"

definition strip :: "string \<Rightarrow> string" where
  "strip s = rev (dropWhile is_space (rev (dropWhile is_space s)))"

definition unsigned_of_string :: "string \<Rightarrow> int result" where
  "unsigned_of_string s =
     (if digits_ok s then Inr (int (digits_val (filter is_digit s))) else Inl ValueError)"

definition int_of_string :: "string \<Rightarrow> int result" where
  "int_of_string s =
     (case strip s of
        [] \<Rightarrow> Inl ValueError
      | c # t \<Rightarrow>
          if c = CHR ''-'' then bind_result (unsigned_of_string t) (\<lambda>n. Inr (- n))
          else if c = CHR ''+'' then unsigned_of_string t
          else unsigned_of_string (c # t))"

lemma digit_char_digit: "d < 10 \<Longrightarrow> is_digit (digit_char d)"
  by (simp add: is_digit_def digit_char_def)

lemma digit_val_char [simp]: "d < 10 \<Longrightarrow> digit_val (digit_char d) = d"
  by (simp add: digit_val_def digit_char_def)

lemma nat_digits_set: "c \<in> set (nat_digits n) \<Longrightarrow> is_digit c"
proof (induction n rule: nat_digits.induct)
  case (1 n)
  then show ?case
    by (subst (asm) (2) nat_digits.simps) (auto simp: digit_char_digit split: if_splits)
qed

lemma nat_digits_nonempty [simp]: "nat_digits n \<noteq> []"
  by (subst nat_digits.simps) simp

lemma digits_val_snoc: "digits_val (s @ [c]) = 10 * digits_val s + digit_val c"
  by (simp add: digits_val_def)

lemma digits_val_nat_digits [simp]: "digits_val (nat_digits n) = n"
proof (induction n rule: nat_digits.induct)
  case (1 n)
  show ?case
  proof (cases "n < 10")
    case True
    then show ?thesis by (subst nat_digits.simps) (simp add: digits_val_def)
  next
    case False
    with 1 show ?thesis by (subst nat_digits.simps) (simp add: digits_val_snoc)
  qed
qed

lemma digits_ok_digits: "s \<noteq> [] \<Longrightarrow> (\<forall>c \<in> set s. is_digit c) \<Longrightarrow> digits_ok s"
proof (induction s rule: digits_ok.induct)
  case (3 c d s)
  then have "d \<noteq> CHR ''_''" by (auto simp: is_digit_def)
  with 3 show ?case by simp
qed auto

lemma is_digit_not_space: "is_digit c \<Longrightarrow> \<not> is_space c"
  by (auto simp: is_digit_def is_space_def)

lemma dropWhile_hd: "s \<noteq> [] \<Longrightarrow> \<not> P (hd s) \<Longrightarrow> dropWhile P s = s"
  by (cases s) auto

lemma strip_id: "s \<noteq> [] \<Longrightarrow> (\<forall>c \<in> set s. \<not> is_space c) \<Longrightarrow> strip s = s"
  by (simp add: strip_def dropWhile_hd hd_rev)

lemma unsigned_of_digits: "unsigned_of_string (nat_digits n) = Inr (int n)"
proof -
  have "\<forall>c \<in> set (nat_digits n). is_digit c" by (auto dest: nat_digits_set)
  then have "filter is_digit (nat_digits n) = nat_digits n" and "digits_ok (nat_digits n)"
    by (auto intro: digits_ok_digits)
  then show ?thesis by (simp add: unsigned_of_string_def)
qed

lemma int_of_int_str [simp]: "int_of_string (int_str i) = Inr i"
proof (cases "i < 0")
  case True
  have "\<forall>c \<in> set (CHR ''-'' # nat_digits (nat (- i))). \<not> is_space c"
    by (auto dest!: nat_digits_set is_digit_not_space simp: is_space_def)
  then have "strip (int_str i) = CHR ''-'' # nat_digits (nat (- i))"
    using True by (simp add: int_str_def strip_id)
  with True show ?thesis by (simp add: int_of_string_def unsigned_of_digits)
next
  case False
  have d: "\<forall>c \<in> set (nat_digits (nat i)). is_digit c" by (auto dest: nat_digits_set)
  then have s: "strip (int_str i) = nat_digits (nat i)"
    using False by (auto simp: int_str_def intro!: strip_id dest: is_digit_not_space)
  obtain c t where ct: "nat_digits (nat i) = c # t"
    using nat_digits_nonempty by (metis neq_Nil_conv)
  with d have "c \<noteq> CHR ''-''" and "c \<noteq> CHR ''+''" by (auto simp: is_digit_def)
  with s ct have "int_of_string (int_str i) = unsigned_of_string (nat_digits (nat i))"
    by (simp add: int_of_string_def)
  with False show ?thesis by (simp add: unsigned_of_digits)
qed

lemma int_str_no_colon: "CHR '':'' \<notin> set (int_str i)"
  by (auto simp: int_str_def dest!: nat_digits_set simp: is_digit_def)

section \<open>Machines that run over a list of events\<close>

lemma foldl_keeps: "P a \<Longrightarrow> (\<And>a x. x \<in> set xs \<Longrightarrow> P a \<Longrightarrow> P (f a x)) \<Longrightarrow> P (foldl f a xs)"
  by (induction xs arbitrary: a) auto

locale step_machine =
  fixes step :: "'s \<Rightarrow> 'e \<Rightarrow> 's" and inv :: "'s \<Rightarrow> bool"
  assumes step_inv: "inv s \<Longrightarrow> inv (step s e)"
begin

lemma run_inv: "inv s \<Longrightarrow> inv (foldl step s es)"
  by (induction es arbitrary: s) (auto simp: step_inv)

lemma run_prefix_inv: "inv s \<Longrightarrow> inv (foldl step s (take n es))"
  by (rule run_inv)

end

locale step_refinement =
  fixes cstep :: "'s \<Rightarrow> 'e \<Rightarrow> 's" and astep :: "'t \<Rightarrow> 'e \<Rightarrow> 't" and abst :: "'s \<Rightarrow> 't"
    and cinv :: "'s \<Rightarrow> bool"
  assumes cstep_inv: "cinv s \<Longrightarrow> cinv (cstep s e)"
    and simulates: "cinv s \<Longrightarrow> abst (cstep s e) = astep (abst s) e"
begin

lemma run_cinv: "cinv s \<Longrightarrow> cinv (foldl cstep s es)"
  by (induction es arbitrary: s) (auto simp: cstep_inv)

lemma run_simulates: "cinv s \<Longrightarrow> abst (foldl cstep s es) = foldl astep (abst s) es"
  by (induction es arbitrary: s) (auto simp: cstep_inv simulates)

end

end
