(* ===== verification/PyValue.thy ===== *)
theory PyValue
  imports Complex_Main Prelude
begin

text \<open>
  The dynamic values that reach the modelled code out of JSON and YAML documents, with
  Python's equality (booleans, integers and floats compare by value), hashability, iteration,
  truth value and \<open>int(...)\<close> conversion. Finite floats are rationals; strings that are
  compared are ASCII. A set built by the code is the list of its members, tested by equality.
\<close>

datatype pyval = PNone | PBool bool | PInt int | PFloat rat | PStr string
  | PList "pyval list" | PDict "(string \<times> pyval) list"

fun num_of :: "pyval \<Rightarrow> rat option" where
  "num_of (PBool b) = Some (if b then 1 else 0)"
| "num_of (PInt i) = Some (of_int i)"
| "num_of (PFloat q) = Some q"
| "num_of _ = None"

fun py_eq :: "pyval \<Rightarrow> pyval \<Rightarrow> bool"
  and py_eq_list :: "pyval list \<Rightarrow> pyval list \<Rightarrow> bool"
  and py_eq_dict :: "(string \<times> pyval) list \<Rightarrow> (string \<times> pyval) list \<Rightarrow> bool" where
  "py_eq PNone w = (w = PNone)"
| "py_eq (PBool b) w = (num_of w = num_of (PBool b))"
| "py_eq (PInt i) w = (num_of w = num_of (PInt i))"
| "py_eq (PFloat q) w = (num_of w = Some q)"
| "py_eq (PStr s) w = (w = PStr s)"
| "py_eq (PList xs) w = (case w of PList ys \<Rightarrow> py_eq_list xs ys | _ \<Rightarrow> False)"
| "py_eq (PDict d) w =
     (case w of PDict e \<Rightarrow> length d = length e \<and> py_eq_dict d e | _ \<Rightarrow> False)"
| "py_eq_list [] ys = (ys = [])"
| "py_eq_list (x # xs) ys = (case ys of [] \<Rightarrow> False | y # ys' \<Rightarrow> py_eq x y \<and> py_eq_list xs ys')"
| "py_eq_dict [] e = True"
| "py_eq_dict ((k, v) # d) e =
     (case map_of e k of None \<Rightarrow> False | Some w \<Rightarrow> py_eq v w \<and> py_eq_dict d e)"

definition hashable :: "pyval \<Rightarrow> bool" where
  "hashable v = (case v of PList _ \<Rightarrow> False | PDict _ \<Rightarrow> False | _ \<Rightarrow> True)"

definition py_in :: "pyval \<Rightarrow> pyval list \<Rightarrow> bool" where
  "py_in v xs = list_ex (py_eq v) xs"

definition py_truth :: "pyval \<Rightarrow> bool" where
  "py_truth v = (case v of PNone \<Rightarrow> False | PBool b \<Rightarrow> b | PInt i \<Rightarrow> i \<noteq> 0 | PFloat q \<Rightarrow> q \<noteq> 0
     | PStr s \<Rightarrow> s \<noteq> [] | PList xs \<Rightarrow> xs \<noteq> [] | PDict d \<Rightarrow> d \<noteq> [])"

text \<open>\<open>for x in v\<close>: a string yields its characters, a dictionary its keys.\<close>

definition py_iter :: "pyval \<Rightarrow> pyval list result" where
  "py_iter v = (case v of PList xs \<Rightarrow> Inr xs
     | PStr s \<Rightarrow> Inr (map (\<lambda>c. PStr [c]) s)
     | PDict d \<Rightarrow> Inr (map (\<lambda>kv. PStr (fst kv)) d)
     | _ \<Rightarrow> Inl TypeError)"

text \<open>\<open>v.get(k, default)\<close>: only dictionaries have \<open>get\<close>.\<close>

definition py_get :: "pyval \<Rightarrow> string \<Rightarrow> pyval \<Rightarrow> pyval result" where
  "py_get v k dflt = (case v of
       PDict d \<Rightarrow> Inr (case map_of d k of None \<Rightarrow> dflt | Some w \<Rightarrow> w)
     | _ \<Rightarrow> Inl AttributeError)"

text \<open>\<open>int(v)\<close>: floats are truncated towards zero, strings parsed.\<close>

definition py_int :: "pyval \<Rightarrow> int result" where
  "py_int v = (case v of PBool b \<Rightarrow> Inr (if b then 1 else 0) | PInt i \<Rightarrow> Inr i
     | PFloat q \<Rightarrow> Inr (if q < 0 then - \<lfloor>- q\<rfloor> else \<lfloor>q\<rfloor>)
     | PStr s \<Rightarrow> int_of_string s | _ \<Rightarrow> Inl TypeError)"

definition is_list :: "pyval \<Rightarrow> bool" where
  "is_list v = (case v of PList _ \<Rightarrow> True | _ \<Rightarrow> False)"

definition is_dict :: "pyval \<Rightarrow> bool" where
  "is_dict v = (case v of PDict _ \<Rightarrow> True | _ \<Rightarrow> False)"

text \<open>\<open>isinstance(v, type(w))\<close>: \<open>bool\<close> is a subclass of \<open>int\<close>.\<close>

definition isinstance_type :: "pyval \<Rightarrow> pyval \<Rightarrow> bool" where
  "isinstance_type v w = (case w of
       PNone \<Rightarrow> v = PNone
     | PBool _ \<Rightarrow> (case v of PBool _ \<Rightarrow> True | _ \<Rightarrow> False)
     | PInt _ \<Rightarrow> (case v of PInt _ \<Rightarrow> True | PBool _ \<Rightarrow> True | _ \<Rightarrow> False)
     | PFloat _ \<Rightarrow> (case v of PFloat _ \<Rightarrow> True | _ \<Rightarrow> False)
     | PStr _ \<Rightarrow> (case v of PStr _ \<Rightarrow> True | _ \<Rightarrow> False)
     | PList _ \<Rightarrow> is_list v
     | PDict _ \<Rightarrow> is_dict v)"

lemma py_eq_Str [simp]: "py_eq (PStr s) (PStr t) \<longleftrightarrow> s = t"
  by auto

lemma py_eq_Str_right: "py_eq v (PStr t) \<longleftrightarrow> v = PStr t"
  by (cases v) auto

lemma py_eq_refl_list: "(\<And>x. x \<in> set xs \<Longrightarrow> py_eq x x) \<Longrightarrow> py_eq_list xs xs"
  by (induction xs) auto

lemmas pyval_defs = py_get_def py_iter_def py_int_def is_list_def is_dict_def

end
