(* ===== verification/Flagpole.thy ===== *)
theory Flagpole
  imports PyValue
begin

text \<open>
  The feature flag engine: \<open>src/flagpole/conditions.py\<close> (conditions and segments),
  \<open>src/flagpole/evaluation_context.py\<close> (the context a flag is evaluated against, its
  identity hash, the context builder) and \<open>src/flagpole/__init__.py\<close> (features, reading and
  writing their dictionary form). SHA-1 and Python's \<open>str\<close> are arguments (\<open>sha\<close>, \<open>str_of\<close>).
\<close>

section \<open>Conditions\<close>

datatype op_kind = OpIn | OpNotIn | OpContains | OpNotContains | OpEquals | OpNotEquals

fun op_value :: "op_kind \<Rightarrow> string" where
  "op_value OpIn = ''in''"
| "op_value OpNotIn = ''not_in''"
| "op_value OpContains = ''contains''"
| "op_value OpNotContains = ''not_contains''"
| "op_value OpEquals = ''equals''"
| "op_value OpNotEquals = ''not_equals''"

definition op_kinds :: "op_kind list" where
  "op_kinds = [OpIn, OpNotIn, OpContains, OpNotContains, OpEquals, OpNotEquals]"

text \<open>\<open>ConditionOperatorKind(v)\<close>: the member with this value, else a ValueError.\<close>

definition op_kind_of :: "pyval \<Rightarrow> op_kind result" where
  "op_kind_of v = (case find (\<lambda>k. py_eq (PStr (op_value k)) v) op_kinds of
     None \<Rightarrow> Inl ValueError | Some k \<Rightarrow> Inr k)"

datatype cond_exc = ConditionTypeMismatch | CondRaises py_exc

fun create_case_insensitive_set_from_list :: "pyval list \<Rightarrow> cond_exc + pyval list" where
  "create_case_insensitive_set_from_list [] = Inr []"
| "create_case_insensitive_set_from_list (v # vs) =
     (if hashable v
      then bind_result (create_case_insensitive_set_from_list vs)
             (\<lambda>s. Inr ((case v of PStr t \<Rightarrow> PStr (lower t) | _ \<Rightarrow> v) # s))
      else Inl (CondRaises TypeError))"

record condition =
  c_property :: string
  c_value :: pyval
  c_kind :: op_kind

definition lower_str :: "pyval \<Rightarrow> pyval" where
  "lower_str v = (case v of PStr t \<Rightarrow> PStr (lower t) | _ \<Rightarrow> v)"

definition evaluate_in :: "pyval \<Rightarrow> pyval \<Rightarrow> cond_exc + bool" where
  "evaluate_in self_value prop =
     (case self_value of
        PList vs \<Rightarrow>
          if is_list prop \<or> is_dict prop then Inl ConditionTypeMismatch
          else bind_result (create_case_insensitive_set_from_list vs)
                 (\<lambda>s. Inr (py_in (lower_str prop) s))
      | _ \<Rightarrow> Inl ConditionTypeMismatch)"

definition evaluate_contains :: "pyval \<Rightarrow> pyval \<Rightarrow> cond_exc + bool" where
  "evaluate_contains self_value prop =
     (case prop of
        PList ps \<Rightarrow>
          bind_result (create_case_insensitive_set_from_list ps)
            (\<lambda>s. if hashable (lower_str self_value) then Inr (py_in (lower_str self_value) s)
                  else Inl (CondRaises TypeError))
      | _ \<Rightarrow> Inl ConditionTypeMismatch)"

definition evaluate_equals :: "pyval \<Rightarrow> pyval \<Rightarrow> cond_exc + bool" where
  "evaluate_equals self_value prop =
     (if prop = PNone then Inr False
      else if \<not> isinstance_type prop self_value then Inl ConditionTypeMismatch
      else (case (prop, self_value) of
              (PStr p, PStr v) \<Rightarrow> Inr (lower p = lower v)
            | _ \<Rightarrow> Inr (py_eq prop self_value)))"

text \<open>The six condition classes' \<open>_operator_match\<close>.\<close>

definition negate :: "cond_exc + bool \<Rightarrow> cond_exc + bool" where
  "negate r = bind_result r (\<lambda>b. Inr (\<not> b))"

fun operator_match :: "op_kind \<Rightarrow> pyval \<Rightarrow> pyval \<Rightarrow> cond_exc + bool" where
  "operator_match OpIn v p = evaluate_in v p"
| "operator_match OpNotIn v p = negate (evaluate_in v p)"
| "operator_match OpContains v p = evaluate_contains v p"
| "operator_match OpNotContains v p = negate (evaluate_contains v p)"
| "operator_match OpEquals v p = evaluate_equals v p"
| "operator_match OpNotEquals v p = negate (evaluate_equals v p)"

section \<open>The evaluation context\<close>

record evaluation_context =
  ctx_data :: "(string, pyval) dict"
  ctx_identity_fields :: "string list"
  ctx_id :: nat

definition set_identity_fields :: "(string, pyval) dict \<Rightarrow> string list option \<Rightarrow> string list" where
  "set_identity_fields data idfs =
     (let trimmed = (case idfs of None \<Rightarrow> []
                     | Some fs \<Rightarrow> filter (\<lambda>f. f \<in> set (dict_keys data)) fs)
      in if trimmed = [] then dict_keys data else trimmed)"

definition generate_id ::
  "(string \<Rightarrow> nat) \<Rightarrow> (pyval \<Rightarrow> string) \<Rightarrow> (string, pyval) dict \<Rightarrow> string list \<Rightarrow> nat" where
  "generate_id sha str_of data idfs =
     sha (join_on '':''
       (concat (map (\<lambda>k. [k, str_of (case dict_get data k of Some v \<Rightarrow> v | None \<Rightarrow> PNone)])
          (sort (remdups idfs)))))"

definition make_context ::
  "(string \<Rightarrow> nat) \<Rightarrow> (pyval \<Rightarrow> string) \<Rightarrow> (string, pyval) dict \<Rightarrow> string list option \<Rightarrow> evaluation_context"
where
  "make_context sha str_of data idfs =
     (let idf = set_identity_fields data idfs
      in \<lparr>ctx_data = data, ctx_identity_fields = idf,
          ctx_id = generate_id sha str_of data idf\<rparr>)"

definition ctx_get :: "evaluation_context \<Rightarrow> string \<Rightarrow> pyval" where
  "ctx_get ctx k = (case dict_get (ctx_data ctx) k of None \<Rightarrow> PNone | Some v \<Rightarrow> v)"

definition ctx_has :: "evaluation_context \<Rightarrow> string \<Rightarrow> bool" where
  "ctx_has ctx k = (k \<in> set (dict_keys (ctx_data ctx)))"

definition ctx_size :: "evaluation_context \<Rightarrow> nat" where
  "ctx_size ctx = length (ctx_data ctx)"

text \<open>
  The context builder. A transformer returns a dictionary or raises; an exception handler
  returns (\<open>None\<close>) or raises in turn (\<open>Some e\<close>).
\<close>

record 'd builder =
  transformers :: "('d \<Rightarrow> (string, pyval) dict result) list"
  exception_handler :: "(py_exc \<Rightarrow> py_exc option) option"
  b_identity_fields :: "string list"

definition new_builder :: "'d builder" where
  "new_builder = \<lparr>transformers = [], exception_handler = None, b_identity_fields = []\<rparr>"

definition add_context_transformer ::
  "('d \<Rightarrow> (string, pyval) dict result) \<Rightarrow> string list option \<Rightarrow> 'd builder \<Rightarrow> 'd builder" where
  "add_context_transformer t idfs b =
     b\<lparr>transformers := transformers b @ [t],
       b_identity_fields := b_identity_fields b @ (case idfs of None \<Rightarrow> [] | Some fs \<Rightarrow> fs)\<rparr>"

definition add_exception_handler ::
  "(py_exc \<Rightarrow> py_exc option) \<Rightarrow> 'd builder \<Rightarrow> 'd builder result" where
  "add_exception_handler h b =
     (case exception_handler b of
        Some _ \<Rightarrow> Inl (OtherError ''Exception handler is already defined'')
      | None \<Rightarrow> Inr (b\<lparr>exception_handler := Some h\<rparr>))"

fun run_transformers ::
  "(py_exc \<Rightarrow> py_exc option) option \<Rightarrow> ('d \<Rightarrow> (string, pyval) dict result) list \<Rightarrow> 'd
    \<Rightarrow> (string, pyval) dict \<Rightarrow> (string, pyval) dict result" where
  "run_transformers h [] d acc = Inr acc"
| "run_transformers h (t # ts) d acc =
     (case t d of
        Inr upd \<Rightarrow> run_transformers h ts d (dict_merge acc upd)
      | Inl e \<Rightarrow> (case h of
            None \<Rightarrow> Inl e
          | Some f \<Rightarrow> (case f e of Some e' \<Rightarrow> Inl e' | None \<Rightarrow> run_transformers h ts d acc)))"

definition build ::
  "(string \<Rightarrow> nat) \<Rightarrow> (pyval \<Rightarrow> string) \<Rightarrow> 'd builder \<Rightarrow> 'd option \<Rightarrow> evaluation_context result" where
  "build sha str_of b data =
     (case data of
        None \<Rightarrow> Inr (make_context sha str_of [] None)
      | Some d \<Rightarrow> bind_result (run_transformers (exception_handler b) (transformers b) d [])
          (\<lambda>c. Inr (make_context sha str_of c (Some (b_identity_fields b)))))"

section \<open>Segments and features\<close>

definition condition_match :: "condition \<Rightarrow> evaluation_context \<Rightarrow> cond_exc + bool" where
  "condition_match c ctx = operator_match (c_kind c) (c_value c) (ctx_get ctx (c_property c))"

record segment =
  s_name :: string
  s_conditions :: "condition list"
  s_rollout :: "int option"

fun conditions_match :: "condition list \<Rightarrow> evaluation_context \<Rightarrow> cond_exc + bool" where
  "conditions_match [] ctx = Inr True"
| "conditions_match (c # cs) ctx =
     bind_result (condition_match c ctx)
       (\<lambda>m. if m then conditions_match cs ctx else Inr False)"

definition segment_match :: "segment \<Rightarrow> evaluation_context \<Rightarrow> cond_exc + bool" where
  "segment_match s ctx = conditions_match (s_conditions s) ctx"

definition in_rollout :: "segment \<Rightarrow> evaluation_context \<Rightarrow> bool" where
  "in_rollout s ctx =
     (if s_rollout s = Some 0 then False
      else (case s_rollout s of
              Some r \<Rightarrow> if r < 100 then int (ctx_id ctx mod 100) \<le> r else True
            | None \<Rightarrow> True))"

record feature =
  f_name :: string
  f_owner :: string
  f_enabled :: bool
  f_segments :: "segment list"
  f_created_at :: "string option"

fun segments_match :: "segment list \<Rightarrow> evaluation_context \<Rightarrow> cond_exc + bool" where
  "segments_match [] ctx = Inr False"
| "segments_match (s # ss) ctx =
     bind_result (segment_match s ctx)
       (\<lambda>m. if m then Inr (in_rollout s ctx) else segments_match ss ctx)"

definition feature_match :: "feature \<Rightarrow> evaluation_context \<Rightarrow> cond_exc + bool" where
  "feature_match f ctx =
     (if \<not> f_enabled f then Inr False else segments_match (f_segments f) ctx)"

section \<open>Reading and writing the dictionary form\<close>

definition condition_from_dict :: "(pyval \<Rightarrow> string) \<Rightarrow> pyval \<Rightarrow> condition result" where
  "condition_from_dict str_of data =
     bind_result (py_get data ''operator'' (PStr ''invalid'')) (\<lambda>opv.
     bind_result (op_kind_of opv) (\<lambda>k.
     bind_result (py_get data ''property'' PNone) (\<lambda>p.
     bind_result (py_get data ''value'' PNone) (\<lambda>v.
       Inr \<lparr>c_property = str_of p, c_value = v, c_kind = k\<rparr>))))"

definition segment_from_dict :: "(pyval \<Rightarrow> string) \<Rightarrow> pyval \<Rightarrow> segment result" where
  "segment_from_dict str_of data =
     bind_result (py_get data ''conditions'' (PList [])) (\<lambda>cv.
     bind_result (py_iter cv) (\<lambda>cs.
     bind_result (traverse (condition_from_dict str_of) cs) (\<lambda>conds.
     bind_result (py_get data ''name'' (PStr [])) (\<lambda>nm.
     bind_result (py_get data ''rollout'' (PInt 100)) (\<lambda>rv.
     bind_result (py_int rv) (\<lambda>r.
       Inr \<lparr>s_name = str_of nm, s_conditions = conds, s_rollout = Some r\<rparr>))))))"

datatype feature_exc = InvalidFeatureFlagConfiguration | FeatureRaises py_exc

definition from_feature_dictionary ::
  "(pyval \<Rightarrow> string) \<Rightarrow> string \<Rightarrow> (string, pyval) dict \<Rightarrow> feature_exc + feature" where
  "from_feature_dictionary str_of name cfg =
     (let get = (\<lambda>k dflt. case dict_get cfg k of None \<Rightarrow> dflt | Some v \<Rightarrow> v)
      in case get ''segments'' PNone of
           PList segs \<Rightarrow>
             (case traverse (segment_from_dict str_of) segs of
                Inl e \<Rightarrow> Inl InvalidFeatureFlagConfiguration
              | Inr ss \<Rightarrow>
                  Inr \<lparr>f_name = name, f_owner = str_of (get ''owner'' (PStr [])),
                       f_enabled = py_truth (get ''enabled'' (PBool True)),
                       f_segments = ss,
                       f_created_at = Some (str_of (get ''created_at'' PNone))\<rparr>)
         | _ \<Rightarrow> Inl InvalidFeatureFlagConfiguration)"

text \<open>
  \<open>from_feature_config_json\<close> after \<open>orjson.loads\<close>: \<open>None\<close> stands for a JSONDecodeError.
\<close>

definition from_feature_config ::
  "(pyval \<Rightarrow> string) \<Rightarrow> string \<Rightarrow> pyval option \<Rightarrow> feature_exc + feature" where
  "from_feature_config str_of name parsed =
     (case parsed of
        None \<Rightarrow> Inl InvalidFeatureFlagConfiguration
      | Some (PDict cfg) \<Rightarrow>
          if name = [] then Inl InvalidFeatureFlagConfiguration
          else from_feature_dictionary str_of name cfg
      | Some _ \<Rightarrow> Inl InvalidFeatureFlagConfiguration)"

text \<open>
  \<open>from_bulk_json\<close> and \<open>from_bulk_yaml\<close> after parsing: every entry's value must be a
  dictionary, for \<open>from_feature_dictionary\<close> calls its \<open>get\<close>.
\<close>

fun from_bulk :: "(pyval \<Rightarrow> string) \<Rightarrow> (string \<times> pyval) list \<Rightarrow> feature_exc + feature list" where
  "from_bulk str_of [] = Inr []"
| "from_bulk str_of ((name, v) # rest) =
     (case v of
        PDict cfg \<Rightarrow> bind_result (from_feature_dictionary str_of name cfg)
          (\<lambda>f. bind_result (from_bulk str_of rest) (\<lambda>fs. Inr (f # fs)))
      | _ \<Rightarrow> Inl (FeatureRaises AttributeError))"

definition condition_as_dict :: "condition \<Rightarrow> pyval" where
  "condition_as_dict c = PDict [(''property'', PStr (c_property c)), (''value'', c_value c),
     (''operator'', PStr (op_value (c_kind c)))]"

definition opt_val :: "('a \<Rightarrow> pyval) \<Rightarrow> 'a option \<Rightarrow> pyval" where
  "opt_val f x = (case x of None \<Rightarrow> PNone | Some y \<Rightarrow> f y)"

definition segment_as_dict :: "segment \<Rightarrow> pyval" where
  "segment_as_dict s = PDict [(''name'', PStr (s_name s)),
     (''conditions'', PList (map condition_as_dict (s_conditions s))),
     (''rollout'', opt_val PInt (s_rollout s))]"

definition feature_as_dict :: "feature \<Rightarrow> (string, pyval) dict" where
  \<comment> \<open>\<open>dataclasses.asdict\<close> without the popped \<open>name\<close>\<close>
  "feature_as_dict f = [(''owner'', PStr (f_owner f)), (''enabled'', PBool (f_enabled f)),
     (''segments'', PList (map segment_as_dict (f_segments f))),
     (''created_at'', opt_val PStr (f_created_at f))]"

definition to_dict :: "feature \<Rightarrow> (string \<times> pyval) list" where
  "to_dict f = [(f_name f, PDict (feature_as_dict f))]"


section \<open>Lemmas\<close>

lemma in_rollout_cases:
  "in_rollout s ctx \<longleftrightarrow> (case s_rollout s of None \<Rightarrow> True
     | Some r \<Rightarrow> r \<noteq> 0 \<and> (r < 100 \<longrightarrow> int (ctx_id ctx mod 100) \<le> r))"
  by (auto simp: in_rollout_def split: option.splits)

lemma segments_match_True:
  "segments_match ss ctx = Inr True \<longleftrightarrow>
     (\<exists>pre s post. ss = pre @ s # post \<and> (\<forall>p \<in> set pre. segment_match p ctx = Inr False) \<and>
        segment_match s ctx = Inr True \<and> in_rollout s ctx)"
proof (induction ss)
  case Nil
  show ?case by simp
next
  case (Cons s ss)
  show ?case
  proof (cases "segment_match s ctx")
    case (Inl e)
    then show ?thesis by (auto simp: Cons_eq_append_conv)
  next
    case (Inr m)
    show ?thesis
    proof (cases m)
      case True
      with Inr show ?thesis by (force simp: Cons_eq_append_conv)
    next
      case False
      with Inr have "segments_match (s # ss) ctx = segments_match ss ctx" by simp
      with Cons.IH Inr False show ?thesis
        by (auto simp: Cons_eq_append_conv) (metis append_Cons set_ConsD)+
    qed
  qed
qed

lemma conditions_match_True:
  "conditions_match cs ctx = Inr True \<longleftrightarrow> (\<forall>c \<in> set cs. condition_match c ctx = Inr True)"
  by (induction cs) (auto simp: bind_result_Inr_iff)

lemma conditions_match_False:
  "conditions_match cs ctx = Inr False \<longleftrightarrow>
     (\<exists>pre c post. cs = pre @ c # post \<and> (\<forall>p \<in> set pre. condition_match p ctx = Inr True) \<and>
        condition_match c ctx = Inr False)"
proof (induction cs)
  case Nil
  show ?case by simp
next
  case (Cons c cs)
  show ?case
  proof (cases "condition_match c ctx")
    case (Inl e)
    then show ?thesis by (auto simp: Cons_eq_append_conv)
  next
    case (Inr m)
    show ?thesis
    proof (cases m)
      case False
      with Inr show ?thesis by (force simp: Cons_eq_append_conv)
    next
      case True
      with Inr have "conditions_match (c # cs) ctx = conditions_match cs ctx" by simp
      with Cons.IH Inr True show ?thesis
        by (auto simp: Cons_eq_append_conv) (metis append_Cons set_ConsD)+
    qed
  qed
qed

lemma negate_Inr [simp]: "negate (Inr b) = Inr (\<not> b)"
  by (simp add: negate_def)

lemma negate_eq_Inr: "negate r = Inr b \<longleftrightarrow> r = Inr (\<not> b)"
  by (cases r) (auto simp: negate_def)

lemma insensitive_set_lower:
  "create_case_insensitive_set_from_list (map lower_str vs) = create_case_insensitive_set_from_list vs"
proof (induction vs)
  case (Cons v vs)
  then show ?case by (cases v) (auto simp: lower_str_def hashable_def)
qed simp

lemma evaluate_in_lower: "evaluate_in (PList vs) (PStr (lower s)) = evaluate_in (PList vs) (PStr s)"
  by (simp add: evaluate_in_def is_list_def is_dict_def lower_str_def)

lemma evaluate_in_Str:
  "evaluate_in (PList vs) (PStr s) = Inr b \<Longrightarrow>
     b \<longleftrightarrow> (\<exists>t. PStr t \<in> set vs \<and> lower t = lower s)"
proof -
  have *: "create_case_insensitive_set_from_list vs = Inr xs \<Longrightarrow>
      py_in (PStr (lower s)) xs \<longleftrightarrow> (\<exists>t. PStr t \<in> set vs \<and> lower t = lower s)" for xs
  proof (induction vs arbitrary: xs)
    case (Cons v vs)
    then show ?case
      by (cases v) (auto simp: bind_result_Inr_iff py_in_def hashable_def split: if_splits)
  qed (simp add: py_in_def)
  assume "evaluate_in (PList vs) (PStr s) = Inr b"
  with * show ?thesis
    by (auto simp: evaluate_in_def is_list_def is_dict_def lower_str_def bind_result_Inr_iff)
qed

lemma op_kind_of_value [simp]: "op_kind_of (PStr (op_value k)) = Inr k"
  by (cases k) (simp_all add: op_kind_of_def op_kinds_def)

lemma condition_roundtrip:
  "(\<And>s. str_of (PStr s) = s) \<Longrightarrow> condition_from_dict str_of (condition_as_dict c) = Inr c"
  by (simp add: condition_from_dict_def condition_as_dict_def py_get_def)

lemma segment_roundtrip:
  assumes "\<And>s. str_of (PStr s) = s" and "s_rollout s = Some r"
  shows "segment_from_dict str_of (segment_as_dict s) = Inr s"
proof -
  have "traverse (condition_from_dict str_of) (map condition_as_dict (s_conditions s)) =
      Inr (map id (s_conditions s))"
    unfolding traverse_map using assms(1) by (intro traverse_Inr) (simp add: condition_roundtrip)
  then show ?thesis
    using assms
    by (simp add: segment_from_dict_def segment_as_dict_def pyval_defs opt_val_def)
qed

lemma generate_id_agree:
  "(\<And>k. k \<in> set idfs \<Longrightarrow> dict_get d k = dict_get e k) \<Longrightarrow>
     generate_id sha str_of d idfs = generate_id sha str_of e idfs"
  unfolding generate_id_def by (intro arg_cong [of _ _ sha] arg_cong [of _ _ "join_on _"]
      arg_cong [of _ _ concat] map_cong refl) auto

lemma generate_id_set:
  "set fs = set gs \<Longrightarrow> generate_id sha str_of d fs = generate_id sha str_of d gs"
  by (simp add: generate_id_def sorted_list_of_set_sort_remdups [symmetric])

lemma run_transformers_swallow:
  "run_transformers (Some (\<lambda>e. None)) ts d acc =
     Inr (foldl (\<lambda>a t. case t d of Inl e \<Rightarrow> a | Inr upd \<Rightarrow> dict_merge a upd) acc ts)"
  by (induction ts arbitrary: acc) (auto split: sum.splits)

lemma run_transformers_wf:
  "run_transformers h ts d acc = Inr c \<Longrightarrow> dict_wf acc \<Longrightarrow> dict_wf c"
  by (induction h ts d acc rule: run_transformers.induct) (auto split: sum.splits option.splits)

text \<open>
  A feature is granted exactly when it is enabled and, taking its segments in order, the
  first segment whose conditions all hold admits the context's bucket: the segments before it
  were evaluated and failed, and no later segment is consulted, so a matching segment with
  rollout 0 turns the feature off even where a later one would admit the context.
\<close>

theorem feature_match_first_segment:
  "feature_match f ctx = Inr True \<longleftrightarrow>
     f_enabled f \<and>
     (\<exists>pre s post. f_segments f = pre @ s # post \<and>
        (\<forall>p \<in> set pre. segment_match p ctx = Inr False) \<and>
        (\<forall>c \<in> set (s_conditions s). condition_match c ctx = Inr True) \<and> in_rollout s ctx)"
  by (simp add: feature_match_def segments_match_True segment_match_def conditions_match_True)

theorem feature_match_first_segment_witness:
  "feature_match \<lparr>f_name = ''f'', f_owner = ''o'', f_enabled = True,
      f_segments = [\<lparr>s_name = ''a'', s_conditions = [\<lparr>c_property = ''slug'', c_value = PList [PStr ''Acme''], c_kind = OpIn\<rparr>],
        s_rollout = Some 50\<rparr>], f_created_at = None\<rparr>
     \<lparr>ctx_data = [(''slug'', PStr ''acme'')], ctx_identity_fields = [''slug''], ctx_id = 150\<rparr> = Inr True"
proof -
  let ?c = "\<lparr>c_property = ''slug'', c_value = PList [PStr ''Acme''], c_kind = OpIn\<rparr>"
  let ?ctx = "\<lparr>ctx_data = [(''slug'', PStr ''acme'')], ctx_identity_fields = [''slug''], ctx_id = 150\<rparr>"
  have l: "lower ''Acme'' = ''acme''" "lower ''acme'' = ''acme''" by code_simp+
  then have "condition_match ?c ?ctx = Inr True"
    by (simp add: condition_match_def evaluate_in_def ctx_get_def dict_get_def is_list_def is_dict_def
        lower_str_def hashable_def py_in_def)
  then show ?thesis
    unfolding feature_match_first_segment
    by (intro conjI exI [of _ "[]"] exI) (auto simp: in_rollout_def)
qed

text \<open>
  How many of the 100 rollout buckets a segment admits: none for a rate of 0 or less, all
  of them for 99 and more (and for no rate), and one more than the rate between: a rate of
  \<open>r\<close> per cent admits \<open>r + 1\<close> buckets, since the code compares with \<open><=\<close>.
\<close>

theorem rollout_bucket_count:
  "card {b. b < 100 \<and> in_rollout (s\<lparr>s_rollout := ro\<rparr>) (ctx\<lparr>ctx_id := b\<rparr>)} =
     (case ro of None \<Rightarrow> 100
      | Some r \<Rightarrow> if r \<le> 0 then 0 else if r < 99 then Suc (nat r) else 100)"
proof (cases ro)
  case None
  then show ?thesis by (simp add: in_rollout_cases)
next
  case (Some r)
  have "{b. b < 100 \<and> in_rollout (s\<lparr>s_rollout := ro\<rparr>) (ctx\<lparr>ctx_id := b\<rparr>)} =
      (if r \<le> 0 then {} else if r < 99 then {..< Suc (nat r)} else {..< 100})"
    using Some by (auto simp: in_rollout_cases le_nat_iff)
  with Some show ?thesis by simp
qed

text \<open>
  Reading back the dictionary form a feature was written to gives the feature again,
  provided it has a creation time and every segment a rollout rate, and \<open>str\<close> is the identity
  on strings.
\<close>

theorem feature_dictionary_roundtrip:
  assumes "\<And>s. str_of (PStr s) = s"
    and "f_created_at f = Some t" and "\<forall>s \<in> set (f_segments f). s_rollout s \<noteq> None"
  shows "from_feature_dictionary str_of (f_name f) (feature_as_dict f) = Inr f"
proof -
  have "traverse (segment_from_dict str_of) (map segment_as_dict (f_segments f)) =
      Inr (map id (f_segments f))"
    unfolding traverse_map using assms(1,3)
    by (intro traverse_Inr) (auto simp: segment_roundtrip)
  then show ?thesis
    using assms by (simp add: from_feature_dictionary_def feature_as_dict_def dict_get_def
        opt_val_def py_truth_def)
qed

theorem feature_dictionary_roundtrip_witness:
  "from_feature_dictionary (\<lambda>v. case v of PStr s \<Rightarrow> s | _ \<Rightarrow> ''None'') ''f''
     (feature_as_dict \<lparr>f_name = ''f'', f_owner = ''o'', f_enabled = True,
        f_segments = [\<lparr>s_name = ''a'', s_conditions = [], s_rollout = Some 50\<rparr>], f_created_at = Some ''t''\<rparr>) =
   Inr \<lparr>f_name = ''f'', f_owner = ''o'', f_enabled = True,
        f_segments = [\<lparr>s_name = ''a'', s_conditions = [], s_rollout = Some 50\<rparr>], f_created_at = Some ''t''\<rparr>"
  using feature_dictionary_roundtrip [of "\<lambda>v. case v of PStr s \<Rightarrow> s | _ \<Rightarrow> ''None''"
      "\<lparr>f_name = ''f'', f_owner = ''o'', f_enabled = True,
        f_segments = [\<lparr>s_name = ''a'', s_conditions = [], s_rollout = Some 50\<rparr>], f_created_at = Some ''t''\<rparr>" "''t''"]
  by simp

text \<open>
  Two contexts built with identity fields that all occur in both, and that agree on those
  fields, have the same identity, whatever else they hold and in whatever order: rollout
  membership is stable.
\<close>

theorem context_identity_stable:
  assumes "fs \<noteq> []" and "set fs \<subseteq> set (dict_keys d)" and "set fs \<subseteq> set (dict_keys e)"
    and "\<And>k. k \<in> set fs \<Longrightarrow> dict_get d k = dict_get e k" and "set gs = set fs"
  shows "ctx_id (make_context sha str_of d (Some fs)) = ctx_id (make_context sha str_of e (Some gs))"
proof -
  have "filter (\<lambda>f. f \<in> set (dict_keys d)) fs = fs" "filter (\<lambda>f. f \<in> set (dict_keys e)) gs = gs"
    using assms by (auto simp: filter_id_conv)
  then have "ctx_id (make_context sha str_of d (Some fs)) = generate_id sha str_of d fs"
    "ctx_id (make_context sha str_of e (Some gs)) = generate_id sha str_of e gs"
    using assms(1,5) by (auto simp: make_context_def set_identity_fields_def Let_def)
  moreover have "generate_id sha str_of d fs = generate_id sha str_of e fs"
    using assms(4) by (rule generate_id_agree)
  ultimately show ?thesis using generate_id_set [OF assms(5)] by simp
qed

theorem context_identity_stable_witness:
  "ctx_id (make_context length (\<lambda>v. ''v'') [(''org'', PInt 1), (''user'', PInt 7)] (Some [''org''])) =
   ctx_id (make_context length (\<lambda>v. ''v'') [(''org'', PInt 1)] (Some [''org'', ''org'']))"
  by (rule context_identity_stable) (auto simp: dict_keys_def dict_get_def)

end
