(* ===== verification/Cursors.thy ===== *)
theory Cursors
  imports Complex_Main Prelude
begin

text \<open>
  Pagination cursors, \<open>src/src/sentry/utils/cursors.py\<close>: the cursor value with its text form and
  the parsers of the three cursor classes, and \<open>build_cursor\<close>, which computes the previous and
  the next cursor of a page from the rows fetched for it. A key function takes the row and the
  \<open>for_prev\<close> flag. The text form of a float and its parser are arguments.
\<close>

section \<open>Cursor values\<close>

datatype cursor_value = CInt int | CFloat rat | CStr string

fun cv_num :: "cursor_value \<Rightarrow> rat option" where
  "cv_num (CInt i) = Some (of_int i)"
| "cv_num (CFloat q) = Some q"
| "cv_num (CStr s) = None"

definition cv_truth :: "cursor_value \<Rightarrow> bool" where
  "cv_truth v = (case v of CInt i \<Rightarrow> i \<noteq> 0 | CFloat q \<Rightarrow> q \<noteq> 0 | CStr s \<Rightarrow> s \<noteq> [])"

definition cv_eq :: "cursor_value \<Rightarrow> cursor_value \<Rightarrow> bool" where
  "cv_eq v w = (case (v, w) of (CStr s, CStr t) \<Rightarrow> s = t
     | _ \<Rightarrow> cv_num v \<noteq> None \<and> cv_num v = cv_num w)"

text \<open>\<open>v <= w\<close>; a string and a number do not compare.\<close>

definition cv_le :: "cursor_value \<Rightarrow> cursor_value \<Rightarrow> bool result" where
  "cv_le v w = (case (v, w) of
       (CStr s, CStr t) \<Rightarrow> Inr (s \<le> t)
     | _ \<Rightarrow> (case (cv_num v, cv_num w) of (Some p, Some q) \<Rightarrow> Inr (p \<le> q) | _ \<Rightarrow> Inl TypeError))"

record cursor =
  cur_value :: cursor_value
  cur_offset :: int
  cur_is_prev :: bool
  cur_has_results :: "bool option"

definition mk_cursor :: "cursor_value \<Rightarrow> int \<Rightarrow> bool \<Rightarrow> bool option \<Rightarrow> cursor" where
  "mk_cursor v off prev has =
     \<lparr>cur_value = v, cur_offset = off, cur_is_prev = prev, cur_has_results = has\<rparr>"

definition first_cursor :: cursor where
  "first_cursor = mk_cursor (CInt 0) 0 False None"

definition cv_str :: "(rat \<Rightarrow> string) \<Rightarrow> cursor_value \<Rightarrow> string" where
  "cv_str float_str v = (case v of CInt i \<Rightarrow> int_str i | CFloat q \<Rightarrow> float_str q | CStr s \<Rightarrow> s)"

definition cursor_str :: "(rat \<Rightarrow> string) \<Rightarrow> cursor \<Rightarrow> string" where
  "cursor_str float_str c =
     cv_str float_str (cur_value c) @ '':'' @ int_str (cur_offset c) @ '':'' @
       int_str (if cur_is_prev c then 1 else 0)"

definition cursor_eq :: "cursor \<Rightarrow> cursor \<Rightarrow> bool" where
  "cursor_eq c d = (cv_eq (cur_value c) (cur_value d) \<and> cur_offset c = cur_offset d \<and>
     cur_is_prev c = cur_is_prev d \<and> cur_has_results c = cur_has_results d)"

definition cursor_bool :: "cursor \<Rightarrow> bool" where
  "cursor_bool c = (cur_has_results c = Some True)"

text \<open>\<open>s.rsplit(":", 2)\<close>: at most two splits, from the right.\<close>

definition rsplit2 :: "char \<Rightarrow> string \<Rightarrow> string list" where
  "rsplit2 sep s =
     (let parts = split_on sep s; n = length parts
      in if n \<le> 3 then parts else join_on [sep] (take (n - 2) parts) # drop (n - 2) parts)"

definition cursor_from_string :: "(string \<Rightarrow> rat result) \<Rightarrow> string \<Rightarrow> cursor result" where
  "cursor_from_string float_of s =
     (case split_on (CHR '':'') s of
        [b0, b1, b2] \<Rightarrow>
          (case (if CHR ''.'' \<in> set b0 then bind_result (float_of b0) (\<lambda>q. Inr (CFloat q))
                 else bind_result (int_of_string b0) (\<lambda>i. Inr (CInt i))) of
             Inl e \<Rightarrow> Inl ValueError
           | Inr v \<Rightarrow>
               bind_result (int_of_string b1) (\<lambda>off.
               bind_result (int_of_string b2) (\<lambda>p. Inr (mk_cursor v off (p \<noteq> 0) None))))
      | _ \<Rightarrow> Inl ValueError)"

definition scim_cursor_from_string :: "string \<Rightarrow> cursor result" where
  "scim_cursor_from_string s =
     bind_result (int_of_string s) (\<lambda>i. Inr (mk_cursor (CInt 0) (i - 1) False None))"

definition string_cursor_from_string :: "string \<Rightarrow> cursor result" where
  "string_cursor_from_string s =
     (case rsplit2 (CHR '':'') s of
        [b0, b1, b2] \<Rightarrow>
          bind_result (int_of_string b1) (\<lambda>off.
          bind_result (int_of_string b2) (\<lambda>p. Inr (mk_cursor (CStr b0) off (p \<noteq> 0) None)))
      | _ \<Rightarrow> Inl ValueError)"

section \<open>Building the cursors of a page\<close>

type_synonym 'a key_fn = "'a \<Rightarrow> bool \<Rightarrow> cursor_value"

text \<open>The scan that counts how many keys tie with (or pass) the boundary value.\<close>

fun tie_count :: "bool \<Rightarrow> cursor_value \<Rightarrow> cursor_value list \<Rightarrow> int result" where
  "tie_count want_smaller v [] = Inr 0"
| "tie_count want_smaller v (w # ws) =
     bind_result (cv_le v w) (\<lambda>larger.
     bind_result (cv_le w v) (\<lambda>smaller.
       if (want_smaller \<and> smaller) \<or> (\<not> want_smaller \<and> larger)
       then bind_result (tie_count want_smaller v ws) (\<lambda>n. Inr (1 + n))
       else Inr 0))"

definition build_next_values ::
  "cursor \<Rightarrow> 'a list \<Rightarrow> 'a key_fn \<Rightarrow> int \<Rightarrow> bool \<Rightarrow> (cursor_value \<times> int \<times> bool) result" where
  "build_next_values c results key limit is_desc =
     (let num = int (length results); offset = cur_offset c;
          value = (if \<not> cv_truth (cur_value c) \<and> results \<noteq> [] then key (hd results) False
                   else cur_value c)
      in if cur_is_prev c then Inr (value, 0, True)
         else if results = [] then Inr (value, offset, False)
         else
           let has_next = num > limit; next_value = key (last results) False
           in if cv_eq next_value value then Inr (next_value, offset + limit, has_next)
              else bind_result
                (tie_count is_desc next_value
                   (map (\<lambda>r. key r False)
                      (if has_next then tl (rev results) else rev results)))
                (\<lambda>n. Inr (next_value, n, has_next)))"

definition build_prev_values ::
  "cursor \<Rightarrow> 'a list \<Rightarrow> 'a key_fn \<Rightarrow> int \<Rightarrow> bool \<Rightarrow> (cursor_value \<times> int \<times> bool) result" where
  "build_prev_values c results key limit is_desc =
     (let num = int (length results); value = cur_value c; offset = cur_offset c;
          is_prev = cur_is_prev c;
          has_prev = (if is_prev then num > limit else cv_truth value \<or> offset \<noteq> 0);
          first = (if is_prev \<and> has_prev then 1 else 0 :: nat)
      in bind_result
           (if results = [] then Inr (CInt 0)
            else if first < length results then Inr (key (results ! first) True)
            else Inl IndexError)
           (\<lambda>prev_value.
              if \<not> (is_prev \<and> results \<noteq> [])
              then Inr (prev_value, if is_prev then offset else 0, has_prev)
              else if cv_eq prev_value value then Inr (prev_value, offset + limit, has_prev)
              else bind_result
                (tie_count (\<not> is_desc) prev_value
                   (map (\<lambda>r. key r True) (tl (if has_prev then tl results else results))))
                (\<lambda>n. Inr (prev_value, n, has_prev))))"

record 'a cursor_result =
  cr_results :: "'a list"
  cr_next :: cursor
  cr_prev :: cursor
  cr_hits :: "int option"
  cr_max_hits :: "int option"

definition or_zero :: "cursor_value \<Rightarrow> cursor_value" where
  "or_zero v = (if cv_truth v then v else CInt 0)"

definition build_cursor ::
  "'a list \<Rightarrow> 'a key_fn \<Rightarrow> int \<Rightarrow> bool \<Rightarrow> cursor option \<Rightarrow> int option \<Rightarrow> int option
    \<Rightarrow> ('a list \<Rightarrow> 'a list) option \<Rightarrow> 'a cursor_result result" where
  "build_cursor results key limit is_desc copt hits max_hits on_results =
     (let c = (case copt of None \<Rightarrow> first_cursor | Some c \<Rightarrow> c)
      in bind_result (build_next_values c results key limit is_desc)
           (\<lambda>(next_value, next_offset, has_next).
         bind_result (build_prev_values c results key limit is_desc)
           (\<lambda>(prev_value, prev_offset, has_prev).
         let page = (if cur_is_prev c \<and> has_prev then tl results
                     else if \<not> cur_is_prev c then py_slice 0 limit results else results)
         in Inr \<lparr>cr_results = (case on_results of None \<Rightarrow> page | Some f \<Rightarrow> f page),
                 cr_next = mk_cursor (or_zero next_value) next_offset False (Some has_next),
                 cr_prev = mk_cursor (or_zero prev_value) prev_offset True (Some has_prev),
                 cr_hits = hits, cr_max_hits = max_hits\<rparr>)))"

section \<open>Lemmas\<close>

lemma mk_cursor_sel [simp]:
  "cur_value (mk_cursor v off p h) = v" "cur_offset (mk_cursor v off p h) = off"
  "cur_is_prev (mk_cursor v off p h) = p" "cur_has_results (mk_cursor v off p h) = h"
  by (simp_all add: mk_cursor_def)

lemma cv_eq_refl [simp]: "cv_eq v v"
  by (cases v) (simp_all add: cv_eq_def)

lemma cv_eq_sym: "cv_eq v w \<longleftrightarrow> cv_eq w v"
  by (cases v; cases w) (auto simp: cv_eq_def)

lemma cv_eq_trans: "cv_eq u v \<Longrightarrow> cv_eq v w \<Longrightarrow> cv_eq u w"
  by (cases u; cases v; cases w) (auto simp: cv_eq_def)

lemma cv_eq_Int [simp]: "cv_eq (CInt i) (CInt j) \<longleftrightarrow> i = j"
  by (simp add: cv_eq_def)

lemma cv_truth_Int [simp]: "cv_truth (CInt i) \<longleftrightarrow> i \<noteq> 0"
  by (simp add: cv_truth_def)

lemma or_zero_Int [simp]: "or_zero (CInt i) = CInt i"
  by (simp add: or_zero_def)

lemma cv_le_Int [simp]: "cv_le (CInt i) (CInt j) = Inr (i \<le> j)"
  by (simp add: cv_le_def)

lemma colon_notin [simp]: "CHR '':'' \<notin> set (int_str i)"
  by (rule int_str_no_colon)

lemma split_two_ints:
  "split_on (CHR '':'') (int_str i @ CHR '':'' # int_str j) = [int_str i, int_str j]"
  by (simp add: split_on_append split_on_nosep)

lemma split_on_append_gen:
  "split_on sep (s @ sep # t) = split_on sep s @ split_on sep t"
proof (induction s)
  case (Cons c s)
  obtain w ws where "split_on sep s = w # ws"
    using split_on_nonempty by (metis neq_Nil_conv)
  with Cons show ?case by auto
qed simp

lemma rsplit2_two:
  "a \<notin> set t \<Longrightarrow> a \<notin> set u \<Longrightarrow> rsplit2 a (s @ a # t @ a # u) = [s, t, u]"
proof -
  assume t: "a \<notin> set t" and u: "a \<notin> set u"
  have parts: "split_on a (s @ a # t @ a # u) = split_on a s @ [t, u]"
    using t u by (simp add: split_on_append_gen split_on_append split_on_nosep)
  show ?thesis
  proof (cases "length (split_on a s) \<le> 1")
    case True
    then obtain w where w: "split_on a s = [w]"
      using split_on_nonempty [of a s] by (cases "split_on a s") auto
    then have "w = s" using join_split [of a s] by simp
    with parts w show ?thesis by (simp add: rsplit2_def)
  next
    case False
    with parts show ?thesis by (simp add: rsplit2_def join_split)
  qed
qed

lemma int_01 [simp]: "int_of_string (int_str (if b then 1 else 0)) = Inr (if b then 1 else 0)"
  by (rule int_of_int_str)

lemma no_dot_int_str: "CHR ''.'' \<notin> set (int_str i)"
  by (auto simp: int_str_def dest!: nat_digits_set simp: is_digit_def)

text \<open>The integer scan counts the leading run of keys on the wanted side of the boundary.\<close>

lemma tie_count_Int:
  "tie_count d (CInt v) (map CInt ws) =
     Inr (int (length (takeWhile (\<lambda>w. if d then w \<le> v else v \<le> w) ws)))"
  by (induction ws) auto

lemma tie_count_keys: "\<exists>n. tie_count d (CInt v) (map (\<lambda>r. CInt (k r)) xs) = Inr n"
  using tie_count_Int [of d v "map k xs"] by (auto simp: comp_def)

lemma build_next_values_page:
  assumes "\<not> cur_is_prev c" and "results \<noteq> []"
  shows "\<exists>n. build_next_values c results (\<lambda>r p. CInt (k r)) limit is_desc =
    Inr (CInt (k (last results)), n, int (length results) > limit)"
proof -
  obtain n where "tie_count is_desc (CInt (k (last results)))
      (map (\<lambda>r. CInt (k r)) (if int (length results) > limit then tl (rev results) else rev results)) = Inr n"
    using tie_count_keys by blast
  with assms show ?thesis by (auto simp: build_next_values_def Let_def)
qed

text \<open>
  Reading back the text form of a cursor with an integer value gives the same value, offset
  and direction (\<open>has_results\<close> is not written), and a string cursor survives even when its
  value contains colons.
\<close>

theorem cursor_string_roundtrip:
  "cursor_from_string float_of (cursor_str float_str (mk_cursor (CInt i) off p h)) =
     Inr (mk_cursor (CInt i) off p None) \<and>
   string_cursor_from_string (cursor_str float_str (mk_cursor (CStr s) off p h)) =
     Inr (mk_cursor (CStr s) off p None)"
proof (intro conjI)
  have "split_on (CHR '':'') (cursor_str float_str (mk_cursor (CInt i) off p h)) =
      [int_str i, int_str off, int_str (if p then 1 else 0)]"
    by (simp add: cursor_str_def cv_str_def split_on_append split_on_nosep del: if_distrib)
  then show "cursor_from_string float_of (cursor_str float_str (mk_cursor (CInt i) off p h)) =
      Inr (mk_cursor (CInt i) off p None)"
    by (simp add: cursor_from_string_def no_dot_int_str)
  have "rsplit2 (CHR '':'') (cursor_str float_str (mk_cursor (CStr s) off p h)) =
      [s, int_str off, int_str (if p then 1 else 0)]"
    by (simp add: cursor_str_def cv_str_def rsplit2_two)
  then show "string_cursor_from_string (cursor_str float_str (mk_cursor (CStr s) off p h)) =
      Inr (mk_cursor (CStr s) off p None)"
    by (simp add: string_cursor_from_string_def)
qed

text \<open>
  A page of a forward cursor over integer keys never exceeds the limit and is a prefix of
  the fetched rows; its next cursor points at the last fetched row's key and reports more
  results exactly when more rows than the limit were fetched.
\<close>

theorem build_cursor_forward_page:
  assumes "results \<noteq> []" and "0 \<le> limit" and "\<not> cur_is_prev c"
  shows "\<exists>r. build_cursor results (\<lambda>x p. CInt (k x)) limit is_desc (Some c) hits mh None = Inr r \<and>
    cr_results r = take (nat limit) results \<and>
    cur_value (cr_next r) = CInt (k (last results)) \<and>
    cursor_bool (cr_next r) = (limit < int (length results)) \<and>
    cursor_bool (cr_prev r) = (cv_truth (cur_value c) \<or> cur_offset c \<noteq> 0)"
proof -
  obtain n where n: "build_next_values c results (\<lambda>r p. CInt (k r)) limit is_desc =
      Inr (CInt (k (last results)), n, limit < int (length results))"
    using build_next_values_page [OF assms(3,1), of k limit is_desc] by auto
  have p: "build_prev_values c results (\<lambda>r p. CInt (k r)) limit is_desc =
      Inr (CInt (k (results ! 0)), 0, cv_truth (cur_value c) \<or> cur_offset c \<noteq> 0)"
    using assms by (simp add: build_prev_values_def Let_def)
  show ?thesis
    using assms by (simp add: build_cursor_def n p cursor_bool_def py_slice_nonneg)
qed

theorem build_cursor_forward_page_witness:
  "\<exists>r. build_cursor [3, 5, 8 :: int] (\<lambda>x p. CInt x) 2 False (Some first_cursor) None None None = Inr r \<and>
    cr_results r = [3, 5] \<and> cur_value (cr_next r) = CInt 8 \<and> cursor_bool (cr_next r)"
  using build_cursor_forward_page [of "[3, 5, 8 :: int]" 2 first_cursor "\<lambda>x. x" False None None]
  by (auto simp: first_cursor_def numeral_2_eq_2)

end
