(* ===== verification/Paginators.thy ===== *)
theory Paginators
  imports Cursors "HOL-Library.Product_Lexorder"
begin

text \<open>
  The paginators of \<open>src/src/sentry/api/paginator.py\<close>. A Django queryset that is only sliced is
  the list of its rows; for \<open>BasePaginator\<close>, which rewrites the query, the query is a record and
  the rows it yields are a parameter (\<open>run\<close>). The locale \<open>offset_source\<close> is the interface between
  a paginator and the data it slices: what a source must return for offset and count, and what
  a traversal page by page then returns.
\<close>

section \<open>Sources read by offset\<close>

locale offset_source =
  fixes fetch :: "nat \<Rightarrow> nat \<Rightarrow> 'a list" and rows :: "'a list"
  assumes fetch_rows: "1 < n \<Longrightarrow> fetch off n = take n (drop off rows)"
begin

lemma page_rows: "0 < l \<Longrightarrow> take l (fetch off (Suc l)) = slice off (off + l) rows"
  by (simp add: fetch_rows slice_def take_drop add.commute)

lemma page_has_more: "0 < l \<Longrightarrow> l < length (fetch off (Suc l)) \<longleftrightarrow> off + l < length rows"
  by (simp add: fetch_rows) arith

lemma pages_cover:
  "0 < l \<Longrightarrow> concat (map (\<lambda>p. take l (fetch (p * l) (Suc l))) [0..<k]) = take (k * l) rows"
proof (induction k)
  case (Suc k)
  then have "concat (map (\<lambda>p. take l (fetch (p * l) (Suc l))) [0..<Suc k]) =
      slice 0 (k * l) rows @ slice (k * l) (k * l + l) rows"
    by (simp add: page_rows)
  also have "\<dots> = slice 0 (k * l + l) rows" by (rule slice_append) auto
  finally show ?case by (simp add: add.commute)
qed simp

end

interpretation rows_slice: offset_source "\<lambda>off n. slice off (off + n) rows" rows for rows
  by unfold_locales (simp add: slice_def take_drop add.commute)

definition too_large :: py_exc where
  "too_large = OtherError ''Pagination offset too large''"

definition negative_offset :: py_exc where
  "negative_offset = OtherError ''Pagination offset cannot be negative''"

definition limit_not_positive :: py_exc where
  "limit_not_positive = OtherError ''Limit must be positive''"

definition cursor_or_first :: "cursor option \<Rightarrow> cursor" where
  "cursor_or_first c = (case c of None \<Rightarrow> first_cursor | Some c \<Rightarrow> c)"

definition apply_on_results :: "('a list \<Rightarrow> 'a list) option \<Rightarrow> 'a list \<Rightarrow> 'a list" where
  "apply_on_results f xs = (case f of None \<Rightarrow> xs | Some g \<Rightarrow> g xs)"

lemma apply_on_results_None [simp]: "apply_on_results None xs = xs"
  by (simp add: apply_on_results_def)

section \<open>Keyset pagination\<close>

definition is_asc :: "bool \<Rightarrow> bool \<Rightarrow> bool" where
  "is_asc desc is_prev = ((desc \<and> is_prev) \<or> \<not> (desc \<or> is_prev))"

text \<open>
  The parts of the query \<open>build_queryset\<close> touches: its \<open>order_by\<close> tuple, the attribute
  \<open>order_b\<close> one branch writes instead, and the conditions added to the WHERE clause.
\<close>

record query =
  q_order_by :: "string list"
  q_order_b :: "string list option"
  q_where :: "(string \<times> string \<times> cursor_value) list"

fun replace_first :: "'a \<Rightarrow> 'a \<Rightarrow> 'a list \<Rightarrow> 'a list" where
  "replace_first x y [] = []"
| "replace_first x y (z # zs) = (if z = x then y # zs else z # replace_first x y zs)"

record paginator =
  p_key :: "string option"
  p_desc :: bool
  p_max_limit :: int

definition make_paginator :: "string option \<Rightarrow> int \<Rightarrow> paginator" where
  "make_paginator order_by max_limit =
     (case order_by of
        Some (c # k) \<Rightarrow>
          if c = CHR ''-'' then \<lparr>p_key = Some k, p_desc = True, p_max_limit = max_limit\<rparr>
          else \<lparr>p_key = Some (c # k), p_desc = False, p_max_limit = max_limit\<rparr>
      | _ \<Rightarrow> \<lparr>p_key = None, p_desc = False, p_max_limit = max_limit\<rparr>)"

definition build_order :: "paginator \<Rightarrow> query \<Rightarrow> bool \<Rightarrow> query" where
  "build_order p q is_prev =
     (let asc = is_asc (p_desc p) is_prev
      in case p_key p of
           None \<Rightarrow> q
         | Some k \<Rightarrow>
             if k = [] then q
             else if k \<in> set (q_order_by q)
             then (if asc then q
                   else q\<lparr>q_order_by := replace_first k (''-'' @ k) (q_order_by q)\<rparr>)
             else if ''-'' @ k \<in> set (q_order_by q)
             then (if asc
                   then q\<lparr>q_order_b := Some (replace_first (''-'' @ k) k (q_order_by q))\<rparr>
                   else q)
             else q\<lparr>q_order_by := [if asc then k else ''-'' @ k]\<rparr>)"

definition build_queryset :: "paginator \<Rightarrow> query \<Rightarrow> cursor_value \<Rightarrow> bool \<Rightarrow> query result" where
  "build_queryset p q value is_prev =
     (let q' = build_order p q is_prev
      in if \<not> cv_truth value then Inr q'
         else (case p_key p of
                 None \<Rightarrow> Inl AssertionError
               | Some k \<Rightarrow>
                   if k = [] then Inl AssertionError
                   else Inr (q'\<lparr>q_where := q_where q' @
                          [(k, if is_asc (p_desc p) is_prev then ''>='' else ''<='', value)]\<rparr>)))"

text \<open>\<open>Paginator\<close> (multiplier 1) and \<open>DateTimePaginator\<close> (milliseconds of a timestamp).\<close>

definition get_item_key :: "rat \<Rightarrow> bool \<Rightarrow> ('a \<Rightarrow> rat) \<Rightarrow> 'a key_fn" where
  "get_item_key multiplier desc attr item for_prev =
     CInt (if is_asc desc for_prev then \<lfloor>multiplier * attr item\<rfloor> else \<lceil>multiplier * attr item\<rceil>)"

definition value_from_cursor :: "rat \<Rightarrow> cursor_value \<Rightarrow> cursor_value" where
  "value_from_cursor multiplier v =
     (if multiplier = 1 then v
      else case cv_num v of Some q \<Rightarrow> CFloat (q / multiplier) | None \<Rightarrow> v)"

definition MAX_HITS_LIMIT :: int where
  "MAX_HITS_LIMIT = 1000"

definition base_get_result ::
  "(query \<Rightarrow> 'a list) \<Rightarrow> rat \<Rightarrow> ('a \<Rightarrow> rat) \<Rightarrow> paginator \<Rightarrow> query \<Rightarrow> (int \<Rightarrow> int) \<Rightarrow>
   ('a list \<Rightarrow> 'a list) option \<Rightarrow> ('a list \<Rightarrow> 'a list) option \<Rightarrow>
   int \<Rightarrow> cursor option \<Rightarrow> bool \<Rightarrow> int option \<Rightarrow> int option \<Rightarrow> 'a cursor_result result" where
  "base_get_result run mult attr p q do_count on_results post_filter limit0 copt count_hits known_hits max_hits0 =
     (let c = cursor_or_first copt; limit = min limit0 (p_max_limit p);
          key = get_item_key mult (p_desc p) attr;
          cursor_value = (if cv_truth (cur_value c) then value_from_cursor mult (cur_value c) else CInt 0)
      in bind_result (build_queryset p q cursor_value (cur_is_prev c)) (\<lambda>qs.
         let max_hits = (case max_hits0 of None \<Rightarrow> MAX_HITS_LIMIT | Some m \<Rightarrow> m);
             hits = (if count_hits then Some (do_count max_hits) else known_hits);
             offset = cur_offset c;
             prev_value = cur_is_prev c \<and> cv_truth (cur_value c);
             extra = (if prev_value then 2 else 1);
             stop = offset + limit + extra
         in if offset < 0 \<or> stop < 0 then Inl ValueError
            else
              let rs = py_slice offset stop (run qs);
                  rs1 = (if prev_value
                         then (if rs \<noteq> [] \<and> cv_eq (key (hd rs) True) (cur_value c) then tl rs
                               else if int (length rs) = offset + limit + extra then butlast rs
                               else rs)
                         else rs);
                  rs2 = (if cur_is_prev c then rev rs1 else rs1)
              in bind_result
                   (build_cursor rs2 key limit (p_desc p) (Some c) hits
                      (if count_hits then Some max_hits else None) on_results)
                   (\<lambda>r. Inr (r\<lparr>cr_results := apply_on_results post_filter (cr_results r)\<rparr>))))"

section \<open>Offset pagination\<close>

text \<open>
  \<open>offset = cursor.offset * cursor.value\<close>, checked against the maximum, then a check of the
  paginator's own (\<open>extra\<close>), then against 0. A float value fails in the slice that follows, a
  string value in the arithmetic.
\<close>

definition page_offset :: "int option \<Rightarrow> py_exc option \<Rightarrow> cursor \<Rightarrow> int result" where
  "page_offset max_offset extra c =
     (let check = (\<lambda>(x::rat) ok.
            if (case max_offset of None \<Rightarrow> False | Some m \<Rightarrow> of_int m \<le> x) then Inl too_large
            else (case extra of
                    Some e \<Rightarrow> Inl e
                  | None \<Rightarrow> if x < 0 then Inl negative_offset else ok))
      in case cur_value c of
           CInt v \<Rightarrow> check (of_int (cur_offset c * v)) (Inr (cur_offset c * v))
         | CFloat q \<Rightarrow> check (of_int (cur_offset c) * q) (Inl TypeError)
         | CStr s \<Rightarrow> Inl TypeError)"

definition int_value :: "cursor \<Rightarrow> int" where
  "int_value c = (case cur_value c of CInt v \<Rightarrow> v | _ \<Rightarrow> 0)"

definition offset_cursors :: "int \<Rightarrow> int \<Rightarrow> bool \<Rightarrow> cursor \<times> cursor" where
  "offset_cursors limit page has_more =
     (mk_cursor (CInt limit) (page + 1) False (Some has_more),
      mk_cursor (CInt limit) (page - 1) True (Some (page > 0)))"

definition offset_get_result ::
  "'a list \<Rightarrow> int \<Rightarrow> int option \<Rightarrow> ('a list \<Rightarrow> 'a list) option \<Rightarrow> (int \<Rightarrow> int) \<Rightarrow>
   int \<Rightarrow> cursor option \<Rightarrow> bool \<Rightarrow> 'a cursor_result result" where
  "offset_get_result rows max_limit max_offset on_results do_count limit0 copt count_hits =
     (let c = cursor_or_first copt; limit = min limit0 max_limit; page = cur_offset c
      in bind_result (page_offset max_offset None c) (\<lambda>offset.
         let v = int_value c; stop = offset + (if v \<noteq> 0 then v else limit) + 1
         in if stop < 0 then Inl ValueError
            else
              let rs0 = py_slice offset stop rows;
                  rs = (if v \<noteq> limit then py_slice (- (limit + 1)) (int (length rs0)) rs0 else rs0);
                  cs = offset_cursors limit page (int (length rs) > limit)
              in Inr \<lparr>cr_results = apply_on_results on_results (py_slice 0 limit rs),
                      cr_next = fst cs, cr_prev = snd cs,
                      cr_hits = (if count_hits then Some (do_count MAX_HITS_LIMIT) else None),
                      cr_max_hits = None\<rparr>))"

text \<open>
  \<open>MergingOffsetPaginator\<close>: rows of an independently paginated source, each replaced by the
  model with its key; when they run out, the models only the queryset knows.
\<close>

record ('d, 'm, 'k) merging =
  data_load :: "int \<Rightarrow> int \<Rightarrow> 'd list"
  apply_to_queryset :: "'d list \<Rightarrow> 'm list"
  key_from_model :: "'m \<Rightarrow> 'k"
  key_from_data :: "'d \<Rightarrow> 'k"
  data_count :: "int option"
  queryset_load :: "(int \<Rightarrow> int \<Rightarrow> int \<Rightarrow> 'm list) option"

definition merging_get_result ::
  "('d, 'm, 'k) merging \<Rightarrow> int \<Rightarrow> int option \<Rightarrow> ('m list \<Rightarrow> 'm list) option \<Rightarrow> int \<Rightarrow> cursor option
    \<Rightarrow> 'm cursor_result result" where
  "merging_get_result mg max_limit max_offset on_results limit0 copt =
     (let c = cursor_or_first copt; page = cur_offset c
      in bind_result (page_offset max_offset None c) (\<lambda>offset.
         let v = int_value c;
             limit = (if v \<noteq> 0 then v else min limit0 max_limit);
             primary = data_load mg offset (max_limit + 1);
             models = apply_to_queryset mg primary;
             mapping = foldl (\<lambda>m x. m(key_from_model mg x \<mapsto> x)) Map.empty models;
             found = List.map_filter (\<lambda>row. mapping (key_from_data mg row)) primary;
             merged = (case (queryset_load mg, data_count mg) of
                 (Some load, Some n_data) \<Rightarrow>
                   if int (length found) < limit
                   then (let extra = limit - int (length found) + 1;
                             total_offset = offset + int (length found);
                             qs = load total_offset (max 0 (total_offset - n_data)) extra
                         in (found @ qs, int (length qs) = extra))
                   else (found, int (length primary) > limit)
               | _ \<Rightarrow> (found, int (length primary) > limit));
             cs = offset_cursors limit page (snd merged)
         in Inr \<lparr>cr_results = apply_on_results on_results (py_slice 0 limit (fst merged)),
                 cr_next = fst cs, cr_prev = snd cs, cr_hits = None, cr_max_hits = None\<rparr>))"

datatype 'a page_data = RowList "'a list" | RowDict "'a list" | OtherData

definition page_data_rows :: "'a page_data \<Rightarrow> 'a list" where
  "page_data_rows d = (case d of RowList xs \<Rightarrow> xs | RowDict xs \<Rightarrow> xs | OtherData \<Rightarrow> [])"

definition generic_get_result ::
  "(int \<Rightarrow> int \<Rightarrow> 'a page_data) \<Rightarrow> int \<Rightarrow> cursor option \<Rightarrow> ('a page_data \<times> cursor \<times> cursor) result" where
  "generic_get_result data_fn limit copt =
     (if \<not> limit > 0 then Inl AssertionError
      else
        let offset = (case copt of None \<Rightarrow> 0 | Some c \<Rightarrow> cur_offset c);
            finish = (\<lambda>data has_more. Inr (data,
               mk_cursor (CInt 0) (max 0 (offset - limit)) True (Some (offset > 0)),
               mk_cursor (CInt 0) (max 0 (offset + limit)) False (Some has_more)));
            cut = (\<lambda>xs. if int (length xs) = limit + 1 then butlast xs else xs)
        in case data_fn offset (limit + 1) of
             RowList xs \<Rightarrow> finish (RowList (cut xs)) (int (length xs) = limit + 1)
           | RowDict xs \<Rightarrow> finish (RowDict (cut xs)) (int (length xs) = limit + 1)
           | OtherData \<Rightarrow> Inl (OtherError ''NotImplementedError''))"

fun chain_loop :: "int \<Rightarrow> 'a list list \<Rightarrow> int \<Rightarrow> 'a list \<Rightarrow> 'a list" where
  "chain_loop limit [] offset results = results"
| "chain_loop limit (source # sources) offset results =
     (let remaining = limit - int (length results) + 1;
          results' = results @ py_slice offset (offset + remaining) source;
          offset' = (if results' = [] then offset - int (length source) else 0)
      in if int (length results') > limit then results'
         else chain_loop limit sources offset' results')"

definition chain_get_result ::
  "'a list list \<Rightarrow> int \<Rightarrow> int option \<Rightarrow> ('a list \<Rightarrow> 'a list) option \<Rightarrow> int \<Rightarrow> cursor option
    \<Rightarrow> 'a cursor_result result" where
  "chain_get_result sources max_limit max_offset on_results limit0 copt =
     (let c = cursor_or_first copt; limit = min limit0 max_limit; page = cur_offset c
      in bind_result
           (page_offset max_offset (if limit \<le> 0 then Some limit_not_positive else None) c) (\<lambda>offset.
           let rs = chain_loop limit sources offset [];
               has_more = int (length rs) > limit;
               cs = offset_cursors limit page has_more
           in Inr \<lparr>cr_results = apply_on_results on_results (if has_more then butlast rs else rs),
                   cr_next = fst cs, cr_prev = snd cs, cr_hits = None, cr_max_hits = None\<rparr>))"

definition MAX_SNUBA_ELEMENTS :: int where
  "MAX_SNUBA_ELEMENTS = 10000"

definition callback_get_result ::
  "(int \<Rightarrow> int \<Rightarrow> 'a list) \<Rightarrow> ('a list \<Rightarrow> 'a list) option \<Rightarrow> int \<Rightarrow> cursor option \<Rightarrow> 'a cursor_result result"
where
  "callback_get_result callback on_results limit copt =
     (let c = cursor_or_first copt
      in case cur_value c of
           CInt v \<Rightarrow>
             let fetch_limit = (if limit < MAX_SNUBA_ELEMENTS then limit + 1 else limit);
                 rs = callback fetch_limit (cur_offset c * v);
                 has_more = int (length rs) > limit;
                 cs = offset_cursors limit (cur_offset c) has_more
             in if has_more \<and> rs = [] then Inl IndexError
                else Inr \<lparr>cr_results = apply_on_results on_results (if has_more then butlast rs else rs),
                          cr_next = fst cs, cr_prev = snd cs, cr_hits = None, cr_max_hits = None\<rparr>
         | _ \<Rightarrow> Inl TypeError)"


section \<open>Sequence pagination\<close>

text \<open>
  Both bisections are the same loop over a predicate that holds on a prefix: \<open>a[mid] < x\<close> for
  \<open>bisect.bisect_left\<close>, \<open>a[mid] > x\<close> for \<open>reverse_bisect_left\<close>. Reading \<open>a[mid]\<close> past the end
  raises, which \<open>bisect_left\<close> can do when \<open>hi\<close> is larger than the list.
\<close>

function bisect_loop :: "('a \<Rightarrow> bool) \<Rightarrow> 'a list \<Rightarrow> nat \<Rightarrow> nat \<Rightarrow> nat result" where
  "bisect_loop p a lo hi =
     (if lo < hi then
        let mid = (lo + hi) div 2
        in if \<not> mid < length a then Inl IndexError
           else if p (a ! mid) then bisect_loop p a (mid + 1) hi
           else bisect_loop p a lo mid
      else Inr lo)"
  by pat_completeness auto
termination
  by (relation "measure (\<lambda>(p, a, lo, hi). hi - lo)") (auto simp: Let_def)

declare bisect_loop.simps [simp del]

definition bisect_left :: "int list \<Rightarrow> rat \<Rightarrow> nat option \<Rightarrow> nat result" where
  "bisect_left a x hi =
     bisect_loop (\<lambda>y. of_int y < x) a 0 (case hi of None \<Rightarrow> length a | Some h \<Rightarrow> h)"

definition reverse_bisect_left :: "int list \<Rightarrow> rat \<Rightarrow> int \<Rightarrow> nat option \<Rightarrow> nat result" where
  "reverse_bisect_left a x lo hi =
     (if lo < 0 then Inl ValueError
      else bisect_loop (\<lambda>y. of_int y > x) a (nat lo)
             (case hi of None \<Rightarrow> length a | Some h \<Rightarrow> if h > length a then length a else h))"

record 'a seq_paginator =
  sp_scores :: "int list"
  sp_values :: "'a list"
  sp_reverse :: bool
  sp_max_limit :: nat

definition make_seq_paginator :: "(int \<times> 'a::linorder) list \<Rightarrow> bool \<Rightarrow> nat \<Rightarrow> 'a seq_paginator" where
  "make_seq_paginator data reverse max_limit =
     (let d = (if reverse then rev (sort data) else sort data)
      in \<lparr>sp_scores = map fst d, sp_values = map snd d, sp_reverse = reverse,
          sp_max_limit = max_limit\<rparr>)"

definition seq_search :: "'a seq_paginator \<Rightarrow> rat \<Rightarrow> nat option \<Rightarrow> nat result" where
  "seq_search sp x hi =
     (if sp_reverse sp then reverse_bisect_left (sp_scores sp) x 0 hi
      else bisect_left (sp_scores sp) x hi)"

text \<open>
  Where a cursor points: the position of its value plus its offset. The limit is positive and
  already capped. A string value compares with no score.
\<close>

definition seq_position :: "'a seq_paginator \<Rightarrow> cursor \<Rightarrow> nat result" where
  "seq_position sp c =
     (let n = length (sp_scores sp)
      in bind_result
           (case cv_num (cur_value c) of
              Some q \<Rightarrow> if q = 0 then Inr (if cur_is_prev c then n else 0) else seq_search sp q None
            | None \<Rightarrow> if n = 0 then Inr 0 else Inl TypeError)
           (\<lambda>position. Inr (position + nat (cur_offset c))))"

definition seq_window :: "nat \<Rightarrow> nat \<Rightarrow> nat \<Rightarrow> bool \<Rightarrow> nat \<times> nat" where
  "seq_window n limit position is_prev =
     (if is_prev then (min position n - limit, min position n)
      else (position, min (position + limit) n))"

text \<open>The cursor to a boundary \<open>b\<close> of the window: its score and the distance to the first such score.\<close>

definition seq_cursor :: "'a seq_paginator \<Rightarrow> nat \<Rightarrow> bool \<Rightarrow> bool \<Rightarrow> cursor result" where
  "seq_cursor sp b is_prev has =
     (let scores = sp_scores sp; score = scores ! min b (length scores - 1)
      in bind_result (seq_search sp (of_int score) (Some b))
           (\<lambda>j. Inr (mk_cursor (CInt score) (int b - int j) is_prev (Some has))))"

definition seq_get_result ::
  "'a seq_paginator \<Rightarrow> ('a list \<Rightarrow> 'a list) option \<Rightarrow> nat \<Rightarrow> cursor option \<Rightarrow> bool \<Rightarrow> int option
    \<Rightarrow> int option \<Rightarrow> 'a cursor_result result" where
  "seq_get_result sp on_results limit0 copt count_hits known_hits max_hits0 =
     (let limit = min limit0 (sp_max_limit sp); c = cursor_or_first copt;
          n = length (sp_scores sp)
      in if \<not> cur_offset c > -1 then Inl AssertionError
         else bind_result (seq_position sp c) (\<lambda>position.
           let (lo, hi) = seq_window n limit position (cur_is_prev c)
           in bind_result
                (if n = 0 then Inr (mk_cursor (cur_value c) (cur_offset c) True (Some False))
                 else seq_cursor sp lo True (lo > 0)) (\<lambda>prev_cursor.
              bind_result
                (if n = 0 then Inr (mk_cursor (cur_value c) (cur_offset c) False (Some False))
                 else seq_cursor sp hi False (hi < n)) (\<lambda>next_cursor.
              let max_hits = (case max_hits0 of None \<Rightarrow> MAX_HITS_LIMIT | Some m \<Rightarrow> m);
                  hits = (case known_hits of Some k \<Rightarrow> Some (min k max_hits)
                    | None \<Rightarrow> if count_hits then Some (min (int n) max_hits) else None)
              in Inr \<lparr>cr_results = apply_on_results on_results (slice lo hi (sp_values sp)),
                      cr_next = next_cursor, cr_prev = prev_cursor, cr_hits = hits,
                      cr_max_hits = (if hits = None then None else Some max_hits)\<rparr>))))"

section \<open>Lemmas\<close>

subsection \<open>Bisection\<close>

text \<open>A predicate that holds on a prefix of the list only.\<close>

definition prefix_pred :: "('a \<Rightarrow> bool) \<Rightarrow> 'a list \<Rightarrow> bool" where
  "prefix_pred p a \<longleftrightarrow> (\<forall>i j. i < j \<and> j < length a \<and> p (a ! j) \<longrightarrow> p (a ! i))"

lemma prefix_predD: "prefix_pred p a \<Longrightarrow> p (a ! j) \<Longrightarrow> i \<le> j \<Longrightarrow> j < length a \<Longrightarrow> p (a ! i)"
  unfolding prefix_pred_def by (metis le_neq_implies_less)

lemma bisect_loop_correct:
  assumes "prefix_pred p a" and "lo \<le> hi" and "hi \<le> length a"
  shows "\<exists>k. bisect_loop p a lo hi = Inr k \<and> lo \<le> k \<and> k \<le> hi \<and>
    (\<forall>i. lo \<le> i \<and> i < k \<longrightarrow> p (a ! i)) \<and> (\<forall>i. k \<le> i \<and> i < hi \<longrightarrow> \<not> p (a ! i))"
  using assms
proof (induction p a lo hi rule: bisect_loop.induct)
  case (1 p a lo hi)
  show ?case
  proof (cases "lo < hi")
    case False
    with "1.prems" show ?thesis by (subst bisect_loop.simps) auto
  next
    case True
    define mid where "mid = (lo + hi) div 2"
    have mid: "lo \<le> mid" "mid < hi" "mid < length a" using True "1.prems"(3) by (auto simp: mid_def)
    show ?thesis
    proof (cases "p (a ! mid)")
      case pm: True
      then have eq: "bisect_loop p a lo hi = bisect_loop p a (mid + 1) hi"
        using True mid by (subst bisect_loop.simps) (simp add: mid_def Let_def)
      obtain k where k: "bisect_loop p a (mid + 1) hi = Inr k" "mid + 1 \<le> k" "k \<le> hi"
        "\<forall>i. mid + 1 \<le> i \<and> i < k \<longrightarrow> p (a ! i)" "\<forall>i. k \<le> i \<and> i < hi \<longrightarrow> \<not> p (a ! i)"
        using "1.IH"(1) [OF True mid_def] pm mid "1.prems" by auto
      have "p (a ! i)" if "i < k" for i
        using k(4) that prefix_predD [OF "1.prems"(1) pm _ mid(3), of i] by (cases "i \<le> mid") auto
      with k eq mid show ?thesis by auto
    next
      case pm: False
      then have eq: "bisect_loop p a lo hi = bisect_loop p a lo mid"
        using True mid by (subst bisect_loop.simps) (simp add: mid_def Let_def)
      obtain k where k: "bisect_loop p a lo mid = Inr k" "lo \<le> k" "k \<le> mid"
        "\<forall>i. lo \<le> i \<and> i < k \<longrightarrow> p (a ! i)" "\<forall>i. k \<le> i \<and> i < mid \<longrightarrow> \<not> p (a ! i)"
        using "1.IH"(2) [OF True mid_def] pm mid "1.prems" by auto
      have "\<not> p (a ! i)" if "k \<le> i" "i < hi" for i
        using k(5) that pm "1.prems"(1,3) prefix_predD [of p a i mid] by (cases "i < mid") auto
      with k eq mid show ?thesis by auto
    qed
  qed
qed

text \<open>From 0, the loop finds the length of the prefix the predicate holds on, cut at \<open>hi\<close>.\<close>

lemma bisect_loop_takeWhile:
  assumes "prefix_pred p a" and "hi \<le> length a"
  shows "bisect_loop p a 0 hi = Inr (min hi (length (takeWhile p a)))"
proof -
  obtain k where k: "bisect_loop p a 0 hi = Inr k" "k \<le> hi" "\<forall>i. i < k \<longrightarrow> p (a ! i)"
    "\<forall>i. k \<le> i \<and> i < hi \<longrightarrow> \<not> p (a ! i)"
    using bisect_loop_correct [OF assms(1) le0 assms(2)] by auto
  let ?t = "length (takeWhile p a)"
  have t: "i < ?t \<Longrightarrow> p (a ! i)" for i by (metis nth_mem set_takeWhileD takeWhile_nth)
  have "k = min hi ?t"
  proof (cases "k = hi")
    case True
    have "hi \<le> ?t"
    proof (rule ccontr)
      assume "\<not> hi \<le> ?t"
      then have "?t < length a" "?t < k" using assms(2) True by auto
      with k(3) nth_length_takeWhile [of p a] show False by auto
    qed
    with True show ?thesis by simp
  next
    case False
    with k(2,4) have "\<not> p (a ! k)" by simp
    with t have "?t \<le> k" by (meson not_le)
    moreover have "k \<le> ?t"
    proof (rule ccontr)
      assume "\<not> k \<le> ?t"
      then have "?t < length a" "?t < k" using assms(2) k(2) by auto
      with k(3) nth_length_takeWhile [of p a] show False by auto
    qed
    ultimately show ?thesis using k(2) by simp
  qed
  with k(1) show ?thesis by simp
qed

definition seq_sorted :: "'a seq_paginator \<Rightarrow> bool" where
  "seq_sorted sp \<longleftrightarrow>
     (if sp_reverse sp then sorted (rev (sp_scores sp)) else sorted (sp_scores sp)) \<and>
     length (sp_values sp) = length (sp_scores sp)"

definition before :: "'a seq_paginator \<Rightarrow> rat \<Rightarrow> int \<Rightarrow> bool" where
  "before sp x y = (if sp_reverse sp then of_int y > x else of_int y < x)"

lemma prefix_pred_before: "seq_sorted sp \<Longrightarrow> prefix_pred (before sp x) (sp_scores sp)"
proof (cases "sp_reverse sp")
  case True
  assume "seq_sorted sp"
  with True have "sorted_wrt (\<ge>) (sp_scores sp)" by (simp add: seq_sorted_def sorted_wrt_rev)
  then have "i < j \<Longrightarrow> j < length (sp_scores sp) \<Longrightarrow> sp_scores sp ! j \<le> sp_scores sp ! i" for i j
    by (simp add: sorted_wrt_iff_nth_less)
  with True show ?thesis
    by (auto simp: prefix_pred_def before_def) (meson less_le_trans of_int_le_iff)
next
  case False
  assume "seq_sorted sp"
  with False have "i < j \<Longrightarrow> j < length (sp_scores sp) \<Longrightarrow> sp_scores sp ! i \<le> sp_scores sp ! j" for i j
    by (simp add: seq_sorted_def sorted_iff_nth_mono)
  with False show ?thesis
    by (auto simp: prefix_pred_def before_def) (meson le_less_trans of_int_le_iff)
qed

lemma seq_search_takeWhile:
  assumes "seq_sorted sp" and "case hi of None \<Rightarrow> True | Some h \<Rightarrow> h \<le> length (sp_scores sp)"
  shows "seq_search sp x hi =
    Inr (min (case hi of None \<Rightarrow> length (sp_scores sp) | Some h \<Rightarrow> h)
          (length (takeWhile (before sp x) (sp_scores sp))))"
proof -
  have b: "before sp x = (if sp_reverse sp then (\<lambda>y. of_int y > x) else (\<lambda>y. of_int y < x))"
    by (auto simp: before_def)
  show ?thesis
    using bisect_loop_takeWhile [OF prefix_pred_before [OF assms(1), of x],
        of "case hi of None \<Rightarrow> length (sp_scores sp) | Some h \<Rightarrow> h"] assms(2)
    by (auto simp: b seq_search_def reverse_bisect_left_def bisect_left_def split: option.splits)
qed

lemma takeWhile_before_nth:
  assumes "seq_sorted sp" and "b < length (sp_scores sp)"
  shows "length (takeWhile (before sp (of_int (sp_scores sp ! b))) (sp_scores sp)) \<le> b"
proof (rule ccontr)
  assume "\<not> ?thesis"
  then have "before sp (of_int (sp_scores sp ! b)) (sp_scores sp ! b)"
    by (metis not_le nth_mem set_takeWhileD takeWhile_nth)
  then show False by (simp add: before_def split: if_splits)
qed

lemma sorted_map_mono_fst: "sorted (map fst (sort (data :: (int \<times> 'a::linorder) list)))"
  by (rule sorted_map [THEN iffD2], rule sorted_wrt_mono_rel [OF _ sorted_sort])
    (auto simp: less_eq_prod_def)

lemma make_seq_sorted: "seq_sorted (make_seq_paginator data reverse m)"
proof -
  have "sorted (map fst (sort data))" for data :: "(int \<times> 'a::linorder) list"
    by (rule sorted_map_mono_fst)
  then show ?thesis by (simp add: seq_sorted_def make_seq_paginator_def Let_def rev_map [symmetric])
qed

subsection \<open>Sequence pages\<close>

lemma seq_cursor_some:
  assumes "seq_sorted sp" and "b < length (sp_scores sp)"
  shows "seq_cursor sp b is_prev has = Inr (mk_cursor (CInt (sp_scores sp ! b))
    (int b - int (length (takeWhile (before sp (of_int (sp_scores sp ! b))) (sp_scores sp)))) is_prev (Some has))"
proof -
  have "min b (length (sp_scores sp) - 1) = b" using assms(2) by simp
  then show ?thesis
    using assms takeWhile_before_nth [OF assms]
    by (simp add: seq_cursor_def Let_def seq_search_takeWhile min_def)
qed

lemma seq_position_boundary:
  assumes "seq_sorted sp" and "b < length (sp_scores sp)"
  defines "t \<equiv> length (takeWhile (before sp (of_int (sp_scores sp ! b))) (sp_scores sp))"
  shows "bind_result (seq_cursor sp b False has) (seq_position sp) =
    Inr (if sp_scores sp ! b = 0 then b - t else b)"
proof -
  have t: "t \<le> b" using takeWhile_before_nth [OF assms(1,2)] by (simp add: t_def)
  show ?thesis
    using assms(1,2) t
    by (auto simp: seq_cursor_some t_def [symmetric] seq_position_def Let_def
        seq_search_takeWhile length_takeWhile_le)
qed

lemma seq_get_result_forward:
  assumes "seq_sorted sp" and "seq_position sp c = Inr lo" and "\<not> cur_is_prev c" and "0 \<le> cur_offset c"
    and "lo + l < length (sp_scores sp)" and "l \<le> sp_max_limit sp"
  shows "\<exists>r. seq_get_result sp None l (Some c) ch kh mh = Inr r \<and>
    cr_results r = slice lo (lo + l) (sp_values sp) \<and>
    seq_cursor sp (lo + l) False True = Inr (cr_next r) \<and>
    seq_cursor sp lo True (0 < lo) = Inr (cr_prev r)"
proof -
  have "sp_scores sp \<noteq> []" using assms(5) by auto
  with assms show ?thesis
    by (simp add: seq_get_result_def Let_def cursor_or_first_def seq_window_def seq_cursor_some)
qed

subsection \<open>Chained sources\<close>

lemma chain_loop_concat:
  assumes "0 \<le> off" and "rs = [] \<or> off = 0" and "int (length rs) \<le> limit"
  shows "chain_loop limit sources off rs = take (nat limit + 1) (rs @ drop (nat off) (concat sources))"
  using assms
proof (induction sources arbitrary: off rs)
  case Nil
  then show ?case by simp
next
  case (Cons s ss)
  let ?rem = "limit - int (length rs) + 1"
  let ?rs = "rs @ py_slice off (off + ?rem) s"
  have sl: "py_slice off (off + ?rem) s = take (nat limit + 1 - length rs) (drop (nat off) s)"
  proof -
    have "nat (off + ?rem) = nat off + (nat limit + 1 - length rs)" using Cons.prems by arith
    with Cons.prems show ?thesis by (simp only: py_slice_nonneg slice_def take_drop add.commute)
  qed
  show ?case
  proof (cases "int (length ?rs) > limit")
    case True
    then have "nat limit + 1 - length rs \<le> length (drop (nat off) s)"
      using sl Cons.prems(3) by (auto simp: min_def split: if_splits) arith
    with True sl Cons.prems(3) show ?thesis by simp
  next
    case False
    then have all: "py_slice off (off + ?rem) s = drop (nat off) s"
      using sl Cons.prems(3) by (auto simp: min_def not_le split: if_splits)
    show ?thesis
    proof (cases "?rs = []")
      case True
      then have "rs = []" "length s \<le> nat off" using all by auto
      moreover have "chain_loop limit (s # ss) off rs = chain_loop limit ss (off - int (length s)) []"
        using True False calculation by simp
      ultimately show ?thesis
        using Cons.IH [of "off - int (length s)" "[]"] Cons.prems
        by (simp add: nat_diff_distrib')
    next
      case ne: False
      then have "chain_loop limit (s # ss) off rs = chain_loop limit ss 0 ?rs"
        using False by (simp only: chain_loop.simps Let_def if_False)
      also have "\<dots> = take (nat limit + 1) (?rs @ concat ss)"
        using Cons.IH [of 0 ?rs] False by simp
      also have "?rs @ concat ss = rs @ drop (nat off) (s @ concat ss)"
        using Cons.prems(2) ne all by (cases "nat off \<le> length s") auto
      finally show ?thesis by simp
    qed
  qed
qed

interpretation chained: offset_source
  "\<lambda>off n. chain_loop (int n - 1) sources (int off) []" "concat sources" for sources
  by unfold_locales (simp add: chain_loop_concat nat_diff_distrib')

subsection \<open>Keyset pages\<close>

lemma get_item_key_int:
  "get_item_key 1 desc (\<lambda>r. of_int (k r)) = (\<lambda>r p. CInt (k r))"
  by (simp add: get_item_key_def fun_eq_iff)

lemma build_next_values_strict:
  assumes "sorted_wrt (<) (map k rs)" and "1 < length rs" and "limit < int (length rs)"
    and "\<not> cur_is_prev c" and "cur_value c = CInt v" and "v = 0 \<or> v = k (hd rs)"
  shows "build_next_values c rs (\<lambda>r p. CInt (k r)) limit False = Inr (CInt (k (last rs)), 0, True)"
proof -
  obtain zs y where "rs = zs @ [y]" using assms(2) by (cases rs rule: rev_cases) auto
  moreover from this obtain x ys where "zs = x # ys" using assms(2) by (cases zs) auto
  ultimately have rs: "rs = x # ys @ [y]" by simp
  have xy: "k x < k y" using assms(1) by (simp add: rs sorted_wrt_append)
  obtain z zs where z: "rev ys @ [x] = z # zs" by (cases "rev ys @ [x]") auto
  then have "set (z # zs) = set (rev ys @ [x])" by simp
  then have "z \<in> set (x # ys)" by auto
  then have zy: "k z < k y" using assms(1) by (auto simp: rs sorted_wrt_append)
  have "tie_count False (CInt (k y)) (map (\<lambda>r. CInt (k r)) (rev ys @ [x])) = Inr 0"
    using zy by (simp only: z) simp
  with rs xy assms show ?thesis by (auto simp: build_next_values_def Let_def rs)
qed

lemma filter_ge_drop:
  assumes "sorted_wrt (<) (map k rows)" and "i < length rows"
  shows "filter (\<lambda>r. k (rows ! i) \<le> (k r :: int)) rows = drop i rows"
proof -
  have lt: "a < b \<Longrightarrow> b < length rows \<Longrightarrow> k (rows ! a) < k (rows ! b)" for a b
    using assms(1) by (simp add: sorted_wrt_iff_nth_less)
  have "filter (\<lambda>r. k (rows ! i) \<le> k r) (take i rows) = []"
    using lt assms(2) by (auto simp: filter_empty_conv in_set_conv_nth) (meson not_le)
  moreover have "filter (\<lambda>r. k (rows ! i) \<le> k r) (drop i rows) = drop i rows"
    unfolding filter_id_conv
  proof
    fix r assume "r \<in> set (drop i rows)"
    then obtain j where j: "j < length rows - i" "r = rows ! (i + j)"
      by (auto simp: in_set_conv_nth)
    then have "j > 0 \<Longrightarrow> k (rows ! i) < k (rows ! (i + j))" using lt [of i "i + j"] by simp
    with j show "k (rows ! i) \<le> k r" by (cases "j = 0") auto
  qed
  ultimately show ?thesis by (metis append_Nil append_take_drop_id filter_append)
qed

lemma keyset_page:
  assumes sorted: "sorted_wrt (<) (map k rows)" and i: "i < length rows" and l: "0 < l"
    and c: "\<not> cur_is_prev c" "cur_value c = CInt v" "v = 0 \<or> v = k (rows ! i)"
  shows "\<exists>r. build_cursor (take (Suc l) (drop i rows)) (\<lambda>r p. CInt (k r)) (int l) False (Some c) h mh None = Inr r \<and>
    cr_results r = slice i (i + l) rows \<and> cursor_bool (cr_next r) = (i + l < length rows) \<and>
    (i + l < length rows \<longrightarrow>
       cr_next r = mk_cursor (CInt (k (rows ! (i + l)))) 0 False (Some True))"
proof -
  define rs where "rs = take (Suc l) (drop i rows)"
  have ne: "rs \<noteq> []" and hd: "hd rs = rows ! i" using i by (auto simp: rs_def hd_drop_conv_nth)
  have s: "sorted_wrt (<) (map k rs)"
    using sorted by (simp add: rs_def take_map [symmetric] drop_map [symmetric] sorted_wrt_take sorted_wrt_drop)
  have len: "int l < int (length rs) \<longleftrightarrow> i + l < length rows" using i by (auto simp: rs_def)
  have sl: "take l rs = slice i (i + l) rows"
    by (simp add: rs_def slice_def take_drop min_def add.commute)
  have prev: "build_prev_values c rs (\<lambda>r p. CInt (k r)) (int l) False =
      Inr (CInt (k (rs ! 0)), 0, cv_truth (cur_value c) \<or> cur_offset c \<noteq> 0)"
    using ne c(1) by (simp add: build_prev_values_def Let_def)
  have "\<exists>n. build_next_values c rs (\<lambda>r p. CInt (k r)) (int l) False =
      Inr (CInt (k (last rs)), n, i + l < length rows) \<and>
      (i + l < length rows \<longrightarrow> n = 0 \<and> last rs = rows ! (i + l))"
  proof (cases "i + l < length rows")
    case True
    then have "last rs = rows ! (i + l)" and "1 < length rs" using l by (auto simp: rs_def last_conv_nth)
    with s len True c hd show ?thesis
      using build_next_values_strict [of k rs "int l" c v] by simp
  next
    case False
    then show ?thesis using build_next_values_page [OF c(1) ne, of k "int l" False] len by auto
  qed
  then obtain n where "build_next_values c rs (\<lambda>r p. CInt (k r)) (int l) False =
      Inr (CInt (k (last rs)), n, i + l < length rows)"
    "i + l < length rows \<longrightarrow> n = 0 \<and> last rs = rows ! (i + l)" by blast
  with prev c(1) sl show ?thesis
    unfolding rs_def [symmetric] by (simp add: build_cursor_def py_slice_nonneg cursor_bool_def)
qed

section \<open>Properties\<close>

text \<open>
  \<open>reverse_bisect_left\<close> on a descending list returns the index its docstring describes:
  everything before it is larger than \<open>x\<close>, everything from it up to \<open>hi\<close> is not.
\<close>

theorem reverse_bisect_left_partition:
  assumes "sorted_wrt (\<ge>) a" and "lo \<le> length a"
  shows "\<exists>k. reverse_bisect_left a x (int lo) None = Inr k \<and> lo \<le> k \<and> k \<le> length a \<and>
    (\<forall>i. lo \<le> i \<and> i < k \<longrightarrow> of_int (a ! i) > x) \<and>
    (\<forall>i. k \<le> i \<and> i < length a \<longrightarrow> of_int (a ! i) \<le> x)"
proof -
  have "prefix_pred (\<lambda>y. of_int y > x) a"
    using assms(1) unfolding prefix_pred_def sorted_wrt_iff_nth_less
    by (meson less_le_trans of_int_le_iff)
  from bisect_loop_correct [OF this assms(2) order_refl] show ?thesis
    by (auto simp: reverse_bisect_left_def not_less)
qed

theorem reverse_bisect_left_partition_witness:
  "\<exists>k. reverse_bisect_left [9, 5, 5, 2] 5 (int 0) None = Inr k \<and> 0 \<le> k \<and> k \<le> length [9, 5, 5, 2 :: int]"
  using reverse_bisect_left_partition [of "[9, 5, 5, 2]" 0 5] by auto

text \<open>
  Following the next cursor of a page of a \<open>SequencePaginator\<close>: when the boundary score is
  not 0 the next page starts exactly where this one ended. When the boundary score is 0 the
  cursor's value is read as "no value" and the page starts again near the beginning, as many
  rows in as the boundary is past the first row with score 0.
\<close>

theorem seq_next_page:
  assumes "seq_sorted sp" and "seq_position sp c = Inr lo" and "\<not> cur_is_prev c" and "0 \<le> cur_offset c"
    and "lo + l < length (sp_scores sp)" and "l \<le> sp_max_limit sp"
  shows "\<exists>r. seq_get_result sp None l (Some c) ch kh mh = Inr r \<and>
    cr_results r = slice lo (lo + l) (sp_values sp) \<and>
    seq_position sp (cr_next r) =
      Inr (if sp_scores sp ! (lo + l) = 0
           then lo + l - length (takeWhile (before sp 0) (sp_scores sp)) else lo + l)"
proof -
  obtain r where r: "seq_get_result sp None l (Some c) ch kh mh = Inr r"
    "cr_results r = slice lo (lo + l) (sp_values sp)" "seq_cursor sp (lo + l) False True = Inr (cr_next r)"
    using seq_get_result_forward [OF assms] by blast
  with seq_position_boundary [OF assms(1,5), of True] show ?thesis by (auto split: if_splits)
qed

theorem seq_next_page_witness:
  "\<exists>r. seq_get_result \<lparr>sp_scores = [5, 4, 0, 0], sp_values = [''a'', ''b'', ''c'', ''d''],
         sp_reverse = True, sp_max_limit = 100\<rparr> None 2 (Some first_cursor) False None None = Inr r \<and>
    cr_results r = [''a'', ''b''] \<and>
    seq_position \<lparr>sp_scores = [5, 4, 0, 0], sp_values = [''a'', ''b'', ''c'', ''d''],
         sp_reverse = True, sp_max_limit = 100\<rparr> (cr_next r) = Inr 0"
  using seq_next_page [of "\<lparr>sp_scores = [5, 4, 0, 0], sp_values = [''a'', ''b'', ''c'', ''d''],
         sp_reverse = True, sp_max_limit = 100\<rparr>" first_cursor 0 2 False None None]
  by (simp add: seq_sorted_def seq_position_def first_cursor_def slice_def before_def numeral_2_eq_2
      numeral_3_eq_3 eval_nat_numeral)

text \<open>
  Paging through chained sources with a fixed limit visits the concatenation of the sources
  exactly once and in order: the first \<open>k\<close> pages together are its first \<open>k * l\<close> rows, and a
  page announces a next page exactly when rows are left.
\<close>

theorem chain_pages_cover:
  assumes "0 < l" and "int l \<le> max_limit"
  shows "\<exists>pages. (\<forall>p. chain_get_result sources max_limit None None (int l)
        (Some (mk_cursor (CInt (int l)) (int p) False h)) = Inr (pages p) \<and>
      cursor_bool (cr_next (pages p)) = (p * l + l < length (concat sources)) \<and>
      cur_offset (cr_next (pages p)) = int (Suc p)) \<and>
    concat (map (\<lambda>p. cr_results (pages p)) [0..<k]) = take (k * l) (concat sources)"
proof -
  define fetch where "fetch off n = chain_loop (int n - 1) sources (int off) []" for off n
  define pages where "pages p = (let rs = fetch (p * l) (Suc l); more = l < length rs in
    \<lparr>cr_results = (if more then butlast rs else rs), cr_next = fst (offset_cursors (int l) (int p) more),
     cr_prev = snd (offset_cursors (int l) (int p) more), cr_hits = None, cr_max_hits = None\<rparr>)" for p
  have fetch_len: "length (fetch off (Suc l)) \<le> Suc l" for off
    using assms(1) chained.fetch_rows [of "Suc l" sources off] by (simp add: fetch_def)
  then have cut: "(if l < length (fetch off (Suc l)) then butlast (fetch off (Suc l)) else fetch off (Suc l)) =
      take l (fetch off (Suc l))" for off
    by (metis butlast_conv_take diff_Suc_1 le_antisym less_eq_Suc_le not_le_imp_less take_all)
  have "chain_get_result sources max_limit None None (int l)
      (Some (mk_cursor (CInt (int l)) (int p) False h)) = Inr (pages p)" for p
    using assms by (simp add: chain_get_result_def cursor_or_first_def page_offset_def Let_def
        pages_def fetch_def min_def flip: of_nat_mult)
  moreover have "cursor_bool (cr_next (pages p)) = (p * l + l < length (concat sources))" for p
    using chained.page_has_more [OF assms(1), of sources "p * l"]
    by (simp add: pages_def Let_def offset_cursors_def cursor_bool_def fetch_def)
  moreover have "cur_offset (cr_next (pages p)) = int (Suc p)" for p
    by (simp add: pages_def Let_def offset_cursors_def)
  moreover have "concat (map (\<lambda>p. cr_results (pages p)) [0..<k]) = take (k * l) (concat sources)"
  proof -
    have "concat (map (\<lambda>p. take l (fetch (p * l) (Suc l))) [0..<k]) = take (k * l) (concat sources)"
      unfolding fetch_def by (rule chained.pages_cover [OF assms(1)])
    then show ?thesis by (simp add: pages_def Let_def cut)
  qed
  ultimately show ?thesis by blast
qed

theorem chain_pages_cover_witness:
  "\<exists>pages. (\<forall>p. chain_get_result [[1, 2, 3], [], [4, 5 :: int]] 100 None None (int 2)
        (Some (mk_cursor (CInt (int 2)) (int p) False None)) = Inr (pages p) \<and>
      cursor_bool (cr_next (pages p)) = (p * 2 + 2 < length (concat [[1, 2, 3], [], [4, 5 :: int]])) \<and>
      cur_offset (cr_next (pages p)) = int (Suc p)) \<and>
    concat (map (\<lambda>p. cr_results (pages p)) [0..<2]) = take (2 * 2) (concat [[1, 2, 3], [], [4, 5]])"
  by (rule chain_pages_cover) simp_all

text \<open>
  Keyset pagination over rows with distinct positive integer keys, ascending: the page of a
  cursor to row \<open>i\<close> (or of the first cursor, for \<open>i = 0\<close>) holds rows \<open>i\<close> to \<open>i + l\<close> and its next
  cursor points at row \<open>i + l\<close> with offset 0, so no row is skipped or repeated. The database
  is taken to return the rows in the order asked for, cut by the \<open>>=\<close> condition.
\<close>

theorem keyset_next_page:
  assumes "\<And>v. run \<lparr>q_order_by = [key], q_order_b = None, q_where = [(key, ''>='', CInt v)]\<rparr> =
      filter (\<lambda>r. v \<le> k r) rows"
    and "run \<lparr>q_order_by = [key], q_order_b = None, q_where = []\<rparr> = rows"
    and "sorted_wrt (<) (map k rows)" and "key \<noteq> []" and "i < length rows" and "0 < l" and "int l \<le> m"
    and "cur_value c = CInt v" and "v = 0 \<and> i = 0 \<or> v \<noteq> 0 \<and> v = k (rows ! i)"
    and "cur_offset c = 0" and "\<not> cur_is_prev c"
  shows "\<exists>r. base_get_result run 1 (\<lambda>r. of_int (k r)) \<lparr>p_key = Some key, p_desc = False, p_max_limit = m\<rparr>
      \<lparr>q_order_by = [], q_order_b = None, q_where = []\<rparr> cnt None None (int l) (Some c) False None None = Inr r \<and>
    cr_results r = slice i (i + l) rows \<and> cursor_bool (cr_next r) = (i + l < length rows) \<and>
    (i + l < length rows \<longrightarrow> cr_next r = mk_cursor (CInt (k (rows ! (i + l)))) 0 False (Some True))"
proof -
  let ?p = "\<lparr>p_key = Some key, p_desc = False, p_max_limit = m\<rparr>"
  let ?q = "\<lparr>q_order_by = [], q_order_b = None, q_where = []\<rparr>"
  obtain qs where qs: "build_queryset ?p ?q (CInt v) False = Inr qs" "run qs = drop i rows"
  proof (cases "v = 0")
    case True
    with assms(2,4,9) that show ?thesis
      by (simp add: build_queryset_def build_order_def Let_def is_asc_def)
  next
    case False
    with assms(1,3,4,5,9) that filter_ge_drop [of k rows i] show ?thesis
      by (simp add: build_queryset_def build_order_def Let_def is_asc_def)
  qed
  have "build_queryset ?p ?q (if cv_truth (cur_value c) then value_from_cursor 1 (cur_value c) else CInt 0)
      (cur_is_prev c) = Inr qs"
    using qs(1) assms(8,11) by (auto simp: value_from_cursor_def)
  moreover have "py_slice 0 (int l + 1) (run qs) = take (Suc l) (drop i rows)"
    using qs(2) by (simp add: py_slice_nonneg nat_add_distrib)
  moreover obtain r where "build_cursor (take (Suc l) (drop i rows)) (\<lambda>r p. CInt (k r)) (int l) False
      (Some c) None None None = Inr r" "cr_results r = slice i (i + l) rows"
    "cursor_bool (cr_next r) = (i + l < length rows)"
    "i + l < length rows \<longrightarrow> cr_next r = mk_cursor (CInt (k (rows ! (i + l)))) 0 False (Some True)"
    using keyset_page [OF assms(3,5,6,11,8), of None None] assms(9) by blast
  ultimately show ?thesis
    using assms(7,10,11)
    by (simp add: base_get_result_def Let_def cursor_or_first_def get_item_key_int min_def)
qed

theorem keyset_next_page_witness:
  "\<exists>r. base_get_result
      (\<lambda>q. case q_where q of [(col, op, CInt v)] \<Rightarrow> filter (\<lambda>r. v \<le> r) [1, 3, 8 :: int] | _ \<Rightarrow> [1, 3, 8])
      1 (\<lambda>r. of_int r) \<lparr>p_key = Some ''id'', p_desc = False, p_max_limit = 100\<rparr>
      \<lparr>q_order_by = [], q_order_b = None, q_where = []\<rparr> (\<lambda>n. n) None None (int 1)
      (Some (mk_cursor (CInt 3) 0 False None)) False None None = Inr r \<and>
    cr_results r = slice 1 (1 + 1) [1, 3, 8] \<and>
    cr_next r = mk_cursor (CInt 8) 0 False (Some True)"
proof -
  let ?run = "\<lambda>q. case q_where q of [(col, op, CInt v)] \<Rightarrow> filter (\<lambda>r. v \<le> r) [1, 3, 8 :: int] | _ \<Rightarrow> [1, 3, 8]"
  show ?thesis
    using keyset_next_page [of ?run "''id''" "\<lambda>r. r" "[1, 3, 8]" 1 1 100 "mk_cursor (CInt 3) 0 False None" 3 "\<lambda>n. n"]
    by auto
qed

end
