(* ===== verification/CircuitBreaker.thy ===== *)
theory CircuitBreaker
  imports Prelude
begin

text \<open>
  The circuit breaker of \<open>src/src/sentry/utils/circuit_breaker2.py\<close>. Its own state is two Redis
  keys with a time to live, whose values are their expiry times; the sliding-window rate limiter
  (a library) is a parameter: \<open>use\<close> records a number of hits on quotas, \<open>check\<close> returns how
  many of a request a quota still grants. Time is in whole seconds, read once per operation;
  a flag per operation says whether Redis answers.
\<close>

section \<open>Configuration\<close>

datatype breaker_state = OK | BROKEN | RECOVERY

record quota =
  window_seconds :: int
  granularity_seconds :: int
  quota_limit :: int
  prefix_override :: string

record breaker_config =
  cfg_error_limit :: int
  cfg_error_limit_window :: int
  cfg_broken_state_duration :: int
  cfg_recovery_error_limit :: "int option"
  cfg_error_limit_window_granularity :: "int option"
  cfg_recovery_duration :: "int option"

record breaker =
  br_key :: string
  error_limit :: int
  recovery_error_limit :: int
  br_window :: int
  window_granularity :: int
  broken_state_duration :: int
  recovery_duration :: int
  primary_quota :: quota
  recovery_quota :: quota

definition DEFAULT_RECOVERY_STRICTNESS :: int where
  "DEFAULT_RECOVERY_STRICTNESS = 10"

definition DEFAULT_RECOVERY_WINDOW_MULTIPLIER :: int where
  "DEFAULT_RECOVERY_WINDOW_MULTIPLIER = 2"

definition default_recovery_error_limit :: "breaker_config \<Rightarrow> int" where
  "default_recovery_error_limit cfg = max (cfg_error_limit cfg div DEFAULT_RECOVERY_STRICTNESS) 1"

text \<open>
  The constructor, in the order of the code: the quotas are built from the configured limits
  before the two sanity checks correct the limit and the recovery duration.
\<close>

definition make_breaker :: "string \<Rightarrow> breaker_config \<Rightarrow> breaker" where
  "make_breaker key cfg =
     (let win = cfg_error_limit_window cfg;
          rel = (case cfg_recovery_error_limit cfg of Some l \<Rightarrow> l | None \<Rightarrow> default_recovery_error_limit cfg);
          gran = (case cfg_error_limit_window_granularity cfg of Some g \<Rightarrow> g | None \<Rightarrow> max (win div 20) 5);
          rdur = (case cfg_recovery_duration cfg of Some d \<Rightarrow> d
                  | None \<Rightarrow> win * DEFAULT_RECOVERY_WINDOW_MULTIPLIER);
          b = \<lparr>br_key = key, error_limit = cfg_error_limit cfg, recovery_error_limit = rel,
               br_window = win, window_granularity = gran,
               broken_state_duration = cfg_broken_state_duration cfg, recovery_duration = rdur,
               primary_quota = \<lparr>window_seconds = win, granularity_seconds = gran,
                 quota_limit = cfg_error_limit cfg, prefix_override = key @ ''.circuit_breaker.ok''\<rparr>,
               recovery_quota = \<lparr>window_seconds = win, granularity_seconds = gran,
                 quota_limit = rel, prefix_override = key @ ''.circuit_breaker.recovery''\<rparr>\<rparr>;
          b1 = (if recovery_error_limit b \<ge> error_limit b
                then b\<lparr>recovery_error_limit := default_recovery_error_limit cfg\<rparr> else b)
      in if broken_state_duration b1 + recovery_duration b1 < br_window b1
         then b1\<lparr>recovery_duration := br_window b1 - broken_state_duration b1\<rparr> else b1)"

section \<open>State\<close>

text \<open>A Redis key: its value and the time it expires at.\<close>

type_synonym redis_entry = "(int \<times> int) option"

record breaker_store =
  broken_key :: redis_entry
  recovery_key :: redis_entry

definition redis_get :: "int \<Rightarrow> redis_entry \<Rightarrow> int option" where
  "redis_get now e = (case e of Some (v, expires) \<Rightarrow> if now < expires then Some v else None | None \<Rightarrow> None)"

definition redis_set :: "int \<Rightarrow> int \<Rightarrow> int \<Rightarrow> redis_entry" where
  "redis_set now value timeout = Some (value, now + timeout)"

definition get_state_and_remaining_time ::
  "bool \<Rightarrow> int \<Rightarrow> breaker_store \<Rightarrow> breaker_state \<times> int option" where
  "get_state_and_remaining_time redis_ok now st =
     (if \<not> redis_ok then (OK, None)
      else
        let recovery = (case redis_get now (recovery_key st) of
              Some e \<Rightarrow> if e - now > 0 then (RECOVERY, Some (e - now)) else (OK, None)
            | None \<Rightarrow> (OK, None))
        in case redis_get now (broken_key st) of
             Some e \<Rightarrow> if e - now > 0 then (BROKEN, Some (e - now)) else recovery
           | None \<Rightarrow> recovery)"

fun get_controlling_quota :: "breaker \<Rightarrow> breaker_state \<Rightarrow> quota option" where
  "get_controlling_quota b OK = Some (primary_quota b)"
| "get_controlling_quota b BROKEN = None"
| "get_controlling_quota b RECOVERY = Some (recovery_quota b)"

section \<open>Operations\<close>

definition get_remaining_error_quota ::
  "('l \<Rightarrow> quota \<Rightarrow> int \<Rightarrow> int \<Rightarrow> int) \<Rightarrow> 'l \<Rightarrow> int \<Rightarrow> quota option \<Rightarrow> int option" where
  "get_remaining_error_quota check l window_end q =
     (case q of None \<Rightarrow> None | Some q \<Rightarrow> Some (check l q (quota_limit q) window_end))"

record 'l breaker_sys =
  sys_breaker :: breaker
  sys_store :: breaker_store
  sys_limiter :: 'l

text \<open>One call's environment: the time, and whether reading and writing Redis succeed.\<close>

record call_env =
  env_now :: int
  env_get_ok :: bool
  env_set_ok :: bool

definition trip :: "breaker \<Rightarrow> call_env \<Rightarrow> breaker_store \<Rightarrow> breaker_store" where
  "trip b env st =
     (let now = env_now env; broken_timeout = broken_state_duration b;
          recovery_timeout = broken_state_duration b + recovery_duration b
      in if env_set_ok env
         then st\<lparr>broken_key := redis_set now (now + broken_timeout) broken_timeout,
                 recovery_key := redis_set now (now + recovery_timeout) recovery_timeout\<rparr>
         else st)"

definition record_error ::
  "('l \<Rightarrow> quota list \<Rightarrow> int \<Rightarrow> int \<Rightarrow> 'l) \<Rightarrow> ('l \<Rightarrow> quota \<Rightarrow> int \<Rightarrow> int \<Rightarrow> int) \<Rightarrow>
   'l breaker_sys \<Rightarrow> call_env \<Rightarrow> 'l breaker_sys" where
  "record_error use check s env =
     (let b = sys_breaker s; now = env_now env;
          state = fst (get_state_and_remaining_time (env_get_ok env) now (sys_store s))
      in if state = BROKEN then s
         else
           let quotas = (if state = RECOVERY then [primary_quota b, recovery_quota b] else [primary_quota b]);
               l = use (sys_limiter s) quotas 1 now;
               remaining = get_remaining_error_quota check l now (get_controlling_quota b state)
           in s\<lparr>sys_limiter := l,
                sys_store := (if remaining = Some 0 then trip b env (sys_store s) else sys_store s)\<rparr>)"

definition should_allow_request ::
  "('l \<Rightarrow> quota \<Rightarrow> int \<Rightarrow> int \<Rightarrow> int) \<Rightarrow> 'l breaker_sys \<Rightarrow> call_env \<Rightarrow> bool" where
  "should_allow_request check s env =
     (let state = fst (get_state_and_remaining_time (env_get_ok env) (env_now env) (sys_store s))
      in if state = BROKEN then False
         else case get_remaining_error_quota check (sys_limiter s) (env_now env)
                     (get_controlling_quota (sys_breaker s) state) of
                Some n \<Rightarrow> n > 0 | None \<Rightarrow> False)"

section \<open>Lemmas\<close>

text \<open>
  What the two keys promise: they hold their own expiry times, and the BROKEN key never outlives
  the RECOVERY key.
\<close>

definition store_inv :: "breaker_store \<Rightarrow> bool" where
  "store_inv st \<longleftrightarrow>
     (case broken_key st of None \<Rightarrow> True
      | Some (v, e) \<Rightarrow> v = e \<and> (\<exists>r. recovery_key st = Some (r, r) \<and> e \<le> r)) \<and>
     (case recovery_key st of None \<Rightarrow> True | Some (v, e) \<Rightarrow> v = e)"

definition sys_inv :: "'l breaker_sys \<Rightarrow> bool" where
  "sys_inv s \<longleftrightarrow> store_inv (sys_store s) \<and> 0 \<le> recovery_duration (sys_breaker s)"

lemma trip_inv: "store_inv st \<Longrightarrow> 0 \<le> recovery_duration b \<Longrightarrow> store_inv (trip b env st)"
  by (auto simp: trip_def store_inv_def redis_set_def Let_def)

interpretation breaker_run: step_machine "record_error use check" sys_inv for use check
  by unfold_locales (auto simp: sys_inv_def record_error_def Let_def trip_inv)

lemma get_state_expiry:
  "get_state_and_remaining_time True now
     \<lparr>broken_key = Some (be, be), recovery_key = Some (re, re)\<rparr> =
   (if now < be then (BROKEN, Some (be - now))
    else if now < re then (RECOVERY, Some (re - now)) else (OK, None))"
  by (simp add: get_state_and_remaining_time_def redis_get_def Let_def)

lemma record_error_broken:
  "fst (get_state_and_remaining_time (env_get_ok env) (env_now env) (sys_store s)) = BROKEN \<Longrightarrow>
     record_error use check s env = s"
  by (simp add: record_error_def Let_def)

lemma make_breaker_recovery_nonneg:
  "0 \<le> cfg_error_limit_window cfg \<Longrightarrow> cfg_broken_state_duration cfg \<le> cfg_error_limit_window cfg \<Longrightarrow>
     (case cfg_recovery_duration cfg of Some d \<Rightarrow> 0 \<le> d | None \<Rightarrow> True) \<Longrightarrow>
     0 \<le> recovery_duration (make_breaker key cfg)"
  by (auto simp: make_breaker_def Let_def DEFAULT_RECOVERY_WINDOW_MULTIPLIER_def split: option.splits)

section \<open>Properties\<close>

text \<open>
  C32. The life of a breaker, while Redis answers and with durations that are not negative, after the error that
  trips it at time \<open>t\<close>: BROKEN, blocking every
  request, for the broken duration, then RECOVERY for the recovery duration, then OK again; the
  remaining seconds reported are those left in each state. Whatever the limiter has counted by then (\<open>l\<close>),
  a request in RECOVERY is let through exactly when the recovery quota has errors left, and one in OK exactly
  when the primary quota has.
\<close>

theorem breaker_lifecycle:
  assumes "fst (get_state_and_remaining_time (env_get_ok env) (env_now env) (sys_store s)) = st" and "st \<noteq> BROKEN"
    and "get_remaining_error_quota check
           (use (sys_limiter s) (if st = RECOVERY then [primary_quota b, recovery_quota b] else [primary_quota b]) 1 t)
           t (get_controlling_quota b st) = Some 0"
    and "sys_breaker s = b" and "env_now env = t" and "env_set_ok env"
    and "0 \<le> broken_state_duration b" and "0 \<le> recovery_duration b"
  shows "get_state_and_remaining_time True now (sys_store (record_error use check s env)) =
      (if now < t + broken_state_duration b then (BROKEN, Some (t + broken_state_duration b - now))
       else if now < t + broken_state_duration b + recovery_duration b
       then (RECOVERY, Some (t + broken_state_duration b + recovery_duration b - now))
       else (OK, None)) \<and>
    should_allow_request check ((record_error use check s env)\<lparr>sys_limiter := l\<rparr>) \<lparr>env_now = now, env_get_ok = True, env_set_ok = ok\<rparr> =
      (if now < t + broken_state_duration b then False
       else if now < t + broken_state_duration b + recovery_duration b
       then 0 < check l (recovery_quota b) (quota_limit (recovery_quota b)) now
       else 0 < check l (primary_quota b) (quota_limit (primary_quota b)) now)"
proof -
  have store: "sys_store (record_error use check s env) =
      (sys_store s)\<lparr>broken_key := Some (t + broken_state_duration b, t + broken_state_duration b),
        recovery_key := Some (t + broken_state_duration b + recovery_duration b,
                              t + broken_state_duration b + recovery_duration b)\<rparr>"
    using assms by (simp add: record_error_def Let_def trip_def redis_set_def add.assoc)
  then have eq: "sys_store (record_error use check s env) =
      \<lparr>broken_key = Some (t + broken_state_duration b, t + broken_state_duration b),
       recovery_key = Some (t + broken_state_duration b + recovery_duration b,
                            t + broken_state_duration b + recovery_duration b)\<rparr>"
    by (cases "sys_store s") simp
  have breaker: "sys_breaker (record_error use check s env) = b"
    using assms(4) by (simp add: record_error_def Let_def)
  show ?thesis
    unfolding should_allow_request_def
    by (simp add: eq breaker get_state_expiry get_remaining_error_quota_def Let_def)
qed

theorem breaker_lifecycle_witness:
  "get_state_and_remaining_time True 130
     (sys_store (record_error (\<lambda>l qs n now. l + n) (\<lambda>l q n now. max 0 (n - l))
       \<lparr>sys_breaker = make_breaker ''k'' \<lparr>cfg_error_limit = 5, cfg_error_limit_window = 60,
            cfg_broken_state_duration = 20, cfg_recovery_error_limit = None,
            cfg_error_limit_window_granularity = None, cfg_recovery_duration = None\<rparr>,
        sys_store = \<lparr>broken_key = None, recovery_key = None\<rparr>, sys_limiter = 4\<rparr>
       \<lparr>env_now = 100, env_get_ok = True, env_set_ok = True\<rparr>)) = (RECOVERY, Some 110)"
proof -
  let ?b = "make_breaker ''k'' \<lparr>cfg_error_limit = 5, cfg_error_limit_window = 60,
            cfg_broken_state_duration = 20, cfg_recovery_error_limit = None,
            cfg_error_limit_window_granularity = None, cfg_recovery_duration = None\<rparr>"
  let ?s = "\<lparr>sys_breaker = ?b, sys_store = \<lparr>broken_key = None, recovery_key = None\<rparr>, sys_limiter = 4 :: int\<rparr>"
  let ?env = "\<lparr>env_now = 100, env_get_ok = True, env_set_ok = True\<rparr>"
  have "broken_state_duration ?b = 20" "recovery_duration ?b = 120" "quota_limit (primary_quota ?b) = 5"
    by (simp_all add: make_breaker_def Let_def default_recovery_error_limit_def
        DEFAULT_RECOVERY_STRICTNESS_def DEFAULT_RECOVERY_WINDOW_MULTIPLIER_def)
  then show ?thesis
    using breaker_lifecycle [of ?env ?s OK "\<lambda>l q n now. max 0 (n - l)" "\<lambda>l qs n now. l + n" ?b 100 130 0 True]
    by (simp add: get_state_and_remaining_time_def redis_get_def get_remaining_error_quota_def Let_def)
qed

text \<open>
  In every run of recorded errors, from no keys and with a recovery duration that is not
  negative, the BROKEN key never outlives the RECOVERY key and both hold their expiry times, so
  the state the code reads goes BROKEN, RECOVERY, OK and the assertion in \<open>record_error\<close> that
  a BROKEN breaker has a remaining time holds.
\<close>

theorem breaker_run_keys_ordered:
  assumes "0 \<le> recovery_duration (sys_breaker s)"
    and "sys_store s = \<lparr>broken_key = None, recovery_key = None\<rparr>"
    and "fst (get_state_and_remaining_time True now (sys_store (foldl (record_error use check) s envs))) = BROKEN"
  shows "\<exists>be re. sys_store (foldl (record_error use check) s envs) =
      \<lparr>broken_key = Some (be, be), recovery_key = Some (re, re)\<rparr> \<and> now < be \<and> be \<le> re"
proof -
  let ?st = "sys_store (foldl (record_error use check) s envs)"
  have "sys_inv s" using assms(1,2) by (simp add: sys_inv_def store_inv_def)
  then have "store_inv ?st" using breaker_run.run_inv sys_inv_def by blast
  then show ?thesis
    using assms(3) by (cases ?st)
      (auto simp: store_inv_def get_state_and_remaining_time_def redis_get_def Let_def
        split: option.splits if_splits)
qed

theorem breaker_run_keys_ordered_witness:
  "\<exists>be re. sys_store (foldl (record_error (\<lambda>l qs n now. l) (\<lambda>l q n now. 0))
      \<lparr>sys_breaker = make_breaker ''k'' \<lparr>cfg_error_limit = 5, cfg_error_limit_window = 60,
            cfg_broken_state_duration = 20, cfg_recovery_error_limit = None,
            cfg_error_limit_window_granularity = None, cfg_recovery_duration = None\<rparr>,
        sys_store = \<lparr>broken_key = None, recovery_key = None\<rparr>, sys_limiter = ()\<rparr>
      [\<lparr>env_now = 100, env_get_ok = True, env_set_ok = True\<rparr>]) =
      \<lparr>broken_key = Some (be, be), recovery_key = Some (re, re)\<rparr> \<and> 110 < be \<and> be \<le> re"
proof -
  let ?b = "make_breaker ''k'' \<lparr>cfg_error_limit = 5, cfg_error_limit_window = 60,
            cfg_broken_state_duration = 20, cfg_recovery_error_limit = None,
            cfg_error_limit_window_granularity = None, cfg_recovery_duration = None\<rparr>"
  have b: "broken_state_duration ?b = 20" "recovery_duration ?b = 120"
    by (simp_all add: make_breaker_def Let_def DEFAULT_RECOVERY_WINDOW_MULTIPLIER_def)
  show ?thesis
    by (rule breaker_run_keys_ordered)
      (simp_all add: b record_error_def get_state_and_remaining_time_def redis_get_def redis_set_def
        trip_def get_remaining_error_quota_def)
qed

text \<open>
  The sanity check on the recovery limit does not reach the recovery quota: a breaker whose
  configured recovery limit is not below its error limit gets the stricter default as its
  \<open>recovery_error_limit\<close>, but its recovery quota keeps the configured limit, so during RECOVERY
  it tolerates at least as many errors as in normal operation.
\<close>

theorem recovery_quota_not_corrected:
  assumes "cfg_recovery_error_limit cfg = Some l" and "cfg_error_limit cfg \<le> l"
  shows "recovery_error_limit (make_breaker key cfg) = default_recovery_error_limit cfg \<and>
    quota_limit (recovery_quota (make_breaker key cfg)) = l \<and>
    quota_limit (primary_quota (make_breaker key cfg)) \<le> quota_limit (recovery_quota (make_breaker key cfg))"
  using assms by (simp add: make_breaker_def Let_def)

theorem recovery_quota_not_corrected_witness:
  "quota_limit (recovery_quota (make_breaker ''k'' \<lparr>cfg_error_limit = 50, cfg_error_limit_window = 60,
      cfg_broken_state_duration = 20, cfg_recovery_error_limit = Some 80,
      cfg_error_limit_window_granularity = None, cfg_recovery_duration = None\<rparr>)) = 80"
  using recovery_quota_not_corrected [of "\<lparr>cfg_error_limit = 50, cfg_error_limit_window = 60,
      cfg_broken_state_duration = 20, cfg_recovery_error_limit = Some 80,
      cfg_error_limit_window_granularity = None, cfg_recovery_duration = None\<rparr>" 80 "''k''"]
  by simp

end
