(* ===== verification/Uptime.thy ===== *)
theory Uptime
  imports Prelude
begin

text \<open>
  Uptime monitoring, \<open>src/src/sentry/uptime\<close>: the rows of the two models (subscriptions to the
  remote checker, and the projects linked to them), the life cycle of a remote subscription
  (\<open>subscriptions/subscriptions.py\<close>, \<open>subscriptions/tasks.py\<close>), the consumer of check results
  (\<open>consumers/results_consumer.py\<close>) and the detection of candidate URLs (\<open>detectors/tasks.py\<close>).
  The state record holds the two tables, the queue of asynchronous tasks, the messages produced
  for the checker and the issue platform, and the Redis counters. The counters of consecutive results have the time at
  which Redis drops them; that another key expires is an event of its own. Times are in milliseconds. Calls to Kafka are taken to succeed.
\<close>

section \<open>State\<close>

datatype sub_status = ACTIVE | CREATING | UPDATING | DELETING | DISABLED

datatype mode = MANUAL | AUTO_DETECTED_ONBOARDING | AUTO_DETECTED_ACTIVE

datatype uptime_status = UpOK | UpFAILED

datatype check_status = CHECK_SUCCESS | CHECK_FAILURE | CHECK_MISSED_WINDOW

record usub =
  us_id :: nat
  us_url :: string
  us_interval :: int
  us_timeout :: int
  us_status :: sub_status
  us_subscription_id :: "nat option"
  us_host_provider :: "string option"

datatype actor = UserActor nat | TeamActor nat

record psub =
  ps_id :: nat
  ps_project :: nat
  ps_sub :: nat
  ps_mode :: mode
  ps_status :: uptime_status
  ps_date_added :: int
  ps_name :: string
  ps_owner_user :: "nat option"
  ps_owner_team :: "nat option"

datatype task = CreateRemote nat | DeleteRemote nat | FetchRdap nat

datatype message = ProduceConfig nat nat | ProduceRemoval nat
  | CreateOccurrence nat | ResolveIssue nat

record check_result =
  r_subscription_id :: nat
  r_status :: check_status
  r_scheduled_ms :: int

record uptime =
  subs :: "usub list"
  psubs :: "psub list"
  tasks :: "task list"
  produced :: "message list"
  last_updates :: "(nat, int) dict"
  onboarding_failures :: "(nat, int) dict"
  consecutive :: "(nat \<times> check_status, int \<times> int) dict"
  failed_urls :: "string list"
  next_sub :: nat
  next_psub :: nat
  next_sid :: nat

definition find_sub :: "uptime \<Rightarrow> nat \<Rightarrow> usub option" where
  "find_sub s i = find (\<lambda>u. us_id u = i) (subs s)"

definition find_psub :: "uptime \<Rightarrow> nat \<Rightarrow> psub option" where
  "find_psub s i = find (\<lambda>p. ps_id p = i) (psubs s)"

definition update_sub :: "nat \<Rightarrow> (usub \<Rightarrow> usub) \<Rightarrow> uptime \<Rightarrow> uptime" where
  "update_sub i f s = s\<lparr>subs := map (\<lambda>u. if us_id u = i then f u else u) (subs s)\<rparr>"

definition update_psub :: "nat \<Rightarrow> (psub \<Rightarrow> psub) \<Rightarrow> uptime \<Rightarrow> uptime" where
  "update_psub i f s = s\<lparr>psubs := map (\<lambda>p. if ps_id p = i then f p else p) (psubs s)\<rparr>"

definition delay :: "task \<Rightarrow> uptime \<Rightarrow> uptime" where
  "delay t s = s\<lparr>tasks := tasks s @ [t]\<rparr>"

definition produce :: "message \<Rightarrow> uptime \<Rightarrow> uptime" where
  "produce m s = s\<lparr>produced := produced s @ [m]\<rparr>"

section \<open>Remote subscriptions\<close>

definition DEFAULT_SUBSCRIPTION_TIMEOUT_MS :: int where
  "DEFAULT_SUBSCRIPTION_TIMEOUT_MS = 10000"

text \<open>
  Get or create the row for this URL and interval; a row waiting for deletion is taken back
  into creation; a new or taken-back row is announced to the checker by a task.
\<close>

definition create_uptime_subscription :: "string \<Rightarrow> int \<Rightarrow> int \<Rightarrow> uptime \<Rightarrow> nat \<times> uptime" where
  "create_uptime_subscription url interval timeout s =
     (let (row, created, s1) =
            (case find (\<lambda>u. us_url u = url \<and> us_interval u = interval) (subs s) of
               Some u \<Rightarrow> (u, False, s)
             | None \<Rightarrow>
                 let u = \<lparr>us_id = next_sub s, us_url = url, us_interval = interval, us_timeout = timeout,
                          us_status = CREATING, us_subscription_id = None, us_host_provider = None\<rparr>
                 in (u, True, s\<lparr>subs := subs s @ [u], next_sub := Suc (next_sub s)\<rparr>));
          back = (us_status row = DELETING);
          s2 = (if back then update_sub (us_id row) (\<lambda>u. u\<lparr>us_status := CREATING\<rparr>) s1 else s1);
          s3 = (if created \<or> back
                then delay (FetchRdap (us_id row)) (delay (CreateRemote (us_id row)) s2) else s2)
      in (us_id row, s3))"

definition delete_uptime_subscription :: "nat \<Rightarrow> uptime \<Rightarrow> uptime" where
  "delete_uptime_subscription i s =
     delay (DeleteRemote i) (update_sub i (\<lambda>u. u\<lparr>us_status := DELETING\<rparr>) s)"

definition remove_uptime_subscription_if_unused :: "nat \<Rightarrow> uptime \<Rightarrow> uptime" where
  "remove_uptime_subscription_if_unused i s =
     (if \<not> list_ex (\<lambda>p. ps_sub p = i) (psubs s) then delete_uptime_subscription i s else s)"

text \<open>
  A link is looked up with its name and, if one is given, its owner. The table admits one manual and one automatic
  link of a project to a subscription; creating another one, or turning a link into one, raises.
\<close>

definition has_owner :: "actor option \<Rightarrow> psub \<Rightarrow> bool" where
  "has_owner owner p =
     (case owner of None \<Rightarrow> True
      | Some (UserActor u) \<Rightarrow> ps_owner_user p = Some u
      | Some (TeamActor t) \<Rightarrow> ps_owner_team p = Some t)"

definition link_taken :: "nat \<Rightarrow> nat \<Rightarrow> mode \<Rightarrow> uptime \<Rightarrow> bool" where
  "link_taken project i m s =
     list_ex (\<lambda>p. ps_project p = project \<and> ps_sub p = i \<and> (ps_mode p = MANUAL) = (m = MANUAL)) (psubs s)"

definition create_project_uptime_subscription ::
  "nat \<Rightarrow> nat \<Rightarrow> mode \<Rightarrow> string \<Rightarrow> actor option \<Rightarrow> int \<Rightarrow> uptime \<Rightarrow> nat result \<times> uptime" where
  "create_project_uptime_subscription project i m name owner now s =
     (case find (\<lambda>p. ps_project p = project \<and> ps_sub p = i \<and> ps_mode p = m \<and> ps_name p = name \<and> has_owner owner p) (psubs s) of
        Some p \<Rightarrow> (Inr (ps_id p), s)
      | None \<Rightarrow>
          if link_taken project i m s then (Inl (OtherError ''IntegrityError''), s)
          else
            (Inr (next_psub s),
             s\<lparr>psubs := psubs s @ [\<lparr>ps_id = next_psub s, ps_project = project, ps_sub = i, ps_mode = m,
                  ps_status = UpOK, ps_date_added = now, ps_name = name,
                  ps_owner_user = (case owner of Some (UserActor u) \<Rightarrow> Some u | _ \<Rightarrow> None),
                  ps_owner_team = (case owner of Some (TeamActor t) \<Rightarrow> Some t | _ \<Rightarrow> None)\<rparr>],
               next_psub := Suc (next_psub s)\<rparr>))"

definition delete_uptime_subscriptions_for_project :: "nat \<Rightarrow> nat \<Rightarrow> mode list \<Rightarrow> uptime \<Rightarrow> uptime" where
  "delete_uptime_subscriptions_for_project project i modes s =
     remove_uptime_subscription_if_unused i
       (s\<lparr>psubs := filter (\<lambda>p. \<not> (ps_project p = project \<and> ps_sub p = i \<and> ps_mode p \<in> set modes)) (psubs s)\<rparr>)"

definition delete_project_uptime_subscription :: "psub \<Rightarrow> uptime \<Rightarrow> uptime" where
  "delete_project_uptime_subscription p s =
     remove_uptime_subscription_if_unused (ps_sub p)
       (s\<lparr>psubs := filter (\<lambda>q. ps_id q \<noteq> ps_id p) (psubs s)\<rparr>)"

definition auto_modes :: "mode list" where
  "auto_modes = [AUTO_DETECTED_ONBOARDING, AUTO_DETECTED_ACTIVE]"

definition get_auto_monitored_subscriptions_for_project :: "nat \<Rightarrow> uptime \<Rightarrow> psub list" where
  "get_auto_monitored_subscriptions_for_project project s =
     filter (\<lambda>p. ps_project p = project \<and> ps_mode p \<in> set auto_modes) (psubs s)"

definition is_url_auto_monitored_for_project :: "nat \<Rightarrow> string \<Rightarrow> uptime \<Rightarrow> bool" where
  "is_url_auto_monitored_for_project project url s =
     list_ex (\<lambda>p. case find_sub s (ps_sub p) of Some u \<Rightarrow> us_url u = url | None \<Rightarrow> False)
       (get_auto_monitored_subscriptions_for_project project s)"

section \<open>Asynchronous tasks\<close>

definition create_remote_uptime_subscription :: "nat \<Rightarrow> uptime \<Rightarrow> uptime" where
  "create_remote_uptime_subscription i s =
     (case find_sub s i of
        None \<Rightarrow> s
      | Some u \<Rightarrow>
          if us_status u \<noteq> CREATING then s
          else
            let sid = next_sid s
            in update_sub i (\<lambda>u. u\<lparr>us_status := ACTIVE, us_subscription_id := Some sid\<rparr>)
                 (produce (ProduceConfig i sid) (s\<lparr>next_sid := Suc sid\<rparr>)))"

text \<open>
  Deleting a row some project still refers to is refused by the database (the foreign key is
  PROTECT): the task fails and nothing changes.
\<close>

definition delete_remote_uptime_subscription :: "nat \<Rightarrow> uptime \<Rightarrow> uptime" where
  "delete_remote_uptime_subscription i s =
     (case find_sub s i of
        None \<Rightarrow> s
      | Some u \<Rightarrow>
          if us_status u \<notin> {DELETING, DISABLED} then s
          else if us_status u = DELETING \<and> list_ex (\<lambda>p. ps_sub p = i) (psubs s) then s
          else
            let s1 = (if us_status u = DELETING then s\<lparr>subs := filter (\<lambda>v. us_id v \<noteq> i) (subs s)\<rparr>
                      else update_sub i (\<lambda>v. v\<lparr>us_subscription_id := None\<rparr>) s)
            in (case us_subscription_id u of Some sid \<Rightarrow> produce (ProduceRemoval sid) s1 | None \<Rightarrow> s1))"

definition run_task :: "uptime \<Rightarrow> task \<Rightarrow> uptime" where
  "run_task s t = (case t of
       CreateRemote i \<Rightarrow> create_remote_uptime_subscription i s
     | DeleteRemote i \<Rightarrow> delete_remote_uptime_subscription i s
     | FetchRdap i \<Rightarrow> s)"

text \<open>\<open>subscription_checker\<close>: \<open>stale\<close> says which rows have not been updated for ten minutes.\<close>

definition subscription_checker :: "(nat \<Rightarrow> bool) \<Rightarrow> uptime \<Rightarrow> uptime" where
  "subscription_checker stale s =
     foldl (\<lambda>s u. if us_status u = CREATING then delay (CreateRemote (us_id u)) s
                   else delay (DeleteRemote (us_id u)) s)
       s (filter (\<lambda>u. us_status u \<in> {CREATING, DELETING} \<and> stale (us_id u)) (subs s))"

section \<open>Results\<close>

definition ONBOARDING_MONITOR_PERIOD :: int where
  "ONBOARDING_MONITOR_PERIOD = 3 * 24 * 3600 * 1000"

definition ONBOARDING_FAILURE_THRESHOLD :: int where
  "ONBOARDING_FAILURE_THRESHOLD = 3"

definition ACTIVE_FAILURE_THRESHOLD :: int where
  "ACTIVE_FAILURE_THRESHOLD = 3"

definition ACTIVE_RECOVERY_THRESHOLD :: int where
  "ACTIVE_RECOVERY_THRESHOLD = 1"

definition AUTO_DETECTED_ACTIVE_SUBSCRIPTION_INTERVAL :: int where
  "AUTO_DETECTED_ACTIVE_SUBSCRIPTION_INTERVAL = 60"

definition ACTIVE_THRESHOLD_REDIS_TTL :: int where
  "ACTIVE_THRESHOLD_REDIS_TTL = 60 * 60 * 1000"

text \<open>The feature flag and the option the consumer reads, and the time at which it handles a result.\<close>

record uptime_env =
  create_issues :: bool
  restricted_providers :: "string option list"
  redis_now :: int

definition incr :: "'k \<Rightarrow> ('k, int) dict \<Rightarrow> int \<times> ('k, int) dict" where
  "incr k d = (let n = (case dict_get d k of None \<Rightarrow> 0 | Some c \<Rightarrow> c) + 1 in (n, dict_set k n d))"

definition incr_expiring :: "int \<Rightarrow> int \<Rightarrow> 'k \<Rightarrow> ('k, int \<times> int) dict \<Rightarrow> int \<times> ('k, int \<times> int) dict" where
  "incr_expiring now ttl k d =
     (let n = (case dict_get d k of None \<Rightarrow> 0 | Some (c, expiry) \<Rightarrow> if now < expiry then c else 0) + 1
      in (n, dict_set k (n, now + ttl) d))"

definition has_reached_status_threshold :: "int \<Rightarrow> psub \<Rightarrow> check_status \<Rightarrow> uptime \<Rightarrow> bool \<times> uptime" where
  "has_reached_status_threshold now p st s =
     (let (n, d) = incr_expiring now ACTIVE_THRESHOLD_REDIS_TTL (ps_id p, st) (consecutive s)
      in ((st = CHECK_FAILURE \<and> n \<ge> ACTIVE_FAILURE_THRESHOLD) \<or>
          (st = CHECK_SUCCESS \<and> n \<ge> ACTIVE_RECOVERY_THRESHOLD),
          s\<lparr>consecutive := d\<rparr>))"

definition handle_result_for_project_active_mode :: "uptime_env \<Rightarrow> psub \<Rightarrow> check_result \<Rightarrow> uptime \<Rightarrow> uptime" where
  "handle_result_for_project_active_mode env p r s0 =
     (let delete_status = (if r_status r = CHECK_SUCCESS then CHECK_FAILURE else CHECK_SUCCESS);
          s = s0\<lparr>consecutive := dict_del (ps_id p, delete_status) (consecutive s0)\<rparr>
      in if ps_status p = UpOK \<and> r_status r = CHECK_FAILURE
         then
           (let (reached, s1) = has_reached_status_threshold (redis_now env) p (r_status r) s
            in if \<not> reached then s1
               else
                 let provider = (case find_sub s1 (ps_sub p) of Some u \<Rightarrow> us_host_provider u | None \<Rightarrow> None);
                     restricted = provider \<in> set (restricted_providers env);
                     s2 = (if create_issues env \<and> \<not> restricted
                           then produce (CreateOccurrence (ps_id p)) s1 else s1)
                 in update_psub (ps_id p) (\<lambda>q. q\<lparr>ps_status := UpFAILED\<rparr>) s2)
         else if ps_status p = UpFAILED \<and> r_status r = CHECK_SUCCESS
         then
           (let (reached, s1) = has_reached_status_threshold (redis_now env) p (r_status r) s
            in if \<not> reached then s1
               else
                 let s2 = (if create_issues env then produce (ResolveIssue (ps_id p)) s1 else s1)
                 in update_psub (ps_id p) (\<lambda>q. q\<lparr>ps_status := UpOK\<rparr>) s2)
         else s)"

definition handle_result_for_project_auto_onboarding_mode :: "psub \<Rightarrow> check_result \<Rightarrow> uptime \<Rightarrow> uptime" where
  "handle_result_for_project_auto_onboarding_mode p r s =
     (if r_status r = CHECK_FAILURE then
        (let (n, d) = incr (ps_id p) (onboarding_failures s); s1 = s\<lparr>onboarding_failures := d\<rparr>
         in if n \<ge> ONBOARDING_FAILURE_THRESHOLD
            then
              let s2 = delete_uptime_subscriptions_for_project (ps_project p) (ps_sub p)
                         [AUTO_DETECTED_ONBOARDING] s1;
                  url = (case find_sub s (ps_sub p) of Some u \<Rightarrow> us_url u | None \<Rightarrow> [])
              in s2\<lparr>failed_urls := url # failed_urls s2,
                    onboarding_failures := dict_del (ps_id p) (onboarding_failures s2)\<rparr>
            else s1)
      else if r_status r = CHECK_SUCCESS then
        (if r_scheduled_ms r - ONBOARDING_MONITOR_PERIOD > ps_date_added p
         then (case find_sub s (ps_sub p) of
                 None \<Rightarrow> s
               | Some u \<Rightarrow>
                   let (i, s1) = create_uptime_subscription (us_url u)
                                   AUTO_DETECTED_ACTIVE_SUBSCRIPTION_INTERVAL (us_timeout u) s;
                       s2 = update_psub (ps_id p)
                              (\<lambda>q. q\<lparr>ps_sub := i, ps_mode := AUTO_DETECTED_ACTIVE\<rparr>) s1
                   in if list_ex (\<lambda>q. ps_id q \<noteq> ps_id p \<and> ps_project q = ps_project p \<and> ps_sub q = i \<and> ps_mode q \<noteq> MANUAL) (psubs s1)
                      then s1 \<comment> \<open>the table refuses, which is caught\<close>
                      else remove_uptime_subscription_if_unused (ps_sub p) s2)
         else s)
      else s)"

definition handle_result_for_project :: "uptime_env \<Rightarrow> psub \<Rightarrow> check_result \<Rightarrow> int \<Rightarrow> uptime \<Rightarrow> uptime" where
  "handle_result_for_project env p r last_update_ms s =
     (if r_scheduled_ms r \<le> last_update_ms then s
      else
        let s1 = (case ps_mode p of
                    AUTO_DETECTED_ONBOARDING \<Rightarrow> handle_result_for_project_auto_onboarding_mode p r s
                  | AUTO_DETECTED_ACTIVE \<Rightarrow> handle_result_for_project_active_mode env p r s
                  | MANUAL \<Rightarrow> handle_result_for_project_active_mode env p r s)
        in s1\<lparr>last_updates := dict_set (ps_id p) (r_scheduled_ms r) (last_updates s1)\<rparr>)"

definition last_update_ms :: "uptime \<Rightarrow> nat \<Rightarrow> int" where
  "last_update_ms s i = (case dict_get (last_updates s) i of None \<Rightarrow> 0 | Some t \<Rightarrow> t)"

definition handle_result :: "uptime_env \<Rightarrow> uptime \<Rightarrow> check_result \<Rightarrow> uptime" where
  "handle_result env s r =
     (case find (\<lambda>u. us_subscription_id u = Some (r_subscription_id r)) (subs s) of
        None \<Rightarrow> produce (ProduceRemoval (r_subscription_id r)) s
      | Some u \<Rightarrow>
          let ps = filter (\<lambda>p. ps_sub p = us_id u) (psubs s);
              lasts = map (\<lambda>p. last_update_ms s (ps_id p)) ps
          in foldl (\<lambda>s (l, p). handle_result_for_project env p r l s) s (zip lasts ps))"

text \<open>The part of \<open>handle_result\<close> that concerns one linked project, as the state holds it.\<close>

definition handle_for_psub :: "uptime_env \<Rightarrow> nat \<Rightarrow> uptime \<Rightarrow> check_result \<Rightarrow> uptime" where
  "handle_for_psub env i s r =
     (case find_psub s i of
        None \<Rightarrow> s
      | Some p \<Rightarrow> handle_result_for_project env p r (last_update_ms s i) s)"

section \<open>Detection of candidate URLs\<close>

definition URL_MIN_TIMES_SEEN :: int where
  "URL_MIN_TIMES_SEEN = 5"

definition ONBOARDING_SUBSCRIPTION_INTERVAL_SECONDS :: int where
  "ONBOARDING_SUBSCRIPTION_INTERVAL_SECONDS = 3600"

definition monitor_url_for_project :: "nat \<Rightarrow> string \<Rightarrow> int \<Rightarrow> uptime \<Rightarrow> uptime" where
  "monitor_url_for_project project url now s =
     (let s1 = foldl (\<lambda>s p. delete_uptime_subscriptions_for_project project (ps_sub p) auto_modes s) s
                 (get_auto_monitored_subscriptions_for_project project s);
          (i, s2) = create_uptime_subscription url ONBOARDING_SUBSCRIPTION_INTERVAL_SECONDS
                      DEFAULT_SUBSCRIPTION_TIMEOUT_MS s1
      in snd (create_project_uptime_subscription project i AUTO_DETECTED_ONBOARDING [] None now s2))"

text \<open>
  One candidate: seen at least five times and in at least 5 per cent of the project's URLs, not
  already monitored, not failed recently, allowed by robots.txt (\<open>robots_ok\<close>). With the feature
  flag the URL is monitored and the detection switched off (the last component).
\<close>

definition process_candidate_url ::
  "(string \<Rightarrow> bool) \<Rightarrow> bool \<Rightarrow> int \<Rightarrow> nat \<Rightarrow> int \<Rightarrow> string \<Rightarrow> int \<Rightarrow> uptime \<Rightarrow> bool \<times> bool \<times> uptime" where
  "process_candidate_url robots_ok flag now project project_url_count url url_count s =
     (if url_count < URL_MIN_TIMES_SEEN \<or> url_count * 20 < project_url_count then (False, False, s)
      else if is_url_auto_monitored_for_project project url s then (True, False, s)
      else if url \<in> set (failed_urls s) then (False, False, s)
      else if \<not> robots_ok url then (False, False, s\<lparr>failed_urls := url # failed_urls s\<rparr>)
      else if flag then (True, True, monitor_url_for_project project url now s)
      else (True, False, s))"

fun process_candidates ::
  "(string \<Rightarrow> bool) \<Rightarrow> bool \<Rightarrow> int \<Rightarrow> nat \<Rightarrow> int \<Rightarrow> (string \<times> int) list \<Rightarrow> uptime \<Rightarrow> bool \<times> bool \<times> uptime" where
  "process_candidates robots_ok flag now project cnt [] s = (False, False, s)"
| "process_candidates robots_ok flag now project cnt ((url, n) # rest) s =
     (case process_candidate_url robots_ok flag now project cnt url n s of
        (True, off, s1) \<Rightarrow> (True, off, s1)
      | (False, off, s1) \<Rightarrow> process_candidates robots_ok flag now project cnt rest s1)"

definition process_project_url_ranking ::
  "(string \<Rightarrow> bool) \<Rightarrow> bool \<Rightarrow> int \<Rightarrow> bool \<Rightarrow> nat \<Rightarrow> int \<Rightarrow> (string \<times> int) list \<Rightarrow> uptime \<Rightarrow> bool \<times> bool \<times> uptime" where
  "process_project_url_ranking robots_ok flag now should_detect project cnt candidates s =
     (if \<not> should_detect then (False, False, s)
      else process_candidates robots_ok flag now project cnt (take 5 candidates) s)"


section \<open>Lemmas\<close>

lemmas state_ops = update_sub_def update_psub_def delay_def produce_def

lemma find_update:
  "(\<And>x. key (f x) = key x) \<Longrightarrow>
     find (\<lambda>x. key x = i) (map (\<lambda>x. if key x = j then f x else x) xs) =
     (if i = j then map_option f (find (\<lambda>x. key x = i) xs) else find (\<lambda>x. key x = i) xs)"
  by (induction xs) auto

lemma find_psub_id: "find_psub s i = Some p \<Longrightarrow> ps_id p = i"
  by (auto simp: find_psub_def find_Some_iff)

lemma find_psub_update [simp]:
  "(\<And>p. ps_id (f p) = ps_id p) \<Longrightarrow>
     find_psub (update_psub j f s) i = (if i = j then map_option f (find_psub s i) else find_psub s i)"
  by (simp add: find_psub_def update_psub_def find_update)

lemma find_psub_cong: "psubs s = psubs t \<Longrightarrow> find_psub s i = find_psub t i"
  by (simp add: find_psub_def)

lemma last_update_cong: "last_updates s = last_updates t \<Longrightarrow> last_update_ms s i = last_update_ms t i"
  by (simp add: last_update_ms_def)

subsection \<open>Results: what one project's status depends on\<close>

text \<open>
  The abstract monitor of one linked project: its status, the number of failures in its counter and the time up to
  which that counts, and the time of the last result taken. A result comes with the time at which it is handled.
\<close>

definition failures_of :: "uptime \<Rightarrow> nat \<Rightarrow> int \<times> int" where
  "failures_of s i = (case dict_get (consecutive s) (i, CHECK_FAILURE) of None \<Rightarrow> (0, 0) | Some v \<Rightarrow> v)"

definition monitor_view :: "nat \<Rightarrow> uptime \<Rightarrow> uptime_status \<times> (int \<times> int) \<times> int" where
  "monitor_view i s =
     ((case find_psub s i of Some p \<Rightarrow> ps_status p | None \<Rightarrow> UpOK), failures_of s i, last_update_ms s i)"

definition monitor_step ::
  "uptime_status \<times> (int \<times> int) \<times> int \<Rightarrow> int \<times> check_result \<Rightarrow> uptime_status \<times> (int \<times> int) \<times> int" where
  "monitor_step m = (\<lambda>(now, r).
     (let (st, (n, expiry), l) = m
      in if r_scheduled_ms r \<le> l then m
         else case r_status r of
           CHECK_SUCCESS \<Rightarrow> (UpOK, (0, 0), r_scheduled_ms r)
         | CHECK_MISSED_WINDOW \<Rightarrow> (st, (n, expiry), r_scheduled_ms r)
         | CHECK_FAILURE \<Rightarrow>
             if st = UpFAILED then (st, (n, expiry), r_scheduled_ms r)
             else
               let k = (if now < expiry then n else 0) + 1
               in (if k \<ge> 3 then UpFAILED else UpOK, (k, now + ACTIVE_THRESHOLD_REDIS_TTL), r_scheduled_ms r)))"

text \<open>The project is linked in one of the two monitoring modes, and the success counter is not negative.\<close>

definition successes_ok :: "uptime \<Rightarrow> nat \<Rightarrow> bool" where
  "successes_ok s i = (case dict_get (consecutive s) (i, CHECK_SUCCESS) of None \<Rightarrow> True | Some (n, _) \<Rightarrow> 0 \<le> n)"

definition monitored :: "nat \<Rightarrow> uptime \<Rightarrow> bool" where
  "monitored i s \<longleftrightarrow>
     (\<exists>p. find_psub s i = Some p \<and> ps_mode p \<noteq> AUTO_DETECTED_ONBOARDING) \<and> successes_ok s i"

definition handle_at :: "uptime_env \<Rightarrow> nat \<Rightarrow> uptime \<Rightarrow> int \<times> check_result \<Rightarrow> uptime" where
  "handle_at env i s = (\<lambda>(now, r). handle_for_psub (env\<lparr>redis_now := now\<rparr>) i s r)"

lemma handle_for_psub_monitored:
  assumes "find_psub s i = Some p" and "ps_mode p \<noteq> AUTO_DETECTED_ONBOARDING"
  shows "handle_for_psub env i s r =
    (if r_scheduled_ms r \<le> last_update_ms s i then s
     else (handle_result_for_project_active_mode env p r s)
       \<lparr>last_updates := dict_set i (r_scheduled_ms r)
          (last_updates (handle_result_for_project_active_mode env p r s))\<rparr>)"
  using assms find_psub_id [OF assms(1)]
  by (cases "ps_mode p") (simp_all add: handle_for_psub_def handle_result_for_project_def Let_def)

lemma active_mode_view:
  fixes env r
  assumes "find_psub s i = Some p" and "successes_ok s i"
  defines "s' \<equiv> handle_result_for_project_active_mode env p r s"
  shows "\<exists>q. find_psub s' i = Some q \<and> ps_mode q = ps_mode p \<and>
      (ps_status q, failures_of s' i, l) =
        (case r_status r of
           CHECK_SUCCESS \<Rightarrow> (UpOK, (0, 0), l)
         | CHECK_MISSED_WINDOW \<Rightarrow> (ps_status p, failures_of s i, l)
         | CHECK_FAILURE \<Rightarrow>
             if ps_status p = UpFAILED then (ps_status p, failures_of s i, l)
             else
               let k = (if redis_now env < snd (failures_of s i) then fst (failures_of s i) else 0) + 1
               in (if k \<ge> 3 then UpFAILED else UpOK, (k, redis_now env + ACTIVE_THRESHOLD_REDIS_TTL), l)) \<and>
      successes_ok s' i"
proof -
  note id = find_psub_id [OF assms(1)]
  have fp: "find_psub (s\<lparr>consecutive := c\<rparr>) i = Some p" "find_psub (produce m (s\<lparr>consecutive := c\<rparr>)) i = Some p" for c m
    using assms(1) by (simp_all add: find_psub_def produce_def)
  have c: "consecutive (update_psub j f t) = consecutive t" "consecutive (produce m t) = consecutive t" for j f t m
    by (simp_all add: state_ops)
  show ?thesis
    using assms(2) fp id
    unfolding s'_def handle_result_for_project_active_mode_def has_reached_status_threshold_def incr_expiring_def
      ACTIVE_FAILURE_THRESHOLD_def ACTIVE_RECOVERY_THRESHOLD_def failures_of_def successes_ok_def
    by (cases "r_status r"; cases "ps_status p") (auto simp: Let_def c split: option.splits)
qed

interpretation uptime_refine: step_refinement "handle_at env i" monitor_step "monitor_view i" "monitored i"
  for env i
proof unfold_locales
  fix s and e :: "int \<times> check_result" assume m: "monitored i s"
  obtain now r where e: "e = (now, r)" by (cases e)
  let ?env = "env\<lparr>redis_now := now\<rparr>"
  have now: "redis_now ?env = now" by simp
  obtain p where p: "find_psub s i = Some p" "ps_mode p \<noteq> AUTO_DETECTED_ONBOARDING" and nn: "successes_ok s i"
    using m by (auto simp: monitored_def)
  let ?a = "handle_result_for_project_active_mode ?env p r s"
  obtain q where q: "find_psub ?a i = Some q" "ps_mode q = ps_mode p"
    "(ps_status q, failures_of ?a i, r_scheduled_ms r) =
        (case r_status r of
           CHECK_SUCCESS \<Rightarrow> (UpOK, (0, 0), r_scheduled_ms r)
         | CHECK_MISSED_WINDOW \<Rightarrow> (ps_status p, failures_of s i, r_scheduled_ms r)
         | CHECK_FAILURE \<Rightarrow>
             if ps_status p = UpFAILED then (ps_status p, failures_of s i, r_scheduled_ms r)
             else
               let k = (if now < snd (failures_of s i) then fst (failures_of s i) else 0) + 1
               in (if k \<ge> 3 then UpFAILED else UpOK, (k, now + ACTIVE_THRESHOLD_REDIS_TTL), r_scheduled_ms r))"
    "successes_ok ?a i"
    using active_mode_view [OF p(1) nn, of ?env r "r_scheduled_ms r"] unfolding now by blast
  have h: "handle_at env i s e = (if r_scheduled_ms r \<le> last_update_ms s i then s
     else ?a\<lparr>last_updates := dict_set i (r_scheduled_ms r) (last_updates ?a)\<rparr>)"
    by (simp add: handle_at_def e handle_for_psub_monitored [OF p])
  have f: "find_psub (?a\<lparr>last_updates := d\<rparr>) i = Some q" "failures_of (?a\<lparr>last_updates := d\<rparr>) i = failures_of ?a i"
      "successes_ok (?a\<lparr>last_updates := d\<rparr>) i = successes_ok ?a i" for d
    using q(1) by (simp_all add: find_psub_def failures_of_def successes_ok_def)
  show "monitored i (handle_at env i s e)"
    using m p q f by (simp add: h monitored_def)
  have view: "monitor_view i s = (ps_status p, failures_of s i, last_update_ms s i)" using p(1) by (simp add: monitor_view_def)
  show "monitor_view i (handle_at env i s e) = monitor_step (monitor_view i s) e"
  proof (cases "r_scheduled_ms r \<le> last_update_ms s i")
    case True
    have same: "handle_at env i s e = s" unfolding h by (rule if_P) (rule True)
    show ?thesis unfolding same unfolding view e using True
      by (cases "failures_of s i") (simp add: monitor_step_def Let_def)
  next
    case False
    then have "monitor_view i (handle_at env i s e) = (ps_status q, failures_of ?a i, r_scheduled_ms r)"
      by (simp add: h monitor_view_def f last_update_ms_def)
    also have "\<dots> = monitor_step (monitor_view i s) e"
      using False unfolding q(3) view e
      by (cases "failures_of s i") (simp add: monitor_step_def Let_def split: check_status.split)
    finally show ?thesis .
  qed
qed

text \<open>
  The times at which the failures since the last success were handled, the latest first, and whether there are
  three in a row of them with less than the time to live of the counter between each and the next.
\<close>

definition failure_times :: "(int \<times> check_result) list \<Rightarrow> int list" where
  "failure_times rs =
     map fst (filter (\<lambda>(_, r). r_status r = CHECK_FAILURE) (takeWhile (\<lambda>(_, r). r_status r \<noteq> CHECK_SUCCESS) (rev rs)))"

fun three_close :: "int list \<Rightarrow> bool" where
  "three_close (c # b # a # ts) =
     (c < b + ACTIVE_THRESHOLD_REDIS_TTL \<and> b < a + ACTIVE_THRESHOLD_REDIS_TTL \<or> three_close (b # a # ts))"
| "three_close _ = False"

fun streak :: "int list \<Rightarrow> int" where
  "streak [] = 0"
| "streak [a] = 1"
| "streak (b # a # ts) = (if b < a + ACTIVE_THRESHOLD_REDIS_TTL then 2 else 1)"

lemma failure_times_snoc:
  "failure_times (rs @ [(now, r)]) =
     (case r_status r of CHECK_SUCCESS \<Rightarrow> [] | CHECK_FAILURE \<Rightarrow> now # failure_times rs | CHECK_MISSED_WINDOW \<Rightarrow> failure_times rs)"
  by (cases "r_status r") (simp_all add: failure_times_def)

lemma three_close_Cons: "three_close ts \<Longrightarrow> three_close (t # ts)"
  by (cases "t # ts" rule: three_close.cases) auto

lemma monitor_run:
  assumes "sorted_wrt (<) (l # map (r_scheduled_ms \<circ> snd) rs)"
  shows "\<exists>v. foldl monitor_step (UpOK, (0, 0), l) rs =
      (if three_close (failure_times rs) then UpFAILED else UpOK, v, last (l # map (r_scheduled_ms \<circ> snd) rs))
    \<and> (\<not> three_close (failure_times rs) \<longrightarrow>
        v = (case failure_times rs of [] \<Rightarrow> (0, 0) | t # _ \<Rightarrow> (streak (failure_times rs), t + ACTIVE_THRESHOLD_REDIS_TTL)))"
  using assms
proof (induction rs rule: rev_induct)
  case Nil
  then show ?case by (simp add: failure_times_def)
next
  case (snoc e rs)
  obtain now r where e: "e = (now, r)" by (cases e)
  let ?F = "failure_times rs"
  have lt: "last (l # map (r_scheduled_ms \<circ> snd) rs) < r_scheduled_ms r"
    using snoc.prems by (cases rs rule: rev_cases) (auto simp: sorted_wrt_append e)
  have "sorted_wrt (<) (l # map (r_scheduled_ms \<circ> snd) rs)"
    using snoc.prems by (auto simp: sorted_wrt_append comp_def)
  with snoc.IH obtain v where v: "foldl monitor_step (UpOK, (0, 0), l) rs =
      (if three_close ?F then UpFAILED else UpOK, v, last (l # map (r_scheduled_ms \<circ> snd) rs))"
    "\<not> three_close ?F \<Longrightarrow> v = (case ?F of [] \<Rightarrow> (0, 0) | t # _ \<Rightarrow> (streak ?F, t + ACTIVE_THRESHOLD_REDIS_TTL))" by blast
  obtain n x where nx: "v = (n, x)" by (cases v)
  have step: "foldl monitor_step (UpOK, (0, 0), l) (rs @ [e]) =
      (case r_status r of
         CHECK_SUCCESS \<Rightarrow> (UpOK, (0, 0), r_scheduled_ms r)
       | CHECK_MISSED_WINDOW \<Rightarrow> (if three_close ?F then UpFAILED else UpOK, (n, x), r_scheduled_ms r)
       | CHECK_FAILURE \<Rightarrow>
           if three_close ?F then (UpFAILED, (n, x), r_scheduled_ms r)
           else
             let k = (if now < x then n else 0) + 1
             in (if k \<ge> 3 then UpFAILED else UpOK, (k, now + ACTIVE_THRESHOLD_REDIS_TTL), r_scheduled_ms r))"
    using lt unfolding foldl_append v(1) nx e by (simp add: monitor_step_def Let_def split: check_status.split)
  have times: "failure_times (rs @ [e]) =
      (case r_status r of CHECK_SUCCESS \<Rightarrow> [] | CHECK_FAILURE \<Rightarrow> now # ?F | CHECK_MISSED_WINDOW \<Rightarrow> ?F)"
    by (simp add: e failure_times_snoc)
  show ?case
  proof (cases "r_status r")
    case CHECK_FAILURE
    show ?thesis
    proof (cases "three_close ?F")
      case True
      then show ?thesis unfolding step times using CHECK_FAILURE by (simp add: e three_close_Cons)
    next
      case False
      from v(2) [OF this] False show ?thesis unfolding step times using CHECK_FAILURE nx
        by (cases ?F rule: streak.cases)
          (auto simp: e Let_def ACTIVE_THRESHOLD_REDIS_TTL_def split: list.splits)
    qed
  next
    case CHECK_SUCCESS
    have "failure_times (rs @ [e]) = []" by (simp add: times CHECK_SUCCESS)
    then show ?thesis unfolding step by (simp add: CHECK_SUCCESS e)
  next
    case CHECK_MISSED_WINDOW
    have f: "failure_times (rs @ [e]) = ?F" by (simp add: times CHECK_MISSED_WINDOW)
    show ?thesis unfolding step f using v(2) nx by (simp add: CHECK_MISSED_WINDOW e)
  qed
qed

subsection \<open>Rows: a linked subscription is never given up\<close>

definition usable :: "uptime \<Rightarrow> nat \<Rightarrow> bool" where
  "usable s i \<longleftrightarrow> (\<exists>u \<in> set (subs s). us_id u = i \<and> us_status u \<noteq> DELETING)"

definition rows_inv :: "uptime \<Rightarrow> bool" where
  "rows_inv s \<longleftrightarrow>
     (\<forall>p \<in> set (psubs s). usable s (ps_sub p)) \<and>
     (\<forall>u \<in> set (subs s). us_id u < next_sub s) \<and> distinct (map us_id (subs s))"

lemma map_if_id: "(\<And>x. key (f x) = key x) \<Longrightarrow> map key (map (\<lambda>x. if key x = j then f x else x) xs) = map key xs"
  by (induction xs) auto

lemma rows_inv_update_sub:
  assumes "rows_inv s" and "\<And>u. us_id (f u) = us_id u"
    and "(\<forall>u. us_status (f u) \<noteq> DELETING) \<or> (\<forall>p \<in> set (psubs s). ps_sub p \<noteq> i)"
  shows "rows_inv (update_sub i f s)"
proof -
  let ?g = "\<lambda>u. if us_id u = i then f u else u"
  have subs: "subs (update_sub i f s) = map ?g (subs s)" by (simp add: update_sub_def)
  have id: "us_id (?g u) = us_id u" for u using assms(2) by simp
  have "usable (update_sub i f s) (ps_sub p)" if p: "p \<in> set (psubs s)" for p
  proof -
    obtain u where u: "u \<in> set (subs s)" "us_id u = ps_sub p" "us_status u \<noteq> DELETING"
      using assms(1) p by (auto simp: rows_inv_def usable_def)
    then have "?g u \<in> set (subs (update_sub i f s))" by (simp add: subs)
    moreover have "us_status (?g u) \<noteq> DELETING" using assms(3) u p by auto
    moreover have "us_id (?g u) = ps_sub p" using u(2) id [of u] by (simp only:)
    ultimately show ?thesis unfolding usable_def by (intro bexI [of _ "?g u"] conjI)
  qed
  moreover have "map us_id (subs (update_sub i f s)) = map us_id (subs s)"
    unfolding subs by (rule map_if_id) (rule assms(2))
  moreover have "\<forall>u \<in> set (subs (update_sub i f s)). us_id u < next_sub s"
    using assms(1,2) by (auto simp: subs rows_inv_def)
  moreover have pn: "psubs (update_sub i f s) = psubs s" "next_sub (update_sub i f s) = next_sub s"
    by (simp_all add: update_sub_def)
  ultimately show ?thesis
    using assms(1) unfolding rows_inv_def pn by (simp only:) blast
qed

lemma rows_inv_frame:
  "subs t = subs s \<Longrightarrow> next_sub t = next_sub s \<Longrightarrow> (\<And>p. p \<in> set (psubs t) \<Longrightarrow> usable s (ps_sub p)) \<Longrightarrow>
     rows_inv s \<Longrightarrow> rows_inv t"
  by (auto simp: rows_inv_def usable_def)

lemma usable_append: "usable s i \<Longrightarrow> set (subs s) \<subseteq> set (subs t) \<Longrightarrow> usable t i"
  by (auto simp: usable_def)

lemma create_uptime_subscription_inv:
  assumes "rows_inv s" and "create_uptime_subscription url iv tmo s = (i, s')"
  shows "rows_inv s' \<and> usable s' i \<and> psubs s' = psubs s"
proof (cases "find (\<lambda>u. us_url u = url \<and> us_interval u = iv) (subs s)")
  case None
  let ?u = "\<lparr>us_id = next_sub s, us_url = url, us_interval = iv, us_timeout = tmo,
      us_status = CREATING, us_subscription_id = None, us_host_provider = None\<rparr>"
  have s': "subs s' = subs s @ [?u]" "next_sub s' = Suc (next_sub s)" "psubs s' = psubs s" "i = next_sub s"
    using assms(2) None by (auto simp: create_uptime_subscription_def Let_def delay_def)
  have "usable s' (ps_sub p)" if "p \<in> set (psubs s)" for p
    using that assms(1) s'(1) usable_append [of s _ s'] by (auto simp: rows_inv_def)
  moreover have "usable s' i" using s' by (auto simp: usable_def)
  ultimately show ?thesis
    using assms(1) s' by (auto simp: rows_inv_def)
next
  case (Some u)
  then have u: "u \<in> set (subs s)" by (auto simp: find_Some_iff)
  let ?t = "update_sub (us_id u) (\<lambda>u. u\<lparr>us_status := CREATING\<rparr>) s"
  have t: "rows_inv ?t" using assms(1) by (rule rows_inv_update_sub) auto
  have "u\<lparr>us_status := CREATING\<rparr> \<in> set (subs ?t)" using u by (force simp: update_sub_def image_iff)
  then have "usable ?t (us_id u)"
    by (auto simp: usable_def intro!: bexI [of _ "u\<lparr>us_status := CREATING\<rparr>"])
  moreover have "psubs ?t = psubs s" by (simp add: update_sub_def)
  moreover have "s' = (if us_status u = DELETING then delay (FetchRdap (us_id u)) (delay (CreateRemote (us_id u)) ?t) else s)"
    and "i = us_id u"
    using assms(2) Some by (auto simp: create_uptime_subscription_def Let_def)
  moreover have "rows_inv (delay a x) = rows_inv x" "usable (delay a x) j = usable x j" "psubs (delay a x) = psubs x" for a x j
    by (simp_all add: delay_def rows_inv_def usable_def)
  ultimately show ?thesis
    using t assms(1) u by (auto simp: usable_def)
qed

lemma remove_if_unused_inv:
  assumes "rows_inv s"
  shows "rows_inv (remove_uptime_subscription_if_unused i s)"
proof -
  have "rows_inv (update_sub i (\<lambda>u. u\<lparr>us_status := DELETING\<rparr>) s)" if "\<not> list_ex (\<lambda>p. ps_sub p = i) (psubs s)"
    using assms that by (intro rows_inv_update_sub) (auto simp: list_ex_iff)
  then show ?thesis
    using assms by (auto simp: remove_uptime_subscription_if_unused_def delete_uptime_subscription_def
        delay_def rows_inv_def usable_def)
qed

lemma rows_inv_fewer_psubs:
  "rows_inv s \<Longrightarrow> rows_inv (s\<lparr>psubs := filter P (psubs s)\<rparr>)"
  by (auto simp: rows_inv_def usable_def)

lemma delete_for_project_inv:
  "rows_inv s \<Longrightarrow> rows_inv (delete_uptime_subscriptions_for_project project i modes s)"
  by (simp add: delete_uptime_subscriptions_for_project_def remove_if_unused_inv rows_inv_fewer_psubs)

lemma create_project_inv:
  "rows_inv s \<Longrightarrow> usable s i \<Longrightarrow> rows_inv (snd (create_project_uptime_subscription project i m name owner now s))"
  by (auto simp: create_project_uptime_subscription_def rows_inv_def usable_def split: option.splits)

lemma rows_inv_fields [simp]:
  "rows_inv (s\<lparr>tasks := t\<rparr>) = rows_inv s" "rows_inv (s\<lparr>produced := m\<rparr>) = rows_inv s"
  "rows_inv (s\<lparr>last_updates := d\<rparr>) = rows_inv s" "rows_inv (s\<lparr>onboarding_failures := e\<rparr>) = rows_inv s"
  "rows_inv (s\<lparr>consecutive := c\<rparr>) = rows_inv s" "rows_inv (s\<lparr>failed_urls := u\<rparr>) = rows_inv s"
  "rows_inv (s\<lparr>next_sid := n\<rparr>) = rows_inv s"
  by (simp_all add: rows_inv_def usable_def)

lemma rows_inv_update_psub:
  assumes "rows_inv s" and "\<And>p. p \<in> set (psubs s) \<Longrightarrow> usable s (ps_sub (f p))"
  shows "rows_inv (update_psub i f s)"
  using assms by (auto simp: update_psub_def rows_inv_def usable_def)

lemma active_mode_inv:
  assumes "rows_inv s" shows "rows_inv (handle_result_for_project_active_mode env p r s)"
proof -
  have "rows_inv (update_psub i (\<lambda>q. q\<lparr>ps_status := x\<rparr>) t)" if "rows_inv t" for i x t
    using that by (rule rows_inv_update_psub) (use that in \<open>auto simp: rows_inv_def\<close>)
  moreover have "rows_inv (snd (has_reached_status_threshold now p st t)) = rows_inv t" for now st t
    by (simp add: has_reached_status_threshold_def split_beta)
  ultimately show ?thesis
    using assms by (simp add: handle_result_for_project_active_mode_def Let_def produce_def split_beta)
qed

lemma onboarding_mode_inv:
  assumes "rows_inv s" shows "rows_inv (handle_result_for_project_auto_onboarding_mode p r s)"
proof (cases "find_sub s (ps_sub p)")
  case None
  with assms show ?thesis
    by (simp add: handle_result_for_project_auto_onboarding_mode_def Let_def incr_def delete_for_project_inv)
next
  case (Some u)
  obtain i s1 where c: "create_uptime_subscription (us_url u) AUTO_DETECTED_ACTIVE_SUBSCRIPTION_INTERVAL
      (us_timeout u) s = (i, s1)" by fastforce
  then have s1: "rows_inv s1" "usable s1 i" using create_uptime_subscription_inv [OF assms c] by auto
  have "rows_inv (update_psub j (\<lambda>q. q\<lparr>ps_sub := i, ps_mode := AUTO_DETECTED_ACTIVE\<rparr>) s1)" for j
    using s1 by (intro rows_inv_update_psub) auto
  with assms Some c s1(1) show ?thesis
    by (simp add: handle_result_for_project_auto_onboarding_mode_def Let_def incr_def delete_for_project_inv
        remove_if_unused_inv)
qed

lemma handle_result_for_project_inv:
  "rows_inv s \<Longrightarrow> rows_inv (handle_result_for_project env p r l s)"
  by (simp add: handle_result_for_project_def Let_def active_mode_inv onboarding_mode_inv split: mode.splits)

lemma handle_result_inv: "rows_inv s \<Longrightarrow> rows_inv (handle_result env s r)"
proof -
  have "rows_inv t \<Longrightarrow> rows_inv (foldl (\<lambda>s (l, p). handle_result_for_project env p r l s) t lps)" for t lps
    by (induction lps arbitrary: t) (auto simp: handle_result_for_project_inv)
  then show "rows_inv s \<Longrightarrow> rows_inv (handle_result env s r)"
    by (simp add: handle_result_def Let_def produce_def split: option.splits)
qed

lemma run_task_inv:
  assumes "rows_inv s" shows "rows_inv (run_task s t)"
proof -
  have cr: "rows_inv (create_remote_uptime_subscription i s)" for i
  proof -
    have "rows_inv (update_sub i (\<lambda>u. u\<lparr>us_status := ACTIVE, us_subscription_id := Some n\<rparr>) t)" if "rows_inv t" for n t
      using that by (rule rows_inv_update_sub) auto
    with assms show ?thesis
      by (simp add: create_remote_uptime_subscription_def Let_def produce_def split: option.splits)
  qed
  have del: "rows_inv (delete_remote_uptime_subscription i s)" for i
  proof (cases "find_sub s i")
    case None
    with assms show ?thesis by (simp add: delete_remote_uptime_subscription_def)
  next
    case (Some u)
    have unused: "rows_inv (s\<lparr>subs := filter (\<lambda>v. us_id v \<noteq> i) (subs s)\<rparr>)" if "\<not> list_ex (\<lambda>p. ps_sub p = i) (psubs s)"
      using assms that by (fastforce simp: rows_inv_def usable_def list_ex_iff distinct_map inj_on_def)
    have disabled: "rows_inv (update_sub i (\<lambda>v. v\<lparr>us_subscription_id := None\<rparr>) s)" if "us_status u = DISABLED"
    proof -
      have "u \<in> set (subs s)" "us_id u = i" using Some by (auto simp: find_sub_def find_Some_iff)
      moreover have "distinct (map us_id (subs s))" using assms by (simp add: rows_inv_def)
      ultimately have only: "v = u" if "v \<in> set (subs s)" "us_id v = i" for v
        using that by (metis inj_onD distinct_map)
      have "map (\<lambda>v. if us_id v = i then v\<lparr>us_subscription_id := None\<rparr> else v) (subs s) =
          map (\<lambda>v. if us_id v = i then v\<lparr>us_subscription_id := None, us_status := DISABLED\<rparr> else v) (subs s)"
        using only that by (intro map_cong) auto
      then have "update_sub i (\<lambda>v. v\<lparr>us_subscription_id := None\<rparr>) s =
          update_sub i (\<lambda>v. v\<lparr>us_subscription_id := None, us_status := DISABLED\<rparr>) s"
        by (simp add: update_sub_def)
      moreover have "rows_inv (update_sub i (\<lambda>v. v\<lparr>us_subscription_id := None, us_status := DISABLED\<rparr>) s)"
        using assms by (rule rows_inv_update_sub) auto
      ultimately show ?thesis by simp
    qed
    have pr: "rows_inv (produce m x) = rows_inv x" for m x by (simp add: produce_def)
    show ?thesis
      using assms Some unused disabled
      by (auto simp: delete_remote_uptime_subscription_def Let_def pr split: option.splits)
  qed
  from cr del assms show ?thesis by (simp add: run_task_def split: task.splits)
qed

lemma monitor_url_inv: "rows_inv s \<Longrightarrow> rows_inv (monitor_url_for_project project url now s)"
proof -
  assume s: "rows_inv s"
  have f: "rows_inv t \<Longrightarrow> rows_inv (foldl (\<lambda>s p. delete_uptime_subscriptions_for_project project (ps_sub p) auto_modes s) t ps)" for t ps
    by (induction ps arbitrary: t) (auto simp: delete_for_project_inv)
  let ?s1 = "foldl (\<lambda>s p. delete_uptime_subscriptions_for_project project (ps_sub p) auto_modes s) s
                 (get_auto_monitored_subscriptions_for_project project s)"
  obtain i s2 where c: "create_uptime_subscription url ONBOARDING_SUBSCRIPTION_INTERVAL_SECONDS
      DEFAULT_SUBSCRIPTION_TIMEOUT_MS ?s1 = (i, s2)" by fastforce
  show ?thesis
    using create_uptime_subscription_inv [OF f [OF s] c] c
    by (simp add: monitor_url_for_project_def Let_def create_project_inv)
qed

lemma subscription_checker_rows:
  "subs (subscription_checker stale s) = subs s \<and> psubs (subscription_checker stale s) = psubs s \<and>
   next_sub (subscription_checker stale s) = next_sub s"
proof -
  have "subs (foldl (\<lambda>s u. if us_status u = CREATING then delay (CreateRemote (us_id u)) s
                   else delay (DeleteRemote (us_id u)) s) s us) = subs s \<and>
    psubs (foldl (\<lambda>s u. if us_status u = CREATING then delay (CreateRemote (us_id u)) s
                   else delay (DeleteRemote (us_id u)) s) s us) = psubs s \<and>
    next_sub (foldl (\<lambda>s u. if us_status u = CREATING then delay (CreateRemote (us_id u)) s
                   else delay (DeleteRemote (us_id u)) s) s us) = next_sub s" for us
    by (induction us arbitrary: s) (auto simp: delay_def)
  then show ?thesis by (simp add: subscription_checker_def)
qed

text \<open>Everything that can happen to the rows, in any order; a task may run when it is queued or again.\<close>

datatype uptime_event = MonitorUrl nat string int
  | AddManual nat string int mode string "actor option" int
  | DeleteLink psub
  | RunTask task
  | Result uptime_env check_result
  | Repair "nat \<Rightarrow> bool"
  | ExpireLastUpdate nat
  | ExpireConsecutive nat check_status
  | ExpireOnboarding nat

fun uptime_step :: "uptime \<Rightarrow> uptime_event \<Rightarrow> uptime" where
  "uptime_step s (MonitorUrl project url now) = monitor_url_for_project project url now s"
| "uptime_step s (AddManual project url interval m name owner now) =
     (let (i, s1) = create_uptime_subscription url interval DEFAULT_SUBSCRIPTION_TIMEOUT_MS s
      in snd (create_project_uptime_subscription project i m name owner now s1))"
| "uptime_step s (DeleteLink p) = delete_project_uptime_subscription p s"
| "uptime_step s (RunTask t) = run_task s t"
| "uptime_step s (Result env r) = handle_result env s r"
| "uptime_step s (Repair stale) = subscription_checker stale s"
| "uptime_step s (ExpireLastUpdate i) = s\<lparr>last_updates := dict_del i (last_updates s)\<rparr>"
| "uptime_step s (ExpireConsecutive i st) = s\<lparr>consecutive := dict_del (i, st) (consecutive s)\<rparr>"
| "uptime_step s (ExpireOnboarding i) = s\<lparr>onboarding_failures := dict_del i (onboarding_failures s)\<rparr>"

interpretation uptime_rows: step_machine uptime_step rows_inv
proof unfold_locales
  fix s e assume s: "rows_inv s"
  show "rows_inv (uptime_step s e)"
  proof (cases e)
    case (AddManual project url interval m name owner now)
    obtain i s1 where c: "create_uptime_subscription url interval DEFAULT_SUBSCRIPTION_TIMEOUT_MS s = (i, s1)"
      by fastforce
    with AddManual create_uptime_subscription_inv [OF s c] show ?thesis by (simp add: create_project_inv)
  next
    case (Repair stale)
    with s subscription_checker_rows [of stale s] show ?thesis by (simp add: rows_inv_def usable_def)
  qed (use s in \<open>auto simp: monitor_url_inv delete_project_uptime_subscription_def remove_if_unused_inv
      rows_inv_fewer_psubs run_task_inv handle_result_inv\<close>)
qed

definition empty_uptime :: uptime where
  "empty_uptime = \<lparr>subs = [], psubs = [], tasks = [], produced = [], last_updates = [],
     onboarding_failures = [], consecutive = [], failed_urls = [], next_sub = 0, next_psub = 0, next_sid = 0\<rparr>"

section \<open>Properties\<close>

definition example_psub :: psub where
  "example_psub = \<lparr>ps_id = 1, ps_project = 7, ps_sub = 0, ps_mode = MANUAL, ps_status = UpOK, ps_date_added = 0,
     ps_name = ''n'', ps_owner_user = None, ps_owner_team = None\<rparr>"

text \<open>
  C29. A project that is monitored in another mode than onboarding and starts up and with no counters goes down exactly when, since the last success in a
  sequence of fresh results, there were three failures in a row each handled less than an hour after the one before:
  the counter of failures lives for an hour from the last of them, so failures of a monitor with an interval of an hour
  or more never add up. One success brings it back up, a missed window neither counts nor resets.
\<close>

theorem uptime_down_after_three_failures:
  assumes "find_psub s i = Some p" and "ps_mode p \<noteq> AUTO_DETECTED_ONBOARDING" and "ps_status p = UpOK"
    and "dict_get (consecutive s) (i, CHECK_FAILURE) = None"
    and "dict_get (consecutive s) (i, CHECK_SUCCESS) = None"
    and "sorted_wrt (<) (last_update_ms s i # map (r_scheduled_ms \<circ> snd) rs)"
  shows "\<exists>q. find_psub (foldl (handle_at env i) s rs) i = Some q \<and>
    ps_status q = (if three_close (failure_times rs) then UpFAILED else UpOK)"
proof -
  let ?t = "foldl (handle_at env i) s rs"
  have m: "monitored i s" using assms by (simp add: monitored_def successes_ok_def)
  have "monitor_view i ?t = foldl monitor_step (monitor_view i s) rs"
    using uptime_refine.run_simulates [OF m] .
  moreover have "monitor_view i s = (UpOK, (0, 0), last_update_ms s i)"
    using assms by (simp add: monitor_view_def failures_of_def)
  moreover have "monitored i ?t" using uptime_refine.run_cinv [OF m] .
  ultimately show ?thesis
    using monitor_run [OF assms(6)] by (auto simp: monitor_view_def monitored_def)
qed

definition result_at :: "check_status \<Rightarrow> int \<Rightarrow> check_result" where
  "result_at st t = \<lparr>r_subscription_id = 0, r_status = st, r_scheduled_ms = t\<rparr>"

theorem uptime_down_after_three_failures_witness:
  "\<exists>q q'. find_psub (foldl (handle_at \<lparr>create_issues = True, restricted_providers = [], redis_now = 0\<rparr> 1)
      (empty_uptime\<lparr>psubs := [example_psub]\<rparr>)
      [(1, result_at CHECK_FAILURE 1), (2, result_at CHECK_FAILURE 2), (3, result_at CHECK_MISSED_WINDOW 3),
       (4, result_at CHECK_FAILURE 4)]) 1 = Some q \<and> ps_status q = UpFAILED
    \<and> find_psub (foldl (handle_at \<lparr>create_issues = True, restricted_providers = [], redis_now = 0\<rparr> 1)
      (empty_uptime\<lparr>psubs := [example_psub]\<rparr>)
      [(0, result_at CHECK_FAILURE 1), (3600000, result_at CHECK_FAILURE 3600001), (7200000, result_at CHECK_FAILURE 7200001)]) 1 = Some q'
    \<and> ps_status q' = UpOK"
proof -
  let ?s = "empty_uptime\<lparr>psubs := [example_psub]\<rparr>" and ?env = "\<lparr>create_issues = True, restricted_providers = [], redis_now = 0\<rparr>"
  have p: "find_psub ?s 1 = Some example_psub" by (simp add: find_psub_def example_psub_def)
  note run = uptime_down_after_three_failures [OF p, of _ ?env]
  show ?thesis
    using run [of "[(1, result_at CHECK_FAILURE 1), (2, result_at CHECK_FAILURE 2), (3, result_at CHECK_MISSED_WINDOW 3),
        (4, result_at CHECK_FAILURE 4)]"]
      run [of "[(0, result_at CHECK_FAILURE 1), (3600000, result_at CHECK_FAILURE 3600001), (7200000, result_at CHECK_FAILURE 7200001)]"]
    by (simp add: empty_uptime_def last_update_ms_def example_psub_def result_at_def failure_times_def ACTIVE_THRESHOLD_REDIS_TTL_def)
qed

text \<open>
  Handling a result again for the same linked project changes nothing, in every mode: the
  consumer may replay results and the checker may send duplicates.
\<close>

theorem uptime_result_idempotent:
  "handle_for_psub env i (handle_for_psub env i s r) r = handle_for_psub env i s r"
proof (cases "find_psub s i")
  case None
  then show ?thesis by (simp add: handle_for_psub_def)
next
  case (Some p)
  note id = find_psub_id [OF Some]
  show ?thesis
  proof (cases "r_scheduled_ms r \<le> last_update_ms s i")
    case True
    with Some have "handle_for_psub env i s r = s"
      by (simp add: handle_for_psub_def handle_result_for_project_def)
    then show ?thesis by simp
  next
    case False
    let ?t = "handle_for_psub env i s r"
    have "last_update_ms ?t i = r_scheduled_ms r"
      using Some False id
      by (simp add: handle_for_psub_def handle_result_for_project_def Let_def last_update_ms_def)
    then show ?thesis
      by (cases "find_psub ?t i") (auto simp: handle_for_psub_def [of env i ?t] handle_result_for_project_def)
  qed
qed

text \<open>
  C34. Whatever the order of API calls, tasks (repeated or late), results, repairs and key
  expiries, the subscription row of every linked project exists and is not marked for deletion,
  so no task can delete it.
\<close>

theorem uptime_linked_rows_kept:
  assumes "p \<in> set (psubs (foldl uptime_step empty_uptime es))"
  shows "\<exists>u \<in> set (subs (foldl uptime_step empty_uptime es)). us_id u = ps_sub p \<and> us_status u \<noteq> DELETING"
proof -
  have "rows_inv empty_uptime" by (simp add: rows_inv_def empty_uptime_def)
  then have "rows_inv (foldl uptime_step empty_uptime es)" by (rule uptime_rows.run_inv)
  with assms show ?thesis by (auto simp: rows_inv_def usable_def)
qed

theorem uptime_linked_rows_kept_witness:
  "\<exists>u \<in> set (subs (foldl uptime_step empty_uptime [AddManual 7 ''u'' 60 MANUAL ''n'' None 0])).
     us_id u = ps_sub (example_psub\<lparr>ps_id := 0\<rparr>) \<and> us_status u \<noteq> DELETING"
  by (rule uptime_linked_rows_kept)
    (simp add: empty_uptime_def create_uptime_subscription_def create_project_uptime_subscription_def link_taken_def example_psub_def
      delay_def Let_def)

end
