(* ===== verification/Monitors.thy ===== *)
theory Monitors
  imports Prelude
begin

text \<open>
  Cron monitors, \<open>src/src/sentry/monitors\<close>: the four tables (monitors, environments,
  check-ins, incidents), the incident logic (\<open>logic/mark_failed.py\<close>, \<open>logic/mark_ok.py\<close>), the
  detection of missed and timed-out check-ins (\<open>clock_tasks\<close>) and the consumer of check-ins
  (\<open>consumers/monitor_consumer.py\<close>). The record \<open>crons\<close> is the database together with the
  messages sent to the issue platform; every handler is a function on it. Times are in
  milliseconds. The calendar (\<open>croniter\<close>, \<open>dateutil.rrule\<close>) is the parameter \<open>scheduler\<close>;
  kill switch, rate limiter and quota service are the answers in a \<open>gates\<close> record.
\<close>

section \<open>The data model\<close>

datatype checkin_status = CiUnknown | CiOk | CiError | CiInProgress | CiMissed | CiTimeout

datatype monitor_status = MsActive | MsDisabled | MsPendingDeletion | MsDeletionInProgress | MsOk | MsError

datatype object_status = ObActive | ObDisabled | ObPendingDeletion | ObDeletionInProgress

datatype monitor_type = MtUnknown | MtCronJob

datatype interval_unit = UYear | UMonth | UWeek | UDay | UHour | UMinute

datatype schedule = CrontabSchedule string | IntervalSchedule int interval_unit

datatype owner = OwnerUser nat | OwnerTeam nat

record mconfig =
  cf_checkin_margin :: "int option"
  cf_max_runtime :: "int option"
  cf_timezone :: "string option"
  cf_schedule :: schedule
  cf_failure_issue_threshold :: "nat option"
  cf_recovery_threshold :: "nat option"

record monitor =
  mo_id :: nat
  mo_org :: nat
  mo_project :: nat
  mo_slug :: string
  mo_status :: object_status
  mo_type :: monitor_type
  mo_muted :: bool
  mo_owner :: "owner option"
  mo_config :: mconfig

record menv =
  me_id :: nat
  me_monitor :: nat
  me_environment :: string
  me_status :: monitor_status
  me_muted :: bool
  me_next :: "int option"
  me_next_latest :: "int option"
  me_last :: "int option"

record checkin =
  ci_id :: nat
  ci_guid :: nat
  ci_project :: nat
  ci_monitor :: nat
  ci_env :: "nat option"
  ci_status :: checkin_status
  ci_duration :: "int option"
  ci_date_added :: int
  ci_date_updated :: int
  ci_expected :: "int option"
  ci_timeout_at :: "int option"
  ci_config :: "mconfig option"
  ci_trace :: "nat option"

record incident =
  in_id :: nat
  in_env :: nat
  in_starting_checkin :: nat
  in_starting_ts :: int
  in_resolving :: "nat option"
  in_resolving_ts :: "int option"

record occurrence =
  oc_checkin :: nat
  oc_incident :: nat
  oc_reason :: string
  oc_last_ok :: "int option"

record crons =
  monitors :: "monitor list"
  envs :: "menv list"
  checkins :: "checkin list"
  incidents :: "incident list"
  occurrences :: "occurrence list"
  resolved_groups :: "nat list"
  next_monitor :: nat
  next_env :: nat
  next_checkin_id :: nat
  next_incident :: nat

definition find_monitor :: "crons \<Rightarrow> nat \<Rightarrow> monitor option" where
  "find_monitor s i = find (\<lambda>m. mo_id m = i) (monitors s)"

definition find_env :: "crons \<Rightarrow> nat \<Rightarrow> menv option" where
  "find_env s i = find (\<lambda>e. me_id e = i) (envs s)"

definition find_checkin :: "crons \<Rightarrow> nat \<Rightarrow> checkin option" where
  "find_checkin s i = find (\<lambda>c. ci_id c = i) (checkins s)"

definition update_monitor :: "nat \<Rightarrow> (monitor \<Rightarrow> monitor) \<Rightarrow> crons \<Rightarrow> crons" where
  "update_monitor i f s = s\<lparr>monitors := map (\<lambda>m. if mo_id m = i then f m else m) (monitors s)\<rparr>"

definition update_env :: "nat \<Rightarrow> (menv \<Rightarrow> menv) \<Rightarrow> crons \<Rightarrow> crons" where
  "update_env i f s = s\<lparr>envs := map (\<lambda>e. if me_id e = i then f e else e) (envs s)\<rparr>"

definition update_checkin :: "nat \<Rightarrow> (checkin \<Rightarrow> checkin) \<Rightarrow> crons \<Rightarrow> crons" where
  "update_checkin i f s = s\<lparr>checkins := map (\<lambda>c. if ci_id c = i then f c else c) (checkins s)\<rparr>"

definition update_incident :: "nat \<Rightarrow> (incident \<Rightarrow> incident) \<Rightarrow> crons \<Rightarrow> crons" where
  "update_incident i f s = s\<lparr>incidents := map (\<lambda>n. if in_id n = i then f n else n) (incidents s)\<rparr>"

text \<open>\<open>MonitorEnvironment.active_incident\<close> and \<open>get_last_successful_checkin\<close>.\<close>

definition active_incidents :: "crons \<Rightarrow> nat \<Rightarrow> incident list" where
  "active_incidents s e = filter (\<lambda>n. in_env n = e \<and> in_resolving n = None) (incidents s)"

definition active_incident :: "crons \<Rightarrow> nat \<Rightarrow> incident option" where
  "active_incident s e = (case active_incidents s e of [] \<Rightarrow> None | n # _ \<Rightarrow> Some n)"

text \<open>The check-ins of an environment, the most recent first (\<open>order_by("-date_added")\<close>).\<close>

definition recent_checkins :: "crons \<Rightarrow> nat \<Rightarrow> checkin list" where
  "recent_checkins s e =
     sort_key (\<lambda>c. - ci_date_added c) (filter (\<lambda>c. ci_env c = Some e) (checkins s))"

definition get_last_successful_checkin :: "crons \<Rightarrow> nat \<Rightarrow> checkin option" where
  "get_last_successful_checkin s e = find (\<lambda>c. ci_status c = CiOk) (recent_checkins s e)"

section \<open>Schedules and time limits\<close>

record scheduler =
  cron_next :: "string \<Rightarrow> string \<Rightarrow> int \<Rightarrow> int"
  cron_prev :: "string \<Rightarrow> string \<Rightarrow> int \<Rightarrow> int"
  rule_after :: "string \<Rightarrow> interval_unit \<Rightarrow> int \<Rightarrow> int \<Rightarrow> int"
  rule_before :: "string \<Rightarrow> interval_unit \<Rightarrow> int \<Rightarrow> int \<Rightarrow> int \<Rightarrow> int option"

abbreviation minute :: int where "minute \<equiv> 60000"

definition clamp_minute :: "int \<Rightarrow> int" where
  "clamp_minute t = t - t mod minute"

fun get_next_schedule :: "scheduler \<Rightarrow> string \<Rightarrow> int \<Rightarrow> schedule \<Rightarrow> int" where
  "get_next_schedule sch tz ref (CrontabSchedule c) = clamp_minute (cron_next sch tz c ref)"
| "get_next_schedule sch tz ref (IntervalSchedule n u) = clamp_minute (rule_after sch tz u n ref)"

fun get_prev_schedule :: "scheduler \<Rightarrow> string \<Rightarrow> int \<Rightarrow> int \<Rightarrow> schedule \<Rightarrow> int result" where
  "get_prev_schedule sch tz start ref (CrontabSchedule c) = Inr (clamp_minute (cron_prev sch tz c ref))"
| "get_prev_schedule sch tz start ref (IntervalSchedule n u) =
     (case rule_before sch tz u n start ref of
        None \<Rightarrow> Inl AttributeError
      | Some t \<Rightarrow> Inr (clamp_minute t))"

definition TIMEOUT :: int where "TIMEOUT = 30"
definition MAX_TIMEOUT :: int where "MAX_TIMEOUT = 40320"
definition DEFAULT_CHECKIN_MARGIN :: int where "DEFAULT_CHECKIN_MARGIN = 1"

definition or_default :: "int option \<Rightarrow> int \<Rightarrow> int" where
  \<comment> \<open>\<open>x or default\<close>: both \<open>None\<close> and \<open>0\<close> give the default\<close>
  "or_default x d = (case x of None \<Rightarrow> d | Some n \<Rightarrow> if n = 0 then d else n)"

definition get_max_runtime :: "int option \<Rightarrow> int" where
  "get_max_runtime r = minute * min (or_default r TIMEOUT) MAX_TIMEOUT"

definition get_checkin_margin :: "int option \<Rightarrow> int" where
  "get_checkin_margin m = minute * or_default m DEFAULT_CHECKIN_MARGIN"

definition get_timeout_at :: "mconfig option \<Rightarrow> checkin_status \<Rightarrow> int option \<Rightarrow> int option" where
  "get_timeout_at cfg st d =
     (case d of
        Some t \<Rightarrow> if st = CiInProgress
                  then Some (clamp_minute t + get_max_runtime (Option.bind cfg cf_max_runtime))
                  else None
      | None \<Rightarrow> None)"

definition MAX_VALUE :: int where "MAX_VALUE = 2147483647"

definition valid_duration :: "int option \<Rightarrow> bool" where
  "valid_duration d = (case d of None \<Rightarrow> True | Some n \<Rightarrow> n = 0 \<or> \<not> (n < 0 \<or> n > MAX_VALUE))"

definition monitor_timezone :: "monitor \<Rightarrow> string" where
  "monitor_timezone m =
     (case cf_timezone (mo_config m) of None \<Rightarrow> ''UTC'' | Some z \<Rightarrow> if z = [] then ''UTC'' else z)"

definition get_next_expected_checkin :: "scheduler \<Rightarrow> monitor \<Rightarrow> int \<Rightarrow> int" where
  "get_next_expected_checkin sch m since =
     get_next_schedule sch (monitor_timezone m) since (cf_schedule (mo_config m))"

definition get_next_expected_checkin_latest :: "scheduler \<Rightarrow> monitor \<Rightarrow> int \<Rightarrow> int" where
  "get_next_expected_checkin_latest sch m since =
     get_next_expected_checkin sch m since + get_checkin_margin (cf_checkin_margin (mo_config m))"

definition threshold :: "nat option \<Rightarrow> nat" where
  \<comment> \<open>\<open>config.get(key, 1)\<close>, then 1 for a missing, null or zero value\<close>
  "threshold t = (case t of None \<Rightarrow> 1 | Some n \<Rightarrow> if n = 0 then 1 else n)"

section \<open>Failing check-ins: \<open>logic/mark_failed.py\<close>\<close>

fun human_failure_status :: "checkin_status \<Rightarrow> string option" where
  "human_failure_status CiError = Some ''error''"
| "human_failure_status CiMissed = Some ''missed''"
| "human_failure_status CiTimeout = Some ''timeout''"
| "human_failure_status _ = None"

fun singular_human_failure :: "checkin_status \<Rightarrow> string" where
  "singular_human_failure CiError = ''An error check-in was detected''"
| "singular_human_failure CiMissed = ''A missed check-in was detected''"
| "singular_human_failure CiTimeout = ''A timeout check-in was detected''"
| "singular_human_failure _ = []"

fun status_counter :: "'a list \<Rightarrow> ('a, nat) dict \<Rightarrow> ('a, nat) dict" where
  \<comment> \<open>\<open>Counter(xs)\<close>, in order of first occurrence\<close>
  "status_counter [] d = d"
| "status_counter (x # xs) d =
     status_counter xs (dict_set x (Suc (case dict_get d x of None \<Rightarrow> 0 | Some n \<Rightarrow> n)) d)"

fun get_text_list :: "string list \<Rightarrow> string \<Rightarrow> string" where
  \<comment> \<open>Django's \<open>get_text_list\<close>: commas, and the last word before the last item\<close>
  "get_text_list [] w = []"
| "get_text_list [x] w = x"
| "get_text_list xs w = join_on '', '' (butlast xs) @ '' '' @ w @ '' '' @ last xs"

definition get_failure_reason :: "checkin_status list \<Rightarrow> string" where
  "get_failure_reason sts =
     (let counts = status_counter (filter (\<lambda>st. human_failure_status st \<noteq> None) sts) []
      in if sum_list (map snd counts) = 1
         then singular_human_failure (fst (hd counts))
         else get_text_list
                (map (\<lambda>(st, n). nat_digits n @ '' '' @ the (human_failure_status st)) counts) ''and''
              @ '' check-ins detected'')"

definition create_issue_platform_occurrence ::
  "checkin list \<Rightarrow> checkin \<Rightarrow> nat \<Rightarrow> crons \<Rightarrow> crons" where
  "create_issue_platform_occurrence failed c n s =
     (case ci_env c of
        None \<Rightarrow> s
      | Some e \<Rightarrow> s\<lparr>occurrences := occurrences s @
          [\<lparr>oc_checkin = ci_id c, oc_incident = n,
            oc_reason = get_failure_reason (map ci_status failed),
            oc_last_ok = map_option ci_date_added (get_last_successful_checkin s e)\<rparr>]\<rparr>)"

text \<open>One occurrence for each of the failing check-ins, unless the monitor or environment is muted.\<close>

definition produce_occurrences :: "checkin list \<Rightarrow> incident option \<Rightarrow> menv \<Rightarrow> monitor \<Rightarrow> crons \<Rightarrow> crons" where
  "produce_occurrences failed inc env m s =
     (case inc of
        Some n \<Rightarrow>
          if \<not> mo_muted m \<and> \<not> me_muted env
          then foldl (\<lambda>s' c. create_issue_platform_occurrence failed c (in_id n) s') s
                 (filter (\<lambda>c. ci_id c \<in> set (map ci_id failed)) (checkins s))
          else s
      | None \<Rightarrow> s)"

definition open_incident :: "nat \<Rightarrow> checkin \<Rightarrow> crons \<Rightarrow> incident \<times> crons" where
  \<comment> \<open>\<open>MonitorIncident.objects.get_or_create(resolving_checkin=None, ...)\<close>\<close>
  "open_incident e start s =
     (case active_incident s e of
        Some n \<Rightarrow> (n, s)
      | None \<Rightarrow>
          let n = \<lparr>in_id = next_incident s, in_env = e, in_starting_checkin = ci_id start,
                   in_starting_ts = ci_date_added start, in_resolving = None, in_resolving_ts = None\<rparr>
          in (n, s\<lparr>incidents := incidents s @ [n], next_incident := Suc (next_incident s)\<rparr>))"

text \<open>The check-ins that decide whether the failure threshold is reached, the oldest first.\<close>

definition previous_checkins :: "nat \<Rightarrow> checkin \<Rightarrow> nat \<Rightarrow> crons \<Rightarrow> checkin list" where
  "previous_checkins n c e s =
     (if n = 1 then [c]
      else rev (take n (filter (\<lambda>d. ci_date_added d \<le> ci_date_added c) (recent_checkins s e))))"

definition mark_failed_threshold ::
  "checkin \<Rightarrow> nat \<Rightarrow> menv \<Rightarrow> monitor \<Rightarrow> crons \<Rightarrow> bool result \<times> crons" where
  "mark_failed_threshold c n env m s =
     (let e = me_id env in
      if me_status env \<in> {MsOk, MsActive} then
        (let prev = previous_checkins n c e s in
         if n \<noteq> 1 \<and> list_ex (\<lambda>d. ci_status d = CiOk) prev then (Inr False, s)
         else
           (let s1 = update_env e (\<lambda>x. x\<lparr>me_status := MsError\<rparr>) s in
            case prev of
              [] \<Rightarrow> (Inl IndexError, s1)
            | start # _ \<Rightarrow>
                (let (inc, s2) = open_incident e start s1
                 in (Inr True, produce_occurrences prev (Some inc) env m s2))))
      else if me_status env = MsError then
        (Inr True, produce_occurrences [c] (active_incident s e) env m s)
      else (Inr False, s))"

definition mark_failed :: "scheduler \<Rightarrow> checkin \<Rightarrow> int \<Rightarrow> crons \<Rightarrow> bool result \<times> crons" where
  "mark_failed sch c ts s =
     (case Option.bind (ci_env c) (find_env s) of
        None \<Rightarrow> (Inr False, s)
      | Some env \<Rightarrow>
       (case find_monitor s (me_monitor env) of
          None \<Rightarrow> (Inr False, s)
        | Some m \<Rightarrow>
         (case (if ci_status c = CiMissed then me_last env else Some (ci_date_added c)) of
            None \<Rightarrow> (Inl ValueError, s)
          | Some t \<Rightarrow>
              if (case me_last env of None \<Rightarrow> True | Some l \<Rightarrow> l \<le> t)
              then mark_failed_threshold c (threshold (cf_failure_issue_threshold (mo_config m)))
                     (env\<lparr>me_last := Some t\<rparr>) m
                     (update_env (me_id env)
                       (\<lambda>x. x\<lparr>me_last := Some t,
                             me_next := Some (get_next_expected_checkin sch m ts),
                             me_next_latest := Some (get_next_expected_checkin_latest sch m ts)\<rparr>) s)
              else (Inr False, s))))"

section \<open>Successful check-ins: \<open>logic/mark_ok.py\<close>\<close>

definition resolve_incident :: "incident \<Rightarrow> checkin \<Rightarrow> crons \<Rightarrow> crons" where
  "resolve_incident n c s =
     update_incident (in_id n)
       (\<lambda>x. x\<lparr>in_resolving := Some (ci_id c), in_resolving_ts := Some (ci_date_added c)\<rparr>)
       (s\<lparr>resolved_groups := resolved_groups s @ [in_id n]\<rparr>)"

definition incident_recovering :: "nat \<Rightarrow> nat \<Rightarrow> crons \<Rightarrow> bool" where
  "incident_recovering n e s =
     (n > 1 \<longrightarrow> list_all (\<lambda>c. ci_status c = CiOk) (take n (recent_checkins s e)))"

definition mark_ok :: "scheduler \<Rightarrow> checkin \<Rightarrow> int \<Rightarrow> crons \<Rightarrow> crons" where
  "mark_ok sch c ts s =
     (case Option.bind (ci_env c) (find_env s) of
        None \<Rightarrow> s
      | Some env \<Rightarrow>
       (case find_monitor s (me_monitor env) of
          None \<Rightarrow> s
        | Some m \<Rightarrow>
           let e = me_id env;
               recovers = (me_status env \<noteq> MsOk \<and> ci_status c = CiOk
                 \<and> incident_recovering (threshold (cf_recovery_threshold (mo_config m))) e s);
               s1 = (if recovers
                     then (case active_incident s e of None \<Rightarrow> s | Some n \<Rightarrow> resolve_incident n c s)
                     else s);
               params = (\<lambda>x :: menv. (x\<lparr>me_last := Some (ci_date_added c),
                               me_next := Some (get_next_expected_checkin sch m ts),
                               me_next_latest := Some (get_next_expected_checkin_latest sch m ts)\<rparr>)
                              \<lparr>me_status := (if recovers then MsOk else me_status x)\<rparr>)
           in (case me_last env of
                 Some l \<Rightarrow> if l > ts then s1 else update_env e params s1
               | None \<Rightarrow> update_env e params s1)))"

section \<open>Missed and timed-out check-ins: \<open>clock_tasks\<close>\<close>

definition MONITOR_LIMIT :: nat where "MONITOR_LIMIT = 10000"
definition CHECKINS_LIMIT :: nat where "CHECKINS_LIMIT = 10000"

definition ignored_monitor :: "menv \<Rightarrow> monitor \<Rightarrow> bool" where
  "ignored_monitor env m =
     (me_status env \<in> {MsDisabled, MsPendingDeletion, MsDeletionInProgress}
      \<or> mo_status m \<in> {ObDisabled, ObPendingDeletion, ObDeletionInProgress})"

definition past_due :: "int \<Rightarrow> menv \<Rightarrow> bool" where
  "past_due ts env = (case me_next_latest env of None \<Rightarrow> False | Some t \<Rightarrow> t \<le> ts)"

datatype clock_task = MarkMissing nat int | MarkTimeout nat "nat option" int

definition dispatch_check_missing :: "int \<Rightarrow> crons \<Rightarrow> clock_task list" where
  "dispatch_check_missing ts s =
     map (\<lambda>env. MarkMissing (me_id env) ts)
       (take MONITOR_LIMIT
         (filter (\<lambda>env. past_due ts env \<and>
            (case find_monitor s (me_monitor env) of
               None \<Rightarrow> False
             | Some m \<Rightarrow> \<not> ignored_monitor env m \<and> mo_type m = MtCronJob)) (envs s)))"

definition dispatch_check_timeout :: "int \<Rightarrow> crons \<Rightarrow> clock_task list" where
  "dispatch_check_timeout ts s =
     map (\<lambda>c. MarkTimeout (ci_id c) (ci_env c) ts)
       (take CHECKINS_LIMIT
         (filter (\<lambda>c. ci_status c = CiInProgress \<and>
            (case ci_timeout_at c of None \<Rightarrow> False | Some t \<Rightarrow> t \<le> ts)) (checkins s)))"

definition insert_checkin :: "checkin \<Rightarrow> crons \<Rightarrow> crons" where
  "insert_checkin c s = s\<lparr>checkins := checkins s @ [c], next_checkin_id := Suc (next_checkin_id s)\<rparr>"

text \<open>
  The guid of a synthetic check-in is fresh; \<open>now\<close> is the default of \<open>date_updated\<close>. The result
  is the exception raised, if any, with the state reached.
\<close>

definition mark_environment_missing ::
  "scheduler \<Rightarrow> int \<Rightarrow> nat \<Rightarrow> nat \<Rightarrow> int \<Rightarrow> crons \<Rightarrow> bool result \<times> crons" where
  "mark_environment_missing sch now guid e ts s =
     (case find_env s e of
        None \<Rightarrow> (Inr False, s)
      | Some env \<Rightarrow>
       (case find_monitor s (me_monitor env) of
          None \<Rightarrow> (Inr False, s)
        | Some m \<Rightarrow>
          if ignored_monitor env m \<or> \<not> past_due ts env then (Inr False, s)
          else
           (case me_next env of
              None \<Rightarrow> (Inl AssertionError, s)
            | Some expected \<Rightarrow>
                let c = \<lparr>ci_id = next_checkin_id s, ci_guid = guid, ci_project = mo_project m,
                         ci_monitor = mo_id m, ci_env = Some e, ci_status = CiMissed, ci_duration = None,
                         ci_date_added = expected, ci_date_updated = now, ci_expected = Some expected,
                         ci_timeout_at = None, ci_config = Some (mo_config m), ci_trace = None\<rparr>;
                    s1 = insert_checkin c s
                in (case get_prev_schedule sch (monitor_timezone m) expected ts
                           (cf_schedule (mo_config m)) of
                      Inl x \<Rightarrow> (Inl x, s1)
                    | Inr t \<Rightarrow> mark_failed sch c t s1))))"

definition has_newer_result :: "checkin \<Rightarrow> nat \<Rightarrow> crons \<Rightarrow> bool" where
  "has_newer_result c e s =
     list_ex (\<lambda>d. ci_env d = Some e \<and> ci_date_added d > ci_date_added c
                  \<and> ci_status d \<in> {CiOk, CiError}) (checkins s)"

definition mark_checkin_timeout :: "scheduler \<Rightarrow> nat \<Rightarrow> int \<Rightarrow> crons \<Rightarrow> bool result \<times> crons" where
  "mark_checkin_timeout sch i ts s =
     (case find_checkin s i of
        None \<Rightarrow> (Inr False, s)
      | Some c \<Rightarrow>
       (case Option.bind (ci_env c) (find_env s) of
          None \<Rightarrow> (Inr False, s)
        | Some env \<Rightarrow>
         (case find_monitor s (me_monitor env) of
            None \<Rightarrow> (Inr False, s)
          | Some m \<Rightarrow>
            if ci_status c = CiTimeout then (Inr False, s)
            else
              (let s1 = update_checkin i (\<lambda>x. x\<lparr>ci_status := CiTimeout\<rparr>) s in
               if has_newer_result c (me_id env) s1 then (Inr False, s1)
               else
                 (case get_prev_schedule sch (monitor_timezone m) (ci_date_added c) ts
                         (cf_schedule (mo_config m)) of
                    Inl x \<Rightarrow> (Inl x, s1)
                  | Inr t \<Rightarrow> mark_failed sch (c\<lparr>ci_status := CiTimeout\<rparr>) t s1)))))"

text \<open>\<open>process_clock_task\<close>: exceptions are logged and dropped.\<close>

definition process_clock_task :: "scheduler \<Rightarrow> int \<Rightarrow> nat \<Rightarrow> clock_task \<Rightarrow> crons \<Rightarrow> crons" where
  "process_clock_task sch now guid t s =
     (case t of
        MarkTimeout i _ ts \<Rightarrow> snd (mark_checkin_timeout sch i ts s)
      | MarkMissing e ts \<Rightarrow> snd (mark_environment_missing sch now guid e ts s))"

section \<open>The consumer of check-ins: \<open>consumers/monitor_consumer.py\<close>\<close>

datatype processing_error = CHECKIN_ENVIRONMENT_MISMATCH | CHECKIN_FINISHED
  | CHECKIN_GUID_PROJECT_MISMATCH | CHECKIN_INVALID_DURATION | CHECKIN_INVALID_GUID
  | CHECKIN_VALIDATION_FAILED | MONITOR_DISABLED | MONITOR_DISABLED_NO_QUOTA
  | MONITOR_INVALID_CONFIG | MONITOR_INVALID_ENVIRONMENT | MONITOR_LIMIT_EXCEEDED
  | MONITOR_NOT_FOUND | MONITOR_OVER_QUOTA | MONITOR_ENVIRONMENT_LIMIT_EXCEEDED
  | MONITOR_ENVIRONMENT_RATELIMITED | ORGANIZATION_KILLSWITCH_ENABLED

datatype permit = ACCEPT | DROP | ACCEPTED_FOR_UPSERT

datatype cfg_key = KMargin | KRuntime | KTimezone | KSchedule | KFailure | KRecovery

datatype config_payload = NoConfig | InvalidConfig | ValidConfig "cfg_key list" mconfig

text \<open>The \<open>check_in_id\<close> of the payload as \<open>uuid.UUID\<close> reads it; a zero UUID carries the fresh one.\<close>

datatype guid_text = BadGuid | ZeroGuid nat | Guid nat

record checkin_item =
  it_org :: nat
  it_project :: nat
  it_start :: int
  it_slug :: string
  it_environment :: "string option"
  it_guid :: guid_text
  it_status :: checkin_status
  it_duration :: "int option"
  it_config :: config_payload
  it_owner :: "owner option"
  it_valid :: bool
  it_trace :: "nat option"

record gates =
  g_killswitch :: bool
  g_ratelimited :: bool
  g_quota :: permit
  g_seat_accepted :: bool

definition MAX_MONITORS_PER_ORG :: nat where "MAX_MONITORS_PER_ORG = 1500"
definition MAX_ENVIRONMENTS_PER_MONITOR :: nat where "MAX_ENVIRONMENTS_PER_MONITOR = 1000"

fun update_key :: "cfg_key \<Rightarrow> mconfig \<Rightarrow> mconfig \<Rightarrow> mconfig" where
  "update_key KMargin v c = c\<lparr>cf_checkin_margin := cf_checkin_margin v\<rparr>"
| "update_key KRuntime v c = c\<lparr>cf_max_runtime := cf_max_runtime v\<rparr>"
| "update_key KTimezone v c = c\<lparr>cf_timezone := cf_timezone v\<rparr>"
| "update_key KSchedule v c = c\<lparr>cf_schedule := cf_schedule v\<rparr>"
| "update_key KFailure v c = c\<lparr>cf_failure_issue_threshold := cf_failure_issue_threshold v\<rparr>"
| "update_key KRecovery v c = c\<lparr>cf_recovery_threshold := cf_recovery_threshold v\<rparr>"

definition update_config :: "cfg_key list \<Rightarrow> mconfig \<Rightarrow> mconfig \<Rightarrow> mconfig" where
  "update_config keys v c = foldl (\<lambda>c' k. update_key k v c') c (KSchedule # keys)"

text \<open>
  Find the monitor of this slug, create it from a valid configuration, or update the
  existing one; an invalid configuration is an error only when there is no monitor.
\<close>

definition ensure_monitor_with_config ::
  "checkin_item \<Rightarrow> crons \<Rightarrow> (processing_error list + monitor option) \<times> crons" where
  "ensure_monitor_with_config it s =
     (let found = find (\<lambda>m. mo_slug m = it_slug it \<and> mo_project m = it_project it \<and> mo_org m = it_org it)
                    (monitors s)
      in case it_config it of
           NoConfig \<Rightarrow> (Inr found, s)
         | InvalidConfig \<Rightarrow>
             (case found of None \<Rightarrow> (Inl [MONITOR_INVALID_CONFIG], s) | Some m \<Rightarrow> (Inr found, s))
         | ValidConfig keys cfg \<Rightarrow>
             (case found of
                None \<Rightarrow>
                  if length (filter (\<lambda>m. mo_org m = it_org it) (monitors s)) = MAX_MONITORS_PER_ORG
                  then (Inl [MONITOR_LIMIT_EXCEEDED], s)
                  else
                    (let m = \<lparr>mo_id = next_monitor s, mo_org = it_org it, mo_project = it_project it,
                              mo_slug = it_slug it, mo_status = ObActive, mo_type = MtCronJob,
                              mo_muted = False, mo_owner = it_owner it, mo_config = cfg\<rparr>
                     in (Inr (Some m),
                         s\<lparr>monitors := monitors s @ [m], next_monitor := Suc (next_monitor s)\<rparr>))
              | Some m \<Rightarrow>
                  let m1 = (if mo_config m \<noteq> cfg
                            then m\<lparr>mo_config := update_config keys cfg (mo_config m)\<rparr> else m);
                      m2 = (if it_owner it \<noteq> None \<and> it_owner it \<noteq> mo_owner m1
                            then m1\<lparr>mo_owner := it_owner it\<rparr> else m1)
                  in (Inr (Some m2), update_monitor (mo_id m) (\<lambda>_. m2) s)))"

definition is_valid_name :: "string \<Rightarrow> bool" where
  \<comment> \<open>\<open>$\<close> also matches before one trailing newline\<close>
  "is_valid_name v =
     (length v \<le> 64 \<and>
      (let ok = list_all (\<lambda>c. c \<notin> {char_of (10 :: nat), char_of (13 :: nat), char_of (12 :: nat), CHR ''/''})
       in ok v \<or> (v \<noteq> [] \<and> last v = char_of (10 :: nat) \<and> ok (butlast v))))"

definition ensure_environment ::
  "monitor \<Rightarrow> string option \<Rightarrow> crons \<Rightarrow> (processing_error list + nat) \<times> crons" where
  "ensure_environment m name s =
     (let nm = (case name of None \<Rightarrow> ''production'' | Some x \<Rightarrow> if x = [] then ''production'' else x)
      in if \<not> is_valid_name nm then (Inl [MONITOR_INVALID_ENVIRONMENT], s)
         else
           (case find (\<lambda>e. me_monitor e = mo_id m \<and> me_environment e = nm) (envs s) of
              Some e \<Rightarrow> (Inr (me_id e), s)
            | None \<Rightarrow>
                if length (filter (\<lambda>e. me_monitor e = mo_id m) (envs s)) = MAX_ENVIRONMENTS_PER_MONITOR
                then (Inl [MONITOR_ENVIRONMENT_LIMIT_EXCEEDED], s)
                else
                  (Inr (next_env s),
                   s\<lparr>envs := envs s @ [\<lparr>me_id = next_env s, me_monitor = mo_id m, me_environment = nm,
                        me_status = MsActive, me_muted = False, me_next = None,
                        me_next_latest = None, me_last = None\<rparr>],
                     next_env := Suc (next_env s)\<rparr>)))"

definition user_terminal :: "checkin_status \<Rightarrow> bool" where
  "user_terminal st = (st = CiOk \<or> st = CiError)"

definition checkin_finished :: "checkin_status \<Rightarrow> bool" where
  "checkin_finished st = (user_terminal st \<or> st = CiMissed \<or> st = CiTimeout)"

definition update_existing_check_in ::
  "nat \<Rightarrow> nat \<Rightarrow> nat \<Rightarrow> int \<Rightarrow> checkin \<Rightarrow> checkin_status \<Rightarrow> int option \<Rightarrow> crons
     \<Rightarrow> processing_error list + crons" where
  "update_existing_check_in project mon e start c st dur s =
     (let mismatch = (if ci_project c \<noteq> project \<or> ci_monitor c \<noteq> mon \<or> ci_env c \<noteq> Some e
                      then [CHECKIN_GUID_PROJECT_MISMATCH] else []);
          duration_only = (ci_status c = CiTimeout \<and> user_terminal st);
          complete = (user_terminal (ci_status c) \<and> \<not> duration_only);
          fin = (if complete then [CHECKIN_FINISHED] else []);
          dur' = (case dur of None \<Rightarrow> \<bar>start - ci_date_added c\<bar> | Some n \<Rightarrow> n);
          bad = (if valid_duration (Some dur') then [] else [CHECKIN_INVALID_DURATION])
      in if complete \<and> st = CiInProgress then Inr s
         else if mismatch @ fin @ bad \<noteq> [] then Inl (mismatch @ fin @ bad)
         else Inr (update_checkin (ci_id c)
                (\<lambda>x. x\<lparr>ci_status := (if duration_only then ci_status x else st),
                       ci_duration := Some dur',
                       ci_timeout_at :=
                         get_timeout_at (map_option mo_config (find_monitor s (ci_monitor c))) st (Some start),
                       ci_date_updated := (if st = CiInProgress then start else ci_date_updated x)\<rparr>) s))"

definition create_check_in :: "checkin_item \<Rightarrow> nat \<Rightarrow> monitor \<Rightarrow> menv \<Rightarrow> crons \<Rightarrow> crons" where
  "create_check_in it guid m env s =
     (let added = it_start it - (case it_duration it of None \<Rightarrow> 0 | Some d \<Rightarrow> d)
      in insert_checkin
           \<lparr>ci_id = next_checkin_id s, ci_guid = guid, ci_project = it_project it, ci_monitor = mo_id m,
            ci_env = Some (me_id env), ci_status = it_status it, ci_duration = it_duration it,
            ci_date_added = added, ci_date_updated = it_start it, ci_expected = me_next env,
            ci_timeout_at = get_timeout_at (Some (mo_config m)) (it_status it) (Some added),
            ci_config = Some (mo_config m), ci_trace = it_trace it\<rparr> s)"

text \<open>
  The transaction of step 03 and 04: retrieve the check-in to update, or create one, then
  update the incident state. An error rolls the state back to the one before.
\<close>

definition upsert_check_in ::
  "checkin_item \<Rightarrow> nat \<Rightarrow> bool \<Rightarrow> monitor \<Rightarrow> menv \<Rightarrow> crons \<Rightarrow> processing_error list + nat \<times> crons" where
  "upsert_check_in it guid use_latest m env s =
     (let existing =
            (if use_latest then find (\<lambda>c. ci_status c = CiInProgress) (recent_checkins s (me_id env))
             else find (\<lambda>c. ci_guid c = guid) (checkins s))
      in case existing of
           None \<Rightarrow> Inr (next_checkin_id s, create_check_in it guid m env s)
         | Some c \<Rightarrow>
             if \<not> use_latest \<and> ci_env c \<noteq> Some (me_id env) then Inl [CHECKIN_ENVIRONMENT_MISMATCH]
             else bind_result
                    (update_existing_check_in (it_project it) (mo_id m) (me_id env) (it_start it) c
                       (it_status it) (it_duration it) s)
                    (\<lambda>s1. Inr (ci_id c, s1)))"

definition apply_check_in :: "scheduler \<Rightarrow> nat \<Rightarrow> int \<Rightarrow> crons \<Rightarrow> unit result \<times> crons" where
  "apply_check_in sch i start s =
     (case find_checkin s i of
        None \<Rightarrow> (Inr (), s)
      | Some c \<Rightarrow>
          if ci_status c = CiError
          then (case mark_failed sch c start s of
                  (Inl x, s1) \<Rightarrow> (Inl x, s1)
                | (Inr _, s1) \<Rightarrow> (Inr (), s1))
          else (Inr (), mark_ok sch c start s))"

definition check_in_transaction ::
  "scheduler \<Rightarrow> checkin_item \<Rightarrow> nat \<Rightarrow> bool \<Rightarrow> monitor \<Rightarrow> menv \<Rightarrow> crons
     \<Rightarrow> processing_error list \<times> crons" where
  "check_in_transaction sch it guid use_latest m env s =
     (case upsert_check_in it guid use_latest m env s of
        Inl es \<Rightarrow> (es, s)
      | Inr (i, s1) \<Rightarrow>
          (case apply_check_in sch i (it_start it) s1 of
             (Inl _, _) \<Rightarrow> ([], s)
           | (Inr _, s2) \<Rightarrow> ([], s2)))"

text \<open>Steps 01 and 02: the monitor and its environment, each with its reasons to reject.\<close>

definition admit_monitor ::
  "gates \<Rightarrow> checkin_item \<Rightarrow> crons \<Rightarrow> (processing_error list + monitor) \<times> crons" where
  "admit_monitor g it s =
     (case ensure_monitor_with_config it s of
        (Inl es, s1) \<Rightarrow> (Inl (if es = [MONITOR_LIMIT_EXCEEDED] then es else es @ [MONITOR_NOT_FOUND]), s1)
      | (Inr None, s1) \<Rightarrow> (Inl [MONITOR_NOT_FOUND], s1)
      | (Inr (Some m), s1) \<Rightarrow>
          let seatless = (g_quota g = ACCEPTED_FOR_UPSERT \<and> \<not> g_seat_accepted g);
              m1 = (if seatless then m\<lparr>mo_status := ObDisabled\<rparr> else m);
              s2 = (if seatless then update_monitor (mo_id m) (\<lambda>x. x\<lparr>mo_status := ObDisabled\<rparr>) s1 else s1)
          in if mo_status m1 = ObDisabled
             then (Inl [if g_quota g = ACCEPTED_FOR_UPSERT then MONITOR_DISABLED_NO_QUOTA
                        else MONITOR_DISABLED], s2)
             else (Inr m1, s2))"

definition process_checkin ::
  "scheduler \<Rightarrow> gates \<Rightarrow> checkin_item \<Rightarrow> crons \<Rightarrow> processing_error list \<times> crons" where
  "process_checkin sch g it s =
     (if g_killswitch g then ([ORGANIZATION_KILLSWITCH_ENABLED], s)
      else if g_ratelimited g then ([MONITOR_ENVIRONMENT_RATELIMITED], s)
      else if g_quota g = DROP then ([MONITOR_OVER_QUOTA], s)
      else if it_guid it = BadGuid then ([CHECKIN_INVALID_GUID], s)
      else if \<not> it_valid it then ([CHECKIN_VALIDATION_FAILED], s)
      else
        (case admit_monitor g it s of
           (Inl es, s1) \<Rightarrow> (es, s1)
         | (Inr m, s1) \<Rightarrow>
            (case ensure_environment m (it_environment it) s1 of
               (Inl es, s2) \<Rightarrow> (es, s2)
             | (Inr e, s2) \<Rightarrow>
                (case find_env s2 e of
                   None \<Rightarrow> ([], s2)
                 | Some env \<Rightarrow>
                    (case it_guid it of
                       ZeroGuid n \<Rightarrow> check_in_transaction sch it n True m env s2
                     | Guid n \<Rightarrow> check_in_transaction sch it n False m env s2
                     | BadGuid \<Rightarrow> ([CHECKIN_INVALID_GUID], s2))))))"

datatype cron_event = Receive gates checkin_item | ClockTask int nat clock_task

fun crons_step :: "scheduler \<Rightarrow> crons \<Rightarrow> cron_event \<Rightarrow> crons" where
  "crons_step sch s (Receive g it) = snd (process_checkin sch g it s)"
| "crons_step sch s (ClockTask now guid t) = process_clock_task sch now guid t s"

definition crons0 :: crons where
  "crons0 = \<lparr>monitors = [], envs = [], checkins = [], incidents = [], occurrences = [],
     resolved_groups = [], next_monitor = 0, next_env = 0, next_checkin_id = 0, next_incident = 0\<rparr>"

section \<open>The invariant of the tables\<close>

text \<open>
  Identifiers are unique and below the next one; an environment that is due has had a check-in;
  an environment has at most one active incident, and only in status ERROR.
\<close>

definition rows_ok :: "crons \<Rightarrow> bool" where
  "rows_ok s =
     (distinct (map me_id (envs s)) \<and> (\<forall>i \<in> set (map me_id (envs s)). i < next_env s)
      \<and> distinct (map in_id (incidents s)) \<and> (\<forall>i \<in> set (map in_id (incidents s)). i < next_incident s))"

definition due_ok :: "crons \<Rightarrow> bool" where
  "due_ok s = (\<forall>x \<in> set (envs s). me_next_latest x \<noteq> None \<longrightarrow> me_next x \<noteq> None \<and> me_last x \<noteq> None)"

definition incidents_ok :: "crons \<Rightarrow> bool" where
  "incidents_ok s =
     (\<forall>e. active_incidents s e = [] \<or>
        (\<exists>n env. active_incidents s e = [n] \<and> find_env s e = Some env \<and> me_status env = MsError))"

definition crons_inv :: "crons \<Rightarrow> bool" where
  "crons_inv s = (rows_ok s \<and> due_ok s \<and> incidents_ok s)"

lemma crons_inv_frame:
  "envs s' = envs s \<Longrightarrow> incidents s' = incidents s \<Longrightarrow> next_env s' = next_env s \<Longrightarrow>
   next_incident s' = next_incident s \<Longrightarrow> crons_inv s' = crons_inv s"
  by (simp add: crons_inv_def rows_ok_def due_ok_def incidents_ok_def active_incidents_def find_env_def)

lemma crons_inv_0: "crons_inv crons0"
  by (simp add: crons_inv_def rows_ok_def due_ok_def incidents_ok_def crons0_def active_incidents_def)

lemma update_monitor_inv [simp]: "crons_inv (update_monitor i f s) = crons_inv s"
  by (rule crons_inv_frame) (simp_all add: update_monitor_def)

lemma update_checkin_inv [simp]: "crons_inv (update_checkin i f s) = crons_inv s"
  by (rule crons_inv_frame) (simp_all add: update_checkin_def)

lemma insert_checkin_inv [simp]: "crons_inv (insert_checkin c s) = crons_inv s"
  by (rule crons_inv_frame) (simp_all add: insert_checkin_def)

lemma find_env_id: "find_env s i = Some x \<Longrightarrow> me_id x = i \<and> x \<in> set (envs s)"
  by (auto simp: find_env_def find_Some_iff)

lemma find_env_update:
  assumes "\<And>x. me_id (f x) = me_id x"
  shows "find_env (update_env i f s) j = (if i = j then map_option f (find_env s j) else find_env s j)"
proof -
  have "find (\<lambda>e. me_id e = j) (map (\<lambda>e. if me_id e = i then f e else e) xs) =
      (if i = j then map_option f (find (\<lambda>e. me_id e = j) xs) else find (\<lambda>e. me_id e = j) xs)" for xs
    by (induction xs) (auto simp: assms)
  then show ?thesis by (simp add: find_env_def update_env_def)
qed

lemma update_env_fields [simp]:
  "incidents (update_env i f s) = incidents s" "checkins (update_env i f s) = checkins s"
  "monitors (update_env i f s) = monitors s" "next_env (update_env i f s) = next_env s"
  "next_incident (update_env i f s) = next_incident s"
  "occurrences (update_env i f s) = occurrences s"
  "active_incidents (update_env i f s) e = active_incidents s e"
  "active_incident (update_env i f s) e = active_incident s e"
  "recent_checkins (update_env i f s) e = recent_checkins s e"
  by (simp_all add: update_env_def active_incidents_def active_incident_def recent_checkins_def)

lemma update_env_rows:
  assumes "\<And>x. me_id (f x) = me_id x" shows "rows_ok (update_env i f s) = rows_ok s"
proof -
  have "map me_id (envs (update_env i f s)) = map me_id (envs s)"
    by (simp add: assms update_env_def)
  then show ?thesis by (simp only: rows_ok_def update_env_fields)
qed

lemma update_env_inv:
  assumes inv: "crons_inv s" and id: "\<And>x. me_id (f x) = me_id x"
    and st: "\<And>x. me_status x = MsError \<Longrightarrow> active_incidents s i = [] \<or> me_status (f x) = MsError"
    and due: "\<And>x. (me_next_latest x \<noteq> None \<longrightarrow> me_next x \<noteq> None \<and> me_last x \<noteq> None) \<Longrightarrow>
      me_next_latest (f x) \<noteq> None \<longrightarrow> me_next (f x) \<noteq> None \<and> me_last (f x) \<noteq> None"
  shows "crons_inv (update_env i f s)"
proof -
  have rows: "rows_ok (update_env i f s)"
    using inv id by (simp add: crons_inv_def update_env_rows)
  have dok: "due_ok (update_env i f s)"
    unfolding due_ok_def
  proof
    fix x assume "x \<in> set (envs (update_env i f s))"
    then obtain y where y: "y \<in> set (envs s)" "x = (if me_id y = i then f y else y)"
      by (auto simp: update_env_def)
    with inv due [of y] show "me_next_latest x \<noteq> None \<longrightarrow> me_next x \<noteq> None \<and> me_last x \<noteq> None"
      by (auto simp: crons_inv_def due_ok_def)
  qed
  have "active_incidents s e = [] \<or> (\<exists>n env. active_incidents s e = [n] \<and>
      find_env (update_env i f s) e = Some env \<and> me_status env = MsError)" for e
  proof (cases "active_incidents s e = []")
    case False
    with inv obtain n env where "active_incidents s e = [n]" "find_env s e = Some env"
      "me_status env = MsError"
      by (auto simp: crons_inv_def incidents_ok_def)
    with st [of env] False id show ?thesis by (auto simp: find_env_update)
  qed simp
  with rows dok show ?thesis by (simp add: crons_inv_def incidents_ok_def)
qed

lemma create_occurrence_frame: "\<exists>os. create_issue_platform_occurrence fs c n s = s\<lparr>occurrences := os\<rparr>"
  by (cases "ci_env c") (auto simp: create_issue_platform_occurrence_def intro: exI [of _ "occurrences s"])

lemma foldl_occurrences_frame:
  "\<exists>os. foldl (\<lambda>s' c. create_issue_platform_occurrence fs c n s') s cs = s\<lparr>occurrences := os\<rparr>"
proof (induction cs arbitrary: s)
  case (Cons c cs)
  obtain os where "create_issue_platform_occurrence fs c n s = s\<lparr>occurrences := os\<rparr>"
    using create_occurrence_frame by blast
  with Cons [of "s\<lparr>occurrences := os\<rparr>"] show ?case by auto
next
  case Nil
  show ?case by (rule exI [of _ "occurrences s"]) simp
qed

lemma produce_occurrences_frame: "\<exists>os. produce_occurrences fs i env m s = s\<lparr>occurrences := os\<rparr>"
proof (cases i)
  case None
  then show ?thesis by (auto simp: produce_occurrences_def intro: exI [of _ "occurrences s"])
next
  case (Some n)
  show ?thesis
  proof (cases "\<not> mo_muted m \<and> \<not> me_muted env")
    case True
    with Some foldl_occurrences_frame show ?thesis by (simp add: produce_occurrences_def)
  next
    case False
    with Some show ?thesis by (auto simp: produce_occurrences_def intro: exI [of _ "occurrences s"])
  qed
qed

lemma produce_occurrences_fields [simp]:
  "incidents (produce_occurrences fs i env m s) = incidents s"
  "envs (produce_occurrences fs i env m s) = envs s"
  "checkins (produce_occurrences fs i env m s) = checkins s"
  "active_incidents (produce_occurrences fs i env m s) e = active_incidents s e"
  "find_env (produce_occurrences fs i env m s) e = find_env s e"
proof -
  obtain os where "produce_occurrences fs i env m s = s\<lparr>occurrences := os\<rparr>"
    using produce_occurrences_frame by blast
  then show "incidents (produce_occurrences fs i env m s) = incidents s"
    "envs (produce_occurrences fs i env m s) = envs s"
    "checkins (produce_occurrences fs i env m s) = checkins s"
    "active_incidents (produce_occurrences fs i env m s) e = active_incidents s e"
    "find_env (produce_occurrences fs i env m s) e = find_env s e"
    by (simp_all add: active_incidents_def find_env_def)
qed

lemma produce_occurrences_inv [simp]: "crons_inv (produce_occurrences fs i env m s) = crons_inv s"
proof -
  obtain os where "produce_occurrences fs i env m s = s\<lparr>occurrences := os\<rparr>"
    using produce_occurrences_frame by blast
  moreover have "crons_inv (s\<lparr>occurrences := os\<rparr>) = crons_inv s"
    by (rule crons_inv_frame) simp_all
  ultimately show ?thesis by simp
qed

lemma open_incident_inv:
  assumes "crons_inv s" "find_env s e = Some env" "me_status env = MsError"
    "open_incident e c s = (n, s1)"
  shows "crons_inv s1"
proof (cases "active_incident s e")
  case (Some k)
  with assms show ?thesis by (simp add: open_incident_def)
next
  case None
  with assms have s1: "s1 = s\<lparr>incidents := incidents s @ [n], next_incident := Suc (next_incident s)\<rparr>"
    and n: "in_id n = next_incident s" "in_env n = e" "in_resolving n = None"
    by (auto simp: open_incident_def Let_def)
  from None have "active_incidents s e = []"
    by (cases "active_incidents s e") (auto simp: active_incident_def)
  with assms s1 n have "incidents_ok s1"
    by (auto simp: crons_inv_def incidents_ok_def active_incidents_def find_env_def)
  moreover have "rows_ok s1"
    using assms(1) s1 n by (force simp: crons_inv_def rows_ok_def)
  ultimately show ?thesis using assms(1) s1 by (simp add: crons_inv_def due_ok_def)
qed

lemma mark_failed_threshold_inv:
  assumes "crons_inv s" "find_env s (me_id env) = Some x" "me_status x = me_status env"
  shows "crons_inv (snd (mark_failed_threshold c n env m s))"
proof -
  let ?e = "me_id env"
  let ?s1 = "update_env ?e (\<lambda>x. x\<lparr>me_status := MsError\<rparr>) s"
  have s1: "crons_inv ?s1" by (rule update_env_inv [OF assms(1)]) auto
  have f1: "find_env ?s1 ?e = Some (x\<lparr>me_status := MsError\<rparr>)"
    using assms(2) by (simp add: find_env_update)
  have open_inv: "crons_inv (snd (open_incident ?e start ?s1))" for start
    by (rule open_incident_inv [OF s1 f1]) (simp_all, rule prod.collapse [symmetric])
  show ?thesis
    using assms(1) s1 open_inv
    by (auto simp: mark_failed_threshold_def Let_def case_prod_unfold split: list.splits)
qed

lemma mark_failed_inv:
  assumes "crons_inv s" shows "crons_inv (snd (mark_failed sch c ts s))"
proof (cases "Option.bind (ci_env c) (find_env s)")
  case None
  with assms show ?thesis by (simp add: mark_failed_def)
next
  case (Some env)
  then have fe: "find_env s (me_id env) = Some env"
    by (auto simp: bind_eq_Some_conv dest: find_env_id)
  show ?thesis
    using assms Some fe
    by (auto simp: mark_failed_def find_env_update split: option.splits
        intro!: mark_failed_threshold_inv update_env_inv)
qed

lemma active_incidents_resolve:
  "active_incidents (resolve_incident n c s) e = filter (\<lambda>k. in_id k \<noteq> in_id n) (active_incidents s e)"
proof -
  let ?g = "\<lambda>k. if in_id k = in_id n
    then k\<lparr>in_resolving := Some (ci_id c), in_resolving_ts := Some (ci_date_added c)\<rparr> else k"
  have "filter (\<lambda>k. in_env k = e \<and> in_resolving k = None) (map ?g xs) =
      filter (\<lambda>k. in_id k \<noteq> in_id n) (filter (\<lambda>k. in_env k = e \<and> in_resolving k = None) xs)" for xs
    by (induction xs) auto
  then show ?thesis by (simp add: active_incidents_def resolve_incident_def update_incident_def)
qed

lemma resolve_incident_fields [simp]:
  "envs (resolve_incident n c s) = envs s" "monitors (resolve_incident n c s) = monitors s"
  "checkins (resolve_incident n c s) = checkins s"
  "next_env (resolve_incident n c s) = next_env s"
  "next_incident (resolve_incident n c s) = next_incident s"
  "find_env (resolve_incident n c s) e = find_env s e"
  "map in_id (incidents (resolve_incident n c s)) = map in_id (incidents s)"
  by (simp_all add: resolve_incident_def update_incident_def find_env_def)

lemma resolve_incident_inv: "crons_inv s \<Longrightarrow> crons_inv (resolve_incident n c s)"
proof -
  assume inv: "crons_inv s"
  have "rows_ok (resolve_incident n c s)"
    using inv unfolding crons_inv_def rows_ok_def resolve_incident_fields by blast
  moreover have "due_ok (resolve_incident n c s)"
    using inv by (simp add: crons_inv_def due_ok_def)
  moreover have "incidents_ok (resolve_incident n c s)"
    unfolding incidents_ok_def active_incidents_resolve
  proof
    fix e
    from inv have "active_incidents s e = [] \<or>
        (\<exists>n env. active_incidents s e = [n] \<and> find_env s e = Some env \<and> me_status env = MsError)"
      by (simp add: crons_inv_def incidents_ok_def)
    then show "filter (\<lambda>k. in_id k \<noteq> in_id n) (active_incidents s e) = [] \<or>
        (\<exists>na env. filter (\<lambda>k. in_id k \<noteq> in_id n) (active_incidents s e) = [na] \<and>
          find_env (resolve_incident n c s) e = Some env \<and> me_status env = MsError)"
      by auto
  qed
  ultimately show ?thesis by (simp add: crons_inv_def)
qed

lemma no_active_after_resolve:
  assumes "crons_inv s" "active_incident s e = Some n"
  shows "active_incidents (resolve_incident n c s) e = []"
proof -
  from assms(2) obtain ns where "active_incidents s e = n # ns"
    by (auto simp: active_incident_def split: list.splits)
  moreover from assms(1) have "active_incidents s e = [] \<or> (\<exists>k. active_incidents s e = [k])"
    by (auto simp: crons_inv_def incidents_ok_def)
  ultimately show ?thesis by (auto simp: active_incidents_resolve)
qed

lemma active_incident_None: "active_incident s e = None \<longleftrightarrow> active_incidents s e = []"
  by (auto simp: active_incident_def split: list.splits)

lemma mark_ok_inv:
  assumes inv: "crons_inv s" shows "crons_inv (mark_ok sch c ts s)"
proof (cases "Option.bind (ci_env c) (find_env s)")
  case None
  with inv show ?thesis by (simp add: mark_ok_def)
next
  case (Some env)
  then have fe: "find_env s (me_id env) = Some env"
    by (auto simp: bind_eq_Some_conv dest: find_env_id)
  show ?thesis
  proof (cases "find_monitor s (me_monitor env)")
    case None
    with Some inv show ?thesis by (simp add: mark_ok_def)
  next
    case m: (Some m)
    define recovers where "recovers = (me_status env \<noteq> MsOk \<and> ci_status c = CiOk
      \<and> incident_recovering (threshold (cf_recovery_threshold (mo_config m))) (me_id env) s)"
    define s1 where "s1 = (if recovers
      then (case active_incident s (me_id env) of None \<Rightarrow> s | Some n \<Rightarrow> resolve_incident n c s) else s)"
    have s1: "crons_inv s1"
      using inv by (auto simp: s1_def resolve_incident_inv split: option.splits)
    have none: "recovers \<Longrightarrow> active_incidents s1 (me_id env) = []"
      using inv by (auto simp: s1_def active_incident_None no_active_after_resolve split: option.splits)
    define params where "params = (\<lambda>x :: menv. (x\<lparr>me_last := Some (ci_date_added c),
        me_next := Some (get_next_expected_checkin sch m ts),
        me_next_latest := Some (get_next_expected_checkin_latest sch m ts)\<rparr>)
        \<lparr>me_status := (if recovers then MsOk else me_status x)\<rparr>)"
    have "crons_inv (update_env (me_id env) params s1)"
      by (rule update_env_inv [OF s1]) (auto simp: params_def dest: none)
    moreover have "mark_ok sch c ts s = (case me_last env of
        Some l \<Rightarrow> if l > ts then s1 else update_env (me_id env) params s1
      | None \<Rightarrow> update_env (me_id env) params s1)"
      using Some m by (simp only: mark_ok_def Let_def s1_def recovers_def params_def option.case)
    ultimately show ?thesis using s1 by (simp split: option.splits)
  qed
qed

lemma mark_environment_missing_inv:
  "crons_inv s \<Longrightarrow> crons_inv (snd (mark_environment_missing sch now guid e ts s))"
  by (auto simp: mark_environment_missing_def Let_def mark_failed_inv split: option.splits sum.splits)

lemma mark_checkin_timeout_inv:
  "crons_inv s \<Longrightarrow> crons_inv (snd (mark_checkin_timeout sch i ts s))"
  by (auto simp: mark_checkin_timeout_def Let_def mark_failed_inv split: option.splits sum.splits)

lemma process_clock_task_inv: "crons_inv s \<Longrightarrow> crons_inv (process_clock_task sch now guid t s)"
  by (cases t) (simp_all add: process_clock_task_def mark_environment_missing_inv mark_checkin_timeout_inv)

lemma ensure_monitor_inv: "crons_inv s \<Longrightarrow> crons_inv (snd (ensure_monitor_with_config it s))"
proof -
  assume inv: "crons_inv s"
  have "crons_inv (s\<lparr>monitors := ms, next_monitor := k\<rparr>)" for ms k
    using inv crons_inv_frame [of "s\<lparr>monitors := ms, next_monitor := k\<rparr>" s] by simp
  with inv show ?thesis
    by (auto simp: ensure_monitor_with_config_def Let_def split: config_payload.splits option.splits)
qed

lemma admit_monitor_inv: "crons_inv s \<Longrightarrow> crons_inv (snd (admit_monitor g it s))"
  using ensure_monitor_inv [of s it]
  by (auto simp: admit_monitor_def Let_def split: prod.splits sum.splits option.splits)

lemma ensure_environment_inv:
  assumes inv: "crons_inv s" shows "crons_inv (snd (ensure_environment m nm s))"
proof -
  have "crons_inv (s\<lparr>envs := envs s @ [x], next_env := Suc (next_env s)\<rparr>)" (is "crons_inv ?s")
    if x: "me_id x = next_env s" "me_next_latest x = None" for x
  proof -
    have ids: "\<forall>i \<in> set (map me_id (envs s)). i < next_env s"
      using inv unfolding crons_inv_def rows_ok_def by blast
    then have "rows_ok ?s"
      using inv x by (auto simp: crons_inv_def rows_ok_def less_Suc_eq)
    moreover have "due_ok ?s"
      using inv x by (auto simp: crons_inv_def due_ok_def)
    moreover have "incidents_ok ?s"
      using inv by (fastforce simp: crons_inv_def incidents_ok_def find_env_def active_incidents_def find_append)
    ultimately show ?thesis by (simp add: crons_inv_def)
  qed
  with inv show ?thesis
    by (auto simp: ensure_environment_def Let_def split: option.splits)
qed

lemma upsert_check_in_inv:
  "crons_inv s \<Longrightarrow> upsert_check_in it guid l m env s = Inr (i, s1) \<Longrightarrow> crons_inv s1"
  by (auto simp: upsert_check_in_def create_check_in_def update_existing_check_in_def Let_def
      bind_result_Inr_iff split: option.splits if_splits)

lemma apply_check_in_inv: "crons_inv s \<Longrightarrow> crons_inv (snd (apply_check_in sch i t s))"
  using mark_failed_inv
  by (auto simp: apply_check_in_def mark_ok_inv split: option.splits prod.splits sum.splits) (metis snd_conv)+

lemma check_in_transaction_inv:
  assumes "crons_inv s" shows "crons_inv (snd (check_in_transaction sch it guid l m env s))"
proof (cases "upsert_check_in it guid l m env s")
  case (Inl es)
  with assms show ?thesis by (simp add: check_in_transaction_def)
next
  case (Inr r)
  then obtain i s1 where r: "upsert_check_in it guid l m env s = Inr (i, s1)" by (cases r) auto
  with assms have "crons_inv (snd (apply_check_in sch i (it_start it) s1))"
    by (intro apply_check_in_inv) (rule upsert_check_in_inv)
  with assms r show ?thesis
    by (auto simp: check_in_transaction_def split: prod.splits sum.splits)
qed

lemma process_checkin_inv:
  assumes "crons_inv s" shows "crons_inv (snd (process_checkin sch g it s))"
proof -
  obtain r1 s1 where 1: "admit_monitor g it s = (r1, s1)" by fastforce
  with admit_monitor_inv [OF assms, of g it] have i1: "crons_inv s1" by simp
  show ?thesis
  proof (cases r1)
    case (Inl es)
    with 1 i1 assms show ?thesis by (simp add: process_checkin_def)
  next
    case (Inr m)
    obtain r2 s2 where 2: "ensure_environment m (it_environment it) s1 = (r2, s2)" by fastforce
    with ensure_environment_inv [OF i1, of m "it_environment it"] have "crons_inv s2" by simp
    with 1 2 Inr assms show ?thesis
      by (auto simp: process_checkin_def check_in_transaction_inv
          split: sum.splits option.splits guid_text.splits)
  qed
qed

interpretation crons_run: step_machine "crons_step sch" crons_inv for sch
proof
  show "crons_inv (crons_step sch s e)" if "crons_inv s" for s e
    using that by (cases e) (simp_all add: process_checkin_inv process_clock_task_inv)
qed

section \<open>Properties\<close>

text \<open>
  C1. However check-ins, missed check-ins and timeouts interleave, from an empty database on,
  every environment has no active incident, or exactly one and then its status is ERROR.
\<close>

theorem crons_one_active_incident:
  "active_incidents (foldl (crons_step sch) crons0 evs) e = [] \<or>
   (\<exists>n env. active_incidents (foldl (crons_step sch) crons0 evs) e = [n] \<and>
      find_env (foldl (crons_step sch) crons0 evs) e = Some env \<and> me_status env = MsError)"
  using crons_run.run_inv [OF crons_inv_0, of sch evs] by (simp add: crons_inv_def incidents_ok_def)

lemma previous_checkins_nonempty:
  assumes "c \<in> set (checkins s)" "ci_env c = Some e" "n > 0"
  shows "previous_checkins n c e s \<noteq> []"
proof -
  have "c \<in> set (filter (\<lambda>d. ci_date_added d \<le> ci_date_added c) (recent_checkins s e))"
    using assms by (simp add: recent_checkins_def)
  then have "filter (\<lambda>d. ci_date_added d \<le> ci_date_added c) (recent_checkins s e) \<noteq> []"
    by (auto simp del: set_filter)
  with assms(3) show ?thesis by (auto simp: previous_checkins_def)
qed

lemma threshold_pos: "threshold t > 0"
  by (cases t) (simp_all add: threshold_def)

lemma open_incident_new:
  assumes "active_incidents s e = []"
  shows "open_incident e c s =
     (\<lparr>in_id = next_incident s, in_env = e, in_starting_checkin = ci_id c,
       in_starting_ts = ci_date_added c, in_resolving = None, in_resolving_ts = None\<rparr>,
      s\<lparr>incidents := incidents s @ [\<lparr>in_id = next_incident s, in_env = e, in_starting_checkin = ci_id c,
          in_starting_ts = ci_date_added c, in_resolving = None, in_resolving_ts = None\<rparr>],
        next_incident := Suc (next_incident s)\<rparr>)"
  using assms by (simp add: open_incident_def active_incident_def Let_def)

lemma find_env_incidents [simp]:
  "find_env (s\<lparr>incidents := x, next_incident := k\<rparr>) e = find_env s e"
  by (simp add: find_env_def)

lemma no_active_when_healthy:
  "crons_inv s \<Longrightarrow> find_env s e = Some env \<Longrightarrow> me_status env \<noteq> MsError \<Longrightarrow> active_incidents s e = []"
  unfolding crons_inv_def incidents_ok_def by (metis option.inject)

lemma mark_failed_unfold:
  assumes "ci_env c = Some e" "find_env s e = Some env" "find_monitor s (me_monitor env) = Some m"
    "ci_status c \<noteq> CiMissed" "\<forall>l. me_last env = Some l \<longrightarrow> l \<le> ci_date_added c"
  shows "mark_failed sch c ts s =
     mark_failed_threshold c (threshold (cf_failure_issue_threshold (mo_config m)))
       (env\<lparr>me_last := Some (ci_date_added c)\<rparr>) m
       (update_env e (\<lambda>x. x\<lparr>me_last := Some (ci_date_added c),
          me_next := Some (get_next_expected_checkin sch m ts),
          me_next_latest := Some (get_next_expected_checkin_latest sch m ts)\<rparr>) s)"
  using assms find_env_id [of s e env] by (auto simp: mark_failed_def split: option.splits)

text \<open>
  C24. The failure threshold. Let a failing check-in that is not older than the last one arrive
  in a healthy environment, and take the newest n check-ins up to it, n being the configured
  threshold. If one of them succeeded nothing is reported; otherwise exactly one incident is
  opened, it starts at the oldest of them, and the environment turns to ERROR.
\<close>

theorem failure_threshold:
  assumes inv: "crons_inv s" and env: "find_env s e = Some env" and ok: "me_status env \<in> {MsOk, MsActive}"
    and m: "find_monitor s (me_monitor env) = Some m" and c: "c \<in> set (checkins s)" "ci_env c = Some e"
    and failed: "ci_status c \<in> {CiError, CiTimeout}"
    and newest: "\<forall>l. me_last env = Some l \<longrightarrow> l \<le> ci_date_added c"
    and n: "n = threshold (cf_failure_issue_threshold (mo_config m))"
  shows "if n \<noteq> 1 \<and> list_ex (\<lambda>d. ci_status d = CiOk) (previous_checkins n c e s)
    then fst (mark_failed sch c ts s) = Inr False
      \<and> incidents (snd (mark_failed sch c ts s)) = incidents s
      \<and> map_option me_status (find_env (snd (mark_failed sch c ts s)) e) = Some (me_status env)
    else fst (mark_failed sch c ts s) = Inr True
      \<and> (\<exists>k. incidents (snd (mark_failed sch c ts s)) = incidents s @ [k]
           \<and> active_incidents (snd (mark_failed sch c ts s)) e = [k]
           \<and> in_starting_checkin k = ci_id (hd (previous_checkins n c e s)))
      \<and> map_option me_status (find_env (snd (mark_failed sch c ts s)) e) = Some MsError"
proof -
  define s1 where "s1 = update_env e (\<lambda>x. x\<lparr>me_last := Some (ci_date_added c),
    me_next := Some (get_next_expected_checkin sch m ts),
    me_next_latest := Some (get_next_expected_checkin_latest sch m ts)\<rparr>) s"
  have mf: "mark_failed sch c ts s = mark_failed_threshold c n (env\<lparr>me_last := Some (ci_date_added c)\<rparr>) m s1"
    unfolding s1_def n by (rule mark_failed_unfold) (use env m c failed newest in auto)
  have e: "me_id env = e" using env by (simp add: find_env_id)
  have prev: "previous_checkins n c e s1 = previous_checkins n c e s"
    by (simp add: previous_checkins_def s1_def)
  have none: "active_incidents s e = []"
    using no_active_when_healthy [OF inv env] ok by auto
  obtain p ps where ps: "previous_checkins n c e s = p # ps"
    using previous_checkins_nonempty [OF c, of n] threshold_pos n by (metis list.exhaust)
  have st: "map_option me_status (find_env s1 e) = Some (me_status env)"
    using env by (simp add: s1_def find_env_update)
  show ?thesis
  proof (cases "n \<noteq> 1 \<and> list_ex (\<lambda>d. ci_status d = CiOk) (previous_checkins n c e s)")
    case True
    then show ?thesis using ok st
      by (simp add: mf mark_failed_threshold_def Let_def e prev) (simp add: s1_def)
  next
    case False
    define s2 where "s2 = update_env e (\<lambda>x. x\<lparr>me_status := MsError\<rparr>) s1"
    have none2: "active_incidents s2 e = []" using none by (simp add: s1_def s2_def)
    note op = open_incident_new [OF none2, of p]
    have f2: "map_option me_status (find_env s2 e) = Some MsError"
      using st by (auto simp: s2_def find_env_update)
    have i2: "incidents s2 = incidents s" by (simp add: s1_def s2_def)
    from False ok ps have "mark_failed sch c ts s =
        (Inr True, produce_occurrences (p # ps) (Some (fst (open_incident e p s2)))
           (env\<lparr>me_last := Some (ci_date_added c)\<rparr>) m (snd (open_incident e p s2)))"
      by (simp add: mf mark_failed_threshold_def Let_def e prev s2_def [symmetric] case_prod_unfold)
    with False ps f2 i2 none2 show ?thesis
      by (simp add: op active_incidents_def)
  qed
qed

text \<open>A calendar, a monitor and an environment for the instances below.\<close>

definition every_minute :: scheduler where
  "every_minute = \<lparr>cron_next = (\<lambda>_ _ t. clamp_minute t + minute), cron_prev = (\<lambda>_ _ t. clamp_minute (t - 1)),
     rule_after = (\<lambda>_ _ _ t. t + minute),
     rule_before = (\<lambda>_ _ _ t r. if t < r then Some (clamp_minute (r - 1)) else None)\<rparr>"

definition demo_config :: mconfig where
  "demo_config = \<lparr>cf_checkin_margin = None, cf_max_runtime = None, cf_timezone = None,
     cf_schedule = CrontabSchedule ''* * * * *'', cf_failure_issue_threshold = Some 2,
     cf_recovery_threshold = None\<rparr>"

definition demo_monitor :: monitor where
  "demo_monitor = \<lparr>mo_id = 7, mo_org = 1, mo_project = 1, mo_slug = ''backup'', mo_status = ObActive,
     mo_type = MtCronJob, mo_muted = False, mo_owner = None, mo_config = demo_config\<rparr>"

definition demo_env :: "monitor_status \<Rightarrow> int \<Rightarrow> menv" where
  "demo_env st t = \<lparr>me_id = 3, me_monitor = 7, me_environment = ''production'', me_status = st,
     me_muted = False, me_next = Some (t + minute), me_next_latest = Some (t + 2 * minute), me_last = Some t\<rparr>"

definition demo_checkin :: "nat \<Rightarrow> checkin_status \<Rightarrow> int \<Rightarrow> checkin" where
  "demo_checkin i st t = \<lparr>ci_id = i, ci_guid = i, ci_project = 1, ci_monitor = 7, ci_env = Some 3,
     ci_status = st, ci_duration = None, ci_date_added = t, ci_date_updated = t, ci_expected = None,
     ci_timeout_at = None, ci_config = None, ci_trace = None\<rparr>"

definition demo_state :: "monitor_status \<Rightarrow> int \<Rightarrow> checkin list \<Rightarrow> incident list \<Rightarrow> crons" where
  "demo_state st t cs ns = \<lparr>monitors = [demo_monitor], envs = [demo_env st t], checkins = cs,
     incidents = ns, occurrences = [], resolved_groups = [], next_monitor = 8, next_env = 4,
     next_checkin_id = 10, next_incident = 5\<rparr>"

definition demo_incident :: incident where
  "demo_incident = \<lparr>in_id = 2, in_env = 3, in_starting_checkin = 0, in_starting_ts = 0,
     in_resolving = None, in_resolving_ts = None\<rparr>"

lemmas demo_defs = every_minute_def demo_config_def demo_monitor_def demo_env_def demo_checkin_def
  demo_state_def demo_incident_def

lemma demo_find [simp]:
  "find_env (demo_state st t cs ns) 3 = Some (demo_env st t)"
  "find_monitor (demo_state st t cs ns) 7 = Some demo_monitor"
  "me_monitor (demo_env st t) = 7" "me_status (demo_env st t) = st" "me_last (demo_env st t) = Some t"
  "me_id (demo_env st t) = 3" "checkins (demo_state st t cs ns) = cs" "mo_config demo_monitor = demo_config"
  "me_next (demo_env st t) = Some (t + minute)"
  "envs (demo_state st t cs ns) = [demo_env st t]" "incidents (demo_state st t cs ns) = ns"
  "mo_id demo_monitor = 7" "mo_status demo_monitor = ObActive"
  by (simp_all add: demo_defs find_env_def find_monitor_def)

lemma demo_checkin_simps [simp]:
  "ci_env (demo_checkin i st t) = Some 3" "ci_status (demo_checkin i st t) = st"
  "ci_date_added (demo_checkin i st t) = t" "ci_id (demo_checkin i st t) = i"
  "threshold (cf_failure_issue_threshold demo_config) = 2"
  "threshold (cf_recovery_threshold demo_config) = 1"
  by (simp_all add: demo_checkin_def threshold_def demo_config_def)

lemma demo_inv: "crons_inv (demo_state st t cs [])"
  by (simp add: crons_inv_def rows_ok_def due_ok_def incidents_ok_def active_incidents_def demo_defs)

lemma demo_inv_error: "crons_inv (demo_state MsError t cs [demo_incident])"
proof -
  have "active_incidents (demo_state MsError t cs [demo_incident]) e = (if e = 3 then [demo_incident] else [])" for e
    by (simp add: active_incidents_def demo_defs)
  then show ?thesis
    by (simp add: crons_inv_def incidents_ok_def) (simp add: rows_ok_def due_ok_def demo_defs)
qed

theorem failure_threshold_witness:
  "let s = demo_state MsOk 0 [demo_checkin 4 CiError 0, demo_checkin 5 CiError 60000] [] in
   fst (mark_failed every_minute (demo_checkin 5 CiError 60000) 60000 s) = Inr True \<and>
   (\<exists>k. incidents (snd (mark_failed every_minute (demo_checkin 5 CiError 60000) 60000 s)) = [k] \<and>
        in_starting_checkin k = 4)"
proof -
  let ?c = "demo_checkin 5 CiError 60000"
  let ?s = "demo_state MsOk 0 [demo_checkin 4 CiError 0, ?c] []"
  have prev: "previous_checkins 2 ?c 3 ?s = [demo_checkin 4 CiError 0, ?c]"
    by (simp add: previous_checkins_def recent_checkins_def)
  have "if (2 :: nat) \<noteq> 1 \<and> list_ex (\<lambda>d. ci_status d = CiOk) (previous_checkins 2 ?c 3 ?s)
    then fst (mark_failed every_minute ?c 60000 ?s) = Inr False
      \<and> incidents (snd (mark_failed every_minute ?c 60000 ?s)) = incidents ?s
      \<and> map_option me_status (find_env (snd (mark_failed every_minute ?c 60000 ?s)) 3) = Some (me_status (demo_env MsOk 0))
    else fst (mark_failed every_minute ?c 60000 ?s) = Inr True
      \<and> (\<exists>k. incidents (snd (mark_failed every_minute ?c 60000 ?s)) = incidents ?s @ [k]
           \<and> active_incidents (snd (mark_failed every_minute ?c 60000 ?s)) 3 = [k]
           \<and> in_starting_checkin k = ci_id (hd (previous_checkins 2 ?c 3 ?s)))
      \<and> map_option me_status (find_env (snd (mark_failed every_minute ?c 60000 ?s)) 3) = Some MsError"
    by (rule failure_threshold [where m = demo_monitor]) (simp_all add: demo_inv)
  then show ?thesis by (auto simp: prev Let_def)
qed

section \<open>Out-of-order messages\<close>

lemma mark_ok_unfold:
  assumes "ci_env c = Some e" "find_env s e = Some env" "find_monitor s (me_monitor env) = Some m"
  shows "mark_ok sch c ts s =
    (let recovers = (me_status env \<noteq> MsOk \<and> ci_status c = CiOk
           \<and> incident_recovering (threshold (cf_recovery_threshold (mo_config m))) e s);
         s1 = (if recovers
               then (case active_incident s e of None \<Rightarrow> s | Some n \<Rightarrow> resolve_incident n c s) else s);
         params = (\<lambda>x. (x\<lparr>me_last := Some (ci_date_added c),
                         me_next := Some (get_next_expected_checkin sch m ts),
                         me_next_latest := Some (get_next_expected_checkin_latest sch m ts)\<rparr>)
                        \<lparr>me_status := (if recovers then MsOk else me_status x)\<rparr>)
     in (case me_last env of
           Some l \<Rightarrow> if l > ts then s1 else update_env e params s1
         | None \<Rightarrow> update_env e params s1))"
  using assms find_env_id [OF assms(2)] by (simp add: mark_ok_def)

text \<open>
  A success that is processed after a newer check-in resolves the incident but leaves the
  environment in ERROR. From then on there is no active incident although the status says so,
  and the next failure opens none and sends no occurrence.
\<close>

theorem late_success_orphans_error:
  assumes inv: "crons_inv s" and env: "find_env s e = Some env" and err: "me_status env = MsError"
    and m: "find_monitor s (me_monitor env) = Some m"
    and c: "ci_env c = Some e" "ci_status c = CiOk" and late: "me_last env = Some l" "ts < l"
    and rec: "threshold (cf_recovery_threshold (mo_config m)) = 1"
    and d: "ci_env d = Some e" "ci_status d = CiError" "l \<le> ci_date_added d"
  shows "active_incident (mark_ok sch c ts s) e = None
    \<and> find_env (mark_ok sch c ts s) e = Some env
    \<and> active_incident (snd (mark_failed sch d ts' (mark_ok sch c ts s))) e = None
    \<and> occurrences (snd (mark_failed sch d ts' (mark_ok sch c ts s))) = occurrences s
    \<and> map_option me_status (find_env (snd (mark_failed sch d ts' (mark_ok sch c ts s))) e) = Some MsError"
proof -
  define s1 where "s1 = (case active_incident s e of None \<Rightarrow> s | Some n \<Rightarrow> resolve_incident n c s)"
  have ok: "mark_ok sch c ts s = s1"
    using mark_ok_unfold [OF c(1) env m] err c late rec
    by (simp add: incident_recovering_def s1_def)
  have none: "active_incident s1 e = None"
    using inv by (auto simp: s1_def active_incident_None no_active_after_resolve split: option.splits)
  have fe: "find_env s1 e = Some env" and occ: "occurrences s1 = occurrences s"
    and m1: "find_monitor s1 (me_monitor env) = Some m"
    using env m by (auto simp: s1_def find_monitor_def resolve_incident_def update_incident_def
        find_env_def split: option.splits)
  define s2 where "s2 = update_env e (\<lambda>x. x\<lparr>me_last := Some (ci_date_added d),
    me_next := Some (get_next_expected_checkin sch m ts'),
    me_next_latest := Some (get_next_expected_checkin_latest sch m ts')\<rparr>) s1"
  have "mark_failed sch d ts' s1 =
      mark_failed_threshold d (threshold (cf_failure_issue_threshold (mo_config m)))
        (env\<lparr>me_last := Some (ci_date_added d)\<rparr>) m s2"
    unfolding s2_def by (rule mark_failed_unfold) (use d fe m1 late in auto)
  moreover have "active_incident s2 e = None" using none by (simp add: s2_def)
  moreover have "me_id env = e" using env by (simp add: find_env_id)
  ultimately have mf: "mark_failed sch d ts' s1 = (Inr True, s2)"
    using err by (simp add: mark_failed_threshold_def produce_occurrences_def)
  have "find_env s2 e = Some (env\<lparr>me_last := Some (ci_date_added d),
    me_next := Some (get_next_expected_checkin sch m ts'),
    me_next_latest := Some (get_next_expected_checkin_latest sch m ts')\<rparr>)"
    using fe by (simp add: s2_def find_env_update)
  with ok none fe mf occ err show ?thesis by (simp add: s2_def)
qed

theorem late_success_orphans_error_witness:
  "let s = demo_state MsError 120000 [demo_checkin 1 CiError 120000] [demo_incident];
       s1 = mark_ok every_minute (demo_checkin 2 CiOk 60000) 60000 s
   in active_incident s1 3 = None
    \<and> occurrences (snd (mark_failed every_minute (demo_checkin 3 CiError 180000) 180000 s1)) = []"
proof -
  let ?s = "demo_state MsError 120000 [demo_checkin 1 CiError 120000] [demo_incident]"
  have "active_incident (mark_ok every_minute (demo_checkin 2 CiOk 60000) 60000 ?s) 3 = None
    \<and> find_env (mark_ok every_minute (demo_checkin 2 CiOk 60000) 60000 ?s) 3 = Some (demo_env MsError 120000)
    \<and> active_incident (snd (mark_failed every_minute (demo_checkin 3 CiError 180000) 180000
          (mark_ok every_minute (demo_checkin 2 CiOk 60000) 60000 ?s))) 3 = None
    \<and> occurrences (snd (mark_failed every_minute (demo_checkin 3 CiError 180000) 180000
          (mark_ok every_minute (demo_checkin 2 CiOk 60000) 60000 ?s))) = occurrences ?s
    \<and> map_option me_status (find_env (snd (mark_failed every_minute (demo_checkin 3 CiError 180000) 180000
          (mark_ok every_minute (demo_checkin 2 CiOk 60000) 60000 ?s))) 3) = Some MsError"
    by (rule late_success_orphans_error [where m = demo_monitor and l = 120000])
      (simp_all add: demo_inv_error)
  then show ?thesis by (simp add: Let_def demo_state_def)
qed

section \<open>Timeouts and completed check-ins\<close>

lemma find_checkin_id: "find_checkin s i = Some c \<Longrightarrow> ci_id c = i \<and> c \<in> set (checkins s)"
  by (auto simp: find_checkin_def find_Some_iff)

lemma find_update_rows:
  "(\<And>x. ci_id (f x) = ci_id x) \<Longrightarrow>
   find_checkin (update_checkin i f s) j = (if i = j then map_option f (find_checkin s j) else find_checkin s j)"
proof -
  assume id: "\<And>x. ci_id (f x) = ci_id x"
  have "find (\<lambda>c. ci_id c = j) (map (\<lambda>c. if ci_id c = i then f c else c) xs) =
      (if i = j then map_option f (find (\<lambda>c. ci_id c = j) xs) else find (\<lambda>c. ci_id c = j) xs)" for xs
    by (induction xs) (auto simp: id)
  then show ?thesis by (simp add: find_checkin_def update_checkin_def)
qed

lemma open_incident_frame:
  "checkins (snd (open_incident e c s)) = checkins s" "monitors (snd (open_incident e c s)) = monitors s"
  "map me_id (envs (snd (open_incident e c s))) = map me_id (envs s)"
  "envs (snd (open_incident e c s)) = envs s"
  by (auto simp: open_incident_def Let_def split: option.splits)

lemma mark_failed_checkins [simp]: "checkins (snd (mark_failed sch c ts s)) = checkins s"
  by (auto simp: mark_failed_def mark_failed_threshold_def Let_def case_prod_unfold open_incident_frame
      split: option.splits list.splits)

lemma produce_occurrences_monitors [simp]: "monitors (produce_occurrences fs i env m s) = monitors s"
proof -
  obtain os where "produce_occurrences fs i env m s = s\<lparr>occurrences := os\<rparr>"
    using produce_occurrences_frame by blast
  then show ?thesis by simp
qed

lemma mark_failed_monitors [simp]: "monitors (snd (mark_failed sch c ts s)) = monitors s"
  by (auto simp: mark_failed_def mark_failed_threshold_def Let_def case_prod_unfold open_incident_frame
      split: option.splits list.splits)

lemma mark_ok_checkins [simp]: "checkins (mark_ok sch c ts s) = checkins s"
  by (auto simp: mark_ok_def Let_def split: option.splits)

lemma find_checkin_cong: "checkins s' = checkins s \<Longrightarrow> find_checkin s' i = find_checkin s i"
  by (simp add: find_checkin_def)

text \<open>
  The handler of a timeout task marks the check-in as timed out whatever its status has
  become since the task was dispatched: a check-in that was completed as OK in between is
  overwritten.
\<close>

theorem timeout_overwrites_status:
  assumes c: "find_checkin s i = Some c" "ci_env c = Some e"
    and env: "find_env s e = Some env" "find_monitor s (me_monitor env) = Some m"
  shows "find_checkin (snd (mark_checkin_timeout sch i ts s)) i = Some (c\<lparr>ci_status := CiTimeout\<rparr>)"
proof -
  have u: "find_checkin (update_checkin i (\<lambda>x. x\<lparr>ci_status := CiTimeout\<rparr>) s) i = Some (c\<lparr>ci_status := CiTimeout\<rparr>)"
    using c by (simp add: find_update_rows)
  show ?thesis
  proof (cases "ci_status c = CiTimeout")
    case True
    then have "c\<lparr>ci_status := CiTimeout\<rparr> = c" by simp
    with True c env show ?thesis by (simp add: mark_checkin_timeout_def)
  next
    case False
    with c env u show ?thesis
      by (auto simp: mark_checkin_timeout_def Let_def find_checkin_cong [OF mark_failed_checkins]
          split: sum.splits)
  qed
qed

theorem timeout_overwrites_status_witness:
  "find_checkin (snd (mark_checkin_timeout every_minute 6 3600000
      (demo_state MsOk 0 [demo_checkin 6 CiOk 0] []))) 6 =
   Some ((demo_checkin 6 CiOk 0)\<lparr>ci_status := CiTimeout\<rparr>)"
  by (rule timeout_overwrites_status [where e = 3 and env = "demo_env MsOk 0" and m = demo_monitor])
    (simp_all add: find_checkin_def)

lemma admit_monitor_checkins: "checkins (snd (admit_monitor g it s)) = checkins s"
  by (auto simp: admit_monitor_def ensure_monitor_with_config_def update_monitor_def Let_def
      split: prod.splits sum.splits option.splits config_payload.splits if_splits)

lemma ensure_environment_checkins: "checkins (snd (ensure_environment m nm s)) = checkins s"
  by (auto simp: ensure_environment_def Let_def split: option.splits)

lemma update_existing_complete:
  assumes "user_terminal (ci_status c)" "update_existing_check_in p mon e st c stt d s = Inr s1"
  shows "s1 = s"
proof -
  have "ci_status c \<noteq> CiTimeout" using assms(1) by (auto simp: user_terminal_def)
  with assms show ?thesis
    by (auto simp: update_existing_check_in_def Let_def split: if_splits)
qed

lemma update_existing_other:
  assumes "update_existing_check_in p mon e st d stt dur s = Inr s1" "ci_id d \<noteq> i"
  shows "find_checkin s1 i = find_checkin s i"
  using assms by (auto simp: update_existing_check_in_def Let_def find_update_rows split: if_splits)

lemma upsert_keeps_completed:
  assumes up: "upsert_check_in it guid l m env s = Inr (j, s1)"
    and c: "find_checkin s i = Some c" "user_terminal (ci_status c)" and d: "distinct (map ci_id (checkins s))"
  shows "find_checkin s1 i = Some c"
proof -
  define ex where "ex = (if l then find (\<lambda>c. ci_status c = CiInProgress) (recent_checkins s (me_id env))
    else find (\<lambda>c. ci_guid c = guid) (checkins s))"
  show ?thesis
  proof (cases ex)
    case None
    then have "s1 = create_check_in it guid m env s"
      using up by (auto simp: upsert_check_in_def ex_def Let_def split: if_splits)
    with c show ?thesis
      by (simp add: create_check_in_def insert_checkin_def find_checkin_def find_append Let_def)
  next
    case (Some k)
    then have k: "k \<in> set (checkins s)"
      by (auto simp: ex_def recent_checkins_def dest!: find_in_set split: if_splits)
    from up Some have ue: "update_existing_check_in (it_project it) (mo_id m) (me_id env) (it_start it) k
        (it_status it) (it_duration it) s = Inr s1"
      by (auto simp: upsert_check_in_def ex_def Let_def bind_result_Inr_iff split: if_splits)
    show ?thesis
    proof (cases "ci_id k = i")
      case True
      with k c(1) d have "k = c"
        by (metis (mono_tags, lifting) distinct_map find_checkin_id inj_onD)
      with ue c update_existing_complete show ?thesis by blast
    next
      case False
      with ue c update_existing_other show ?thesis by metis
    qed
  qed
qed

lemma apply_check_in_checkins: "checkins (snd (apply_check_in sch j t s)) = checkins s"
  by (auto simp: apply_check_in_def split: option.splits prod.splits sum.splits)
    (metis mark_failed_checkins snd_conv)+

lemma transaction_keeps_completed:
  assumes c: "find_checkin s i = Some c" "user_terminal (ci_status c)" "distinct (map ci_id (checkins s))"
  shows "find_checkin (snd (check_in_transaction sch it guid l m env s)) i = Some c"
proof (cases "upsert_check_in it guid l m env s")
  case (Inl es)
  with c show ?thesis by (simp add: check_in_transaction_def)
next
  case (Inr r)
  then obtain j s1 where r: "upsert_check_in it guid l m env s = Inr (j, s1)" by (cases r) auto
  have "find_checkin (snd (apply_check_in sch j (it_start it) s1)) i = Some c"
    using upsert_keeps_completed [OF r c] by (simp add: find_checkin_cong [OF apply_check_in_checkins])
  with c r show ?thesis
    by (auto simp: check_in_transaction_def split: prod.splits sum.splits)
qed

text \<open>
  A received check-in never changes a row that has already been completed by the user:
  not its status, not its duration, not its timeout.
\<close>

theorem completed_checkin_final:
  assumes "find_checkin s i = Some c" "user_terminal (ci_status c)" "distinct (map ci_id (checkins s))"
  shows "find_checkin (crons_step sch s (Receive g it)) i = Some c"
proof -
  obtain r1 s1 where 1: "admit_monitor g it s = (r1, s1)" by fastforce
  with admit_monitor_checkins [of g it s] have c1: "checkins s1 = checkins s" by simp
  show ?thesis
  proof (cases r1)
    case (Inl es)
    with 1 assms c1 show ?thesis by (simp add: process_checkin_def find_checkin_def)
  next
    case (Inr m)
    obtain r2 s2 where 2: "ensure_environment m (it_environment it) s1 = (r2, s2)" by fastforce
    with ensure_environment_checkins [of m "it_environment it" s1] c1
    have "checkins s2 = checkins s" by simp
    then have "find_checkin s2 i = Some c" "distinct (map ci_id (checkins s2))"
      using assms by (simp_all add: find_checkin_def)
    with 1 2 Inr assms show ?thesis
      by (auto simp: process_checkin_def transaction_keeps_completed
          split: sum.splits option.splits guid_text.splits)
  qed
qed

definition demo_item :: "guid_text \<Rightarrow> checkin_status \<Rightarrow> checkin_item" where
  "demo_item g st = \<lparr>it_org = 1, it_project = 1, it_start = 60000, it_slug = ''backup'',
     it_environment = None, it_guid = g, it_status = st, it_duration = None, it_config = NoConfig,
     it_owner = None, it_valid = True, it_trace = None\<rparr>"

definition open_gates :: gates where
  "open_gates = \<lparr>g_killswitch = False, g_ratelimited = False, g_quota = ACCEPT, g_seat_accepted = True\<rparr>"

theorem completed_checkin_final_witness:
  "find_checkin (crons_step every_minute (demo_state MsOk 0 [demo_checkin 6 CiOk 0] [])
     (Receive open_gates (demo_item (Guid 6) CiError))) 6 = Some (demo_checkin 6 CiOk 0)"
  by (rule completed_checkin_final) (simp_all add: find_checkin_def user_terminal_def)

section \<open>Missed check-ins are reported once\<close>

text \<open>
  The documented behaviour of the calendar that the handler relies on: the occurrence that
  follows the one before a full minute is not before that minute, and a rule that started
  earlier has an occurrence before it.
\<close>

definition calendar_ok :: "scheduler \<Rightarrow> bool" where
  "calendar_ok sch =
     (\<forall>tz r. r mod minute = 0 \<longrightarrow>
        (\<forall>c. r \<le> cron_next sch tz c (clamp_minute (cron_prev sch tz c r))) \<and>
        (\<forall>u n st. st < r \<longrightarrow>
           (\<exists>p. rule_before sch tz u n st r = Some p \<and> r \<le> rule_after sch tz u n (clamp_minute p))))"

lemma clamp_minute_mono: "a \<le> b \<Longrightarrow> a mod minute = 0 \<Longrightarrow> a \<le> clamp_minute b"
proof -
  assume a: "a \<le> b" "a mod minute = 0"
  then obtain k where k: "a = minute * k" by auto
  with a(1) have "k \<le> b div minute" by (simp add: zdiv_mono1 [of "minute * k" b minute, simplified])
  then have "minute * k \<le> minute * (b div minute)" by simp
  also have "minute * (b div minute) = b - b mod minute" by (simp add: minus_mod_eq_mult_div)
  finally show ?thesis by (simp add: k clamp_minute_def)
qed

lemma prev_next_schedule:
  assumes "calendar_ok sch" "r mod minute = 0" "st < r"
  obtains p where "get_prev_schedule sch tz st r sc = Inr p" "r \<le> get_next_schedule sch tz p sc"
proof (cases sc)
  case (CrontabSchedule c)
  with assms that show thesis by (auto simp: calendar_ok_def clamp_minute_mono)
next
  case (IntervalSchedule n u)
  from assms have "\<exists>p. rule_before sch tz u n st r = Some p \<and> r \<le> rule_after sch tz u n (clamp_minute p)"
    by (simp add: calendar_ok_def)
  then obtain p where "rule_before sch tz u n st r = Some p"
    "r \<le> rule_after sch tz u n (clamp_minute p)"
    by blast
  with IntervalSchedule assms(2) that show thesis by (auto simp: clamp_minute_mono)
qed

lemma mark_failed_threshold_due:
  assumes "find_env s e = Some x" "me_id env = e"
  shows "\<exists>y. find_env (snd (mark_failed_threshold c n env m s)) e = Some y \<and>
    me_next_latest y = me_next_latest x \<and> me_monitor y = me_monitor x"
  using assms
  by (auto simp: mark_failed_threshold_def Let_def case_prod_unfold find_env_update
      find_env_def [of "snd (open_incident _ _ _)"] open_incident_frame
      simp flip: find_env_def split: list.splits)

lemma missed_moves_due:
  assumes inv: "crons_inv s" and cal: "calendar_ok sch" and ts: "ts mod minute = 0"
    and env: "find_env s e = Some env" and m: "find_monitor s (me_monitor env) = Some m"
    and due: "past_due ts env" "\<not> ignored_monitor env m"
    and expected: "me_next env = Some t" "t < ts"
    and margin: "get_checkin_margin (cf_checkin_margin (mo_config m)) > 0"
  shows "\<exists>y. find_env (snd (mark_environment_missing sch now guid e ts s)) e = Some y \<and> \<not> past_due ts y"
proof -
  obtain p where p: "get_prev_schedule sch (monitor_timezone m) t ts (cf_schedule (mo_config m)) = Inr p"
    "ts \<le> get_next_schedule sch (monitor_timezone m) p (cf_schedule (mo_config m))"
    using prev_next_schedule [OF cal ts expected(2)] by blast
  define c where "c = \<lparr>ci_id = next_checkin_id s, ci_guid = guid, ci_project = mo_project m,
    ci_monitor = mo_id m, ci_env = Some e, ci_status = CiMissed, ci_duration = None,
    ci_date_added = t, ci_date_updated = now, ci_expected = Some t,
    ci_timeout_at = None, ci_config = Some (mo_config m), ci_trace = None\<rparr>"
  define s1 where "s1 = insert_checkin c s"
  have me: "mark_environment_missing sch now guid e ts s = mark_failed sch c p s1"
    using env m due expected p(1) by (simp add: mark_environment_missing_def Let_def c_def s1_def)
  have e: "me_id env = e" using env by (simp add: find_env_id)
  from due(1) have "me_next_latest env \<noteq> None" by (auto simp: past_due_def split: option.splits)
  with inv env obtain l where l: "me_last env = Some l"
    by (auto simp: crons_inv_def due_ok_def dest: find_env_id)
  define s2 where "s2 = update_env e (\<lambda>x. x\<lparr>me_last := Some l,
      me_next := Some (get_next_expected_checkin sch m p),
      me_next_latest := Some (get_next_expected_checkin_latest sch m p)\<rparr>) s1"
  have f1: "find_env s1 e = Some env" and m1: "find_monitor s1 (me_monitor env) = Some m"
    using env m by (simp_all add: s1_def insert_checkin_def find_env_def find_monitor_def)
  have "mark_failed sch c p s1 = mark_failed_threshold c
      (threshold (cf_failure_issue_threshold (mo_config m))) (env\<lparr>me_last := Some l\<rparr>) m s2"
    using f1 m1 l e by (simp add: mark_failed_def c_def s2_def)
  moreover have "find_env s2 e = Some (env\<lparr>me_last := Some l,
      me_next := Some (get_next_expected_checkin sch m p),
      me_next_latest := Some (get_next_expected_checkin_latest sch m p)\<rparr>)"
    using f1 by (simp add: s2_def find_env_update)
  ultimately obtain y where "find_env (snd (mark_environment_missing sch now guid e ts s)) e = Some y"
    "me_next_latest y = Some (get_next_expected_checkin_latest sch m p)"
    using mark_failed_threshold_due [of s2 e _ "env\<lparr>me_last := Some l\<rparr>"] e me by fastforce
  moreover have "get_next_expected_checkin_latest sch m p > ts"
    using p(2) margin by (simp add: get_next_expected_checkin_latest_def get_next_expected_checkin_def)
  ultimately show ?thesis by (auto simp: past_due_def)
qed

text \<open>
  A missed check-in is recorded once for a clock tick: when the tasks of a backlog contain
  the same environment again for the same minute, the second task changes nothing. It relies on
  the calendar and on a positive margin.
\<close>

theorem missed_once:
  assumes inv: "crons_inv s" and cal: "calendar_ok sch" and ts: "ts mod minute = 0"
    and env: "find_env s e = Some env" and m: "find_monitor s (me_monitor env) = Some m"
    and expected: "me_next env = Some t" "t < ts"
    and margin: "get_checkin_margin (cf_checkin_margin (mo_config m)) > 0"
    and r: "mark_environment_missing sch now guid e ts s = (r, s')"
  shows "mark_environment_missing sch now' guid' e ts s' = (Inr False, s')"
proof (cases "past_due ts env \<and> \<not> ignored_monitor env m")
  case True
  then obtain y where "find_env s' e = Some y" "\<not> past_due ts y"
    using missed_moves_due [OF inv cal ts env m _ _ expected margin, of now guid] r by auto
  then show ?thesis by (simp add: mark_environment_missing_def split: option.splits)
next
  case False
  with env m r have "s' = s" by (auto simp: mark_environment_missing_def)
  with False env m show ?thesis by (auto simp: mark_environment_missing_def)
qed

lemma every_minute_calendar: "calendar_ok every_minute"
proof -
  have "r \<le> clamp_minute (clamp_minute (r - 1)) + minute" if "r mod minute = 0" for r :: int
  proof -
    from that obtain k where "r = minute * k" by auto
    then show ?thesis by (simp add: clamp_minute_def)
  qed
  then show ?thesis by (simp add: calendar_ok_def every_minute_def clamp_minute_def)
qed

theorem missed_once_witness:
  "let s = demo_state MsOk 0 [demo_checkin 6 CiOk 0] [];
       s1 = snd (mark_environment_missing every_minute 180000 9 3 180000 s)
   in length (checkins s1) = 2 \<and>
      mark_environment_missing every_minute 240000 10 3 180000 s1 = (Inr False, s1)"
proof -
  let ?s = "demo_state MsOk 0 [demo_checkin 6 CiOk 0] []"
  let ?m = "mark_environment_missing every_minute 180000 9 3 180000 ?s"
  have "mark_environment_missing every_minute 240000 10 3 180000 (snd ?m) = (Inr False, snd ?m)"
    by (rule missed_once [where s = ?s and env = "demo_env MsOk 0" and m = demo_monitor and t = 60000
          and now = 180000 and guid = 9 and r = "fst ?m"])
      (simp_all add: demo_inv every_minute_calendar demo_config_def get_checkin_margin_def or_default_def
        DEFAULT_CHECKIN_MARGIN_def)
  moreover have "length (checkins (snd ?m)) = 2"
    by (simp add: mark_environment_missing_def past_due_def ignored_monitor_def Let_def demo_config_def
        insert_checkin_def del: demo_find(7)) (simp add: demo_defs)
  ultimately show ?thesis by (simp add: Let_def)
qed

end
