(* ===== verification/MonitorClock.thy ===== *)
theory MonitorClock
  imports Monitors
begin

text \<open>
  The clock of the cron monitors (\<open>src/src/sentry/monitors/clock_dispatch.py\<close>), the grouping of
  a batch of check-ins (\<open>consumers/monitor_consumer.py\<close>, \<open>types.py\<close>) and the check-in quota of a
  project (\<open>rate_limit.py\<close>). The clock runs in Redis: a sorted set with one timestamp for each
  partition and the last minute triggered. A call of \<open>try_monitor_clock_tick\<close> is modelled twice:
  as one step, and as the two halves before and after the atomic GETSET, so that calls of
  several consumers can interleave. Timestamps are whole seconds.
\<close>

section \<open>The clock\<close>

record clock =
  partition_clocks :: "(nat, int) dict"
  last_triggered :: "int option"
  ticks :: "int list"

definition dispatch_tick :: "bool \<Rightarrow> int \<Rightarrow> clock \<Rightarrow> clock" where
  \<comment> \<open>ticks are produced only with the Kafka event stream\<close>
  "dispatch_tick kafka t c = (if kafka then c\<lparr>ticks := ticks c @ [t]\<rparr> else c)"

definition slowest_partition :: "(nat, int) dict \<Rightarrow> int" where
  "slowest_partition d = Min (set (map snd d))"

definition reference_ts :: "int \<Rightarrow> int" where
  "reference_ts t = t - t mod 60"

function backfill :: "bool \<Rightarrow> int \<Rightarrow> int \<Rightarrow> clock \<Rightarrow> clock" where
  "backfill kafka b t c = (if b < t then backfill kafka (b + 60) t (dispatch_tick kafka b c) else c)"
  by auto
termination by (relation "measure (\<lambda>(_, b, t, _). nat (t - b))") auto

declare backfill.simps [simp del]

text \<open>Up to the read of the last triggered minute: \<open>None\<close> when the call returns early.\<close>

definition tick_precheck :: "int \<Rightarrow> nat \<Rightarrow> clock \<Rightarrow> (int \<times> int option) option \<times> clock" where
  "tick_precheck ts p c =
     (let c1 = c\<lparr>partition_clocks := dict_set p (reference_ts ts) (partition_clocks c)\<rparr>;
          slowest = slowest_partition (partition_clocks c1)
      in case last_triggered c1 of
           Some l \<Rightarrow> if l \<ge> slowest then (None, c1) else (Some (slowest, Some l), c1)
         | None \<Rightarrow> (Some (slowest, None), c1))"

text \<open>From the GETSET on.\<close>

definition tick_commit :: "bool \<Rightarrow> int \<times> int option \<Rightarrow> clock \<Rightarrow> clock" where
  "tick_commit kafka pre c =
     (let (slowest, precheck) = pre;
          last_ts = last_triggered c;
          c1 = c\<lparr>last_triggered := Some slowest\<rparr>
      in if precheck \<noteq> last_ts then c1
         else
           (let c2 = (case last_ts of
                        None \<Rightarrow> c1
                      | Some l \<Rightarrow> if slowest > l + 60 then backfill kafka (l + 60) slowest c1 else c1)
            in dispatch_tick kafka slowest c2))"

definition try_monitor_clock_tick :: "bool \<Rightarrow> int \<Rightarrow> nat \<Rightarrow> clock \<Rightarrow> clock" where
  "try_monitor_clock_tick kafka ts p c =
     (case tick_precheck ts p c of
        (None, c1) \<Rightarrow> c1
      | (Some pre, c1) \<Rightarrow> tick_commit kafka pre c1)"

definition clock0 :: clock where
  "clock0 = \<lparr>partition_clocks = [], last_triggered = None, ticks = []\<rparr>"

section \<open>Ticks form an unbroken sequence of minutes\<close>

fun contiguous :: "int list \<Rightarrow> bool" where
  "contiguous [] = True"
| "contiguous [t] = True"
| "contiguous (t # u # ts) = (u = t + 60 \<and> contiguous (u # ts))"

lemma contiguous_snoc: "contiguous (ts @ [l]) \<Longrightarrow> contiguous (ts @ [l, l + 60])"
  by (induction ts rule: contiguous.induct) auto

definition clock_inv :: "bool \<Rightarrow> clock \<Rightarrow> bool" where
  "clock_inv kafka c =
     ((\<forall>t \<in> set (map snd (partition_clocks c)). t mod 60 = 0) \<and>
      (case last_triggered c of
         None \<Rightarrow> ticks c = []
       | Some l \<Rightarrow> l mod 60 = 0 \<and>
           (if kafka then (\<exists>us. ticks c = us @ [l] \<and> contiguous (us @ [l])) else ticks c = [])))"

lemma dict_set_values: "set (map snd (dict_set k v d)) \<subseteq> insert v (set (map snd d))"
  using dict_set_subset [of k v d] by force

lemma dict_set_nonempty: "dict_set k v d \<noteq> []"
  by (cases d) (auto simp: dict_set_def)

lemma reference_ts_minute: "reference_ts t mod 60 = 0"
  by (simp add: reference_ts_def minus_mod_eq_mult_div)

lemma slowest_in: "d \<noteq> [] \<Longrightarrow> slowest_partition d \<in> set (map snd d)"
  unfolding slowest_partition_def by (rule Min_in) auto

lemma backfill_kafka:
  "\<lbrakk>ticks c = us @ [l]; contiguous (us @ [l]); b = l + 60; b mod 60 = 0; t mod 60 = 0; b \<le> t\<rbrakk> \<Longrightarrow>
   \<exists>vs. ticks (dispatch_tick True t (backfill True b t c)) = vs @ [t] \<and> contiguous (vs @ [t])
     \<and> last_triggered (backfill True b t c) = last_triggered c
     \<and> partition_clocks (backfill True b t c) = partition_clocks c"
proof (induction True b t c arbitrary: us l rule: backfill.induct)
  case (1 b t c)
  show ?case
  proof (cases "b < t")
    case False
    then have "t = b" using "1.prems" by simp
    moreover have "backfill True b t c = c" using False by (subst backfill.simps) simp
    ultimately show ?thesis
      using "1.prems" contiguous_snoc [of us l] by (auto simp: dispatch_tick_def)
  next
    case True
    have le: "b + 60 \<le> t" using True "1.prems"(4,5) by presburger
    have bf: "backfill True b t c = backfill True (b + 60) t (dispatch_tick True b c)"
      using True by (subst backfill.simps) simp
    from 1(1) [OF True, of "us @ [l]" b] "1.prems" le contiguous_snoc [of us l]
    show ?thesis unfolding bf by (auto simp: dispatch_tick_def)
  qed
qed

lemma backfill_no_kafka: "backfill False b t c = c"
  by (induction False b t c rule: backfill.induct)
    (subst backfill.simps, auto simp: dispatch_tick_def)

lemma tick_inv:
  assumes inv: "clock_inv kafka c"
  shows "clock_inv kafka (try_monitor_clock_tick kafka ts p c)"
proof -
  define d where "d = dict_set p (reference_ts ts) (partition_clocks c)"
  define m where "m = slowest_partition d"
  have clocks: "\<forall>t \<in> set (map snd d). t mod 60 = 0"
    using inv dict_set_values [of p "reference_ts ts" "partition_clocks c"] reference_ts_minute
    unfolding clock_inv_def d_def by (metis (no_types, lifting) insertE subsetD)
  then have m: "m mod 60 = 0"
    using slowest_in [of d] dict_set_nonempty unfolding m_def d_def by metis
  show ?thesis
  proof (cases "last_triggered c")
    case None
    with inv clocks m show ?thesis
      by (simp add: try_monitor_clock_tick_def tick_precheck_def tick_commit_def Let_def
          d_def [symmetric] m_def [symmetric] clock_inv_def dispatch_tick_def)
  next
    case (Some l)
    show ?thesis
    proof (cases "l \<ge> m")
      case True
      with Some inv clocks show ?thesis
        by (simp add: try_monitor_clock_tick_def tick_precheck_def Let_def d_def [symmetric]
            m_def [symmetric] clock_inv_def)
    next
      case False
      let ?c = "c\<lparr>partition_clocks := d, last_triggered := Some m\<rparr>"
      from Some inv have l: "l mod 60 = 0" by (simp add: clock_inv_def)
      with m False have le: "l + 60 \<le> m" by presburger
      have eq: "try_monitor_clock_tick kafka ts p c = dispatch_tick kafka m (backfill kafka (l + 60) m ?c)"
      proof (cases "m > l + 60")
        case True
        with Some False show ?thesis
          by (simp add: try_monitor_clock_tick_def tick_precheck_def tick_commit_def Let_def
              d_def [symmetric] m_def [symmetric])
      next
        case gap: False
        with le have "backfill kafka (l + 60) m ?c = ?c" by (subst backfill.simps) simp
        with Some False gap show ?thesis
          by (simp add: try_monitor_clock_tick_def tick_precheck_def tick_commit_def Let_def
              d_def [symmetric] m_def [symmetric])
      qed
      show ?thesis
      proof (cases kafka)
        case True
        with Some inv obtain us where "ticks c = us @ [l]" "contiguous (us @ [l])"
          by (auto simp: clock_inv_def)
        with backfill_kafka [of ?c us l "l + 60" m] l m le clocks True show ?thesis
          unfolding eq by (auto simp: clock_inv_def dispatch_tick_def)
      next
        case no: False
        with Some inv m clocks show ?thesis
          unfolding eq by (simp add: clock_inv_def dispatch_tick_def backfill_no_kafka)
      qed
    qed
  qed
qed

interpretation clock_run: step_machine
  "\<lambda>c (ts, p). try_monitor_clock_tick kafka ts p c" "clock_inv kafka" for kafka
  by unfold_locales (auto simp: tick_inv)

text \<open>
  When calls do not overlap, the minutes dispatched form one unbroken increasing sequence:
  whatever timestamps the partitions report, in whatever order, no minute is skipped and none
  is dispatched twice.
\<close>

theorem clock_ticks_contiguous:
  "contiguous (ticks (foldl (\<lambda>c (ts, p). try_monitor_clock_tick kafka ts p c) clock0 evs))"
proof -
  have "clock_inv kafka clock0" by (simp add: clock_inv_def clock0_def)
  from clock_run.run_inv [OF this, of evs] show ?thesis
    by (auto simp: clock_inv_def split: option.splits if_splits)
qed

section \<open>Overlapping calls\<close>

text \<open>Each consumer has at most one call under way; \<open>pending\<close> is what it read before the GETSET.\<close>

record race =
  shared :: clock
  pending :: "(nat, int \<times> int option) dict"

datatype race_event = Precheck nat int nat | Commit nat

fun race_step :: "bool \<Rightarrow> race \<Rightarrow> race_event \<Rightarrow> race" where
  "race_step kafka r (Precheck w ts p) =
     (case tick_precheck ts p (shared r) of
        (None, c) \<Rightarrow> r\<lparr>shared := c, pending := dict_del w (pending r)\<rparr>
      | (Some pre, c) \<Rightarrow> r\<lparr>shared := c, pending := dict_set w pre (pending r)\<rparr>)"
| "race_step kafka r (Commit w) =
     (case dict_get (pending r) w of
        None \<Rightarrow> r
      | Some pre \<Rightarrow> r\<lparr>shared := tick_commit kafka pre (shared r), pending := dict_del w (pending r)\<rparr>)"

text \<open>
  Without overlap the two halves are the whole call: a precheck followed at once by the
  commit of the same consumer leaves the clock that \<open>try_monitor_clock_tick\<close> leaves.
\<close>

theorem race_serial:
  "shared (race_step kafka (race_step kafka r (Precheck w ts p)) (Commit w)) =
   try_monitor_clock_tick kafka ts p (shared r)"
  by (auto simp: try_monitor_clock_tick_def split: prod.splits option.splits)

text \<open>
  With overlap a minute can be dispatched twice. Consumer 1 owns partition 0 and
  consumer 2 partition 1; consumer 2 reads the newer minute and commits first. The commit of
  consumer 1 dispatches nothing but its GETSET writes the older minute back, so the next call
  dispatches the newer minute again.
\<close>

theorem clock_race_repeats_a_minute:
  "ticks (shared (foldl (race_step True) \<lparr>shared = clock0, pending = []\<rparr>
     [Precheck 1 60 0, Commit 1, Precheck 2 120 1, Commit 2, Precheck 1 180 0, Precheck 2 180 1,
      Commit 2, Commit 1, Precheck 2 200 1, Commit 2])) = [60, 120, 180, 180]"
  by (simp add: tick_precheck_def tick_commit_def Let_def clock0_def reference_ts_def
      slowest_partition_def dict_set_def dict_get_def dict_del_def backfill.simps dispatch_tick_def)

section \<open>Batches of check-ins\<close>

text \<open>\<open>CheckinItem.processing_key\<close>: project, slug and environment as given in the payload.\<close>

definition processing_key :: "checkin_item \<Rightarrow> string" where
  "processing_key it =
     int_str (int (it_project it)) @ '':'' @ it_slug it @ '':'' @
     (case it_environment it of None \<Rightarrow> ''None'' | Some e \<Rightarrow> e)"

datatype wrapper = Undecodable | ClockPulse | CheckIn checkin_item

record broker_value =
  bv_partition :: nat
  bv_timestamp :: int
  bv_payload :: wrapper

type_synonym groups = "(string, checkin_item list) dict"

definition add_to_group :: "checkin_item \<Rightarrow> groups \<Rightarrow> groups" where
  "add_to_group it g =
     dict_set (processing_key it)
       ((case dict_get g (processing_key it) of None \<Rightarrow> [] | Some its \<Rightarrow> its) @ [it]) g"

fun collect_batch :: "broker_value list \<Rightarrow> (nat, int) dict \<Rightarrow> groups \<Rightarrow> (nat, int) dict \<times> groups" where
  "collect_batch [] latest g = (latest, g)"
| "collect_batch (b # bs) latest g =
     (case bv_payload b of
        Undecodable \<Rightarrow> collect_batch bs latest g
      | ClockPulse \<Rightarrow> collect_batch bs (dict_set (bv_partition b) (bv_timestamp b) latest) g
      | CheckIn it \<Rightarrow>
          collect_batch bs (dict_set (bv_partition b) (bv_timestamp b) latest) (add_to_group it g))"

definition process_checkin_group ::
  "scheduler \<Rightarrow> (checkin_item \<Rightarrow> gates) \<Rightarrow> checkin_item list \<Rightarrow> crons \<Rightarrow> crons" where
  "process_checkin_group sch gs its s =
     foldl (\<lambda>s' it. snd (process_checkin sch (gs it) it s')) s its"

text \<open>
  The groups run in the order in which the pool happens to take them, one at a time here; then
  the clock ticks once for each partition seen.
\<close>

definition process_batch ::
  "bool \<Rightarrow> scheduler \<Rightarrow> (checkin_item \<Rightarrow> gates) \<Rightarrow> broker_value list \<Rightarrow> crons \<times> clock \<Rightarrow> crons \<times> clock" where
  "process_batch kafka sch gs batch st =
     (let (latest, g) = collect_batch batch [] []
      in (foldl (\<lambda>s its. process_checkin_group sch gs its s) (fst st) (map snd g),
          foldl (\<lambda>c (p, ts). try_monitor_clock_tick kafka ts p c) (snd st) latest))"

definition process_single ::
  "bool \<Rightarrow> scheduler \<Rightarrow> (checkin_item \<Rightarrow> gates) \<Rightarrow> broker_value \<Rightarrow> crons \<times> clock \<Rightarrow> crons \<times> clock" where
  "process_single kafka sch gs b st =
     (case bv_payload b of
        Undecodable \<Rightarrow> st
      | ClockPulse \<Rightarrow> (fst st, try_monitor_clock_tick kafka (bv_timestamp b) (bv_partition b) (snd st))
      | CheckIn it \<Rightarrow>
          (snd (process_checkin sch (gs it) it (fst st)),
           try_monitor_clock_tick kafka (bv_timestamp b) (bv_partition b) (snd st)))"

fun batch_checkins :: "broker_value list \<Rightarrow> checkin_item list" where
  "batch_checkins [] = []"
| "batch_checkins (b # bs) =
     (case bv_payload b of CheckIn it \<Rightarrow> it # batch_checkins bs | _ \<Rightarrow> batch_checkins bs)"

lemma collect_batch_group:
  "dict_get (snd (collect_batch bs latest g)) k =
     (let its = filter (\<lambda>it. processing_key it = k) (batch_checkins bs)
      in case dict_get g k of
           None \<Rightarrow> if its = [] then None else Some its
         | Some old \<Rightarrow> Some (old @ its))"
proof (induction bs latest g rule: collect_batch.induct)
  case (2 b bs latest g)
  show ?case
  proof (cases "bv_payload b")
    case (CheckIn it)
    with 2 show ?thesis
      by (auto simp: Let_def add_to_group_def split: option.splits)
  qed (use 2 in \<open>simp_all add: Let_def\<close>)
qed (simp split: option.splits)

text \<open>
  Grouping keeps every check-in and its order: the group of a key holds exactly the
  check-ins of the batch with that key, as they arrived.
\<close>

theorem batch_groups_in_order:
  "dict_get (snd (collect_batch batch [] [])) k =
     (let its = filter (\<lambda>it. processing_key it = k) (batch_checkins batch)
      in if its = [] then None else Some its)"
  by (simp add: collect_batch_group)

text \<open>
  The key of the groups is finer than the monitor environment: a check-in without an
  environment and one for ''production'' have different keys, so they may be processed in
  parallel, although both belong to the same environment row.
\<close>

theorem default_environment_two_groups:
  "ensure_environment m None s = ensure_environment m (Some ''production'') s \<and>
   processing_key (it\<lparr>it_environment := None\<rparr>) \<noteq>
     processing_key (it\<lparr>it_environment := Some ''production''\<rparr>)"
  by (simp add: ensure_environment_def processing_key_def)

section \<open>The check-in quota of a project\<close>

definition QUOTA_WINDOW :: nat where "QUOTA_WINDOW = 60"
definition ALLOWED_CHECK_INS_PER_MONITOR :: nat where "ALLOWED_CHECK_INS_PER_MONITOR = 6"
definition ALLOWED_MINIMUM :: nat where "ALLOWED_MINIMUM = 50"

definition project_env_count :: "crons \<Rightarrow> nat \<Rightarrow> nat" where
  "project_env_count s p =
     length (filter (\<lambda>e. case find_monitor s (me_monitor e) of
                           None \<Rightarrow> False | Some m \<Rightarrow> mo_project m = p) (envs s))"

text \<open>The cache entry of a project is set for 600 seconds; \<open>None\<close> is a miss or a busted cache.\<close>

definition get_project_monitor_quota ::
  "crons \<Rightarrow> nat \<Rightarrow> bool \<Rightarrow> (nat, nat) dict \<Rightarrow> (nat \<times> nat) \<times> (nat, nat) dict" where
  "get_project_monitor_quota s p bust cache =
     (case (if bust then None else dict_get cache p) of
        Some n \<Rightarrow> ((ALLOWED_MINIMUM + n, QUOTA_WINDOW), cache)
      | None \<Rightarrow>
          let n = project_env_count s p * ALLOWED_CHECK_INS_PER_MONITOR
          in ((ALLOWED_MINIMUM + n, QUOTA_WINDOW), dict_set p n cache))"

definition update_monitor_quota :: "crons \<Rightarrow> nat \<Rightarrow> (nat, nat) dict \<Rightarrow> (nat, nat) dict" where
  "update_monitor_quota s p cache = snd (get_project_monitor_quota s p True cache)"

lemma quota_after_update:
  "fst (get_project_monitor_quota s' p False (update_monitor_quota s p cache)) =
     (ALLOWED_MINIMUM + 6 * project_env_count s p, QUOTA_WINDOW)"
  by (simp add: update_monitor_quota_def get_project_monitor_quota_def ALLOWED_CHECK_INS_PER_MONITOR_def Let_def)

end
