(* ===== verification/MonitorErrors.thy ===== *)
theory MonitorErrors
  imports Monitors
begin

text \<open>
  The store of processing errors of check-ins, \<open>src/src/sentry/monitors/processing_errors/manager.py\<close>.
  In Redis every monitor or project has a sorted set of error identifiers, scored by the time
  of the check-in, and every error a row of its own. The expiry of keys is left out (a row may
  be missing at any time: readers skip it). Identifiers of errors are the fresh UUIDs, given as
  arguments.
\<close>

section \<open>State\<close>

datatype entity = MonitorEntity nat | ProjectEntity nat

record error_row =
  er_id :: nat
  er_project :: nat
  er_slug :: string
  er_ts :: int
  er_errors :: "processing_error list"

record error_store =
  error_sets :: "(entity, (int \<times> nat) list) dict"
  error_rows :: "(nat, error_row) dict"

definition MAX_ERRORS_PER_SET :: nat where "MAX_ERRORS_PER_SET = 10"

text \<open>Redis sorted sets: members in order of score, then of member; adding replaces the score.\<close>

definition zset :: "entity \<Rightarrow> error_store \<Rightarrow> (int \<times> nat) list" where
  "zset e st = (case dict_get (error_sets st) e of None \<Rightarrow> [] | Some z \<Rightarrow> z)"

definition zrem :: "nat list \<Rightarrow> (int \<times> nat) list \<Rightarrow> (int \<times> nat) list" where
  "zrem ms z = filter (\<lambda>p. snd p \<notin> set ms) z"

definition pair_le :: "int \<times> nat \<Rightarrow> int \<times> nat \<Rightarrow> bool" where
  "pair_le p q = (fst p < fst q \<or> fst p = fst q \<and> snd p \<le> snd q)"

fun zinsert :: "int \<times> nat \<Rightarrow> (int \<times> nat) list \<Rightarrow> (int \<times> nat) list" where
  "zinsert p [] = [p]"
| "zinsert p (q # z) = (if pair_le p q then p # q # z else q # zinsert p z)"

definition zadd :: "nat \<Rightarrow> int \<Rightarrow> (int \<times> nat) list \<Rightarrow> (int \<times> nat) list" where
  "zadd m score z = zinsert (score, m) (zrem [m] z)"

definition set_zset :: "entity \<Rightarrow> (int \<times> nat) list \<Rightarrow> error_store \<Rightarrow> error_store" where
  "set_zset e z st = st\<lparr>error_sets := dict_set e z (error_sets st)\<rparr>"

definition del_rows :: "nat list \<Rightarrow> error_store \<Rightarrow> error_store" where
  "del_rows ks st = st\<lparr>error_rows := foldl (\<lambda>d k. dict_del k d) (error_rows st) ks\<rparr>"

section \<open>Operations\<close>

text \<open>The entity of an error: the monitor given, or found by project and slug, or the project.\<close>

definition entity_of_error :: "(nat \<Rightarrow> string \<Rightarrow> nat option) \<Rightarrow> error_row \<Rightarrow> nat option \<Rightarrow> entity" where
  "entity_of_error lookup r mon =
     (case (case mon of None \<Rightarrow> lookup (er_project r) (er_slug r) | Some m \<Rightarrow> Some m) of
        Some m \<Rightarrow> MonitorEntity m
      | None \<Rightarrow> ProjectEntity (er_project r))"

definition get_for_entities :: "entity list \<Rightarrow> error_store \<Rightarrow> error_row list" where
  "get_for_entities es st =
     (let ids = concat (map (\<lambda>e. take (MAX_ERRORS_PER_SET + 1) (rev (map snd (zset e st)))) es);
          rows = concat (map (\<lambda>i. case dict_get (error_rows st) i of None \<Rightarrow> [] | Some r \<Rightarrow> [r]) ids)
      in sort_key (\<lambda>r. - er_ts r) rows)"

definition delete_for_entity :: "entity \<Rightarrow> nat \<Rightarrow> error_store \<Rightarrow> error_store" where
  "delete_for_entity e k st = del_rows [k] (set_zset e (zrem [k] (zset e st)) st)"

text \<open>
  A row with only this error goes; in a row with several, this type is filtered out. The
  rewritten error is a new object, so it carries a fresh identifier, but it is stored under the
  key of the old one.
\<close>

definition delete_type_from_row ::
  "processing_error \<Rightarrow> entity \<Rightarrow> error_row \<Rightarrow> nat \<Rightarrow> error_store \<Rightarrow> error_store" where
  "delete_type_from_row t e r fresh st =
     (if t \<notin> set (er_errors r) then st
      else if length (er_errors r) = 1 then delete_for_entity e (er_id r) st
      else st\<lparr>error_rows := dict_set (er_id r)
              (r\<lparr>er_id := fresh, er_errors := filter (\<lambda>x. x \<noteq> t) (er_errors r)\<rparr>) (error_rows st)\<rparr>)"

fun delete_types :: "processing_error \<Rightarrow> entity \<Rightarrow> error_row list \<Rightarrow> nat list \<Rightarrow> error_store \<Rightarrow> error_store" where
  "delete_types t e (r # rs) (f # fs) st = delete_types t e rs fs (delete_type_from_row t e r f st)"
| "delete_types t e _ _ st = st"

definition delete_for_entity_by_type ::
  "entity \<Rightarrow> processing_error \<Rightarrow> nat list \<Rightarrow> error_store \<Rightarrow> error_store" where
  "delete_for_entity_by_type e t fresh st = delete_types t e (get_for_entities [e] st) fresh st"

definition store_error ::
  "(nat \<Rightarrow> string \<Rightarrow> nat option) \<Rightarrow> error_row \<Rightarrow> nat option \<Rightarrow> error_store \<Rightarrow> error_store" where
  "store_error lookup r mon st =
     (let e = entity_of_error lookup r mon;
          z = zadd (er_id r) (er_ts r) (zset e st);
          st1 = (set_zset e z st)\<lparr>error_rows := dict_set (er_id r) r (error_rows st)\<rparr>;
          old = map snd (take (length z - MAX_ERRORS_PER_SET) z)
      in if old = [] then st1 else set_zset e (zrem old z) (del_rows old st1))"

definition delete_error ::
  "(nat \<Rightarrow> string \<Rightarrow> nat option) \<Rightarrow> nat \<Rightarrow> nat \<Rightarrow> error_store \<Rightarrow> error_store result" where
  "delete_error lookup project k st =
     (case dict_get (error_rows st) k of
        None \<Rightarrow> Inr st
      | Some r \<Rightarrow>
          if er_project r \<noteq> project then Inl (OtherError ''InvalidProjectError'')
          else Inr (delete_for_entity (entity_of_error lookup r None) k st))"

datatype error_event =
    Store "nat \<Rightarrow> string \<Rightarrow> nat option" error_row "nat option"
  | Delete "nat \<Rightarrow> string \<Rightarrow> nat option" nat nat
  | DeleteByType entity processing_error "nat list"

fun error_step :: "error_store \<Rightarrow> error_event \<Rightarrow> error_store" where
  "error_step st (Store lookup r mon) = store_error lookup r mon st"
| "error_step st (Delete lookup project k) =
     (case delete_error lookup project k st of Inl _ \<Rightarrow> st | Inr st' \<Rightarrow> st')"
| "error_step st (DeleteByType e t fresh) = delete_for_entity_by_type e t fresh st"

section \<open>The sets stay sorted, without duplicates and small\<close>

definition zset_ok :: "(int \<times> nat) list \<Rightarrow> bool" where
  "zset_ok z = (sorted_wrt pair_le z \<and> distinct (map snd z) \<and> length z \<le> MAX_ERRORS_PER_SET)"

definition store_ok :: "error_store \<Rightarrow> bool" where
  "store_ok st = (\<forall>e. zset_ok (zset e st))"

lemma pair_le_trans: "pair_le p q \<Longrightarrow> pair_le q r \<Longrightarrow> pair_le p r"
  by (auto simp: pair_le_def)

lemma pair_le_total: "\<not> pair_le p q \<Longrightarrow> pair_le q p"
  by (auto simp: pair_le_def)

lemma zinsert_set [simp]: "set (zinsert p z) = insert p (set z)"
  by (induction z) auto

lemma zinsert_length [simp]: "length (zinsert p z) = Suc (length z)"
  by (induction z) auto

lemma zinsert_distinct: "snd p \<notin> snd ` set z \<Longrightarrow> distinct (map snd z) \<Longrightarrow> distinct (map snd (zinsert p z))"
  by (induction z) auto

lemma zinsert_sorted: "sorted_wrt pair_le z \<Longrightarrow> sorted_wrt pair_le (zinsert p z)"
  by (induction z) (auto intro: pair_le_trans pair_le_total)

lemma zrem_sorted: "sorted_wrt pair_le z \<Longrightarrow> sorted_wrt pair_le (zrem ms z)"
  by (simp add: zrem_def sorted_wrt_filter)

lemma zrem_distinct: "distinct (map snd z) \<Longrightarrow> distinct (map snd (zrem ms z))"
  by (simp add: zrem_def distinct_map_filter)

lemma zrem_length: "length (zrem ms z) \<le> length z"
  by (simp add: zrem_def)

lemma zrem_ok: "zset_ok z \<Longrightarrow> zset_ok (zrem ms z)"
  using zrem_length [of ms z] by (auto simp: zset_ok_def zrem_sorted zrem_distinct)

lemma zadd_facts:
  assumes "zset_ok z"
  shows "sorted_wrt pair_le (zadd m t z)" "distinct (map snd (zadd m t z))"
    "length (zadd m t z) \<le> Suc MAX_ERRORS_PER_SET"
proof -
  have "snd (t, m) \<notin> snd ` set (zrem [m] z)" by (auto simp: zrem_def)
  then show "distinct (map snd (zadd m t z))"
    using assms unfolding zadd_def zset_ok_def by (intro zinsert_distinct zrem_distinct) auto
  show "sorted_wrt pair_le (zadd m t z)" "length (zadd m t z) \<le> Suc MAX_ERRORS_PER_SET"
    using assms zrem_length [of "[m]" z]
    by (auto simp: zadd_def zset_ok_def zinsert_sorted zrem_sorted)
qed

lemma zrem_prefix:
  "distinct (map snd z) \<Longrightarrow> zrem (map snd (take n z)) z = drop n z"
proof -
  assume d: "distinct (map snd z)"
  then have "distinct (map snd (take n z @ drop n z))" by simp
  then have dj: "snd ` set (take n z) \<inter> snd ` set (drop n z) = {}"
    by (simp only: map_append distinct_append set_map)
  have "filter (\<lambda>p. snd p \<notin> snd ` set (take n z)) (take n z @ drop n z) = drop n z"
    using dj by (force simp: filter_empty_conv filter_id_conv simp del: append_take_drop_id)
  then show ?thesis by (simp add: zrem_def)
qed

lemma zset_set [simp]:
  "zset e (set_zset e' z st) = (if e' = e then z else zset e st)"
  by (simp add: zset_def set_zset_def)

lemma zset_rows [simp]: "zset e (st\<lparr>error_rows := d\<rparr>) = zset e st" "zset e (del_rows ks st) = zset e st"
  by (simp_all add: zset_def del_rows_def)

text \<open>What \<open>store_error\<close> leaves in the set: the ten newest of the old members and the new one.\<close>

lemma store_error_zset:
  assumes "store_ok st" and e: "e = entity_of_error lookup r mon"
  shows "zset e (store_error lookup r mon st) =
    last_n MAX_ERRORS_PER_SET (zadd (er_id r) (er_ts r) (zset e st))"
proof -
  have "distinct (map snd (zadd (er_id r) (er_ts r) (zset e st)))"
    using assms(1) by (auto simp: store_ok_def zadd_facts)
  from zrem_prefix [OF this] show ?thesis
    by (simp add: store_error_def Let_def e [symmetric] last_n_def)
qed

lemma store_error_other:
  "e \<noteq> entity_of_error lookup r mon \<Longrightarrow> zset e (store_error lookup r mon st) = zset e st"
  by (simp add: store_error_def Let_def)

lemma zset_ok_last_n:
  assumes "sorted_wrt pair_le z" "distinct (map snd z)"
  shows "zset_ok (last_n MAX_ERRORS_PER_SET z)"
proof -
  have "distinct (drop n (map snd z))" for n using assms(2) by (rule distinct_drop)
  with assms(1) show ?thesis
    by (simp add: zset_ok_def last_n_def sorted_wrt_drop drop_map)
qed

lemma store_error_ok: "store_ok st \<Longrightarrow> store_ok (store_error lookup r mon st)"
  unfolding store_ok_def
proof
  fix e assume ok: "\<forall>e. zset_ok (zset e st)"
  show "zset_ok (zset e (store_error lookup r mon st))"
  proof (cases "e = entity_of_error lookup r mon")
    case True
    with ok show ?thesis
      by (simp add: store_error_zset store_ok_def zset_ok_last_n zadd_facts)
  next
    case False
    with ok show ?thesis by (simp add: store_error_other)
  qed
qed

lemma delete_for_entity_ok: "store_ok st \<Longrightarrow> store_ok (delete_for_entity e k st)"
  by (simp add: store_ok_def delete_for_entity_def zrem_ok)

lemma delete_types_ok: "store_ok st \<Longrightarrow> store_ok (delete_types t e rs fs st)"
proof (induction t e rs fs st rule: delete_types.induct)
  case (1 t e r rs f fs st)
  have "store_ok (delete_type_from_row t e r f st)"
    using 1(2) delete_for_entity_ok by (simp add: delete_type_from_row_def) (simp add: store_ok_def)
  with 1 show ?case by simp
qed simp_all

interpretation error_run: step_machine error_step store_ok
proof
  show "store_ok (error_step st ev)" if "store_ok st" for st ev
    using that
    by (cases ev) (auto simp: store_error_ok delete_error_def delete_for_entity_ok
        delete_for_entity_by_type_def delete_types_ok split: option.splits sum.splits)
qed

text \<open>
  After any sequence of stores and deletions the set of every monitor and project is sorted
  by time, has no error twice and holds at most ten.
\<close>

theorem error_sets_capped:
  "zset_ok (zset e (foldl error_step \<lparr>error_sets = [], error_rows = []\<rparr> evs))"
proof -
  have "store_ok \<lparr>error_sets = [], error_rows = []\<rparr>"
    by (simp add: store_ok_def zset_def zset_ok_def)
  from error_run.run_inv [OF this, of evs] show ?thesis by (simp add: store_ok_def)
qed

text \<open>
  Removing one type of error from a row that has others makes the row undeletable: what the
  reader is given afterwards carries a fresh identifier, and deleting by that identifier finds
  no row and leaves the store as it is.
\<close>

theorem rewritten_error_not_deletable:
  assumes row: "dict_get (error_rows st) (er_id r) = Some r"
    and several: "t \<in> set (er_errors r)" "length (er_errors r) \<noteq> 1"
    and fresh: "dict_get (error_rows st) f = None"
    and st': "st' = delete_type_from_row t e r f st"
  shows "dict_get (error_rows st') (er_id r) =
      Some (r\<lparr>er_id := f, er_errors := filter (\<lambda>x. x \<noteq> t) (er_errors r)\<rparr>)
    \<and> delete_error lookup p f st' = Inr st'"
proof -
  have "er_id r \<noteq> f" using row fresh by auto
  with assms show ?thesis by (simp add: delete_type_from_row_def delete_error_def)
qed

theorem rewritten_error_not_deletable_witness:
  "let r = \<lparr>er_id = 1, er_project = 5, er_slug = ''a'', er_ts = 0,
            er_errors = [MONITOR_NOT_FOUND, MONITOR_INVALID_CONFIG]\<rparr>;
       st = \<lparr>error_sets = [(ProjectEntity 5, [(0, 1)])], error_rows = [(1, r)]\<rparr>;
       st' = delete_type_from_row MONITOR_NOT_FOUND (ProjectEntity 5) r 2 st
   in delete_error (\<lambda>_ _. None) 5 2 st' = Inr st'"
proof -
  let ?r = "\<lparr>er_id = 1, er_project = 5, er_slug = ''a'', er_ts = 0,
    er_errors = [MONITOR_NOT_FOUND, MONITOR_INVALID_CONFIG]\<rparr>"
  let ?st = "\<lparr>error_sets = [(ProjectEntity 5, [(0, 1)])], error_rows = [(1, ?r)]\<rparr>"
  have "delete_error (\<lambda>_ _. None) 5 2 (delete_type_from_row MONITOR_NOT_FOUND (ProjectEntity 5) ?r 2 ?st)
    = Inr (delete_type_from_row MONITOR_NOT_FOUND (ProjectEntity 5) ?r 2 ?st)"
    by (rule rewritten_error_not_deletable [where t = MONITOR_NOT_FOUND and r = ?r and st = ?st
          and e = "ProjectEntity 5", THEN conjunct2]) (simp_all add: dict_get_def)
  then show ?thesis by (simp only: Let_def)
qed

end
