(* ===== verification/Indexer.thy ===== *)
theory Indexer
  imports Prelude
begin

text \<open>
  The collections and results of the metrics string indexer,
  \<open>src/src/sentry/sentry_metrics/indexer/base.py\<close>: a key is a use case, an organization and a
  string; collections map use cases to organizations to sets of strings; results map keys to
  identifiers and carry how each one was found. A set of strings is a list without duplicates.
  Updating a dictionary with another one is \<open>AList.merge\<close>: it agrees with Python on every
  lookup, which is all the code uses. The empty entries that reading a \<open>defaultdict\<close> leaves
  behind are not kept.
\<close>

section \<open>Keys and collections\<close>

datatype use_case_id = SPANS | TRANSACTIONS | SESSIONS | ESCALATING_ISSUES | CUSTOM | PROFILES | METRIC_STATS

datatype use_case_key = RELEASE_HEALTH | PERFORMANCE

fun use_case_value :: "use_case_id \<Rightarrow> string" where
  "use_case_value SPANS = ''spans''"
| "use_case_value TRANSACTIONS = ''transactions''"
| "use_case_value SESSIONS = ''sessions''"
| "use_case_value ESCALATING_ISSUES = ''escalating_issues''"
| "use_case_value CUSTOM = ''custom''"
| "use_case_value PROFILES = ''profiles''"
| "use_case_value METRIC_STATS = ''metric_stats''"

fun metric_path :: "use_case_id \<Rightarrow> use_case_key" where
  "metric_path SESSIONS = RELEASE_HEALTH"
| "metric_path _ = PERFORMANCE"

fun reverse_metric_path :: "use_case_key \<Rightarrow> use_case_id" where
  "reverse_metric_path RELEASE_HEALTH = SESSIONS"
| "reverse_metric_path PERFORMANCE = TRANSACTIONS"

datatype use_case = UseCase use_case_id | UseCaseKey use_case_key

fun to_use_case_id :: "use_case \<Rightarrow> use_case_id" where
  "to_use_case_id (UseCase u) = u"
| "to_use_case_id (UseCaseKey k) = reverse_metric_path k"

type_synonym key = "use_case_id \<times> nat \<times> string"
type_synonym key_collection = "(nat, string list) dict"
type_synonym use_case_keys = "(use_case_id, key_collection) dict"

definition kc_size :: "key_collection \<Rightarrow> nat" where
  "kc_size kc = sum_list (map (\<lambda>(_, ss). length ss) kc)"

definition kc_as_tuples :: "key_collection \<Rightarrow> (nat \<times> string) list" where
  "kc_as_tuples kc = concat (map (\<lambda>(org, ss). map (Pair org) ss) kc)"

definition kc_as_strings :: "key_collection \<Rightarrow> string list" where
  "kc_as_strings kc = map (\<lambda>(org, s). int_str (int org) @ '':'' @ s) (kc_as_tuples kc)"

definition uk_size :: "use_case_keys \<Rightarrow> nat" where
  "uk_size ks = sum_list (map (\<lambda>(_, kc). kc_size kc) ks)"

definition uk_as_tuples :: "use_case_keys \<Rightarrow> key list" where
  "uk_as_tuples ks = concat (map (\<lambda>(u, kc). map (Pair u) (kc_as_tuples kc)) ks)"

definition key_string :: "key \<Rightarrow> string" where
  "key_string k = (case k of (u, org, s) \<Rightarrow> use_case_value u @ '':'' @ int_str (int org) @ '':'' @ s)"

definition uk_as_strings :: "use_case_keys \<Rightarrow> string list" where
  "uk_as_strings ks = concat (map (\<lambda>(u, kc). map (\<lambda>s. use_case_value u @ '':'' @ s) (kc_as_strings kc)) ks)"

fun split_once :: "char \<Rightarrow> string \<Rightarrow> (string \<times> string) option" where
  "split_once c [] = None"
| "split_once c (d # s) =
     (if c = d then Some ([], s) else map_option (\<lambda>(a, b). (d # a, b)) (split_once c s))"

definition use_case_of_value :: "string \<Rightarrow> use_case_id result" where
  "use_case_of_value v =
     (case find (\<lambda>u. use_case_value u = v)
             [SPANS, TRANSACTIONS, SESSIONS, ESCALATING_ISSUES, CUSTOM, PROFILES, METRIC_STATS] of
        None \<Rightarrow> Inl ValueError
      | Some u \<Rightarrow> Inr u)"

text \<open>\<open>UseCaseKeyResult.from_string\<close>: \<open>key.split(":", 2)\<close>, then the two conversions.\<close>

definition key_from_string :: "string \<Rightarrow> key result" where
  "key_from_string k =
     (case split_once (CHR '':'') k of
        None \<Rightarrow> Inl ValueError
      | Some (u, rest) \<Rightarrow>
         (case split_once (CHR '':'') rest of
            None \<Rightarrow> Inl ValueError
          | Some (org, s) \<Rightarrow>
              bind_result (use_case_of_value u)
                (\<lambda>u'. bind_result (int_of_string org) (\<lambda>i. Inr (u', nat i, s)))))"

section \<open>Results\<close>

datatype fetch_type = CACHE_HIT | HARDCODED | DB_READ | FIRST_SEEN | RATE_LIMITED

record metadata =
  md_id :: "nat option"
  md_fetch_type :: fetch_type
  md_global :: "bool option"

record key_results =
  kr_results :: "(nat, (string, nat option) dict) dict"
  kr_meta :: "(nat, (string, metadata) dict) dict"

type_synonym use_case_results = "(use_case_id, key_results) dict"

definition empty_results :: key_results where
  "empty_results = \<lparr>kr_results = [], kr_meta = []\<rparr>"

definition default_get :: "('k, 'v) dict \<Rightarrow> 'k \<Rightarrow> 'v \<Rightarrow> 'v" where
  "default_get d k z = (case dict_get d k of None \<Rightarrow> z | Some v \<Rightarrow> v)"

definition dict_update :: "('k, 'v) dict \<Rightarrow> ('k, 'v) dict \<Rightarrow> ('k, 'v) dict" where
  "dict_update d e = AList.merge d e"

definition add_key_result ::
  "fetch_type option \<Rightarrow> bool option \<Rightarrow> nat \<Rightarrow> string \<Rightarrow> nat option \<Rightarrow> key_results \<Rightarrow> key_results" where
  "add_key_result ft ext org s i r =
     (let r1 = r\<lparr>kr_results := dict_set org (dict_set s i (default_get (kr_results r) org [])) (kr_results r)\<rparr>
      in case ft of
           None \<Rightarrow> r1
         | Some f \<Rightarrow> r1\<lparr>kr_meta := dict_set org
               (dict_set s \<lparr>md_id = i, md_fetch_type = f, md_global = ext\<rparr> (default_get (kr_meta r) org []))
               (kr_meta r)\<rparr>)"

text \<open>The id recorded for a key: absent, present without an id, or present with one.\<close>

definition kr_lookup :: "key_results \<Rightarrow> nat \<Rightarrow> string \<Rightarrow> nat option option" where
  "kr_lookup r org s = dict_get (default_get (kr_results r) org []) s"

definition meta_lookup :: "key_results \<Rightarrow> nat \<Rightarrow> string \<Rightarrow> metadata option" where
  "meta_lookup r org s = dict_get (default_get (kr_meta r) org []) s"

definition get_unmapped_keys :: "key_results \<Rightarrow> key_collection \<Rightarrow> key_collection" where
  \<comment> \<open>\<open>not results.get(string)\<close>: no entry, \<open>None\<close> or the id 0\<close>
  "get_unmapped_keys r kc =
     filter (\<lambda>(_, ss). ss \<noteq> [])
       (map (\<lambda>(org, ss). (org, filter (\<lambda>s. kr_lookup r org s \<in> {None, Some None, Some (Some 0)}) ss)) kc)"

definition get_mapped_key_strings_to_ints :: "key_results \<Rightarrow> (string, nat) dict" where
  "get_mapped_key_strings_to_ints r =
     concat (map (\<lambda>(org, d). concat (map (\<lambda>(s, i).
       (case i of None \<Rightarrow> [] | Some n \<Rightarrow> [(int_str (int org) @ '':'' @ s, n)])) d)) (kr_results r))"

definition update_all ::
  "(nat, ('k, 'v) dict) dict \<Rightarrow> (nat, ('k, 'v) dict) dict \<Rightarrow> (nat, ('k, 'v) dict) dict" where
  \<comment> \<open>a new \<open>defaultdict(dict)\<close> whose entries are updated from the first and then the second\<close>
  "update_all a b =
     map (\<lambda>org. (org, dict_update (default_get a org []) (default_get b org [])))
       (remdups (map fst a @ map fst b))"

definition kr_merge :: "key_results \<Rightarrow> key_results \<Rightarrow> key_results" where
  \<comment> \<open>for the results this object wins over the other, for the metadata the other wins\<close>
  "kr_merge a b =
     \<lparr>kr_results = update_all (kr_results b) (kr_results a), kr_meta = update_all (kr_meta a) (kr_meta b)\<rparr>"

definition add_use_case_key_result ::
  "fetch_type option \<Rightarrow> bool option \<Rightarrow> key \<times> nat option \<Rightarrow> use_case_results \<Rightarrow> use_case_results" where
  "add_use_case_key_result ft ext ki r =
     (case ki of ((u, org, s), i) \<Rightarrow>
        dict_set u (add_key_result ft ext org s i (default_get r u empty_results)) r)"

definition add_use_case_key_results ::
  "fetch_type option \<Rightarrow> bool option \<Rightarrow> (key \<times> nat option) list \<Rightarrow> use_case_results \<Rightarrow> use_case_results" where
  \<comment> \<open>\<open>groupby\<close> only gathers neighbours of one use case before they are added one by one\<close>
  "add_use_case_key_results ft ext kis r = foldl (\<lambda>r' ki. add_use_case_key_result ft ext ki r') r kis"

definition ur_lookup :: "use_case_results \<Rightarrow> key \<Rightarrow> nat option option" where
  "ur_lookup r k = (case k of (u, org, s) \<Rightarrow> kr_lookup (default_get r u empty_results) org s)"

definition ur_id :: "use_case_results \<Rightarrow> key \<Rightarrow> nat option" where
  "ur_id r k = (case ur_lookup r k of None \<Rightarrow> None | Some i \<Rightarrow> i)"

definition get_unmapped_use_case_keys :: "use_case_results \<Rightarrow> use_case_keys \<Rightarrow> use_case_keys" where
  "get_unmapped_use_case_keys r ks =
     filter (\<lambda>(_, kc). kc_size kc > 0)
       (map (\<lambda>(u, kc). (u, get_unmapped_keys (default_get r u empty_results) kc)) ks)"

definition get_mapped_strings_to_ints :: "use_case_results \<Rightarrow> (string, nat) dict" where
  "get_mapped_strings_to_ints r =
     concat (map (\<lambda>(u, kr). map (\<lambda>(s, i). (use_case_value u @ '':'' @ s, i))
       (get_mapped_key_strings_to_ints kr)) r)"

definition ur_merge :: "use_case_results \<Rightarrow> use_case_results \<Rightarrow> use_case_results" where
  "ur_merge a b =
     map (\<lambda>u. (u, case (dict_get a u, dict_get b u) of
                     (Some x, Some y) \<Rightarrow> kr_merge x y
                   | (Some x, None) \<Rightarrow> x
                   | (None, Some y) \<Rightarrow> y
                   | (None, None) \<Rightarrow> empty_results))
       (remdups (map fst a @ map fst b))"

section \<open>Lookups through the operations\<close>

lemma default_get_set [simp]: "default_get (dict_set k v d) k' z = (if k = k' then v else default_get d k' z)"
  by (simp add: default_get_def)

lemma dict_get_update [simp]:
  "dict_get (dict_update d e) k = (case dict_get e k of None \<Rightarrow> dict_get d k | Some v \<Rightarrow> Some v)"
  unfolding dict_update_def dict_get_def merge_conv map_add_def ..

lemma kr_lookup_add [simp]:
  "kr_lookup (add_key_result ft ext org s i r) org' s' =
     (if org = org' \<and> s = s' then Some i else kr_lookup r org' s')"
  by (simp add: kr_lookup_def add_key_result_def Let_def split: option.splits)

lemma kr_lookup_empty [simp]: "kr_lookup empty_results org s = None"
  by (simp add: kr_lookup_def empty_results_def default_get_def)

lemma ur_lookup_Nil [simp]: "ur_lookup [] k = None"
  by (cases k) (simp add: ur_lookup_def default_get_def)

lemma ur_lookup_add [simp]:
  "ur_lookup (add_use_case_key_result ft ext (k, i) r) k' = (if k = k' then Some i else ur_lookup r k')"
  by (cases k; cases k') (auto simp: ur_lookup_def add_use_case_key_result_def)

lemma ur_lookup_adds:
  "ur_lookup (add_use_case_key_results ft ext kis r) k =
     (case map_of (rev kis) k of None \<Rightarrow> ur_lookup r k | Some i \<Rightarrow> Some i)"
  unfolding add_use_case_key_results_def
proof (induction kis arbitrary: r)
  case (Cons ki kis)
  then show ?case by (cases ki) (auto simp: map_add_def split: option.splits)
qed simp

lemma dict_get_tabulate: "dict_get (map (\<lambda>k. (k, f k)) ks) k = (if k \<in> set ks then Some (f k) else None)"
  by (induction ks) (auto simp: dict_get_def)

lemma dict_get_notin: "k \<notin> fst ` set d \<Longrightarrow> dict_get d k = None"
  by (simp add: dict_get_def map_of_eq_None_iff)

lemma update_all_get:
  "default_get (update_all a b) org [] = dict_update (default_get a org []) (default_get b org [])"
  by (auto simp: update_all_def default_get_def dict_get_tabulate dict_get_notin dict_update_def)

lemma kr_lookup_merge [simp]:
  "kr_lookup (kr_merge a b) org s =
     (case kr_lookup a org s of None \<Rightarrow> kr_lookup b org s | Some i \<Rightarrow> Some i)"
  by (simp add: kr_lookup_def kr_merge_def update_all_get split: option.splits)

lemma meta_lookup_merge:
  "meta_lookup (kr_merge a b) org s =
     (case meta_lookup b org s of None \<Rightarrow> meta_lookup a org s | Some m \<Rightarrow> Some m)"
  by (simp add: meta_lookup_def kr_merge_def update_all_get split: option.splits)

lemma ur_merge_get:
  "default_get (ur_merge a b) u empty_results =
     (case (dict_get a u, dict_get b u) of
        (Some x, Some y) \<Rightarrow> kr_merge x y
      | (Some x, None) \<Rightarrow> x
      | (None, Some y) \<Rightarrow> y
      | (None, None) \<Rightarrow> empty_results)"
  by (auto simp: ur_merge_def default_get_def dict_get_tabulate dict_get_notin split: option.splits)

lemma ur_lookup_merge [simp]:
  "ur_lookup (ur_merge a b) k = (case ur_lookup a k of None \<Rightarrow> ur_lookup b k | Some i \<Rightarrow> Some i)"
proof (cases k)
  case (fields u org s)
  show ?thesis
    unfolding fields ur_lookup_def prod.case ur_merge_get
    by (auto simp: default_get_def split: option.splits)
qed

lemma ur_lookup_selected:
  "ur_lookup (add_use_case_key_results ft ext
      (concat (map (\<lambda>k. case f k of None \<Rightarrow> [] | Some i \<Rightarrow> [(k, Some i)]) ks)) []) k =
   (if k \<in> set ks then map_option Some (f k) else None)"
proof -
  have "map_of (rev (concat (map (\<lambda>k. case f k of None \<Rightarrow> [] | Some i \<Rightarrow> [(k, Some i)]) ks))) k =
      (if k \<in> set ks then map_option Some (f k) else None)"
  proof (induction ks)
    case (Cons x xs)
    then show ?case by (cases "f x") (auto simp: map_add_def split: option.splits)
  qed simp
  then show ?thesis by (simp add: ur_lookup_adds split: option.splits)
qed

section \<open>Well-formed results\<close>

definition kr_wf :: "key_results \<Rightarrow> bool" where
  "kr_wf r = (dict_wf (kr_results r) \<and> (\<forall>(org, d) \<in> set (kr_results r). dict_wf d))"

definition ur_wf :: "use_case_results \<Rightarrow> bool" where
  "ur_wf r = (dict_wf r \<and> (\<forall>(u, kr) \<in> set r. kr_wf kr))"

lemma kr_wf_empty [simp]: "kr_wf empty_results"
  by (simp add: kr_wf_def empty_results_def)

lemma default_get_cases: "default_get d k z = z \<or> (k, default_get d k z) \<in> set d"
  by (auto simp: default_get_def dest: dict_get_in split: option.splits)

lemma kr_wf_add [simp]:
  assumes "kr_wf r" shows "kr_wf (add_key_result ft ext org s i r)"
proof -
  have "dict_wf (default_get (kr_results r) org [])"
    using assms default_get_cases [of "kr_results r" org "[]"] by (auto simp: kr_wf_def)
  moreover have "kr_results (add_key_result ft ext org s i r) =
      dict_set org (dict_set s i (default_get (kr_results r) org [])) (kr_results r)"
    by (simp add: add_key_result_def Let_def split: option.splits)
  ultimately show ?thesis
    using assms dict_set_subset [of org "dict_set s i (default_get (kr_results r) org [])" "kr_results r"]
    by (auto simp: kr_wf_def)
qed

lemma ur_wf_add:
  assumes "ur_wf r" shows "ur_wf (add_use_case_key_result ft ext ki r)"
proof -
  obtain u org s i where ki: "ki = ((u, org, s), i)" by (cases ki) auto
  have "kr_wf (default_get r u empty_results)"
    using assms default_get_cases [of r u empty_results] by (auto simp: ur_wf_def)
  then show ?thesis
    using assms dict_set_subset [of u "add_key_result ft ext org s i (default_get r u empty_results)" r]
    by (auto simp: ur_wf_def ki add_use_case_key_result_def)
qed

lemma ur_wf_adds: "ur_wf r \<Longrightarrow> ur_wf (add_use_case_key_results ft ext kis r)"
  unfolding add_use_case_key_results_def
  by (induction kis arbitrary: r) (auto simp: ur_wf_add)

lemma ur_wf_Nil [simp]: "ur_wf []"
  by (simp add: ur_wf_def)

lemma dict_wf_tabulate: "dict_wf (map (\<lambda>k. (k, f k)) (remdups ks))"
  by (simp add: o_def)

lemma kr_wf_merge:
  assumes "kr_wf a" "kr_wf b" shows "kr_wf (kr_merge a b)"
proof -
  have d: "dict_wf (default_get (kr_results x) org [])" if "kr_wf x" for x org
    using that default_get_cases [of "kr_results x" org "[]"] by (auto simp: kr_wf_def)
  have "dict_wf (dict_update (default_get (kr_results b) org []) (default_get (kr_results a) org []))" for org
    using d [OF assms(2)] by (simp add: dict_update_def distinct_merge)
  then show ?thesis
    using dict_wf_tabulate [of _ "map fst (kr_results b) @ map fst (kr_results a)"]
    by (auto simp: kr_wf_def kr_merge_def update_all_def)
qed

lemma ur_wf_merge:
  assumes "ur_wf a" "ur_wf b" shows "ur_wf (ur_merge a b)"
proof -
  have wf: "kr_wf x" if "dict_get r u = Some x" "ur_wf r" for r u x
    using that dict_get_in by (fastforce simp: ur_wf_def)
  show ?thesis
    using dict_wf_tabulate [of _ "map fst a @ map fst b"] wf [OF _ assms(1)] wf [OF _ assms(2)]
    by (auto simp: ur_wf_def ur_merge_def kr_wf_merge split: option.splits)
qed

section \<open>Keys of a collection\<close>

definition uk_keys :: "use_case_keys \<Rightarrow> key set" where
  "uk_keys ks = set (uk_as_tuples ks)"

lemma uk_keys_iff:
  "(u, org, s) \<in> uk_keys ks \<longleftrightarrow> (\<exists>kc ss. (u, kc) \<in> set ks \<and> (org, ss) \<in> set kc \<and> s \<in> set ss)"
  by (force simp: uk_keys_def uk_as_tuples_def kc_as_tuples_def)

lemma kc_size_tuples: "kc_size kc = length (kc_as_tuples kc)"
  by (induction kc) (auto simp: kc_size_def kc_as_tuples_def)

lemma uk_size_tuples: "uk_size ks = length (uk_as_tuples ks)"
  by (induction ks) (auto simp: uk_size_def uk_as_tuples_def kc_size_tuples)

lemma uk_size_0: "uk_size ks = 0 \<longleftrightarrow> uk_keys ks = {}"
  by (simp add: uk_size_tuples uk_keys_def)

definition unmapped :: "use_case_results \<Rightarrow> key \<Rightarrow> bool" where
  "unmapped r k = (ur_id r k \<in> {None, Some 0})"

lemma in_unmapped_use_case_keys:
  "(u, kc') \<in> set (get_unmapped_use_case_keys r ks) \<longleftrightarrow>
     (\<exists>kc. (u, kc) \<in> set ks \<and> kc' = get_unmapped_keys (default_get r u empty_results) kc \<and> kc_size kc' > 0)"
  by (auto simp: get_unmapped_use_case_keys_def)

lemma in_unmapped_keys:
  "(org, ss') \<in> set (get_unmapped_keys r kc) \<longleftrightarrow>
     (\<exists>ss. (org, ss) \<in> set kc \<and> ss' \<noteq> [] \<and>
        ss' = filter (\<lambda>s. kr_lookup r org s \<in> {None, Some None, Some (Some 0)}) ss)"
  by (auto simp: get_unmapped_keys_def)

lemma unmapped_keys:
  "uk_keys (get_unmapped_use_case_keys r ks) = {k \<in> uk_keys ks. unmapped r k}"
proof (rule set_eqI)
  fix k :: key
  obtain u org s where k: "k = (u, org, s)" by (cases k) auto
  have un: "unmapped r (u, org, s) \<longleftrightarrow>
      kr_lookup (default_get r u empty_results) org s \<in> {None, Some None, Some (Some 0)}"
    by (auto simp: unmapped_def ur_id_def ur_lookup_def split: option.splits)
  have size: "kc_size kc > 0 \<longleftrightarrow> (\<exists>org ss s. (org, ss) \<in> set kc \<and> s \<in> set ss)" for kc
  proof -
    have "kc_size kc > 0 \<longleftrightarrow> (\<exists>t. t \<in> set (kc_as_tuples kc))"
      unfolding kc_size_tuples by (metis length_greater_0_conv list.set_intros(1) neq_Nil_conv empty_iff list.set(1))
    also have "\<dots> \<longleftrightarrow> (\<exists>org ss s. (org, ss) \<in> set kc \<and> s \<in> set ss)"
      by (force simp: kc_as_tuples_def)
    finally show ?thesis .
  qed
  show "k \<in> uk_keys (get_unmapped_use_case_keys r ks) \<longleftrightarrow> k \<in> {k \<in> uk_keys ks. unmapped r k}"
  proof
    assume "k \<in> uk_keys (get_unmapped_use_case_keys r ks)"
    then obtain kc' ss' where "(u, kc') \<in> set (get_unmapped_use_case_keys r ks)"
      "(org, ss') \<in> set kc'" "s \<in> set ss'"
      unfolding k uk_keys_iff by blast
    then obtain kc ss where "(u, kc) \<in> set ks" "(org, ss) \<in> set kc"
      "s \<in> set (filter (\<lambda>s. kr_lookup (default_get r u empty_results) org s
                  \<in> {None, Some None, Some (Some 0)}) ss)"
      unfolding in_unmapped_use_case_keys by (auto simp only: in_unmapped_keys)
    then show "k \<in> {k \<in> uk_keys ks. unmapped r k}"
      unfolding k mem_Collect_eq un uk_keys_iff by auto
  next
    assume "k \<in> {k \<in> uk_keys ks. unmapped r k}"
    then obtain kc ss where m: "(u, kc) \<in> set ks" "(org, ss) \<in> set kc" "s \<in> set ss"
      and s: "kr_lookup (default_get r u empty_results) org s \<in> {None, Some None, Some (Some 0)}"
      unfolding k mem_Collect_eq un uk_keys_iff by blast
    let ?ss = "filter (\<lambda>s. kr_lookup (default_get r u empty_results) org s
                  \<in> {None, Some None, Some (Some 0)}) ss"
    have in_ss: "s \<in> set ?ss" using m s by simp
    then have "?ss \<noteq> []" by (metis empty_iff list.set(1))
    then have in_kc: "(org, ?ss) \<in> set (get_unmapped_keys (default_get r u empty_results) kc)"
      unfolding in_unmapped_keys using m(2) by blast
    then have "kc_size (get_unmapped_keys (default_get r u empty_results) kc) > 0"
      unfolding size using in_ss by blast
    then have "(u, get_unmapped_keys (default_get r u empty_results) kc) \<in> set (get_unmapped_use_case_keys r ks)"
      unfolding in_unmapped_use_case_keys using m(1) by blast
    with in_kc in_ss show "k \<in> uk_keys (get_unmapped_use_case_keys r ks)"
      unfolding k uk_keys_iff by blast
  qed
qed

section \<open>Keys as strings\<close>

lemma split_once_append: "c \<notin> set a \<Longrightarrow> split_once c (a @ c # b) = Some (a, b)"
  by (induction a) auto

lemma use_case_value_no_colon: "CHR '':'' \<notin> set (use_case_value u)"
  by (cases u) auto

lemma use_case_of_value_self [simp]: "use_case_of_value (use_case_value u) = Inr u"
  by (cases u) (simp_all add: use_case_of_value_def)

lemma key_reads_back: "key_from_string (key_string k) = Inr k"
proof -
  obtain u org s where k: "k = (u, org, s)" by (cases k) auto
  have "key_string k = use_case_value u @ CHR '':'' # (int_str (int org) @ CHR '':'' # s)"
    by (simp add: key_string_def k)
  then show ?thesis
    by (simp add: key_from_string_def split_once_append use_case_value_no_colon int_str_no_colon k)
qed

lemma key_string_inj: "key_string k = key_string k' \<longleftrightarrow> k = k'"
proof
  assume "key_string k = key_string k'"
  then have "(Inr k :: key result) = Inr k'"
    by (metis key_reads_back)
  then show "k = k'" by simp
qed simp

text \<open>
  The string form of a key is read back exactly, whatever the string contains, colons
  included: the cache can be filled from results and read as results.
\<close>

theorem key_string_roundtrip: "key_from_string (key_string k) = Inr k"
  by (rule key_reads_back)

lemma uk_as_strings_tuples: "uk_as_strings ks = map key_string (uk_as_tuples ks)"
  by (induction ks) (auto simp: uk_as_strings_def uk_as_tuples_def kc_as_strings_def key_string_def)

text \<open>What a result writes to the cache are its own keys and identifiers.\<close>

lemma mapped_strings:
  assumes wf: "ur_wf r" and m: "(str, i) \<in> set (get_mapped_strings_to_ints r)"
  shows "\<exists>k. str = key_string k \<and> ur_lookup r k = Some (Some i)"
proof -
  from m obtain u kr t where u: "(u, kr) \<in> set r" "str = use_case_value u @ '':'' @ t"
    "(t, i) \<in> set (get_mapped_key_strings_to_ints kr)"
    by (auto simp: get_mapped_strings_to_ints_def)
  from u(3) obtain org d s where o: "(org, d) \<in> set (kr_results kr)" "(s, Some i) \<in> set d"
    "t = int_str (int org) @ '':'' @ s"
    by (auto simp: get_mapped_key_strings_to_ints_def split: option.splits)
  have "default_get r u empty_results = kr"
    using wf u(1) dict_get_wf [of r u kr] by (simp add: ur_wf_def default_get_def)
  moreover from wf u(1) have kr: "kr_wf kr" by (auto simp: ur_wf_def)
  then have "default_get (kr_results kr) org [] = d"
    using o(1) dict_get_wf [of "kr_results kr" org d] by (simp add: kr_wf_def default_get_def)
  moreover have "dict_get d s = Some (Some i)"
    using kr o by (intro dict_get_wf) (auto simp: kr_wf_def)
  ultimately have "ur_lookup r (u, org, s) = Some (Some i)"
    by (simp add: ur_lookup_def kr_lookup_def)
  moreover have "str = key_string (u, org, s)" using u o by (simp add: key_string_def)
  ultimately show ?thesis by blast
qed

end
