(* ===== verification/SharedStrings.thy ===== *)
theory SharedStrings
  imports Prelude
begin

text \<open>
  The strings with hard-coded identifiers, \<open>src/src/sentry/sentry_metrics/indexer/strings.py\<close>:
  the tables as they are in the source, in the upper half of the 64-bit integers.
\<close>

definition PREFIX :: nat where "PREFIX = 2 ^ 63"

definition SESSION_METRIC_NAMES :: "(string, nat) dict" where
  "SESSION_METRIC_NAMES = [
    (''c:sessions/session@none'', PREFIX + 1), (''s:sessions/error@none'', PREFIX + 2),
    (''s:sessions/user@none'', PREFIX + 3), (''d:sessions/duration@second'', PREFIX + 4)]"

definition TRANSACTION_METRICS_NAMES :: "(string, nat) dict" where
  "TRANSACTION_METRICS_NAMES = [
    (''s:transactions/user@none'', PREFIX + 100),
    (''d:transactions/duration@millisecond'', PREFIX + 101),
    (''d:transactions/measurements.fcp@millisecond'', PREFIX + 102),
    (''d:transactions/measurements.lcp@millisecond'', PREFIX + 103),
    (''d:transactions/measurements.app_start_cold@millisecond'', PREFIX + 104),
    (''d:transactions/measurements.app_start_warm@millisecond'', PREFIX + 105),
    (''d:transactions/measurements.cls@none'', PREFIX + 106),
    (''d:transactions/measurements.fid@millisecond'', PREFIX + 107),
    (''d:transactions/measurements.fp@millisecond'', PREFIX + 108),
    (''d:transactions/measurements.frames_frozen@none'', PREFIX + 109),
    (''d:transactions/measurements.frames_frozen_rate@ratio'', PREFIX + 110),
    (''d:transactions/measurements.frames_slow@none'', PREFIX + 111),
    (''d:transactions/measurements.frames_slow_rate@ratio'', PREFIX + 112),
    (''d:transactions/measurements.frames_total@none'', PREFIX + 113),
    (''d:transactions/measurements.stall_count@none'', PREFIX + 114),
    (''d:transactions/measurements.stall_longest_time@millisecond'', PREFIX + 115),
    (''d:transactions/measurements.stall_percentage@ratio'', PREFIX + 116),
    (''d:transactions/measurements.stall_total_time@millisecond'', PREFIX + 117),
    (''d:transactions/measurements.ttfb@millisecond'', PREFIX + 118),
    (''d:transactions/measurements.ttfb.requesttime@millisecond'', PREFIX + 119),
    (''d:transactions/breakdowns.span_ops.ops.http@millisecond'', PREFIX + 120),
    (''d:transactions/breakdowns.span_ops.ops.db@millisecond'', PREFIX + 121),
    (''d:transactions/breakdowns.span_ops.ops.browser@millisecond'', PREFIX + 122),
    (''d:transactions/breakdowns.span_ops.ops.resource@millisecond'', PREFIX + 123),
    (''d:transactions/breakdowns.span_ops.ops.ui@millisecond'', PREFIX + 124),
    (''c:transactions/count_per_root_project@none'', PREFIX + 125),
    (''d:transactions/measurements.time_to_initial_display@millisecond'', PREFIX + 126),
    (''d:transactions/measurements.time_to_full_display@millisecond'', PREFIX + 127),
    (''c:transactions/on_demand@none'', PREFIX + 128),
    (''d:transactions/on_demand@none'', PREFIX + 129),
    (''s:transactions/on_demand@none'', PREFIX + 130),
    (''g:transactions/on_demand@none'', PREFIX + 131),
    (''c:transactions/alert@none'', PREFIX + 132), (''d:transactions/alert@none'', PREFIX + 133),
    (''s:transactions/alert@none'', PREFIX + 134), (''g:transactions/alert@none'', PREFIX + 135),
    (''d:transactions/duration_light@millisecond'', PREFIX + 136),
    (''c:transactions/usage@none'', PREFIX + 137),
    (''d:transactions/measurements.score.cls@ratio'', PREFIX + 138),
    (''d:transactions/measurements.score.fcp@ratio'', PREFIX + 139),
    (''d:transactions/measurements.score.fid@ratio'', PREFIX + 140),
    (''d:transactions/measurements.score.lcp@ratio'', PREFIX + 141),
    (''d:transactions/measurements.score.ttfb@ratio'', PREFIX + 142),
    (''d:transactions/measurements.score.total@ratio'', PREFIX + 143),
    (''d:transactions/measurements.score.weight.cls@ratio'', PREFIX + 144),
    (''d:transactions/measurements.score.weight.fcp@ratio'', PREFIX + 145),
    (''d:transactions/measurements.score.weight.fid@ratio'', PREFIX + 146),
    (''d:transactions/measurements.score.weight.lcp@ratio'', PREFIX + 147),
    (''d:transactions/measurements.score.weight.ttfb@ratio'', PREFIX + 148)]"

definition SHARED_TAG_STRINGS :: "(string, nat) dict" where
  "SHARED_TAG_STRINGS = [
    (''abnormal'', PREFIX + 200), (''crashed'', PREFIX + 201), (''environment'', PREFIX + 202),
    (''errored'', PREFIX + 203), (''exited'', PREFIX + 204), (''healthy'', PREFIX + 205),
    (''init'', PREFIX + 206), (''production'', PREFIX + 207), (''release'', PREFIX + 208),
    (''session.status'', PREFIX + 209), (''staging'', PREFIX + 210),
    (''errored_preaggr'', PREFIX + 211), (''transaction'', PREFIX + 212),
    (''transaction.status'', PREFIX + 213), (''transaction.op'', PREFIX + 214),
    (''http.method'', PREFIX + 215), (''browser.name'', PREFIX + 216), (''os.name'', PREFIX + 217),
    (''satisfaction'', PREFIX + 218), (''ok'', PREFIX + 219), (''cancelled'', PREFIX + 220),
    (''unknown'', PREFIX + 221), (''aborted'', PREFIX + 222), (''satisfied'', PREFIX + 223),
    (''tolerated'', PREFIX + 224), (''frustrated'', PREFIX + 225),
    (''internal_error'', PREFIX + 226), (''histogram_outlier'', PREFIX + 227),
    (''outlier'', PREFIX + 228), (''inlier'', PREFIX + 229), (''sdk'', PREFIX + 230),
    (''<< unparameterized >>'', PREFIX + 231), (''measurement_rating'', PREFIX + 232),
    (''good'', PREFIX + 233), (''bad'', PREFIX + 234), (''meh'', PREFIX + 235),
    (''abnormal_mechanism'', PREFIX + 236), (''anr_foreground'', PREFIX + 237),
    (''anr_background'', PREFIX + 238), (''drop'', PREFIX + 239), (''decision'', PREFIX + 240),
    (''keep'', PREFIX + 241), (''span.op'', PREFIX + 242), (''span.module'', PREFIX + 243),
    (''span.action'', PREFIX + 244), (''span.system'', PREFIX + 245),
    (''span.status'', PREFIX + 246), (''span.status_code'', PREFIX + 247),
    (''span.domain'', PREFIX + 248), (''span.description'', PREFIX + 249),
    (''http.status_code'', PREFIX + 250), (''geo.country_code'', PREFIX + 251),
    (''span.group'', PREFIX + 252), (''transaction.method'', PREFIX + 253),
    (''span.category'', PREFIX + 254), (''span.main_thread'', PREFIX + 255),
    (''device.class'', PREFIX + 256), (''resource.render_blocking_status'', PREFIX + 257),
    (''ttid'', PREFIX + 258), (''ttfd'', PREFIX + 259), (''has_profile'', PREFIX + 260),
    (''query_hash'', PREFIX + 261), (''failure'', PREFIX + 262), (''group'', PREFIX + 263),
    (''file_extension'', PREFIX + 264), (''app_start_type'', PREFIX + 265),
    (''function'', PREFIX + 266), (''package'', PREFIX + 267), (''fingerprint'', PREFIX + 268),
    (''is_application'', PREFIX + 269), (''platform'', PREFIX + 270),
    (''os.version'', PREFIX + 271), (''sentry.score_profile_version'', PREFIX + 272),
    (''mri'', PREFIX + 273), (''mri.type'', PREFIX + 274), (''mri.namespace'', PREFIX + 275),
    (''outcome.id'', PREFIX + 276), (''outcome.reason'', PREFIX + 277),
    (''cardinality.window'', PREFIX + 278), (''cardinality.limit'', PREFIX + 279),
    (''cardinality.scope'', PREFIX + 280), ('''', PREFIX + 1000)]"

definition SPAN_METRICS_NAMES :: "(string, nat) dict" where
  "SPAN_METRICS_NAMES = [
    (''s:transactions/span.user@none'', PREFIX + 400),
    (''d:transactions/span.duration@millisecond'', PREFIX + 401),
    (''d:transactions/span.exclusive_time@millisecond'', PREFIX + 402),
    (''s:spans/user@none'', PREFIX + 403), (''d:spans/duration@millisecond'', PREFIX + 404),
    (''d:spans/exclusive_time@millisecond'', PREFIX + 405),
    (''d:spans/exclusive_time_light@millisecond'', PREFIX + 406),
    (''d:spans/frames_frozen@none'', PREFIX + 407), (''d:spans/frames_slow@none'', PREFIX + 408),
    (''d:spans/http.response_content_length@byte'', PREFIX + 409),
    (''d:spans/http.decoded_response_content_length@byte'', PREFIX + 410),
    (''d:spans/http.response_transfer_size@byte'', PREFIX + 411),
    (''c:spans/count_per_op@none'', PREFIX + 412),
    (''c:spans/count_per_segment@none'', PREFIX + 413),
    (''d:spans/webvital.score.total@ratio'', PREFIX + 414),
    (''d:spans/webvital.score.inp@ratio'', PREFIX + 415),
    (''d:spans/webvital.score.weight.inp@ratio'', PREFIX + 416),
    (''d:spans/webvital.inp@millisecond'', PREFIX + 417), (''c:spans/usage@none'', PREFIX + 418),
    (''g:spans/self_time@millisecond'', PREFIX + 419),
    (''g:spans/self_time_light@millisecond'', PREFIX + 420),
    (''g:spans/total_time@millisecond'', PREFIX + 421)]"

definition ESCALATING_ISSUES_METRIC_NAMES :: "(string, nat) dict" where
  "ESCALATING_ISSUES_METRIC_NAMES = [
    (''c:escalating_issues/event_ingested@none'', PREFIX + 500)]"

definition PROFILING_METRIC_NAMES :: "(string, nat) dict" where
  "PROFILING_METRIC_NAMES = [
    (''d:profiles/function.duration@millisecond'', PREFIX + 600)]"

definition BUNDLE_ANALYSIS_METRIC_NAMES :: "(string, nat) dict" where
  "BUNDLE_ANALYSIS_METRIC_NAMES = [
    (''d:bundle_analysis/bundle_size@byte'', PREFIX + 700)]"

definition METRIC_STATS_METRIC_NAMES :: "(string, nat) dict" where
  "METRIC_STATS_METRIC_NAMES = [
    (''c:metric_stats/volume@none'', PREFIX + 800),
    (''g:metric_stats/cardinality@none'', PREFIX + 801)]"

definition SHARED_STRINGS :: "(string, nat) dict" where
  "SHARED_STRINGS = SESSION_METRIC_NAMES @ TRANSACTION_METRICS_NAMES @ SPAN_METRICS_NAMES @
     ESCALATING_ISSUES_METRIC_NAMES @ PROFILING_METRIC_NAMES @ BUNDLE_ANALYSIS_METRIC_NAMES @
     METRIC_STATS_METRIC_NAMES @ SHARED_TAG_STRINGS"

definition REVERSE_SHARED_STRINGS :: "(nat, string) dict" where
  "REVERSE_SHARED_STRINGS = map (\<lambda>(s, i). (i, s)) SHARED_STRINGS"

lemmas shared_tables = SESSION_METRIC_NAMES_def TRANSACTION_METRICS_NAMES_def SPAN_METRICS_NAMES_def
  ESCALATING_ISSUES_METRIC_NAMES_def PROFILING_METRIC_NAMES_def BUNDLE_ANALYSIS_METRIC_NAMES_def
  METRIC_STATS_METRIC_NAMES_def SHARED_TAG_STRINGS_def SHARED_STRINGS_def

lemma shared_ids_large: "dict_get SHARED_STRINGS s = Some i \<Longrightarrow> PREFIX \<le> i"
proof -
  have "\<forall>p \<in> set SHARED_STRINGS. PREFIX \<le> snd p" by (simp add: shared_tables)
  moreover assume "dict_get SHARED_STRINGS s = Some i"
  then have "(s, i) \<in> set SHARED_STRINGS" by (simp add: dict_get_def map_of_SomeD)
  ultimately show ?thesis by fastforce
qed

lemma shared_ids_distinct: "distinct (map snd SHARED_STRINGS)"
proof -
  let ?offsets = "map (\<lambda>p. int (snd p - PREFIX)) SHARED_STRINGS"
  have "distinct ?offsets" by (simp add: shared_tables)
  then have "distinct (map (\<lambda>n. PREFIX + nat n) ?offsets)"
    by (simp only: distinct_map) (auto simp: inj_on_def)
  moreover have "map (\<lambda>n. PREFIX + nat n) ?offsets = map snd SHARED_STRINGS"
    by (simp add: shared_tables)
  ultimately show ?thesis by (simp only:)
qed

lemma shared_roundtrip: "dict_get SHARED_STRINGS s = Some i \<Longrightarrow> dict_get REVERSE_SHARED_STRINGS i = Some s"
proof -
  assume "dict_get SHARED_STRINGS s = Some i"
  then have "(i, s) \<in> set REVERSE_SHARED_STRINGS"
    by (force simp: dict_get_def REVERSE_SHARED_STRINGS_def dest: map_of_SomeD)
  moreover have "map fst REVERSE_SHARED_STRINGS = map snd SHARED_STRINGS"
    by (simp add: REVERSE_SHARED_STRINGS_def case_prod_unfold)
  then have "distinct (map fst REVERSE_SHARED_STRINGS)" by (simp only: shared_ids_distinct)
  ultimately show ?thesis by (simp add: dict_get_def)
qed

lemma reverse_shared_large: "dict_get REVERSE_SHARED_STRINGS i = Some s \<Longrightarrow> PREFIX \<le> i"
proof -
  have "\<forall>p \<in> set SHARED_STRINGS. PREFIX \<le> snd p" by (simp add: shared_tables)
  moreover assume "dict_get REVERSE_SHARED_STRINGS i = Some s"
  ultimately show ?thesis
    by (force simp: dict_get_def REVERSE_SHARED_STRINGS_def dest: map_of_SomeD)
qed

end
