(* ===== verification/IndexerStack.thy ===== *)
theory IndexerStack
  imports Indexer SharedStrings
begin

text \<open>
  The layers of the metrics string indexer, \<open>src/src/sentry/sentry_metrics/indexer\<close>: the
  Postgres indexer (\<open>postgres/postgres_v2.py\<close>) with its write limiter (\<open>limiters/writes.py\<close>),
  the cache in front of it (\<open>cache.py\<close>), the hard-coded strings in front of both
  (\<open>strings.py\<close>), and the in-memory indexer of the tests (\<open>mock.py\<close>). The contract that every
  layer offers to the one above is the locale \<open>string_indexer\<close>; the two wrappers are proved to
  keep it over any indexer that has it. The rate limiter of Redis and the hash of cache keys
  are parameters.
\<close>

section \<open>The contract of an indexer\<close>

text \<open>\<open>K\<close> is the set of keys the indexer is used for: the laws are promised for calls within it.\<close>

locale string_indexer =
  fixes bulk :: "use_case_keys \<Rightarrow> 's \<Rightarrow> (use_case_results \<times> 's) result"
    and resolve :: "'s \<Rightarrow> key \<Rightarrow> nat option"
    and inv :: "'s \<Rightarrow> bool"
    and env :: "'s \<Rightarrow> 's \<Rightarrow> bool"
    and K :: "key set"
  assumes bulk_wf: "inv s \<Longrightarrow> uk_keys ks \<subseteq> K \<Longrightarrow> bulk ks s = Inr (r, s') \<Longrightarrow> ur_wf r"
    and bulk_inv: "inv s \<Longrightarrow> uk_keys ks \<subseteq> K \<Longrightarrow> bulk ks s = Inr (r, s') \<Longrightarrow> inv s'"
    and bulk_covers: "inv s \<Longrightarrow> uk_keys ks \<subseteq> K \<Longrightarrow> bulk ks s = Inr (r, s') \<Longrightarrow>
      k \<in> uk_keys ks \<longleftrightarrow> ur_lookup r k \<noteq> None"
    and bulk_sound: "inv s \<Longrightarrow> uk_keys ks \<subseteq> K \<Longrightarrow> bulk ks s = Inr (r, s') \<Longrightarrow>
      ur_id r k = Some i \<Longrightarrow> resolve s' k = Some i"
    and bulk_keeps: "inv s \<Longrightarrow> uk_keys ks \<subseteq> K \<Longrightarrow> bulk ks s = Inr (r, s') \<Longrightarrow>
      resolve s k = Some i \<Longrightarrow> resolve s' k = Some i"
    and env_inv: "inv s \<Longrightarrow> env s s' \<Longrightarrow> inv s'"
    and env_keeps: "inv s \<Longrightarrow> env s s' \<Longrightarrow> resolve s k = Some i \<Longrightarrow> resolve s' k = Some i"
    and resolve_pos: "inv s \<Longrightarrow> resolve s k = Some i \<Longrightarrow> i > 0"

text \<open>The states reached by further calls and by what the environment does between them.\<close>

inductive indexer_later ::
  "key set \<Rightarrow> (use_case_keys \<Rightarrow> 's \<Rightarrow> (use_case_results \<times> 's) result) \<Rightarrow> ('s \<Rightarrow> 's \<Rightarrow> bool) \<Rightarrow> 's \<Rightarrow> 's \<Rightarrow> bool"
  for K bulk env where
  now: "indexer_later K bulk env s s"
| call: "indexer_later K bulk env s s1 \<Longrightarrow> uk_keys ks \<subseteq> K \<Longrightarrow> bulk ks s1 = Inr (r, s2) \<Longrightarrow>
    indexer_later K bulk env s s2"
| environment: "indexer_later K bulk env s s1 \<Longrightarrow> env s1 s2 \<Longrightarrow> indexer_later K bulk env s s2"

context string_indexer begin

lemma later_keeps:
  "indexer_later K bulk env s s' \<Longrightarrow> inv s \<Longrightarrow>
   inv s' \<and> (\<forall>k i. resolve s k = Some i \<longrightarrow> resolve s' k = Some i)"
proof (induction rule: indexer_later.induct)
  case (call s s1 ks r s2)
  then show ?case using bulk_inv bulk_keeps by blast
next
  case (environment s s1 s2)
  then show ?case using env_inv env_keeps by blast
qed simp

lemma ids_stable:
  assumes "inv s" "uk_keys ks \<subseteq> K" "bulk ks s = Inr (r, s1)" "indexer_later K bulk env s1 s2"
    "uk_keys ks' \<subseteq> K" "bulk ks' s2 = Inr (r', s3)" "ur_id r k = Some i" "ur_id r' k = Some j"
  shows "i = j"
proof -
  have "resolve s1 k = Some i" "inv s1"
    using assms bulk_sound bulk_inv by blast+
  then have "resolve s2 k = Some i" "inv s2"
    using later_keeps [OF assms(4)] by blast+
  then have "resolve s3 k = Some i" "resolve s3 k = Some j"
    using assms bulk_sound bulk_keeps by blast+
  then show ?thesis by simp
qed

end

text \<open>Two layers: the first answers some keys, the second is asked for the rest.\<close>

lemma layer_lookup:
  assumes first: "\<And>k. ur_lookup r1 k \<noteq> None \<Longrightarrow> k \<in> uk_keys ks \<and> (\<exists>i. ur_lookup r1 k = Some (Some i) \<and> i > 0)"
    and second: "\<And>k. k \<in> uk_keys (get_unmapped_use_case_keys r1 ks) \<longleftrightarrow> ur_lookup r2 k \<noteq> None"
  shows "k \<in> uk_keys ks \<longleftrightarrow> ur_lookup (ur_merge r1 r2) k \<noteq> None"
    and "ur_id (ur_merge r1 r2) k = Some i \<Longrightarrow> ur_lookup r1 k = Some (Some i) \<or> ur_id r2 k = Some i"
proof -
  have un: "unmapped r1 k \<longleftrightarrow> ur_lookup r1 k = None"
    using first [of k] by (auto simp: unmapped_def ur_id_def split: option.splits)
  show "k \<in> uk_keys ks \<longleftrightarrow> ur_lookup (ur_merge r1 r2) k \<noteq> None"
    using first [of k] second [of k] un by (auto simp: unmapped_keys split: option.splits)
  show "ur_id (ur_merge r1 r2) k = Some i \<Longrightarrow> ur_lookup r1 k = Some (Some i) \<or> ur_id r2 k = Some i"
    using first [of k] by (auto simp: ur_id_def split: option.splits)
qed

lemma nothing_unmapped:
  assumes first: "\<And>k. ur_lookup r1 k \<noteq> None \<Longrightarrow> k \<in> uk_keys ks \<and> (\<exists>i. ur_lookup r1 k = Some (Some i) \<and> i > 0)"
    and none: "uk_size (get_unmapped_use_case_keys r1 ks) = 0"
  shows "k \<in> uk_keys ks \<longleftrightarrow> ur_lookup r1 k \<noteq> None"
proof -
  have "\<not> unmapped r1 k" if "k \<in> uk_keys ks"
    using none that unfolding uk_size_0 unmapped_keys by blast
  then show ?thesis using first [of k] by (auto simp: unmapped_def ur_id_def split: option.splits)
qed

lemma left_within: "uk_keys ks \<subseteq> K \<Longrightarrow> uk_keys (get_unmapped_use_case_keys r ks) \<subseteq> K"
  by (auto simp: unmapped_keys)

section \<open>Hard-coded strings: \<open>StaticStringIndexer\<close>\<close>

definition static_results :: "use_case_keys \<Rightarrow> use_case_results" where
  "static_results ks =
     add_use_case_key_results (Some HARDCODED) None
       (concat (map (\<lambda>k. case dict_get SHARED_STRINGS (snd (snd k)) of
            None \<Rightarrow> [] | Some i \<Rightarrow> [(k, Some i)]) (uk_as_tuples ks))) []"

definition static_bulk_record ::
  "(use_case_keys \<Rightarrow> 's \<Rightarrow> (use_case_results \<times> 's) result) \<Rightarrow>
   use_case_keys \<Rightarrow> 's \<Rightarrow> (use_case_results \<times> 's) result" where
  "static_bulk_record bulk ks s =
     (let r = static_results ks; left = get_unmapped_use_case_keys r ks
      in if uk_size left = 0 then Inr (r, s)
         else bind_result (bulk left s) (\<lambda>(r', s'). Inr (ur_merge r r', s')))"

definition static_resolve :: "('s \<Rightarrow> key \<Rightarrow> nat option) \<Rightarrow> 's \<Rightarrow> key \<Rightarrow> nat option" where
  "static_resolve resolve s k =
     (case dict_get SHARED_STRINGS (snd (snd k)) of Some i \<Rightarrow> Some i | None \<Rightarrow> resolve s k)"

definition static_reverse_resolve ::
  "('s \<Rightarrow> use_case_id \<Rightarrow> nat \<Rightarrow> nat \<Rightarrow> string option result) \<Rightarrow> (nat, string) dict \<Rightarrow>
   's \<Rightarrow> use_case_id \<Rightarrow> nat \<Rightarrow> nat \<Rightarrow> string option result" where
  "static_reverse_resolve reverse reindexed s u org i =
     (case dict_get REVERSE_SHARED_STRINGS i of
        Some str \<Rightarrow> Inr (Some str)
      | None \<Rightarrow> bind_result (reverse s u org i)
          (\<lambda>r. Inr (case r of Some str \<Rightarrow> Some str | None \<Rightarrow> dict_get reindexed i)))"

lemma static_results_lookup:
  "ur_lookup (static_results ks) k =
     (if k \<in> uk_keys ks then map_option Some (dict_get SHARED_STRINGS (snd (snd k))) else None)"
  unfolding static_results_def ur_lookup_selected by (simp add: uk_keys_def)

lemma static_first:
  "ur_lookup (static_results ks) k \<noteq> None \<Longrightarrow>
   k \<in> uk_keys ks \<and> (\<exists>i. ur_lookup (static_results ks) k = Some (Some i) \<and> i > 0)"
proof -
  assume some: "ur_lookup (static_results ks) k \<noteq> None"
  then obtain i where i: "k \<in> uk_keys ks" "dict_get SHARED_STRINGS (snd (snd k)) = Some i"
    by (auto simp: static_results_lookup split: if_splits)
  with shared_ids_large have "i > 0" by (force simp: PREFIX_def)
  with i show ?thesis by (simp add: static_results_lookup)
qed

locale static_indexer = string_indexer
begin

lemma static_bulk_cases:
  assumes "static_bulk_record bulk ks s = Inr (r, s')"
  obtains "r = static_results ks" "s' = s" "uk_size (get_unmapped_use_case_keys (static_results ks) ks) = 0"
  | r2 where "bulk (get_unmapped_use_case_keys (static_results ks) ks) s = Inr (r2, s')"
      "r = ur_merge (static_results ks) r2"
proof (cases "uk_size (get_unmapped_use_case_keys (static_results ks) ks) = 0")
  case True
  with assms that(1) show thesis by (simp add: static_bulk_record_def)
next
  case False
  with assms obtain r2 s2 where "bulk (get_unmapped_use_case_keys (static_results ks) ks) s = Inr (r2, s2)"
    "Inr (ur_merge (static_results ks) r2, s2) = (Inr (r, s') :: (use_case_results \<times> 'a) result)"
    by (auto simp only: static_bulk_record_def Let_def if_False bind_result_Inr_iff split_paired_Ex prod.case)
  with that(2) show thesis by simp
qed

lemma static_resolves:
  "ur_lookup (static_results ks) k = Some (Some i) \<Longrightarrow> static_resolve resolve s k = Some i"
  by (auto simp: static_results_lookup static_resolve_def split: if_splits)

lemma left_not_shared:
  "k \<in> uk_keys (get_unmapped_use_case_keys (static_results ks) ks) \<Longrightarrow> static_resolve resolve s k = resolve s k"
proof -
  assume "k \<in> uk_keys (get_unmapped_use_case_keys (static_results ks) ks)"
  then have "k \<in> uk_keys ks" "unmapped (static_results ks) k" unfolding unmapped_keys by blast+
  then have "dict_get SHARED_STRINGS (snd (snd k)) = None"
    using shared_ids_large [of "snd (snd k)"]
    by (cases "dict_get SHARED_STRINGS (snd (snd k))")
      (simp_all add: unmapped_def ur_id_def static_results_lookup PREFIX_def)
  then show ?thesis by (simp add: static_resolve_def)
qed

lemma static_bulk_sound:
  assumes inv: "inv s" and within: "uk_keys ks \<subseteq> K"
    and b: "static_bulk_record bulk ks s = Inr (r, s')" and i: "ur_id r k = Some i"
  shows "static_resolve resolve s' k = Some i"
  using b
proof (cases rule: static_bulk_cases)
  case 1
  with i static_first [of ks k] show ?thesis
    by (intro static_resolves [of ks]) (auto simp: ur_id_def split: option.splits)
next
  case (2 r2)
  note second = bulk_covers [OF inv left_within [OF within] 2(1)]
  from layer_lookup(2) [OF static_first second, of k i] i 2(2)
  consider "ur_lookup (static_results ks) k = Some (Some i)" | "ur_id r2 k = Some i" by auto
  then show ?thesis
  proof cases
    case 1
    then show ?thesis by (rule static_resolves)
  next
    case r2: 2
    then have "k \<in> uk_keys (get_unmapped_use_case_keys (static_results ks) ks)"
      unfolding second by (auto simp: ur_id_def split: option.splits)
    with bulk_sound [OF inv left_within [OF within] 2(1) r2] show ?thesis by (simp add: left_not_shared)
  qed
qed

end

sublocale static_indexer \<subseteq> static: string_indexer "static_bulk_record bulk" "static_resolve resolve" inv env K
proof
  fix s s' ks r k i
  assume inv: "inv s"
  have wf: "ur_wf (static_results ks)" for ks by (simp add: static_results_def ur_wf_adds)
  show "i > 0" if "static_resolve resolve s k = Some i"
    using that resolve_pos [OF inv] shared_ids_large [of "snd (snd k)" i]
    by (auto simp: static_resolve_def PREFIX_def split: option.splits)
  show "inv s'" if "env s s'" using env_inv [OF inv that] .
  show "static_resolve resolve s' k = Some i" if "env s s'" "static_resolve resolve s k = Some i"
    using that env_keeps [OF inv that(1)] by (auto simp: static_resolve_def split: option.splits)
  assume within: "uk_keys ks \<subseteq> K"
  note left = left_within [OF within]
  show "ur_wf r" if "static_bulk_record bulk ks s = Inr (r, s')"
    using that
  proof (cases rule: static_bulk_cases)
    case 1
    with wf show ?thesis by simp
  next
    case (2 r2)
    with wf bulk_wf [OF inv left 2(1)] show ?thesis by (simp add: ur_wf_merge)
  qed
  show "inv s'" if "static_bulk_record bulk ks s = Inr (r, s')"
    using that by (cases rule: static_bulk_cases) (use inv bulk_inv [OF inv left] in blast)+
  show "k \<in> uk_keys ks \<longleftrightarrow> ur_lookup r k \<noteq> None" if "static_bulk_record bulk ks s = Inr (r, s')"
    using that
  proof (cases rule: static_bulk_cases)
    case 1
    then show ?thesis using nothing_unmapped [OF static_first] by blast
  next
    case (2 r2)
    show ?thesis
      unfolding 2(2) by (rule layer_lookup(1) [OF static_first bulk_covers [OF inv left 2(1)]])
  qed
  show "static_resolve resolve s' k = Some i"
    if "static_bulk_record bulk ks s = Inr (r, s')" "ur_id r k = Some i"
    using static_bulk_sound [OF inv within that] .
  show "static_resolve resolve s' k = Some i"
    if "static_bulk_record bulk ks s = Inr (r, s')" "static_resolve resolve s k = Some i"
    using that(1)
  proof (cases rule: static_bulk_cases)
    case 1
    with that show ?thesis by simp
  next
    case (2 r2)
    with that(2) bulk_keeps [OF inv left 2(1)] show ?thesis
      by (auto simp: static_resolve_def split: option.splits)
  qed
qed

context static_indexer begin

lemma static_contract:
  "string_indexer (static_bulk_record bulk) (static_resolve resolve) inv env K"
  by (rule static.string_indexer_axioms)

end

section \<open>The cache: \<open>StringIndexerCache\<close> and \<open>CachingIndexer\<close>\<close>

datatype cache_ns = BR | RES

fun ns_value :: "cache_ns \<Rightarrow> string" where
  "ns_value BR = ''br''"
| "ns_value RES = ''res''"

text \<open>A cached value is an integer, or in the new name space \<open>value:timestamp\<close>.\<close>

datatype cached = IntVal nat | StampedVal nat int

type_synonym cache = "(string, cached) dict"

record cache_cfg =
  cc_md5 :: "string \<Rightarrow> string"
  cc_partition :: string
  cc_read_ns :: bool
  cc_write_ns :: bool

record 's caching =
  cs_now :: int
  cs_cache :: cache
  cs_base :: 's

definition make_cache_key :: "cache_cfg \<Rightarrow> cache_ns option \<Rightarrow> string \<Rightarrow> string result" where
  "make_cache_key cfg ns k =
     (case split_once (CHR '':'') k of
        None \<Rightarrow> Inl ValueError
      | Some (u, rest) \<Rightarrow>
         (case split_once (CHR '':'') rest of
            None \<Rightarrow> Inl ValueError
          | Some (org, s) \<Rightarrow>
              Inr (''indexer:'' @ cc_partition cfg @ '':'' @
                (case ns of None \<Rightarrow> [] | Some n \<Rightarrow> ns_value n @ '':'') @ ''org:str:'' @ u @ '':'' @
                cc_md5 cfg (org @ '':'' @ s))))"

text \<open>Stamped values are valid for three hours.\<close>

definition validate_result :: "int \<Rightarrow> cached option \<Rightarrow> nat option" where
  "validate_result now v =
     (case v of
        Some (StampedVal n t) \<Rightarrow> if t \<ge> now - 10800 then Some n else None
      | _ \<Rightarrow> None)"

definition plain_result :: "cached option \<Rightarrow> nat option" where
  "plain_result v = (case v of Some (IntVal n) \<Rightarrow> Some n | _ \<Rightarrow> None)"

definition cache_get :: "cache_cfg \<Rightarrow> int \<Rightarrow> cache_ns \<Rightarrow> string \<Rightarrow> cache \<Rightarrow> nat option result" where
  "cache_get cfg now ns k c =
     (if cc_read_ns cfg
      then bind_result (make_cache_key cfg (Some ns) k) (\<lambda>ck. Inr (validate_result now (dict_get c ck)))
      else bind_result (make_cache_key cfg None k) (\<lambda>ck. Inr (plain_result (dict_get c ck))))"

definition cache_set :: "cache_cfg \<Rightarrow> int \<Rightarrow> cache_ns \<Rightarrow> string \<Rightarrow> nat \<Rightarrow> cache \<Rightarrow> cache result" where
  "cache_set cfg now ns k v c =
     bind_result (make_cache_key cfg None k) (\<lambda>ck.
       if cc_write_ns cfg
       then bind_result (make_cache_key cfg (Some ns) k) (\<lambda>nk.
              Inr (dict_set nk (StampedVal v now) (dict_set ck (IntVal v) c)))
       else Inr (dict_set ck (IntVal v) c))"

fun cache_set_many :: "cache_cfg \<Rightarrow> int \<Rightarrow> cache_ns \<Rightarrow> (string, nat) dict \<Rightarrow> cache \<Rightarrow> cache result" where
  "cache_set_many cfg now ns [] c = Inr c"
| "cache_set_many cfg now ns ((k, v) # kvs) c =
     bind_result (cache_set cfg now ns k v c) (cache_set_many cfg now ns kvs)"

text \<open>The results of the cache for a collection, \<open>get_many\<close> and \<open>from_string\<close> together.\<close>

definition cache_hits :: "cache_cfg \<Rightarrow> int \<Rightarrow> string list \<Rightarrow> cache \<Rightarrow> (key \<times> nat option) list result" where
  "cache_hits cfg now strs c =
     bind_result (traverse (\<lambda>k. bind_result (cache_get cfg now BR k c) (\<lambda>v. Inr (k, v))) strs)
       (\<lambda>kvs. traverse (\<lambda>(k, v). bind_result (key_from_string k) (\<lambda>k'. Inr (k', v)))
          (filter (\<lambda>(_, v). v \<noteq> None) kvs))"

definition caching_bulk_record ::
  "cache_cfg \<Rightarrow> (use_case_keys \<Rightarrow> 's \<Rightarrow> (use_case_results \<times> 's) result) \<Rightarrow>
   use_case_keys \<Rightarrow> 's caching \<Rightarrow> (use_case_results \<times> 's caching) result" where
  "caching_bulk_record cfg bulk ks st =
     bind_result (cache_hits cfg (cs_now st) (uk_as_strings ks) (cs_cache st)) (\<lambda>hits.
       let r = add_use_case_key_results (Some CACHE_HIT) None hits [];
           left = get_unmapped_use_case_keys r ks
       in if uk_size left = 0 then Inr (r, st)
          else bind_result (bulk left (cs_base st)) (\<lambda>(r', s').
            bind_result (cache_set_many cfg (cs_now st) BR (get_mapped_strings_to_ints r') (cs_cache st))
              (\<lambda>c'. Inr (ur_merge r r', st\<lparr>cs_cache := c', cs_base := s'\<rparr>))))"

definition caching_resolve ::
  "cache_cfg \<Rightarrow> bool \<Rightarrow> ('s \<Rightarrow> key \<Rightarrow> nat option) \<Rightarrow> 's caching \<Rightarrow> key \<Rightarrow> (nat option \<times> 's caching) result" where
  \<comment> \<open>\<open>replenish\<close>: the random choice to write an id found below back to the cache\<close>
  "caching_resolve cfg replenish resolve st k =
     bind_result (cache_get cfg (cs_now st) RES (key_string k) (cs_cache st)) (\<lambda>hit.
       case hit of
         Some (Suc n) \<Rightarrow> Inr (Some (Suc n), st)
       | _ \<Rightarrow>
          (case resolve (cs_base st) k of
             None \<Rightarrow> Inr (None, st)
           | Some i \<Rightarrow>
               if replenish
               then bind_result (cache_set cfg (cs_now st) RES (key_string k) i (cs_cache st))
                      (\<lambda>c'. Inr (Some i, st\<lparr>cs_cache := c'\<rparr>))
               else Inr (Some i, st)))"

text \<open>The cache key of a key: \<open>hashed\<close> is the part of it that goes through the hash.\<close>

definition hashed :: "key \<Rightarrow> string" where
  "hashed k = (case k of (u, org, s) \<Rightarrow> int_str (int org) @ '':'' @ s)"

definition cache_key :: "cache_cfg \<Rightarrow> cache_ns option \<Rightarrow> key \<Rightarrow> string" where
  "cache_key cfg ns k = (case k of (u, org, s) \<Rightarrow>
     ''indexer:'' @ cc_partition cfg @ '':'' @ (case ns of None \<Rightarrow> [] | Some n \<Rightarrow> ns_value n @ '':'') @
     ''org:str:'' @ use_case_value u @ '':'' @ cc_md5 cfg (hashed k))"

lemma make_cache_key_string [simp]: "make_cache_key cfg ns (key_string k) = Inr (cache_key cfg ns k)"
proof -
  obtain u org s where k: "k = (u, org, s)" by (cases k) auto
  have "key_string k = use_case_value u @ CHR '':'' # (int_str (int org) @ CHR '':'' # s)"
    by (simp add: key_string_def k)
  then show ?thesis
    by (simp add: make_cache_key_def cache_key_def hashed_def k split_once_append use_case_value_no_colon int_str_no_colon)
qed

lemma cache_key_inj:
  assumes "inj_on (cc_md5 cfg) (hashed ` K)" "k \<in> K" "k' \<in> K" "cache_key cfg ns k = cache_key cfg ns k'"
  shows "k = k'"
proof -
  obtain u org s u' org' s' where k: "k = (u, org, s)" "k' = (u', org', s')" by (cases k; cases k') auto
  let ?h = "cc_md5 cfg (hashed k)"
  let ?h' = "cc_md5 cfg (hashed k')"
  from assms(4) have "use_case_value u @ CHR '':'' # ?h = use_case_value u' @ CHR '':'' # ?h'"
    by (simp add: cache_key_def k)
  then have "split_once (CHR '':'') (use_case_value u @ CHR '':'' # ?h) =
      split_once (CHR '':'') (use_case_value u' @ CHR '':'' # ?h')" by simp
  then have u: "use_case_value u = use_case_value u'" and h: "?h = ?h'"
    by (simp_all add: split_once_append use_case_value_no_colon)
  from u have "(Inr u :: use_case_id result) = Inr u'" by (metis use_case_of_value_self)
  then have "u = u'" by simp
  moreover have "hashed k = hashed k'"
    using h assms(1-3) by (auto dest: inj_onD)
  then have "int_str (int org) @ CHR '':'' # s = int_str (int org') @ CHR '':'' # s'"
    by (simp add: hashed_def k)
  then have "split_once (CHR '':'') (int_str (int org) @ CHR '':'' # s) =
      split_once (CHR '':'') (int_str (int org') @ CHR '':'' # s')" by simp
  then have o: "int_str (int org) = int_str (int org')" and s: "s = s'"
    by (simp_all add: split_once_append int_str_no_colon)
  from o have "(Inr (int org) :: int result) = Inr (int org')" by (metis int_of_int_str)
  then have "org = org'" by simp
  ultimately show ?thesis using s k by simp
qed

text \<open>Every entry of the cache for a key of \<open>K\<close> holds the id of the key.\<close>

definition cache_agrees :: "key set \<Rightarrow> cache_cfg \<Rightarrow> (key \<Rightarrow> nat option) \<Rightarrow> cache \<Rightarrow> bool" where
  "cache_agrees K cfg f c =
     (\<forall>k \<in> K. \<forall>v. (dict_get c (cache_key cfg None k) = Some (IntVal v) \<longrightarrow> f k = Some v) \<and>
        (\<forall>ns t. dict_get c (cache_key cfg (Some ns) k) = Some (StampedVal v t) \<longrightarrow> f k = Some v))"

lemma cache_agreesI:
  "(\<And>k v. k \<in> K \<Longrightarrow> dict_get c (cache_key cfg None k) = Some (IntVal v) \<Longrightarrow> f k = Some v) \<Longrightarrow>
   (\<And>k ns v t. k \<in> K \<Longrightarrow> dict_get c (cache_key cfg (Some ns) k) = Some (StampedVal v t) \<Longrightarrow> f k = Some v) \<Longrightarrow>
   cache_agrees K cfg f c"
  unfolding cache_agrees_def by blast

lemma cache_agreesD:
  "cache_agrees K cfg f c \<Longrightarrow> k \<in> K \<Longrightarrow> dict_get c (cache_key cfg None k) = Some (IntVal v) \<Longrightarrow> f k = Some v"
  "cache_agrees K cfg f c \<Longrightarrow> k \<in> K \<Longrightarrow>
   dict_get c (cache_key cfg (Some ns) k) = Some (StampedVal v t) \<Longrightarrow> f k = Some v"
  unfolding cache_agrees_def by blast+

lemma cache_agrees_get:
  assumes "cache_agrees K cfg f c" "k \<in> K" "cache_get cfg now ns (key_string k) c = Inr (Some v)"
  shows "f k = Some v"
proof (cases "cc_read_ns cfg")
  case True
  with assms(3) have "validate_result now (dict_get c (cache_key cfg (Some ns) k)) = Some v"
    by (simp add: cache_get_def)
  then obtain t where "dict_get c (cache_key cfg (Some ns) k) = Some (StampedVal v t)"
    by (auto simp: validate_result_def split: option.splits cached.splits if_splits)
  with assms(1,2) show ?thesis unfolding cache_agrees_def by blast
next
  case False
  with assms(3) have "plain_result (dict_get c (cache_key cfg None k)) = Some v"
    by (simp add: cache_get_def)
  then have "dict_get c (cache_key cfg None k) = Some (IntVal v)"
    by (auto simp: plain_result_def split: option.splits cached.splits)
  with assms(1,2) show ?thesis unfolding cache_agrees_def by blast
qed

lemma ns_key_inj:
  assumes "inj_on (cc_md5 cfg) (hashed ` K)" "k \<in> K" "k' \<in> K"
    "cache_key cfg (Some ns) k = cache_key cfg (Some ns') k'"
  shows "k = k'"
proof -
  obtain u org s u' org' s' where "k = (u, org, s)" "k' = (u', org', s')" by (cases k; cases k') auto
  with assms(4) have "ns = ns'" by (cases ns; cases ns') (simp_all add: cache_key_def)
  with assms show ?thesis using cache_key_inj by blast
qed

text \<open>The two forms in which an id is written to the cache.\<close>

definition cache_entry :: "key set \<Rightarrow> cache_cfg \<Rightarrow> (key \<Rightarrow> nat option) \<Rightarrow> string \<Rightarrow> cached \<Rightarrow> bool" where
  "cache_entry K cfg f ck v =
     (\<exists>k \<in> K. \<exists>i. f k = Some i \<and>
        ((ck = cache_key cfg None k \<and> v = IntVal i) \<or>
         (\<exists>ns t. ck = cache_key cfg (Some ns) k \<and> v = StampedVal i t)))"

lemma cache_agrees_grow:
  assumes inj: "inj_on (cc_md5 cfg) (hashed ` K)" and agrees: "cache_agrees K cfg f c"
    and new: "\<And>ck v. dict_get c' ck = Some v \<Longrightarrow> dict_get c ck = Some v \<or> cache_entry K cfg f ck v"
  shows "cache_agrees K cfg f c'"
proof (rule cache_agreesI)
  fix k v assume k: "k \<in> K" and "dict_get c' (cache_key cfg None k) = Some (IntVal v)"
  from new [OF this(2)] show "f k = Some v"
  proof
    assume "cache_entry K cfg f (cache_key cfg None k) (IntVal v)"
    then obtain k' where "k' \<in> K" "f k' = Some v" "cache_key cfg None k = cache_key cfg None k'"
      by (auto simp: cache_entry_def)
    with cache_key_inj [OF inj k] show ?thesis by blast
  qed (use cache_agreesD(1) [OF agrees k] in blast)
next
  fix k ns v t assume k: "k \<in> K" and "dict_get c' (cache_key cfg (Some ns) k) = Some (StampedVal v t)"
  from new [OF this(2)] show "f k = Some v"
  proof
    assume "cache_entry K cfg f (cache_key cfg (Some ns) k) (StampedVal v t)"
    then obtain k' ns' where "k' \<in> K" "f k' = Some v" "cache_key cfg (Some ns) k = cache_key cfg (Some ns') k'"
      by (auto simp: cache_entry_def)
    with ns_key_inj [OF inj k] show ?thesis by blast
  qed (use cache_agreesD(2) [OF agrees k] in blast)
qed

lemma cache_agrees_plain:
  "inj_on (cc_md5 cfg) (hashed ` K) \<Longrightarrow> k \<in> K \<Longrightarrow> cache_agrees K cfg f c \<Longrightarrow> f k = Some v \<Longrightarrow>
   cache_agrees K cfg f (dict_set (cache_key cfg None k) (IntVal v) c)"
  by (rule cache_agrees_grow [of cfg K f c]) (auto simp: cache_entry_def split: if_splits)

lemma cache_agrees_stamped:
  "inj_on (cc_md5 cfg) (hashed ` K) \<Longrightarrow> k \<in> K \<Longrightarrow> cache_agrees K cfg f c \<Longrightarrow> f k = Some v \<Longrightarrow>
   cache_agrees K cfg f (dict_set (cache_key cfg (Some ns) k) (StampedVal v t) c)"
  by (rule cache_agrees_grow [of cfg K f c]) (auto simp: cache_entry_def split: if_splits)

text \<open>
  Between calls time passes and the base sees its own environment; the cache loses entries, and
  gains ids that \<open>resolve\<close> or another process that shares the cache has read from the base.
\<close>

definition caching_env ::
  "key set \<Rightarrow> cache_cfg \<Rightarrow> ('s \<Rightarrow> key \<Rightarrow> nat option) \<Rightarrow> ('s \<Rightarrow> 's \<Rightarrow> bool) \<Rightarrow>
   's caching \<Rightarrow> 's caching \<Rightarrow> bool" where
  "caching_env K cfg resolve env st st' =
     (env (cs_base st) (cs_base st') \<and>
      (\<forall>ck v. dict_get (cs_cache st') ck = Some v \<longrightarrow>
         dict_get (cs_cache st) ck = Some v \<or> cache_entry K cfg (resolve (cs_base st')) ck v))"

lemma cache_set_agrees:
  assumes "inj_on (cc_md5 cfg) (hashed ` K)" "k \<in> K" "cache_agrees K cfg f c" "f k = Some v"
  obtains c' where "cache_set cfg now ns (key_string k) v c = Inr c'" "cache_agrees K cfg f c'"
  using assms that by (cases "cc_write_ns cfg") (auto simp: cache_set_def cache_agrees_plain cache_agrees_stamped)

lemma cache_set_many_agrees:
  assumes "inj_on (cc_md5 cfg) (hashed ` K)" "cache_agrees K cfg f c"
    "\<And>str v. (str, v) \<in> set kvs \<Longrightarrow> \<exists>k \<in> K. str = key_string k \<and> f k = Some v"
  shows "\<exists>c'. cache_set_many cfg now ns kvs c = Inr c' \<and> cache_agrees K cfg f c'"
  using assms(2,3)
proof (induction kvs arbitrary: c)
  case (Cons p kvs)
  obtain str v where p: "p = (str, v)" by (cases p)
  then obtain k where k: "str = key_string k" "f k = Some v" "k \<in> K"
    using Cons.prems(2) [of str v] by (metis list.set_intros(1))
  obtain c1 where "cache_set cfg now ns (key_string k) v c = Inr c1" "cache_agrees K cfg f c1"
    using cache_set_agrees [OF assms(1) k(3) Cons.prems(1) k(2)] by blast
  with Cons.IH [of c1] Cons.prems(2) p k show ?case by simp
qed simp

lemma cache_agrees_mono:
  "cache_agrees K cfg f c \<Longrightarrow> (\<And>k v. f k = Some v \<Longrightarrow> g k = Some v) \<Longrightarrow> cache_agrees K cfg g c"
  unfolding cache_agrees_def by blast

lemma cache_hits_eq:
  "\<exists>f. cache_hits cfg now (map key_string ks) c =
     Inr (concat (map (\<lambda>k. case f k of None \<Rightarrow> [] | Some i \<Rightarrow> [(k, Some i)]) ks))
   \<and> (\<forall>k. cache_get cfg now BR (key_string k) c = Inr (f k))"
proof -
  define f where "f = (\<lambda>k. if cc_read_ns cfg
    then validate_result now (dict_get c (cache_key cfg (Some BR) k))
    else plain_result (dict_get c (cache_key cfg None k)))"
  have get: "cache_get cfg now BR (key_string k) c = Inr (f k)" for k
    by (simp add: cache_get_def f_def)
  have "traverse (\<lambda>k. bind_result (cache_get cfg now BR k c) (\<lambda>v. Inr (k, v))) (map key_string ks) =
      Inr (map (\<lambda>k. (key_string k, f k)) ks)"
    by (simp add: traverse_map o_def get traverse_Inr)
  moreover have "traverse (\<lambda>(k, v). bind_result (key_from_string k) (\<lambda>k'. Inr (k', v)))
      (filter (\<lambda>(_, v). v \<noteq> None) (map (\<lambda>k. (key_string k, f k)) ks)) =
      Inr (concat (map (\<lambda>k. case f k of None \<Rightarrow> [] | Some i \<Rightarrow> [(k, Some i)]) ks))"
    by (induction ks) (auto simp: key_reads_back split: option.splits)
  ultimately have "cache_hits cfg now (map key_string ks) c =
      Inr (concat (map (\<lambda>k. case f k of None \<Rightarrow> [] | Some i \<Rightarrow> [(k, Some i)]) ks))"
    by (simp add: cache_hits_def)
  with get show ?thesis by blast
qed

locale caching_indexer = string_indexer +
  fixes cfg :: cache_cfg
  assumes no_collision: "inj_on (cc_md5 cfg) (hashed ` K)"
begin

definition caching_inv :: "'a caching \<Rightarrow> bool" where
  "caching_inv st = (inv (cs_base st) \<and> cache_agrees K cfg (resolve (cs_base st)) (cs_cache st))"

definition base_resolve :: "'a caching \<Rightarrow> key \<Rightarrow> nat option" where
  "base_resolve st = resolve (cs_base st)"

lemma caching_bulk_cases:
  assumes inv: "caching_inv st" and within: "uk_keys ks \<subseteq> K"
    and b: "caching_bulk_record cfg bulk ks st = Inr (r, st')"
  obtains r1 where
    "\<And>k. ur_lookup r1 k \<noteq> None \<Longrightarrow> k \<in> uk_keys ks \<and> (\<exists>i. ur_lookup r1 k = Some (Some i) \<and> i > 0)"
    "\<And>k i. ur_lookup r1 k = Some (Some i) \<Longrightarrow> base_resolve st k = Some i" "ur_wf r1"
    "(r = r1 \<and> st' = st \<and> uk_size (get_unmapped_use_case_keys r1 ks) = 0) \<or>
     (\<exists>r2. bulk (get_unmapped_use_case_keys r1 ks) (cs_base st) = Inr (r2, cs_base st') \<and>
        r = ur_merge r1 r2 \<and> caching_inv st')"
proof -
  obtain f where hits: "cache_hits cfg (cs_now st) (map key_string (uk_as_tuples ks)) (cs_cache st) =
      Inr (concat (map (\<lambda>k. case f k of None \<Rightarrow> [] | Some i \<Rightarrow> [(k, Some i)]) (uk_as_tuples ks)))"
    and get: "\<And>k. cache_get cfg (cs_now st) BR (key_string k) (cs_cache st) = Inr (f k)"
    using cache_hits_eq by blast
  define r1 where "r1 = add_use_case_key_results (Some CACHE_HIT) None
    (concat (map (\<lambda>k. case f k of None \<Rightarrow> [] | Some i \<Rightarrow> [(k, Some i)]) (uk_as_tuples ks))) []"
  have f: "base_resolve st k = Some i" if "f k = Some i" "k \<in> uk_keys ks" for k i
    using inv cache_agrees_get [of K cfg "resolve (cs_base st)" "cs_cache st"] get [of k] that within
    unfolding caching_inv_def base_resolve_def by (metis subsetD)
  have look: "ur_lookup r1 k = (if k \<in> uk_keys ks then map_option Some (f k) else None)" for k
    unfolding r1_def ur_lookup_selected by (simp add: uk_keys_def)
  have 1: "k \<in> uk_keys ks \<and> (\<exists>i. ur_lookup r1 k = Some (Some i) \<and> i > 0)" if "ur_lookup r1 k \<noteq> None" for k
  proof -
    from that obtain i where "k \<in> uk_keys ks" "f k = Some i" by (auto simp: look split: if_splits)
    moreover from this f inv have "i > 0"
      using resolve_pos unfolding caching_inv_def base_resolve_def by blast
    ultimately show ?thesis by (simp add: look)
  qed
  have 2: "base_resolve st k = Some i" if "ur_lookup r1 k = Some (Some i)" for k i
    using that f by (auto simp: look split: if_splits)
  have wf: "ur_wf r1" by (simp add: r1_def ur_wf_adds)
  show thesis
  proof (cases "uk_size (get_unmapped_use_case_keys r1 ks) = 0")
    case True
    with b hits have "r = r1 \<and> st' = st"
      by (simp add: caching_bulk_record_def uk_as_strings_tuples r1_def [symmetric])
    with True show thesis by (intro that [OF 1 2 wf]) blast+
  next
    case False
    from b obtain r2 s2 c2 where b2: "bulk (get_unmapped_use_case_keys r1 ks) (cs_base st) = Inr (r2, s2)"
      and c2: "cache_set_many cfg (cs_now st) BR (get_mapped_strings_to_ints r2) (cs_cache st) = Inr c2"
      and st': "r = ur_merge r1 r2" "st' = st\<lparr>cs_cache := c2, cs_base := s2\<rparr>"
      using False hits
      by (auto simp: caching_bulk_record_def uk_as_strings_tuples r1_def [symmetric] bind_result_Inr_iff)
    have i: "inv (cs_base st)" using inv by (simp add: caching_inv_def)
    note left = left_within [OF within]
    have agrees: "cache_agrees K cfg (resolve s2) (cs_cache st)"
      using inv cache_agrees_mono bulk_keeps [OF i left b2] unfolding caching_inv_def by blast
    have written: "\<exists>k \<in> K. str = key_string k \<and> resolve s2 k = Some v"
      if m: "(str, v) \<in> set (get_mapped_strings_to_ints r2)" for str v
    proof -
      obtain k where k: "str = key_string k" "ur_lookup r2 k = Some (Some v)"
        using mapped_strings [OF bulk_wf [OF i left b2] m] by blast
      then have "ur_id r2 k = Some v" by (simp add: ur_id_def)
      moreover have "k \<in> K"
        using bulk_covers [OF i left b2, of k] k(2) left by auto
      ultimately show ?thesis using bulk_sound [OF i left b2] k(1) by blast
    qed
    obtain c' where "cache_set_many cfg (cs_now st) BR (get_mapped_strings_to_ints r2) (cs_cache st) = Inr c'"
      "cache_agrees K cfg (resolve s2) c'"
      using cache_set_many_agrees [OF no_collision agrees written] by blast
    with c2 have "cache_agrees K cfg (resolve s2) c2" by simp
    then have "caching_inv st'" and "cs_base st' = s2"
      using bulk_inv [OF i left b2] by (simp_all add: caching_inv_def st')
    with b2 st'(1) show thesis by (intro that [OF 1 2 wf]) blast+
  qed
qed

lemma caching_resolve_base:
  assumes "caching_inv st" "k \<in> K"
  shows "\<exists>st'. caching_resolve cfg replenish resolve st k = Inr (base_resolve st k, st') \<and> caching_inv st'"
proof -
  obtain hit where hit: "cache_get cfg (cs_now st) RES (key_string k) (cs_cache st) = Inr hit"
    by (cases "cc_read_ns cfg") (simp_all add: cache_get_def)
  have agrees: "cache_agrees K cfg (resolve (cs_base st)) (cs_cache st)"
    using assms by (simp add: caching_inv_def)
  have rest: ?thesis if "\<And>n. hit \<noteq> Some (Suc n)"
  proof (cases "resolve (cs_base st) k")
    case None
    with assms hit that show ?thesis
      by (auto simp: caching_resolve_def base_resolve_def split: option.splits nat.splits)
  next
    case (Some i)
    obtain c' where "cache_set cfg (cs_now st) RES (key_string k) i (cs_cache st) = Inr c'"
      "cache_agrees K cfg (resolve (cs_base st)) c'"
      using cache_set_agrees [OF no_collision assms(2) agrees Some] by blast
    with assms hit that Some show ?thesis
      by (cases replenish)
        (auto simp: caching_resolve_def base_resolve_def caching_inv_def split: option.splits nat.splits)
  qed
  show ?thesis
  proof (cases hit)
    case None
    then show ?thesis by (intro rest) simp
  next
    case (Some n)
    then show ?thesis
    proof (cases n)
      case 0
      with Some show ?thesis by (intro rest) simp
    next
      case (Suc m)
      with Some hit cache_agrees_get [OF agrees assms(2)] have "resolve (cs_base st) k = Some (Suc m)" by simp
      with assms hit Some Suc show ?thesis by (simp add: caching_resolve_def base_resolve_def)
    qed
  qed
qed

end

sublocale caching_indexer \<subseteq> caching:
  string_indexer "caching_bulk_record cfg bulk" base_resolve caching_inv "caching_env K cfg resolve env" K
proof
  fix s s' ks r k i
  assume inv: "caching_inv s"
  then have i: "inv (cs_base s)" by (simp add: caching_inv_def)
  show "i > 0" if "base_resolve s k = Some i"
    using that resolve_pos [OF i] by (simp add: base_resolve_def)
  show "base_resolve s' k = Some i" if "caching_env K cfg resolve env s s'" "base_resolve s k = Some i"
    using that env_keeps [OF i] by (simp add: base_resolve_def caching_env_def)
  show "caching_inv s'" if e: "caching_env K cfg resolve env s s'"
  proof -
    have "env (cs_base s) (cs_base s')" using e by (simp add: caching_env_def)
    then have inv': "inv (cs_base s')"
      and keeps: "\<And>k v. resolve (cs_base s) k = Some v \<Longrightarrow> resolve (cs_base s') k = Some v"
      using env_inv [OF i] env_keeps [OF i] by blast+
    have "cache_agrees K cfg (resolve (cs_base s')) (cs_cache s)"
      using inv cache_agrees_mono keeps unfolding caching_inv_def by blast
    from cache_agrees_grow [OF no_collision this, of "cs_cache s'"] e inv' show ?thesis
      by (simp add: caching_inv_def caching_env_def)
  qed
  assume within: "uk_keys ks \<subseteq> K"
  note left = left_within [OF within]
  assume b: "caching_bulk_record cfg bulk ks s = Inr (r, s')"
  obtain r1 where
    1: "\<And>k. ur_lookup r1 k \<noteq> None \<Longrightarrow> k \<in> uk_keys ks \<and> (\<exists>i. ur_lookup r1 k = Some (Some i) \<and> i > 0)" and
    2: "\<And>k i. ur_lookup r1 k = Some (Some i) \<Longrightarrow> base_resolve s k = Some i" and wf: "ur_wf r1" and
    cases: "(r = r1 \<and> s' = s \<and> uk_size (get_unmapped_use_case_keys r1 ks) = 0) \<or>
     (\<exists>r2. bulk (get_unmapped_use_case_keys r1 ks) (cs_base s) = Inr (r2, cs_base s') \<and>
        r = ur_merge r1 r2 \<and> caching_inv s')"
    using caching_bulk_cases [OF inv within b] by blast
  show "ur_wf r" using cases wf ur_wf_merge bulk_wf [OF i left] by blast
  show "caching_inv s'" using cases inv by blast
  show keeps: "base_resolve s' k = Some i" if "base_resolve s k = Some i" for k i
    using cases that bulk_keeps [OF i left] unfolding base_resolve_def by blast
  show "k \<in> uk_keys ks \<longleftrightarrow> ur_lookup r k \<noteq> None"
    using cases
  proof
    assume "r = r1 \<and> s' = s \<and> uk_size (get_unmapped_use_case_keys r1 ks) = 0"
    then show ?thesis using nothing_unmapped [OF 1] by blast
  next
    assume "\<exists>r2. bulk (get_unmapped_use_case_keys r1 ks) (cs_base s) = Inr (r2, cs_base s') \<and>
        r = ur_merge r1 r2 \<and> caching_inv s'"
    then obtain r2 where b2: "bulk (get_unmapped_use_case_keys r1 ks) (cs_base s) = Inr (r2, cs_base s')"
      and r: "r = ur_merge r1 r2" by blast
    show ?thesis unfolding r by (rule layer_lookup(1) [OF 1 bulk_covers [OF i left b2]])
  qed
  show "base_resolve s' k = Some i" if id: "ur_id r k = Some i"
    using cases
  proof
    assume "r = r1 \<and> s' = s \<and> uk_size (get_unmapped_use_case_keys r1 ks) = 0"
    with id 1 [of k] 2 show ?thesis by (auto simp: ur_id_def split: option.splits)
  next
    assume "\<exists>r2. bulk (get_unmapped_use_case_keys r1 ks) (cs_base s) = Inr (r2, cs_base s') \<and>
        r = ur_merge r1 r2 \<and> caching_inv s'"
    then obtain r2 where b2: "bulk (get_unmapped_use_case_keys r1 ks) (cs_base s) = Inr (r2, cs_base s')"
      and r: "r = ur_merge r1 r2" by blast
    from layer_lookup(2) [OF 1 bulk_covers [OF i left b2], of k i] id r
    consider "ur_lookup r1 k = Some (Some i)" | "ur_id r2 k = Some i" by auto
    then show ?thesis
    proof cases
      case 1
      then show ?thesis using 2 keeps by blast
    next
      case 2
      then show ?thesis using bulk_sound [OF i left b2] by (simp add: base_resolve_def)
    qed
  qed
qed

context caching_indexer begin

lemma caching_contract:
  "string_indexer (caching_bulk_record cfg bulk) base_resolve caching_inv
     (caching_env K cfg resolve env) K"
  by (rule caching.string_indexer_axioms)

end

section \<open>The write limiter: \<open>limiters/writes.py\<close>\<close>

text \<open>
  \<open>granted u org n\<close> is what the sliding-window limiter grants of \<open>n\<close> requested writes, with
  whether one of the quotas that were reached is a global one, or
  \<open>None\<close> when no quota is configured for the use case. Which strings of a set are dropped is
  not determined by the code; here it is the first ones.
\<close>

type_synonym grants = "use_case_id \<Rightarrow> nat \<Rightarrow> nat \<Rightarrow> (nat \<times> bool) option"

definition limit_strings :: "grants \<Rightarrow> use_case_id \<Rightarrow> nat \<Rightarrow> string list \<Rightarrow> string list \<times> string list" where
  "limit_strings granted u org ss =
     (case granted u org (length ss) of
        None \<Rightarrow> (ss, [])
      | Some (g, _) \<Rightarrow> if length ss \<le> g then (ss, []) else (drop (length ss - g) ss, take (length ss - g) ss))"

definition accepted_keys :: "grants \<Rightarrow> use_case_keys \<Rightarrow> use_case_keys" where
  "accepted_keys granted ks =
     map (\<lambda>(u, kc). (u, map (\<lambda>(org, ss). (org, fst (limit_strings granted u org ss))) kc)) ks"

definition reached_global :: "grants \<Rightarrow> use_case_id \<Rightarrow> nat \<Rightarrow> string list \<Rightarrow> bool" where
  "reached_global granted u org ss = (case granted u org (length ss) of Some (_, glob) \<Rightarrow> glob | None \<Rightarrow> False)"

definition dropped_keys :: "grants \<Rightarrow> use_case_keys \<Rightarrow> (key \<times> bool) list" where
  "dropped_keys granted ks =
     concat (map (\<lambda>(u, kc). concat (map (\<lambda>(org, ss).
       map (\<lambda>s. ((u, org, s), reached_global granted u org ss)) (snd (limit_strings granted u org ss))) kc)) ks)"

definition limited_results :: "(key \<times> bool) list \<Rightarrow> use_case_results" where
  "limited_results drops =
     foldl (\<lambda>r (k, glob). add_use_case_key_result (Some RATE_LIMITED) (Some glob) (k, None) r) [] drops"

lemma limit_strings_set:
  "set (fst (limit_strings granted u org ss)) \<union> set (snd (limit_strings granted u org ss)) = set ss"
proof -
  have "set (drop n ss) \<union> set (take n ss) = set ss" for n
    by (metis Un_commute append_take_drop_id set_append)
  then show ?thesis by (auto simp: limit_strings_def split: option.splits)
qed

lemma in_map_pair: "(a, c) \<in> set (map (\<lambda>(a, b). (a, f a b)) xs) \<longleftrightarrow> (\<exists>b. (a, b) \<in> set xs \<and> c = f a b)"
  by auto

lemma concat_map_member: "x \<in> set xs \<Longrightarrow> y \<in> set (f x) \<Longrightarrow> y \<in> set (concat (map f xs))"
  by auto

lemma accepted_or_dropped:
  "uk_keys (accepted_keys granted ks) \<union> fst ` set (dropped_keys granted ks) = uk_keys ks"
proof (rule set_eqI)
  fix k :: key
  obtain u org s where k: "k = (u, org, s)" by (cases k) auto
  have a: "(u, org, s) \<in> uk_keys (accepted_keys granted ks) \<longleftrightarrow>
      (\<exists>kc ss. (u, kc) \<in> set ks \<and> (org, ss) \<in> set kc \<and> s \<in> set (fst (limit_strings granted u org ss)))"
    (is "_ = ?r")
  proof
    assume "(u, org, s) \<in> uk_keys (accepted_keys granted ks)"
    then show ?r unfolding uk_keys_iff accepted_keys_def in_map_pair by (auto simp only: in_map_pair) blast
  next
    assume ?r
    then obtain kc ss where m: "(u, kc) \<in> set ks" "(org, ss) \<in> set kc"
      "s \<in> set (fst (limit_strings granted u org ss))" by blast
    let ?kc = "map (\<lambda>(org, ss). (org, fst (limit_strings granted u org ss))) kc"
    have "(u, ?kc) \<in> set (accepted_keys granted ks)"
      unfolding accepted_keys_def in_map_pair using m(1) by blast
    moreover have "(org, fst (limit_strings granted u org ss)) \<in> set ?kc"
      unfolding in_map_pair using m(2) by blast
    ultimately show "(u, org, s) \<in> uk_keys (accepted_keys granted ks)"
      unfolding uk_keys_iff using m(3) by blast
  qed
  have d: "(u, org, s) \<in> fst ` set (dropped_keys granted ks) \<longleftrightarrow>
      (\<exists>kc ss. (u, kc) \<in> set ks \<and> (org, ss) \<in> set kc \<and> s \<in> set (snd (limit_strings granted u org ss)))"
    (is "_ = ?r")
  proof
    assume "(u, org, s) \<in> fst ` set (dropped_keys granted ks)"
    then show ?r by (auto simp: dropped_keys_def) blast
  next
    assume ?r
    then obtain kc ss where m: "(u, kc) \<in> set ks" "(org, ss) \<in> set kc"
      "s \<in> set (snd (limit_strings granted u org ss))" by blast
    let ?g = "\<lambda>org ss s. ((u, org, s), reached_global granted u org ss)"
    from m(3) have "?g org ss s \<in> set (map (?g org ss) (snd (limit_strings granted u org ss)))" by simp
    with m(2) have "?g org ss s \<in> set (concat (map (\<lambda>(org, ss).
        map (?g org ss) (snd (limit_strings granted u org ss))) kc))"
      by (metis (no_types, lifting) case_prod_conv concat_map_member)
    with m(1) have "?g org ss s \<in> set (dropped_keys granted ks)"
      unfolding dropped_keys_def by (metis (no_types, lifting) case_prod_conv concat_map_member)
    then show "(u, org, s) \<in> fst ` set (dropped_keys granted ks)" by force
  qed
  show "k \<in> uk_keys (accepted_keys granted ks) \<union> fst ` set (dropped_keys granted ks) \<longleftrightarrow> k \<in> uk_keys ks"
    unfolding k Un_iff a d uk_keys_iff [of u org s ks] using limit_strings_set by blast
qed

lemma accepted_subset: "k \<in> uk_keys (accepted_keys granted ks) \<Longrightarrow> k \<in> uk_keys ks"
  using accepted_or_dropped by blast

section \<open>The Postgres indexer: \<open>postgres/postgres_v2.py\<close>\<close>

text \<open>
  One table for each metric path, and what the limiter and the database will answer to the next
  call. The table of release health has no use case column: rows
  there are written with \<open>SESSIONS\<close> and the column is never read.
\<close>

record index_row =
  ir_id :: nat
  ir_use_case :: use_case_id
  ir_org :: nat
  ir_string :: string

datatype create_outcome = Created | Deadlock | OtherOperationalError

record pg =
  pg_rows :: "use_case_key \<Rightarrow> index_row list"
  pg_next :: "use_case_key \<Rightarrow> nat"
  pg_granted :: grants
  pg_outcomes :: "nat \<Rightarrow> create_outcome"

definition row_key :: "use_case_key \<Rightarrow> index_row \<Rightarrow> key" where
  "row_key p row = ((if p = RELEASE_HEALTH then SESSIONS else ir_use_case row), ir_org row, ir_string row)"

definition row_matches :: "use_case_key \<Rightarrow> key \<Rightarrow> index_row \<Rightarrow> bool" where
  "row_matches p k row =
     (case k of (u, org, s) \<Rightarrow>
        (p = PERFORMANCE \<longrightarrow> ir_use_case row = u) \<and> ir_org row = org \<and> ir_string row = s)"

definition get_db_records :: "use_case_key \<Rightarrow> use_case_keys \<Rightarrow> pg \<Rightarrow> index_row list" where
  "get_db_records p ks st = filter (\<lambda>row. list_ex (\<lambda>k. row_matches p k row) (uk_as_tuples ks)) (pg_rows st p)"

definition get_metric_path_key :: "use_case_keys \<Rightarrow> use_case_key result" where
  "get_metric_path_key ks =
     (case remdups (map (\<lambda>(u, _). metric_path u) ks) of
        [] \<Rightarrow> Inl (OtherError ''StopIteration'')
      | [p] \<Rightarrow> Inr p
      | _ \<Rightarrow> Inl ValueError)"

text \<open>\<open>bulk_create(ignore_conflicts=True)\<close>: a row whose unique key exists is skipped.\<close>

fun create_rows :: "use_case_key \<Rightarrow> key list \<Rightarrow> pg \<Rightarrow> pg" where
  "create_rows p [] st = st"
| "create_rows p ((u, org, s) # ks) st =
     (if list_ex (row_matches p (u, org, s)) (pg_rows st p) then create_rows p ks st
      else create_rows p ks
        (st\<lparr>pg_rows := (pg_rows st)(p := pg_rows st p @
              [\<lparr>ir_id = pg_next st p, ir_use_case = u, ir_org = org, ir_string = s\<rparr>]),
            pg_next := (pg_next st)(p := Suc (pg_next st p))\<rparr>))"

definition RETRY_COUNT :: nat where "RETRY_COUNT = 2"

function create_attempts :: "(nat \<Rightarrow> create_outcome) \<Rightarrow> nat \<Rightarrow> bool \<Rightarrow> unit result" where
  \<comment> \<open>\<open>outcomes i\<close> is what the database answers to attempt \<open>i\<close>\<close>
  "create_attempts outcomes n seen =
     (if n + 1 < RETRY_COUNT
      then (case outcomes n of
              Created \<Rightarrow> Inr ()
            | Deadlock \<Rightarrow> create_attempts outcomes (n + 1) True
            | OtherOperationalError \<Rightarrow> Inl (OtherError ''OperationalError''))
      else if seen then Inl (OtherError ''OperationalError'') else Inl AssertionError)"
  by auto
termination by (relation "measure (\<lambda>(_, n, _). RETRY_COUNT - n)") (auto simp: RETRY_COUNT_def)

declare create_attempts.simps [simp del]

definition db_results :: "use_case_key \<Rightarrow> fetch_type \<Rightarrow> use_case_keys \<Rightarrow> pg \<Rightarrow> use_case_results" where
  "db_results p ft ks st =
     add_use_case_key_results (Some ft) None
       (map (\<lambda>row. (row_key p row, Some (ir_id row))) (get_db_records p ks st)) []"

definition pg_bulk_record ::
  "use_case_keys \<Rightarrow> pg \<Rightarrow> (use_case_results \<times> pg) result" where
  "pg_bulk_record ks st =
     bind_result (get_metric_path_key ks) (\<lambda>p.
       if uk_as_tuples ks = [] then Inl TypeError
       else
         (let reads = db_results p DB_READ ks st;
              write_keys = get_unmapped_use_case_keys reads ks
          in if uk_size write_keys = 0 then Inr (reads, st)
             else
               (let accepted = accepted_keys (pg_granted st) write_keys;
                    limited = limited_results (dropped_keys (pg_granted st) write_keys)
                in if uk_size accepted = 0 then Inr (ur_merge reads limited, st)
                   else bind_result (create_attempts (pg_outcomes st) 0 False) (\<lambda>_.
                     let st1 = create_rows p (uk_as_tuples accepted) st
                     in Inr (ur_merge (ur_merge reads (db_results p FIRST_SEEN accepted st1)) limited, st1)))))"

definition pg_resolve :: "pg \<Rightarrow> key \<Rightarrow> nat option" where
  "pg_resolve st k =
     map_option ir_id (find (row_matches (metric_path (fst k)) k) (pg_rows st (metric_path (fst k))))"

definition pg_reverse_resolve :: "pg \<Rightarrow> use_case_id \<Rightarrow> nat \<Rightarrow> nat \<Rightarrow> string option result" where
  "pg_reverse_resolve st u org i =
     (case find (\<lambda>row. ir_id row = i) (pg_rows st (metric_path u)) of
        None \<Rightarrow> Inr None
      | Some row \<Rightarrow> if ir_org row = org then Inr (Some (ir_string row)) else Inl AssertionError)"

text \<open>Other processes insert rows of their own; limits and outcomes of writes change.\<close>

definition pg_env :: "pg \<Rightarrow> pg \<Rightarrow> bool" where
  "pg_env st st' = (\<exists>p ks g os. st' = (create_rows p ks st)\<lparr>pg_granted := g, pg_outcomes := os\<rparr>)"

definition pg_inv :: "pg \<Rightarrow> bool" where
  "pg_inv st = (\<forall>p. pg_next st p > 0 \<and> distinct (map ir_id (pg_rows st p)) \<and>
     distinct (map (row_key p) (pg_rows st p)) \<and>
     (\<forall>i \<in> set (map ir_id (pg_rows st p)). 0 < i \<and> i < pg_next st p))"

definition pg0 :: pg where
  "pg0 = \<lparr>pg_rows = (\<lambda>_. []), pg_next = (\<lambda>_. 65537), pg_granted = (\<lambda>_ _ _. None),
     pg_outcomes = (\<lambda>_. Created)\<rparr>"

lemma pg_inv_0: "pg_inv pg0"
  by (simp add: pg_inv_def pg0_def)

lemma matches_key: "metric_path (fst k) = p \<Longrightarrow> row_matches p k row \<longleftrightarrow> row_key p row = k"
  by (cases k; cases "fst k"; cases p) (auto simp: row_matches_def row_key_def)

lemma create_rows_inv: "pg_inv st \<Longrightarrow> pg_inv (create_rows p ks st)"
proof (induction p ks st rule: create_rows.induct)
  case (2 p u org s ks st)
  show ?case
  proof (cases "list_ex (row_matches p (u, org, s)) (pg_rows st p)")
    case True
    with 2 show ?thesis by simp
  next
    case False
    let ?row = "\<lparr>ir_id = pg_next st p, ir_use_case = u, ir_org = org, ir_string = s\<rparr>"
    let ?st = "st\<lparr>pg_rows := (pg_rows st)(p := pg_rows st p @ [?row]),
      pg_next := (pg_next st)(p := Suc (pg_next st p))\<rparr>"
    have key: "row_key p ?row \<notin> row_key p ` set (pg_rows st p)"
      using False by (auto simp: list_ex_iff row_matches_def row_key_def split: if_splits)
    have ids: "\<forall>i \<in> set (map ir_id (pg_rows st p)). 0 < i \<and> i < pg_next st p"
      using 2(3) unfolding pg_inv_def by blast
    then have "pg_next st p \<notin> ir_id ` set (pg_rows st p)" by auto
    with 2(3) key ids have "pg_inv ?st"
      by (auto simp: pg_inv_def less_Suc_eq)
    with 2(2) False show ?thesis by simp
  qed
qed simp

lemma create_rows_grows:
  "pg_rows (create_rows p ks st) q = pg_rows st q \<or> q = p \<and> (\<exists>rows. pg_rows (create_rows p ks st) p = pg_rows st p @ rows)"
proof (induction p ks st rule: create_rows.induct)
  case (2 p u org s ks st)
  then show ?case by (cases "q = p") (auto split: if_splits)
qed simp

lemma create_rows_keeps: "pg_resolve st k = Some i \<Longrightarrow> pg_resolve (create_rows p ks st) k = Some i"
  using create_rows_grows [of p ks st "metric_path (fst k)"]
  by (auto simp: pg_resolve_def find_append)

lemma pg_resolve_present:
  assumes "list_ex (row_matches (metric_path (fst k)) k) (pg_rows st (metric_path (fst k)))"
  shows "\<exists>i. pg_resolve st k = Some i"
proof -
  have "find (row_matches (metric_path (fst k)) k) (pg_rows st (metric_path (fst k))) \<noteq> None"
    using assms by (auto simp: find_None_iff list_ex_iff)
  then show ?thesis by (auto simp: pg_resolve_def)
qed

lemma create_rows_present:
  "k \<in> set ks \<Longrightarrow> metric_path (fst k) = p \<Longrightarrow> \<exists>i. pg_resolve (create_rows p ks st) k = Some i"
proof (induction p ks st rule: create_rows.induct)
  case (2 p u org s ks st)
  show ?case
  proof (cases "k = (u, org, s)")
    case False
    with 2 show ?thesis by simp
  next
    case True
    show ?thesis
    proof (cases "list_ex (row_matches p (u, org, s)) (pg_rows st p)")
      case ex: True
      then obtain i where "pg_resolve st k = Some i"
        using pg_resolve_present [of k st] True "2.prems"(2) by auto
      from create_rows_keeps [OF this] ex show ?thesis by simp
    next
      case none: False
      let ?st = "st\<lparr>pg_rows := (pg_rows st)(p := pg_rows st p @
          [\<lparr>ir_id = pg_next st p, ir_use_case = u, ir_org = org, ir_string = s\<rparr>]),
        pg_next := (pg_next st)(p := Suc (pg_next st p))\<rparr>"
      have "list_ex (row_matches p (u, org, s)) (pg_rows ?st p)"
        by (simp add: row_matches_def)
      then obtain i where "pg_resolve ?st k = Some i"
        using pg_resolve_present [of k ?st] True "2.prems"(2) by auto
      from create_rows_keeps [OF this] none show ?thesis by simp
    qed
  qed
qed simp

lemma map_of_rev: "distinct (map fst xs) \<Longrightarrow> map_of (rev xs) = map_of xs"
proof (rule ext)
  fix k assume d: "distinct (map fst xs)"
  then have "distinct (map fst (rev xs))" by (simp flip: rev_map)
  with d have "map_of (rev xs) k = Some v \<longleftrightarrow> map_of xs k = Some v" for v
    by (simp add: map_of_eq_Some_iff)
  then show "map_of (rev xs) k = map_of xs k" by (metis not_None_eq)
qed

lemma find_filter_unique:
  "distinct (map f xs) \<Longrightarrow> map_of (map (\<lambda>x. (f x, g x)) (filter P xs)) k =
     (case find (\<lambda>x. f x = k) xs of Some x \<Rightarrow> if P x then Some (g x) else None | None \<Rightarrow> None)"
proof (induction xs)
  case (Cons x xs)
  have "map_of (map (\<lambda>x. (f x, g x)) (filter P xs)) (f x) = None"
    using Cons.prems by (auto simp: map_of_eq_None_iff)
  with Cons show ?case by (auto split: option.splits)
qed simp

text \<open>The rows read for a collection are the ids of its keys.\<close>

lemma db_lookup:
  assumes inv: "pg_inv st" and path: "\<And>k. k \<in> uk_keys ks \<Longrightarrow> metric_path (fst k) = p"
  shows "ur_lookup (db_results p ft ks st) k =
    (if k \<in> uk_keys ks then map_option Some (pg_resolve st k) else None)"
proof -
  let ?P = "\<lambda>row. list_ex (\<lambda>k. row_matches p k row) (uk_as_tuples ks)"
  let ?kis = "map (\<lambda>row. (row_key p row, Some (ir_id row))) (filter ?P (pg_rows st p))"
  have d: "distinct (map (row_key p) (pg_rows st p))" using inv by (simp add: pg_inv_def)
  then have "distinct (map fst ?kis)" by (simp add: o_def distinct_map_filter)
  then have look: "ur_lookup (db_results p ft ks st) k = map_of ?kis k"
    by (simp add: db_results_def get_db_records_def ur_lookup_adds map_of_rev split: option.splits)
  also have "\<dots> = (case find (\<lambda>row. row_key p row = k) (pg_rows st p) of
      Some row \<Rightarrow> if ?P row then Some (Some (ir_id row)) else None | None \<Rightarrow> None)"
    by (rule find_filter_unique [OF d])
  also have "\<dots> = (if k \<in> uk_keys ks then map_option Some (pg_resolve st k) else None)"
  proof (cases "k \<in> uk_keys ks")
    case True
    have "row_matches (metric_path (fst k)) k = (\<lambda>row. row_key p row = k)"
      using matches_key [OF path [OF True]] path [OF True] by auto
    moreover have "?P row" if "row_key p row = k" for row
      using that True matches_key [OF path [OF True]] by (auto simp: list_ex_iff uk_keys_def)
    ultimately show ?thesis
      using True path [OF True]
      by (auto simp: pg_resolve_def dest: find_Some_iff [THEN iffD1] split: option.splits)
  next
    case False
    have "\<not> ?P row" if "row_key p row = k" for row
    proof
      assume "?P row"
      then obtain k' where k': "k' \<in> uk_keys ks" "row_matches p k' row"
        by (auto simp: list_ex_iff uk_keys_def)
      with matches_key [OF path [OF k'(1)]] have "row_key p row = k'" by simp
      with k'(1) that False show False by simp
    qed
    with False show ?thesis
      by (auto dest: find_Some_iff [THEN iffD1] split: option.splits)
  qed
  finally show ?thesis .
qed

lemma db_results_wf: "ur_wf (db_results p ft ks st)"
  by (simp add: db_results_def ur_wf_adds)

lemma path_of_keys:
  assumes "get_metric_path_key ks = Inr p" "k \<in> uk_keys ks" shows "metric_path (fst k) = p"
proof -
  obtain u org s where k: "k = (u, org, s)" by (cases k) auto
  with assms(2) obtain kc where "(u, kc) \<in> set ks" unfolding k uk_keys_iff by blast
  then have "metric_path u \<in> set (remdups (map (\<lambda>(u, _). metric_path u) ks))" by force
  moreover have "remdups (map (\<lambda>(u, _). metric_path u) ks) = [p]"
    using assms(1) by (auto simp: get_metric_path_key_def split: list.splits)
  ultimately show ?thesis by (simp only: k fst_conv list.set empty_iff insert_iff) simp
qed

lemma pg_resolve_pos: "pg_inv st \<Longrightarrow> pg_resolve st k = Some i \<Longrightarrow> i > 0"
  unfolding pg_resolve_def pg_inv_def by (auto dest: find_in_set)

lemma limited_lookup:
  "ur_lookup (limited_results drops) k = (if k \<in> fst ` set drops then Some None else None)"
proof -
  have "ur_lookup (foldl (\<lambda>r (k, glob). add_use_case_key_result (Some RATE_LIMITED) (Some glob) (k, None) r) r drops) k =
      (if k \<in> fst ` set drops then Some None else ur_lookup r k)" for r
    by (induction drops arbitrary: r) auto
  then show ?thesis by (simp add: limited_results_def)
qed

lemma limited_wf: "ur_wf (limited_results drops)"
proof -
  have "ur_wf r \<Longrightarrow> ur_wf (foldl (\<lambda>r (k, glob). add_use_case_key_result (Some RATE_LIMITED) (Some glob) (k, None) r) r drops)" for r
    by (induction drops arbitrary: r) (auto simp: ur_wf_add)
  then show ?thesis by (simp add: limited_results_def)
qed

lemma pg_bulk_lookup:
  assumes inv: "pg_inv st" and b: "pg_bulk_record ks st = Inr (r, st')"
  shows "pg_inv st' \<and> ur_wf r
    \<and> (\<forall>k i. pg_resolve st k = Some i \<longrightarrow> pg_resolve st' k = Some i)
    \<and> (\<forall>k. k \<notin> uk_keys ks \<longrightarrow> ur_lookup r k = None)
    \<and> (\<forall>k \<in> uk_keys ks. ur_lookup r k = Some None \<or>
         (\<exists>i. ur_lookup r k = Some (Some i) \<and> pg_resolve st' k = Some i))"
proof -
  from b obtain p where p: "get_metric_path_key ks = Inr p" and ne: "uk_as_tuples ks \<noteq> []"
    by (auto simp: pg_bulk_record_def bind_result_Inr_iff split: if_splits)
  note path = path_of_keys [OF p]
  define reads where "reads = db_results p DB_READ ks st"
  define wk where "wk = get_unmapped_use_case_keys reads ks"
  define acc where "acc = accepted_keys (pg_granted st) wk"
  define limited where "limited = limited_results (dropped_keys (pg_granted st) wk)"
  define st1 where "st1 = create_rows p (uk_as_tuples acc) st"
  have look: "ur_lookup reads k = (if k \<in> uk_keys ks then map_option Some (pg_resolve st k) else None)" for k
    unfolding reads_def by (rule db_lookup [OF inv path])
  have wk: "k \<in> uk_keys wk \<longleftrightarrow> k \<in> uk_keys ks \<and> pg_resolve st k = None" for k
    using pg_resolve_pos [OF inv, of k]
    by (cases "pg_resolve st k") (auto simp: wk_def unmapped_keys unmapped_def ur_id_def look)
  have lim: "ur_lookup limited k = (if k \<in> fst ` set (dropped_keys (pg_granted st) wk) then Some None else None)" for k
    unfolding limited_def by (rule limited_lookup)
  have split: "k \<in> uk_keys wk \<longleftrightarrow> k \<in> uk_keys acc \<or> k \<in> fst ` set (dropped_keys (pg_granted st) wk)" for k
    unfolding acc_def using accepted_or_dropped [of "pg_granted st" wk] by blast
  have wf: "ur_wf reads" "ur_wf limited"
    by (simp_all add: reads_def limited_def db_results_wf limited_wf)
  have inv1: "pg_inv st1" by (simp add: st1_def create_rows_inv inv)
  have keeps: "pg_resolve st1 k = Some i" if "pg_resolve st k = Some i" for k i
    using that by (simp add: st1_def create_rows_keeps)
  have accpath: "metric_path (fst k) = p" if "k \<in> uk_keys acc" for k
    using that split wk path by blast
  have writes: "ur_lookup (db_results p FIRST_SEEN acc st1) k =
      (if k \<in> uk_keys acc then map_option Some (pg_resolve st1 k) else None)" for k
    by (rule db_lookup [OF inv1 accpath])
  have made: "\<exists>i. pg_resolve st1 k = Some i" if "k \<in> uk_keys acc" for k
    unfolding st1_def by (rule create_rows_present) (use that accpath in \<open>auto simp: uk_keys_def\<close>)
  have body: "(if uk_size wk = 0 then Inr (reads, st)
     else if uk_size acc = 0 then Inr (ur_merge reads limited, st)
     else bind_result (create_attempts (pg_outcomes st) 0 False)
       (\<lambda>_. Inr (ur_merge (ur_merge reads (db_results p FIRST_SEEN acc st1)) limited, st1))) = Inr (r, st')"
    using b
    unfolding pg_bulk_record_def p bind_result.simps Let_def reads_def wk_def acc_def limited_def st1_def
    by (simp only: ne if_False)
  show ?thesis
  proof (cases "uk_size wk = 0")
    case True
    with body have r: "r = reads" "st' = st" by auto
    have "\<exists>i. pg_resolve st k = Some i" if "k \<in> uk_keys ks" for k
      using True that wk unfolding uk_size_0 by auto
    with inv wf look r show ?thesis by fastforce
  next
    case wk0: False
    show ?thesis
    proof (cases "uk_size acc = 0")
      case True
      with body wk0 have r: "r = ur_merge reads limited" "st' = st" by auto
      have "ur_lookup r k = (if k \<in> uk_keys ks then Some (pg_resolve st k) else None)" for k
        using wk [of k] split [of k] True
        by (cases "pg_resolve st k") (auto simp: r look lim uk_size_0)
      with inv wf r show ?thesis by (auto simp: ur_wf_merge)
    next
      case False
      with body wk0 have r: "r = ur_merge (ur_merge reads (db_results p FIRST_SEEN acc st1)) limited"
        "st' = st1" by (auto simp: bind_result_Inr_iff)
      have "ur_lookup r k = (case ur_lookup reads k of
          None \<Rightarrow> (case ur_lookup (db_results p FIRST_SEEN acc st1) k of
                    None \<Rightarrow> ur_lookup limited k | Some i \<Rightarrow> Some i)
        | Some i \<Rightarrow> Some i)" for k
        by (simp add: r split: option.splits)
      then have "ur_lookup r k = (if k \<in> uk_keys ks
          then Some (if k \<in> uk_keys acc \<or> pg_resolve st k \<noteq> None then pg_resolve st1 k else None) else None)" for k
        using wk [of k] split [of k] made [of k] keeps [of k]
        by (cases "pg_resolve st k") (auto simp: look lim writes split: option.splits)
      with inv1 wf keeps r show ?thesis
        using made by (auto simp: ur_wf_merge db_results_wf)
    qed
  qed
qed

lemma pg_env_facts:
  "pg_inv st \<Longrightarrow> pg_env st st' \<Longrightarrow> pg_inv st' \<and> (\<forall>k i. pg_resolve st k = Some i \<longrightarrow> pg_resolve st' k = Some i)"
  using create_rows_inv create_rows_keeps by (fastforce simp: pg_env_def pg_inv_def pg_resolve_def)

interpretation pg: string_indexer "pg_bulk_record" pg_resolve pg_inv pg_env K for K
proof
  fix s s' ks r k i
  assume inv: "pg_inv s"
  show "i > 0" if "pg_resolve s k = Some i" using pg_resolve_pos [OF inv that] .
  show "pg_inv s'" if "pg_env s s'" using pg_env_facts [OF inv that] by blast
  show "pg_resolve s' k = Some i" if "pg_env s s'" "pg_resolve s k = Some i"
    using pg_env_facts [OF inv that(1)] that(2) by blast
  assume b: "pg_bulk_record ks s = Inr (r, s')"
  note facts = pg_bulk_lookup [OF inv b]
  show "ur_wf r" "pg_inv s'" using facts by blast+
  show "pg_resolve s' k = Some i" if "pg_resolve s k = Some i" using facts that by blast
  show "k \<in> uk_keys ks \<longleftrightarrow> ur_lookup r k \<noteq> None"
    using facts by (cases "k \<in> uk_keys ks") fastforce+
  show "pg_resolve s' k = Some i" if "ur_id r k = Some i"
  proof -
    have "ur_lookup r k = Some (Some i)" using that by (auto simp: ur_id_def split: option.splits)
    with facts show ?thesis by (cases "k \<in> uk_keys ks") fastforce+
  qed
qed

section \<open>The indexer of the tests: \<open>mock.py\<close>\<close>

record raw =
  raw_counter :: nat
  raw_strings :: "(key, nat) dict"
  raw_reverse :: "(nat, string) dict"

definition raw0 :: raw where
  "raw0 = \<lparr>raw_counter = 10000, raw_strings = [], raw_reverse = []\<rparr>"

definition raw_resolve :: "raw \<Rightarrow> key \<Rightarrow> nat option" where
  "raw_resolve st k = dict_get (raw_strings st) k"

definition raw_reverse_resolve :: "raw \<Rightarrow> use_case_id \<Rightarrow> nat \<Rightarrow> nat \<Rightarrow> string option result" where
  "raw_reverse_resolve st u org i = Inr (dict_get (raw_reverse st) i)"

definition raw_record :: "key \<Rightarrow> raw \<Rightarrow> nat \<times> raw" where
  "raw_record k st =
     (let (i, st1) = (case dict_get (raw_strings st) k of
            Some i \<Rightarrow> (i, st)
          | None \<Rightarrow> (raw_counter st, st\<lparr>raw_counter := Suc (raw_counter st),
                       raw_strings := dict_set k (raw_counter st) (raw_strings st)\<rparr>))
      in (i, st1\<lparr>raw_reverse := dict_set i (snd (snd k)) (raw_reverse st1)\<rparr>))"

fun raw_record_all :: "key list \<Rightarrow> raw \<Rightarrow> (key \<times> nat option) list \<times> raw" where
  "raw_record_all [] st = ([], st)"
| "raw_record_all (k # ks) st =
     (let (i, st1) = raw_record k st; (kis, st2) = raw_record_all ks st1 in ((k, Some i) # kis, st2))"

definition raw_bulk_record :: "use_case_keys \<Rightarrow> raw \<Rightarrow> (use_case_results \<times> raw) result" where
  "raw_bulk_record ks st =
     (let reads = add_use_case_key_results (Some DB_READ) None
            (concat (map (\<lambda>k. case raw_resolve st k of None \<Rightarrow> [] | Some i \<Rightarrow> [(k, Some i)]) (uk_as_tuples ks))) [];
          write_keys = get_unmapped_use_case_keys reads ks
      in if uk_size write_keys = 0 then Inr (reads, st)
         else
           (let (kis, st1) = raw_record_all (uk_as_tuples write_keys) st
            in Inr (ur_merge reads (add_use_case_key_results (Some FIRST_SEEN) None kis []), st1)))"

definition raw_inv :: "raw \<Rightarrow> bool" where
  "raw_inv st = (0 < raw_counter st \<and> (\<forall>k i. raw_resolve st k = Some i \<longrightarrow> 0 < i))"

lemma raw_record_facts:
  "raw_inv st \<Longrightarrow> raw_record k st = (i, st') \<Longrightarrow>
   raw_inv st' \<and> raw_resolve st' k = Some i \<and> (\<forall>k' j. raw_resolve st k' = Some j \<longrightarrow> raw_resolve st' k' = Some j)"
  by (auto simp: raw_record_def raw_inv_def raw_resolve_def Let_def split: option.splits if_splits)

lemma raw_record_all_facts:
  "raw_inv st \<Longrightarrow> raw_record_all ks st = (kis, st') \<Longrightarrow>
   raw_inv st' \<and> map fst kis = ks \<and> (\<forall>(k, i) \<in> set kis. i \<noteq> None \<and> i = raw_resolve st' k)
     \<and> (\<forall>k j. raw_resolve st k = Some j \<longrightarrow> raw_resolve st' k = Some j)"
proof (induction ks arbitrary: st kis st')
  case (Cons k ks)
  obtain i st1 where 1: "raw_record k st = (i, st1)" by fastforce
  obtain kis2 st2 where 2: "raw_record_all ks st1 = (kis2, st2)" by fastforce
  from raw_record_facts [OF Cons.prems(1) 1] have r: "raw_inv st1" "raw_resolve st1 k = Some i"
    "\<And>k' j. raw_resolve st k' = Some j \<Longrightarrow> raw_resolve st1 k' = Some j" by blast+
  have kis: "kis = (k, Some i) # kis2" "st' = st2" using Cons.prems(2) 1 2 by auto
  note ih = Cons.IH [OF r(1) 2]
  then have "raw_resolve st2 k = Some i" using r(2) by blast
  with ih r(3) show ?case unfolding kis by auto
qed simp

interpretation raw: string_indexer raw_bulk_record raw_resolve raw_inv "(=)" K for K
proof
  fix s s' ks r k i
  assume inv: "raw_inv s"
  show "i > 0" if "raw_resolve s k = Some i" using that inv unfolding raw_inv_def by blast
  show "raw_inv s'" if "s = s'" using that inv by simp
  show "raw_resolve s' k = Some i" if "s = s'" "raw_resolve s k = Some i" using that by simp
  assume b: "raw_bulk_record ks s = Inr (r, s')"
  define reads where "reads = add_use_case_key_results (Some DB_READ) None
    (concat (map (\<lambda>k. case raw_resolve s k of None \<Rightarrow> [] | Some i \<Rightarrow> [(k, Some i)]) (uk_as_tuples ks))) []"
  define wk where "wk = get_unmapped_use_case_keys reads ks"
  obtain kis s1 where w: "raw_record_all (uk_as_tuples wk) s = (kis, s1)" by fastforce
  define writes where "writes = add_use_case_key_results (Some FIRST_SEEN) None kis []"
  have look: "ur_lookup reads k = (if k \<in> uk_keys ks then map_option Some (raw_resolve s k) else None)" for k
    unfolding reads_def ur_lookup_selected by (simp add: uk_keys_def)
  have pos: "0 < j" if "raw_resolve s k = Some j" for j k
    using that inv unfolding raw_inv_def by blast
  have first: "ur_lookup reads k \<noteq> None \<Longrightarrow> k \<in> uk_keys ks \<and> (\<exists>i. ur_lookup reads k = Some (Some i) \<and> i > 0)" for k
    using pos by (cases "raw_resolve s k") (auto simp: look split: if_splits)
  have cases: "(uk_size wk = 0 \<and> r = reads \<and> s' = s) \<or> (r = ur_merge reads writes \<and> s' = s1)"
    using b w unfolding raw_bulk_record_def Let_def reads_def wk_def writes_def
    by (auto split: if_splits)
  from raw_record_all_facts [OF inv w] have f: "raw_inv s1" "map fst kis = uk_as_tuples wk"
    "\<And>k i. (k, i) \<in> set kis \<Longrightarrow> i \<noteq> None \<and> i = raw_resolve s1 k"
    "\<And>k j. raw_resolve s k = Some j \<Longrightarrow> raw_resolve s1 k = Some j" by auto
  have wl: "ur_lookup writes k = map_of (rev kis) k" for k
    unfolding writes_def ur_lookup_adds by (simp split: option.splits)
  have wdom: "k \<in> uk_keys wk \<longleftrightarrow> ur_lookup writes k \<noteq> None" for k
    unfolding wl uk_keys_def f(2) [symmetric] by (auto simp: map_of_eq_None_iff)
  show "ur_wf r" using cases by (auto simp: reads_def writes_def ur_wf_adds ur_wf_merge)
  show "raw_inv s'" using cases f(1) inv by blast
  show keeps: "raw_resolve s' k = Some i" if "raw_resolve s k = Some i" for k i
    using cases f(4) that by blast
  show "k \<in> uk_keys ks \<longleftrightarrow> ur_lookup r k \<noteq> None"
    using cases
  proof
    assume "uk_size wk = 0 \<and> r = reads \<and> s' = s"
    then show ?thesis using nothing_unmapped [OF first] by (auto simp: wk_def)
  next
    assume "r = ur_merge reads writes \<and> s' = s1"
    then show ?thesis using layer_lookup(1) [OF first wdom [unfolded wk_def]] by blast
  qed
  show "raw_resolve s' k = Some i" if id: "ur_id r k = Some i"
    using cases
  proof
    assume "uk_size wk = 0 \<and> r = reads \<and> s' = s"
    with id show ?thesis by (auto simp: ur_id_def look split: option.splits if_splits)
  next
    assume c: "r = ur_merge reads writes \<and> s' = s1"
    with layer_lookup(2) [OF first wdom [unfolded wk_def], of k i] id
    consider "ur_lookup reads k = Some (Some i)" | "ur_id writes k = Some i" by auto
    then show ?thesis
    proof cases
      case 1
      then have "raw_resolve s k = Some i" by (auto simp: look split: if_splits)
      then show ?thesis by (rule keeps)
    next
      case 2
      then have "(k, Some i) \<in> set kis"
        by (auto simp: ur_id_def wl dest: map_of_SomeD split: option.splits)
      with f(3) c show ?thesis by fastforce
    qed
  qed
qed

interpretation simple: static_indexer raw_bulk_record raw_resolve raw_inv "(=)" K for K
  by unfold_locales

section \<open>The whole stack\<close>

definition postgres_indexer ::
  "cache_cfg \<Rightarrow> use_case_keys \<Rightarrow> pg caching \<Rightarrow> (use_case_results \<times> pg caching) result" where
  "postgres_indexer cfg = static_bulk_record (caching_bulk_record cfg pg_bulk_record)"

definition postgres0 :: "int \<Rightarrow> pg caching" where
  "postgres0 now = \<lparr>cs_now = now, cs_cache = [], cs_base = pg0\<rparr>"

abbreviation postgres_later :: "key set \<Rightarrow> cache_cfg \<Rightarrow> pg caching \<Rightarrow> pg caching \<Rightarrow> bool" where
  "postgres_later K cfg \<equiv> indexer_later K (postgres_indexer cfg) (caching_env K cfg pg_resolve pg_env)"

text \<open>An instance of the cache whose hash is the text itself, for the interpretation.\<close>

definition plain_cfg :: cache_cfg where
  "plain_cfg = \<lparr>cc_md5 = id, cc_partition = ''pg'', cc_read_ns = True, cc_write_ns = True\<rparr>"

lemma plain_cfg_inj: "inj_on (cc_md5 plain_cfg) A"
  by (simp add: plain_cfg_def)

lemma pg_caching:
  "inj_on (cc_md5 cfg) (hashed ` K) \<Longrightarrow> caching_indexer pg_bulk_record pg_resolve pg_inv pg_env K cfg"
  by unfold_locales

interpretation plain: caching_indexer pg_bulk_record pg_resolve pg_inv pg_env K plain_cfg for K
  by (rule pg_caching [OF plain_cfg_inj])

text \<open>The contract of the stack, for any hash without collisions on the keys it is used for.\<close>

definition stack_inv :: "key set \<Rightarrow> cache_cfg \<Rightarrow> pg caching \<Rightarrow> bool" where
  "stack_inv K cfg st = (pg_inv (cs_base st) \<and> cache_agrees K cfg (pg_resolve (cs_base st)) (cs_cache st))"

definition stack_resolve :: "pg caching \<Rightarrow> key \<Rightarrow> nat option" where
  "stack_resolve = static_resolve (\<lambda>st. pg_resolve (cs_base st))"

lemma postgres_contract:
  assumes "inj_on (cc_md5 cfg) (hashed ` K)"
  shows "string_indexer (postgres_indexer cfg) stack_resolve (stack_inv K cfg)
    (caching_env K cfg pg_resolve pg_env) K"
proof -
  note c = pg_caching [OF assms]
  have r: "caching_indexer.base_resolve pg_resolve = (\<lambda>st. pg_resolve (cs_base st))"
    by (rule ext) (simp add: caching_indexer.base_resolve_def [OF c])
  have i: "caching_indexer.caching_inv pg_resolve pg_inv K cfg = stack_inv K cfg"
    by (rule ext) (simp add: caching_indexer.caching_inv_def [OF c] stack_inv_def)
  have "string_indexer (caching_bulk_record cfg pg_bulk_record) (\<lambda>st. pg_resolve (cs_base st))
      (stack_inv K cfg) (caching_env K cfg pg_resolve pg_env) K"
    using caching_indexer.caching_contract [OF c] unfolding r i .
  from static_indexer.static_contract [OF static_indexer.intro [OF this]]
  show ?thesis by (simp add: postgres_indexer_def stack_resolve_def)
qed

lemma postgres0_inv: "stack_inv K cfg (postgres0 now)"
  by (simp add: stack_inv_def postgres0_def pg_inv_0 cache_agrees_def)

lemma postgres_later_inv:
  assumes "inj_on (cc_md5 cfg) (hashed ` K)" "postgres_later K cfg (postgres0 now) s"
  shows "stack_inv K cfg s"
  using string_indexer.later_keeps [OF postgres_contract [OF assms(1)] assms(2) postgres0_inv] by blast

text \<open>
  C15. An id is for ever: two calls of \<open>bulk_record\<close> on the Postgres indexer never give
  different ids for the same key, whatever is recorded, evicted from the cache, inserted by
  other processes or refused by the limiter between them.
\<close>

theorem postgres_ids_stable:
  assumes "inj_on (cc_md5 cfg) (hashed ` K)" "postgres_later K cfg (postgres0 now) s"
    and "uk_keys ks \<subseteq> K" "postgres_indexer cfg ks s = Inr (r, s1)" "postgres_later K cfg s1 s2"
    and "uk_keys ks' \<subseteq> K" "postgres_indexer cfg ks' s2 = Inr (r', s3)" "ur_id r k = Some i" "ur_id r' k = Some j"
  shows "i = j"
  by (rule string_indexer.ids_stable [OF postgres_contract [OF assms(1)]
        postgres_later_inv [OF assms(1,2)] assms(3-9)])

text \<open>
  The reverse lookup inverts the recording: the id that \<open>bulk_record\<close> returned for a string
  is resolved back to that string, at any later time, shared strings included. Ids of the
  database are signed 64-bit integers.
\<close>

theorem postgres_reverse_resolve:
  assumes "inj_on (cc_md5 cfg) (hashed ` K)" "postgres_later K cfg (postgres0 now) s"
    and "uk_keys ks \<subseteq> K" "postgres_indexer cfg ks s = Inr (r, s1)" "postgres_later K cfg s1 s2"
    and id: "ur_id r (u, org, str) = Some i" and fits: "dict_get SHARED_STRINGS str = None \<longrightarrow> i < PREFIX"
  shows "static_reverse_resolve (\<lambda>st. pg_reverse_resolve (cs_base st)) reindexed s2 u org i = Inr (Some str)"
proof -
  note contract = postgres_contract [OF assms(1)]
  note s = postgres_later_inv [OF assms(1,2)]
  have "stack_resolve s1 (u, org, str) = Some i"
    using string_indexer.bulk_sound [OF contract s assms(3,4) id] .
  then have i: "stack_resolve s2 (u, org, str) = Some i" and s2: "stack_inv K cfg s2"
    using string_indexer.later_keeps [OF contract assms(5) string_indexer.bulk_inv [OF contract s assms(3,4)]]
    by blast+
  show ?thesis
  proof (cases "dict_get SHARED_STRINGS str")
    case (Some j)
    with i have "dict_get SHARED_STRINGS str = Some i" by (simp add: stack_resolve_def static_resolve_def)
    from shared_roundtrip [OF this] show ?thesis by (simp add: static_reverse_resolve_def)
  next
    case None
    with fits reverse_shared_large have "dict_get REVERSE_SHARED_STRINGS i = None"
      by (cases "dict_get REVERSE_SHARED_STRINGS i") fastforce+
    moreover have "pg_reverse_resolve (cs_base s2) u org i = Inr (Some str)"
    proof -
      let ?p = "metric_path u" and ?st = "cs_base s2"
      from i None have "pg_resolve ?st (u, org, str) = Some i"
        by (simp add: stack_resolve_def static_resolve_def)
      then obtain row where row: "find (row_matches ?p (u, org, str)) (pg_rows ?st ?p) = Some row" "ir_id row = i"
        by (auto simp: pg_resolve_def)
      have m: "ir_org row = org" "ir_string row = str"
        using row(1) by (auto simp: find_Some_iff row_matches_def)
      have "distinct (map ir_id (pg_rows ?st ?p))" using s2 by (simp add: stack_inv_def pg_inv_def)
      from find_distinct [OF this find_in_set [OF row(1)]]
      have "find (\<lambda>x. ir_id x = i) (pg_rows ?st ?p) = Some row" by (simp add: row(2))
      with m show ?thesis by (simp add: pg_reverse_resolve_def)
    qed
    ultimately show ?thesis by (simp add: static_reverse_resolve_def)
  qed
qed

text \<open>
  The cache is transparent for \<open>resolve\<close>: whether the id comes from the cache or from the
  database, and whatever has been evicted or has expired, the answer is the id in the database.
\<close>

theorem caching_resolve_transparent:
  assumes "inj_on (cc_md5 cfg) (hashed ` K)" "postgres_later K cfg (postgres0 now) s" "k \<in> K"
  shows "\<exists>s'. caching_resolve cfg replenish pg_resolve s k = Inr (pg_resolve (cs_base s) k, s')"
proof -
  note c = pg_caching [OF assms(1)]
  have "caching_indexer.caching_inv pg_resolve pg_inv K cfg s"
    using postgres_later_inv [OF assms(1,2)] by (simp add: caching_indexer.caching_inv_def [OF c] stack_inv_def)
  from caching_indexer.caching_resolve_base [OF c this assms(3), of replenish] show ?thesis
    by (auto simp: caching_indexer.base_resolve_def [OF c])
qed

text \<open>
  The write limiter loses nothing and exceeds nothing: the strings of an organization are
  divided into accepted and dropped ones, and the accepted ones are as many as granted.
\<close>

theorem write_limit_split:
  assumes "distinct ss"
  shows "set (fst (limit_strings granted u org ss)) \<union> set (snd (limit_strings granted u org ss)) = set ss
    \<and> set (fst (limit_strings granted u org ss)) \<inter> set (snd (limit_strings granted u org ss)) = {}
    \<and> (case granted u org (length ss) of
         None \<Rightarrow> snd (limit_strings granted u org ss) = []
       | Some (g, _) \<Rightarrow> length (fst (limit_strings granted u org ss)) = min g (length ss))"
proof -
  have "set (drop n ss) \<inter> set (take n ss) = {}" for n
    using assms by (metis Int_commute append_take_drop_id distinct_append)
  then show ?thesis
    using limit_strings_set [of granted u org ss]
    by (auto simp: limit_strings_def split: option.splits)
qed

theorem write_limit_split_witness:
  "limit_strings (\<lambda>_ _ _. Some (1, False)) CUSTOM 5 [''a'', ''b''] = ([''b''], [''a''])
   \<and> set [''b''] \<union> set [''a''] = set [''a'', ''b'']"
  using write_limit_split [of "[''a'', ''b'']" "\<lambda>_ _ _. Some (1, False)" CUSTOM 5]
  by (simp add: limit_strings_def)

section \<open>An instance of the stack\<close>

definition demo_keys :: use_case_keys where
  "demo_keys = [(CUSTOM, [(1, [''a''])])]"

abbreviation demo_key :: key where "demo_key \<equiv> (CUSTOM, 1, ''a'')"

lemma demo_shared: "dict_get SHARED_STRINGS ''a'' = None"
  by (simp add: shared_tables dict_get_def)

lemma demo_static: "static_results demo_keys = []" "get_unmapped_use_case_keys [] demo_keys = demo_keys"
  "uk_size demo_keys = 1" "uk_as_tuples demo_keys = [demo_key]"
  by (simp_all add: static_results_def demo_keys_def uk_as_tuples_def kc_as_tuples_def demo_shared
     add_use_case_key_results_def get_unmapped_use_case_keys_def get_unmapped_keys_def uk_size_def kc_size_def
     default_get_def)

lemma demo_path: "get_metric_path_key demo_keys = Inr PERFORMANCE"
  by (simp add: get_metric_path_key_def demo_keys_def)

lemma demo_hits: "cache_hits plain_cfg now (uk_as_strings demo_keys) [] = Inr []"
  by (simp add: cache_hits_def uk_as_strings_tuples demo_static cache_get_def plain_cfg_def validate_result_def)

lemma demo_first: "\<exists>r st. pg_bulk_record demo_keys pg0 = Inr (r, st) \<and> ur_id r demo_key = Some 65537"
proof -
  have "db_results PERFORMANCE DB_READ demo_keys pg0 = []"
    by (simp add: db_results_def get_db_records_def pg0_def add_use_case_key_results_def)
  moreover have "accepted_keys (\<lambda>_ _ _. None) demo_keys = demo_keys" "dropped_keys (\<lambda>_ _ _. None) demo_keys = []"
    by (simp_all add: accepted_keys_def dropped_keys_def demo_keys_def limit_strings_def)
  moreover have "create_attempts (\<lambda>_. Created) 0 False = Inr ()"
    by (subst create_attempts.simps) (simp add: RETRY_COUNT_def)
  ultimately show ?thesis
    by (simp add: pg_bulk_record_def demo_path Let_def demo_static)
      (simp add: pg0_def row_matches_def db_results_def get_db_records_def demo_static ur_id_def row_key_def
        ur_lookup_adds map_of_rev)
qed

lemma demo_again:
  assumes "pg_inv st" "pg_resolve st demo_key = Some i"
  shows "\<exists>r. pg_bulk_record demo_keys st = Inr (r, st) \<and> ur_id r demo_key = Some i"
proof -
  let ?r = "db_results PERFORMANCE DB_READ demo_keys st"
  have keys: "uk_keys demo_keys = {demo_key}" by (simp add: uk_keys_def demo_static)
  have look: "ur_lookup ?r k = (if k \<in> uk_keys demo_keys then map_option Some (pg_resolve st k) else None)" for k
    by (rule db_lookup [OF assms(1)]) (simp add: keys)
  then have id: "ur_id ?r demo_key = Some i" using assms(2) by (simp add: ur_id_def keys)
  moreover have "\<not> unmapped ?r demo_key" using id pg_resolve_pos [OF assms] by (simp add: unmapped_def)
  then have "uk_size (get_unmapped_use_case_keys ?r demo_keys) = 0"
    by (simp add: uk_size_0 unmapped_keys keys)
  ultimately show ?thesis by (simp add: pg_bulk_record_def demo_path Let_def demo_static)
qed

lemma demo_call:
  assumes inv: "pg_inv (cs_base s)" and empty: "cs_cache s = []"
    and b: "pg_bulk_record demo_keys (cs_base s) = Inr (r, st)"
  shows "\<exists>r' s'. postgres_indexer plain_cfg demo_keys s = Inr (r', s') \<and>
    ur_id r' demo_key = ur_id r demo_key \<and> cs_base s' = st"
proof -
  have agrees: "cache_agrees UNIV plain_cfg (pg_resolve st) []" by (simp add: cache_agrees_def)
  have "\<exists>k \<in> UNIV. str = key_string k \<and> pg_resolve st k = Some v"
    if m: "(str, v) \<in> set (get_mapped_strings_to_ints r)" for str v
  proof -
    obtain k where k: "str = key_string k" "ur_lookup r k = Some (Some v)"
      using mapped_strings [OF pg.bulk_wf [OF inv subset_UNIV b] m] by blast
    then have "ur_id r k = Some v" by (simp add: ur_id_def)
    with pg.bulk_sound [OF inv subset_UNIV b] k(1) show ?thesis by blast
  qed
  from cache_set_many_agrees [OF plain_cfg_inj agrees this]
  obtain c' where "cache_set_many plain_cfg (cs_now s) BR (get_mapped_strings_to_ints r) [] = Inr c'" by blast
  then have "postgres_indexer plain_cfg demo_keys s =
      Inr (ur_merge [] (ur_merge [] r), s\<lparr>cs_cache := c', cs_base := st\<rparr>)"
    using b empty
    by (simp add: postgres_indexer_def static_bulk_record_def caching_bulk_record_def demo_static demo_hits
        add_use_case_key_results_def)
  then show ?thesis by (simp add: ur_id_def)
qed

lemma pg_env_refl: "pg_env st st"
  unfolding pg_env_def by (intro exI [of _ PERFORMANCE] exI [of _ "[]"] exI [of _ "pg_granted st"]
      exI [of _ "pg_outcomes st"]) simp

text \<open>Record, evict the whole cache, record again.\<close>

lemma demo_run:
  "\<exists>r s1 s2 r' s3. postgres_indexer plain_cfg demo_keys (postgres0 0) = Inr (r, s1) \<and>
     ur_id r demo_key = Some 65537 \<and> postgres_later UNIV plain_cfg s1 s2 \<and> cs_cache s2 = [] \<and>
     postgres_indexer plain_cfg demo_keys s2 = Inr (r', s3) \<and> ur_id r' demo_key \<noteq> None"
proof -
  obtain r0 st where 0: "pg_bulk_record demo_keys pg0 = Inr (r0, st)" "ur_id r0 demo_key = Some 65537"
    using demo_first by blast
  obtain r s1 where 1: "postgres_indexer plain_cfg demo_keys (postgres0 0) = Inr (r, s1)"
    "ur_id r demo_key = Some 65537" "cs_base s1 = st"
    using demo_call [of "postgres0 0" r0 st] 0 pg_inv_0 by (auto simp: postgres0_def)
  define s2 where "s2 = s1\<lparr>cs_cache := []\<rparr>"
  have inv: "pg_inv st" "pg_resolve st demo_key = Some 65537"
    using pg.bulk_inv [OF pg_inv_0 subset_UNIV 0(1)] pg.bulk_sound [OF pg_inv_0 subset_UNIV 0] by blast+
  have "postgres_later UNIV plain_cfg s1 s2"
    by (rule indexer_later.environment [OF indexer_later.now]) (simp add: caching_env_def s2_def pg_env_refl)
  moreover obtain r2 where "pg_bulk_record demo_keys st = Inr (r2, st)" "ur_id r2 demo_key = Some 65537"
    using demo_again [OF inv] by blast
  then obtain r' s3 where "postgres_indexer plain_cfg demo_keys s2 = Inr (r', s3)" "ur_id r' demo_key = Some 65537"
    using demo_call [of s2 r2 st] inv 1(3) by (auto simp: s2_def)
  ultimately show ?thesis using 1 by (auto simp: s2_def)
qed

theorem postgres_ids_stable_witness:
  "\<exists>r s1 s2 r' s3. postgres_indexer plain_cfg demo_keys (postgres0 0) = Inr (r, s1) \<and>
     postgres_later UNIV plain_cfg s1 s2 \<and> postgres_indexer plain_cfg demo_keys s2 = Inr (r', s3) \<and>
     ur_id r demo_key = Some 65537 \<and> ur_id r' demo_key = Some 65537"
proof -
  obtain r s1 s2 r' s3 j where run: "postgres_indexer plain_cfg demo_keys (postgres0 0) = Inr (r, s1)"
    "ur_id r demo_key = Some 65537" "postgres_later UNIV plain_cfg s1 s2"
    "postgres_indexer plain_cfg demo_keys s2 = Inr (r', s3)" "ur_id r' demo_key = Some j"
    using demo_run by blast
  have "65537 = j"
    by (rule postgres_ids_stable [OF plain_cfg_inj indexer_later.now subset_UNIV run(1,3) subset_UNIV run(4,2,5)])
  with run show ?thesis by blast
qed

theorem postgres_reverse_resolve_witness:
  "\<exists>r s1. postgres_indexer plain_cfg demo_keys (postgres0 0) = Inr (r, s1) \<and>
     static_reverse_resolve (\<lambda>st. pg_reverse_resolve (cs_base st)) [] s1 CUSTOM 1 65537 = Inr (Some ''a'')"
proof -
  obtain r s1 where run: "postgres_indexer plain_cfg demo_keys (postgres0 0) = Inr (r, s1)"
    "ur_id r demo_key = Some 65537"
    using demo_run by blast
  have "static_reverse_resolve (\<lambda>st. pg_reverse_resolve (cs_base st)) [] s1 CUSTOM 1 65537 = Inr (Some ''a'')"
    by (rule postgres_reverse_resolve [OF plain_cfg_inj indexer_later.now subset_UNIV run(1) indexer_later.now run(2)])
      (simp add: PREFIX_def)
  with run(1) show ?thesis by blast
qed

theorem caching_resolve_transparent_witness:
  "\<exists>s'. caching_resolve plain_cfg True pg_resolve (postgres0 0) demo_key = Inr (None, s')"
  using caching_resolve_transparent [OF plain_cfg_inj indexer_later.now UNIV_I, of True 0 demo_key]
  by (simp add: postgres0_def pg_resolve_def pg0_def)

end
