(* ===== verification/MetricAlerts.thy ===== *)
theory MetricAlerts
  imports Prelude Complex_Main
begin

text \<open>
  Metric alerts: how an update of a query subscription moves the triggers of an alert rule,
  \<open>src/src/sentry/incidents/subscription_processor.py\<close>, with the incidents of
  \<open>incidents/logic.py\<close> and \<open>incidents/models/incident.py\<close>. Times are microseconds. Metric values
  and thresholds are rationals, so the arithmetic of floats is taken to be exact; what Snuba,
  Seer and the feature flags answer is part of the update. Not modelled: the callback of
  activated rules, the cache of active incidents (it is dropped whenever an incident is saved).
\<close>

section \<open>Data\<close>

datatype threshold_type = ABOVE | BELOW | ABOVE_AND_BELOW

datatype incident_status = IsOpen | IsClosed | IsWarning | IsCritical

datatype status_method = ByUser | RuleUpdated | RuleTriggered

datatype trigger_status = TriggerActive | TriggerResolved

datatype rule_status = RulePending | RuleSnapshot | RuleDisabled | RuleNotEnoughData

datatype anomaly_type = HighConfidence | LowConfidence | NoAnomaly | NoData

record trigger =
  tr_id :: nat
  tr_label :: string
  tr_threshold :: rat

text \<open>An action of a trigger; \<open>ac_key\<close> is what two equal notifications have in common.\<close>

record trigger_action =
  ac_id :: nat
  ac_trigger :: nat
  ac_key :: "nat \<times> nat \<times> string option \<times> nat option \<times> nat option"

record alert_rule =
  ru_id :: nat
  ru_type :: threshold_type
  ru_resolve_threshold :: "rat option"
  ru_period :: int
  ru_window :: int
  ru_resolution :: int
  ru_comparison_delta :: "int option"
  ru_dynamic :: bool
  ru_activated :: bool
  ru_triggers :: "trigger list"
  ru_actions :: "trigger_action list"

datatype dataset = DsEvents | DsTransactions | DsMetrics | DsOther

record subscription =
  su_id :: nat
  su_project :: nat
  su_dataset :: dataset

record metric_incident =
  mi_id :: nat
  mi_rule :: nat
  mi_projects :: "nat list"
  mi_subscription :: "nat option"
  mi_activation :: "nat option"
  mi_status :: incident_status
  mi_method :: status_method
  mi_started :: int
  mi_detected :: int
  mi_added :: int
  mi_closed :: "int option"

record incident_trigger =
  it_id :: nat
  it_incident :: nat
  it_trigger :: nat
  it_status :: trigger_status

datatype activity_type = ActCreated | ActStatusChange | ActDetected

record activity =
  av_incident :: nat
  av_type :: activity_type
  av_value :: "incident_status option"

datatype action_method = Fire | Resolve

text \<open>A queued \<open>handle_trigger_action\<close>.\<close>

record queued_action =
  qa_action :: nat
  qa_incident :: nat
  qa_project :: nat
  qa_method :: action_method
  qa_new_status :: incident_status
  qa_value :: "rat option"

text \<open>The tables, the queue of actions and the counters that Redis keeps for a rule and a project.\<close>

record alerts =
  incident_rows :: "metric_incident list"
  trigger_rows :: "incident_trigger list"
  activity_rows :: "activity list"
  queued :: "queued_action list"
  rule_statuses :: "(nat, rule_status) dict"
  stat_last_update :: "(nat \<times> nat, int) dict"
  stat_alert :: "(nat \<times> nat \<times> nat, int) dict"
  stat_resolve :: "(nat \<times> nat \<times> nat, int) dict"
  next_incident_id :: nat
  next_trigger_row :: nat

text \<open>
  What an update carries, and what the services asked while it is processed answer. The value is
  the first column of the first row, if there is a row; for the metrics dataset the counts of all
  and of crashed sessions are those of the row (format v2) or translated from the tags (v1).
\<close>

record update =
  up_timestamp :: int
  up_value :: "rat option option"
  up_counts_v2 :: "(rat \<times> rat) option"
  up_counts_v1 :: "rat \<times> rat"
  up_comparison :: "rat option"
  up_project_exists :: bool
  up_feature_incidents :: bool
  up_feature_performance :: bool
  up_anomaly_detection :: bool
  up_fake_anomalies :: bool
  up_seer :: "anomaly_type list option"
  up_activations :: "nat list"
  up_now :: int

section \<open>Incidents: \<open>incidents/logic.py\<close>\<close>

abbreviation second :: int where "second \<equiv> 1000000"

definition WARNING_TRIGGER_LABEL :: string where "WARNING_TRIGGER_LABEL = ''warning''"
definition CRITICAL_TRIGGER_LABEL :: string where "CRITICAL_TRIGGER_LABEL = ''critical''"

definition find_incident :: "alerts \<Rightarrow> nat \<Rightarrow> metric_incident option" where
  "find_incident s i = find (\<lambda>n. mi_id n = i) (incident_rows s)"

definition find_trigger_row :: "alerts \<Rightarrow> nat \<Rightarrow> incident_trigger option" where
  "find_trigger_row s i = find (\<lambda>r. it_id r = i) (trigger_rows s)"

definition update_incident_row :: "nat \<Rightarrow> (metric_incident \<Rightarrow> metric_incident) \<Rightarrow> alerts \<Rightarrow> alerts" where
  "update_incident_row i f s = s\<lparr>incident_rows := map (\<lambda>n. if mi_id n = i then f n else n) (incident_rows s)\<rparr>"

definition set_trigger_status :: "nat \<Rightarrow> trigger_status \<Rightarrow> alerts \<Rightarrow> alerts" where
  "set_trigger_status i st s =
     s\<lparr>trigger_rows := map (\<lambda>r. if it_id r = i then r\<lparr>it_status := st\<rparr> else r) (trigger_rows s)\<rparr>"

definition create_incident_activity ::
  "nat \<Rightarrow> activity_type \<Rightarrow> incident_status option \<Rightarrow> alerts \<Rightarrow> alerts" where
  "create_incident_activity i t v s =
     s\<lparr>activity_rows := activity_rows s @ [\<lparr>av_incident = i, av_type = t, av_value = v\<rparr>]\<rparr>"

text \<open>\<open>Incident.objects.get_active_incident\<close>: the latest one that is not closed.\<close>

definition get_active_incident :: "nat \<Rightarrow> nat \<Rightarrow> nat option \<Rightarrow> alerts \<Rightarrow> nat option" where
  "get_active_incident rule project sub s =
     (case sort_key (\<lambda>n. - mi_added n)
             (filter (\<lambda>n. mi_rule n = rule \<and> project \<in> set (mi_projects n) \<and> mi_subscription n = sub
                \<and> mi_status n \<noteq> IsClosed) (incident_rows s)) of
        [] \<Rightarrow> None
      | n # _ \<Rightarrow> Some (mi_id n))"

definition create_incident ::
  "nat \<Rightarrow> int \<Rightarrow> int \<Rightarrow> nat list \<Rightarrow> nat option \<Rightarrow> nat option \<Rightarrow> int \<Rightarrow> alerts \<Rightarrow> nat \<times> alerts" where
  "create_incident rule started detected projects activation sub now s =
     (let i = next_incident_id s;
          s1 = s\<lparr>incident_rows := incident_rows s @
                  [\<lparr>mi_id = i, mi_rule = rule, mi_projects = projects, mi_subscription = sub,
                    mi_activation = activation, mi_status = IsOpen, mi_method = RuleTriggered,
                    mi_started = started, mi_detected = detected, mi_added = now, mi_closed = None\<rparr>],
                next_incident_id := Suc i\<rparr>
      in (i, create_incident_activity i ActCreated None (create_incident_activity i ActDetected None s1)))"

definition sort_by_priority_list :: "trigger list \<Rightarrow> trigger list" where
  "sort_by_priority_list ts =
     sort_key (\<lambda>t. if tr_label t = WARNING_TRIGGER_LABEL then 0
                   else if tr_label t = CRITICAL_TRIGGER_LABEL then 1
                   else length ts + tr_id t) ts"

definition prioritize_actions :: "trigger list \<Rightarrow> trigger_action list \<Rightarrow> trigger_action list" where
  "prioritize_actions ts actions =
     (let as = filter (\<lambda>a. ac_trigger a \<in> set (map tr_id ts)) actions;
          order = map_of (zip (map tr_id (sort_by_priority_list ts)) [0..<length ts])
      in sort_key (\<lambda>a. case order (ac_trigger a) of Some k \<Rightarrow> k | None \<Rightarrow> length as + ac_id a) as)"

fun setdefault_all :: "trigger_action list \<Rightarrow> trigger_action list \<Rightarrow> trigger_action list" where
  \<comment> \<open>\<open>deduped.setdefault(key, action)\<close> for every action, then the values\<close>
  "setdefault_all acc [] = acc"
| "setdefault_all acc (a # as) =
     (if list_ex (\<lambda>b. ac_key b = ac_key a) acc then setdefault_all acc as else setdefault_all (acc @ [a]) as)"

definition deduplicate_trigger_actions :: "trigger list \<Rightarrow> trigger_action list \<Rightarrow> trigger_action list" where
  "deduplicate_trigger_actions ts actions = setdefault_all [] (prioritize_actions ts actions)"

definition trigger_incident_triggers :: "alert_rule \<Rightarrow> metric_incident \<Rightarrow> alerts \<Rightarrow> alerts" where
  "trigger_incident_triggers rule n s =
     s\<lparr>trigger_rows := map (\<lambda>r. if it_incident r = mi_id n then r\<lparr>it_status := TriggerResolved\<rparr> else r)
                         (trigger_rows s),
       queued := queued s @
         concat (map (\<lambda>a. map (\<lambda>p. \<lparr>qa_action = ac_id a, qa_incident = mi_id n, qa_project = p,
             qa_method = Resolve, qa_new_status = IsClosed, qa_value = None\<rparr>) (mi_projects n))
           (deduplicate_trigger_actions (ru_triggers rule) (ru_actions rule)))\<rparr>"

definition update_incident_status ::
  "alert_rule \<Rightarrow> nat \<Rightarrow> incident_status \<Rightarrow> status_method \<Rightarrow> int option \<Rightarrow> int \<Rightarrow> alerts \<Rightarrow> alerts" where
  "update_incident_status rule i st method date_closed now s =
     (case find_incident s i of
        None \<Rightarrow> s
      | Some n \<Rightarrow>
          if mi_status n = st then s
          else
            (let s1 = create_incident_activity i ActStatusChange (Some st) s;
                 closed = (if st = IsClosed then Some (case date_closed of Some d \<Rightarrow> d | None \<Rightarrow> now)
                           else if st = IsOpen then None else mi_closed n);
                 s2 = update_incident_row i
                        (\<lambda>n. n\<lparr>mi_status := st, mi_method := method, mi_closed := closed\<rparr>) s1
             in if st = IsClosed \<and> (method = ByUser \<or> method = RuleUpdated)
                then trigger_incident_triggers rule n s2 else s2))"

section \<open>The processor\<close>

text \<open>
  One \<open>SubscriptionProcessor\<close>: the tables as it has changed them, the active incident and the
  rows of its triggers that it caches, its copies of the counters, and the rows that fired.
\<close>

record processor =
  pr_tables :: alerts
  pr_active :: "nat option"
  pr_map :: "(nat, nat) dict"
  pr_alert :: "(nat, int) dict"
  pr_resolve :: "(nat, int) dict"
  pr_fired :: "nat list"

definition count_of :: "(nat, int) dict \<Rightarrow> nat \<Rightarrow> int" where
  "count_of d t = (case dict_get d t of Some n \<Rightarrow> n | None \<Rightarrow> 0)"

text \<open>The processor sorts the triggers of its rule by their thresholds.\<close>

definition sorted_triggers :: "alert_rule \<Rightarrow> trigger list" where
  "sorted_triggers rule = sort_key tr_threshold (ru_triggers rule)"

lemma sorted_triggers_set [simp]:
  "set (sorted_triggers rule) = set (ru_triggers rule)" "length (sorted_triggers rule) = length (ru_triggers rule)"
  "distinct (map tr_id (sorted_triggers rule)) = distinct (map tr_id (ru_triggers rule))"
  by (simp_all add: sorted_triggers_def distinct_map)

text \<open>\<open>get_alert_rule_stats\<close>: missing keys are 0, the last update has whole seconds.\<close>

definition get_last_update :: "alert_rule \<Rightarrow> subscription \<Rightarrow> alerts \<Rightarrow> int" where
  "get_last_update rule sub s =
     (case dict_get (stat_last_update s) (ru_id rule, su_project sub) of Some n \<Rightarrow> n * second | None \<Rightarrow> 0)"

definition get_counts ::
  "(nat \<times> nat \<times> nat, int) dict \<Rightarrow> alert_rule \<Rightarrow> subscription \<Rightarrow> (nat, int) dict" where
  "get_counts stats rule sub =
     foldl (\<lambda>d t. dict_set (tr_id t)
         (case dict_get stats (ru_id rule, su_project sub, tr_id t) of Some n \<Rightarrow> n | None \<Rightarrow> 0) d)
       [] (sorted_triggers rule)"

definition set_counts ::
  "alert_rule \<Rightarrow> subscription \<Rightarrow> (nat, int) dict \<Rightarrow> (nat, int) dict \<Rightarrow>
   (nat \<times> nat \<times> nat, int) dict \<Rightarrow> (nat \<times> nat \<times> nat, int) dict" where
  \<comment> \<open>only the counts that differ from the original ones are written\<close>
  "set_counts rule sub orig new stats =
     foldl (\<lambda>d (t, n). if n \<noteq> count_of orig t then dict_set (ru_id rule, su_project sub, t) n d else d) stats new"

definition update_alert_rule_stats ::
  "alert_rule \<Rightarrow> subscription \<Rightarrow> int \<Rightarrow> (nat, int) dict \<Rightarrow> (nat, int) dict \<Rightarrow> alerts \<Rightarrow> alerts" where
  "update_alert_rule_stats rule sub last_update alert_counts resolve_counts s =
     s\<lparr>stat_alert := set_counts rule sub (get_counts (stat_alert s) rule sub) alert_counts (stat_alert s),
       stat_resolve := set_counts rule sub (get_counts (stat_resolve s) rule sub) resolve_counts (stat_resolve s),
       stat_last_update := dict_set (ru_id rule, su_project sub) (last_update div second) (stat_last_update s)\<rparr>"

definition check_trigger_matches_status :: "trigger \<Rightarrow> trigger_status \<Rightarrow> processor \<Rightarrow> bool" where
  "check_trigger_matches_status t st p =
     (case dict_get (pr_map p) (tr_id t) of
        None \<Rightarrow> False
      | Some r \<Rightarrow> (case find_trigger_row (pr_tables p) r of None \<Rightarrow> False | Some row \<Rightarrow> it_status row = st))"

definition reset_trigger_counts :: "alert_rule \<Rightarrow> subscription \<Rightarrow> int \<Rightarrow> alerts \<Rightarrow> alerts" where
  "reset_trigger_counts rule sub last_update s =
     update_alert_rule_stats rule sub last_update
       (map (\<lambda>(t, _). (t, 0)) (get_counts (stat_alert s) rule sub))
       (map (\<lambda>(t, _). (t, 0)) (get_counts (stat_resolve s) rule sub)) s"

definition calculate_resolve_threshold :: "alert_rule \<Rightarrow> trigger \<Rightarrow> rat" where
  "calculate_resolve_threshold rule t =
     (case ru_resolve_threshold rule of
        Some r \<Rightarrow>
          if length (ru_triggers rule) = 1 \<or> tr_label t = WARNING_TRIGGER_LABEL then r
          else tr_threshold t + (if ru_type rule = ABOVE then 1 / 1000000 else - 1 / 1000000)
      | None \<Rightarrow> tr_threshold t + (if ru_type rule = ABOVE then 1 / 1000000 else - 1 / 1000000))"

text \<open>\<open>round\<close> of Python to three digits: ties go to the even digit.\<close>

definition round_half_even :: "rat \<Rightarrow> int" where
  "round_half_even q =
     (let f = \<lfloor>q\<rfloor>; d = q - of_int f
      in if d < 1 / 2 then f else if d > 1 / 2 then f + 1 else if even f then f else f + 1)"

definition round3 :: "rat \<Rightarrow> rat" where
  "round3 q = of_int (round_half_even (q * 1000)) / 1000"

definition CRASH_RATE_ALERT_MINIMUM_THRESHOLD :: "rat option" where
  "CRASH_RATE_ALERT_MINIMUM_THRESHOLD = None"

definition crash_free_percentage ::
  "alert_rule \<Rightarrow> subscription \<Rightarrow> int \<Rightarrow> rat \<times> rat \<Rightarrow> alerts \<Rightarrow> rat option \<times> alerts" where
  "crash_free_percentage rule sub last_update counts s =
     (let (sessions, crashed) = counts
      in if sessions = 0 then (None, reset_trigger_counts rule sub last_update s)
         else if (case CRASH_RATE_ALERT_MINIMUM_THRESHOLD of None \<Rightarrow> False | Some m \<Rightarrow> sessions < m)
         then (None, reset_trigger_counts rule sub last_update s)
         else (Some (round3 ((1 - crashed / sessions) * 100)), s))"

definition get_comparison_aggregation_value :: "update \<Rightarrow> rat \<Rightarrow> rat option" where
  \<comment> \<open>a failed query and the results \<open>None\<close> and 0 skip the update\<close>
  "get_comparison_aggregation_value u v =
     (case up_comparison u of
        None \<Rightarrow> None
      | Some c \<Rightarrow> if c = 0 then None else Some (v / c * 100))"

definition get_aggregation_value ::
  "alert_rule \<Rightarrow> subscription \<Rightarrow> update \<Rightarrow> alerts \<Rightarrow> (rat option \<times> alerts) result" where
  "get_aggregation_value rule sub u s =
     (if su_dataset sub = DsMetrics
      then Inr (crash_free_percentage rule sub (up_timestamp u)
             (case up_counts_v2 u of Some c \<Rightarrow> c | None \<Rightarrow> up_counts_v1 u) s)
      else (case up_value u of
              None \<Rightarrow> Inl IndexError
            | Some v \<Rightarrow>
                let v0 = (case v of None \<Rightarrow> 0 | Some x \<Rightarrow> x)
                in Inr (if ru_comparison_delta rule \<in> {None, Some 0} then Some v0
                        else get_comparison_aggregation_value u v0, s)))"

definition calculate_event_date_from_update_date :: "alert_rule \<Rightarrow> int \<Rightarrow> int" where
  "calculate_event_date_from_update_date rule date =
     date - ru_window rule * second - ru_resolution rule * (ru_period rule - 1) * second"

definition handle_incident_severity_update :: "alert_rule \<Rightarrow> int \<Rightarrow> processor \<Rightarrow> processor" where
  "handle_incident_severity_update rule now p =
     (case pr_active p of
        None \<Rightarrow> p
      | Some i \<Rightarrow>
          let active = filter (\<lambda>r. it_incident r = i \<and> it_status r = TriggerActive) (trigger_rows (pr_tables p));
              labels = map tr_label (filter (\<lambda>t. tr_id t \<in> set (map it_trigger active)) (ru_triggers rule));
              severity = (if CRITICAL_TRIGGER_LABEL \<in> set labels then Some IsCritical
                          else if WARNING_TRIGGER_LABEL \<in> set labels then Some IsWarning else None)
          in (case severity of
                None \<Rightarrow> p
              | Some st \<Rightarrow>
                  p\<lparr>pr_tables := update_incident_status rule i st RuleTriggered None now (pr_tables p)\<rparr>))"

text \<open>The last incident in which the trigger fired, and the ten-minute check on it.\<close>

definition last_incident :: "trigger \<Rightarrow> alerts \<Rightarrow> metric_incident option" where
  "last_incident t s =
     (case sort_key (\<lambda>r. - int (it_incident r)) (filter (\<lambda>r. it_trigger r = tr_id t) (trigger_rows s)) of
        [] \<Rightarrow> None
      | r # _ \<Rightarrow> find_incident s (it_incident r))"

definition timedelta_seconds :: "int \<Rightarrow> int" where
  \<comment> \<open>the attribute \<open>seconds\<close> of a timedelta: what is left of it besides whole days\<close>
  "timedelta_seconds d = (d div second) mod 86400"

definition hit_rate_limit :: "subscription \<Rightarrow> trigger \<Rightarrow> int \<Rightarrow> alerts \<Rightarrow> bool" where
  "hit_rate_limit sub t now s =
     (case last_incident t s of
        None \<Rightarrow> False
      | Some n \<Rightarrow> su_project sub \<in> set (mi_projects n) \<and> timedelta_seconds (now - mi_added n) \<le> 600)"

definition open_metric_incident :: "alert_rule \<Rightarrow> subscription \<Rightarrow> update \<Rightarrow> processor \<Rightarrow> nat \<times> processor" where
  "open_metric_incident rule sub u p =
     (case pr_active p of
        Some i \<Rightarrow> (i, p)
      | None \<Rightarrow>
          let activation = (if ru_activated rule
                then (case up_activations u of [a] \<Rightarrow> Some a | _ \<Rightarrow> None) else None);
              (i, s) = create_incident (ru_id rule)
                (calculate_event_date_from_update_date rule (up_timestamp u)) (up_timestamp u)
                [su_project sub] activation (Some (su_id sub)) (up_now u) (pr_tables p)
          in (i, p\<lparr>pr_tables := s, pr_active := Some i\<rparr>))"

definition activate_trigger :: "nat \<Rightarrow> trigger \<Rightarrow> processor \<Rightarrow> nat \<times> processor" where
  "activate_trigger i t p =
     (case dict_get (pr_map p) (tr_id t) of
        Some r \<Rightarrow> (r, p\<lparr>pr_tables := set_trigger_status r TriggerActive (pr_tables p)\<rparr>)
      | None \<Rightarrow>
          let s = pr_tables p; r = next_trigger_row s
          in (r, p\<lparr>pr_tables := s\<lparr>trigger_rows := trigger_rows s @
                    [\<lparr>it_id = r, it_incident = i, it_trigger = tr_id t, it_status = TriggerActive\<rparr>],
                  next_trigger_row := Suc r\<rparr>\<rparr>))"

definition trigger_alert_threshold ::
  "alert_rule \<Rightarrow> subscription \<Rightarrow> update \<Rightarrow> trigger \<Rightarrow> processor \<Rightarrow> processor" where
  "trigger_alert_threshold rule sub u t p0 =
     (let n = count_of (pr_alert p0) (tr_id t) + 1;
          p = p0\<lparr>pr_alert := dict_set (tr_id t) n (pr_alert p0)\<rparr>
      in if hit_rate_limit sub t (up_now u) (pr_tables p) then p
         else if n \<ge> ru_period rule then
           (let (i, p1) = open_metric_incident rule sub u p;
                (r, p2) = activate_trigger i t p1;
                p3 = handle_incident_severity_update rule (up_now u) p2
            in p3\<lparr>pr_map := dict_set (tr_id t) r (pr_map p3), pr_alert := dict_set (tr_id t) 0 (pr_alert p3),
                  pr_fired := pr_fired p3 @ [r]\<rparr>)
         else p)"

definition check_triggers_resolved :: "processor \<Rightarrow> bool" where
  "check_triggers_resolved p =
     list_all (\<lambda>(t, r). case find_trigger_row (pr_tables p) r of
        None \<Rightarrow> True | Some row \<Rightarrow> it_status row = TriggerResolved) (pr_map p)"

definition trigger_resolve_threshold ::
  "alert_rule \<Rightarrow> update \<Rightarrow> trigger \<Rightarrow> processor \<Rightarrow> processor" where
  "trigger_resolve_threshold rule u t p0 =
     (let n = count_of (pr_resolve p0) (tr_id t) + 1;
          p = p0\<lparr>pr_resolve := dict_set (tr_id t) n (pr_resolve p0)\<rparr>
      in if n \<ge> ru_period rule then
           (case (dict_get (pr_map p) (tr_id t), pr_active p) of
              (Some r, Some i) \<Rightarrow>
                let p1 = p\<lparr>pr_tables := set_trigger_status r TriggerResolved (pr_tables p),
                           pr_resolve := dict_set (tr_id t) 0 (pr_resolve p)\<rparr>;
                    p2 = (if check_triggers_resolved p1
                          then p1\<lparr>pr_tables := update_incident_status rule i IsClosed RuleTriggered
                                   (Some (calculate_event_date_from_update_date rule (up_timestamp u)))
                                   (up_now u) (pr_tables p1),
                                  pr_active := None, pr_map := []\<rparr>
                          else handle_incident_severity_update rule (up_now u) p1)
                in p2\<lparr>pr_fired := pr_fired p2 @ [r]\<rparr>
            | _ \<Rightarrow> p)
         else p)"

section \<open>One trigger against one value\<close>

definition alert_operator :: "threshold_type \<Rightarrow> rat \<Rightarrow> rat \<Rightarrow> bool" where
  "alert_operator ty v t = (if ty = ABOVE then v > t else v < t)"

definition resolve_operator :: "threshold_type \<Rightarrow> rat \<Rightarrow> rat \<Rightarrow> bool" where
  "resolve_operator ty v t = (if ty = ABOVE then v < t else v > t)"

text \<open>The two halves of the loop body: shared by the static and the anomaly branch.\<close>

definition alert_half ::
  "alert_rule \<Rightarrow> subscription \<Rightarrow> update \<Rightarrow> trigger \<Rightarrow> bool \<Rightarrow> processor \<Rightarrow> processor" where
  "alert_half rule sub u t breach p =
     (if breach \<and> \<not> check_trigger_matches_status t TriggerActive p
      then trigger_alert_threshold rule sub u t p
      else p\<lparr>pr_alert := dict_set (tr_id t) 0 (pr_alert p)\<rparr>)"

definition resolve_half ::
  "alert_rule \<Rightarrow> update \<Rightarrow> trigger \<Rightarrow> bool \<Rightarrow> processor \<Rightarrow> processor" where
  "resolve_half rule u t clear p =
     (if clear \<and> pr_active p \<noteq> None \<and> check_trigger_matches_status t TriggerActive p
      then trigger_resolve_threshold rule u t p
      else p\<lparr>pr_resolve := dict_set (tr_id t) 0 (pr_resolve p)\<rparr>)"

definition static_trigger ::
  "alert_rule \<Rightarrow> subscription \<Rightarrow> update \<Rightarrow> rat \<Rightarrow> processor \<Rightarrow> trigger \<Rightarrow> processor" where
  "static_trigger rule sub u v p t =
     resolve_half rule u t (resolve_operator (ru_type rule) v (calculate_resolve_threshold rule t))
       (alert_half rule sub u t (alert_operator (ru_type rule) v (tr_threshold t)) p)"

definition has_anomaly :: "anomaly_type \<Rightarrow> string \<Rightarrow> bool \<Rightarrow> bool" where
  "has_anomaly a label fake =
     (fake \<or> a = HighConfidence \<or> (label = WARNING_TRIGGER_LABEL \<and> a = LowConfidence))"

definition anomaly_has_confidence :: "anomaly_type \<Rightarrow> bool" where
  "anomaly_has_confidence a = (a \<noteq> NoData)"

definition rule_status_of :: "alert_rule \<Rightarrow> alerts \<Rightarrow> rule_status" where
  "rule_status_of rule s = (case dict_get (rule_statuses s) (ru_id rule) of None \<Rightarrow> RulePending | Some st \<Rightarrow> st)"

definition anomaly_trigger ::
  "alert_rule \<Rightarrow> subscription \<Rightarrow> update \<Rightarrow> trigger \<Rightarrow> processor \<Rightarrow> anomaly_type \<Rightarrow> processor" where
  "anomaly_trigger rule sub u t p a =
     (let waiting = rule_status_of rule (pr_tables p) = RuleNotEnoughData
      in if waiting \<and> \<not> anomaly_has_confidence a then p
         else
           let p1 = (if waiting
                     then p\<lparr>pr_tables := (pr_tables p)\<lparr>rule_statuses :=
                            dict_set (ru_id rule) RulePending (rule_statuses (pr_tables p))\<rparr>\<rparr>
                     else p);
               found = has_anomaly a (tr_label t) (up_fake_anomalies u)
           in resolve_half rule u t (\<not> found) (alert_half rule sub u t found p1))"

definition process_triggers ::
  "alert_rule \<Rightarrow> subscription \<Rightarrow> update \<Rightarrow> anomaly_type list \<Rightarrow> rat \<Rightarrow> processor \<Rightarrow> processor" where
  "process_triggers rule sub u anomalies v p =
     foldl (\<lambda>p t. if anomalies \<noteq> [] then foldl (anomaly_trigger rule sub u t) p anomalies
                  else static_trigger rule sub u v p t) p (sorted_triggers rule)"

section \<open>Actions and the whole update\<close>

definition handle_trigger_actions ::
  "alert_rule \<Rightarrow> subscription \<Rightarrow> rat \<Rightarrow> processor \<Rightarrow> alerts" where
  "handle_trigger_actions rule sub v p =
     (let s = pr_tables p
      in case Option.bind (case pr_fired p of [] \<Rightarrow> None | r # _ \<Rightarrow> Some r) (find_trigger_row s) of
           None \<Rightarrow> s
         | Some row \<Rightarrow>
            (case find_incident s (case pr_active p of Some i \<Rightarrow> i | None \<Rightarrow> it_incident row) of
               None \<Rightarrow> s
             | Some n \<Rightarrow>
                let actions = deduplicate_trigger_actions (sorted_triggers rule) (ru_actions rule);
                    label_of = map_of (map (\<lambda>t. (tr_id t, tr_label t)) (ru_triggers rule));
                    warning_actions =
                      filter (\<lambda>a. label_of (ac_trigger a) \<noteq> Some CRITICAL_TRIGGER_LABEL) actions;
                    was_critical = list_ex (\<lambda>a. av_incident a = mi_id n \<and> av_value a = Some IsCritical)
                      (activity_rows s);
                    method = (if it_status row = TriggerActive then Fire else Resolve);
                    (to_fire, new_status) =
                      (if method = Resolve then
                         if mi_status n \<noteq> IsClosed then (actions, IsWarning)
                         else if was_critical then (actions, IsClosed)
                         else (warning_actions, IsClosed)
                       else if mi_status n = IsCritical then (actions, IsCritical)
                       else (warning_actions, IsWarning))
                in s\<lparr>queued := queued s @
                     map (\<lambda>a. \<lparr>qa_action = ac_id a, qa_incident = mi_id n, qa_project = su_project sub,
                            qa_method = method, qa_new_status = new_status, qa_value = Some v\<rparr>) to_fire\<rparr>))"

definition new_processor :: "alert_rule \<Rightarrow> subscription \<Rightarrow> alerts \<Rightarrow> processor" where
  "new_processor rule sub s =
     (let active = (case get_active_incident (ru_id rule) (su_project sub) (Some (su_id sub)) s of
            Some i \<Rightarrow> Some i
          | None \<Rightarrow> get_active_incident (ru_id rule) (su_project sub) None s)
      in \<lparr>pr_tables = s, pr_active = active,
          pr_map = (case active of
              None \<Rightarrow> []
            | Some i \<Rightarrow> map (\<lambda>r. (it_trigger r, it_id r)) (filter (\<lambda>r. it_incident r = i) (trigger_rows s))),
          pr_alert = get_counts (stat_alert s) rule sub, pr_resolve = get_counts (stat_resolve s) rule sub,
          pr_fired = []\<rparr>)"

definition process_value ::
  "alert_rule \<Rightarrow> subscription \<Rightarrow> update \<Rightarrow> anomaly_type list \<Rightarrow> rat \<Rightarrow> alerts \<Rightarrow> alerts" where
  "process_value rule sub u anomalies v s =
     (let p = process_triggers rule sub u anomalies v (new_processor rule sub s);
          s1 = (if pr_fired p \<noteq> [] then handle_trigger_actions rule sub v p else pr_tables p)
      in update_alert_rule_stats rule sub (up_timestamp u) (pr_alert p) (pr_resolve p) s1)"

definition ignored_update :: "alert_rule \<Rightarrow> subscription \<Rightarrow> update \<Rightarrow> alerts \<Rightarrow> bool" where
  "ignored_update rule sub u s =
     (\<not> up_project_exists u
      \<or> (su_dataset sub = DsEvents \<and> \<not> up_feature_incidents u)
      \<or> (su_dataset sub = DsTransactions \<and> \<not> up_feature_performance u)
      \<or> up_timestamp u \<le> get_last_update rule sub s)"

definition process_update :: "alert_rule \<Rightarrow> subscription \<Rightarrow> update \<Rightarrow> alerts \<Rightarrow> alerts result" where
  "process_update rule sub u s =
     (if ignored_update rule sub u s then Inr s
      else
        bind_result (get_aggregation_value rule sub u s) (\<lambda>(value, s1).
          let detect = up_anomaly_detection u \<and> ru_dynamic rule
          in if detect \<and> up_seer u = None then Inr s1
             else
               (case value of
                  None \<Rightarrow> Inr s1
                | Some v \<Rightarrow>
                    let anomalies = (if detect then (case up_seer u of Some as \<Rightarrow> as | None \<Rightarrow> []) else [])
                    in if anomalies = [] \<and> ru_type rule = ABOVE_AND_BELOW then Inl KeyError
                       else Inr (process_value rule sub u anomalies v s1))))"

section \<open>Runs and their invariant\<close>

datatype alert_event =
    Update alert_rule subscription update
  | CloseIncident alert_rule nat int
  | CloseByRuleUpdate alert_rule nat int

fun alert_step :: "alerts \<Rightarrow> alert_event \<Rightarrow> alerts" where
  "alert_step s (Update rule sub u) = (case process_update rule sub u s of Inl _ \<Rightarrow> s | Inr s' \<Rightarrow> s')"
| "alert_step s (CloseIncident rule i now) = update_incident_status rule i IsClosed ByUser None now s"
| "alert_step s (CloseByRuleUpdate rule i now) = update_incident_status rule i IsClosed RuleUpdated None now s"

definition alerts0 :: alerts where
  "alerts0 = \<lparr>incident_rows = [], trigger_rows = [], activity_rows = [], queued = [], rule_statuses = [],
     stat_last_update = [], stat_alert = [], stat_resolve = [], next_incident_id = 0, next_trigger_row = 0\<rparr>"

text \<open>What the invariant needs of an incident: whose it is and whether it is closed.\<close>

definition shape :: "metric_incident \<Rightarrow> nat \<times> nat \<times> nat list \<times> nat option \<times> bool" where
  "shape n = (mi_id n, mi_rule n, mi_projects n, mi_subscription n, mi_status n = IsClosed)"

definition row_active :: "incident_trigger list \<Rightarrow> nat \<Rightarrow> bool" where
  "row_active T i = list_ex (\<lambda>r. it_incident r = i \<and> it_status r = TriggerActive) T"

definition same_owner ::
  "nat \<times> nat \<times> nat list \<times> nat option \<times> bool \<Rightarrow> nat \<times> nat \<times> nat list \<times> nat option \<times> bool \<Rightarrow> bool" where
  "same_owner x y = (case (x, y) of ((_, ru, ps, su, _), (_, ru', ps', su', _)) \<Rightarrow>
     ru = ru' \<and> su = su' \<and> set ps \<inter> set ps' \<noteq> {})"

definition shapes_ok ::
  "(nat \<times> nat \<times> nat list \<times> nat option \<times> bool) list \<Rightarrow> nat \<Rightarrow> bool" where
  "shapes_ok S ni =
     (distinct (map fst S) \<and> (\<forall>x \<in> set S. fst x < ni) \<and>
      (\<forall>(i, ru, ps, su, c) \<in> set S. su \<noteq> None) \<and>
      (\<forall>x \<in> set S. \<forall>y \<in> set S. \<not> snd (snd (snd (snd x))) \<longrightarrow> \<not> snd (snd (snd (snd y))) \<longrightarrow>
         same_owner x y \<longrightarrow> fst x = fst y))"

definition triggers_ok :: "incident_trigger list \<Rightarrow> nat \<Rightarrow> nat \<Rightarrow> bool" where
  "triggers_ok T ni nt =
     (distinct (map it_id T) \<and> distinct (map (\<lambda>r. (it_incident r, it_trigger r)) T) \<and>
      (\<forall>r \<in> set T. it_id r < nt \<and> it_incident r < ni))"

definition closed_ok :: "(nat \<times> nat \<times> nat list \<times> nat option \<times> bool) list \<Rightarrow> incident_trigger list \<Rightarrow> bool" where
  "closed_ok S T = (\<forall>(i, ru, ps, su, c) \<in> set S. c \<longleftrightarrow> \<not> row_active T i)"

definition alerts_ok :: "alerts \<Rightarrow> bool" where
  "alerts_ok s =
     (shapes_ok (map shape (incident_rows s)) (next_incident_id s) \<and>
      triggers_ok (trigger_rows s) (next_incident_id s) (next_trigger_row s) \<and>
      closed_ok (map shape (incident_rows s)) (trigger_rows s))"

lemma alerts_ok_frame:
  "map shape (incident_rows s') = map shape (incident_rows s) \<Longrightarrow> trigger_rows s' = trigger_rows s \<Longrightarrow>
   next_incident_id s' = next_incident_id s \<Longrightarrow> next_trigger_row s' = next_trigger_row s \<Longrightarrow>
   alerts_ok s' = alerts_ok s"
  by (simp add: alerts_ok_def)

lemma alerts_ok_0: "alerts_ok alerts0"
  by (simp add: alerts_ok_def alerts0_def shapes_ok_def triggers_ok_def closed_ok_def)

text \<open>Fields that an operation leaves alone.\<close>

lemma activity_fields [simp]:
  "incident_rows (create_incident_activity i t v s) = incident_rows s"
  "trigger_rows (create_incident_activity i t v s) = trigger_rows s"
  "next_incident_id (create_incident_activity i t v s) = next_incident_id s"
  "next_trigger_row (create_incident_activity i t v s) = next_trigger_row s"
  by (simp_all add: create_incident_activity_def)

lemma update_incident_row_fields [simp]:
  "trigger_rows (update_incident_row i f s) = trigger_rows s"
  "next_incident_id (update_incident_row i f s) = next_incident_id s"
  "next_trigger_row (update_incident_row i f s) = next_trigger_row s"
  by (simp_all add: update_incident_row_def)

lemma set_trigger_status_fields [simp]:
  "incident_rows (set_trigger_status r st s) = incident_rows s"
  "next_incident_id (set_trigger_status r st s) = next_incident_id s"
  "next_trigger_row (set_trigger_status r st s) = next_trigger_row s"
  by (simp_all add: set_trigger_status_def)

lemma stats_fields [simp]:
  "incident_rows (update_alert_rule_stats rule sub l a r s) = incident_rows s"
  "trigger_rows (update_alert_rule_stats rule sub l a r s) = trigger_rows s"
  "next_incident_id (update_alert_rule_stats rule sub l a r s) = next_incident_id s"
  "next_trigger_row (update_alert_rule_stats rule sub l a r s) = next_trigger_row s"
  by (simp_all add: update_alert_rule_stats_def)

lemma reset_fields [simp]:
  "incident_rows (reset_trigger_counts rule sub l s) = incident_rows s"
  "trigger_rows (reset_trigger_counts rule sub l s) = trigger_rows s"
  "next_incident_id (reset_trigger_counts rule sub l s) = next_incident_id s"
  "next_trigger_row (reset_trigger_counts rule sub l s) = next_trigger_row s"
  by (simp_all add: reset_trigger_counts_def)

lemma action_fields [simp]:
  "incident_rows (handle_trigger_actions rule sub v p) = incident_rows (pr_tables p)"
  "trigger_rows (handle_trigger_actions rule sub v p) = trigger_rows (pr_tables p)"
  "next_incident_id (handle_trigger_actions rule sub v p) = next_incident_id (pr_tables p)"
  "next_trigger_row (handle_trigger_actions rule sub v p) = next_trigger_row (pr_tables p)"
  "stat_alert (handle_trigger_actions rule sub v p) = stat_alert (pr_tables p)"
  "stat_resolve (handle_trigger_actions rule sub v p) = stat_resolve (pr_tables p)"
  by (simp_all add: handle_trigger_actions_def Let_def split: option.splits prod.splits)

lemma find_incident_in: "find_incident s i = Some n \<Longrightarrow> n \<in> set (incident_rows s) \<and> mi_id n = i"
  by (auto simp: find_incident_def find_Some_iff)

lemma status_fields [simp]:
  "st \<noteq> IsClosed \<Longrightarrow> trigger_rows (update_incident_status rule i st m d now s) = trigger_rows s"
  "m = RuleTriggered \<Longrightarrow> trigger_rows (update_incident_status rule i st m d now s) = trigger_rows s"
  "next_incident_id (update_incident_status rule i st m d now s) = next_incident_id s"
  "next_trigger_row (update_incident_status rule i st m d now s) = next_trigger_row s"
  by (simp_all add: update_incident_status_def trigger_incident_triggers_def Let_def split: option.splits)

text \<open>A change between the open states does not change the shapes; closing changes one.\<close>

lemma shape_of_id: "distinct (map mi_id ns) \<Longrightarrow> n \<in> set ns \<Longrightarrow> n' \<in> set ns \<Longrightarrow> mi_id n = mi_id n' \<Longrightarrow> n = n'"
  by (simp add: distinct_map inj_on_def)

lemma ids_of_shapes: "map fst (map shape ns) = map mi_id ns"
  by (simp add: shape_def o_def)

lemma update_incident_shapes:
  assumes d: "distinct (map mi_id (incident_rows s))"
    and f: "find_incident s i = Some n" "mi_status n \<noteq> st"
  shows "map shape (incident_rows (update_incident_status rule i st m dt now s)) =
    map (\<lambda>(j, ru, ps, su, c). (j, ru, ps, su, if j = i then st = IsClosed else c)) (map shape (incident_rows s))"
  using f
  by (simp add: update_incident_status_def Let_def trigger_incident_triggers_def update_incident_row_def
      shape_def o_def)

lemma open_status_shapes:
  assumes d: "distinct (map mi_id (incident_rows s))" and o: "\<And>n. find_incident s i = Some n \<Longrightarrow> mi_status n \<noteq> IsClosed"
    and st: "st \<noteq> IsClosed"
  shows "map shape (incident_rows (update_incident_status rule i st m dt now s)) = map shape (incident_rows s)"
proof (cases "\<exists>n. find_incident s i = Some n \<and> mi_status n \<noteq> st")
  case False
  then show ?thesis by (auto simp: update_incident_status_def split: option.splits)
next
  case True
  then obtain n where n: "find_incident s i = Some n" "mi_status n \<noteq> st" by blast
  from find_incident_in [OF n(1)] have n_in: "n \<in> set (incident_rows s)" "mi_id n = i" by blast+
  have "mi_status n' \<noteq> IsClosed" if "n' \<in> set (incident_rows s)" "mi_id n' = i" for n'
    using shape_of_id [OF d that(1) n_in(1)] that n_in o [OF n(1)] by simp
  then have "\<forall>x \<in> set (map shape (incident_rows s)). (case x of (j, ru, ps, su, c) \<Rightarrow>
      (j, ru, ps, su, if j = i then st = IsClosed else c)) = x"
    using st by (auto simp: shape_def)
  then show ?thesis unfolding update_incident_shapes [OF d n] by (simp add: map_idI)
qed

lemma row_active_iff: "row_active T i \<longleftrightarrow> (\<exists>r \<in> set T. it_incident r = i \<and> it_status r = TriggerActive)"
  by (simp add: row_active_def list_ex_iff)

text \<open>Closing an incident whose triggers are all resolved keeps the invariant.\<close>

lemma shapes_ok_close:
  assumes "shapes_ok S ni"
  shows "shapes_ok (map (\<lambda>(j, ru, ps, su, c). (j, ru, ps, su, if j = i then True else c)) S) ni"
proof -
  let ?f = "\<lambda>(j, ru, ps, su, c). (j, ru, ps, su, if j = i then True else c) :: nat \<times> nat \<times> nat list \<times> nat option \<times> bool"
  have 1: "map fst (map ?f S) = map fst S" by (simp add: case_prod_beta o_def)
  have 2: "fst (?f x) = fst x" "snd (snd (snd (snd x))) \<Longrightarrow> snd (snd (snd (snd (?f x))))"
      "same_owner (?f x) (?f y) = same_owner x y" for x y
    by (cases x; cases y; simp add: same_owner_def)+
  have 3: "(case ?f x of (i, ru, ps, su, c) \<Rightarrow> su \<noteq> None) = (case x of (i, ru, ps, su, c) \<Rightarrow> su \<noteq> None)" for x
    by (cases x) simp
  from assms show ?thesis
    unfolding shapes_ok_def 1 set_map ball_simps 2(1,3) 3 by (blast intro: 2(2))
qed

lemma closed_ok_close:
  assumes "\<And>j ru ps su c. (j, ru, ps, su, c) \<in> set S \<Longrightarrow> j \<noteq> i \<Longrightarrow> c \<longleftrightarrow> \<not> row_active T j" "\<not> row_active T i"
  shows "closed_ok (map (\<lambda>(j, ru, ps, su, c). (j, ru, ps, su, if j = i then True else c)) S) T"
proof -
  let ?f = "\<lambda>(j, ru, ps, su, c). (j, ru, ps, su, if j = i then True else c) :: nat \<times> nat \<times> nat list \<times> nat option \<times> bool"
  have "case ?f x of (j, ru, ps, su, c) \<Rightarrow> c \<longleftrightarrow> \<not> row_active T j" if "x \<in> set S" for x
    using assms that by (cases x) simp
  then show ?thesis
    unfolding closed_ok_def set_map by (intro ballI, elim imageE) (simp only:)
qed

text \<open>Changing the status of one row of an incident.\<close>

abbreviation with_status :: "nat \<Rightarrow> trigger_status \<Rightarrow> incident_trigger list \<Rightarrow> incident_trigger list" where
  "with_status x st T \<equiv> map (\<lambda>r. if it_id r = x then r\<lparr>it_status := st\<rparr> else r) T"

lemma set_trigger_status_rows [simp]: "trigger_rows (set_trigger_status x st s) = with_status x st (trigger_rows s)"
  by (simp add: set_trigger_status_def)

lemma with_status_keys [simp]:
  "map it_id (with_status x st T) = map it_id T"
  "map (\<lambda>r. (it_incident r, it_trigger r)) (with_status x st T) = map (\<lambda>r. (it_incident r, it_trigger r)) T"
  by simp_all

lemma with_status_ok: "triggers_ok (with_status x st T) ni nt = triggers_ok T ni nt"
proof -
  have "(\<forall>r \<in> set (with_status x st T). it_id r < nt \<and> it_incident r < ni) \<longleftrightarrow>
      (\<forall>r \<in> set T. it_id r < nt \<and> it_incident r < ni)"
    by (induction T) auto
  then show ?thesis unfolding triggers_ok_def with_status_keys by blast
qed

definition map_ok :: "incident_trigger list \<Rightarrow> nat \<Rightarrow> (nat, nat) dict \<Rightarrow> bool" where
  "map_ok T i m =
     (\<forall>t r. dict_get m t = Some r \<longleftrightarrow> (\<exists>row \<in> set T. it_id row = r \<and> it_incident row = i \<and> it_trigger row = t))"

lemma with_status_map_ok: "map_ok (with_status x st T) i m = map_ok T i m"
proof -
  have "(\<exists>row \<in> set (with_status x st T). it_id row = r \<and> it_incident row = i \<and> it_trigger row = t) \<longleftrightarrow>
      (\<exists>row \<in> set T. it_id row = r \<and> it_incident row = i \<and> it_trigger row = t)" for r t
    by (induction T) auto
  then show ?thesis unfolding map_ok_def by presburger
qed

lemma with_status_active:
  assumes ok: "triggers_ok T ni nt" and row: "row \<in> set T" "it_id row = x"
  shows "row_active (with_status x st T) j \<longleftrightarrow>
    (j = it_incident row \<and> st = TriggerActive) \<or>
    (\<exists>r \<in> set T. it_id r \<noteq> x \<and> it_incident r = j \<and> it_status r = TriggerActive)"
proof -
  have only: "it_incident r = it_incident row" if "r \<in> set T" "it_id r = x" for r
    using ok that row by (auto simp: triggers_ok_def distinct_map inj_on_def)
  have "row_active (with_status x st T) j \<longleftrightarrow>
      (\<exists>r \<in> set T. it_id r = x \<and> it_incident r = j \<and> st = TriggerActive) \<or>
      (\<exists>r \<in> set T. it_id r \<noteq> x \<and> it_incident r = j \<and> it_status r = TriggerActive)"
  proof -
    let ?f = "\<lambda>r. if it_id r = x then r\<lparr>it_status := st\<rparr> else r"
    have "it_incident (?f r) = j \<and> it_status (?f r) = TriggerActive \<longleftrightarrow>
        (it_id r = x \<and> it_incident r = j \<and> st = TriggerActive) \<or>
        (it_id r \<noteq> x \<and> it_incident r = j \<and> it_status r = TriggerActive)" for r
      by simp
    then show ?thesis unfolding row_active_iff set_map by blast
  qed
  moreover have "(\<exists>r \<in> set T. it_id r = x \<and> it_incident r = j \<and> st = TriggerActive) \<longleftrightarrow>
      j = it_incident row \<and> st = TriggerActive"
    using row only by blast
  ultimately show ?thesis by (simp only:)
qed

text \<open>The invariant of a processor: its caches are what the tables hold.\<close>

definition owned ::
  "alert_rule \<Rightarrow> subscription \<Rightarrow> nat \<times> nat \<times> nat list \<times> nat option \<times> bool \<Rightarrow> bool" where
  "owned rule sub x = (case x of (i, ru, ps, su, c) \<Rightarrow>
     ru = ru_id rule \<and> su_project sub \<in> set ps \<and> su = Some (su_id sub) \<and> \<not> c)"

definition processor_ok :: "alert_rule \<Rightarrow> subscription \<Rightarrow> processor \<Rightarrow> bool" where
  "processor_ok rule sub p =
     (alerts_ok (pr_tables p) \<and> dict_wf (pr_map p) \<and>
      (\<forall>x \<in> set (map shape (incident_rows (pr_tables p))). owned rule sub x \<longrightarrow> pr_active p = Some (fst x)) \<and>
      (case pr_active p of
         None \<Rightarrow> pr_map p = []
       | Some i \<Rightarrow> (\<exists>x \<in> set (map shape (incident_rows (pr_tables p))). owned rule sub x \<and> fst x = i) \<and>
           map_ok (trigger_rows (pr_tables p)) i (pr_map p)))"

lemma processor_okD:
  assumes "processor_ok rule sub p"
  shows "alerts_ok (pr_tables p)" "dict_wf (pr_map p)"
    "x \<in> set (map shape (incident_rows (pr_tables p))) \<Longrightarrow> owned rule sub x \<Longrightarrow> pr_active p = Some (fst x)"
    "pr_active p = None \<Longrightarrow> pr_map p = []"
    "pr_active p = Some i \<Longrightarrow> \<exists>x \<in> set (map shape (incident_rows (pr_tables p))). owned rule sub x \<and> fst x = i"
    "pr_active p = Some i \<Longrightarrow> map_ok (trigger_rows (pr_tables p)) i (pr_map p)"
proof -
  note ok = assms [unfolded processor_ok_def]
  show "alerts_ok (pr_tables p)" "dict_wf (pr_map p)"
    "x \<in> set (map shape (incident_rows (pr_tables p))) \<Longrightarrow> owned rule sub x \<Longrightarrow> pr_active p = Some (fst x)"
    using ok by blast+
  show "pr_active p = None \<Longrightarrow> pr_map p = []" using ok by simp
  show "\<exists>x \<in> set (map shape (incident_rows (pr_tables p))). owned rule sub x \<and> fst x = i"
    "map_ok (trigger_rows (pr_tables p)) i (pr_map p)" if "pr_active p = Some i"
    using ok unfolding that option.case by blast+
qed

lemma processor_ok_cong:
  "map shape (incident_rows (pr_tables p')) = map shape (incident_rows (pr_tables p)) \<Longrightarrow>
   trigger_rows (pr_tables p') = trigger_rows (pr_tables p) \<Longrightarrow>
   next_incident_id (pr_tables p') = next_incident_id (pr_tables p) \<Longrightarrow>
   next_trigger_row (pr_tables p') = next_trigger_row (pr_tables p) \<Longrightarrow>
   pr_active p' = pr_active p \<Longrightarrow> pr_map p' = pr_map p \<Longrightarrow>
   processor_ok rule sub p' = processor_ok rule sub p"
  by (simp only: processor_ok_def alerts_ok_def)

lemma alerts_ok_ids: "alerts_ok s \<Longrightarrow> distinct (map mi_id (incident_rows s))"
  unfolding alerts_ok_def shapes_ok_def ids_of_shapes by blast

lemma severity_fields:
  "pr_active (handle_incident_severity_update rule now p) = pr_active p"
  "pr_map (handle_incident_severity_update rule now p) = pr_map p"
  "pr_alert (handle_incident_severity_update rule now p) = pr_alert p"
  "pr_resolve (handle_incident_severity_update rule now p) = pr_resolve p"
  "pr_fired (handle_incident_severity_update rule now p) = pr_fired p"
  "trigger_rows (pr_tables (handle_incident_severity_update rule now p)) = trigger_rows (pr_tables p)"
  "next_incident_id (pr_tables (handle_incident_severity_update rule now p)) = next_incident_id (pr_tables p)"
  "next_trigger_row (pr_tables (handle_incident_severity_update rule now p)) = next_trigger_row (pr_tables p)"
  by (simp_all add: handle_incident_severity_update_def Let_def split: option.splits)

lemma severity_shapes:
  assumes "distinct (map mi_id (incident_rows (pr_tables p)))"
    and "\<And>i n. pr_active p = Some i \<Longrightarrow> find_incident (pr_tables p) i = Some n \<Longrightarrow> mi_status n \<noteq> IsClosed"
  shows "map shape (incident_rows (pr_tables (handle_incident_severity_update rule now p))) =
    map shape (incident_rows (pr_tables p))"
proof (cases "pr_active p")
  case (Some i)
  have "map shape (incident_rows (update_incident_status rule i st RuleTriggered None now (pr_tables p))) =
      map shape (incident_rows (pr_tables p))" if "st \<noteq> IsClosed" for st
    using open_status_shapes [OF assms(1) _ that] assms(2) [OF Some] by blast
  with Some show ?thesis
    by (simp add: handle_incident_severity_update_def Let_def)
qed (simp add: handle_incident_severity_update_def)

lemma find_open:
  assumes "distinct (map mi_id (incident_rows s))" "(i, ru, ps, su, False) \<in> set (map shape (incident_rows s))"
    "find_incident s i = Some n"
  shows "mi_status n \<noteq> IsClosed"
proof -
  from assms(2) obtain n' where n': "n' \<in> set (incident_rows s)" "mi_id n' = i" "mi_status n' \<noteq> IsClosed"
    by (auto simp: shape_def)
  with find_incident_in [OF assms(3)] shape_of_id [OF assms(1)] show ?thesis by metis
qed

lemma severity_ok:
  assumes "processor_ok rule sub p"
  shows "processor_ok rule sub (handle_incident_severity_update rule' now p)"
proof -
  have ids: "distinct (map mi_id (incident_rows (pr_tables p)))"
    by (rule alerts_ok_ids [OF processor_okD(1) [OF assms]])
  have "mi_status n \<noteq> IsClosed" if "pr_active p = Some i" "find_incident (pr_tables p) i = Some n" for i n
  proof -
    from processor_okD(5) [OF assms that(1)] obtain x where
      x: "x \<in> set (map shape (incident_rows (pr_tables p)))" "owned rule sub x" "fst x = i" by blast
    then obtain ru ps su where "x = (i, ru, ps, su, False)" by (cases x) (auto simp: owned_def)
    with x(1) find_open [OF ids _ that(2)] show ?thesis by blast
  qed
  then have "map shape (incident_rows (pr_tables (handle_incident_severity_update rule' now p))) =
      map shape (incident_rows (pr_tables p))"
    using severity_shapes [OF ids] by blast
  from processor_ok_cong [OF this severity_fields(6-8) severity_fields(1,2)] show ?thesis
    using assms by blast
qed

text \<open>A new processor.\<close>

lemma sorted_head: "sort_key f xs = y # ys \<Longrightarrow> y \<in> set xs"
  by (metis list.set_intros(1) set_sort)

lemma get_active_owned:
  assumes "get_active_incident (ru_id rule) (su_project sub) (Some (su_id sub)) s = Some i"
  shows "\<exists>x \<in> set (map shape (incident_rows s)). owned rule sub x \<and> fst x = i"
proof -
  from assms obtain n where n: "n \<in> set (filter (\<lambda>n. mi_rule n = ru_id rule \<and>
      su_project sub \<in> set (mi_projects n) \<and> mi_subscription n = Some (su_id sub) \<and> mi_status n \<noteq> IsClosed)
      (incident_rows s))" "mi_id n = i"
    unfolding get_active_incident_def by (auto split: list.splits dest!: sorted_head)
  then show ?thesis by (auto simp: owned_def shape_def intro!: bexI [of _ n])
qed

lemma get_active_none:
  assumes "get_active_incident (ru_id rule) (su_project sub) (Some (su_id sub)) s = None"
    "x \<in> set (map shape (incident_rows s))"
  shows "\<not> owned rule sub x"
proof -
  from assms(1) have "filter (\<lambda>n. mi_rule n = ru_id rule \<and> su_project sub \<in> set (mi_projects n)
      \<and> mi_subscription n = Some (su_id sub) \<and> mi_status n \<noteq> IsClosed) (incident_rows s) = []"
    unfolding get_active_incident_def by (metis (no_types, lifting) list.case_eq_if option.distinct(1) set_empty set_sort)
  with assms(2) show ?thesis by (auto simp: owned_def shape_def filter_empty_conv)
qed

lemma no_unsubscribed:
  assumes "alerts_ok s" shows "get_active_incident rule project None s = None"
proof -
  from assms have "\<forall>x \<in> set (map shape (incident_rows s)). case x of (i, ru, ps, su, c) \<Rightarrow> su \<noteq> None"
    unfolding alerts_ok_def shapes_ok_def by blast
  then have "\<forall>n \<in> set (incident_rows s). mi_subscription n \<noteq> None" by (simp add: shape_def)
  then have "filter (\<lambda>n. mi_rule n = rule \<and> project \<in> set (mi_projects n) \<and> mi_subscription n = None
      \<and> mi_status n \<noteq> IsClosed) (incident_rows s) = []"
    by (simp add: filter_empty_conv)
  then show ?thesis by (simp only: get_active_incident_def) simp
qed

lemma owned_unique:
  assumes "alerts_ok s" "x \<in> set (map shape (incident_rows s))" "y \<in> set (map shape (incident_rows s))"
    "owned rule sub x" "owned rule sub y"
  shows "x = y"
proof -
  have ok: "shapes_ok (map shape (incident_rows s)) (next_incident_id s)" using assms(1) by (simp add: alerts_ok_def)
  have "same_owner x y" "\<not> snd (snd (snd (snd x)))" "\<not> snd (snd (snd (snd y)))"
    using assms(4,5) by (cases x; cases y; auto simp: owned_def same_owner_def)+
  with ok assms(2,3) have "fst x = fst y" unfolding shapes_ok_def by blast
  moreover have "distinct (map fst (map shape (incident_rows s)))" using ok by (simp only: shapes_ok_def)
  ultimately show ?thesis using assms(2,3) by (auto simp: distinct_map inj_on_def)
qed

lemma rows_map_ok:
  fixes i :: nat
  assumes "triggers_ok T ni nt"
  defines "m \<equiv> map (\<lambda>r. (it_trigger r, it_id r)) (filter (\<lambda>r. it_incident r = i) T)"
  shows "dict_wf m \<and> map_ok T i m"
proof -
  let ?R = "filter (\<lambda>r. it_incident r = i) T"
  have "distinct (map (\<lambda>r. (it_incident r, it_trigger r)) ?R)"
    using assms(1) unfolding triggers_ok_def by (simp add: distinct_map_filter)
  moreover have "map (\<lambda>r. (it_incident r, it_trigger r)) ?R = map (Pair i) (map it_trigger ?R)"
    by simp
  ultimately have "distinct (map it_trigger ?R)"
    by (metis distinct_map)
  then have wf: "dict_wf m" by (simp add: m_def o_def)
  then have "dict_get m t = Some r \<longleftrightarrow> (t, r) \<in> set m" for t r
    by (auto simp: dict_get_def)
  with wf show ?thesis by (auto simp: map_ok_def m_def)
qed

lemma new_processor_ok:
  assumes "alerts_ok s" shows "processor_ok rule sub (new_processor rule sub s)"
proof (cases "get_active_incident (ru_id rule) (su_project sub) (Some (su_id sub)) s")
  case None
  with assms no_unsubscribed [OF assms] get_active_none [OF None] show ?thesis
    by (simp add: processor_ok_def new_processor_def)
next
  case (Some i)
  have T: "triggers_ok (trigger_rows s) (next_incident_id s) (next_trigger_row s)"
    using assms by (simp add: alerts_ok_def)
  from get_active_owned [OF Some] obtain x where x: "x \<in> set (map shape (incident_rows s))" "owned rule sub x" "fst x = i"
    by blast
  with owned_unique [OF assms] have "\<forall>y \<in> set (map shape (incident_rows s)). owned rule sub y \<longrightarrow> i = fst y" by blast
  with x assms rows_map_ok [OF T, of i] Some show ?thesis
    by (auto simp: processor_ok_def new_processor_def)
qed

text \<open>Firing a trigger.\<close>

lemma shape_closed: "distinct (map fst S) \<Longrightarrow> x \<in> set S \<Longrightarrow> y \<in> set S \<Longrightarrow> fst x = fst y \<Longrightarrow> x = y"
  by (auto simp: distinct_map inj_on_def)

lemma closed_ok_status:
  assumes S: "closed_ok S T" and T: "triggers_ok T ni nt" and row: "row \<in> set T" "it_id row = r"
    and here: "\<And>ru ps su c. (it_incident row, ru, ps, su, c) \<in> set S \<Longrightarrow>
      c \<longleftrightarrow> \<not> row_active (with_status r st T) (it_incident row)"
  shows "closed_ok S (with_status r st T)"
proof -
  have "c \<longleftrightarrow> \<not> row_active (with_status r st T) j" if x: "(j, ru, ps, su, c) \<in> set S" for j ru ps su c
  proof (cases "j = it_incident row")
    case True
    with here x show ?thesis by blast
  next
    case False
    have "it_incident r' \<noteq> j" if "r' \<in> set T" "it_id r' = r" for r'
      using T that row False by (auto simp: triggers_ok_def distinct_map inj_on_def)
    then have "row_active (with_status r st T) j = row_active T j"
      using False with_status_active [OF T row, of st j] row_active_iff [of T j] by blast
    moreover have "c \<longleftrightarrow> \<not> row_active T j" using S x unfolding closed_ok_def by blast
    ultimately show ?thesis by simp
  qed
  then show ?thesis unfolding closed_ok_def by blast
qed

lemma row_active_append [simp]: "row_active (T @ [r]) j \<longleftrightarrow> row_active T j \<or> (it_incident r = j \<and> it_status r = TriggerActive)"
  by (auto simp: row_active_def)

lemma triggers_ok_append:
  assumes "triggers_ok T ni nt" "i < ni" "\<And>row. row \<in> set T \<Longrightarrow> it_incident row = i \<Longrightarrow> it_trigger row \<noteq> t"
  shows "triggers_ok (T @ [\<lparr>it_id = nt, it_incident = i, it_trigger = t, it_status = st\<rparr>]) ni (Suc nt)"
  using assms by (auto simp: triggers_ok_def less_Suc_eq)

lemma map_ok_append:
  assumes m: "map_ok T i m" and T: "triggers_ok T ni nt" and none: "dict_get m t = None"
  shows "map_ok (T @ [\<lparr>it_id = nt, it_incident = i, it_trigger = t, it_status = st\<rparr>]) i (dict_set t nt m)"
proof -
  let ?row = "\<lparr>it_id = nt, it_incident = i, it_trigger = t, it_status = st\<rparr>"
  have no: "\<not> (\<exists>row \<in> set T. it_id row = r \<and> it_incident row = i \<and> it_trigger row = t)" for r
    using m none unfolding map_ok_def by (metis option.distinct(1))
  have "dict_get (dict_set t nt m) t' = Some r \<longleftrightarrow>
      (\<exists>row \<in> set (T @ [?row]). it_id row = r \<and> it_incident row = i \<and> it_trigger row = t')" for t' r
  proof (cases "t' = t")
    case True
    with no show ?thesis by auto
  next
    case False
    then have "dict_get (dict_set t nt m) t' = Some r \<longleftrightarrow> dict_get m t' = Some r" by simp
    with False m show ?thesis unfolding map_ok_def by auto
  qed
  then show ?thesis unfolding map_ok_def by blast
qed

lemma map_ok_row:
  "map_ok T i m \<Longrightarrow> dict_get m t = Some r \<Longrightarrow> \<exists>row \<in> set T. it_id row = r \<and> it_incident row = i \<and> it_trigger row = t"
  unfolding map_ok_def by blast

lemma map_ok_again: "map_ok T i m \<Longrightarrow> dict_get m t = Some r \<Longrightarrow> map_ok T i (dict_set t r m)"
proof -
  assume m: "map_ok T i m" "dict_get m t = Some r"
  then have "dict_get (dict_set t r m) t' = dict_get m t'" for t' by auto
  with m(1) show ?thesis unfolding map_ok_def by presburger
qed

text \<open>The shape of an incident that was just created fits in.\<close>

lemma shapes_ok_append:
  assumes S: "shapes_ok S ni" and none: "\<And>x. x \<in> set S \<Longrightarrow> \<not> owned rule sub x"
  shows "shapes_ok (S @ [(ni, ru_id rule, [su_project sub], Some (su_id sub), False)]) (Suc ni)"
proof -
  let ?n = "(ni, ru_id rule, [su_project sub], Some (su_id sub), False)"
  note S = S [unfolded shapes_ok_def]
  have 1: "distinct (map fst S)" "\<forall>x \<in> set S. fst x < ni" "\<forall>(i, ru, ps, su, c) \<in> set S. su \<noteq> None"
    and 2: "\<And>x y. x \<in> set S \<Longrightarrow> y \<in> set S \<Longrightarrow> \<not> snd (snd (snd (snd x))) \<Longrightarrow> \<not> snd (snd (snd (snd y))) \<Longrightarrow>
      same_owner x y \<Longrightarrow> fst x = fst y"
    using S by blast+
  have new: "\<not> same_owner x ?n" "\<not> same_owner ?n x" if "x \<in> set S" "\<not> snd (snd (snd (snd x)))" for x
    using none [OF that(1)] that(2) by (cases x; auto simp: same_owner_def owned_def)+
  have "distinct (map fst (S @ [?n]))" using 1(1,2) by auto
  moreover have "\<forall>x \<in> set (S @ [?n]). fst x < Suc ni" using 1(2) by auto
  moreover have "\<forall>(i, ru, ps, su, c) \<in> set (S @ [?n]). su \<noteq> None" using 1(3) by auto
  moreover have "\<forall>x \<in> set (S @ [?n]). \<forall>y \<in> set (S @ [?n]). \<not> snd (snd (snd (snd x))) \<longrightarrow>
      \<not> snd (snd (snd (snd y))) \<longrightarrow> same_owner x y \<longrightarrow> fst x = fst y"
  proof (intro ballI impI)
    fix x y
    assume x: "x \<in> set (S @ [?n])" and y: "y \<in> set (S @ [?n])" and o: "\<not> snd (snd (snd (snd x)))"
      "\<not> snd (snd (snd (snd y)))" "same_owner x y"
    from x y consider "x \<in> set S" "y \<in> set S" | "x \<in> set S" "y = ?n" | "x = ?n" "y \<in> set S" | "x = y" by auto
    then show "fst x = fst y" using 2 new o by cases blast+
  qed
  ultimately show ?thesis unfolding shapes_ok_def by blast
qed

lemma create_incident_fields:
  assumes "create_incident rule started detected ps act sub now s = (i, s')"
  shows "i = next_incident_id s" "next_incident_id s' = Suc (next_incident_id s)" "trigger_rows s' = trigger_rows s"
    "next_trigger_row s' = next_trigger_row s"
    "map shape (incident_rows s') = map shape (incident_rows s) @ [(next_incident_id s, rule, ps, sub, False)]"
  using assms by (auto simp: create_incident_def Let_def shape_def)

lemma activate_fields:
  assumes "activate_trigger i t p = (r, p')"
  shows "incident_rows (pr_tables p') = incident_rows (pr_tables p)"
    "next_incident_id (pr_tables p') = next_incident_id (pr_tables p)"
    "pr_active p' = pr_active p" "pr_map p' = pr_map p" "pr_alert p' = pr_alert p"
    "pr_resolve p' = pr_resolve p" "pr_fired p' = pr_fired p"
  using assms by (auto simp: activate_trigger_def Let_def split: option.splits)

lemma owned_closed: "owned rule sub x \<Longrightarrow> x = (fst x, ru_id rule, fst (snd (snd x)), Some (su_id sub), False)"
  by (cases x) (auto simp: owned_def)

lemma alerts_okD:
  assumes "alerts_ok s"
  shows "shapes_ok (map shape (incident_rows s)) (next_incident_id s)"
    "triggers_ok (trigger_rows s) (next_incident_id s) (next_trigger_row s)"
    "closed_ok (map shape (incident_rows s)) (trigger_rows s)"
  using assms by (simp_all add: alerts_ok_def)

lemma fire_ok:
  assumes p: "processor_ok rule sub p"
    and o: "open_metric_incident rule sub u p = (i, p1)" and a: "activate_trigger i t p1 = (r, p2)"
  shows "processor_ok rule sub (p2\<lparr>pr_map := dict_set (tr_id t) r (pr_map p2)\<rparr>) \<and> pr_active p2 = Some i \<and>
    (\<exists>row \<in> set (trigger_rows (pr_tables p2)). it_id row = r \<and> it_incident row = i \<and>
       it_trigger row = tr_id t \<and> it_status row = TriggerActive)"
proof (cases "pr_active p")
  case Some: (Some j)
  with o have j: "j = i" "p1 = p" by (simp_all add: open_metric_incident_def)
  let ?s = "pr_tables p"
  note act = Some [unfolded j(1)]
  note ok = alerts_okD [OF processor_okD(1) [OF p]]
  obtain x where x: "x \<in> set (map shape (incident_rows ?s))" "owned rule sub x" "fst x = i"
    using processor_okD(5) [OF p act] by blast
  note m = processor_okD(6) [OF p act]
  have only: "\<not> c" if "(i, ru, ps, su, c) \<in> set (map shape (incident_rows ?s))" for ru ps su c
    using shape_closed [of "map shape (incident_rows ?s)", OF _ that x(1)] ok(1) x owned_closed [OF x(2)]
    by (auto simp only: shapes_ok_def fst_conv prod.inject)
  have i_less: "i < next_incident_id ?s" using ok(1) x unfolding shapes_ok_def by blast
  show ?thesis
  proof (cases "dict_get (pr_map p) (tr_id t)")
    case map: (Some r')
    with a j have r': "r' = r" and p2: "p2 = p\<lparr>pr_tables := set_trigger_status r TriggerActive ?s\<rparr>"
      by (auto simp: activate_trigger_def)
    obtain row where row: "row \<in> set (trigger_rows ?s)" "it_id row = r" "it_incident row = i" "it_trigger row = tr_id t"
      using map_ok_row [OF m map] r' by blast
    have row': "row\<lparr>it_status := TriggerActive\<rparr> \<in> set (with_status r TriggerActive (trigger_rows ?s))"
      using row(1,2) by force
    have active: "row_active (with_status r TriggerActive (trigger_rows ?s)) i"
      using with_status_active [OF ok(2) row(1,2)] row(3) by simp
    have "closed_ok (map shape (incident_rows ?s)) (with_status r TriggerActive (trigger_rows ?s))"
      by (rule closed_ok_status [OF ok(3,2) row(1,2)]) (use only active row(3) in blast)
    then have "alerts_ok (pr_tables p2)"
      using ok by (simp add: alerts_ok_def p2 with_status_ok)
    moreover have "map_ok (with_status r TriggerActive (trigger_rows ?s)) i (dict_set (tr_id t) r (pr_map p))"
      unfolding with_status_map_ok using map_ok_again [OF m map] r' by simp
    moreover have "\<forall>x \<in> set (map shape (incident_rows ?s)). owned rule sub x \<longrightarrow> pr_active p = Some (fst x)"
      using processor_okD(3) [OF p] by blast
    moreover have "\<exists>x \<in> set (map shape (incident_rows ?s)). owned rule sub x \<and> fst x = i" using x by blast
    moreover have "dict_wf (dict_set (tr_id t) r (pr_map p))" using processor_okD(2) [OF p] by simp
    ultimately have "processor_ok rule sub (p2\<lparr>pr_map := dict_set (tr_id t) r (pr_map p2)\<rparr>)"
      using act by (simp add: processor_ok_def p2)
    moreover have "\<exists>row \<in> set (trigger_rows (pr_tables p2)). it_id row = r \<and> it_incident row = i \<and>
        it_trigger row = tr_id t \<and> it_status row = TriggerActive"
      using row' row by (intro bexI [of _ "row\<lparr>it_status := TriggerActive\<rparr>"]) (simp_all add: p2)
    ultimately show ?thesis using act by (simp add: p2)
  next
    case None
    let ?row = "\<lparr>it_id = next_trigger_row ?s, it_incident = i, it_trigger = tr_id t, it_status = TriggerActive\<rparr>"
    from None a j have r: "r = next_trigger_row ?s" and p2: "p2 = p\<lparr>pr_tables := ?s\<lparr>trigger_rows :=
        trigger_rows ?s @ [?row], next_trigger_row := Suc (next_trigger_row ?s)\<rparr>\<rparr>"
      by (auto simp: activate_trigger_def Let_def)
    have "it_trigger row \<noteq> tr_id t" if "row \<in> set (trigger_rows ?s)" "it_incident row = i" for row
      using m None that unfolding map_ok_def by (metis option.distinct(1))
    from triggers_ok_append [OF ok(2) i_less this]
    have T: "triggers_ok (trigger_rows ?s @ [?row]) (next_incident_id ?s) (Suc (next_trigger_row ?s))" .
    have "closed_ok (map shape (incident_rows ?s)) (trigger_rows ?s @ [?row])"
      using ok(3) only unfolding closed_ok_def row_active_append by fastforce
    with T ok(1) have "alerts_ok (pr_tables p2)" by (simp add: alerts_ok_def p2)
    moreover have "map_ok (trigger_rows ?s @ [?row]) i (dict_set (tr_id t) r (pr_map p))"
      unfolding r by (rule map_ok_append [OF m ok(2) None])
    moreover have "\<forall>x \<in> set (map shape (incident_rows ?s)). owned rule sub x \<longrightarrow> pr_active p = Some (fst x)"
      using processor_okD(3) [OF p] by blast
    moreover have "\<exists>x \<in> set (map shape (incident_rows ?s)). owned rule sub x \<and> fst x = i" using x by blast
    moreover have "dict_wf (dict_set (tr_id t) r (pr_map p))" using processor_okD(2) [OF p] by simp
    ultimately show ?thesis
      using act by (simp add: processor_ok_def p2 r)
  qed
next
  case None
  let ?s = "pr_tables p" and ?i = "next_incident_id (pr_tables p)"
  note ok = alerts_okD [OF processor_okD(1) [OF p]]
  have empty: "pr_map p = []" by (rule processor_okD(4) [OF p None])
  from None o obtain s1 act where c: "create_incident (ru_id rule)
      (calculate_event_date_from_update_date rule (up_timestamp u)) (up_timestamp u) [su_project sub] act
      (Some (su_id sub)) (up_now u) ?s = (i, s1)" and p1: "p1 = p\<lparr>pr_tables := s1, pr_active := Some i\<rparr>"
    unfolding open_metric_incident_def Let_def by (auto split: prod.splits)
  note f = create_incident_fields [OF c]
  let ?row = "\<lparr>it_id = next_trigger_row ?s, it_incident = ?i, it_trigger = tr_id t, it_status = TriggerActive\<rparr>"
  from a have r: "r = next_trigger_row ?s" and p2: "p2 = p1\<lparr>pr_tables := s1\<lparr>trigger_rows :=
      trigger_rows ?s @ [?row], next_trigger_row := Suc (next_trigger_row ?s)\<rparr>\<rparr>"
    by (auto simp: activate_trigger_def Let_def p1 empty f)
  let ?n = "(?i, ru_id rule, [su_project sub], Some (su_id sub), False)"
  have none: "\<not> owned rule sub x" if "x \<in> set (map shape (incident_rows ?s))" for x
    using processor_okD(3) [OF p that] None by auto
  have fresh: "it_incident row \<noteq> ?i" if "row \<in> set (trigger_rows ?s)" for row
    using ok(2) that unfolding triggers_ok_def by auto
  have "triggers_ok (trigger_rows ?s) (Suc ?i) (next_trigger_row ?s)"
    using ok(2) unfolding triggers_ok_def by auto
  from triggers_ok_append [OF this lessI] fresh
  have T: "triggers_ok (trigger_rows ?s @ [?row]) (Suc ?i) (Suc (next_trigger_row ?s))" by blast
  have old: "(?i, ru, ps, su, b) \<notin> set (map shape (incident_rows ?s))" for ru ps su b
    using ok(1) unfolding shapes_ok_def by fastforce
  have C: "closed_ok (map shape (incident_rows ?s) @ [?n]) (trigger_rows ?s @ [?row])"
    using ok(3) old unfolding closed_ok_def row_active_append by fastforce
  have "alerts_ok (pr_tables p2)"
    using shapes_ok_append [OF ok(1) none] T C by (simp add: alerts_ok_def p2 f)
  moreover have "map_ok (trigger_rows ?s @ [?row]) ?i (dict_set (tr_id t) (next_trigger_row ?s) [])"
  proof (rule map_ok_append [OF _ ok(2)])
    show "map_ok (trigger_rows ?s) ?i []" unfolding map_ok_def using fresh by auto
  qed simp
  moreover have "owned rule sub ?n" by (simp add: owned_def)
  ultimately show ?thesis
    using none by (simp add: processor_ok_def p2 p1 f empty r dict_set_def) 
qed

lemma severity_map:
  "handle_incident_severity_update rule now (p\<lparr>pr_map := m\<rparr>) =
   (handle_incident_severity_update rule now p)\<lparr>pr_map := m\<rparr>"
  by (simp add: handle_incident_severity_update_def Let_def split: option.splits)

lemma processor_ok_counts [simp]:
  "processor_ok rule sub (p\<lparr>pr_alert := a\<rparr>) = processor_ok rule sub p"
  "processor_ok rule sub (p\<lparr>pr_resolve := r\<rparr>) = processor_ok rule sub p"
  "processor_ok rule sub (p\<lparr>pr_fired := f\<rparr>) = processor_ok rule sub p"
  by (rule processor_ok_cong; simp)+

lemma trigger_alert_ok:
  assumes "processor_ok rule sub p"
  shows "processor_ok rule sub (trigger_alert_threshold rule sub u t p)"
proof -
  define p0 where "p0 = p\<lparr>pr_alert := dict_set (tr_id t) (count_of (pr_alert p) (tr_id t) + 1) (pr_alert p)\<rparr>"
  obtain i p1 where o: "open_metric_incident rule sub u p0 = (i, p1)" by fastforce
  obtain r p2 where a: "activate_trigger i t p1 = (r, p2)" by fastforce
  have p0: "processor_ok rule sub p0" using assms by (simp add: p0_def)
  note severity_ok [OF conjunct1 [OF fire_ok [OF p0 o a]], of rule "up_now u", unfolded severity_map]
  with p0 show ?thesis
    by (simp add: trigger_alert_threshold_def Let_def p0_def [symmetric] o a severity_fields)
qed

text \<open>Resolving a trigger.\<close>

lemma all_resolved:
  assumes T: "triggers_ok (trigger_rows (pr_tables p)) ni nt"
    and m: "map_ok (trigger_rows (pr_tables p)) i (pr_map p)" and wf: "dict_wf (pr_map p)"
  shows "check_triggers_resolved p \<longleftrightarrow> \<not> row_active (trigger_rows (pr_tables p)) i"
proof -
  let ?T = "trigger_rows (pr_tables p)"
  have ids: "distinct (map it_id ?T)" using T by (simp add: triggers_ok_def)
  have find: "find_trigger_row (pr_tables p) (it_id row) = Some row" if "row \<in> set ?T" for row
    unfolding find_trigger_row_def by (rule find_distinct [OF ids that])
  have entry: "(t, r) \<in> set (pr_map p) \<longleftrightarrow> dict_get (pr_map p) t = Some r" for t r
    using wf dict_get_in dict_get_wf by metis
  show ?thesis
  proof
    assume c: "check_triggers_resolved p"
    show "\<not> row_active ?T i"
    proof
      assume "row_active ?T i"
      then obtain row where row: "row \<in> set ?T" "it_incident row = i" "it_status row = TriggerActive"
        unfolding row_active_iff by blast
      then have "(it_trigger row, it_id row) \<in> set (pr_map p)" using m entry unfolding map_ok_def by blast
      with c find [OF row(1)] row(3) show False
        by (auto simp: check_triggers_resolved_def list_all_iff)
    qed
  next
    assume none: "\<not> row_active ?T i"
    have "it_status row = TriggerResolved"
      if "(t, r) \<in> set (pr_map p)" "find_trigger_row (pr_tables p) r = Some row" for t r row
    proof -
      from that(1) entry m obtain row' where row': "row' \<in> set ?T" "it_id row' = r" "it_incident row' = i"
        unfolding map_ok_def by blast
      with find [OF row'(1)] that(2) have "row' = row" by simp
      with row' none show ?thesis unfolding row_active_iff by (cases "it_status row") auto
    qed
    then show "check_triggers_resolved p"
      by (auto simp: check_triggers_resolved_def list_all_iff split: option.splits)
  qed
qed

text \<open>What a resolved row leaves open is settled by closing the incident or not.\<close>

lemma resolve_row:
  assumes p: "processor_ok rule sub p" and act: "pr_active p = Some i"
    and r: "dict_get (pr_map p) t = Some r"
  defines "T' \<equiv> with_status r TriggerResolved (trigger_rows (pr_tables p))"
  shows "triggers_ok T' (next_incident_id (pr_tables p)) (next_trigger_row (pr_tables p))"
    "map_ok T' i (pr_map p)"
    "\<And>j. j \<noteq> i \<Longrightarrow> row_active T' j = row_active (trigger_rows (pr_tables p)) j"
proof -
  let ?s = "pr_tables p"
  note ok = alerts_okD [OF processor_okD(1) [OF p]]
  note m = processor_okD(6) [OF p act]
  obtain row where row: "row \<in> set (trigger_rows ?s)" "it_id row = r" "it_incident row = i"
    using map_ok_row [OF m r] by blast
  show "triggers_ok T' (next_incident_id ?s) (next_trigger_row ?s)" using ok(2) by (simp add: T'_def with_status_ok)
  show "map_ok T' i (pr_map p)" using m by (simp add: T'_def with_status_map_ok)
  show "row_active T' j = row_active (trigger_rows ?s) j" if "j \<noteq> i" for j
  proof -
    have "it_incident r' \<noteq> j" if "r' \<in> set (trigger_rows ?s)" "it_id r' = r" for r'
      using ok(2) that row \<open>j \<noteq> i\<close> by (auto simp: triggers_ok_def distinct_map inj_on_def)
    then show ?thesis
      using that with_status_active [OF ok(2) row(1,2), of TriggerResolved j] row(3)
        row_active_iff [of "trigger_rows ?s" j] unfolding T'_def by blast
  qed
qed

lemma update_status_shape_closed:
  assumes d: "distinct (map mi_id (incident_rows s))" and o: "(i, ru, ps, su, False) \<in> set (map shape (incident_rows s))"
  shows "map shape (incident_rows (update_incident_status rule i IsClosed m dt now s)) =
    map (\<lambda>(j, ru, ps, su, c). (j, ru, ps, su, if j = i then True else c)) (map shape (incident_rows s))"
proof -
  from o obtain n where n: "n \<in> set (incident_rows s)" "mi_id n = i" "mi_status n \<noteq> IsClosed"
    by (auto simp: shape_def)
  have f: "find_incident s i = Some n"
    using find_distinct [OF d n(1)] n(2) by (simp add: find_incident_def)
  show ?thesis unfolding update_incident_shapes [OF d f n(3)] by (simp only: simp_thms)
qed

lemma trigger_resolve_ok:
  assumes p: "processor_ok rule sub p"
  shows "processor_ok rule sub (trigger_resolve_threshold rule u t p)"
proof (cases "count_of (pr_resolve p) (tr_id t) + 1 \<ge> ru_period rule \<and>
    (\<exists>r i. dict_get (pr_map p) (tr_id t) = Some r \<and> pr_active p = Some i)")
  case False
  with p show ?thesis
    by (auto simp: trigger_resolve_threshold_def Let_def split: option.splits)
next
  case True
  then obtain r i where r: "dict_get (pr_map p) (tr_id t) = Some r" and act: "pr_active p = Some i" by blast
  let ?s = "pr_tables p" and ?T' = "with_status r TriggerResolved (trigger_rows (pr_tables p))"
  define p1 where "p1 = p\<lparr>pr_tables := set_trigger_status r TriggerResolved ?s,
    pr_resolve := dict_set (tr_id t) 0 (dict_set (tr_id t) (count_of (pr_resolve p) (tr_id t) + 1) (pr_resolve p))\<rparr>"
  note ok = alerts_okD [OF processor_okD(1) [OF p]]
  note row = resolve_row [OF p act r]
  obtain x where x: "x \<in> set (map shape (incident_rows ?s))" "owned rule sub x" "fst x = i"
    using processor_okD(5) [OF p act] by blast
  have ids: "distinct (map mi_id (incident_rows ?s))" by (rule alerts_ok_ids [OF processor_okD(1) [OF p]])
  have p1: "pr_map p1 = pr_map p" "pr_active p1 = Some i" "trigger_rows (pr_tables p1) = ?T'"
    "incident_rows (pr_tables p1) = incident_rows ?s" "next_incident_id (pr_tables p1) = next_incident_id ?s"
    "next_trigger_row (pr_tables p1) = next_trigger_row ?s"
    by (simp_all add: p1_def act)
  have resolved: "check_triggers_resolved p1 \<longleftrightarrow> \<not> row_active ?T' i"
    using all_resolved [of p1 "next_incident_id ?s" "next_trigger_row ?s" i] row(1,2) processor_okD(2) [OF p]
    by (simp only: p1)
  have other: "c \<longleftrightarrow> \<not> row_active ?T' j" if "(j, ru, ps, su, c) \<in> set (map shape (incident_rows ?s))" "j \<noteq> i" for j ru ps su c
    using ok(3) that(1) row(3) [OF that(2)] unfolding closed_ok_def by blast
  have result: "trigger_resolve_threshold rule u t p =
      (let p2 = (if check_triggers_resolved p1
          then p1\<lparr>pr_tables := update_incident_status rule i IsClosed RuleTriggered
                 (Some (calculate_event_date_from_update_date rule (up_timestamp u))) (up_now u) (pr_tables p1),
               pr_active := None, pr_map := []\<rparr>
          else handle_incident_severity_update rule (up_now u) p1)
       in p2\<lparr>pr_fired := pr_fired p2 @ [r]\<rparr>)"
    using True r act by (simp add: trigger_resolve_threshold_def Let_def p1_def)
  show ?thesis
  proof (cases "check_triggers_resolved p1")
    case False
    with resolved have active: "row_active ?T' i" by blast
    have "\<not> c" if "(i, ru, ps, su, c) \<in> set (map shape (incident_rows ?s))" for ru ps su c
      using shape_closed [of "map shape (incident_rows ?s)", OF _ that x(1)] ok(1) x owned_closed [OF x(2)]
      by (auto simp only: shapes_ok_def fst_conv prod.inject)
    with other active have "closed_ok (map shape (incident_rows ?s)) ?T'" unfolding closed_ok_def by blast
    with ok(1) row(1) have "alerts_ok (pr_tables p1)" by (simp add: alerts_ok_def p1)
    then have "processor_ok rule sub p1"
      unfolding processor_ok_def p1 option.case using processor_okD(2,3) [OF p] act row(2) x(1,2,3)
      by (intro conjI ballI impI bexI [of _ x]) (simp_all, metis)
    from severity_ok [OF this, of rule "up_now u"] False show ?thesis
      unfolding result Let_def by (simp only: if_False processor_ok_counts)
  next
    case True
    with resolved have inactive: "\<not> row_active ?T' i" by blast
    let ?s' = "update_incident_status rule i IsClosed RuleTriggered
      (Some (calculate_event_date_from_update_date rule (up_timestamp u))) (up_now u) (pr_tables p1)"
    let ?close = "\<lambda>(j, ru, ps, su, c). (j, ru, ps, su, if j = i then True else c)"
    have open_i: "(i, ru_id rule, fst (snd (snd x)), Some (su_id sub), False) \<in> set (map shape (incident_rows (pr_tables p1)))"
      using x owned_closed [OF x(2)] unfolding p1 by simp
    have shapes: "map shape (incident_rows ?s') = map ?close (map shape (incident_rows ?s))"
      using update_status_shape_closed [OF ids [folded p1(4)] open_i] unfolding p1(4) .
    have "closed_ok (map ?close (map shape (incident_rows ?s))) ?T'"
      by (rule closed_ok_close [OF other inactive])
    then have "alerts_ok ?s'"
      using shapes_ok_close [OF ok(1)] row(1)
      unfolding alerts_ok_def shapes by (simp only: status_fields p1 simp_thms)
    moreover have "\<not> owned rule sub y" if "y \<in> set (map ?close (map shape (incident_rows ?s)))" for y
    proof
      assume o: "owned rule sub y"
      from that [unfolded list.set_map [of ?close]] obtain z
        where z: "y = ?close z" "z \<in> set (map shape (incident_rows ?s))" by (rule imageE)
      with o have "owned rule sub z" "fst z \<noteq> i"
        by (cases z; auto simp: owned_def split: if_splits)+
      with processor_okD(3) [OF p z(2)] act show False by simp
    qed
    ultimately have "processor_ok rule sub (p1\<lparr>pr_tables := ?s', pr_active := None, pr_map := []\<rparr>)"
      unfolding processor_ok_def by (simp add: shapes del: map_map)
    with True show ?thesis unfolding result Let_def by (simp only: if_True processor_ok_counts)
  qed
qed

lemma static_trigger_ok: "processor_ok rule sub p \<Longrightarrow> processor_ok rule sub (static_trigger rule sub u v p t)"
  by (simp add: static_trigger_def resolve_half_def alert_half_def trigger_resolve_ok trigger_alert_ok)

lemma anomaly_trigger_ok: "processor_ok rule sub p \<Longrightarrow> processor_ok rule sub (anomaly_trigger rule sub u t p a)"
proof -
  assume p: "processor_ok rule sub p"
  have "processor_ok rule sub (p\<lparr>pr_tables := (pr_tables p)\<lparr>rule_statuses := d\<rparr>\<rparr>)" for d
    using p processor_ok_cong [of "p\<lparr>pr_tables := (pr_tables p)\<lparr>rule_statuses := d\<rparr>\<rparr>" p] by simp
  with p show ?thesis
    by (simp add: anomaly_trigger_def resolve_half_def alert_half_def Let_def trigger_resolve_ok trigger_alert_ok)
qed

lemma process_triggers_ok:
  "processor_ok rule sub p \<Longrightarrow> processor_ok rule sub (process_triggers rule sub u as v p)"
  unfolding process_triggers_def
  by (rule foldl_keeps, assumption) (simp add: static_trigger_ok foldl_keeps anomaly_trigger_ok)

lemma process_value_ok: "alerts_ok s \<Longrightarrow> alerts_ok (process_value rule sub u as v s)"
proof -
  assume s: "alerts_ok s"
  let ?p = "process_triggers rule sub u as v (new_processor rule sub s)"
  have "alerts_ok (pr_tables ?p)"
    by (rule processor_okD(1) [OF process_triggers_ok [OF new_processor_ok [OF s]]])
  moreover have "alerts_ok (process_value rule sub u as v s) = alerts_ok (pr_tables ?p)"
    by (rule alerts_ok_frame) (simp_all add: process_value_def Let_def)
  ultimately show ?thesis by simp
qed

lemma aggregation_frame:
  "get_aggregation_value rule sub u s = Inr (v, s') \<Longrightarrow> alerts_ok s' = alerts_ok s"
  by (rule alerts_ok_frame)
    (auto simp: get_aggregation_value_def crash_free_percentage_def Let_def split: if_splits option.splits prod.splits)

lemma process_update_ok: "alerts_ok s \<Longrightarrow> process_update rule sub u s = Inr s' \<Longrightarrow> alerts_ok s'"
  by (cases "get_aggregation_value rule sub u s")
    (auto simp: process_update_def Let_def aggregation_frame process_value_ok
      split: if_splits option.splits prod.splits)

text \<open>Closing an incident by hand, or because its rule changed, resolves all of its triggers.\<close>

lemma close_ok:
  assumes s: "alerts_ok s" and m: "m = ByUser \<or> m = RuleUpdated"
  shows "alerts_ok (update_incident_status rule i IsClosed m dt now s)"
proof (cases "\<exists>n. find_incident s i = Some n \<and> mi_status n \<noteq> IsClosed")
  case False
  then have "update_incident_status rule i IsClosed m dt now s = s"
    by (auto simp: update_incident_status_def split: option.splits)
  with s show ?thesis by simp
next
  case True
  then obtain n where n: "find_incident s i = Some n" "mi_status n \<noteq> IsClosed" by blast
  note ok = alerts_okD [OF s]
  let ?T = "trigger_rows s" and ?s' = "update_incident_status rule i IsClosed m dt now s"
  let ?close = "\<lambda>(j, ru, ps, su, c). (j, ru, ps, su, if j = i then True else c)"
  let ?f = "\<lambda>r. if it_incident r = i then r\<lparr>it_status := TriggerResolved\<rparr> else r"
  have id: "mi_id n = i" using find_incident_in [OF n(1)] by blast
  have rows: "trigger_rows ?s' = map ?f ?T"
    using n m by (auto simp: update_incident_status_def trigger_incident_triggers_def Let_def id)
  have shapes: "map shape (incident_rows ?s') = map ?close (map shape (incident_rows s))"
    unfolding update_incident_shapes [OF alerts_ok_ids [OF s] n] by (simp only: simp_thms)
  have keys: "map it_id (map ?f ?T) = map it_id ?T"
    "map (\<lambda>r. (it_incident r, it_trigger r)) (map ?f ?T) = map (\<lambda>r. (it_incident r, it_trigger r)) ?T"
    by simp_all
  have "\<forall>r \<in> set (map ?f ?T). it_id r < next_trigger_row s \<and> it_incident r < next_incident_id s"
    using ok(2) by (auto simp: triggers_ok_def)
  then have T: "triggers_ok (map ?f ?T) (next_incident_id s) (next_trigger_row s)"
    using ok(2) unfolding triggers_ok_def keys by blast
  have active: "row_active (map ?f ?T) j \<longleftrightarrow> j \<noteq> i \<and> row_active ?T j" for j
    by (auto simp: row_active_def list_ex_iff)
  have other: "c \<longleftrightarrow> \<not> row_active (map ?f ?T) j" if "(j, ru, ps, su, c) \<in> set (map shape (incident_rows s))" "j \<noteq> i"
    for j ru ps su c
    using ok(3) that unfolding active closed_ok_def by blast
  have "closed_ok (map ?close (map shape (incident_rows s))) (map ?f ?T)"
    by (rule closed_ok_close [OF other]) (simp_all only: active simp_thms)
  then show ?thesis
    using shapes_ok_close [OF ok(1)] T unfolding alerts_ok_def shapes rows by (simp only: status_fields simp_thms)
qed

lemma alert_step_ok: "alerts_ok s \<Longrightarrow> alerts_ok (alert_step s e)"
  by (cases e) (auto simp: close_ok process_update_ok split: sum.splits)

interpretation alerts_run: step_machine alert_step alerts_ok
  by unfold_locales (rule alert_step_ok)

section \<open>A trigger on its own\<close>

text \<open>
  What an update does to one trigger, however many triggers the rule has: the trigger is active or
  not, and counts the breaches and the clear values in a row.
\<close>

type_synonym trigger_view = "bool \<times> int \<times> int"

definition trigger_step :: "int \<Rightarrow> bool \<Rightarrow> bool \<Rightarrow> bool \<Rightarrow> trigger_view \<Rightarrow> trigger_view" where
  "trigger_step period limited breach clear w =
     (let (active, alerts, resolves) = w;
          (active, alerts) =
            (if breach \<and> \<not> active
             then if limited then (False, alerts + 1)
                  else if alerts + 1 \<ge> period then (True, 0) else (False, alerts + 1)
             else (active, 0))
      in if clear \<and> active
         then if resolves + 1 \<ge> period then (False, alerts, 0) else (True, alerts, resolves + 1)
         else (active, alerts, 0))"

definition trigger_active :: "incident_trigger list \<Rightarrow> nat option \<Rightarrow> nat \<Rightarrow> bool" where
  "trigger_active T act t =
     (case act of None \<Rightarrow> False
      | Some i \<Rightarrow> list_ex (\<lambda>r. it_incident r = i \<and> it_trigger r = t \<and> it_status r = TriggerActive) T)"

definition processor_view :: "processor \<Rightarrow> nat \<Rightarrow> trigger_view" where
  "processor_view p t =
     (trigger_active (trigger_rows (pr_tables p)) (pr_active p) t, count_of (pr_alert p) t, count_of (pr_resolve p) t)"

definition trigger_view :: "alert_rule \<Rightarrow> subscription \<Rightarrow> alerts \<Rightarrow> nat \<Rightarrow> trigger_view" where
  "trigger_view rule sub s t = processor_view (new_processor rule sub s) t"

lemma trigger_active_iff:
  "trigger_active T (Some i) t \<longleftrightarrow> (\<exists>r \<in> set T. it_incident r = i \<and> it_trigger r = t \<and> it_status r = TriggerActive)"
  "\<not> trigger_active T None t"
  by (auto simp: trigger_active_def list_ex_iff)

lemma trigger_active_append:
  "trigger_active (T @ [r]) (Some i) t \<longleftrightarrow>
    trigger_active T (Some i) t \<or> it_incident r = i \<and> it_trigger r = t \<and> it_status r = TriggerActive"
  by (auto simp: trigger_active_def)

lemma matches_active:
  assumes "processor_ok rule sub p"
  shows "check_trigger_matches_status t TriggerActive p \<longleftrightarrow>
    trigger_active (trigger_rows (pr_tables p)) (pr_active p) (tr_id t)"
proof (cases "pr_active p")
  case None
  with processor_okD(4) [OF assms] show ?thesis
    by (simp add: check_trigger_matches_status_def trigger_active_def)
next
  case (Some i)
  let ?T = "trigger_rows (pr_tables p)"
  note T = alerts_okD(2) [OF processor_okD(1) [OF assms]]
  note m = processor_okD(6) [OF assms Some]
  have find: "find_trigger_row (pr_tables p) (it_id row) = Some row" if "row \<in> set ?T" for row
    unfolding find_trigger_row_def using T that by (intro find_distinct) (simp_all add: triggers_ok_def)
  show ?thesis
  proof (cases "dict_get (pr_map p) (tr_id t)")
    case None
    with m have "\<not> (\<exists>r \<in> set ?T. it_incident r = i \<and> it_trigger r = tr_id t)"
      unfolding map_ok_def by (metis option.distinct(1))
    with None Some show ?thesis by (auto simp: check_trigger_matches_status_def trigger_active_iff)
  next
    case r: (Some r)
    obtain row where row: "row \<in> set ?T" "it_id row = r" "it_incident row = i" "it_trigger row = tr_id t"
      using map_ok_row [OF m r] by blast
    have same: "row' = row" if "row' \<in> set ?T" "it_incident row' = i" "it_trigger row' = tr_id t" for row'
      using T that row by (auto simp: triggers_ok_def distinct_map inj_on_def)
    have "check_trigger_matches_status t TriggerActive p \<longleftrightarrow> it_status row = TriggerActive"
      using find [OF row(1)] row(2) r by (simp add: check_trigger_matches_status_def)
    moreover have "trigger_active ?T (Some i) (tr_id t) \<longleftrightarrow> it_status row = TriggerActive"
      unfolding trigger_active_iff using row same by blast
    ultimately show ?thesis using Some by simp
  qed
qed

lemma with_status_trigger:
  assumes ok: "triggers_ok T ni nt" and row: "row \<in> set T" "it_id row = x" "it_incident row = i" "it_trigger row = t"
  shows "trigger_active (with_status x st T) (Some i) t' \<longleftrightarrow>
    (if t' = t then st = TriggerActive else trigger_active T (Some i) t')"
proof -
  define f where "f = (\<lambda>r :: incident_trigger. if it_id r = x then r\<lparr>it_status := st\<rparr> else r)"
  have 1: "it_trigger r = t \<and> it_incident r = i \<longleftrightarrow> it_id r = x" if "r \<in> set T" for r
    using ok that row by (auto simp: triggers_ok_def distinct_map inj_on_def)
  have 2: "it_incident (f r) = i \<and> it_trigger (f r) = t' \<and> it_status (f r) = TriggerActive \<longleftrightarrow>
      (if t' = t then it_id r = x \<and> st = TriggerActive
       else it_incident r = i \<and> it_trigger r = t' \<and> it_status r = TriggerActive)" if "r \<in> set T" for r
    using 1 [OF that] by (auto simp: f_def)
  have "trigger_active (map f T) (Some i) t' \<longleftrightarrow>
      (\<exists>r \<in> set T. if t' = t then it_id r = x \<and> st = TriggerActive
         else it_incident r = i \<and> it_trigger r = t' \<and> it_status r = TriggerActive)"
    unfolding trigger_active_iff set_map bex_simps using 2 by blast
  also have "\<dots> \<longleftrightarrow> (if t' = t then st = TriggerActive else trigger_active T (Some i) t')"
    using row(1,2) by (auto simp: trigger_active_iff)
  finally show ?thesis unfolding f_def .
qed

text \<open>What the ten-minute check of a trigger reads, and that other triggers leave it alone.\<close>

definition incident_info :: "alerts \<Rightarrow> nat \<Rightarrow> (nat list \<times> int) option" where
  "incident_info s i = map_option (\<lambda>n. (mi_projects n, mi_added n)) (find_incident s i)"

definition trigger_incidents :: "nat \<Rightarrow> alerts \<Rightarrow> nat list" where
  "trigger_incidents t s = map it_incident (filter (\<lambda>r. it_trigger r = t) (trigger_rows s))"

definition limit_frame :: "nat \<Rightarrow> alerts \<Rightarrow> alerts \<Rightarrow> bool" where
  "limit_frame t s s' =
     (trigger_incidents t s' = trigger_incidents t s \<and> next_incident_id s \<le> next_incident_id s' \<and>
      (\<forall>i < next_incident_id s. incident_info s' i = incident_info s i))"

lemma limit_frame_refl: "limit_frame t s s"
  by (simp add: limit_frame_def)

lemma limit_frame_trans: "limit_frame t s1 s2 \<Longrightarrow> limit_frame t s2 s3 \<Longrightarrow> limit_frame t s1 s3"
  by (simp add: limit_frame_def)

lemma map_insort_key: "map f (insort_key (\<lambda>x. g (f x)) x xs) = insort_key g (f x) (map f xs)"
  by (induction xs) auto

lemma map_sort_key: "map f (sort_key (\<lambda>x. g (f x)) xs) = sort_key g (map f xs)"
  by (induction xs) (simp_all add: map_insort_key)

lemma hit_rate_limit_alt:
  "hit_rate_limit sub t now s =
    (case sort_key (\<lambda>i. - int i) (trigger_incidents (tr_id t) s) of
       [] \<Rightarrow> False
     | i # _ \<Rightarrow> (case incident_info s i of None \<Rightarrow> False
         | Some (ps, added) \<Rightarrow> su_project sub \<in> set ps \<and> timedelta_seconds (now - added) \<le> 600))"
proof -
  let ?R = "filter (\<lambda>r. it_trigger r = tr_id t) (trigger_rows s)"
  have "sort_key (\<lambda>i. - int i) (trigger_incidents (tr_id t) s) = map it_incident (sort_key (\<lambda>r. - int (it_incident r)) ?R)"
    unfolding trigger_incidents_def by (rule map_sort_key [symmetric])
  then show ?thesis
    by (cases "sort_key (\<lambda>r. - int (it_incident r)) ?R")
      (auto simp: hit_rate_limit_def last_incident_def incident_info_def split: option.splits)
qed

lemma hit_rate_limit_frame:
  assumes "limit_frame (tr_id t) s s'" "triggers_ok (trigger_rows s) (next_incident_id s) nt"
  shows "hit_rate_limit sub t now s' = hit_rate_limit sub t now s"
proof (cases "sort_key (\<lambda>i. - int i) (trigger_incidents (tr_id t) s)")
  case Nil
  with assms(1) show ?thesis by (simp add: hit_rate_limit_alt limit_frame_def)
next
  case (Cons i js)
  then have "i \<in> set (trigger_incidents (tr_id t) s)" by (rule sorted_head)
  then have "i < next_incident_id s" using assms(2) by (auto simp: trigger_incidents_def triggers_ok_def)
  with assms(1) have info: "incident_info s' i = incident_info s i" by (simp add: limit_frame_def)
  have same: "trigger_incidents (tr_id t) s' = trigger_incidents (tr_id t) s" using assms(1) by (simp add: limit_frame_def)
  show ?thesis unfolding hit_rate_limit_alt same Cons list.case info ..
qed

lemma find_map_keep:
  "(\<And>x. P (g x) = P x) \<Longrightarrow> find P (map g xs) = map_option g (find P xs)"
  by (induction xs) auto

lemma incident_info_update:
  assumes "\<And>n. mi_id (f n) = mi_id n \<and> mi_projects (f n) = mi_projects n \<and> mi_added (f n) = mi_added n"
  shows "incident_info (update_incident_row j f s) i = incident_info s i"
proof -
  let ?g = "\<lambda>n. if mi_id n = j then f n else n"
  have "find_incident (update_incident_row j f s) i = map_option ?g (find_incident s i)"
    unfolding find_incident_def update_incident_row_def using assms
    by (simp, intro find_map_keep) simp
  then show ?thesis using assms by (cases "find_incident s i") (simp_all add: incident_info_def)
qed

lemma filter_map_keep:
  "(\<And>x. P (g x) = P x) \<Longrightarrow> (\<And>x. h (g x) = h x) \<Longrightarrow> map h (filter P (map g xs)) = map h (filter P xs)"
  by (induction xs) auto

lemma limit_frame_rows:
  assumes "incident_rows s' = incident_rows s" "next_incident_id s' = next_incident_id s"
    "trigger_incidents t s' = trigger_incidents t s"
  shows "limit_frame t s s'"
  using assms by (simp add: limit_frame_def incident_info_def find_incident_def)

lemma limit_frame_status: "limit_frame t s (update_incident_status rule i st m dt now s)"
proof -
  let ?s' = "update_incident_status rule i st m dt now s"
  have "trigger_incidents t ?s' = trigger_incidents t s"
    by (simp add: update_incident_status_def trigger_incident_triggers_def trigger_incidents_def Let_def
        filter_map_keep split: option.splits)
  moreover have "incident_info ?s' j = incident_info s j" for j
  proof (cases "find_incident s i")
    case (Some n)
    have act: "incident_info (create_incident_activity k ty v s) j = incident_info s j" for k ty v
      by (simp add: incident_info_def find_incident_def)
    have "incident_info (trigger_incident_triggers rule n s') j = incident_info s' j" for s'
      by (simp add: incident_info_def find_incident_def trigger_incident_triggers_def)
    with Some show ?thesis
      by (simp add: update_incident_status_def Let_def incident_info_update act)
  qed (simp add: update_incident_status_def)
  ultimately show ?thesis by (simp add: limit_frame_def)
qed

lemma limit_frame_set_status: "limit_frame t s (set_trigger_status r st s)"
  by (rule limit_frame_rows) (simp_all add: trigger_incidents_def filter_map_keep)

lemma limit_frame_severity: "limit_frame t (pr_tables p) (pr_tables (handle_incident_severity_update rule now p))"
  by (simp add: handle_incident_severity_update_def Let_def limit_frame_refl limit_frame_status split: option.splits)

lemma limit_frame_severity':
  "limit_frame t s (pr_tables p) \<Longrightarrow> limit_frame t s (pr_tables (handle_incident_severity_update rule now p))"
  by (rule limit_frame_trans [OF _ limit_frame_severity])

lemma limit_frame_create:
  assumes "create_incident rule started detected ps act sub now s = (i, s')"
  shows "limit_frame t s s'"
proof -
  have "find P (xs @ [x]) = find P xs" if "\<not> P x" for P :: "metric_incident \<Rightarrow> bool" and x xs
    using that by (induction xs) auto
  then show ?thesis
    using assms by (auto simp: create_incident_def Let_def limit_frame_def trigger_incidents_def
        incident_info_def find_incident_def)
qed

lemma limit_frame_open:
  "open_metric_incident rule sub u p = (i, p1) \<Longrightarrow> limit_frame t (pr_tables p) (pr_tables p1)"
  by (auto simp: open_metric_incident_def Let_def limit_frame_refl limit_frame_create
      split: option.splits prod.splits)

lemma limit_frame_activate:
  "activate_trigger i t' p = (r, p') \<Longrightarrow> t \<noteq> tr_id t' \<Longrightarrow> limit_frame t (pr_tables p) (pr_tables p')"
  by (cases "dict_get (pr_map p) (tr_id t')")
    (auto simp: activate_trigger_def Let_def limit_frame_set_status,
     auto simp: trigger_incidents_def intro: limit_frame_rows)

lemma open_fields:
  assumes "open_metric_incident rule sub u p = (i, p1)"
  shows "pr_active p1 = Some i" "pr_map p1 = pr_map p" "pr_alert p1 = pr_alert p" "pr_resolve p1 = pr_resolve p"
    "pr_fired p1 = pr_fired p" "trigger_rows (pr_tables p1) = trigger_rows (pr_tables p)"
    "next_trigger_row (pr_tables p1) = next_trigger_row (pr_tables p)"
    "pr_active p = None \<Longrightarrow> i = next_incident_id (pr_tables p)" "pr_active p = Some j \<Longrightarrow> i = j"
  using assms by (auto simp: open_metric_incident_def Let_def create_incident_fields
      split: option.splits prod.splits)

text \<open>Other triggers of the incident stay as they are when one fires.\<close>

lemma fire_active:
  assumes p: "processor_ok rule sub p"
    and o: "open_metric_incident rule sub u p = (i, p1)" and a: "activate_trigger i t p1 = (r, p2)"
  shows "trigger_active (trigger_rows (pr_tables p2)) (pr_active p2) t' \<longleftrightarrow>
    t' = tr_id t \<or> trigger_active (trigger_rows (pr_tables p)) (pr_active p) t'"
proof (cases "t' = tr_id t")
  case True
  with fire_ok [OF p o a] show ?thesis by (auto simp: trigger_active_iff)
next
  case other: False
  let ?T = "trigger_rows (pr_tables p)"
  note of = open_fields [OF o]
  have act: "pr_active p2 = Some i" by (simp add: activate_fields [OF a] of)
  have "trigger_active (trigger_rows (pr_tables p2)) (Some i) t' \<longleftrightarrow> trigger_active ?T (Some i) t'"
  proof (cases "dict_get (pr_map p) (tr_id t)")
    case None
    with a other of show ?thesis by (auto simp: activate_trigger_def Let_def trigger_active_append)
  next
    case (Some r')
    with processor_okD(4) [OF p] obtain j where j: "pr_active p = Some j" by (cases "pr_active p") auto
    with of have "i = j" by simp
    note m = processor_okD(6) [OF p j]
    note T = alerts_okD(2) [OF processor_okD(1) [OF p]]
    obtain row where row: "row \<in> set ?T" "it_id row = r'" "it_incident row = j" "it_trigger row = tr_id t"
      using map_ok_row [OF m Some] by blast
    from a Some of have "trigger_rows (pr_tables p2) = with_status r' TriggerActive ?T"
      by (auto simp: activate_trigger_def)
    then show ?thesis using with_status_trigger [OF T row] other \<open>i = j\<close> by simp
  qed
  also have "\<dots> \<longleftrightarrow> trigger_active ?T (pr_active p) t'"
  proof (cases "pr_active p")
    case None
    with of have "i = next_incident_id (pr_tables p)" by simp
    with alerts_okD(2) [OF processor_okD(1) [OF p]] None show ?thesis
      by (auto simp: trigger_active_iff triggers_ok_def)
  next
    case (Some j)
    with of show ?thesis by simp
  qed
  finally show ?thesis using other by (simp add: act)
qed

text \<open>What each half of the loop body does to the view of every trigger.\<close>

lemma count_of_set [simp]: "count_of (dict_set t n d) t' = (if t' = t then n else count_of d t')"
  by (simp add: count_of_def)

lemma severity_active:
  "trigger_active (trigger_rows (pr_tables (handle_incident_severity_update rule now p))) =
   trigger_active (trigger_rows (pr_tables p))"
  by (simp add: severity_fields)

lemma view_counts [simp]:
  "processor_view (p\<lparr>pr_alert := a\<rparr>) t = (fst (processor_view p t), count_of a t, snd (snd (processor_view p t)))"
  "processor_view (p\<lparr>pr_resolve := r\<rparr>) t = (fst (processor_view p t), fst (snd (processor_view p t)), count_of r t)"
  by (simp_all add: processor_view_def)

lemma alert_threshold_view:
  assumes p: "processor_ok rule sub p" and view: "processor_view p (tr_id t) = (False, a, r)"
  shows "processor_view (trigger_alert_threshold rule sub u t p) t' =
    (if t' \<noteq> tr_id t then processor_view p t'
     else if hit_rate_limit sub t (up_now u) (pr_tables p) then (False, a + 1, r)
     else if a + 1 \<ge> ru_period rule then (True, 0, r) else (False, a + 1, r))"
proof -
  define p0 where "p0 = p\<lparr>pr_alert := dict_set (tr_id t) (count_of (pr_alert p) (tr_id t) + 1) (pr_alert p)\<rparr>"
  obtain i p1 where o: "open_metric_incident rule sub u p0 = (i, p1)" by fastforce
  obtain rw p2 where ac: "activate_trigger i t p1 = (rw, p2)" by fastforce
  have p0: "processor_ok rule sub p0" using p by (simp add: p0_def)
  note fire = fire_active [OF p0 o ac]
  have "pr_alert p2 = pr_alert p0" "pr_resolve p2 = pr_resolve p"
    by (simp_all add: activate_fields [OF ac] open_fields [OF o] p0_def)
  then show ?thesis
    using view fire [of t']
    by (auto simp: trigger_alert_threshold_def Let_def p0_def [symmetric] o ac processor_view_def
        severity_fields severity_active) (auto simp: p0_def)
qed

lemma alert_threshold_frame:
  assumes "t' \<noteq> tr_id t"
  shows "limit_frame t' (pr_tables p) (pr_tables (trigger_alert_threshold rule sub u t p))"
proof -
  define p0 where "p0 = p\<lparr>pr_alert := dict_set (tr_id t) (count_of (pr_alert p) (tr_id t) + 1) (pr_alert p)\<rparr>"
  obtain i p1 where o: "open_metric_incident rule sub u p0 = (i, p1)" by fastforce
  obtain rw p2 where ac: "activate_trigger i t p1 = (rw, p2)" by fastforce
  have "limit_frame t' (pr_tables p0) (pr_tables (handle_incident_severity_update rule (up_now u) p2))"
    by (rule limit_frame_trans [OF limit_frame_trans [OF limit_frame_open [OF o]
          limit_frame_activate [OF ac assms]] limit_frame_severity])
  moreover have "pr_tables p0 = pr_tables p" by (simp add: p0_def)
  ultimately show ?thesis
    by (simp add: trigger_alert_threshold_def Let_def p0_def [symmetric] o ac limit_frame_refl)
qed

lemma resolve_threshold_view:
  assumes p: "processor_ok rule sub p" and view: "processor_view p (tr_id t) = (True, a, r)"
  shows "processor_view (trigger_resolve_threshold rule u t p) t' =
    (if t' \<noteq> tr_id t then processor_view p t'
     else if r + 1 \<ge> ru_period rule then (False, a, 0) else (True, a, r + 1))"
proof -
  let ?s = "pr_tables p" and ?T = "trigger_rows (pr_tables p)"
  from view obtain i where act: "pr_active p = Some i"
    by (cases "pr_active p") (auto simp: processor_view_def trigger_active_def)
  note m = processor_okD(6) [OF p act]
  note T = alerts_okD(2) [OF processor_okD(1) [OF p]]
  from view act obtain row where row: "row \<in> set ?T" "it_incident row = i" "it_trigger row = tr_id t"
    by (auto simp: processor_view_def trigger_active_iff)
  with m have rw: "dict_get (pr_map p) (tr_id t) = Some (it_id row)" unfolding map_ok_def by blast
  let ?T' = "with_status (it_id row) TriggerResolved ?T"
  define p1 where "p1 = p\<lparr>pr_tables := set_trigger_status (it_id row) TriggerResolved ?s,
    pr_resolve := dict_set (tr_id t) 0 (dict_set (tr_id t) (count_of (pr_resolve p) (tr_id t) + 1) (pr_resolve p))\<rparr>"
  have p1: "pr_map p1 = pr_map p" "pr_active p1 = Some i" "trigger_rows (pr_tables p1) = ?T'"
    "pr_alert p1 = pr_alert p" by (simp_all add: p1_def act)
  have resolved: "check_triggers_resolved p1 \<longleftrightarrow> \<not> row_active ?T' i"
    using all_resolved [of p1 "next_incident_id ?s" "next_trigger_row ?s" i] resolve_row(1,2) [OF p act rw]
      processor_okD(2) [OF p]
    by (simp only: p1)
  have active: "trigger_active ?T' (Some i) t' \<longleftrightarrow> t' \<noteq> tr_id t \<and> trigger_active ?T (Some i) t'"
    using with_status_trigger [OF T row(1) refl row(2,3)] by simp
  have none: "\<not> trigger_active ?T' (Some i) t'" if "check_triggers_resolved p1"
    using that resolved by (auto simp: trigger_active_iff row_active_iff)
  show ?thesis
    using view act rw active none
    by (auto simp: trigger_resolve_threshold_def Let_def p1_def [symmetric] processor_view_def
        severity_fields severity_active p1 trigger_active_iff(2); simp add: p1_def)
qed

lemma resolve_threshold_frame:
  "limit_frame t' (pr_tables p) (pr_tables (trigger_resolve_threshold rule u t p))"
  by (auto simp: trigger_resolve_threshold_def Let_def limit_frame_refl
      intro!: limit_frame_trans [OF limit_frame_set_status limit_frame_status] limit_frame_severity'
      intro: limit_frame_set_status split: option.splits)

text \<open>The loop body, then the loop: every trigger takes one step of its own machine.\<close>

lemma alert_half_ok: "processor_ok rule sub p \<Longrightarrow> processor_ok rule sub (alert_half rule sub u t b p)"
  by (simp add: alert_half_def trigger_alert_ok)

lemma processor_view_active:
  "fst (processor_view p t) = trigger_active (trigger_rows (pr_tables p)) (pr_active p) t"
  by (simp add: processor_view_def)

lemma halves_view:
  assumes p: "processor_ok rule sub p"
  shows "processor_view (resolve_half rule u t clear (alert_half rule sub u t breach p)) t' =
    (if t' = tr_id t
     then trigger_step (ru_period rule) (hit_rate_limit sub t (up_now u) (pr_tables p)) breach clear
        (processor_view p t')
     else processor_view p t')"
proof -
  define q where "q = alert_half rule sub u t breach p"
  obtain act a r where view: "processor_view p (tr_id t) = (act, a, r)" by (cases "processor_view p (tr_id t)") auto
  have ok: "processor_ok rule sub q" using alert_half_ok [OF p] by (simp add: q_def)
  let ?lim = "hit_rate_limit sub t (up_now u) (pr_tables p)"
  have "check_trigger_matches_status t TriggerActive p = act"
    using matches_active [OF p] view processor_view_active [of p "tr_id t"] by simp
  then have q: "processor_view q t'' =
      (if t'' \<noteq> tr_id t then processor_view p t''
       else if breach \<and> \<not> act
         then if ?lim then (False, a + 1, r)
           else if a + 1 \<ge> ru_period rule then (True, 0, r) else (False, a + 1, r)
       else (act, 0, r))" for t''
    using alert_threshold_view [OF p, of t a r u t''] view
    by (auto simp: q_def alert_half_def) (auto simp: processor_view_def)
  obtain act' a' where view': "processor_view q (tr_id t) = (act', a', r)"
    using q [of "tr_id t"] by (cases "processor_view q (tr_id t)") (auto split: if_splits)
  have matches: "check_trigger_matches_status t TriggerActive q = act'"
    using matches_active [OF ok] view' processor_view_active [of q "tr_id t"] by simp
  have some: "pr_active q \<noteq> None" if act'
    using that view' by (auto simp: processor_view_def trigger_active_def split: option.splits)
  have "processor_view (resolve_half rule u t clear q) t' =
      (if t' \<noteq> tr_id t then processor_view q t'
       else if clear \<and> act'
         then if r + 1 \<ge> ru_period rule then (False, a', 0) else (True, a', r + 1)
       else (act', a', 0))"
    using resolve_threshold_view [OF ok, of t a' r u t'] view' matches some
    by (auto simp: resolve_half_def) (auto simp: processor_view_def)
  with q [of t'] q [of "tr_id t"] view view' show ?thesis
    by (auto simp: q_def [symmetric] trigger_step_def Let_def split: if_splits)
qed

lemma halves_frame:
  assumes "t' \<noteq> tr_id t"
  shows "limit_frame t' (pr_tables p) (pr_tables (resolve_half rule u t clear (alert_half rule sub u t breach p)))"
proof -
  have "limit_frame t' (pr_tables p) (pr_tables (alert_half rule sub u t breach p))"
    by (simp add: alert_half_def alert_threshold_frame [OF assms] limit_frame_refl)
  moreover have "limit_frame t' (pr_tables q) (pr_tables (resolve_half rule u t clear q))" for q
    by (simp add: resolve_half_def resolve_threshold_frame limit_frame_refl)
  ultimately show ?thesis by (rule limit_frame_trans)
qed

definition counts_ok :: "nat set \<Rightarrow> processor \<Rightarrow> bool" where
  "counts_ok ids p =
     (dict_wf (pr_alert p) \<and> ids \<subseteq> fst ` set (pr_alert p) \<and> dict_wf (pr_resolve p) \<and> ids \<subseteq> fst ` set (pr_resolve p))"

lemma alert_threshold_counts: "counts_ok ids p \<Longrightarrow> counts_ok ids (trigger_alert_threshold rule sub u t p)"
proof -
  define p0 where "p0 = p\<lparr>pr_alert := dict_set (tr_id t) (count_of (pr_alert p) (tr_id t) + 1) (pr_alert p)\<rparr>"
  obtain i p1 where o: "open_metric_incident rule sub u p0 = (i, p1)" by fastforce
  obtain rw p2 where ac: "activate_trigger i t p1 = (rw, p2)" by fastforce
  assume "counts_ok ids p"
  then have "counts_ok ids p0" by (auto simp: counts_ok_def p0_def dict_set_keys)
  then show ?thesis
    by (auto simp: trigger_alert_threshold_def Let_def p0_def [symmetric] o ac counts_ok_def severity_fields
        activate_fields [OF ac] open_fields [OF o] dict_set_keys)
qed

lemma resolve_threshold_counts: "counts_ok ids p \<Longrightarrow> counts_ok ids (trigger_resolve_threshold rule u t p)"
  by (auto simp: trigger_resolve_threshold_def Let_def counts_ok_def severity_fields dict_set_keys
      split: option.splits)

lemma halves_counts:
  "counts_ok ids p \<Longrightarrow> counts_ok ids (resolve_half rule u t clear (alert_half rule sub u t breach p))"
proof -
  have set: "counts_ok ids (q\<lparr>pr_alert := dict_set k n (pr_alert q)\<rparr>)"
    "counts_ok ids (q\<lparr>pr_resolve := dict_set k n (pr_resolve q)\<rparr>)" if "counts_ok ids q" for q k n
    using that by (auto simp: counts_ok_def dict_set_keys)
  assume "counts_ok ids p"
  then show ?thesis
    by (simp add: resolve_half_def alert_half_def alert_threshold_counts resolve_threshold_counts set)
qed

lemma get_counts_fold:
  "foldl (\<lambda>d t. dict_set (tr_id t) (f (tr_id t)) d) d ts =
     foldl (\<lambda>d k. dict_set k (f k) d) d (map tr_id ts)"
  by (induction ts arbitrary: d) auto

lemma foldl_dict_set:
  "dict_wf d \<Longrightarrow> dict_wf (foldl (\<lambda>d k. dict_set k (f k) d) d ks)"
  "fst ` set (foldl (\<lambda>d k. dict_set k (f k) d) d ks) = set ks \<union> fst ` set d"
  "dict_get (foldl (\<lambda>d k. dict_set k (f k) d) d ks) k = (if k \<in> set ks then Some (f k) else dict_get d k)"
  by (induction ks arbitrary: d) (auto simp: dict_set_keys)

lemma get_counts_facts:
  fixes stats rule sub
  defines "f \<equiv> \<lambda>t. case dict_get stats (ru_id rule, su_project sub, t) of Some n \<Rightarrow> n | None \<Rightarrow> 0"
  shows "dict_wf (get_counts stats rule sub)"
    "fst ` set (get_counts stats rule sub) = tr_id ` set (ru_triggers rule)"
    "t \<in> tr_id ` set (ru_triggers rule) \<Longrightarrow> count_of (get_counts stats rule sub) t = f t"
proof -
  have "get_counts stats rule sub = foldl (\<lambda>d k. dict_set k (f k) d) [] (map tr_id (sorted_triggers rule))"
    unfolding get_counts_def f_def by (rule get_counts_fold)
  then show "dict_wf (get_counts stats rule sub)"
    "fst ` set (get_counts stats rule sub) = tr_id ` set (ru_triggers rule)"
    "t \<in> tr_id ` set (ru_triggers rule) \<Longrightarrow> count_of (get_counts stats rule sub) t = f t"
    by (simp_all only: foldl_dict_set count_of_def) (simp_all add: foldl_dict_set)
qed

lemma set_counts_get:
  "dict_wf new \<Longrightarrow> dict_get (set_counts rule sub orig new st) (ru_id rule, su_project sub, t) =
    (case dict_get new t of
       None \<Rightarrow> dict_get st (ru_id rule, su_project sub, t)
     | Some n \<Rightarrow> if n \<noteq> count_of orig t then Some n else dict_get st (ru_id rule, su_project sub, t))"
proof (induction new arbitrary: st)
  case (Cons kn new)
  obtain k n where kn: "kn = (k, n)" by (cases kn)
  let ?st = "if n \<noteq> count_of orig k then dict_set (ru_id rule, su_project sub, k) n st else st"
  have "set_counts rule sub orig (kn # new) st = set_counts rule sub orig new ?st" by (simp add: set_counts_def kn)
  moreover have "dict_get new k = None" using Cons.prems by (simp add: kn dict_get_def map_of_eq_None_iff)
  ultimately show ?case using Cons.IH [of ?st] Cons.prems
    by (auto simp: kn dict_get_def [of "_ # _"] dict_get_def [symmetric] split: option.splits)
qed (simp add: set_counts_def)

lemma stored_count:
  assumes "dict_wf new" "t \<in> fst ` set new" "t \<in> tr_id ` set (ru_triggers rule)"
  shows "count_of (get_counts (set_counts rule sub (get_counts st rule sub) new st) rule sub) t = count_of new t"
proof -
  from assms(2) obtain n where n: "dict_get new t = Some n"
    by (metis dict_get_def map_of_eq_None_iff option.exhaust)
  show ?thesis
    by (simp add: get_counts_facts(3) [OF assms(3)] set_counts_get [OF assms(1)] n count_of_def [of new])
qed

text \<open>The next processor starts where the last one stopped.\<close>

lemma new_processor_fields:
  "pr_tables (new_processor rule sub s) = s"
  "pr_alert (new_processor rule sub s) = get_counts (stat_alert s) rule sub"
  "pr_resolve (new_processor rule sub s) = get_counts (stat_resolve s) rule sub"
  by (simp_all add: new_processor_def Let_def)

lemma same_active:
  assumes p: "processor_ok rule sub p" and s': "alerts_ok s'"
    and rows: "incident_rows s' = incident_rows (pr_tables p)"
  shows "pr_active (new_processor rule sub s') = pr_active p"
proof -
  let ?q = "new_processor rule sub s'"
  note q = new_processor_ok [OF s', of rule sub]
  note t = new_processor_fields(1) [of rule sub s']
  show ?thesis
  proof (cases "pr_active p")
    case (Some i)
    obtain x where x: "x \<in> set (map shape (incident_rows (pr_tables p)))" "owned rule sub x" "fst x = i"
      using processor_okD(5) [OF p Some] by blast
    from processor_okD(3) [OF q, unfolded t rows, OF x(1,2)] x(3) Some show ?thesis by simp
  next
    case None
    show ?thesis
    proof (cases "pr_active ?q")
      case (Some j)
      obtain x where "x \<in> set (map shape (incident_rows s'))" "owned rule sub x"
        using processor_okD(5) [OF q Some] unfolding t by blast
      from processor_okD(3) [OF p this [unfolded rows]] None show ?thesis by simp
    qed (simp add: None)
  qed
qed

lemma process_value_view:
  fixes rule sub u v s as
  defines "p \<equiv> process_triggers rule sub u as v (new_processor rule sub s)"
  assumes s: "alerts_ok s" and t: "t \<in> tr_id ` set (ru_triggers rule)"
    and counts: "counts_ok (tr_id ` set (ru_triggers rule)) p"
  shows "trigger_view rule sub (process_value rule sub u as v s) t = processor_view p t"
proof -
  let ?s' = "process_value rule sub u as v s"
  have p: "processor_ok rule sub p" unfolding p_def by (rule process_triggers_ok [OF new_processor_ok [OF s]])
  have rows: "incident_rows ?s' = incident_rows (pr_tables p)" "trigger_rows ?s' = trigger_rows (pr_tables p)"
    by (simp_all add: process_value_def p_def Let_def)
  have stats: "stat_alert ?s' = set_counts rule sub (get_counts st rule sub) (pr_alert p) st"
      "stat_resolve ?s' = set_counts rule sub (get_counts st' rule sub) (pr_resolve p) st'"
    if "st = stat_alert (pr_tables p)" "st' = stat_resolve (pr_tables p)" for st st'
    using that by (simp_all add: process_value_def p_def Let_def update_alert_rule_stats_def)
  have active: "pr_active (new_processor rule sub ?s') = pr_active p"
    by (rule same_active [OF p process_value_ok [OF s] rows(1)])
  have c: "dict_wf (pr_alert p)" "t \<in> fst ` set (pr_alert p)" "dict_wf (pr_resolve p)"
      "t \<in> fst ` set (pr_resolve p)"
    using counts t unfolding counts_ok_def by blast+
  have "count_of (pr_alert (new_processor rule sub ?s')) t = count_of (pr_alert p) t"
    "count_of (pr_resolve (new_processor rule sub ?s')) t = count_of (pr_resolve p) t"
    by (simp_all only: new_processor_fields stats [OF refl refl] stored_count [OF c(1,2) t] stored_count [OF c(3,4) t])
  with active show ?thesis by (simp add: trigger_view_def processor_view_def rows new_processor_fields(1))
qed

lemma loop_view:
  assumes "distinct (map tr_id ts)" "processor_ok rule sub p"
  shows "processor_view (foldl (static_trigger rule sub u v) p ts) t' =
    (case find (\<lambda>t. tr_id t = t') ts of
       None \<Rightarrow> processor_view p t'
     | Some t \<Rightarrow> trigger_step (ru_period rule) (hit_rate_limit sub t (up_now u) (pr_tables p))
          (alert_operator (ru_type rule) v (tr_threshold t))
          (resolve_operator (ru_type rule) v (calculate_resolve_threshold rule t)) (processor_view p t'))"
  using assms
proof (induction ts arbitrary: p)
  case (Cons t ts)
  let ?p = "static_trigger rule sub u v p t"
  have ok: "processor_ok rule sub ?p" by (rule static_trigger_ok [OF Cons.prems(2)])
  note IH = Cons.IH [OF _ ok]
  note view = halves_view [OF Cons.prems(2), of u t _ _ t', folded static_trigger_def]
  show ?case
  proof (cases "tr_id t = t'")
    case True
    have "tr_id t \<notin> tr_id ` set ts" using Cons.prems(1) by simp
    with True have "find (\<lambda>t. tr_id t = t') ts = None" unfolding find_None_iff by blast
    with True IH Cons.prems view show ?thesis by (simp add: static_trigger_def)
  next
    case False
    have limit: "hit_rate_limit sub x (up_now u) (pr_tables ?p) = hit_rate_limit sub x (up_now u) (pr_tables p)"
      if "tr_id x = t'" for x
      unfolding static_trigger_def using that False halves_frame [of "tr_id x" t p]
        alerts_okD(2) [OF processor_okD(1) [OF Cons.prems(2)]]
      by (intro hit_rate_limit_frame) auto
    have other: "processor_view ?p t' = processor_view p t'"
      using halves_view [OF Cons.prems(2), of u t _ _ t'] False by (simp add: static_trigger_def)
    show ?thesis
    proof (cases "find (\<lambda>t. tr_id t = t') ts")
      case None
      with IH Cons.prems(1) False other show ?thesis by simp
    next
      case (Some x)
      then have "tr_id x = t'" by (auto simp: find_Some_iff)
      with IH Cons.prems(1) False other Some limit show ?thesis by simp
    qed
  qed
qed simp

lemma process_triggers_static:
  "process_triggers rule sub u [] v p = foldl (static_trigger rule sub u v) p (sorted_triggers rule)"
  by (simp add: process_triggers_def)

lemma new_processor_counts: "counts_ok (tr_id ` set (ru_triggers rule)) (new_processor rule sub s)"
  by (simp add: counts_ok_def new_processor_fields get_counts_facts)

lemma static_counts:
  "counts_ok ids p \<Longrightarrow> counts_ok ids (foldl (static_trigger rule sub u v) p ts)"
  by (rule foldl_keeps) (simp_all add: static_trigger_def halves_counts)

definition static_value :: "alert_rule \<Rightarrow> subscription \<Rightarrow> update \<Rightarrow> alerts \<Rightarrow> rat option" where
  \<comment> \<open>the value that an update of a static rule is judged by; none when the update is skipped\<close>
  "static_value rule sub u s =
     (if ignored_update rule sub u s \<or> su_dataset sub = DsMetrics \<or> (up_anomaly_detection u \<and> ru_dynamic rule)
      then None
      else case get_aggregation_value rule sub u s of Inl _ \<Rightarrow> None | Inr (v, _) \<Rightarrow> v)"

lemma step_view:
  assumes "alerts_ok s" "distinct (map tr_id (ru_triggers rule))" "t \<in> set (ru_triggers rule)"
    "ru_type rule \<noteq> ABOVE_AND_BELOW" "static_value rule sub u s = Some v"
  shows "trigger_view rule sub (alert_step s (Update rule sub u)) (tr_id t) =
    trigger_step (ru_period rule) (hit_rate_limit sub t (up_now u) s)
      (alert_operator (ru_type rule) v (tr_threshold t))
      (resolve_operator (ru_type rule) v (calculate_resolve_threshold rule t))
      (trigger_view rule sub s (tr_id t))"
proof -
  have "get_aggregation_value rule sub u s = Inr (Some v, s)"
    using assms(5) by (auto simp: static_value_def get_aggregation_value_def Let_def split: if_splits option.splits)
  then have step: "alert_step s (Update rule sub u) = process_value rule sub u [] v s"
    using assms(4,5) by (auto simp: process_update_def static_value_def Let_def split: if_splits)
  have ids: "distinct (map tr_id (sorted_triggers rule))" using assms(2) by simp
  have "find (\<lambda>x. tr_id x = tr_id t) (sorted_triggers rule) = Some t"
    using assms(3) by (intro find_distinct [OF ids]) simp
  then have "processor_view (process_triggers rule sub u [] v (new_processor rule sub s)) (tr_id t) =
      trigger_step (ru_period rule) (hit_rate_limit sub t (up_now u) s)
        (alert_operator (ru_type rule) v (tr_threshold t))
        (resolve_operator (ru_type rule) v (calculate_resolve_threshold rule t)) (trigger_view rule sub s (tr_id t))"
    using loop_view [OF ids new_processor_ok [OF assms(1), of rule sub], of u v "tr_id t"]
    by (simp add: process_triggers_static new_processor_fields(1) trigger_view_def)
  moreover have "trigger_view rule sub (process_value rule sub u [] v s) (tr_id t) =
      processor_view (process_triggers rule sub u [] v (new_processor rule sub s)) (tr_id t)"
    using assms(3) static_counts [OF new_processor_counts]
    by (intro process_value_view [OF assms(1)]) (auto simp: process_triggers_static)
  ultimately show ?thesis unfolding step by simp
qed

text \<open>
  C16. An update of a static rule moves each of its triggers as a machine of its own, whatever the
  other triggers of the rule do: it turns active after threshold_period breaches in a row, unless the
  ten-minute limit holds it back, and resolves after as many clear values in a row.
\<close>

theorem update_refines_trigger_step:
  assumes "alerts_ok s" "distinct (map tr_id (ru_triggers rule))" "t \<in> set (ru_triggers rule)"
    "ru_type rule \<noteq> ABOVE_AND_BELOW" "static_value rule sub u s = Some v"
  shows "trigger_view rule sub (alert_step s (Update rule sub u)) (tr_id t) =
    trigger_step (ru_period rule) (hit_rate_limit sub t (up_now u) s)
      (alert_operator (ru_type rule) v (tr_threshold t))
      (resolve_operator (ru_type rule) v (calculate_resolve_threshold rule t))
      (trigger_view rule sub s (tr_id t))"
  by (rule step_view [OF assms])

definition example_rule :: alert_rule where
  "example_rule = \<lparr>ru_id = 1, ru_type = ABOVE, ru_resolve_threshold = None, ru_period = 1, ru_window = 60,
     ru_resolution = 60, ru_comparison_delta = None, ru_dynamic = False, ru_activated = False,
     ru_triggers = [\<lparr>tr_id = 1, tr_label = CRITICAL_TRIGGER_LABEL, tr_threshold = 100\<rparr>,
                    \<lparr>tr_id = 2, tr_label = WARNING_TRIGGER_LABEL, tr_threshold = 50\<rparr>],
     ru_actions = []\<rparr>"

definition example_subscription :: subscription where
  "example_subscription = \<lparr>su_id = 3, su_project = 7, su_dataset = DsEvents\<rparr>"

definition example_update :: "int \<Rightarrow> rat \<Rightarrow> update" where
  "example_update time v = \<lparr>up_timestamp = time * second, up_value = Some (Some v), up_counts_v2 = None,
     up_counts_v1 = (0, 0), up_comparison = None, up_project_exists = True, up_feature_incidents = True,
     up_feature_performance = True, up_anomaly_detection = False, up_fake_anomalies = False, up_seer = None,
     up_activations = [], up_now = time * second\<rparr>"

lemma example_value: "static_value example_rule example_subscription (example_update 60 70) alerts0 = Some 70"
  by (simp add: static_value_def ignored_update_def get_last_update_def get_aggregation_value_def example_rule_def
      example_subscription_def example_update_def alerts0_def)

lemma example_view: "trigger_view example_rule example_subscription alerts0 2 = (False, 0, 0)"
  by (simp add: trigger_view_def processor_view_def new_processor_def get_active_incident_def alerts0_def
      trigger_active_def get_counts_def sorted_triggers_def example_rule_def count_of_def)

theorem update_refines_trigger_step_witness:
  "trigger_view example_rule example_subscription
     (alert_step alerts0 (Update example_rule example_subscription (example_update 60 70))) 2 = (True, 0, 0)"
proof -
  let ?t = "\<lparr>tr_id = 2, tr_label = WARNING_TRIGGER_LABEL, tr_threshold = 50 :: rat\<rparr>"
  have "distinct (map tr_id (ru_triggers example_rule))" "?t \<in> set (ru_triggers example_rule)"
    "ru_type example_rule \<noteq> ABOVE_AND_BELOW"
    by (simp_all add: example_rule_def)
  from update_refines_trigger_step [OF alerts_ok_0 this example_value] example_view show ?thesis
    by (simp add: trigger_step_def hit_rate_limit_def last_incident_def alerts0_def alert_operator_def
        resolve_operator_def calculate_resolve_threshold_def example_rule_def CRITICAL_TRIGGER_LABEL_def
        WARNING_TRIGGER_LABEL_def)
qed

lemma filter_at_most_one:
  assumes "distinct xs" "\<And>x y. x \<in> set xs \<Longrightarrow> y \<in> set xs \<Longrightarrow> P x \<Longrightarrow> P y \<Longrightarrow> x = y"
  shows "length (filter P xs) \<le> 1"
proof -
  have "card (set (filter P xs)) \<le> 1"
    using assms(2) by (intro card_le_Suc0_iff_eq [THEN iffD2, unfolded One_nat_def [symmetric]]) auto
  with distinct_card [OF distinct_filter [OF assms(1)], of P] show ?thesis by simp
qed

text \<open>
  C2. Whatever updates arrive and whoever closes incidents, a rule has at most one open incident per
  project and subscription, and an incident is closed exactly when none of its triggers is active.
\<close>

theorem one_open_incident:
  "let s = foldl alert_step alerts0 es
   in length (filter (\<lambda>n. mi_rule n = rule \<and> project \<in> set (mi_projects n) \<and> mi_subscription n = Some sub
          \<and> mi_status n \<noteq> IsClosed) (incident_rows s)) \<le> 1
      \<and> list_all (\<lambda>n. mi_status n = IsClosed \<longleftrightarrow>
          \<not> list_ex (\<lambda>r. it_incident r = mi_id n \<and> it_status r = TriggerActive) (trigger_rows s)) (incident_rows s)"
proof -
  let ?s = "foldl alert_step alerts0 es"
  let ?P = "\<lambda>n. mi_rule n = rule \<and> project \<in> set (mi_projects n) \<and> mi_subscription n = Some sub
    \<and> mi_status n \<noteq> IsClosed"
  have ok: "alerts_ok ?s" by (rule alerts_run.run_inv [OF alerts_ok_0])
  have ids: "distinct (map mi_id (incident_rows ?s))" by (rule alerts_ok_ids [OF ok])
  have "n = n'" if "n \<in> set (incident_rows ?s)" "n' \<in> set (incident_rows ?s)" "?P n" "?P n'" for n n'
  proof -
    have "same_owner (shape n) (shape n')" using that by (auto simp: same_owner_def shape_def)
    moreover have o: "\<not> snd (snd (snd (snd (shape n))))" "\<not> snd (snd (snd (snd (shape n'))))"
      using that by (simp_all add: shape_def)
    moreover have "shape n \<in> set (map shape (incident_rows ?s))" "shape n' \<in> set (map shape (incident_rows ?s))"
      using that by simp_all
    ultimately have "fst (shape n) = fst (shape n')"
      using alerts_okD(1) [OF ok] o unfolding shapes_ok_def by blast
    with shape_of_id [OF ids that(1,2)] show ?thesis by (simp add: shape_def)
  qed
  then have "length (filter ?P (incident_rows ?s)) \<le> 1"
    using ids by (intro filter_at_most_one) (simp_all add: distinct_map)
  moreover have "list_all (\<lambda>n. mi_status n = IsClosed \<longleftrightarrow> \<not> row_active (trigger_rows ?s) (mi_id n)) (incident_rows ?s)"
    using alerts_okD(3) [OF ok] by (simp add: closed_ok_def shape_def list_all_iff)
  ultimately show ?thesis by (simp add: Let_def row_active_def)
qed

text \<open>
  The limit of ten minutes between two incidents of a trigger is read off the seconds of a
  timedelta, which leave out whole days: it holds a trigger back again at the same time of every
  later day.
\<close>

theorem rate_limit_repeats_daily:
  "hit_rate_limit sub t (now + int days * (86400 * second)) s = hit_rate_limit sub t now s"
proof -
  have "timedelta_seconds (now + int days * (86400 * second) - added) = timedelta_seconds (now - added)" for added
  proof -
    have "now + int days * (86400 * second) - added = (now - added) + (int days * 86400) * second" by simp
    then have "(now + int days * (86400 * second) - added) div second = (now - added) div second + int days * 86400"
      by simp
    then show ?thesis by (simp add: timedelta_seconds_def)
  qed
  then show ?thesis by (simp add: hit_rate_limit_def split: option.splits)
qed

text \<open>A run of updates whose values all breach the threshold of a trigger, none of them held back.\<close>

fun breaching :: "alert_rule \<Rightarrow> subscription \<Rightarrow> trigger \<Rightarrow> alerts \<Rightarrow> update list \<Rightarrow> bool" where
  "breaching rule sub t s [] = True"
| "breaching rule sub t s (u # us) =
     ((case static_value rule sub u s of
         None \<Rightarrow> False
       | Some v \<Rightarrow> alert_operator (ru_type rule) v (tr_threshold t) \<and>
           \<not> resolve_operator (ru_type rule) v (calculate_resolve_threshold rule t)) \<and>
      \<not> hit_rate_limit sub t (up_now u) s \<and> breaching rule sub t (alert_step s (Update rule sub u)) us)"

text \<open>
  C28. A trigger whose threshold keeps being breached fires: from a state that keeps the invariant of all runs, after threshold_period updates in a row whose value
  breaches the alert threshold and does not also satisfy the resolve threshold (a rule may set the two so
  that one value does both, and then the trigger is resolved again), none of them inside the ten-minute limit, the
  trigger is active. The rule is not ABOVE_AND_BELOW, its triggers have distinct ids, and the stored count of breaches is
  not negative.
\<close>

theorem breaches_fire:
  assumes "alerts_ok s" "distinct (map tr_id (ru_triggers rule))" "t \<in> set (ru_triggers rule)"
    "ru_type rule \<noteq> ABOVE_AND_BELOW" "breaching rule sub t s us"
    "us \<noteq> []" "ru_period rule \<le> int (length us)" "0 \<le> fst (snd (trigger_view rule sub s (tr_id t)))"
  shows "fst (trigger_view rule sub (foldl (\<lambda>s u. alert_step s (Update rule sub u)) s us) (tr_id t))"
proof -
  have "fst (trigger_view rule sub (foldl (\<lambda>s u. alert_step s (Update rule sub u)) s us) (tr_id t))"
    if "alerts_ok s" "breaching rule sub t s us" "trigger_view rule sub s (tr_id t) = (act, a, r)"
      "act \<or> (us \<noteq> [] \<and> ru_period rule \<le> a + int (length us))" for us act a r
    using that
  proof (induction us arbitrary: s act a r)
    case (Cons u us)
    let ?s = "alert_step s (Update rule sub u)"
    from Cons.prems(2) obtain v where v: "static_value rule sub u s = Some v"
      "alert_operator (ru_type rule) v (tr_threshold t)"
      "\<not> resolve_operator (ru_type rule) v (calculate_resolve_threshold rule t)"
      "\<not> hit_rate_limit sub t (up_now u) s" "breaching rule sub t ?s us"
      by (auto split: option.splits)
    have "trigger_view rule sub ?s (tr_id t) =
        (if act then (act, 0, 0) else if a + 1 \<ge> ru_period rule then (True, 0, 0) else (False, a + 1, 0))"
      using step_view [OF Cons.prems(1) assms(2-4) v(1)] v Cons.prems(3)
      by (simp add: trigger_step_def)
    with Cons.IH [OF alert_step_ok [OF Cons.prems(1)] v(5)] Cons.prems(4) show ?case
      by (cases us) (auto split: if_splits)
  qed simp
  with assms show ?thesis by (cases "trigger_view rule sub s (tr_id t)") auto
qed

theorem breaches_fire_witness:
  "fst (trigger_view example_rule example_subscription
     (foldl (\<lambda>s u. alert_step s (Update example_rule example_subscription u)) alerts0 [example_update 60 70]) 2)"
proof -
  let ?t = "\<lparr>tr_id = 2, tr_label = WARNING_TRIGGER_LABEL, tr_threshold = 50 :: rat\<rparr>"
  have "distinct (map tr_id (ru_triggers example_rule))" "?t \<in> set (ru_triggers example_rule)"
    "ru_type example_rule \<noteq> ABOVE_AND_BELOW" "ru_period example_rule \<le> int (length [example_update 60 70])"
    by (simp_all add: example_rule_def)
  moreover have "breaching example_rule example_subscription ?t alerts0 [example_update 60 70]"
    using example_value by (simp add: hit_rate_limit_def last_incident_def alert_operator_def resolve_operator_def
        calculate_resolve_threshold_def) (simp add: alerts0_def example_rule_def)
  moreover have "0 \<le> fst (snd (trigger_view example_rule example_subscription alerts0 (tr_id ?t)))"
    using example_view by simp
  ultimately show ?thesis
    using breaches_fire [OF alerts_ok_0, of example_rule ?t example_subscription "[example_update 60 70]"] by simp
qed

end
