(* ===== verification/LeakyBucket.thy ===== *)
theory LeakyBucket
  imports Prelude Complex_Main
begin

text \<open>
  The leaky bucket rate limiter, \<open>src/src/sentry/ratelimits/leaky_bucket.py\<close>, with the script that
  Redis runs for it, \<open>src/src/sentry/scripts/ratelimits/leaky_bucket.lua\<close>. Times are seconds as
  rationals and the arithmetic is exact (the code has floats). A bucket is the hash of one key: the
  two fields, and the time at which Redis drops the key, by its own clock. The clocks of the callers, which the
  script computes with, and that Redis does not answer, are arguments.
\<close>

section \<open>The script\<close>

record leaky_bucket =
  last_drip :: "rat option"
  current_level :: "rat option"
  expires_at :: "rat option"

definition no_bucket :: leaky_bucket where
  "no_bucket = \<lparr>last_drip = None, current_level = None, expires_at = None\<rparr>"

record limit_info =
  info_burst_limit :: int
  info_drip_rate :: int
  info_last_drip :: rat
  info_current_level :: rat
  info_wait_time :: rat

definition max_ttl_seconds :: "int \<Rightarrow> int \<Rightarrow> int" where
  "max_ttl_seconds bucket_size drip_rate = \<lceil>(of_int bucket_size :: rat) / of_int drip_rate\<rceil> + 2"

definition leaky_bucket_script ::
  "int \<Rightarrow> int \<Rightarrow> rat \<Rightarrow> int \<Rightarrow> rat \<Rightarrow> leaky_bucket \<Rightarrow> limit_info \<times> leaky_bucket" where
  "leaky_bucket_script bucket_size drip_rate time incr_by redis_time b =
     (let last = (case last_drip b of None \<Rightarrow> time | Some l \<Rightarrow> l);
          current_time = (case last_drip b of None \<Rightarrow> time | Some l \<Rightarrow> max time l);
          level = (case current_level b of None \<Rightarrow> 0 | Some x \<Rightarrow> x);
          elapsed_time = current_time - last;
          new_level = max 0 (level - elapsed_time * of_int drip_rate) + of_int incr_by;
          allowed = (new_level \<le> of_int bucket_size);
          wait_time = (if allowed then 0 else (new_level - of_int bucket_size) / of_int drip_rate)
      in (\<lparr>info_burst_limit = bucket_size, info_drip_rate = drip_rate, info_last_drip = last,
           info_current_level = level, info_wait_time = wait_time\<rparr>,
          if allowed
          then \<lparr>last_drip = Some current_time, current_level = Some new_level,
                expires_at = Some (redis_time + of_int (max_ttl_seconds bucket_size drip_rate))\<rparr>
          else b))"

text \<open>Redis drops a key whose time is over before a command reads it.\<close>

definition live_bucket :: "rat \<Rightarrow> leaky_bucket \<Rightarrow> leaky_bucket" where
  "live_bucket time b = (case expires_at b of None \<Rightarrow> b | Some e \<Rightarrow> if e \<le> time then no_bucket else b)"

section \<open>The limiter\<close>

record leaky_limiter =
  burst_limit :: int
  drip_rate :: int
  default_key :: "string option"

type_synonym bucket_store = "(string, leaky_bucket) dict"

definition NAMESPACE :: string where "NAMESPACE = ''leaky_bucket_limiter''"

definition leaky_redis_key :: "leaky_limiter \<Rightarrow> string option \<Rightarrow> string result" where
  \<comment> \<open>\<open>key or self.default_key\<close>: the empty string counts as no key\<close>
  "leaky_redis_key l key =
     (case (if key \<noteq> None \<and> key \<noteq> Some '''' then key else default_key l) of
        None \<Rightarrow> Inl ValueError
      | Some k \<Rightarrow> if k = '''' then Inl ValueError else Inr (NAMESPACE @ '':'' @ k))"

definition fail_open :: "leaky_limiter \<Rightarrow> limit_info" where
  "fail_open l = \<lparr>info_burst_limit = burst_limit l, info_drip_rate = drip_rate l, info_last_drip = 0,
     info_current_level = 0, info_wait_time = 0\<rparr>"

definition bucket_of :: "bucket_store \<Rightarrow> string \<Rightarrow> leaky_bucket" where
  "bucket_of s k = (case dict_get s k of None \<Rightarrow> no_bucket | Some b \<Rightarrow> b)"

definition use_and_get_info ::
  "leaky_limiter \<Rightarrow> string option \<Rightarrow> rat \<Rightarrow> int \<Rightarrow> bool \<Rightarrow> rat \<Rightarrow> bucket_store \<Rightarrow>
   limit_info result \<times> bucket_store" where
  "use_and_get_info l key timestamp incr_by redis_up redis_time s =
     (if incr_by \<le> 0 then (Inl ValueError, s)
      else case leaky_redis_key l key of
        Inl e \<Rightarrow> (Inl e, s)
      | Inr k \<Rightarrow>
          if redis_up then
            (let (info, b) = leaky_bucket_script (burst_limit l) (drip_rate l) timestamp incr_by redis_time
                   (live_bucket redis_time (bucket_of s k))
             in (Inr info, dict_set k b s))
          else (Inr (fail_open l), s))"

definition is_limited ::
  "leaky_limiter \<Rightarrow> string option \<Rightarrow> rat \<Rightarrow> int \<Rightarrow> bool \<Rightarrow> rat \<Rightarrow> bucket_store \<Rightarrow> bool result \<times> bucket_store" where
  "is_limited l key timestamp incr_by redis_up redis_time s =
     (let (r, s') = use_and_get_info l key timestamp incr_by redis_up redis_time s
      in (bind_result r (\<lambda>info. Inr (info_wait_time info \<noteq> 0)), s'))"

definition get_bucket_state ::
  "leaky_limiter \<Rightarrow> string option \<Rightarrow> bool \<Rightarrow> rat \<Rightarrow> bucket_store \<Rightarrow> limit_info result" where
  \<comment> \<open>\<open>float(x or 0)\<close> for the two fields; without a key the handler of the exception raises again\<close>
  "get_bucket_state l key redis_up redis_time s =
     (case leaky_redis_key l key of
        Inl e \<Rightarrow> Inl e
      | Inr k \<Rightarrow>
          if redis_up then
            (let b = live_bucket redis_time (bucket_of s k);
                 last = (case last_drip b of None \<Rightarrow> 0 | Some x \<Rightarrow> x);
                 level = (case current_level b of None \<Rightarrow> 0 | Some x \<Rightarrow> x)
             in Inr \<lparr>info_burst_limit = burst_limit l, info_drip_rate = drip_rate l, info_last_drip = last,
                  info_current_level = level,
                  info_wait_time = max 0 ((level - of_int (burst_limit l)) / of_int (drip_rate l))\<rparr>)
          else Inr (fail_open l))"

text \<open>The decorator: what a decorated call does, for the function it wraps.\<close>

datatype 'r outcome = Called 'r | Handled limit_info | LimitExceeded limit_info | Ignored

definition decorated_call ::
  "leaky_limiter \<Rightarrow> string option \<Rightarrow> string \<Rightarrow> bool \<Rightarrow> bool \<Rightarrow> 'r \<Rightarrow> rat \<Rightarrow> bool \<Rightarrow> rat \<Rightarrow> bucket_store \<Rightarrow>
   'r outcome result \<times> bucket_store" where
  "decorated_call l key_override qualname has_handler raise_exception v timestamp redis_up redis_time s =
     (let key = (if key_override \<noteq> None \<and> key_override \<noteq> Some '''' then key_override else Some qualname);
          (r, s') = use_and_get_info l key timestamp 1 redis_up redis_time s
      in (bind_result r (\<lambda>info.
            if info_wait_time info = 0 then Inr (Called v)
            else if has_handler then Inr (Handled info)
            else if raise_exception then Inr (LimitExceeded info) else Inr Ignored), s'))"

section \<open>Buckets that the script leaves behind\<close>

text \<open>
  \<open>R\<close> is a time of Redis that has passed: the last drip is at most one second ahead of it, and the key is
  dropped at the earliest one second before the last drip plus the time to live.
\<close>

definition bucket_ok :: "int \<Rightarrow> int \<Rightarrow> rat \<Rightarrow> leaky_bucket \<Rightarrow> bool" where
  "bucket_ok burst rate R b =
     (case (last_drip b, current_level b, expires_at b) of
        (None, None, None) \<Rightarrow> True
      | (Some l, Some x, Some e) \<Rightarrow> 0 \<le> x \<and> x \<le> of_int burst \<and> l \<le> R + 1 \<and> l + of_int (max_ttl_seconds burst rate) \<le> e + 1
      | _ \<Rightarrow> False)"

text \<open>The water that is left at a time, and the time up to which the bucket has been drained.\<close>

definition drained_until :: "rat \<Rightarrow> leaky_bucket \<Rightarrow> rat" where
  "drained_until time b = (case last_drip b of None \<Rightarrow> time | Some l \<Rightarrow> max time l)"

definition level_at :: "int \<Rightarrow> rat \<Rightarrow> leaky_bucket \<Rightarrow> rat" where
  "level_at rate time b =
     (case (last_drip b, current_level b) of
        (Some l, Some x) \<Rightarrow> max 0 (x - (max time l - l) * of_int rate)
      | _ \<Rightarrow> 0)"

lemma bucket_cases:
  assumes "bucket_ok burst rate R b"
  obtains (Empty) "b = no_bucket"
  | (Full) l x e where "b = \<lparr>last_drip = Some l, current_level = Some x, expires_at = Some e\<rparr>"
      "0 \<le> x" "x \<le> of_int burst" "l \<le> R + 1" "l + of_int (max_ttl_seconds burst rate) \<le> e + 1"
  using assms by (cases b) (auto simp: bucket_ok_def no_bucket_def split: option.splits)

lemma bucket_ok_no_bucket [simp]: "bucket_ok burst rate R no_bucket"
  by (simp add: bucket_ok_def no_bucket_def)

lemma bucket_ok_later: "bucket_ok burst rate R b \<Longrightarrow> R \<le> R' \<Longrightarrow> bucket_ok burst rate R' b"
  by (auto simp: bucket_ok_def split: option.splits)

lemma level_at_nonneg: "0 \<le> level_at rate time b"
  by (simp add: level_at_def split: option.splits)


lemma no_bucket_level [simp]: "level_at rate time no_bucket = 0" "drained_until time no_bucket = time"
  by (simp_all add: level_at_def drained_until_def no_bucket_def)

text \<open>The script in these terms: what it answers and what it leaves.\<close>

lemma script_wait:
  assumes "bucket_ok burst rate R b" "0 < rate"
  shows "info_wait_time (fst (leaky_bucket_script burst rate time n R' b)) =
    (if level_at rate time b + of_int n \<le> of_int burst then 0
     else (level_at rate time b + of_int n - of_int burst) / of_int rate)"
  using assms(1)
  by (cases rule: bucket_cases) (auto simp: leaky_bucket_script_def Let_def level_at_def no_bucket_def)

lemma script_allows_iff:
  assumes "bucket_ok burst rate R b" "0 < rate"
  shows "info_wait_time (fst (leaky_bucket_script burst rate time n R' b)) = 0 \<longleftrightarrow>
    level_at rate time b + of_int n \<le> of_int burst"
  using assms by (auto simp: script_wait)

lemma script_state:
  assumes "bucket_ok burst rate R b"
  shows "snd (leaky_bucket_script burst rate time n R' b) =
    (if level_at rate time b + of_int n \<le> of_int burst
     then \<lparr>last_drip = Some (drained_until time b), current_level = Some (level_at rate time b + of_int n),
           expires_at = Some (R' + of_int (max_ttl_seconds burst rate))\<rparr>
     else b)"
  using assms
  by (cases rule: bucket_cases)
    (auto simp: leaky_bucket_script_def Let_def level_at_def drained_until_def no_bucket_def)

lemma script_ok:
  assumes "bucket_ok burst rate R b" "0 \<le> n" "time \<le> R + 1"
  shows "bucket_ok burst rate R (snd (leaky_bucket_script burst rate time n R b))"
proof -
  have "drained_until time b \<le> R + 1"
    using assms(1,3) by (cases rule: bucket_cases) (simp_all add: drained_until_def no_bucket_def)
  then show ?thesis
    unfolding script_state [OF assms(1)] using assms level_at_nonneg [of rate time b]
    by (simp add: bucket_ok_def [of _ _ _ "\<lparr>last_drip = _, current_level = _, expires_at = _\<rparr>"])
qed

lemma live_bucket_ok: "bucket_ok burst rate R b \<Longrightarrow> bucket_ok burst rate R (live_bucket time b)"
  by (cases "expires_at b") (simp_all add: live_bucket_def)

text \<open>
  The time to live is long enough, and two seconds cover clocks that are up to a second apart: a bucket that Redis
  has dropped would have been empty anyway, and its last drip is past.
\<close>

lemma ttl_drains:
  assumes "0 < rate"
  shows "(of_int burst :: rat) \<le> (of_int (max_ttl_seconds burst rate) - 2) * of_int rate"
proof -
  have "(of_int burst :: rat) = (of_int burst / of_int rate) * of_int rate" using assms by simp
  also have "\<dots> \<le> of_int \<lceil>(of_int burst :: rat) / of_int rate\<rceil> * of_int rate"
    using assms by (intro mult_right_mono) (simp_all add: le_of_int_ceiling)
  finally show ?thesis by (simp add: max_ttl_seconds_def)
qed

lemma ttl_two: "0 < rate \<Longrightarrow> 0 \<le> burst \<Longrightarrow> (2 :: rat) \<le> of_int (max_ttl_seconds burst rate)"
proof -
  assume "0 < rate" "0 \<le> burst"
  then have "0 \<le> (of_int burst :: rat) / of_int rate" by simp
  then show "(2 :: rat) \<le> of_int (max_ttl_seconds burst rate)"
    using le_of_int_ceiling [of "(of_int burst :: rat) / of_int rate"] by (simp add: max_ttl_seconds_def)
qed

lemma live_same:
  assumes "bucket_ok burst rate R b" "0 < rate" "0 \<le> burst" "R' - 1 \<le> time"
  shows "level_at rate time (live_bucket R' b) = level_at rate time b" "drained_until time (live_bucket R' b) = drained_until time b"
proof -
  have "level_at rate time (live_bucket R' b) = level_at rate time b \<and> drained_until time (live_bucket R' b) = drained_until time b"
    using assms(1)
  proof (cases rule: bucket_cases)
    case Empty
    then show ?thesis by (simp add: live_bucket_def no_bucket_def)
  next
    case (Full l x e)
    show ?thesis
    proof (cases "e \<le> R'")
      case True
      then have late: "of_int (max_ttl_seconds burst rate) - 2 \<le> time - l" using Full(5) assms(4) by linarith
      with ttl_two [OF assms(2,3)] have "l \<le> time" by linarith
      have "x \<le> (of_int (max_ttl_seconds burst rate) - 2) * of_int rate"
        using Full(3) ttl_drains [OF assms(2), of burst] by linarith
      also have "\<dots> \<le> (time - l) * of_int rate" using late assms(2) by (intro mult_right_mono) simp_all
      finally show ?thesis
        using True \<open>l \<le> time\<close> Full(1) by (simp add: live_bucket_def level_at_def drained_until_def no_bucket_def)
    qed (simp add: live_bucket_def Full)
  qed
  then show "level_at rate time (live_bucket R' b) = level_at rate time b" "drained_until time (live_bucket R' b) = drained_until time b"
    by simp_all
qed

section \<open>Runs on one key\<close>

text \<open>A call: the clock of the caller, how much it asks for, whether Redis answers, the clock of Redis.\<close>

record leaky_request =
  lr_time :: rat
  lr_incr :: int
  lr_answered :: bool
  lr_redis :: rat

definition leaky_call :: "leaky_limiter \<Rightarrow> string \<Rightarrow> leaky_request \<Rightarrow> bucket_store \<Rightarrow> limit_info result \<times> bucket_store" where
  "leaky_call l key r s = use_and_get_info l (Some key) (lr_time r) (lr_incr r) (lr_answered r) (lr_redis r) s"

definition leaky_run :: "leaky_limiter \<Rightarrow> string \<Rightarrow> leaky_request list \<Rightarrow> bucket_store \<Rightarrow> bucket_store" where
  "leaky_run l key rs s = foldl (\<lambda>s r. snd (leaky_call l key r s)) s rs"


text \<open>The clock of Redis does not go back, and those of the callers are at most a second apart from it.\<close>

definition close_clocks :: "leaky_request list \<Rightarrow> bool" where
  "close_clocks rs = (sorted (map lr_redis rs) \<and> list_all (\<lambda>r. \<bar>lr_time r - lr_redis r\<bar> \<le> 1) rs)"

definition key_bucket :: "string \<Rightarrow> bucket_store \<Rightarrow> leaky_bucket" where
  "key_bucket key s = bucket_of s (NAMESPACE @ '':'' @ key)"

lemma leaky_call_key:
  assumes "key \<noteq> ''''" "0 < lr_incr r" "lr_answered r"
  shows "leaky_call l key r s =
    (let (info, b) = leaky_bucket_script (burst_limit l) (drip_rate l) (lr_time r) (lr_incr r) (lr_redis r)
           (live_bucket (lr_redis r) (key_bucket key s))
     in (Inr info, dict_set (NAMESPACE @ '':'' @ key) b s))"
  using assms by (simp add: leaky_call_def use_and_get_info_def leaky_redis_key_def key_bucket_def)

lemma leaky_call_idle: "lr_incr r \<le> 0 \<or> \<not> lr_answered r \<Longrightarrow> snd (leaky_call l key r s) = s"
  by (auto simp: leaky_call_def use_and_get_info_def split: sum.split)

lemma leaky_call_bucket:
  assumes "key \<noteq> ''''" "0 < lr_incr r" "lr_answered r"
  shows "key_bucket key (snd (leaky_call l key r s)) =
    snd (leaky_bucket_script (burst_limit l) (drip_rate l) (lr_time r) (lr_incr r) (lr_redis r) (live_bucket (lr_redis r) (key_bucket key s)))"
  by (simp add: leaky_call_key [OF assms] key_bucket_def bucket_of_def case_prod_beta)

definition limiter_ok :: "leaky_limiter \<Rightarrow> string \<Rightarrow> rat \<Rightarrow> bucket_store \<Rightarrow> bool" where
  "limiter_ok l key R s = bucket_ok (burst_limit l) (drip_rate l) R (key_bucket key s)"

lemma leaky_call_ok:
  assumes "key \<noteq> ''''" "limiter_ok l key R s" "R \<le> lr_redis r" "\<bar>lr_time r - lr_redis r\<bar> \<le> 1"
  shows "limiter_ok l key (lr_redis r) (snd (leaky_call l key r s))"
proof (cases "0 < lr_incr r \<and> lr_answered r")
  case True
  have "bucket_ok (burst_limit l) (drip_rate l) (lr_redis r) (live_bucket (lr_redis r) (key_bucket key s))"
    using assms(2,3) bucket_ok_later by (auto simp: limiter_ok_def intro: live_bucket_ok)
  with True assms(1,4) show ?thesis by (simp add: limiter_ok_def leaky_call_bucket script_ok)
next
  case False
  then have "snd (leaky_call l key r s) = s" by (intro leaky_call_idle) auto
  with assms(2,3) bucket_ok_later show ?thesis by (auto simp: limiter_ok_def)
qed

lemma limiter_ok_empty [simp]: "limiter_ok l key R []"
  by (simp add: limiter_ok_def key_bucket_def bucket_of_def)

lemma leaky_run_ok:
  assumes "key \<noteq> ''''" "limiter_ok l key R s" "close_clocks rs" "\<forall>r \<in> set rs. R \<le> lr_redis r \<and> lr_redis r \<le> R'" "R \<le> R'"
  shows "limiter_ok l key R' (leaky_run l key rs s)"
  using assms(2-)
proof (induction rs arbitrary: s R)
  case Nil
  then show ?case using bucket_ok_later by (auto simp: leaky_run_def limiter_ok_def)
next
  case (Cons r rs)
  have "limiter_ok l key (lr_redis r) (snd (leaky_call l key r s))"
    using Cons.prems by (intro leaky_call_ok [OF assms(1)]) (auto simp: close_clocks_def)
  with Cons.IH [of "lr_redis r" "snd (leaky_call l key r s)"] Cons.prems show ?case
    by (auto simp: leaky_run_def close_clocks_def)
qed

lemma leaky_run_reached:
  assumes "key \<noteq> ''''" "close_clocks (before @ [r])"
  shows "limiter_ok l key (lr_redis r) (leaky_run l key before [])"
proof (cases before)
  case Nil
  then show ?thesis by (simp add: leaky_run_def)
next
  case (Cons x xs)
  have "close_clocks before" using assms(2) by (auto simp: close_clocks_def sorted_append)
  then show ?thesis
    by (rule leaky_run_ok [OF assms(1) limiter_ok_empty [of l key "lr_redis x"]])
      (use assms(2) Cons in \<open>auto simp: close_clocks_def sorted_append\<close>)
qed

lemma leaky_call_result:
  assumes "key \<noteq> ''''" "0 < lr_incr r" "lr_answered r" "limiter_ok l key R s" "R \<le> lr_redis r" "lr_redis r - 1 \<le> lr_time r"
    "0 < drip_rate l" "0 \<le> burst_limit l"
  obtains info where "fst (leaky_call l key r s) = Inr info"
    "info_wait_time info =
      (if level_at (drip_rate l) (lr_time r) (key_bucket key s) + of_int (lr_incr r) \<le> of_int (burst_limit l) then 0
       else (level_at (drip_rate l) (lr_time r) (key_bucket key s) + of_int (lr_incr r) - of_int (burst_limit l)) / of_int (drip_rate l))"
proof -
  let ?b = "live_bucket (lr_redis r) (key_bucket key s)"
    and ?f = "leaky_bucket_script (burst_limit l) (drip_rate l) (lr_time r) (lr_incr r) (lr_redis r)"
  have ok: "bucket_ok (burst_limit l) (drip_rate l) R ?b" using assms(4) by (simp add: limiter_ok_def live_bucket_ok)
  have "level_at (drip_rate l) (lr_time r) ?b = level_at (drip_rate l) (lr_time r) (key_bucket key s)"
    by (rule live_same(1) [where R = R]) (use assms(4,6-8) in \<open>simp_all add: limiter_ok_def\<close>)
  with script_wait [OF ok assms(7)] have "info_wait_time (fst (?f ?b)) =
      (if level_at (drip_rate l) (lr_time r) (key_bucket key s) + of_int (lr_incr r) \<le> of_int (burst_limit l) then 0
       else (level_at (drip_rate l) (lr_time r) (key_bucket key s) + of_int (lr_incr r) - of_int (burst_limit l)) / of_int (drip_rate l))"
    by simp
  moreover have "fst (leaky_call l key r s) = Inr (fst (?f ?b))"
    by (simp add: leaky_call_key [OF assms(1-3)] case_prod_beta)
  ultimately show thesis using that by blast
qed





section \<open>Properties\<close>


definition example_limiter :: leaky_limiter where
  "example_limiter = \<lparr>burst_limit = 5, drip_rate = 2, default_key = None\<rparr>"

definition request_at :: "rat \<Rightarrow> rat \<Rightarrow> int \<Rightarrow> leaky_request" where
  "request_at time redis n = \<lparr>lr_time = time, lr_incr = n, lr_answered = True, lr_redis = redis\<rparr>"


text \<open>
  The wait time of a refused call is exact, for a caller whose clock is not behind the last drip: if nothing else is
  called, the same call is refused at every time before it has passed, and let through from then on, provided it fits
  in the bucket.
\<close>

theorem leaky_bucket_wait_exact:
  assumes "0 < drip_rate l" "key \<noteq> ''''" "0 < n" "n \<le> burst_limit l"
    "close_clocks (before @ [r, r'])" "lr_incr r = n" "lr_incr r' = n" "lr_answered r" "lr_answered r'" "lr_time r \<le> lr_time r'"
    "drained_until (lr_time r) (key_bucket key (leaky_run l key before [])) = lr_time r"
    "leaky_call l key r (leaky_run l key before []) = (Inr info, s)" "info_wait_time info \<noteq> 0"
  shows "fst (is_limited l (Some key) (lr_time r') n True (lr_redis r') s) = Inr (lr_time r' < lr_time r + info_wait_time info)"
proof -
  let ?s = "leaky_run l key before []" and ?rate = "drip_rate l" and ?t = "lr_time r" and ?t' = "lr_time r'"
  let ?b = "key_bucket key ?s" and ?b' = "key_bucket key s"
  have burst: "0 \<le> burst_limit l" using assms(3,4) by simp
  have clocks: "close_clocks (before @ [r])" "lr_redis r \<le> lr_redis r'" "lr_redis r - 1 \<le> ?t" "lr_redis r' - 1 \<le> ?t'" "\<bar>?t - lr_redis r\<bar> \<le> 1"
    using assms(5) by (auto simp: close_clocks_def sorted_append abs_le_iff)
  have ok: "limiter_ok l key (lr_redis r) ?s" by (rule leaky_run_reached [OF assms(2) clocks(1)])
  then have bok: "bucket_ok (burst_limit l) ?rate (lr_redis r) ?b" by (simp add: limiter_ok_def)
  obtain info0 where "fst (leaky_call l key r ?s) = Inr info0" "info_wait_time info0 =
      (if level_at ?rate ?t ?b + of_int n \<le> of_int (burst_limit l) then 0
       else (level_at ?rate ?t ?b + of_int n - of_int (burst_limit l)) / of_int ?rate)"
    using leaky_call_result [OF assms(2) _ assms(8) ok _ clocks(3) assms(1) burst] assms(3,6) by auto
  with assms(12,13) have full: "\<not> level_at ?rate ?t ?b + of_int n \<le> of_int (burst_limit l)"
    and wait: "info_wait_time info = (level_at ?rate ?t ?b + of_int n - of_int (burst_limit l)) / of_int ?rate"
    by (simp_all split: if_splits)
  have live: "level_at ?rate ?t (live_bucket (lr_redis r) ?b) = level_at ?rate ?t ?b"
      "level_at ?rate ?t' (live_bucket (lr_redis r) ?b) = level_at ?rate ?t' ?b"
    using live_same(1) [OF bok assms(1) burst] clocks assms(10) by simp_all
  have b': "?b' = live_bucket (lr_redis r) ?b"
    using leaky_call_bucket [OF assms(2) _ assms(8), of l ?s] script_state [OF live_bucket_ok [OF bok], of ?t n "lr_redis r"] full live(1) assms(3,6,12)
    by simp
  have "0 < level_at ?rate ?t ?b" using full assms(4) by simp
  then obtain d x where d: "last_drip ?b = Some d" "current_level ?b = Some x"
    by (auto simp: level_at_def split: option.splits)
  then have "d \<le> ?t" using assms(11) by (simp add: drained_until_def)
  with d \<open>0 < level_at ?rate ?t ?b\<close> have x: "level_at ?rate ?t ?b = x - (?t - d) * of_int ?rate"
    by (simp add: level_at_def max_def split: if_splits)
  have "level_at ?rate ?t' ?b = max 0 (x - (?t' - d) * of_int ?rate)"
    using d \<open>d \<le> ?t\<close> assms(10) by (simp add: level_at_def)
  also have "x - (?t' - d) * of_int ?rate = level_at ?rate ?t ?b - (?t' - ?t) * of_int ?rate"
    unfolding x by (simp add: algebra_simps)
  finally have later: "level_at ?rate ?t' ?b' = max 0 (level_at ?rate ?t ?b - (?t' - ?t) * of_int ?rate)"
    by (simp only: b' live(2))
  have s: "limiter_ok l key (lr_redis r) s"
    using leaky_call_ok [OF assms(2) ok _ clocks(5)] assms(12) by simp
  obtain info' where i: "fst (leaky_call l key r' s) = Inr info'" "info_wait_time info' =
      (if level_at ?rate ?t' ?b' + of_int n \<le> of_int (burst_limit l) then 0
       else (level_at ?rate ?t' ?b' + of_int n - of_int (burst_limit l)) / of_int ?rate)"
    using leaky_call_result [OF assms(2) _ assms(9) s clocks(2,4) assms(1) burst] assms(3,7) by auto
  then have iff: "info_wait_time info' = 0 \<longleftrightarrow> level_at ?rate ?t' ?b' + of_int n \<le> of_int (burst_limit l)"
    using assms(1) by simp
  have "level_at ?rate ?t' ?b' + of_int n \<le> of_int (burst_limit l) \<longleftrightarrow>
      level_at ?rate ?t ?b + of_int n - of_int (burst_limit l) \<le> (?t' - ?t) * of_int ?rate"
    unfolding later using assms(4) by auto
  also have "\<dots> \<longleftrightarrow> info_wait_time info \<le> ?t' - ?t"
    unfolding wait using assms(1) by (simp add: pos_divide_le_eq)
  finally show ?thesis
    using i(1) iff assms(7,9) by (auto simp: is_limited_def leaky_call_def case_prod_beta)
qed

theorem leaky_bucket_wait_exact_witness:
  "fst (is_limited example_limiter (Some ''foo'') 11 4 True 11 (leaky_run example_limiter ''foo'' [request_at 10 10 5] [])) = Inr True"
proof -
  have info: "leaky_call example_limiter ''foo'' (request_at 10 10 4) (leaky_run example_limiter ''foo'' [request_at 10 10 5] []) =
      (Inr \<lparr>info_burst_limit = 5, info_drip_rate = 2, info_last_drip = 10, info_current_level = 5, info_wait_time = 2\<rparr>,
       leaky_run example_limiter ''foo'' [request_at 10 10 5] [])"
    by code_simp
  have drained: "drained_until (lr_time (request_at 10 10 4)) (key_bucket ''foo'' (leaky_run example_limiter ''foo'' [request_at 10 10 5] [])) =
      lr_time (request_at 10 10 4)" by code_simp
  show ?thesis
    using leaky_bucket_wait_exact [OF _ _ _ _ _ _ _ _ _ _ drained info, of 4 "request_at 11 11 4"]
    by (simp add: example_limiter_def close_clocks_def request_at_def)
qed

text \<open>
  \<open>get_bucket_state\<close> never reports a wait: in every state that calls on a key can lead to, full
  buckets included, its wait time is 0, whatever the next call will be told.
\<close>

theorem bucket_state_never_waits:
  assumes "0 < drip_rate l" "0 \<le> burst_limit l" "key \<noteq> ''''" "close_clocks reqs"
    "get_bucket_state l (Some key) redis_up redis_time (leaky_run l key reqs []) = Inr info"
  shows "info_wait_time info = 0"
proof -
  let ?b = "key_bucket key (leaky_run l key reqs [])"
  have "\<exists>R. limiter_ok l key R (leaky_run l key reqs [])"
  proof (cases "reqs = []")
    case True
    then show ?thesis by (simp add: leaky_run_def)
  next
    case False
    have "\<forall>r \<in> set reqs. lr_redis r \<le> lr_redis (last reqs)"
      using assms(4) False by (cases reqs rule: rev_cases) (auto simp: close_clocks_def sorted_append)
    then have "close_clocks (reqs @ [last reqs])"
      using assms(4) False by (auto simp: close_clocks_def sorted_append list_all_iff)
    then show ?thesis using leaky_run_reached [OF assms(3)] by blast
  qed
  then obtain R where "bucket_ok (burst_limit l) (drip_rate l) R (live_bucket redis_time ?b)"
    unfolding limiter_ok_def using live_bucket_ok by blast
  then have "(case current_level (live_bucket redis_time ?b) of None \<Rightarrow> 0 | Some x \<Rightarrow> x) \<le> of_int (burst_limit l)"
    by (cases rule: bucket_cases) (use assms(2) in \<open>simp_all add: no_bucket_def\<close>)
  with assms(1) have "((case current_level (live_bucket redis_time ?b) of None \<Rightarrow> 0 | Some x \<Rightarrow> x)
      - of_int (burst_limit l)) / of_int (drip_rate l) \<le> 0"
    by (simp add: divide_nonpos_pos)
  with assms(3,5) show ?thesis
    by (auto simp: get_bucket_state_def leaky_redis_key_def key_bucket_def Let_def fail_open_def split: if_splits)
qed

theorem bucket_state_never_waits_witness:
  "\<exists>info. get_bucket_state example_limiter (Some ''foo'') True 10 (leaky_run example_limiter ''foo'' [request_at 10 10 5] []) = Inr info
     \<and> info_current_level info = 5 \<and> info_wait_time info = 0"
proof -
  let ?info = "\<lparr>info_burst_limit = 5, info_drip_rate = 2, info_last_drip = 10, info_current_level = 5,
    info_wait_time = 0\<rparr> :: limit_info"
  have "get_bucket_state example_limiter (Some ''foo'') True 10 (leaky_run example_limiter ''foo'' [request_at 10 10 5] []) = Inr ?info"
    by code_simp
  with bucket_state_never_waits [OF _ _ _ _ this] show ?thesis
    by (auto simp: close_clocks_def request_at_def example_limiter_def)
qed

end
