(* ===== verification/ApiRateLimits.thy ===== *)
theory ApiRateLimits
  imports Prelude Complex_Main
begin

text \<open>
  The rate limits of the API: fixed windows counted in Redis
  (\<open>src/src/sentry/ratelimits/redis.py\<close>), the limit of concurrent requests with its script
  (\<open>ratelimits/concurrent.py\<close>, \<open>scripts/ratelimits/api_limiter.lua\<close>), the limits that apply to an
  endpoint (\<open>ratelimits/config.py\<close>, \<open>ratelimits/utils.py\<close>) and the middleware that puts them
  together (\<open>middleware/ratelimit.py\<close>). Times are seconds as rationals. The md5 digest of a key, the
  clock, the owner of a token and whether Redis answers are arguments. Redis drops a key whose time is
  over before a command reads it.
\<close>

section \<open>Fixed windows: \<open>redis.py\<close>\<close>

record window_entry =
  window_count :: int
  window_expires :: rat

type_synonym window_store = "(string, window_entry) dict"

definition py_trunc :: "rat \<Rightarrow> int" where
  "py_trunc q = (if 0 \<le> q then \<lfloor>q\<rfloor> else \<lceil>q\<rceil>)"

definition py_mod :: "rat \<Rightarrow> int \<Rightarrow> rat" where
  "py_mod q w = q - of_int w * of_int \<lfloor>q / of_int w\<rfloor>"

definition default_window :: int where "default_window = 60"

definition effective_window :: "int option \<Rightarrow> int" where
  "effective_window w = (case w of None \<Rightarrow> default_window | Some n \<Rightarrow> if n = 0 then default_window else n)"

definition time_bucket :: "rat \<Rightarrow> int \<Rightarrow> int" where
  "time_bucket request_time window = py_trunc (request_time / of_int window)"

definition bucket_start_time :: "int \<Rightarrow> int \<Rightarrow> int" where
  "bucket_start_time bucket_number window = bucket_number * window"

definition construct_redis_key ::
  "(string \<Rightarrow> string) \<Rightarrow> string \<Rightarrow> int option \<Rightarrow> int option \<Rightarrow> rat \<Rightarrow> string" where
  "construct_redis_key digest key project window request_time =
     (let bucket = time_bucket request_time (effective_window window)
      in ''rl:'' @ digest key @ (case project of None \<Rightarrow> '''' | Some p \<Rightarrow> '':'' @ int_str p) @ '':'' @ int_str bucket)"

definition live_window :: "rat \<Rightarrow> window_store \<Rightarrow> string \<Rightarrow> window_entry option" where
  "live_window time s k =
     (case dict_get s k of None \<Rightarrow> None | Some e \<Rightarrow> if window_expires e \<le> time then None else Some e)"

definition current_value ::
  "(string \<Rightarrow> string) \<Rightarrow> string \<Rightarrow> int option \<Rightarrow> int option \<Rightarrow> rat \<Rightarrow> bool \<Rightarrow> window_store \<Rightarrow> int" where
  "current_value digest key project window now redis_up s =
     (if redis_up
      then (case live_window now s (construct_redis_key digest key project window now) of
              None \<Rightarrow> 0 | Some e \<Rightarrow> window_count e)
      else 0)"

text \<open>
  \<open>is_limited_with_value\<close> reads the clock twice: \<open>t1\<close> for the expiration and the reset time, \<open>t2\<close> for
  the key. The commands run at \<open>t2\<close>.
\<close>

definition window_expiration :: "int \<Rightarrow> rat \<Rightarrow> int" where
  "window_expiration window t1 = window - py_trunc (py_mod t1 window)"

definition is_limited_with_value ::
  "(string \<Rightarrow> string) \<Rightarrow> string \<Rightarrow> int \<Rightarrow> int option \<Rightarrow> int option \<Rightarrow> rat \<Rightarrow> rat \<Rightarrow> bool \<Rightarrow> window_store \<Rightarrow>
   (bool \<times> int \<times> int) \<times> window_store" where
  "is_limited_with_value digest key limit project window t1 t2 redis_up s =
     (let w = effective_window window;
          k = construct_redis_key digest key project (Some w) t2;
          reset_time = bucket_start_time (time_bucket t1 w + 1) w
      in if redis_up then
           (let n = (case live_window t2 s k of None \<Rightarrow> 0 | Some e \<Rightarrow> window_count e) + 1
            in ((n > limit, n, reset_time),
                dict_set k \<lparr>window_count = n, window_expires = t2 + of_int (window_expiration w t1)\<rparr> s))
         else ((False, 0, reset_time), s))"

definition window_limited ::
  "(string \<Rightarrow> string) \<Rightarrow> string \<Rightarrow> int \<Rightarrow> int option \<Rightarrow> int option \<Rightarrow> rat \<Rightarrow> rat \<Rightarrow> bool \<Rightarrow> window_store \<Rightarrow>
   bool \<times> window_store" where
  \<comment> \<open>\<open>is_limited\<close> of the base class\<close>
  "window_limited digest key limit project window t1 t2 redis_up s =
     (let ((limited, _, _), s') = is_limited_with_value digest key limit project window t1 t2 redis_up s
      in (limited, s'))"

section \<open>Concurrent requests: \<open>concurrent.py\<close> and \<open>api_limiter.lua\<close>\<close>

text \<open>The sorted set of a key: the requests that run, by their ids, with the times they began.\<close>

type_synonym running = "(string, rat) dict"
type_synonym running_store = "(string, running) dict"

definition drop_stale :: "rat \<Rightarrow> rat \<Rightarrow> running \<Rightarrow> running" where
  \<comment> \<open>\<open>zremrangebyscore key -inf (cur_time - max_ttl)\<close>\<close>
  "drop_stale cur_time max_ttl z = filter (\<lambda>(_, began). \<not> began \<le> cur_time - max_ttl) z"

definition api_limiter_script :: "int \<Rightarrow> string \<Rightarrow> rat \<Rightarrow> rat \<Rightarrow> running \<Rightarrow> (int \<times> bool \<times> int) \<times> running" where
  "api_limiter_script concurrent_limit request_uid cur_time max_ttl z =
     (let pre = int (length z);
          z1 = drop_stale cur_time max_ttl z;
          current = int (length z1);
          allowed = (current < concurrent_limit);
          cleaned = pre - current
      in if allowed then ((current + 1, True, cleaned), dict_set request_uid cur_time z1)
         else ((current, False, cleaned), z1))"

record concurrent_info =
  ci_limit :: int
  ci_executions :: int
  ci_exceeded :: bool

definition DEFAULT_MAX_TTL_SECONDS :: rat where "DEFAULT_MAX_TTL_SECONDS = 30"

definition namespaced_key :: "string \<Rightarrow> string" where "namespaced_key key = ''concurrent_limit:'' @ key"

definition running_of :: "running_store \<Rightarrow> string \<Rightarrow> running" where
  "running_of s k = (case dict_get s k of None \<Rightarrow> [] | Some z \<Rightarrow> z)"

definition start_request ::
  "string \<Rightarrow> int \<Rightarrow> string \<Rightarrow> rat \<Rightarrow> bool \<Rightarrow> running_store \<Rightarrow> concurrent_info \<times> running_store" where
  "start_request key limit request_uid now redis_up s =
     (if redis_up then
        (let k = namespaced_key key;
             ((current, allowed, cleaned), z) =
               api_limiter_script limit request_uid now DEFAULT_MAX_TTL_SECONDS (running_of s k)
         in (\<lparr>ci_limit = limit, ci_executions = current, ci_exceeded = \<not> allowed\<rparr>, dict_set k z s))
      else (\<lparr>ci_limit = limit, ci_executions = - 1, ci_exceeded = False\<rparr>, s))"

definition get_concurrent_requests :: "string \<Rightarrow> running_store \<Rightarrow> int" where
  "get_concurrent_requests key s = int (length (running_of s (namespaced_key key)))"

definition finish_request :: "string \<Rightarrow> string \<Rightarrow> bool \<Rightarrow> running_store \<Rightarrow> running_store" where
  "finish_request key request_uid redis_up s =
     (if redis_up
      then (let k = namespaced_key key in dict_set k (dict_del request_uid (running_of s k)) s)
      else s)"

section \<open>The limits of an endpoint: \<open>config.py\<close>, \<open>types/ratelimit.py\<close>\<close>

datatype rate_category = CategoryIp | CategoryUser | CategoryOrg

fun category_str :: "rate_category \<Rightarrow> string" where
  "category_str CategoryIp = ''ip''"
| "category_str CategoryUser = ''user''"
| "category_str CategoryOrg = ''org''"

definition parse_category :: "string \<Rightarrow> rate_category result" where
  \<comment> \<open>\<open>RateLimitCategory(category_str)\<close>\<close>
  "parse_category s =
     (if s = ''ip'' then Inr CategoryIp else if s = ''user'' then Inr CategoryUser
      else if s = ''org'' then Inr CategoryOrg else Inl ValueError)"

record rate_limit =
  rl_limit :: int
  rl_window :: int
  rl_concurrent :: "int option"

definition SENTRY_RATELIMITER_DEFAULT :: int where "SENTRY_RATELIMITER_DEFAULT = 999"
definition SENTRY_RATELIMITER_GROUP_CLI :: int where "SENTRY_RATELIMITER_GROUP_CLI = 999"
definition SENTRY_CONCURRENT_RATE_LIMIT_DEFAULT :: int where "SENTRY_CONCURRENT_RATE_LIMIT_DEFAULT = 999"
definition SENTRY_CONCURRENT_RATE_LIMIT_GROUP_CLI :: int where "SENTRY_CONCURRENT_RATE_LIMIT_GROUP_CLI = 999"

definition DEFAULT_RATELIMIT :: rate_limit where
  "DEFAULT_RATELIMIT = \<lparr>rl_limit = SENTRY_RATELIMITER_DEFAULT, rl_window = 1,
     rl_concurrent = Some SENTRY_CONCURRENT_RATE_LIMIT_DEFAULT\<rparr>"

definition CLI_RATELIMIT :: rate_limit where
  "CLI_RATELIMIT = \<lparr>rl_limit = SENTRY_RATELIMITER_GROUP_CLI, rl_window = 1,
     rl_concurrent = Some SENTRY_CONCURRENT_RATE_LIMIT_GROUP_CLI\<rparr>"

type_synonym category_limits = "(rate_category, rate_limit) dict"

definition GROUP_DEFAULTS :: "(string, category_limits) dict" where
  "GROUP_DEFAULTS =
     [(''default'', [(CategoryIp, DEFAULT_RATELIMIT), (CategoryUser, DEFAULT_RATELIMIT), (CategoryOrg, DEFAULT_RATELIMIT)]),
      (''CLI'', [(CategoryIp, DEFAULT_RATELIMIT), (CategoryUser, CLI_RATELIMIT), (CategoryOrg, CLI_RATELIMIT)]),
      (''INTERNAL'', [(CategoryIp, DEFAULT_RATELIMIT), (CategoryUser, DEFAULT_RATELIMIT), (CategoryOrg, DEFAULT_RATELIMIT)])]"

definition get_default_rate_limits_for_group ::
  "(string, category_limits) dict \<Rightarrow> string \<Rightarrow> rate_category \<Rightarrow> rate_limit result" where
  "get_default_rate_limits_for_group defaults group_name category =
     (case (case dict_get defaults group_name of None \<Rightarrow> None | Some c \<Rightarrow> dict_get c category) of
        Some r \<Rightarrow> Inr r
      | None \<Rightarrow>
          (case dict_get defaults ''default'' of
             None \<Rightarrow> Inl KeyError
           | Some c \<Rightarrow>
               (case dict_get c CategoryOrg of
                  None \<Rightarrow> Inl KeyError
                | Some org \<Rightarrow> Inr (case dict_get c category of Some r \<Rightarrow> r | None \<Rightarrow> org))))"

record rate_limit_config =
  rc_group :: string
  rc_overrides :: "(string, category_limits) dict option"

definition DEFAULT_RATE_LIMIT_CONFIG :: rate_limit_config where
  "DEFAULT_RATE_LIMIT_CONFIG = \<lparr>rc_group = ''default'', rc_overrides = None\<rparr>"

definition has_custom_limit :: "rate_limit_config \<Rightarrow> bool" where
  "has_custom_limit c = (rc_overrides c \<noteq> None)"

definition get_rate_limit :: "rate_limit_config \<Rightarrow> string \<Rightarrow> rate_category \<Rightarrow> rate_limit result" where
  "get_rate_limit c http_method category =
     (case rc_overrides c of
        None \<Rightarrow> get_default_rate_limits_for_group GROUP_DEFAULTS (rc_group c) category
      | Some ov \<Rightarrow>
          (case dict_get (case dict_get ov http_method of None \<Rightarrow> [] | Some m \<Rightarrow> m) category of
             Some r \<Rightarrow> Inr r
           | None \<Rightarrow> get_default_rate_limits_for_group GROUP_DEFAULTS (rc_group c) category))"

text \<open>What a view class declares (a callable has been called): nothing, a config, a dict, or anything else.\<close>

datatype declared_limits = NoLimits | ConfigLimits rate_limit_config
  | DictLimits "(string, category_limits) dict" | BadLimits

definition get_rate_limit_config :: "declared_limits \<Rightarrow> rate_limit_config result" where
  \<comment> \<open>with \<open>from_rate_limit_override_dict\<close>\<close>
  "get_rate_limit_config d =
     (case d of
        NoLimits \<Rightarrow> Inr DEFAULT_RATE_LIMIT_CONFIG
      | ConfigLimits c \<Rightarrow> Inr c
      | DictLimits ov \<Rightarrow> Inr \<lparr>rc_group = ''default'', rc_overrides = Some ov\<rparr>
      | BadLimits \<Rightarrow> Inl (OtherError ''InvalidRateLimitConfig''))"

section \<open>The key of a request: \<open>utils.py\<close>\<close>

text \<open>
  What authenticated a request, with the token it names. A user may be missing, anonymous, or the
  account of a Sentry app.
\<close>

datatype request_auth =
    NoAuth
  | SystemToken
  | AuthenticatedToken string "int option" "int option"
  | ApiToken int "int option"
  | ApiTokenReplica "int option" "int option"
  | ApiKey
  | OtherAuth

record request_user =
  us_id :: int
  us_anonymous :: bool
  us_sentry_app :: bool

record limited_request =
  hr_view :: "string option"
  hr_static :: bool
  hr_method :: string
  hr_ip :: "string option"
  hr_auth :: request_auth
  hr_user :: "request_user option"

fun is_system_auth :: "request_auth \<Rightarrow> bool" where
  "is_system_auth (AuthenticatedToken kind _ _) = (kind = ''system'')"
| "is_system_auth a = (a = SystemToken)"

fun is_api_token_auth :: "request_auth \<Rightarrow> bool" where
  "is_api_token_auth (AuthenticatedToken kind _ _) = (kind = ''api_token'')"
| "is_api_token_auth (ApiToken _ _) = True"
| "is_api_token_auth (ApiTokenReplica _ _) = True"
| "is_api_token_auth _ = False"

fun token_id_of :: "request_auth \<Rightarrow> int result" where
  "token_id_of (ApiToken i _) = Inr i"
| "token_id_of (AuthenticatedToken _ (Some i) _) = Inr i"
| "token_id_of (ApiTokenReplica (Some i) _) = Inr i"
| "token_id_of _ = Inl AssertionError"

fun auth_user_id :: "request_auth \<Rightarrow> int option" where
  "auth_user_id (ApiToken _ u) = u"
| "auth_user_id (AuthenticatedToken _ _ u) = u"
| "auth_user_id (ApiTokenReplica _ u) = u"
| "auth_user_id _ = None"

definition get_organization_id_from_token :: "(int \<Rightarrow> int option) \<Rightarrow> int \<Rightarrow> int option" where
  "get_organization_id_from_token org_of token_id =
     (case org_of token_id of None \<Rightarrow> None | Some i \<Rightarrow> if i = 0 then None else Some i)"

definition opt_str :: "int option \<Rightarrow> string" where
  "opt_str i = (case i of None \<Rightarrow> ''None'' | Some n \<Rightarrow> int_str n)"

definition request_identity ::
  "(int \<Rightarrow> int option) \<Rightarrow> limited_request \<Rightarrow> (rate_category \<times> string) option result" where
  "request_identity org_of r =
     (let by_ip = Inr (case hr_ip r of None \<Rightarrow> None | Some ip \<Rightarrow> Some (CategoryIp, ip))
      in case hr_user r of
        None \<Rightarrow> by_ip
      | Some u \<Rightarrow>
          if is_api_token_auth (hr_auth r) then
            bind_result (token_id_of (hr_auth r)) (\<lambda>t.
              if us_sentry_app u then
                (case (get_organization_id_from_token org_of t, hr_ip r) of
                   (None, Some ip) \<Rightarrow> Inr (Some (CategoryIp, ip))
                 | (org, _) \<Rightarrow> Inr (Some (CategoryOrg, opt_str org)))
              else Inr (Some (CategoryUser, opt_str (auth_user_id (hr_auth r)))))
          else if hr_auth r \<noteq> ApiKey \<and> \<not> us_anonymous u then Inr (Some (CategoryUser, int_str (us_id u)))
          else by_ip)"

definition get_rate_limit_key ::
  "(int \<Rightarrow> int option) \<Rightarrow> limited_request \<Rightarrow> string \<Rightarrow> rate_limit_config option \<Rightarrow> string option result" where
  "get_rate_limit_key org_of r grp config =
     (case hr_view r of
        None \<Rightarrow> Inr None
      | Some view \<Rightarrow>
          if hr_static r \<or> is_system_auth (hr_auth r) then Inr None
          else
            bind_result (request_identity org_of r) (\<lambda>identity.
              Inr (case identity of
                None \<Rightarrow> None
              | Some (category, i) \<Rightarrow>
                  Some (join_on '':''
                    (if (case config of None \<Rightarrow> False | Some c \<Rightarrow> has_custom_limit c)
                     then [category_str category, grp, view, hr_method r, i]
                     else [category_str category, grp, hr_method r, i])))))"

section \<open>The middleware: \<open>middleware/ratelimit.py\<close>\<close>

datatype rate_limit_type = NotLimited | ConcurrentLimited | FixedWindowLimited

record rate_limit_meta =
  rm_type :: rate_limit_type
  rm_current :: int
  rm_remaining :: int
  rm_limit :: int
  rm_window :: int
  rm_group :: string
  rm_reset_time :: int
  rm_concurrent_limit :: "int option"
  rm_concurrent_requests :: "int option"

definition concurrent_remaining :: "rate_limit_meta \<Rightarrow> int option" where
  "concurrent_remaining m =
     (case (rm_concurrent_limit m, rm_concurrent_requests m) of
        (Some l, Some n) \<Rightarrow> Some (l - n)
      | _ \<Rightarrow> None)"

text \<open>The stores of both limiters; the clock readings and whether Redis answers each of the two.\<close>

record limits_state =
  ls_windows :: window_store
  ls_running :: running_store

record call_clock =
  cc_t1 :: rat
  cc_t2 :: rat
  cc_t3 :: rat
  cc_window_up :: bool
  cc_concurrent_up :: bool

definition above_rate_limit_check ::
  "(string \<Rightarrow> string) \<Rightarrow> call_clock \<Rightarrow> string \<Rightarrow> rate_limit \<Rightarrow> string \<Rightarrow> string \<Rightarrow> limits_state \<Rightarrow>
   rate_limit_meta \<times> limits_state" where
  "above_rate_limit_check digest clock key limit request_uid grp s =
     (let ((limited, current, reset_time), windows) =
            is_limited_with_value digest key (rl_limit limit) None (Some (rl_window limit))
              (cc_t1 clock) (cc_t2 clock) (cc_window_up clock) (ls_windows s);
          (type, requests, running) =
            (if limited then (FixedWindowLimited, None, ls_running s)
             else case rl_concurrent limit of
                 None \<Rightarrow> (NotLimited, None, ls_running s)
               | Some l \<Rightarrow>
                   (let (info, running) = start_request key l request_uid (cc_t3 clock)
                          (cc_concurrent_up clock) (ls_running s)
                    in (if ci_exceeded info then ConcurrentLimited else NotLimited, Some (ci_executions info), running)))
      in (\<lparr>rm_type = type, rm_current = current, rm_remaining = (if limited then 0 else rl_limit limit - current),
           rm_limit = rl_limit limit, rm_window = rl_window limit, rm_group = grp, rm_reset_time = reset_time,
           rm_concurrent_limit = rl_concurrent limit, rm_concurrent_requests = requests\<rparr>,
          s\<lparr>ls_windows := windows, ls_running := running\<rparr>))"

text \<open>
  The attributes that \<open>process_view\<close> leaves on a request: an unset attribute is \<open>None\<close>, the key may
  be set to nothing.
\<close>

record request_attrs =
  at_limited :: bool
  at_uid :: "string option"
  at_key :: "string option option"
  at_meta :: "rate_limit_meta option"

record limit_settings =
  st_self_hosted :: bool
  st_enforce_concurrent :: bool

definition no_attrs :: request_attrs where
  "no_attrs = \<lparr>at_limited = False, at_uid = None, at_key = None, at_meta = None\<rparr>"

text \<open>
  \<open>process_view\<close>: whether the request is answered with status 429, the attributes, the stores. An
  exception on the way is caught: the request passes with the attributes that were set before.
\<close>

definition process_view ::
  "limit_settings \<Rightarrow> (string \<Rightarrow> string) \<Rightarrow> (int \<Rightarrow> int option) \<Rightarrow> bool \<Rightarrow> declared_limits \<Rightarrow> call_clock \<Rightarrow>
   string \<Rightarrow> limited_request \<Rightarrow> limits_state \<Rightarrow> bool \<times> request_attrs \<times> limits_state" where
  "process_view settings digest org_of enforced declared clock uid r s =
     (if st_self_hosted settings then (False, no_attrs, s)
      else
        let a = no_attrs\<lparr>at_uid := Some uid\<rparr>
        in if hr_view r = None \<or> \<not> enforced then (False, a, s)
        else case get_rate_limit_config declared of
          Inl _ \<Rightarrow> (False, a, s)
        | Inr config \<Rightarrow>
            (case get_rate_limit_key org_of r (rc_group config) (Some config) of
               Inl _ \<Rightarrow> (False, a, s)
             | Inr None \<Rightarrow> (False, a\<lparr>at_key := Some None\<rparr>, s)
             | Inr (Some key) \<Rightarrow>
                 (let a1 = a\<lparr>at_key := Some (Some key)\<rparr>
                  in case bind_result (parse_category (hd (split_on CHR '':'' key)))
                         (get_rate_limit config (hr_method r)) of
                    Inl _ \<Rightarrow> (False, a1, s)
                  | Inr limit \<Rightarrow>
                      (let (m, s1) = above_rate_limit_check digest clock key limit uid (rc_group config) s;
                           limited = (if st_enforce_concurrent settings then rm_type m \<noteq> NotLimited
                                      else rm_type m = FixedWindowLimited)
                       in (limited, a1\<lparr>at_meta := Some m, at_limited := limited\<rparr>, s1)))))"

definition process_response :: "bool \<Rightarrow> request_attrs \<Rightarrow> limits_state \<Rightarrow> limits_state" where
  "process_response redis_up a s =
     (case (at_key a, at_uid a) of
        (Some k, Some uid) \<Rightarrow>
          s\<lparr>ls_running := finish_request (case k of None \<Rightarrow> ''None'' | Some k \<Rightarrow> k) uid redis_up (ls_running s)\<rparr>
      | _ \<Rightarrow> s)"

definition rate_limit_headers :: "request_attrs \<Rightarrow> (string \<times> int option) list" where
  "rate_limit_headers a =
     (case at_meta a of
        None \<Rightarrow> []
      | Some m \<Rightarrow>
          [(''X-Sentry-Rate-Limit-Remaining'', Some (rm_remaining m)), (''X-Sentry-Rate-Limit-Limit'', Some (rm_limit m)),
           (''X-Sentry-Rate-Limit-Reset'', Some (rm_reset_time m)),
           (''X-Sentry-Rate-Limit-ConcurrentRemaining'', concurrent_remaining m),
           (''X-Sentry-Rate-Limit-ConcurrentLimit'', rm_concurrent_limit m)])"

section \<open>A window counts every call that falls into it\<close>

record window_call =
  wc_t1 :: rat
  wc_t2 :: rat

definition call_window ::
  "(string \<Rightarrow> string) \<Rightarrow> string \<Rightarrow> int \<Rightarrow> int option \<Rightarrow> int \<Rightarrow> window_call \<Rightarrow> window_store \<Rightarrow> bool \<times> window_store" where
  "call_window digest key limit project w c s =
     window_limited digest key limit project (Some w) (wc_t1 c) (wc_t2 c) True s"

text \<open>How many calls of a run are let through.\<close>

fun let_through ::
  "(string \<Rightarrow> string) \<Rightarrow> string \<Rightarrow> int \<Rightarrow> int option \<Rightarrow> int \<Rightarrow> window_call list \<Rightarrow> window_store \<Rightarrow> int" where
  "let_through digest key limit project w [] s = 0"
| "let_through digest key limit project w (c # cs) s =
     (let (limited, s') = call_window digest key limit project w c s
      in (if limited then 0 else 1) + let_through digest key limit project w cs s')"

definition in_bucket :: "int \<Rightarrow> int \<Rightarrow> rat \<Rightarrow> bool" where
  "in_bucket b w t = (of_int (b * w) \<le> t \<and> t < of_int ((b + 1) * w))"

lemma bucket_of_time: "0 < w \<Longrightarrow> 0 \<le> b \<Longrightarrow> in_bucket b w t \<Longrightarrow> time_bucket t w = b"
proof -
  assume w: "0 < w" "0 \<le> b" and t: "in_bucket b w t"
  have "of_int b \<le> t / of_int w" "t / of_int w < of_int b + 1"
    using w t by (simp_all add: in_bucket_def pos_le_divide_eq pos_divide_less_eq algebra_simps)
  then have "\<lfloor>t / of_int w\<rfloor> = b" by (simp add: floor_eq_iff)
  moreover have "0 \<le> (of_int b :: rat)" using w(2) by simp
  then have "0 \<le> t / of_int w" using \<open>of_int b \<le> t / of_int w\<close> by (rule order_trans)
  ultimately show ?thesis by (simp add: time_bucket_def py_trunc_def)
qed

text \<open>A count outlives its bucket when both readings of the clock fall into it.\<close>

lemma expires_after_bucket:
  assumes "0 < w" "0 \<le> b" "in_bucket b w t1" "t1 \<le> t2"
  shows "of_int ((b + 1) * w) \<le> t2 + of_int (window_expiration w t1)"
proof -
  have b: "of_int b \<le> t1 / of_int w" "t1 / of_int w < of_int b + 1"
    using assms(1,3) by (simp_all add: in_bucket_def pos_le_divide_eq pos_divide_less_eq algebra_simps)
  then have "\<lfloor>t1 / of_int w\<rfloor> = b" by (simp add: floor_eq_iff)
  then have m: "py_mod t1 w = t1 - of_int (b * w)" by (simp add: py_mod_def algebra_simps)
  with assms(3) have "0 \<le> py_mod t1 w" by (simp add: in_bucket_def)
  then have "of_int (py_trunc (py_mod t1 w)) \<le> py_mod t1 w" by (simp add: py_trunc_def)
  with m assms(4) show ?thesis by (simp add: window_expiration_def algebra_simps)
qed

lemma window_bound_from:
  fixes s :: window_store
  assumes "0 < w" "0 \<le> b"
  shows "\<forall>c \<in> set cs. in_bucket b w (wc_t1 c) \<and> in_bucket b w (wc_t2 c) \<and> wc_t1 c \<le> wc_t2 c \<Longrightarrow>
    (case dict_get s (construct_redis_key digest key project (Some w) (of_int (b * w))) of
       None \<Rightarrow> n = 0
     | Some e \<Rightarrow> n = window_count e \<and> of_int ((b + 1) * w) \<le> window_expires e) \<Longrightarrow> 0 \<le> n \<Longrightarrow>
    let_through digest key limit project w cs s \<le> max 0 (limit - n)"
proof (induction cs arbitrary: s n)
  case (Cons c cs)
  let ?k = "construct_redis_key digest key project (Some w) (of_int (b * w))"
  let ?e = "\<lparr>window_count = n + 1, window_expires = wc_t2 c + of_int (window_expiration w (wc_t1 c))\<rparr>"
  have c: "in_bucket b w (wc_t1 c)" "in_bucket b w (wc_t2 c)" "wc_t1 c \<le> wc_t2 c" using Cons.prems(1) by simp_all
  have start: "in_bucket b w (of_int (b * w))" using assms(1) by (simp add: in_bucket_def algebra_simps)
  have k: "construct_redis_key digest key project (Some w) (wc_t2 c) = ?k"
    using assms(1) bucket_of_time [OF assms(1,2) c(2)] bucket_of_time [OF assms(1,2) start]
    by (simp add: construct_redis_key_def effective_window_def)
  have live: "(case live_window (wc_t2 c) s ?k of None \<Rightarrow> 0 | Some e \<Rightarrow> window_count e) = n"
    using Cons.prems(2) c(2) by (auto simp: live_window_def in_bucket_def split: option.splits)
  have call: "call_window digest key limit project w c s = (n + 1 > limit, dict_set ?k ?e s)"
    using assms(1) k live
    by (simp add: call_window_def window_limited_def is_limited_with_value_def effective_window_def Let_def)
  have "of_int ((b + 1) * w) \<le> window_expires ?e"
    using expires_after_bucket [OF assms(1,2) c(1,3)] by simp
  then have "let_through digest key limit project w cs (dict_set ?k ?e s) \<le> max 0 (limit - (n + 1))"
    using Cons.IH [of "n + 1" "dict_set ?k ?e s"] Cons.prems(1,3) by simp
  then show ?case using Cons.prems(3) by (auto simp: call)
qed simp

text \<open>
  A fixed window holds: of the calls whose two readings of the clock fall into one window, no more
  are let through than the limit, when the window starts with no count.
\<close>

theorem fixed_window_bound:
  assumes "0 < w" "0 \<le> b" "0 \<le> limit"
    "\<forall>c \<in> set cs. in_bucket b w (wc_t1 c) \<and> in_bucket b w (wc_t2 c) \<and> wc_t1 c \<le> wc_t2 c"
    "dict_get s (construct_redis_key digest key project (Some w) (of_int (b * w))) = None"
  shows "let_through digest key limit project w cs s \<le> limit"
  using window_bound_from [where s = s and digest = digest and key = key and project = project and n = 0 and limit = limit,
      OF assms(1,2,4)]
    assms(3,5) by simp

theorem fixed_window_bound_witness:
  "let_through (\<lambda>x. x) ''k'' 1 None 60
     [\<lparr>wc_t1 = 60, wc_t2 = 60\<rparr>, \<lparr>wc_t1 = 119, wc_t2 = 119 + 1 / 2\<rparr>] [] \<le> 1"
  using fixed_window_bound [of 60 1 1 "[\<lparr>wc_t1 = 60, wc_t2 = 60\<rparr>, \<lparr>wc_t1 = 119, wc_t2 = 119 + 1 / 2\<rparr>]" "[]"]
  by (simp add: in_bucket_def)

text \<open>
  The two readings of the clock can disagree about the window: a call that begins just before a
  window ends and counts in the next one lets that count expire too early, and the next window lets
  more calls through than its limit.
\<close>

theorem window_straddle_exceeds_limit:
  "let_through (\<lambda>x. x) ''k'' 1 None 60
     [\<lparr>wc_t1 = 59 + 1 / 2, wc_t2 = 60\<rparr>, \<lparr>wc_t1 = 62, wc_t2 = 62\<rparr>] [] = 2
   \<and> in_bucket 1 60 60 \<and> in_bucket 1 60 62"
proof -
  have "\<lfloor>119 / 120 :: rat\<rfloor> = 0" "\<lfloor>31 / 30 :: rat\<rfloor> = 1" by (simp_all add: floor_eq_iff)
  then show ?thesis
    by (simp add: call_window_def window_limited_def is_limited_with_value_def effective_window_def
      construct_redis_key_def time_bucket_def py_trunc_def py_mod_def window_expiration_def live_window_def
      in_bucket_def Let_def)
qed

section \<open>Concurrent requests hold and release their slots\<close>

lemma dict_del_length: "length (dict_del k d) \<le> length d"
  unfolding dict_del_def by (simp add: AList.delete_eq)

lemma drop_stale_length: "length (drop_stale t ttl z) \<le> length z"
  by (simp add: drop_stale_def)

lemma running_of_set [simp]: "running_of (dict_set k z s) k' = (if k' = k then z else running_of s k')"
  by (simp add: running_of_def)

datatype slot_event = Start string string rat bool | Finish string string bool

fun slot_step :: "int \<Rightarrow> running_store \<Rightarrow> slot_event \<Rightarrow> running_store" where
  "slot_step limit s (Start key uid now up) = snd (start_request key limit uid now up s)"
| "slot_step limit s (Finish key uid up) = finish_request key uid up s"

definition slots_within :: "int \<Rightarrow> running_store \<Rightarrow> bool" where
  "slots_within limit s = (\<forall>k. int (length (running_of s k)) \<le> max 0 limit)"

lemma script_within:
  "int (length z) \<le> max 0 limit \<Longrightarrow>
   int (length (snd (api_limiter_script limit uid now ttl z))) \<le> max 0 limit"
  using dict_set_length [of uid now "drop_stale now ttl z"] drop_stale_length [of now ttl z]
  by (auto simp: api_limiter_script_def Let_def)

lemma slot_step_within: "slots_within limit s \<Longrightarrow> slots_within limit (slot_step limit s e)"
proof (cases e)
  case (Start key uid now up)
  assume "slots_within limit s"
  with script_within show ?thesis
    by (simp add: Start start_request_def slots_within_def Let_def case_prod_beta)
next
  case (Finish key uid up)
  assume s: "slots_within limit s"
  have del: "int (length (dict_del uid z)) \<le> max 0 limit" if "int (length z) \<le> max 0 limit" for z
    using that dict_del_length [of uid z] by linarith
  from s show ?thesis by (auto simp: Finish finish_request_def slots_within_def Let_def intro!: del)
qed

text \<open>Requests as the middleware sees them: one enters the view and is open until its response.\<close>

datatype http_event =
    Enter bool declared_limits call_clock string limited_request
  | Leave nat

fun http_step ::
  "limit_settings \<Rightarrow> (string \<Rightarrow> string) \<Rightarrow> (int \<Rightarrow> int option) \<Rightarrow> limits_state \<times> request_attrs list \<Rightarrow> http_event \<Rightarrow>
   limits_state \<times> request_attrs list" where
  "http_step settings digest org_of (s, opens) (Enter enforced declared clock uid r) =
     (let (_, a, s') = process_view settings digest org_of enforced declared clock uid r s in (s', opens @ [a]))"
| "http_step settings digest org_of (s, opens) (Leave i) =
     (if i < length opens then (process_response True (opens ! i) s, take i opens @ drop (Suc i) opens)
      else (s, opens))"

definition limits0 :: limits_state where "limits0 = \<lparr>ls_windows = [], ls_running = []\<rparr>"

text \<open>A slot belongs to an open request.\<close>

definition holds :: "request_attrs \<Rightarrow> string \<Rightarrow> string \<Rightarrow> bool" where
  "holds a k uid = (at_uid a = Some uid \<and> (\<exists>key. at_key a = Some (Some key) \<and> k = namespaced_key key))"

definition slots_owned :: "limits_state \<times> request_attrs list \<Rightarrow> bool" where
  "slots_owned st =
     (\<forall>k. dict_wf (running_of (ls_running (fst st)) k) \<and>
        (\<forall>uid \<in> fst ` set (running_of (ls_running (fst st)) k). \<exists>a \<in> set (snd st). holds a k uid))"

lemma drop_stale_keys: "fst ` set (drop_stale t ttl z) \<subseteq> fst ` set z" "dict_wf z \<Longrightarrow> dict_wf (drop_stale t ttl z)"
  by (auto simp: drop_stale_def distinct_map_filter)

lemma script_keys:
  "fst ` set (snd (api_limiter_script l uid now ttl z)) \<subseteq> insert uid (fst ` set z)"
  "dict_wf z \<Longrightarrow> dict_wf (snd (api_limiter_script l uid now ttl z))"
  using drop_stale_keys(1) [of now ttl z] by (auto simp: api_limiter_script_def Let_def dict_set_keys drop_stale_keys(2))

lemma start_running:
  "running_of (snd (start_request key l uid now up s)) k =
    (if up \<and> k = namespaced_key key
     then snd (api_limiter_script l uid now DEFAULT_MAX_TTL_SECONDS (running_of s k)) else running_of s k)"
  by (simp add: start_request_def Let_def case_prod_beta)

lemma check_running:
  "\<exists>l now up. ls_running (snd (above_rate_limit_check digest clock key limit uid grp s)) =
     snd (start_request key l uid now up (ls_running s))"
proof -
  have "snd (start_request key l uid now False (ls_running s)) = ls_running s" for l now
    by (simp add: start_request_def)
  moreover have "ls_running (snd (above_rate_limit_check digest clock key limit uid grp s)) = ls_running s \<or>
      (\<exists>l. ls_running (snd (above_rate_limit_check digest clock key limit uid grp s)) =
        snd (start_request key l uid (cc_t3 clock) (cc_concurrent_up clock) (ls_running s)))"
    by (auto simp: above_rate_limit_check_def Let_def case_prod_beta split: option.splits)
  ultimately show ?thesis by metis
qed

lemma view_running:
  assumes "process_view settings digest org_of enforced declared clock uid r s = (limited, a, s')"
  shows "ls_running s' = ls_running s \<or>
    (\<exists>key l now up. at_uid a = Some uid \<and> at_key a = Some (Some key) \<and>
       ls_running s' = snd (start_request key l uid now up (ls_running s)))"
  using assms check_running [of digest clock _ _ uid _ s]
  by (auto simp: process_view_def no_attrs_def Let_def case_prod_beta split: if_splits sum.splits option.splits; blast)

lemma http_step_owned:
  assumes "slots_owned st"
  shows "slots_owned (http_step settings digest org_of st e)"
proof (cases st)
  case st: (Pair s opens)
  note owned = assms [unfolded slots_owned_def st fst_conv snd_conv]
  show ?thesis
  proof (cases e)
    case (Enter enforced declared clock uid r)
    obtain limited a s' where v: "process_view settings digest org_of enforced declared clock uid r s = (limited, a, s')"
      by (metis prod_cases3)
    have step: "http_step settings digest org_of st e = (s', opens @ [a])" by (simp add: st Enter v)
    from view_running [OF v] show ?thesis
    proof
      assume "ls_running s' = ls_running s"
      with owned show ?thesis by (auto simp: step slots_owned_def)
    next
      assume "\<exists>key l now up. at_uid a = Some uid \<and> at_key a = Some (Some key) \<and>
        ls_running s' = snd (start_request key l uid now up (ls_running s))"
      then obtain key l now up where a: "at_uid a = Some uid" "at_key a = Some (Some key)"
        and s': "ls_running s' = snd (start_request key l uid now up (ls_running s))" by blast
      have "dict_wf (running_of (ls_running s') k)" for k
        using owned by (simp add: s' start_running script_keys(2))
      moreover have "\<exists>a' \<in> set (opens @ [a]). holds a' k u" if "u \<in> fst ` set (running_of (ls_running s') k)" for k u
      proof (cases "u \<in> fst ` set (running_of (ls_running s) k)")
        case True
        with owned show ?thesis by auto
      next
        case False
        with that script_keys(1) [of l uid now DEFAULT_MAX_TTL_SECONDS "running_of (ls_running s) k"]
        have "u = uid" "k = namespaced_key key" by (auto simp: s' start_running split: if_splits)
        with a show ?thesis by (simp add: holds_def)
      qed
      ultimately show ?thesis by (simp only: step slots_owned_def fst_conv snd_conv) blast
    qed
  next
    case (Leave i)
    show ?thesis
    proof (cases "i < length opens")
      case False
      with assms show ?thesis by (simp add: st Leave)
    next
      case True
      let ?a = "opens ! i" and ?s' = "process_response True (opens ! i) s"
      have step: "http_step settings digest org_of st e = (?s', take i opens @ drop (Suc i) opens)"
        using True by (simp add: st Leave)
      have rest: "a = ?a \<or> a \<in> set (take i opens @ drop (Suc i) opens)" if "a \<in> set opens" for a
        using that id_take_nth_drop [OF True] by (metis Un_iff insert_iff list.set(2) set_append)
      have runs: "running_of (ls_running ?s') k = running_of (ls_running s) k \<or>
          (\<exists>u. running_of (ls_running ?s') k = dict_del u (running_of (ls_running s) k))" for k
        by (auto simp: process_response_def finish_request_def Let_def split: option.splits)
      have released: "u \<notin> fst ` set (running_of (ls_running ?s') k)" if "holds ?a k u" for k u
        using that by (auto simp: holds_def process_response_def finish_request_def Let_def dict_del_def AList.delete_eq)
      have sub: "fst ` set (running_of (ls_running ?s') k) \<subseteq> fst ` set (running_of (ls_running s) k)" for k
        using runs [of k] by (auto simp: dict_del_def AList.delete_eq)
      have "dict_wf (running_of (ls_running ?s') k)" for k
        using runs [of k] owned by auto
      moreover have "\<exists>a \<in> set (take i opens @ drop (Suc i) opens). holds a k u"
        if "u \<in> fst ` set (running_of (ls_running ?s') k)" for k u
      proof -
        have "\<exists>a \<in> set opens. holds a k u"
          by (rule bspec [OF conjunct2 [OF spec [OF owned]] subsetD [OF sub that]])
        then obtain a where a: "a \<in> set opens" "holds a k u" by blast
        then have "a \<noteq> ?a" using released [of k u] that by metis
        with rest [OF a(1)] a(2) show ?thesis by metis
      qed
      ultimately show ?thesis by (simp only: step slots_owned_def fst_conv snd_conv) blast
    qed
  qed
qed

interpretation http_run: step_machine "http_step settings digest org_of" slots_owned
  by unfold_locales (rule http_step_owned)

interpretation slot_run: step_machine "slot_step limit" "slots_within limit"
  by unfold_locales (rule slot_step_within)

text \<open>
  However requests start and finish, on whatever keys and with whatever failures of Redis, no key
  ever counts more running requests than its limit.
\<close>

theorem concurrent_requests_bounded:
  "get_concurrent_requests key (foldl (slot_step limit) [] es) \<le> max 0 limit"
proof -
  have "slots_within limit []" by (simp add: slots_within_def running_of_def)
  from slot_run.run_inv [OF this, of es] show ?thesis
    by (simp add: slots_within_def get_concurrent_requests_def)
qed

text \<open>
  C30. The middleware gives its slots back: at any moment a key counts at most as many running requests
  as there are requests that entered a view and have not been answered yet, whatever each of them went
  through (refused, failed, not limited at all), as long as Redis answers when they leave.
\<close>

theorem slots_are_released:
  "let (s, opens) = foldl (http_step settings digest org_of) (limits0, []) es
   in get_concurrent_requests key (ls_running s) \<le> int (length opens)"
proof -
  obtain s opens where run: "foldl (http_step settings digest org_of) (limits0, []) es = (s, opens)" by fastforce
  have "slots_owned (limits0, [])" by (simp add: slots_owned_def limits0_def running_of_def)
  from http_run.run_inv [OF this, of settings digest org_of es] have owned: "slots_owned (s, opens)" by (simp add: run)
  let ?z = "running_of (ls_running s) (namespaced_key key)"
  have wf: "dict_wf ?z" using owned by (simp add: slots_owned_def)
  have "Some ` fst ` set ?z \<subseteq> at_uid ` set opens"
    using owned by (force simp: slots_owned_def holds_def)
  then have "card (Some ` fst ` set ?z) \<le> card (at_uid ` set opens)" by (intro card_mono) auto
  also have "\<dots> \<le> card (set opens)" by (rule card_image_le) simp
  also have "\<dots> \<le> length opens" by (rule card_length)
  also have "card (Some ` fst ` set ?z) = length ?z"
    using wf distinct_card [of "map fst ?z"] by (simp add: card_image)
  finally show ?thesis by (simp add: run get_concurrent_requests_def)
qed

end
