(* ===== verification/Outbox.thy ===== *)
theory Outbox
  imports Prelude "HOL-Library.Product_Lexorder"
begin

text \<open>
  Outboxes: messages that one silo leaves in its database for another, drained shard by shard,
  \<open>src/src/sentry/hybridcloud/models/outbox.py\<close>, with the categories of
  \<open>hybridcloud/outbox/category.py\<close> and the scheduler of \<open>hybridcloud/tasks/deliver_from_outbox.py\<close>.
  Times are microseconds. The handlers of the signals, which rows the database picks for a query
  without an order, which locks are held and which messages arrive while a signal is handled are
  arguments. Transactions are atomic; flushes on commit are drains of their own. Not modelled:
  metrics, tracing, the context that switches flushing off.
\<close>

section \<open>Categories and scopes: \<open>category.py\<close>\<close>

datatype outbox_category =
    USER_UPDATE | WEBHOOK_PROXY | ORGANIZATION_UPDATE | ORGANIZATION_MEMBER_UPDATE | UNUSED_TWO
  | AUDIT_LOG_EVENT | USER_IP_EVENT | INTEGRATION_UPDATE | PROJECT_UPDATE | API_APPLICATION_UPDATE
  | SENTRY_APP_INSTALLATION_UPDATE | TEAM_UPDATE | ORGANIZATION_INTEGRATION_UPDATE | UNUSUED_THREE
  | SEND_SIGNAL | ORGANIZATION_MAPPING_CUSTOMER_ID_UPDATE | ORGAUTHTOKEN_UPDATE_USED
  | PROVISION_ORGANIZATION | POST_ORGANIZATION_PROVISION | UNUSED_ONE | DISABLE_AUTH_PROVIDER
  | RESET_IDP_FLAGS | MARK_INVALID_SSO | SUBSCRIPTION_UPDATE | AUTH_PROVIDER_UPDATE
  | AUTH_IDENTITY_UPDATE | ORGANIZATION_MEMBER_TEAM_UPDATE | ORGANIZATION_SLUG_RESERVATION_UPDATE
  | API_KEY_UPDATE | PARTNER_ACCOUNT_UPDATE | SENTRY_APP_UPDATE | UNUSED_FOUR | API_TOKEN_UPDATE
  | ORG_AUTH_TOKEN_UPDATE | ISSUE_COMMENT_UPDATE | EXTERNAL_ACTOR_UPDATE
  | RELOCATION_EXPORT_REQUEST | RELOCATION_EXPORT_REPLY

datatype outbox_scope =
    ORGANIZATION_SCOPE | USER_SCOPE | WEBHOOK_SCOPE | AUDIT_LOG_SCOPE | USER_IP_SCOPE
  | INTEGRATION_SCOPE | APP_SCOPE | TEAM_SCOPE | PROVISION_SCOPE | SUBSCRIPTION_SCOPE | RELOCATION_SCOPE

text \<open>\<open>_outbox_categories_for_scope\<close>, in the order in which the scopes register.\<close>

definition outbox_categories_for_scope :: "(outbox_scope, outbox_category list) dict" where
  "outbox_categories_for_scope =
     [(ORGANIZATION_SCOPE,
         [ORGANIZATION_MEMBER_UPDATE, MARK_INVALID_SSO, RESET_IDP_FLAGS, ORGANIZATION_UPDATE, PROJECT_UPDATE,
          ORGANIZATION_INTEGRATION_UPDATE, SEND_SIGNAL, ORGAUTHTOKEN_UPDATE_USED, POST_ORGANIZATION_PROVISION,
          DISABLE_AUTH_PROVIDER, ORGANIZATION_MAPPING_CUSTOMER_ID_UPDATE, TEAM_UPDATE, AUTH_PROVIDER_UPDATE,
          ORGANIZATION_MEMBER_TEAM_UPDATE, API_KEY_UPDATE, ORGANIZATION_SLUG_RESERVATION_UPDATE,
          ORG_AUTH_TOKEN_UPDATE, PARTNER_ACCOUNT_UPDATE, UNUSED_FOUR, ISSUE_COMMENT_UPDATE]),
      (USER_SCOPE,
         [USER_UPDATE, API_TOKEN_UPDATE, UNUSED_ONE, UNUSED_TWO, UNUSUED_THREE, AUTH_IDENTITY_UPDATE]),
      (WEBHOOK_SCOPE, [WEBHOOK_PROXY]),
      (AUDIT_LOG_SCOPE, [AUDIT_LOG_EVENT]),
      (USER_IP_SCOPE, [USER_IP_EVENT]),
      (INTEGRATION_SCOPE, [INTEGRATION_UPDATE, EXTERNAL_ACTOR_UPDATE]),
      (APP_SCOPE, [API_APPLICATION_UPDATE, SENTRY_APP_INSTALLATION_UPDATE, SENTRY_APP_UPDATE]),
      (TEAM_SCOPE, []),
      (PROVISION_SCOPE, [PROVISION_ORGANIZATION]),
      (SUBSCRIPTION_SCOPE, [SUBSCRIPTION_UPDATE]),
      (RELOCATION_SCOPE, [RELOCATION_EXPORT_REQUEST, RELOCATION_EXPORT_REPLY])]"

definition scope_has_category :: "outbox_scope \<Rightarrow> outbox_category \<Rightarrow> bool" where
  "scope_has_category s c = (case dict_get outbox_categories_for_scope s of None \<Rightarrow> False | Some cs \<Rightarrow> c \<in> set cs)"

definition get_scope :: "outbox_category \<Rightarrow> outbox_scope result" where
  "get_scope c = (case find (\<lambda>(_, cs). c \<in> set cs) outbox_categories_for_scope of
     None \<Rightarrow> Inl KeyError | Some (s, _) \<Rightarrow> Inr s)"

section \<open>Messages\<close>

text \<open>Payloads are opaque. The region name is there for messages from the control silo only.\<close>

record outbox =
  ob_id :: nat
  ob_region :: "string option"
  ob_scope :: outbox_scope
  ob_shard :: int
  ob_category :: outbox_category
  ob_object :: int
  ob_payload :: "string option"
  ob_from :: int
  ob_for :: int

type_synonym shard_key = "string option \<times> outbox_scope \<times> int"
type_synonym group_key = "shard_key \<times> outbox_category \<times> int"

definition shard_of :: "outbox \<Rightarrow> shard_key" where
  "shard_of m = (ob_region m, ob_scope m, ob_shard m)"

definition group_of :: "outbox \<Rightarrow> group_key" where
  "group_of m = (shard_of m, ob_category m, ob_object m)"

text \<open>
  What \<open>infer_identifiers\<close> asks of a model: its class, its id, and the attributes that \<open>hasattr\<close> finds.
  An attribute is \<open>None\<close> when the class has none, and may hold \<open>None\<close> when it has; an auth provider
  counts by its organization, and reading the organization of an auth provider that is \<open>None\<close> raises.
\<close>

datatype model_class = OrganizationModel | UserModel | ApiApplicationModel | IntegrationModel | OtherModel

record outbox_model =
  om_class :: model_class
  om_id :: "int option"
  om_organization_id :: "int option option"
  om_auth_provider :: "int option option"
  om_user_id :: "int option option"
  om_api_application_id :: "int option option"
  om_integration_id :: "int option option"

definition attribute :: "int option option \<Rightarrow> int option" where
  "attribute a = (case a of None \<Rightarrow> None | Some v \<Rightarrow> v)"

definition infer_shard :: "outbox_scope \<Rightarrow> outbox_model \<Rightarrow> int option result" where
  "infer_shard scope model =
     (case scope of
        ORGANIZATION_SCOPE \<Rightarrow>
          if om_class model = OrganizationModel then Inr (om_id model)
          else if om_organization_id model \<noteq> None then Inr (attribute (om_organization_id model))
          else (case om_auth_provider model of
              None \<Rightarrow> Inr None
            | Some None \<Rightarrow> Inl AttributeError
            | Some (Some organization) \<Rightarrow> Inr (Some organization))
      | USER_SCOPE \<Rightarrow> Inr (if om_class model = UserModel then om_id model else attribute (om_user_id model))
      | APP_SCOPE \<Rightarrow>
          Inr (if om_class model = ApiApplicationModel then om_id model else attribute (om_api_application_id model))
      | INTEGRATION_SCOPE \<Rightarrow>
          Inr (if om_class model = IntegrationModel then om_id model else attribute (om_integration_id model))
      | _ \<Rightarrow> Inr None)"

definition infer_identifiers ::
  "outbox_scope \<Rightarrow> outbox_model option \<Rightarrow> int option \<Rightarrow> int option \<Rightarrow> (int \<times> int) result" where
  "infer_identifiers scope model object_identifier shard_identifier =
     (if (model \<noteq> None) = (object_identifier \<noteq> None) then Inl AssertionError
      else
        let obj = (case model of Some m \<Rightarrow> om_id m | None \<Rightarrow> object_identifier)
        in bind_result
             (case (shard_identifier, model) of
                (Some s, _) \<Rightarrow> Inr (Some s) | (None, Some m) \<Rightarrow> infer_shard scope m | (None, None) \<Rightarrow> Inr None)
             (\<lambda>shard. case (shard, obj) of (Some s, Some i) \<Rightarrow> Inr (s, i) | _ \<Rightarrow> Inl AssertionError))"

text \<open>\<open>as_region_outbox\<close> is the one without a region.\<close>

definition as_outbox ::
  "outbox_category \<Rightarrow> string option \<Rightarrow> outbox_model option \<Rightarrow> string option \<Rightarrow> int option \<Rightarrow> int option \<Rightarrow>
   int \<Rightarrow> outbox result" where
  "as_outbox c region model payload shard_identifier object_identifier now =
     bind_result (get_scope c) (\<lambda>scope.
       bind_result (infer_identifiers scope model object_identifier shard_identifier) (\<lambda>(shard, obj).
         Inr \<lparr>ob_id = 0, ob_region = region, ob_scope = scope, ob_shard = shard, ob_category = c,
              ob_object = obj, ob_payload = payload, ob_from = now, ob_for = 0\<rparr>))"

definition as_control_outboxes ::
  "outbox_category \<Rightarrow> string list \<Rightarrow> outbox_model option \<Rightarrow> string option \<Rightarrow> int option \<Rightarrow> int option \<Rightarrow>
   int \<Rightarrow> outbox list result" where
  "as_control_outboxes c regions model payload shard_identifier object_identifier now =
     bind_result (get_scope c) (\<lambda>scope.
       bind_result (infer_identifiers scope model object_identifier shard_identifier) (\<lambda>_.
         traverse (\<lambda>r. as_outbox c (Some r) model payload shard_identifier object_identifier now) regions))"

section \<open>The table\<close>

text \<open>
  The rows in the order of their ids, the sequence of ids, and two records of what happened: the
  messages that were ever saved, and those that were sent, in order.
\<close>

record outbox_db =
  rows :: "outbox list"
  next_id :: nat
  saved :: "outbox list"
  sent :: "outbox list"

record outbox_env =
  disabled_organization_shards :: "int list"
  disabled_user_shards :: "int list"
  handler_fails :: "outbox \<Rightarrow> bool"
  pick_batch :: "outbox list \<Rightarrow> outbox list"
  arrivals :: "nat \<Rightarrow> outbox list"
  locked :: "nat \<Rightarrow> bool"

definition should_skip_shard :: "outbox_env \<Rightarrow> outbox \<Rightarrow> bool" where
  "should_skip_shard e m =
     (if ob_scope m = ORGANIZATION_SCOPE then ob_shard m \<in> set (disabled_organization_shards e)
      else if ob_scope m = USER_SCOPE then ob_shard m \<in> set (disabled_user_shards e)
      else False)"

definition insert_outbox :: "outbox \<Rightarrow> outbox_db \<Rightarrow> outbox_db" where
  "insert_outbox m d =
     (let m' = m\<lparr>ob_id := next_id d\<rparr>
      in d\<lparr>rows := rows d @ [m'], next_id := Suc (next_id d), saved := saved d @ [m']\<rparr>)"

definition save_outbox :: "outbox \<Rightarrow> outbox_db \<Rightarrow> outbox_db result" where
  "save_outbox m d =
     (if scope_has_category (ob_scope m) (ob_category m) then Inr (insert_outbox m d)
      else Inl (OtherError ''InvalidOutboxError''))"

definition arrive :: "outbox list \<Rightarrow> outbox_db \<Rightarrow> outbox_db" where
  "arrive ms d = foldl (\<lambda>d m. case save_outbox m d of Inl _ \<Rightarrow> d | Inr d' \<Rightarrow> d') d ms"

definition selected_messages_in_shard :: "shard_key \<Rightarrow> nat option \<Rightarrow> outbox_db \<Rightarrow> outbox list" where
  "selected_messages_in_shard k latest d =
     filter (\<lambda>m. shard_of m = k \<and> (case latest of None \<Rightarrow> True | Some i \<Rightarrow> ob_id m \<le> i)) (rows d)"

definition select_coalesced_messages :: "group_key \<Rightarrow> outbox list \<Rightarrow> outbox list" where
  "select_coalesced_messages g ms = filter (\<lambda>m. group_of m = g) ms"

definition first_of :: "'a list \<Rightarrow> 'a option" where
  "first_of xs = (case xs of [] \<Rightarrow> None | x # _ \<Rightarrow> Some x)"

definition last_of :: "'a list \<Rightarrow> 'a option" where
  "last_of xs = (case xs of [] \<Rightarrow> None | _ \<Rightarrow> Some (last xs))"

section \<open>Draining\<close>

text \<open>\<open>process_shard\<close>: the first row, unless another flush holds it and this one does not wait.\<close>

definition process_shard :: "outbox_env \<Rightarrow> shard_key \<Rightarrow> nat option \<Rightarrow> nat \<Rightarrow> outbox_db \<Rightarrow> outbox option" where
  "process_shard e k latest n d =
     (if latest = None \<and> locked e n then None else first_of (selected_messages_in_shard k latest d))"

text \<open>
  The loop that deletes what a coalesced message supersedes: the database picks a batch of the group,
  and the ids below the one of the coalesced message go.
\<close>

function delete_older :: "outbox_env \<Rightarrow> outbox \<Rightarrow> outbox list \<Rightarrow> outbox list" where
  "delete_older e c ms =
     (let g = select_coalesced_messages (group_of c) ms;
          batch = pick_batch e g;
          del = filter (\<lambda>m. m \<in> set batch \<and> ob_id m < ob_id c) g
      in if del = [] then ms else delete_older e c (filter (\<lambda>m. m \<notin> set del) ms))"
  by pat_completeness auto
termination
  by (relation "measure (\<lambda>(e, c, ms). length ms)")
    (auto simp: select_coalesced_messages_def filter_empty_conv intro!: length_filter_less)

declare delete_older.simps [simp del]

text \<open>
  \<open>process\<close> and \<open>process_coalesced\<close> for the row of a shard; \<open>n\<close> counts the rounds of the drain. A
  handler that fails rolls the round back; what arrived meanwhile stays.
\<close>

definition process_outbox :: "outbox_env \<Rightarrow> outbox \<Rightarrow> nat \<Rightarrow> outbox_db \<Rightarrow> bool result \<times> outbox_db" where
  "process_outbox e row n d =
     (case last_of (select_coalesced_messages (group_of row) (rows d)) of
        None \<Rightarrow> (Inr False, d)
      | Some c \<Rightarrow>
          if should_skip_shard e row then (Inr False, d\<lparr>rows := delete_older e c (rows d)\<rparr>)
          else if handler_fails e c then (Inl (OtherError ''OutboxFlushError''), arrive (arrivals e n) d)
          else
            (let d1 = arrive (arrivals e n) (d\<lparr>sent := sent d @ [c]\<rparr>);
                 ms = delete_older e c (rows d1)
             in (Inr True, d1\<lparr>rows := filter (\<lambda>m. ob_id m \<noteq> ob_id c) ms\<rparr>)))"

partial_function (option) drain_loop ::
  "outbox_env \<Rightarrow> shard_key \<Rightarrow> nat option \<Rightarrow> nat \<Rightarrow> outbox_db \<Rightarrow> (unit result \<times> outbox_db) option" where
  "drain_loop e k latest n d =
     (case process_shard e k latest n d of
        None \<Rightarrow> Some (Inr (), d)
      | Some row \<Rightarrow>
          (case process_outbox e row n d of
             (Inl err, d') \<Rightarrow> Some (Inl err, d')
           | (Inr processed, d') \<Rightarrow>
               if processed then drain_loop e k latest (Suc n) d' else Some (Inr (), d')))"

definition drain_shard :: "outbox_env \<Rightarrow> bool \<Rightarrow> shard_key \<Rightarrow> outbox_db \<Rightarrow> (unit result \<times> outbox_db) option" where
  "drain_shard e flush_all k d =
     (if flush_all then drain_loop e k None 0 d
      else case last_of (selected_messages_in_shard k None d) of
        None \<Rightarrow> Some (Inr (), d)
      | Some r \<Rightarrow> drain_loop e k (Some (ob_id r)) 0 d)"

section \<open>Scheduling: \<open>deliver_from_outbox.py\<close>\<close>

definition last_delay :: "outbox \<Rightarrow> int" where
  "last_delay m = max (ob_for m - ob_from m) 1000000"

definition next_schedule :: "outbox \<Rightarrow> int \<Rightarrow> int" where
  "next_schedule m now = now + min (last_delay m * 2) (3600 * 1000000)"

definition find_scheduled_shards :: "int \<Rightarrow> nat \<Rightarrow> nat option \<Rightarrow> outbox_db \<Rightarrow> shard_key list" where
  "find_scheduled_shards now low hi d =
     (let due = filter (\<lambda>m. ob_for m \<le> now \<and> low \<le> ob_id m
                  \<and> (case hi of None \<Rightarrow> True | Some h \<Rightarrow> ob_id m < h)) (rows d);
          key = (\<lambda>k. let ms = filter (\<lambda>m. shard_of m = k) due
                     in (Min (set (map ob_for ms)), Max (set (map ob_id ms))))
      in sort_key key (remdups (map shard_of due)))"

definition prepare_next_from_shard :: "int \<Rightarrow> shard_key \<Rightarrow> outbox_db \<Rightarrow> (outbox option) \<times> outbox_db" where
  "prepare_next_from_shard now k d =
     (case first_of (selected_messages_in_shard k None d) of
        None \<Rightarrow> (None, d)
      | Some m \<Rightarrow>
          (Some m, d\<lparr>rows := map (\<lambda>x. if shard_of x = k
             then x\<lparr>ob_for := next_schedule m now, ob_from := now\<rparr> else x) (rows d)\<rparr>))"

text \<open>A shard whose first row is locked is left to the flush that holds it.\<close>

fun process_shards ::
  "outbox_env \<Rightarrow> (shard_key \<Rightarrow> bool) \<Rightarrow> int \<Rightarrow> shard_key list \<Rightarrow> outbox_db \<Rightarrow> (nat \<times> outbox_db) option" where
  "process_shards e busy now [] d = Some (0, d)"
| "process_shards e busy now (k # ks) d =
     (if busy k then process_shards e busy now ks d
      else case prepare_next_from_shard now k d of
        (None, d1) \<Rightarrow> process_shards e busy now ks d1
      | (Some _, d1) \<Rightarrow>
          (case drain_shard e True k d1 of
             None \<Rightarrow> None
           | Some (_, d2) \<Rightarrow> map_option (\<lambda>(n, d3). (Suc n, d3)) (process_shards e busy now ks d2)))"

definition process_outbox_batch ::
  "outbox_env \<Rightarrow> (shard_key \<Rightarrow> bool) \<Rightarrow> int \<Rightarrow> nat \<Rightarrow> nat \<Rightarrow> outbox_db \<Rightarrow> (nat \<times> outbox_db) option" where
  "process_outbox_batch e busy now low hi d =
     process_shards e busy now (find_scheduled_shards now low (Some hi) d) d"

definition CONCURRENCY :: nat where "CONCURRENCY = 5"

definition schedule_batch :: "nat option \<Rightarrow> outbox_db \<Rightarrow> (nat \<times> nat) list" where
  \<comment> \<open>the tasks of one model: the ranges of ids they drain\<close>
  "schedule_batch concurrency d =
     (let conc = (case concurrency of None \<Rightarrow> CONCURRENCY | Some n \<Rightarrow> if n = 0 then CONCURRENCY else n);
          ids = map ob_id (rows d)
      in case ids of
           [] \<Rightarrow> []
         | _ \<Rightarrow>
           let lo = Min (set ids); hi = Max (set ids);
               batch_size = (hi - lo + 1 + conc - 1) div conc
           in map (\<lambda>i. (lo + i * batch_size, lo + (i + 1) * batch_size)) [0..<conc])"

fun run_tasks :: "outbox_env \<Rightarrow> int \<Rightarrow> (nat \<times> nat) list \<Rightarrow> outbox_db \<Rightarrow> outbox_db option" where
  "run_tasks e now [] d = Some d"
| "run_tasks e now ((lo, hi) # ts) d =
     (case process_outbox_batch e (\<lambda>_. False) now lo hi d of
        None \<Rightarrow> None | Some (_, d') \<Rightarrow> run_tasks e now ts d')"

definition get_shard_depths_descending :: "nat option \<Rightarrow> outbox_db \<Rightarrow> (shard_key \<times> nat) list result" where
  "get_shard_depths_descending limit d =
     (if limit = Some 0 then Inl AssertionError
      else
        let depths = map (\<lambda>k. (k, length (filter (\<lambda>m. shard_of m = k) (rows d)))) (remdups (map shard_of (rows d)));
            ranked = sort_key (\<lambda>(_, n). - int n) depths
        in Inr (case limit of None \<Rightarrow> ranked | Some n \<Rightarrow> take n ranked))"

section \<open>What a round does to the rows\<close>

lemma delete_older_sub: "\<exists>P. delete_older e c ms = filter P ms"
proof (induction e c ms rule: delete_older.induct)
  case (1 e c ms)
  define g where "g = select_coalesced_messages (group_of c) ms"
  define del where "del = filter (\<lambda>m. m \<in> set (pick_batch e g) \<and> ob_id m < ob_id c) g"
  note IH = "1.IH" [OF g_def refl del_def]
  show ?case
  proof (cases "del = []")
    case True
    then have "delete_older e c ms = ms" by (subst delete_older.simps) (simp add: Let_def g_def del_def)
    then have "delete_older e c ms = filter (\<lambda>_. True) ms" by simp
    then show ?thesis by blast
  next
    case False
    from IH [OF False] obtain P where "delete_older e c (filter (\<lambda>m. m \<notin> set del) ms) = filter P (filter (\<lambda>m. m \<notin> set del) ms)" ..
    moreover have "delete_older e c ms = delete_older e c (filter (\<lambda>m. m \<notin> set del) ms)"
      using False by (subst delete_older.simps) (simp only: Let_def g_def [symmetric] del_def [symmetric] if_False)
    ultimately have "delete_older e c ms = filter (\<lambda>m. m \<notin> set del \<and> P m) ms" by (simp add: conj_commute)
    then show ?thesis by blast
  qed
qed

lemma delete_older_only:
  "m \<in> set ms \<Longrightarrow> m \<notin> set (delete_older e c ms) \<Longrightarrow> group_of m = group_of c \<and> ob_id m < ob_id c"
proof (induction e c ms rule: delete_older.induct)
  case (1 e c ms)
  define g where "g = select_coalesced_messages (group_of c) ms"
  define del where "del = filter (\<lambda>m. m \<in> set (pick_batch e g) \<and> ob_id m < ob_id c) g"
  note IH = "1.IH" [OF g_def refl del_def]
  have step: "delete_older e c ms = (if del = [] then ms else delete_older e c (filter (\<lambda>m. m \<notin> set del) ms))"
    by (subst delete_older.simps) (simp only: Let_def g_def [symmetric] del_def [symmetric])
  show ?case
  proof (cases "m \<in> set del")
    case True
    then show ?thesis by (simp add: del_def g_def select_coalesced_messages_def)
  next
    case False
    with "1.prems" step IH show ?thesis by (auto split: if_splits)
  qed
qed

lemma delete_older_keeps: "m \<in> set ms \<Longrightarrow> \<not> (group_of m = group_of c \<and> ob_id m < ob_id c) \<Longrightarrow> m \<in> set (delete_older e c ms)"
  using delete_older_only by blast

text \<open>
  What the database promises about an unordered query with a limit of 100: rows of the query, all of
  them when there are no more than 100.
\<close>

definition picks_batch :: "(outbox list \<Rightarrow> outbox list) \<Rightarrow> bool" where
  "picks_batch f = (\<forall>g. distinct g \<longrightarrow> distinct (f g) \<and> set (f g) \<subseteq> set g \<and> length (f g) = min 100 (length g))"

lemma delete_older_all:
  assumes "picks_batch (pick_batch e)"
  shows "distinct ms \<Longrightarrow>
    length (filter (\<lambda>m. group_of m = group_of c \<and> \<not> ob_id m < ob_id c) ms) < 100 \<Longrightarrow>
    m \<in> set (delete_older e c ms) \<Longrightarrow> group_of m = group_of c \<Longrightarrow> \<not> ob_id m < ob_id c"
proof (induction "length ms" arbitrary: ms rule: less_induct)
  case less
  define g where "g = select_coalesced_messages (group_of c) ms"
  define del where "del = filter (\<lambda>m. m \<in> set (pick_batch e g) \<and> ob_id m < ob_id c) g"
  have step: "delete_older e c ms = (if del = [] then ms else delete_older e c (filter (\<lambda>m. m \<notin> set del) ms))"
    by (subst delete_older.simps) (simp only: Let_def g_def [symmetric] del_def [symmetric])
  have g: "distinct g" "set g = {m \<in> set ms. group_of m = group_of c}"
    using less.prems(1) by (auto simp: g_def select_coalesced_messages_def)
  from assms g(1) have batch: "distinct (pick_batch e g)" "set (pick_batch e g) \<subseteq> set g"
    "length (pick_batch e g) = min 100 (length g)" by (simp_all add: picks_batch_def)
  show ?case
  proof (cases "del = []")
    case True
    let ?new = "filter (\<lambda>m. group_of m = group_of c \<and> \<not> ob_id m < ob_id c) ms"
    have sub: "set (pick_batch e g) \<subseteq> set ?new"
      using True batch(2) g(2) by (auto simp: del_def filter_empty_conv)
    have "card (set (pick_batch e g)) \<le> card (set ?new)" by (rule card_mono [OF finite_set sub])
    then have "length (pick_batch e g) \<le> length ?new"
      by (simp only: distinct_card [OF batch(1)] distinct_card [OF distinct_filter [OF less.prems(1)]])
    then have "length (pick_batch e g) = length g" using less.prems(2) batch(3) by simp
    then have "card (set (pick_batch e g)) = card (set g)"
      by (simp only: distinct_card [OF batch(1)] distinct_card [OF g(1)])
    with batch(2) have "set (pick_batch e g) = set g" by (intro card_subset_eq) simp_all
    moreover have "m \<in> set g" using less.prems(3,4) True step g(2) by simp
    ultimately show ?thesis using sub by auto
  next
    case False
    then obtain x where "x \<in> set ms" "x \<in> set del" by (auto simp: del_def g_def select_coalesced_messages_def filter_empty_conv)
    then have "length (filter (\<lambda>m. m \<notin> set del) ms) < length ms" by (intro length_filter_less) auto
    moreover have "filter (\<lambda>m. group_of m = group_of c \<and> \<not> ob_id m < ob_id c) (filter (\<lambda>m. m \<notin> set del) ms) =
        filter (\<lambda>m. group_of m = group_of c \<and> \<not> ob_id m < ob_id c) ms"
      by (auto simp: del_def intro!: filter_cong)
    ultimately show ?thesis
      using less.hyps [of "filter (\<lambda>m. m \<notin> set del) ms"] less.prems step False by simp
  qed
qed

text \<open>The invariant: ids are in order, and every message is pending or was sent, it or a later one of its group.\<close>

definition covers :: "outbox \<Rightarrow> outbox \<Rightarrow> bool" where
  "covers x m = (group_of x = group_of m \<and> ob_id m \<le> ob_id x)"

definition outbox_ok :: "outbox_db \<Rightarrow> bool" where
  "outbox_ok d =
     (sorted_wrt (<) (map ob_id (rows d)) \<and> (\<forall>m \<in> set (rows d). ob_id m < next_id d) \<and>
      (\<forall>m \<in> set (saved d). \<exists>x \<in> set (rows d) \<union> set (sent d). covers x m))"

lemma outbox_ok_distinct: "outbox_ok d \<Longrightarrow> distinct (rows d) \<and> distinct (map ob_id (rows d))"
proof -
  assume "outbox_ok d"
  then have "distinct (map ob_id (rows d))" by (simp add: outbox_ok_def strict_sorted_iff)
  then show ?thesis by (simp add: distinct_map)
qed

lemma insert_ok: "outbox_ok d \<Longrightarrow> outbox_ok (insert_outbox m d)"
proof -
  assume d: "outbox_ok d"
  let ?m = "m\<lparr>ob_id := next_id d\<rparr>" and ?d = "insert_outbox m d"
  have "sorted_wrt (<) (map ob_id (rows ?d))" "\<forall>x \<in> set (rows ?d). ob_id x < next_id ?d"
    using d by (auto simp: outbox_ok_def insert_outbox_def Let_def sorted_wrt_append less_Suc_eq)
  moreover have "\<forall>x \<in> set (saved ?d). \<exists>y \<in> set (rows ?d) \<union> set (sent ?d). covers y x"
    using d by (auto simp: outbox_ok_def insert_outbox_def Let_def covers_def)
  ultimately show ?thesis by (simp add: outbox_ok_def)
qed

lemma save_ok: "outbox_ok d \<Longrightarrow> save_outbox m d = Inr d' \<Longrightarrow> outbox_ok d'"
  by (auto simp: save_outbox_def insert_ok split: if_splits)

lemma arrive_ok: "outbox_ok d \<Longrightarrow> outbox_ok (arrive ms d)"
  unfolding arrive_def by (induction ms arbitrary: d) (auto simp: save_ok split: sum.splits)

lemma sorted_wrt_filter_id: "sorted_wrt (<) (map ob_id ms) \<Longrightarrow> sorted_wrt (<) (map ob_id (filter P ms))"
  by (simp add: sorted_wrt_map sorted_wrt_filter)

text \<open>Rows may go once a later message of their group is among the rows that stay or was sent.\<close>

lemma remove_ok:
  assumes "outbox_ok d" "rows d' = filter P (rows d)" "next_id d' = next_id d" "saved d' = saved d" "set (sent d) \<subseteq> set (sent d')"
    and "\<And>m. m \<in> set (rows d) \<Longrightarrow> \<not> P m \<Longrightarrow> \<exists>x \<in> set (rows d') \<union> set (sent d'). covers x m"
  shows "outbox_ok d'"
proof -
  have "\<exists>y \<in> set (rows d') \<union> set (sent d'). covers y m" if m: "m \<in> set (saved d)" for m
  proof -
    obtain x where x: "x \<in> set (rows d) \<union> set (sent d)" "covers x m" using assms(1) m by (auto simp: outbox_ok_def)
    show ?thesis
    proof (cases "x \<in> set (rows d) \<and> \<not> P x")
      case True
      with assms(6) obtain y where "y \<in> set (rows d') \<union> set (sent d')" "covers y x" by blast
      with x(2) show ?thesis by (auto simp: covers_def)
    next
      case False
      with x assms(2,5) show ?thesis by auto
    qed
  qed
  with assms(1-4) show ?thesis by (simp add: outbox_ok_def sorted_wrt_filter_id)
qed

lemma arrive_Cons: "arrive (m # ms) d = arrive ms (if scope_has_category (ob_scope m) (ob_category m) then insert_outbox m d else d)"
  by (simp add: arrive_def save_outbox_def)

lemma arrive_Nil [simp]: "arrive [] d = d"
  by (simp add: arrive_def)

lemma arrive_rows: "\<exists>new. rows (arrive ms d) = rows d @ new \<and> length new \<le> length ms"
proof (induction ms arbitrary: d)
  case (Cons m ms)
  let ?d = "if scope_has_category (ob_scope m) (ob_category m) then insert_outbox m d else d"
  from Cons.IH [of ?d] obtain new where "rows (arrive ms ?d) = rows ?d @ new" "length new \<le> length ms" by blast
  then have "rows (arrive (m # ms) d) = rows d @
      (if scope_has_category (ob_scope m) (ob_category m) then [m\<lparr>ob_id := next_id d\<rparr>] else []) @ new"
    "length ((if scope_has_category (ob_scope m) (ob_category m) then [m\<lparr>ob_id := next_id d\<rparr>] else []) @ new)
      \<le> length (m # ms)"
    by (simp_all add: arrive_Cons insert_outbox_def Let_def)
  then show ?case by blast
qed simp

lemma arrive_sent [simp]: "sent (arrive ms d) = sent d"
  by (induction ms arbitrary: d) (simp_all add: arrive_Cons insert_outbox_def Let_def)

lemma last_of_in: "last_of xs = Some x \<Longrightarrow> x \<in> set xs"
  by (auto simp: last_of_def split: list.splits if_splits)

lemma first_of_in: "first_of xs = Some x \<Longrightarrow> x \<in> set xs"
  by (auto simp: first_of_def split: list.splits)

lemma insert_id: "next_id d \<le> next_id (insert_outbox m d)"
  by (simp add: insert_outbox_def Let_def)

lemma arrive_next: "next_id d \<le> next_id (arrive ms d)"
proof (induction ms arbitrary: d)
  case (Cons m ms)
  then show ?case using insert_id order_trans by (fastforce simp: arrive_Cons)
qed simp

lemma arrive_new_ids: "outbox_ok d \<Longrightarrow> m \<in> set (rows (arrive ms d)) \<Longrightarrow> m \<notin> set (rows d) \<Longrightarrow> next_id d \<le> ob_id m"
proof (induction ms arbitrary: d)
  case (Cons x ms)
  let ?d = "if scope_has_category (ob_scope x) (ob_category x) then insert_outbox x d else d"
  have ok: "outbox_ok ?d" using Cons.prems(1) by (simp add: insert_ok)
  show ?case
  proof (cases "m \<in> set (rows ?d)")
    case True
    with Cons.prems(3) show ?thesis by (auto simp: insert_outbox_def Let_def split: if_splits)
  next
    case False
    with Cons.IH [OF ok] Cons.prems(2) have "next_id ?d \<le> ob_id m" by (simp add: arrive_Cons)
    then show ?thesis using insert_id [of d x] by (auto split: if_splits)
  qed
qed simp

lemma process_cases:
  assumes "process_outbox e row n d = (r, d')"
  obtains (Nothing) "select_coalesced_messages (group_of row) (rows d) = []" "r = Inr False" "d' = d"
  | (Skip) c where "last_of (select_coalesced_messages (group_of row) (rows d)) = Some c" "should_skip_shard e row"
      "r = Inr False" "d' = d\<lparr>rows := delete_older e c (rows d)\<rparr>"
  | (Fail) c err where "last_of (select_coalesced_messages (group_of row) (rows d)) = Some c" "\<not> should_skip_shard e row"
      "handler_fails e c" "r = Inl err" "d' = arrive (arrivals e n) d"
  | (Send) c where "last_of (select_coalesced_messages (group_of row) (rows d)) = Some c" "\<not> should_skip_shard e row"
      "\<not> handler_fails e c" "r = Inr True"
      "d' = (arrive (arrivals e n) (d\<lparr>sent := sent d @ [c]\<rparr>))\<lparr>rows := filter (\<lambda>m. ob_id m \<noteq> ob_id c)
        (delete_older e c (rows (arrive (arrivals e n) (d\<lparr>sent := sent d @ [c]\<rparr>))))\<rparr>"
proof (cases "last_of (select_coalesced_messages (group_of row) (rows d))")
  case None
  then have "select_coalesced_messages (group_of row) (rows d) = []" by (simp add: last_of_def split: list.splits)
  with assms None show thesis by (intro Nothing) (simp_all add: process_outbox_def)
next
  case (Some c)
  with assms show thesis
    by (cases "should_skip_shard e row"; cases "handler_fails e c")
      (auto simp: process_outbox_def Let_def intro: Skip Fail Send)
qed

lemma coalesced_in:
  "last_of (select_coalesced_messages g ms) = Some c \<Longrightarrow> c \<in> set ms \<and> group_of c = g"
  by (drule last_of_in) (simp add: select_coalesced_messages_def)

lemma sent_ok: "outbox_ok d \<Longrightarrow> outbox_ok (d\<lparr>sent := sent d @ xs\<rparr>)"
  by (auto simp: outbox_ok_def)

lemma process_outbox_ok:
  assumes d: "outbox_ok d" and p: "process_outbox e row n d = (r, d')"
  shows "outbox_ok d'"
  using p
proof (cases rule: process_cases)
  case Nothing
  with d show ?thesis by simp
next
  case (Skip c)
  obtain P where P: "delete_older e c (rows d) = filter P (rows d)" using delete_older_sub by blast
  have c: "c \<in> set (rows d)" using coalesced_in [OF Skip(1)] by blast
  then have "c \<in> set (delete_older e c (rows d))" by (rule delete_older_keeps) simp
  then show ?thesis
    unfolding Skip(4)
    by (intro remove_ok [OF d, where P = P])
      (use P delete_older_only [of _ "rows d" e c] in \<open>auto simp: covers_def intro!: bexI [of _ c] order_less_imp_le\<close>)
next
  case Fail
  with d show ?thesis by (simp add: arrive_ok)
next
  case (Send c)
  let ?d = "arrive (arrivals e n) (d\<lparr>sent := sent d @ [c]\<rparr>)"
  obtain P where P: "delete_older e c (rows ?d) = filter P (rows ?d)" using delete_older_sub by blast
  have ok: "outbox_ok ?d" by (rule arrive_ok [OF sent_ok [OF d]])
  have c: "c \<in> set (rows ?d)"
    using coalesced_in [OF Send(1)] arrive_rows [of "arrivals e n" "d\<lparr>sent := sent d @ [c]\<rparr>"] by auto
  have "covers c m" if "m \<in> set (rows ?d)" "\<not> (P m \<and> ob_id m \<noteq> ob_id c)" for m
  proof (cases "P m")
    case True
    with that c outbox_ok_distinct [OF ok] have "m = c" by (auto simp: distinct_map inj_on_def)
    then show ?thesis by (simp add: covers_def)
  next
    case False
    with that(1) P have "m \<notin> set (delete_older e c (rows ?d))" by simp
    with delete_older_only [OF that(1)] show ?thesis by (force simp: covers_def)
  qed
  then show ?thesis
    unfolding Send(5) by (intro remove_ok [OF ok, where P = "\<lambda>m. P m \<and> ob_id m \<noteq> ob_id c"]) (auto simp: P)
qed

lemma drain_loop_ok:
  assumes "drain_loop e k latest n d = Some (r, d')" "outbox_ok d"
  shows "outbox_ok d'"
proof -
  have "outbox_ok d \<longrightarrow> outbox_ok (snd (r, d'))"
  proof (rule drain_loop.raw_induct [where P = "\<lambda>e k latest n d x. outbox_ok d \<longrightarrow> outbox_ok (snd x)", OF _ assms(1)])
    fix loop e k latest n d x
    assume IH: "\<And>e k latest n d x. loop e k latest n d = Some x \<Longrightarrow> outbox_ok d \<longrightarrow> outbox_ok (snd x)"
      and run: "(case process_shard e k latest n d of
          None \<Rightarrow> Some (Inr (), d)
        | Some row \<Rightarrow>
            (case process_outbox e row n d of
               (Inl err, d') \<Rightarrow> Some (Inl err, d')
             | (Inr processed, d') \<Rightarrow> if processed then loop e k latest (Suc n) d' else Some (Inr (), d'))) = Some x"
    show "outbox_ok d \<longrightarrow> outbox_ok (snd x)"
    proof (cases "process_shard e k latest n d")
      case None
      with run show ?thesis by auto
    next
      case (Some row)
      obtain r d1 where p: "process_outbox e row n d = (r, d1)" by fastforce
      with run Some have "loop e k latest (Suc n) d1 = Some x \<or> snd x = d1"
        by (auto split: sum.splits if_splits)
      with IH process_outbox_ok [OF _ p] show ?thesis by blast
    qed
  qed
  with assms(2) show ?thesis by simp
qed

lemma drain_shard_ok: "drain_shard e f k d = Some (r, d') \<Longrightarrow> outbox_ok d \<Longrightarrow> outbox_ok d'"
  by (auto simp: drain_shard_def drain_loop_ok split: if_splits option.splits)

text \<open>Rescheduling keeps ids and groups.\<close>

lemma prepare_ok:
  assumes "outbox_ok d" "prepare_next_from_shard now k d = (m, d')"
  shows "outbox_ok d'"
proof (cases "first_of (selected_messages_in_shard k None d)")
  case None
  with assms show ?thesis by (simp add: prepare_next_from_shard_def)
next
  case (Some x)
  define f where "f = (\<lambda>y :: outbox. if shard_of y = k then y\<lparr>ob_for := next_schedule x now, ob_from := now\<rparr> else y)"
  from Some assms(2) have d': "d' = d\<lparr>rows := map f (rows d)\<rparr>" by (simp add: prepare_next_from_shard_def f_def)
  have f: "ob_id (f y) = ob_id y" "group_of (f y) = group_of y" for y
    by (simp_all add: f_def group_of_def shard_of_def)
  have "map ob_id (map f (rows d)) = map ob_id (rows d)" by (simp add: f)
  then have "sorted_wrt (<) (map ob_id (map f (rows d)))" using assms(1) by (simp only: outbox_ok_def)
  moreover have "\<exists>y \<in> f ` set (rows d) \<union> set (sent d). covers y m" if "m \<in> set (saved d)" for m
  proof -
    have "\<exists>y \<in> set (rows d) \<union> set (sent d). covers y m" using assms(1) that by (auto simp: outbox_ok_def)
    then obtain y where y: "y \<in> set (rows d) \<union> set (sent d)" "covers y m" by blast
    show ?thesis
    proof (cases "y \<in> set (rows d)")
      case True
      then have "f y \<in> f ` set (rows d)" by blast
      moreover have "covers (f y) m" using y(2) by (simp add: covers_def f)
      ultimately show ?thesis by blast
    next
      case False
      with y show ?thesis by blast
    qed
  qed
  moreover have "\<forall>m \<in> set (map f (rows d)). ob_id m < next_id d" using assms(1) by (auto simp: outbox_ok_def f)
  ultimately show ?thesis by (simp add: outbox_ok_def d')
qed

lemma process_shards_ok: "process_shards e busy now ks d = Some (n, d') \<Longrightarrow> outbox_ok d \<Longrightarrow> outbox_ok d'"
proof (induction ks arbitrary: d n d')
  case (Cons k ks)
  obtain m d1 where p: "prepare_next_from_shard now k d = (m, d1)" by fastforce
  note ok = prepare_ok [OF Cons.prems(2) p]
  show ?case
    using Cons ok p by (auto split: if_splits option.splits dest: drain_shard_ok)
qed auto

section \<open>Runs\<close>

datatype outbox_event =
    Save outbox
  | Flush outbox_env shard_key
  | DrainTask outbox_env "shard_key \<Rightarrow> bool" int nat nat

fun outbox_step :: "outbox_db \<Rightarrow> outbox_event \<Rightarrow> outbox_db" where
  \<comment> \<open>a drain that never returns is no step\<close>
  "outbox_step d (Save m) = (case save_outbox m d of Inl _ \<Rightarrow> d | Inr d' \<Rightarrow> d')"
| "outbox_step d (Flush e k) = (case drain_shard e False k d of None \<Rightarrow> d | Some (_, d') \<Rightarrow> d')"
| "outbox_step d (DrainTask e busy now lo hi) =
     (case process_outbox_batch e busy now lo hi d of None \<Rightarrow> d | Some (_, d') \<Rightarrow> d')"

definition outbox0 :: outbox_db where
  "outbox0 = \<lparr>rows = [], next_id = 1, saved = [], sent = []\<rparr>"

lemma outbox_ok_0: "outbox_ok outbox0"
  by (simp add: outbox_ok_def outbox0_def)

lemma outbox_step_ok: "outbox_ok d \<Longrightarrow> outbox_ok (outbox_step d ev)"
  by (cases ev) (auto simp: save_ok drain_shard_ok process_outbox_batch_def process_shards_ok
      split: sum.splits option.splits)

interpretation outbox_run: step_machine outbox_step outbox_ok
  by unfold_locales (rule outbox_step_ok)

section \<open>What a drain achieves\<close>

definition skips :: "outbox_env \<Rightarrow> shard_key \<Rightarrow> bool" where
  "skips e k = (case k of (_, scope, i) \<Rightarrow>
     if scope = ORGANIZATION_SCOPE then i \<in> set (disabled_organization_shards e)
     else if scope = USER_SCOPE then i \<in> set (disabled_user_shards e) else False)"

lemma skip_of_shard: "should_skip_shard e m = skips e (shard_of m)"
  by (simp add: should_skip_shard_def skips_def shard_of_def)

lemma group_shard: "group_of m = group_of m' \<Longrightarrow> shard_of m = shard_of m'"
  by (simp add: group_of_def)

text \<open>
  Few enough messages arrive while a signal is handled for the loop that deletes to see the older ones,
  and the messages that a drain is after are bounded: by an id for a local flush, by silence otherwise.
\<close>

definition calm :: "outbox_env \<Rightarrow> bool" where
  "calm e = (picks_batch (pick_batch e) \<and> (\<forall>n. length (arrivals e n) < 99))"

definition bounded :: "outbox_env \<Rightarrow> nat option \<Rightarrow> outbox_db \<Rightarrow> bool" where
  "bounded e latest d =
     (case latest of None \<Rightarrow> (\<forall>n. arrivals e n = [] \<and> \<not> locked e n) | Some i \<Rightarrow> i < next_id d)"

text \<open>A round that sends: the group of the row is gone, other rows stay, new ones have new ids.\<close>

lemma sorted_last: "sorted_wrt (<) (map f xs) \<Longrightarrow> x \<in> set xs \<Longrightarrow> (f x :: nat) \<le> f (last xs)"
  by (induction xs rule: rev_induct) (auto simp: sorted_wrt_append)

lemma last_max:
  assumes "outbox_ok d" "last_of (select_coalesced_messages g (rows d)) = Some c" "m \<in> set (rows d)" "group_of m = g"
  shows "ob_id m \<le> ob_id c"
proof -
  let ?ms = "select_coalesced_messages g (rows d)"
  have s: "sorted_wrt (<) (map ob_id ?ms)"
    using assms(1) by (simp add: outbox_ok_def select_coalesced_messages_def sorted_wrt_filter_id)
  have m: "m \<in> set ?ms" using assms(3,4) by (simp add: select_coalesced_messages_def)
  then have c: "?ms \<noteq> []" "c = last ?ms" using assms(2) by (auto simp: last_of_def split: list.splits)
  show ?thesis using sorted_last [OF s m] c(2) by simp
qed

lemma send_round:
  assumes d: "outbox_ok d" and calm: "calm e" and row: "row \<in> set (rows d)"
    and p: "process_outbox e row n d = (Inr True, d')"
  shows "\<forall>m \<in> set (rows d'). m \<in> set (rows d) \<longrightarrow> group_of m \<noteq> group_of row"
    "\<forall>m \<in> set (rows d). group_of m \<noteq> group_of row \<longrightarrow> m \<in> set (rows d')"
    "\<forall>m \<in> set (rows d'). m \<notin> set (rows d) \<longrightarrow> next_id d \<le> ob_id m"
    "next_id d \<le> next_id d'" "arrivals e n = [] \<longrightarrow> set (rows d') \<subseteq> set (rows d)"
proof -
  from p obtain c where c: "last_of (select_coalesced_messages (group_of row) (rows d)) = Some c"
    and d': "d' = (arrive (arrivals e n) (d\<lparr>sent := sent d @ [c]\<rparr>))\<lparr>rows := filter (\<lambda>m. ob_id m \<noteq> ob_id c)
        (delete_older e c (rows (arrive (arrivals e n) (d\<lparr>sent := sent d @ [c]\<rparr>))))\<rparr>"
    by (cases rule: process_cases) auto
  let ?s = "d\<lparr>sent := sent d @ [c]\<rparr>"
  let ?d = "arrive (arrivals e n) ?s"
  have s: "outbox_ok ?s" by (rule sent_ok [OF d])
  have ok: "outbox_ok ?d" by (rule arrive_ok [OF s])
  have cin: "c \<in> set (rows d)" "group_of c = group_of row" using coalesced_in [OF c] by blast+
  obtain new where new: "rows ?d = rows d @ new" "length new \<le> length (arrivals e n)"
    using arrive_rows [of "arrivals e n" ?s] by auto
  obtain P where P: "delete_older e c (rows ?d) = filter P (rows ?d)" using delete_older_sub by blast
  have rows': "rows d' = filter (\<lambda>m. P m \<and> ob_id m \<noteq> ob_id c) (rows ?d)"
    by (simp add: d' P conj_commute)
  have ids: "distinct (map ob_id (rows ?d))" using outbox_ok_distinct [OF ok] by blast
  show "\<forall>m \<in> set (rows d'). m \<notin> set (rows d) \<longrightarrow> next_id d \<le> ob_id m"
    using arrive_new_ids [OF s] by (auto simp: rows')
  show "next_id d \<le> next_id d'" using arrive_next [of ?s "arrivals e n"] by (simp add: d')
  show "arrivals e n = [] \<longrightarrow> set (rows d') \<subseteq> set (rows d)" using new by (auto simp: rows')
  show "\<forall>m \<in> set (rows d). group_of m \<noteq> group_of row \<longrightarrow> m \<in> set (rows d')"
  proof (intro ballI impI)
    fix m
    assume m: "m \<in> set (rows d)" "group_of m \<noteq> group_of row"
    then have "m \<in> set (rows ?d)" using new(1) by simp
    then have "P m" using delete_older_keeps [of m "rows ?d" c e] m(2) cin(2) P by auto
    moreover have "ob_id m \<noteq> ob_id c"
      using ids m cin new(1) by (auto simp: distinct_map inj_on_def)
    ultimately show "m \<in> set (rows d')" using \<open>m \<in> set (rows ?d)\<close> by (simp add: rows')
  qed
  show "\<forall>m \<in> set (rows d'). m \<in> set (rows d) \<longrightarrow> group_of m \<noteq> group_of row"
  proof (intro ballI impI notI)
    fix m
    assume m: "m \<in> set (rows d')" "m \<in> set (rows d)" "group_of m = group_of row"
    have "ob_id m \<le> ob_id c" by (rule last_max [OF d c m(2,3)])
    moreover have "\<not> ob_id m < ob_id c"
    proof (rule delete_older_all)
      show "picks_batch (pick_batch e)" using calm by (simp add: calm_def)
      show "distinct (rows ?d)" using outbox_ok_distinct [OF ok] by blast
      show "m \<in> set (delete_older e c (rows ?d))" using m(1) by (simp add: rows' P)
      show "group_of m = group_of c" using m(3) cin(2) by simp
      let ?Q = "\<lambda>m. group_of m = group_of c \<and> \<not> ob_id m < ob_id c"
      have "x = c" if "x \<in> set (rows d)" "?Q x" for x
      proof -
        have "ob_id x \<le> ob_id c" using last_max [OF d c that(1)] that(2) cin(2) by simp
        then have "ob_id x = ob_id c" using that(2) by simp
        then show ?thesis using outbox_ok_distinct [OF d] that(1) cin(1) by (auto simp: distinct_map inj_on_def)
      qed
      then have "set (filter ?Q (rows d)) \<subseteq> {c}" by auto
      then have "card (set (filter ?Q (rows d))) \<le> 1" using card_mono [of "{c}"] by fastforce
      then have "length (filter ?Q (rows d)) \<le> 1"
        using outbox_ok_distinct [OF d] by (simp only: distinct_card [OF distinct_filter])
      moreover have "length (filter ?Q new) \<le> length new" by simp
      moreover have "length (arrivals e n) < 99" using calm by (simp add: calm_def)
      ultimately have "length (filter ?Q (rows d)) + length (filter ?Q new) < 100" using new(2) by linarith
      then show "length (filter ?Q (rows ?d)) < 100" by (simp only: new(1) filter_append length_append)
    qed
    moreover have "ob_id m \<noteq> ob_id c" using m(1) by (simp add: rows')
    ultimately show False by simp
  qed
qed

text \<open>
  A bounded drain returns. If no handler fails and the shard is not switched off, nothing that it was
  after is left.
\<close>

lemma bounded_drain:
  assumes "outbox_ok d" "calm e" "bounded e latest d"
  shows "\<exists>r d'. drain_loop e k latest n d = Some (r, d') \<and> outbox_ok d' \<and>
    (r = Inr () \<longrightarrow> skips e k \<or> selected_messages_in_shard k latest d' = []) \<and>
    ((\<forall>m. \<not> handler_fails e m) \<longrightarrow> r = Inr ()) \<and>
    (\<forall>m \<in> set (rows d). shard_of m \<noteq> k \<longrightarrow> m \<in> set (rows d')) \<and>
    (latest = None \<longrightarrow> set (rows d') \<subseteq> set (rows d))"
  using assms
proof (induction "length (selected_messages_in_shard k latest d)" arbitrary: n d rule: less_induct)
  case less
  note d = less.prems(1)
  have quiet: "latest = None \<Longrightarrow> \<not> locked e n \<and> arrivals e n = []" using less.prems(3) by (simp add: bounded_def)
  show ?case
  proof (cases "process_shard e k latest n d")
    case None
    then have "selected_messages_in_shard k latest d = []"
      using quiet by (auto simp: process_shard_def first_of_def split: if_splits list.splits)
    with None d show ?thesis by (subst drain_loop.simps) simp
  next
    case (Some row)
    then have "row \<in> set (selected_messages_in_shard k latest d)"
      by (auto simp: process_shard_def dest: first_of_in split: if_splits)
    then have row: "row \<in> set (rows d)" "shard_of row = k" and sel: "\<forall>i. latest = Some i \<longrightarrow> ob_id row \<le> i"
      by (auto simp: selected_messages_in_shard_def)
    obtain r d1 where p: "process_outbox e row n d = (r, d1)" by fastforce
    have ok: "outbox_ok d1" by (rule process_outbox_ok [OF d p])
    show ?thesis
      using p
    proof (cases rule: process_cases)
      case Nothing
      with row(1) show ?thesis by (auto simp: select_coalesced_messages_def filter_empty_conv)
    next
      case (Skip c)
      have "drain_loop e k latest n d = Some (Inr (), d1)" using Some p Skip(3) by (subst drain_loop.simps) simp
      moreover have "skips e k" using Skip(2) row(2) by (simp add: skip_of_shard)
      moreover have "m \<in> set (rows d1)" if "m \<in> set (rows d)" "shard_of m \<noteq> k" for m
        using that delete_older_keeps [of m "rows d" c e] coalesced_in [OF Skip(1)] group_shard [of m c] group_shard [of c row] row(2)
        by (auto simp: Skip(4))
      moreover have "set (rows d1) \<subseteq> set (rows d)" using delete_older_sub [of e c "rows d"] by (auto simp: Skip(4))
      ultimately show ?thesis using ok by blast
    next
      case (Fail c err)
      have "drain_loop e k latest n d = Some (Inl err, d1)" using Some p Fail(4) by (subst drain_loop.simps) simp
      moreover obtain new where "rows d1 = rows d @ new" "length new \<le> length (arrivals e n)"
        using arrive_rows [of "arrivals e n" d] by (auto simp: Fail(5))
      ultimately show ?thesis using ok Fail(3) quiet by auto
    next
      case (Send c)
      note p = p [unfolded Send(4)]
      note round = send_round [OF d less.prems(2) row(1) p]
      have step: "drain_loop e k latest n d = drain_loop e k latest (Suc n) d1" using Some p by (subst drain_loop.simps) simp
      have bounded: "bounded e latest d1"
        using less.prems(3) round(4) by (auto simp: bounded_def split: option.splits)
      let ?S = "\<lambda>d. set (selected_messages_in_shard k latest d)"
      have "?S d1 \<subset> ?S d"
      proof
        show "?S d1 \<subseteq> ?S d"
        proof
          fix m
          assume m: "m \<in> ?S d1"
          have "m \<in> set (rows d)"
          proof (rule ccontr)
            assume new: "m \<notin> set (rows d)"
            with m round(3) have "next_id d \<le> ob_id m" by (simp add: selected_messages_in_shard_def)
            with m less.prems(3) round(5) new quiet show False
              by (auto simp: bounded_def selected_messages_in_shard_def split: option.splits)
          qed
          with m show "m \<in> ?S d" by (simp add: selected_messages_in_shard_def)
        qed
        have "row \<notin> ?S d1" using round(1) row(1) by (auto simp: selected_messages_in_shard_def)
        moreover have "row \<in> ?S d" using row sel by (auto simp: selected_messages_in_shard_def split: option.splits)
        ultimately show "?S d1 \<noteq> ?S d" by blast
      qed
      then have "card (?S d1) < card (?S d)" by (intro psubset_card_mono) simp_all
      moreover have "distinct (selected_messages_in_shard k latest x)" if "outbox_ok x" for x
        using outbox_ok_distinct [OF that] by (simp add: selected_messages_in_shard_def)
      ultimately have "length (selected_messages_in_shard k latest d1) < length (selected_messages_in_shard k latest d)"
        using ok d by (simp add: distinct_card)
      from less.hyps [OF this ok less.prems(2) bounded, of "Suc n"] obtain r' d' where
        IH: "drain_loop e k latest (Suc n) d1 = Some (r', d')" "outbox_ok d'"
          "r' = Inr () \<longrightarrow> skips e k \<or> selected_messages_in_shard k latest d' = []"
          "(\<forall>m. \<not> handler_fails e m) \<longrightarrow> r' = Inr ()"
          "\<forall>m \<in> set (rows d1). shard_of m \<noteq> k \<longrightarrow> m \<in> set (rows d')"
          "latest = None \<longrightarrow> set (rows d') \<subseteq> set (rows d1)"
        by blast
      have "\<forall>m \<in> set (rows d). shard_of m \<noteq> k \<longrightarrow> m \<in> set (rows d')"
        using IH(5) round(2) row(2) group_shard by blast
      moreover have "latest = None \<longrightarrow> set (rows d') \<subseteq> set (rows d)" using IH(6) round(5) quiet by blast
      ultimately show ?thesis using IH(1-4) step by auto
    qed
  qed
qed

text \<open>A drain of a whole shard while nothing else happens.\<close>

definition quiet :: "outbox_env \<Rightarrow> bool" where
  "quiet e = (picks_batch (pick_batch e) \<and> (\<forall>n. arrivals e n = [] \<and> \<not> locked e n) \<and>
     (\<forall>m. \<not> handler_fails e m) \<and> disabled_organization_shards e = [] \<and> disabled_user_shards e = [])"

lemma quiet_drain:
  assumes "outbox_ok d" "quiet e"
  shows "\<exists>d'. drain_shard e True k d = Some (Inr (), d') \<and> outbox_ok d' \<and>
    set (rows d') = {m \<in> set (rows d). shard_of m \<noteq> k}"
proof -
  have "calm e" "bounded e None d" "\<forall>m. \<not> handler_fails e m" "\<not> skips e k"
    using assms(2) by (auto simp: quiet_def calm_def bounded_def skips_def split: prod.splits)
  with bounded_drain [OF assms(1) this(1,2), of k 0] obtain d' where
    d': "drain_loop e k None 0 d = Some (Inr (), d')" "outbox_ok d'" "selected_messages_in_shard k None d' = []"
      "\<forall>m \<in> set (rows d). shard_of m \<noteq> k \<longrightarrow> m \<in> set (rows d')" "set (rows d') \<subseteq> set (rows d)"
    by blast
  then have "set (rows d') = {m \<in> set (rows d). shard_of m \<noteq> k}"
    by (auto simp: selected_messages_in_shard_def filter_empty_conv)
  with d' show ?thesis by (simp add: drain_shard_def)
qed

lemma prepare_rows:
  "prepare_next_from_shard now k d = (m, d') \<Longrightarrow> {x \<in> set (rows d'). shard_of x \<noteq> k} = {x \<in> set (rows d). shard_of x \<noteq> k}"
  "prepare_next_from_shard now k d = (None, d') \<Longrightarrow> d' = d \<and> (\<forall>x \<in> set (rows d). shard_of x \<noteq> k)"
proof -
  define f where "f = (\<lambda>(m :: outbox) now (x :: outbox). if shard_of x = k then x\<lparr>ob_for := next_schedule m now, ob_from := now\<rparr> else x)"
  have f: "shard_of (f m now x) = shard_of x" "shard_of x \<noteq> k \<Longrightarrow> f m now x = x" for m now x
    by (simp_all add: f_def shard_of_def)
  have p: "prepare_next_from_shard now k d =
      (case first_of (selected_messages_in_shard k None d) of None \<Rightarrow> (None, d)
       | Some m \<Rightarrow> (Some m, d\<lparr>rows := map (f m now) (rows d)\<rparr>))"
    unfolding prepare_next_from_shard_def f_def by (rule refl)
  show "{x \<in> set (rows d'). shard_of x \<noteq> k} = {x \<in> set (rows d). shard_of x \<noteq> k}"
    if "prepare_next_from_shard now k d = (m, d')"
    using that unfolding p by (force simp: f split: option.splits)
  show "d' = d \<and> (\<forall>x \<in> set (rows d). shard_of x \<noteq> k)" if "prepare_next_from_shard now k d = (None, d')"
    using that unfolding p
    by (auto simp: first_of_def selected_messages_in_shard_def filter_empty_conv split: option.splits list.splits)
qed

lemma quiet_shards:
  assumes "quiet e"
  shows "outbox_ok d \<Longrightarrow> \<exists>n d'. process_shards e (\<lambda>_. False) now ks d = Some (n, d') \<and> outbox_ok d' \<and>
    set (rows d') = {m \<in> set (rows d). shard_of m \<notin> set ks}"
proof (induction ks arbitrary: d)
  case (Cons k ks)
  obtain m d1 where p: "prepare_next_from_shard now k d = (m, d1)" by fastforce
  have ok: "outbox_ok d1" by (rule prepare_ok [OF Cons.prems p])
  show ?case
  proof (cases m)
    case None
    with p prepare_rows(2) have "d1 = d" "\<forall>x \<in> set (rows d). shard_of x \<noteq> k" by blast+
    with Cons.IH [OF Cons.prems] None p show ?thesis by auto
  next
    case (Some x)
    obtain d2 where d2: "drain_shard e True k d1 = Some (Inr (), d2)" "outbox_ok d2"
      "set (rows d2) = {m \<in> set (rows d1). shard_of m \<noteq> k}"
      using quiet_drain [OF ok assms] by blast
    with prepare_rows(1) [OF p] have "set (rows d2) = {m \<in> set (rows d). shard_of m \<noteq> k}" by simp
    moreover obtain n d3 where "process_shards e (\<lambda>_. False) now ks d2 = Some (n, d3)" "outbox_ok d3"
      "set (rows d3) = {m \<in> set (rows d2). shard_of m \<notin> set ks}"
      using Cons.IH [OF d2(2)] by blast
    ultimately show ?thesis using p Some d2(1) by auto
  qed
qed simp

lemma quiet_task:
  assumes "quiet e" "outbox_ok d"
  shows "\<exists>n d'. process_outbox_batch e (\<lambda>_. False) now lo hi d = Some (n, d') \<and> outbox_ok d' \<and>
    set (rows d') \<subseteq> set (rows d) \<and> (\<forall>m \<in> set (rows d'). lo \<le> ob_id m \<longrightarrow> ob_id m < hi \<longrightarrow> \<not> ob_for m \<le> now)"
proof -
  let ?ks = "find_scheduled_shards now lo (Some hi) d"
  obtain n d' where r: "process_shards e (\<lambda>_. False) now ?ks d = Some (n, d')" "outbox_ok d'"
    "set (rows d') = {m \<in> set (rows d). shard_of m \<notin> set ?ks}"
    using quiet_shards [OF assms] by blast
  have "set ?ks = shard_of ` {m \<in> set (rows d). ob_for m \<le> now \<and> lo \<le> ob_id m \<and> ob_id m < hi}"
    by (simp add: find_scheduled_shards_def Let_def)
  with r show ?thesis unfolding process_outbox_batch_def by (intro exI [of _ n] exI [of _ d']) auto
qed

lemma quiet_tasks:
  assumes "quiet e"
  shows "outbox_ok d \<Longrightarrow> \<forall>m \<in> set (rows d). ob_for m \<le> now \<Longrightarrow> \<exists>d'. run_tasks e now ts d = Some d' \<and>
    set (rows d') \<subseteq> {m \<in> set (rows d). \<forall>(lo, hi) \<in> set ts. \<not> (lo \<le> ob_id m \<and> ob_id m < hi)}"
proof (induction ts arbitrary: d)
  case (Cons t ts)
  obtain lo hi where t: "t = (lo, hi)" by (cases t)
  obtain n d1 where d1: "process_outbox_batch e (\<lambda>_. False) now lo hi d = Some (n, d1)" "outbox_ok d1"
    "set (rows d1) \<subseteq> set (rows d)" "\<forall>m \<in> set (rows d1). lo \<le> ob_id m \<longrightarrow> ob_id m < hi \<longrightarrow> \<not> ob_for m \<le> now"
    using quiet_task [OF assms Cons.prems(1)] by blast
  then have due: "\<forall>m \<in> set (rows d1). ob_for m \<le> now" using Cons.prems(2) by blast
  obtain d' where "run_tasks e now ts d1 = Some d'"
    "set (rows d') \<subseteq> {m \<in> set (rows d1). \<forall>(lo, hi) \<in> set ts. \<not> (lo \<le> ob_id m \<and> ob_id m < hi)}"
    using Cons.IH [OF d1(2) due] by blast
  moreover have "\<not> (lo \<le> ob_id m \<and> ob_id m < hi)" if "m \<in> set (rows d1)" for m using d1(4) due that by blast
  ultimately show ?case using d1(1,3) t by (intro exI [of _ d']) auto
qed simp

text \<open>The ranges of one turn of the scheduler cover every row.\<close>

lemma ranges_cover:
  fixes lo hi conc i :: nat
  assumes "lo \<le> i" "i \<le> hi" "0 < conc"
  defines "b \<equiv> (hi - lo + 1 + conc - 1) div conc"
  shows "\<exists>j < conc. lo + j * b \<le> i \<and> i < lo + (j + 1) * b"
proof -
  have le: "hi - lo + 1 \<le> b * conc"
  proof -
    have "hi - lo + 1 + conc - 1 = b * conc + (hi - lo + 1 + conc - 1) mod conc"
      by (simp only: b_def div_mult_mod_eq)
    moreover have "(hi - lo + 1 + conc - 1) mod conc < conc" using assms(3) by simp
    ultimately show ?thesis by linarith
  qed
  then have b: "0 < b" by (cases b) simp_all
  let ?j = "(i - lo) div b"
  have "i - lo < conc * b" using le assms(1,2) by (simp add: mult.commute)
  then have "?j < conc" by (simp add: less_mult_imp_div_less)
  moreover have "?j * b \<le> i - lo" by (rule div_times_less_eq_dividend)
  then have "lo + ?j * b \<le> i" using assms(1) by linarith
  moreover have "i - lo < (?j + 1) * b" using dividend_less_div_times [OF b, of "i - lo"] by (simp add: add.commute)
  then have "i < lo + (?j + 1) * b" using assms(1) by linarith
  ultimately show ?thesis by blast
qed

lemma schedule_covers:
  assumes "m \<in> set (rows d)"
  shows "\<exists>(lo, hi) \<in> set (schedule_batch concurrency d). lo \<le> ob_id m \<and> ob_id m < hi"
proof -
  define conc where "conc = (case concurrency of None \<Rightarrow> CONCURRENCY | Some n \<Rightarrow> if n = 0 then CONCURRENCY else n)"
  let ?lo = "Min (set (map ob_id (rows d)))" and ?hi = "Max (set (map ob_id (rows d)))"
  define b where "b = (?hi - ?lo + 1 + conc - 1) div conc"
  have conc: "0 < conc" by (simp add: conc_def CONCURRENCY_def split: option.splits)
  have "?lo \<le> ob_id m" "ob_id m \<le> ?hi" using assms by simp_all
  from ranges_cover [OF this conc] obtain j where j: "j < conc" "?lo + j * b \<le> ob_id m" "ob_id m < ?lo + (j + 1) * b"
    unfolding b_def by blast
  have "rows d \<noteq> []" using assms by auto
  then have "schedule_batch concurrency d = map (\<lambda>i. (?lo + i * b, ?lo + (i + 1) * b)) [0..<conc]"
    by (cases "rows d") (simp_all add: schedule_batch_def conc_def b_def Let_def)
  with j show ?thesis by (auto intro!: bexI [of _ "(?lo + j * b, ?lo + (j + 1) * b)"])
qed

section \<open>Properties\<close>

text \<open>
  C4. No message is lost: whatever is saved, flushed, drained or fails, in whatever order, a message
  that was saved is still in the table or was superseded: it, or a later message of the same shard,
  category and object, is pending or has been sent.
\<close>

theorem no_message_lost:
  "let d = foldl outbox_step outbox0 es
   in list_all (\<lambda>m. list_ex (\<lambda>x. group_of x = group_of m \<and> ob_id m \<le> ob_id x) (rows d @ sent d)) (saved d)"
  using outbox_run.run_inv [OF outbox_ok_0, of es]
  by (simp add: Let_def outbox_ok_def covers_def list_all_iff list_ex_iff Bex_def)

text \<open>
  C22. A flush returns, even while messages keep arriving (fewer than 99 per signal, so that the loop
  that deletes sees the older ones), and unless a handler failed or the shard is switched off, none of
  the messages that the shard held before is left.
\<close>

theorem flush_returns:
  assumes "calm e"
  shows "let d = foldl outbox_step outbox0 es
    in case drain_shard e False k d of
         None \<Rightarrow> False
       | Some (r, d') \<Rightarrow> r \<noteq> Inr () \<or> skips e k \<or>
           list_all (\<lambda>m. shard_of m \<noteq> k \<or> m \<notin> set (rows d')) (rows d)"
proof -
  let ?d = "foldl outbox_step outbox0 es"
  have d: "outbox_ok ?d" by (rule outbox_run.run_inv [OF outbox_ok_0])
  show ?thesis
  proof (cases "last_of (selected_messages_in_shard k None ?d)")
    case None
    then have "selected_messages_in_shard k None ?d = []" by (simp add: last_of_def split: list.splits)
    with None show ?thesis
      by (auto simp: drain_shard_def Let_def selected_messages_in_shard_def filter_empty_conv list_all_iff)
  next
    case (Some l)
    let ?ms = "selected_messages_in_shard k None ?d"
    have l: "l \<in> set (rows ?d)" using last_of_in [OF Some] by (simp add: selected_messages_in_shard_def)
    then have "bounded e (Some (ob_id l)) ?d" using d by (simp add: bounded_def outbox_ok_def)
    from bounded_drain [OF d assms this, of k 0] obtain r d' where
      r: "drain_loop e k (Some (ob_id l)) 0 ?d = Some (r, d')"
        "r = Inr () \<longrightarrow> skips e k \<or> selected_messages_in_shard k (Some (ob_id l)) d' = []"
      by blast
    have sorted: "sorted_wrt (<) (map ob_id ?ms)"
      using d by (simp add: selected_messages_in_shard_def outbox_ok_def sorted_wrt_filter_id)
    have last: "?ms \<noteq> []" "l = last ?ms" using Some by (auto simp: last_of_def split: list.splits)
    have "ob_id m \<le> ob_id l" if "m \<in> set ?ms" for m
      using sorted_last [OF sorted that] last by simp
    then have "m \<notin> set (rows d')" if "selected_messages_in_shard k (Some (ob_id l)) d' = []"
      "m \<in> set (rows ?d)" "shard_of m = k" for m
      using that by (auto simp: selected_messages_in_shard_def filter_empty_conv)
    with r Some show ?thesis by (auto simp: drain_shard_def Let_def list_all_iff)
  qed
qed

definition example_env :: outbox_env where
  "example_env = \<lparr>disabled_organization_shards = [], disabled_user_shards = [], handler_fails = (\<lambda>_. False),
     pick_batch = take 100, arrivals = (\<lambda>_. []), locked = (\<lambda>_. False)\<rparr>"

lemma example_quiet: "quiet example_env"
  by (auto simp: quiet_def example_env_def picks_batch_def dest: in_set_takeD)

lemma example_calm: "calm example_env"
  using example_quiet by (simp add: calm_def quiet_def)

definition example_message :: outbox where
  "example_message = \<lparr>ob_id = 0, ob_region = None, ob_scope = ORGANIZATION_SCOPE, ob_shard = 7,
     ob_category = TEAM_UPDATE, ob_object = 3, ob_payload = None, ob_from = 0, ob_for = 0\<rparr>"

theorem flush_returns_witness:
  "\<exists>r d'. drain_shard example_env False (None, ORGANIZATION_SCOPE, 7)
     (foldl outbox_step outbox0 [Save example_message, Save example_message]) = Some (r, d')"
  using flush_returns [OF example_calm, where k = "(None, ORGANIZATION_SCOPE, 7)"
      and es = "[Save example_message, Save example_message]"]
  by (simp add: Let_def split: option.splits)

text \<open>
  One turn of the scheduler empties the table: when every message is due, no handler fails, no shard
  is switched off and nothing else happens, the tasks it starts return and leave no message behind,
  whatever the concurrency.
\<close>

theorem scheduler_turn_drains:
  assumes "quiet e" "\<forall>m \<in> set (rows (foldl outbox_step outbox0 es)). ob_for m \<le> now"
  shows "let d = foldl outbox_step outbox0 es
    in map_option rows (run_tasks e now (schedule_batch concurrency d) d) = Some []"
proof -
  let ?d = "foldl outbox_step outbox0 es"
  have d: "outbox_ok ?d" by (rule outbox_run.run_inv [OF outbox_ok_0])
  obtain d' where d': "run_tasks e now (schedule_batch concurrency ?d) ?d = Some d'"
    "set (rows d') \<subseteq> {m \<in> set (rows ?d). \<forall>(lo, hi) \<in> set (schedule_batch concurrency ?d).
       \<not> (lo \<le> ob_id m \<and> ob_id m < hi)}"
    using quiet_tasks [OF assms(1) d assms(2)] by blast
  have "m \<notin> set (rows d')" for m
    using d'(2) schedule_covers [of m ?d concurrency] by fastforce
  then have "rows d' = []" by (metis last_in_set)
  with d'(1) show ?thesis by (simp add: Let_def)
qed

theorem scheduler_turn_drains_witness:
  "map_option rows (run_tasks example_env 1 (schedule_batch None (foldl outbox_step outbox0
     [Save example_message, Save example_message])) (foldl outbox_step outbox0 [Save example_message, Save example_message]))
   = Some []"
proof -
  have "\<forall>m \<in> set (rows (foldl outbox_step outbox0 [Save example_message, Save example_message])). ob_for m \<le> 1"
    by (simp add: save_outbox_def scope_has_category_def outbox_categories_for_scope_def dict_get_def
        insert_outbox_def outbox0_def example_message_def Let_def)
  from scheduler_turn_drains [OF example_quiet this, of None] show ?thesis by (simp only: Let_def)
qed

text \<open>What the arguments say of the outbox, and the three ways in which they do not.\<close>

lemma infer_shard_raises:
  "infer_shard scope md = Inl e \<longleftrightarrow>
     e = AttributeError \<and> scope = ORGANIZATION_SCOPE \<and> om_class md \<noteq> OrganizationModel \<and>
     om_organization_id md = None \<and> om_auth_provider md = Some None"
  by (auto simp: infer_shard_def split: outbox_scope.split option.split if_splits)

lemma infer_identifiers_Inr:
  "infer_identifiers scope model obj shard = Inr (s, i) \<longleftrightarrow>
     (model = None \<and> obj = Some i \<and> shard = Some s \<or>
      (\<exists>md. model = Some md \<and> obj = None \<and> om_id md = Some i \<and>
         (shard = Some s \<or> shard = None \<and> infer_shard scope md = Inr (Some s))))"
  by (cases model; cases obj; cases shard)
    (auto simp: infer_identifiers_def Let_def bind_result_Inr_iff split: option.splits)

lemma infer_identifiers_Inl:
  "infer_identifiers scope model obj shard = Inl e \<longleftrightarrow>
     (e = AssertionError \<and>
        ((model = None) = (obj = None) \<or> model = None \<and> shard = None \<or>
         (\<exists>md. model = Some md \<and> (shard = None \<and> infer_shard scope md = Inr None
            \<or> om_id md = None \<and> (shard = None \<longrightarrow> (\<exists>s. infer_shard scope md = Inr s)))))
      \<or> e = AttributeError \<and> obj = None \<and> shard = None \<and>
        (\<exists>md. model = Some md \<and> infer_shard scope md = Inl AttributeError))"
proof (cases "(model = None) = (obj = None)")
  case True
  then show ?thesis by (cases model; cases obj) (auto simp: infer_identifiers_def)
next
  case False
  show ?thesis
  proof (cases model)
    case None
    with False obtain i where i: "obj = Some i" by auto
    with None show ?thesis by (cases shard) (auto simp: infer_identifiers_def)
  next
    case (Some md)
    with False have o: "obj = None" by auto
    with Some show ?thesis
    proof (cases shard)
      case None
      show ?thesis
      proof (cases "infer_shard scope md")
        case (Inl x)
        then have "x = AttributeError" by (simp add: infer_shard_raises)
        with Inl None Some o show ?thesis by (cases "om_id md") (auto simp: infer_identifiers_def)
      next
        case (Inr x)
        with None Some o show ?thesis by (cases x; cases "om_id md") (auto simp: infer_identifiers_def)
      qed
    next
      case s: (Some s)
      with Some o show ?thesis by (cases "om_id md") (auto simp: infer_identifiers_def)
    qed
  qed
qed

text \<open>
  C40. Building an outbox for a category fails on missing or doubled arguments and on nothing else: an AssertionError
  means that the model and the object identifier were both given or both left out, that nothing names the
  shard, or that the model has no id; an AttributeError that a model of the organization scope without an organization has
  an auth provider that is None. Otherwise the outbox carries the category, its scope, and the ids that the
  arguments name, and saving it never finds the category outside the scope.
\<close>

theorem built_outbox_is_valid:
  "case as_outbox c region model payload shard obj now of
     Inr m \<Rightarrow>
       get_scope c = Inr (ob_scope m) \<and> ob_category m = c \<and> ob_region m = region \<and> ob_payload m = payload \<and>
       (model = None \<and> obj = Some (ob_object m) \<and> shard = Some (ob_shard m) \<or>
        (\<exists>md. model = Some md \<and> obj = None \<and> om_id md = Some (ob_object m) \<and>
           (shard = Some (ob_shard m) \<or> shard = None \<and> infer_shard (ob_scope m) md = Inr (Some (ob_shard m))))) \<and>
       save_outbox m d = Inr (insert_outbox m d)
   | Inl e \<Rightarrow>
       e = AssertionError \<and>
         ((model = None) = (obj = None) \<or> model = None \<and> shard = None \<or>
          (\<exists>md scope. model = Some md \<and> get_scope c = Inr scope \<and>
             (om_id md = None \<or> shard = None \<and> infer_shard scope md = Inr None)))
       \<or> e = AttributeError \<and> get_scope c = Inr ORGANIZATION_SCOPE \<and> obj = None \<and> shard = None \<and>
         (\<exists>md. model = Some md \<and> om_class md \<noteq> OrganizationModel \<and> om_organization_id md = None \<and>
            om_auth_provider md = Some None)"
proof -
  obtain s where s: "get_scope c = Inr s" "scope_has_category s c"
    by (cases c) (simp_all add: get_scope_def scope_has_category_def outbox_categories_for_scope_def dict_get_def)
  show ?thesis
  proof (cases "infer_identifiers s model obj shard")
    case (Inl e)
    then have "as_outbox c region model payload shard obj now = Inl e" by (simp add: as_outbox_def s)
    moreover from Inl [unfolded infer_identifiers_Inl infer_shard_raises]
    have "e = AssertionError \<and> ((model = None) = (obj = None) \<or> model = None \<and> shard = None \<or>
          (\<exists>md. model = Some md \<and> (om_id md = None \<or> shard = None \<and> infer_shard s md = Inr None)))
       \<or> e = AttributeError \<and> s = ORGANIZATION_SCOPE \<and> obj = None \<and> shard = None \<and>
         (\<exists>md. model = Some md \<and> om_class md \<noteq> OrganizationModel \<and> om_organization_id md = None \<and>
            om_auth_provider md = Some None)" by blast
    ultimately show ?thesis using s(1) by auto
  next
    case (Inr p)
    obtain sh i where p: "p = (sh, i)" by (cases p)
    then have "as_outbox c region model payload shard obj now =
        Inr \<lparr>ob_id = 0, ob_region = region, ob_scope = s, ob_shard = sh, ob_category = c,
              ob_object = i, ob_payload = payload, ob_from = now, ob_for = 0\<rparr>"
      using Inr by (simp add: as_outbox_def s)
    with Inr [unfolded p infer_identifiers_Inr] s show ?thesis by (simp add: save_outbox_def)
  qed
qed

section \<open>The order in which a group is sent\<close>

definition ordered :: "outbox_db \<Rightarrow> bool" where
  "ordered d =
     (outbox_ok d \<and>
      (\<forall>x \<in> set (sent d). ob_id x < next_id d \<and> (\<forall>m \<in> set (rows d). group_of m = group_of x \<longrightarrow> ob_id x < ob_id m)) \<and>
      (\<forall>g. sorted_wrt (<) (map ob_id (filter (\<lambda>m. group_of m = g) (sent d)))))"

lemma ordered_insert: "ordered d \<Longrightarrow> ordered (insert_outbox m d)"
  using insert_ok [of d m] by (auto simp: ordered_def insert_outbox_def Let_def less_Suc_eq)

lemma ordered_arrive: "ordered d \<Longrightarrow> ordered (arrive ms d)"
  by (induction ms arbitrary: d) (simp_all add: arrive_Cons ordered_insert)

text \<open>Fewer rows, or rows whose ids and groups are the same, keep the order.\<close>

lemma ordered_rows:
  assumes "ordered d" "outbox_ok d'" "sent d' = sent d" "next_id d' = next_id d"
    "\<And>m. m \<in> set (rows d') \<Longrightarrow> \<exists>m' \<in> set (rows d). ob_id m' = ob_id m \<and> group_of m' = group_of m"
  shows "ordered d'"
proof -
  have "ob_id x < ob_id m" if x: "x \<in> set (sent d)" and m: "m \<in> set (rows d')" "group_of m = group_of x" for x m
  proof -
    from assms(5) [OF m(1)] obtain m' where m': "m' \<in> set (rows d)" "ob_id m' = ob_id m" "group_of m' = group_of m"
      by blast
    then have "group_of m' = group_of x" using m(2) by simp
    with assms(1) x m'(1) have "ob_id x < ob_id m'" unfolding ordered_def by blast
    with m'(2) show ?thesis by simp
  qed
  with assms(1-4) show ?thesis unfolding ordered_def by simp
qed

lemma ordered_process:
  assumes "ordered d" "calm e" "row \<in> set (rows d)" "process_outbox e row n d = (r, d')"
  shows "ordered d'"
proof -
  have d: "outbox_ok d" using assms(1) by (simp add: ordered_def)
  have ok: "outbox_ok d'" by (rule process_outbox_ok [OF d assms(4)])
  show ?thesis
    using assms(4)
  proof (cases rule: process_cases)
    case Nothing
    with assms(1) show ?thesis by simp
  next
    case (Skip c)
    then show ?thesis using delete_older_sub [of e c "rows d"] by (intro ordered_rows [OF assms(1) ok]) auto
  next
    case Fail
    with assms(1) show ?thesis by (simp add: ordered_arrive)
  next
    case (Send c)
    note round = send_round [OF d assms(2,3) assms(4) [unfolded Send(4)]]
    have c: "c \<in> set (rows d)" "group_of c = group_of row" using coalesced_in [OF Send(1)] by blast+
    have sent': "sent d' = sent d @ [c]" by (simp add: Send(5))
    have less: "ob_id x < next_id d" if "x \<in> set (sent d) \<or> x = c" for x
      using that assms(1) d c(1) by (auto simp: ordered_def outbox_ok_def)
    have "ob_id x < ob_id m" if x: "x \<in> set (sent d')" and m: "m \<in> set (rows d')" "group_of m = group_of x" for x m
    proof (cases "m \<in> set (rows d)")
      case False
      with round(3) m(1) have "next_id d \<le> ob_id m" by blast
      with less [of x] x sent' show ?thesis by auto
    next
      case True
      with round(1) m(1) have "group_of m \<noteq> group_of row" by blast
      with m(2) c(2) x sent' have "x \<in> set (sent d)" by auto
      with assms(1) True m(2) show ?thesis by (simp add: ordered_def)
    qed
    moreover have "ob_id x < next_id d'" if "x \<in> set (sent d')" for x
      using less [of x] that round(4) sent' by auto
    moreover have "sorted_wrt (<) (map ob_id (filter (\<lambda>m. group_of m = g) (sent d')))" for g
    proof -
      have "sorted_wrt (<) (map ob_id (filter (\<lambda>m. group_of m = g) (sent d)))"
        using assms(1) unfolding ordered_def by blast
      moreover have "ob_id x < ob_id c" if "x \<in> set (sent d)" "group_of c = group_of x" for x
        using assms(1) c(1) that unfolding ordered_def by blast
      ultimately show ?thesis by (auto simp: sent' sorted_wrt_append)
    qed
    ultimately show ?thesis using ok unfolding ordered_def by blast
  qed
qed

lemma shard_row_in: "process_shard e k latest n d = Some row \<Longrightarrow> row \<in> set (rows d)"
  by (auto simp: process_shard_def selected_messages_in_shard_def split: if_splits dest!: first_of_in)

lemma ordered_drain_loop:
  assumes "drain_loop e k latest n d = Some x" "calm e" "ordered d"
  shows "ordered (snd x)"
proof -
  have "calm e \<longrightarrow> ordered d \<longrightarrow> ordered (snd x)"
  proof (rule drain_loop.raw_induct [where P = "\<lambda>e k latest n d x. calm e \<longrightarrow> ordered d \<longrightarrow> ordered (snd x)", OF _ assms(1)])
    fix loop e k latest n d x
    assume IH: "\<And>e k latest n d x. loop e k latest n d = Some x \<Longrightarrow> calm e \<longrightarrow> ordered d \<longrightarrow> ordered (snd x)"
      and run: "(case process_shard e k latest n d of
          None \<Rightarrow> Some (Inr (), d)
        | Some row \<Rightarrow>
            (case process_outbox e row n d of
               (Inl err, d') \<Rightarrow> Some (Inl err, d')
             | (Inr processed, d') \<Rightarrow> if processed then loop e k latest (Suc n) d' else Some (Inr (), d'))) = Some x"
    show "calm e \<longrightarrow> ordered d \<longrightarrow> ordered (snd x)"
    proof (cases "process_shard e k latest n d")
      case None
      with run show ?thesis by auto
    next
      case (Some row)
      obtain r d1 where p: "process_outbox e row n d = (r, d1)" by fastforce
      with run Some have "loop e k latest (Suc n) d1 = Some x \<or> snd x = d1"
        by (auto split: sum.splits if_splits)
      with IH ordered_process [OF _ _ shard_row_in [OF Some] p] show ?thesis by blast
    qed
  qed
  with assms(2,3) show ?thesis by simp
qed

lemma ordered_drain_shard: "drain_shard e f k d = Some (r, d') \<Longrightarrow> calm e \<Longrightarrow> ordered d \<Longrightarrow> ordered d'"
  using ordered_drain_loop [of e k _ 0 d "(r, d')"] by (auto simp: drain_shard_def split: if_splits option.splits)

lemma ordered_prepare:
  assumes "ordered d" "prepare_next_from_shard now k d = (m, d')"
  shows "ordered d'"
proof (cases "first_of (selected_messages_in_shard k None d)")
  case None
  with assms show ?thesis by (simp add: prepare_next_from_shard_def)
next
  case (Some x)
  have "outbox_ok d'" using assms prepare_ok unfolding ordered_def by blast
  define f where "f = (\<lambda>y :: outbox. if shard_of y = k then y\<lparr>ob_for := next_schedule x now, ob_from := now\<rparr> else y)"
  have d': "d' = d\<lparr>rows := map f (rows d)\<rparr>"
    using Some assms(2) by (simp add: prepare_next_from_shard_def f_def)
  have f: "ob_id (f y) = ob_id y" "group_of (f y) = group_of y" for y
    by (simp_all add: f_def group_of_def shard_of_def)
  show ?thesis
    using \<open>outbox_ok d'\<close> by (rule ordered_rows [OF assms(1)]) (auto simp: d' f)
qed

lemma ordered_process_shards:
  "process_shards e busy now ks d = Some (n, d') \<Longrightarrow> calm e \<Longrightarrow> ordered d \<Longrightarrow> ordered d'"
proof (induction ks arbitrary: d n d')
  case (Cons k ks)
  obtain m d1 where p: "prepare_next_from_shard now k d = (m, d1)" by fastforce
  note ok = ordered_prepare [OF Cons.prems(3) p]
  show ?case
    using Cons ok p by (auto split: if_splits option.splits dest: ordered_drain_shard)
qed auto

fun calm_event :: "outbox_event \<Rightarrow> bool" where
  "calm_event (Save _) = True"
| "calm_event (Flush e _) = calm e"
| "calm_event (DrainTask e _ _ _ _) = calm e"

lemma ordered_run: "list_all calm_event es \<Longrightarrow> ordered d \<Longrightarrow> ordered (foldl outbox_step d es)"
proof (induction es arbitrary: d)
  case (Cons ev es)
  have "ordered (outbox_step d ev)"
    using Cons.prems
    by (cases ev) (auto simp: save_outbox_def ordered_insert process_outbox_batch_def
        split: option.splits if_splits sum.splits dest: ordered_drain_shard ordered_process_shards)
  with Cons show ?case by simp
qed simp

text \<open>
  C31. A stale message never follows a newer one: while few enough messages arrive per signal, the
  messages sent for one object of a shard and category have strictly increasing ids, over any number of
  flushes, tasks and failures.
\<close>

theorem sent_in_order:
  assumes "list_all calm_event es"
  shows "sorted_wrt (<) (map ob_id (filter (\<lambda>m. group_of m = g) (sent (foldl outbox_step outbox0 es))))"
proof -
  have "ordered outbox0" by (simp add: ordered_def outbox_ok_0) (simp add: outbox0_def)
  from ordered_run [OF assms this] show ?thesis unfolding ordered_def by blast
qed

theorem sent_in_order_witness:
  "sorted_wrt (<) (map ob_id (filter (\<lambda>m. group_of m = group_of example_message)
     (sent (foldl outbox_step outbox0 [Save example_message, Flush example_env (None, ORGANIZATION_SCOPE, 7),
       Save example_message, Flush example_env (None, ORGANIZATION_SCOPE, 7)]))))"
  by (rule sent_in_order) (simp add: example_calm)

end
