(* ===== verification/Rebalancing.thy ===== *)
theory Rebalancing
  imports Prelude Complex_Main "HOL-Library.Product_Lexorder" "HOL-Library.Multiset"
begin

text \<open>
  The models of dynamic sampling that give rates to classes of traffic (\<open>dynamic_sampling/models\<close>):
  the full rebalancing, which moves every class towards the same number of samples, and the two
  models that prepare its input, for the projects of an organization and for the transactions of a
  project. Counts and rates are rationals. Shown are the level that all classes share, the exact
  budget, the range of the rates, and where the code leaves it.
\<close>

section \<open>The models\<close>

record 'a item =
  ri_id :: 'a
  ri_count :: rat
  ri_rate :: rat

definition sum_classes_counts :: "'a item list \<Rightarrow> rat" where
  "sum_classes_counts classes = foldl (\<lambda>ret_val e. ret_val + ri_count e) 0 classes"

text \<open>
  \<open>FullRebalancingModel._run\<close>. The loop pops the classes from the end of the list; \<open>budget\<close> is what
  is left of \<open>min_budget\<close>, \<open>n\<close> the number of classes that are left.
\<close>

definition next_ideal :: "rat \<Rightarrow> rat \<Rightarrow> nat \<Rightarrow> rat" where
  "next_ideal ideal budget n = (if ideal * of_nat n < budget then budget / of_nat n else ideal)"

definition desired_count :: "rat \<Rightarrow> rat \<Rightarrow> rat \<Rightarrow> rat \<Rightarrow> rat" where
  "desired_count sample_rate intensity ideal c =
     (let sampled = c * sample_rate; delta = ideal - sampled; correction = delta * intensity
      in sampled + correction)"

fun full_loop :: "rat \<Rightarrow> rat \<Rightarrow> rat \<Rightarrow> rat \<Rightarrow> nat \<Rightarrow> 'a item list \<Rightarrow> ('a item list \<times> rat) result" where
  "full_loop sample_rate intensity ideal budget n [] = Inr ([], 0)"
| "full_loop sample_rate intensity ideal budget n (e # es) =
     (let ideal = next_ideal ideal budget n;
          desired = desired_count sample_rate intensity ideal (ri_count e)
      in bind_result
           (if desired > ri_count e then Inr (1, ri_count e)
            else if ri_count e = 0 then Inl (OtherError ''ZeroDivisionError'')
            else Inr (desired / ri_count e, desired))
           (\<lambda>(rate, used).
             bind_result (full_loop sample_rate intensity ideal (budget - used) (n - 1) es)
               (\<lambda>(items, used_budget). Inr (e\<lparr>ri_rate := rate\<rparr> # items, used + used_budget))))"

definition full_valid :: "'a item list \<Rightarrow> rat \<Rightarrow> rat \<Rightarrow> bool" where
  "full_valid classes sample_rate intensity =
     (0 \<le> sample_rate \<and> sample_rate \<le> 1 \<and> 0 \<le> intensity \<and> intensity \<le> 1 \<and> length classes > 0)"

definition full_rebalancing ::
  "'a item list \<Rightarrow> rat \<Rightarrow> rat \<Rightarrow> rat option \<Rightarrow> ('a item list \<times> rat) result" where
  "full_rebalancing classes sample_rate intensity min_budget =
     (if \<not> full_valid classes sample_rate intensity then Inl (OtherError ''InvalidModelInputError'')
      else
        let all = sum_classes_counts classes;
            budget = (case min_budget of None \<Rightarrow> all * sample_rate | Some b \<Rightarrow> b)
        in if \<not> all \<ge> budget then Inl AssertionError
           else full_loop sample_rate intensity (all * sample_rate / of_nat (length classes)) budget
                  (length classes) (rev classes))"

text \<open>\<open>sorted(classes, key=lambda x: (x.count, x.id), reverse=True)\<close>: equal keys keep their order.\<close>

definition sorted_classes :: "('a :: linorder) item list \<Rightarrow> 'a item list" where
  "sorted_classes classes = rev (sort_key (\<lambda>e. (ri_count e, ri_id e)) (rev classes))"

definition projects_rebalancing :: "('a :: linorder) item list \<Rightarrow> rat \<Rightarrow> 'a item list result" where
  "projects_rebalancing classes sample_rate =
     (if \<not> (0 \<le> sample_rate \<and> sample_rate \<le> 1) then Inl (OtherError ''InvalidModelInputError'')
      else if classes = [] then Inr classes
      else
        let classes = (case classes of [c] \<Rightarrow> [c\<lparr>ri_rate := sample_rate\<rparr>] | _ \<Rightarrow> classes)
        in bind_result (full_rebalancing (sorted_classes classes) sample_rate 1 None) (\<lambda>(items, _). Inr items))"

definition divide_by :: "rat \<Rightarrow> rat \<Rightarrow> rat result" where
  "divide_by x y = (if y = 0 then Inl (OtherError ''ZeroDivisionError'') else Inr (x / y))"

definition transactions_rebalancing ::
  "('a :: linorder) item list \<Rightarrow> rat \<Rightarrow> int option \<Rightarrow> rat option \<Rightarrow> rat \<Rightarrow> ('a item list \<times> rat) result" where
  "transactions_rebalancing given sample_rate total_num_classes given_total intensity =
     (if \<not> full_valid given sample_rate intensity then Inl (OtherError ''InvalidModelInputError'')
      else
        let classes = sorted_classes given;
            total_explicit = sum_classes_counts classes;
            all = (case given_total of None \<Rightarrow> total_explicit | Some t \<Rightarrow> t);
            num_explicit = int (length classes);
            num_classes = (case total_num_classes of None \<Rightarrow> num_explicit | Some n \<Rightarrow> n);
            total_implicit = all - total_explicit;
            num_implicit = num_classes - num_explicit;
            total_budget = all * sample_rate
        in bind_result (divide_by total_budget (of_int num_classes)) (\<lambda>budget_per_class.
             let implicit_budget = budget_per_class * of_int num_implicit;
                 explicit_budget = budget_per_class * of_int num_explicit
             in if num_explicit = num_classes then
                  bind_result (full_rebalancing classes sample_rate intensity None)
                    (\<lambda>(items, _). Inr (items, sample_rate))
                else if total_implicit < implicit_budget then
                  bind_result (divide_by (total_budget - total_implicit) total_explicit) (\<lambda>explicit_rate.
                    bind_result (full_rebalancing classes explicit_rate intensity None)
                      (\<lambda>(items, _). Inr (items, 1)))
                else if total_explicit < explicit_budget then
                  bind_result (divide_by (total_budget - total_explicit) total_implicit) (\<lambda>implicit_rate.
                    Inr (map (\<lambda>e. e\<lparr>ri_rate := 1\<rparr>) classes, implicit_rate))
                else
                  bind_result (divide_by explicit_budget total_explicit) (\<lambda>explicit_rate.
                    bind_result (full_rebalancing classes explicit_rate intensity
                        (Some (total_budget - total_implicit))) (\<lambda>(items, used).
                      bind_result (divide_by (total_budget - used) total_implicit)
                        (\<lambda>implicit_rate. Inr (items, implicit_rate))))))"

text \<open>What is kept of a list of items when each class is sampled at its rate.\<close>

definition kept :: "'a item list \<Rightarrow> rat" where
  "kept items = (\<Sum>e \<leftarrow> items. ri_rate e * ri_count e)"

definition levelled :: "rat \<Rightarrow> 'a item list \<Rightarrow> 'a item list \<Rightarrow> bool" where
  \<comment> \<open>every class keeps its count, or the level if it has more than that\<close>
  "levelled level classes items =
     list_all2 (\<lambda>e i. ri_id i = ri_id e \<and> ri_count i = ri_count e \<and> 0 \<le> ri_rate i \<and> ri_rate i \<le> 1 \<and>
       ri_rate i * ri_count i = min (ri_count e) level) classes items"

lemma sum_classes_counts_sum: "sum_classes_counts es = (\<Sum>e \<leftarrow> es. ri_count e)"
proof -
  have "foldl (\<lambda>t e. t + ri_count e) a es = a + (\<Sum>e \<leftarrow> es. ri_count e)" for a
    by (induction es arbitrary: a) auto
  then show ?thesis by (simp add: sum_classes_counts_def)
qed

lemma kept_simps [simp]: "kept [] = 0" "kept (e # es) = ri_rate e * ri_count e + kept es"
  by (simp_all add: kept_def)

lemma desired_full [simp]: "desired_count r 1 ideal c = ideal"
  by (simp add: desired_count_def)

lemma next_ideal_ge: "ideal \<le> next_ideal ideal budget (Suc n)"
  by (simp add: next_ideal_def field_simps)

lemma next_ideal_covers: "next_ideal ideal budget (Suc n) * of_nat (Suc n) = max budget (ideal * of_nat (Suc n))"
  by (auto simp: next_ideal_def max_def)

lemma next_ideal_same: "budget \<le> ideal * of_nat n \<Longrightarrow> next_ideal ideal budget n = ideal"
  by (simp add: next_ideal_def)

section \<open>One level for all classes\<close>

text \<open>Once the ideal does not exceed the counts that are left, every class gets exactly the ideal.\<close>

lemma full_loop_flat:
  assumes "0 < ideal" "\<forall>e \<in> set es. ideal \<le> ri_count e" "budget \<le> ideal * of_nat (length es)"
  shows "\<exists>items. full_loop r 1 ideal budget (length es) es = Inr (items, ideal * of_nat (length es))
    \<and> levelled ideal es items"
  using assms
proof (induction es arbitrary: budget)
  case Nil
  then show ?case by (simp add: levelled_def)
next
  case (Cons e es)
  have same: "next_ideal ideal budget (Suc (length es)) = ideal"
    using Cons.prems(3) by (simp add: next_ideal_same)
  from Cons.prems(3) have "budget - ideal \<le> ideal * of_nat (length es)" by (simp add: algebra_simps)
  from Cons.IH [OF Cons.prems(1) _ this] Cons.prems(2) obtain items where
    rest: "full_loop r 1 ideal (budget - ideal) (length es) es = Inr (items, ideal * of_nat (length es))"
      "levelled ideal es items" by auto
  from Cons.prems have "ideal \<le> ri_count e" "0 < ri_count e" by auto
  with rest same Cons.prems(1) show ?case
    by (simp add: Let_def levelled_def algebra_simps)
qed

lemma full_loop_level:
  assumes "sorted (map ri_count es)" "\<forall>e \<in> set es. 0 \<le> ri_count e" "0 < ideal"
    "budget \<le> (\<Sum>e \<leftarrow> es. ri_count e)"
  shows "\<exists>items used level. full_loop r 1 ideal budget (length es) es = Inr (items, used)
    \<and> levelled level es items \<and> ideal \<le> level \<and> budget \<le> used \<and> used \<le> max budget (ideal * of_nat (length es))"
  using assms
proof (induction es arbitrary: ideal budget)
  case Nil
  then show ?case by (auto simp: levelled_def)
next
  case (Cons e es)
  let ?i = "next_ideal ideal budget (Suc (length es))"
  have i: "ideal \<le> ?i" "0 < ?i" using next_ideal_ge [of ideal budget "length es"] Cons.prems(3) by auto
  have covers: "?i * of_nat (Suc (length es)) = max budget (ideal * of_nat (Suc (length es)))"
    by (rule next_ideal_covers)
  show ?case
  proof (cases "?i > ri_count e")
    case True
    from Cons.prems(4) have "budget - ri_count e \<le> (\<Sum>e \<leftarrow> es. ri_count e)" by simp
    from Cons.IH [OF _ _ i(2) this] Cons.prems(1,2) obtain items used level where
      rest: "full_loop r 1 ?i (budget - ri_count e) (length es) es = Inr (items, used)" "levelled level es items"
        "?i \<le> level" "budget - ri_count e \<le> used"
        "used \<le> max (budget - ri_count e) (?i * of_nat (length es))" by auto
    have "full_loop r 1 ideal budget (length (e # es)) (e # es) =
        Inr (e\<lparr>ri_rate := 1\<rparr> # items, ri_count e + used)"
      using True rest(1) by (simp add: Let_def)
    moreover have "levelled level (e # es) (e\<lparr>ri_rate := 1\<rparr> # items)"
      using rest(2,3) True by (simp add: levelled_def)
    moreover have "ri_count e + used \<le> max budget (ideal * of_nat (length (e # es)))"
      using rest(5) True covers by (auto simp: algebra_simps max_def split: if_splits)
    moreover have "ideal \<le> level" "budget \<le> ri_count e + used" using rest(3,4) i(1) by auto
    ultimately show ?thesis by blast
  next
    case False
    let ?k = "of_nat (length es)"
    have "budget - ?i \<le> ?i * ?k" using covers by (simp add: algebra_simps max_def split: if_splits)
    moreover from False Cons.prems(1) have "\<forall>x \<in> set es. ?i \<le> ri_count x" by force
    ultimately obtain items where
      rest: "full_loop r 1 ?i (budget - ?i) (length es) es = Inr (items, ?i * ?k)" "levelled ?i es items"
      using full_loop_flat [OF i(2)] by blast
    from False i(2) have c: "ri_count e \<noteq> 0" "?i \<le> ri_count e" "0 < ri_count e" by auto
    have "full_loop r 1 ideal budget (length (e # es)) (e # es) =
        Inr (e\<lparr>ri_rate := ?i / ri_count e\<rparr> # items, ?i + ?i * ?k)"
      using False rest(1) c(1) by (simp add: Let_def)
    moreover have "levelled ?i (e # es) (e\<lparr>ri_rate := ?i / ri_count e\<rparr> # items)"
      using rest(2) c i(2) by (simp add: levelled_def)
    moreover have "?i + ?i * ?k = max budget (ideal * of_nat (length (e # es)))"
      using covers by (simp add: algebra_simps)
    moreover have "budget \<le> max budget (ideal * of_nat (length (e # es)))" by simp
    ultimately show ?thesis using i(1) by (metis order_refl)
  qed
qed

lemma levelled_kept: "levelled level es items \<Longrightarrow> kept items = (\<Sum>e \<leftarrow> es. min (ri_count e) level)"
  unfolding levelled_def by (induction rule: list_all2_induct) auto

lemma full_loop_used:
  "full_loop r i ideal budget n es = Inr (items, used) \<Longrightarrow> used = kept items"
proof (induction es arbitrary: ideal budget n items used)
  case (Cons e es)
  then show ?case
    by (auto simp: Let_def bind_result_Inr_iff split: if_splits)
qed simp

lemma levelled_items:
  "levelled level es items \<Longrightarrow>
    map (\<lambda>e. (ri_id e, ri_count e)) items = map (\<lambda>e. (ri_id e, ri_count e)) es
    \<and> list_all (\<lambda>e. 0 \<le> ri_rate e \<and> ri_rate e \<le> 1 \<and> ri_rate e * ri_count e = min (ri_count e) level) items"
  unfolding levelled_def by (induction rule: list_all2_induct) auto

lemma sorted_classes_mset [simp]: "mset (sorted_classes es) = mset es"
  by (simp add: sorted_classes_def)

lemma sorted_classes_set [simp]: "set (sorted_classes es) = set es"
  by (simp add: sorted_classes_def)

lemma sorted_classes_length [simp]: "length (sorted_classes es) = length es"
  by (simp add: sorted_classes_def)

lemma sorted_classes_ascending: "sorted (map ri_count (rev (sorted_classes es)))"
proof -
  have "sorted (map (\<lambda>e. (ri_count e, ri_id e)) (rev (sorted_classes es)))"
    by (simp add: sorted_classes_def)
  then show ?thesis
    unfolding sorted_map by (rule sorted_wrt_mono_rel [rotated]) auto
qed

lemma sum_mset_eq: "mset xs = mset ys \<Longrightarrow> sum_classes_counts xs = sum_classes_counts ys"
  unfolding sum_classes_counts_sum by (metis mset_map sum_mset_sum_list)

lemma sum_sorted_classes [simp]: "sum_classes_counts (sorted_classes es) = sum_classes_counts es"
  by (rule sum_mset_eq) simp

lemma sum_rev [simp]: "sum_classes_counts (rev es) = sum_classes_counts es"
  by (rule sum_mset_eq) simp

text \<open>The model at full intensity, with a minimum that it can spend.\<close>

lemma full_rebalancing_level:
  assumes "classes \<noteq> []" "\<forall>e \<in> set classes. 0 \<le> ri_count e" "0 < sum_classes_counts classes"
    "0 < rate" "rate \<le> 1" "sorted (map ri_count (rev classes))"
    "case min_budget of None \<Rightarrow> True | Some b \<Rightarrow> b \<le> sum_classes_counts classes"
  shows "\<exists>items used level. full_rebalancing classes rate 1 min_budget = Inr (items, used)
    \<and> levelled level (rev classes) items \<and> used = kept items
    \<and> (case min_budget of None \<Rightarrow> used = sum_classes_counts classes * rate
       | Some b \<Rightarrow> b \<le> used \<and> used \<le> max b (sum_classes_counts classes * rate))"
proof -
  let ?all = "sum_classes_counts classes" and ?n = "length classes"
  let ?b = "case min_budget of None \<Rightarrow> ?all * rate | Some b \<Rightarrow> b"
  let ?i = "?all * rate / of_nat ?n"
  have i: "0 < ?i" "?i * of_nat ?n = ?all * rate" using assms(1,3,4) by auto
  have "?all * rate \<le> ?all" using assms(3,5) by (simp add: mult_left_le)
  then have b: "?b \<le> ?all" using assms(7) by (auto split: option.splits)
  have "\<exists>items used level. full_loop rate 1 ?i ?b (length (rev classes)) (rev classes) = Inr (items, used)
    \<and> levelled level (rev classes) items \<and> ?i \<le> level \<and> ?b \<le> used
    \<and> used \<le> max ?b (?i * of_nat (length (rev classes)))"
    using assms(2,6) i(1) b
    by (intro full_loop_level) (auto simp flip: sum_classes_counts_sum simp del: rev_map)
  then obtain items used level where
    l: "full_loop rate 1 ?i ?b ?n (rev classes) = Inr (items, used)" "levelled level (rev classes) items"
      "?b \<le> used" "used \<le> max ?b (?all * rate)" using i(2) by auto
  have "full_rebalancing classes rate 1 min_budget = Inr (items, used)"
    using l(1) b assms(1,4,5) by (simp add: full_rebalancing_def full_valid_def)
  moreover have "used = kept items" using l(1) by (rule full_loop_used)
  ultimately show ?thesis using l(2-4) by (auto split: option.splits)
qed

lemma levelled_mset:
  "levelled level (rev (sorted_classes es)) items \<Longrightarrow>
    mset (map (\<lambda>e. (ri_id e, ri_count e)) items) = mset (map (\<lambda>e. (ri_id e, ri_count e)) es)"
  by (simp add: levelled_items)

definition rates_ok :: "'a item list \<Rightarrow> bool" where
  "rates_ok items = list_all (\<lambda>e. 0 \<le> ri_rate e \<and> ri_rate e \<le> 1) items"

lemma levelled_rates_ok: "levelled level es items \<Longrightarrow> rates_ok items"
  using levelled_items by (fastforce simp: rates_ok_def list_all_iff)

definition classes_of :: "'a item list \<Rightarrow> ('a \<times> rat) list" where
  "classes_of items = map (\<lambda>e. (ri_id e, ri_count e)) items"

section \<open>What the two models return\<close>

lemma levelled_classes:
  "levelled level (rev (sorted_classes es)) items \<Longrightarrow> mset (classes_of items) = mset (classes_of es)"
  using levelled_mset unfolding classes_of_def by blast

text \<open>
  C12. The sample rate of an organization is kept when it is redistributed over its projects: the model
  returns every project with its count, there is one level such that each project keeps as many
  samples as it has, but at most the level, and together they keep exactly the rate.
\<close>

theorem projects_share_one_level:
  assumes "classes \<noteq> []" "list_all (\<lambda>e. 0 \<le> ri_count e) classes" "0 < sum_classes_counts classes"
    "0 < rate" "rate \<le> 1"
  shows "case projects_rebalancing classes rate of
      Inl err \<Rightarrow> False
    | Inr items \<Rightarrow>
        mset (classes_of items) = mset (classes_of classes) \<and>
        (\<exists>level. list_all (\<lambda>e. 0 \<le> ri_rate e \<and> ri_rate e \<le> 1 \<and>
           ri_rate e * ri_count e = min (ri_count e) level) items) \<and>
        kept items = sum_classes_counts classes * rate"
proof -
  let ?cs = "case classes of [c] \<Rightarrow> [c\<lparr>ri_rate := rate\<rparr>] | _ \<Rightarrow> classes"
  have cs: "?cs \<noteq> []" "\<forall>e \<in> set ?cs. 0 \<le> ri_count e" "classes_of ?cs = classes_of classes"
    "sum_classes_counts ?cs = sum_classes_counts classes"
    using assms(1,2) by (auto simp: classes_of_def list_all_iff sum_classes_counts_def split: list.splits)
  have "\<exists>items used level. full_rebalancing (sorted_classes ?cs) rate 1 None = Inr (items, used)
    \<and> levelled level (rev (sorted_classes ?cs)) items \<and> used = kept items
    \<and> (case None of None \<Rightarrow> used = sum_classes_counts (sorted_classes ?cs) * rate
       | Some b \<Rightarrow> b \<le> used \<and> used \<le> max b (sum_classes_counts (sorted_classes ?cs) * rate))"
    using cs assms(3-5) sorted_classes_ascending [of ?cs]
    by (intro full_rebalancing_level) (auto simp flip: length_greater_0_conv)
  then obtain items used level where
    r: "full_rebalancing (sorted_classes ?cs) rate 1 None = Inr (items, used)"
      "levelled level (rev (sorted_classes ?cs)) items" "used = kept items"
      "used = sum_classes_counts classes * rate" using cs(4) by auto
  have "projects_rebalancing classes rate = Inr items"
    using r(1) assms(1,4,5) by (simp add: projects_rebalancing_def)
  moreover have "mset (classes_of items) = mset (classes_of classes)"
    using levelled_classes [OF r(2)] cs(3) by simp
  ultimately show ?thesis using levelled_items [OF r(2)] r(3,4) by auto
qed

definition example_items :: "nat item list" where
  "example_items = [\<lparr>ri_id = 1, ri_count = 3, ri_rate = 0\<rparr>, \<lparr>ri_id = 2, ri_count = 1, ri_rate = 0\<rparr>]"

theorem projects_share_one_level_witness:
  "case projects_rebalancing example_items (1 / 2) of
      Inl err \<Rightarrow> False
    | Inr items \<Rightarrow>
        mset (classes_of items) = mset (classes_of example_items) \<and>
        (\<exists>level. list_all (\<lambda>e. 0 \<le> ri_rate e \<and> ri_rate e \<le> 1 \<and>
           ri_rate e * ri_count e = min (ri_count e) level) items) \<and>
        kept items = sum_classes_counts example_items * (1 / 2)"
  by (rule projects_share_one_level) (simp_all add: example_items_def sum_classes_counts_def)

text \<open>The four cases of the transactions model, with all divisions defined.\<close>

lemma transactions_cases:
  fixes given :: "('a :: linorder) item list" and all rate :: rat and n :: int
  defines "ex \<equiv> sum_classes_counts given"
  defines "im \<equiv> all - ex"
  defines "b \<equiv> all * rate"
  defines "per \<equiv> b / of_int n"
  assumes "full_valid given rate 1" "n \<noteq> 0"
  shows "transactions_rebalancing given rate (Some n) (Some all) 1 =
      (if int (length given) = n then
         bind_result (full_rebalancing (sorted_classes given) rate 1 None) (\<lambda>(items, _). Inr (items, rate))
       else if im < per * of_int (n - int (length given)) then
         bind_result (divide_by (b - im) ex) (\<lambda>explicit_rate.
           bind_result (full_rebalancing (sorted_classes given) explicit_rate 1 None) (\<lambda>(items, _). Inr (items, 1)))
       else if ex < per * of_int (int (length given)) then
         bind_result (divide_by (b - ex) im) (\<lambda>implicit_rate.
           Inr (map (\<lambda>e. e\<lparr>ri_rate := 1\<rparr>) (sorted_classes given), implicit_rate))
       else
         bind_result (divide_by (per * of_int (int (length given))) ex) (\<lambda>explicit_rate.
           bind_result (full_rebalancing (sorted_classes given) explicit_rate 1 (Some (b - im))) (\<lambda>(items, used).
             bind_result (divide_by (b - used) im) (\<lambda>implicit_rate. Inr (items, implicit_rate)))))"
proof -
  have d: "divide_by b (of_int n) = Inr per" using assms(6) by (simp add: divide_by_def per_def)
  show ?thesis
    unfolding transactions_rebalancing_def Let_def
    by (simp only: assms(5) not_True_eq_False if_False option.case sum_sorted_classes sorted_classes_length d
        bind_result.simps flip: ex_def im_def b_def)
qed

lemma bind_divide: "y \<noteq> 0 \<Longrightarrow> bind_result (divide_by x y) f = f (x / y)"
  by (simp add: divide_by_def)

lemma kept_all: "kept (map (\<lambda>e. e\<lparr>ri_rate := 1\<rparr>) es) = sum_classes_counts es"
  unfolding sum_classes_counts_sum kept_def by (induction es) auto

lemma classes_of_rate [simp]: "classes_of (map (\<lambda>e. e\<lparr>ri_rate := r e\<rparr>) es) = classes_of es"
  by (simp add: classes_of_def)

lemma classes_of_sorted [simp]: "mset (classes_of (sorted_classes es)) = mset (classes_of es)"
  by (simp add: classes_of_def)

text \<open>
  Rebalancing the transactions of a project at full intensity keeps the overall rate: what the
  named transactions keep at their rates, and the others at the rate for the rest, is the total times
  the sample rate, whether or not all transactions are named and whichever of the two groups cannot use
  its share. All rates lie between 0 and 1, and each named transaction comes back with its count.
\<close>

theorem transactions_keep_the_rate:
  assumes "given \<noteq> []" "list_all (\<lambda>e. 0 \<le> ri_count e) given" "0 < sum_classes_counts given"
    "0 < rate" "rate \<le> 1" "sum_classes_counts given \<le> all" "int (length given) \<le> n"
  shows "case transactions_rebalancing given rate (Some n) (Some all) 1 of
      Inl err \<Rightarrow> False
    | Inr (items, implicit_rate) \<Rightarrow>
        mset (classes_of items) = mset (classes_of given) \<and>
        rates_ok items \<and> 0 \<le> implicit_rate \<and> implicit_rate \<le> 1 \<and>
        kept items + implicit_rate * (all - sum_classes_counts given) = all * rate"
proof -
  let ?cs = "sorted_classes given" and ?k = "of_int (int (length given)) :: rat" and ?n = "of_int n :: rat"
  define ex im b where "ex = sum_classes_counts given" and "im = all - ex" and "b = all * rate"
  define per where "per = b / ?n"
  have k: "0 < ?k" "?k \<le> ?n" "n \<noteq> 0" using assms(1,7) by auto
  have pos: "0 < ex" "0 \<le> im" "0 < b" "b \<le> ex + im" "0 < per" "per * ?k \<le> b" "per * ?n = b"
    using assms k by (auto simp: ex_def im_def b_def per_def mult_left_le divide_le_eq)
  have rest: "per * of_int (n - int (length given)) = b - per * ?k"
    using pos(7) by (simp add: algebra_simps)
  have cs: "?cs \<noteq> []" "\<forall>e \<in> set ?cs. 0 \<le> ri_count e" "0 < sum_classes_counts ?cs"
    using assms(1-3) by (auto simp: list_all_iff simp flip: length_greater_0_conv)
  note level = full_rebalancing_level [OF cs _ _ sorted_classes_ascending, unfolded sum_sorted_classes, folded ex_def]
  have valid: "full_valid given rate 1" using assms(1,4,5) by (simp add: full_valid_def)
  note run = transactions_cases [OF valid k(3), of all, folded ex_def, folded im_def b_def, folded per_def,
    unfolded rest]
  consider (all_named) "int (length given) = n"
    | (all_others) "int (length given) \<noteq> n" "im < b - per * ?k"
    | (all_given) "int (length given) \<noteq> n" "\<not> im < b - per * ?k" "ex < per * ?k"
    | (both) "int (length given) \<noteq> n" "\<not> im < b - per * ?k" "\<not> ex < per * ?k" by blast
  then show ?thesis
  proof cases
    case all_named
    from level [of rate None] assms(4,5) obtain items level where
      r: "full_rebalancing ?cs rate 1 None = Inr (items, ex * rate)" "levelled level (rev ?cs) items"
        "kept items = ex * rate" by auto
    have "kept items + rate * im = b" using r(3) by (simp add: im_def b_def algebra_simps)
    then show ?thesis
      using levelled_classes [OF r(2)] levelled_rates_ok [OF r(2)] assms(4,5) r(1) all_named
      by (simp add: run flip: ex_def im_def b_def)
  next
    case all_others
    let ?r = "(b - im) / ex"
    have "0 < per * ?k" using pos(5) k(1) by (rule mult_pos_pos)
    then have bi: "0 < b - im" using all_others(2) by linarith
    have r0: "0 < ?r" "?r \<le> 1" "?r * ex = b - im"
      using bi pos(1,4) by (simp_all add: divide_le_eq)
    from level [of ?r None] r0 obtain items level where
      r: "full_rebalancing ?cs ?r 1 None = Inr (items, b - im)" "levelled level (rev ?cs) items"
        "kept items = b - im" by (auto simp: mult.commute)
    show ?thesis
      using levelled_classes [OF r(2)] levelled_rates_ok [OF r(2)] r all_others pos(1)
      by (simp add: run bind_divide flip: ex_def im_def b_def)
  next
    case all_given
    have im: "0 < im" using all_given(1,2) k pos by (cases "im = 0") auto
    have i: "0 \<le> (b - ex) / im" "(b - ex) / im \<le> 1" using im all_given(3) pos by auto
    show ?thesis
      using all_given im i
      by (simp add: run bind_divide kept_all rates_ok_def list_all_iff
          flip: ex_def im_def b_def)
  next
    case both
    let ?r = "per * ?k / ex"
    have r0: "0 < ?r" "?r \<le> 1" "?r * ex = per * ?k" using both(3) pos k by auto
    from level [of ?r "Some (b - im)"] r0 pos(4) obtain items used level where
      r: "full_rebalancing ?cs ?r 1 (Some (b - im)) = Inr (items, used)" "levelled level (rev ?cs) items"
        "kept items = used" "b - im \<le> used" "used \<le> max (b - im) (per * ?k)" by (auto simp: mult.commute)
    have im: "0 < im" using both(1,2) k pos by (cases "im = 0") auto
    have i: "0 \<le> (b - used) / im" "(b - used) / im \<le> 1" using im r(4,5) pos(2,6) by auto
    show ?thesis
      using levelled_classes [OF r(2)] levelled_rates_ok [OF r(2)] r(1,3) both im i pos(1)
      by (simp add: run bind_divide flip: ex_def im_def b_def)
  qed
qed

text \<open>So the rate for the rest is a rate, also when the sample rate or all counts are 0.\<close>

lemma full_loop_zero:
  assumes "full_loop 0 1 0 budget (length es) es = Inr (items, used)" "budget \<le> 0" "list_all (\<lambda>e. 0 \<le> ri_count e) es"
  shows "used = 0"
  using assms
proof (induction es arbitrary: items used)
  case (Cons e es)
  have n: "next_ideal 0 budget (Suc (length es)) = 0" using Cons.prems(2) by (simp add: next_ideal_def)
  from Cons.prems(1,3) obtain items' used' where "full_loop 0 1 0 budget (length es) es = Inr (items', used')" "used = used'"
    by (auto simp: n Let_def bind_result_Inr_iff split: if_splits)
  with Cons.IH Cons.prems(2,3) show ?case by simp
qed simp

lemma implicit_rate_ok:
  assumes r: "transactions_rebalancing given rate classes known_total 1 = Inr (items, implicit)"
    and counts: "list_all (\<lambda>e. 0 \<le> ri_count e) given"
    and classes: "case classes of None \<Rightarrow> True | Some n \<Rightarrow> int (length given) \<le> n"
    and known_total: "case known_total of None \<Rightarrow> True | Some t \<Rightarrow> sum_classes_counts given \<le> t"
  shows "0 \<le> implicit \<and> implicit \<le> 1"
proof -
  define ex where "ex = sum_classes_counts given"
  define all where "all = (case known_total of None \<Rightarrow> ex | Some t \<Rightarrow> t)"
  define n where "n = (case classes of None \<Rightarrow> int (length given) | Some n \<Rightarrow> n)"
  have valid: "full_valid given rate 1" using r by (simp add: transactions_rebalancing_def split: if_splits)
  have r': "transactions_rebalancing given rate (Some n) (Some all) 1 = Inr (items, implicit)"
    unfolding r [symmetric] transactions_rebalancing_def Let_def n_def all_def ex_def
    by (simp only: option.case sum_sorted_classes sorted_classes_length)
  have ge: "int (length given) \<le> n" "ex \<le> all" using classes known_total by (auto simp: n_def all_def ex_def split: option.splits)
  have ne: "n \<noteq> 0" "given \<noteq> []" using valid ge(1) by (auto simp: full_valid_def)
  have ex: "0 \<le> ex" unfolding ex_def sum_classes_counts_sum using counts by (intro sum_list_nonneg) (auto simp: list_all_iff)
  have rate: "0 \<le> rate" "rate \<le> 1" using valid by (simp_all add: full_valid_def)
  note run = transactions_cases [OF valid ne(1), of all, unfolded r', folded ex_def, symmetric]
  consider (named) "int (length given) = n" | (pos) "0 < ex" "0 < rate" | (zero) "int (length given) < n" "rate = 0"
    | (empty) "int (length given) < n" "ex = 0" "0 < rate" using ge(1) ex rate by linarith
  then show ?thesis
  proof cases
    case named
    then show ?thesis using run rate by (auto simp: bind_result_Inr_iff)
  next
    case pos
    then show ?thesis
      using transactions_keep_the_rate [OF ne(2) counts _ _ rate(2), of all n] ge r' by (simp add: ex_def)
  next
    case zero
    have "0 \<le> all - ex" using ge(2) by simp
    with run zero ex obtain used where used: "full_rebalancing (sorted_classes given) 0 1 (Some (- (all - ex))) = Inr (items, used)"
        "divide_by (- used) (all - ex) = Inr implicit"
      by (auto simp: bind_result_Inr_iff divide_by_def split: if_splits)
    then have "full_loop 0 1 0 (- (all - ex)) (length (rev (sorted_classes given))) (rev (sorted_classes given)) = Inr (items, used)"
      by (simp add: full_rebalancing_def Let_def split: if_splits)
    then have "used = 0" by (rule full_loop_zero) (use ge(2) counts in \<open>simp_all add: list_all_iff\<close>)
    with used(2) show ?thesis by (auto simp: divide_by_def split: if_splits)
  next
    case empty
    have "implicit = rate"
      using run empty by (auto simp: bind_result_Inr_iff divide_by_def split: if_splits)
    with rate show ?thesis by simp
  qed
qed

theorem transactions_keep_the_rate_witness:
  "case transactions_rebalancing example_items (1 / 10) (Some 3) (Some 40) 1 of
      Inl err \<Rightarrow> False
    | Inr (items, implicit_rate) \<Rightarrow>
        mset (classes_of items) = mset (classes_of example_items) \<and>
        rates_ok items \<and> 0 \<le> implicit_rate \<and> implicit_rate \<le> 1 \<and>
        kept items + implicit_rate * (40 - sum_classes_counts example_items) = 40 * (1 / 10)"
  by (rule transactions_keep_the_rate) (simp_all add: example_items_def sum_classes_counts_def)

section \<open>Any intensity\<close>

lemma desired_count_nonneg:
  assumes "0 \<le> rate" "0 \<le> intensity" "intensity \<le> 1" "0 \<le> ideal" "0 \<le> c"
  shows "0 \<le> desired_count rate intensity ideal c"
proof -
  have "desired_count rate intensity ideal c = (1 - intensity) * (c * rate) + intensity * ideal"
    by (simp add: desired_count_def algebra_simps)
  then show ?thesis using assms by simp
qed

lemma full_loop_rates:
  assumes "0 \<le> rate" "0 \<le> intensity" "intensity \<le> 1" "0 \<le> ideal" "\<forall>e \<in> set es. 0 < ri_count e"
  shows "\<exists>items used. full_loop rate intensity ideal budget (length es) es = Inr (items, used) \<and> rates_ok items
    \<and> classes_of items = classes_of es"
  using assms(4,5)
proof (induction es arbitrary: ideal budget)
  case Nil
  then show ?case by (simp add: rates_ok_def classes_of_def)
next
  case (Cons e es)
  let ?i = "next_ideal ideal budget (Suc (length es))"
  have i: "0 \<le> ?i" using next_ideal_ge [of ideal budget "length es"] Cons.prems(1) by simp
  have c: "0 < ri_count e" and rest: "\<forall>e \<in> set es. 0 < ri_count e" using Cons.prems(2) by auto
  have d: "0 \<le> desired_count rate intensity ?i (ri_count e)"
    using assms(1-3) i c by (simp add: desired_count_nonneg)
  let ?d = "desired_count rate intensity ?i (ri_count e)"
  let ?u = "if ?d > ri_count e then ri_count e else ?d"
  from Cons.IH [OF i rest, of "budget - ?u"] obtain items used where
    "full_loop rate intensity ?i (budget - ?u) (length es) es = Inr (items, used)" "rates_ok items"
    "classes_of items = classes_of es" by auto
  then show ?case
    using c d by (cases "ri_count e < ?d") (simp_all add: Let_def rates_ok_def classes_of_def)
qed

text \<open>
  Whatever the intensity, the full rebalancing returns a rate between 0 and 1 for every class, as long
  as the classes are not empty and the budget asked for can be spent.
\<close>

theorem full_rebalancing_returns_rates:
  assumes "full_valid classes rate intensity" "list_all (\<lambda>e. 0 < ri_count e) classes"
    "case min_budget of None \<Rightarrow> True | Some b \<Rightarrow> b \<le> sum_classes_counts classes"
  shows "case full_rebalancing classes rate intensity min_budget of
      Inl err \<Rightarrow> False
    | Inr (items, used) \<Rightarrow> rates_ok items \<and> used = kept items \<and> classes_of items = classes_of (rev classes)"
proof -
  let ?all = "sum_classes_counts classes"
  let ?b = "case min_budget of None \<Rightarrow> ?all * rate | Some b \<Rightarrow> b"
  have v: "0 \<le> rate" "rate \<le> 1" "0 \<le> intensity" "intensity \<le> 1" using assms(1) by (auto simp: full_valid_def)
  have all: "0 \<le> ?all" using assms(2) unfolding sum_classes_counts_sum
    by (intro sum_list_nonneg) (auto simp: list_all_iff less_imp_le)
  then have b: "?b \<le> ?all" using assms(3) v by (auto simp: mult_left_le split: option.splits)
  from full_loop_rates [OF v(1,3,4), of "?all * rate / of_nat (length classes)" "rev classes" ?b]
  obtain items used where
    l: "full_loop rate intensity (?all * rate / of_nat (length classes)) ?b (length classes) (rev classes) =
        Inr (items, used)" "rates_ok items" "classes_of items = classes_of (rev classes)"
    using all v(1) assms(2) by (auto simp: list_all_iff)
  then have "full_rebalancing classes rate intensity min_budget = Inr (items, used)"
    using b assms(1) by (simp add: full_rebalancing_def)
  then show ?thesis using l(2,3) full_loop_used [OF l(1)] by simp
qed

theorem full_rebalancing_returns_rates_witness:
  "case full_rebalancing example_items (1 / 2) (1 / 2) (Some 1) of
      Inl err \<Rightarrow> False
    | Inr (items, used) \<Rightarrow> rates_ok items \<and> used = kept items \<and> classes_of items = classes_of (rev example_items)"
  by (rule full_rebalancing_returns_rates)
    (simp_all add: example_items_def sum_classes_counts_def full_valid_def)

definition uneven_items :: "nat item list" where
  "uneven_items = [\<lparr>ri_id = 1, ri_count = 1000, ri_rate = 0\<rparr>, \<lparr>ri_id = 4, ri_count = 10, ri_rate = 0\<rparr>,
     \<lparr>ri_id = 3, ri_count = 10, ri_rate = 0\<rparr>, \<lparr>ri_id = 2, ri_count = 10, ri_rate = 0\<rparr>,
     \<lparr>ri_id = 6, ri_count = 5, ri_rate = 0\<rparr>, \<lparr>ri_id = 5, ri_count = 5, ri_rate = 0\<rparr>]"

text \<open>
  Below full intensity the overall rate is not maintained, although the model documents that it is.
  Two classes with 3 and 1 samples at the rate 1/2 keep 17/8 samples instead of 2 at intensity 1/2.
  With six uneven transactions that are named and one that is not, the named ones take more than the
  whole budget, and the rate for the rest comes out negative.
\<close>

theorem partial_intensity_overspends:
  "(case full_rebalancing example_items (1 / 2) (1 / 2) None of
      Inl err \<Rightarrow> False
    | Inr (items, used) \<Rightarrow> used = 17 / 8 \<and> used > sum_classes_counts example_items * (1 / 2))
   \<and> (case transactions_rebalancing uneven_items (1 / 10) (Some 7) (Some 1058) (1 / 2) of
        Inl err \<Rightarrow> False
      | Inr (items, implicit_rate) \<Rightarrow> implicit_rate < 0)"
proof -
  have "sorted_classes uneven_items = uneven_items"
    by (simp add: sorted_classes_def uneven_items_def)
  then show ?thesis
    by (simp add: example_items_def uneven_items_def full_rebalancing_def full_valid_def sum_classes_counts_def
        transactions_rebalancing_def divide_by_def next_ideal_def desired_count_def)
qed

end
