(* ===== verification/CustomRules.thy ===== *)
theory CustomRules
  imports PyValue
begin

text \<open>
  Custom rules of dynamic sampling (\<open>models/dynamicsampling.py\<close>): rules that users create for a query,
  found again by a hash of their condition and projects, numbered within their organization, and
  limited in number. The state is the table; the organization and the projects of a request exist, and
  the clock is read once for an operation. SHA1, the text of floats and the order in which the database
  returns rows without an ORDER BY are arguments. The endpoint that users call
  (\<open>api/endpoints/custom_rules.py\<close>) is there with the conversion of a query to a condition as an
  argument. Not modelled: metrics, serialisation of conditions, the permission checks of \<open>get_projects\<close>
  beyond what it returns.
\<close>

section \<open>Hashes of rules\<close>

fun order_string :: "(rat \<Rightarrow> string) \<Rightarrow> pyval \<Rightarrow> string"
  and order_strings :: "(rat \<Rightarrow> string) \<Rightarrow> pyval list \<Rightarrow> string list"
  and order_pairs :: "(rat \<Rightarrow> string) \<Rightarrow> (string \<times> pyval) list \<Rightarrow> (string \<times> string) list" where
  "order_string fs (PDict d) =
     concat (map (\<lambda>(k, s). k @ '':'' @ s @ ''-'') (sort_key fst (order_pairs fs d)))"
| "order_string fs (PList xs) = concat (map (\<lambda>s. s @ ''-'') (sort (order_strings fs xs)))"
| "order_string fs PNone = ''None''"
| "order_string fs (PBool b) = (if b then ''True'' else ''False'')"
| "order_string fs (PInt i) = int_str i"
| "order_string fs (PFloat q) = fs q"
| "order_string fs (PStr s) = s"
| "order_strings fs [] = []"
| "order_strings fs (x # xs) = order_string fs x # order_strings fs xs"
| "order_pairs fs [] = []"
| "order_pairs fs ((k, v) # d) = (k, order_string fs v) # order_pairs fs d"

definition get_rule_hash :: "(string \<Rightarrow> string) \<Rightarrow> (rat \<Rightarrow> string) \<Rightarrow> pyval \<Rightarrow> int list \<Rightarrow> string" where
  "get_rule_hash sha1 fs condition project_ids =
     sha1 (order_string fs condition @ ''-'' @ order_string fs (PList (map PInt project_ids)))"

section \<open>The table\<close>

definition MAX_CUSTOM_RULES :: nat where "MAX_CUSTOM_RULES = 2000"
definition CUSTOM_RULE_START :: nat where "CUSTOM_RULE_START = 3000"
definition MAX_CUSTOM_RULES_PER_PROJECT :: nat where "MAX_CUSTOM_RULES_PER_PROJECT = 50"

text \<open>Times are in seconds.\<close>

record custom_rule =
  cr_pk :: nat
  cr_org :: nat
  cr_projects :: "int list"
  cr_active :: bool
  cr_org_level :: bool
  cr_rule_id :: nat
  cr_condition :: pyval
  cr_sample_rate :: rat
  cr_start :: int
  cr_end :: int
  cr_num_samples :: int
  cr_hash :: string
  cr_query :: "string option"
  cr_notification_sent :: "bool option"
  cr_created_by :: "nat option"

record custom_rules =
  cr_rows :: "custom_rule list"
  cr_next_pk :: nat

record rule_request =
  rq_condition :: pyval
  rq_start :: int
  rq_end :: int
  rq_projects :: "int list"
  rq_org :: nat
  rq_num_samples :: int
  rq_sample_rate :: rat
  rq_query :: string
  rq_created_by :: "nat option"

text \<open>What the code asks of its surroundings.\<close>

record rule_env =
  re_sha1 :: "string \<Rightarrow> string"
  re_float_str :: "rat \<Rightarrow> string"
  re_rank :: "custom_rule \<Rightarrow> nat"
  re_project_org :: "int \<Rightarrow> nat option"
  re_active_projects :: "int list"
  re_access :: "int \<Rightarrow> bool"

text \<open>A query without an order returns its rows by the rank that the database gives them.\<close>

definition fetch :: "rule_env \<Rightarrow> (custom_rule \<Rightarrow> bool) \<Rightarrow> custom_rules \<Rightarrow> custom_rule list" where
  "fetch e P db = sort_key (re_rank e) (filter P (cr_rows db))"

definition org_projects :: "rule_env \<Rightarrow> nat \<Rightarrow> int list" where
  "org_projects e org = filter (\<lambda>p. re_project_org e p = Some org) (re_active_projects e)"

definition existing_projects :: "rule_env \<Rightarrow> int list \<Rightarrow> int list" where
  "existing_projects e ps = filter (\<lambda>p. re_project_org e p \<noteq> None) ps"

definition external_rule_id :: "custom_rule \<Rightarrow> nat" where
  "external_rule_id r = cr_rule_id r + CUSTOM_RULE_START"

definition request_hash :: "rule_env \<Rightarrow> pyval \<Rightarrow> int list \<Rightarrow> string" where
  "request_hash e condition project_ids = get_rule_hash (re_sha1 e) (re_float_str e) condition project_ids"

definition get_rule_for_org ::
  "rule_env \<Rightarrow> pyval \<Rightarrow> nat \<Rightarrow> int list \<Rightarrow> int \<Rightarrow> custom_rules \<Rightarrow> custom_rule option" where
  "get_rule_for_org e condition org project_ids now db =
     (case fetch e (\<lambda>r. cr_org r = org \<and> cr_hash r = request_hash e condition project_ids
             \<and> cr_active r \<and> cr_end r > now) db of
        [] \<Rightarrow> None
      | r # _ \<Rightarrow> Some r)"

definition num_active_rules_for_project :: "nat \<Rightarrow> int \<Rightarrow> int \<Rightarrow> custom_rules \<Rightarrow> nat" where
  "num_active_rules_for_project org project now db =
     (let num_org_rules = length (filter (\<lambda>r. cr_active r \<and> cr_org_level r \<and> cr_org r = org
            \<and> cr_end r > now \<and> cr_start r \<le> now) (cr_rows db));
          num_proj_rules = length (filter (\<lambda>r. cr_active r \<and> \<not> cr_org_level r \<and> project \<in> set (cr_projects r)
            \<and> cr_end r > now \<and> cr_start r \<le> now) (cr_rows db))
      in num_proj_rules + num_org_rules)"

definition per_project_limit_reached :: "rule_env \<Rightarrow> int list \<Rightarrow> nat \<Rightarrow> int \<Rightarrow> custom_rules \<Rightarrow> bool" where
  "per_project_limit_reached e projects org now db =
     list_ex (\<lambda>p. num_active_rules_for_project org p now db \<ge> MAX_CUSTOM_RULES_PER_PROJECT)
       (if projects = [] then org_projects e org else projects)"

definition update_rule :: "nat \<Rightarrow> (custom_rule \<Rightarrow> custom_rule) \<Rightarrow> custom_rules \<Rightarrow> custom_rules" where
  "update_rule pk f db = db\<lparr>cr_rows := map (\<lambda>r. if cr_pk r = pk then f r else r) (cr_rows db)\<rparr>"

text \<open>
  \<open>assign_rule_id\<close>: the SQL takes the least id of the table whose successor is not taken in the
  organization, and adds one. The new row is in the table, with the id 0.
\<close>

definition taken_ids :: "nat \<Rightarrow> int \<Rightarrow> custom_rule list \<Rightarrow> nat list" where
  "taken_ids org now rs = map cr_rule_id (filter (\<lambda>r. cr_org r = org \<and> cr_end r > now \<and> cr_active r) rs)"

definition assigned_id :: "nat \<Rightarrow> int \<Rightarrow> custom_rule list \<Rightarrow> nat" where
  "assigned_id org now rs =
     (case sort (filter (\<lambda>i. i + 1 \<notin> set (taken_ids org now rs)) (map cr_rule_id rs)) of
        [] \<Rightarrow> 1
      | i # _ \<Rightarrow> i + 1)"

definition assign_rule_id :: "custom_rule \<Rightarrow> int \<Rightarrow> custom_rules \<Rightarrow> (nat \<times> custom_rules) result" where
  "assign_rule_id r now db =
     (if cr_rule_id r \<noteq> 0 then Inl ValueError
      else
        let i = assigned_id (cr_org r) now (cr_rows db)
        in Inr (i, update_rule (cr_pk r) (\<lambda>r. r\<lparr>cr_rule_id := i\<rparr>) db))"

text \<open>\<open>update_or_create\<close>: an exception rolls the transaction back.\<close>

definition new_rule :: "rule_env \<Rightarrow> rule_request \<Rightarrow> nat \<Rightarrow> custom_rule" where
  "new_rule e q pk =
     \<lparr>cr_pk = pk, cr_org = rq_org q, cr_projects = [], cr_active = True, cr_org_level = (rq_projects q = []),
      cr_rule_id = 0, cr_condition = rq_condition q, cr_sample_rate = rq_sample_rate q, cr_start = rq_start q,
      cr_end = rq_end q, cr_num_samples = rq_num_samples q,
      cr_hash = request_hash e (rq_condition q) (rq_projects q), cr_query = Some (rq_query q),
      cr_notification_sent = Some False, cr_created_by = rq_created_by q\<rparr>"

definition extend_rule :: "rule_request \<Rightarrow> custom_rule \<Rightarrow> custom_rule" where
  "extend_rule q r =
     r\<lparr>cr_end := max (rq_end q) (cr_end r), cr_num_samples := max (rq_num_samples q) (cr_num_samples r),
       cr_sample_rate := max (rq_sample_rate q) (cr_sample_rate r)\<rparr>"

definition update_or_create ::
  "rule_env \<Rightarrow> rule_request \<Rightarrow> int \<Rightarrow> custom_rules \<Rightarrow> nat result \<times> custom_rules" where
  "update_or_create e q now db =
     (case get_rule_for_org e (rq_condition q) (rq_org q) (rq_projects q) now db of
        Some r \<Rightarrow> (Inr (cr_pk r), update_rule (cr_pk r) (extend_rule q) db)
      | None \<Rightarrow>
          let projects = existing_projects e (rq_projects q)
          in if per_project_limit_reached e projects (rq_org q) now db
             then (Inl (OtherError ''TooManyRules''), db)
             else
               let r = new_rule e q (cr_next_pk db);
                   db1 = db\<lparr>cr_rows := cr_rows db @ [r], cr_next_pk := Suc (cr_next_pk db)\<rparr>
               in case assign_rule_id r now db1 of
                    Inl err \<Rightarrow> (Inl err, db)
                  | Inr (i, db2) \<Rightarrow>
                      if i > MAX_CUSTOM_RULES then (Inl (OtherError ''TooManyRules''), db)
                      else if \<not> distinct projects then (Inl (OtherError ''IntegrityError''), db)
                      else (Inr (cr_pk r), update_rule (cr_pk r) (\<lambda>r. r\<lparr>cr_projects := projects\<rparr>) db2))"

definition deactivate_old_rules :: "int \<Rightarrow> custom_rules \<Rightarrow> custom_rules" where
  "deactivate_old_rules now db =
     db\<lparr>cr_rows := map (\<lambda>r. if cr_end r < now - 60 then r\<lparr>cr_active := False\<rparr> else r) (cr_rows db)\<rparr>"

definition deactivate_expired_rules :: "int \<Rightarrow> custom_rules \<Rightarrow> custom_rules" where
  "deactivate_expired_rules now db =
     db\<lparr>cr_rows := map (\<lambda>r. if cr_end r < now \<and> cr_active r then r\<lparr>cr_active := False\<rparr> else r) (cr_rows db)\<rparr>"

definition get_project_rules :: "rule_env \<Rightarrow> nat \<Rightarrow> int \<Rightarrow> int \<Rightarrow> custom_rules \<Rightarrow> custom_rule list" where
  "get_project_rules e org project now db =
     (let n = MAX_CUSTOM_RULES_PER_PROJECT + 1;
          live = (\<lambda>r. cr_active r \<and> cr_end r > now \<and> cr_start r < now);
          org_rules = take n (fetch e (\<lambda>r. live r \<and> cr_org_level r \<and> cr_org r = org) db);
          project_rules = take n (fetch e (\<lambda>r. live r \<and> project \<in> set (cr_projects r)) db);
          rules = take n (sort_key (re_rank e) (remdups (project_rules @ org_rules)))
      in take MAX_CUSTOM_RULES_PER_PROJECT rules)"

section \<open>The endpoint\<close>

definition NUM_SAMPLES_PER_CUSTOM_RULE :: int where "NUM_SAMPLES_PER_CUSTOM_RULE = 100"

definition clean_project_list :: "int list \<Rightarrow> int list" where
  "clean_project_list ps = (if length ps = 1 \<and> hd ps = - 1 then [] else ps)"

definition validate_projects :: "rule_env \<Rightarrow> int list \<Rightarrow> int list result" where
  "validate_projects e ps =
     (let ps' = clean_project_list ps
      in if list_all (\<lambda>p. p \<in> set (existing_projects e ps')) ps' then Inr ps'
         else Inl (OtherError ''ValidationError''))"

text \<open>\<open>get_projects\<close> accepts ids of active projects of the organization that the user may see.\<close>

definition get_projects_ok :: "rule_env \<Rightarrow> nat \<Rightarrow> int list \<Rightarrow> bool" where
  "get_projects_ok e org ps = list_all (\<lambda>p. p \<in> set (org_projects e org) \<and> re_access e p) ps"

text \<open>The answer: a status and the rule. Configurations are invalidated for the projects, or for all.\<close>

definition invalidations :: "nat \<Rightarrow> int list \<Rightarrow> (nat option \<times> int option) list" where
  "invalidations org ps = (if ps = [] then [(Some org, None)] else map (\<lambda>p. (None, Some p)) ps)"

definition post_custom_rule ::
  "rule_env \<Rightarrow> nat \<Rightarrow> nat option \<Rightarrow> int list \<Rightarrow> string \<Rightarrow> pyval result \<Rightarrow> int \<Rightarrow> custom_rules \<Rightarrow>
   (nat \<times> nat option) \<times> (nat option \<times> int option) list \<times> custom_rules" where
  "post_custom_rule e org user ps query condition now db =
     (case validate_projects e ps of
        Inl _ \<Rightarrow> ((400, None), [], db)
      | Inr project_ids \<Rightarrow>
          if \<not> get_projects_ok e org project_ids then ((403, None), [], db)
          else
            (case condition of
               Inl _ \<Rightarrow> ((400, None), [], db)
             | Inr c \<Rightarrow>
                 (case update_or_create e \<lparr>rq_condition = c, rq_start = now, rq_end = now + 172800,
                       rq_projects = project_ids, rq_org = org, rq_num_samples = NUM_SAMPLES_PER_CUSTOM_RULE,
                       rq_sample_rate = 1, rq_query = query, rq_created_by = user\<rparr> now db of
                    (Inr pk, db') \<Rightarrow> ((200, Some pk), invalidations org project_ids, db')
                  | (Inl err, db') \<Rightarrow>
                      ((if err = OtherError ''TooManyRules'' then 429 else 400, None), [], db'))))"

definition get_custom_rule ::
  "rule_env \<Rightarrow> nat \<Rightarrow> int list \<Rightarrow> pyval result \<Rightarrow> int \<Rightarrow> custom_rules \<Rightarrow> nat \<times> nat option" where
  "get_custom_rule e org ps condition now db =
     (let project_ids = clean_project_list ps
      in if \<not> get_projects_ok e org project_ids then (403, None)
         else if \<not> list_all (\<lambda>p. p \<in> set (existing_projects e project_ids)) project_ids then (400, None)
         else
           (case condition of
              Inl _ \<Rightarrow> (400, None)
            | Inr c \<Rightarrow>
                (case get_rule_for_org e c org project_ids now db of
                   None \<Rightarrow> (204, None)
                 | Some r \<Rightarrow>
                     if cr_org_level r then (200, Some (cr_pk r))
                     else if project_ids = [] then (204, None)
                     else if list_all (\<lambda>p. p \<in> set (cr_projects r)) project_ids then (200, Some (cr_pk r))
                     else (204, None))))"

section \<open>The id that is assigned\<close>

text \<open>The least positive id that is free, as long as the table has the new row, whose id is 0.\<close>

lemma free_id_exists:
  assumes "set taken \<subseteq> set ids" "(0 :: nat) \<in> set ids"
  shows "\<exists>i \<in> set ids. i + 1 \<notin> set taken"
proof -
  have "Max (set ids) \<in> set ids" using assms(2) by (intro Max_in) auto
  moreover have "k \<le> Max (set ids)" if "k \<in> set ids" for k using that by simp
  then have "Max (set ids) + 1 \<notin> set ids" by (metis add.commute not_less_eq_eq order_refl plus_1_eq_Suc)
  ultimately show ?thesis using assms(1) by blast
qed

lemma sort_Cons_least: "sort xs = x # ys \<Longrightarrow> x \<in> set xs \<and> (\<forall>y \<in> set xs. x \<le> y)"
proof -
  assume s: "sort xs = x # ys"
  then have "sorted (x # ys)" by (metis sorted_sort)
  moreover have "set xs = set (x # ys)" using s by (metis set_sort)
  ultimately show ?thesis by simp
qed

lemma assigned_id_least:
  assumes "0 \<in> set (map cr_rule_id rs)"
  shows "assigned_id org now rs \<notin> set (taken_ids org now rs) \<and> 0 < assigned_id org now rs
    \<and> (\<forall>j. 0 < j \<and> j < assigned_id org now rs \<longrightarrow> j \<in> set (taken_ids org now rs))"
proof -
  let ?ids = "map cr_rule_id rs" and ?taken = "set (taken_ids org now rs)"
  let ?free = "filter (\<lambda>i. i + 1 \<notin> ?taken) ?ids"
  have sub: "?taken \<subseteq> set ?ids" by (auto simp: taken_ids_def)
  have "?free \<noteq> []" using free_id_exists [OF sub assms] by (auto simp: filter_empty_conv)
  then have "sort ?free \<noteq> []" by (metis set_empty set_sort)
  then obtain i rest where s: "sort ?free = i # rest" by (cases "sort ?free") auto
  then have a: "assigned_id org now rs = i + 1" by (simp add: assigned_id_def)
  from sort_Cons_least [OF s] have i: "i + 1 \<notin> ?taken"
    and least: "k \<in> set ?ids \<Longrightarrow> k + 1 \<notin> ?taken \<Longrightarrow> i \<le> k" for k by auto
  have "j < i + 1 \<Longrightarrow> 0 < j \<Longrightarrow> j \<in> ?taken" for j
  proof (induction j)
    case (Suc k)
    then have "k = 0 \<or> k \<in> ?taken" by (cases "k = 0") auto
    then have "k \<in> set ?ids" using assms sub by auto
    with least [of k] Suc.prems show ?case by fastforce
  qed simp
  then show ?thesis using i a by auto
qed

section \<open>The rules of an organization have ids of their own\<close>

definition live :: "int \<Rightarrow> custom_rule \<Rightarrow> bool" where
  "live now r = (cr_active r \<and> cr_end r > now)"

definition ids_ok :: "int \<Rightarrow> custom_rules \<Rightarrow> bool" where
  "ids_ok now db =
     (distinct (map cr_pk (cr_rows db)) \<and>
      (\<forall>r \<in> set (cr_rows db). cr_pk r < cr_next_pk db \<and> 1 \<le> cr_rule_id r \<and> cr_rule_id r \<le> MAX_CUSTOM_RULES) \<and>
      (\<forall>r \<in> set (cr_rows db). \<forall>r' \<in> set (cr_rows db).
         live now r \<and> live now r' \<and> cr_org r = cr_org r' \<and> cr_rule_id r = cr_rule_id r' \<longrightarrow> cr_pk r = cr_pk r'))"

definition keeps_ids :: "int \<Rightarrow> int \<Rightarrow> custom_rule \<Rightarrow> custom_rule \<Rightarrow> bool" where
  "keeps_ids now now' r r' = (cr_pk r' = cr_pk r \<and> cr_org r' = cr_org r \<and> cr_rule_id r' = cr_rule_id r
     \<and> (live now' r' \<longrightarrow> live now r))"

definition apart :: "int \<Rightarrow> custom_rule \<Rightarrow> custom_rule \<Rightarrow> bool" where
  "apart now r r' = (live now r \<and> live now r' \<and> cr_org r = cr_org r' \<and> cr_rule_id r = cr_rule_id r' \<longrightarrow> cr_pk r = cr_pk r')"

lemma ids_ok_apart:
  "ids_ok now db \<longleftrightarrow> distinct (map cr_pk (cr_rows db)) \<and>
     (\<forall>r \<in> set (cr_rows db). cr_pk r < cr_next_pk db \<and> 1 \<le> cr_rule_id r \<and> cr_rule_id r \<le> MAX_CUSTOM_RULES) \<and>
     (\<forall>r \<in> set (cr_rows db). \<forall>r' \<in> set (cr_rows db). apart now r r')"
  unfolding ids_ok_def apart_def ..

lemma apart_keeps: "apart now r q \<Longrightarrow> keeps_ids now now' r r' \<Longrightarrow> keeps_ids now now' q q' \<Longrightarrow> apart now' r' q'"
  unfolding apart_def keeps_ids_def by metis

lemma ids_ok_map:
  assumes "ids_ok now db" "\<And>r. r \<in> set (cr_rows db) \<Longrightarrow> keeps_ids now now' r (f r)"
  shows "ids_ok now' (db\<lparr>cr_rows := map f (cr_rows db)\<rparr>)"
proof -
  have pks: "map (cr_pk \<circ> f) (cr_rows db) = map cr_pk (cr_rows db)"
    using assms(2) by (auto simp: keeps_ids_def)
  have ids: "cr_pk (f r) = cr_pk r \<and> cr_rule_id (f r) = cr_rule_id r" if "r \<in> set (cr_rows db)" for r
    using assms(2) [OF that] by (simp add: keeps_ids_def)
  have "apart now' (f r) (f q)" if "r \<in> set (cr_rows db)" "q \<in> set (cr_rows db)" for r q
    using assms(1) that unfolding ids_ok_apart by (blast intro: apart_keeps assms(2))
  then show ?thesis using assms(1) ids unfolding ids_ok_apart by (simp add: pks)
qed

lemma ids_ok_append:
  assumes "ids_ok now db" "cr_pk r = cr_next_pk db" "1 \<le> cr_rule_id r" "cr_rule_id r \<le> MAX_CUSTOM_RULES"
    "\<And>x. x \<in> set (cr_rows db) \<Longrightarrow> live now x \<Longrightarrow> cr_org x = cr_org r \<Longrightarrow> cr_rule_id x \<noteq> cr_rule_id r"
  shows "ids_ok now (db\<lparr>cr_rows := cr_rows db @ [r], cr_next_pk := Suc (cr_next_pk db)\<rparr>)"
proof -
  have pk: "\<And>x. x \<in> set (cr_rows db) \<Longrightarrow> cr_pk x < cr_next_pk db" using assms(1) by (simp add: ids_ok_apart)
  then have "distinct (map cr_pk (cr_rows db @ [r]))"
    using assms(1,2) by (auto simp: ids_ok_apart dest: less_irrefl_nat pk)
  moreover have "apart now x r" "apart now r x" if "x \<in> set (cr_rows db)" for x
    using assms(5) [OF that] unfolding apart_def by auto
  moreover have "apart now r r" by (simp add: apart_def)
  ultimately show ?thesis
    using assms(1-4) pk unfolding ids_ok_apart by (auto intro: less_SucI)
qed

lemma ids_ok_later: "ids_ok now db \<Longrightarrow> now \<le> now' \<Longrightarrow> ids_ok now' db"
  using ids_ok_map [of now db now' id] by (simp add: keeps_ids_def live_def)

lemma fetch_set [simp]: "set (fetch e P db) = {r \<in> set (cr_rows db). P r}"
  by (auto simp: fetch_def)

lemma get_rule_for_org_found:
  assumes "get_rule_for_org e c org ps now db = Some r"
  shows "r \<in> set (cr_rows db) \<and> live now r \<and> cr_org r = org \<and> cr_hash r = request_hash e c ps"
proof -
  let ?P = "\<lambda>r. cr_org r = org \<and> cr_hash r = request_hash e c ps \<and> cr_active r \<and> cr_end r > now"
  from assms obtain rest where "fetch e ?P db = r # rest"
    unfolding get_rule_for_org_def by (cases "fetch e ?P db") auto
  then have "r \<in> set (fetch e ?P db)" by simp
  then show ?thesis by (auto simp: live_def)
qed

lemma same_pk: "ids_ok now db \<Longrightarrow> r \<in> set (cr_rows db) \<Longrightarrow> r' \<in> set (cr_rows db) \<Longrightarrow> cr_pk r = cr_pk r' \<Longrightarrow> r = r'"
  by (auto simp: ids_ok_def distinct_map inj_on_def)

text \<open>What a successful creation leaves: one more row, with the id that was assigned.\<close>

definition created_rule :: "rule_env \<Rightarrow> rule_request \<Rightarrow> int \<Rightarrow> custom_rules \<Rightarrow> custom_rule" where
  "created_rule e q now db =
     (let r = new_rule e q (cr_next_pk db)
      in r\<lparr>cr_rule_id := assigned_id (rq_org q) now (cr_rows db @ [r]), cr_projects := existing_projects e (rq_projects q)\<rparr>)"

lemma new_rule_simps [simp]:
  "cr_rule_id (new_rule e q pk) = 0" "cr_org (new_rule e q pk) = rq_org q" "cr_pk (new_rule e q pk) = pk"
  "cr_active (new_rule e q pk)" "cr_end (new_rule e q pk) = rq_end q" "cr_start (new_rule e q pk) = rq_start q"
  "cr_org_level (new_rule e q pk) = (rq_projects q = [])"
  by (simp_all add: new_rule_def)

lemma update_or_create_new:
  assumes "ids_ok now db" "get_rule_for_org e (rq_condition q) (rq_org q) (rq_projects q) now db = None"
  shows "update_or_create e q now db =
    (let r = created_rule e q now db; projects = existing_projects e (rq_projects q)
     in if per_project_limit_reached e projects (rq_org q) now db then (Inl (OtherError ''TooManyRules''), db)
        else if cr_rule_id r > MAX_CUSTOM_RULES then (Inl (OtherError ''TooManyRules''), db)
        else if \<not> distinct projects then (Inl (OtherError ''IntegrityError''), db)
        else (Inr (cr_next_pk db), db\<lparr>cr_rows := cr_rows db @ [r], cr_next_pk := Suc (cr_next_pk db)\<rparr>))"
proof -
  have fresh: "map (\<lambda>r. if cr_pk r = cr_next_pk db then f r else r) (cr_rows db) = cr_rows db" for f
    using assms(1) by (auto simp: ids_ok_def intro!: map_idI)
  show ?thesis
    by (simp add: update_or_create_def assms(2) Let_def assign_rule_id_def created_rule_def update_rule_def fresh)
qed

lemma update_or_create_cases:
  assumes "ids_ok now db" "update_or_create e q now db = (res, db')"
  obtains (extended) r where "r \<in> set (cr_rows db)" "live now r" "res = Inr (cr_pk r)"
      "cr_hash r = request_hash e (rq_condition q) (rq_projects q)"
      "db' = update_rule (cr_pk r) (extend_rule q) db"
  | (created) "res = Inr (cr_next_pk db)"
      "db' = db\<lparr>cr_rows := cr_rows db @ [created_rule e q now db], cr_next_pk := Suc (cr_next_pk db)\<rparr>"
      "\<not> per_project_limit_reached e (existing_projects e (rq_projects q)) (rq_org q) now db"
      "cr_rule_id (created_rule e q now db) \<le> MAX_CUSTOM_RULES" "distinct (existing_projects e (rq_projects q))"
  | (failed) err where "res = Inl err" "db' = db"
proof (cases "get_rule_for_org e (rq_condition q) (rq_org q) (rq_projects q) now db")
  case (Some r)
  with get_rule_for_org_found [OF Some] assms(2) show ?thesis
    by (intro extended [of r]) (auto simp: update_or_create_def)
next
  case None
  from update_or_create_new [OF assms(1) None] assms(2) show ?thesis
    by (auto simp: Let_def not_less split: if_splits intro: failed created)
qed

lemma created_ids_ok:
  assumes "ids_ok now db" "cr_rule_id (created_rule e q now db) \<le> MAX_CUSTOM_RULES"
  shows "ids_ok now (db\<lparr>cr_rows := cr_rows db @ [created_rule e q now db], cr_next_pk := Suc (cr_next_pk db)\<rparr>)"
proof -
  let ?r = "new_rule e q (cr_next_pk db)"
  let ?i = "assigned_id (rq_org q) now (cr_rows db @ [?r])"
  have "0 \<in> set (map cr_rule_id (cr_rows db @ [?r]))" by (simp add: new_rule_def)
  from assigned_id_least [OF this, of "rq_org q" now]
  have n: "?i \<notin> set (taken_ids (rq_org q) now (cr_rows db @ [?r]))" "0 < ?i" by auto
  have "cr_rule_id r \<in> set (taken_ids (rq_org q) now (cr_rows db @ [?r]))"
    if "r \<in> set (cr_rows db)" "live now r" "cr_org r = rq_org q" for r
    using that by (auto simp: taken_ids_def live_def)
  with n have i: "0 < ?i" "\<forall>r \<in> set (cr_rows db). live now r \<and> cr_org r = rq_org q \<longrightarrow> cr_rule_id r \<noteq> ?i"
    by metis+
  have c: "cr_pk (created_rule e q now db) = cr_next_pk db" "cr_org (created_rule e q now db) = rq_org q"
    "cr_rule_id (created_rule e q now db) = ?i"
    by (simp_all add: created_rule_def Let_def)
  show ?thesis using i c assms by (intro ids_ok_append) auto
qed

section \<open>Runs\<close>

text \<open>
  An event comes some seconds after the one before: a request to the endpoint, or one of the two
  tasks that switch off rules whose time is over.
\<close>

datatype rule_op =
    Post nat "nat option" "int list" string "pyval result"
  | DeactivateOld
  | DeactivateExpired

fun apply_op :: "rule_env \<Rightarrow> int \<Rightarrow> rule_op \<Rightarrow> custom_rules \<Rightarrow> custom_rules" where
  "apply_op e now (Post org user ps query c) db = snd (snd (post_custom_rule e org user ps query c now db))"
| "apply_op e now DeactivateOld db = deactivate_old_rules now db"
| "apply_op e now DeactivateExpired db = deactivate_expired_rules now db"

definition rules_step :: "rule_env \<Rightarrow> int \<times> custom_rules \<Rightarrow> nat \<times> rule_op \<Rightarrow> int \<times> custom_rules" where
  "rules_step e s ev = (let now = fst s + int (fst ev) in (now, apply_op e now (snd ev) (snd s)))"

definition no_rules :: custom_rules where
  "no_rules = \<lparr>cr_rows = [], cr_next_pk = 1\<rparr>"

text \<open>A request either leaves the table alone or goes through \<open>update_or_create\<close>, for projects of the organization.\<close>

lemma post_cases:
  obtains "snd (snd (post_custom_rule e org user ps query c now db)) = db"
  | q where "snd (snd (post_custom_rule e org user ps query c now db)) = snd (update_or_create e q now db)"
      "rq_start q = now" "rq_org q = org" "list_all (\<lambda>p. p \<in> set (org_projects e org)) (rq_projects q)"
      "fst (fst (post_custom_rule e org user ps query c now db)) = 200 \<longrightarrow>
         fst (update_or_create e q now db) = Inr (the (snd (fst (post_custom_rule e org user ps query c now db)))) \<and>
         Inr (rq_condition q) = c"
proof (cases "validate_projects e ps")
  case (Inl err)
  then show ?thesis by (intro that(1)) (simp add: post_custom_rule_def)
next
  case (Inr ids)
  show ?thesis
  proof (cases "get_projects_ok e org ids")
    case False
    with Inr show ?thesis by (intro that(1)) (simp add: post_custom_rule_def)
  next
    case True
    show ?thesis
    proof (cases c)
      case (Inl err)
      with Inr True show ?thesis by (intro that(1)) (simp add: post_custom_rule_def)
    next
      case (Inr cond)
      let ?q = "\<lparr>rq_condition = cond, rq_start = now, rq_end = now + 172800, rq_projects = ids, rq_org = org,
        rq_num_samples = NUM_SAMPLES_PER_CUSTOM_RULE, rq_sample_rate = 1, rq_query = query, rq_created_by = user\<rparr>"
      from True have "list_all (\<lambda>p. p \<in> set (org_projects e org)) ids"
        by (auto simp: get_projects_ok_def list_all_iff)
      with Inr True \<open>validate_projects e ps = Inr ids\<close> show ?thesis
        by (intro that(2) [of ?q])
          (auto simp: post_custom_rule_def split: prod.splits sum.splits)
    qed
  qed
qed

lemma extended_ids_ok:
  assumes "ids_ok now db" "r \<in> set (cr_rows db)" "live now r"
  shows "ids_ok now (update_rule (cr_pk r) (extend_rule q) db)"
  unfolding update_rule_def
proof (rule ids_ok_map [OF assms(1)])
  fix x assume "x \<in> set (cr_rows db)"
  with assms have "cr_pk x = cr_pk r \<Longrightarrow> live now x" using same_pk by blast
  then show "keeps_ids now now x (if cr_pk x = cr_pk r then extend_rule q x else x)"
    by (simp add: keeps_ids_def extend_rule_def)
qed

lemma update_or_create_ids_ok:
  assumes "ids_ok now db"
  shows "ids_ok now (snd (update_or_create e q now db))"
proof -
  obtain res db' where u: "update_or_create e q now db = (res, db')" by fastforce
  from assms u have "ids_ok now db'"
  proof (cases rule: update_or_create_cases)
    case (extended r)
    with assms show ?thesis by (simp add: extended_ids_ok)
  next
    case created
    with assms show ?thesis by (simp add: created_ids_ok)
  qed (use assms in simp)
  with u show ?thesis by simp
qed

lemma deactivated_ids_ok:
  assumes "ids_ok now db"
  shows "ids_ok now (deactivate_old_rules now db)" "ids_ok now (deactivate_expired_rules now db)"
  unfolding deactivate_old_rules_def deactivate_expired_rules_def
  by (rule ids_ok_map [OF assms]; simp add: keeps_ids_def live_def)+

lemma apply_op_ids_ok: "ids_ok now db \<Longrightarrow> ids_ok now (apply_op e now op db)"
proof (cases op)
  case (Post org user ps query c)
  assume "ids_ok now db"
  then show ?thesis
    unfolding Post apply_op.simps
    by (rule_tac post_cases [of e org user ps query c now db]) (simp_all add: update_or_create_ids_ok)
qed (simp_all add: deactivated_ids_ok)

interpretation rule_ids: step_machine "rules_step e" "\<lambda>s. ids_ok (fst s) (snd s)"
proof
  fix s :: "int \<times> custom_rules" and ev :: "nat \<times> rule_op"
  assume "ids_ok (fst s) (snd s)"
  then have "ids_ok (fst s + int (fst ev)) (snd s)" by (rule ids_ok_later) simp
  then show "ids_ok (fst (rules_step e s ev)) (snd (rules_step e s ev))"
    by (simp add: rules_step_def Let_def apply_op_ids_ok)
qed

lemma no_rules_ok: "ids_ok now no_rules"
  by (simp add: ids_ok_def no_rules_def)

text \<open>
  C17. Relay can tell the rules of an organization apart: whatever requests come and whenever the tasks
  that clean up run, two rules of one organization that are active and not over never have the same
  external id, and every external id lies in the range reserved for custom rules.
\<close>

theorem custom_rule_ids_unique:
  "let (now, db) = foldl (rules_step e) (t, no_rules) evs
   in sorted_wrt (\<lambda>r r'. \<not> (live now r \<and> live now r' \<and> cr_org r = cr_org r' \<and> external_rule_id r = external_rule_id r'))
        (cr_rows db)
      \<and> list_all (\<lambda>r. CUSTOM_RULE_START < external_rule_id r \<and>
           external_rule_id r \<le> CUSTOM_RULE_START + MAX_CUSTOM_RULES) (cr_rows db)"
proof -
  obtain now db where s: "foldl (rules_step e) (t, no_rules) evs = (now, db)" by fastforce
  have ok: "ids_ok now db"
    using rule_ids.run_inv [of "(t, no_rules)" e evs] no_rules_ok s by simp
  then have "distinct (map cr_pk (cr_rows db))" by (simp add: ids_ok_def)
  then have "sorted_wrt (\<lambda>r r'. cr_pk r \<noteq> cr_pk r') (cr_rows db)"
    by (simp add: distinct_conv_nth sorted_wrt_iff_nth_less)
  then have "sorted_wrt (\<lambda>r r'. \<not> (live now r \<and> live now r' \<and> cr_org r = cr_org r' \<and>
      external_rule_id r = external_rule_id r')) (cr_rows db)"
    using ok by (elim sorted_wrt_mono_rel [rotated]) (auto simp: ids_ok_def external_rule_id_def)
  with ok show ?thesis by (auto simp: s ids_ok_def list_all_iff external_rule_id_def Let_def)
qed

section \<open>The limit for a project\<close>

definition applies :: "nat \<Rightarrow> int \<Rightarrow> int \<Rightarrow> custom_rule \<Rightarrow> bool" where
  "applies org p now r =
     (live now r \<and> cr_start r \<le> now \<and> (if cr_org_level r then cr_org r = org else p \<in> set (cr_projects r)))"

lemma num_active_applies:
  "num_active_rules_for_project org p now db = length (filter (applies org p now) (cr_rows db))"
proof -
  have "length (filter (\<lambda>r. cr_active r \<and> cr_org_level r \<and> cr_org r = org \<and> cr_end r > now \<and> cr_start r \<le> now) rs)
     + length (filter (\<lambda>r. cr_active r \<and> \<not> cr_org_level r \<and> p \<in> set (cr_projects r) \<and> cr_end r > now
         \<and> cr_start r \<le> now) rs) = length (filter (applies org p now) rs)" for rs
    by (induction rs) (auto simp: applies_def live_def)
  then show ?thesis by (simp add: num_active_rules_for_project_def Let_def add.commute)
qed

definition within_limit :: "rule_env \<Rightarrow> int \<Rightarrow> custom_rules \<Rightarrow> bool" where
  "within_limit e now db =
     list_all (\<lambda>p. case re_project_org e p of None \<Rightarrow> True
        | Some org \<Rightarrow> num_active_rules_for_project org p now db \<le> MAX_CUSTOM_RULES_PER_PROJECT) (re_active_projects e)"

definition limit_ok :: "rule_env \<Rightarrow> int \<Rightarrow> custom_rules \<Rightarrow> bool" where
  "limit_ok e now db = (within_limit e now db \<and> (\<forall>r \<in> set (cr_rows db). cr_start r \<le> now))"

lemma filter_length_mono:
  "(\<And>x. x \<in> set xs \<Longrightarrow> P x \<Longrightarrow> Q x) \<Longrightarrow> length (filter P xs) \<le> length (filter Q xs)"
  by (induction xs) auto

lemma limit_ok_map:
  assumes "limit_ok e now db"
    "\<And>r. r \<in> set (cr_rows db) \<Longrightarrow> cr_start (f r) \<le> now'"
    "\<And>r org p. r \<in> set (cr_rows db) \<Longrightarrow> applies org p now' (f r) \<Longrightarrow> applies org p now r"
  shows "limit_ok e now' (db\<lparr>cr_rows := map f (cr_rows db)\<rparr>)"
proof -
  have mono: "num_active_rules_for_project org p now' (db\<lparr>cr_rows := map f (cr_rows db)\<rparr>)
      \<le> num_active_rules_for_project org p now db" for org p
    using assms(3) by (auto simp: num_active_applies filter_map intro!: filter_length_mono)
  have "num_active_rules_for_project org p now db \<le> MAX_CUSTOM_RULES_PER_PROJECT"
    if "p \<in> set (re_active_projects e)" "re_project_org e p = Some org" for p org
    using assms(1) that by (force simp: limit_ok_def within_limit_def list_all_iff)
  then have "within_limit e now' (db\<lparr>cr_rows := map f (cr_rows db)\<rparr>)"
    by (auto simp: within_limit_def list_all_iff split: option.splits intro: le_trans [OF mono])
  then show ?thesis using assms(2) by (simp add: limit_ok_def)
qed

lemma limit_ok_later: "limit_ok e now db \<Longrightarrow> now \<le> now' \<Longrightarrow> limit_ok e now' db"
  using limit_ok_map [of e now db id now'] by (force simp: limit_ok_def applies_def live_def)

lemma extended_limit_ok:
  assumes "ids_ok now db" "limit_ok e now db" "r \<in> set (cr_rows db)" "live now r"
  shows "limit_ok e now (update_rule (cr_pk r) (extend_rule q) db)"
  unfolding update_rule_def
proof (rule limit_ok_map [OF assms(2)])
  fix x assume x: "x \<in> set (cr_rows db)"
  show "cr_start (if cr_pk x = cr_pk r then extend_rule q x else x) \<le> now"
    using assms(2) x by (simp add: limit_ok_def extend_rule_def)
  fix org p
  have "cr_pk x = cr_pk r \<Longrightarrow> live now x" using assms x same_pk by blast
  then show "applies org p now (if cr_pk x = cr_pk r then extend_rule q x else x) \<Longrightarrow> applies org p now x"
    by (auto simp: applies_def extend_rule_def split: if_splits)
qed

lemma created_limit_ok:
  assumes "limit_ok e now db" "list_all (\<lambda>p. p \<in> set (org_projects e (rq_org q))) (rq_projects q)" "rq_start q \<le> now"
    "\<not> per_project_limit_reached e (existing_projects e (rq_projects q)) (rq_org q) now db"
  shows "limit_ok e now (db\<lparr>cr_rows := cr_rows db @ [created_rule e q now db], cr_next_pk := n\<rparr>)"
proof -
  let ?r = "created_rule e q now db" and ?ps = "existing_projects e (rq_projects q)"
  have r: "cr_org ?r = rq_org q" "cr_org_level ?r = (rq_projects q = [])" "cr_projects ?r = ?ps"
    "cr_start ?r = rq_start q" by (simp_all add: created_rule_def Let_def)
  have room: "num_active_rules_for_project org p now db < MAX_CUSTOM_RULES_PER_PROJECT"
    if "p \<in> set (re_active_projects e)" "re_project_org e p = Some org" "applies org p now ?r" for p org
  proof (cases "rq_projects q = []")
    case True
    with that have "org = rq_org q" "?ps = []" by (auto simp: applies_def r existing_projects_def)
    with that assms(4) show ?thesis
      by (auto simp: per_project_limit_reached_def org_projects_def list_ex_iff)
  next
    case False
    with that r have p: "p \<in> set ?ps" by (simp add: applies_def)
    then have "p \<in> set (rq_projects q)" by (simp add: existing_projects_def)
    with assms(2) that(2) have "org = rq_org q" by (auto simp: list_all_iff org_projects_def)
    moreover have "?ps \<noteq> []" using p by auto
    ultimately show ?thesis using p assms(4) by (auto simp: per_project_limit_reached_def list_ex_iff)
  qed
  then have "within_limit e now (db\<lparr>cr_rows := cr_rows db @ [?r], cr_next_pk := n\<rparr>)"
    using assms(1) unfolding limit_ok_def within_limit_def
    by (auto simp: num_active_applies list_all_iff Suc_le_eq split: option.splits)
  then show ?thesis using assms(1,3) r(4) by (auto simp: limit_ok_def)
qed

lemma update_or_create_limit_ok:
  assumes "ids_ok now db" "limit_ok e now db" "list_all (\<lambda>p. p \<in> set (org_projects e (rq_org q))) (rq_projects q)"
    "rq_start q \<le> now"
  shows "limit_ok e now (snd (update_or_create e q now db))"
proof -
  obtain res db' where u: "update_or_create e q now db = (res, db')" by fastforce
  from assms(1) u have "limit_ok e now db'"
  proof (cases rule: update_or_create_cases)
    case (extended r)
    with assms show ?thesis by (simp add: extended_limit_ok)
  next
    case created
    with assms show ?thesis by (simp add: created_limit_ok)
  qed (use assms in simp)
  with u show ?thesis by simp
qed

lemma apply_op_limit_ok:
  assumes "ids_ok now db" "limit_ok e now db"
  shows "limit_ok e now (apply_op e now op db)"
proof (cases op)
  case (Post org user ps query c)
  show ?thesis
    unfolding Post apply_op.simps
    by (rule post_cases [of e org user ps query c now db]) (use assms in \<open>auto simp: update_or_create_limit_ok\<close>)
next
  case DeactivateOld
  show ?thesis
    unfolding DeactivateOld apply_op.simps deactivate_old_rules_def
    by (rule limit_ok_map [OF assms(2)]) (use assms(2) in \<open>auto simp: limit_ok_def applies_def live_def split: if_splits\<close>)
next
  case DeactivateExpired
  show ?thesis
    unfolding DeactivateExpired apply_op.simps deactivate_expired_rules_def
    by (rule limit_ok_map [OF assms(2)]) (use assms(2) in \<open>auto simp: limit_ok_def applies_def live_def split: if_splits\<close>)
qed

interpretation rule_counts:
  step_machine "rules_step e" "\<lambda>s. ids_ok (fst s) (snd s) \<and> limit_ok e (fst s) (snd s)"
proof
  fix s :: "int \<times> custom_rules" and ev :: "nat \<times> rule_op"
  let ?now = "fst s + int (fst ev)"
  assume "ids_ok (fst s) (snd s) \<and> limit_ok e (fst s) (snd s)"
  then have "ids_ok ?now (snd s)" "limit_ok e ?now (snd s)"
    by (auto intro: ids_ok_later limit_ok_later)
  then show "ids_ok (fst (rules_step e s ev)) (snd (rules_step e s ev)) \<and>
      limit_ok e (fst (rules_step e s ev)) (snd (rules_step e s ev))"
    by (simp add: rules_step_def Let_def apply_op_ids_ok apply_op_limit_ok)
qed

text \<open>
  Requests through the endpoint never give an active project more than 50 rules that count for it,
  its own and those of its organization together, so that Relay gets all of them: after any run, what
  \<open>num_active_rules_for_project\<close> counts is within the limit for every active project.
\<close>

theorem custom_rules_within_limit:
  "let (now, db) = foldl (rules_step e) (t, no_rules) evs in within_limit e now db"
proof -
  have "limit_ok e t no_rules"
    by (simp add: limit_ok_def within_limit_def no_rules_def num_active_applies list_all_iff split: option.splits)
  with rule_counts.run_inv [of "(t, no_rules)" e evs] no_rules_ok show ?thesis
    by (auto simp: limit_ok_def split: prod.splits)
qed

definition value_condition :: "string list \<Rightarrow> pyval" where
  "value_condition vs = PDict [(''op'', PStr ''eq''), (''name'', PStr ''event.transaction''), (''value'', PList (map PStr vs))]"

definition example_rule_env :: "(string \<Rightarrow> string) \<Rightarrow> rule_env" where
  "example_rule_env sha1 = \<lparr>re_sha1 = sha1, re_float_str = (\<lambda>_. []), re_rank = cr_pk, re_project_org = (\<lambda>_. None),
     re_active_projects = [], re_access = (\<lambda>_. True)\<rparr>"

text \<open>
  Two different conditions can share one rule: a list with the one value \<open>a-b\<close> and a list with the
  values \<open>a\<close> and \<open>b\<close> are written the same way before they are hashed, whatever the hash is. The second
  of two requests is answered with the rule of the first, whose condition is not the one asked for.
\<close>

theorem rule_hash_collision:
  "let e = example_rule_env sha1;
       c1 = value_condition [''a-b'']; c2 = value_condition [''a'', ''b''];
       (answer1, _, db1) = post_custom_rule e 7 None [] ''q1'' (Inr c1) 1000 no_rules;
       (answer2, _, db2) = post_custom_rule e 7 None [] ''q2'' (Inr c2) 2000 db1
   in c1 \<noteq> c2 \<and> answer1 = (200, Some 1) \<and> answer2 = (200, Some 1) \<and> map cr_condition (cr_rows db2) = [c1]"
proof -
  let ?e = "example_rule_env sha1"
  let ?c1 = "value_condition [''a-b'']" and ?c2 = "value_condition [''a'', ''b'']"
  have h: "request_hash ?e ?c2 [] = request_hash ?e ?c1 []"
    by (simp add: request_hash_def get_rule_hash_def value_condition_def)
  let ?r = "\<lparr>cr_pk = 1, cr_org = 7, cr_projects = [], cr_active = True, cr_org_level = True, cr_rule_id = 1,
      cr_condition = ?c1, cr_sample_rate = 1, cr_start = 1000, cr_end = 173800, cr_num_samples = 100,
      cr_hash = request_hash ?e ?c1 [], cr_query = Some ''q1'', cr_notification_sent = Some False, cr_created_by = None\<rparr>"
  have id1: "assigned_id org now [r] = 1" if "cr_rule_id r = 0" for org now r
    using that by (simp add: assigned_id_def taken_ids_def)
  have none: "get_rule_for_org ?e c 7 ps now no_rules = None" for c ps now
    by (simp add: get_rule_for_org_def fetch_def no_rules_def)
  let ?q = "\<lparr>rq_condition = ?c1, rq_start = 1000, rq_end = 173800, rq_projects = [], rq_org = 7,
      rq_num_samples = 100, rq_sample_rate = 1, rq_query = ''q1'', rq_created_by = None\<rparr>"
  have create: "update_or_create ?e ?q 1000 no_rules = (Inr 1, \<lparr>cr_rows = [?r], cr_next_pk = 2\<rparr>)"
    by (subst update_or_create_new [OF no_rules_ok])
      (simp only: none rule_request.simps,
        simp add: created_rule_def id1 no_rules_def existing_projects_def Let_def new_rule_def
        per_project_limit_reached_def org_projects_def MAX_CUSTOM_RULES_def example_rule_env_def)
  have first: "post_custom_rule ?e 7 None [] ''q1'' (Inr ?c1) 1000 no_rules =
      ((200, Some 1), [(Some 7, None)], \<lparr>cr_rows = [?r], cr_next_pk = 2\<rparr>)"
    by (simp add: post_custom_rule_def validate_projects_def clean_project_list_def get_projects_ok_def create
        invalidations_def NUM_SAMPLES_PER_CUSTOM_RULE_def del: One_nat_def)
  have second: "post_custom_rule ?e 7 None [] ''q2'' (Inr ?c2) 2000 \<lparr>cr_rows = [?r], cr_next_pk = 2\<rparr> =
      ((200, Some 1), [(Some 7, None)], \<lparr>cr_rows = [?r\<lparr>cr_end := 174800\<rparr>], cr_next_pk = 2\<rparr>)"
    by (simp add: post_custom_rule_def validate_projects_def clean_project_list_def get_projects_ok_def
        update_or_create_def get_rule_for_org_def fetch_def update_rule_def extend_rule_def invalidations_def
        NUM_SAMPLES_PER_CUSTOM_RULE_def h)
  have "?c1 \<noteq> ?c2" by (simp add: value_condition_def)
  then show ?thesis unfolding Let_def first second prod.case by simp
qed

end
