(* ===== verification/SamplingRules.thy ===== *)
theory SamplingRules
  imports Rebalancing CustomRules
begin

text \<open>
  The rules of dynamic sampling that Relay receives (\<open>dynamic_sampling/rules\<close>) and the values in
  Redis they are made of (\<open>dynamic_sampling/tasks/helpers\<close>). A key in Redis is its value with the time at
  which it expires, in milliseconds; times in rules are seconds and stay numbers. Rates are rationals,
  and the power of Python that \<open>apply_dynamic_factor\<close> uses is an argument. Boosted releases come with their
  version, environment and time to adoption. Not modelled: logging, the hash of a rule.
\<close>

section \<open>Rule types and user biases: \<open>rules/utils.py\<close>\<close>

datatype rule_type = BOOST_LOW_VOLUME_PROJECTS_RULE | RECALIBRATION_RULE | BOOST_ENVIRONMENTS_RULE
  | BOOST_LATEST_RELEASES_RULE | IGNORE_HEALTH_CHECKS_RULE | BOOST_KEY_TRANSACTIONS_RULE
  | BOOST_LOW_VOLUME_TRANSACTIONS_RULE | BOOST_REPLAY_ID_RULE | CUSTOM_RULE

fun rule_type_value :: "rule_type \<Rightarrow> string" where
  "rule_type_value BOOST_LOW_VOLUME_PROJECTS_RULE = ''uniformRule''"
| "rule_type_value RECALIBRATION_RULE = ''recalibrationRule''"
| "rule_type_value BOOST_ENVIRONMENTS_RULE = ''boostEnvironments''"
| "rule_type_value BOOST_LATEST_RELEASES_RULE = ''boostLatestRelease''"
| "rule_type_value IGNORE_HEALTH_CHECKS_RULE = ''ignoreHealthChecks''"
| "rule_type_value BOOST_KEY_TRANSACTIONS_RULE = ''boostKeyTransactions''"
| "rule_type_value BOOST_LOW_VOLUME_TRANSACTIONS_RULE = ''boostLowVolumeTransactions''"
| "rule_type_value BOOST_REPLAY_ID_RULE = ''boostReplayId''"
| "rule_type_value CUSTOM_RULE = ''customRule''"

fun RESERVED_ID :: "rule_type \<Rightarrow> nat" where
  "RESERVED_ID BOOST_LOW_VOLUME_PROJECTS_RULE = 1000"
| "RESERVED_ID BOOST_ENVIRONMENTS_RULE = 1001"
| "RESERVED_ID IGNORE_HEALTH_CHECKS_RULE = 1002"
| "RESERVED_ID BOOST_KEY_TRANSACTIONS_RULE = 1003"
| "RESERVED_ID RECALIBRATION_RULE = 1004"
| "RESERVED_ID BOOST_REPLAY_ID_RULE = 1005"
| "RESERVED_ID BOOST_LOW_VOLUME_TRANSACTIONS_RULE = 1400"
| "RESERVED_ID BOOST_LATEST_RELEASES_RULE = 1500"
| "RESERVED_ID CUSTOM_RULE = CUSTOM_RULE_START"

definition all_rule_types :: "rule_type list" where
  "all_rule_types = [BOOST_LOW_VOLUME_PROJECTS_RULE, BOOST_ENVIRONMENTS_RULE, IGNORE_HEALTH_CHECKS_RULE,
     BOOST_KEY_TRANSACTIONS_RULE, RECALIBRATION_RULE, BOOST_REPLAY_ID_RULE, BOOST_LOW_VOLUME_TRANSACTIONS_RULE,
     BOOST_LATEST_RELEASES_RULE, CUSTOM_RULE]"

definition reverse_reserved_id :: "nat \<Rightarrow> rule_type option" where
  "reverse_reserved_id i = find (\<lambda>t. RESERVED_ID t = i) all_rule_types"

definition BOOSTED_RELEASES_LIMIT :: nat where "BOOSTED_RELEASES_LIMIT = 10"
definition LATEST_RELEASES_BOOST_FACTOR :: rat where "LATEST_RELEASES_BOOST_FACTOR = 3 / 2"
definition LATEST_RELEASES_BOOST_DECAYED_FACTOR :: rat where "LATEST_RELEASES_BOOST_DECAYED_FACTOR = 1"
definition IGNORE_HEALTH_CHECKS_FACTOR :: rat where "IGNORE_HEALTH_CHECKS_FACTOR = 5"

datatype sampling_value = SampleRate rat | Factor rat | Reservoir int

record sampling_rule =
  sr_value :: sampling_value
  sr_type :: string
  sr_condition :: pyval
  sr_id :: nat
  sr_time_range :: "(int \<times> int) option"
  sr_decayed :: "rat option"

definition get_rule_type :: "sampling_rule \<Rightarrow> rule_type option" where
  "get_rule_type r =
     (if RESERVED_ID BOOST_LATEST_RELEASES_RULE \<le> sr_id r
         \<and> sr_id r < RESERVED_ID BOOST_LATEST_RELEASES_RULE + BOOSTED_RELEASES_LIMIT
      then Some BOOST_LATEST_RELEASES_RULE
      else if RESERVED_ID BOOST_LOW_VOLUME_TRANSACTIONS_RULE \<le> sr_id r
         \<and> sr_id r < RESERVED_ID BOOST_LATEST_RELEASES_RULE
      then Some BOOST_LOW_VOLUME_TRANSACTIONS_RULE
      else reverse_reserved_id (sr_id r))"

definition get_sampling_value :: "sampling_rule \<Rightarrow> string \<times> rat" where
  "get_sampling_value r =
     (case sr_value r of
        Reservoir n \<Rightarrow> (''reservoir'', of_int n)
      | SampleRate x \<Rightarrow> (''sampleRate'', x)
      | Factor x \<Rightarrow> (''factor'', x))"

definition DEFAULT_BIASES :: "(string \<times> bool) list" where
  "DEFAULT_BIASES = map (\<lambda>t. (rule_type_value t, True))
     [BOOST_ENVIRONMENTS_RULE, BOOST_LATEST_RELEASES_RULE, IGNORE_HEALTH_CHECKS_RULE, BOOST_KEY_TRANSACTIONS_RULE,
      BOOST_LOW_VOLUME_TRANSACTIONS_RULE, BOOST_REPLAY_ID_RULE, RECALIBRATION_RULE]"

definition get_user_biases :: "(string \<times> bool) list option \<Rightarrow> (string \<times> bool) list" where
  "get_user_biases user_set =
     (case user_set of
        None \<Rightarrow> DEFAULT_BIASES
      | Some bs \<Rightarrow>
          let id_to_user_bias = dict_merge [] bs
          in map (\<lambda>(i, active). case dict_get id_to_user_bias i of Some a \<Rightarrow> (i, a) | None \<Rightarrow> (i, active))
               DEFAULT_BIASES)"

definition get_enabled_user_biases :: "(string \<times> bool) list option \<Rightarrow> string list" where
  "get_enabled_user_biases user_set = map fst (filter snd (get_user_biases user_set))"

definition get_supported_biases_ids :: "string list" where
  "get_supported_biases_ids = sort (remdups (map fst DEFAULT_BIASES))"

definition apply_dynamic_factor :: "(rat \<Rightarrow> rat \<Rightarrow> rat) \<Rightarrow> rat \<Rightarrow> rat \<Rightarrow> rat result" where
  "apply_dynamic_factor pow base_sample_rate x =
     (if x = 0 then Inl (OtherError ''A dynamic factor of 0 cannot be set.'')
      else if base_sample_rate < 0 \<or> base_sample_rate > 1 then Inl (OtherError ''The dynamic factor function'')
      else divide_by x (pow x base_sample_rate))"

section \<open>Values in Redis: \<open>tasks/helpers\<close>\<close>

record ds_store =
  ds_project_rates :: "(nat, (nat, rat) dict \<times> int) dict"
  ds_transaction_rates :: "(nat \<times> nat, ((string, rat) dict \<times> rat) \<times> int) dict"
  ds_factors :: "(nat, rat \<times> int) dict"
  ds_org_rates :: "(nat, rat \<times> int) dict"
  ds_org_executed :: "int option"

definition alive :: "int \<Rightarrow> ('k, 'v \<times> int) dict \<Rightarrow> 'k \<Rightarrow> 'v option" where
  "alive now d k = (case dict_get d k of None \<Rightarrow> None | Some (v, expiry) \<Rightarrow> if expiry \<le> now then None else Some v)"

definition DEFAULT_REDIS_CACHE_KEY_TTL :: int where "DEFAULT_REDIS_CACHE_KEY_TTL = 24 * 60 * 60 * 1000"
definition ADJUSTED_FACTOR_REDIS_CACHE_KEY_TTL :: int where "ADJUSTED_FACTOR_REDIS_CACHE_KEY_TTL = 10 * 60 * 1000"
definition EXECUTED_CACHE_KEY_TTL :: int where "EXECUTED_CACHE_KEY_TTL = 60 * 60 * 1000"

definition mark_sliding_window_org_executed :: "int \<Rightarrow> ds_store \<Rightarrow> ds_store" where
  "mark_sliding_window_org_executed now s = s\<lparr>ds_org_executed := Some (now + EXECUTED_CACHE_KEY_TTL)\<rparr>"

definition was_sliding_window_org_executed :: "int \<Rightarrow> ds_store \<Rightarrow> bool" where
  "was_sliding_window_org_executed now s = (case ds_org_executed s of None \<Rightarrow> False | Some x \<Rightarrow> now < x)"

definition get_boost_low_volume_projects_sample_rate ::
  "nat \<Rightarrow> nat \<Rightarrow> rat option \<Rightarrow> int \<Rightarrow> ds_store \<Rightarrow> rat option \<times> bool" where
  "get_boost_low_volume_projects_sample_rate org project fallback now s =
     (case Option.bind (alive now (ds_project_rates s) org) (\<lambda>h. dict_get h project) of
        Some r \<Rightarrow> (Some r, True)
      | None \<Rightarrow> if was_sliding_window_org_executed now s then (Some 1, False) else (fallback, False))"

definition get_sliding_window_org_sample_rate ::
  "nat \<Rightarrow> rat option \<Rightarrow> int \<Rightarrow> ds_store \<Rightarrow> rat option \<times> bool" where
  "get_sliding_window_org_sample_rate org default_rate now s =
     (case alive now (ds_org_rates s) org of Some r \<Rightarrow> (Some r, True) | None \<Rightarrow> (default_rate, False))"

definition get_transactions_resampling_rates ::
  "nat \<Rightarrow> nat \<Rightarrow> rat \<Rightarrow> int \<Rightarrow> ds_store \<Rightarrow> (string, rat) dict \<times> rat" where
  "get_transactions_resampling_rates org project default_rate now s =
     (case alive now (ds_transaction_rates s) (org, project) of Some v \<Rightarrow> v | None \<Rightarrow> ([], default_rate))"

definition set_transactions_resampling_rates ::
  "nat \<Rightarrow> nat \<Rightarrow> string item list \<Rightarrow> rat \<Rightarrow> int \<Rightarrow> int \<Rightarrow> ds_store \<Rightarrow> ds_store" where
  "set_transactions_resampling_rates org project named_rates default_rate ttl_ms now s =
     s\<lparr>ds_transaction_rates := dict_set (org, project)
         ((dict_merge [] (map (\<lambda>e. (ri_id e, ri_rate e)) named_rates), default_rate), now + ttl_ms)
         (ds_transaction_rates s)\<rparr>"

definition delete_adjusted_factor :: "nat \<Rightarrow> ds_store \<Rightarrow> ds_store" where
  "delete_adjusted_factor org s = s\<lparr>ds_factors := dict_del org (ds_factors s)\<rparr>"

definition set_guarded_adjusted_factor :: "nat \<Rightarrow> rat \<Rightarrow> int \<Rightarrow> ds_store \<Rightarrow> ds_store" where
  "set_guarded_adjusted_factor org factor now s =
     (if factor \<noteq> 1
      then s\<lparr>ds_factors := dict_set org (factor, now + ADJUSTED_FACTOR_REDIS_CACHE_KEY_TTL) (ds_factors s)\<rparr>
      else delete_adjusted_factor org s)"

definition get_adjusted_factor :: "nat \<Rightarrow> int \<Rightarrow> ds_store \<Rightarrow> rat" where
  "get_adjusted_factor org now s = (case alive now (ds_factors s) org of Some f \<Rightarrow> f | None \<Rightarrow> 1)"

definition compute_adjusted_factor :: "rat \<Rightarrow> rat \<Rightarrow> rat \<Rightarrow> rat option result" where
  "compute_adjusted_factor prev_factor effective_sample_rate target_sample_rate =
     (if prev_factor \<le> 0 then Inr None
      else bind_result (divide_by target_sample_rate effective_sample_rate) (\<lambda>q. Inr (Some (prev_factor * q))))"

definition extrapolate_monthly_volume :: "int \<Rightarrow> nat \<Rightarrow> int \<Rightarrow> int option" where
  \<comment> \<open>with the number of days of the current month\<close>
  "extrapolate_monthly_volume hours days volume =
     (if hours < 1 then None
      else
        let hours_in_month = days * 24;
            groups_of_hours = of_nat hours_in_month / (of_int hours :: rat);
            v = of_int volume * groups_of_hours
        in Some (if v < 0 then - \<lfloor>- v\<rfloor> else \<lfloor>v\<rfloor>))"

section \<open>Biases: \<open>rules/biases\<close>\<close>

record boosted_release =
  br_version :: string
  br_environment :: "string option"
  br_timestamp :: int
  br_time_to_adoption :: int

record bias_context =
  bc_project :: nat
  bc_org :: nat
  bc_now :: int
  bc_store :: ds_store
  bc_releases :: "boosted_release list"
  bc_custom_rules :: "custom_rule list"
  bc_condition_valid :: "pyval \<Rightarrow> bool"
  bc_pow :: "rat \<Rightarrow> rat \<Rightarrow> rat"

type_synonym bias = "bias_context \<Rightarrow> rat \<Rightarrow> sampling_rule list result"

definition glob_condition :: "string \<Rightarrow> string list \<Rightarrow> pyval" where
  "glob_condition name globs = PDict [(''op'', PStr ''or''), (''inner'', PList
     [PDict [(''op'', PStr ''glob''), (''name'', PStr name), (''value'', PList (map PStr globs))]])]"

definition match_all :: pyval where
  "match_all = PDict [(''op'', PStr ''and''), (''inner'', PList [])]"

definition plain_rule :: "sampling_value \<Rightarrow> string \<Rightarrow> pyval \<Rightarrow> nat \<Rightarrow> sampling_rule" where
  "plain_rule v ty c i = \<lparr>sr_value = v, sr_type = ty, sr_condition = c, sr_id = i, sr_time_range = None, sr_decayed = None\<rparr>"

definition ENVIRONMENT_GLOBS :: "string list" where
  "ENVIRONMENT_GLOBS = [''*debug*'', ''*dev*'', ''*local*'', ''*qa*'', ''*test*'']"

definition HEALTH_CHECK_GLOBS :: "string list" where
  "HEALTH_CHECK_GLOBS = [''*healthcheck*'', ''*heartbeat*'', ''*/health'', ''*/healthy'', ''*/healthz'', ''*/_health'',
     ''*/'' @ [CHR 0x5C] @ ''[_health'' @ [CHR 0x5C] @ '']'', ''*/live'', ''*/livez'', ''*/ready'', ''*/readyz'', ''*/ping'']"

definition boost_environments_bias :: bias where
  "boost_environments_bias ctx base_sample_rate =
     Inr [plain_rule (SampleRate 1) ''trace'' (glob_condition ''trace.environment'' ENVIRONMENT_GLOBS)
            (RESERVED_ID BOOST_ENVIRONMENTS_RULE)]"

definition ignore_health_checks_bias :: bias where
  "ignore_health_checks_bias ctx base_sample_rate =
     Inr [plain_rule (SampleRate (base_sample_rate / IGNORE_HEALTH_CHECKS_FACTOR)) ''transaction''
            (glob_condition ''event.transaction'' HEALTH_CHECK_GLOBS) (RESERVED_ID IGNORE_HEALTH_CHECKS_RULE)]"

definition boost_replay_id_bias :: bias where
  "boost_replay_id_bias ctx base_sample_rate =
     Inr [plain_rule (SampleRate 1) ''trace''
            (PDict [(''op'', PStr ''not''), (''inner'', PDict [(''op'', PStr ''eq''), (''name'', PStr ''trace.replay_id''),
               (''value'', PNone), (''options'', PDict [(''ignoreCase'', PBool True)])])])
            (RESERVED_ID BOOST_REPLAY_ID_RULE)]"

definition boost_low_volume_projects_bias :: bias where
  "boost_low_volume_projects_bias ctx base_sample_rate =
     Inr [plain_rule (SampleRate base_sample_rate) ''trace'' match_all (RESERVED_ID BOOST_LOW_VOLUME_PROJECTS_RULE)]"

definition recalibration_bias :: bias where
  "recalibration_bias ctx base_sample_rate =
     (let adjusted_factor = get_adjusted_factor (bc_org ctx) (bc_now ctx) (bc_store ctx)
      in Inr (if adjusted_factor = 1 then []
              else [plain_rule (Factor adjusted_factor) ''trace'' match_all (RESERVED_ID RECALIBRATION_RULE)]))"

definition transaction_condition :: "string \<Rightarrow> pyval" where
  "transaction_condition name = PDict [(''op'', PStr ''or''), (''inner'', PList
     [PDict [(''op'', PStr ''eq''), (''name'', PStr ''trace.transaction''), (''value'', PList [PStr name]),
        (''options'', PDict [(''ignoreCase'', PBool True)])]])]"

fun transaction_rules :: "rat \<Rightarrow> nat \<Rightarrow> (string, rat) dict \<Rightarrow> sampling_rule list \<times> nat" where
  "transaction_rules implicit idx [] = ([], idx)"
| "transaction_rules implicit idx ((name, rate) # ts) =
     (if rate / implicit \<noteq> 1
      then (let (rules, idx') = transaction_rules implicit (Suc idx) ts
            in (plain_rule (Factor (rate / implicit)) ''trace'' (transaction_condition name)
                 (RESERVED_ID BOOST_LOW_VOLUME_TRANSACTIONS_RULE + idx) # rules, idx'))
      else transaction_rules implicit idx ts)"

definition boost_low_volume_transactions_bias :: bias where
  "boost_low_volume_transactions_bias ctx base_sample_rate =
     (let (transaction_map, implicit0) =
            get_transactions_resampling_rates (bc_org ctx) (bc_project ctx) base_sample_rate (bc_now ctx) (bc_store ctx)
      in if transaction_map = [] then Inr []
         else if base_sample_rate = 0 then Inr []
         else
           let implicit = (if implicit0 = 0 then 1 else implicit0);
               implicit_rate = implicit / base_sample_rate;
               (rules, idx) = transaction_rules implicit 0 transaction_map
           in Inr (if implicit_rate \<noteq> 1
                   then rules @ [plain_rule (Factor implicit_rate) ''trace'' match_all
                     (RESERVED_ID BOOST_LOW_VOLUME_TRANSACTIONS_RULE + idx)]
                   else rules))"

definition release_rule :: "rat \<Rightarrow> nat \<Rightarrow> boosted_release \<Rightarrow> sampling_rule" where
  "release_rule factor idx r =
     \<lparr>sr_value = Factor factor, sr_type = ''trace'',
      sr_condition = PDict [(''op'', PStr ''and''), (''inner'', PList
        [PDict [(''op'', PStr ''eq''), (''name'', PStr ''trace.release''), (''value'', PList [PStr (br_version r)])],
         PDict [(''op'', PStr ''eq''), (''name'', PStr ''trace.environment''),
           (''value'', case br_environment r of None \<Rightarrow> PNone | Some env \<Rightarrow> PStr env)]])],
      sr_id = RESERVED_ID BOOST_LATEST_RELEASES_RULE + idx,
      sr_time_range = Some (br_timestamp r, br_timestamp r + br_time_to_adoption r),
      sr_decayed = Some LATEST_RELEASES_BOOST_DECAYED_FACTOR\<rparr>"

definition boost_latest_releases_bias :: bias where
  "boost_latest_releases_bias ctx base_sample_rate =
     bind_result (apply_dynamic_factor (bc_pow ctx) base_sample_rate LATEST_RELEASES_BOOST_FACTOR) (\<lambda>factor.
       Inr (map (\<lambda>(idx, r). release_rule factor idx r) (zip [0..<length (bc_releases ctx)] (bc_releases ctx))))"

definition custom_rule_bias :: bias where
  "custom_rule_bias ctx base_sample_rate =
     Inr (map (\<lambda>r. \<lparr>sr_value = Reservoir (cr_num_samples r), sr_type = ''transaction'', sr_condition = cr_condition r,
              sr_id = external_rule_id r, sr_time_range = Some (cr_start r, cr_end r), sr_decayed = None\<rparr>)
            (filter (\<lambda>r. bc_condition_valid ctx (cr_condition r)) (bc_custom_rules ctx)))"

section \<open>Combination: \<open>rules/combinators\<close>, \<open>rules/combine.py\<close>, \<open>rules/base.py\<close>\<close>

record combinator =
  cb_biases :: "(rule_type, bias \<times> nat) dict"
  cb_order :: nat

definition empty_combinator :: combinator where
  "empty_combinator = \<lparr>cb_biases = [], cb_order = 0\<rparr>"

definition add_bias :: "rule_type \<Rightarrow> bias \<Rightarrow> combinator \<Rightarrow> combinator" where
  "add_bias t b c = c\<lparr>cb_biases := dict_set t (b, cb_order c) (cb_biases c), cb_order := Suc (cb_order c)\<rparr>"

definition add_bias_if :: "rule_type \<Rightarrow> bias \<Rightarrow> bool \<Rightarrow> combinator \<Rightarrow> combinator" where
  "add_bias_if t b block c = (if block then add_bias t b c else c)"

definition get_combined_biases :: "combinator \<Rightarrow> (rule_type \<times> bias) list" where
  "get_combined_biases c = map (\<lambda>(t, b, _). (t, b)) (sort_key (\<lambda>(_, _, n). n) (cb_biases c))"

definition get_relay_biases_combinator :: "bool \<Rightarrow> combinator" where
  "get_relay_biases_combinator recalibration_enabled =
     add_bias BOOST_LOW_VOLUME_PROJECTS_RULE boost_low_volume_projects_bias
       (add_bias BOOST_LOW_VOLUME_TRANSACTIONS_RULE boost_low_volume_transactions_bias
         (add_bias BOOST_LATEST_RELEASES_RULE boost_latest_releases_bias
           (add_bias_if RECALIBRATION_RULE recalibration_bias recalibration_enabled
             (add_bias BOOST_ENVIRONMENTS_RULE boost_environments_bias
               (add_bias BOOST_REPLAY_ID_RULE boost_replay_id_bias
                 (add_bias IGNORE_HEALTH_CHECKS_RULE ignore_health_checks_bias
                   (add_bias CUSTOM_RULE custom_rule_bias empty_combinator)))))))"

definition ALWAYS_ALLOWED_RULE_TYPES :: "rule_type list" where
  "ALWAYS_ALLOWED_RULE_TYPES = [BOOST_LOW_VOLUME_PROJECTS_RULE, CUSTOM_RULE]"

definition NEW_MODEL_THRESHOLD_IN_MINUTES :: int where "NEW_MODEL_THRESHOLD_IN_MINUTES = 10"

definition is_recently_added :: "int option \<Rightarrow> int \<Rightarrow> bool" where
  "is_recently_added date_added now =
     (case date_added of None \<Rightarrow> False | Some d \<Rightarrow> d \<ge> now - NEW_MODEL_THRESHOLD_IN_MINUTES * 60 * 1000)"

text \<open>What \<open>generate_rules\<close> reads of a project and its organization besides the context of the biases.\<close>

record sampled_project =
  sp_context :: bias_context
  sp_date_added :: "int option"
  sp_org_date_added :: "int option"
  sp_blended :: "rat option"
  sp_user_biases :: "(string \<times> bool) list option"
  sp_recalibration :: bool

definition get_guarded_blended_sample_rate :: "sampled_project \<Rightarrow> rat result" where
  "get_guarded_blended_sample_rate p =
     (let ctx = sp_context p
      in case sp_blended p of
           None \<Rightarrow> Inr 1
         | Some r \<Rightarrow>
             if r = 1 then Inr r
             else if is_recently_added (sp_date_added p) (bc_now ctx) \<or> is_recently_added (sp_org_date_added p) (bc_now ctx)
             then Inr 1
             else (case get_boost_low_volume_projects_sample_rate (bc_org ctx) (bc_project ctx) (Some r) (bc_now ctx)
                     (bc_store ctx) of
                 (Some x, _) \<Rightarrow> Inr x
               | (None, _) \<Rightarrow> Inl TypeError))"

definition bias_enabled :: "rat \<Rightarrow> string list \<Rightarrow> rule_type \<Rightarrow> bool" where
  "bias_enabled base_sample_rate enabled t =
     (t \<in> set ALWAYS_ALLOWED_RULE_TYPES
      \<or> (rule_type_value t \<in> set enabled \<and> 0 < base_sample_rate \<and> base_sample_rate < 1))"

definition get_rules_of_enabled_biases ::
  "bias_context \<Rightarrow> rat \<Rightarrow> string list \<Rightarrow> (rule_type \<times> bias) list \<Rightarrow> sampling_rule list" where
  "get_rules_of_enabled_biases ctx base_sample_rate enabled combined =
     foldl (\<lambda>rules (t, b). if bias_enabled base_sample_rate enabled t
         then (case b ctx base_sample_rate of Inl _ \<Rightarrow> rules | Inr rs \<Rightarrow> rules @ rs) else rules) [] combined"

definition generate_rules :: "sampled_project \<Rightarrow> sampling_rule list" where
  "generate_rules p =
     (case get_guarded_blended_sample_rate p of
        Inl _ \<Rightarrow> []
      | Inr base \<Rightarrow>
          get_rules_of_enabled_biases (sp_context p) base (get_enabled_user_biases (sp_user_biases p))
            (get_combined_biases (get_relay_biases_combinator (sp_recalibration p))))"

section \<open>The factors of transactions\<close>

text \<open>The factor of the rule with a condition; a condition without a rule multiplies by 1.\<close>

definition factor_of :: "pyval \<Rightarrow> sampling_rule list \<Rightarrow> rat" where
  "factor_of c rules =
     (case find (\<lambda>r. sr_condition r = c) rules of
        None \<Rightarrow> 1
      | Some r \<Rightarrow> (case sr_value r of Factor x \<Rightarrow> x | _ \<Rightarrow> 0))"

lemma transaction_condition_eq [simp]:
  "transaction_condition n = transaction_condition n' \<longleftrightarrow> n = n'"
  "transaction_condition n \<noteq> match_all" "match_all \<noteq> transaction_condition n"
  by (simp_all add: transaction_condition_def match_all_def)

lemma plain_rule_simps [simp]:
  "sr_condition (plain_rule v ty c i) = c" "sr_value (plain_rule v ty c i) = v" "sr_id (plain_rule v ty c i) = i"
  by (simp_all add: plain_rule_def)

lemma find_app: "find P (xs @ ys) = (case find P xs of None \<Rightarrow> find P ys | r \<Rightarrow> r)"
  by (induction xs) auto

lemma transaction_rules_conditions:
  "r \<in> set (fst (transaction_rules i n m)) \<Longrightarrow> \<exists>name \<in> fst ` set m. sr_condition r = transaction_condition name"
  by (induction i n m rule: transaction_rules.induct) (auto split: prod.splits if_splits)

lemma transaction_rules_no_match_all:
  "find (\<lambda>r. sr_condition r = match_all) (fst (transaction_rules i n m)) = None"
  using transaction_rules_conditions by (fastforce simp: find_None_iff)

lemma transaction_rules_skips:
  assumes "name \<notin> fst ` set m"
  shows "find (\<lambda>r. sr_condition r = transaction_condition name) (fst (transaction_rules i n m)) = None"
  unfolding find_None_iff
proof (intro notI, elim exE conjE)
  fix r assume "r \<in> set (fst (transaction_rules i n m))" "sr_condition r = transaction_condition name"
  with transaction_rules_conditions obtain name' where "name' \<in> fst ` set m" "name = name'"
    by (metis transaction_condition_eq(1))
  with assms show False by simp
qed

lemma transaction_rules_find:
  assumes "dict_wf m" "(name, rate) \<in> set m"
  shows "case find (\<lambda>r. sr_condition r = transaction_condition name) (fst (transaction_rules i n m)) of
      None \<Rightarrow> rate / i = 1 | Some r \<Rightarrow> sr_value r = Factor (rate / i)"
  using assms
proof (induction i n m rule: transaction_rules.induct)
  case (2 i n name' rate' m)
  show ?case
  proof (cases "name' = name")
    case True
    with "2.prems" have r: "rate' = rate" and "name \<notin> fst ` set m" by (auto intro: rev_image_eqI)
    from this(2) have none: "find (\<lambda>r. sr_condition r = transaction_condition name) (fst (transaction_rules i j m)) = None" for j
      by (rule transaction_rules_skips)
    show ?thesis using True r none [of n] by (auto split: prod.splits)
  next
    case False
    with 2 show ?thesis by (auto split: prod.splits)
  qed
qed simp

lemma transaction_rules_factor:
  assumes "dict_wf m" "(name, rate) \<in> set m"
  shows "factor_of (transaction_condition name) (fst (transaction_rules i n m) @
      [plain_rule v ty match_all k]) = rate / i"
    and "factor_of (transaction_condition name) (fst (transaction_rules i n m)) = rate / i"
  using transaction_rules_find [OF assms, of i n]
  by (auto simp: factor_of_def find_app split: option.splits)

definition empty_store :: ds_store where
  "empty_store = \<lparr>ds_project_rates = [], ds_transaction_rates = [], ds_factors = [], ds_org_rates = [],
     ds_org_executed = None\<rparr>"

definition example_transactions :: "string item list" where
  "example_transactions =
     [\<lparr>ri_id = ''/a'', ri_count = 1, ri_rate = 1\<rparr>, \<lparr>ri_id = ''/b'', ri_count = 9, ri_rate = 1 / 9\<rparr>]"

definition example_context :: bias_context where
  "example_context =
     \<lparr>bc_project = 1, bc_org = 1, bc_now = 5,
      bc_store = set_transactions_resampling_rates 1 1 example_transactions (1 / 2) 100 0 empty_store,
      bc_releases = [], bc_custom_rules = [], bc_condition_valid = (\<lambda>_. True), bc_pow = (\<lambda>x _. x)\<rparr>"

section \<open>What Relay multiplies\<close>

lemma stored_rates:
  assumes "now < t + ttl"
  shows "get_transactions_resampling_rates org project d now
      (set_transactions_resampling_rates org project items implicit ttl t s) =
    (dict_merge [] (map (\<lambda>e. (ri_id e, ri_rate e)) items), implicit)"
  using assms by (simp add: get_transactions_resampling_rates_def set_transactions_resampling_rates_def alive_def)

lemma stored_rate_in:
  assumes "distinct (map ri_id items)" "e \<in> set items"
  shows "(ri_id e, ri_rate e) \<in> set (dict_merge [] (map (\<lambda>e. (ri_id e, ri_rate e)) items))"
proof -
  have wf: "dict_wf (map (\<lambda>e. (ri_id e, ri_rate e)) items)" using assms by (simp add: comp_def)
  then have "dict_get (map (\<lambda>e. (ri_id e, ri_rate e)) items) (ri_id e) = Some (ri_rate e)"
    using assms by (intro dict_get_wf) auto
  with wf have "dict_get (dict_merge [] (map (\<lambda>e. (ri_id e, ri_rate e)) items)) (ri_id e) = Some (ri_rate e)"
    by (simp add: dict_get_merge)
  then show ?thesis by (rule dict_get_in)
qed

text \<open>
  C25. The rates that the task of the transactions stores for a project come out of the rules that Relay
  multiplies. With a positive base rate and the rates of at least one transaction, stored under distinct names and not expired,
  the bias of the low volume transactions gives a general rule that turns the base rate into the implicit
  rate (1 where a rate of 0 was stored), and for every transaction of the store a rule that turns this into the
  rate stored for it
  (\<open>BoostLowVolumeTransactionsBias\<close>).
\<close>

theorem rebalanced_rates_reach_relay:
  assumes "0 < base" "items \<noteq> []" "distinct (map ri_id items)"
    and "bc_store ctx = set_transactions_resampling_rates (bc_org ctx) (bc_project ctx) items implicit ttl t s"
    and "bc_now ctx < t + ttl"
  shows "case boost_low_volume_transactions_bias ctx base of
      Inl _ \<Rightarrow> False
    | Inr rules \<Rightarrow> base * factor_of match_all rules = (if implicit = 0 then 1 else implicit)
        \<and> (\<forall>e \<in> set items. base * factor_of match_all rules * factor_of (transaction_condition (ri_id e)) rules = ri_rate e)"
proof -
  define m where "m = dict_merge [] (map (\<lambda>e. (ri_id e, ri_rate e)) items)"
  have got: "get_transactions_resampling_rates (bc_org ctx) (bc_project ctx) base (bc_now ctx) (bc_store ctx) = (m, implicit)"
    using assms(4,5) by (simp add: stored_rates m_def)
  have inm: "(ri_id e, ri_rate e) \<in> set m" if "e \<in> set items" for e
    using that assms(3) by (simp add: m_def stored_rate_in)
  with assms(2) have ne: "m \<noteq> []" by (cases items) fastforce+
  have wf: "dict_wf m" by (simp add: m_def)
  define i where "i = (if implicit = 0 then 1 else implicit)"
  have i: "i \<noteq> 0" by (simp add: i_def)
  obtain rules idx where tr: "transaction_rules i 0 m = (rules, idx)" by fastforce
  define general where "general = plain_rule (Factor (i / base)) ''trace'' match_all
    (RESERVED_ID BOOST_LOW_VOLUME_TRANSACTIONS_RULE + idx)"
  have bias: "boost_low_volume_transactions_bias ctx base =
      Inr (if i / base \<noteq> 1 then rules @ [general] else rules)"
    using assms(1) ne tr by (simp add: boost_low_volume_transactions_bias_def got i_def [symmetric] general_def Let_def)
  have all: "factor_of match_all (rules @ [general]) = i / base" "factor_of match_all rules = 1"
    using transaction_rules_no_match_all [of i 0 m]
    by (simp_all add: factor_of_def find_app tr general_def)
  have each: "factor_of (transaction_condition (ri_id e)) (rules @ [general]) = ri_rate e / i"
      "factor_of (transaction_condition (ri_id e)) rules = ri_rate e / i" if "e \<in> set items" for e
    using transaction_rules_factor [OF wf inm [OF that], of i 0] by (simp_all add: tr general_def)
  show ?thesis
    using assms(1) i by (auto simp: bias all each i_def [symmetric] field_simps)
qed


lemma rebalanced_rates_reach_relay_witness:
  "case boost_low_volume_transactions_bias example_context (1 / 4) of
      Inl _ \<Rightarrow> False
    | Inr rules \<Rightarrow> 1 / 4 * factor_of match_all rules = 1 / 2
        \<and> 1 / 4 * factor_of match_all rules * factor_of (transaction_condition ''/b'') rules = 1 / 9"
  using rebalanced_rates_reach_relay [of "1 / 4" example_transactions example_context "1 / 2" 100 0 empty_store]
  by (auto simp: example_context_def example_transactions_def field_simps split: sum.split_asm)

section \<open>The uniform rule\<close>

lemma get_rules_snoc:
  "get_rules_of_enabled_biases ctx base enabled (bs @ [(t, b)]) =
     get_rules_of_enabled_biases ctx base enabled bs @
       (if bias_enabled base enabled t then case b ctx base of Inl _ \<Rightarrow> [] | Inr rs \<Rightarrow> rs else [])"
  by (simp add: get_rules_of_enabled_biases_def split: sum.splits)

lemma combined_biases:
  "get_combined_biases (get_relay_biases_combinator recalibration) =
     [(CUSTOM_RULE, custom_rule_bias), (IGNORE_HEALTH_CHECKS_RULE, ignore_health_checks_bias),
      (BOOST_REPLAY_ID_RULE, boost_replay_id_bias), (BOOST_ENVIRONMENTS_RULE, boost_environments_bias)]
     @ (if recalibration then [(RECALIBRATION_RULE, recalibration_bias)] else [])
     @ [(BOOST_LATEST_RELEASES_RULE, boost_latest_releases_bias),
        (BOOST_LOW_VOLUME_TRANSACTIONS_RULE, boost_low_volume_transactions_bias),
        (BOOST_LOW_VOLUME_PROJECTS_RULE, boost_low_volume_projects_bias)]"
  by (cases recalibration)
    (simp_all add: get_combined_biases_def get_relay_biases_combinator_def add_bias_def add_bias_if_def empty_combinator_def
      dict_set_def)

lemma guarded_rate_total: "\<exists>base. get_guarded_blended_sample_rate p = Inr base"
  by (auto simp: get_guarded_blended_sample_rate_def get_boost_low_volume_projects_sample_rate_def Let_def
      split: option.splits)

text \<open>
  The rules of a project always end with its uniform rule. Whatever biases the user disabled and
  whichever of them raise, \<open>generate_rules\<close> returns a non-empty list whose last rule matches
  every trace and carries the guarded blended rate, which is always a number.
\<close>

theorem uniform_rule_last:
  "\<exists>base. get_guarded_blended_sample_rate p = Inr base
     \<and> generate_rules p \<noteq> []
     \<and> last (generate_rules p) = plain_rule (SampleRate base) ''trace'' match_all (RESERVED_ID BOOST_LOW_VOLUME_PROJECTS_RULE)"
proof -
  obtain base where base: "get_guarded_blended_sample_rate p = Inr base" using guarded_rate_total by blast
  obtain bs where "get_combined_biases (get_relay_biases_combinator (sp_recalibration p)) =
      bs @ [(BOOST_LOW_VOLUME_PROJECTS_RULE, boost_low_volume_projects_bias)]"
    by (simp add: combined_biases)
  then have "generate_rules p = get_rules_of_enabled_biases (sp_context p) base
      (get_enabled_user_biases (sp_user_biases p)) bs @
    [plain_rule (SampleRate base) ''trace'' match_all (RESERVED_ID BOOST_LOW_VOLUME_PROJECTS_RULE)]"
    by (simp add: generate_rules_def base get_rules_snoc bias_enabled_def ALWAYS_ALLOWED_RULE_TYPES_def
        boost_low_volume_projects_bias_def)
  with base show ?thesis by simp
qed

section \<open>Ids of rules\<close>

lemma transaction_rules_next: "idx \<le> snd (transaction_rules i idx m)" "snd (transaction_rules i idx m) \<le> idx + length m"
  by (induction i idx m rule: transaction_rules.induct) (auto split: prod.splits)

lemma transaction_rules_ids:
  "r \<in> set (fst (transaction_rules i idx m)) \<Longrightarrow> 1400 + idx \<le> sr_id r \<and> sr_id r < 1400 + snd (transaction_rules i idx m)"
proof (induction i idx m rule: transaction_rules.induct)
  case (2 i idx name rate m)
  have "idx < snd (transaction_rules i (Suc idx) m)"
    using transaction_rules_next(1) [of "Suc idx" i m] by simp
  with 2 show ?case by (auto split: prod.splits if_splits)
qed simp

lemma transactions_bias_type:
  assumes "boost_low_volume_transactions_bias ctx base = Inr rs" "r \<in> set rs"
    and "length (fst (get_transactions_resampling_rates (bc_org ctx) (bc_project ctx) base (bc_now ctx) (bc_store ctx))) < 100"
  shows "get_rule_type r = Some BOOST_LOW_VOLUME_TRANSACTIONS_RULE"
proof -
  obtain m i where m: "get_transactions_resampling_rates (bc_org ctx) (bc_project ctx) base (bc_now ctx) (bc_store ctx) = (m, i)"
    by fastforce
  define j where "j = (if i = 0 then 1 else i)"
  obtain rules idx where tr: "transaction_rules j 0 m = (rules, idx)" by fastforce
  have idx: "idx < 100" using transaction_rules_next(2) [of j 0 m] assms(3) by (simp add: tr m)
  have "rs = [] \<or> set rs \<subseteq> insert (plain_rule (Factor (j / base)) ''trace'' match_all (1400 + idx)) (set rules)"
    using assms(1) by (auto simp: boost_low_volume_transactions_bias_def m tr Let_def simp flip: j_def split: if_splits)
  with assms(2) have "sr_id r = 1400 + idx \<or> r \<in> set rules" by auto
  then have "1400 \<le> sr_id r \<and> sr_id r < 1500"
    using transaction_rules_ids [of r j 0 m] idx by (auto simp: tr)
  then show ?thesis by (simp add: get_rule_type_def BOOSTED_RELEASES_LIMIT_def)
qed

lemma releases_bias_type:
  assumes "boost_latest_releases_bias ctx base = Inr rs" "r \<in> set rs" "length (bc_releases ctx) \<le> BOOSTED_RELEASES_LIMIT"
  shows "get_rule_type r = Some BOOST_LATEST_RELEASES_RULE"
proof -
  obtain f where "rs = map (\<lambda>(idx, r). release_rule f idx r) (zip [0..<length (bc_releases ctx)] (bc_releases ctx))"
    using assms(1) by (auto simp: boost_latest_releases_bias_def bind_result_Inr_iff split: sum.splits)
  with assms(2) obtain idx b where "r = release_rule f idx b" "idx < length (bc_releases ctx)"
    by (auto dest: set_zip_leftD)
  with assms(3) show ?thesis by (simp add: get_rule_type_def release_rule_def)
qed

text \<open>
  The id of a rule tells which bias made it. With at most ten boosted releases and fewer than a
  hundred rebalanced transactions, \<open>get_rule_type\<close> gives back, for every rule that a bias of the
  combinator returns, the type the bias is registered under, custom rules apart (their ids are numbered
  per organization).
\<close>

theorem rule_ids_name_their_bias:
  assumes "(t, b) \<in> set (get_combined_biases (get_relay_biases_combinator recalibration))" "t \<noteq> CUSTOM_RULE"
    and "b ctx base = Inr rs" "r \<in> set rs"
    and "length (bc_releases ctx) \<le> BOOSTED_RELEASES_LIMIT"
    and "length (fst (get_transactions_resampling_rates (bc_org ctx) (bc_project ctx) base (bc_now ctx) (bc_store ctx))) < 100"
  shows "get_rule_type r = Some t"
proof -
  consider "t = BOOST_LOW_VOLUME_TRANSACTIONS_RULE" "b = boost_low_volume_transactions_bias"
    | "t = BOOST_LATEST_RELEASES_RULE" "b = boost_latest_releases_bias"
    | "(t, b) \<in> {(IGNORE_HEALTH_CHECKS_RULE, ignore_health_checks_bias), (BOOST_REPLAY_ID_RULE, boost_replay_id_bias),
        (BOOST_ENVIRONMENTS_RULE, boost_environments_bias), (RECALIBRATION_RULE, recalibration_bias),
        (BOOST_LOW_VOLUME_PROJECTS_RULE, boost_low_volume_projects_bias)}"
    using assms(1,2) by (auto simp: combined_biases split: if_splits)
  then show ?thesis
  proof cases
    case 1 with assms show ?thesis by (auto intro: transactions_bias_type)
  next
    case 2 with assms show ?thesis by (auto intro: releases_bias_type)
  next
    case 3
    with assms(3,4) have "sr_id r = RESERVED_ID t" "t \<noteq> BOOST_LATEST_RELEASES_RULE" "t \<noteq> BOOST_LOW_VOLUME_TRANSACTIONS_RULE" "t \<noteq> CUSTOM_RULE"
      by (auto simp: ignore_health_checks_bias_def boost_replay_id_bias_def boost_environments_bias_def
          recalibration_bias_def boost_low_volume_projects_bias_def Let_def split: if_splits)
    then show ?thesis
      by (cases t) (simp_all add: get_rule_type_def BOOSTED_RELEASES_LIMIT_def reverse_reserved_id_def all_rule_types_def)
  qed
qed

lemma rule_ids_name_their_bias_witness:
  "get_rule_type (plain_rule (Factor 2) ''trace'' match_all 1402) = Some BOOST_LOW_VOLUME_TRANSACTIONS_RULE"
proof (rule rule_ids_name_their_bias)
  show "(BOOST_LOW_VOLUME_TRANSACTIONS_RULE, boost_low_volume_transactions_bias)
      \<in> set (get_combined_biases (get_relay_biases_combinator True))"
    by (simp add: combined_biases)
  show "boost_low_volume_transactions_bias example_context (1 / 4) =
      Inr [plain_rule (Factor 2) ''trace'' (transaction_condition ''/a'') 1400,
           plain_rule (Factor (2 / 9)) ''trace'' (transaction_condition ''/b'') 1401,
           plain_rule (Factor 2) ''trace'' match_all 1402]"
    by (simp add: boost_low_volume_transactions_bias_def example_context_def stored_rates example_transactions_def
        dict_set_def)
  show "length (fst (get_transactions_resampling_rates (bc_org example_context) (bc_project example_context) (1 / 4)
      (bc_now example_context) (bc_store example_context))) < 100"
    by (simp add: example_context_def stored_rates example_transactions_def dict_set_def)
qed (simp_all add: example_context_def)

end
