(* ===== verification/SamplingIterators.thy ===== *)
theory SamplingIterators
  imports Rebalancing
begin

text \<open>
  How the tasks of dynamic sampling walk over organizations, projects and transactions: the iterators
  that read pages of rows from Snuba and hand them out in batches (\<open>dynamic_sampling/tasks/common.py\<close>,
  \<open>tasks/boost_low_volume_transactions.py\<close>) and the zip of three sorted streams of projects. A query is a
  function from the offset to the rows Snuba returns, at most \<open>CHUNK_SIZE + 1\<close>. The locale
  \<open>paged_batches\<close> states once that paging and caching cannot be seen in the batches; each iterator
  interprets it. Not modelled: the state for logging, the timer and its exception (see
  \<open>SamplingTasks\<close> for the deadline of a task).
\<close>

section \<open>Pages of rows\<close>

definition CHUNK_SIZE :: nat where "CHUNK_SIZE = 9998"
definition MAX_ORGS_PER_QUERY :: nat where "MAX_ORGS_PER_QUERY = 100"
definition MAX_PROJECTS_PER_QUERY :: nat where "MAX_PROJECTS_PER_QUERY = 5000"

record 'c page_state =
  ps_offset :: nat
  ps_cache :: "'c list"
  ps_more :: bool

definition start_pages :: "'c page_state" where
  "start_pages = \<lparr>ps_offset = 0, ps_cache = [], ps_more = True\<rparr>"

text \<open>One query: one row more than a page tells that there are more results, and is dropped.\<close>

definition fetch_page :: "(nat \<Rightarrow> 'r list) \<Rightarrow> nat \<Rightarrow> 'r list \<times> bool" where
  "fetch_page query offset =
     (let data = query offset; more = length data > CHUNK_SIZE
      in (if more then butlast data else data, more))"

definition load_page :: "('r list \<Rightarrow> 'c list) \<Rightarrow> (nat \<Rightarrow> 'r list) \<Rightarrow> 'c page_state \<Rightarrow> 'c page_state" where
  "load_page add query st =
     (let (data, more) = fetch_page query (ps_offset st)
      in st\<lparr>ps_offset := ps_offset st + CHUNK_SIZE, ps_cache := ps_cache st @ add data, ps_more := more\<rparr>)"

text \<open>
  The common shape of \<open>__next__\<close>: \<open>enough\<close> says that the cache serves this call, \<open>bsize\<close> how much of
  the cache is handed out; None is the end of the iteration.
\<close>

definition next_batch ::
  "('c list \<Rightarrow> bool) \<Rightarrow> ('c list \<Rightarrow> nat) \<Rightarrow> ('r list \<Rightarrow> 'c list) \<Rightarrow> (nat \<Rightarrow> 'r list) \<Rightarrow> 'c page_state
     \<Rightarrow> 'c list option \<times> 'c page_state" where
  "next_batch enough bsize add query st =
     (let st = (if \<not> enough (ps_cache st) \<and> ps_more st then load_page add query st else st);
          n = bsize (ps_cache st)
      in if ps_cache st = [] then (None, st)
         else (Some (take n (ps_cache st)), st\<lparr>ps_cache := drop n (ps_cache st)\<rparr>))"

text \<open>A for loop over an iterator, with fuel for the number of calls.\<close>

fun drain :: "nat \<Rightarrow> ('s \<Rightarrow> 'a option \<times> 's) \<Rightarrow> 's \<Rightarrow> 'a list option" where
  "drain 0 nxt s = None"
| "drain (Suc n) nxt s =
     (case nxt s of (None, _) \<Rightarrow> Some [] | (Some x, s) \<Rightarrow> map_option (Cons x) (drain n nxt s))"

section \<open>The iterators\<close>

text \<open>\<open>GetActiveOrgs\<close>: rows are an organization and its number of projects.\<close>

definition orgs_enough_cached :: "nat \<Rightarrow> nat option \<Rightarrow> (nat \<times> nat) list \<Rightarrow> bool" where
  "orgs_enough_cached max_orgs max_projects last_result =
     (length last_result \<ge> max_orgs \<or>
      (case max_projects of
         None \<Rightarrow> False
       | Some m \<Rightarrow> list_ex (\<lambda>(_, num_projects). num_projects \<ge> m) last_result))"

fun orgs_cut :: "nat \<Rightarrow> nat option \<Rightarrow> nat \<Rightarrow> nat \<Rightarrow> (nat \<times> nat) list \<Rightarrow> nat option" where
  "orgs_cut max_orgs max_projects idx count_projects [] = None"
| "orgs_cut max_orgs max_projects idx count_projects ((org, num_projects) # rows) =
     (let count_projects = count_projects + num_projects
      in if Suc idx \<ge> max_orgs \<or> (case max_projects of None \<Rightarrow> False | Some m \<Rightarrow> count_projects \<ge> m)
         then Some (Suc idx)
         else orgs_cut max_orgs max_projects (Suc idx) count_projects rows)"

definition orgs_batch :: "nat \<Rightarrow> nat option \<Rightarrow> (nat \<times> nat) list \<Rightarrow> nat" where
  "orgs_batch max_orgs max_projects last_result =
     (case orgs_cut max_orgs max_projects 0 0 last_result of Some n \<Rightarrow> n | None \<Rightarrow> length last_result)"

definition get_active_orgs_next ::
  "nat \<Rightarrow> nat option \<Rightarrow> (nat \<Rightarrow> (nat \<times> nat) list) \<Rightarrow> (nat \<times> nat) page_state
     \<Rightarrow> nat list option \<times> (nat \<times> nat) page_state" where
  "get_active_orgs_next max_orgs max_projects query st =
     (case next_batch (orgs_enough_cached max_orgs max_projects) (orgs_batch max_orgs max_projects) (\<lambda>data. data) query st of
        (batch, st) \<Rightarrow> (map_option (map fst) batch, st))"

text \<open>\<open>GetActiveOrgsVolumes\<close>: batches of at most \<open>max_orgs\<close> volumes.\<close>

definition volumes_batch :: "nat \<Rightarrow> 'v list \<Rightarrow> nat" where
  "volumes_batch max_orgs last_result = (if length last_result \<ge> max_orgs then max_orgs else length last_result)"

definition get_active_orgs_volumes_next ::
  "nat \<Rightarrow> (nat \<Rightarrow> 'v list) \<Rightarrow> 'v page_state \<Rightarrow> 'v list option \<times> 'v page_state" where
  "get_active_orgs_volumes_next max_orgs = next_batch (\<lambda>c. length c \<ge> max_orgs) (volumes_batch max_orgs) (\<lambda>data. data)"

text \<open>\<open>get_organization_volume\<close>: the first volume of the first batch; later batches only when that one is empty.\<close>

definition get_organization_volume :: "(nat \<Rightarrow> 'v list) \<Rightarrow> 'v option" where
  "get_organization_volume query =
     (case fst (get_active_orgs_volumes_next 1 query start_pages) of
        Some (v # _) \<Rightarrow> Some v
      | _ \<Rightarrow> None)"

text \<open>\<open>FetchProjectTransactionTotals\<close> hands out one row at a time.\<close>

definition fetch_totals_next :: "(nat \<Rightarrow> 'r list) \<Rightarrow> 'r page_state \<Rightarrow> 'r list option \<times> 'r page_state" where
  "fetch_totals_next = next_batch (\<lambda>c. c \<noteq> []) (\<lambda>c. 1) (\<lambda>data. data)"

text \<open>
  \<open>FetchProjectTransactionVolumes\<close> groups the rows of a page by project; a row is an organization, a
  project, the name of a transaction and its count.
\<close>

type_synonym volume_row = "nat \<times> nat \<times> string \<times> nat"

record project_transactions =
  pt_org :: nat
  pt_project :: nat
  pt_counts :: "(string \<times> nat) list"
  pt_total :: "nat option"
  pt_classes :: "nat option"

definition counted :: "nat \<times> nat \<Rightarrow> (string \<times> nat) list \<Rightarrow> project_transactions" where
  "counted key counts =
     \<lparr>pt_org = fst key, pt_project = snd key, pt_counts = counts, pt_total = None, pt_classes = None\<rparr>"

fun add_results :: "(nat \<times> nat) option \<Rightarrow> (string \<times> nat) list \<Rightarrow> volume_row list \<Rightarrow> project_transactions list" where
  "add_results current counts [] =
     (case current of Some key \<Rightarrow> if counts = [] then [] else [counted key counts] | None \<Rightarrow> [])"
| "add_results current counts ((org, project, name, num) # rows) =
     (if current \<noteq> Some (org, project)
      then (case current of
              Some key \<Rightarrow> (if counts = [] then [] else [counted key counts])
            | None \<Rightarrow> [])
           @ add_results (Some (org, project)) [(name, num)] rows
      else add_results current (counts @ [(name, num)]) rows)"

definition add_results_to_cache :: "volume_row list \<Rightarrow> project_transactions list" where
  "add_results_to_cache data = add_results None [] data"

definition fetch_volumes_next ::
  "nat \<Rightarrow> (nat \<Rightarrow> volume_row list) \<Rightarrow> project_transactions page_state
     \<Rightarrow> project_transactions list option \<times> project_transactions page_state" where
  "fetch_volumes_next max_transactions query st =
     (if max_transactions = 0 then (None, st)
      else next_batch (\<lambda>c. c \<noteq> []) (\<lambda>c. 1) add_results_to_cache query st)"

section \<open>Paging and caching cannot be seen\<close>

function greedy :: "('c list \<Rightarrow> nat) \<Rightarrow> 'c list \<Rightarrow> 'c list list" where
  "greedy bsize xs =
     (if xs = [] then [] else take (max 1 (bsize xs)) xs # greedy bsize (drop (max 1 (bsize xs)) xs))"
  by pat_completeness auto
termination
  by (relation "measure (\<lambda>(bsize, xs). length xs)") auto

declare greedy.simps [simp del]

lemma greedy_Nil [simp]: "greedy bsize [] = []"
  by (simp add: greedy.simps)

lemma greedy_step: "xs \<noteq> [] \<Longrightarrow> 0 < bsize xs \<Longrightarrow> greedy bsize xs = take (bsize xs) xs # greedy bsize (drop (bsize xs) xs)"
  by (subst greedy.simps) (simp add: max_def)

lemma concat_greedy [simp]: "concat (greedy bsize xs) = xs"
proof (induction bsize xs rule: greedy.induct)
  case (1 bsize xs)
  then show ?case by (subst greedy.simps) simp
qed

definition pages :: "'r list \<Rightarrow> 'r list list" where
  "pages = greedy (\<lambda>_. CHUNK_SIZE)"

definition serves :: "(nat \<Rightarrow> 'r list) \<Rightarrow> 'r list \<Rightarrow> bool" where
  \<comment> \<open>LIMIT \<open>CHUNK_SIZE + 1\<close> and OFFSET over a fixed list of rows\<close>
  "serves query rows = (\<forall>offset. query offset = take (Suc CHUNK_SIZE) (drop offset rows))"

lemma CHUNK_SIZE_pos [simp]: "0 < CHUNK_SIZE"
  by (simp add: CHUNK_SIZE_def)

lemma pages_Nil [simp]: "pages [] = []"
  by (simp add: pages_def)

lemma pages_step: "rows \<noteq> [] \<Longrightarrow> pages rows = take CHUNK_SIZE rows # pages (drop CHUNK_SIZE rows)"
  by (simp add: pages_def greedy_step)

lemma concat_pages [simp]: "concat (pages rows) = rows"
  by (simp add: pages_def)

lemma butlast_take_Suc: "n < length xs \<Longrightarrow> butlast (take (Suc n) xs) = take n xs"
  by (simp add: butlast_take)

lemma fetch_page_serves:
  "serves query rows \<Longrightarrow>
    fetch_page query offset = (take CHUNK_SIZE (drop offset rows), offset + CHUNK_SIZE < length rows)"
  by (auto simp: fetch_page_def serves_def Let_def butlast_take_Suc less_diff_conv)

locale paged_batches =
  fixes enough :: "'c list \<Rightarrow> bool" and bsize :: "'c list \<Rightarrow> nat" and add :: "'r list \<Rightarrow> 'c list"
  assumes cut_pos: "c \<noteq> [] \<Longrightarrow> 0 < bsize c"
    and enough_nonempty: "enough c \<Longrightarrow> c \<noteq> []"
    and cut_enough: "enough c \<Longrightarrow> bsize (c @ rest) = bsize c \<and> bsize c \<le> length c"
    and cut_loaded: "length page = CHUNK_SIZE \<Longrightarrow> bsize ((c @ add page) @ rest) = bsize (c @ add page)
        \<and> bsize (c @ add page) \<le> length (c @ add page)"
    and add_page: "length page = CHUNK_SIZE \<Longrightarrow> add page \<noteq> []"
    and add_Nil: "add [] = []"
begin

text \<open>What an iterator in a state still has to hand out.\<close>

definition to_come :: "'r list \<Rightarrow> 'c page_state \<Rightarrow> 'c list" where
  "to_come rows st = ps_cache st @ (if ps_more st then concat (map add (pages (drop (ps_offset st) rows))) else [])"

lemma load_to_come:
  assumes "serves query rows" "ps_more st"
  shows "to_come rows (load_page add query st) = to_come rows st"
proof (cases "drop (ps_offset st) rows = []")
  case True
  with assms show ?thesis by (simp add: to_come_def load_page_def fetch_page_serves add_Nil)
next
  case False
  have next_drop: "drop CHUNK_SIZE (drop (ps_offset st) rows) = drop (ps_offset st + CHUNK_SIZE) rows"
    by (simp add: add.commute)
  have page: "pages (drop (ps_offset st) rows) =
      take CHUNK_SIZE (drop (ps_offset st) rows) # pages (drop (ps_offset st + CHUNK_SIZE) rows)"
    using pages_step [OF False] by (simp only: next_drop)
  show ?thesis
    using assms by (simp add: to_come_def load_page_def fetch_page_serves page)
qed

lemma next_batch_spec:
  assumes "serves query rows"
  shows "case next_batch enough bsize add query st of
      (None, _) \<Rightarrow> to_come rows st = []
    | (Some b, st') \<Rightarrow> to_come rows st \<noteq> [] \<and> b = take (bsize (to_come rows st)) (to_come rows st)
        \<and> to_come rows st' = drop (bsize (to_come rows st)) (to_come rows st)"
proof -
  define st1 where "st1 = (if \<not> enough (ps_cache st) \<and> ps_more st then load_page add query st else st)"
  have same: "to_come rows st1 = to_come rows st"
    using assms by (simp add: st1_def load_to_come)
  have c: "(\<exists>rest. to_come rows st1 = ps_cache st1 @ rest \<and> ps_cache st1 \<noteq> []
        \<and> bsize (ps_cache st1 @ rest) = bsize (ps_cache st1) \<and> bsize (ps_cache st1) \<le> length (ps_cache st1))
      \<or> to_come rows st1 = ps_cache st1 \<and> \<not> ps_more st1"
  proof (cases "enough (ps_cache st1) \<or> \<not> ps_more st1")
    case True
    then show ?thesis using cut_enough enough_nonempty by (auto simp: to_come_def)
  next
    case False
    then have loaded: "st1 = load_page add query st" "ps_offset st + CHUNK_SIZE < length rows"
      using assms by (auto simp: st1_def load_page_def fetch_page_serves split: if_splits)
    let ?page = "take CHUNK_SIZE (drop (ps_offset st) rows)"
    have "length ?page = CHUNK_SIZE" using loaded(2) by simp
    moreover have "ps_cache st1 = ps_cache st @ add ?page"
      using assms by (simp add: loaded(1) load_page_def fetch_page_serves)
    ultimately show ?thesis using cut_loaded add_page by (auto simp: to_come_def)
  qed
  have eq: "next_batch enough bsize add query st =
      (if ps_cache st1 = [] then (None, st1)
       else (Some (take (bsize (ps_cache st1)) (ps_cache st1)), st1\<lparr>ps_cache := drop (bsize (ps_cache st1)) (ps_cache st1)\<rparr>))"
    by (simp add: next_batch_def Let_def flip: st1_def)
  from c show ?thesis
  proof (elim disjE exE conjE)
    fix rest assume "to_come rows st1 = ps_cache st1 @ rest" "ps_cache st1 \<noteq> []"
      "bsize (ps_cache st1 @ rest) = bsize (ps_cache st1)" "bsize (ps_cache st1) \<le> length (ps_cache st1)"
    then show ?thesis by (simp add: eq flip: same) (auto simp: to_come_def split: if_splits)
  next
    assume "to_come rows st1 = ps_cache st1" "\<not> ps_more st1"
    then show ?thesis by (simp add: eq flip: same) (simp add: to_come_def)
  qed
qed

lemma drain_greedy:
  assumes "serves query rows" "length (to_come rows st) < n"
  shows "drain n (next_batch enough bsize add query) st = Some (greedy bsize (to_come rows st))"
  using assms(2)
proof (induction n arbitrary: st)
  case (Suc n)
  show ?case
  proof (cases "next_batch enough bsize add query st")
    case (Pair b st')
    with next_batch_spec [OF assms(1), of st] show ?thesis
    proof (cases b)
      case (Some batch)
      with next_batch_spec [OF assms(1), of st] Pair have
        "to_come rows st \<noteq> []" "batch = take (bsize (to_come rows st)) (to_come rows st)"
        "to_come rows st' = drop (bsize (to_come rows st)) (to_come rows st)" by auto
      note spec = this
      from cut_pos spec(1) have pos: "0 < bsize (to_come rows st)" by simp
      with spec(1,3) Suc.prems have "length (to_come rows st') < n" by (cases "to_come rows st") auto
      with Suc.IH [of st'] Pair Some spec pos show ?thesis by (simp add: greedy_step)
    qed simp
  qed
qed simp

lemma to_come_start [simp]: "to_come rows start_pages = concat (map add (pages rows))"
  by (simp add: to_come_def start_pages_def)

lemma drain_start:
  assumes "serves query rows" "length (concat (map add (pages rows))) < n"
  shows "drain n (next_batch enough bsize add query) start_pages = Some (greedy bsize (concat (map add (pages rows))))"
  using drain_greedy [of query rows start_pages n] assms by simp

end


section \<open>Batches of organizations\<close>

lemma orgs_cut_Some:
  "orgs_cut mo mp i c rows = Some n \<Longrightarrow>
    i < n \<and> n \<le> i + length rows \<and> orgs_cut mo mp i c (rows @ rest) = Some n"
proof (induction mo mp i c rows rule: orgs_cut.induct)
  case (2 mo mp i c org k rows)
  then show ?case by (auto simp: Let_def split: if_splits option.splits)
qed simp

lemma orgs_cut_enough:
  assumes "rows \<noteq> []" "mo \<le> i + length rows \<or> (case mp of None \<Rightarrow> False | Some m \<Rightarrow> list_ex (\<lambda>(_, k). k \<ge> m) rows)"
  shows "orgs_cut mo mp i c rows \<noteq> None"
  using assms
proof (induction mo mp i c rows rule: orgs_cut.induct)
  case (2 mo mp i c org k rows)
  show ?case
  proof (cases "Suc i \<ge> mo \<or> (case mp of None \<Rightarrow> False | Some m \<Rightarrow> c + k \<ge> m)")
    case False
    with "2.prems" have "rows \<noteq> [] \<and> (mo \<le> Suc i + length rows
        \<or> (case mp of None \<Rightarrow> False | Some m \<Rightarrow> list_ex (\<lambda>(_, k). k \<ge> m) rows))"
      by (cases rows) (auto split: option.splits)
    with False show ?thesis using "2.IH" [OF refl] by (simp add: Let_def)
  qed (simp add: Let_def)
qed simp

lemma orgs_cut_group:
  assumes "orgs_cut mo mp i c rows = Some n" "i < mo"
  shows "n \<le> mo"
    and "case mp of None \<Rightarrow> True | Some m \<Rightarrow> n = Suc i \<or> c + sum_list (map snd (take (n - Suc i) rows)) < m"
    and "n = mo \<or> (case mp of None \<Rightarrow> False | Some m \<Rightarrow> m \<le> c + sum_list (map snd (take (n - i) rows)))"
proof -
  have "n \<le> mo
    \<and> (case mp of None \<Rightarrow> True | Some m \<Rightarrow> n = Suc i \<or> c + sum_list (map snd (take (n - Suc i) rows)) < m)
    \<and> (n = mo \<or> (case mp of None \<Rightarrow> False | Some m \<Rightarrow> m \<le> c + sum_list (map snd (take (n - i) rows))))"
    using assms
  proof (induction mo mp i c rows rule: orgs_cut.induct)
    case (2 mo mp i c org k rows)
    show ?case
    proof (cases "Suc i \<ge> mo \<or> (case mp of None \<Rightarrow> False | Some m \<Rightarrow> c + k \<ge> m)")
      case True
      with "2.prems" show ?thesis by (auto simp: Let_def split: option.splits)
    next
      case False
      with "2.prems"(1) have rest: "orgs_cut mo mp (Suc i) (c + k) rows = Some n" by (simp add: Let_def)
      with orgs_cut_Some [OF rest] False have "Suc i < n" "Suc i < mo" by auto
      then have "take (n - i) ((org, k) # rows) = (org, k) # take (n - Suc i) rows"
        "take (n - Suc i) ((org, k) # rows) = (org, k) # take (n - Suc (Suc i)) rows"
        by (simp_all add: take_Cons' Suc_diff_Suc)
      with "2.IH" [OF refl False rest] False \<open>Suc i < mo\<close> show ?thesis
        by (auto split: option.splits simp: add.assoc)
    qed
  qed simp
  then show "n \<le> mo"
    "case mp of None \<Rightarrow> True | Some m \<Rightarrow> n = Suc i \<or> c + sum_list (map snd (take (n - Suc i) rows)) < m"
    "n = mo \<or> (case mp of None \<Rightarrow> False | Some m \<Rightarrow> m \<le> c + sum_list (map snd (take (n - i) rows)))"
    by simp_all
qed

lemma orgs_cut_None:
  assumes "orgs_cut mo mp i c rows = None" "rows \<noteq> []"
  shows "i + length rows < mo"
    and "case mp of None \<Rightarrow> True | Some m \<Rightarrow> c + sum_list (map snd rows) < m"
proof -
  have "i + length rows < mo \<and> (case mp of None \<Rightarrow> True | Some m \<Rightarrow> c + sum_list (map snd rows) < m)"
    using assms
  proof (induction mo mp i c rows rule: orgs_cut.induct)
    case (2 mo mp i c org k rows)
    then show ?case by (cases rows) (auto simp: Let_def add.assoc split: if_splits option.splits)
  qed simp
  then show "i + length rows < mo" "case mp of None \<Rightarrow> True | Some m \<Rightarrow> c + sum_list (map snd rows) < m" by simp_all
qed

lemma orgs_batch_append:
  "orgs_cut mo mp 0 0 rows \<noteq> None \<Longrightarrow> orgs_batch mo mp (rows @ rest) = orgs_batch mo mp rows \<and> orgs_batch mo mp rows \<le> length rows"
  using orgs_cut_Some [of mo mp 0 0 rows _ rest] by (auto simp: orgs_batch_def)

lemma orgs_batch_pos: "rows \<noteq> [] \<Longrightarrow> 0 < orgs_batch mo mp rows"
  using orgs_cut_Some [of mo mp 0 0 rows] by (auto simp: orgs_batch_def split: option.splits)

lemma orgs_enough_cut:
  "orgs_enough_cached MAX_ORGS_PER_QUERY mp c \<Longrightarrow> orgs_cut MAX_ORGS_PER_QUERY mp 0 0 c \<noteq> None \<and> c \<noteq> []"
  using orgs_cut_enough [of c MAX_ORGS_PER_QUERY 0 mp 0]
  by (cases c) (auto simp: orgs_enough_cached_def MAX_ORGS_PER_QUERY_def split: option.splits)

interpretation active_orgs: paged_batches
  "orgs_enough_cached MAX_ORGS_PER_QUERY mp" "orgs_batch MAX_ORGS_PER_QUERY mp" "\<lambda>data. data" for mp
proof
  fix c page rest :: "(nat \<times> nat) list"
  show "c \<noteq> [] \<Longrightarrow> 0 < orgs_batch MAX_ORGS_PER_QUERY mp c" by (rule orgs_batch_pos)
  show "orgs_enough_cached MAX_ORGS_PER_QUERY mp c \<Longrightarrow> c \<noteq> []" by (simp add: orgs_enough_cut)
  show "orgs_enough_cached MAX_ORGS_PER_QUERY mp c \<Longrightarrow>
      orgs_batch MAX_ORGS_PER_QUERY mp (c @ rest) = orgs_batch MAX_ORGS_PER_QUERY mp c
      \<and> orgs_batch MAX_ORGS_PER_QUERY mp c \<le> length c"
    by (simp add: orgs_batch_append orgs_enough_cut)
  assume page: "length page = CHUNK_SIZE"
  then show "page \<noteq> []" by (auto simp: CHUNK_SIZE_def)
  then have "c @ page \<noteq> []" "MAX_ORGS_PER_QUERY \<le> 0 + length (c @ page)"
    using page by (auto simp: CHUNK_SIZE_def MAX_ORGS_PER_QUERY_def)
  then have "orgs_cut MAX_ORGS_PER_QUERY mp 0 0 (c @ page) \<noteq> None" by (intro orgs_cut_enough) auto
  then show "orgs_batch MAX_ORGS_PER_QUERY mp ((c @ page) @ rest) = orgs_batch MAX_ORGS_PER_QUERY mp (c @ page)
      \<and> orgs_batch MAX_ORGS_PER_QUERY mp (c @ page) \<le> length (c @ page)"
    by (rule orgs_batch_append)
qed simp

interpretation org_volumes: paged_batches
  "\<lambda>c. length c \<ge> MAX_ORGS_PER_QUERY" "volumes_batch MAX_ORGS_PER_QUERY" "\<lambda>data. data"
  by unfold_locales (auto simp: volumes_batch_def MAX_ORGS_PER_QUERY_def CHUNK_SIZE_def)

interpretation totals_rows: paged_batches "\<lambda>c. c \<noteq> []" "\<lambda>c. 1" "\<lambda>data. data"
  by unfold_locales (auto simp: CHUNK_SIZE_def Suc_le_eq)

lemma drain_map: "drain n (\<lambda>st. case nxt st of (b, st) \<Rightarrow> (map_option f b, st)) s = map_option (map f) (drain n nxt s)"
proof (induction n arbitrary: s)
  case (Suc n)
  show ?case
  proof (cases "nxt s")
    case (Pair b s')
    with Suc show ?thesis by (cases b) (simp_all add: option.map_comp comp_def)
  qed
qed simp

lemma concat_map_pages [simp]: "concat (map (\<lambda>data. data) (pages rows)) = rows"
  by (simp add: map_idI)

text \<open>A batch is not empty, within the limits, and holds no organization after the limit was reached.\<close>

definition orgs_group :: "nat option \<Rightarrow> (nat \<times> nat) list \<Rightarrow> bool" where
  "orgs_group mp g =
     (g \<noteq> [] \<and> length g \<le> MAX_ORGS_PER_QUERY
      \<and> (case mp of None \<Rightarrow> True | Some m \<Rightarrow> length g = 1 \<or> sum_list (map snd (butlast g)) < m))"

definition orgs_full :: "nat option \<Rightarrow> (nat \<times> nat) list \<Rightarrow> bool" where
  "orgs_full mp g =
     (length g = MAX_ORGS_PER_QUERY \<or> (case mp of None \<Rightarrow> False | Some m \<Rightarrow> m \<le> sum_list (map snd g)))"

lemma greedy_orgs:
  "list_all (orgs_group mp) (greedy (orgs_batch MAX_ORGS_PER_QUERY mp) rows)
   \<and> list_all (orgs_full mp) (butlast (greedy (orgs_batch MAX_ORGS_PER_QUERY mp) rows))"
proof (induction rows rule: length_induct)
  case (1 rows)
  show ?case
  proof (cases "rows = []")
    case False
    let ?n = "orgs_batch MAX_ORGS_PER_QUERY mp rows"
    let ?rest = "greedy (orgs_batch MAX_ORGS_PER_QUERY mp) (drop ?n rows)"
    have pos: "0 < ?n" using False by (rule orgs_batch_pos)
    have step: "greedy (orgs_batch MAX_ORGS_PER_QUERY mp) rows = take ?n rows # ?rest"
      using False pos by (rule greedy_step)
    have rest: "list_all (orgs_group mp) ?rest \<and> list_all (orgs_full mp) (butlast ?rest)"
      using 1 False pos by (simp add: diff_less)
    show ?thesis
    proof (cases "orgs_cut MAX_ORGS_PER_QUERY mp 0 0 rows")
      case None
      from orgs_cut_None [OF None False] have "length rows < MAX_ORGS_PER_QUERY"
        "case mp of None \<Rightarrow> True | Some m \<Rightarrow> sum_list (map snd rows) < m" by (auto split: option.splits)
      moreover have "sum_list (map snd (butlast rows)) \<le> sum_list (map snd rows)"
        using False by (metis append_butlast_last_id le_add1 map_append sum_list_append)
      moreover have "?n = length rows" using None by (simp add: orgs_batch_def)
      ultimately show ?thesis using False
        by (auto simp: step orgs_group_def split: option.splits)
    next
      case (Some n)
      have n: "?n = n" "0 < n" "n \<le> length rows" using Some orgs_cut_Some [OF Some] by (auto simp: orgs_batch_def)
      have "0 < MAX_ORGS_PER_QUERY" by (simp add: MAX_ORGS_PER_QUERY_def)
      from orgs_cut_group [OF Some this] n have "orgs_group mp (take n rows)" "orgs_full mp (take n rows)"
        by (auto simp: orgs_group_def orgs_full_def butlast_take split: option.splits)
      with rest show ?thesis by (simp add: step n(1))
    qed
  qed simp
qed

text \<open>
  The loop over the active organizations ends and sees every organization once. For any number of
  rows in Snuba, the batches of \<open>GetActiveOrgs\<close> put together are the organizations in their order; none
  is empty or longer than 100; without its last organization a batch of several is below the limit
  of projects; and every batch but the last has reached one of the limits. The pages and the
  cache, and what \<open>_enough_results_cached\<close> counts, make no difference.
\<close>

theorem active_orgs_batches:
  assumes "serves query rows"
  shows "\<exists>groups. drain (Suc (length rows)) (get_active_orgs_next MAX_ORGS_PER_QUERY mp query) start_pages =
      Some (map (map fst) groups)
    \<and> concat groups = rows \<and> list_all (orgs_group mp) groups \<and> list_all (orgs_full mp) (butlast groups)"
proof (intro exI conjI)
  let ?groups = "greedy (orgs_batch MAX_ORGS_PER_QUERY mp) rows"
  have "drain (Suc (length rows)) (next_batch (orgs_enough_cached MAX_ORGS_PER_QUERY mp)
      (orgs_batch MAX_ORGS_PER_QUERY mp) (\<lambda>data. data) query) start_pages = Some ?groups"
    using active_orgs.drain_start [OF assms, of "Suc (length rows)"] by (simp del: drain.simps)
  then show "drain (Suc (length rows)) (get_active_orgs_next MAX_ORGS_PER_QUERY mp query) start_pages =
      Some (map (map fst) ?groups)"
    unfolding get_active_orgs_next_def by (simp add: drain_map)
  show "concat ?groups = rows" by simp
  show "list_all (orgs_group mp) ?groups" "list_all (orgs_full mp) (butlast ?groups)"
    using greedy_orgs by blast+
qed

definition paged_query :: "'r list \<Rightarrow> nat \<Rightarrow> 'r list" where
  "paged_query rows offset = take (Suc CHUNK_SIZE) (drop offset rows)"

lemma serves_paged_query: "serves (paged_query rows) rows"
  by (simp add: serves_def paged_query_def)

definition example_org_rows :: "(nat \<times> nat) list" where
  "example_org_rows = [(1, 3), (2, 3), (3, 1)]"

lemma active_orgs_batches_witness:
  "\<exists>groups. drain (Suc (length example_org_rows))
        (get_active_orgs_next MAX_ORGS_PER_QUERY (Some 5) (paged_query example_org_rows)) start_pages = Some (map (map fst) groups)
    \<and> concat groups = example_org_rows"
  using active_orgs_batches [OF serves_paged_query, of example_org_rows "Some 5"] by blast

section \<open>Volumes of transactions\<close>

lemma add_results_nonempty: "counts \<noteq> [] \<Longrightarrow> add_results (Some key) counts rows \<noteq> []"
  by (induction "Some key" counts rows arbitrary: key rule: add_results.induct) auto

lemma add_results_to_cache_nonempty: "rows \<noteq> [] \<Longrightarrow> add_results_to_cache rows \<noteq> []"
  by (cases rows) (auto simp: add_results_to_cache_def add_results_nonempty)

lemma add_results_to_cache_Nil [simp]: "add_results_to_cache [] = []"
  by (simp add: add_results_to_cache_def)

lemma full_page_added: "length page = CHUNK_SIZE \<Longrightarrow> add_results_to_cache page \<noteq> []"
  by (intro add_results_to_cache_nonempty) (auto simp: CHUNK_SIZE_def)

interpretation project_volumes: paged_batches "\<lambda>c. c \<noteq> []" "\<lambda>c. 1" add_results_to_cache
  by unfold_locales (auto simp: Suc_le_eq full_page_added)

definition volume_key :: "volume_row \<Rightarrow> nat \<times> nat" where
  "volume_key = (\<lambda>(org, project, _, _). (org, project))"

definition pt_key :: "project_transactions \<Rightarrow> nat \<times> nat" where
  "pt_key p = (pt_org p, pt_project p)"

lemma pt_key_counted [simp]: "pt_key (counted key counts) = key"
  by (simp add: pt_key_def counted_def)

lemma add_results_length:
  "length (add_results current counts rows) \<le> length rows + (if current \<noteq> None \<and> counts \<noteq> [] then 1 else 0)"
  by (induction current counts rows rule: add_results.induct) (auto split: option.splits)

lemma add_results_last:
  "rows \<noteq> [] \<Longrightarrow> pt_key (last (add_results current counts rows)) = volume_key (last rows)"
proof (induction current counts rows rule: add_results.induct)
  case (2 current counts org project name num rows)
  show ?case
  proof (cases "rows = []")
    case True
    then show ?thesis by (auto simp: volume_key_def split: option.splits)
  next
    case False
    then show ?thesis
      using 2 add_results_nonempty [of "[(name, num)]" "(org, project)" rows] by (cases "current = Some (org, project)") auto
  qed
qed simp

lemma add_results_hd: "counts \<noteq> [] \<Longrightarrow> pt_key (hd (add_results (Some key) counts rows)) = key"
  by (induction "Some key" counts rows arbitrary: key rule: add_results.induct) auto

lemma add_results_to_cache_ends:
  assumes "rows \<noteq> []"
  shows "pt_key (last (add_results_to_cache rows)) = volume_key (last rows)"
    and "pt_key (hd (add_results_to_cache rows)) = volume_key (hd rows)"
    and "length (add_results_to_cache rows) \<le> length rows"
  using add_results_last [OF assms] add_results_length [of None "[]" rows] assms
  by (cases rows; auto simp: add_results_to_cache_def add_results_hd volume_key_def)+

lemma volumes_length: "length (concat (map add_results_to_cache (pages rows))) \<le> length rows"
proof -
  have "length (concat (map add_results_to_cache ps)) \<le> length (concat ps)" for ps
  proof (induction ps)
    case (Cons p ps)
    then show ?case using add_results_to_cache_ends(3) [of p] by (cases "p = []") auto
  qed simp
  from this [of "pages rows"] show ?thesis by simp
qed

text \<open>
  A project whose rows fall on both sides of a page boundary is handed out twice. If the last row
  of the first page and the first row of the second belong to one project, the loop over
  \<open>FetchProjectTransactionVolumes\<close> ends, and two consecutive results are of that project, each with a part of
  its transactions; the second overwrites the rates stored for the first.
\<close>

theorem split_project_twice:
  assumes "serves query rows" "0 < max_transactions" "CHUNK_SIZE < length rows"
    and "volume_key (rows ! (CHUNK_SIZE - 1)) = volume_key (rows ! CHUNK_SIZE)"
  shows "\<exists>out i. drain (Suc (length rows)) (fetch_volumes_next max_transactions query) start_pages = Some out
    \<and> Suc i < length (concat out) \<and> pt_key (concat out ! i) = pt_key (concat out ! Suc i)"
proof -
  let ?p = "take CHUNK_SIZE rows" and ?q = "take CHUNK_SIZE (drop CHUNK_SIZE rows)"
  let ?c = "concat (map add_results_to_cache (pages rows))"
  let ?P = "add_results_to_cache ?p" and ?Q = "add_results_to_cache ?q"
  have "fetch_volumes_next max_transactions query = next_batch (\<lambda>c. c \<noteq> []) (\<lambda>c. 1) add_results_to_cache query"
    using assms(2) by (simp add: fetch_volumes_next_def fun_eq_iff)
  then have run: "drain (Suc (length rows)) (fetch_volumes_next max_transactions query) start_pages = Some (greedy (\<lambda>c. 1) ?c)"
    using project_volumes.drain_start [OF assms(1), of "Suc (length rows)"] volumes_length [of rows]
    by (simp only:)
  have ne: "?p \<noteq> []" "?q \<noteq> []" using assms(3) CHUNK_SIZE_pos by auto
  have "rows \<noteq> []" "drop CHUNK_SIZE rows \<noteq> []" using assms(3) by auto
  note steps = pages_step [OF this(1)] pages_step [OF this(2)]
  have c: "?c = ?P @ ?Q @ concat (map add_results_to_cache (pages (drop CHUNK_SIZE (drop CHUNK_SIZE rows))))"
    by (simp add: steps)
  have PQ: "?P \<noteq> []" "?Q \<noteq> []" using ne by (simp_all add: add_results_to_cache_nonempty)
  have "last ?p = rows ! (CHUNK_SIZE - 1)"
    using assms(3) ne(1) by (simp add: last_conv_nth min_def CHUNK_SIZE_def)
  moreover have "hd ?q = rows ! CHUNK_SIZE" using assms(3) CHUNK_SIZE_pos by (simp add: hd_drop_conv_nth)
  ultimately have same: "pt_key (last ?P) = pt_key (hd ?Q)"
    using add_results_to_cache_ends [OF ne(1)] add_results_to_cache_ends [OF ne(2)] assms(4) by simp
  have at: "?c ! (length ?P - 1) = last ?P" "?c ! Suc (length ?P - 1) = hd ?Q" "Suc (length ?P - 1) < length ?c"
    using PQ by (simp_all add: c nth_append last_conv_nth hd_conv_nth)
  show ?thesis
    using run same at by (intro exI [of _ "greedy (\<lambda>c. 1) ?c"] exI [of _ "length ?P - 1"]) (simp del: drain.simps)
qed

definition split_rows :: "volume_row list" where
  "split_rows = replicate (Suc CHUNK_SIZE) (1, 1, ''/a'', 1)"

lemma split_project_twice_witness:
  "\<exists>out i. drain (Suc (length split_rows)) (fetch_volumes_next 2 (paged_query split_rows)) start_pages = Some out
    \<and> Suc i < length (concat out) \<and> pt_key (concat out ! i) = pt_key (concat out ! Suc i)"
proof (rule split_project_twice [OF serves_paged_query])
  show "CHUNK_SIZE < length split_rows" by (simp only: split_rows_def length_replicate lessI)
  show "volume_key (split_rows ! (CHUNK_SIZE - 1)) = volume_key (split_rows ! CHUNK_SIZE)"
    by (simp add: split_rows_def less_Suc_eq_le del: replicate.simps)
qed simp

section \<open>The zip of transactions: \<open>tasks/boost_low_volume_transactions.py\<close>\<close>

record project_totals =
  tt_org :: nat
  tt_project :: nat
  tt_total :: nat
  tt_classes :: nat

definition tt_key :: "project_totals \<Rightarrow> nat \<times> nat" where
  "tt_key t = (tt_org t, tt_project t)"

text \<open>Identities are pairs of an organization and a project.\<close>

definition is_same_project :: "(nat \<times> nat) option \<Rightarrow> (nat \<times> nat) option \<Rightarrow> bool" where
  "is_same_project left right =
     (case (left, right) of (Some l, Some r) \<Rightarrow> snd l = snd r \<and> fst l = fst r | _ \<Rightarrow> False)"

definition is_project_identity_before :: "nat \<times> nat \<Rightarrow> nat \<times> nat \<Rightarrow> bool" where
  "is_project_identity_before left right = (fst left < fst right \<or> (fst left = fst right \<and> snd left < snd right))"

definition merged_counts :: "(string \<times> nat) list \<Rightarrow> (string \<times> nat) list \<Rightarrow> (string \<times> nat) list" where
  "merged_counts left right =
     foldl (\<lambda>merged (name, num). if name \<notin> fst ` set left then merged @ [(name, num)] else merged) left right"

definition merge_transactions ::
  "project_transactions option \<Rightarrow> project_transactions option \<Rightarrow> project_totals option \<Rightarrow> project_transactions result" where
  "merge_transactions left right totals =
     (if right = None \<and> left = None then Inl ValueError
      else if left \<noteq> None \<and> right \<noteq> None \<and> \<not> is_same_project (map_option pt_key left) (map_option pt_key right)
      then Inl ValueError
      else if totals \<noteq> None \<and> \<not> is_same_project (map_option pt_key left) (map_option tt_key totals)
      then Inl (if left = None then TypeError else ValueError)
      else
        case left of
          None \<Rightarrow> Inl AssertionError
        | Some l \<Rightarrow>
            Inr \<lparr>pt_org = pt_org l, pt_project = pt_project l,
              pt_counts = (case right of None \<Rightarrow> pt_counts l | Some r \<Rightarrow> merged_counts (pt_counts l) (pt_counts r)),
              pt_total = map_option tt_total totals, pt_classes = map_option tt_classes totals\<rparr>)"

text \<open>The closure of \<open>next_totals\<close>: the total remembered in \<open>current[0]\<close> and what is left of the iterator.\<close>

type_synonym totals_state = "project_totals option \<times> project_totals list"

fun scan_totals :: "project_totals option \<Rightarrow> nat \<times> nat \<Rightarrow> project_totals list \<Rightarrow> project_totals option \<times> totals_state" where
  "scan_totals current match [] = (None, current, [])"
| "scan_totals current match (t # ts) =
     (if is_same_project (Some (tt_key t)) (Some match) then (Some t, current, ts)
      else if is_project_identity_before match (tt_key t) then (None, Some t, ts)
      else scan_totals current match ts)"

definition next_totals :: "nat \<times> nat \<Rightarrow> totals_state \<Rightarrow> project_totals option \<times> totals_state" where
  "next_totals match = (\<lambda>(current, ts).
     if is_same_project (map_option tt_key current) (Some match) then (current, None, ts)
     else if (case current of None \<Rightarrow> False | Some c \<Rightarrow> is_project_identity_before match (tt_key c))
     then (None, current, ts)
     else scan_totals current match ts)"

text \<open>One of the two streams: whether it may have more, the element at hand, and what is left of it.\<close>

type_synonym stream = "bool \<times> project_transactions option \<times> project_transactions list"

definition pull :: "stream \<Rightarrow> stream" where
  "pull = (\<lambda>(has_more, elm, xs).
     if has_more \<and> elm = None then (case xs of [] \<Rightarrow> (False, None, []) | x # xs \<Rightarrow> (True, Some x, xs)) else (has_more, elm, xs))"

fun stream_left :: "stream \<Rightarrow> nat" where
  "stream_left (has_more, elm, xs) = (if elm = None then 0 else 1) + length xs"

text \<open>What the generator yields, and the exception that ends it.\<close>

fun emit :: "'a result \<Rightarrow> 'a list \<times> py_exc option \<Rightarrow> 'a list \<times> py_exc option" where
  "emit (Inl e) rest = ([], Some e)"
| "emit (Inr x) (xs, e) = (x # xs, e)"

lemma stream_left_pulled [simp]: "stream_left (pull s) = stream_left s"
  by (cases s) (auto simp: pull_def split: list.splits)

lemma stream_left_pull:
  "(has_more, elm, xs) = pull s \<Longrightarrow> stream_left s = (if elm = None then 0 else 1) + length xs"
  by (cases s) (auto simp: pull_def split: list.splits if_splits)

function zip_loop :: "totals_state \<Rightarrow> stream \<Rightarrow> stream \<Rightarrow> project_transactions list \<times> py_exc option" where
  "zip_loop totals left right =
     (if \<not> fst left \<and> \<not> fst right then ([], None)
      else
        let (more_right, right_elm, rs) = pull right;
            (more_left, left_elm, ls) = pull left
        in case (left_elm, right_elm) of
             (None, None) \<Rightarrow> ([], None)
           | (Some l, Some r) \<Rightarrow>
               (if is_same_project (Some (pt_key l)) (Some (pt_key r)) then
                  let (tot, totals) = next_totals (pt_key l) totals
                  in emit (merge_transactions (Some l) (Some r) tot)
                       (zip_loop totals (more_left, None, ls) (more_right, None, rs))
                else if is_project_identity_before (pt_key l) (pt_key r) then
                  let (tot, totals) = next_totals (pt_key l) totals
                  in emit (merge_transactions (Some l) None tot)
                       (zip_loop totals (more_left, None, ls) (more_right, Some r, rs))
                else
                  let (tot, totals) = next_totals (pt_key r) totals
                  in emit (merge_transactions (Some r) None tot)
                       (zip_loop totals (more_left, Some l, ls) (more_right, None, rs)))
           | (Some l, None) \<Rightarrow>
               let (tot, totals) = next_totals (pt_key l) totals
               in emit (merge_transactions (Some l) None tot)
                    (zip_loop totals (more_left, None, ls) (more_right, None, rs))
           | (None, Some r) \<Rightarrow>
               let (tot, totals) = next_totals (pt_key r) totals
               in emit (merge_transactions (Some r) None tot)
                    (zip_loop totals (more_left, None, ls) (more_right, None, rs)))"
  by pat_completeness auto
termination
  by (relation "measure (\<lambda>(_, left, right). stream_left left + stream_left right)")
    (auto dest!: stream_left_pull)

declare zip_loop.simps [simp del]

definition transactions_zip ::
  "project_totals list \<Rightarrow> project_transactions list \<Rightarrow> project_transactions list \<Rightarrow> project_transactions list \<times> py_exc option" where
  "transactions_zip totals left right = zip_loop (None, totals) (True, None, left) (True, None, right)"

section \<open>The zip is a merge of sorted streams\<close>

lemma identity_simps [simp]:
  "is_same_project (Some k) (Some k') \<longleftrightarrow> k = k'"
  "is_same_project None x = False" "is_same_project x None = False"
  "is_project_identity_before k k' \<longleftrightarrow> k < k'"
  by (auto simp: is_same_project_def is_project_identity_before_def less_prod_def prod_eq_iff split: option.splits)

definition lookup_by :: "('a \<Rightarrow> nat \<times> nat) \<Rightarrow> nat \<times> nat \<Rightarrow> 'a list \<Rightarrow> 'a option" where
  "lookup_by key k xs = find (\<lambda>x. key x = k) xs"

abbreviation sorted_by :: "('a \<Rightarrow> nat \<times> nat) \<Rightarrow> 'a list \<Rightarrow> bool" where
  "sorted_by key xs \<equiv> sorted_wrt (\<lambda>x y. key x < key y) xs"

lemma lookup_by_simps [simp]:
  "lookup_by key k [] = None"
  "lookup_by key k (x # xs) = (if key x = k then Some x else lookup_by key k xs)"
  by (simp_all add: lookup_by_def)

lemma lookup_by_key: "lookup_by key k xs = Some x \<Longrightarrow> key x = k"
  by (auto simp: lookup_by_def find_Some_iff)

lemma lookup_by_smaller: "\<forall>x \<in> set xs. k < key x \<Longrightarrow> lookup_by key k xs = None"
  by (auto simp: lookup_by_def find_None_iff)

lemma lookup_by_later: "sorted_by key (x # xs) \<Longrightarrow> k \<le> key x \<Longrightarrow> lookup_by key k xs = None"
  by (intro lookup_by_smaller) auto

text \<open>One project of the result: the transactions of the left, those of the right that are not in it, and the totals.\<close>

definition combine_project ::
  "project_transactions option \<Rightarrow> project_transactions option \<Rightarrow> project_totals option \<Rightarrow> nat \<times> nat \<Rightarrow> project_transactions" where
  "combine_project left right totals k =
     (let names = (case left of None \<Rightarrow> {} | Some l \<Rightarrow> fst ` set (pt_counts l))
      in \<lparr>pt_org = fst k, pt_project = snd k,
          pt_counts = (case left of None \<Rightarrow> [] | Some l \<Rightarrow> pt_counts l) @
            (case right of None \<Rightarrow> [] | Some r \<Rightarrow> filter (\<lambda>(name, _). name \<notin> names) (pt_counts r)),
          pt_total = map_option tt_total totals, pt_classes = map_option tt_classes totals\<rparr>)"

definition zip_spec ::
  "project_totals list \<Rightarrow> project_transactions list \<Rightarrow> project_transactions list \<Rightarrow> project_transactions list" where
  "zip_spec totals left right =
     map (\<lambda>k. combine_project (lookup_by pt_key k left) (lookup_by pt_key k right) (lookup_by tt_key k totals) k)
       (sorted_list_of_set (pt_key ` set left \<union> pt_key ` set right))"

lemma merged_counts_filter: "merged_counts left right = left @ filter (\<lambda>(name, _). name \<notin> fst ` set left) right"
proof -
  have "foldl (\<lambda>merged (name, num). if name \<notin> N then merged @ [(name, num)] else merged) m right =
      m @ filter (\<lambda>(name, _). name \<notin> N) right" for m and N :: "string set"
    by (induction right arbitrary: m) auto
  then show ?thesis by (simp add: merged_counts_def)
qed

lemma merge_both:
  assumes "pt_key l = k" "pt_key r = k" "\<And>t. tot = Some t \<Longrightarrow> tt_key t = k"
  shows "merge_transactions (Some l) (Some r) tot = Inr (combine_project (Some l) (Some r) tot k)"
  using assms
  by (cases tot) (auto simp: merge_transactions_def combine_project_def merged_counts_filter pt_key_def)

lemma merge_one:
  assumes "pt_key l = k" "\<And>t. tot = Some t \<Longrightarrow> tt_key t = k"
  shows "merge_transactions (Some l) None tot = Inr (combine_project (Some l) None tot k)"
    and "merge_transactions (Some l) None tot = Inr (combine_project None (Some l) tot k)"
  using assms
  by (cases tot; auto simp: merge_transactions_def combine_project_def pt_key_def)+

subsection \<open>Totals\<close>

fun totals_ahead :: "totals_state \<Rightarrow> project_totals list" where
  "totals_ahead (None, ts) = ts"
| "totals_ahead (Some c, ts) = c # ts"

lemma scan_totals_spec:
  assumes "sorted_by tt_key ts" "scan_totals current k ts = (r, st)"
    "\<And>c. current = Some c \<Longrightarrow> tt_key c < k \<and> (\<forall>t \<in> set ts. tt_key c < tt_key t)"
  shows "r = lookup_by tt_key k ts \<and> sorted_by tt_key (totals_ahead st)
    \<and> (\<forall>k' > k. lookup_by tt_key k' (totals_ahead st) = lookup_by tt_key k' ts)"
  using assms
proof (induction current k ts rule: scan_totals.induct)
  case (1 current k)
  then show ?case by (cases current) auto
next
  case (2 current k t ts)
  consider "tt_key t = k" | "k < tt_key t" | "tt_key t < k" by fastforce
  then show ?case
  proof cases
    case 1
    with 2 show ?thesis by (cases current) auto
  next
    case 2
    with "2.prems" have "lookup_by tt_key k ts = None" by (intro lookup_by_later [of _ t]) auto
    with 2 "2.prems" show ?thesis by auto
  next
    case 3
    then have no: "tt_key t \<noteq> k" "\<not> k < tt_key t" by auto
    with "2.prems" have rest: "sorted_by tt_key ts" "scan_totals current k ts = (r, st)"
      "\<And>c. current = Some c \<Longrightarrow> tt_key c < k \<and> (\<forall>t \<in> set ts. tt_key c < tt_key t)" by auto
    have "lookup_by tt_key k' (t # ts) = lookup_by tt_key k' ts" if "k \<le> k'" for k' using 3 that by auto
    with "2.IH" [OF _ _ rest] no show ?thesis by (simp del: lookup_by_simps split_paired_All)
  qed
qed

lemma next_totals_spec:
  assumes "sorted_by tt_key (totals_ahead st)" "next_totals k st = (r, st')"
  shows "r = lookup_by tt_key k (totals_ahead st) \<and> sorted_by tt_key (totals_ahead st')
    \<and> (\<forall>k' > k. lookup_by tt_key k' (totals_ahead st') = lookup_by tt_key k' (totals_ahead st))"
proof (cases st)
  case (Pair current ts)
  show ?thesis
  proof (cases current)
    case None
    with assms Pair show ?thesis using scan_totals_spec [of ts None k r st'] by (simp add: next_totals_def)
  next
    case (Some c)
    consider "tt_key c = k" | "k < tt_key c" | "tt_key c < k" by fastforce
    then show ?thesis
    proof cases
      case 1 with assms Pair Some show ?thesis by (auto simp: next_totals_def)
    next
      case 2
      with assms(1) Pair Some have "lookup_by tt_key k ts = None" by (intro lookup_by_later [of _ c]) auto
      with 2 assms Pair Some show ?thesis by (auto simp: next_totals_def)
    next
      case 3
      then have "\<not> k < tt_key c" by simp
      moreover from 3 have "tt_key c \<noteq> k" by simp
      ultimately have "scan_totals current k ts = (r, st')" "sorted_by tt_key ts"
        "\<forall>t \<in> set ts. tt_key c < tt_key t" using assms Pair Some by (simp_all add: next_totals_def)
      with 3 Some have *: "r = lookup_by tt_key k ts \<and> sorted_by tt_key (totals_ahead st')
          \<and> (\<forall>k' > k. lookup_by tt_key k' (totals_ahead st') = lookup_by tt_key k' ts)"
        by (intro scan_totals_spec [of ts current]) auto
      have "lookup_by tt_key k' (c # ts) = lookup_by tt_key k' ts" if "k \<le> k'" for k' using 3 that by auto
      with * Pair Some show ?thesis by (simp del: lookup_by_simps split_paired_All)
    qed
  qed
qed

subsection \<open>The loop\<close>

lemma sorted_list_of_set_least:
  assumes "finite S" "\<forall>x \<in> S. k < x"
  shows "sorted_list_of_set (insert (k :: nat \<times> nat) S) = k # sorted_list_of_set S"
proof -
  have "k \<notin> S" using assms(2) by auto
  with assms(1) have "sorted_list_of_set (insert k S) = insort k (sorted_list_of_set S)" by simp
  also have "\<dots> = k # sorted_list_of_set S" using assms by (intro insort_is_Cons) auto
  finally show ?thesis .
qed

lemma zip_spec_take:
  assumes "\<forall>x \<in> pt_key ` set left' \<union> pt_key ` set right'. k < x"
    and "pt_key ` set left \<union> pt_key ` set right = insert k (pt_key ` set left' \<union> pt_key ` set right')"
    and "\<forall>k' > k. lookup_by pt_key k' left = lookup_by pt_key k' left'"
    and "\<forall>k' > k. lookup_by pt_key k' right = lookup_by pt_key k' right'"
    and "\<forall>k' > k. lookup_by tt_key k' totals = lookup_by tt_key k' totals'"
  shows "zip_spec totals left right =
    combine_project (lookup_by pt_key k left) (lookup_by pt_key k right) (lookup_by tt_key k totals) k
      # zip_spec totals' left' right'"
proof -
  have "sorted_list_of_set (insert k (pt_key ` set left' \<union> pt_key ` set right')) =
      k # sorted_list_of_set (pt_key ` set left' \<union> pt_key ` set right')"
    using assms(1) by (intro sorted_list_of_set_least) auto
  moreover have "map (\<lambda>k. combine_project (lookup_by pt_key k left) (lookup_by pt_key k right) (lookup_by tt_key k totals) k)
      (sorted_list_of_set (pt_key ` set left' \<union> pt_key ` set right')) = zip_spec totals' left' right'"
    unfolding zip_spec_def using assms(1,3-5) by (intro map_cong) (auto simp del: split_paired_All)
  ultimately show ?thesis unfolding zip_spec_def [of totals left right] assms(2) by simp
qed

lemma zip_spec_both:
  assumes "sorted_by pt_key (l # ls)" "sorted_by pt_key (r # rs)" "pt_key l = pt_key r"
    and "\<forall>k' > pt_key l. lookup_by tt_key k' totals = lookup_by tt_key k' totals'"
  shows "zip_spec totals (l # ls) (r # rs) =
    combine_project (Some l) (Some r) (lookup_by tt_key (pt_key l) totals) (pt_key l) # zip_spec totals' ls rs"
  using assms zip_spec_take [of ls rs "pt_key l" "l # ls" "r # rs" totals totals']
  by (simp add: ball_Un del: split_paired_All)

lemma zip_spec_left:
  assumes "sorted_by pt_key (l # ls)" "\<forall>r \<in> set rs. pt_key l < pt_key r"
    and "\<forall>k' > pt_key l. lookup_by tt_key k' totals = lookup_by tt_key k' totals'"
  shows "zip_spec totals (l # ls) rs =
    combine_project (Some l) None (lookup_by tt_key (pt_key l) totals) (pt_key l) # zip_spec totals' ls rs"
  using assms lookup_by_smaller [OF assms(2)] zip_spec_take [of ls rs "pt_key l" "l # ls" rs totals totals']
  by (simp add: ball_Un del: split_paired_All)

lemma zip_spec_right:
  assumes "sorted_by pt_key (r # rs)" "\<forall>l \<in> set ls. pt_key r < pt_key l"
    and "\<forall>k' > pt_key r. lookup_by tt_key k' totals = lookup_by tt_key k' totals'"
  shows "zip_spec totals ls (r # rs) =
    combine_project None (Some r) (lookup_by tt_key (pt_key r) totals) (pt_key r) # zip_spec totals' ls rs"
  using assms lookup_by_smaller [OF assms(2)] zip_spec_take [of ls rs "pt_key r" ls "r # rs" totals totals']
  by (simp add: ball_Un del: split_paired_All)

fun pending :: "stream \<Rightarrow> project_transactions list" where
  "pending (has_more, elm, xs) = (case elm of Some x \<Rightarrow> x # xs | None \<Rightarrow> if has_more then xs else [])"

fun stream_ok :: "stream \<Rightarrow> bool" where
  "stream_ok (has_more, elm, xs) = (has_more \<or> elm = None)"

lemma pull_cases:
  assumes "stream_ok s"
  obtains (drained) xs where "pull s = (False, None, xs)" "pending s = []"
    | (elem) x xs where "pull s = (True, Some x, xs)" "pending s = x # xs"
proof -
  obtain m e xs where s: "s = (m, e, xs)" by (cases s)
  show thesis
  proof (cases e)
    case None
    then show thesis using that s by (cases xs; cases m) (auto simp: pull_def)
  next
    case (Some x)
    then show thesis using that(2) [of x xs] assms s by (simp add: pull_def)
  qed
qed

lemma emit_ok [simp]: "emit (Inr x) (xs, None) = (x # xs, None)"
  by simp

lemma zip_loop_spec:
  assumes "stream_ok left" "stream_ok right" "sorted_by pt_key (pending left)" "sorted_by pt_key (pending right)"
    "sorted_by tt_key (totals_ahead totals)"
  shows "zip_loop totals left right = (zip_spec (totals_ahead totals) (pending left) (pending right), None)"
  using assms
proof (induction "length (pending left) + length (pending right)" arbitrary: totals left right rule: less_induct)
  case less
  note IH = less.hyps and prems = less.prems
  have tot: "r = lookup_by tt_key k (totals_ahead totals)" "sorted_by tt_key (totals_ahead st)"
    "\<forall>k' > k. lookup_by tt_key k' (totals_ahead totals) = lookup_by tt_key k' (totals_ahead st)"
    if "next_totals k totals = (r, st)" for k r st
    using next_totals_spec [OF prems(5) that] by auto
  have done_case: "zip_loop totals left right = ([], None)" if "\<not> fst left \<and> \<not> fst right"
    using that by (simp add: zip_loop.simps)
  show ?case
    using prems(1)
  proof (cases rule: pull_cases)
    case (drained xs)
    note l = this
    show ?thesis
      using prems(2)
    proof (cases rule: pull_cases)
      case drained
      with l have "zip_loop totals left right = ([], None)" by (simp add: zip_loop.simps)
      with l drained show ?thesis by (simp add: zip_spec_def)
    next
      case (elem r rs)
      obtain tr st where nt: "next_totals (pt_key r) totals = (tr, st)" by (metis surj_pair)
      have "fst right" using elem by (cases right) (auto simp: pull_def split: if_splits list.splits)
      with l elem nt have "zip_loop totals left right = emit (merge_transactions (Some r) None tr)
          (zip_loop st (False, None, xs) (True, None, rs))"
        by (simp add: zip_loop.simps [of totals])
      also have "zip_loop st (False, None, xs) (True, None, rs) = (zip_spec (totals_ahead st) [] rs, None)"
        using IH [of "(False, None, xs)" "(True, None, rs)" st] l elem prems tot(2) [OF nt] by simp
      also have "merge_transactions (Some r) None tr = Inr (combine_project None (Some r) tr (pt_key r))"
        using tot(1) [OF nt] by (intro merge_one) (auto dest: lookup_by_key lookup_by_key [OF sym])
      finally show ?thesis
        using l elem prems zip_spec_right [OF _ _ tot(3) [OF nt], of rs "[]"] tot(1) [OF nt] by simp
    qed
  next
    case (elem l ls)
    note l = this
    have "fst left" using elem by (cases left) (auto simp: pull_def split: if_splits list.splits)
    show ?thesis
      using prems(2)
    proof (cases rule: pull_cases)
      case (drained rs)
      obtain tr st where nt: "next_totals (pt_key l) totals = (tr, st)" by (metis surj_pair)
      from \<open>fst left\<close> l drained nt have "zip_loop totals left right = emit (merge_transactions (Some l) None tr)
          (zip_loop st (True, None, ls) (False, None, rs))"
        by (simp add: zip_loop.simps [of totals])
      also have "zip_loop st (True, None, ls) (False, None, rs) = (zip_spec (totals_ahead st) ls [], None)"
        using IH [of "(True, None, ls)" "(False, None, rs)" st] l drained prems tot(2) [OF nt] by simp
      also have "merge_transactions (Some l) None tr = Inr (combine_project (Some l) None tr (pt_key l))"
        using tot(1) [OF nt] by (intro merge_one) (auto dest: lookup_by_key lookup_by_key [OF sym])
      finally show ?thesis
        using l drained prems zip_spec_left [OF _ _ tot(3) [OF nt], of ls "[]"] tot(1) [OF nt] by simp
    next
      case (elem r rs)
      note r = this
      consider (same) "pt_key l = pt_key r" | (lt) "pt_key l < pt_key r" | (gt) "pt_key r < pt_key l" by fastforce
      then show ?thesis
      proof cases
        case same
        obtain tr st where nt: "next_totals (pt_key l) totals = (tr, st)" by (metis surj_pair)
        from same \<open>fst left\<close> l r nt have "zip_loop totals left right = emit (merge_transactions (Some l) (Some r) tr)
            (zip_loop st (True, None, ls) (True, None, rs))"
          by (simp add: zip_loop.simps [of totals])
        also have "zip_loop st (True, None, ls) (True, None, rs) = (zip_spec (totals_ahead st) ls rs, None)"
          using IH [of "(True, None, ls)" "(True, None, rs)" st] l r prems tot(2) [OF nt] by simp
        also have "merge_transactions (Some l) (Some r) tr = Inr (combine_project (Some l) (Some r) tr (pt_key l))"
          using tot(1) [OF nt] same by (intro merge_both) (auto dest: lookup_by_key lookup_by_key [OF sym])
        finally show ?thesis
          using same l r prems zip_spec_both [OF _ _ same tot(3) [OF nt], of ls rs] tot(1) [OF nt] by simp
      next
        case lt
        from lt r prems(4) have ahead: "\<forall>x \<in> set (r # rs). pt_key l < pt_key x" by (auto intro: less_trans)
        obtain tr st where nt: "next_totals (pt_key l) totals = (tr, st)" by (metis surj_pair)
        from lt \<open>fst left\<close> l r nt have "zip_loop totals left right = emit (merge_transactions (Some l) None tr)
            (zip_loop st (True, None, ls) (True, Some r, rs))"
          by (simp add: zip_loop.simps [of totals] less_imp_neq)
        also have "zip_loop st (True, None, ls) (True, Some r, rs) = (zip_spec (totals_ahead st) ls (r # rs), None)"
          using IH [of "(True, None, ls)" "(True, Some r, rs)" st] l r prems tot(2) [OF nt] by simp
        also have "merge_transactions (Some l) None tr = Inr (combine_project (Some l) None tr (pt_key l))"
          using tot(1) [OF nt] by (intro merge_one) (auto dest: lookup_by_key lookup_by_key [OF sym])
        finally show ?thesis
          using l r prems ahead zip_spec_left [OF _ _ tot(3) [OF nt], of ls "r # rs"] tot(1) [OF nt] by simp
      next
        case gt
        from gt have nlt: "\<not> pt_key l < pt_key r" by simp
        from gt l prems(3) have ahead: "\<forall>x \<in> set (l # ls). pt_key r < pt_key x" by (auto intro: less_trans)
        obtain tr st where nt: "next_totals (pt_key r) totals = (tr, st)" by (metis surj_pair)
        from gt \<open>fst left\<close> l r nt have "zip_loop totals left right = emit (merge_transactions (Some r) None tr)
            (zip_loop st (True, Some l, ls) (True, None, rs))"
          by (simp add: zip_loop.simps [of totals] less_imp_neq [symmetric] nlt)
        also have "zip_loop st (True, Some l, ls) (True, None, rs) = (zip_spec (totals_ahead st) (l # ls) rs, None)"
          using IH [of "(True, Some l, ls)" "(True, None, rs)" st] l r prems tot(2) [OF nt] by simp
        also have "merge_transactions (Some r) None tr = Inr (combine_project None (Some r) tr (pt_key r))"
          using tot(1) [OF nt] by (intro merge_one) (auto dest: lookup_by_key lookup_by_key [OF sym])
        finally show ?thesis
          using l r prems ahead zip_spec_right [OF _ _ tot(3) [OF nt], of rs "l # ls"] tot(1) [OF nt] by simp
      qed
    qed
  qed
qed

text \<open>
  C14. The zip of the transactions is a merge. When the three streams come sorted by organization and
  project, without repetition, \<open>transactions_zip\<close> never raises, and yields every project of the left or
  the right stream exactly once, in order: with the transactions of the left, then those of the right that are not
  named in the left, and with its totals if there are any. Totals of other projects are passed over.
\<close>

theorem transactions_zip_merges:
  assumes "sorted_by pt_key left" "sorted_by pt_key right" "sorted_by tt_key totals"
  shows "transactions_zip totals left right = (zip_spec totals left right, None)"
  unfolding transactions_zip_def using assms by (subst zip_loop_spec) simp_all

lemma transactions_zip_merges_witness:
  "transactions_zip [\<lparr>tt_org = 1, tt_project = 2, tt_total = 5, tt_classes = 2\<rparr>]
     [counted (1, 2) [(''a'', 4)], counted (2, 1) [(''b'', 7)]] [counted (1, 2) [(''a'', 4), (''c'', 1)]] =
   (zip_spec [\<lparr>tt_org = 1, tt_project = 2, tt_total = 5, tt_classes = 2\<rparr>]
     [counted (1, 2) [(''a'', 4)], counted (2, 1) [(''b'', 7)]] [counted (1, 2) [(''a'', 4), (''c'', 1)]], None)"
  by (rule transactions_zip_merges) simp_all

end
