(* ===== verification/SamplingTasks.thy ===== *)
theory SamplingTasks
  imports SamplingRules SamplingIterators
begin

text \<open>
  The tasks of dynamic sampling that write the values of \<open>SamplingRules\<close> (\<open>dynamic_sampling/tasks\<close>):
  rebalancing of the projects of an organization and of the transactions of a project,
  recalibration, and the sliding window of an organization. What a task asks other services for
  (features, quotas, the database, options) is a record of functions; a task returns the store and
  the projects whose configuration it invalidates. Counts are naturals, sums of counter metrics.
  Not modelled: metrics, logging, sampling of log lines. Shown are the range of every stored value under any
  sequence of tasks, and that recalibration hits its target.
\<close>

section \<open>Shared helpers: \<open>tasks/common.py\<close>, \<open>tasks/constants.py\<close>, \<open>models/common.py\<close>\<close>

definition MIN_REBALANCE_FACTOR :: rat where "MIN_REBALANCE_FACTOR = 1 / 10"
definition MAX_REBALANCE_FACTOR :: rat where "MAX_REBALANCE_FACTOR = 10"

record task_env =
  te_dynamic_sampling :: "nat \<Rightarrow> bool"
  te_blended :: "nat \<Rightarrow> rat option"
  te_projects :: "nat \<Rightarrow> nat list"
  te_intensity :: rat
  te_tier :: "nat \<Rightarrow> int \<Rightarrow> (int \<times> rat) option result"
  te_days_in_month :: nat

definition guarded_run :: "'a result \<Rightarrow> 'a option" where
  "guarded_run r = (case r of Inl _ \<Rightarrow> None | Inr x \<Rightarrow> Some x)"

definition is_close :: "rat \<Rightarrow> rat \<Rightarrow> bool" where
  \<comment> \<open>\<open>math.isclose\<close> with its default tolerances\<close>
  "is_close a b = (\<bar>a - b\<bar> \<le> max \<bar>a\<bar> \<bar>b\<bar> / 1000000000)"

fun are_equal_with_epsilon :: "rat option \<Rightarrow> rat option \<Rightarrow> bool" where
  "are_equal_with_epsilon None None = True"
| "are_equal_with_epsilon (Some a) (Some b) = is_close a b"
| "are_equal_with_epsilon _ _ = False"

section \<open>Projects of an organization: \<open>tasks/boost_low_volume_projects.py\<close>\<close>

definition project_hash :: "nat \<Rightarrow> int \<Rightarrow> ds_store \<Rightarrow> (nat, rat) dict" where
  "project_hash org now s = (case alive now (ds_project_rates s) org of None \<Rightarrow> [] | Some h \<Rightarrow> h)"

definition store_project_rate :: "nat \<Rightarrow> int \<Rightarrow> ds_store \<Rightarrow> nat item \<Rightarrow> ds_store" where
  "store_project_rate org now s e =
     s\<lparr>ds_project_rates := dict_set org
         (dict_set (ri_id e) (ri_rate e) (project_hash org now s), now + DEFAULT_REDIS_CACHE_KEY_TTL)
         (ds_project_rates s)\<rparr>"

definition projects_with_counts :: "(nat \<times> nat) list \<Rightarrow> nat list \<Rightarrow> (nat, nat) dict" where
  "projects_with_counts rows all_projects =
     foldl (\<lambda>d p. if dict_get d p = None then dict_set p 0 d else d) (dict_merge [] rows) all_projects"

definition new_item :: "'a \<Rightarrow> nat \<Rightarrow> 'a item" where
  "new_item i c = \<lparr>ri_id = i, ri_count = of_nat c, ri_rate = 0\<rparr>"

definition adjust_sample_rates_of_projects ::
  "task_env \<Rightarrow> int \<Rightarrow> nat \<Rightarrow> (nat \<times> nat) list \<Rightarrow> ds_store \<Rightarrow> ds_store \<times> nat list" where
  "adjust_sample_rates_of_projects env now org rows s =
     (if \<not> te_dynamic_sampling env org then (s, [])
      else
        case fst (get_sliding_window_org_sample_rate org (te_blended env org) now s) of
          None \<Rightarrow> (s, [])
        | Some sample_rate \<Rightarrow>
            case guarded_run (projects_rebalancing
              (map (\<lambda>(p, c). new_item p c) (projects_with_counts rows (te_projects env org))) sample_rate) of
              None \<Rightarrow> (s, [])
            | Some rebalanced \<Rightarrow>
                (foldl (store_project_rate org now) s rebalanced,
                 map ri_id (filter (\<lambda>e. \<not> are_equal_with_epsilon (dict_get (project_hash org now s) (ri_id e))
                   (Some (ri_rate e))) rebalanced)))"

section \<open>Transactions of a project: \<open>tasks/boost_low_volume_transactions.py\<close>\<close>

definition boost_low_volume_transactions_of_project ::
  "task_env \<Rightarrow> int \<Rightarrow> project_transactions \<Rightarrow> ds_store \<Rightarrow> ds_store \<times> nat list" where
  "boost_low_volume_transactions_of_project env now p s =
     (if \<not> te_dynamic_sampling env (pt_org p) then (s, [])
      else
        case fst (get_boost_low_volume_projects_sample_rate (pt_org p) (pt_project p) (te_blended env (pt_org p)) now s) of
          None \<Rightarrow> (s, [])
        | Some sample_rate \<Rightarrow>
            if sample_rate = 1 then (s, [])
            else
              case guarded_run (transactions_rebalancing (map (\<lambda>(n, c). new_item n c) (pt_counts p)) sample_rate
                (map_option int (pt_classes p)) (map_option of_nat (pt_total p)) (te_intensity env)) of
                None \<Rightarrow> (s, [])
              | Some (named_rates, implicit_rate) \<Rightarrow>
                  (set_transactions_resampling_rates (pt_org p) (pt_project p) named_rates implicit_rate
                     DEFAULT_REDIS_CACHE_KEY_TTL now s,
                   [pt_project p]))"

section \<open>Recalibration: \<open>tasks/recalibrate_orgs.py\<close>\<close>

record org_volume =
  ov_org :: nat
  ov_total :: nat
  ov_indexed :: "nat option"

definition is_valid_for_recalibration :: "org_volume \<Rightarrow> bool" where
  "is_valid_for_recalibration v = (ov_total v > 0 \<and> (case ov_indexed v of None \<Rightarrow> False | Some i \<Rightarrow> i > 0))"

definition recalibrate_org :: "task_env \<Rightarrow> int \<Rightarrow> nat \<times> nat \<times> nat \<Rightarrow> ds_store \<Rightarrow> ds_store result" where
  "recalibrate_org env now = (\<lambda>(org, total_count, indexed) s.
     if \<not> te_dynamic_sampling env org then Inr s
     else
       case fst (get_sliding_window_org_sample_rate org (te_blended env org) now s) of
         None \<Rightarrow> Inr s
       | Some target_sample_rate \<Rightarrow>
           bind_result (divide_by (of_nat indexed) (of_nat total_count)) (\<lambda>effective_sample_rate.
             bind_result (compute_adjusted_factor (get_adjusted_factor org now s) effective_sample_rate target_sample_rate)
               (\<lambda>adjusted. Inr
                 (case adjusted of
                    None \<Rightarrow> s
                  | Some adjusted_factor \<Rightarrow>
                      if adjusted_factor < MIN_REBALANCE_FACTOR \<or> adjusted_factor > MAX_REBALANCE_FACTOR
                      then delete_adjusted_factor org s
                      else set_guarded_adjusted_factor org adjusted_factor now s))))"

definition recalibrate_orgs_batch :: "task_env \<Rightarrow> int \<Rightarrow> (nat \<times> nat \<times> nat) list \<Rightarrow> ds_store \<Rightarrow> ds_store" where
  "recalibrate_orgs_batch env now orgs s =
     foldl (\<lambda>s o'. case recalibrate_org env now o' s of Inl _ \<Rightarrow> s | Inr s' \<Rightarrow> s') s orgs"

definition recalibrate_orgs :: "org_volume list list \<Rightarrow> (nat \<times> nat \<times> nat) list list" where
  \<comment> \<open>the batches that are delayed, from those of \<open>GetActiveOrgsVolumes\<close>\<close>
  "recalibrate_orgs = map (\<lambda>org_volumes. map (\<lambda>v. (ov_org v, ov_total v, the (ov_indexed v)))
     (filter is_valid_for_recalibration org_volumes))"

section \<open>Sliding window: \<open>tasks/sliding_window_org.py\<close>\<close>

definition compute_sliding_window_sample_rate :: "task_env \<Rightarrow> nat \<Rightarrow> nat \<Rightarrow> int \<Rightarrow> rat option result" where
  "compute_sliding_window_sample_rate env org total_root_count window_size =
     (case extrapolate_monthly_volume window_size (te_days_in_month env) (int total_root_count) of
        None \<Rightarrow> Inr None
      | Some extrapolated_volume \<Rightarrow>
          bind_result (te_tier env org extrapolated_volume) (\<lambda>sampling_tier. Inr (map_option snd sampling_tier)))"

definition compute_guarded_sliding_window_sample_rate :: "task_env \<Rightarrow> nat \<Rightarrow> nat \<Rightarrow> int \<Rightarrow> rat option" where
  "compute_guarded_sliding_window_sample_rate env org total_root_count window_size =
     (case compute_sliding_window_sample_rate env org total_root_count window_size of Inl _ \<Rightarrow> None | Inr r \<Rightarrow> r)"

definition adjust_base_sample_rate_of_org ::
  "task_env \<Rightarrow> int \<Rightarrow> int \<Rightarrow> nat \<Rightarrow> nat \<Rightarrow> int \<Rightarrow> int \<Rightarrow> ds_store \<Rightarrow> ds_store result" where
  \<comment> \<open>with the monotonic clock at the call and the deadline of the task\<close>
  "adjust_base_sample_rate_of_org env clock deadline org total_root_count window_size now s =
     (if clock > deadline then Inl (OtherError ''TimeoutException'')
      else Inr
        (case compute_guarded_sliding_window_sample_rate env org total_root_count window_size of
           None \<Rightarrow> s
         | Some sample_rate \<Rightarrow>
             s\<lparr>ds_org_rates := dict_set org (sample_rate, now + DEFAULT_REDIS_CACHE_KEY_TTL) (ds_org_rates s)\<rparr>))"

fun adjust_orgs ::
  "task_env \<Rightarrow> int \<Rightarrow> int \<Rightarrow> int \<Rightarrow> (int \<times> org_volume) list \<Rightarrow> ds_store \<Rightarrow> ds_store \<times> py_exc option" where
  "adjust_orgs env deadline window_size now [] s = (s, None)"
| "adjust_orgs env deadline window_size now ((clock, v) # vs) s =
     (case adjust_base_sample_rate_of_org env clock deadline (ov_org v) (ov_total v) window_size now s of
        Inl e \<Rightarrow> (s, Some e)
      | Inr s \<Rightarrow> adjust_orgs env deadline window_size now vs s)"

text \<open>The loop over the timed iterator: each batch with the clock at \<open>__next__\<close>; the last entry is the end.\<close>

fun sliding_window_batches ::
  "task_env \<Rightarrow> int \<Rightarrow> int \<Rightarrow> int \<Rightarrow> (int \<times> (int \<times> org_volume) list) list \<Rightarrow> int \<Rightarrow> ds_store \<Rightarrow> ds_store \<times> py_exc option"
where
  "sliding_window_batches env deadline window_size now [] last_clock s =
     (s, if last_clock > deadline then Some (OtherError ''TimeoutException'') else None)"
| "sliding_window_batches env deadline window_size now ((clock, batch) # batches) last_clock s =
     (if clock > deadline then (s, Some (OtherError ''TimeoutException''))
      else
        case adjust_orgs env deadline window_size now batch s of
          (s, Some e) \<Rightarrow> (s, Some e)
        | (s, None) \<Rightarrow> sliding_window_batches env deadline window_size now batches last_clock s)"

definition sliding_window_org ::
  "task_env \<Rightarrow> int \<Rightarrow> int option \<Rightarrow> int \<Rightarrow> (int \<times> (int \<times> org_volume) list) list \<Rightarrow> int \<Rightarrow> ds_store
     \<Rightarrow> ds_store \<times> py_exc option" where
  "sliding_window_org env deadline window now batches last_clock s =
     (case window of
        None \<Rightarrow> (s, None)
      | Some window_size \<Rightarrow>
          case sliding_window_batches env deadline window_size now batches last_clock s of
            (s, Some e) \<Rightarrow> (s, Some e)
          | (s, None) \<Rightarrow> (mark_sliding_window_org_executed now s, None))"

section \<open>What the store may hold\<close>

definition rate_ok :: "rat \<Rightarrow> bool" where
  "rate_ok r = (0 \<le> r \<and> r \<le> 1)"

definition factor_ok :: "rat \<Rightarrow> bool" where
  "factor_ok f = (MIN_REBALANCE_FACTOR \<le> f \<and> f \<le> MAX_REBALANCE_FACTOR \<and> f \<noteq> 1)"

definition store_ok :: "ds_store \<Rightarrow> bool" where
  "store_ok s = (values_ok (\<lambda>(h, _). values_ok rate_ok h) (ds_project_rates s)
     \<and> values_ok (\<lambda>((m, _), _). values_ok rate_ok m) (ds_transaction_rates s)
     \<and> values_ok (\<lambda>(f, _). factor_ok f) (ds_factors s))"

lemma full_loop_rates_ok:
  assumes "full_loop rate intensity ideal budget (length es) es = Inr (items, used)"
    "0 \<le> rate" "0 \<le> intensity" "intensity \<le> 1" "0 \<le> ideal" "list_all (\<lambda>e. 0 \<le> ri_count e) es"
  shows "rates_ok items"
  using assms(1,5,6)
proof (induction es arbitrary: ideal budget items used)
  case Nil
  then show ?case by (simp add: rates_ok_def)
next
  case (Cons e es)
  let ?i = "next_ideal ideal budget (Suc (length es))"
  let ?d = "desired_count rate intensity ?i (ri_count e)"
  have i: "0 \<le> ?i" using next_ideal_ge [of ideal budget "length es"] Cons.prems(2) by simp
  have c: "0 \<le> ri_count e" and rest: "list_all (\<lambda>e. 0 \<le> ri_count e) es" using Cons.prems(3) by auto
  have d: "0 \<le> ?d" using assms(2-4) i c by (simp add: desired_count_nonneg)
  from Cons.prems(1) obtain r u items' used' where
    r: "r = 1 \<or> (ri_count e \<noteq> 0 \<and> ?d \<le> ri_count e \<and> r = ?d / ri_count e)"
    and tail: "full_loop rate intensity ?i (budget - u) (length es) es = Inr (items', used')"
    and items: "items = e\<lparr>ri_rate := r\<rparr> # items'"
    by (auto simp: Let_def bind_result_Inr_iff split: if_splits)
  from r c d have "0 \<le> r \<and> r \<le> 1" by (auto simp: divide_le_eq_1)
  with Cons.IH [OF tail i rest] items show ?case by (simp add: rates_ok_def)
qed

lemma full_rebalancing_rates_ok:
  assumes "full_rebalancing classes rate intensity min_budget = Inr (items, used)"
    "list_all (\<lambda>e. 0 \<le> ri_count e) classes"
  shows "rates_ok items"
proof -
  let ?ideal = "sum_classes_counts classes * rate / of_nat (length classes)"
  have v: "full_valid classes rate intensity" using assms(1) by (simp add: full_rebalancing_def split: if_splits)
  have "0 \<le> sum_classes_counts classes" using assms(2) unfolding sum_classes_counts_sum
    by (intro sum_list_nonneg) (auto simp: list_all_iff)
  with v have ideal: "0 \<le> ?ideal" by (simp add: full_valid_def)
  obtain budget where "full_loop rate intensity ?ideal budget (length (rev classes)) (rev classes) = Inr (items, used)"
    using assms(1) v by (auto simp: full_rebalancing_def Let_def split: if_splits)
  from full_loop_rates_ok [OF this _ _ _ ideal] v assms(2) show ?thesis by (simp add: full_valid_def)
qed

lemma sorted_classes_counts [simp]:
  "list_all (\<lambda>e. 0 \<le> ri_count e) (sorted_classes es) \<longleftrightarrow> list_all (\<lambda>e. 0 \<le> ri_count e) es"
  by (simp add: list_all_iff)

lemma projects_rebalancing_rates_ok:
  assumes "projects_rebalancing classes rate = Inr items" "list_all (\<lambda>e. 0 \<le> ri_count e) classes"
  shows "rates_ok items"
proof (cases "classes = []")
  case True with assms show ?thesis by (auto simp: projects_rebalancing_def rates_ok_def split: if_splits)
next
  case False
  define cs where "cs = (case classes of [c] \<Rightarrow> [c\<lparr>ri_rate := rate\<rparr>] | _ \<Rightarrow> classes)"
  have "list_all (\<lambda>e. 0 \<le> ri_count e) cs" using assms(2) by (auto simp: cs_def split: list.splits)
  moreover obtain used where "full_rebalancing (sorted_classes cs) rate 1 None = Inr (items, used)"
    using assms(1) False by (auto simp: projects_rebalancing_def Let_def bind_result_Inr_iff simp flip: cs_def split: if_splits)
  ultimately show ?thesis using full_rebalancing_rates_ok [of "sorted_classes cs"] by simp
qed

lemma transactions_rebalancing_rates_ok:
  assumes "transactions_rebalancing classes rate num all intensity = Inr (items, implicit)"
    "list_all (\<lambda>e. 0 \<le> ri_count e) classes"
  shows "rates_ok items"
proof -
  consider (full) r b used where "full_rebalancing (sorted_classes classes) r intensity b = Inr (items, used)"
    | (one) "items = map (\<lambda>e. e\<lparr>ri_rate := 1\<rparr>) (sorted_classes classes)"
    using assms(1) by (auto simp: transactions_rebalancing_def Let_def bind_result_Inr_iff split: if_splits)
  then show ?thesis
  proof cases
    case full
    with assms(2) show ?thesis using full_rebalancing_rates_ok [of "sorted_classes classes"] by simp
  next
    case one then show ?thesis by (simp add: rates_ok_def list_all_iff)
  qed
qed

lemma new_items_counts: "list_all (\<lambda>e. 0 \<le> ri_count e) (map (\<lambda>(i, c). new_item i c) d)"
  by (auto simp: list_all_iff new_item_def)

section \<open>Every task keeps the store in range\<close>

lemma rates_ok_items: "rates_ok items \<longleftrightarrow> list_all (\<lambda>e. rate_ok (ri_rate e)) items"
  by (simp add: rates_ok_def rate_ok_def)

lemma project_hash_ok: "store_ok s \<Longrightarrow> values_ok rate_ok (project_hash org now s)"
  using values_ok_get [of "\<lambda>(h, _). values_ok rate_ok h" "ds_project_rates s" org]
  by (auto simp: store_ok_def project_hash_def alive_def split: option.splits if_splits)

lemma store_project_rate_ok: "store_ok s \<Longrightarrow> rate_ok (ri_rate e) \<Longrightarrow> store_ok (store_project_rate org now s e)"
  using project_hash_ok [of s org now] by (simp add: store_ok_def store_project_rate_def values_ok_set)

lemma store_project_rates_ok:
  "store_ok s \<Longrightarrow> rates_ok items \<Longrightarrow> store_ok (foldl (store_project_rate org now) s items)"
  by (induction items arbitrary: s) (auto simp: rates_ok_items store_project_rate_ok)

lemma adjust_projects_ok: "store_ok s \<Longrightarrow> store_ok (fst (adjust_sample_rates_of_projects env now org rows s))"
  by (auto simp: adjust_sample_rates_of_projects_def guarded_run_def split: option.splits sum.splits
      intro: store_project_rates_ok dest: projects_rebalancing_rates_ok [OF _ new_items_counts])

lemma set_transactions_ok:
  assumes "store_ok s" "rates_ok items"
  shows "store_ok (set_transactions_resampling_rates org project items implicit ttl now s)"
proof -
  have "values_ok rate_ok (map (\<lambda>e. (ri_id e, ri_rate e)) items)"
    using assms(2) by (auto simp: rates_ok_items values_ok_def list_all_iff)
  then have "values_ok rate_ok (dict_merge [] (map (\<lambda>e. (ri_id e, ri_rate e)) items))"
    by (simp add: values_ok_merge)
  with assms(1) show ?thesis by (simp add: store_ok_def set_transactions_resampling_rates_def values_ok_set)
qed

lemma boost_transactions_ok: "store_ok s \<Longrightarrow> store_ok (fst (boost_low_volume_transactions_of_project env now p s))"
  by (auto simp: boost_low_volume_transactions_of_project_def guarded_run_def split: option.splits sum.splits
      intro: set_transactions_ok dest: transactions_rebalancing_rates_ok [OF _ new_items_counts])

lemma delete_factor_ok: "store_ok s \<Longrightarrow> store_ok (delete_adjusted_factor org s)"
  by (simp add: store_ok_def delete_adjusted_factor_def values_ok_del)

lemma set_factor_ok:
  "store_ok s \<Longrightarrow> MIN_REBALANCE_FACTOR \<le> f \<Longrightarrow> f \<le> MAX_REBALANCE_FACTOR \<Longrightarrow> store_ok (set_guarded_adjusted_factor org f now s)"
  using delete_factor_ok [of s org]
  by (simp add: set_guarded_adjusted_factor_def) (simp add: store_ok_def factor_ok_def values_ok_set)

lemma recalibrate_org_ok: "store_ok s \<Longrightarrow> recalibrate_org env now v s = Inr s' \<Longrightarrow> store_ok s'"
  by (auto simp: recalibrate_org_def bind_result_Inr_iff delete_factor_ok set_factor_ok
      split: prod.splits option.splits if_splits)

lemma recalibrate_batch_ok: "store_ok s \<Longrightarrow> store_ok (recalibrate_orgs_batch env now orgs s)"
  unfolding recalibrate_orgs_batch_def
  by (induction orgs arbitrary: s) (auto split: sum.splits dest: recalibrate_org_ok)

lemma adjust_org_ok:
  "store_ok s \<Longrightarrow> adjust_base_sample_rate_of_org env clock deadline org n w now s = Inr s' \<Longrightarrow> store_ok s'"
  by (auto simp: adjust_base_sample_rate_of_org_def store_ok_def split: if_splits option.splits)

lemma adjust_orgs_ok: "store_ok s \<Longrightarrow> store_ok (fst (adjust_orgs env deadline w now vs s))"
  by (induction env deadline w now vs s rule: adjust_orgs.induct) (auto split: sum.splits dest: adjust_org_ok)

lemma sliding_batches_ok: "store_ok s \<Longrightarrow> store_ok (fst (sliding_window_batches env deadline w now bs c s))"
proof (induction env deadline w now bs c s rule: sliding_window_batches.induct)
  case (2 env deadline w now clock batch bs c s)
  have "store_ok (fst (adjust_orgs env deadline w now batch s))" using "2.prems" by (rule adjust_orgs_ok)
  with 2 show ?case by (auto split: prod.splits option.splits)
qed simp

lemma sliding_window_ok: "store_ok s \<Longrightarrow> store_ok (fst (sliding_window_org env deadline w now bs c s))"
proof (cases w)
  case (Some n)
  assume "store_ok s"
  then have "store_ok (fst (sliding_window_batches env deadline n now bs c s))" by (rule sliding_batches_ok)
  with Some show ?thesis
    by (auto simp: sliding_window_org_def mark_sliding_window_org_executed_def store_ok_def split: prod.splits option.splits)
qed (simp add: sliding_window_org_def)

text \<open>The tasks as the events of one machine; each runs at its own time and with its own environment.\<close>

datatype sampling_task =
    AdjustProjects nat "(nat \<times> nat) list"
  | BoostTransactions project_transactions
  | RecalibrateBatch "(nat \<times> nat \<times> nat) list"
  | SlidingWindowOrg int "int option" "(int \<times> (int \<times> org_volume) list) list" int

fun run_task :: "ds_store \<Rightarrow> task_env \<times> int \<times> sampling_task \<Rightarrow> ds_store" where
  "run_task s (env, now, AdjustProjects org rows) = fst (adjust_sample_rates_of_projects env now org rows s)"
| "run_task s (env, now, BoostTransactions p) = fst (boost_low_volume_transactions_of_project env now p s)"
| "run_task s (env, now, RecalibrateBatch orgs) = recalibrate_orgs_batch env now orgs s"
| "run_task s (env, now, SlidingWindowOrg deadline window batches last_clock) =
     fst (sliding_window_org env deadline window now batches last_clock s)"

lemma run_task_ok: "store_ok s \<Longrightarrow> store_ok (run_task s e)"
  by (cases "(s, e)" rule: run_task.cases)
    (auto simp: adjust_projects_ok boost_transactions_ok recalibrate_batch_ok sliding_window_ok)

interpretation sampling: step_machine run_task store_ok
  by unfold_locales (rule run_task_ok)

lemma empty_store_ok: "store_ok empty_store"
  by (simp add: store_ok_def empty_store_def)

text \<open>
  The rate for the rest of the transactions is a rate when the intensity is 1 and the iterators gave counts that fit:
  no fewer classes and no fewer transactions in all than named. The rates of organizations are what the quotas answer.
\<close>

fun full_task :: "task_env \<times> int \<times> sampling_task \<Rightarrow> bool" where
  "full_task (env, now, BoostTransactions p) =
     (te_intensity env = 1
      \<and> (case pt_classes p of None \<Rightarrow> True | Some n \<Rightarrow> length (pt_counts p) \<le> n)
      \<and> (case pt_total p of None \<Rightarrow> True | Some t \<Rightarrow> sum_list (map snd (pt_counts p)) \<le> t))"
| "full_task _ = True"

definition implicit_ok :: "ds_store \<Rightarrow> bool" where
  "implicit_ok s = values_ok (\<lambda>((_, implicit), _). rate_ok implicit) (ds_transaction_rates s)"

definition org_rates_ok :: "ds_store \<Rightarrow> bool" where
  "org_rates_ok s = values_ok (\<lambda>(r, _). rate_ok r) (ds_org_rates s)"

definition tiers_ok :: "task_env \<times> int \<times> sampling_task \<Rightarrow> bool" where
  "tiers_ok = (\<lambda>(env, _). \<forall>org volume v r. te_tier env org volume = Inr (Some (v, r)) \<longrightarrow> rate_ok r)"

lemma store_rates_frame:
  "ds_transaction_rates (foldl (store_project_rate org now) s items) = ds_transaction_rates s"
  "ds_org_rates (foldl (store_project_rate org now) s items) = ds_org_rates s"
  by (induction items arbitrary: s) (simp_all add: store_project_rate_def)

lemma adjust_projects_frame:
  "ds_transaction_rates (fst (adjust_sample_rates_of_projects env now org rows s)) = ds_transaction_rates s"
  "ds_org_rates (fst (adjust_sample_rates_of_projects env now org rows s)) = ds_org_rates s"
  by (auto simp: adjust_sample_rates_of_projects_def store_rates_frame split: option.splits)

lemma recalibrate_frame:
  "ds_transaction_rates (recalibrate_orgs_batch env now orgs s) = ds_transaction_rates s
   \<and> ds_org_rates (recalibrate_orgs_batch env now orgs s) = ds_org_rates s"
proof -
  have "ds_transaction_rates s' = ds_transaction_rates s \<and> ds_org_rates s' = ds_org_rates s"
    if "recalibrate_org env now v s = Inr s'" for v s s'
    using that by (auto simp: recalibrate_org_def bind_result_Inr_iff delete_adjusted_factor_def set_guarded_adjusted_factor_def
        split: prod.splits option.splits if_splits)
  then show ?thesis unfolding recalibrate_orgs_batch_def
    by (induction orgs arbitrary: s) (auto split: sum.splits)
qed

lemma boost_transactions_org: "ds_org_rates (fst (boost_low_volume_transactions_of_project env now p s)) = ds_org_rates s"
  by (auto simp: boost_low_volume_transactions_of_project_def set_transactions_resampling_rates_def split: option.splits)

lemma sum_new_items: "sum_classes_counts (map (\<lambda>(i, c). new_item i c) cs) = of_nat (sum_list (map snd cs))"
  unfolding sum_classes_counts_sum by (induction cs) (auto simp: new_item_def)

lemma boost_transactions_implicit:
  assumes "implicit_ok s" "full_task (env, now, BoostTransactions p)"
  shows "implicit_ok (fst (boost_low_volume_transactions_of_project env now p s))"
proof -
  let ?items = "map (\<lambda>(n, c). new_item n c) (pt_counts p)"
  have ok: "rate_ok implicit"
    if "guarded_run (transactions_rebalancing ?items rate (map_option int (pt_classes p)) (map_option of_nat (pt_total p))
      (te_intensity env)) = Some (items, implicit)" for rate items implicit
  proof -
    have "transactions_rebalancing ?items rate (map_option int (pt_classes p)) (map_option of_nat (pt_total p)) 1 = Inr (items, implicit)"
      using that assms(2) by (simp add: guarded_run_def split: sum.splits)
    then have "0 \<le> implicit \<and> implicit \<le> 1"
      by (rule implicit_rate_ok [OF _ new_items_counts])
        (use assms(2) in \<open>auto simp: sum_new_items split: option.splits\<close>)
    then show ?thesis by (simp add: rate_ok_def)
  qed
  show ?thesis
    using assms(1) ok
    by (auto simp: boost_low_volume_transactions_of_project_def implicit_ok_def set_transactions_resampling_rates_def values_ok_set
        split: option.splits)
qed

lemma adjust_org_frame:
  "adjust_base_sample_rate_of_org env clock deadline org n w now s = Inr s' \<Longrightarrow> ds_transaction_rates s' = ds_transaction_rates s"
  by (auto simp: adjust_base_sample_rate_of_org_def split: if_splits option.splits)

lemma adjust_orgs_frame: "ds_transaction_rates (fst (adjust_orgs env deadline w now vs s)) = ds_transaction_rates s"
  by (induction env deadline w now vs s rule: adjust_orgs.induct) (auto split: sum.splits dest: adjust_org_frame)

lemma sliding_batches_frame: "ds_transaction_rates (fst (sliding_window_batches env deadline w now bs c s)) = ds_transaction_rates s"
proof (induction env deadline w now bs c s rule: sliding_window_batches.induct)
  case (2 env deadline w now clock batch bs c s)
  have "ds_transaction_rates (fst (adjust_orgs env deadline w now batch s)) = ds_transaction_rates s" by (rule adjust_orgs_frame)
  with 2 show ?case by (auto split: prod.splits option.splits)
qed simp

lemma sliding_window_frame: "ds_transaction_rates (fst (sliding_window_org env deadline w now bs c s)) = ds_transaction_rates s"
proof (cases w)
  case (Some n)
  have "ds_transaction_rates (fst (sliding_window_batches env deadline n now bs c s)) = ds_transaction_rates s"
    by (rule sliding_batches_frame)
  with Some show ?thesis
    by (auto simp: sliding_window_org_def mark_sliding_window_org_executed_def split: prod.splits option.splits)
qed (simp add: sliding_window_org_def)

lemma adjust_org_rates:
  assumes "org_rates_ok s" "tiers_ok (env, x)" "adjust_base_sample_rate_of_org env clock deadline org n w now s = Inr s'"
  shows "org_rates_ok s'"
proof -
  have "rate_ok r" if "compute_guarded_sliding_window_sample_rate env org n w = Some r" for r
    using that assms(2) by (auto simp: compute_guarded_sliding_window_sample_rate_def compute_sliding_window_sample_rate_def
        tiers_ok_def bind_result_Inr_iff split: sum.splits option.splits)
  with assms(1,3) show ?thesis
    by (auto simp: adjust_base_sample_rate_of_org_def org_rates_ok_def values_ok_set split: if_splits option.splits)
qed

lemma adjust_orgs_rates:
  "org_rates_ok s \<Longrightarrow> tiers_ok (env, x) \<Longrightarrow> org_rates_ok (fst (adjust_orgs env deadline w now vs s))"
  by (induction env deadline w now vs s rule: adjust_orgs.induct) (auto split: sum.splits dest: adjust_org_rates)

lemma sliding_batches_rates:
  "org_rates_ok s \<Longrightarrow> tiers_ok (env, x) \<Longrightarrow> org_rates_ok (fst (sliding_window_batches env deadline w now bs c s))"
proof (induction env deadline w now bs c s rule: sliding_window_batches.induct)
  case (2 env deadline w now clock batch bs c s)
  have "org_rates_ok (fst (adjust_orgs env deadline w now batch s))" using "2.prems" by (rule adjust_orgs_rates)
  with 2 show ?case by (auto split: prod.splits option.splits)
qed simp

lemma sliding_window_rates:
  "org_rates_ok s \<Longrightarrow> tiers_ok (env, x) \<Longrightarrow> org_rates_ok (fst (sliding_window_org env deadline w now bs c s))"
proof (cases w)
  case (Some n)
  assume "org_rates_ok s" "tiers_ok (env, x)"
  then have "org_rates_ok (fst (sliding_window_batches env deadline n now bs c s))" by (rule sliding_batches_rates)
  with Some show ?thesis
    by (auto simp: sliding_window_org_def mark_sliding_window_org_executed_def org_rates_ok_def split: prod.splits option.splits)
qed (simp add: sliding_window_org_def)

interpretation full_sampling: step_machine "\<lambda>s e. if full_task e then run_task s e else s" implicit_ok
proof unfold_locales
  fix s e assume ok: "implicit_ok s"
  show "implicit_ok (if full_task e then run_task s e else s)"
    using ok by (cases "(s, e)" rule: run_task.cases)
      (auto simp: boost_transactions_implicit [unfolded implicit_ok_def] implicit_ok_def adjust_projects_frame recalibrate_frame sliding_window_frame simp del: full_task.simps(1))
qed

interpretation tiered_sampling: step_machine "\<lambda>s e. if tiers_ok e then run_task s e else s" org_rates_ok
proof unfold_locales
  fix s e assume ok: "org_rates_ok s"
  show "org_rates_ok (if tiers_ok e then run_task s e else s)"
    using ok by (cases "(s, e)" rule: run_task.cases)
      (auto simp: sliding_window_rates org_rates_ok_def [of "fst (adjust_sample_rates_of_projects _ _ _ _ _)"] org_rates_ok_def [of "recalibrate_orgs_batch _ _ _ _"]
        org_rates_ok_def [of "fst (boost_low_volume_transactions_of_project _ _ _ _)"] adjust_projects_frame recalibrate_frame boost_transactions_org
        simp flip: org_rates_ok_def)
qed

lemma guarded_run_all: "list_all P es \<Longrightarrow> foldl (\<lambda>s e. if P e then f s e else s) s es = foldl f s es"
  by (induction es arbitrary: s) simp_all

text \<open>
  C3. What the tasks of dynamic sampling store stays in range. From an empty store, after any sequence of the four
  tasks in any environment, the stored rates of projects and of named transactions lie between 0 and 1, and every
  stored factor between 1/10 and 10 and is not 1; so the factor that the recalibration rule multiplies, stored or
  defaulted, lies in that interval. The stored rates of organizations lie between 0 and 1 if the sampling tiers of the
  quotas do. The stored rates for the transactions that are not named lie between 0 and 1 if the tasks rebalance at
  full intensity and with counts that fit (at a lower intensity they can be negative).
\<close>

theorem stored_values_in_range:
  "store_ok (foldl run_task empty_store tasks)
   \<and> MIN_REBALANCE_FACTOR \<le> get_adjusted_factor org now (foldl run_task empty_store tasks)
   \<and> get_adjusted_factor org now (foldl run_task empty_store tasks) \<le> MAX_REBALANCE_FACTOR
   \<and> (list_all tiers_ok tasks \<longrightarrow> values_ok (\<lambda>(r, _). rate_ok r) (ds_org_rates (foldl run_task empty_store tasks)))
   \<and> (list_all full_task tasks \<longrightarrow>
        values_ok (\<lambda>((_, implicit), _). rate_ok implicit) (ds_transaction_rates (foldl run_task empty_store tasks)))"
proof -
  let ?s = "foldl run_task empty_store tasks"
  have ok: "store_ok ?s" using empty_store_ok by (rule sampling.run_inv)
  then have "factor_ok f" if "dict_get (ds_factors ?s) org = Some (f, x)" for f x
    using that values_ok_get [of "\<lambda>(f, _). factor_ok f"] by (fastforce simp: store_ok_def)
  then have "factor_ok (get_adjusted_factor org now ?s) \<or> get_adjusted_factor org now ?s = 1"
    by (auto simp: get_adjusted_factor_def alive_def split: option.splits)
  then have factor: "MIN_REBALANCE_FACTOR \<le> get_adjusted_factor org now ?s \<and> get_adjusted_factor org now ?s \<le> MAX_REBALANCE_FACTOR"
    by (auto simp: factor_ok_def MIN_REBALANCE_FACTOR_def MAX_REBALANCE_FACTOR_def)
  have "implicit_ok empty_store" "org_rates_ok empty_store" by (simp_all add: implicit_ok_def org_rates_ok_def empty_store_def)
  note start = this
  have "org_rates_ok ?s" if "list_all tiers_ok tasks"
    using tiered_sampling.run_inv [OF start(2), of tasks] unfolding guarded_run_all [OF that] .
  moreover have "implicit_ok ?s" if "list_all full_task tasks"
    using full_sampling.run_inv [OF start(1), of tasks] unfolding guarded_run_all [OF that] .
  ultimately show ?thesis using ok factor by (simp add: org_rates_ok_def implicit_ok_def)
qed

section \<open>Recalibration hits its target\<close>

text \<open>
  If the share of transactions that were indexed is what the current factor makes of some base
  rate, then after recalibration the new factor makes exactly the target rate of the organization of
  that base rate, as long as the new factor is in the permitted range; outside of it the
  organization is left without a factor.
\<close>

theorem recalibration_hits_target:
  assumes "te_dynamic_sampling env org" "0 < total_count" "0 < indexed"
    and "fst (get_sliding_window_org_sample_rate org (te_blended env org) now s) = Some target_rate"
    and "0 < get_adjusted_factor org now s"
    and "of_nat indexed / of_nat total_count = get_adjusted_factor org now s * base"
  shows "case recalibrate_org env now (org, total_count, indexed) s of
      Inl _ \<Rightarrow> False
    | Inr s' \<Rightarrow>
        if MIN_REBALANCE_FACTOR \<le> target_rate / base \<and> target_rate / base \<le> MAX_REBALANCE_FACTOR
        then get_adjusted_factor org now s' * base = target_rate
        else get_adjusted_factor org now s' = 1"
proof -
  let ?f = "get_adjusted_factor org now s"
  have "0 < of_nat indexed / (of_nat total_count :: rat)" using assms(2,3) by simp
  with assms(5,6) have base: "base \<noteq> 0" by auto
  have e: "of_nat indexed / of_nat total_count \<noteq> (0::rat)" using assms(2,3) by simp
  have "compute_adjusted_factor ?f (of_nat indexed / of_nat total_count) target_rate = Inr (Some (target_rate / base))"
    using assms(5,6) base by (simp add: compute_adjusted_factor_def divide_by_def)
  then have step: "recalibrate_org env now (org, total_count, indexed) s = Inr
      (if target_rate / base < MIN_REBALANCE_FACTOR \<or> target_rate / base > MAX_REBALANCE_FACTOR
       then delete_adjusted_factor org s else set_guarded_adjusted_factor org (target_rate / base) now s)"
    using assms(1,2,4) by (simp add: recalibrate_org_def divide_by_def)
  have deleted: "get_adjusted_factor org now (delete_adjusted_factor org s) = 1"
    by (simp add: get_adjusted_factor_def delete_adjusted_factor_def alive_def)
  have set: "get_adjusted_factor org now (set_guarded_adjusted_factor org x now s) = x" for x
    using deleted by (simp add: set_guarded_adjusted_factor_def)
      (simp add: get_adjusted_factor_def alive_def ADJUSTED_FACTOR_REDIS_CACHE_KEY_TTL_def)
  show ?thesis using base by (auto simp: step deleted set)
qed

definition example_env :: task_env where
  "example_env = \<lparr>te_dynamic_sampling = (\<lambda>_. True), te_blended = (\<lambda>_. Some (1 / 4)), te_projects = (\<lambda>_. []),
     te_intensity = 1, te_tier = (\<lambda>_ _. Inr None), te_days_in_month = 30\<rparr>"

lemma recalibration_hits_target_witness:
  "case recalibrate_org example_env 0 (1, 8, 1) empty_store of
      Inl _ \<Rightarrow> False
    | Inr s' \<Rightarrow> get_adjusted_factor 1 0 s' * (1 / 8) = 1 / 4"
  using recalibration_hits_target [of example_env 1 8 1 0 empty_store "1 / 4" "1 / 8"]
  by (auto simp: example_env_def empty_store_def get_sliding_window_org_sample_rate_def get_adjusted_factor_def alive_def
      MIN_REBALANCE_FACTOR_def MAX_REBALANCE_FACTOR_def split: sum.splits)

definition example_tasks :: "(task_env \<times> int \<times> sampling_task) list" where
  "example_tasks =
     [(example_env, 0, BoostTransactions \<lparr>pt_org = 1, pt_project = 2, pt_counts = [(''/a'', 30), (''/b'', 4)],
        pt_total = Some 40, pt_classes = Some 3\<rparr>)]"

lemma stored_values_in_range_witness:
  "values_ok (\<lambda>((_, implicit), _). rate_ok implicit) (ds_transaction_rates (foldl run_task empty_store example_tasks))
   \<and> values_ok (\<lambda>(r, _). rate_ok r) (ds_org_rates (foldl run_task empty_store example_tasks))"
proof -
  have "list_all tiers_ok example_tasks" "list_all full_task example_tasks"
    by (simp_all add: example_tasks_def example_env_def tiers_ok_def)
  then show ?thesis using stored_values_in_range [of example_tasks] by simp
qed

end
