(* ===== verification/BoostedReleases.thy ===== *)
theory BoostedReleases
  imports SamplingRules
begin

text \<open>
  The boosting of the latest releases (\<open>dynamic_sampling/rules/helpers/latest_releases.py\<close> and
  \<open>time_to_adoptions.py\<close>): a hash in Redis per project with at most ten boosted releases and the time
  each boost started, the pairs of release and environment that were observed, and the date of the
  latest release of a project. Times are milliseconds. The platform of a project and the versions of
  the releases in the database are functions of the environment. Shown are the limit of ten, which release makes
  room for a new one, the keys of the hash, and that the hash expires before the boost does.
\<close>

section \<open>Time to adoption: \<open>rules/helpers/time_to_adoptions.py\<close>\<close>

definition LATEST_RELEASE_TTAS :: "(string, int) dict" where
  "LATEST_RELEASE_TTAS =
    [(''android'', 43747), (''apple'', 1423869), (''apple-ios'', 106006), (''apple-macos'', 15176),
     (''capacitor'', 14507), (''cocoa'', 1141204), (''cocoa-objc'', 1106061), (''cocoa-swift'', 1217941),
     (''cordova'', 18692), (''csharp'', 16964), (''csharp-aspnetcore'', 1730), (''dart'', 14803),
     (''dotnet'', 4350), (''dotnet-aspnet'', 3734), (''dotnet-aspnetcore'', 15197), (''dotnet-awslambda'', 77201),
     (''dotnet-gcpfunctions'', 2964), (''dotnet-maui'', 5189), (''dotnet-uwp'', 17688),
     (''dotnet-winforms'', 3411), (''dotnet-wpf'', 3610), (''dotnet-xamarin'', 36899), (''electron'', 25198),
     (''elixir'', 12596), (''flutter'', 204973), (''go'', 16487), (''go-http'', 5658), (''ionic'', 7464),
     (''java'', 12291), (''java-android'', 608689), (''java-log4j2'', 4733), (''java-logback'', 51312),
     (''java-logging'', 11843950), (''javascript'', 11035), (''javascript-angular'', 5156),
     (''javascript-angularjs'', 11592), (''javascript-astro'', 5943), (''javascript-backbone'', 3463),
     (''javascript-browser'', 3552), (''javascript-ember'', 10246), (''javascript-gatsby'', 5892),
     (''javascript-nextjs'', 5840), (''javascript-performance-onboarding-2-configure'', 5048),
     (''javascript-react'', 5045), (''javascript-remix'', 11751),
     (''javascript-replay-onboarding-1-install'', 2609), (''javascript-svelte'', 4604),
     (''javascript-sveltekit'', 5222), (''javascript-vue'', 10115), (''java-spring-boot'', 11731),
     (''kotlin'', 4520), (''minidump'', 57271), (''native'', 1687255), (''native-qt'', 60835), (''node'', 4072),
     (''node-awslambda'', 14136), (''node-azurefunctions'', 12385), (''node-connect'', 4389),
     (''node-express'', 4340), (''node-gcpfunctions'', 3728), (''node-koa'', 4214), (''node-nodeawslambda'', 3639),
     (''objc'', 4000209), (''other'', 12019), (''php'', 12112), (''php-laravel'', 12382), (''php-symfony'', 13781),
     (''python'', 4358), (''python-aiohttp'', 4048), (''python-asgi'', 3999), (''python-awslambda'', 11905),
     (''python-bottle'', 7322), (''python-celery'', 11376), (''python-chalice'', 3933), (''python-django'', 4482),
     (''python-falcon'', 4206), (''python-fastapi'', 4309), (''python-flask'', 4507),
     (''python-gcpfunctions'', 4597), (''python-pylons'', 2982), (''python-pyramid'', 12130),
     (''python-pythonawslambda'', 3078), (''python-pythonserverless'', 368842), (''python-quart'', 4295),
     (''python-rq'', 11121), (''python-sanic'', 13805), (''python-serverless'', 10475),
     (''python-starlette'', 3689), (''python-tornado'', 3483), (''python-tryton'', 3605), (''python-wsgi'', 4657),
     (''react-native'', 54047), (''ruby'', 3990), (''ruby-rack'', 4599), (''ruby-rails'', 4421), (''rust'', 21803),
     (''swift'', 1705490), (''unity'', 4211), (''unreal'', 15981)]"

definition DEFAULT_TTA :: int where "DEFAULT_TTA = 3600"

definition time_to_adoption :: "string option \<Rightarrow> int" where
  \<comment> \<open>of a platform, by its name\<close>
  "time_to_adoption name =
     (case name of
        None \<Rightarrow> DEFAULT_TTA
      | Some n \<Rightarrow>
          if n = [] then DEFAULT_TTA
          else (case dict_get LATEST_RELEASE_TTAS n of Some t \<Rightarrow> t | None \<Rightarrow> DEFAULT_TTA))"

section \<open>Keys of the hash: \<open>rules/helpers/latest_releases.py\<close>\<close>

definition ENVIRONMENT_SEPARATOR :: string where "ENVIRONMENT_SEPARATOR = '':e:''"

definition get_environment_cache_key :: "string option \<Rightarrow> string" where
  "get_environment_cache_key environment =
     (case environment of None \<Rightarrow> [] | Some e \<Rightarrow> if e = [] then [] else ENVIRONMENT_SEPARATOR @ e)"

definition generate_cache_key_for_boosted_release :: "nat \<Rightarrow> string option \<Rightarrow> string" where
  "generate_cache_key_for_boosted_release release_id environment =
     ''ds::r:'' @ nat_digits release_id @ get_environment_cache_key environment"

definition newline :: char where "newline = CHR 0x0A"

definition at_end :: "string \<Rightarrow> bool" where
  \<comment> \<open>where \<open>$\<close> matches\<close>
  "at_end s = (s = [] \<or> s = [newline])"

text \<open>
  \<open>BOOSTED_RELEASE_CACHE_KEY_REGEX.match\<close>: \<open>ds::r:\<close>, digits, and optionally the separator and an
  environment, which is not empty and has no line break.
\<close>

definition match_boosted_release :: "string \<Rightarrow> (string \<times> string option) option" where
  "match_boosted_release key =
     (let t = drop 6 key; digits = takeWhile is_digit t; u = dropWhile is_digit t;
          e = drop 3 u; environment = takeWhile (\<lambda>c. c \<noteq> newline) e
      in if \<not> startswith ''ds::r:'' key \<or> digits = [] then None
         else if at_end u then Some (digits, None)
         else if startswith ENVIRONMENT_SEPARATOR u \<and> environment \<noteq> []
             \<and> at_end (dropWhile (\<lambda>c. c \<noteq> newline) e)
         then Some (digits, Some environment)
         else None)"

definition extract_data_from_cache_key :: "string \<Rightarrow> (int \<times> string option) option" where
  "extract_data_from_cache_key key =
     (case match_boosted_release key of
        Some (release_id, environment) \<Rightarrow> Some (int (digits_val release_id), environment)
      | None \<Rightarrow> (case int_of_string key of Inl _ \<Rightarrow> None | Inr release_id \<Rightarrow> Some (release_id, None)))"

section \<open>Boosted releases of a project\<close>

record release_store =
  rs_boosted :: "(nat, (string, int) dict \<times> int) dict"
  rs_observed :: "(string, unit \<times> int) dict"
  rs_latest :: "(nat, int) dict"

record release_env =
  rv_platform :: "nat \<Rightarrow> string option"
  rv_version :: "int \<Rightarrow> string option"

definition BOOSTED_RELEASES_HASH_EXPIRATION :: int where "BOOSTED_RELEASES_HASH_EXPIRATION = 60 * 60 * 1000"
definition ONE_DAY_TIMEOUT_MS :: int where "ONE_DAY_TIMEOUT_MS = 60 * 60 * 24 * 1000"

definition boosted_hash :: "nat \<Rightarrow> int \<Rightarrow> release_store \<Rightarrow> (string, int) dict" where
  "boosted_hash project now s = (case alive now (rs_boosted s) project of None \<Rightarrow> [] | Some h \<Rightarrow> h)"

definition has_boosted_releases :: "nat \<Rightarrow> int \<Rightarrow> release_store \<Rightarrow> bool" where
  "has_boosted_releases project now s = (alive now (rs_boosted s) project \<noteq> None)"

definition hdel_boosted :: "nat \<Rightarrow> string list \<Rightarrow> int \<Rightarrow> release_store \<Rightarrow> release_store" where
  \<comment> \<open>the key of a hash that becomes empty is removed; its expiry stays otherwise\<close>
  "hdel_boosted project keys now s =
     (case dict_get (rs_boosted s) project of
        None \<Rightarrow> s
      | Some (h, expiry) \<Rightarrow>
          let h' = (if expiry \<le> now then [] else filter (\<lambda>(k, _). k \<notin> set keys) h)
          in s\<lparr>rs_boosted := (if h' = [] then dict_del project (rs_boosted s)
                              else dict_set project (h', expiry) (rs_boosted s))\<rparr>)"

definition still_boosted :: "string option \<Rightarrow> int \<Rightarrow> int \<Rightarrow> bool" where
  "still_boosted platform now timestamp = (now \<le> timestamp + time_to_adoption platform * 1000)"

text \<open>The loop: the least recently boosted active release, the number of active ones, the keys to delete.\<close>

fun scan_boosted ::
  "string option \<Rightarrow> int \<Rightarrow> (string, int) dict \<Rightarrow> (string \<times> int) option \<Rightarrow> nat \<Rightarrow> string list
     \<Rightarrow> (string \<times> int) option \<times> nat \<times> string list" where
  "scan_boosted platform now [] lrb active keys = (lrb, active, keys)"
| "scan_boosted platform now ((key, timestamp) # h) lrb active keys =
     (if still_boosted platform now timestamp
      then scan_boosted platform now h
             (case lrb of
                None \<Rightarrow> Some (key, timestamp)
              | Some (_, t) \<Rightarrow> if timestamp < t then Some (key, timestamp) else lrb)
             (Suc active) keys
      else scan_boosted platform now h lrb active (keys @ [key]))"

definition lrb_keys_to_delete :: "string option \<Rightarrow> int \<Rightarrow> (string, int) dict \<Rightarrow> string list" where
  "lrb_keys_to_delete platform now h =
     (case scan_boosted platform now h None 0 [] of
        (lrb, active, keys) \<Rightarrow>
          (case lrb of Some (key, _) \<Rightarrow> if active \<ge> BOOSTED_RELEASES_LIMIT then keys @ [key] else keys | None \<Rightarrow> keys))"

definition remove_lrb_if_limit_is_reached :: "release_env \<Rightarrow> nat \<Rightarrow> int \<Rightarrow> release_store \<Rightarrow> release_store" where
  "remove_lrb_if_limit_is_reached env project now s =
     (let keys = lrb_keys_to_delete (rv_platform env project) now (boosted_hash project now s)
      in if keys = [] then s else hdel_boosted project keys now s)"

definition add_boosted_release ::
  "release_env \<Rightarrow> nat \<Rightarrow> int \<Rightarrow> nat \<Rightarrow> string option \<Rightarrow> release_store \<Rightarrow> release_store" where
  "add_boosted_release env project now release_id environment s =
     (let s = remove_lrb_if_limit_is_reached env project now s
      in s\<lparr>rs_boosted := dict_set project
             (dict_set (generate_cache_key_for_boosted_release release_id environment) now (boosted_hash project now s),
              now + BOOSTED_RELEASES_HASH_EXPIRATION)
             (rs_boosted s)\<rparr>)"

definition get_boosted_releases :: "nat \<Rightarrow> int \<Rightarrow> release_store \<Rightarrow> (string \<times> int \<times> int \<times> string option) list" where
  "get_boosted_releases project now s =
     List.map_filter (\<lambda>(key, timestamp).
         map_option (\<lambda>(release_id, environment). (key, release_id, timestamp, environment)) (extract_data_from_cache_key key))
       (boosted_hash project now s)"

text \<open>\<open>to_extended_boosted_releases\<close>: the active releases and the keys of those that expired or were deleted.\<close>

fun to_extended_boosted_releases ::
  "release_env \<Rightarrow> nat \<Rightarrow> int \<Rightarrow> (string \<times> int \<times> int \<times> string option) list \<Rightarrow> boosted_release list \<times> string list" where
  "to_extended_boosted_releases env project now [] = ([], [])"
| "to_extended_boosted_releases env project now ((key, release_id, timestamp, environment) # rs) =
     (let (active, expired) = to_extended_boosted_releases env project now rs
      in case rv_version env release_id of
           None \<Rightarrow> (active, key # expired)
         | Some version \<Rightarrow>
             if still_boosted (rv_platform env project) now timestamp
             then (\<lparr>br_version = version, br_environment = environment, br_timestamp = timestamp,
                    br_time_to_adoption = time_to_adoption (rv_platform env project) * 1000\<rparr> # active, expired)
             else (active, key # expired))"

definition get_extended_boosted_releases ::
  "release_env \<Rightarrow> nat \<Rightarrow> int \<Rightarrow> release_store \<Rightarrow> boosted_release list \<times> release_store" where
  "get_extended_boosted_releases env project now s =
     (let (active, expired) = to_extended_boosted_releases env project now (get_boosted_releases project now s)
      in (active, if expired = [] then s else hdel_boosted project expired now s))"

section \<open>Observed releases\<close>

record observed_release =
  or_project :: nat
  or_id :: nat
  or_environment :: "string option"
  or_date_released :: "int option"
  or_date_added :: "int option"

definition generate_cache_key_for_observed_release :: "observed_release \<Rightarrow> string" where
  "generate_cache_key_for_observed_release r =
     ''ds::p:'' @ nat_digits (or_project r) @ '':r:'' @ nat_digits (or_id r) @ get_environment_cache_key (or_environment r)"

definition is_already_observed :: "observed_release \<Rightarrow> int \<Rightarrow> release_store \<Rightarrow> bool \<times> release_store" where
  "is_already_observed r now s =
     (let key = generate_cache_key_for_observed_release r
      in (alive now (rs_observed s) key \<noteq> None,
          s\<lparr>rs_observed := dict_set key ((), now + ONE_DAY_TIMEOUT_MS) (rs_observed s)\<rparr>))"

definition get_release_date :: "observed_release \<Rightarrow> int option" where
  "get_release_date r = (case or_date_released r of Some d \<Rightarrow> Some d | None \<Rightarrow> or_date_added r)"

definition is_latest_release :: "observed_release \<Rightarrow> release_store \<Rightarrow> bool \<times> release_store" where
  "is_latest_release r s =
     (case get_release_date r of
        None \<Rightarrow> (False, s)
      | Some d \<Rightarrow>
          if (case dict_get (rs_latest s) (or_project r) of None \<Rightarrow> True | Some latest \<Rightarrow> d \<ge> latest)
          then (True, s\<lparr>rs_latest := dict_set (or_project r) d (rs_latest s)\<rparr>)
          else (False, s))"

definition observe_release :: "release_env \<Rightarrow> int \<Rightarrow> observed_release \<Rightarrow> release_store \<Rightarrow> release_store \<times> bool" where
  \<comment> \<open>and whether \<open>on_boosted_release_added\<close> is called\<close>
  "observe_release env now r s =
     (case is_already_observed r now s of
        (True, s) \<Rightarrow> (s, False)
      | (False, s) \<Rightarrow>
          (case is_latest_release r s of
             (False, s) \<Rightarrow> (s, False)
           | (True, s) \<Rightarrow> (add_boosted_release env (or_project r) now (or_id r) (or_environment r) s, True)))"

section \<open>At most ten\<close>

lemma scan_boosted_counts:
  "snd (scan_boosted platform now h lrb active keys) =
    (active + length (filter (\<lambda>(_, t). still_boosted platform now t) h),
     keys @ map fst (filter (\<lambda>(_, t). \<not> still_boosted platform now t) h))"
  by (induction platform now h lrb active keys rule: scan_boosted.induct) auto

lemma scan_boosted_lrb:
  "case fst (scan_boosted platform now h lrb active keys) of
      None \<Rightarrow> lrb = None \<and> filter (\<lambda>(_, t). still_boosted platform now t) h = []
    | Some (k, t) \<Rightarrow> (lrb = Some (k, t) \<or> (k, t) \<in> set h \<and> still_boosted platform now t)
        \<and> (\<forall>(k', t') \<in> set h. still_boosted platform now t' \<longrightarrow> t \<le> t')
        \<and> (case lrb of None \<Rightarrow> True | Some (_, t') \<Rightarrow> t \<le> t')"
proof (induction platform now h lrb active keys rule: scan_boosted.induct)
  case (2 platform now key timestamp h lrb active keys)
  show ?case
  proof (cases "still_boosted platform now timestamp")
    case True
    with "2.IH"(1) [OF True] show ?thesis
      by (cases lrb) (auto split: option.splits if_splits)
  next
    case False
    with "2.IH"(2) [OF False] show ?thesis by (auto split: option.splits)
  qed
qed (auto split: option.splits)

lemma lrb_keys_cases:
  obtains (few) "length (filter (\<lambda>(_, t). still_boosted platform now t) h) < BOOSTED_RELEASES_LIMIT"
      "lrb_keys_to_delete platform now h = map fst (filter (\<lambda>(_, t). \<not> still_boosted platform now t) h)"
  | (many) k t where "BOOSTED_RELEASES_LIMIT \<le> length (filter (\<lambda>(_, t). still_boosted platform now t) h)"
      "(k, t) \<in> set h" "still_boosted platform now t"
      "\<forall>(k', t') \<in> set h. still_boosted platform now t' \<longrightarrow> t \<le> t'"
      "lrb_keys_to_delete platform now h = map fst (filter (\<lambda>(_, t). \<not> still_boosted platform now t) h) @ [k]"
proof -
  obtain lrb active keys where s: "scan_boosted platform now h None 0 [] = (lrb, active, keys)" by (metis surj_pair)
  have a: "active = length (filter (\<lambda>(_, t). still_boosted platform now t) h)"
    "keys = map fst (filter (\<lambda>(_, t). \<not> still_boosted platform now t) h)"
    using scan_boosted_counts [of platform now h None 0 "[]"] by (simp_all add: s)
  show thesis
  proof (cases lrb)
    case None
    then have "filter (\<lambda>(_, t). still_boosted platform now t) h = []"
      using scan_boosted_lrb [where platform = platform and now = now and h = h and lrb = None and active = 0 and keys = "[]"] by (simp add: s)
    with None a s show thesis by (intro few) (simp_all add: lrb_keys_to_delete_def BOOSTED_RELEASES_LIMIT_def)
  next
    case (Some kt)
    obtain k t where kt: "kt = (k, t)" by (cases kt)
    have l: "(k, t) \<in> set h" "still_boosted platform now t"
      "\<forall>(k', t') \<in> set h. still_boosted platform now t' \<longrightarrow> t \<le> t'"
      using scan_boosted_lrb [where platform = platform and now = now and h = h and lrb = None and active = 0 and keys = "[]"] by (simp_all add: s Some kt)
    show thesis
    proof (cases "active \<ge> BOOSTED_RELEASES_LIMIT")
      case True
      with Some kt a s l show thesis by (intro many [of k t]) (simp_all add: lrb_keys_to_delete_def)
    next
      case False
      with Some kt a s show thesis by (intro few) (simp_all add: lrb_keys_to_delete_def)
    qed
  qed
qed

lemma boosted_hash_hdel:
  "boosted_hash project now (hdel_boosted project keys now s) = filter (\<lambda>(k, _). k \<notin> set keys) (boosted_hash project now s)"
  by (simp add: boosted_hash_def hdel_boosted_def alive_def Let_def split: option.splits)

lemma boosted_hash_remove:
  "boosted_hash project now (remove_lrb_if_limit_is_reached env project now s) =
    filter (\<lambda>(k, _). k \<notin> set (lrb_keys_to_delete (rv_platform env project) now (boosted_hash project now s)))
      (boosted_hash project now s)"
  by (simp add: remove_lrb_if_limit_is_reached_def Let_def boosted_hash_hdel)

lemma boosted_hash_add:
  "boosted_hash project now (add_boosted_release env project now release_id environment s) =
    dict_set (generate_cache_key_for_boosted_release release_id environment) now
      (filter (\<lambda>(k, _). k \<notin> set (lrb_keys_to_delete (rv_platform env project) now (boosted_hash project now s)))
        (boosted_hash project now s))"
  by (simp add: add_boosted_release_def Let_def boosted_hash_remove [symmetric])
    (simp add: boosted_hash_def alive_def BOOSTED_RELEASES_HASH_EXPIRATION_def)

definition hash_ok :: "(string, int) dict \<Rightarrow> bool" where
  "hash_ok h = (dict_wf h \<and> length h \<le> BOOSTED_RELEASES_LIMIT)"

definition releases_ok :: "release_store \<Rightarrow> bool" where
  "releases_ok s = values_ok (\<lambda>(h, _). hash_ok h) (rs_boosted s)"

lemma boosted_hash_ok: "releases_ok s \<Longrightarrow> hash_ok (boosted_hash project now s)"
  using values_ok_get [of "\<lambda>(h, _). hash_ok h" "rs_boosted s" project]
  by (auto simp: releases_ok_def boosted_hash_def alive_def hash_ok_def split: option.splits if_splits)

lemma filter_drops_one: "x \<in> set xs \<Longrightarrow> \<not> P x \<Longrightarrow> length (filter P xs) < length xs"
  by (induction xs) (auto simp: le_imp_less_Suc)

lemma filter_le: "(\<And>x. x \<in> set xs \<Longrightarrow> P x \<Longrightarrow> Q x) \<Longrightarrow> length (filter P xs) \<le> length (filter Q xs)"
  by (induction xs) (auto simp: le_Suc_eq)

text \<open>After making room there are at most nine releases, all of them active.\<close>

lemma remaining_active:
  "(k, t) \<in> set h \<Longrightarrow> k \<notin> set (lrb_keys_to_delete platform now h) \<Longrightarrow> still_boosted platform now t"
  by (rule lrb_keys_cases [of platform now h]) (force simp: image_iff)+

lemma remaining_length:
  assumes "hash_ok h"
  shows "length (filter (\<lambda>(k, _). k \<notin> set (lrb_keys_to_delete platform now h)) h) < BOOSTED_RELEASES_LIMIT"
proof (rule lrb_keys_cases [of platform now h])
  let ?rest = "filter (\<lambda>(k, _). k \<notin> set (lrb_keys_to_delete platform now h)) h"
  assume few: "length (filter (\<lambda>(_, t). still_boosted platform now t) h) < BOOSTED_RELEASES_LIMIT"
  have "length ?rest \<le> length (filter (\<lambda>(_, t). still_boosted platform now t) h)"
    using remaining_active by (intro filter_le) auto
  with few show ?thesis by simp
next
  fix k t assume "(k, t) \<in> set h" and
    "lrb_keys_to_delete platform now h = map fst (filter (\<lambda>(_, t). \<not> still_boosted platform now t) h) @ [k]"
  then have "length (filter (\<lambda>(k, _). k \<notin> set (lrb_keys_to_delete platform now h)) h) < length h"
    by (intro filter_drops_one [of "(k, t)"]) auto
  with assms show ?thesis by (simp add: hash_ok_def)
qed

lemma filter_hash_ok: "hash_ok h \<Longrightarrow> hash_ok (filter P h)"
  by (auto simp: hash_ok_def distinct_map_filter intro: order_trans [OF length_filter_le])

lemma hdel_ok: "releases_ok s \<Longrightarrow> releases_ok (hdel_boosted project keys now s)"
  using values_ok_get [of "\<lambda>(h, _). hash_ok h" "rs_boosted s" project]
  by (auto simp: hdel_boosted_def releases_ok_def Let_def values_ok_del values_ok_set filter_hash_ok split: option.splits)

lemma add_boosted_ok:
  assumes "releases_ok s"
  shows "releases_ok (add_boosted_release env project now release_id environment s)"
proof -
  let ?s = "remove_lrb_if_limit_is_reached env project now s"
  have "releases_ok ?s" using assms by (simp add: remove_lrb_if_limit_is_reached_def Let_def hdel_ok)
  moreover have h: "hash_ok (boosted_hash project now s)" using assms by (rule boosted_hash_ok)
  then have "hash_ok (boosted_hash project now ?s)" unfolding boosted_hash_remove by (rule filter_hash_ok)
  then have "hash_ok (dict_set k now (boosted_hash project now ?s))" for k
    using remaining_length [OF h, of "rv_platform env project" now] dict_set_length [of k now "boosted_hash project now ?s"]
    by (auto simp: hash_ok_def boosted_hash_remove)
  ultimately show ?thesis by (simp add: add_boosted_release_def Let_def releases_ok_def values_ok_set)
qed

lemma get_extended_ok: "releases_ok s \<Longrightarrow> releases_ok (snd (get_extended_boosted_releases env project now s))"
  by (simp add: get_extended_boosted_releases_def Let_def hdel_ok split: prod.splits)

lemma observe_ok: "releases_ok s \<Longrightarrow> releases_ok (fst (observe_release env now r s))"
proof -
  assume ok: "releases_ok s"
  obtain b s1 where o: "is_already_observed r now s = (b, s1)" by fastforce
  with ok have s1: "releases_ok s1" by (auto simp: is_already_observed_def releases_ok_def Let_def)
  obtain c s2 where l: "is_latest_release r s1 = (c, s2)" by fastforce
  with s1 have s2: "releases_ok s2" by (auto simp: is_latest_release_def releases_ok_def split: option.splits if_splits)
  show ?thesis using ok o l s1 add_boosted_ok [OF s2] s2 by (simp add: observe_release_def split: bool.splits)
qed

text \<open>The calls that change the store, each at its own time and in its own environment.\<close>

datatype release_event = ObserveRelease observed_release | ReadReleases nat

fun release_step :: "release_store \<Rightarrow> release_env \<times> int \<times> release_event \<Rightarrow> release_store" where
  "release_step s (env, now, ObserveRelease r) = fst (observe_release env now r s)"
| "release_step s (env, now, ReadReleases project) = snd (get_extended_boosted_releases env project now s)"

interpretation releases: step_machine release_step releases_ok
proof
  fix s e assume "releases_ok s"
  then show "releases_ok (release_step s e)"
    by (cases "(s, e)" rule: release_step.cases) (auto simp: observe_ok get_extended_ok)
qed

definition no_releases :: release_store where
  "no_releases = \<lparr>rs_boosted = [], rs_observed = [], rs_latest = []\<rparr>"

lemma no_releases_ok: "releases_ok no_releases"
  by (simp add: releases_ok_def no_releases_def)

lemma extended_length: "length (fst (to_extended_boosted_releases env project now rs)) \<le> length rs"
  by (induction env project now rs rule: to_extended_boosted_releases.induct) (auto split: prod.splits option.splits)

lemma map_filter_length: "length (List.map_filter f xs) \<le> length xs"
  by (induction xs) (auto simp: List.map_filter_simps split: option.splits)

lemma get_extended_length:
  "length (fst (get_extended_boosted_releases env project now s)) \<le> length (boosted_hash project now s)"
  using extended_length [of env project now "get_boosted_releases project now s"] map_filter_length
  by (fastforce simp: get_extended_boosted_releases_def get_boosted_releases_def split: prod.splits intro: order_trans)

text \<open>
  A project never has more than ten boosted releases, so their rules keep to the ids that are
  reserved for them. After any sequence of observed releases and of reads, at any times, the bias
  that reads the store returns at most ten rules, and \<open>get_rule_type\<close> takes each of them for a rule
  of this bias.
\<close>

theorem boosted_rules_within_reserved_ids:
  assumes "bc_releases ctx = fst (get_extended_boosted_releases env project now (foldl release_step no_releases events))"
    and "boost_latest_releases_bias ctx base = Inr rules"
  shows "length rules \<le> BOOSTED_RELEASES_LIMIT
    \<and> list_all (\<lambda>r. get_rule_type r = Some BOOST_LATEST_RELEASES_RULE) rules"
proof
  have "hash_ok (boosted_hash project now (foldl release_step no_releases events))"
    using releases.run_inv [OF no_releases_ok] by (rule boosted_hash_ok)
  then have n: "length (bc_releases ctx) \<le> BOOSTED_RELEASES_LIMIT"
    using get_extended_length [of env project now "foldl release_step no_releases events"] assms(1)
    by (simp add: hash_ok_def)
  then show "list_all (\<lambda>r. get_rule_type r = Some BOOST_LATEST_RELEASES_RULE) rules"
    using releases_bias_type [OF assms(2)] by (simp add: list_all_iff)
  show "length rules \<le> BOOSTED_RELEASES_LIMIT"
    using n assms(2) by (auto simp: boost_latest_releases_bias_def bind_result_Inr_iff)
qed

definition example_release_env :: release_env where
  "example_release_env = \<lparr>rv_platform = (\<lambda>_. Some ''android''), rv_version = (\<lambda>_. Some ''1.0'')\<rparr>"

definition example_release :: observed_release where
  "example_release = \<lparr>or_project = 1, or_id = 7, or_environment = Some ''prod'', or_date_released = None, or_date_added = Some 5\<rparr>"

lemma boosted_rules_within_reserved_ids_witness:
  "length (case boost_latest_releases_bias
        (example_context\<lparr>bc_releases := fst (get_extended_boosted_releases example_release_env 1 2000
           (foldl release_step no_releases [(example_release_env, 1000, ObserveRelease example_release)]))\<rparr>) (1 / 2) of
      Inl _ \<Rightarrow> [] | Inr rules \<Rightarrow> rules) \<le> BOOSTED_RELEASES_LIMIT"
  using boosted_rules_within_reserved_ids [of
      "example_context\<lparr>bc_releases := fst (get_extended_boosted_releases example_release_env 1 2000
           (foldl release_step no_releases [(example_release_env, 1000, ObserveRelease example_release)]))\<rparr>"
      example_release_env 1 2000 "[(example_release_env, 1000, ObserveRelease example_release)]" "1 / 2"]
  by (cases "boost_latest_releases_bias
        (example_context\<lparr>bc_releases := fst (get_extended_boosted_releases example_release_env 1 2000
           (foldl release_step no_releases [(example_release_env, 1000, ObserveRelease example_release)]))\<rparr>) (1 / 2)") auto

section \<open>Which release makes room\<close>

text \<open>
  Boosting a release evicts only what has to go. Afterwards the hash of the project has the release
  with the current time; every other entry was there before, unchanged, and is still being boosted; and if a
  release that was still being boosted is gone, ten or more were, and none of those that stay was boosted
  before it.
\<close>

theorem boosting_evicts_oldest:
  assumes "dict_wf (boosted_hash project now s)"
  shows "let h = boosted_hash project now s;
      h' = boosted_hash project now (add_boosted_release env project now release_id environment s);
      key = generate_cache_key_for_boosted_release release_id environment;
      active = still_boosted (rv_platform env project) now
    in dict_get h' key = Some now
      \<and> (\<forall>k t. k \<noteq> key \<and> dict_get h' k = Some t \<longrightarrow> dict_get h k = Some t \<and> active t)
      \<and> (\<forall>k t. dict_get h k = Some t \<and> active t \<and> dict_get h' k = None \<longrightarrow>
           BOOSTED_RELEASES_LIMIT \<le> length (filter (\<lambda>(_, t). active t) h)
           \<and> (\<forall>k' t'. k' \<noteq> key \<and> dict_get h' k' = Some t' \<longrightarrow> t \<le> t'))"
proof -
  define h where "h = boosted_hash project now s"
  define platform where "platform = rv_platform env project"
  define gone where "gone = set (lrb_keys_to_delete platform now h)"
  define rest where "rest = filter (\<lambda>(k, _). k \<notin> gone) h"
  define key where "key = generate_cache_key_for_boosted_release release_id environment"
  have wf: "dict_wf h" using assms by (simp add: h_def)
  have h': "boosted_hash project now (add_boosted_release env project now release_id environment s) = dict_set key now rest"
    by (simp add: boosted_hash_add rest_def gone_def h_def key_def platform_def)
  have "dict_get (filter (\<lambda>(k, _). k \<notin> gone) d) k = (if k \<in> gone then None else dict_get d k)" for k and d :: "(string, int) dict"
    by (induction d) (auto simp: dict_get_def)
  then have rest_get: "dict_get rest k = (if k \<in> gone then None else dict_get h k)" for k
    by (simp add: rest_def)
  have kept: "dict_get h k = Some t \<and> still_boosted platform now t" if "dict_get rest k = Some t" for k t
    using that remaining_active [of k t h platform now] dict_get_in [of h k t]
    by (auto simp: rest_get gone_def split: if_splits)
  have evicted: "BOOSTED_RELEASES_LIMIT \<le> length (filter (\<lambda>(_, t). still_boosted platform now t) h)
      \<and> (\<forall>k' t'. dict_get rest k' = Some t' \<longrightarrow> t \<le> t')"
    if g: "dict_get h k = Some t" "still_boosted platform now t" "k \<in> gone" for k t
  proof (rule lrb_keys_cases [of platform now h])
    assume "lrb_keys_to_delete platform now h = map fst (filter (\<lambda>(_, t). \<not> still_boosted platform now t) h)"
    with g(3) obtain t' where "(k, t') \<in> set h" "\<not> still_boosted platform now t'" by (auto simp: gone_def)
    with g(1,2) dict_get_wf [OF wf] show ?thesis by fastforce
  next
    fix k0 t0 assume many: "BOOSTED_RELEASES_LIMIT \<le> length (filter (\<lambda>(_, t). still_boosted platform now t) h)"
      "(k0, t0) \<in> set h" "\<forall>(k', t') \<in> set h. still_boosted platform now t' \<longrightarrow> t0 \<le> t'"
      "lrb_keys_to_delete platform now h = map fst (filter (\<lambda>(_, t). \<not> still_boosted platform now t) h) @ [k0]"
    have "k = k0"
    proof (rule ccontr)
      assume "k \<noteq> k0"
      with g(3) many(4) obtain t' where "(k, t') \<in> set h" "\<not> still_boosted platform now t'" by (auto simp: gone_def)
      with g(1,2) dict_get_wf [OF wf] show False by fastforce
    qed
    with g(1) dict_get_wf [OF wf many(2)] have "t = t0" by simp
    with many(1,3) kept dict_get_in [of h] show ?thesis by fastforce
  qed
  have ev1: "BOOSTED_RELEASES_LIMIT \<le> length (filter (\<lambda>(_, t). still_boosted platform now t) h)"
    if "dict_get h k = Some t" "still_boosted platform now t" "k \<in> gone" for k t
    using evicted [OF that] by simp
  have ev2: "t \<le> t'" if "dict_get h k = Some t" "still_boosted platform now t" "k \<in> gone"
    "dict_get h k' = Some t'" "k' \<notin> gone" for k t k' t'
    using evicted [OF that(1-3)] that(4,5) rest_get [of k'] by metis
  show ?thesis
    using kept by (auto simp: h' rest_get Let_def simp flip: h_def key_def platform_def split: if_splits
        intro: ev1 ev2)
qed

lemma boosting_evicts_oldest_witness:
  "dict_get (boosted_hash 1 1000 (add_boosted_release example_release_env 1 1000 7 None no_releases))
     (generate_cache_key_for_boosted_release 7 None) = Some 1000"
  using boosting_evicts_oldest [of 1 1000 no_releases example_release_env 7 None]
  by (simp add: Let_def boosted_hash_def alive_def no_releases_def)

section \<open>Keys\<close>

lemma digits_prefix:
  assumes "u = [] \<or> \<not> is_digit (hd u)"
  shows "takeWhile is_digit (nat_digits n @ u) = nat_digits n" "dropWhile is_digit (nat_digits n @ u) = u"
proof -
  have d: "takeWhile is_digit (nat_digits n) = nat_digits n" "dropWhile is_digit (nat_digits n) = []"
    using nat_digits_set by (auto simp: takeWhile_eq_all_conv)
  have "takeWhile is_digit u = []" "dropWhile is_digit u = u" using assms by (cases u; auto)+
  with nat_digits_set show "takeWhile is_digit (nat_digits n @ u) = nat_digits n" "dropWhile is_digit (nat_digits n @ u) = u"
    by (auto simp: takeWhile_append2 dropWhile_append2)
qed

lemma digits_of_nat_digits [simp]:
  "takeWhile is_digit (nat_digits n) = nat_digits n" "dropWhile is_digit (nat_digits n) = []"
  using digits_prefix [of "[]" n] by simp_all

text \<open>
  The key of a boosted release tells its release and environment. Reading back the key that is
  generated for a release without an environment, or with one that is not empty and has no line
  break, gives the same release and environment.
\<close>

theorem boosted_release_key_roundtrip:
  assumes "case environment of None \<Rightarrow> True | Some e \<Rightarrow> e \<noteq> [] \<and> newline \<notin> set e"
  shows "extract_data_from_cache_key (generate_cache_key_for_boosted_release release_id environment) =
    Some (int release_id, environment)"
proof (cases environment)
  case None
  then show ?thesis
    by (simp add: Let_def extract_data_from_cache_key_def match_boosted_release_def generate_cache_key_for_boosted_release_def
        get_environment_cache_key_def startswith_def at_end_def)
next
  case (Some e)
  with assms have e: "e \<noteq> []" "newline \<notin> set e" by auto
  then have t: "takeWhile (\<lambda>c. c \<noteq> newline) e = e" "dropWhile (\<lambda>c. c \<noteq> newline) e = []"
    by (auto simp: takeWhile_eq_all_conv dropWhile_eq_Nil_conv)
  have "\<not> is_digit (CHR '':'')" by (simp add: is_digit_def)
  then show ?thesis
    using Some e digits_prefix [of "'':e:'' @ e" release_id]
    by (simp add: Let_def extract_data_from_cache_key_def match_boosted_release_def generate_cache_key_for_boosted_release_def
        get_environment_cache_key_def startswith_def at_end_def ENVIRONMENT_SEPARATOR_def t)
qed

lemma boosted_release_key_roundtrip_witness:
  "extract_data_from_cache_key (generate_cache_key_for_boosted_release 12 (Some ''prod'')) = Some (12, Some ''prod'')"
  using boosted_release_key_roundtrip [of "Some ''prod''" 12] by (simp add: newline_def)

section \<open>The hash expires first\<close>

text \<open>
  A boost ends when the hash of the project expires, however long its platform takes to adopt a
  release. One hour after a release was boosted, without another one, the store gives no boosted release,
  although for a platform with a longer time to adoption the release is still to be boosted.
\<close>

theorem boost_ends_with_hash:
  assumes "rv_platform env project = platform" "3600 < time_to_adoption platform"
  shows "fst (get_extended_boosted_releases env project (now + BOOSTED_RELEASES_HASH_EXPIRATION)
      (add_boosted_release env project now release_id environment s)) = []
    \<and> still_boosted platform (now + BOOSTED_RELEASES_HASH_EXPIRATION) now"
  using assms
  by (simp add: get_extended_boosted_releases_def get_boosted_releases_def boosted_hash_def add_boosted_release_def
      alive_def Let_def List.map_filter_simps still_boosted_def BOOSTED_RELEASES_HASH_EXPIRATION_def)

lemma boost_ends_with_hash_witness:
  "fst (get_extended_boosted_releases example_release_env 1 (0 + BOOSTED_RELEASES_HASH_EXPIRATION)
      (add_boosted_release example_release_env 1 0 7 None no_releases)) = []
    \<and> still_boosted (Some ''android'') (0 + BOOSTED_RELEASES_HASH_EXPIRATION) 0"
  by (rule boost_ends_with_hash)
    (simp_all add: example_release_env_def time_to_adoption_def LATEST_RELEASE_TTAS_def dict_get_def)

end
