(* ===== verification/Webhooks.thy ===== *)
theory Webhooks
  imports Prelude Complex_Main
begin

text \<open>
  Delivery of webhooks from the control silo to the regions (\<open>hybridcloud/models/webhookpayload.py\<close>,
  \<open>hybridcloud/tasks/deliver_webhooks.py\<close>). Webhooks wait in mailboxes; a task that runs often finds the
  mailboxes whose oldest webhook is due and starts a worker for each, which delivers one by one or, for
  a long mailbox, in parallel. Workers run concurrently: an event is one atomic step of one of them, with
  the clock and the answer of the region as arguments, and a worker keeps the copies of the rows it has
  read. Times are seconds. Shown are that no webhook is lost under any interleaving, that a worker does not
  overtake, and that a mailbox without failures is emptied. Not modelled: metrics, logging, headers.
\<close>

section \<open>Webhooks: \<open>hybridcloud/models/webhookpayload.py\<close>\<close>

definition THE_PAST :: rat where "THE_PAST = 1470009600"
definition MAX_ATTEMPTS :: nat where "MAX_ATTEMPTS = 10"
definition BACKOFF_INTERVAL :: rat where "BACKOFF_INTERVAL = 3"
definition BACKOFF_RATE :: rat where "BACKOFF_RATE = 14 / 10"

record http_request =
  hr_method :: string
  hr_path :: string
  hr_headers :: "(string, string) dict"
  hr_body :: string

record webhook =
  wp_id :: nat
  wp_mailbox :: string
  wp_region :: string
  wp_integration :: "nat option"
  wp_added :: rat
  wp_schedule :: rat
  wp_attempts :: nat
  wp_request :: http_request

definition backoff_seconds :: "nat \<Rightarrow> rat" where
  "backoff_seconds attempts = min (BACKOFF_INTERVAL * BACKOFF_RATE ^ attempts) 60 * 60"

definition schedule_next_attempt :: "rat \<Rightarrow> webhook \<Rightarrow> webhook" where
  "schedule_next_attempt now w =
     (let attempts = wp_attempts w + 1; new_time = now + backoff_seconds attempts
      in w\<lparr>wp_attempts := attempts, wp_schedule := max new_time (wp_schedule w)\<rparr>)"

section \<open>One request: \<open>perform_request\<close>\<close>

text \<open>What the client answers or raises; an API error has the status of its response, if there is one.\<close>

datatype region_answer = AnswerOk | HostError bool | ConflictError | TimeoutReset | ApiError "int option" | OtherRaise

datatype request_result = Delivered | DeliveryFailed | Raised

definition perform_request :: "region_answer \<Rightarrow> request_result" where
  "perform_request answer =
     (case answer of
        AnswerOk \<Rightarrow> Delivered
      | HostError _ \<Rightarrow> DeliveryFailed
      | ConflictError \<Rightarrow> Delivered
      | TimeoutReset \<Rightarrow> DeliveryFailed
      | ApiError None \<Rightarrow> DeliveryFailed
      | ApiError (Some code) \<Rightarrow>
          if 500 \<le> code \<and> code < 600 then DeliveryFailed
          else if code \<in> {400, 401, 403, 404} then Delivered
          else DeliveryFailed
      | OtherRaise \<Rightarrow> Raised)"

section \<open>State\<close>

text \<open>
  Workers: queued with the id of the oldest webhook, or running with that id, the mailbox, the deadline and
  the copies that are still to be delivered; a parallel worker also has whether a request has failed.
\<close>

datatype worker =
    SerialQueued nat
  | Serial nat string rat "webhook list"
  | ParallelQueued nat
  | Parallel nat string rat "webhook list" bool
  | Finished

datatype delivery = Attempt nat request_result | Expired nat rat rat

record webhooks =
  wh_rows :: "webhook list"
  wh_next :: nat
  wh_workers :: "worker list"
  wh_log :: "delivery list"

definition delete_webhook :: "nat \<Rightarrow> webhooks \<Rightarrow> webhooks" where
  "delete_webhook i s = s\<lparr>wh_rows := filter (\<lambda>w. wp_id w \<noteq> i) (wh_rows s)\<rparr>"

definition update_webhook :: "webhook \<Rightarrow> webhooks \<Rightarrow> webhooks" where
  \<comment> \<open>\<open>payload.update(attempts=..., schedule_for=...)\<close>; nothing happens when the row is gone\<close>
  "update_webhook c s = s\<lparr>wh_rows := map (\<lambda>w. if wp_id w = wp_id c
       then w\<lparr>wp_attempts := wp_attempts c, wp_schedule := wp_schedule c\<rparr> else w) (wh_rows s)\<rparr>"

definition log_delivery :: "delivery \<Rightarrow> webhooks \<Rightarrow> webhooks" where
  "log_delivery d s = s\<lparr>wh_log := wh_log s @ [d]\<rparr>"

definition set_worker :: "nat \<Rightarrow> worker \<Rightarrow> webhooks \<Rightarrow> webhooks" where
  "set_worker k w s = s\<lparr>wh_workers := (wh_workers s)[k := w]\<rparr>"

definition create_from_request ::
  "string \<Rightarrow> string \<Rightarrow> string \<Rightarrow> nat option \<Rightarrow> http_request \<Rightarrow> rat \<Rightarrow> webhooks \<Rightarrow> webhooks" where
  "create_from_request region provider identifier integration request now s =
     s\<lparr>wh_rows := wh_rows s @
         [\<lparr>wp_id = wh_next s, wp_mailbox = provider @ '':'' @ identifier, wp_region = region,
           wp_integration = integration, wp_added = now, wp_schedule = THE_PAST, wp_attempts = 0, wp_request = request\<rparr>],
       wh_next := Suc (wh_next s)\<rparr>"

section \<open>The schedule: \<open>schedule_webhook_delivery\<close>\<close>

definition MAX_MAILBOX_DRAIN :: nat where "MAX_MAILBOX_DRAIN = 300"
definition BATCH_SCHEDULE_OFFSET :: rat where "BATCH_SCHEDULE_OFFSET = BACKOFF_INTERVAL * 60"
definition BATCH_SIZE :: nat where "BATCH_SIZE = 1000"
definition MAX_DELIVERY_AGE :: rat where "MAX_DELIVERY_AGE = 3 * 24 * 60 * 60"

definition from_mailbox :: "nat \<Rightarrow> string \<Rightarrow> webhook list \<Rightarrow> webhook list" where
  \<comment> \<open>the rows of a mailbox from an id on, by id\<close>
  "from_mailbox i mailbox rows = filter (\<lambda>w. wp_id w \<ge> i \<and> wp_mailbox w = mailbox) rows"

definition head_of_line :: "webhook list \<Rightarrow> webhook list" where
  "head_of_line rows = filter (\<lambda>w. \<forall>v \<in> set rows. wp_mailbox v = wp_mailbox w \<longrightarrow> wp_id w \<le> wp_id v) rows"

definition schedule_mailbox :: "rat \<Rightarrow> webhook \<Rightarrow> webhooks \<Rightarrow> webhooks" where
  "schedule_mailbox now record s =
     (let batch = map wp_id (take MAX_MAILBOX_DRAIN (from_mailbox (wp_id record) (wp_mailbox record) (wh_rows s)))
      in s\<lparr>wh_rows := map (\<lambda>w. if wp_id w \<in> set batch then w\<lparr>wp_schedule := now + BATCH_SCHEDULE_OFFSET\<rparr> else w) (wh_rows s),
           wh_workers := wh_workers s @
             [if length batch \<ge> MAX_MAILBOX_DRAIN div 3 then ParallelQueued (wp_id record) else SerialQueued (wp_id record)]\<rparr>)"

definition schedule_webhook_delivery :: "rat \<Rightarrow> webhooks \<Rightarrow> webhooks" where
  "schedule_webhook_delivery now s =
     foldl (\<lambda>s record. schedule_mailbox now record s) s
       (take BATCH_SIZE (filter (\<lambda>w. wp_schedule w \<le> now) (head_of_line (wh_rows s))))"

section \<open>One by one: \<open>drain_mailbox\<close>, \<open>deliver_message\<close>\<close>

definition deliver_message :: "rat \<Rightarrow> region_answer \<Rightarrow> webhook \<Rightarrow> webhooks \<Rightarrow> request_result \<times> webhooks" where
  "deliver_message now answer payload s =
     (if wp_attempts payload \<ge> MAX_ATTEMPTS then (Delivered, delete_webhook (wp_id payload) s)
      else
        let s = update_webhook (schedule_next_attempt now payload) s;
            result = perform_request answer;
            s = log_delivery (Attempt (wp_id payload) result) s
        in (result, if result = Delivered then delete_webhook (wp_id payload) s else s))"

definition drain_mailbox_start :: "rat \<Rightarrow> nat \<Rightarrow> webhooks \<Rightarrow> worker" where
  "drain_mailbox_start now payload_id s =
     (case find (\<lambda>w. wp_id w = payload_id) (wh_rows s) of
        None \<Rightarrow> Finished
      | Some payload \<Rightarrow> Serial payload_id (wp_mailbox payload) (now + BATCH_SCHEDULE_OFFSET) [])"

definition drain_mailbox_step ::
  "rat \<Rightarrow> region_answer \<Rightarrow> nat \<Rightarrow> string \<Rightarrow> rat \<Rightarrow> webhook list \<Rightarrow> webhooks \<Rightarrow> worker \<times> webhooks" where
  "drain_mailbox_step now answer payload_id mailbox deadline batch s =
     (case batch of
        [] \<Rightarrow>
          if now \<ge> deadline then (Finished, s)
          else
            let batch = take 100 (from_mailbox payload_id mailbox (wh_rows s))
            in if batch = [] then (Finished, s) else (Serial payload_id mailbox deadline batch, s)
      | record # rest \<Rightarrow>
          (case deliver_message now answer record s of
             (Delivered, s) \<Rightarrow> (Serial payload_id mailbox deadline rest, s)
           | (_, s) \<Rightarrow> (Finished, s)))"

section \<open>In parallel: \<open>drain_mailbox_parallel\<close>\<close>

definition expire_webhooks :: "rat \<Rightarrow> webhook \<Rightarrow> webhooks \<Rightarrow> webhooks" where
  "expire_webhooks now payload s =
     (if wp_added payload < now - MAX_DELIVERY_AGE then
        let stale = take 10000 (filter (\<lambda>w. wp_added w \<le> now - MAX_DELIVERY_AGE)
              (from_mailbox (wp_id payload) (wp_mailbox payload) (wh_rows s)))
        in s\<lparr>wh_rows := filter (\<lambda>w. wp_id w \<notin> wp_id ` set stale) (wh_rows s),
             wh_log := wh_log s @ map (\<lambda>w. Expired (wp_id w) (wp_added w) now) stale\<rparr>
      else s)"

definition drain_parallel_start :: "rat \<Rightarrow> nat \<Rightarrow> webhooks \<Rightarrow> worker \<times> webhooks" where
  "drain_parallel_start now payload_id s =
     (case find (\<lambda>w. wp_id w = payload_id) (wh_rows s) of
        None \<Rightarrow> (Finished, s)
      | Some payload \<Rightarrow>
          (Parallel payload_id (wp_mailbox payload) (now + BATCH_SCHEDULE_OFFSET) [] False, expire_webhooks now payload s))"

text \<open>The result of one future: the state and whether the request has failed.\<close>

definition parallel_result :: "rat \<Rightarrow> request_result \<Rightarrow> webhook \<Rightarrow> webhooks \<Rightarrow> webhooks \<times> bool" where
  "parallel_result now result record s =
     (if result \<noteq> Delivered then
        if wp_attempts record \<ge> MAX_ATTEMPTS then (delete_webhook (wp_id record) s, False)
        else (update_webhook (schedule_next_attempt now record) s, True)
      else (delete_webhook (wp_id record) s, False))"

text \<open>
  A step of a parallel worker: the next block of requests, or the result of the future that completes next.
  When a result is an unexpected exception the worker ends, after the requests of the others
  were sent; their answers are not looked at.
\<close>

definition drain_parallel_step ::
  "nat \<Rightarrow> rat \<Rightarrow> region_answer \<Rightarrow> nat \<Rightarrow> (webhook \<Rightarrow> region_answer) \<Rightarrow> nat \<Rightarrow> string \<Rightarrow> rat \<Rightarrow> webhook list \<Rightarrow> bool
     \<Rightarrow> webhooks \<Rightarrow> worker \<times> webhooks" where
  "drain_parallel_step threads now answer k others payload_id mailbox deadline futures failed s =
     (if futures = [] then
        if now \<ge> deadline then (Finished, s)
        else
          let batch = take threads (from_mailbox payload_id mailbox (wh_rows s))
          in if batch = [] then (Finished, s) else (Parallel payload_id mailbox deadline batch False, s)
      else
        let k = k mod length futures; record = futures ! k;
            rest = take k futures @ drop (Suc k) futures;
            result = perform_request answer;
            (s, fails) = parallel_result now result record (log_delivery (Attempt (wp_id record) result) s);
            failed = (failed \<or> fails)
        in if result = Raised
           then (Finished, s\<lparr>wh_log := wh_log s @ map (\<lambda>w. Attempt (wp_id w) (perform_request (others w))) rest\<rparr>)
           else if rest = [] \<and> failed then (Finished, s)
           else (Parallel payload_id mailbox deadline rest failed, s))"

section \<open>Events\<close>

datatype webhook_event =
    Create string string string "nat option" http_request rat
  | ScheduleDelivery rat
  | WorkerStep nat nat rat region_answer nat "webhook \<Rightarrow> region_answer"

definition worker_step ::
  "nat \<Rightarrow> nat \<Rightarrow> rat \<Rightarrow> region_answer \<Rightarrow> nat \<Rightarrow> (webhook \<Rightarrow> region_answer) \<Rightarrow> webhooks \<Rightarrow> webhooks" where
  "worker_step i threads now answer k others s =
     (if i \<ge> length (wh_workers s) then s
      else
        let (w, s) =
          (case wh_workers s ! i of
             SerialQueued p \<Rightarrow> (drain_mailbox_start now p s, s)
           | Serial p m d batch \<Rightarrow> drain_mailbox_step now answer p m d batch s
           | ParallelQueued p \<Rightarrow> drain_parallel_start now p s
           | Parallel p m d futures failed \<Rightarrow> drain_parallel_step threads now answer k others p m d futures failed s
           | Finished \<Rightarrow> (Finished, s))
        in set_worker i w s)"

fun webhook_step :: "webhooks \<Rightarrow> webhook_event \<Rightarrow> webhooks" where
  "webhook_step s (Create region provider identifier integration request now) =
     create_from_request region provider identifier integration request now s"
| "webhook_step s (ScheduleDelivery now) = schedule_webhook_delivery now s"
| "webhook_step s (WorkerStep i threads now answer k others) = worker_step i threads now answer k others s"

definition no_webhooks :: webhooks where
  "no_webhooks = \<lparr>wh_rows = [], wh_next = 0, wh_workers = [], wh_log = []\<rparr>"

section \<open>What every step keeps\<close>

definition attempts_of :: "nat \<Rightarrow> delivery list \<Rightarrow> nat" where
  "attempts_of i ds = length (filter (\<lambda>d. case d of Attempt j _ \<Rightarrow> j = i | Expired _ _ _ \<Rightarrow> False) ds)"

text \<open>A webhook is accounted for if it waits, was accepted, was tried often enough, or was too old.\<close>

definition accounted :: "webhooks \<Rightarrow> nat \<Rightarrow> bool" where
  "accounted s i =
     (i \<in> wp_id ` set (wh_rows s) \<or> Attempt i Delivered \<in> set (wh_log s)
      \<or> MAX_ATTEMPTS \<le> attempts_of i (wh_log s)
      \<or> (\<exists>added now. Expired i added now \<in> set (wh_log s) \<and> added \<le> now - MAX_DELIVERY_AGE))"

definition row_ok :: "webhooks \<Rightarrow> webhook \<Rightarrow> bool" where
  "row_ok s w = (wp_id w < wh_next s \<and> wp_attempts w \<le> attempts_of (wp_id w) (wh_log s))"

definition rows_ok :: "webhooks \<Rightarrow> bool" where
  "rows_ok s = (sorted_wrt (<) (map wp_id (wh_rows s)) \<and> (\<forall>w \<in> set (wh_rows s). row_ok s w)
     \<and> (\<forall>i < wh_next s. accounted s i))"

fun copies :: "worker \<Rightarrow> webhook list" where
  "copies (Serial p m d batch) = batch"
| "copies (Parallel p m d futures failed) = futures"
| "copies _ = []"

text \<open>
  What a serial worker holds is in order and of its mailbox, and every other waiting webhook of the mailbox
  from its start on is younger.
\<close>

fun in_order :: "webhooks \<Rightarrow> worker \<Rightarrow> bool" where
  "in_order s (Serial p m d batch) =
     (sorted_wrt (<) (map wp_id batch) \<and> (\<forall>c \<in> set batch. p \<le> wp_id c \<and> wp_mailbox c = m
           \<and> (\<forall>w \<in> set (wh_rows s). wp_id w = wp_id c \<longrightarrow> wp_mailbox w = m))
      \<and> (\<forall>w \<in> set (wh_rows s). wp_mailbox w = m \<and> p \<le> wp_id w \<longrightarrow>
           wp_id w \<in> wp_id ` set batch \<or> (\<forall>c \<in> set batch. wp_id c < wp_id w)))"
| "in_order s _ = True"

definition worker_ok :: "webhooks \<Rightarrow> worker \<Rightarrow> bool" where
  "worker_ok s k = (list_all (row_ok s) (copies k) \<and> in_order s k)"

definition webhooks_ok :: "webhooks \<Rightarrow> bool" where
  "webhooks_ok s = (rows_ok s \<and> list_all (worker_ok s) (wh_workers s))"

text \<open>How the table and the log may change.\<close>

definition evolves :: "webhooks \<Rightarrow> webhooks \<Rightarrow> bool" where
  "evolves s s' =
     (wh_next s \<le> wh_next s' \<and> (\<exists>l. wh_log s' = wh_log s @ l)
      \<and> (\<forall>w \<in> set (wh_rows s'). wh_next s \<le> wp_id w
           \<or> (\<exists>v \<in> set (wh_rows s). wp_id v = wp_id w \<and> wp_mailbox v = wp_mailbox w)))"

lemma evolves_refl [simp]: "evolves s s"
  by (auto simp: evolves_def)

lemma attempts_of_append [simp]: "attempts_of i (l @ l') = attempts_of i l + attempts_of i l'"
  by (simp add: attempts_of_def)

lemma attempts_of_single [simp]: "attempts_of i [Attempt j r] = (if j = i then 1 else 0)" "attempts_of i [] = 0"
  by (simp_all add: attempts_of_def)

lemma attempts_of_expired [simp]: "attempts_of i (map (\<lambda>w. Expired (f w) (g w) t) ws) = 0"
  by (induction ws) (auto simp: attempts_of_def)

lemma row_ok_evolves: "evolves s s' \<Longrightarrow> row_ok s w \<Longrightarrow> row_ok s' w"
  by (auto simp: evolves_def row_ok_def)

lemma in_order_evolves:
  assumes "evolves s s'" "in_order s k" "list_all (row_ok s) (copies k)"
  shows "in_order s' k"
proof (cases k)
  case (Serial p m d batch)
  have "wp_id w \<in> wp_id ` set batch \<or> (\<forall>c \<in> set batch. wp_id c < wp_id w)"
    if w: "w \<in> set (wh_rows s')" "wp_mailbox w = m" "p \<le> wp_id w" for w
  proof (cases "wh_next s \<le> wp_id w")
    case True
    with assms(3) Serial show ?thesis by (fastforce simp: list_all_iff row_ok_def)
  next
    case False
    with assms(1) w(1) obtain v where v: "v \<in> set (wh_rows s)" "wp_id v = wp_id w" "wp_mailbox v = wp_mailbox w"
      by (auto simp: evolves_def)
    from assms(2) Serial have "\<forall>w \<in> set (wh_rows s). wp_mailbox w = m \<and> p \<le> wp_id w \<longrightarrow>
        wp_id w \<in> wp_id ` set batch \<or> (\<forall>c \<in> set batch. wp_id c < wp_id w)" by simp
    from bspec [OF this v(1)] v w show ?thesis by simp
  qed
  moreover have "wp_mailbox w = m" if c: "c \<in> set batch" and w: "w \<in> set (wh_rows s')" "wp_id w = wp_id c" for c w
  proof -
    have "\<not> wh_next s \<le> wp_id w" using assms(3) Serial c w(2) by (auto simp: list_all_iff row_ok_def)
    with assms(1) w(1) obtain v where v: "v \<in> set (wh_rows s)" "wp_id v = wp_id w" "wp_mailbox v = wp_mailbox w"
      by (auto simp: evolves_def)
    with assms(2) Serial c w(2) show ?thesis by force
  qed
  ultimately show ?thesis using assms(2) Serial by simp
qed simp_all

lemma worker_ok_evolves: "evolves s s' \<Longrightarrow> worker_ok s k \<Longrightarrow> worker_ok s' k"
  using in_order_evolves row_ok_evolves by (fastforce simp: worker_ok_def list_all_iff)

lemma worker_ok_trivial [simp]:
  "worker_ok s Finished" "worker_ok s (SerialQueued p)" "worker_ok s (ParallelQueued p)"
  "worker_ok s (Parallel p m d futures failed) = list_all (row_ok s) futures"
  by (simp_all add: worker_ok_def)

lemma evolves_simps [simp]:
  "wh_rows (set_worker k w s) = wh_rows s" "wh_next (set_worker k w s) = wh_next s" "wh_log (set_worker k w s) = wh_log s"
  "wh_workers (set_worker k w s) = (wh_workers s)[k := w]"
  "wh_next (delete_webhook i s) = wh_next s" "wh_log (delete_webhook i s) = wh_log s"
  "wh_workers (delete_webhook i s) = wh_workers s"
  "wh_rows (delete_webhook i s) = filter (\<lambda>w. wp_id w \<noteq> i) (wh_rows s)"
  "wh_next (update_webhook c s) = wh_next s" "wh_log (update_webhook c s) = wh_log s"
  "wh_workers (update_webhook c s) = wh_workers s"
  "wh_rows (log_delivery d s) = wh_rows s" "wh_next (log_delivery d s) = wh_next s" "wh_log (log_delivery d s) = wh_log s @ [d]"
  "wh_workers (log_delivery d s) = wh_workers s"
  by (simp_all add: set_worker_def delete_webhook_def update_webhook_def log_delivery_def)

lemma schedule_next_attempt_simps [simp]:
  "wp_id (schedule_next_attempt now w) = wp_id w" "wp_attempts (schedule_next_attempt now w) = Suc (wp_attempts w)"
  by (simp_all add: schedule_next_attempt_def Let_def)

section \<open>No webhook is lost\<close>

lemma rows_ok_delete:
  assumes "rows_ok s" "accounted (s\<lparr>wh_rows := []\<rparr>) i"
  shows "rows_ok (delete_webhook i s)"
proof -
  have "sorted_wrt (<) (map wp_id (filter (\<lambda>w. wp_id w \<noteq> i) (wh_rows s)))"
    using assms(1) by (simp add: rows_ok_def sorted_wrt_map sorted_wrt_filter)
  moreover have "accounted (delete_webhook i s) j" if "j < wh_next s" for j
  proof (cases "j = i")
    case True
    with assms(2) show ?thesis by (auto simp: accounted_def)
  next
    case False
    with assms(1) that have "accounted s j" by (simp add: rows_ok_def)
    with False show ?thesis by (auto simp: accounted_def)
  qed
  ultimately show ?thesis using assms(1) by (auto simp: rows_ok_def row_ok_def)
qed

lemma accounted_mono:
  assumes "accounted s i" "wp_id ` set (wh_rows s) \<subseteq> wp_id ` set (wh_rows s')" "wh_log s' = wh_log s @ l"
  shows "accounted s' i"
proof -
  from assms(1) consider "i \<in> wp_id ` set (wh_rows s)" | "Attempt i Delivered \<in> set (wh_log s)"
    | "MAX_ATTEMPTS \<le> attempts_of i (wh_log s)"
    | added now where "Expired i added now \<in> set (wh_log s)" "added \<le> now - MAX_DELIVERY_AGE"
    unfolding accounted_def by blast
  then show ?thesis
  proof cases
    case 1
    with assms(2) show ?thesis unfolding accounted_def by blast
  qed (auto simp: accounted_def assms(3))
qed

lemma rows_ok_attempt:
  assumes "rows_ok s" "row_ok s c"
  shows "rows_ok (log_delivery (Attempt (wp_id c) r) (update_webhook (schedule_next_attempt now c) s))" (is "rows_ok ?s")
    and "rows_ok (log_delivery (Attempt (wp_id c) r) s)"
proof -
  have ids: "map wp_id (wh_rows ?s) = map wp_id (wh_rows s)" by (simp add: update_webhook_def comp_def if_distrib cong: if_cong)
  then have idset: "wp_id ` set (wh_rows ?s) = wp_id ` set (wh_rows s)" by (metis set_map)
  have "row_ok ?s w" if w: "w \<in> set (wh_rows ?s)" for w
  proof -
    from w obtain v where v: "v \<in> set (wh_rows s)" "wp_id w = wp_id v"
      "wp_id v \<noteq> wp_id c \<Longrightarrow> wp_attempts w = wp_attempts v"
      "wp_id v = wp_id c \<Longrightarrow> wp_attempts w = Suc (wp_attempts c)"
      by (auto simp: update_webhook_def split: if_splits)
    with assms(1) have "row_ok s v" by (simp add: rows_ok_def)
    with v assms(2) show ?thesis by (cases "wp_id v = wp_id c") (simp_all add: row_ok_def)
  qed
  moreover have "accounted ?s i" if "i < wh_next s" for i
  proof (rule accounted_mono)
    show "accounted s i" using assms(1) that by (simp add: rows_ok_def)
    show "wp_id ` set (wh_rows s) \<subseteq> wp_id ` set (wh_rows ?s)" by (simp only: idset order_refl)
    show "wh_log ?s = wh_log s @ [Attempt (wp_id c) r]" by simp
  qed
  ultimately show "rows_ok ?s" using assms(1) unfolding rows_ok_def ids by simp
  have "accounted (log_delivery (Attempt (wp_id c) r) s) i" if "i < wh_next s" for i
  proof (rule accounted_mono)
    show "accounted s i" using assms(1) that by (simp add: rows_ok_def)
  qed simp_all
  moreover have "row_ok (log_delivery (Attempt (wp_id c) r) s) w" if "w \<in> set (wh_rows s)" for w
    using assms(1) that by (simp add: rows_ok_def row_ok_def le_SucI)
  ultimately show "rows_ok (log_delivery (Attempt (wp_id c) r) s)" using assms(1) by (simp add: rows_ok_def)
qed

lemma update_evolves: "evolves s (log_delivery d (update_webhook c s))"
proof -
  have "\<exists>v \<in> set (wh_rows s). wp_id v = wp_id w \<and> wp_mailbox v = wp_mailbox w" if "w \<in> set (wh_rows (update_webhook c s))" for w
    using that by (auto simp: update_webhook_def)
  then show ?thesis by (simp add: evolves_def)
qed

lemma evolves_delete: "evolves s s' \<Longrightarrow> evolves s (delete_webhook i s')"
  by (auto simp: evolves_def)

lemma log_update_swap: "log_delivery d (update_webhook c s) = update_webhook c (log_delivery d s)"
  by (simp add: log_delivery_def update_webhook_def)

lemma evolves_log: "evolves s (log_delivery d s)"
  by (auto simp: evolves_def)

lemma deliver_message_ok:
  assumes "rows_ok s" "row_ok s c" "deliver_message now answer c s = (r, s')"
  shows "rows_ok s'" "evolves s s'" "wh_workers s' = wh_workers s"
    "r = Delivered \<Longrightarrow> wp_id c \<notin> wp_id ` set (wh_rows s')"
proof -
  have "accounted (s\<lparr>wh_rows := []\<rparr>) (wp_id c)" if "wp_attempts c \<ge> MAX_ATTEMPTS"
    using that assms(2) by (auto simp: accounted_def row_ok_def)
  moreover have "accounted (log_delivery (Attempt (wp_id c) Delivered) s'\<lparr>wh_rows := []\<rparr>) (wp_id c)" for s'
    by (simp add: accounted_def)
  ultimately show "rows_ok s'"
    using assms rows_ok_delete [OF assms(1)] rows_ok_attempt [OF assms(1,2)]
    by (auto simp: deliver_message_def Let_def split: if_splits intro!: rows_ok_delete)
  show "evolves s s'" using assms(3)
    by (auto simp: deliver_message_def Let_def split: if_splits intro: evolves_delete update_evolves)
  show "wh_workers s' = wh_workers s" "r = Delivered \<Longrightarrow> wp_id c \<notin> wp_id ` set (wh_rows s')"
    using assms(3) by (auto simp: deliver_message_def Let_def split: if_splits)
qed

lemma parallel_result_ok:
  assumes "rows_ok s" "row_ok s c" "parallel_result now r c (log_delivery (Attempt (wp_id c) r) s) = (s', f)"
  shows "rows_ok s'" "evolves s s'" "wh_workers s' = wh_workers s"
proof -
  have "accounted (log_delivery (Attempt (wp_id c) r) s\<lparr>wh_rows := []\<rparr>) (wp_id c)" if "wp_attempts c \<ge> MAX_ATTEMPTS"
    using that assms(2) by (auto simp: accounted_def row_ok_def)
  moreover have "accounted (log_delivery (Attempt (wp_id c) Delivered) s'\<lparr>wh_rows := []\<rparr>) (wp_id c)" for s'
    by (simp add: accounted_def)
  ultimately show "rows_ok s'"
    using assms rows_ok_attempt [OF assms(1,2)]
    by (auto simp: parallel_result_def log_update_swap [symmetric] split: if_splits intro!: rows_ok_delete)
  show "evolves s s'" using assms(3)
    by (auto simp: parallel_result_def log_update_swap [symmetric] split: if_splits
        intro: evolves_delete evolves_log update_evolves)
  show "wh_workers s' = wh_workers s" using assms(3) by (auto simp: parallel_result_def split: if_splits)
qed

lemma expire_ok:
  assumes "rows_ok s"
  shows "rows_ok (expire_webhooks now payload s)" "evolves s (expire_webhooks now payload s)"
    "wh_workers (expire_webhooks now payload s) = wh_workers s"
proof -
  let ?s = "expire_webhooks now payload s"
  define stale where "stale = take 10000 (filter (\<lambda>w. wp_added w \<le> now - MAX_DELIVERY_AGE)
              (from_mailbox (wp_id payload) (wp_mailbox payload) (wh_rows s)))"
  have st: "wp_added w \<le> now - MAX_DELIVERY_AGE" if "w \<in> set stale" for w
    using that by (auto simp: stale_def dest: in_set_takeD)
  consider "?s = s" | "?s = s\<lparr>wh_rows := filter (\<lambda>w. wp_id w \<notin> wp_id ` set stale) (wh_rows s),
             wh_log := wh_log s @ map (\<lambda>w. Expired (wp_id w) (wp_added w) now) stale\<rparr>"
    by (cases "wp_added payload < now - MAX_DELIVERY_AGE", rule that(2), simp add: expire_webhooks_def stale_def Let_def,
        rule that(1), simp add: expire_webhooks_def)
  then have "rows_ok ?s \<and> evolves s ?s \<and> wh_workers ?s = wh_workers s"
  proof cases
    case 2
    have "accounted ?s i" if "i < wh_next s" for i
    proof (cases "i \<in> wp_id ` set stale")
      case True
      then obtain w where w: "w \<in> set stale" "i = wp_id w" by blast
      then have "Expired i (wp_added w) now \<in> set (wh_log ?s)" by (simp add: 2)
      with st [OF w(1)] show ?thesis unfolding accounted_def by blast
    next
      case False
      from assms that have "accounted s i" by (simp add: rows_ok_def)
      then consider "i \<in> wp_id ` set (wh_rows s)" | "accounted (s\<lparr>wh_rows := []\<rparr>) i" by (auto simp: accounted_def)
      then show ?thesis
      proof cases
        case 1 with False show ?thesis by (auto simp: 2 accounted_def)
      next
        case h: 2
        show ?thesis by (rule accounted_mono [OF h]) (simp_all add: 2)
      qed
    qed
    moreover have "sorted_wrt (<) (map wp_id (wh_rows ?s))"
      using assms by (simp add: 2 rows_ok_def sorted_wrt_map sorted_wrt_filter)
    ultimately show ?thesis using assms by (auto simp: 2 rows_ok_def row_ok_def evolves_def)
  qed (use assms in simp)
  then show "rows_ok ?s" "evolves s ?s" "wh_workers ?s = wh_workers s" by simp_all
qed

lemma create_ok:
  assumes "rows_ok s"
  shows "rows_ok (create_from_request region provider identifier integration request now s)"
    and "evolves s (create_from_request region provider identifier integration request now s)"
    and "wh_workers (create_from_request region provider identifier integration request now s) = wh_workers s"
proof -
  let ?s = "create_from_request region provider identifier integration request now s"
  have "accounted ?s i" if "i < wh_next ?s" for i
  proof (cases "i = wh_next s")
    case True then show ?thesis by (simp add: accounted_def create_from_request_def)
  next
    case False
    with that assms have "accounted s i" by (simp add: rows_ok_def create_from_request_def)
    then show ?thesis by (rule accounted_mono) (auto simp: create_from_request_def)
  qed
  then show "rows_ok ?s"
    using assms by (auto simp: rows_ok_def row_ok_def create_from_request_def sorted_wrt_append)
  show "evolves s ?s" by (auto simp: evolves_def create_from_request_def)
  show "wh_workers ?s = wh_workers s" by (simp add: create_from_request_def)
qed

lemma schedule_mailbox_ok:
  assumes "rows_ok s"
  shows "rows_ok (schedule_mailbox now w s)" "evolves s (schedule_mailbox now w s)"
    "\<exists>k \<in> {ParallelQueued (wp_id w), SerialQueued (wp_id w)}. wh_workers (schedule_mailbox now w s) = wh_workers s @ [k]"
proof -
  let ?s = "schedule_mailbox now w s"
  obtain f where f: "wh_rows ?s = map f (wh_rows s)" "\<And>v. wp_id (f v) = wp_id v" "\<And>v. wp_mailbox (f v) = wp_mailbox v"
    "\<And>v. wp_attempts (f v) = wp_attempts v"
    by (rule that [of "\<lambda>v. if wp_id v \<in> set (map wp_id (take MAX_MAILBOX_DRAIN (from_mailbox (wp_id w) (wp_mailbox w) (wh_rows s))))
          then v\<lparr>wp_schedule := now + BATCH_SCHEDULE_OFFSET\<rparr> else v"])
      (simp_all add: schedule_mailbox_def Let_def)
  have r: "wh_next ?s = wh_next s" "wh_log ?s = wh_log s" by (simp_all add: schedule_mailbox_def Let_def)
  have ids: "map wp_id (wh_rows ?s) = map wp_id (wh_rows s)" by (simp add: f comp_def)
  have "accounted ?s i" if "i < wh_next s" for i
  proof (rule accounted_mono)
    show "accounted s i" using assms that by (simp add: rows_ok_def)
    show "wp_id ` set (wh_rows s) \<subseteq> wp_id ` set (wh_rows ?s)" by (simp add: f image_image)
    show "wh_log ?s = wh_log s @ []" by (simp add: r)
  qed
  moreover have "row_ok ?s v" if "v \<in> set (wh_rows ?s)" for v
    using assms that by (auto simp: f r rows_ok_def row_ok_def)
  ultimately show "rows_ok ?s" using assms by (simp add: rows_ok_def ids r)
  show "evolves s ?s" by (auto simp: evolves_def r f)
  show "\<exists>k \<in> {ParallelQueued (wp_id w), SerialQueued (wp_id w)}. wh_workers ?s = wh_workers s @ [k]"
    by (simp add: schedule_mailbox_def Let_def)
qed

lemma list_all_evolves: "evolves s s' \<Longrightarrow> list_all (worker_ok s) ws \<Longrightarrow> list_all (worker_ok s') ws"
  using worker_ok_evolves by (auto simp: list_all_iff)

lemma schedule_ok:
  assumes "webhooks_ok s"
  shows "webhooks_ok (schedule_webhook_delivery now s)"
proof -
  have "webhooks_ok (foldl (\<lambda>s w. schedule_mailbox now w s) s ws)" if "webhooks_ok s" for ws
    using that
  proof (induction ws arbitrary: s)
    case (Cons w ws)
    then have ok: "rows_ok s" by (simp add: webhooks_ok_def)
    obtain k where k: "k \<in> {ParallelQueued (wp_id w), SerialQueued (wp_id w)}"
      "wh_workers (schedule_mailbox now w s) = wh_workers s @ [k]"
      using schedule_mailbox_ok(3) [OF ok] by blast
    have "list_all (worker_ok (schedule_mailbox now w s)) (wh_workers s)"
      using Cons.prems by (intro list_all_evolves [OF schedule_mailbox_ok(2) [OF ok]]) (simp add: webhooks_ok_def)
    moreover have "worker_ok (schedule_mailbox now w s) k" using k(1) by auto
    ultimately have "webhooks_ok (schedule_mailbox now w s)"
      using schedule_mailbox_ok(1) [OF ok] by (simp add: webhooks_ok_def k(2))
    then show ?case using Cons.IH by simp
  qed simp
  then show "webhooks_ok (schedule_webhook_delivery now s)" using assms by (simp only: schedule_webhook_delivery_def)
qed

lemma from_mailbox_set: "w \<in> set (from_mailbox i m rows) \<longleftrightarrow> w \<in> set rows \<and> i \<le> wp_id w \<and> wp_mailbox w = m"
  by (auto simp: from_mailbox_def)

lemma from_mailbox_sorted: "sorted_wrt (<) (map wp_id rows) \<Longrightarrow> sorted_wrt (<) (map wp_id (from_mailbox i m rows))"
  by (simp add: from_mailbox_def sorted_wrt_map sorted_wrt_filter)

lemma sorted_take_rest:
  assumes "sorted_wrt (<) (map f xs)" "x \<in> set xs"
  shows "f x \<in> f ` set (take n xs) \<or> (\<forall>y \<in> set (take n xs). f y < (f x :: nat))"
proof -
  have "sorted_wrt (<) (map f (take n xs @ drop n xs))" using assms(1) by simp
  then have "\<forall>y \<in> set (take n xs). \<forall>z \<in> set (drop n xs). f y < f z" by (simp add: sorted_wrt_append del: append_take_drop_id)
  moreover have "x \<in> set (take n xs) \<or> x \<in> set (drop n xs)" using assms(2) by (metis append_take_drop_id Un_iff set_append)
  ultimately show ?thesis by auto
qed


lemma next_batch_ok:
  assumes "rows_ok s"
  shows "worker_ok s (Serial p m d (take n (from_mailbox p m (wh_rows s))))"
    "list_all (row_ok s) (take n (from_mailbox p m (wh_rows s)))"
proof -
  let ?b = "from_mailbox p m (wh_rows s)"
  have s: "sorted_wrt (<) (map wp_id ?b)" using assms by (simp add: rows_ok_def from_mailbox_sorted)
  have mem: "w \<in> set (wh_rows s) \<and> p \<le> wp_id w \<and> wp_mailbox w = m" if "w \<in> set (take n ?b)" for w
    using in_set_takeD [OF that] by (simp add: from_mailbox_set)
  then show r: "list_all (row_ok s) (take n ?b)"
    using assms unfolding list_all_iff rows_ok_def by blast
  have "sorted_wrt (<) (map wp_id (take n ?b))" using s by (simp only: take_map [symmetric] sorted_wrt_take)
  moreover have "wp_mailbox w = m" if "c \<in> set (take n ?b)" "w \<in> set (wh_rows s)" "wp_id w = wp_id c" for c w
  proof -
    have "distinct (map wp_id (wh_rows s))" using assms by (auto simp: rows_ok_def strict_sorted_iff)
    then have "w = c" using mem [OF that(1)] that(2,3) by (auto simp: distinct_map dest: inj_onD)
    with mem [OF that(1)] show ?thesis by simp
  qed
  then have "\<forall>c \<in> set (take n ?b). p \<le> wp_id c \<and> wp_mailbox c = m
      \<and> (\<forall>w \<in> set (wh_rows s). wp_id w = wp_id c \<longrightarrow> wp_mailbox w = m)" using mem by blast
  moreover have "wp_id w \<in> wp_id ` set (take n ?b) \<or> (\<forall>c \<in> set (take n ?b). wp_id c < wp_id w)"
    if "w \<in> set (wh_rows s)" "wp_mailbox w = m" "p \<le> wp_id w" for w
    by (rule sorted_take_rest [OF s]) (simp add: from_mailbox_set that)
  ultimately show "worker_ok s (Serial p m d (take n ?b))"
    unfolding worker_ok_def copies.simps in_order.simps using r by blast
qed

lemma in_order_rest:
  assumes "worker_ok s (Serial p m d (c # rest))" "wp_id c \<notin> wp_id ` set (wh_rows s)"
  shows "worker_ok s (Serial p m d rest)"
proof -
  have "wp_id w \<in> wp_id ` set rest \<or> (\<forall>c \<in> set rest. wp_id c < wp_id w)"
    if w: "w \<in> set (wh_rows s)" "wp_mailbox w = m" "p \<le> wp_id w" for w
  proof -
    have "wp_id w \<noteq> wp_id c" using assms(2) w(1) by (metis imageI)
    moreover have "wp_id w \<in> wp_id ` set (c # rest) \<or> (\<forall>c \<in> set (c # rest). wp_id c < wp_id w)"
      using assms(1) w unfolding worker_ok_def in_order.simps by blast
    ultimately show ?thesis by auto
  qed
  with assms(1) show ?thesis by (simp add: worker_ok_def)
qed

definition step_ok :: "webhooks \<Rightarrow> worker \<times> webhooks \<Rightarrow> bool" where
  "step_ok s r = (rows_ok (snd r) \<and> evolves s (snd r) \<and> wh_workers (snd r) = wh_workers s \<and> worker_ok (snd r) (fst r))"

lemma start_ok: "rows_ok s \<Longrightarrow> step_ok s (drain_mailbox_start now p s, s)"
  by (simp add: step_ok_def drain_mailbox_start_def worker_ok_def split: option.split)

lemma drain_mailbox_step_ok:
  assumes "rows_ok s" "worker_ok s (Serial p m d batch)"
  shows "step_ok s (drain_mailbox_step now answer p m d batch s)"
proof (cases batch)
  case Nil
  with assms show ?thesis by (simp add: step_ok_def drain_mailbox_step_def Let_def next_batch_ok)
next
  case (Cons c rest)
  obtain r s' where r: "deliver_message now answer c s = (r, s')" by (metis surj_pair)
  have "row_ok s c" using assms(2) by (simp add: Cons worker_ok_def)
  note d = deliver_message_ok [OF assms(1) this r]
  show ?thesis
  proof (cases "r = Delivered")
    case True
    have "worker_ok s' (Serial p m d rest)"
      by (rule in_order_rest [OF worker_ok_evolves [OF d(2) assms(2) [unfolded Cons]] d(4) [OF True]])
    with True d show ?thesis by (simp add: step_ok_def drain_mailbox_step_def Cons r)
  next
    case False
    with d show ?thesis by (simp add: step_ok_def drain_mailbox_step_def Cons r split: request_result.split)
  qed
qed

lemma parallel_start_ok:
  assumes "rows_ok s"
  shows "step_ok s (drain_parallel_start now p s)"
  using expire_ok [OF assms] assms by (simp add: step_ok_def drain_parallel_start_def worker_ok_def split: option.split)

lemma evolves_trans: "evolves s t \<Longrightarrow> evolves t u \<Longrightarrow> evolves s u"
proof -
  assume a: "evolves s t" "evolves t u"
  obtain l where l: "wh_log t = wh_log s @ l" using a(1) by (auto simp: evolves_def)
  obtain l' where l': "wh_log u = wh_log t @ l'" using a(2) by (auto simp: evolves_def)
  have "wh_next s \<le> wp_id w \<or> (\<exists>v \<in> set (wh_rows s). wp_id v = wp_id w \<and> wp_mailbox v = wp_mailbox w)"
    if w: "w \<in> set (wh_rows u)" for w
  proof -
    consider "wh_next t \<le> wp_id w" | v where "v \<in> set (wh_rows t)" "wp_id v = wp_id w" "wp_mailbox v = wp_mailbox w"
      using a(2) w unfolding evolves_def by blast
    then show ?thesis
    proof cases
      case 1
      moreover have "wh_next s \<le> wh_next t" using a(1) by (simp add: evolves_def)
      ultimately show ?thesis by simp
    next
      case (2 v)
      with a(1) show ?thesis unfolding evolves_def by metis
    qed
  qed
  moreover have "wh_next s \<le> wh_next u" using a by (simp add: evolves_def)
  ultimately show ?thesis using l l' by (simp add: evolves_def)
qed

lemma rows_ok_log:
  assumes "rows_ok s" "s' = s\<lparr>wh_log := wh_log s @ l\<rparr>"
  shows "rows_ok s'" "evolves s s'"
proof -
  have "accounted s' i" if "i < wh_next s" for i
    by (rule accounted_mono [of s _ s' l]) (use assms that in \<open>simp_all add: rows_ok_def\<close>)
  then show "rows_ok s'" using assms by (auto simp: rows_ok_def row_ok_def trans_le_add1)
  show "evolves s s'" using assms by (auto simp: evolves_def)
qed

lemma parallel_step_ok:
  assumes "rows_ok s" "list_all (row_ok s) futures"
  shows "step_ok s (drain_parallel_step threads now answer k others p m d futures failed s)"
proof (cases "futures = []")
  case True
  with assms show ?thesis by (simp add: step_ok_def drain_parallel_step_def Let_def next_batch_ok)
next
  case False
  define j where "j = k mod length futures"
  define c where "c = futures ! j"
  define rest where "rest = take j futures @ drop (Suc j) futures"
  define r where "r = perform_request answer"
  obtain s' fails where p: "parallel_result now r c (log_delivery (Attempt (wp_id c) r) s) = (s', fails)" by (metis surj_pair)
  have j: "j < length futures" using False by (simp add: j_def)
  have "row_ok s c" using assms(2) j by (simp add: c_def list_all_length)
  note ok = parallel_result_ok [OF assms(1) this p]
  have "set rest \<subseteq> set futures" unfolding rest_def by (simp add: set_take_subset set_drop_subset)
  then have rest: "list_all (row_ok s') rest"
    using assms(2) row_ok_evolves [OF ok(2)] unfolding list_all_iff by blast
  let ?e = "s'\<lparr>wh_log := wh_log s' @ map (\<lambda>w. Attempt (wp_id w) (perform_request (others w))) rest\<rparr>"
  have e: "rows_ok ?e" "evolves s' ?e" by (rule rows_ok_log [OF ok(1) refl])+
  have step: "drain_parallel_step threads now answer k others p m d futures failed s =
     (if r = Raised then (Finished, ?e)
      else if rest = [] \<and> (failed \<or> fails) then (Finished, s')
      else (Parallel p m d rest (failed \<or> fails), s'))"
    by (simp only: drain_parallel_step_def Let_def False if_False j_def [symmetric] c_def [symmetric] rest_def [symmetric]
        r_def [symmetric] p prod.case)
  show ?thesis unfolding step step_ok_def
    using ok rest e evolves_trans [OF ok(2) e(2)] by simp
qed

lemma worker_step_ok:
  assumes "webhooks_ok s"
  shows "webhooks_ok (worker_step i threads now answer k others s)"
proof (cases "i < length (wh_workers s)")
  case True
  let ?r = "case wh_workers s ! i of
             SerialQueued p \<Rightarrow> (drain_mailbox_start now p s, s)
           | Serial p m d batch \<Rightarrow> drain_mailbox_step now answer p m d batch s
           | ParallelQueued p \<Rightarrow> drain_parallel_start now p s
           | Parallel p m d futures failed \<Rightarrow> drain_parallel_step threads now answer k others p m d futures failed s
           | Finished \<Rightarrow> (Finished, s)"
  have ok: "rows_ok s" "list_all (worker_ok s) (wh_workers s)" using assms by (simp_all add: webhooks_ok_def)
  then have w: "worker_ok s (wh_workers s ! i)" using True by (simp add: list_all_length)
  have r: "step_ok s ?r"
  proof (cases "wh_workers s ! i")
    case (SerialQueued p) then show ?thesis by (simp add: start_ok ok)
  next
    case (Serial p m d batch) with w ok show ?thesis by (simp add: drain_mailbox_step_ok)
  next
    case (ParallelQueued p) then show ?thesis by (simp add: parallel_start_ok ok)
  next
    case (Parallel p m d futures failed) with w ok show ?thesis by (simp add: parallel_step_ok)
  next
    case Finished with ok show ?thesis by (simp add: step_ok_def)
  qed
  obtain w' s' where s': "?r = (w', s')" by (metis surj_pair)
  have e: "worker_step i threads now answer k others s = set_worker i w' s'"
    unfolding worker_step_def s' using True by simp
  from r s' have h: "rows_ok s'" "evolves s s'" "wh_workers s' = wh_workers s" "worker_ok s' w'" by (simp_all add: step_ok_def)
  have all: "list_all (worker_ok s') (wh_workers s)" by (rule list_all_evolves [OF h(2) ok(2)])
  have ev: "evolves s' (set_worker i w' s')" by (simp add: evolves_def) blast
  have "list_all (worker_ok s') ((wh_workers s)[i := w'])"
    using all h(4) True by (simp add: list_all_length nth_list_update)
  then have "list_all (worker_ok (set_worker i w' s')) ((wh_workers s)[i := w'])" by (rule list_all_evolves [OF ev])
  moreover have "rows_ok (set_worker i w' s')"
    using h(1) by (simp add: rows_ok_def row_ok_def accounted_def)
  ultimately show ?thesis by (simp add: e webhooks_ok_def h(3))
qed (use assms in \<open>simp add: worker_step_def\<close>)

lemma webhook_step_ok: "webhooks_ok s \<Longrightarrow> webhooks_ok (webhook_step s e)"
proof (cases e)
  case (Create region provider ident integration req now)
  assume ok: "webhooks_ok s"
  then have r: "rows_ok s" by (simp add: webhooks_ok_def)
  note c = create_ok [OF r, of region provider ident integration req now]
  with list_all_evolves [OF c(2), of "wh_workers s"] ok show ?thesis by (simp add: Create webhooks_ok_def)
qed (simp_all add: schedule_ok worker_step_ok)

lemma no_webhooks_ok: "webhooks_ok no_webhooks"
  by (simp add: webhooks_ok_def rows_ok_def no_webhooks_def)

interpretation webhook_runs: step_machine webhook_step webhooks_ok
  by unfold_locales (rule webhook_step_ok)

abbreviation webhook_run :: "webhook_event list \<Rightarrow> webhooks" where
  "webhook_run es \<equiv> foldl webhook_step no_webhooks es"

lemma webhook_run_ok: "webhooks_ok (webhook_run es)"
  by (rule webhook_runs.run_inv [OF no_webhooks_ok])

section \<open>A mailbox without failures\<close>

lemma from_mailbox_ids:
  assumes "map wp_id rows = map wp_id rows'" "map wp_mailbox rows = map wp_mailbox rows'"
  shows "map wp_id (from_mailbox p m rows) = map wp_id (from_mailbox p m rows')"
  using assms
proof (induction rows arbitrary: rows')
  case (Cons r rows)
  then obtain r' rest where "rows' = r' # rest" by (cases rows') auto
  with Cons show ?case by (auto simp: from_mailbox_def)
qed (simp add: from_mailbox_def)

lemma from_mailbox_update:
  "map wp_id (from_mailbox p m (wh_rows (update_webhook c s))) = map wp_id (from_mailbox p m (wh_rows s))"
  by (rule from_mailbox_ids) (simp_all add: update_webhook_def)

lemma from_mailbox_delete:
  "map wp_id (from_mailbox p m (wh_rows (delete_webhook i s))) = filter (\<lambda>j. j \<noteq> i) (map wp_id (from_mailbox p m (wh_rows s)))"
  by (simp add: from_mailbox_def filter_map comp_def conj_commute)

lemma deliver_message_accepted:
  assumes "perform_request a = Delivered"
  obtains s' where "deliver_message now a c s = (Delivered, s')" "wh_workers s' = wh_workers s"
    "map wp_id (from_mailbox p m (wh_rows s')) = filter (\<lambda>j. j \<noteq> wp_id c) (map wp_id (from_mailbox p m (wh_rows s)))"
proof (cases "wp_attempts c \<ge> MAX_ATTEMPTS")
  case True
  then show thesis by (intro that [of "delete_webhook (wp_id c) s"]) (simp_all add: deliver_message_def from_mailbox_delete del: evolves_simps(8))
next
  case False
  let ?s = "delete_webhook (wp_id c) (log_delivery (Attempt (wp_id c) Delivered) (update_webhook (schedule_next_attempt now c) s))"
  have "map wp_id (from_mailbox p m (wh_rows ?s)) = filter (\<lambda>j. j \<noteq> wp_id c) (map wp_id (from_mailbox p m (wh_rows s)))"
    by (simp add: from_mailbox_delete from_mailbox_update del: evolves_simps(8))
  then show thesis using False assms by (intro that [of ?s]) (simp_all add: deliver_message_def Let_def del: evolves_simps(8))
qed

text \<open>How many steps a worker that is alone may still need.\<close>

definition drain_measure :: "nat \<Rightarrow> string \<Rightarrow> webhook list \<Rightarrow> webhooks \<Rightarrow> nat" where
  "drain_measure p m batch s =
     length batch + 2 * length (filter (\<lambda>j. j \<notin> wp_id ` set batch) (map wp_id (from_mailbox p m (wh_rows s)))) + 1"

lemma filter_drop_take: "distinct (xs :: nat list) \<Longrightarrow> filter (\<lambda>j. j \<notin> set (take n xs)) xs = drop n xs"
proof (induction xs arbitrary: n)
  case (Cons x xs)
  show ?case
  proof (cases n)
    case (Suc k)
    have "filter (\<lambda>j. j \<notin> set (take n (x # xs))) (x # xs) = filter (\<lambda>j. j \<notin> set (take k xs)) xs"
      using Cons.prems by (auto simp: Suc intro: filter_cong)
    with Cons show ?thesis by (simp add: Suc)
  qed simp
qed simp

lemma drain_step_progress:
  assumes "rows_ok s" "t < d" "perform_request a = Delivered"
  shows "(from_mailbox p m (wh_rows s) = [] \<and> drain_mailbox_step t a p m d batch s = (Finished, s))
    \<or> (\<exists>batch' s'. drain_mailbox_step t a p m d batch s = (Serial p m d batch', s')
         \<and> drain_measure p m batch' s' < drain_measure p m batch s)"
proof (cases batch)
  case (Cons c rest)
  obtain s' where s': "deliver_message t a c s = (Delivered, s')"
    "map wp_id (from_mailbox p m (wh_rows s')) = filter (\<lambda>j. j \<noteq> wp_id c) (map wp_id (from_mailbox p m (wh_rows s)))"
    using deliver_message_accepted [OF assms(3), of t c s p m] by metis
  have "filter (\<lambda>j. j \<notin> wp_id ` set rest) (map wp_id (from_mailbox p m (wh_rows s')))
      = filter (\<lambda>j. j \<notin> wp_id ` set batch) (map wp_id (from_mailbox p m (wh_rows s)))"
    unfolding s'(2) filter_filter by (rule filter_cong) (auto simp: Cons)
  then have "drain_measure p m rest s' < drain_measure p m batch s" by (simp add: drain_measure_def Cons)
  with s' show ?thesis by (simp add: drain_mailbox_step_def Cons)
next
  case Nil
  let ?ids = "map wp_id (from_mailbox p m (wh_rows s))"
  show ?thesis
  proof (cases "from_mailbox p m (wh_rows s)")
    case Nil
    with \<open>batch = []\<close> assms show ?thesis by (simp add: drain_mailbox_step_def)
  next
    case c: (Cons w ws)
    have "distinct ?ids" using assms(1) from_mailbox_sorted [of "wh_rows s" p m]
      by (simp add: rows_ok_def strict_sorted_iff)
    then have "filter (\<lambda>j. j \<notin> set (take 100 ?ids)) ?ids = drop 100 ?ids" by (rule filter_drop_take)
    then have "drain_measure p m (take 100 (from_mailbox p m (wh_rows s))) s
        = min (length ?ids) 100 + 2 * (length ?ids - 100) + 1"
      by (simp only: drain_measure_def set_map [symmetric] take_map [symmetric] length_drop length_take length_map)
    moreover have "drain_measure p m batch s = 2 * length ?ids + 1" by (simp add: drain_measure_def Nil)
    moreover have "0 < length ?ids" by (simp add: c)
    ultimately have "drain_measure p m (take 100 (from_mailbox p m (wh_rows s))) s < drain_measure p m batch s"
      by (simp only:)
    with Nil c assms(2) show ?thesis by (simp add: drain_mailbox_step_def Let_def)
  qed
qed

lemma set_worker_twice: "set_worker i w (set_worker i v s) = set_worker i w s"
  by (simp add: set_worker_def)

lemma drain_measure_set_worker [simp]: "drain_measure p m batch (set_worker i w s) = drain_measure p m batch s"
  by (simp add: drain_measure_def)

lemma finished_stays:
  assumes "i < length (wh_workers s)" "wh_workers s ! i = Finished"
  shows "foldl webhook_step s (map (\<lambda>(t, a). WorkerStep i 0 t a 0 others) steps) = s"
  using assms
  by (induction steps) (auto simp: worker_step_def set_worker_def list_update_id [of "wh_workers s" i, unfolded assms(2)])

lemma drain_finishes:
  assumes "webhooks_ok s" "i < length (wh_workers s)" "wh_workers s ! i = Serial p m d batch"
    "\<forall>(t, a) \<in> set steps. t < d \<and> perform_request a = Delivered" "drain_measure p m batch s \<le> length steps"
  shows "let s' = foldl webhook_step s (map (\<lambda>(t, a). WorkerStep i 0 t a 0 others) steps)
         in wh_workers s' ! i = Finished \<and> from_mailbox p m (wh_rows s') = []"
  using assms
proof (induction steps arbitrary: s batch)
  case Nil
  then show ?case by (simp add: drain_measure_def)
next
  case (Cons x steps)
  obtain t a where x: "x = (t, a)" by fastforce
  let ?w = "WorkerStep i 0 t a 0 others"
  have ok: "webhooks_ok (webhook_step s ?w)" by (rule webhook_step_ok [OF Cons.prems(1)])
  have r: "rows_ok s" using Cons.prems(1) by (simp add: webhooks_ok_def)
  have ta: "t < d" "perform_request a = Delivered" using Cons.prems(4) by (auto simp: x)
  consider "from_mailbox p m (wh_rows s) = []" "drain_mailbox_step t a p m d batch s = (Finished, s)"
    | batch' s' where "drain_mailbox_step t a p m d batch s = (Serial p m d batch', s')"
        "drain_measure p m batch' s' < drain_measure p m batch s"
    using drain_step_progress [OF r ta] by blast
  then show ?case
  proof cases
    case 1
    then have e: "webhook_step s ?w = set_worker i Finished s" using Cons.prems(2,3) by (simp add: worker_step_def)
    have f: "foldl webhook_step (set_worker i Finished s) (map (\<lambda>(t, a). WorkerStep i 0 t a 0 others) steps)
        = set_worker i Finished s"
      by (rule finished_stays) (use Cons.prems(2) in simp_all)
    show ?thesis unfolding list.map x prod.case foldl_Cons e f Let_def using 1 Cons.prems(2) by simp
  next
    case (2 batch' s')
    have e: "webhook_step s ?w = set_worker i (Serial p m d batch') s'"
      using 2 Cons.prems(2,3) by (simp add: worker_step_def)
    have w: "worker_ok s (Serial p m d batch)"
      using Cons.prems(1-3) by (auto simp: webhooks_ok_def list_all_length)
    have l: "length (wh_workers s') = length (wh_workers s)"
      using drain_mailbox_step_ok [OF r w, of t a] 2 by (simp add: step_ok_def)
    show ?thesis unfolding list.map x prod.case foldl_Cons e
      by (rule Cons.IH [where batch = batch'])
        (use ok[unfolded e] l 2(2) Cons.prems in \<open>auto simp: x\<close>)
  qed
qed

text \<open>
  A worker that starts on a mailbox, with every request accepted and no other step in between, empties
  it from its webhook on before its deadline, whatever the number of webhooks and of attempts before;
  twice the number of webhooks and two more steps are enough.
\<close>

theorem quiet_mailbox_emptied:
  assumes "i < length (wh_workers (webhook_run es))" "wh_workers (webhook_run es) ! i = SerialQueued p"
    and "find (\<lambda>w. wp_id w = p) (wh_rows (webhook_run es)) = Some payload"
    and "\<forall>(t, a) \<in> set steps. t < t0 + BATCH_SCHEDULE_OFFSET \<and> perform_request a = Delivered"
    and "2 * length (from_mailbox p (wp_mailbox payload) (wh_rows (webhook_run es))) < length steps"
  shows "let s' = foldl webhook_step (webhook_run es)
                    (WorkerStep i 0 t0 AnswerOk 0 others # map (\<lambda>(t, a). WorkerStep i 0 t a 0 others) steps)
         in wh_workers s' ! i = Finished \<and> from_mailbox p (wp_mailbox payload) (wh_rows s') = []"
proof -
  let ?s = "webhook_run es" and ?d = "t0 + BATCH_SCHEDULE_OFFSET" and ?m = "wp_mailbox payload"
  let ?s1 = "set_worker i (Serial p ?m ?d []) ?s"
  have e: "webhook_step ?s (WorkerStep i 0 t0 AnswerOk 0 others) = ?s1"
    using assms(1-3) by (simp add: worker_step_def drain_mailbox_start_def)
  then have "webhooks_ok ?s1" using webhook_step_ok [OF webhook_run_ok, of es] by metis
  moreover have "drain_measure p ?m [] ?s1 \<le> length steps" using assms(5) by (simp add: drain_measure_def)
  ultimately show ?thesis unfolding foldl_Cons e
    using assms(1,4) by (intro drain_finishes [where d = ?d and batch = "[]"]) simp_all
qed

section \<open>No webhook is lost\<close>

text \<open>
  C5. However deliveries, schedules and workers interleave, a webhook that was created still waits, was
  accepted (or answered with a status that is not retried), was tried ten times, or had waited for three days.
\<close>

theorem no_webhook_lost:
  assumes "i < wh_next (webhook_run es)"
  shows "i \<in> wp_id ` set (wh_rows (webhook_run es))
    \<or> Attempt i Delivered \<in> set (wh_log (webhook_run es))
    \<or> 10 \<le> attempts_of i (wh_log (webhook_run es))
    \<or> (\<exists>added now. Expired i added now \<in> set (wh_log (webhook_run es)) \<and> now - added \<ge> 3 * 24 * 60 * 60)"
proof -
  have "accounted (webhook_run es) i" using webhook_run_ok [of es] assms by (simp add: webhooks_ok_def rows_ok_def)
  then consider "i \<in> wp_id ` set (wh_rows (webhook_run es))" | "Attempt i Delivered \<in> set (wh_log (webhook_run es))"
    | "10 \<le> attempts_of i (wh_log (webhook_run es))"
    | added now where "Expired i added now \<in> set (wh_log (webhook_run es))" "added \<le> now - MAX_DELIVERY_AGE"
    unfolding accounted_def MAX_ATTEMPTS_def by blast
  then show ?thesis
  proof cases
    case (4 added now)
    then have "now - added \<ge> 3 * 24 * 60 * 60" by (simp add: MAX_DELIVERY_AGE_def)
    with 4(1) show ?thesis by blast
  qed simp_all
qed

text \<open>
  C26. A worker that delivers one by one never overtakes. The next webhook it sends, from its copy, is no younger
  than any that waits in its mailbox from its start on, whatever other workers have deleted or created meanwhile: either
  it is the oldest that waits, or an overlapping worker has dealt with it in between (it was accepted, tried ten
  times, or expired after three days) and all that wait are younger.
\<close>

theorem serial_worker_in_order:
  assumes "Serial p m d (c # rest) \<in> set (wh_workers (webhook_run es))"
  shows "wp_mailbox c = m \<and> p \<le> wp_id c \<and>
    (let waiting = map wp_id (from_mailbox p m (wh_rows (webhook_run es))); i = wp_id c in
       waiting \<noteq> [] \<and> hd waiting = i \<or>
       (\<forall>j \<in> set waiting. i < j) \<and>
       (Attempt i Delivered \<in> set (wh_log (webhook_run es))
        \<or> 10 \<le> attempts_of i (wh_log (webhook_run es))
        \<or> (\<exists>added now. Expired i added now \<in> set (wh_log (webhook_run es)) \<and> now - added \<ge> 3 * 24 * 60 * 60)))"
proof -
  let ?s = "webhook_run es"
  let ?waiting = "map wp_id (from_mailbox p m (wh_rows ?s))"
  have "worker_ok ?s (Serial p m d (c # rest))" and ok: "rows_ok ?s"
    using webhook_run_ok [of es] assms by (auto simp: webhooks_ok_def list_all_iff)
  then have s: "\<forall>x \<in> set rest. wp_id c < wp_id x" and c: "p \<le> wp_id c" "wp_mailbox c = m" "row_ok ?s c"
    and box: "\<forall>w \<in> set (wh_rows ?s). wp_id w = wp_id c \<longrightarrow> wp_mailbox w = m"
    and o': "\<forall>w \<in> set (wh_rows ?s). wp_mailbox w = m \<and> p \<le> wp_id w \<longrightarrow>
           wp_id w \<in> wp_id ` set (c # rest) \<or> (\<forall>c \<in> set (c # rest). wp_id c < wp_id w)"
    by (simp_all add: worker_ok_def)
  have le: "wp_id c \<le> j" if "j \<in> set ?waiting" for j
    using that s o' by (fastforce simp: from_mailbox_set)
  have sorted: "sorted_wrt (<) ?waiting" using ok by (simp add: rows_ok_def from_mailbox_sorted)
  show ?thesis
  proof (cases "wp_id c \<in> set ?waiting")
    case True
    then obtain x xs where w: "?waiting = x # xs" by (cases ?waiting) auto
    then have "x = wp_id c" using True sorted le [of x] by auto
    with w c show ?thesis by (simp add: Let_def)
  next
    case False
    have "wp_id c \<notin> wp_id ` set (wh_rows ?s)"
      using False c box by (auto simp: from_mailbox_set image_iff)
    moreover have "accounted ?s (wp_id c)" using ok c(3) by (simp add: rows_ok_def row_ok_def)
    ultimately consider "Attempt (wp_id c) Delivered \<in> set (wh_log ?s)" | "10 \<le> attempts_of (wp_id c) (wh_log ?s)"
      | added now where "Expired (wp_id c) added now \<in> set (wh_log ?s)" "added \<le> now - MAX_DELIVERY_AGE"
      unfolding accounted_def MAX_ATTEMPTS_def by blast
    then have "Attempt (wp_id c) Delivered \<in> set (wh_log ?s) \<or> 10 \<le> attempts_of (wp_id c) (wh_log ?s)
        \<or> (\<exists>added now. Expired (wp_id c) added now \<in> set (wh_log ?s) \<and> now - added \<ge> 3 * 24 * 60 * 60)"
      by cases (auto simp: MAX_DELIVERY_AGE_def intro!: exI)
    moreover have "\<forall>j \<in> set ?waiting. wp_id c < j" using le False by (metis le_neq_implies_less)
    ultimately show ?thesis using c unfolding Let_def by blast
  qed
qed

section \<open>The schedule\<close>

lemma schedule_mailbox_rows:
  "map wp_id (wh_rows (schedule_mailbox now w s)) = map wp_id (wh_rows s)"
  "map wp_mailbox (wh_rows (schedule_mailbox now w s)) = map wp_mailbox (wh_rows s)"
  by (simp_all add: schedule_mailbox_def Let_def comp_def if_distrib cong: if_cong)

definition queued_worker :: "webhook list \<Rightarrow> webhook \<Rightarrow> worker" where
  "queued_worker rows w =
     (if 100 \<le> length (from_mailbox (wp_id w) (wp_mailbox w) rows) then ParallelQueued (wp_id w) else SerialQueued (wp_id w))"

lemma queued_worker_cong:
  "map wp_id rows = map wp_id rows' \<Longrightarrow> map wp_mailbox rows = map wp_mailbox rows' \<Longrightarrow> queued_worker rows w = queued_worker rows' w"
  using from_mailbox_ids [of rows rows' "wp_id w" "wp_mailbox w"] by (metis queued_worker_def length_map)

lemma schedule_mailbox_workers:
  "wh_workers (schedule_mailbox now w s) = wh_workers s @ [queued_worker (wh_rows s) w]"
  by (simp add: schedule_mailbox_def queued_worker_def Let_def MAX_MAILBOX_DRAIN_def)

lemma schedule_all_workers:
  "wh_workers (foldl (\<lambda>s w. schedule_mailbox now w s) s ws) = wh_workers s @ map (queued_worker (wh_rows s)) ws"
proof (induction ws arbitrary: s)
  case (Cons w ws)
  have "queued_worker (wh_rows (schedule_mailbox now w s)) = queued_worker (wh_rows s)"
    by (rule ext) (rule queued_worker_cong [OF schedule_mailbox_rows])
  with Cons show ?case by (simp add: schedule_mailbox_workers)
qed simp

text \<open>
  The schedule starts one worker for every mailbox whose oldest webhook is due (a thousand at most), at that
  webhook, and a parallel one exactly when the mailbox holds a hundred webhooks or more.
\<close>

theorem due_mailboxes_get_workers:
  "wh_workers (schedule_webhook_delivery now s) = wh_workers s @
     map (\<lambda>w. if 100 \<le> length (filter (\<lambda>v. wp_id v \<ge> wp_id w \<and> wp_mailbox v = wp_mailbox w) (wh_rows s))
               then ParallelQueued (wp_id w) else SerialQueued (wp_id w))
       (take 1000 (filter (\<lambda>w. wp_schedule w \<le> now) (head_of_line (wh_rows s))))"
  unfolding schedule_webhook_delivery_def schedule_all_workers BATCH_SIZE_def
  by (simp only: queued_worker_def [abs_def] from_mailbox_def)

text \<open>Rows that are written: an id of the rows that are scheduled keeps a time that is at least the given one.\<close>

lemma schedule_mailbox_row:
  assumes "v \<in> set (wh_rows (schedule_mailbox now w s))"
  obtains u where "u \<in> set (wh_rows s)" "wp_id v = wp_id u" "wp_mailbox v = wp_mailbox u"
    "v = u \<or> wp_schedule v = now + BATCH_SCHEDULE_OFFSET"
    "wp_id w = wp_id u \<Longrightarrow> wp_mailbox w = wp_mailbox u \<Longrightarrow> sorted_wrt (<) (map wp_id (wh_rows s)) \<Longrightarrow>
       wp_schedule v = now + BATCH_SCHEDULE_OFFSET"
proof -
  let ?b = "from_mailbox (wp_id w) (wp_mailbox w) (wh_rows s)"
  let ?batch = "map wp_id (take MAX_MAILBOX_DRAIN ?b)"
  obtain u where u: "u \<in> set (wh_rows s)"
    "v = (if wp_id u \<in> set ?batch then u\<lparr>wp_schedule := now + BATCH_SCHEDULE_OFFSET\<rparr> else u)"
    using assms by (auto simp: schedule_mailbox_def Let_def)
  have "wp_id u \<in> set ?batch" if h: "wp_id w = wp_id u" "wp_mailbox w = wp_mailbox u" "sorted_wrt (<) (map wp_id (wh_rows s))"
  proof -
    have ub: "u \<in> set ?b" using u(1) h by (simp add: from_mailbox_set)
    then have "?b \<noteq> []" by (cases ?b) simp_all
    then have ne: "hd ?b \<in> set (take MAX_MAILBOX_DRAIN ?b)" by (cases ?b) (simp_all add: MAX_MAILBOX_DRAIN_def)
    then have "wp_id u \<le> wp_id (hd ?b)" using in_set_takeD [OF ne] h by (simp add: from_mailbox_set)
    then show ?thesis using sorted_take_rest [OF from_mailbox_sorted [OF h(3)] ub, of MAX_MAILBOX_DRAIN] ne by fastforce
  qed
  then show thesis using u(2) by (intro that [OF u(1)]) auto
qed

lemma schedule_all_rows:
  "map (\<lambda>w. (wp_id w, wp_mailbox w)) (wh_rows (foldl (\<lambda>s w. schedule_mailbox now w s) s ws))
     = map (\<lambda>w. (wp_id w, wp_mailbox w)) (wh_rows s)"
proof (induction ws arbitrary: s)
  case (Cons w ws)
  have "map (\<lambda>w. (wp_id w, wp_mailbox w)) (wh_rows (schedule_mailbox now w s)) = map (\<lambda>w. (wp_id w, wp_mailbox w)) (wh_rows s)"
    by (simp add: schedule_mailbox_def Let_def)
  with Cons show ?case by simp
qed simp

lemma schedule_all_row:
  assumes "v \<in> set (wh_rows (foldl (\<lambda>s w. schedule_mailbox now w s) s ws))" "sorted_wrt (<) (map wp_id (wh_rows s))"
    "w \<in> set ws" "wp_id w = wp_id v" "wp_mailbox w = wp_mailbox v"
  shows "wp_schedule v = now + BATCH_SCHEDULE_OFFSET"
proof -
  have kept: "\<exists>u \<in> set (wh_rows s). wp_id v = wp_id u \<and> wp_mailbox v = wp_mailbox u \<and> (v = u \<or> wp_schedule v = now + BATCH_SCHEDULE_OFFSET)"
    if "v \<in> set (wh_rows (foldl (\<lambda>s w. schedule_mailbox now w s) s ws))" for s ws v
    using that
  proof (induction ws arbitrary: s)
    case (Cons x ws)
    from Cons.prems have "v \<in> set (wh_rows (foldl (\<lambda>s w. schedule_mailbox now w s) (schedule_mailbox now x s) ws))" by simp
    from Cons.IH [OF this] obtain u where u: "u \<in> set (wh_rows (schedule_mailbox now x s))" "wp_id v = wp_id u" "wp_mailbox v = wp_mailbox u"
      "v = u \<or> wp_schedule v = now + BATCH_SCHEDULE_OFFSET" by blast
    from schedule_mailbox_row [OF u(1)] obtain t where "t \<in> set (wh_rows s)" "wp_id u = wp_id t" "wp_mailbox u = wp_mailbox t"
      "u = t \<or> wp_schedule u = now + BATCH_SCHEDULE_OFFSET" by metis
    with u show ?case by (intro bexI [of _ t]) auto
  qed auto
  from assms show ?thesis
  proof (induction ws arbitrary: s)
    case (Cons x ws)
    let ?t = "schedule_mailbox now x s"
    have v: "v \<in> set (wh_rows (foldl (\<lambda>s w. schedule_mailbox now w s) ?t ws))" using Cons.prems(1) by simp
    have t: "sorted_wrt (<) (map wp_id (wh_rows ?t))" using Cons.prems(2) by (simp add: schedule_mailbox_rows)
    show ?case
    proof (cases "w \<in> set ws")
      case True
      from Cons.IH [OF v t this Cons.prems(4,5)] show ?thesis .
    next
      case False
      with Cons.prems(3) have "x = w" by simp
      from kept [OF v] obtain u where u: "u \<in> set (wh_rows ?t)" "wp_id v = wp_id u" "wp_mailbox v = wp_mailbox u"
        "v = u \<or> wp_schedule v = now + BATCH_SCHEDULE_OFFSET" by blast
      from schedule_mailbox_row [OF u(1)] obtain y where "y \<in> set (wh_rows s)" "wp_id u = wp_id y" "wp_mailbox u = wp_mailbox y"
        "wp_id x = wp_id y \<Longrightarrow> wp_mailbox x = wp_mailbox y \<Longrightarrow> sorted_wrt (<) (map wp_id (wh_rows s)) \<Longrightarrow>
           wp_schedule u = now + BATCH_SCHEDULE_OFFSET" by metis
      with u Cons.prems(2,4,5) \<open>x = w\<close> show ?thesis by auto
    qed
  qed simp
qed

text \<open>
  The schedule does not start a second worker for a mailbox while the first may still run: after a run
  the oldest webhook of every mailbox that was given a worker is not due for three minutes.
\<close>

theorem schedule_not_repeated:
  assumes "r \<in> set (take 1000 (filter (\<lambda>w. wp_schedule w \<le> now) (head_of_line (wh_rows (webhook_run es)))))"
    and "v \<in> set (head_of_line (wh_rows (schedule_webhook_delivery now (webhook_run es))))"
    and "wp_mailbox v = wp_mailbox r"
  shows "wp_schedule v = now + 180"
proof -
  let ?s = "webhook_run es" and ?ws = "take 1000 (filter (\<lambda>w. wp_schedule w \<le> now) (head_of_line (wh_rows (webhook_run es))))"
  let ?f = "foldl (\<lambda>s w. schedule_mailbox now w s) ?s ?ws" and ?k = "\<lambda>w. (wp_id w, wp_mailbox w)"
  have f: "schedule_webhook_delivery now ?s = ?f" by (simp only: schedule_webhook_delivery_def BATCH_SIZE_def)
  have keys: "?k ` set (wh_rows ?f) = ?k ` set (wh_rows ?s)" 
    using arg_cong [where f = set, OF schedule_all_rows [of now ?s ?ws]] by (simp only: set_map)
  have r: "r \<in> set (wh_rows ?s)" "\<forall>u \<in> set (wh_rows ?s). wp_mailbox u = wp_mailbox r \<longrightarrow> wp_id r \<le> wp_id u"
    using in_set_takeD [OF assms(1)] by (auto simp: head_of_line_def)
  have v: "v \<in> set (wh_rows ?f)" "\<forall>u \<in> set (wh_rows ?f). wp_mailbox u = wp_mailbox v \<longrightarrow> wp_id v \<le> wp_id u"
    using assms(2) by (auto simp: f head_of_line_def)
  have "?k v \<in> ?k ` set (wh_rows ?s)" using keys v(1) by blast
  then have "wp_id r \<le> wp_id v" using r(2) assms(3) by auto
  moreover have "?k r \<in> ?k ` set (wh_rows ?f)" using keys r(1) by blast
  then have "wp_id v \<le> wp_id r" using v(2) assms(3) by auto
  ultimately have "wp_id r = wp_id v" by simp
  moreover have "sorted_wrt (<) (map wp_id (wh_rows ?s))" using webhook_run_ok [of es] by (simp add: webhooks_ok_def rows_ok_def)
  ultimately show ?thesis
    using schedule_all_row [OF v(1) _ assms(1)] assms(3) by (simp add: BATCH_SCHEDULE_OFFSET_def BACKOFF_INTERVAL_def)
qed

lemmas webhook_eval = worker_step_def drain_mailbox_start_def drain_mailbox_step_def deliver_message_def
  create_from_request_def schedule_webhook_delivery_def schedule_mailbox_def head_of_line_def from_mailbox_def
  no_webhooks_def set_worker_def update_webhook_def log_delivery_def delete_webhook_def schedule_next_attempt_def
  BATCH_SIZE_def MAX_MAILBOX_DRAIN_def BATCH_SCHEDULE_OFFSET_def BACKOFF_INTERVAL_def BACKOFF_RATE_def backoff_seconds_def
  MAX_ATTEMPTS_def THE_PAST_def perform_request_def Let_def

definition request1 :: http_request where
  "request1 = \<lparr>hr_method = ''POST'', hr_path = ''/ext/'', hr_headers = [], hr_body = ''{}''\<rparr>"

definition github_events :: "webhook_event list" where
  "github_events =
    [Create ''us'' ''github'' ''7'' (Some 7) request1 1600000000,
     Create ''us'' ''github'' ''7'' (Some 7) request1 1600000001,
     ScheduleDelivery 1600000010]"

theorem no_webhook_lost_witness:
  "(1 \<in> wp_id ` set (wh_rows (webhook_run github_events))
    \<or> Attempt 1 Delivered \<in> set (wh_log (webhook_run github_events))
    \<or> 10 \<le> attempts_of 1 (wh_log (webhook_run github_events))
    \<or> (\<exists>added now. Expired 1 added now \<in> set (wh_log (webhook_run github_events)) \<and> now - added \<ge> 3 * 24 * 60 * 60))
   \<and> Attempt 0 Delivered \<in> set (wh_log (webhook_run (github_events @
        [WorkerStep 0 0 1600000011 AnswerOk 0 (\<lambda>_. AnswerOk), WorkerStep 0 0 1600000012 AnswerOk 0 (\<lambda>_. AnswerOk),
         WorkerStep 0 0 1600000013 AnswerOk 0 (\<lambda>_. AnswerOk)])))"
  by (rule conjI, rule no_webhook_lost) (simp_all add: github_events_def webhook_eval)

theorem serial_worker_in_order_witness:
  "\<exists>c rest d. Serial 0 ''github:7'' d (c # rest) \<in> set (wh_workers (webhook_run (github_events @
        [WorkerStep 0 0 1600000011 AnswerOk 0 (\<lambda>_. AnswerOk), WorkerStep 0 0 1600000012 AnswerOk 0 (\<lambda>_. AnswerOk)])))
     \<and> hd (map wp_id (from_mailbox 0 ''github:7'' (wh_rows (webhook_run (github_events @
        [WorkerStep 0 0 1600000011 AnswerOk 0 (\<lambda>_. AnswerOk), WorkerStep 0 0 1600000012 AnswerOk 0 (\<lambda>_. AnswerOk)]))))) = wp_id c"
proof -
  let ?es = "github_events @ [WorkerStep 0 0 1600000011 AnswerOk 0 (\<lambda>_. AnswerOk), WorkerStep 0 0 1600000012 AnswerOk 0 (\<lambda>_. AnswerOk)]"
  let ?w = "\<lambda>i. \<lparr>wp_id = i, wp_mailbox = ''github:7'', wp_region = ''us'', wp_integration = Some 7, wp_added = 1600000000 + of_nat i,
    wp_schedule = 1600000190, wp_attempts = 0, wp_request = request1\<rparr>"
  have m: "Serial 0 ''github:7'' 1600000191 [?w 0, ?w 1] \<in> set (wh_workers (webhook_run ?es))"
    by (simp add: github_events_def webhook_eval)
  have "\<not> (\<forall>j \<in> set (map wp_id (from_mailbox 0 ''github:7'' (wh_rows (webhook_run ?es)))). wp_id (?w 0) < j)"
    by (simp add: github_events_def webhook_eval)
  with serial_worker_in_order [OF m] have "hd (map wp_id (from_mailbox 0 ''github:7'' (wh_rows (webhook_run ?es)))) = wp_id (?w 0)"
    unfolding Let_def by blast
  with m show ?thesis by (intro exI [of _ "?w 0"] exI [of _ "[?w 1]"] exI [of _ 1600000191] conjI)
qed

theorem schedule_not_repeated_witness:
  "\<exists>v. v \<in> set (head_of_line (wh_rows (schedule_webhook_delivery 1600000010 (webhook_run (take 2 github_events)))))
     \<and> wp_schedule v = 1600000010 + 180"
proof -
  let ?w = "\<lambda>t. \<lparr>wp_id = 0, wp_mailbox = ''github:7'', wp_region = ''us'', wp_integration = Some 7, wp_added = 1600000000,
    wp_schedule = t, wp_attempts = 0, wp_request = request1\<rparr>"
  have r: "?w THE_PAST \<in> set (take 1000 (filter (\<lambda>w. wp_schedule w \<le> 1600000010) (head_of_line (wh_rows (webhook_run (take 2 github_events))))))"
    by (simp add: github_events_def webhook_eval)
  have v: "?w 1600000190 \<in> set (head_of_line (wh_rows (schedule_webhook_delivery 1600000010 (webhook_run (take 2 github_events)))))"
    by (simp add: github_events_def webhook_eval)
  from schedule_not_repeated [OF r v] v show ?thesis by force
qed

theorem quiet_mailbox_emptied_witness:
  "let s' = foldl webhook_step (webhook_run github_events)
       (WorkerStep 0 0 1600000011 AnswerOk 0 (\<lambda>_. OtherRaise)
         # map (\<lambda>(t, a). WorkerStep 0 0 t a 0 (\<lambda>_. OtherRaise)) (replicate 5 (1600000012, ConflictError)))
   in wh_workers s' ! 0 = Finished \<and> from_mailbox 0 ''github:7'' (wh_rows s') = []"
proof -
  have "\<exists>payload. find (\<lambda>w. wp_id w = 0) (wh_rows (webhook_run github_events)) = Some payload \<and> wp_mailbox payload = ''github:7''
      \<and> length (from_mailbox 0 ''github:7'' (wh_rows (webhook_run github_events))) = 2"
    by (simp add: github_events_def webhook_eval)
  then obtain payload where p: "find (\<lambda>w. wp_id w = 0) (wh_rows (webhook_run github_events)) = Some payload"
    "wp_mailbox payload = ''github:7''" "length (from_mailbox 0 ''github:7'' (wh_rows (webhook_run github_events))) = 2" by blast
  have w: "0 < length (wh_workers (webhook_run github_events))" "wh_workers (webhook_run github_events) ! 0 = SerialQueued 0"
    by (simp_all add: github_events_def webhook_eval)
  have "\<forall>(t, a) \<in> set (replicate 5 (1600000012, ConflictError)). t < 1600000011 + BATCH_SCHEDULE_OFFSET \<and> perform_request a = Delivered"
    by (simp add: perform_request_def BATCH_SCHEDULE_OFFSET_def BACKOFF_INTERVAL_def)
  from quiet_mailbox_emptied [OF w p(1) this] p(2,3) show ?thesis by simp
qed

end
