(* ===== verification/Digests.thy ===== *)
theory Digests
  imports Prelude Complex_Main "HOL-Library.Product_Lexorder" "HOL-Library.Multiset"
begin

text \<open>
  Digests of notifications: \<open>digests/backends/redis.py\<close> with its script \<open>scripts/digests/digests.lua\<close>,
  the lock it takes (\<open>utils/locking\<close>) and the task \<open>tasks/digests.py\<close>. A timeline collects records;
  two sorted sets schedule the timelines, waiting and ready. A script is one atomic step; a digest is open
  between two scripts, while others add, schedule and delete. The expiry or eviction of a key is an event
  that may happen at any time. Times are seconds; the draw for a truncation is an argument. Not modelled:
  the codec of the values, the routing of keys to hosts, the splitting of long commands into chunks.
\<close>

section \<open>Sorted sets\<close>

type_synonym zset = "(string, rat) dict"

definition zrem :: "string list \<Rightarrow> zset \<Rightarrow> zset" where
  "zrem ms z = filter (\<lambda>(m, _). m \<notin> set ms) z"

definition zasc :: "zset \<Rightarrow> zset" where
  \<comment> \<open>\<open>ZRANGE key 0 -1\<close>: by score, then by member\<close>
  "zasc z = sort_key (\<lambda>(m, s). (s, m)) z"

definition zunion_max :: "zset \<Rightarrow> zset \<Rightarrow> zset" where
  "zunion_max a b = dict_merge b (map (\<lambda>(m, s). (m, case dict_get b m of None \<Rightarrow> s | Some t \<Rightarrow> max s t)) a)"

definition zrange_move_slice :: "rat \<Rightarrow> zset \<Rightarrow> zset \<Rightarrow> zset \<times> zset \<times> zset" where
  \<comment> \<open>what is moved, the source and the destination\<close>
  "zrange_move_slice threshold source destination =
     (let keys = filter (\<lambda>(_, s). 0 \<le> s \<and> s \<le> threshold) (zasc source)
      in (keys, zrem (map fst keys) source, dict_merge destination keys))"

definition zset_trim :: "int \<Rightarrow> zset \<Rightarrow> string list \<times> zset" where
  \<comment> \<open>the members removed and the rest\<close>
  "zset_trim capacity z =
     (if int (length z) \<le> capacity then ([], z)
      else let items = map fst (drop (nat capacity) (rev (zasc z))) in (items, zrem items z))"

section \<open>The state\<close>

record digest_event =
  de_id :: nat
  de_group :: "nat option"
  de_time :: rat

record notification =
  nt_event :: digest_event
  nt_rules :: "nat list"
  nt_uuid :: "string option"

record drecord =
  rc_key :: string
  rc_value :: notification
  rc_timestamp :: rat

text \<open>A digest that was opened: its timeline, process, time, all record keys and the records yielded.\<close>

datatype session_state = Opened | Exited | Aborted

record digest_session =
  se_key :: string
  se_proc :: nat
  se_time :: rat
  se_ids :: "string list"
  se_records :: "drecord list"
  se_state :: session_state

record digest_store =
  dg_waiting :: zset
  dg_ready :: zset
  dg_timeline :: "string \<Rightarrow> zset"
  dg_digest :: "string \<Rightarrow> zset"
  dg_last :: "string \<Rightarrow> rat option"
  dg_record :: "string \<Rightarrow> string \<Rightarrow> notification option"
  dg_locks :: "string \<Rightarrow> (nat \<times> rat) option"
  dg_sessions :: "digest_session list"
  dg_tasks :: "string list"

definition del_records :: "string \<Rightarrow> string list \<Rightarrow> digest_store \<Rightarrow> digest_store" where
  "del_records k ids st = st\<lparr>dg_record := (dg_record st)(k := (\<lambda>r. if r \<in> set ids then None else dg_record st k r))\<rparr>"

section \<open>The script\<close>

definition schedule_script :: "rat \<Rightarrow> digest_store \<Rightarrow> zset \<times> digest_store" where
  "schedule_script deadline st =
     (let (keys, waiting, ready) = zrange_move_slice deadline (dg_waiting st) (dg_ready st)
      in (keys, st\<lparr>dg_waiting := waiting, dg_ready := ready\<rparr>))"

definition maintenance_script :: "rat \<Rightarrow> digest_store \<Rightarrow> digest_store" where
  "maintenance_script deadline st =
     (let (_, ready, waiting) = zrange_move_slice deadline (dg_ready st) (dg_waiting st)
      in st\<lparr>dg_waiting := waiting, dg_ready := ready\<rparr>)"

definition add_timeline_to_schedule :: "string \<Rightarrow> rat \<Rightarrow> rat \<Rightarrow> rat \<Rightarrow> digest_store \<Rightarrow> bool \<times> digest_store" where
  "add_timeline_to_schedule k timestamp increment maximum st =
     (if dict_get (dg_ready st) k \<noteq> None then (False, st)
      else case dict_get (dg_waiting st) k of
        None \<Rightarrow> (True, st\<lparr>dg_ready := dict_set k timestamp (dg_ready st)\<rparr>)
      | Some score \<Rightarrow>
          let upd = (case dg_last st k of
                       None \<Rightarrow> min score timestamp
                     | Some last_processed \<Rightarrow> min (score + increment) (last_processed + maximum))
          in (False, if upd \<noteq> score then st\<lparr>dg_waiting := dict_set k upd (dg_waiting st)\<rparr> else st))"

definition truncate_timeline :: "string \<Rightarrow> int \<Rightarrow> digest_store \<Rightarrow> digest_store" where
  "truncate_timeline k capacity st =
     (let (items, z) = zset_trim capacity (dg_timeline st k)
      in del_records k items (st\<lparr>dg_timeline := (dg_timeline st)(k := z)\<rparr>))"

definition truncate_digest :: "string \<Rightarrow> int \<Rightarrow> digest_store \<Rightarrow> digest_store" where
  "truncate_digest k capacity st =
     (let (items, z) = zset_trim capacity (dg_digest st k)
      in del_records k items (st\<lparr>dg_digest := (dg_digest st)(k := z)\<rparr>))"

definition add_record_to_timeline ::
  "int \<Rightarrow> bool \<Rightarrow> string \<Rightarrow> drecord \<Rightarrow> rat \<Rightarrow> rat \<Rightarrow> digest_store \<Rightarrow> bool \<times> digest_store" where
  \<comment> \<open>the draw: whether \<open>math.random() < truncation_chance\<close>\<close>
  "add_record_to_timeline capacity draw k r increment maximum st =
     (let st = st\<lparr>dg_record := (dg_record st)(k := (dg_record st k)(rc_key r := Some (rc_value r))),
                  dg_timeline := (dg_timeline st)(k := dict_set (rc_key r) (rc_timestamp r) (dg_timeline st k))\<rparr>;
          (ready, st) = add_timeline_to_schedule k (rc_timestamp r) increment maximum st
      in (ready, if capacity > 0 \<and> draw then truncate_timeline k capacity st else st))"

definition digest_timeline ::
  "int \<Rightarrow> string \<Rightarrow> digest_store \<Rightarrow> ((string \<times> notification option \<times> rat) list \<times> digest_store) option" where
  "digest_timeline capacity k st =
     (if dict_get (dg_ready st) k = None then None
      else
        let st =
          (if dg_timeline st k \<noteq> [] then
             if dg_digest st k \<noteq> [] then
               let st = st\<lparr>dg_digest := (dg_digest st)(k := zunion_max (dg_timeline st k) (dg_digest st k)),
                           dg_timeline := (dg_timeline st)(k := [])\<rparr>
               in if capacity > 0 then truncate_digest k capacity st else st
             else st\<lparr>dg_digest := (dg_digest st)(k := dg_timeline st k), dg_timeline := (dg_timeline st)(k := [])\<rparr>
           else st)
        in Some (map (\<lambda>(r, s). (r, dg_record st k r, s)) (rev (zasc (dg_digest st k))), st))"

definition close_digest :: "rat \<Rightarrow> string \<Rightarrow> rat \<Rightarrow> string list \<Rightarrow> digest_store \<Rightarrow> digest_store" where
  "close_digest timestamp k delay_minimum ids st =
     (let st = del_records k ids (st\<lparr>dg_digest := (dg_digest st)(k := zrem ids (dg_digest st k))\<rparr>)
      in if length ids > 0 \<or> length (dg_timeline st k) > 0 \<or> length (dg_digest st k) > 0
         then st\<lparr>dg_last := (dg_last st)(k := Some timestamp), dg_ready := zrem [k] (dg_ready st),
                 dg_waiting := dict_set k (timestamp + delay_minimum) (dg_waiting st)\<rparr>
         else st\<lparr>dg_last := (dg_last st)(k := None), dg_ready := zrem [k] (dg_ready st), dg_waiting := zrem [k] (dg_waiting st)\<rparr>)"

definition delete_timeline :: "string \<Rightarrow> digest_store \<Rightarrow> digest_store" where
  "delete_timeline k st =
     (let st = truncate_digest k 0 (truncate_timeline k 0 st)
      in st\<lparr>dg_last := (dg_last st)(k := None), dg_ready := zrem [k] (dg_ready st), dg_waiting := zrem [k] (dg_waiting st)\<rparr>)"

section \<open>Locks\<close>

text \<open>A lock holds the identity of the process that took it, not of the digest.\<close>

definition acquire :: "rat \<Rightarrow> string \<Rightarrow> rat \<Rightarrow> nat \<Rightarrow> digest_store \<Rightarrow> digest_store option" where
  "acquire now k duration proc st =
     (case dg_locks st k of
        Some (_, expires) \<Rightarrow>
          if now < expires then None else Some (st\<lparr>dg_locks := (dg_locks st)(k := Some (proc, now + duration))\<rparr>)
      | None \<Rightarrow> Some (st\<lparr>dg_locks := (dg_locks st)(k := Some (proc, now + duration))\<rparr>))"

definition release :: "rat \<Rightarrow> string \<Rightarrow> nat \<Rightarrow> digest_store \<Rightarrow> digest_store" where
  "release now k proc st =
     (case dg_locks st k of
        Some (owner, expires) \<Rightarrow>
          if now < expires \<and> owner = proc then st\<lparr>dg_locks := (dg_locks st)(k := None)\<rparr> else st
      | None \<Rightarrow> st)"

section \<open>The backend\<close>

definition capacity_argument :: "nat option \<Rightarrow> int" where
  "capacity_argument cap = (case cap of None \<Rightarrow> -1 | Some n \<Rightarrow> if n = 0 then -1 else int n)"

text \<open>\<open>add\<close>, and the task its caller queues when the timeline is ready at once.\<close>

definition add_record :: "nat option \<Rightarrow> bool \<Rightarrow> string \<Rightarrow> drecord \<Rightarrow> rat \<Rightarrow> rat \<Rightarrow> digest_store \<Rightarrow> digest_store" where
  "add_record cap draw k r increment maximum st =
     (let (ready, st) = add_record_to_timeline (capacity_argument cap) draw k r increment maximum st
      in if ready then st\<lparr>dg_tasks := dg_tasks st @ [k]\<rparr> else st)"

definition schedule_timelines :: "rat \<Rightarrow> digest_store \<Rightarrow> digest_store" where
  \<comment> \<open>\<open>schedule\<close>, and the task that is queued for each entry\<close>
  "schedule_timelines deadline st =
     (let (entries, st) = schedule_script deadline st in st\<lparr>dg_tasks := dg_tasks st @ map fst entries\<rparr>)"

definition schedule_digests :: "rat \<Rightarrow> digest_store \<Rightarrow> digest_store" where
  "schedule_digests deadline st = schedule_timelines deadline (maintenance_script (deadline - 300) st)"

datatype digest_error = UnableToAcquireLock | InvalidState

definition present_records :: "(string \<times> notification option \<times> rat) list \<Rightarrow> drecord list" where
  \<comment> \<open>records whose value was evicted are left out\<close>
  "present_records response = concat (map (\<lambda>(r, value, s).
     case value of None \<Rightarrow> [] | Some v \<Rightarrow> [\<lparr>rc_key = r, rc_value = v, rc_timestamp = s\<rparr>]) response)"

definition open_digest :: "nat option \<Rightarrow> rat \<Rightarrow> string \<Rightarrow> nat \<Rightarrow> digest_store \<Rightarrow> (digest_error + nat) \<times> digest_store" where
  "open_digest cap now k proc st =
     (case acquire now k 30 proc st of
        None \<Rightarrow> (Inl UnableToAcquireLock, st)
      | Some st \<Rightarrow>
          (case digest_timeline (capacity_argument cap) k st of
             None \<Rightarrow> (Inl InvalidState, release now k proc st)
           | Some (response, st) \<Rightarrow>
               let session = \<lparr>se_key = k, se_proc = proc, se_time = now, se_ids = map fst response,
                              se_records = present_records response, se_state = Opened\<rparr>
               in (Inr (length (dg_sessions st)), st\<lparr>dg_sessions := dg_sessions st @ [session]\<rparr>)))"

definition end_session :: "nat \<Rightarrow> session_state \<Rightarrow> digest_store \<Rightarrow> digest_store" where
  "end_session i state st = st\<lparr>dg_sessions := (dg_sessions st)[i := (dg_sessions st ! i)\<lparr>se_state := state\<rparr>]\<rparr>"

text \<open>The end of the block: with the script, or by an exception.\<close>

definition exit_digest :: "rat \<Rightarrow> rat \<Rightarrow> nat \<Rightarrow> digest_store \<Rightarrow> digest_store" where
  "exit_digest now minimum_delay i st =
     (if i < length (dg_sessions st) \<and> se_state (dg_sessions st ! i) = Opened then
        let s = dg_sessions st ! i;
            st = close_digest (se_time s) (se_key s) minimum_delay (se_ids s) st
        in end_session i Exited (release now (se_key s) (se_proc s) st)
      else st)"

definition abort_digest :: "rat \<Rightarrow> nat \<Rightarrow> digest_store \<Rightarrow> digest_store" where
  "abort_digest now i st =
     (if i < length (dg_sessions st) \<and> se_state (dg_sessions st ! i) = Opened then
        let s = dg_sessions st ! i in end_session i Aborted (release now (se_key s) (se_proc s) st)
      else st)"

definition delete_digest :: "rat \<Rightarrow> string \<Rightarrow> nat \<Rightarrow> digest_store \<Rightarrow> digest_store" where
  "delete_digest now k proc st =
     (case acquire now k 30 proc st of
        None \<Rightarrow> st
      | Some st \<Rightarrow> release now k proc (delete_timeline k st))"

section \<open>Events\<close>

datatype evicted = EvictTimeline string | EvictDigest string | EvictLast string | EvictRecord string string

fun evict :: "evicted \<Rightarrow> digest_store \<Rightarrow> digest_store" where
  "evict (EvictTimeline k) st = st\<lparr>dg_timeline := (dg_timeline st)(k := [])\<rparr>"
| "evict (EvictDigest k) st = st\<lparr>dg_digest := (dg_digest st)(k := [])\<rparr>"
| "evict (EvictLast k) st = st\<lparr>dg_last := (dg_last st)(k := None)\<rparr>"
| "evict (EvictRecord k r) st = del_records k [r] st"

datatype digest_op =
    AddRecord bool string drecord rat rat
  | Maintain rat
  | Schedule rat
  | OpenDigest rat string nat
  | ExitDigest rat rat nat
  | AbortDigest rat nat
  | DeleteDigest rat string nat
  | Evict evicted

fun digest_step :: "nat option \<Rightarrow> digest_store \<Rightarrow> digest_op \<Rightarrow> digest_store" where
  "digest_step cap st (AddRecord draw k r increment maximum) = add_record cap draw k r increment maximum st"
| "digest_step cap st (Maintain deadline) = maintenance_script deadline st"
| "digest_step cap st (Schedule deadline) = schedule_timelines deadline st"
| "digest_step cap st (OpenDigest now k proc) = snd (open_digest cap now k proc st)"
| "digest_step cap st (ExitDigest now minimum_delay i) = exit_digest now minimum_delay i st"
| "digest_step cap st (AbortDigest now i) = abort_digest now i st"
| "digest_step cap st (DeleteDigest now k proc) = delete_digest now k proc st"
| "digest_step cap st (Evict e) = evict e st"

definition no_digests :: digest_store where
  "no_digests = \<lparr>dg_waiting = [], dg_ready = [], dg_timeline = (\<lambda>_. []), dg_digest = (\<lambda>_. []), dg_last = (\<lambda>_. None),
     dg_record = (\<lambda>_ _. None), dg_locks = (\<lambda>_. None), dg_sessions = [], dg_tasks = []\<rparr>"

abbreviation digest_run :: "nat option \<Rightarrow> digest_op list \<Rightarrow> digest_store" where
  "digest_run cap es \<equiv> foldl (digest_step cap) no_digests es"

section \<open>Facts about the sorted sets\<close>

lemma dict_get_iff: "dict_wf d \<Longrightarrow> dict_get d k = Some v \<longleftrightarrow> (k, v) \<in> set d"
  by (simp add: dict_get_def)

lemma zrem_get [simp]: "dict_get (zrem ms z) k = (if k \<in> set ms then None else dict_get z k)"
  by (induction z) (auto simp: zrem_def dict_get_def)

lemma zrem_wf [simp]: "dict_wf z \<Longrightarrow> dict_wf (zrem ms z)"
  by (simp add: zrem_def distinct_map_filter)

lemma zasc_set [simp]: "set (zasc z) = set z"
  by (simp add: zasc_def)

lemma zasc_wf [simp]: "dict_wf z \<Longrightarrow> dict_wf (zasc z)"
proof -
  have "mset (map fst (zasc z)) = mset (map fst z)" by (simp add: zasc_def)
  then show "dict_wf z \<Longrightarrow> dict_wf (zasc z)" by (metis mset_eq_imp_distinct_iff)
qed

definition in_slice :: "rat \<Rightarrow> rat option \<Rightarrow> bool" where
  "in_slice threshold s = (case s of None \<Rightarrow> False | Some t \<Rightarrow> 0 \<le> t \<and> t \<le> threshold)"

lemma move_slice_get:
  assumes "dict_wf s" "zrange_move_slice threshold s d = (keys, s', d')"
  shows "dict_get s' k = (if in_slice threshold (dict_get s k) then None else dict_get s k)"
    "dict_get d' k = (if in_slice threshold (dict_get s k) then dict_get s k else dict_get d k)"
    "dict_wf s'" "dict_wf d \<Longrightarrow> dict_wf d'"
    "k \<in> fst ` set keys \<longleftrightarrow> in_slice threshold (dict_get s k)"
proof -
  have keys: "keys = filter (\<lambda>(_, s). 0 \<le> s \<and> s \<le> threshold) (zasc s)" and s': "s' = zrem (map fst keys) s"
    and d': "d' = dict_merge d keys"
    using assms(2) by (auto simp: zrange_move_slice_def Let_def)
  have wf: "dict_wf keys" unfolding keys by (simp add: distinct_map_filter assms(1))
  have get: "dict_get keys k = (if in_slice threshold (dict_get s k) then dict_get s k else None)" for k
  proof (cases "dict_get keys k")
    case (Some t)
    then have "(k, t) \<in> set s" "0 \<le> t" "t \<le> threshold" using wf by (auto simp: dict_get_iff keys)
    then show ?thesis using assms(1) Some by (simp add: dict_get_wf in_slice_def)
  next
    case None
    have False if h: "in_slice threshold (dict_get s k)"
    proof -
      from h obtain t where "dict_get s k = Some t" "0 \<le> t" "t \<le> threshold" by (auto simp: in_slice_def split: option.splits)
      then have "(k, t) \<in> set keys" using assms(1) by (simp add: keys dict_get_in)
      with None wf show False by (simp add: dict_get_wf)
    qed
    with None show ?thesis by auto
  qed
  show m: "k \<in> fst ` set keys \<longleftrightarrow> in_slice threshold (dict_get s k)" for k
  proof -
    have "k \<in> fst ` set keys \<longleftrightarrow> dict_get keys k \<noteq> None" by (simp add: dict_get_def map_of_eq_None_iff)
    then show ?thesis by (auto simp: get in_slice_def split: option.splits)
  qed
  show "dict_get s' k = (if in_slice threshold (dict_get s k) then None else dict_get s k)" using m by (simp add: s')
  show "dict_get d' k = (if in_slice threshold (dict_get s k) then dict_get s k else dict_get d k)"
    using wf by (auto simp: d' dict_get_merge get in_slice_def split: option.splits)
  show "dict_wf s'" "dict_wf d \<Longrightarrow> dict_wf d'" using assms(1) by (simp_all add: s' d')
qed

lemma zset_trim_rest: "zset_trim c z = (items, z') \<Longrightarrow> z' = zrem items z"
  by (auto simp: zset_trim_def zrem_def Let_def split: if_splits)

lemma zunion_max_nonempty: "b \<noteq> [] \<Longrightarrow> zunion_max a b \<noteq> []"
proof -
  have "dict_merge b l \<noteq> []" if "b \<noteq> []" for b l :: zset
    using that
  proof (induction b l rule: dict_merge.induct)
    case (2 d k v e)
    have "dict_set k v d \<noteq> []" by (cases d) (auto simp: dict_set_def)
    with 2 show ?case by simp
  qed simp
  then show "b \<noteq> [] \<Longrightarrow> zunion_max a b \<noteq> []" by (simp add: zunion_max_def)
qed

section \<open>The schedule\<close>

text \<open>A timeline with records is waiting or ready, and never both.\<close>

definition has_data :: "digest_store \<Rightarrow> string \<Rightarrow> bool" where
  "has_data st k = (dg_timeline st k \<noteq> [] \<or> dg_digest st k \<noteq> [])"

definition schedule_ok :: "digest_store \<Rightarrow> bool" where
  "schedule_ok st =
     (dict_wf (dg_waiting st) \<and> dict_wf (dg_ready st)
      \<and> (\<forall>k. (dict_get (dg_waiting st) k = None \<or> dict_get (dg_ready st) k = None)
           \<and> (has_data st k \<longrightarrow> dict_get (dg_waiting st) k \<noteq> None \<or> dict_get (dg_ready st) k \<noteq> None)))"

text \<open>Steps that leave the schedule alone and do not give a timeline its first record.\<close>

lemma schedule_ok_keep:
  assumes "schedule_ok st" "dg_waiting st' = dg_waiting st" "dg_ready st' = dg_ready st"
    "\<And>k. has_data st' k \<Longrightarrow> has_data st k"
  shows "schedule_ok st'"
  using assms unfolding schedule_ok_def by metis

lemma del_records_simps [simp]:
  "dg_waiting (del_records k ids st) = dg_waiting st" "dg_ready (del_records k ids st) = dg_ready st"
  "dg_timeline (del_records k ids st) = dg_timeline st" "dg_digest (del_records k ids st) = dg_digest st"
  "dg_last (del_records k ids st) = dg_last st" "dg_sessions (del_records k ids st) = dg_sessions st"
  "dg_locks (del_records k ids st) = dg_locks st"
  "dg_tasks (del_records k ids st) = dg_tasks st"
  by (simp_all add: del_records_def)

lemma truncate_simps [simp]:
  "dg_waiting (truncate_timeline k c st) = dg_waiting st" "dg_ready (truncate_timeline k c st) = dg_ready st"
  "dg_digest (truncate_timeline k c st) = dg_digest st" "dg_last (truncate_timeline k c st) = dg_last st"
  "dg_sessions (truncate_timeline k c st) = dg_sessions st" "dg_locks (truncate_timeline k c st) = dg_locks st"
  "dg_tasks (truncate_timeline k c st) = dg_tasks st"
  "dg_waiting (truncate_digest k c st) = dg_waiting st" "dg_ready (truncate_digest k c st) = dg_ready st"
  "dg_timeline (truncate_digest k c st) = dg_timeline st" "dg_last (truncate_digest k c st) = dg_last st"
  "dg_sessions (truncate_digest k c st) = dg_sessions st" "dg_locks (truncate_digest k c st) = dg_locks st"
  "dg_tasks (truncate_digest k c st) = dg_tasks st"
  by (simp_all add: truncate_timeline_def truncate_digest_def split: prod.split)

lemma truncate_sets [simp]:
  "dg_timeline (truncate_timeline k c st) = (dg_timeline st)(k := snd (zset_trim c (dg_timeline st k)))"
  "dg_digest (truncate_digest k c st) = (dg_digest st)(k := snd (zset_trim c (dg_digest st k)))"
  by (simp_all add: truncate_timeline_def truncate_digest_def split: prod.split)

lemma zset_trim_empty [simp]: "snd (zset_trim 0 z) = []"
proof -
  have "zrem (map fst (rev (zasc z))) z = []" by (auto simp: zrem_def filter_empty_conv rev_image_eqI)
  then show ?thesis by (simp add: zset_trim_def Let_def)
qed

lemma zset_trim_subset: "snd (zset_trim c z) \<noteq> [] \<Longrightarrow> z \<noteq> []"
  by (auto simp: zset_trim_def zrem_def Let_def split: if_splits)

lemma schedule_ok_maintain: "schedule_ok st \<Longrightarrow> schedule_ok (maintenance_script deadline st)"
proof -
  assume ok: "schedule_ok st"
  obtain keys ready waiting where m: "zrange_move_slice deadline (dg_ready st) (dg_waiting st) = (keys, ready, waiting)"
    by (metis surj_pair)
  note f = move_slice_get [OF _ m]
  have wf: "dict_wf (dg_ready st)" "dict_wf (dg_waiting st)" using ok by (simp_all add: schedule_ok_def)
  show ?thesis unfolding schedule_ok_def maintenance_script_def m
    using ok wf by (auto simp: f(1-4) [OF wf(1)] schedule_ok_def has_data_def in_slice_def split: option.splits)
qed

lemma schedule_script_ok:
  assumes "schedule_ok st" "schedule_script deadline st = (keys, st')"
  shows "schedule_ok st'"
proof -
  obtain waiting ready where m: "zrange_move_slice deadline (dg_waiting st) (dg_ready st) = (keys, waiting, ready)"
    and st': "st' = st\<lparr>dg_waiting := waiting, dg_ready := ready\<rparr>"
    using assms(2) by (auto simp: schedule_script_def split: prod.splits)
  have wf: "dict_wf (dg_waiting st)" "dict_wf (dg_ready st)" using assms by (simp_all add: schedule_ok_def)
  show ?thesis unfolding schedule_ok_def st'
    using assms(1) wf
    by (auto simp: move_slice_get(1-4) [OF wf(1) m] schedule_ok_def has_data_def in_slice_def split: option.splits)
qed

lemma schedule_ok_schedule: "schedule_ok st \<Longrightarrow> schedule_ok (schedule_timelines deadline st)"
proof -
  assume ok: "schedule_ok st"
  obtain keys st' where s: "schedule_script deadline st = (keys, st')" by (metis surj_pair)
  have "schedule_ok st'" by (rule schedule_script_ok [OF ok s])
  then show ?thesis unfolding schedule_timelines_def s prod.case Let_def
    by (rule schedule_ok_keep) (simp_all add: has_data_def)
qed

definition delayed_to :: "rat option \<Rightarrow> rat \<Rightarrow> rat \<Rightarrow> rat \<Rightarrow> rat \<Rightarrow> rat" where
  "delayed_to processed timestamp increment maximum score =
     (case processed of None \<Rightarrow> min score timestamp | Some l \<Rightarrow> min (score + increment) (l + maximum))"

lemma add_to_schedule:
  assumes "add_timeline_to_schedule k timestamp increment maximum st = (r, st')"
  shows "dg_timeline st' = dg_timeline st \<and> dg_digest st' = dg_digest st \<and> dg_last st' = dg_last st \<and> dg_record st' = dg_record st
      \<and> dg_sessions st' = dg_sessions st \<and> dg_locks st' = dg_locks st \<and> dg_tasks st' = dg_tasks st"
    and "r = (dict_get (dg_ready st) k = None \<and> dict_get (dg_waiting st) k = None)"
    and "dict_get (dg_ready st') j = (if r \<and> j = k then Some timestamp else dict_get (dg_ready st) j)"
    and "dict_get (dg_waiting st') j = (if j = k \<and> dict_get (dg_ready st) k = None
           then map_option (delayed_to (dg_last st k) timestamp increment maximum) (dict_get (dg_waiting st) k)
           else dict_get (dg_waiting st) j)"
    and "dict_wf (dg_ready st) \<Longrightarrow> dict_wf (dg_ready st')" "dict_wf (dg_waiting st) \<Longrightarrow> dict_wf (dg_waiting st')"
  using assms
  by (auto simp: add_timeline_to_schedule_def Let_def delayed_to_def split: if_splits option.splits)

lemma schedule_ok_add_to:
  assumes "dict_wf (dg_waiting st)" "dict_wf (dg_ready st)"
    and "\<And>j. (dict_get (dg_waiting st) j = None \<or> dict_get (dg_ready st) j = None)"
    and "\<And>j. j \<noteq> k \<Longrightarrow> has_data st j \<Longrightarrow> dict_get (dg_waiting st) j \<noteq> None \<or> dict_get (dg_ready st) j \<noteq> None"
    and "add_timeline_to_schedule k timestamp increment maximum st = (r, st')"
  shows "schedule_ok st'"
proof -
  note f = add_to_schedule [OF assms(5)]
  have "has_data st' j = has_data st j" for j using f(1) by (simp add: has_data_def)
  moreover have "dict_get (dg_waiting st') j = None \<or> dict_get (dg_ready st') j = None" for j
    using assms(3) [of j] f(2) by (auto simp: f(3,4))
  moreover have "dict_get (dg_waiting st') j \<noteq> None \<or> dict_get (dg_ready st') j \<noteq> None" if "has_data st j" for j
    using assms(4) [of j] that f(2) by (cases "j = k") (auto simp: f(3,4))
  ultimately show ?thesis using assms(1,2) f(5,6) by (simp add: schedule_ok_def)
qed

lemma schedule_ok_add:
  assumes "schedule_ok st"
  shows "schedule_ok (add_record cap draw k r increment maximum st)"
proof -
  let ?s = "st\<lparr>dg_record := (dg_record st)(k := (dg_record st k)(rc_key r := Some (rc_value r))),
                  dg_timeline := (dg_timeline st)(k := dict_set (rc_key r) (rc_timestamp r) (dg_timeline st k))\<rparr>"
  obtain b s' where b: "add_timeline_to_schedule k (rc_timestamp r) increment maximum ?s = (b, s')" by (metis surj_pair)
  have "schedule_ok s'"
    by (rule schedule_ok_add_to [OF _ _ _ _ b]) (use assms in \<open>auto simp: schedule_ok_def has_data_def\<close>)
  moreover have "schedule_ok (truncate_timeline k c s')" for c
    using calculation by (rule schedule_ok_keep) (auto simp: has_data_def dest: zset_trim_subset split: if_splits)
  ultimately have "schedule_ok (snd (add_record_to_timeline (capacity_argument cap) draw k r increment maximum st))"
    by (simp add: add_record_to_timeline_def b Let_def)
  then show ?thesis
    unfolding add_record_def by (auto split: prod.splits intro: schedule_ok_keep simp: has_data_def)
qed

lemma acquire_frame:
  assumes "acquire now k d proc st = Some st'"
  obtains l where "st' = st\<lparr>dg_locks := l\<rparr>"
  using assms by (auto simp: acquire_def split: option.splits if_splits)

lemma release_frame: "\<exists>l. release now k proc st = st\<lparr>dg_locks := l\<rparr>"
proof (cases "release now k proc st = st")
  case True
  have "st = st\<lparr>dg_locks := dg_locks st\<rparr>" by simp
  with True show ?thesis by metis
next
  case False
  then show ?thesis by (auto simp: release_def split: option.splits if_splits)
qed

lemma release_simps [simp]:
  "dg_waiting (release now k proc st) = dg_waiting st" "dg_ready (release now k proc st) = dg_ready st"
  "dg_timeline (release now k proc st) = dg_timeline st" "dg_digest (release now k proc st) = dg_digest st"
  "dg_last (release now k proc st) = dg_last st" "dg_record (release now k proc st) = dg_record st"
  "dg_sessions (release now k proc st) = dg_sessions st"
  "dg_tasks (release now k proc st) = dg_tasks st"
  by (simp_all add: release_def split: option.split)

lemma end_session_simps [simp]:
  "dg_waiting (end_session i x st) = dg_waiting st" "dg_ready (end_session i x st) = dg_ready st"
  "dg_timeline (end_session i x st) = dg_timeline st" "dg_digest (end_session i x st) = dg_digest st"
  "dg_last (end_session i x st) = dg_last st" "dg_record (end_session i x st) = dg_record st"
  "dg_locks (end_session i x st) = dg_locks st"
  by (simp_all add: end_session_def)

text \<open>What opening a digest does to a timeline: the records move to the digest set.\<close>

definition opened_digest :: "int \<Rightarrow> zset \<Rightarrow> zset \<Rightarrow> zset" where
  "opened_digest capacity timeline digest =
     (if timeline = [] then digest
      else if digest = [] then timeline
      else let z = zunion_max timeline digest in if capacity > 0 then snd (zset_trim capacity z) else z)"

lemma digest_timeline_simps:
  assumes "digest_timeline capacity k st = Some (response, st')"
  shows "dict_get (dg_ready st) k \<noteq> None"
    and "dg_waiting st' = dg_waiting st" "dg_ready st' = dg_ready st" "dg_last st' = dg_last st" "dg_locks st' = dg_locks st"
    and "dg_sessions st' = dg_sessions st"
    and "dg_timeline st' = (dg_timeline st)(k := [])"
    and "dg_digest st' = (dg_digest st)(k := opened_digest capacity (dg_timeline st k) (dg_digest st k))"
    and "response = map (\<lambda>(r, s). (r, dg_record st' k r, s)) (rev (zasc (dg_digest st' k)))"
    and "capacity \<le> 0 \<Longrightarrow> dg_record st' = dg_record st"
  using assms
  by (auto simp: digest_timeline_def Let_def opened_digest_def split: if_splits)

lemma opened_digest_empty: "opened_digest c a b \<noteq> [] \<Longrightarrow> a \<noteq> [] \<or> b \<noteq> []"
  by (auto simp: opened_digest_def)

lemma open_digest_cases:
  assumes "open_digest cap now k proc st = (r, st')"
  obtains l where "st' = st\<lparr>dg_locks := l\<rparr>"
  | response st1 st2 session where "acquire now k 30 proc st = Some st1"
      "digest_timeline (capacity_argument cap) k st1 = Some (response, st2)"
      "st' = st2\<lparr>dg_sessions := dg_sessions st2 @ [session]\<rparr>" "se_key session = k" "se_proc session = proc" "se_time session = now"
      "se_ids session = map fst response" "se_state session = Opened" "se_records session = present_records response"
proof (cases "acquire now k 30 proc st")
  case None
  with assms that(1) [of "dg_locks st"] show thesis by (simp add: open_digest_def)
next
  case (Some st1)
  obtain l where l: "st1 = st\<lparr>dg_locks := l\<rparr>" using acquire_frame [OF Some] by metis
  show thesis
  proof (cases "digest_timeline (capacity_argument cap) k st1")
    case None
    obtain l' where "release now k proc st1 = st1\<lparr>dg_locks := l'\<rparr>" using release_frame by metis
    with assms Some None l that(1) [of l'] show thesis by (simp add: open_digest_def)
  next
    case d: (Some x)
    obtain response st2 where x: "x = (response, st2)" by (metis surj_pair)
    show thesis
      by (rule that(2) [OF Some d [unfolded x]]) (use assms Some d x in \<open>auto simp: open_digest_def Let_def\<close>)
  qed
qed

lemma schedule_ok_open: "schedule_ok st \<Longrightarrow> schedule_ok (snd (open_digest cap now k proc st))"
proof -
  assume ok: "schedule_ok st"
  obtain r st' where e: "open_digest cap now k proc st = (r, st')" by (metis surj_pair)
  then have "schedule_ok st'"
  proof (cases rule: open_digest_cases)
    case (1 l)
    show ?thesis by (rule schedule_ok_keep [OF ok]) (simp_all add: 1 has_data_def)
  next
    case (2 response st1 st2 session)
    obtain l where l: "st1 = st\<lparr>dg_locks := l\<rparr>" using acquire_frame [OF 2(1)] by metis
    note f = digest_timeline_simps [OF 2(2)]
    show ?thesis
    proof (rule schedule_ok_keep [OF ok])
      show "dg_waiting st' = dg_waiting st" "dg_ready st' = dg_ready st" by (simp_all add: 2(3) f l)
      show "has_data st j" if "has_data st' j" for j
        using that opened_digest_empty by (auto simp: has_data_def 2(3) f(7,8) l split: if_splits)
    qed
  qed
  then show ?thesis by (simp add: e)
qed

lemma close_digest_simps:
  "dg_timeline (close_digest t k d ids st) = dg_timeline st"
  "dg_digest (close_digest t k d ids st) = (dg_digest st)(k := zrem ids (dg_digest st k))"
  "dg_record (close_digest t k d ids st) = dg_record (del_records k ids st)"
  "dg_locks (close_digest t k d ids st) = dg_locks st" "dg_sessions (close_digest t k d ids st) = dg_sessions st"
  by (auto simp: close_digest_def Let_def del_records_def fun_eq_iff)

text \<open>Whether the timeline is kept, and with it the time of processing.\<close>

definition kept :: "string \<Rightarrow> string list \<Rightarrow> digest_store \<Rightarrow> bool" where
  "kept k ids st = (ids \<noteq> [] \<or> dg_timeline st k \<noteq> [] \<or> zrem ids (dg_digest st k) \<noteq> [])"

lemma close_digest_schedule:
  "dict_get (dg_ready (close_digest t k d ids st)) j = (if j = k then None else dict_get (dg_ready st) j)"
  "dict_get (dg_waiting (close_digest t k d ids st)) j =
     (if j = k then if kept k ids st then Some (t + d) else None else dict_get (dg_waiting st) j)"
  "dg_last (close_digest t k d ids st) j =
     (if j = k then if kept k ids st then Some t else None else dg_last st j)"
  "dict_wf (dg_ready st) \<Longrightarrow> dict_wf (dg_ready (close_digest t k d ids st))"
  "dict_wf (dg_waiting st) \<Longrightarrow> dict_wf (dg_waiting (close_digest t k d ids st))"
  by (auto simp: close_digest_def Let_def kept_def)

lemma schedule_ok_close: "schedule_ok st \<Longrightarrow> schedule_ok (close_digest t k d ids st)"
  unfolding schedule_ok_def close_digest_schedule(1,2)
  by (auto simp: close_digest_schedule(4,5) has_data_def close_digest_simps kept_def)

lemma schedule_ok_exit: "schedule_ok st \<Longrightarrow> schedule_ok (exit_digest now d i st)"
proof -
  assume ok: "schedule_ok st"
  let ?s = "dg_sessions st ! i"
  have "schedule_ok (close_digest (se_time ?s) (se_key ?s) d (se_ids ?s) st)" by (rule schedule_ok_close [OF ok])
  then have "schedule_ok (end_session i Exited (release now (se_key ?s) (se_proc ?s)
      (close_digest (se_time ?s) (se_key ?s) d (se_ids ?s) st)))"
    by (rule schedule_ok_keep) (simp_all add: has_data_def)
  with ok show ?thesis by (simp add: exit_digest_def Let_def)
qed

lemma schedule_ok_abort: "schedule_ok st \<Longrightarrow> schedule_ok (abort_digest now i st)"
  by (erule schedule_ok_keep) (auto simp: abort_digest_def Let_def has_data_def split: if_splits)

lemma delete_timeline_simps:
  "dict_get (dg_ready (delete_timeline k st)) j = (if j = k then None else dict_get (dg_ready st) j)"
  "dict_get (dg_waiting (delete_timeline k st)) j = (if j = k then None else dict_get (dg_waiting st) j)"
  "dg_last (delete_timeline k st) = (dg_last st)(k := None)"
  "dg_timeline (delete_timeline k st) = (dg_timeline st)(k := [])"
  "dg_digest (delete_timeline k st) = (dg_digest st)(k := [])"
  "dict_wf (dg_ready st) \<Longrightarrow> dict_wf (dg_ready (delete_timeline k st))"
  "dict_wf (dg_waiting st) \<Longrightarrow> dict_wf (dg_waiting (delete_timeline k st))"
  by (simp_all add: delete_timeline_def)

lemma schedule_ok_delete: "schedule_ok st \<Longrightarrow> schedule_ok (delete_digest now k proc st)"
proof -
  assume ok: "schedule_ok st"
  show ?thesis
  proof (cases "acquire now k 30 proc st")
    case (Some st1)
    obtain l where "st1 = st\<lparr>dg_locks := l\<rparr>" using acquire_frame [OF Some] by metis
    with ok have "schedule_ok st1" by (simp add: schedule_ok_def has_data_def)
    then have "schedule_ok (delete_timeline k st1)"
      by (simp add: schedule_ok_def has_data_def delete_timeline_simps)
    then have "schedule_ok (release now k proc (delete_timeline k st1))"
      by (rule schedule_ok_keep) (simp_all add: has_data_def)
    with Some show ?thesis by (simp add: delete_digest_def)
  qed (use ok in \<open>simp add: delete_digest_def\<close>)
qed

lemma schedule_ok_evict: "schedule_ok st \<Longrightarrow> schedule_ok (evict e st)"
  by (erule schedule_ok_keep; cases e) (auto simp: has_data_def split: if_splits)

lemma schedule_ok_step: "schedule_ok st \<Longrightarrow> schedule_ok (digest_step cap st e)"
  by (cases e) (simp_all add: schedule_ok_add schedule_ok_maintain schedule_ok_schedule schedule_ok_open
      schedule_ok_exit schedule_ok_abort schedule_ok_delete schedule_ok_evict)

interpretation digest_schedule: step_machine "digest_step cap" schedule_ok for cap
  by unfold_locales (rule schedule_ok_step)

lemma schedule_ok_run: "schedule_ok (digest_run cap es)"
  by (rule digest_schedule.run_inv) (simp add: schedule_ok_def no_digests_def has_data_def)

section \<open>How long a timeline may wait\<close>

text \<open>Steps of callers that use one maximal delay, no larger minimal delays and times from zero on.\<close>

fun usual_op :: "rat \<Rightarrow> digest_op \<Rightarrow> bool" where
  "usual_op M (AddRecord draw k r increment maximum) = (0 \<le> increment \<and> maximum = M \<and> 0 \<le> rc_timestamp r)"
| "usual_op M (OpenDigest now k proc) = (0 \<le> now)"
| "usual_op M (ExitDigest now minimum_delay i) = (0 \<le> minimum_delay \<and> minimum_delay \<le> M)"
| "usual_op M _ = True"

text \<open>The time a timeline is scheduled for, in whichever set it is.\<close>

definition first_of :: "rat option \<Rightarrow> rat option \<Rightarrow> rat option" where
  "first_of a b = (if a = None then b else a)"

definition score :: "digest_store \<Rightarrow> string \<Rightarrow> rat option" where
  "score st k = first_of (dict_get (dg_waiting st) k) (dict_get (dg_ready st) k)"

lemma first_of_None [simp]: "first_of None b = b" "first_of a None = a"
  by (simp_all add: first_of_def)

definition score_ok :: "rat \<Rightarrow> rat option \<Rightarrow> rat option \<Rightarrow> bool" where
  "score_ok M s processed =
     (case s of None \<Rightarrow> processed = None
      | Some t \<Rightarrow> 0 \<le> t \<and> (case processed of None \<Rightarrow> True | Some l \<Rightarrow> 0 \<le> l \<and> t \<le> l + M))"

definition delay_ok :: "rat \<Rightarrow> digest_store \<Rightarrow> bool" where
  "delay_ok M st = ((\<forall>k. score_ok M (score st k) (dg_last st k)) \<and> list_all (\<lambda>s. 0 \<le> se_time s) (dg_sessions st))"

lemma delay_ok_keep:
  "delay_ok M st \<Longrightarrow> score st' = score st \<Longrightarrow> dg_last st' = dg_last st \<Longrightarrow> dg_sessions st' = dg_sessions st \<Longrightarrow> delay_ok M st'"
  by (simp add: delay_ok_def)

lemma schedule_ok_apart: "schedule_ok st \<Longrightarrow> dict_get (dg_waiting st) k = None \<or> dict_get (dg_ready st) k = None"
  by (simp add: schedule_ok_def)

lemma maintenance_facts:
  assumes "schedule_ok st"
  shows "dict_get (dg_ready (maintenance_script deadline st)) k =
      (if in_slice deadline (dict_get (dg_ready st) k) then None else dict_get (dg_ready st) k)"
    and "score (maintenance_script deadline st) k = score st k"
    and "dg_last (maintenance_script deadline st) = dg_last st" "dg_sessions (maintenance_script deadline st) = dg_sessions st"
    "dg_timeline (maintenance_script deadline st) = dg_timeline st" "dg_digest (maintenance_script deadline st) = dg_digest st"
    "dg_record (maintenance_script deadline st) = dg_record st" "dg_tasks (maintenance_script deadline st) = dg_tasks st"
    "dg_locks (maintenance_script deadline st) = dg_locks st"
proof -
  obtain keys ready waiting where m: "zrange_move_slice deadline (dg_ready st) (dg_waiting st) = (keys, ready, waiting)"
    by (metis surj_pair)
  have wf: "dict_wf (dg_ready st)" using assms by (simp add: schedule_ok_def)
  note f = move_slice_get [OF wf m]
  show "dict_get (dg_ready (maintenance_script deadline st)) k =
      (if in_slice deadline (dict_get (dg_ready st) k) then None else dict_get (dg_ready st) k)"
    by (simp add: maintenance_script_def m f(1))
  show "score (maintenance_script deadline st) k = score st k"
    using schedule_ok_apart [OF assms, of k]
    by (auto simp: maintenance_script_def m f(1,2) score_def first_of_def in_slice_def split: option.splits)
qed (simp_all add: maintenance_script_def split: prod.split)

lemma schedule_facts:
  assumes "schedule_ok st"
  shows "dict_get (dg_ready (schedule_timelines deadline st)) k =
      (if in_slice deadline (dict_get (dg_waiting st) k) then dict_get (dg_waiting st) k else dict_get (dg_ready st) k)"
    and "score (schedule_timelines deadline st) k = score st k"
    and "\<exists>ks. dg_tasks (schedule_timelines deadline st) = dg_tasks st @ ks \<and> (\<forall>j. j \<in> set ks \<longleftrightarrow> in_slice deadline (dict_get (dg_waiting st) j))"
    and "dg_last (schedule_timelines deadline st) = dg_last st" "dg_sessions (schedule_timelines deadline st) = dg_sessions st"
    "dg_timeline (schedule_timelines deadline st) = dg_timeline st" "dg_digest (schedule_timelines deadline st) = dg_digest st"
    "dg_record (schedule_timelines deadline st) = dg_record st" "dg_locks (schedule_timelines deadline st) = dg_locks st"
proof -
  obtain keys waiting ready where m: "zrange_move_slice deadline (dg_waiting st) (dg_ready st) = (keys, waiting, ready)"
    by (metis surj_pair)
  have wf: "dict_wf (dg_waiting st)" using assms by (simp add: schedule_ok_def)
  note f = move_slice_get [OF wf m]
  show "dict_get (dg_ready (schedule_timelines deadline st)) k =
      (if in_slice deadline (dict_get (dg_waiting st) k) then dict_get (dg_waiting st) k else dict_get (dg_ready st) k)"
    by (simp add: schedule_timelines_def schedule_script_def m f(2) Let_def)
  show "score (schedule_timelines deadline st) k = score st k"
    using schedule_ok_apart [OF assms, of k]
    by (auto simp: schedule_timelines_def schedule_script_def Let_def m f(1,2) score_def first_of_def in_slice_def split: option.splits)
  show "\<exists>ks. dg_tasks (schedule_timelines deadline st) = dg_tasks st @ ks \<and> (\<forall>j. j \<in> set ks \<longleftrightarrow> in_slice deadline (dict_get (dg_waiting st) j))"
    by (rule exI [of _ "map fst keys"]) (simp add: schedule_timelines_def schedule_script_def Let_def m f(5))
qed (simp_all add: schedule_timelines_def schedule_script_def Let_def split: prod.split)

lemma add_record_simps:
  assumes "s' = st\<lparr>dg_record := (dg_record st)(k := (dg_record st k)(rc_key r := Some (rc_value r))),
                  dg_timeline := (dg_timeline st)(k := dict_set (rc_key r) (rc_timestamp r) (dg_timeline st k))\<rparr>"
    "add_timeline_to_schedule k (rc_timestamp r) increment maximum s' = (b, s'')"
  shows "dg_waiting (add_record cap draw k r increment maximum st) = dg_waiting s''"
    "dg_ready (add_record cap draw k r increment maximum st) = dg_ready s''"
    "dg_last (add_record cap draw k r increment maximum st) = dg_last st"
    "dg_sessions (add_record cap draw k r increment maximum st) = dg_sessions st"
    "dg_digest (add_record cap draw k r increment maximum st) = dg_digest st"
    "dg_locks (add_record cap draw k r increment maximum st) = dg_locks st"
    "capacity_argument cap \<le> 0 \<Longrightarrow> dg_timeline (add_record cap draw k r increment maximum st) = dg_timeline s'"
    "capacity_argument cap \<le> 0 \<Longrightarrow> dg_record (add_record cap draw k r increment maximum st) = dg_record s'"
  using add_to_schedule(1) [OF assms(2)] assms
  by (auto simp add: add_record_def add_record_to_timeline_def Let_def split: prod.split)

lemma add_record_score:
  assumes "schedule_ok st"
  shows "score (add_record cap draw k r increment maximum st) j =
    (if j = k then case dict_get (dg_ready st) k of
        Some t \<Rightarrow> Some t
      | None \<Rightarrow> (case dict_get (dg_waiting st) k of None \<Rightarrow> Some (rc_timestamp r)
                | Some s \<Rightarrow> Some (delayed_to (dg_last st k) (rc_timestamp r) increment maximum s))
     else score st j)"
proof -
  define s' where "s' = st\<lparr>dg_record := (dg_record st)(k := (dg_record st k)(rc_key r := Some (rc_value r))),
                  dg_timeline := (dg_timeline st)(k := dict_set (rc_key r) (rc_timestamp r) (dg_timeline st k))\<rparr>"
  obtain b s'' where b: "add_timeline_to_schedule k (rc_timestamp r) increment maximum s' = (b, s'')" by (metis surj_pair)
  note e = add_record_simps [OF s'_def b, of cap draw] and f = add_to_schedule [OF b]
  have s': "dg_waiting s' = dg_waiting st" "dg_ready s' = dg_ready st" "dg_last s' = dg_last st" by (simp_all add: s'_def)
  show ?thesis using schedule_ok_apart [OF assms, of k] f(2)
    by (auto simp: score_def first_of_def e(1,2) f(3,4) s' split: option.splits)
qed

lemma delay_ok_add:
  assumes "delay_ok M st" "schedule_ok st" "0 \<le> increment" "0 \<le> rc_timestamp r" "0 \<le> M"
  shows "delay_ok M (add_record cap draw k r increment M st)"
proof -
  let ?st = "add_record cap draw k r increment M st"
  have fr: "dg_last ?st = dg_last st" "dg_sessions ?st = dg_sessions st"
    using add_record_simps(3,4) [OF refl] by (metis surj_pair)+
  have "score_ok M (score ?st j) (dg_last st j)" for j
  proof -
    have j: "score_ok M (score st j) (dg_last st j)" using assms(1) by (simp add: delay_ok_def)
    show ?thesis
    proof (cases "j = k \<and> dict_get (dg_ready st) k = None")
      case True
      then have "score ?st j = Some (case dict_get (dg_waiting st) k of None \<Rightarrow> rc_timestamp r
          | Some s \<Rightarrow> delayed_to (dg_last st k) (rc_timestamp r) increment M s)"
        by (simp add: add_record_score [OF assms(2)] split: option.split)
      moreover have "score st j = dict_get (dg_waiting st) k" using True by (simp add: score_def)
      ultimately show ?thesis using j True assms(3-5)
        by (auto simp: score_ok_def delayed_to_def split: option.splits)
    next
      case False
      then have "score ?st j = score st j" using schedule_ok_apart [OF assms(2), of k]
        unfolding add_record_score [OF assms(2)] by (auto simp: score_def)
      with j show ?thesis by simp
    qed
  qed
  with assms(1) show ?thesis by (simp add: delay_ok_def fr)
qed

lemma delay_ok_open:
  assumes "delay_ok M st" "0 \<le> now"
  shows "delay_ok M (snd (open_digest cap now k proc st))"
proof -
  obtain r st' where e: "open_digest cap now k proc st = (r, st')" by (metis surj_pair)
  then have "delay_ok M st'"
  proof (cases rule: open_digest_cases)
    case (1 l)
    show ?thesis by (rule delay_ok_keep [OF assms(1)]) (simp_all add: 1 score_def fun_eq_iff)
  next
    case (2 response st1 st2 session)
    obtain l where l: "st1 = st\<lparr>dg_locks := l\<rparr>" using acquire_frame [OF 2(1)] by metis
    note f = digest_timeline_simps [OF 2(2)]
    have "score st' = score st" "dg_last st' = dg_last st" "dg_sessions st' = dg_sessions st @ [session]"
      by (simp_all add: 2(3) f(2-6) l score_def fun_eq_iff)
    with assms show ?thesis by (simp add: delay_ok_def 2(6))
  qed
  with e show ?thesis by simp
qed

lemma close_score:
  "score (close_digest t k d ids st) j = (if j = k then if kept k ids st then Some (t + d) else None else score st j)"
  by (simp add: score_def close_digest_schedule(1,2))

lemma delay_ok_exit:
  assumes "delay_ok M st" "0 \<le> d" "d \<le> M"
  shows "delay_ok M (exit_digest now d i st)"
proof (cases "i < length (dg_sessions st) \<and> se_state (dg_sessions st ! i) = Opened")
  case True
  let ?s = "dg_sessions st ! i" and ?st = "exit_digest now d i st"
  have t: "0 \<le> se_time ?s" using assms(1) True by (simp add: delay_ok_def list_all_length)
  have sc: "score ?st j = score (close_digest (se_time ?s) (se_key ?s) d (se_ids ?s) st) j" for j
    using True by (simp add: exit_digest_def Let_def score_def)
  have l: "dg_last ?st = dg_last (close_digest (se_time ?s) (se_key ?s) d (se_ids ?s) st)"
    using True by (simp add: exit_digest_def Let_def)
  have "score_ok M (score ?st j) (dg_last ?st j)" for j
    using assms t by (simp add: sc l close_score close_digest_schedule(3) delay_ok_def) (simp add: score_ok_def)
  moreover have "dg_sessions ?st = (dg_sessions st)[i := ?s\<lparr>se_state := Exited\<rparr>]"
    using True by (simp add: exit_digest_def Let_def end_session_def close_digest_simps)
  ultimately show ?thesis using assms(1) t True by (auto simp: delay_ok_def list_all_length nth_list_update)
qed (use assms in \<open>auto simp: exit_digest_def\<close>)

lemma delay_ok_abort: "delay_ok M st \<Longrightarrow> delay_ok M (abort_digest now i st)"
proof -
  assume ok: "delay_ok M st"
  let ?st = "abort_digest now i st"
  have "score ?st = score st" "dg_last ?st = dg_last st" by (simp_all add: abort_digest_def Let_def score_def fun_eq_iff)
  moreover have "list_all (\<lambda>s. 0 \<le> se_time s) (dg_sessions ?st)"
    using ok by (auto simp: abort_digest_def Let_def end_session_def delay_ok_def list_all_length nth_list_update)
  ultimately show ?thesis using ok by (simp add: delay_ok_def)
qed

lemma delay_ok_delete: "delay_ok M st \<Longrightarrow> delay_ok M (delete_digest now k proc st)"
proof -
  assume ok: "delay_ok M st"
  show ?thesis
  proof (cases "acquire now k 30 proc st")
    case (Some st1)
    obtain l where l: "st1 = st\<lparr>dg_locks := l\<rparr>" using acquire_frame [OF Some] by metis
    have "dg_sessions (delete_timeline k st1) = dg_sessions st" by (simp add: delete_timeline_def l)
    with ok show ?thesis
      by (simp add: delete_digest_def Some delay_ok_def score_def delete_timeline_simps l) (simp add: score_ok_def)
  qed (use ok in \<open>simp add: delete_digest_def\<close>)
qed

lemma delay_ok_evict: "delay_ok M st \<Longrightarrow> delay_ok M (evict e st)"
proof (cases e)
  case (EvictLast k)
  then show "delay_ok M st \<Longrightarrow> delay_ok M (evict e st)"
    by (auto simp: delay_ok_def score_def score_ok_def split: option.splits)
qed (auto simp: delay_ok_def score_def)

definition timelines_ok :: "rat \<Rightarrow> digest_store \<Rightarrow> bool" where
  "timelines_ok M st = (schedule_ok st \<and> delay_ok M st)"

lemma timelines_ok_step:
  assumes "0 \<le> M" "timelines_ok M st" "usual_op M e"
  shows "timelines_ok M (digest_step cap st e)"
proof -
  have ok: "schedule_ok st" "delay_ok M st" using assms(2) by (simp_all add: timelines_ok_def)
  have "delay_ok M (digest_step cap st e)"
  proof (cases e)
    case (Maintain deadline)
    show ?thesis unfolding Maintain digest_step.simps
      by (rule delay_ok_keep [OF ok(2)]) (simp_all add: maintenance_facts [OF ok(1)] fun_eq_iff)
  next
    case (Schedule deadline)
    show ?thesis unfolding Schedule digest_step.simps
      by (rule delay_ok_keep [OF ok(2)]) (simp_all add: schedule_facts [OF ok(1)] fun_eq_iff)
  qed (use assms ok in \<open>auto simp: delay_ok_add delay_ok_open delay_ok_exit delay_ok_abort delay_ok_delete delay_ok_evict\<close>)
  then show ?thesis using ok by (simp add: timelines_ok_def schedule_ok_step)
qed

lemma timelines_ok_run:
  assumes "0 \<le> M" "list_all (usual_op M) es"
  shows "timelines_ok M (digest_run cap es)"
  using assms(2)
proof (induction es rule: rev_induct)
  case Nil
  show ?case by (simp add: timelines_ok_def schedule_ok_def delay_ok_def no_digests_def has_data_def score_ok_def score_def)
next
  case (snoc e es)
  then show ?case using timelines_ok_step [OF assms(1)] by simp
qed

section \<open>Every timeline with records is scheduled\<close>

text \<open>
  C13. Whatever is added, scheduled, digested, deleted or evicted, in whatever interleaving, a timeline
  with records is in exactly one of the two states: waiting or ready. None is forgotten.
\<close>

theorem timelines_are_scheduled:
  assumes "dg_timeline (digest_run cap es) k \<noteq> [] \<or> dg_digest (digest_run cap es) k \<noteq> []"
  shows "(dict_get (dg_waiting (digest_run cap es)) k = None) \<noteq> (dict_get (dg_ready (digest_run cap es)) k = None)"
  using schedule_ok_run [of cap es] assms unfolding schedule_ok_def has_data_def by metis

text \<open>
  C20. The scheduling task reaches every timeline in time: if it was last processed at \<open>l\<close>, then, with callers
  that use the maximal delay \<open>M\<close>, a run of the task five minutes after \<open>l + M\<close> or later queues its
  delivery and leaves it ready, whether it was waiting, or ready with a delivery that got lost.
\<close>

theorem digest_is_delivered_in_time:
  assumes "0 \<le> M" "list_all (usual_op M) es"
    and "dg_timeline (digest_run cap es) k \<noteq> [] \<or> dg_digest (digest_run cap es) k \<noteq> []"
    and "dg_last (digest_run cap es) k = Some l" "l + M + 300 \<le> deadline"
  shows "\<exists>ks. dg_tasks (schedule_digests deadline (digest_run cap es)) = dg_tasks (digest_run cap es) @ ks \<and> k \<in> set ks
           \<and> dict_get (dg_ready (schedule_digests deadline (digest_run cap es))) k \<noteq> None"
proof -
  let ?s = "digest_run cap es" and ?m = "maintenance_script (deadline - 300) (digest_run cap es)"
  have ok: "schedule_ok ?s" "delay_ok M ?s" using timelines_ok_run [OF assms(1,2)] by (simp_all add: timelines_ok_def)
  have m: "schedule_ok ?m" by (rule schedule_ok_maintain [OF ok(1)])
  have "score_ok M (score ?s k) (Some l)" using ok(2) assms(4) unfolding delay_ok_def by metis
  then obtain t where t: "score ?s k = Some t" "0 \<le> t" "t \<le> l + M" by (auto simp: score_ok_def split: option.splits)
  have "dict_get (dg_ready ?m) k = None"
  proof (cases "dict_get (dg_ready ?s) k")
    case (Some u)
    then have "score ?s k = Some u" using schedule_ok_apart [OF ok(1), of k] by (simp add: score_def)
    with t assms(5) have "in_slice (deadline - 300) (Some u)" by (simp add: in_slice_def)
    with Some show ?thesis by (simp add: maintenance_facts(1) [OF ok(1)])
  qed (simp add: maintenance_facts(1) [OF ok(1)])
  then have "dict_get (dg_waiting ?m) k = Some t"
    using t(1) maintenance_facts(2) [OF ok(1), of "deadline - 300" k] by (simp add: score_def)
  with t assms(5) have "in_slice deadline (dict_get (dg_waiting ?m) k)" "dict_get (dg_waiting ?m) k \<noteq> None"
    by (simp_all add: in_slice_def)
  with schedule_facts(1,3) [OF m, of deadline] show ?thesis
    by (auto simp: schedule_digests_def maintenance_facts(8) [OF ok(1)])
qed

section \<open>No record is lost\<close>

text \<open>
  A session yields a value for a key; a session from the \<open>n\<close>-th on that ended well has handed it over; it is
  pending while the key is in one of the two sets and its value is stored.
\<close>

definition yields :: "string \<Rightarrow> notification \<Rightarrow> digest_session \<Rightarrow> bool" where
  "yields i v s = list_ex (\<lambda>x. rc_key x = i \<and> rc_value x = v) (se_records s)"

definition handed_over :: "nat \<Rightarrow> string \<Rightarrow> string \<Rightarrow> notification \<Rightarrow> digest_store \<Rightarrow> bool" where
  "handed_over n k i v st =
     list_ex (\<lambda>j. let s = dg_sessions st ! j in se_key s = k \<and> se_state s = Exited \<and> yields i v s) [n ..< length (dg_sessions st)]"

definition pending :: "string \<Rightarrow> string \<Rightarrow> notification \<Rightarrow> digest_store \<Rightarrow> bool" where
  "pending k i v st =
     ((i \<in> fst ` set (dg_timeline st k) \<or> i \<in> fst ` set (dg_digest st k)) \<and> dg_record st k i = Some v)"

definition holds_key :: "string \<Rightarrow> string \<Rightarrow> digest_session \<Rightarrow> bool" where
  "holds_key k i s = (se_key s = k \<and> se_state s = Opened \<and> i \<in> set (se_ids s))"

fun lossless_op :: "digest_op \<Rightarrow> bool" where
  "lossless_op (Evict _) = False"
| "lossless_op (DeleteDigest _ _ _) = False"
| "lossless_op _ = True"

fun adds_key :: "string \<Rightarrow> string \<Rightarrow> digest_op \<Rightarrow> bool" where
  "adds_key k i (AddRecord _ l r _ _) = (l = k \<and> rc_key r = i)"
| "adds_key k i _ = False"

text \<open>A pending value is yielded by every open session that will delete it when it ends.\<close>

definition safe :: "nat \<Rightarrow> string \<Rightarrow> string \<Rightarrow> notification \<Rightarrow> digest_store \<Rightarrow> bool" where
  "safe n k i v st =
     (n \<le> length (dg_sessions st) \<and>
      (handed_over n k i v st \<or>
       pending k i v st \<and> (\<forall>j < length (dg_sessions st). holds_key k i (dg_sessions st ! j) \<longrightarrow> n \<le> j \<and> yields i v (dg_sessions st ! j))))"

lemma handed_over_iff:
  "handed_over n k i v st \<longleftrightarrow>
     (\<exists>j. n \<le> j \<and> j < length (dg_sessions st) \<and> se_key (dg_sessions st ! j) = k \<and> se_state (dg_sessions st ! j) = Exited
        \<and> yields i v (dg_sessions st ! j))"
  by (auto simp: handed_over_def list_ex_iff Let_def)

text \<open>A session that has ended stays as it is.\<close>

lemma handed_over_mono:
  assumes "handed_over n k i v st"
    and "\<And>j. j < length (dg_sessions st) \<Longrightarrow> se_state (dg_sessions st ! j) = Exited \<Longrightarrow>
           j < length (dg_sessions st') \<and> dg_sessions st' ! j = dg_sessions st ! j"
  shows "handed_over n k i v st'"
  using assms unfolding handed_over_iff by metis

lemma exited_stays: "se_state (xs ! m) = Exited \<Longrightarrow> se_state (xs ! j) = Opened \<Longrightarrow> xs[j := y] ! m = xs ! m"
  by (cases "m = j") auto

lemma safe_keep:
  assumes "safe n k i v st" "dg_sessions st' = dg_sessions st" "pending k i v st \<Longrightarrow> pending k i v st'"
  shows "safe n k i v st'"
  using assms by (auto simp: safe_def handed_over_iff)

lemma safe_end:
  assumes "safe n k i v st" "j < length (dg_sessions st)" "se_state (dg_sessions st ! j) = Opened"
    and "dg_sessions st' = (dg_sessions st)[j := (dg_sessions st ! j)\<lparr>se_state := x\<rparr>]" "x \<noteq> Opened"
    and "x = Exited \<or> \<not> holds_key k i (dg_sessions st ! j) \<or> pending k i v st'"
    and "\<not> holds_key k i (dg_sessions st ! j) \<Longrightarrow> pending k i v st \<Longrightarrow> pending k i v st'"
  shows "safe n k i v st'"
proof (cases "handed_over n k i v st")
  case True
  then have "handed_over n k i v st'"
    by (rule handed_over_mono) (use assms(3) in \<open>simp_all add: assms(4) exited_stays\<close>)
  with assms(1) show ?thesis by (simp add: safe_def assms(4))
next
  case False
  let ?s = "dg_sessions st ! j"
  from False assms(1) have p: "pending k i v st" "n \<le> length (dg_sessions st)"
    and open_ones: "\<And>m. m < length (dg_sessions st) \<Longrightarrow> holds_key k i (dg_sessions st ! m) \<Longrightarrow> n \<le> m \<and> yields i v (dg_sessions st ! m)"
    by (auto simp: safe_def)
  have rest: "n \<le> m \<and> yields i v (dg_sessions st' ! m)"
    if "m < length (dg_sessions st')" "holds_key k i (dg_sessions st' ! m)" for m
    using that open_ones [of m] assms(2,5) by (auto simp: assms(4) nth_list_update holds_key_def split: if_splits)
  show ?thesis
  proof (cases "holds_key k i ?s \<and> x = Exited")
    case True
    with open_ones [OF assms(2)] have "n \<le> j" "yields i v ?s" "se_key ?s = k" by (auto simp: holds_key_def)
    with True assms(2) have "handed_over n k i v st'"
      unfolding handed_over_iff assms(4) by (intro exI [of _ j]) (simp add: yields_def)
    with p(2) show ?thesis by (simp add: safe_def assms(4))
  next
    case False
    with assms(6,7) p(1) have "pending k i v st'" by blast
    with rest p(2) show ?thesis by (simp add: safe_def assms(4))
  qed
qed

lemma zunion_max_keys: "fst ` set (zunion_max a b) = fst ` set a \<union> fst ` set b"
proof -
  have "fst ` set (dict_merge b l) = fst ` set l \<union> fst ` set b" for b l :: zset
    by (induction b l rule: dict_merge.induct) (auto simp: dict_set_keys)
  moreover have "fst \<circ> (\<lambda>(m, s). (m, case dict_get b m of None \<Rightarrow> s | Some t \<Rightarrow> max s t)) = fst" by auto
  ultimately show ?thesis by (simp only: zunion_max_def set_map image_comp)
qed

text \<open>What an open session yields are the stored values of its keys.\<close>

lemma yields_present:
  "list_ex (\<lambda>x. rc_key x = i \<and> rc_value x = v) (present_records (map (\<lambda>(r, s). (r, f r, s)) xs)) \<longleftrightarrow>
     i \<in> fst ` set xs \<and> f i = Some v"
proof (induction xs)
  case (Cons a xs)
  then show ?case by (cases a; cases "f (fst a)") (auto simp: present_records_def)
qed (simp add: present_records_def)

lemma safe_open:
  assumes "safe n k i v st"
  shows "safe n k i v (snd (open_digest None now l proc st))"
proof -
  obtain r st' where e: "open_digest None now l proc st = (r, st')" by (metis surj_pair)
  then have "safe n k i v st'"
  proof (cases rule: open_digest_cases)
    case (1 locks)
    then show ?thesis by (intro safe_keep [OF assms]) (simp_all add: pending_def)
  next
    case (2 response st1 st2 session)
    obtain locks where l: "st1 = st\<lparr>dg_locks := locks\<rparr>" using acquire_frame [OF 2(1)] by metis
    note f = digest_timeline_simps [OF 2(2), unfolded capacity_argument_def, simplified]
    have sess: "dg_sessions st' = dg_sessions st @ [session]" by (simp add: 2(3) f(6) l)
    have rec: "dg_record st2 = dg_record st" by (simp add: f(10) l)
    have p: "pending k i v st'" if "pending k i v st"
      using that by (auto simp: pending_def 2(3) f(7,8) f(10) l opened_digest_def zunion_max_keys)
    have y: "yields i v session" if "pending k i v st" "holds_key k i session"
    proof -
      have "l = k" "i \<in> set (se_ids session)" using that(2) by (simp_all add: holds_key_def 2(4))
      then have "i \<in> fst ` set (rev (zasc (dg_digest st2 k)))" unfolding 2(7) f(9) by (auto simp: rev_image_eqI)
      moreover have "dg_record st k i = Some v" using that(1) by (simp add: pending_def)
      ultimately show ?thesis unfolding yields_def 2(9) f(9) \<open>l = k\<close> yields_present rec by blast
    qed
    have "handed_over n k i v st'" if "handed_over n k i v st"
      using that by (rule handed_over_mono) (simp add: sess nth_append)
    moreover have "m < length (dg_sessions st) \<or> dg_sessions st' ! m = session \<and> m = length (dg_sessions st)"
      if "m < length (dg_sessions st')" for m
      using that by (auto simp: sess nth_append less_Suc_eq)
    ultimately show ?thesis
      using assms p y unfolding safe_def by (auto simp: sess nth_append less_Suc_eq)
  qed
  with e show ?thesis by simp
qed

lemma safe_step:
  assumes "safe n k i v st" "schedule_ok st" "lossless_op e" "\<not> adds_key k i e"
  shows "safe n k i v (digest_step None st e)"
proof (cases e)
  case (AddRecord draw l r increment maximum)
  define s' where "s' = st\<lparr>dg_record := (dg_record st)(l := (dg_record st l)(rc_key r := Some (rc_value r))),
                  dg_timeline := (dg_timeline st)(l := dict_set (rc_key r) (rc_timestamp r) (dg_timeline st l))\<rparr>"
  obtain b s'' where b: "add_timeline_to_schedule l (rc_timestamp r) increment maximum s' = (b, s'')" by (metis surj_pair)
  note f = add_record_simps [OF s'_def b, of None draw, unfolded capacity_argument_def, simplified]
  show ?thesis unfolding AddRecord digest_step.simps
    by (rule safe_keep [OF assms(1) f(4)])
      (use assms(4) in \<open>auto simp: AddRecord pending_def f(5,7,8) s'_def dict_set_keys\<close>)
next
  case (Maintain deadline)
  show ?thesis unfolding Maintain digest_step.simps
    by (rule safe_keep [OF assms(1)]) (simp_all add: maintenance_facts [OF assms(2)] pending_def)
next
  case (Schedule deadline)
  show ?thesis unfolding Schedule digest_step.simps
    by (rule safe_keep [OF assms(1)]) (simp_all add: schedule_facts [OF assms(2)] pending_def)
next
  case (OpenDigest now l proc)
  then show ?thesis using safe_open [OF assms(1)] by simp
next
  case (ExitDigest now d j)
  show ?thesis
  proof (cases "j < length (dg_sessions st) \<and> se_state (dg_sessions st ! j) = Opened")
    case True
    show ?thesis
      by (rule safe_end [OF assms(1), where j = j and x = Exited])
        (use True in \<open>auto simp: ExitDigest exit_digest_def Let_def end_session_def close_digest_simps del_records_def
           pending_def holds_key_def zrem_def\<close>)
  qed (use assms(1) in \<open>auto simp: ExitDigest exit_digest_def\<close>)
next
  case (AbortDigest now j)
  show ?thesis
  proof (cases "j < length (dg_sessions st) \<and> se_state (dg_sessions st ! j) = Opened")
    case True
    have p: "pending k i v (digest_step None st e) = pending k i v st"
      using True by (simp add: AbortDigest abort_digest_def Let_def pending_def)
    have s: "dg_sessions (digest_step None st e) = (dg_sessions st)[j := (dg_sessions st ! j)\<lparr>se_state := Aborted\<rparr>]"
      using True by (simp add: AbortDigest abort_digest_def Let_def end_session_def)
    have "safe n k i v st'" if "dg_sessions st' = (dg_sessions st)[j := (dg_sessions st ! j)\<lparr>se_state := Aborted\<rparr>]"
      "pending k i v st' = pending k i v st" for st'
    proof (cases "handed_over n k i v st")
      case h: True
      then have "handed_over n k i v st'"
        by (rule handed_over_mono) (use True in \<open>simp_all add: that(1) exited_stays\<close>)
      with assms(1) show ?thesis by (simp add: safe_def that(1))
    next
      case False
      with assms(1) that(2) have "pending k i v st'" by (simp add: safe_def)
      then show ?thesis
        by (intro safe_end [OF assms(1) _ _ that(1)]) (use True in auto)
    qed
    from this [OF s p] show ?thesis .
  qed (use assms(1) in \<open>auto simp: AbortDigest abort_digest_def\<close>)
qed (use assms(3) in simp_all)

lemma safe_run:
  "safe n k i v st \<Longrightarrow> schedule_ok st \<Longrightarrow> list_all lossless_op es \<Longrightarrow> list_all (\<lambda>e. \<not> adds_key k i e) es \<Longrightarrow>
     safe n k i v (foldl (digest_step None) st es)"
  by (induction es arbitrary: st) (simp_all add: safe_step schedule_ok_step)

text \<open>
  C6. No record is lost while nothing is evicted or deleted and no capacity is set, whatever the interleaving of
  adding, scheduling and digests that end, fail or overlap. A record that is added while no open digest of its timeline
  holds its key, and is not replaced by a later one under the same key, is pending with its value, or
  a digest that was opened after it was added has yielded it, with that very value, and ended well.
\<close>

theorem no_record_lost:
  assumes "list_all lossless_op (es @ es')"
    and "list_all (\<lambda>s. \<not> holds_key k (rc_key r) s) (dg_sessions (digest_run None es))"
    and "list_all (\<lambda>e. \<not> adds_key k (rc_key r) e) es'"
  shows "let st = digest_run None (es @ [AddRecord draw k r increment maximum] @ es') in
    handed_over (length (dg_sessions (digest_run None es))) k (rc_key r) (rc_value r) st
    \<or> pending k (rc_key r) (rc_value r) st"
proof -
  let ?st = "digest_run None es" and ?n = "length (dg_sessions (digest_run None es))"
  let ?add = "add_record None draw k r increment maximum ?st"
  define s' where "s' = ?st\<lparr>dg_record := (dg_record ?st)(k := (dg_record ?st k)(rc_key r := Some (rc_value r))),
                  dg_timeline := (dg_timeline ?st)(k := dict_set (rc_key r) (rc_timestamp r) (dg_timeline ?st k))\<rparr>"
  obtain b s'' where b: "add_timeline_to_schedule k (rc_timestamp r) increment maximum s' = (b, s'')" by (metis surj_pair)
  note f = add_record_simps [OF s'_def b, of None draw, unfolded capacity_argument_def, simplified]
  have "pending k (rc_key r) (rc_value r) ?add" by (simp add: pending_def f(7,8) s'_def dict_set_keys)
  then have "safe ?n k (rc_key r) (rc_value r) ?add"
    using assms(2) by (simp add: safe_def f(4) list_all_length)
  then have "safe ?n k (rc_key r) (rc_value r) (foldl (digest_step None) ?add es')"
    by (rule safe_run) (use assms schedule_ok_add [OF schedule_ok_run] in simp_all)
  then show ?thesis by (auto simp: Let_def safe_def)
qed

section \<open>One digest of a timeline at a time\<close>

text \<open>Every digest ends, and every lock is asked for, within thirty seconds of the opening of those that are open.\<close>

definition all_recent :: "rat \<Rightarrow> digest_store \<Rightarrow> bool" where
  "all_recent now st = list_all (\<lambda>s. se_state s = Opened \<longrightarrow> now < se_time s + 30) (dg_sessions st)"

fun in_time :: "digest_store \<Rightarrow> digest_op \<Rightarrow> bool" where
  "in_time st (OpenDigest now k proc) = all_recent now st"
| "in_time st (ExitDigest now minimum_delay i) = all_recent now st"
| "in_time st (AbortDigest now i) = all_recent now st"
| "in_time st (DeleteDigest now k proc) = all_recent now st"
| "in_time st _ = True"

fun timely :: "nat option \<Rightarrow> digest_store \<Rightarrow> digest_op list \<Rightarrow> bool" where
  "timely cap st [] = True"
| "timely cap st (e # es) = (in_time st e \<and> timely cap (digest_step cap st e) es)"

definition open_keys :: "digest_session list \<Rightarrow> string list" where
  "open_keys ss = map se_key (filter (\<lambda>s. se_state s = Opened) ss)"

definition locks_ok :: "digest_store \<Rightarrow> bool" where
  "locks_ok st =
     (distinct (open_keys (dg_sessions st))
      \<and> (\<forall>s \<in> set (dg_sessions st). se_state s = Opened \<longrightarrow> dg_locks st (se_key s) = Some (se_proc s, se_time s + 30)))"

lemma locks_ok_keep: "locks_ok st \<Longrightarrow> dg_sessions st' = dg_sessions st \<Longrightarrow> dg_locks st' = dg_locks st \<Longrightarrow> locks_ok st'"
  by (simp add: locks_ok_def)

lemma acquired_is_free:
  assumes "locks_ok st" "all_recent now st" "acquire now k 30 proc st = Some st1"
  shows "k \<notin> set (open_keys (dg_sessions st))" "st1 = st\<lparr>dg_locks := (dg_locks st)(k := Some (proc, now + 30))\<rparr>"
proof -
  show "st1 = st\<lparr>dg_locks := (dg_locks st)(k := Some (proc, now + 30))\<rparr>"
    using assms(3) by (auto simp: acquire_def split: option.splits if_splits)
  show "k \<notin> set (open_keys (dg_sessions st))"
  proof
    assume "k \<in> set (open_keys (dg_sessions st))"
    then obtain s where s: "s \<in> set (dg_sessions st)" "se_state s = Opened" "se_key s = k" by (auto simp: open_keys_def)
    then have "dg_locks st k = Some (se_proc s, se_time s + 30)" using assms(1) by (auto simp: locks_ok_def)
    moreover have "now < se_time s + 30" using assms(2) s by (auto simp: all_recent_def list_all_iff)
    ultimately show False using assms(3) by (simp add: acquire_def)
  qed
qed

lemma locks_ok_open:
  assumes "locks_ok st" "all_recent now st"
  shows "locks_ok (snd (open_digest cap now k proc st))"
proof (cases "acquire now k 30 proc st")
  case None
  with assms show ?thesis by (simp add: open_digest_def)
next
  case (Some st1)
  note a = acquired_is_free [OF assms Some]
  have other: "se_key s \<noteq> k" if "s \<in> set (dg_sessions st)" "se_state s = Opened" for s
    using a(1) that by (auto simp: open_keys_def)
  show ?thesis
  proof (cases "digest_timeline (capacity_argument cap) k st1")
    case None
    then have "snd (open_digest cap now k proc st) = release now k proc st1" by (simp add: open_digest_def Some)
    moreover have "release now k proc st1 = st\<lparr>dg_locks := (dg_locks st)(k := None)\<rparr>" by (simp add: release_def a(2))
    ultimately show ?thesis using assms(1) other by (simp add: locks_ok_def)
  next
    case d: (Some x)
    obtain response st2 where x: "x = (response, st2)" by (metis surj_pair)
    note f = digest_timeline_simps [OF d [unfolded x]]
    let ?session = "\<lparr>se_key = k, se_proc = proc, se_time = now, se_ids = map fst response,
      se_records = present_records response, se_state = Opened\<rparr>"
    have e: "snd (open_digest cap now k proc st) = st2\<lparr>dg_sessions := dg_sessions st @ [?session]\<rparr>"
      using d x f(6) by (simp add: open_digest_def Some Let_def a(2))
    have "dg_locks st2 = (dg_locks st)(k := Some (proc, now + 30))" by (simp add: f(5) a(2))
    then show ?thesis using assms(1) a(1) other by (auto simp: e locks_ok_def open_keys_def)
  qed
qed

text \<open>The end of an open digest, with the script or without.\<close>

lemma locks_ok_end:
  assumes "locks_ok st" "all_recent now st" "i < length (dg_sessions st)" "se_state (dg_sessions st ! i) = Opened"
    and "dg_sessions st1 = dg_sessions st" "dg_locks st1 = dg_locks st" "x \<noteq> Opened"
  shows "locks_ok (end_session i x (release now (se_key (dg_sessions st ! i)) (se_proc (dg_sessions st ! i)) st1))"
proof -
  let ?ss = "dg_sessions st" and ?s = "dg_sessions st ! i" and ?e = "(dg_sessions st ! i)\<lparr>se_state := x\<rparr>"
  have m: "?s \<in> set ?ss" using assms(3) by simp
  have l: "dg_locks st (se_key ?s) = Some (se_proc ?s, se_time ?s + 30)" using assms(1,4) m by (auto simp: locks_ok_def)
  have t: "now < se_time ?s + 30" using assms(2,4) m by (auto simp: all_recent_def list_all_iff)
  have rel: "dg_locks (release now (se_key ?s) (se_proc ?s) st1) = (dg_locks st)(se_key ?s := None)"
    using l t by (simp add: release_def assms(6))
  have split: "?ss = take i ?ss @ ?s # drop (Suc i) ?ss" using assms(3) by (rule id_take_nth_drop)
  have upd: "?ss[i := ?e] = take i ?ss @ ?e # drop (Suc i) ?ss" using assms(3) by (rule upd_conv_take_nth_drop)
  have keys: "open_keys ?ss = open_keys (take i ?ss) @ se_key ?s # open_keys (drop (Suc i) ?ss)"
    by (subst split) (simp add: open_keys_def assms(4))
  have keys': "open_keys (?ss[i := ?e]) = open_keys (take i ?ss) @ open_keys (drop (Suc i) ?ss)"
    unfolding upd using assms(7) by (simp add: open_keys_def)
  have d: "distinct (open_keys (take i ?ss) @ se_key ?s # open_keys (drop (Suc i) ?ss))"
    using assms(1) keys by (simp add: locks_ok_def)
  have "dg_locks st (se_key s) = Some (se_proc s, se_time s + 30) \<and> se_key s \<noteq> se_key ?s"
    if s: "s \<in> set (?ss[i := ?e])" "se_state s = Opened" for s
  proof -
    have "s \<in> set (take i ?ss) \<union> set (drop (Suc i) ?ss)" using s assms(7) unfolding upd by auto
    then have "se_key s \<in> set (open_keys (take i ?ss) @ open_keys (drop (Suc i) ?ss))" "s \<in> set ?ss"
      using s(2) by (auto simp: open_keys_def dest: in_set_takeD in_set_dropD)
    with d s(2) assms(1) show ?thesis by (auto simp: locks_ok_def)
  qed
  moreover have "dg_sessions (end_session i x (release now (se_key ?s) (se_proc ?s) st1)) = ?ss[i := ?e]"
    by (simp add: end_session_def assms(5))
  ultimately show ?thesis using d unfolding locks_ok_def by (simp add: rel keys')
qed

lemma locks_ok_step:
  assumes "locks_ok st" "in_time st e"
  shows "locks_ok (digest_step cap st e)"
proof (cases e)
  case (AddRecord draw k r increment maximum)
  show ?thesis unfolding AddRecord digest_step.simps
    by (rule locks_ok_keep [OF assms(1)]) (metis add_record_simps(4,6) surj_pair)+
next
  case (Maintain deadline)
  show ?thesis unfolding Maintain digest_step.simps
    by (rule locks_ok_keep [OF assms(1)]) (simp_all add: maintenance_script_def split: prod.split)
next
  case (Schedule deadline)
  show ?thesis unfolding Schedule digest_step.simps
    by (rule locks_ok_keep [OF assms(1)]) (simp_all add: schedule_timelines_def schedule_script_def Let_def split: prod.split)
next
  case (OpenDigest now k proc)
  with assms show ?thesis by (simp add: locks_ok_open)
next
  case (ExitDigest now minimum_delay i)
  with assms show ?thesis by (auto simp: exit_digest_def Let_def close_digest_simps intro: locks_ok_end)
next
  case (AbortDigest now i)
  with assms show ?thesis by (auto simp: abort_digest_def Let_def intro: locks_ok_end)
next
  case (DeleteDigest now k proc)
  show ?thesis
  proof (cases "acquire now k 30 proc st")
    case (Some st1)
    have "all_recent now st" using assms(2) by (simp add: DeleteDigest)
    note a = acquired_is_free [OF assms(1) this Some]
    have "dg_locks (delete_digest now k proc st) = (dg_locks st)(k := None)"
      "dg_sessions (delete_digest now k proc st) = dg_sessions st"
      by (simp_all add: delete_digest_def Some release_def delete_timeline_def a(2))
    moreover have "se_key s \<noteq> k" if "s \<in> set (dg_sessions st)" "se_state s = Opened" for s
      using a(1) that by (auto simp: open_keys_def)
    ultimately show ?thesis using assms(1) by (simp add: locks_ok_def DeleteDigest)
  qed (use assms in \<open>simp add: DeleteDigest delete_digest_def\<close>)
next
  case (Evict x)
  show ?thesis unfolding Evict digest_step.simps
    by (rule locks_ok_keep [OF assms(1)]; cases x) simp_all
qed

lemma locks_ok_run: "timely cap st es \<Longrightarrow> locks_ok st \<Longrightarrow> locks_ok (foldl (digest_step cap) st es)"
  by (induction es arbitrary: st) (simp_all add: locks_ok_step)

text \<open>
  C27. While every digest ends within the thirty seconds of its lock, two digests of one timeline are never
  open at the same time, whichever processes run them.
\<close>

theorem one_digest_at_a_time:
  assumes "timely cap no_digests es"
    and "i < length (dg_sessions (digest_run cap es))" "j < length (dg_sessions (digest_run cap es))" "i \<noteq> j"
    and "se_state (dg_sessions (digest_run cap es) ! i) = Opened" "se_state (dg_sessions (digest_run cap es) ! j) = Opened"
  shows "se_key (dg_sessions (digest_run cap es) ! i) \<noteq> se_key (dg_sessions (digest_run cap es) ! j)"
proof -
  let ?ss = "dg_sessions (digest_run cap es)"
  have "locks_ok (digest_run cap es)"
    by (rule locks_ok_run [OF assms(1)]) (simp add: locks_ok_def no_digests_def open_keys_def)
  then have d: "distinct (open_keys ?ss)" by (simp add: locks_ok_def)
  have "se_key (xs ! a) \<noteq> se_key (xs ! b)"
    if "distinct (open_keys xs)" "a < b" "b < length xs" "se_state (xs ! a) = Opened" "se_state (xs ! b) = Opened" for xs a b
  proof -
    have "xs = take b xs @ xs ! b # drop (Suc b) xs" using that(3) by (rule id_take_nth_drop)
    then have "distinct (open_keys (take b xs @ xs ! b # drop (Suc b) xs))" using that(1) by metis
    moreover have "xs ! a \<in> set (take b xs)" using that(2,3) by (auto simp: in_set_conv_nth intro!: exI [of _ a])
    then have "se_key (xs ! a) \<in> set (open_keys (take b xs))" using that(4) by (auto simp: open_keys_def)
    ultimately show ?thesis using that(5) by (auto simp: open_keys_def)
  qed
  with d assms(2-6) show ?thesis by (metis linorder_neqE_nat)
qed

section \<open>Concrete runs\<close>

definition sample_record :: "string \<Rightarrow> nat \<Rightarrow> rat \<Rightarrow> drecord" where
  "sample_record i e t = \<lparr>rc_key = i, rc_value = \<lparr>nt_event = \<lparr>de_id = e, de_group = Some 9, de_time = t\<rparr>, nt_rules = [1], nt_uuid = None\<rparr>, rc_timestamp = t\<rparr>"


lemmas digest_eval = no_digests_def sample_record_def add_record_def add_record_to_timeline_def add_timeline_to_schedule_def
  capacity_argument_def open_digest_def acquire_def digest_timeline_def present_records_def zasc_def exit_digest_def close_digest_def
  zrem_def del_records_def end_session_def release_def schedule_timelines_def schedule_script_def zrange_move_slice_def
  dict_set_def dict_get_def Let_def

section \<open>A record that is added again while its digest is open\<close>


lemma gone_truncate [simp]:
  "dg_record st k i = None \<Longrightarrow> dg_record (truncate_timeline l c st) k i = None"
  "dg_record st k i = None \<Longrightarrow> dg_record (truncate_digest l c st) k i = None"
  by (auto simp: truncate_timeline_def truncate_digest_def del_records_def split: prod.split)









definition usual_run :: "digest_op list" where
  "usual_run = [AddRecord False ''p'' (sample_record ''a'' 1 100) 30 1800, OpenDigest 101 ''p'' 1, ExitDigest 103 300 0,
     AddRecord False ''p'' (sample_record ''b'' 2 110) 30 1800, OpenDigest 111 ''q'' 2]"

theorem timelines_are_scheduled_witness:
  "(dict_get (dg_waiting (digest_run None usual_run)) ''p'' = None) \<noteq> (dict_get (dg_ready (digest_run None usual_run)) ''p'' = None)"
  by (rule timelines_are_scheduled) (simp add: usual_run_def digest_eval)

theorem digest_is_delivered_in_time_witness:
  "\<exists>ks. dg_tasks (schedule_digests 2201 (digest_run None usual_run)) = dg_tasks (digest_run None usual_run) @ ks \<and> ''p'' \<in> set ks
     \<and> dict_get (dg_ready (schedule_digests 2201 (digest_run None usual_run))) ''p'' \<noteq> None"
  by (rule digest_is_delivered_in_time [where M = 1800 and l = 101]) (simp_all add: usual_run_def digest_eval)

theorem no_record_lost_witness:
  "let st = digest_run None ([] @ [AddRecord False ''p'' (sample_record ''a'' 1 100) 30 1800] @
       [OpenDigest 101 ''p'' 1, ExitDigest 103 300 0, AddRecord False ''p'' (sample_record ''b'' 2 110) 30 1800, OpenDigest 111 ''q'' 2])
   in handed_over 0 ''p'' ''a'' (rc_value (sample_record ''a'' 1 100)) st \<or> pending ''p'' ''a'' (rc_value (sample_record ''a'' 1 100)) st"
proof -
  have "list_all lossless_op ([] @ [OpenDigest 101 ''p'' 1, ExitDigest 103 300 0, AddRecord False ''p'' (sample_record ''b'' 2 110) 30 1800,
      OpenDigest 111 ''q'' 2])" by simp
  from no_record_lost [OF this, of "''p''" "sample_record ''a'' 1 100" False 30 1800] show ?thesis
    by (simp add: sample_record_def no_digests_def)
qed

definition two_digests :: "digest_op list" where
  "two_digests = [AddRecord False ''p'' (sample_record ''a'' 1 100) 30 1800, AddRecord False ''q'' (sample_record ''b'' 2 100) 30 1800,
     OpenDigest 101 ''p'' 1, OpenDigest 102 ''p'' 2, OpenDigest 103 ''q'' 2]"

theorem one_digest_at_a_time_witness:
  "se_key (dg_sessions (digest_run None two_digests) ! 0) \<noteq> se_key (dg_sessions (digest_run None two_digests) ! 1)"
  by (rule one_digest_at_a_time)
    (simp_all add: two_digests_def all_recent_def digest_eval)

end
