(* ===== verification/DigestContent.thy ===== *)
theory DigestContent
  imports Digests
begin

text \<open>
  What a digest says: \<open>digests/notifications.py\<close> (the key of a timeline, binding the records to groups and
  rules, grouping and sorting them) and \<open>digests/utils.py\<close> (the digest of one participant). Groups, rules,
  counts, snoozes and the participants of an event are arguments; rules and groups are their ids.
\<close>

section \<open>Keys: \<open>split_key\<close>, \<open>unsplit_key\<close>\<close>

text \<open>\<open>s.split(sep, n)\<close>.\<close>

fun split_max :: "nat \<Rightarrow> char \<Rightarrow> string \<Rightarrow> string list" where
  "split_max 0 sep s = [s]"
| "split_max (Suc n) sep s =
     (case dropWhile (\<lambda>c. c \<noteq> sep) s of
        [] \<Rightarrow> [s]
      | _ # rest \<Rightarrow> takeWhile (\<lambda>c. c \<noteq> sep) s # split_max n sep rest)"

datatype target_type = IssueOwners | Team | Member

fun target_value :: "target_type \<Rightarrow> string" where
  "target_value IssueOwners = ''IssueOwners''"
| "target_value Team = ''Team''"
| "target_value Member = ''Member''"

definition target_of :: "string \<Rightarrow> target_type result" where
  "target_of s =
     (if s = ''IssueOwners'' then Inr IssueOwners
      else if s = ''Team'' then Inr Team
      else if s = ''Member'' then Inr Member
      else Inl ValueError)"

datatype fallthrough = AllMembers | ActiveMembers | NoOne

fun fallthrough_value :: "fallthrough \<Rightarrow> string" where
  "fallthrough_value AllMembers = ''AllMembers''"
| "fallthrough_value ActiveMembers = ''ActiveMembers''"
| "fallthrough_value NoOne = ''NoOne''"

definition fallthrough_of :: "string \<Rightarrow> fallthrough option" where
  \<comment> \<open>\<open>None\<close> is the \<open>ValueError\<close> that \<open>split_key\<close> catches\<close>
  "fallthrough_of s =
     (if s = ''AllMembers'' then Some AllMembers
      else if s = ''ActiveMembers'' then Some ActiveMembers
      else if s = ''NoOne'' then Some NoOne
      else None)"

text \<open>The project is looked up by its key; a missing one is \<open>DoesNotExist\<close>.\<close>

definition get_project :: "(int \<Rightarrow> bool) \<Rightarrow> string \<Rightarrow> int result" where
  "get_project exists pk =
     bind_result (int_of_string pk) (\<lambda>i. if exists i then Inr i else Inl (OtherError ''Project.DoesNotExist''))"

definition split_key ::
  "(int \<Rightarrow> bool) \<Rightarrow> string \<Rightarrow> (int \<times> target_type \<times> string option \<times> fallthrough option) result" where
  "split_key exists k =
     (let key_parts = split_max 5 (CHR '':'') k
      in if length key_parts < 3 then Inl IndexError
         else
           let project_id = key_parts ! 2 in
           if length key_parts = 6 then
             bind_result (target_of (key_parts ! 3)) (\<lambda>t.
               let ident = (if key_parts ! 4 = '''' then None else Some (key_parts ! 4));
                   choice = fallthrough_of (key_parts ! 5)
               in bind_result (get_project exists project_id) (\<lambda>p. Inr (p, t, ident, choice)))
           else if length key_parts = 5 then
             bind_result (target_of (key_parts ! 3)) (\<lambda>t.
               let ident = (if key_parts ! 4 = '''' then None else Some (key_parts ! 4))
               in bind_result (get_project exists project_id) (\<lambda>p. Inr (p, t, ident, None)))
           else bind_result (get_project exists project_id) (\<lambda>p. Inr (p, IssueOwners, None, None)))"

definition unsplit_key :: "int \<Rightarrow> target_type \<Rightarrow> string option \<Rightarrow> fallthrough option \<Rightarrow> string" where
  "unsplit_key project t ident choice =
     (let target_str = (case ident of None \<Rightarrow> '''' | Some s \<Rightarrow> s);
          fallthrough = (case choice of None \<Rightarrow> '''' | Some f \<Rightarrow> fallthrough_value f)
      in ''mail:p:'' @ int_str project @ '':'' @ target_value t @ '':'' @ target_str @ '':'' @ fallthrough)"

section \<open>Binding, grouping, sorting\<close>

definition event_to_record :: "(nat \<Rightarrow> string) \<Rightarrow> digest_event \<Rightarrow> nat list \<Rightarrow> string option \<Rightarrow> drecord" where
  "event_to_record event_id e rules uuid =
     \<lparr>rc_key = event_id (de_id e), rc_value = \<lparr>nt_event = e, nt_rules = rules, nt_uuid = uuid\<rparr>, rc_timestamp = de_time e\<rparr>"

type_synonym digest = "(nat, (nat, drecord list) dict) dict"

text \<open>Whether a group is unresolved, for the groups that were found; the rules that were found.\<close>

definition bind_record :: "(nat, bool) dict \<Rightarrow> nat list \<Rightarrow> drecord \<Rightarrow> drecord list" where
  "bind_record groups rules r =
     (case de_group (nt_event (rc_value r)) of
        None \<Rightarrow> []
      | Some g \<Rightarrow>
          (case dict_get groups g of
             None \<Rightarrow> []
           | Some unresolved \<Rightarrow>
               if \<not> unresolved then []
               else [r\<lparr>rc_value := (rc_value r)\<lparr>nt_rules := filter (\<lambda>ru. ru \<in> set rules) (nt_rules (rc_value r))\<rparr>\<rparr>]))"

definition bind_records :: "drecord list \<Rightarrow> (nat, bool) dict \<Rightarrow> nat list \<Rightarrow> drecord list" where
  "bind_records records groups rules = concat (map (bind_record groups rules) records)"

definition dget :: "('k, 'v list) dict \<Rightarrow> 'k \<Rightarrow> 'v list" where
  \<comment> \<open>the lookup in a \<open>defaultdict\<close> of lists (or of dictionaries)\<close>
  "dget d k = (case dict_get d k of None \<Rightarrow> [] | Some xs \<Rightarrow> xs)"

definition add_to_digest :: "drecord \<Rightarrow> nat \<Rightarrow> nat \<Rightarrow> digest \<Rightarrow> digest" where
  "add_to_digest r rule g d = dict_set rule (dict_set g (dget (dget d rule) g @ [r]) (dget d rule)) d"

fun group_record :: "digest \<Rightarrow> drecord \<Rightarrow> digest result" where
  "group_record d r =
     (case de_group (nt_event (rc_value r)) of
        None \<Rightarrow> Inl AssertionError
      | Some g \<Rightarrow> Inr (foldl (\<lambda>d rule. add_to_digest r rule g d) d (nt_rules (rc_value r))))"

fun group_records :: "digest \<Rightarrow> drecord list \<Rightarrow> digest result" where
  "group_records d [] = Inr d"
| "group_records d (r # rs) = bind_result (group_record d r) (\<lambda>d. group_records d rs)"

definition sorted_desc :: "('a \<Rightarrow> 'k :: linorder) \<Rightarrow> 'a list \<Rightarrow> 'a list" where
  \<comment> \<open>\<open>sorted(xs, key=f, reverse=True)\<close> keeps the order of equal elements\<close>
  "sorted_desc f xs = rev (sort_key f (rev xs))"

definition sort_digest :: "(nat \<Rightarrow> nat) \<Rightarrow> (nat \<Rightarrow> nat) \<Rightarrow> digest \<Rightarrow> digest" where
  "sort_digest event_counts user_counts d =
     sorted_desc (\<lambda>(_, groups). length groups)
       (map (\<lambda>(rule, groups). (rule, sorted_desc (\<lambda>(g, _). (event_counts g, user_counts g)) groups)) d)"

definition build_digest_impl ::
  "drecord list \<Rightarrow> (nat, bool) dict \<Rightarrow> nat list \<Rightarrow> (nat \<Rightarrow> nat) \<Rightarrow> (nat \<Rightarrow> nat) \<Rightarrow> digest result" where
  "build_digest_impl records groups rules event_counts user_counts =
     bind_result (group_records [] (bind_records records groups rules)) (\<lambda>d. Inr (sort_digest event_counts user_counts d))"

text \<open>
  \<open>build_digest\<close>: groups and rules that belong to another project are an assertion error; the counts are those
  between the times of the last and the first record.
\<close>

definition build_digest ::
  "int \<Rightarrow> (nat list \<Rightarrow> (nat, int \<times> bool) dict) \<Rightarrow> (nat list \<Rightarrow> (nat, int) dict)
    \<Rightarrow> (nat list \<Rightarrow> rat \<Rightarrow> rat \<Rightarrow> nat \<Rightarrow> nat) \<Rightarrow> (nat list \<Rightarrow> rat \<Rightarrow> rat \<Rightarrow> nat \<Rightarrow> nat) \<Rightarrow> drecord list
    \<Rightarrow> (digest \<times> (nat \<Rightarrow> nat) \<times> (nat \<Rightarrow> nat)) result" where
  "build_digest project groups_in_bulk rules_in_bulk get_sums get_users records =
     (if records = [] then Inr ([], (\<lambda>_. 0), (\<lambda>_. 0))
      else
        let start = rc_timestamp (last records); stop = rc_timestamp (hd records);
            groups = groups_in_bulk (concat (map (\<lambda>r. case de_group (nt_event (rc_value r)) of None \<Rightarrow> [] | Some g \<Rightarrow> [g]) records));
            rules = rules_in_bulk (concat (map (\<lambda>r. nt_rules (rc_value r)) records));
            ids = dict_keys groups
        in if list_ex (\<lambda>(_, p, _). p \<noteq> project) groups then Inl AssertionError
           else if list_ex (\<lambda>(_, p). p \<noteq> project) rules then Inl AssertionError
           else
             let event_counts = get_sums ids start stop; user_counts = get_users ids start stop
             in bind_result (build_digest_impl records (map (\<lambda>(g, _, u). (g, u)) groups) (dict_keys rules) event_counts user_counts)
                  (\<lambda>d. Inr (d, event_counts, user_counts)))"

section \<open>Digests of participants\<close>

type_synonym actor = nat

definition build_custom_digest :: "(actor \<Rightarrow> nat list) \<Rightarrow> digest \<Rightarrow> digest_event list \<Rightarrow> actor \<Rightarrow> digest" where
  \<comment> \<open>the rules that are snoozed for the participant or for everyone are an argument\<close>
  "build_custom_digest snoozed d events participant =
     concat (map (\<lambda>(rule, groups).
       if rule \<in> set (snoozed participant) then []
       else
         let kept = concat (map (\<lambda>(g, records).
               let rs = filter (\<lambda>r. nt_event (rc_value r) \<in> set events) records in if rs = [] then [] else [(g, rs)]) groups)
         in if kept = [] then [] else [(rule, kept)]) d)"

definition get_event_from_groups_in_digest :: "digest \<Rightarrow> digest_event list" where
  "get_event_from_groups_in_digest d =
     remdups (concat (map (\<lambda>(_, groups). map (\<lambda>(_, records). nt_event (rc_value (hd records))) groups) d))"

definition get_participants_by_event :: "(digest_event \<Rightarrow> actor list list) \<Rightarrow> digest \<Rightarrow> (digest_event, actor list list) dict" where
  \<comment> \<open>the participants of an event for each provider\<close>
  "get_participants_by_event get_send_to d = map (\<lambda>e. (e, get_send_to e)) (get_event_from_groups_in_digest d)"

definition add_participant :: "digest_event \<Rightarrow> (actor, digest_event list) dict \<Rightarrow> actor \<Rightarrow> (actor, digest_event list) dict" where
  "add_participant e out a = dict_set a (List.insert e (dget out a)) out"

definition add_participants ::
  "(actor, digest_event list) dict \<Rightarrow> digest_event \<times> actor list list \<Rightarrow> (actor, digest_event list) dict" where
  "add_participants out p = foldl (add_participant (fst p)) out (concat (snd p))"

definition get_events_by_participant :: "(digest_event, actor list list) dict \<Rightarrow> (actor, digest_event list) dict" where
  "get_events_by_participant by_event = foldl add_participants [] by_event"

definition get_personalized_digests ::
  "(actor \<Rightarrow> nat list) \<Rightarrow> digest \<Rightarrow> (digest_event, actor list list) dict \<Rightarrow> (actor, digest) dict" where
  "get_personalized_digests snoozed d by_event =
     concat (map (\<lambda>(a, events). let custom = build_custom_digest snoozed d events a in if custom = [] then [] else [(a, custom)])
       (get_events_by_participant by_event))"

fun metadata_bounds :: "drecord list \<Rightarrow> rat option \<times> rat option \<Rightarrow> rat option \<times> rat option" where
  "metadata_bounds [] b = b"
| "metadata_bounds (r # rs) (start, stop) =
     (let t = rc_timestamp r;
          start' = (case start of None \<Rightarrow> Some t | Some s \<Rightarrow> if t < s then Some t else start);
          stop' = (case stop of None \<Rightarrow> Some t | Some s \<Rightarrow> if t > s then Some t else stop)
      in metadata_bounds rs (start', stop'))"

definition get_digest_metadata :: "digest \<Rightarrow> rat option \<times> rat option \<times> (nat, nat) dict" where
  "get_digest_metadata d =
     (let (start, stop) = metadata_bounds (concat (map (\<lambda>(_, groups). concat (map snd groups)) d)) (None, None);
          counts = foldl (\<lambda>c g. dict_set g (Suc (case dict_get c g of None \<Rightarrow> 0 | Some n \<Rightarrow> n)) c) []
                     (concat (map (\<lambda>(_, groups). dict_keys groups) d))
      in (start, stop, counts))"

definition get_groups :: "digest \<Rightarrow> (nat \<times> nat \<times> digest_event) list" where
  "get_groups d = concat (map (\<lambda>(rule, groups). map (\<lambda>(g, records). (rule, g, nt_event (rc_value (hd records)))) groups) d)"

section \<open>Round trip of the keys\<close>

lemma split_max_sep: "sep \<notin> set a \<Longrightarrow> split_max (Suc n) sep (a @ sep # s) = a # split_max n sep s"
proof -
  assume h: "sep \<notin> set a"
  then have "dropWhile (\<lambda>c. c \<noteq> sep) (a @ sep # s) = sep # s" "takeWhile (\<lambda>c. c \<noteq> sep) (a @ sep # s) = a"
    by (induction a) auto
  then show ?thesis by simp
qed

lemma target_of_value [simp]: "target_of (target_value t) = Inr t"
  by (cases t) (simp_all add: target_of_def)

lemma fallthrough_of_value [simp]: "fallthrough_of (fallthrough_value f) = Some f" "fallthrough_of '''' = None"
  by (cases f) (simp_all add: fallthrough_of_def)

lemma target_no_colon: "CHR '':'' \<notin> set (target_value t)"
  by (cases t) simp_all

text \<open>
  The key of a timeline is read back: the project, the target, its identifier and the fallthrough choice,
  whatever they are, for identifiers that are not empty and have no colon.
\<close>

theorem digest_key_roundtrip:
  assumes "exists project" "\<forall>s. ident = Some s \<longrightarrow> s \<noteq> '''' \<and> CHR '':'' \<notin> set s"
  shows "split_key exists (unsplit_key project t ident choice) = Inr (project, t, ident, choice)"
proof -
  define i where "i = (case ident of None \<Rightarrow> '''' | Some s \<Rightarrow> s)"
  define f where "f = (case choice of None \<Rightarrow> '''' | Some c \<Rightarrow> fallthrough_value c)"
  have k: "unsplit_key project t ident choice =
      ''mail'' @ CHR '':'' # ''p'' @ CHR '':'' # int_str project @ CHR '':'' # target_value t @ CHR '':'' # i @ CHR '':'' # f"
    by (simp add: unsplit_key_def i_def f_def Let_def)
  have "CHR '':'' \<notin> set i" using assms(2) by (auto simp: i_def split: option.split)
  then have "split_max (Suc (Suc (Suc (Suc (Suc 0))))) (CHR '':'') (unsplit_key project t ident choice)
      = [''mail'', ''p'', int_str project, target_value t, i, f]"
    unfolding k by (subst split_max_sep, simp add: int_str_no_colon target_no_colon)+ simp
  then have s: "split_max 5 (CHR '':'') (unsplit_key project t ident choice)
      = [''mail'', ''p'', int_str project, target_value t, i, f]"
    by (simp add: eval_nat_numeral)
  have "(if i = '''' then None else Some i) = ident" using assms(2) by (auto simp: i_def split: option.split)
  moreover have "fallthrough_of f = choice" by (simp add: f_def split: option.split)
  ultimately show ?thesis using assms(1) by (auto simp: split_key_def s get_project_def Let_def)
qed

theorem digest_key_roundtrip_witness:
  "split_key (\<lambda>p. p = 7) (unsplit_key 7 Team (Some ''12'') (Some ActiveMembers)) = Inr (7, Team, Some ''12'', Some ActiveMembers)"
  by (rule digest_key_roundtrip) auto

section \<open>What a digest holds\<close>

lemma dget_simps [simp]: "dget (dict_set k v d) k' = (if k = k' then v else dget d k')" "dget [] k = []"
  by (simp_all add: dget_def)

lemma dget_add:
  "dget (dget (add_to_digest r ru g d) ru') g' = dget (dget d ru') g' @ (if ru = ru' \<and> g = g' then [r] else [])"
  by (simp add: add_to_digest_def)

definition copies_of :: "nat \<Rightarrow> nat \<Rightarrow> drecord \<Rightarrow> drecord list" where
  "copies_of rule g r =
     (if de_group (nt_event (rc_value r)) = Some g then replicate (count_list (nt_rules (rc_value r)) rule) r else [])"

lemma dget_add_all:
  "dget (dget (foldl (\<lambda>d rule. add_to_digest r rule g d) d rules) ru) g' =
     dget (dget d ru) g' @ (if g = g' then replicate (count_list rules ru) r else [])"
  by (induction rules arbitrary: d) (auto simp: dget_add replicate_append_same)

definition digest_wf :: "digest \<Rightarrow> bool" where
  "digest_wf d = (dict_wf d \<and> values_ok dict_wf d)"

lemma digest_wf_add: "digest_wf d \<Longrightarrow> digest_wf (add_to_digest r ru g d)"
proof -
  assume wf: "digest_wf d"
  have "dict_wf (dget d ru)"
    using wf values_ok_get [of dict_wf d ru] by (auto simp: dget_def digest_wf_def split: option.split)
  with wf show ?thesis by (simp add: digest_wf_def add_to_digest_def values_ok_set)
qed

lemma digest_wf_add_all: "digest_wf d \<Longrightarrow> digest_wf (foldl (\<lambda>d rule. add_to_digest r rule g d) d rules)"
  by (induction rules arbitrary: d) (auto simp: digest_wf_add)

lemma group_records_facts:
  assumes "list_all (\<lambda>r. de_group (nt_event (rc_value r)) \<noteq> None) rs" "digest_wf d"
  shows "\<exists>d'. group_records d rs = Inr d' \<and> digest_wf d'
     \<and> (\<forall>ru g. dget (dget d' ru) g = dget (dget d ru) g @ concat (map (copies_of ru g) rs))"
  using assms
proof (induction rs arbitrary: d)
  case (Cons r rs)
  then obtain g where g: "de_group (nt_event (rc_value r)) = Some g" by auto
  let ?d = "foldl (\<lambda>d rule. add_to_digest r rule g d) d (nt_rules (rc_value r))"
  have "digest_wf ?d" using Cons.prems(2) by (rule digest_wf_add_all)
  with Cons obtain d' where "group_records ?d rs = Inr d'" "digest_wf d'"
    "\<forall>ru g. dget (dget d' ru) g = dget (dget ?d ru) g @ concat (map (copies_of ru g) rs)" by fastforce
  moreover have "copies_of ru g' r = (if g = g' then replicate (count_list (nt_rules (rc_value r)) ru) r else [])" for ru g'
    using g by (simp add: copies_of_def)
  ultimately show ?case using g by (simp add: dget_add_all)
qed simp

lemma bind_records_group: "list_all (\<lambda>r. de_group (nt_event (rc_value r)) \<noteq> None) (bind_records records groups rules)"
proof -
  have "de_group (nt_event (rc_value x)) \<noteq> None" if "x \<in> set (bind_record groups rules r)" for x r
    using that by (cases "de_group (nt_event (rc_value r))") (auto simp: bind_record_def split: option.splits if_splits)
  then show ?thesis by (fastforce simp: list_all_iff bind_records_def)
qed

lemma sorted_desc_set [simp]: "set (sorted_desc f xs) = set xs" "length (sorted_desc f xs) = length xs"
  by (simp_all add: sorted_desc_def)

lemma sorted_desc_wf: "dict_wf d \<Longrightarrow> dict_wf (sorted_desc f d)"
proof -
  have "mset (map fst (sorted_desc f d)) = mset (map fst d)" by (simp add: sorted_desc_def)
  then show "dict_wf d \<Longrightarrow> dict_wf (sorted_desc f d)" by (metis mset_eq_imp_distinct_iff)
qed

lemma sorted_desc_get: "dict_wf d \<Longrightarrow> dict_get (sorted_desc f d) k = dict_get d k"
proof (cases "dict_get d k")
  case None
  then have "k \<notin> fst ` set (sorted_desc f d)" by (simp add: dict_get_def map_of_eq_None_iff)
  then have "dict_get (sorted_desc f d) k = None" by (simp only: dict_get_def map_of_eq_None_iff not_False_eq_True)
  with None show ?thesis by simp
next
  case (Some v)
  assume wf: "dict_wf d"
  with Some have "(k, v) \<in> set (sorted_desc f d)" by (simp add: dict_get_in)
  with Some show ?thesis by (simp add: dict_get_wf sorted_desc_wf [OF wf])
qed

lemma dict_get_map: "dict_get (map (\<lambda>(k, v). (k, f v)) d) k = map_option f (dict_get d k)"
  by (induction d) (auto simp: dict_get_def)

lemma sort_digest_get:
  assumes "digest_wf d"
  shows "dget (dget (sort_digest ec uc d) ru) g = dget (dget d ru) g"
proof -
  let ?inner = "\<lambda>groups. sorted_desc (\<lambda>(g, _). (ec g, uc g)) groups"
  have "map fst (map (\<lambda>(rule, groups). (rule, ?inner groups)) d) = map fst d" by auto
  then have wf: "dict_wf (map (\<lambda>(rule, groups). (rule, ?inner groups)) d)" using assms unfolding digest_wf_def by metis
  show ?thesis
  proof (cases "dict_get d ru")
    case None
    then show ?thesis by (simp add: dget_def sort_digest_def sorted_desc_get [OF wf] dict_get_map)
  next
    case (Some groups)
    then have "dict_wf groups" using assms values_ok_get [of dict_wf d ru] by (simp add: digest_wf_def)
    with Some show ?thesis by (simp add: dget_def sort_digest_def sorted_desc_get [OF wf] dict_get_map sorted_desc_get)
  qed
qed

lemma sorted_desc_sorted: "sorted (rev (map f (sorted_desc f xs)))"
  by (simp add: sorted_desc_def rev_map)

definition rule_copies :: "(nat, bool) dict \<Rightarrow> nat list \<Rightarrow> nat \<Rightarrow> nat \<Rightarrow> drecord \<Rightarrow> drecord list" where
  \<comment> \<open>what a record should put under a rule and a group\<close>
  "rule_copies groups rules rule g r =
     (if de_group (nt_event (rc_value r)) = Some g \<and> dict_get groups g = Some True \<and> rule \<in> set rules
      then replicate (count_list (nt_rules (rc_value r)) rule)
             (r\<lparr>rc_value := (rc_value r)\<lparr>nt_rules := filter (\<lambda>ru. ru \<in> set rules) (nt_rules (rc_value r))\<rparr>\<rparr>)
      else [])"

lemma count_list_filter: "count_list (filter P xs) x = (if P x then count_list xs x else 0)"
  by (induction xs) auto

lemma bind_record_copies: "concat (map (copies_of rule g) (bind_record groups rules r)) = rule_copies groups rules rule g r"
  by (auto simp: bind_record_def copies_of_def rule_copies_def count_list_filter split: option.splits)

lemma bind_records_copies:
  "concat (map (copies_of rule g) (bind_records records groups rules)) = concat (map (rule_copies groups rules rule g) records)"
  by (induction records) (simp_all add: bind_records_def bind_record_copies)

text \<open>
  C23. A digest can always be built, and holds exactly the records it should: under a rule and a group come, in the order
  given, the records of that group, if it is found and unresolved, that name the rule, once for each time
  they name it, if the rule still exists. Rules come by decreasing number of groups.
\<close>

theorem digest_contents:
  "\<exists>d. build_digest_impl records groups rules event_counts user_counts = Inr d
     \<and> (\<forall>rule g. dget (dget d rule) g = concat (map (rule_copies groups rules rule g) records))
     \<and> sorted (rev (map (\<lambda>(_, gs). length gs) d))"
proof -
  obtain d where d: "group_records [] (bind_records records groups rules) = Inr d" "digest_wf d"
    "\<forall>ru g. dget (dget d ru) g = dget (dget [] ru) g @ concat (map (copies_of ru g) (bind_records records groups rules))"
    using group_records_facts [OF bind_records_group [of records groups rules], of "[]"] by (auto simp: digest_wf_def)
  let ?d = "sort_digest event_counts user_counts d"
  have "build_digest_impl records groups rules event_counts user_counts = Inr ?d" by (simp add: build_digest_impl_def d(1))
  moreover have "dget (dget ?d rule) g = concat (map (rule_copies groups rules rule g) records)" for rule g
    using d(3) by (simp add: sort_digest_get [OF d(2)] bind_records_copies)
  moreover have "sorted (rev (map (\<lambda>(_, gs). length gs) ?d))" unfolding sort_digest_def by (rule sorted_desc_sorted)
  ultimately show ?thesis by blast
qed

section \<open>Digests of participants\<close>

lemma custom_digest_records:
  assumes "(rule, groups) \<in> set (build_custom_digest snoozed d events a)" "(g, rs) \<in> set groups" "r \<in> set rs"
  shows "rule \<notin> set (snoozed a)" "nt_event (rc_value r) \<in> set events"
    "\<exists>gs all. (rule, gs) \<in> set d \<and> (g, all) \<in> set gs \<and> r \<in> set all"
proof -
  let ?F = "\<lambda>(g, records). let rs = filter (\<lambda>r. nt_event (rc_value r) \<in> set events) records in if rs = [] then [] else [(g, rs)]"
  obtain gs where gs: "(rule, gs) \<in> set d" "rule \<notin> set (snoozed a)" "groups = concat (map ?F gs)"
    using assms(1) by (auto simp: build_custom_digest_def Let_def split: if_splits)
  from assms(2) obtain all where "(g, all) \<in> set gs" "rs = filter (\<lambda>r. nt_event (rc_value r) \<in> set events) all"
    unfolding gs(3) by (auto simp: Let_def split: if_splits)
  with gs assms(3) show "rule \<notin> set (snoozed a)" "nt_event (rc_value r) \<in> set events"
    "\<exists>gs all. (rule, gs) \<in> set d \<and> (g, all) \<in> set gs \<and> r \<in> set all" by auto
qed

lemma add_participant_fold:
  assumes "dict_wf out"
  shows "dict_wf (foldl (add_participant e) out as)"
    and "x \<in> set (dget (foldl (add_participant e) out as) b) \<Longrightarrow> x \<in> set (dget out b) \<or> x = e \<and> b \<in> set as"
  using assms
proof (induction as arbitrary: out)
  case (Cons c as)
  case 1
  then show ?case using Cons.IH(1) [of "add_participant e out c"] by (simp add: add_participant_def)
next
  case (Cons c as)
  case 2
  then have "x \<in> set (dget (add_participant e out c) b) \<or> x = e \<and> b \<in> set as"
    using Cons.IH(2) [of "add_participant e out c"] by (simp add: add_participant_def)
  then show ?case by (auto simp: add_participant_def split: if_splits)
qed simp_all

lemma add_participants_fold:
  assumes "dict_wf out"
  shows "dict_wf (foldl add_participants out l)"
    and "x \<in> set (dget (foldl add_participants out l) b) \<Longrightarrow>
      x \<in> set (dget out b) \<or> (\<exists>providers. (x, providers) \<in> set l \<and> b \<in> set (concat providers))"
  using assms
proof (induction l arbitrary: out)
  case (Cons p l)
  case 1
  then show ?case using Cons.IH(1) [of "add_participants out p"] by (simp add: add_participants_def add_participant_fold)
next
  case (Cons p l)
  case 2
  have wf: "dict_wf (add_participants out p)" using 2(2) by (simp add: add_participants_def add_participant_fold)
  have "x \<in> set (dget (add_participants out p) b) \<or> (\<exists>providers. (x, providers) \<in> set l \<and> b \<in> set (concat providers))"
    using Cons.IH(2) [OF _ wf] 2(1) by simp
  moreover have "x \<in> set (dget out b) \<or> (x, snd p) = p \<and> b \<in> set (concat (snd p))" if "x \<in> set (dget (add_participants out p) b)"
    using add_participant_fold(2) [OF 2(2) that [unfolded add_participants_def]] by auto
  ultimately show ?case by (metis list.set_intros)
qed simp_all

lemma events_of_participant:
  assumes "(a, events) \<in> set (get_events_by_participant by_event)" "e \<in> set events"
  shows "\<exists>providers. (e, providers) \<in> set by_event \<and> a \<in> set (concat providers)"
proof -
  have "dict_wf (get_events_by_participant by_event)"
    unfolding get_events_by_participant_def by (rule add_participants_fold(1)) simp
  then have "dget (get_events_by_participant by_event) a = events" using assms(1) by (simp add: dget_def dict_get_wf)
  with assms(2) add_participants_fold(2) [of "[]" e by_event a] show ?thesis by (simp add: get_events_by_participant_def)
qed

text \<open>
  Nobody gets what is not meant for them: a record in the personal digest of a participant is one of the
  digest, under a rule they have not snoozed, and its event is one they are a recipient of. It also is the
  first event of a group: the other records of the group are in nobody's personal digest.
\<close>

theorem personal_digest_own_events:
  assumes "(a, custom) \<in> set (get_personalized_digests snoozed d (get_participants_by_event get_send_to d))"
    and "(rule, groups) \<in> set custom" "(g, rs) \<in> set groups" "r \<in> set rs"
  shows "rule \<notin> set (snoozed a) \<and> a \<in> set (concat (get_send_to (nt_event (rc_value r))))
    \<and> nt_event (rc_value r) \<in> set (get_event_from_groups_in_digest d)
    \<and> (\<exists>gs all. (rule, gs) \<in> set d \<and> (g, all) \<in> set gs \<and> r \<in> set all)"
proof -
  let ?by = "get_participants_by_event get_send_to d"
  obtain events where e: "(a, events) \<in> set (get_events_by_participant ?by)" "custom = build_custom_digest snoozed d events a"
    using assms(1) by (auto simp: get_personalized_digests_def Let_def split: if_splits)
  note c = custom_digest_records [OF assms(2) [unfolded e(2)] assms(3,4)]
  obtain providers where "(nt_event (rc_value r), providers) \<in> set ?by" "a \<in> set (concat providers)"
    using events_of_participant [OF e(1) c(2)] by blast
  then have "nt_event (rc_value r) \<in> set (get_event_from_groups_in_digest d)" "a \<in> set (concat (get_send_to (nt_event (rc_value r))))"
    unfolding get_participants_by_event_def by auto
  with c show ?thesis by blast
qed

definition some_event :: "nat \<Rightarrow> digest_event" where
  "some_event e = \<lparr>de_id = e, de_group = Some 9, de_time = 100\<rparr>"

theorem personal_digest_own_events_witness:
  "let e1 = some_event 1; e2 = some_event 2; r1 = event_to_record nat_digits e1 [3] None; r2 = event_to_record nat_digits e2 [3] None;
       d = [(3, [(9, [r1, r2])])]; send = (\<lambda>e. [[5]])
   in get_personalized_digests (\<lambda>_. []) d (get_participants_by_event send d) = [(5, [(3, [(9, [r1])])])]
      \<and> 5 \<in> set (concat (send e1))"
proof -
  let ?e1 = "some_event 1" let ?e2 = "some_event 2"
  let ?r1 = "event_to_record nat_digits ?e1 [3] None" let ?r2 = "event_to_record nat_digits ?e2 [3] None"
  let ?d = "[(3, [(9, [?r1, ?r2])])]" let ?send = "\<lambda>e :: digest_event. [[5 :: nat]]"
  have p: "get_personalized_digests (\<lambda>_. []) ?d (get_participants_by_event ?send ?d) = [(5, [(3, [(9, [?r1])])])]"
    by (simp add: get_personalized_digests_def get_participants_by_event_def get_event_from_groups_in_digest_def
        get_events_by_participant_def add_participants_def add_participant_def build_custom_digest_def event_to_record_def some_event_def dict_set_def Let_def)
  have "5 \<in> set (concat (?send (nt_event (rc_value ?r1))))"
    using personal_digest_own_events [where snoozed = "\<lambda>_. []" and d = ?d and get_send_to = ?send and a = 5 and rule = 3
        and groups = "[(9, [?r1])]" and g = 9 and rs = "[?r1]" and r = ?r1 and custom = "[(3, [(9, [?r1])])]", unfolded p]
    by simp
  with p show ?thesis by (simp add: Let_def)
qed

section \<open>The task: \<open>deliver_digest\<close>\<close>

definition get_notification_uuid_from_records :: "drecord list \<Rightarrow> string option" where
  "get_notification_uuid_from_records records =
     (case find (\<lambda>r. nt_uuid (rc_value r) \<noteq> None \<and> nt_uuid (rc_value r) \<noteq> Some '''') records of
        None \<Rightarrow> None
      | Some r \<Rightarrow> nt_uuid (rc_value r))"

datatype delivery_outcome =
    DeletedTimeline
  | SkippedDelivery
  | EmptyDigest
  | Notified digest target_type "string option" "fallthrough option" "string option"
  | DeliveryError string

text \<open>
  One delivery without interruption. The digest is built while it is open; the mail is sent after it was closed.
  The lookups and counts of \<open>build_digest\<close> are the argument \<open>build\<close>.
\<close>

definition deliver_digest ::
  "(int \<Rightarrow> bool) \<Rightarrow> (int \<Rightarrow> rat) \<Rightarrow> (int \<Rightarrow> drecord list \<Rightarrow> (digest \<times> (nat \<Rightarrow> nat) \<times> (nat \<Rightarrow> nat)) result) \<Rightarrow> nat option
    \<Rightarrow> rat \<Rightarrow> nat \<Rightarrow> string \<Rightarrow> string option \<Rightarrow> digest_store \<Rightarrow> delivery_outcome \<times> digest_store" where
  "deliver_digest exists minimum_delay build cap now proc k uuid st =
     (case split_key exists k of
        Inl (OtherError _) \<Rightarrow> (DeletedTimeline, delete_digest now k proc st)
      | Inl _ \<Rightarrow> (DeliveryError ''split_key'', st)
      | Inr (project, t, ident, choice) \<Rightarrow>
          (case open_digest cap now k proc st of
             (Inl InvalidState, st) \<Rightarrow> (SkippedDelivery, st)
           | (Inl UnableToAcquireLock, st) \<Rightarrow> (DeliveryError ''lock'', st)
           | (Inr i, st) \<Rightarrow>
               let records = se_records (dg_sessions st ! i) in
               (case build project records of
                  Inl _ \<Rightarrow> (DeliveryError ''build'', abort_digest now i st)
                | Inr (d, _, _) \<Rightarrow>
                    let uuid = (if uuid = None \<or> uuid = Some '''' then get_notification_uuid_from_records records else uuid);
                        st = exit_digest now (minimum_delay project) i st
                    in (if d \<noteq> [] then Notified d t ident choice uuid else EmptyDigest, st))))"

lemma zrem_all: "fst ` set z \<subseteq> set ids \<Longrightarrow> zrem ids z = []"
  by (auto simp: zrem_def filter_empty_conv)

text \<open>
  A delivery that is not interrupted empties its timeline: nothing is left in either set, and the timeline
  waits for the minimal delay from now on if it held a record, or is taken off the schedule.
\<close>

theorem delivery_empties_timeline:
  assumes "split_key exists k = Inr (project, t, ident, choice)" "dict_get (dg_ready st) k \<noteq> None" "dg_locks st k = None"
    and "\<forall>records. \<exists>d. build project records = Inr d"
    and "deliver_digest exists minimum_delay build None now proc k uuid st = (outcome, st')"
  shows "dg_timeline st' k = [] \<and> dg_digest st' k = [] \<and> dict_get (dg_ready st') k = None
    \<and> dict_get (dg_waiting st') k =
        (if dg_timeline st k = [] \<and> dg_digest st k = [] then None else Some (now + minimum_delay project))"
proof -
  let ?st1 = "st\<lparr>dg_locks := (dg_locks st)(k := Some (proc, now + 30))\<rparr>"
  have a: "acquire now k 30 proc st = Some ?st1" by (simp add: acquire_def assms(3))
  obtain response st2 where d: "digest_timeline (capacity_argument None) k ?st1 = Some (response, st2)"
    using assms(2) by (auto simp: digest_timeline_def Let_def)
  note f = digest_timeline_simps [OF d, unfolded capacity_argument_def, simplified]
  let ?session = "\<lparr>se_key = k, se_proc = proc, se_time = now, se_ids = map fst response,
      se_records = present_records response, se_state = Opened\<rparr>"
  let ?st3 = "st2\<lparr>dg_sessions := dg_sessions st @ [?session]\<rparr>"
  have o': "open_digest None now k proc st = (Inr (length (dg_sessions st)), ?st3)"
    by (simp add: open_digest_def a d Let_def f(6))
  obtain x where x: "build project (present_records response) = Inr x" using assms(4) by blast
  have st': "st' = exit_digest now (minimum_delay project) (length (dg_sessions st)) ?st3"
    using assms(5) x by (auto simp: deliver_digest_def assms(1) o' Let_def split: prod.splits)
  have ids: "map fst response = map fst (rev (zasc (dg_digest st2 k)))" by (simp add: f(9) comp_def case_prod_unfold)
  have z: "zrem (map fst response) (dg_digest st2 k) = []" by (rule zrem_all) (simp add: ids)
  have empty: "map fst response = [] \<longleftrightarrow> dg_timeline st k = [] \<and> dg_digest st k = []"
  proof -
    have "map fst response = [] \<longleftrightarrow> dg_digest st2 k = []" unfolding ids by (metis map_is_Nil_conv rev_is_Nil_conv set_empty zasc_set)
    then show ?thesis using zunion_max_nonempty by (auto simp: f(8) opened_digest_def)
  qed
  let ?st4 = "close_digest now k (minimum_delay project) (map fst response) ?st3"
  have e: "st' = end_session (length (dg_sessions st)) Exited (release now k proc ?st4)"
    by (simp add: st' exit_digest_def Let_def)
  have kept: "kept k (map fst response) ?st3 \<longleftrightarrow> map fst response \<noteq> []" by (simp add: kept_def z f(7))
  show ?thesis unfolding e
    by (simp only: end_session_simps release_simps close_digest_simps close_digest_schedule kept empty [symmetric])
      (simp add: f(7) z)
qed

definition mail_timeline :: string where "mail_timeline = ''mail:p:7:Team:12:''"

definition fixed_build :: "int \<Rightarrow> drecord list \<Rightarrow> (digest \<times> (nat \<Rightarrow> nat) \<times> (nat \<Rightarrow> nat)) result" where
  "fixed_build p records = Inr ([(1, [(9, records)])], (\<lambda>_. 1), (\<lambda>_. 1))"

theorem delivery_empties_timeline_witness:
  "dict_get (dg_waiting (snd (deliver_digest (\<lambda>p. p = 7) (\<lambda>_. 300) fixed_build None 101 1 mail_timeline None
     (digest_run None [AddRecord False mail_timeline (sample_record ''a'' 1 100) 30 1800])))) mail_timeline = Some 401"
proof -
  let ?st = "digest_run None [AddRecord False mail_timeline (sample_record ''a'' 1 100) 30 1800]"
  let ?r = "deliver_digest (\<lambda>p. p = 7) (\<lambda>_. 300) fixed_build None 101 1 mail_timeline None ?st"
  have s: "split_key (\<lambda>p. p = 7) mail_timeline = Inr (7, Team, Some ''12'', None)"
    by (simp add: mail_timeline_def split_key_def eval_nat_numeral Let_def target_of_def fallthrough_of_def get_project_def
        int_of_string_def strip_def is_space_def unsigned_of_string_def is_digit_def digits_val_def digit_val_def)
  have p: "dict_get (dg_ready ?st) mail_timeline \<noteq> None" "dg_locks ?st mail_timeline = None" "dg_timeline ?st mail_timeline \<noteq> []"
    by (simp_all add: digest_eval)
  have "?r = (fst ?r, snd ?r)" by simp
  from delivery_empties_timeline [OF s p(1,2) _ this] p(3) show ?thesis by (simp add: fixed_build_def)
qed

end
