(* ===== verification/Quotas.thy ===== *)
theory Quotas
  imports Prelude Complex_Main
begin

text \<open>
  Quotas: \<open>quotas/base.py\<close> (configurations, the options they come from) and \<open>quotas/redis.py\<close> with its script
  \<open>scripts/quotas/is_rate_limited.lua\<close> (counting, refunds, usage). Categories are those of Relay, an argument;
  options, features and the settings of an organization are arguments; the counters are keys in Redis
  that expire by the clock of Redis. Not modelled: the choice of the Redis node, tracing.
\<close>

section \<open>Configurations\<close>

datatype quota_scope = OrganizationScope | ProjectScope | KeyScope | GlobalScope

fun api_name :: "quota_scope \<Rightarrow> string" where
  "api_name OrganizationScope = ''organization''"
| "api_name ProjectScope = ''project''"
| "api_name KeyScope = ''key''"
| "api_name GlobalScope = ''global''"

type_synonym category = nat

record quota_config =
  qc_id :: "string option"
  qc_categories :: "category list"
  qc_scope :: quota_scope
  qc_scope_id :: "string option"
  qc_limit :: "int option"
  qc_window :: "int option"
  qc_reason :: "string option"
  qc_namespace :: "string option"

abbreviation truthy_str :: "string option \<Rightarrow> bool" where
  "truthy_str s \<equiv> s \<noteq> None \<and> s \<noteq> Some ''''"

definition QuotaConfig ::
  "string option \<Rightarrow> category list \<Rightarrow> quota_scope option \<Rightarrow> int option \<Rightarrow> int option \<Rightarrow> int option \<Rightarrow> string option
     \<Rightarrow> string option \<Rightarrow> quota_config result" where
  "QuotaConfig i categories scope scope_id limit window reason ns =
     (if limit \<noteq> None \<and> \<not> truthy_str reason then Inl AssertionError
      else if limit = Some 0 \<and> i \<noteq> None then Inl AssertionError
      else if limit = Some 0 \<and> window \<noteq> None then Inl AssertionError
      else if limit \<noteq> Some 0 \<and> \<not> truthy_str i then Inl AssertionError
      else if limit \<noteq> Some 0 \<and> (case window of None \<Rightarrow> True | Some w \<Rightarrow> w \<le> 0) then Inl AssertionError
      else if scope_id \<noteq> None \<and> scope = None then Inl AssertionError
      else Inr \<lparr>qc_id = i, qc_categories = categories,
                 qc_scope = (case scope of None \<Rightarrow> OrganizationScope | Some s \<Rightarrow> s),
                 qc_scope_id = map_option int_str scope_id, qc_limit = limit, qc_window = window,
                 qc_reason = reason, qc_namespace = ns\<rparr>)"

definition should_track :: "quota_config \<Rightarrow> bool" where
  "should_track q = (qc_id q \<noteq> None \<and> qc_window q \<noteq> None)"

section \<open>Limits from settings\<close>

definition int_of_float :: "rat \<Rightarrow> int" where
  "int_of_float x = (if 0 \<le> x then \<lfloor>x\<rfloor> else \<lceil>x\<rceil>)"

definition limit_from_settings :: "rat option \<Rightarrow> int option" where
  "limit_from_settings x =
     (let n = (case x of None \<Rightarrow> 0 | Some v \<Rightarrow> int_of_float v) in if n = 0 then None else Some n)"

text \<open>A quota setting is a number or a percentage.\<close>

datatype quota_setting = Amount int | Percent int

definition or_else :: "rat option \<Rightarrow> rat option \<Rightarrow> rat option" where
  "or_else x y = (if x = None \<or> x = Some 0 then y else x)"

definition translate_quota :: "quota_setting option \<Rightarrow> int option \<Rightarrow> int option" where
  "translate_quota quota parent_quota =
     (let parent = map_option of_int parent_quota;
          quota = (case quota of
                     None \<Rightarrow> None
                   | Some (Amount n) \<Rightarrow> Some (of_int n)
                   | Some (Percent pct) \<Rightarrow> Some (of_int (case parent_quota of None \<Rightarrow> 0 | Some p \<Rightarrow> p) * of_int pct / 100))
      in limit_from_settings (or_else quota parent))"

record quota_options =
  op_get :: "string \<Rightarrow> int option"
  op_abuse_window :: int
  op_system_rate_limit :: "int option"
  op_default_max :: "quota_setting option"
  op_single_organization :: bool
  op_disabled_orgs :: "int list"
  op_disabled_projects :: "int list"

record quota_org =
  og_id :: int
  og_option :: "string \<Rightarrow> int option"
  og_account_limit :: "int option"
  og_project_share :: int

record quota_key =
  qk_id :: int
  qk_count :: "int option"
  qk_window :: "int option"

text \<open>The categories of Relay that are named.\<close>

record quota_categories =
  dc_error :: category
  dc_errors :: "category list"
  dc_transaction :: category
  dc_attachment :: category
  dc_session :: category
  dc_span_indexed :: category
  dc_metric_bucket :: category
  dc_monitor :: category

definition as_setting :: "int option \<Rightarrow> int option" where
  "as_setting x = limit_from_settings (map_option of_int x)"

definition get_organization_quota :: "quota_options \<Rightarrow> quota_org \<Rightarrow> int option \<times> int" where
  "get_organization_quota op og =
     (let account_limit = as_setting (og_account_limit og);
          system_limit = as_setting (op_system_rate_limit op)
      in if op_single_organization op \<or> account_limit \<noteq> None then
           (case system_limit of
              Some s \<Rightarrow>
                if (case account_limit of None \<Rightarrow> True | Some a \<Rightarrow> (of_int s :: rat) < of_int a / 60) then (system_limit, 60)
                else (account_limit, 3600)
            | None \<Rightarrow> (account_limit, 3600))
         else (translate_quota (op_default_max op) system_limit, 60))"

definition get_project_quota :: "quota_options \<Rightarrow> quota_org \<Rightarrow> int option \<times> int" where
  "get_project_quota op og =
     (let (org_quota, window) = get_organization_quota op og
      in (if og_project_share og \<noteq> 100 \<and> org_quota \<noteq> None
          then translate_quota (Some (Percent (og_project_share og))) org_quota else None,
          window))"

definition get_maximum_quota :: "quota_options \<Rightarrow> int option \<times> int" where
  "get_maximum_quota op = (as_setting (op_system_rate_limit op), 60)"

definition key_rate_limit :: "quota_key \<Rightarrow> int \<times> int" where
  "key_rate_limit k =
     (case (qk_count k, qk_window k) of
        (Some c, Some w) \<Rightarrow> if c \<noteq> 0 \<and> w \<noteq> 0 then (c, w) else (0, 0)
      | _ \<Rightarrow> (0, 0))"

text \<open>Whether the project has the feature, from the cache or from the feature handlers, is an argument.\<close>

definition get_key_quota :: "bool \<Rightarrow> quota_key \<Rightarrow> int option \<times> int option" where
  "get_key_quota has_rate_limits k =
     (if \<not> has_rate_limits then (None, None)
      else let (limit, window) = key_rate_limit k in (as_setting (Some limit), Some window))"

section \<open>Abuse quotas\<close>

record abuse_quota =
  aq_id :: string
  aq_option :: string
  aq_categories :: "category list"
  aq_scope :: quota_scope
  aq_namespace :: "string option"
  aq_compat_org :: "string option"
  aq_compat_sentry :: "string option"

definition CARDINALITY_LIMIT_USE_CASES :: "string list" where
  "CARDINALITY_LIMIT_USE_CASES = [''transactions'', ''sessions'', ''spans'', ''custom'', ''profiles'']"

definition build_metric_abuse_quotas :: "quota_categories \<Rightarrow> abuse_quota list" where
  "build_metric_abuse_quotas dc =
     concat (map (\<lambda>(scope, prefix).
       \<lparr>aq_id = prefix @ ''amb'', aq_option = ''metric-abuse-quota.'' @ api_name scope,
         aq_categories = [dc_metric_bucket dc], aq_scope = scope, aq_namespace = None,
         aq_compat_org = None, aq_compat_sentry = None\<rparr>
       # map (\<lambda>use_case.
           \<lparr>aq_id = prefix @ ''amb_'' @ use_case, aq_option = ''metric-abuse-quota.'' @ api_name scope @ ''.'' @ use_case,
             aq_categories = [dc_metric_bucket dc], aq_scope = scope, aq_namespace = Some use_case,
             aq_compat_org = None, aq_compat_sentry = None\<rparr>) CARDINALITY_LIMIT_USE_CASES)
       [(ProjectScope, ''p''), (OrganizationScope, ''o''), (GlobalScope, ''g'')])"

definition project_abuse_quotas :: "quota_categories \<Rightarrow> abuse_quota list" where
  \<comment> \<open>the category of transactions depends on a feature: \<open>dc_transaction\<close>\<close>
  "project_abuse_quotas dc =
     [\<lparr>aq_id = ''pae'', aq_option = ''project-abuse-quota.error-limit'', aq_categories = dc_errors dc,
        aq_scope = ProjectScope, aq_namespace = None, aq_compat_org = Some ''sentry:project-error-limit'',
        aq_compat_sentry = Some ''getsentry.rate-limit.project-errors''\<rparr>,
      \<lparr>aq_id = ''pati'', aq_option = ''project-abuse-quota.transaction-limit'', aq_categories = [dc_transaction dc],
        aq_scope = ProjectScope, aq_namespace = None, aq_compat_org = Some ''sentry:project-transaction-limit'',
        aq_compat_sentry = Some ''getsentry.rate-limit.project-transactions''\<rparr>,
      \<lparr>aq_id = ''paa'', aq_option = ''project-abuse-quota.attachment-limit'', aq_categories = [dc_attachment dc],
        aq_scope = ProjectScope, aq_namespace = None, aq_compat_org = None, aq_compat_sentry = None\<rparr>,
      \<lparr>aq_id = ''pas'', aq_option = ''project-abuse-quota.session-limit'', aq_categories = [dc_session dc],
        aq_scope = ProjectScope, aq_namespace = None, aq_compat_org = None, aq_compat_sentry = None\<rparr>,
      \<lparr>aq_id = ''paspi'', aq_option = ''project-abuse-quota.span-limit'', aq_categories = [dc_span_indexed dc],
        aq_scope = ProjectScope, aq_namespace = None, aq_compat_org = None, aq_compat_sentry = None\<rparr>]"

definition falsy :: "int option \<Rightarrow> bool" where
  "falsy x = (x = None \<or> x = Some 0)"

definition abuse_limit :: "quota_options \<Rightarrow> quota_org \<Rightarrow> abuse_quota \<Rightarrow> int option" where
  "abuse_limit op og q =
     (let limit = (case aq_compat_org q of None \<Rightarrow> Some 0 | Some o' \<Rightarrow> og_option og o');
          limit = (if falsy limit then case aq_compat_sentry q of None \<Rightarrow> limit | Some o' \<Rightarrow> op_get op o' else limit);
          limit = (if falsy limit then og_option og (aq_option q) else limit);
          limit = (if falsy limit then op_get op (aq_option q) else limit)
      in as_setting limit)"

fun reason_code :: "quota_scope \<Rightarrow> string" where
  "reason_code OrganizationScope = ''org_abuse_limit''"
| "reason_code ProjectScope = ''project_abuse_limit''"
| "reason_code GlobalScope = ''global_abuse_limit''"
| "reason_code KeyScope = ''''"

definition abuse_config :: "quota_options \<Rightarrow> quota_org \<Rightarrow> abuse_quota \<Rightarrow> quota_config option result" where
  "abuse_config op og q =
     (case abuse_limit op og q of
        None \<Rightarrow> Inr None
      | Some limit \<Rightarrow>
          if limit < 0 then
            bind_result (QuotaConfig None (aq_categories q) (Some (aq_scope q)) None (Some 0) None (Some ''disabled'') (aq_namespace q))
              (\<lambda>c. Inr (Some c))
          else
            bind_result (QuotaConfig (Some (aq_id q)) (aq_categories q) (Some (aq_scope q)) None
                (Some (limit * op_abuse_window op)) (Some (op_abuse_window op)) (Some (reason_code (aq_scope q))) (aq_namespace q))
              (\<lambda>c. Inr (Some c)))"

definition get_abuse_quotas :: "quota_categories \<Rightarrow> quota_options \<Rightarrow> quota_org \<Rightarrow> quota_config list result" where
  "get_abuse_quotas dc op og =
     bind_result (traverse (abuse_config op og) (project_abuse_quotas dc @ build_metric_abuse_quotas dc))
       (\<lambda>cs. Inr (concat (map (\<lambda>c. case c of None \<Rightarrow> [] | Some q \<Rightarrow> [q]) cs)))"

section \<open>All quotas of a project: \<open>get_quotas\<close>\<close>

definition optional_quota :: "bool \<Rightarrow> quota_config result \<Rightarrow> quota_config list result" where
  "optional_quota b c = (if b then bind_result c (\<lambda>q. Inr [q]) else Inr [])"

definition key_config :: "quota_categories \<Rightarrow> bool \<Rightarrow> quota_key \<Rightarrow> quota_config list result" where
  "key_config dc has_rate_limits k =
     (case get_key_quota has_rate_limits k of
        (None, _) \<Rightarrow> Inr []
      | (Some limit, window) \<Rightarrow>
          bind_result (QuotaConfig (Some ''k'') (dc_errors dc) (Some KeyScope) (Some (qk_id k)) (Some limit) window (Some ''key_quota'') None)
            (\<lambda>q. Inr [q]))"

definition get_quotas ::
  "quota_categories \<Rightarrow> quota_options \<Rightarrow> quota_org \<Rightarrow> int \<Rightarrow> int option \<times> int \<Rightarrow> bool \<Rightarrow> quota_key option \<Rightarrow> quota_key list
     \<Rightarrow> quota_config list result" where
  \<comment> \<open>the quota of monitors is an argument\<close>
  "get_quotas dc op og project mrlquota has_rate_limits key keys =
     (let pquota = get_project_quota op og; oquota = get_organization_quota op og;
          keys = (case key of Some k \<Rightarrow> if keys = [] then [k] else keys | None \<Rightarrow> keys)
      in bind_result (traverse id
           ([get_abuse_quotas dc op og,
             optional_quota (og_id og \<in> set (op_disabled_orgs op))
               (QuotaConfig None [dc_metric_bucket dc] (Some OrganizationScope) None (Some 0) None
                  (Some ''custom_metrics_ingestion_disabled'') (Some ''custom'')),
             optional_quota (project \<in> set (op_disabled_projects op))
               (QuotaConfig None [dc_metric_bucket dc] (Some ProjectScope) None (Some 0) None
                  (Some ''custom_metrics_ingestion_disabled'') (Some ''custom'')),
             optional_quota (fst pquota \<noteq> None)
               (QuotaConfig (Some ''p'') (dc_errors dc) (Some ProjectScope) (Some project) (fst pquota) (Some (snd pquota))
                  (Some ''project_quota'') None),
             optional_quota (fst oquota \<noteq> None)
               (QuotaConfig (Some ''o'') (dc_errors dc) (Some OrganizationScope) (Some (og_id og)) (fst oquota) (Some (snd oquota))
                  (Some ''org_quota'') None),
             optional_quota (fst mrlquota \<noteq> None)
               (QuotaConfig (Some ''mrl'') [dc_monitor dc] (Some ProjectScope) (Some project) (fst mrlquota) (Some (snd mrlquota))
                  (Some ''monitor_rate_limit'') None)]
            @ map (key_config dc has_rate_limits) keys))
         (\<lambda>qs. Inr (concat qs)))"

section \<open>Counters in Redis\<close>

text \<open>A counter has a value and the time at which it expires.\<close>

type_synonym counters = "string \<Rightarrow> (int \<times> int) option"

definition counter :: "rat \<Rightarrow> counters \<Rightarrow> string \<Rightarrow> int" where
  \<comment> \<open>\<open>GET k or 0\<close>\<close>
  "counter now c k = (case c k of None \<Rightarrow> 0 | Some (n, expires) \<Rightarrow> if now < of_int expires then n else 0)"

definition incr_expire :: "rat \<Rightarrow> string \<Rightarrow> int \<Rightarrow> int \<Rightarrow> counters \<Rightarrow> counters" where
  \<comment> \<open>\<open>INCRBY k n\<close> and \<open>EXPIREAT k expires\<close>\<close>
  "incr_expire now k n expires c = c(k := Some (counter now c k + n, expires))"

text \<open>The script: for each counter its key, the key of the refunds, the limit and the expiry.\<close>

definition rejected :: "rat \<Rightarrow> counters \<Rightarrow> string \<times> string \<times> int \<times> int \<Rightarrow> bool" where
  "rejected now c = (\<lambda>(k, r, limit, _). limit \<ge> 0 \<and> counter now c k - counter now c r + 1 > limit)"

definition is_rate_limited_script ::
  "rat \<Rightarrow> (string \<times> string \<times> int \<times> int) list \<Rightarrow> counters \<Rightarrow> bool list \<times> counters" where
  "is_rate_limited_script now args c =
     (let results = map (rejected now c) args
      in (results,
          if list_ex id results then c
          else foldl (\<lambda>c (k, _, _, expires). incr_expire now k 1 expires c) c args))"

definition window_index :: "rat \<Rightarrow> int \<Rightarrow> int \<Rightarrow> int" where
  \<comment> \<open>\<open>int((timestamp - shift) // interval)\<close>\<close>
  "window_index timestamp shift interval = \<lfloor>(timestamp - of_int shift) / of_int interval\<rfloor>"

definition local_key :: "int \<Rightarrow> quota_config \<Rightarrow> string" where
  "local_key org q =
     (case qc_id q of None \<Rightarrow> ''None'' | Some i \<Rightarrow> i) @ ''{'' @ int_str org @ ''}'' @
     (if qc_scope q \<noteq> OrganizationScope then case qc_scope_id q of None \<Rightarrow> '''' | Some s \<Rightarrow> s else '''')"

definition redis_key :: "quota_config \<Rightarrow> rat \<Rightarrow> int \<Rightarrow> int \<Rightarrow> int \<Rightarrow> string" where
  "redis_key q timestamp shift interval org =
     ''quota:'' @ local_key org q @ '':'' @ int_str (window_index timestamp shift interval)"

definition get_refunded_quota_key :: "string \<Rightarrow> string" where
  "get_refunded_quota_key k = ''r:'' @ k"

definition get_next_period_start :: "int \<Rightarrow> int \<Rightarrow> rat \<Rightarrow> rat" where
  "get_next_period_start interval shift timestamp = of_int ((window_index timestamp shift interval + 1) * interval + shift)"

definition grace :: rat where "grace = 60"

definition quota_expiry :: "int \<Rightarrow> int \<Rightarrow> rat \<Rightarrow> int" where
  "quota_expiry interval shift timestamp = int_of_float (get_next_period_start interval shift timestamp + grace)"

section \<open>Checking, refunding, usage\<close>

datatype quota_rate_limit = NotRateLimited | RateLimited "rat option" "string option"

text \<open>The arguments of the script, up to a quota that rejects everything.\<close>

datatype script_args = RejectAll "string option" | ScriptArgs "(string \<times> string \<times> int \<times> int) list"

fun quota_args :: "int \<Rightarrow> rat \<Rightarrow> quota_config list \<Rightarrow> script_args result" where
  "quota_args org timestamp [] = Inr (ScriptArgs [])"
| "quota_args org timestamp (q # qs) =
     (if qc_limit q = Some 0 then
        if qc_window q \<noteq> None then Inl AssertionError
        else if should_track q then Inl AssertionError
        else Inr (RejectAll (qc_reason q))
      else
        (case qc_window q of
           None \<Rightarrow> Inl AssertionError
         | Some window \<Rightarrow>
             if \<not> should_track q then Inl AssertionError
             else
               let shift = org mod window;
                   quota_key = redis_key q timestamp shift window org;
                   lua_quota = (case qc_limit q of None \<Rightarrow> -1 | Some l \<Rightarrow> l)
               in bind_result (quota_args org timestamp qs) (\<lambda>rest.
                    case rest of
                      RejectAll reason \<Rightarrow> Inr (RejectAll reason)
                    | ScriptArgs args \<Rightarrow>
                        Inr (ScriptArgs ((quota_key, get_refunded_quota_key quota_key, lua_quota, quota_expiry window shift timestamp) # args)))))"

definition delay_of :: "int \<Rightarrow> rat \<Rightarrow> quota_config \<Rightarrow> rat" where
  "delay_of org timestamp q =
     (case qc_window q of None \<Rightarrow> 0 | Some window \<Rightarrow> get_next_period_start window (org mod window) timestamp - timestamp)"

fun worst_case :: "int \<Rightarrow> rat \<Rightarrow> (quota_config \<times> bool) list \<Rightarrow> rat \<times> string option \<Rightarrow> rat \<times> string option" where
  "worst_case org timestamp [] worst = worst"
| "worst_case org timestamp ((q, is_rejected) # rest) worst =
     (if \<not> is_rejected then worst_case org timestamp rest worst
      else
        let delay = delay_of org timestamp q
        in worst_case org timestamp rest (if delay > fst worst then (delay, qc_reason q) else worst))"

definition error_quotas :: "quota_categories \<Rightarrow> quota_config list \<Rightarrow> quota_config list" where
  "error_quotas dc = filter (\<lambda>q. qc_categories q = [] \<or> dc_error dc \<in> set (qc_categories q))"

definition is_rate_limited ::
  "quota_categories \<Rightarrow> int \<Rightarrow> quota_config list \<Rightarrow> rat \<Rightarrow> rat \<Rightarrow> counters \<Rightarrow> (quota_rate_limit \<times> counters) result" where
  \<comment> \<open>with the quotas of the project, the time of the caller and the clock of Redis\<close>
  "is_rate_limited dc org all_quotas timestamp now c =
     (let quotas = error_quotas dc all_quotas
      in if quotas = [] then Inr (NotRateLimited, c)
         else bind_result (quota_args org timestamp quotas) (\<lambda>args.
           case args of
             RejectAll reason \<Rightarrow> Inr (RateLimited None reason, c)
           | ScriptArgs args \<Rightarrow>
               let (rejections, c') = is_rate_limited_script now args c
               in if \<not> list_ex id rejections then Inr (NotRateLimited, c')
                  else let (delay, reason) = worst_case org timestamp (zip quotas rejections) (0, None)
                       in Inr (RateLimited (Some delay) reason, c')))"

definition refunded_quotas :: "category \<Rightarrow> quota_config list \<Rightarrow> quota_config list" where
  "refunded_quotas category = filter (\<lambda>q. should_track q \<and> category \<in> set (qc_categories q))"

definition refund_one :: "int \<Rightarrow> rat \<Rightarrow> rat \<Rightarrow> int \<Rightarrow> counters \<Rightarrow> quota_config \<Rightarrow> counters" where
  "refund_one org timestamp now quantity c q =
     (case qc_window q of
        None \<Rightarrow> c
      | Some window \<Rightarrow>
          let shift = org mod window
          in incr_expire now (get_refunded_quota_key (redis_key q timestamp shift window org)) quantity
               (quota_expiry window shift timestamp) c)"

definition refund ::
  "quota_categories \<Rightarrow> int \<Rightarrow> quota_config list \<Rightarrow> rat \<Rightarrow> rat \<Rightarrow> category option \<Rightarrow> int option \<Rightarrow> counters \<Rightarrow> counters" where
  "refund dc org all_quotas timestamp now category quantity c =
     (let category = (case category of None \<Rightarrow> dc_error dc | Some x \<Rightarrow> x);
          quantity = (case quantity of None \<Rightarrow> 1 | Some n \<Rightarrow> n)
      in foldl (refund_one org timestamp now quantity) c (refunded_quotas category all_quotas))"

definition get_usage :: "int \<Rightarrow> quota_config list \<Rightarrow> rat \<Rightarrow> rat \<Rightarrow> counters \<Rightarrow> int option list" where
  "get_usage org quotas timestamp now c =
     map (\<lambda>q. if \<not> should_track q then None
           else (case qc_window q of
              None \<Rightarrow> None
            | Some window \<Rightarrow>
                let k = redis_key q timestamp (org mod window) window org
                in Some (counter now c k - counter now c (get_refunded_quota_key k)))) quotas"

section \<open>Runs of checks and refunds\<close>

text \<open>What was accepted and refunded so far: the quota and the index of its window, for refunds with the quantity.\<close>

record quota_log =
  ql_counters :: counters
  ql_accepted :: "(quota_config \<times> int) list"
  ql_refunded :: "(quota_config \<times> int \<times> int) list"

definition index_of :: "int \<Rightarrow> rat \<Rightarrow> quota_config \<Rightarrow> int" where
  "index_of org timestamp q = (case qc_window q of None \<Rightarrow> 0 | Some w \<Rightarrow> window_index timestamp (org mod w) w)"

datatype quota_event =
    Check "quota_config list" rat rat
  | Refund "quota_config list" rat rat "category option" "int option"

fun quota_step :: "quota_categories \<Rightarrow> int \<Rightarrow> quota_log \<Rightarrow> quota_event \<Rightarrow> quota_log" where
  "quota_step dc org s (Check qs timestamp now) =
     (case is_rate_limited dc org qs timestamp now (ql_counters s) of
        Inl _ \<Rightarrow> s
      | Inr (NotRateLimited, c) \<Rightarrow>
          s\<lparr>ql_counters := c, ql_accepted := ql_accepted s @ map (\<lambda>q. (q, index_of org timestamp q)) (error_quotas dc qs)\<rparr>
      | Inr (RateLimited _ _, c) \<Rightarrow> s\<lparr>ql_counters := c\<rparr>)"
| "quota_step dc org s (Refund qs timestamp now category quantity) =
     s\<lparr>ql_counters := refund dc org qs timestamp now category quantity (ql_counters s),
       ql_refunded := ql_refunded s @
         map (\<lambda>q. (q, index_of org timestamp q, case quantity of None \<Rightarrow> 1 | Some n \<Rightarrow> n))
           (refunded_quotas (case category of None \<Rightarrow> dc_error dc | Some x \<Rightarrow> x) qs)\<rparr>"

definition no_usage :: quota_log where
  "no_usage = \<lparr>ql_counters = (\<lambda>_. None), ql_accepted = [], ql_refunded = []\<rparr>"

abbreviation quota_run :: "quota_categories \<Rightarrow> int \<Rightarrow> quota_event list \<Rightarrow> quota_log" where
  "quota_run dc org es \<equiv> foldl (quota_step dc org) no_usage es"

definition accepted_in :: "quota_log \<Rightarrow> quota_config \<Rightarrow> int \<Rightarrow> int" where
  "accepted_in s q i = int (count_list (ql_accepted s) (q, i))"

definition refunded_in :: "quota_log \<Rightarrow> quota_config \<Rightarrow> int \<Rightarrow> int" where
  "refunded_in s q i = sum_list (map (\<lambda>(_, _, n). n) (filter (\<lambda>(p, j, _). p = q \<and> j = i) (ql_refunded s)))"

section \<open>Keys\<close>

lemma last_separator:
  assumes "c \<notin> set x" "c \<notin> set y" "a @ c # x = b @ c # y"
  shows "a = b \<and> x = y"
proof -
  have "takeWhile (\<lambda>z. z \<noteq> c) (rev (a @ c # x)) = rev x" if "c \<notin> set x" for a x
    using that by (simp add: takeWhile_append)
  from this [OF assms(1), of a] this [OF assms(2), of b] assms(3) have "rev x = rev y" by simp
  with assms(3) show ?thesis by simp
qed

lemma int_str_inj: "int_str i = int_str j \<Longrightarrow> i = j"
  by (metis int_of_int_str sum.inject(2))

lemma redis_key_inj:
  "redis_key q t s w org = redis_key q' t' s' w' org \<longleftrightarrow>
     local_key org q = local_key org q' \<and> window_index t s w = window_index t' s' w'"
proof
  assume "redis_key q t s w org = redis_key q' t' s' w' org"
  then have "local_key org q @ CHR '':'' # int_str (window_index t s w) = local_key org q' @ CHR '':'' # int_str (window_index t' s' w')"
    by (simp add: redis_key_def)
  from last_separator [OF int_str_no_colon int_str_no_colon this]
  show "local_key org q = local_key org q' \<and> window_index t s w = window_index t' s' w'" by (auto dest: int_str_inj)
qed (simp add: redis_key_def)

lemma refund_key_apart [simp]:
  "get_refunded_quota_key k \<noteq> redis_key q t s w org" "redis_key q t s w org \<noteq> get_refunded_quota_key k"
  by (simp_all add: get_refunded_quota_key_def redis_key_def)

lemma refund_key_inj [simp]: "get_refunded_quota_key k = get_refunded_quota_key k' \<longleftrightarrow> k = k'"
  by (simp add: get_refunded_quota_key_def)

section \<open>The script\<close>

lemma incr_expire_simps [simp]:
  "incr_expire now k n e c k = Some (counter now c k + n, e)"
  "j \<noteq> k \<Longrightarrow> incr_expire now k n e c j = c j" "j \<noteq> k \<Longrightarrow> counter now (incr_expire now k n e c) j = counter now c j"
  by (simp_all add: incr_expire_def counter_def)

lemma script_counters:
  assumes "distinct (map fst args)"
  shows "foldl (\<lambda>c (k, _, _, expires). incr_expire now k 1 expires c) c args j =
    (case find (\<lambda>a. fst a = j) args of None \<Rightarrow> c j | Some (_, _, _, expires) \<Rightarrow> Some (counter now c j + 1, expires))"
  using assms
proof (induction args arbitrary: c)
  case (Cons a args)
  obtain k r l e where a: "a = (k, r, l, e)" by (metis surj_pair)
  show ?case
  proof (cases "k = j")
    case True
    then have "find (\<lambda>a. fst a = j) args = None" using Cons.prems by (force simp: find_None_iff a)
    with True Cons show ?thesis by (simp add: a)
  next
    case False
    with Cons show ?thesis by (simp add: a split: option.split)
  qed
qed simp

lemma quota_args_shape:
  assumes "quota_args org timestamp qs = Inr (ScriptArgs args)"
  shows "list_all2 (\<lambda>q a. should_track q \<and> (\<exists>w. qc_window q = Some w \<and> qc_limit q \<noteq> Some 0 \<and>
     a = (redis_key q timestamp (org mod w) w org, get_refunded_quota_key (redis_key q timestamp (org mod w) w org),
          case qc_limit q of None \<Rightarrow> -1 | Some l \<Rightarrow> l, quota_expiry w (org mod w) timestamp))) qs args"
  using assms
proof (induction qs arbitrary: args)
  case (Cons q qs)
  then obtain w where w: "qc_window q = Some w" "qc_limit q \<noteq> Some 0"
    by (auto split: if_splits option.splits)
  let ?a = "(redis_key q timestamp (org mod w) w org, get_refunded_quota_key (redis_key q timestamp (org mod w) w org),
          case qc_limit q of None \<Rightarrow> -1 | Some l \<Rightarrow> l, quota_expiry w (org mod w) timestamp)"
  have t: "should_track q" using Cons.prems w by (simp split: if_splits)
  then have "bind_result (quota_args org timestamp qs) (\<lambda>rest. case rest of RejectAll reason \<Rightarrow> Inr (RejectAll reason)
      | ScriptArgs args \<Rightarrow> Inr (ScriptArgs (?a # args))) = Inr (ScriptArgs args)"
    using Cons.prems w by (simp add: Let_def)
  then obtain x where x: "quota_args org timestamp qs = Inr x"
    "(case x of RejectAll reason \<Rightarrow> Inr (RejectAll reason) | ScriptArgs args \<Rightarrow> Inr (ScriptArgs (?a # args))) = (Inr (ScriptArgs args) :: script_args result)"
    unfolding bind_result_Inr_iff by blast
  then obtain rest where "quota_args org timestamp qs = Inr (ScriptArgs rest)" "args = ?a # rest"
    by (cases x) simp_all
  with Cons.IH w t show ?case by simp
qed simp

lemma quota_expiry_eq:
  "quota_expiry w s t = (window_index t s w + 1) * w + s + 60"
proof -
  have "get_next_period_start w s t + grace = of_int ((window_index t s w + 1) * w + s + 60)"
    by (simp add: get_next_period_start_def grace_def)
  then show ?thesis unfolding quota_expiry_def int_of_float_def by (simp only: floor_of_int ceiling_of_int if_cancel)
qed

lemma before_expiry:
  assumes "0 < w" "now \<le> t + 60"
  shows "now < of_int (quota_expiry w s t)"
proof -
  have "(t - of_int s) / of_int w < of_int (window_index t s w + 1)" unfolding window_index_def by linarith
  then have "t - of_int s < of_int (window_index t s w + 1) * of_int w" using assms(1) by (simp add: pos_divide_less_eq)
  then have "t < of_int ((window_index t s w + 1) * w + s)" by simp
  then show ?thesis using assms(2) by (simp add: quota_expiry_eq)
qed

definition key_at :: "int \<Rightarrow> quota_config \<Rightarrow> int \<Rightarrow> string" where
  "key_at org q i = ''quota:'' @ local_key org q @ '':'' @ int_str i"

lemma redis_key_at: "qc_window q = Some w \<Longrightarrow> redis_key q t (org mod w) w org = key_at org q (index_of org t q)"
  by (simp add: redis_key_def key_at_def index_of_def)

lemma key_at_inj: "key_at org q i = key_at org q' j \<longleftrightarrow> local_key org q = local_key org q' \<and> i = j"
proof
  assume "key_at org q i = key_at org q' j"
  then have "local_key org q @ CHR '':'' # int_str i = local_key org q' @ CHR '':'' # int_str j" by (simp add: key_at_def)
  from last_separator [OF int_str_no_colon int_str_no_colon this]
  show "local_key org q = local_key org q' \<and> i = j" by (auto dest: int_str_inj)
qed (simp add: key_at_def)

lemma key_at_apart [simp]: "get_refunded_quota_key k \<noteq> key_at org q i" "key_at org q i \<noteq> get_refunded_quota_key k"
  by (simp_all add: get_refunded_quota_key_def key_at_def)

definition expiry_at :: "int \<Rightarrow> quota_config \<Rightarrow> int \<Rightarrow> int" where
  "expiry_at org q i = (case qc_window q of None \<Rightarrow> 0 | Some w \<Rightarrow> (i + 1) * w + org mod w + 60)"

lemma expiry_at_index: "qc_window q = Some w \<Longrightarrow> quota_expiry w (org mod w) t = expiry_at org q (index_of org t q)"
  by (simp add: quota_expiry_eq expiry_at_def index_of_def)

text \<open>A counter holds a number until it expires.\<close>

definition holds :: "counters \<Rightarrow> string \<Rightarrow> int \<Rightarrow> int \<Rightarrow> bool" where
  "holds c k expires n = (c k = None \<and> n = 0 \<or> c k = Some (n, expires))"

lemma counter_live: "c k = Some (n, expires) \<Longrightarrow> now < of_int expires \<Longrightarrow> counter now c k = n"
  by (simp add: counter_def)

lemma holds_counter: "holds c k expires n \<Longrightarrow> now < of_int expires \<Longrightarrow> counter now c k = n"
  by (auto simp: holds_def counter_def)

text \<open>
  Calls whose clock is at most the grace period ahead, with quotas that have a counter of their own each;
  whatever shares the counter of the quota is that quota.
\<close>

definition own_counters :: "int \<Rightarrow> quota_config \<Rightarrow> quota_config list \<Rightarrow> bool" where
  "own_counters org q qs =
     (distinct (map (local_key org) (filter should_track qs)) \<and> list_all (\<lambda>p. local_key org p = local_key org q \<longrightarrow> p = q) qs)"

definition quota_ok :: "int \<Rightarrow> quota_config \<Rightarrow> int \<Rightarrow> quota_log \<Rightarrow> bool" where
  "quota_ok org q L s =
     (\<forall>i. holds (ql_counters s) (key_at org q i) (expiry_at org q i) (accepted_in s q i)
        \<and> holds (ql_counters s) (get_refunded_quota_key (key_at org q i)) (expiry_at org q i) (refunded_in s q i))"

lemma is_rate_limited_cases:
  assumes "is_rate_limited dc org qs timestamp now c = Inr (res, c')"
  obtains (nothing) "error_quotas dc qs = []" "res = NotRateLimited" "c' = c"
  | (refused) d r where "res = RateLimited d r" "c' = c"
  | (accepted) args where "error_quotas dc qs \<noteq> []" "quota_args org timestamp (error_quotas dc qs) = Inr (ScriptArgs args)"
      "\<forall>a \<in> set args. \<not> rejected now c a" "res = NotRateLimited"
      "c' = foldl (\<lambda>c (k, _, _, expires). incr_expire now k 1 expires c) c args"
proof (cases "error_quotas dc qs = []")
  case True
  show thesis by (rule nothing) (use assms True in \<open>auto simp: is_rate_limited_def\<close>)
next
  case False
  with assms obtain x where x: "quota_args org timestamp (error_quotas dc qs) = Inr x"
    "(case x of RejectAll reason \<Rightarrow> Inr (RateLimited None reason, c)
      | ScriptArgs args \<Rightarrow>
         let (rejections, c') = is_rate_limited_script now args c
         in if \<not> list_ex id rejections then Inr (NotRateLimited, c')
            else let (delay, reason) = worst_case org timestamp (zip (error_quotas dc qs) rejections) (0, None)
                 in Inr (RateLimited (Some delay) reason, c')) = (Inr (res, c') :: (quota_rate_limit \<times> counters) result)"
    unfolding is_rate_limited_def Let_def by (auto simp: bind_result_Inr_iff)
  show thesis
  proof (cases x)
    case (RejectAll reason)
    show thesis by (rule refused [of None reason]) (use x(2) RejectAll in auto)
  next
    case (ScriptArgs args)
    let ?rs = "map (rejected now c) args"
    have s: "is_rate_limited_script now args c =
        (?rs, if list_ex id ?rs then c else foldl (\<lambda>c (k, _, _, expires). incr_expire now k 1 expires c) c args)"
      by (simp add: is_rate_limited_script_def)
    show thesis
    proof (cases "list_ex id ?rs")
      case True
      with x(2) ScriptArgs refused show thesis by (auto simp: s Let_def split: prod.splits)
    next
      case no: False
      then have "\<forall>a \<in> set args. \<not> rejected now c a" by (auto simp: list_ex_iff)
      moreover have "res = NotRateLimited" "c' = foldl (\<lambda>c (k, _, _, expires). incr_expire now k 1 expires c) c args"
        using x(2) ScriptArgs no by (simp_all add: s Let_def)
      ultimately show thesis using accepted [OF False x(1) [unfolded ScriptArgs]] by blast
    qed
  qed
qed

text \<open>What an accepted call does to the counters.\<close>

lemma accepted_counters:
  assumes args: "quota_args org timestamp qs = Inr (ScriptArgs args)" and own: "own_counters org q qs"
    and c': "c' = foldl (\<lambda>c (k, _, _, expires). incr_expire now k 1 expires c) c args"
  shows "c' (get_refunded_quota_key k) = c (get_refunded_quota_key k)"
    and "c' (key_at org q i) =
       (if q \<in> set qs \<and> i = index_of org timestamp q then Some (counter now c (key_at org q i) + 1, expiry_at org q i)
        else c (key_at org q i))"
    and "q \<in> set qs \<Longrightarrow> \<exists>w. qc_window q = Some w \<and> (key_at org q (index_of org timestamp q),
           get_refunded_quota_key (key_at org q (index_of org timestamp q)),
           case qc_limit q of None \<Rightarrow> -1 | Some l \<Rightarrow> l, quota_expiry w (org mod w) timestamp) \<in> set args"
    and "count_list (map (\<lambda>p. (p, index_of org timestamp p)) qs) (q, i) =
       (if q \<in> set qs \<and> i = index_of org timestamp q then 1 else 0)"
proof -
  note shape = quota_args_shape [OF args]
  have keys: "map fst args = map (\<lambda>p. key_at org p (index_of org timestamp p)) qs"
    using shape by (induction rule: list_all2_induct) (auto simp: redis_key_at)
  have tracked: "filter should_track qs = qs" 
    using shape by (induction rule: list_all2_induct) auto
  have local: "distinct (map (local_key org) qs)" using own by (simp add: own_counters_def tracked)
  have same: "local_key org p = local_key org q \<Longrightarrow> p = q" if "p \<in> set qs" for p
    using own that by (auto simp: own_counters_def list_all_iff)
  have dist: "distinct (map fst args)" unfolding keys
    using local by (simp add: distinct_map inj_on_def key_at_inj)
  note eff = script_counters [OF dist, of now c]
  have "find (\<lambda>a. fst a = get_refunded_quota_key k) args = None"
  proof -
    have "fst a \<noteq> get_refunded_quota_key k" if "a \<in> set args" for a
    proof -
      have "fst a \<in> set (map fst args)" using that by simp
      then show ?thesis unfolding keys by auto
    qed
    then show ?thesis unfolding find_None_iff by blast
  qed
  then show "c' (get_refunded_quota_key k) = c (get_refunded_quota_key k)" by (simp add: c' eff)
  show in_args: "q \<in> set qs \<Longrightarrow> \<exists>w. qc_window q = Some w \<and> (key_at org q (index_of org timestamp q),
           get_refunded_quota_key (key_at org q (index_of org timestamp q)),
           case qc_limit q of None \<Rightarrow> -1 | Some l \<Rightarrow> l, quota_expiry w (org mod w) timestamp) \<in> set args"
    using shape by (induction rule: list_all2_induct) (auto simp: redis_key_at)
  show "c' (key_at org q i) =
       (if q \<in> set qs \<and> i = index_of org timestamp q then Some (counter now c (key_at org q i) + 1, expiry_at org q i)
        else c (key_at org q i))"
  proof (cases "q \<in> set qs \<and> i = index_of org timestamp q")
    case True
    then obtain w where w: "qc_window q = Some w" "(key_at org q i, get_refunded_quota_key (key_at org q i),
           case qc_limit q of None \<Rightarrow> -1 | Some l \<Rightarrow> l, quota_expiry w (org mod w) timestamp) \<in> set args" using in_args by blast
    have "find (\<lambda>a. fst a = key_at org q i) args = Some (key_at org q i, get_refunded_quota_key (key_at org q i),
           case qc_limit q of None \<Rightarrow> -1 | Some l \<Rightarrow> l, quota_expiry w (org mod w) timestamp)"
      using find_distinct [OF dist w(2)] by simp
    with True w(1) show ?thesis by (simp add: c' eff expiry_at_index)
  next
    case False
    have "key_at org q i \<notin> set (map fst args)"
    proof
      assume "key_at org q i \<in> set (map fst args)"
      then obtain p where p: "p \<in> set qs" "key_at org q i = key_at org p (index_of org timestamp p)" unfolding keys by auto
      then have "p = q" using same [OF p(1)] by (simp add: key_at_inj)
      with p False show False by (auto simp: key_at_inj)
    qed
    then have "find (\<lambda>a. fst a = key_at org q i) args = None" by (auto simp: find_None_iff rev_image_eqI)
    with False show ?thesis by (auto simp: c' eff)
  qed
  have "distinct qs" using local by (simp add: distinct_map)
  then show "count_list (map (\<lambda>p. (p, index_of org timestamp p)) qs) (q, i) =
       (if q \<in> set qs \<and> i = index_of org timestamp q then 1 else 0)"
    by (induction qs) auto
qed

lemma key_at_cong: "local_key org p = local_key org q \<Longrightarrow> key_at org p = key_at org q"
  by (rule ext) (simp add: key_at_def)

lemma refund_one_counters:
  assumes "qc_window p = Some w"
  shows "refund_one org timestamp now n c p (key_at org q i) = c (key_at org q i)"
    "refund_one org timestamp now n c p (get_refunded_quota_key (key_at org q i)) =
      (if local_key org p = local_key org q \<and> i = index_of org timestamp p
       then Some (counter now c (get_refunded_quota_key (key_at org q i)) + n, quota_expiry w (org mod w) timestamp)
       else c (get_refunded_quota_key (key_at org q i)))"
    "\<not> (local_key org p = local_key org q \<and> i = index_of org timestamp p) \<Longrightarrow>
      counter now (refund_one org timestamp now n c p) (get_refunded_quota_key (key_at org q i)) =
      counter now c (get_refunded_quota_key (key_at org q i))"
  using assms key_at_cong [of org p q] by (auto simp: refund_one_def Let_def redis_key_at key_at_inj)

lemma refund_counters:
  assumes "list_all should_track qs" "distinct (map (local_key org) qs)"
    "\<forall>p \<in> set qs. local_key org p = local_key org q \<longrightarrow> p = q"
  shows "foldl (refund_one org timestamp now n) c qs (key_at org q i) = c (key_at org q i)"
    and "foldl (refund_one org timestamp now n) c qs (get_refunded_quota_key (key_at org q i)) =
      (if q \<in> set qs \<and> i = index_of org timestamp q
       then Some (counter now c (get_refunded_quota_key (key_at org q i)) + n, expiry_at org q i)
       else c (get_refunded_quota_key (key_at org q i)))"
  using assms
proof (induction qs arbitrary: c)
  case (Cons p qs)
  case 1
  then obtain w where "qc_window p = Some w" by (auto simp: should_track_def)
  with Cons.IH(1) 1 show ?case by (simp add: refund_one_counters)
next
  case (Cons p qs)
  case 2
  then obtain w where w: "qc_window p = Some w" by (auto simp: should_track_def)
  show ?case
  proof (cases "local_key org p = local_key org q \<and> i = index_of org timestamp p")
    case True
    then have pq: "p = q" "q \<notin> set qs" using 2 by auto
    have w': "qc_window q = Some w" using w pq by simp
    from True pq 2 Cons.IH(2) show ?thesis by (simp add: refund_one_counters [OF w'] expiry_at_index [OF w'])
  next
    case False
    let ?k = "get_refunded_quota_key (key_at org q i)" and ?c = "refund_one org timestamp now n c p"
    have r: "?c ?k = c ?k" "counter now ?c ?k = counter now c ?k"
      by (simp only: refund_one_counters(2) [OF w] if_not_P [OF False], rule refund_one_counters(3) [OF w False])
    have m: "(q \<in> set (p # qs) \<and> i = index_of org timestamp q) = (q \<in> set qs \<and> i = index_of org timestamp q)"
      using False by auto
    have "foldl (refund_one org timestamp now n) ?c qs ?k =
      (if q \<in> set qs \<and> i = index_of org timestamp q then Some (counter now ?c ?k + n, expiry_at org q i) else ?c ?k)"
      using 2 by (intro Cons.IH(2)) simp_all
    then show ?thesis by (simp only: foldl_Cons r m)
  qed
qed simp_all

lemma holds_incr:
  assumes "holds c k expires n" "now < of_int expires" "c' k = Some (counter now c k + m, expires)"
  shows "holds c' k expires (n + m)"
  using holds_counter [OF assms(1,2)] assms(3) by (simp add: holds_def)

lemma holds_same: "holds c k expires n \<Longrightarrow> c' k = c k \<Longrightarrow> holds c' k expires n"
  by (simp add: holds_def)

lemma now_before_expiry:
  assumes "qc_window q = Some w" "0 < w" "now \<le> timestamp + 60"
  shows "now < of_int (expiry_at org q (index_of org timestamp q))"
  using before_expiry [OF assms(2,3), of "org mod w"] assms(1) by (simp add: expiry_at_index)

lemma check_within:
  assumes "quota_ok org q L s" "\<forall>i. accepted_in s q i - refunded_in s q i \<le> L"
    and q: "qc_window q = Some w" "0 < w" "qc_limit q = Some L" "0 < L"
    and e: "now \<le> timestamp + 60" "own_counters org q (error_quotas dc qs)"
    and t: "t = quota_step dc org s (Check qs timestamp now)"
  shows "quota_ok org q L t \<and> (\<forall>i. accepted_in t q i - refunded_in t q i \<le> L)"
proof (cases "is_rate_limited dc org qs timestamp now (ql_counters s)")
  case (Inl x)
  with assms(1,2) t show ?thesis by simp
next
  case (Inr x)
  obtain res c' where x: "x = (res, c')" by (metis surj_pair)
  from Inr [unfolded x] show ?thesis
  proof (cases rule: is_rate_limited_cases)
    case nothing
    with Inr x assms(1,2) t show ?thesis by (simp add: quota_ok_def accepted_in_def refunded_in_def)
  next
    case (refused d r)
    with Inr x assms(1,2) t show ?thesis by (simp add: quota_ok_def accepted_in_def refunded_in_def)
  next
    case (accepted args)
    let ?qs = "error_quotas dc qs" and ?i = "index_of org timestamp q" and ?c = "ql_counters s"
    note f = accepted_counters [OF accepted(2) e(2) accepted(5)]
    have c: "ql_counters t = c'" "ql_refunded t = ql_refunded s"
      "ql_accepted t = ql_accepted s @ map (\<lambda>p. (p, index_of org timestamp p)) ?qs"
      using Inr x accepted(4) t by simp_all
    have acc: "accepted_in t q i = accepted_in s q i + (if q \<in> set ?qs \<and> i = ?i then 1 else 0)" for i
      by (simp add: accepted_in_def c f(4))
    have ref: "refunded_in t q i = refunded_in s q i" for i by (simp add: refunded_in_def c)
    have ok: "holds ?c (key_at org q i) (expiry_at org q i) (accepted_in s q i)"
      "holds ?c (get_refunded_quota_key (key_at org q i)) (expiry_at org q i) (refunded_in s q i)" for i
      using assms(1) by (simp_all add: quota_ok_def)
    have live: "now < of_int (expiry_at org q ?i)" by (rule now_before_expiry [OF q(1,2) e(1)])
    have "holds c' (key_at org q i) (expiry_at org q i) (accepted_in t q i)" for i
    proof (cases "q \<in> set ?qs \<and> i = ?i")
      case True
      have "holds c' (key_at org q i) (expiry_at org q i) (accepted_in s q i + 1)"
        by (rule holds_incr [OF ok(1)]) (use True live f(2) in simp_all)
      with True show ?thesis by (simp add: acc)
    next
      case False
      have "holds c' (key_at org q i) (expiry_at org q i) (accepted_in s q i)"
        by (rule holds_same [OF ok(1)]) (use False f(2) in auto)
      with False show ?thesis by (auto simp: acc)
    qed
    moreover have "holds c' (get_refunded_quota_key (key_at org q i)) (expiry_at org q i) (refunded_in t q i)" for i
      unfolding ref by (rule holds_same [OF ok(2)]) (rule f(1))
    moreover have "accepted_in t q i - refunded_in t q i \<le> L" for i
    proof (cases "q \<in> set ?qs \<and> i = ?i")
      case True
      then obtain v where "(key_at org q ?i, get_refunded_quota_key (key_at org q ?i), L, v) \<in> set args"
        using f(3) q(3) by auto
      then have "\<not> rejected now ?c (key_at org q ?i, get_refunded_quota_key (key_at org q ?i), L, v)" using accepted(3) by blast
      then show ?thesis
        using True q(4) live holds_counter [OF ok(1) [of ?i] live] holds_counter [OF ok(2) [of ?i] live]
        by (simp add: rejected_def acc ref)
    next
      case False
      with assms(2) show ?thesis by (auto simp: acc ref)
    qed
    ultimately show ?thesis by (simp add: quota_ok_def c(1))
  qed
qed

lemma refund_within:
  assumes "quota_ok org q L s" "\<forall>i. accepted_in s q i - refunded_in s q i \<le> L"
    and q: "qc_window q = Some w" "0 < w"
    and e: "now \<le> timestamp + 60" "own_counters org q qs" "case quantity of None \<Rightarrow> True | Some n \<Rightarrow> 0 \<le> n"
    and t: "t = quota_step dc org s (Refund qs timestamp now category quantity)"
  shows "quota_ok org q L t \<and> (\<forall>i. accepted_in t q i - refunded_in t q i \<le> L)"
proof -
  define n where "n = (case quantity of None \<Rightarrow> 1 | Some n \<Rightarrow> n)"
  define rs where "rs = refunded_quotas (case category of None \<Rightarrow> dc_error dc | Some x \<Rightarrow> x) qs"
  let ?i = "index_of org timestamp q" and ?c = "ql_counters s"
  have n: "0 \<le> n" using e(3) by (simp add: n_def split: option.splits)
  have c: "ql_counters t = foldl (refund_one org timestamp now n) ?c rs" "ql_accepted t = ql_accepted s"
    "ql_refunded t = ql_refunded s @ map (\<lambda>p. (p, index_of org timestamp p, n)) rs"
    by (simp_all add: t refund_def Let_def n_def rs_def)
  have rs: "list_all should_track rs" "distinct (map (local_key org) rs)" "\<forall>p \<in> set rs. local_key org p = local_key org q \<longrightarrow> p = q"
  proof -
    show "list_all should_track rs" by (auto simp: rs_def refunded_quotas_def list_all_iff)
    have "rs = filter (\<lambda>p. (case category of None \<Rightarrow> dc_error dc | Some x \<Rightarrow> x) \<in> set (qc_categories p)) (filter should_track qs)"
      by (simp add: rs_def refunded_quotas_def conj_commute)
    moreover have "distinct (map (local_key org) (filter should_track qs))" using e(2) by (simp add: own_counters_def)
    ultimately show "distinct (map (local_key org) rs)" by (metis distinct_map_filter)
    show "\<forall>p \<in> set rs. local_key org p = local_key org q \<longrightarrow> p = q"
      using e(2) by (auto simp: own_counters_def list_all_iff rs_def refunded_quotas_def)
  qed
  note f = refund_counters [OF rs]
  have ok: "holds ?c (key_at org q i) (expiry_at org q i) (accepted_in s q i)"
    "holds ?c (get_refunded_quota_key (key_at org q i)) (expiry_at org q i) (refunded_in s q i)" for i
    using assms(1) by (simp_all add: quota_ok_def)
  have live: "now < of_int (expiry_at org q ?i)" by (rule now_before_expiry [OF q e(1)])
  have acc: "accepted_in t q i = accepted_in s q i" for i by (simp add: accepted_in_def c)
  have d: "distinct rs" using rs(2) by (simp add: distinct_map)
  have sum: "sum_list (map (\<lambda>(_, _, m). m) (filter (\<lambda>(p, j, _). p = q \<and> j = i) (map (\<lambda>p. (p, index_of org timestamp p, n)) ps)))
      = (if q \<in> set ps \<and> i = ?i then n else 0)" if "distinct ps" for i ps
    using that by (induction ps) auto
  have ref: "refunded_in t q i = refunded_in s q i + (if q \<in> set rs \<and> i = ?i then n else 0)" for i
    by (simp only: refunded_in_def c(3) filter_append map_append sum_list_append sum [OF d])
  have "holds (ql_counters t) (key_at org q i) (expiry_at org q i) (accepted_in t q i)" for i
    unfolding acc by (rule holds_same [OF ok(1)]) (simp add: c f(1))
  moreover have "holds (ql_counters t) (get_refunded_quota_key (key_at org q i)) (expiry_at org q i) (refunded_in t q i)" for i
  proof (cases "q \<in> set rs \<and> i = ?i")
    case True
    have "holds (ql_counters t) (get_refunded_quota_key (key_at org q i)) (expiry_at org q i) (refunded_in s q i + n)"
      by (rule holds_incr [OF ok(2)]) (use True live f(2) in \<open>simp_all add: c\<close>)
    with True show ?thesis by (simp add: ref)
  next
    case False
    have "holds (ql_counters t) (get_refunded_quota_key (key_at org q i)) (expiry_at org q i) (refunded_in s q i)"
      by (rule holds_same [OF ok(2)]) (use False f(2) in \<open>auto simp: c\<close>)
    with False show ?thesis by (auto simp: ref)
  qed
  moreover have "accepted_in t q i - refunded_in t q i \<le> L" for i
    using assms(2) n by (smt (verit) acc ref)
  ultimately show ?thesis by (simp add: quota_ok_def)
qed

fun orderly_event :: "quota_categories \<Rightarrow> int \<Rightarrow> quota_config \<Rightarrow> quota_event \<Rightarrow> bool" where
  "orderly_event dc org q (Check qs timestamp now) = (now \<le> timestamp + 60 \<and> own_counters org q (error_quotas dc qs))"
| "orderly_event dc org q (Refund qs timestamp now category quantity) =
     (now \<le> timestamp + 60 \<and> own_counters org q qs \<and> (case quantity of None \<Rightarrow> True | Some n \<Rightarrow> 0 \<le> n))"

lemma quota_run_within:
  assumes "qc_window q = Some w" "0 < w" "qc_limit q = Some L" "0 < L" "list_all (orderly_event dc org q) es"
  shows "quota_ok org q L (quota_run dc org es) \<and> (\<forall>i. accepted_in (quota_run dc org es) q i - refunded_in (quota_run dc org es) q i \<le> L)"
  using assms(5)
proof (induction es rule: rev_induct)
  case Nil
  show ?case using assms(4) by (simp add: quota_ok_def holds_def no_usage_def accepted_in_def refunded_in_def)
next
  case (snoc e es)
  then have IH: "quota_ok org q L (quota_run dc org es)"
    "\<forall>i. accepted_in (quota_run dc org es) q i - refunded_in (quota_run dc org es) q i \<le> L"
    and e: "orderly_event dc org q e" by simp_all
  show ?case
  proof (cases e)
    case (Check qs timestamp now)
    with e show ?thesis by (intro check_within [OF IH assms(1-4)]) simp_all
  next
    case (Refund qs timestamp now category quantity)
    with e show ?thesis by (intro refund_within [OF IH assms(1,2)]) simp_all
  qed
qed

text \<open>
  C9. A quota holds in every window, however calls with other quotas, refunds and windows interleave: what was
  accepted less what was refunded is at most the limit, while the clock of Redis is at most the grace
  period ahead of the callers' and the counter of the quota is its own.
\<close>

theorem quota_never_exceeded:
  assumes "qc_window q = Some w" "0 < w" "qc_limit q = Some L" "0 < L" "list_all (orderly_event dc org q) es"
  shows "accepted_in (quota_run dc org es) q i - refunded_in (quota_run dc org es) q i \<le> L"
  using quota_run_within [OF assms] by blast

section \<open>The configured quotas\<close>

definition quota_wf :: "quota_config \<Rightarrow> bool" where
  "quota_wf q =
     (if qc_limit q = Some 0 then qc_id q = None \<and> qc_window q = None
      else qc_id q \<noteq> None \<and> (\<exists>w. qc_window q = Some w \<and> 0 < w))"

lemma QuotaConfig_wf: "QuotaConfig i cs sc si l w r n = Inr q \<Longrightarrow> quota_wf q"
  by (auto simp: QuotaConfig_def quota_wf_def split: if_splits option.splits)

lemma QuotaConfig_reject: "truthy_str r \<Longrightarrow> \<exists>q. QuotaConfig None cs (Some sc) si (Some 0) None r n = Inr q \<and> quota_wf q"
  by (simp add: QuotaConfig_def quota_wf_def)

lemma QuotaConfig_track:
  "truthy_str r \<Longrightarrow> truthy_str i \<Longrightarrow> l \<noteq> Some 0 \<Longrightarrow> 0 < w \<Longrightarrow>
     \<exists>q. QuotaConfig i cs (Some sc) si l (Some w) r n = Inr q \<and> quota_wf q"
  by (simp add: QuotaConfig_def quota_wf_def)

lemma limit_from_settings_nonzero: "limit_from_settings x \<noteq> Some 0"
  by (simp add: limit_from_settings_def Let_def)

lemma as_setting_nonzero: "as_setting x \<noteq> Some 0"
  by (simp add: as_setting_def limit_from_settings_nonzero)

lemma organization_quota_ok: "fst (get_organization_quota op og) \<noteq> Some 0" "0 < snd (get_organization_quota op og)"
  using as_setting_nonzero limit_from_settings_nonzero
  by (auto simp: get_organization_quota_def Let_def translate_quota_def split: option.splits if_splits)

lemma project_quota_ok: "fst (get_project_quota op og) \<noteq> Some 0" "0 < snd (get_project_quota op og)"
  using limit_from_settings_nonzero organization_quota_ok(2) [of op og]
  by (auto simp: get_project_quota_def translate_quota_def Let_def split: prod.splits)

definition all_wf :: "quota_config list result \<Rightarrow> bool" where
  "all_wf r = (\<exists>qs. r = Inr qs \<and> list_all quota_wf qs)"

lemma optional_quota_wf: "(b \<Longrightarrow> \<exists>q. c = Inr q \<and> quota_wf q) \<Longrightarrow> all_wf (optional_quota b c)"
  by (auto simp: optional_quota_def all_wf_def)

lemma traverse_all_wf: "list_all all_wf rs \<Longrightarrow> all_wf (bind_result (traverse id rs) (\<lambda>qs. Inr (concat qs)))"
  by (induction rs) (auto simp: all_wf_def bind_result_Inr_iff)

lemma abuse_config_wf:
  assumes "0 < op_abuse_window op" "aq_id q \<noteq> []" "aq_scope q \<noteq> KeyScope"
  shows "\<exists>c. abuse_config op og q = Inr c \<and> (\<forall>x. c = Some x \<longrightarrow> quota_wf x)"
proof (cases "abuse_limit op og q")
  case (Some limit)
  have "\<exists>y. abuse_limit op og q = as_setting y" unfolding abuse_limit_def Let_def by blast
  then have "limit \<noteq> 0" using Some as_setting_nonzero by force
  have r: "reason_code (aq_scope q) \<noteq> []" using assms(3) by (cases "aq_scope q") simp_all
  show ?thesis
  proof (cases "limit < 0")
    case True
    have "\<exists>c. QuotaConfig None (aq_categories q) (Some (aq_scope q)) None (Some 0) None (Some ''disabled'') (aq_namespace q) = Inr c
        \<and> quota_wf c" by (rule QuotaConfig_reject) simp
    then obtain c where "QuotaConfig None (aq_categories q) (Some (aq_scope q)) None (Some 0) None (Some ''disabled'') (aq_namespace q) = Inr c"
      "quota_wf c" by blast
    with Some True show ?thesis by (simp add: abuse_config_def)
  next
    case False
    then have "Some (limit * op_abuse_window op) \<noteq> Some 0" using \<open>limit \<noteq> 0\<close> assms(1) by simp
    then have "\<exists>c. QuotaConfig (Some (aq_id q)) (aq_categories q) (Some (aq_scope q)) None (Some (limit * op_abuse_window op))
        (Some (op_abuse_window op)) (Some (reason_code (aq_scope q))) (aq_namespace q) = Inr c \<and> quota_wf c"
      by (intro QuotaConfig_track) (use r assms(1,2) in simp_all)
    then obtain c where "QuotaConfig (Some (aq_id q)) (aq_categories q) (Some (aq_scope q)) None (Some (limit * op_abuse_window op))
        (Some (op_abuse_window op)) (Some (reason_code (aq_scope q))) (aq_namespace q) = Inr c" "quota_wf c" by blast
    with Some False show ?thesis by (simp add: abuse_config_def)
  qed
qed (simp add: abuse_config_def)

lemma abuse_quota_ids:
  "list_all (\<lambda>q. aq_id q \<noteq> [] \<and> aq_scope q \<noteq> KeyScope) (project_abuse_quotas dc @ build_metric_abuse_quotas dc)"
  by (simp add: project_abuse_quotas_def build_metric_abuse_quotas_def CARDINALITY_LIMIT_USE_CASES_def)

lemma abuse_quotas_wf:
  assumes "0 < op_abuse_window op"
  shows "all_wf (get_abuse_quotas dc op og)"
proof -
  have "\<exists>cs. traverse (abuse_config op og) l = Inr cs \<and> list_all (\<lambda>c. \<forall>x. c = Some x \<longrightarrow> quota_wf x) cs"
    if "list_all (\<lambda>q. aq_id q \<noteq> [] \<and> aq_scope q \<noteq> KeyScope) l" for l
    using that
  proof (induction l)
    case (Cons q l)
    then obtain cs where "traverse (abuse_config op og) l = Inr cs" "list_all (\<lambda>c. \<forall>x. c = Some x \<longrightarrow> quota_wf x) cs" by auto
    moreover obtain c where "abuse_config op og q = Inr c" "\<forall>x. c = Some x \<longrightarrow> quota_wf x"
      using abuse_config_wf [OF assms, of q og] Cons.prems by auto
    ultimately show ?case by simp
  qed simp
  from this [OF abuse_quota_ids] obtain cs where cs: "traverse (abuse_config op og) (project_abuse_quotas dc @ build_metric_abuse_quotas dc) = Inr cs"
    "list_all (\<lambda>c. \<forall>x. c = Some x \<longrightarrow> quota_wf x) cs" by blast
  then have "list_all quota_wf (concat (map (\<lambda>c. case c of None \<Rightarrow> [] | Some q \<Rightarrow> [q]) cs))"
    by (auto simp: list_all_iff split: option.splits)
  then show ?thesis by (simp add: all_wf_def get_abuse_quotas_def cs(1))
qed

lemma key_rate_limit_ok:
  "(\<forall>w. qk_window k = Some w \<longrightarrow> 0 \<le> w) \<Longrightarrow> key_rate_limit k = (0, 0) \<or> 0 < snd (key_rate_limit k)"
  by (auto simp: key_rate_limit_def split: option.splits)

lemma key_config_wf:
  assumes "\<forall>w. qk_window k = Some w \<longrightarrow> 0 \<le> w"
  shows "all_wf (key_config dc b k)"
proof -
  obtain limit window where p: "get_key_quota b k = (limit, window)" by (metis surj_pair)
  show ?thesis
  proof (cases limit)
    case None
    with p show ?thesis by (simp add: key_config_def all_wf_def)
  next
    case (Some l)
    have f: "as_setting (Some (fst (key_rate_limit k))) = Some l" "window = Some (snd (key_rate_limit k))"
      using p Some by (auto simp: get_key_quota_def split: if_splits prod.splits)
    have "as_setting (Some 0) = None" by (simp add: as_setting_def limit_from_settings_def int_of_float_def)
    with f(1) have w: "0 < snd (key_rate_limit k)" using key_rate_limit_ok [OF assms] by auto
    have "Some l \<noteq> Some 0" using f(1) as_setting_nonzero by metis
    then have "\<exists>q. QuotaConfig (Some ''k'') (dc_errors dc) (Some KeyScope) (Some (qk_id k)) (Some l)
        (Some (snd (key_rate_limit k))) (Some ''key_quota'') None = Inr q \<and> quota_wf q"
      by (intro QuotaConfig_track) (use w in simp_all)
    then obtain q where "QuotaConfig (Some ''k'') (dc_errors dc) (Some KeyScope) (Some (qk_id k)) (Some l)
        (Some (snd (key_rate_limit k))) (Some ''key_quota'') None = Inr q" "quota_wf q" by blast
    with p Some f(2) show ?thesis by (simp add: key_config_def all_wf_def)
  qed
qed

lemma tracked_wf:
  assumes "i \<noteq> []" "r \<noteq> []" "fst lw \<noteq> Some 0" "fst lw \<noteq> None \<Longrightarrow> 0 < snd lw"
  shows "all_wf (optional_quota (fst lw \<noteq> None) (QuotaConfig (Some i) cs (Some sc) si (fst lw) (Some (snd lw)) (Some r) None))"
  using assms by (intro optional_quota_wf QuotaConfig_track) simp_all

lemma rejecting_wf:
  "r \<noteq> [] \<Longrightarrow> all_wf (optional_quota c (QuotaConfig None cs (Some sc) None (Some 0) None (Some r) n))"
  by (intro optional_quota_wf QuotaConfig_reject) simp

lemma get_quotas_wf:
  assumes "0 < op_abuse_window op" "\<forall>l. fst mrl = Some l \<longrightarrow> l \<noteq> 0 \<and> 0 < snd mrl"
    and "\<forall>k \<in> set keys \<union> set_option key. \<forall>w. qk_window k = Some w \<longrightarrow> 0 \<le> w"
  shows "all_wf (get_quotas dc op og project mrl b key keys)"
proof -
  have keys: "list_all all_wf (map (key_config dc b) (case key of Some k \<Rightarrow> if keys = [] then [k] else keys | None \<Rightarrow> keys))"
    using assms(3) key_config_wf by (fastforce simp: list_all_iff split: option.splits if_splits)
  have m: "fst mrl \<noteq> Some 0" "fst mrl \<noteq> None \<Longrightarrow> 0 < snd mrl" using assms(2) by auto
  show ?thesis
    unfolding get_quotas_def Let_def
    by (rule traverse_all_wf)
      (simp only: list_all_append list.pred_inject keys abuse_quotas_wf [OF assms(1)] rejecting_wf tracked_wf
        organization_quota_ok project_quota_ok m list.distinct not_False_eq_True simp_thms)
qed

lemma quota_args_wf: "list_all quota_wf qs \<Longrightarrow> \<exists>a. quota_args org t qs = Inr a"
proof (induction qs)
  case (Cons q qs)
  then obtain a where "quota_args org t qs = Inr a" by auto
  with Cons.prems show ?case
    by (cases a) (auto simp: quota_wf_def should_track_def Let_def split: if_splits)
qed simp

text \<open>
  No assertion fails: whatever the options and settings, if the abuse window is positive the quotas of a project
  can be built, and checking them returns an answer at any time and in any state of the counters.
\<close>

theorem configured_quotas_checkable:
  assumes "0 < op_abuse_window op" "\<forall>l. fst mrl = Some l \<longrightarrow> l \<noteq> 0 \<and> 0 < snd mrl"
    and "\<forall>k \<in> set keys \<union> set_option key. \<forall>w. qk_window k = Some w \<longrightarrow> 0 \<le> w"
  shows "\<exists>qs. get_quotas dc op og project mrl b key keys = Inr qs
    \<and> (\<forall>timestamp now c. \<exists>r. is_rate_limited dc (og_id og) qs timestamp now c = Inr r)"
proof -
  obtain qs where qs: "get_quotas dc op og project mrl b key keys = Inr qs" "list_all quota_wf qs"
    using get_quotas_wf [OF assms, of dc og project b] unfolding all_wf_def by blast
  then have "list_all quota_wf (error_quotas dc qs)" by (auto simp: error_quotas_def list_all_iff)
  then have args: "\<exists>a. quota_args (og_id og) t (error_quotas dc qs) = Inr a" for t by (rule quota_args_wf)
  have "\<exists>r. is_rate_limited dc (og_id og) qs timestamp now c = Inr r" for timestamp now c
  proof -
    obtain a where "quota_args (og_id og) timestamp (error_quotas dc qs) = Inr a" using args by blast
    then show ?thesis by (cases a) (auto simp: is_rate_limited_def Let_def split: prod.split)
  qed
  with qs(1) show ?thesis by blast
qed

text \<open>
  A small share of a quota is no quota: when the share of a project comes to less than one event, the project
  is not limited at all, and a share of zero per cent gives it the whole quota of the organization.
\<close>

theorem small_share_not_limited:
  assumes "fst (get_organization_quota op og) = Some n" "0 < n" "0 \<le> og_project_share og" "og_project_share og * n < 100"
  shows "fst (get_project_quota op og) = (if og_project_share og = 0 then Some n else None)"
proof -
  have ne: "og_project_share og \<noteq> 100" using assms(2,4) by auto
  have q: "fst (get_project_quota op og) = translate_quota (Some (Percent (og_project_share og))) (Some n)"
    using assms(1) ne by (cases "get_organization_quota op og") (simp add: get_project_quota_def)
  show ?thesis
  proof (cases "og_project_share og = 0")
    case True
    with assms(2) show ?thesis
      by (simp add: q translate_quota_def or_else_def limit_from_settings_def int_of_float_def Let_def)
  next
    case False
    let ?x = "(of_int n * of_int (og_project_share og) / 100 :: rat)"
    have "of_int n * of_int (og_project_share og) = (of_int (og_project_share og * n) :: rat)" by (simp add: mult.commute)
    moreover have "(of_int (og_project_share og * n) :: rat) < 100" "(0 :: rat) < of_int (og_project_share og * n)"
      using assms(2-4) False by (linarith, simp)
    ultimately have "0 < of_int n * (of_int (og_project_share og) :: rat)" "of_int n * (of_int (og_project_share og) :: rat) < 100"
      by metis+
    then have "0 < ?x" "?x < 1" by simp_all
    then have "?x \<noteq> 0" "0 \<le> ?x" "\<lfloor>?x\<rfloor> = 0" by (linarith, linarith, simp only: floor_eq_iff of_int_0 add_0 less_imp_le simp_thms)
    then have "limit_from_settings (or_else (Some ?x) (Some (of_int n))) = None"
      unfolding or_else_def limit_from_settings_def int_of_float_def Let_def
      by (simp only: option.distinct option.inject simp_thms if_False option.case if_True refl)
    with False show ?thesis by (simp add: q translate_quota_def Let_def)
  qed
qed

definition sample_options :: quota_options where
  "sample_options = \<lparr>op_get = (\<lambda>s. if s = ''project-abuse-quota.error-limit'' then Some 1 else None), op_abuse_window = 10,
     op_system_rate_limit = Some 50, op_default_max = Some (Percent 90), op_single_organization = False,
     op_disabled_orgs = [], op_disabled_projects = []\<rparr>"

definition sample_org :: "int \<Rightarrow> quota_org" where
  "sample_org share = \<lparr>og_id = 1, og_option = (\<lambda>_. None), og_account_limit = None, og_project_share = share\<rparr>"

definition sample_categories :: quota_categories where
  "sample_categories = \<lparr>dc_error = 1, dc_errors = [1, 2], dc_transaction = 3, dc_attachment = 4, dc_session = 5,
     dc_span_indexed = 6, dc_metric_bucket = 7, dc_monitor = 8\<rparr>"

theorem small_share_not_limited_witness:
  "fst (get_organization_quota sample_options (sample_org 2)) = Some 45
   \<and> fst (get_project_quota sample_options (sample_org 2)) = None
   \<and> fst (get_project_quota sample_options (sample_org 0)) = Some 45"
proof -
  have o': "fst (get_organization_quota sample_options (sample_org s)) = Some 45" for s
    by (simp add: get_organization_quota_def sample_options_def sample_org_def as_setting_def limit_from_settings_def
        int_of_float_def translate_quota_def or_else_def Let_def)
  have "og_project_share (sample_org s) = s" for s by (simp add: sample_org_def)
  with small_share_not_limited [OF o', of 2] small_share_not_limited [OF o', of 0] o' show ?thesis by simp
qed

theorem configured_quotas_checkable_witness:
  "\<exists>qs. get_quotas sample_categories sample_options (sample_org 50) 7 (Some 106, 60) True
      (Some \<lparr>qk_id = 3, qk_count = Some 5, qk_window = Some 60\<rparr>) [] = Inr qs
    \<and> (\<forall>timestamp now c. \<exists>r. is_rate_limited sample_categories (og_id (sample_org 50)) qs timestamp now c = Inr r)"
  by (rule configured_quotas_checkable) (simp_all add: sample_options_def)

text \<open>
  The counter of an abuse quota for projects has no project in its key, so the projects of an
  organization share it: once one project has used its limit, another that sent nothing is limited too.
\<close>

definition errors_of :: "int \<Rightarrow> quota_config list" where
  "errors_of project =
     (case get_quotas sample_categories (sample_options\<lparr>op_abuse_window := 1, op_system_rate_limit := None, op_default_max := None\<rparr>)
             (sample_org 100) project (None, 60) False None [] of Inl _ \<Rightarrow> [] | Inr qs \<Rightarrow> qs)"

theorem project_abuse_quota_shared:
  "\<exists>c. is_rate_limited sample_categories 1 (errors_of 7) 100 100 (\<lambda>_. None) = Inr (NotRateLimited, c)
     \<and> is_rate_limited sample_categories 1 (errors_of 8) 100 100 c = Inr (RateLimited (Some 1) (Some ''project_abuse_limit''), c)
     \<and> map qc_scope (errors_of 8) = [ProjectScope]"
proof -
  have e: "errors_of p = [\<lparr>qc_id = Some ''pae'', qc_categories = [1, 2], qc_scope = ProjectScope, qc_scope_id = None,
      qc_limit = Some 1, qc_window = Some 1, qc_reason = Some ''project_abuse_limit'', qc_namespace = None\<rparr>]" for p
    by (simp add: errors_of_def get_quotas_def get_abuse_quotas_def project_abuse_quotas_def build_metric_abuse_quotas_def
        CARDINALITY_LIMIT_USE_CASES_def abuse_config_def abuse_limit_def falsy_def sample_options_def sample_org_def
        sample_categories_def as_setting_def limit_from_settings_def int_of_float_def QuotaConfig_def optional_quota_def
        get_project_quota_def get_organization_quota_def translate_quota_def or_else_def Let_def)
  show ?thesis
    by (simp add: e is_rate_limited_def error_quotas_def sample_categories_def should_track_def is_rate_limited_script_def
        rejected_def counter_def incr_expire_def get_refunded_quota_key_def redis_key_def quota_expiry_eq window_index_def
        delay_of_def get_next_period_start_def Let_def)
qed

section \<open>Refunds\<close>

text \<open>
  C33. A refund takes an accepted call back exactly where the error category is listed. A call is counted against the
  quotas that list the error category and against those that list no category at all, but refund only looks at the former:
  for each quota with a window the call was counted against, the usage after the refund is the usage before the call if the quota
  lists the error category, and one more if its categories are empty. The quotas that are tracked have counters of their own,
  the refund has the timestamp of the call, and the call, the refund and both readings are made at one time of Redis's
  clock, at most a minute (the grace period) after that timestamp.
\<close>

theorem refund_takes_back:
  assumes "is_rate_limited dc org qs timestamp now c = Inr (NotRateLimited, c')"
    and "q \<in> set (error_quotas dc qs)" "qc_window q = Some w" "0 < w" "now \<le> timestamp + 60"
    and "own_counters org q qs"
  shows "get_usage org [q] timestamp now (refund dc org qs timestamp now None None c') =
    map (map_option (\<lambda>n. if dc_error dc \<in> set (qc_categories q) then n else n + 1)) (get_usage org [q] timestamp now c)"
  using assms(1)
proof (cases rule: is_rate_limited_cases)
  case nothing
  with assms(2) show ?thesis by simp
next
  case (refused d r)
  then show ?thesis by simp
next
  case (accepted args)
  let ?i = "index_of org timestamp q" and ?rs = "refunded_quotas (dc_error dc) qs"
  have own: "own_counters org q (error_quotas dc qs)"
  proof -
    have "filter should_track (error_quotas dc qs) = filter (\<lambda>q. qc_categories q = [] \<or> dc_error dc \<in> set (qc_categories q)) (filter should_track qs)"
      by (simp add: error_quotas_def conj_commute)
    moreover have "distinct (map (local_key org) (filter should_track qs))" using assms(6) by (simp add: own_counters_def)
    ultimately have "distinct (map (local_key org) (filter should_track (error_quotas dc qs)))" by (metis distinct_map_filter)
    then show ?thesis using assms(6) by (auto simp: own_counters_def error_quotas_def list_all_iff)
  qed
  note f = accepted_counters [OF accepted(2) own accepted(5)]
  have "list_all should_track (error_quotas dc qs)"
    using quota_args_shape [OF accepted(2)] by (induction rule: list_all2_induct) auto
  then have t: "should_track q" using assms(2) by (auto simp: list_all_iff)
  have rs: "list_all should_track ?rs" "distinct (map (local_key org) ?rs)" "\<forall>p \<in> set ?rs. local_key org p = local_key org q \<longrightarrow> p = q"
  proof -
    show "list_all should_track ?rs" by (auto simp: refunded_quotas_def list_all_iff)
    have "?rs = filter (\<lambda>p. dc_error dc \<in> set (qc_categories p)) (filter should_track qs)"
      by (simp add: refunded_quotas_def conj_commute)
    moreover have "distinct (map (local_key org) (filter should_track qs))" using assms(6) by (simp add: own_counters_def)
    ultimately show "distinct (map (local_key org) ?rs)" by (metis distinct_map_filter)
    show "\<forall>p \<in> set ?rs. local_key org p = local_key org q \<longrightarrow> p = q"
      using assms(6) by (auto simp: own_counters_def list_all_iff refunded_quotas_def)
  qed
  have q: "q \<in> set ?rs \<longleftrightarrow> dc_error dc \<in> set (qc_categories q)"
    using t assms(2) by (auto simp: refunded_quotas_def error_quotas_def)
  let ?c = "refund dc org qs timestamp now None None c'"
  have c: "?c = foldl (refund_one org timestamp now 1) c' ?rs" by (simp add: refund_def Let_def)
  have live: "now < of_int (expiry_at org q ?i)" by (rule now_before_expiry [OF assms(3-5)])
  have "counter now ?c (key_at org q ?i) = counter now c (key_at org q ?i) + 1"
    by (rule counter_live [OF _ live]) (use assms(2) in \<open>simp add: c refund_counters(1) [OF rs] f(2)\<close>)
  moreover have "counter now ?c (get_refunded_quota_key (key_at org q ?i)) =
      counter now c (get_refunded_quota_key (key_at org q ?i)) + (if dc_error dc \<in> set (qc_categories q) then 1 else 0)"
  proof -
    have "counter now c' (get_refunded_quota_key (key_at org q ?i)) = counter now c (get_refunded_quota_key (key_at org q ?i))"
      by (simp add: counter_def f(1))
    moreover have "counter now ?c (get_refunded_quota_key (key_at org q ?i)) = counter now c' (get_refunded_quota_key (key_at org q ?i)) + 1"
      if "q \<in> set ?rs"
      by (rule counter_live [OF _ live]) (use that in \<open>simp add: c refund_counters(2) [OF rs]\<close>)
    moreover have "?c (get_refunded_quota_key (key_at org q ?i)) = c' (get_refunded_quota_key (key_at org q ?i))" if "q \<notin> set ?rs"
      using that by (simp add: c refund_counters(2) [OF rs])
    ultimately show ?thesis using q by (auto simp: counter_def)
  qed
  ultimately show ?thesis using t assms(3) by (simp add: get_usage_def redis_key_at Let_def)
qed

definition sample_quota :: "int \<Rightarrow> quota_config" where
  "sample_quota L = \<lparr>qc_id = Some ''p'', qc_categories = [1, 2], qc_scope = ProjectScope, qc_scope_id = Some ''7'',
     qc_limit = Some L, qc_window = Some 60, qc_reason = Some ''project_quota'', qc_namespace = None\<rparr>"

definition uncategorised_quota :: quota_config where
  "uncategorised_quota = sample_quota 5\<lparr>qc_categories := [], qc_id := Some ''g''\<rparr>"

theorem refund_takes_back_witness:
  "\<exists>c'. is_rate_limited sample_categories 1 [sample_quota 5, uncategorised_quota] 100 100 (\<lambda>_. None) = Inr (NotRateLimited, c')
     \<and> get_usage 1 [sample_quota 5] 100 100
          (refund sample_categories 1 [sample_quota 5, uncategorised_quota] 100 100 None None c') = [Some 0]
     \<and> get_usage 1 [uncategorised_quota] 100 100
          (refund sample_categories 1 [sample_quota 5, uncategorised_quota] 100 100 None None c') = [Some 1]"
proof -
  let ?qs = "[sample_quota 5, uncategorised_quota]"
  note defs = uncategorised_quota_def sample_quota_def sample_categories_def error_quotas_def should_track_def
  have "\<exists>c'. is_rate_limited sample_categories 1 ?qs 100 100 (\<lambda>_. None) = Inr (NotRateLimited, c')"
    by (simp add: is_rate_limited_def defs is_rate_limited_script_def rejected_def counter_def Let_def)
  then obtain c' where c': "is_rate_limited sample_categories 1 ?qs 100 100 (\<lambda>_. None) = Inr (NotRateLimited, c')" by blast
  have keys: "local_key 1 (sample_quota 5) \<noteq> local_key 1 uncategorised_quota"
    by (simp add: local_key_def defs)
  have own: "own_counters 1 (sample_quota 5) ?qs" "own_counters 1 uncategorised_quota ?qs"
    using keys by (simp_all add: own_counters_def defs)
  have "get_usage 1 [sample_quota 5] 100 100 (refund sample_categories 1 ?qs 100 100 None None c')
      = map (map_option (\<lambda>n. if dc_error sample_categories \<in> set (qc_categories (sample_quota 5)) then n else n + 1))
          (get_usage 1 [sample_quota 5] 100 100 (\<lambda>_. None))"
    by (rule refund_takes_back [OF c' _ _ _ _ own(1), where w = 60]) (simp_all add: defs)
  moreover have "get_usage 1 [uncategorised_quota] 100 100 (refund sample_categories 1 ?qs 100 100 None None c')
      = map (map_option (\<lambda>n. if dc_error sample_categories \<in> set (qc_categories uncategorised_quota) then n else n + 1))
          (get_usage 1 [uncategorised_quota] 100 100 (\<lambda>_. None))"
    by (rule refund_takes_back [OF c' _ _ _ _ own(2), where w = 60]) (simp_all add: defs)
  ultimately show ?thesis using c' by (simp add: get_usage_def defs counter_def)
qed

theorem quota_never_exceeded_witness:
  "let s = quota_run sample_categories 1
      [Check [sample_quota 1] 100 100, Check [sample_quota 1] 101 101, Refund [sample_quota 1] 102 102 None None, Check [sample_quota 1] 103 103]
   in accepted_in s (sample_quota 1) 1 - refunded_in s (sample_quota 1) 1 \<le> 1"
  unfolding Let_def
  by (rule quota_never_exceeded [where w = 60])
    (simp_all add: sample_quota_def sample_categories_def error_quotas_def own_counters_def)

end
