(* ===== verification/RuleConditions.thy ===== *)
theory RuleConditions
  imports PyValue "HOL-Library.Product_Lexorder"
begin

text \<open>
  Conditions and filters of issue alerts: \<open>rules/match.py\<close>, \<open>rules/age.py\<close>, \<open>rules/conditions\<close> and
  \<open>rules/filters\<close>, except for those that count events (theory \<open>EventFrequency\<close>). The data of a
  condition is the JSON object of the rule; an event is what the conditions read of it. A condition that raises
  is a value of the result type; who asks it (\<open>safe_execute\<close>) takes that as "does not pass". The text of values
  that are not strings, integers or booleans (\<open>str(v)\<close>) is a parameter. Not modelled: forms and labels,
  the columns for the preview, the staleness of the cached assignees.
\<close>

section \<open>Options of a condition\<close>

type_synonym rule_data = "(string, pyval) dict"

definition get_option :: "rule_data \<Rightarrow> string \<Rightarrow> pyval \<Rightarrow> pyval" where
  "get_option d k dflt = (case dict_get d k of None \<Rightarrow> dflt | Some v \<Rightarrow> v)"

fun py_lower :: "pyval \<Rightarrow> string result" where
  "py_lower (PStr s) = Inr (lower s)"
| "py_lower _ = Inl AttributeError"

fun py_str :: "(pyval \<Rightarrow> string) \<Rightarrow> pyval \<Rightarrow> string" where
  \<comment> \<open>\<open>str(v)\<close>; the text of floats, lists and dictionaries is given\<close>
  "py_str repr (PStr s) = s"
| "py_str repr (PInt i) = int_str i"
| "py_str repr (PBool b) = (if b then ''True'' else ''False'')"
| "py_str repr PNone = ''None''"
| "py_str repr v = repr v"

section \<open>Match types\<close>

fun find_sub :: "string \<Rightarrow> string \<Rightarrow> string option" where
  \<comment> \<open>what comes after the first occurrence\<close>
  "find_sub p [] = (if p = [] then Some [] else None)"
| "find_sub p (c # s) = (if startswith p (c # s) then Some (drop (length p) (c # s)) else find_sub p s)"

definition get_standardized_key :: "string \<Rightarrow> string" where
  "get_standardized_key k = (case find_sub ''sentry:'' k of None \<Rightarrow> k | Some r \<Rightarrow> r)"

definition comma_values :: "string \<Rightarrow> string list" where
  "comma_values v = split_on CHR '','' (filter (\<lambda>c. c \<noteq> CHR '' '') v)"

definition match_values :: "string list \<Rightarrow> string \<Rightarrow> pyval \<Rightarrow> bool result" where
  "match_values group_values match_value match_type =
     (if match_type = PStr ''eq'' then Inr (match_value \<in> set group_values)
      else if match_type = PStr ''ne'' then Inr (match_value \<notin> set group_values)
      else if match_type = PStr ''sw'' then Inr (list_ex (startswith match_value) group_values)
      else if match_type = PStr ''nsw'' then Inr (list_all (\<lambda>g. \<not> startswith match_value g) group_values)
      else if match_type = PStr ''ew'' then Inr (list_ex (endswith match_value) group_values)
      else if match_type = PStr ''new'' then Inr (list_all (\<lambda>g. \<not> endswith match_value g) group_values)
      else if match_type = PStr ''co'' then Inr (list_ex (contains_sub match_value) group_values)
      else if match_type = PStr ''nc'' then Inr (\<not> list_ex (contains_sub match_value) group_values)
      else if match_type = PStr ''in'' then Inr (list_ex (\<lambda>g. g \<in> set (comma_values match_value)) group_values)
      else if match_type = PStr ''nin'' then Inr (\<not> list_ex (\<lambda>g. g \<in> set (comma_values match_value)) group_values)
      else Inl (OtherError ''RuntimeError''))"

section \<open>Events and issues\<close>

record event_state =
  es_is_new :: bool
  es_is_regression :: bool
  es_is_new_group_environment :: bool
  es_has_reappeared :: bool
  es_has_escalated :: bool

record assignee =
  as_team :: "nat option"
  as_user :: "nat option"

record issue =
  is_id :: nat
  is_project :: nat
  is_first_seen :: rat
  is_priority :: "nat option"
  is_category :: nat
  is_unresolved :: bool
  is_times_seen :: int
  is_times_seen_pending :: int
  is_assignees :: "assignee list"

record frame =
  fr_module :: "string option"
  fr_filename :: "string option"
  fr_abs_path :: "string option"
  fr_package :: "string option"
  fr_pre_context :: "string list"
  fr_context_line :: "string option"
  fr_post_context :: "string list"

text \<open>A mechanism may lack \<open>handled\<close>; exceptions may be missing in the list.\<close>

record exception =
  ex_type :: "string option"
  ex_value :: "string option"
  ex_mechanism :: "pyval option"
  ex_stacktrace :: "frame list option"

record user_interface =
  us_id :: "string option"
  us_email :: "string option"
  us_username :: "string option"
  us_ip_address :: "string option"

record request_interface =
  rq_url :: "string option"
  rq_method :: "string option"

record group_event =
  ev_id :: string
  ev_occurrence :: "string option"
  ev_group :: issue
  ev_tags :: "(string \<times> string) list"
  ev_platform :: "string option"
  ev_message :: string
  ev_search_message :: string
  ev_data :: "(string, pyval) dict"
  ev_exceptions :: "exception option list option"
  ev_user :: "user_interface option"
  ev_request :: "request_interface option"
  ev_stacktrace :: "frame list option"

definition get_tag :: "group_event \<Rightarrow> string \<Rightarrow> string option" where
  "get_tag ev k = map_option snd (find (\<lambda>(t, _). t = k) (ev_tags ev))"

text \<open>The rule a condition belongs to: its environment is all that the conditions read.\<close>

section \<open>Conditions on the state of an issue\<close>

definition HIGH :: nat where "HIGH = 75"

definition first_seen_passes :: "nat option \<Rightarrow> event_state \<Rightarrow> bool" where
  "first_seen_passes env state = (if env = None then es_is_new state else es_is_new_group_environment state)"

definition regression_passes :: "event_state \<Rightarrow> bool" where
  "regression_passes state = es_is_regression state"

definition reappeared_passes :: "event_state \<Rightarrow> bool" where
  "reappeared_passes state = es_has_reappeared state"

definition new_high_priority_passes :: "bool \<Rightarrow> bool \<Rightarrow> nat option \<Rightarrow> group_event \<Rightarrow> event_state \<Rightarrow> bool" where
  \<comment> \<open>the feature of the organization, the flag of the project\<close>
  "new_high_priority_passes has_feature has_high_priority_alerts env ev state =
     (if \<not> has_feature then False
      else let is_new = (if env = None then es_is_new state else es_is_new_group_environment state)
           in if \<not> has_high_priority_alerts then is_new else is_new \<and> is_priority (ev_group ev) = Some HIGH)"

definition existing_high_priority_passes :: "bool \<Rightarrow> group_event \<Rightarrow> event_state \<Rightarrow> bool" where
  "existing_high_priority_passes has_feature ev state =
     (if \<not> has_feature then False else if es_is_new state then False
      else (es_has_reappeared state \<or> es_has_escalated state) \<and> is_priority (ev_group ev) = Some HIGH)"

section \<open>Level and tags\<close>

definition LOG_LEVELS_MAP :: "(string \<times> int) list" where
  "LOG_LEVELS_MAP = [(''sample'', 0), (''debug'', 10), (''info'', 20), (''warning'', 30), (''error'', 40), (''fatal'', 50)]"

definition level_passes_name :: "rule_data \<Rightarrow> string \<Rightarrow> bool result" where
  "level_passes_name d level_name =
     (let raw = get_option d ''level'' PNone; m = get_option d ''match'' PNone
      in if \<not> (py_truth raw \<and> py_truth m) then Inr False
         else bind_result (py_int raw) (\<lambda>desired.
           case map_of LOG_LEVELS_MAP level_name of
             None \<Rightarrow> Inr False
           | Some level \<Rightarrow>
               Inr (if m = PStr ''eq'' then level = desired
                    else if m = PStr ''gte'' then level \<ge> desired
                    else if m = PStr ''lte'' then level \<le> desired else False)))"

definition level_passes :: "rule_data \<Rightarrow> group_event \<Rightarrow> bool result" where
  "level_passes d ev = (case get_tag ev ''level'' of None \<Rightarrow> Inr False | Some tag \<Rightarrow> level_passes_name d tag)"

definition tags_pass :: "rule_data \<Rightarrow> (string \<times> string) list \<Rightarrow> bool result" where
  "tags_pass d raw_tags =
     (let k = get_option d ''key'' PNone; m = get_option d ''match'' PNone; v = get_option d ''value'' PNone
      in if \<not> (py_truth k \<and> py_truth m) then Inr False
         else bind_result (py_lower k) (\<lambda>k.
           let tag_keys = map (\<lambda>(t, _). lower t) raw_tags @ map (\<lambda>(t, _). get_standardized_key t) raw_tags
           in if m = PStr ''is'' then Inr (k \<in> set tag_keys)
              else if m = PStr ''ns'' then Inr (k \<notin> set tag_keys)
              else if \<not> py_truth v then Inr False
              else bind_result (py_lower v) (\<lambda>v.
                match_values (map (\<lambda>(_, x). lower x)
                  (filter (\<lambda>(t, _). lower t = k \<or> get_standardized_key t = k) raw_tags)) v m)))"

definition tagged_passes :: "rule_data \<Rightarrow> group_event \<Rightarrow> bool result" where
  "tagged_passes d ev = tags_pass d (ev_tags ev)"

section \<open>Attributes of an event\<close>

text \<open>Names and values are read as Python values: an attribute that is not set is \<open>None\<close>.\<close>

definition opt_str :: "string option \<Rightarrow> pyval" where
  "opt_str s = (case s of None \<Rightarrow> PNone | Some t \<Rightarrow> PStr t)"

definition data_item :: "group_event \<Rightarrow> string \<Rightarrow> pyval result" where
  \<comment> \<open>\<open>event.data[k]\<close>\<close>
  "data_item ev k = (case dict_get (ev_data ev) k of None \<Rightarrow> Inl KeyError | Some v \<Rightarrow> Inr v)"

definition interface_of :: "'a option \<Rightarrow> 'a result" where
  \<comment> \<open>\<open>event.interfaces[name]\<close>\<close>
  "interface_of i = (case i of None \<Rightarrow> Inl KeyError | Some x \<Rightarrow> Inr x)"

fun extra_walk :: "string list \<Rightarrow> pyval \<Rightarrow> pyval list result" where
  "extra_walk [] v = Inr (case v of PList xs \<Rightarrow> xs | _ \<Rightarrow> [v])"
| "extra_walk (part # path) v =
     bind_result (py_get v part PNone) (\<lambda>w. if \<not> py_truth w then Inr [] else extra_walk path w)"

definition exception_attribute :: "string \<Rightarrow> exception \<Rightarrow> pyval" where
  "exception_attribute a e = opt_str (if a = ''type'' then ex_type e else ex_value e)"

definition handled_values :: "bool \<Rightarrow> exception option list \<Rightarrow> pyval list result" where
  \<comment> \<open>\<open>e.mechanism\<close> of a missing exception raises\<close>
  "handled_values negate es = bind_result (traverse (\<lambda>e. case e of None \<Rightarrow> Inl AttributeError | Some e \<Rightarrow>
       Inr (case ex_mechanism e of None \<Rightarrow> [] | Some PNone \<Rightarrow> []
            | Some h \<Rightarrow> [PBool (\<not> py_eq h (PBool negate))])) es) (\<lambda>xs. Inr (concat xs))"

definition frame_values :: "string \<Rightarrow> frame \<Rightarrow> pyval list" where
  "frame_values a f =
     (if a = ''filename'' then [opt_str (fr_filename f)]
      else if a = ''module'' then [opt_str (fr_module f)]
      else if a = ''abs_path'' then [opt_str (fr_abs_path f)]
      else if a = ''package'' then [opt_str (fr_package f)]
      else if a = ''code'' then
        map PStr (fr_pre_context f)
        @ (case fr_context_line f of None \<Rightarrow> [] | Some l \<Rightarrow> if l = [] then [] else [PStr l])
        @ map PStr (fr_post_context f)
      else [])"

definition stacktrace_values :: "string \<Rightarrow> group_event \<Rightarrow> pyval list result" where
  "stacktrace_values a ev =
     (case ev_stacktrace ev of
        Some fs \<Rightarrow> Inr (concat (map (frame_values a) fs))
      | None \<Rightarrow>
          bind_result (interface_of (ev_exceptions ev)) (\<lambda>es.
            bind_result (traverse (\<lambda>e. case e of None \<Rightarrow> Inl AttributeError | Some e \<Rightarrow> Inr (ex_stacktrace e)) es) (\<lambda>sts.
              Inr (concat (map (\<lambda>st. case st of None \<Rightarrow> [] | Some fs \<Rightarrow> concat (map (frame_values a) fs)) sts)))))"

definition context_value :: "group_event \<Rightarrow> string \<Rightarrow> string \<Rightarrow> pyval list result" where
  \<comment> \<open>\<open>[(event.data["contexts"].get(name) or an empty one).get(key)]\<close>\<close>
  "context_value ev name key =
     bind_result (data_item ev ''contexts'') (\<lambda>contexts.
       bind_result (py_get contexts name PNone) (\<lambda>c.
         bind_result (py_get (if c = PNone then PDict [] else c) key PNone) (\<lambda>v. Inr [v])))"

definition device_value :: "group_event \<Rightarrow> string \<Rightarrow> pyval list result" where
  \<comment> \<open>a missing device context is read as a list, which has no \<open>get\<close>\<close>
  "device_value ev key =
     bind_result (data_item ev ''contexts'') (\<lambda>contexts.
       bind_result (py_get contexts ''device'' PNone) (\<lambda>c.
         bind_result (py_get (if c = PNone then PList [] else c) key PNone) (\<lambda>v. Inr [v])))"

definition os_value :: "group_event \<Rightarrow> string \<Rightarrow> string \<Rightarrow> pyval list result" where
  "os_value ev part key =
     bind_result (data_item ev ''contexts'') (\<lambda>contexts.
       bind_result (py_get contexts ''os'' PNone) (\<lambda>c.
         bind_result (py_get (if c = PNone then PDict [] else c) part PNone) (\<lambda>dist.
           bind_result (py_get (if dist = PNone then PDict [] else dist) key PNone) (\<lambda>v. Inr [v]))))"

text \<open>
  The attributes with a second part. A custom attribute of a user is read as an attribute of a dictionary, which it
  has not (its methods, such as \<open>user.items\<close>, are left out). A test \<open>x in ("name")\<close> is one for a part of the string, so
  it lets through more than the name.
\<close>

definition two_part_values :: "group_event \<Rightarrow> string list \<Rightarrow> string \<Rightarrow> string \<Rightarrow> pyval list result" where
  "two_part_values ev path h a =
     (if h = ''exception'' then
        (if a \<noteq> ''type'' \<and> a \<noteq> ''value'' then Inr []
         else bind_result (interface_of (ev_exceptions ev)) (\<lambda>es.
           Inr (concat (map (\<lambda>e. case e of None \<Rightarrow> [] | Some e \<Rightarrow> [exception_attribute a e]) es))))
      else if h = ''error'' then
        (if a \<noteq> ''handled'' \<and> a \<noteq> ''unhandled'' then Inr []
         else bind_result (interface_of (ev_exceptions ev)) (handled_values (a = ''unhandled'')))
      else if h = ''user'' then
        bind_result (interface_of (ev_user ev)) (\<lambda>u.
          if a = ''id'' then Inr [opt_str (us_id u)]
          else if a = ''ip_address'' then Inr [opt_str (us_ip_address u)]
          else if a = ''email'' then Inr [opt_str (us_email u)]
          else if a = ''username'' then Inr [opt_str (us_username u)]
          else Inl AttributeError)
      else if h = ''http'' then
        (if a = ''url'' then bind_result (interface_of (ev_request ev)) (\<lambda>r. Inr [opt_str (rq_url r)])
         else if a = ''method'' then bind_result (interface_of (ev_request ev)) (\<lambda>r. Inr [opt_str (rq_method r)])
         else if contains_sub a ''status_code'' then context_value ev ''response'' a
         else Inr [])
      else if h = ''sdk'' then
        (if a \<noteq> ''name'' then Inr []
         else bind_result (data_item ev ''sdk'') (\<lambda>sdk. bind_result (py_get sdk a PNone) (\<lambda>v. Inr [v])))
      else if h = ''stacktrace'' then stacktrace_values a ev
      else if h = ''device'' then
        (if a \<in> {''screen_density'', ''screen_dpi'', ''screen_height_pixels'', ''screen_width_pixels''}
         then device_value ev a else Inr [])
      else if h = ''unreal'' then (if a = ''crash_type'' then context_value ev ''unreal'' a else Inr [])
      else if h = ''app'' then (if contains_sub a ''in_foreground'' then context_value ev ''app'' a else Inr [])
      else if h = ''os'' then
        (case path of
           b # _ \<Rightarrow> if contains_sub a ''distribution'' \<and> (b = ''name'' \<or> b = ''version'') then os_value ev a b else Inr []
         | [] \<Rightarrow> Inr [])
      else Inr [])"

definition get_attribute_values :: "group_event \<Rightarrow> string \<Rightarrow> pyval list result" where
  "get_attribute_values ev attr =
     (case split_on CHR ''.'' attr of
        [] \<Rightarrow> Inr []
      | h # rest \<Rightarrow>
          if h = ''platform'' then Inr (if rest = [] then [opt_str (ev_platform ev)] else [])
          else if h = ''message'' then Inr (if rest = [] then [PStr (ev_message ev), PStr (ev_search_message ev)] else [])
          else if h = ''environment'' then Inr [opt_str (get_tag ev ''environment'')]
          else if h = ''type'' then bind_result (data_item ev ''type'') (\<lambda>v. Inr [v])
          else if h = ''extra'' \<and> rest \<noteq> [] then bind_result (data_item ev ''extra'') (extra_walk rest)
          else case rest of [] \<Rightarrow> Inr [] | a # path \<Rightarrow> two_part_values ev path h a)"

definition attribute_values_pass :: "(pyval \<Rightarrow> string) \<Rightarrow> rule_data \<Rightarrow> pyval list \<Rightarrow> bool result" where
  "attribute_values_pass repr d values =
     (let m = get_option d ''match'' PNone; v = get_option d ''value'' PNone
      in if \<not> (py_truth m \<and> py_truth v \<or> m = PStr ''is'' \<or> m = PStr ''ns'') then Inr False
         else bind_result (py_lower v) (\<lambda>v.
           let attr_values = map (\<lambda>x. lower (py_str repr x)) (filter (\<lambda>x. x \<noteq> PNone) values)
           in if m = PStr ''is'' then Inr (attr_values \<noteq> [])
              else if m = PStr ''ns'' then Inr (attr_values = [])
              else match_values attr_values v m))"

definition event_attribute_passes :: "(pyval \<Rightarrow> string) \<Rightarrow> rule_data \<Rightarrow> group_event \<Rightarrow> bool result" where
  "event_attribute_passes repr d ev =
     bind_result (py_lower (get_option d ''attribute'' (PStr ''''))) (\<lambda>attr.
       case get_attribute_values ev attr of
         Inl e \<Rightarrow> if e = KeyError then attribute_values_pass repr d [] else Inl e
       | Inr values \<Rightarrow> attribute_values_pass repr d values)"

section \<open>Filters\<close>

definition timeranges :: "(string \<times> rat) list" where
  "timeranges = [(''minute'', 60), (''hour'', 3600), (''day'', 86400), (''week'', 604800)]"

definition caught_int :: "pyval \<Rightarrow> int option" where
  \<comment> \<open>\<open>int(v)\<close>, where TypeError and ValueError mean that the filter does not pass\<close>
  "caught_int v = (case py_int v of Inl _ \<Rightarrow> None | Inr n \<Rightarrow> Some n)"

definition age_passes_at :: "rule_data \<Rightarrow> rat \<Rightarrow> rat \<Rightarrow> bool" where
  "age_passes_at d first_seen current_time =
     (let comparison_type = get_option d ''comparison_type'' PNone
      in case caught_int (get_option d ''value'' PNone) of
           None \<Rightarrow> False
         | Some v \<Rightarrow>
             (case get_option d ''time'' PNone of
                PStr t \<Rightarrow>
                  (case map_of timeranges t of
                     None \<Rightarrow> False
                   | Some delta_time \<Rightarrow>
                       if comparison_type = PStr ''older'' then first_seen + of_int v * delta_time < current_time
                       else if comparison_type = PStr ''newer'' then first_seen + of_int v * delta_time > current_time
                       else False)
              | _ \<Rightarrow> False))"

definition age_comparison_passes :: "rat \<Rightarrow> rule_data \<Rightarrow> group_event \<Rightarrow> bool" where
  "age_comparison_passes now d ev = age_passes_at d (is_first_seen (ev_group ev)) now"

definition issue_occurrences_passes :: "rule_data \<Rightarrow> group_event \<Rightarrow> bool" where
  "issue_occurrences_passes d ev =
     (case caught_int (get_option d ''value'' PNone) of
        None \<Rightarrow> False
      | Some v \<Rightarrow> is_times_seen (ev_group ev) + is_times_seen_pending (ev_group ev) \<ge> v)"

definition assigned_to_passes :: "rule_data \<Rightarrow> group_event \<Rightarrow> bool result" where
  "assigned_to_passes d ev =
     (let target = get_option d ''targetType'' PNone; ident = get_option d ''targetIdentifier'' PNone;
          assignees = is_assignees (ev_group ev)
      in if target = PStr ''Unassigned'' then Inr (length assignees = 0)
         else if target = PStr ''Team'' then
           Inr (list_ex (\<lambda>a. case as_team a of None \<Rightarrow> False | Some t \<Rightarrow> py_eq (PInt (int t)) ident) assignees)
         else if target = PStr ''Member'' then
           Inr (list_ex (\<lambda>a. case as_user a of None \<Rightarrow> False | Some u \<Rightarrow> u \<noteq> 0 \<and> py_eq (PInt (int u)) ident) assignees)
         else Inl ValueError)"

definition issue_category_passes :: "rule_data \<Rightarrow> issue \<Rightarrow> bool" where
  \<comment> \<open>the categories are numbered from 1 to 7\<close>
  "issue_category_passes d g =
     (case caught_int (get_option d ''value'' PNone) of
        None \<Rightarrow> False
      | Some v \<Rightarrow> if 1 \<le> v \<and> v \<le> 7 then v = int (is_category g) else False)"

section \<open>Releases\<close>

record release_info =
  re_version :: string
  re_date_added :: rat
  re_date_released :: "rat option"
  re_semver :: "(nat \<times> nat \<times> nat \<times> nat \<times> nat \<times> string) option"

text \<open>A cached value may be missing, the value False, or a release.\<close>

type_synonym release_cache = "string \<Rightarrow> release_info option option"

definition project_release_key :: "nat \<Rightarrow> nat option \<Rightarrow> string" where
  "project_release_key project env =
     (case env of
        None \<Rightarrow> ''project:'' @ int_str (int project) @ '':latest_release''
      | Some e \<Rightarrow> ''project:'' @ int_str (int project) @ '':env:'' @ int_str (int e) @ '':latest_release'')"

text \<open>
  \<open>get_latest_release\<close> of the filter: the search gives versions or raises DoesNotExist; the table is asked for
  the first version. The result is the release, if there is one, and the cache.
\<close>

definition latest_release ::
  "(nat \<Rightarrow> nat option \<Rightarrow> string list option) \<Rightarrow> (string \<Rightarrow> release_info option) \<Rightarrow> nat option \<Rightarrow> nat \<Rightarrow> release_cache
     \<Rightarrow> release_info option \<times> release_cache" where
  "latest_release search table env project c =
     (let k = project_release_key project env
      in case c k of
           Some r \<Rightarrow> (r, c)
         | None \<Rightarrow>
             (case search project (if env = Some 0 then None else env) of
                None \<Rightarrow> (None, c)
              | Some versions \<Rightarrow>
                  (case table (hd versions) of
                     Some r \<Rightarrow> (Some r, c(k := Some (Some r)))
                   | None \<Rightarrow> (None, c(k := Some None)))))"

definition latest_release_passes :: "release_info option \<Rightarrow> group_event \<Rightarrow> bool" where
  "latest_release_passes latest ev =
     (case latest of
        None \<Rightarrow> False
      | Some r \<Rightarrow>
          let releases = map (\<lambda>(_, v). lower v)
                (filter (\<lambda>(k, _). lower k = ''release'' \<or> get_standardized_key k = ''release'') (ev_tags ev))
          in list_ex (\<lambda>v. v = lower (re_version r)) releases)"

definition release_date :: "release_info \<Rightarrow> rat" where
  "release_date r = (case re_date_released r of None \<Rightarrow> re_date_added r | Some t \<Rightarrow> t)"

definition is_newer_release :: "release_info \<Rightarrow> release_info \<Rightarrow> bool \<Rightarrow> bool" where
  \<comment> \<open>whether the order is that of semantic versions\<close>
  "is_newer_release r s semver =
     (case (semver, re_semver r, re_semver s) of
        (True, Some v, Some w) \<Rightarrow> v > w
      | _ \<Rightarrow> release_date r > release_date s)"

definition latest_adopted_passes :: "rule_data \<Rightarrow> bool \<Rightarrow> bool \<Rightarrow> release_info option \<Rightarrow> release_info option \<Rightarrow> bool" where
  \<comment> \<open>whether the environment exists, the latest release adopted in it, the first or last release of the issue\<close>
  "latest_adopted_passes d semver env_found latest of_issue =
     (if \<not> env_found then False
      else case (latest, of_issue) of
        (Some l, Some r) \<Rightarrow>
          if get_option d ''older_or_newer'' PNone = PStr ''newer'' then is_newer_release r l semver
          else if get_option d ''older_or_newer'' PNone = PStr ''older'' then is_newer_release l r semver
          else False
      | _ \<Rightarrow> False)"

section \<open>The registry\<close>

datatype rule_class = EveryEvent | FirstSeenEvent | RegressionEvent | ReappearedEvent
  | NewHighPriorityIssue | ExistingHighPriorityIssue | TaggedEvent | EventAttribute | Level
  | EventFrequency | EventUniqueUserFrequency | EventFrequencyPercent
  | AgeComparison | IssueOccurrences | AssignedTo | LatestAdoptedRelease | LatestRelease | IssueCategory
  | EventAttributeFilter | TaggedEventFilter | LevelFilter

definition condition_classes :: "(string \<times> rule_class) list" where
  "condition_classes =
    [(''sentry.rules.conditions.every_event.EveryEventCondition'', EveryEvent),
     (''sentry.rules.conditions.first_seen_event.FirstSeenEventCondition'', FirstSeenEvent),
     (''sentry.rules.conditions.regression_event.RegressionEventCondition'', RegressionEvent),
     (''sentry.rules.conditions.reappeared_event.ReappearedEventCondition'', ReappearedEvent),
     (''sentry.rules.conditions.high_priority_issue.NewHighPriorityIssueCondition'', NewHighPriorityIssue),
     (''sentry.rules.conditions.high_priority_issue.ExistingHighPriorityIssueCondition'', ExistingHighPriorityIssue),
     (''sentry.rules.conditions.tagged_event.TaggedEventCondition'', TaggedEvent),
     (''sentry.rules.conditions.event_frequency.EventFrequencyCondition'', EventFrequency),
     (''sentry.rules.conditions.event_frequency.EventUniqueUserFrequencyCondition'', EventUniqueUserFrequency),
     (''sentry.rules.conditions.event_frequency.EventFrequencyPercentCondition'', EventFrequencyPercent),
     (''sentry.rules.conditions.event_attribute.EventAttributeCondition'', EventAttribute),
     (''sentry.rules.conditions.level.LevelCondition'', Level)]"

definition filter_classes :: "(string \<times> rule_class) list" where
  "filter_classes =
    [(''sentry.rules.filters.age_comparison.AgeComparisonFilter'', AgeComparison),
     (''sentry.rules.filters.issue_occurrences.IssueOccurrencesFilter'', IssueOccurrences),
     (''sentry.rules.filters.assigned_to.AssignedToFilter'', AssignedTo),
     (''sentry.rules.filters.latest_adopted_release_filter.LatestAdoptedReleaseFilter'', LatestAdoptedRelease),
     (''sentry.rules.filters.latest_release.LatestReleaseFilter'', LatestRelease),
     (''sentry.rules.filters.issue_category.IssueCategoryFilter'', IssueCategory),
     (''sentry.rules.filters.event_attribute.EventAttributeFilter'', EventAttributeFilter),
     (''sentry.rules.filters.tagged_event.TaggedEventFilter'', TaggedEventFilter),
     (''sentry.rules.filters.level.LevelFilter'', LevelFilter)]"

definition rule_class_of :: "string \<Rightarrow> rule_class option" where
  "rule_class_of ident = map_of (condition_classes @ filter_classes) ident"

definition rule_type_of :: "string \<Rightarrow> string option" where
  \<comment> \<open>\<open>get_rule_type\<close>\<close>
  "rule_type_of ident = (if ident \<in> set (map fst condition_classes) then Some ''condition/event''
     else if ident \<in> set (map fst filter_classes) then Some ''filter/event'' else None)"

section \<open>Properties of the conditions\<close>

definition negated_matches :: "(string \<times> string) list" where
  "negated_matches = [(''eq'', ''ne''), (''sw'', ''nsw''), (''ew'', ''new''), (''co'', ''nc''), (''in'', ''nin'')]"

text \<open>Each match type has its negation.\<close>

lemma match_values_negated:
  "(p, n) \<in> set negated_matches \<Longrightarrow> match_values gs v (PStr n) = bind_result (match_values gs v (PStr p)) (\<lambda>b. Inr (\<not> b))"
  unfolding negated_matches_def by (simp only: list.set insert_iff prod.inject empty_iff, elim disjE conjE) (simp_all add: match_values_def list_ex_iff list_all_iff)

lemma tags_set_negated:
  assumes "get_option d ''match'' PNone = PStr ''is''" "get_option d' ''match'' PNone = PStr ''ns''"
    and "get_option d ''key'' PNone = PStr k" "get_option d' ''key'' PNone = PStr k" "k \<noteq> ''''"
  shows "tags_pass d' tags = bind_result (tags_pass d tags) (\<lambda>b. Inr (\<not> b))"
  using assms by (simp add: tags_pass_def py_truth_def Let_def)

text \<open>
  A condition on an attribute raises when the rule has no value, also where it asks only whether the attribute is
  set: the value is lowered first.
\<close>

lemma attribute_without_value:
  assumes "get_option d ''value'' PNone = PNone"
  shows "event_attribute_passes repr d ev \<noteq> Inr True"
  using assms by (auto simp: event_attribute_passes_def attribute_values_pass_def bind_result_Inr_iff Let_def split: sum.splits if_splits)

lemma age_is_older_or_newer:
  assumes "get_option d ''comparison_type'' PNone = PStr ''older''" "get_option d' ''comparison_type'' PNone = PStr ''newer''"
    and "get_option d ''value'' PNone = get_option d' ''value'' PNone" "get_option d ''time'' PNone = get_option d' ''time'' PNone"
  shows "\<not> (age_comparison_passes now d ev \<and> age_comparison_passes now d' ev)"
  using assms by (auto simp: age_comparison_passes_def age_passes_at_def Let_def split: option.splits pyval.splits if_splits)

text \<open>A release is cached with the first answer, an absent one as well; a search that finds no release leaves no trace.\<close>

lemma latest_release_cached:
  assumes "latest_release search table env project c = (r, c')"
  shows "c' (project_release_key project env) = Some r \<or> r = None \<and> c' = c"
  using assms by (auto simp: latest_release_def Let_def split: option.splits)

lemma latest_release_again:
  assumes "latest_release search table env project c = (r, c')" "c' \<noteq> c"
  shows "latest_release search' table' env project c' = (r, c')"
  using assms by (auto simp: latest_release_def Let_def split: option.splits)

lemma newer_release_asym: "is_newer_release r s semver \<Longrightarrow> \<not> is_newer_release s r semver"
  by (auto simp: is_newer_release_def split: bool.splits option.splits)

end
