(* ===== verification/EventFrequency.thy ===== *)
theory EventFrequency
  imports RuleConditions
begin

text \<open>
  Conditions of issue alerts that count events, \<open>rules/conditions/event_frequency.py\<close>, with
  \<open>utils/iterators.py\<close> and \<open>types/condition_activity.py\<close>. The counts of the time series database and of
  the session store are parameters; times are seconds, numbers are rationals. Not modelled: the options
  for the consistency of queries, referrers, forms but for their cleaning.
\<close>

section \<open>Intervals and options\<close>

definition STANDARD_INTERVALS :: "(string \<times> rat) list" where
  "STANDARD_INTERVALS = [(''1m'', 60), (''5m'', 300), (''15m'', 900), (''1h'', 3600), (''1d'', 86400), (''1w'', 604800),
     (''30d'', 2592000)]"

definition COMPARISON_INTERVALS :: "(string \<times> rat) list" where
  "COMPARISON_INTERVALS = [(''5m'', 300), (''15m'', 900), (''1h'', 3600), (''1d'', 86400), (''1w'', 604800), (''30d'', 2592000)]"

definition PERCENT_INTERVALS :: "(string \<times> rat) list" where
  "PERCENT_INTERVALS = [(''1m'', 60), (''5m'', 300), (''10m'', 600), (''30m'', 1800), (''1h'', 3600)]"

definition DEFAULT_COMPARISON_INTERVAL :: string where "DEFAULT_COMPARISON_INTERVAL = ''5m''"

definition MIN_SESSIONS_TO_FIRE :: int where "MIN_SESSIONS_TO_FIRE = 50"

definition SNUBA_LIMIT :: nat where "SNUBA_LIMIT = 10000"

datatype frequency_class = Frequency | UniqueUserFrequency | FrequencyPercent

definition class_intervals :: "frequency_class \<Rightarrow> (string \<times> rat) list" where
  "class_intervals cls = (if cls = FrequencyPercent then PERCENT_INTERVALS else STANDARD_INTERVALS)"

definition class_id :: "frequency_class \<Rightarrow> string" where
  "class_id cls = ''sentry.rules.conditions.event_frequency.'' @
     (case cls of Frequency \<Rightarrow> ''EventFrequencyCondition'' | UniqueUserFrequency \<Rightarrow> ''EventUniqueUserFrequencyCondition''
      | FrequencyPercent \<Rightarrow> ''EventFrequencyPercentCondition'')"

record frequency_condition =
  fc_class :: frequency_class
  fc_value :: rat
  fc_interval :: string
  fc_comparison_type :: "string option"
  fc_comparison_interval :: "string option"

definition is_percent :: "frequency_condition \<Rightarrow> bool" where
  "is_percent d = (fc_comparison_type d = Some ''percent'')"

text \<open>What the form makes of its fields: a comparison type is always stored, an empty interval never.\<close>

definition clean_frequency_form :: "frequency_condition \<Rightarrow> frequency_condition option" where
  "clean_frequency_form d =
     (let interval = (if fc_comparison_interval d = Some '''' then None else fc_comparison_interval d);
          comparison = (case fc_comparison_type d of None \<Rightarrow> ''count'' | Some t \<Rightarrow> if t = '''' then ''count'' else t)
      in if comparison = ''percent'' \<and> interval = None then None
         else Some (d\<lparr>fc_comparison_type := Some comparison, fc_comparison_interval := interval\<rparr>))"

definition clean_percent_form :: "frequency_condition \<Rightarrow> frequency_condition option" where
  "clean_percent_form d =
     (case clean_frequency_form d of
        None \<Rightarrow> None
      | Some c \<Rightarrow> if fc_comparison_type c = Some ''count'' \<and> fc_value c > 100 then None else Some c)"

text \<open>A condition that has passed its form can be evaluated: it has a type, and an interval to compare with when it needs one.\<close>

lemma cleaned_form:
  assumes "clean_frequency_form d = Some c"
  shows "fc_comparison_type c \<notin> {None, Some ''''}" "fc_comparison_interval c \<noteq> Some ''''"
    "is_percent c \<Longrightarrow> fc_comparison_interval c \<noteq> None"
  using assms by (cases d; auto simp: clean_frequency_form_def is_percent_def Let_def split: if_splits option.splits)+

lemma cleaned_form_again: "clean_frequency_form d = Some c \<Longrightarrow> clean_frequency_form c = Some c"
  by (cases d) (auto simp: clean_frequency_form_def Let_def split: if_splits option.splits)

section \<open>Counting\<close>

definition percent_increase :: "int \<Rightarrow> int \<Rightarrow> int" where
  "percent_increase result comparison =
     (if comparison > 0 then \<lfloor>max 0 ((of_int (result - comparison) / of_int comparison * 100) :: rat)\<rfloor> else 0)"

datatype tsdb_model = GroupModel | GroupGenericModel | UsersAffectedByGroup | UsersAffectedByGenericGroup

definition ERROR :: nat where "ERROR = 1"

definition get_issue_tsdb_group_model :: "nat \<Rightarrow> tsdb_model" where
  "get_issue_tsdb_group_model category = (if category = ERROR then GroupModel else GroupGenericModel)"

definition get_issue_tsdb_user_group_model :: "nat \<Rightarrow> tsdb_model" where
  "get_issue_tsdb_user_group_model category = (if category = ERROR then UsersAffectedByGroup else UsersAffectedByGenericGroup)"

text \<open>
  What Snuba answers to a query: the keys, the window, the granularity, the limit on the rows and the environment give a count
  for some of the keys.
\<close>

type_synonym snuba_query = "tsdb_model \<Rightarrow> nat list \<Rightarrow> int \<Rightarrow> int \<Rightarrow> int \<Rightarrow> int \<Rightarrow> nat option \<Rightarrow> (nat, int) dict"

record counts =
  ct_sums :: snuba_query
  ct_distinct :: snuba_query
  ct_sessions :: "nat \<Rightarrow> nat option \<Rightarrow> rat \<Rightarrow> rat \<Rightarrow> int"

text \<open>
  The window that \<open>SnubaTSDB.get_data\<close> asks for: buckets as wide as the rollup that suits the range, the last one with the end
  of the range, all moved by the jitter. Durations are positive, so there is a bucket.
\<close>

definition SENTRY_TSDB_ROLLUPS :: "(int \<times> int) list" where
  "SENTRY_TSDB_ROLLUPS = [(10, 360), (3600, 24 * 7), (3600 * 24, 90)]"

definition normalize_to_epoch :: "rat \<Rightarrow> int \<Rightarrow> int" where
  "normalize_to_epoch timestamp seconds = \<lfloor>timestamp\<rfloor> - \<lfloor>timestamp\<rfloor> mod seconds"

definition get_optimal_rollup :: "rat \<Rightarrow> rat \<Rightarrow> int" where
  "get_optimal_rollup start finish =
     (case find (\<lambda>(rollup, samples). rollup * samples \<ge> \<lfloor>finish\<rfloor> - \<lfloor>start\<rfloor>) SENTRY_TSDB_ROLLUPS of
        Some (rollup, _) \<Rightarrow> rollup
      | None \<Rightarrow> fst (last SENTRY_TSDB_ROLLUPS))"

definition get_optimal_rollup_series :: "rat \<Rightarrow> rat \<Rightarrow> int \<Rightarrow> int list" where
  \<comment> \<open>the loop steps back from the end by the rollup as long as it is not before the start\<close>
  "get_optimal_rollup_series start finish rollup =
     rev (map (\<lambda>i. normalize_to_epoch (finish - of_int (i * rollup)) rollup) [0..\<lfloor>(finish - start) / of_int rollup\<rfloor>])"

definition add_jitter_to_series :: "int list \<Rightarrow> rat \<Rightarrow> int \<Rightarrow> nat \<Rightarrow> int list" where
  "add_jitter_to_series series start rollup jitter_value =
     (if jitter_value \<noteq> 0 \<and> series \<noteq> [] then
        let jitter = int jitter_value mod rollup;
            jitter = (if start - of_int (hd series) < of_int jitter then jitter - rollup else jitter)
        in map (\<lambda>v. v + jitter) series
      else series)"

definition tsdb_series :: "nat \<Rightarrow> rat \<Rightarrow> rat \<Rightarrow> int list" where
  "tsdb_series jitter_value start finish =
     (let rollup = get_optimal_rollup start finish
      in add_jitter_to_series (get_optimal_rollup_series start finish rollup) start rollup jitter_value)"

text \<open>Every key gets a count, zero if Snuba has no row for it, and no other key does.\<close>

definition zerofill :: "nat list \<Rightarrow> (nat, int) dict \<Rightarrow> (nat, int) dict" where
  "zerofill ks result = foldl (\<lambda>d k. if dict_get d k = None then dict_set k 0 d else d) result ks"

definition trim :: "nat list \<Rightarrow> (nat, int) dict \<Rightarrow> (nat, int) dict" where
  "trim ks result = filter (\<lambda>(k, _). k \<in> set ks) result"

definition get_data :: "snuba_query \<Rightarrow> tsdb_model \<Rightarrow> nat list \<Rightarrow> nat \<Rightarrow> rat \<Rightarrow> rat \<Rightarrow> nat option \<Rightarrow> (nat, int) dict" where
  "get_data query m ks jitter_value start finish env =
     (let rollup = get_optimal_rollup start finish;
          series = tsdb_series jitter_value start finish;
          s = hd series; e = last series + rollup;
          limit = min 10000 (int (length ks) * ((e - s) div rollup))
      in trim ks (zerofill ks (if ks = [] then [] else query m ks s e rollup limit env)))"

fun chunk_loop :: "nat \<Rightarrow> 'a list \<Rightarrow> 'a list \<Rightarrow> 'a list list" where
  "chunk_loop limit chunk [] = (if chunk = [] then [] else [chunk])"
| "chunk_loop limit chunk (x # xs) =
     (let chunk = chunk @ [x]
      in if length chunk = limit then chunk # chunk_loop limit [] xs else chunk_loop limit chunk xs)"

definition chunked :: "'a list \<Rightarrow> nat \<Rightarrow> 'a list list" where
  "chunked xs limit = chunk_loop limit [] xs"

text \<open>All chunks are asked for with the jitter of the first issue; the callers make sure that there is one.\<close>

definition get_chunked_result :: "(nat list \<Rightarrow> nat \<Rightarrow> (nat, int) dict) \<Rightarrow> nat list \<Rightarrow> (nat, int) dict" where
  "get_chunked_result query ids =
     (let group_id = hd ids
      in foldl (\<lambda>totals chunk. dict_merge totals (query chunk group_id)) [] (chunked ids SNUBA_LIMIT))"

text \<open>The session count of the last hour is cached for each project and environment.\<close>

definition get_session_count :: "counts \<Rightarrow> int option \<Rightarrow> nat \<Rightarrow> nat option \<Rightarrow> rat \<Rightarrow> int" where
  "get_session_count ct cached project env finish =
     (case cached of Some n \<Rightarrow> n | None \<Rightarrow> ct_sessions ct project env (finish - 3600) finish)"

definition get_session_interval :: "int \<Rightarrow> string \<Rightarrow> int option result" where
  "get_session_interval session_count interval =
     (if session_count \<ge> MIN_SESSIONS_TO_FIRE then
        (case map_of PERCENT_INTERVALS interval of
           None \<Rightarrow> Inl KeyError
         | Some duration \<Rightarrow>
             let minutes = \<lfloor>duration / 60\<rfloor> in Inr (Some \<lfloor>(of_int session_count / (60 / of_int minutes)) :: rat\<rfloor>))
      else Inr None)"

definition round_half_even :: "rat \<Rightarrow> int" where
  "round_half_even x =
     (let f = \<lfloor>x\<rfloor>; r = x - of_int f in if r < 1 / 2 then f else if r > 1 / 2 then f + 1 else if even f then f else f + 1)"

definition percent_of :: "int \<Rightarrow> int \<Rightarrow> int" where
  \<comment> \<open>\<open>int(100 * round(count / avg, 4))\<close>\<close>
  "percent_of n avg = \<lfloor>(100 * (of_int (round_half_even (of_int n / of_int avg * 10000)) / 10000)) :: rat\<rfloor>"

definition lookup_count :: "(nat, int) dict \<Rightarrow> nat \<Rightarrow> int result" where
  "lookup_count d k = (case dict_get d k of None \<Rightarrow> Inl KeyError | Some n \<Rightarrow> Inr n)"

text \<open>
  \<open>query_hook\<close> of the three classes: the count for one issue. It is asked for with the identifier of the issue as
  the jitter; with another jitter it would be the count of a window that lies elsewhere.
\<close>

definition query_hook_at ::
  "nat \<Rightarrow> counts \<Rightarrow> int option \<Rightarrow> frequency_condition \<Rightarrow> issue \<Rightarrow> rat \<Rightarrow> rat \<Rightarrow> nat option \<Rightarrow> int result" where
  "query_hook_at jitter ct cached d g start finish env =
     (case fc_class d of
        Frequency \<Rightarrow>
          lookup_count (get_data (ct_sums ct) (get_issue_tsdb_group_model (is_category g)) [is_id g] jitter start finish env) (is_id g)
      | UniqueUserFrequency \<Rightarrow>
          lookup_count (get_data (ct_distinct ct) (get_issue_tsdb_user_group_model (is_category g)) [is_id g] jitter start finish env) (is_id g)
      | FrequencyPercent \<Rightarrow>
          bind_result (get_session_interval (get_session_count ct cached (is_project g) env finish) (fc_interval d)) (\<lambda>avg.
            case avg of
              None \<Rightarrow> Inr 0
            | Some a \<Rightarrow>
                if a = 0 then Inr 0
                else bind_result (lookup_count (get_data (ct_sums ct) (get_issue_tsdb_group_model (is_category g)) [is_id g] jitter
                                      start finish env) (is_id g))
                       (\<lambda>n. Inr (percent_of n a))))"

definition query_hook ::
  "counts \<Rightarrow> int option \<Rightarrow> frequency_condition \<Rightarrow> issue \<Rightarrow> rat \<Rightarrow> rat \<Rightarrow> nat option \<Rightarrow> int result" where
  "query_hook ct cached d g = query_hook_at (is_id g) ct cached d g"

text \<open>The rows of issues a bulk query finds: identifier, category, project, organization.\<close>

record group_row =
  gw_id :: nat
  gw_category :: nat
  gw_project :: nat
  gw_org :: nat

definition error_ids :: "group_row list \<Rightarrow> nat list" where
  "error_ids groups = map gw_id (filter (\<lambda>g. gw_category g = ERROR) groups)"

definition generic_ids :: "group_row list \<Rightarrow> nat list" where
  "generic_ids groups = map gw_id (filter (\<lambda>g. gw_category g \<noteq> ERROR) groups)"

definition value_from_groups :: "('r \<Rightarrow> nat) \<Rightarrow> 'r list \<Rightarrow> nat" where
  \<comment> \<open>zero stands for \<open>None\<close>: identifiers are positive, and the callers only ask for truth\<close>
  "value_from_groups f groups = (case groups of [] \<Rightarrow> 0 | g # _ \<Rightarrow> f g)"

text \<open>\<open>batch_query_hook\<close> of the first two classes.\<close>

definition batch_counts :: "snuba_query \<Rightarrow> (nat \<Rightarrow> tsdb_model) \<Rightarrow> group_row list \<Rightarrow> rat \<Rightarrow> rat \<Rightarrow> nat option \<Rightarrow> (nat, int) dict" where
  "batch_counts query model groups start finish env =
     (let org = value_from_groups gw_org groups;
          totals = (if error_ids groups \<noteq> [] \<and> org \<noteq> 0
                  then dict_merge [] (get_chunked_result (\<lambda>ks jitter. get_data query (model ERROR) ks jitter start finish env) (error_ids groups)) else [])
      in if generic_ids groups \<noteq> [] \<and> org \<noteq> 0
         then dict_merge totals (get_chunked_result (\<lambda>ks jitter. get_data query (model 2) ks jitter start finish env) (generic_ids groups)) else totals)"

definition batch_percents ::
  "counts \<Rightarrow> int option \<Rightarrow> string \<Rightarrow> group_row list \<Rightarrow> rat \<Rightarrow> rat \<Rightarrow> nat option \<Rightarrow> (nat, int) dict result" where
  "batch_percents ct cached interval groups start finish env =
     (let zeros = map (\<lambda>g. (gw_id g, 0)) groups; project = value_from_groups gw_project groups
      in if project = 0 then Inr zeros
         else bind_result (get_session_interval (get_session_count ct cached project env finish) interval) (\<lambda>avg.
           case avg of
             None \<Rightarrow> Inr zeros
           | Some a \<Rightarrow>
               if a = 0 then Inr zeros
               else if \<not> (error_ids groups \<noteq> [] \<and> value_from_groups gw_org groups \<noteq> 0) then Inr zeros
               else
                 let issue_counts = get_chunked_result (\<lambda>ks jitter. get_data (ct_sums ct) (get_issue_tsdb_group_model ERROR) ks jitter start finish env)
                         (error_ids groups);
                     percents = map (\<lambda>(g, n). (g, percent_of n a)) issue_counts
                 in Inr (foldl (\<lambda>p g. dict_set g 0 p) percents (generic_ids groups))))"

definition batch_query_hook ::
  "counts \<Rightarrow> int option \<Rightarrow> frequency_condition \<Rightarrow> group_row list \<Rightarrow> rat \<Rightarrow> rat \<Rightarrow> nat option \<Rightarrow> (nat, int) dict result" where
  "batch_query_hook ct cached d groups start finish env =
     (case fc_class d of
        Frequency \<Rightarrow> Inr (batch_counts (ct_sums ct) get_issue_tsdb_group_model groups start finish env)
      | UniqueUserFrequency \<Rightarrow> Inr (batch_counts (ct_distinct ct) get_issue_tsdb_user_group_model groups start finish env)
      | FrequencyPercent \<Rightarrow> batch_percents ct cached (fc_interval d) groups start finish env)"

section \<open>Rates\<close>

definition get_query_window :: "rat \<Rightarrow> rat \<Rightarrow> rat \<times> rat" where
  "get_query_window finish duration = (finish - duration, finish)"

definition get_rate_at ::
  "nat \<times> nat \<Rightarrow> counts \<Rightarrow> int option \<Rightarrow> frequency_condition \<Rightarrow> issue \<Rightarrow> rat \<Rightarrow> rat \<Rightarrow> rat \<Rightarrow> nat option \<Rightarrow> int result" where
  \<comment> \<open>a jitter for each of the two queries; the second finds the session count of the first in the cache\<close>
  "get_rate_at jitters ct cached d g now duration comparison_interval env =
     (let (start, finish) = get_query_window now duration
      in bind_result (query_hook_at (fst jitters) ct cached d g start finish env) (\<lambda>result.
           if is_percent d then
             (let cached = Some (get_session_count ct cached (is_project g) env finish);
                  (start, finish) = get_query_window (now - comparison_interval) duration
              in bind_result (query_hook_at (snd jitters) ct cached d g start finish env) (\<lambda>comparison.
                   Inr (percent_increase result comparison)))
           else Inr result))"

definition get_rate ::
  "counts \<Rightarrow> int option \<Rightarrow> frequency_condition \<Rightarrow> issue \<Rightarrow> rat \<Rightarrow> rat \<Rightarrow> rat \<Rightarrow> nat option \<Rightarrow> int result" where
  "get_rate ct cached d g = get_rate_at (is_id g, is_id g) ct cached d g"

definition get_rate_bulk ::
  "counts \<Rightarrow> int option \<Rightarrow> frequency_condition \<Rightarrow> group_row list \<Rightarrow> rat \<Rightarrow> rat \<Rightarrow> rat option \<Rightarrow> nat option \<Rightarrow> (nat, int) dict result" where
  "get_rate_bulk ct cached d groups duration current_time comparison_interval env =
     (let current_time = (case comparison_interval of None \<Rightarrow> current_time | Some c \<Rightarrow> if c = 0 then current_time else current_time - c);
          (start, finish) = get_query_window current_time duration
      in batch_query_hook ct cached d groups start finish env)"

definition frequency_passes_at ::
  "nat \<times> nat \<Rightarrow> counts \<Rightarrow> int option \<Rightarrow> rat \<Rightarrow> nat option \<Rightarrow> frequency_condition \<Rightarrow> group_event \<Rightarrow> event_state \<Rightarrow> bool result" where
  "frequency_passes_at jitters ct cached now env d ev state =
     (if fc_interval d = '''' then Inr False
      else if es_is_new state \<and> fc_value d > 1 then Inr False
      else
        let option = (case fc_comparison_interval d of None \<Rightarrow> DEFAULT_COMPARISON_INTERVAL | Some i \<Rightarrow> i)
        in if option = '''' then Inr False
           else case (map_of COMPARISON_INTERVALS option, map_of (class_intervals (fc_class d)) (fc_interval d)) of
             (Some comparison, Some duration) \<Rightarrow>
               bind_result (get_rate_at jitters ct cached d (ev_group ev) now duration comparison env) (\<lambda>n. Inr (of_int n > fc_value d))
           | _ \<Rightarrow> Inl KeyError)"

text \<open>\<open>passes\<close>: both queries of \<open>get_rate\<close> have the identifier of the issue as their jitter.\<close>

definition frequency_passes ::
  "counts \<Rightarrow> int option \<Rightarrow> rat \<Rightarrow> nat option \<Rightarrow> frequency_condition \<Rightarrow> group_event \<Rightarrow> event_state \<Rightarrow> bool result" where
  "frequency_passes ct cached now env d ev state =
     frequency_passes_at (is_id (ev_group ev), is_id (ev_group ev)) ct cached now env d ev state"

section \<open>Chunks\<close>

lemma concat_chunk_loop: "concat (chunk_loop limit chunk xs) = chunk @ xs"
  by (induction limit chunk xs rule: chunk_loop.induct) (simp_all add: Let_def)

lemma concat_chunked [simp]: "concat (chunked xs limit) = xs"
  by (simp add: chunked_def concat_chunk_loop)

lemma chunk_loop_bound:
  "0 < limit \<Longrightarrow> length chunk < limit \<Longrightarrow> c \<in> set (chunk_loop limit chunk xs) \<Longrightarrow> c \<noteq> [] \<and> length c \<le> limit"
  by (induction limit chunk xs rule: chunk_loop.induct) (auto simp: Let_def split: if_splits)

lemma chunked_bound: "0 < limit \<Longrightarrow> c \<in> set (chunked xs limit) \<Longrightarrow> c \<noteq> [] \<and> length c \<le> limit"
  unfolding chunked_def by (rule chunk_loop_bound) auto

section \<open>One query or many\<close>

text \<open>
  The one thing that is assumed of Snuba: it counts the events of an issue in a window, whatever other issues the
  query asks for, and leaves out the rows without events. (A query has a limit on its rows; that it is not reached is
  part of the assumption.)
\<close>

definition counts_each :: "snuba_query \<Rightarrow> (tsdb_model \<Rightarrow> nat \<Rightarrow> int \<Rightarrow> int \<Rightarrow> int \<Rightarrow> nat option \<Rightarrow> int) \<Rightarrow> bool" where
  "counts_each query cnt =
     (\<forall>m ks s e rollup limit env. dict_wf (query m ks s e rollup limit env) \<and>
       (\<forall>k \<in> set ks. (case dict_get (query m ks s e rollup limit env) k of None \<Rightarrow> 0 | Some n \<Rightarrow> n) = cnt m k s e rollup env))"

definition count_at ::
  "(tsdb_model \<Rightarrow> nat \<Rightarrow> int \<Rightarrow> int \<Rightarrow> int \<Rightarrow> nat option \<Rightarrow> int) \<Rightarrow> nat \<Rightarrow> tsdb_model \<Rightarrow> nat \<Rightarrow> rat \<Rightarrow> rat \<Rightarrow> nat option \<Rightarrow> int" where
  \<comment> \<open>the events of an issue in the window that a jitter gives\<close>
  "count_at cnt jitter m k start finish env =
     (let rollup = get_optimal_rollup start finish; series = tsdb_series jitter start finish
      in cnt m k (hd series) (last series + rollup) rollup env)"

lemma zerofill_get: "dict_get (zerofill ks d) k = (if k \<in> set ks \<and> dict_get d k = None then Some 0 else dict_get d k)"
  unfolding zerofill_def by (induction ks arbitrary: d) auto

lemma zerofill_wf: "dict_wf d \<Longrightarrow> dict_wf (zerofill ks d)"
  unfolding zerofill_def by (induction ks arbitrary: d) simp_all

lemma trim_get: "dict_get (trim ks d) k = (if k \<in> set ks then dict_get d k else None)"
  unfolding trim_def by (induction d) (auto simp: dict_get_def)

lemma get_data_get:
  assumes "counts_each query cnt"
  shows "dict_get (get_data query m ks j s e env) k = (if k \<in> set ks then Some (count_at cnt j m k s e env) else None)"
    and "dict_wf (get_data query m ks j s e env)"
proof -
  let ?r = "get_optimal_rollup s e" and ?s = "tsdb_series j s e"
  let ?d = "query m ks (hd ?s) (last ?s + ?r) ?r (min 10000 (int (length ks) * ((last ?s + ?r - hd ?s) div ?r))) env"
  have wf: "dict_wf ?d" using assms unfolding counts_each_def by blast
  have each: "(case dict_get ?d k of None \<Rightarrow> 0 | Some n \<Rightarrow> n) = count_at cnt j m k s e env" if "k \<in> set ks"
    using assms that unfolding counts_each_def count_at_def Let_def by blast
  show "dict_get (get_data query m ks j s e env) k = (if k \<in> set ks then Some (count_at cnt j m k s e env) else None)"
    using each by (cases "dict_get ?d k") (auto simp: get_data_def Let_def trim_get zerofill_get)
  have "dict_wf (trim ks d)" if "dict_wf d" for d using that by (simp add: trim_def distinct_map_filter)
  then show "dict_wf (get_data query m ks j s e env)" by (simp add: get_data_def Let_def wf zerofill_wf)
qed

lemma merged_chunks:
  assumes "counts_each query cnt" "dict_wf d"
  shows "dict_wf (foldl (\<lambda>t c. dict_merge t (get_data query m c j s e env)) d cs) \<and>
     dict_get (foldl (\<lambda>t c. dict_merge t (get_data query m c j s e env)) d cs) k =
       (if k \<in> set (concat cs) then Some (count_at cnt j m k s e env) else dict_get d k)"
  using assms(2)
proof (induction cs arbitrary: d)
  case (Cons c cs)
  have "dict_wf (dict_merge d (get_data query m c j s e env))" using Cons.prems by simp
  from Cons.IH [OF this] show ?case
    by (simp add: dict_get_merge [OF get_data_get(2) [OF assms(1)]] get_data_get(1) [OF assms(1)])
qed simp

lemma chunked_result_get:
  "counts_each query cnt \<Longrightarrow> dict_get (get_chunked_result (\<lambda>ks j. get_data query m ks j s e env) ids) k =
     (if k \<in> set ids then Some (count_at cnt (hd ids) m k s e env) else None)"
  unfolding get_chunked_result_def Let_def
  using merged_chunks [of query cnt "[]" m "hd ids" s e env "chunked ids SNUBA_LIMIT" k] by simp

lemma chunked_result_wf: "counts_each query cnt \<Longrightarrow> dict_wf (get_chunked_result (\<lambda>ks j. get_data query m ks j s e env) ids)"
  unfolding get_chunked_result_def Let_def
  using merged_chunks [of query cnt "[]" m "hd ids" s e env "chunked ids SNUBA_LIMIT"] by simp

text \<open>The jitter of an issue in a bulk query is the identifier of the first issue of its kind.\<close>

definition bulk_jitter :: "group_row list \<Rightarrow> nat \<Rightarrow> nat" where
  "bulk_jitter groups category = hd (if category = ERROR then error_ids groups else generic_ids groups)"

lemma id_in_error: "distinct (map gw_id groups) \<Longrightarrow> g \<in> set groups \<Longrightarrow> gw_id g \<in> set (error_ids groups) \<longleftrightarrow> gw_category g = ERROR"
  by (auto simp: error_ids_def dest: eq_key_imp_eq_value [of "map (\<lambda>g. (gw_id g, g)) groups"]) (auto simp: distinct_map inj_on_def)

lemma id_in_generic: "distinct (map gw_id groups) \<Longrightarrow> g \<in> set groups \<Longrightarrow> gw_id g \<in> set (generic_ids groups) \<longleftrightarrow> gw_category g \<noteq> ERROR"
  by (auto simp: generic_ids_def) (auto simp: distinct_map inj_on_def)

lemma batch_counts_get:
  assumes "counts_each query cnt" "distinct (map gw_id groups)" "g \<in> set groups" "value_from_groups gw_org groups \<noteq> 0"
    and "\<And>c. c \<noteq> ERROR \<Longrightarrow> model c = model 2"
  shows "dict_get (batch_counts query model groups s e env) (gw_id g) = Some (count_at cnt (bulk_jitter groups (gw_category g)) (model (gw_category g)) (gw_id g) s e env)"
proof -
  note wf = chunked_result_wf [OF assms(1)] and get = chunked_result_get [OF assms(1)]
  note ids = id_in_error [OF assms(2,3)] id_in_generic [OF assms(2,3)]
  show ?thesis
  proof (cases "gw_category g = ERROR")
    case True
    then have "error_ids groups \<noteq> []" using ids by auto
    with True assms(4) show ?thesis
      by (simp add: batch_counts_def Let_def dict_get_merge [OF wf] get ids bulk_jitter_def)
  next
    case False
    then have "generic_ids groups \<noteq> []" using ids by auto
    with False assms(4) assms(5) [OF False] show ?thesis
      by (simp add: batch_counts_def Let_def dict_get_merge [OF wf] get ids bulk_jitter_def)
  qed
qed


lemma dict_get_map_snd: "dict_get (map (\<lambda>(k, v). (k, f v)) d) k = map_option f (dict_get d k)"
  by (induction d) (auto simp: dict_get_def)

lemma dict_get_zeros: "g \<in> set groups \<Longrightarrow> dict_get (map (\<lambda>g. (gw_id g, 0 :: int)) groups) (gw_id g) = Some 0"
  by (induction groups) (auto simp: dict_get_def)

lemma dict_get_set_zeros:
  "dict_get (foldl (\<lambda>p g. dict_set g (0 :: int) p) d ks) k = (if k \<in> set ks then Some 0 else dict_get d k)"
  by (induction ks arbitrary: d) auto

lemma batch_percents_get:
  assumes "counts_each (ct_sums ct) cnt" "distinct (map gw_id groups)" "g \<in> set groups"
    "value_from_groups gw_org groups \<noteq> 0" "value_from_groups gw_project groups \<noteq> 0"
  shows "bind_result (batch_percents ct cached interval groups s e env) (\<lambda>r. lookup_count r (gw_id g)) =
    bind_result (get_session_interval (get_session_count ct cached (value_from_groups gw_project groups) env e) interval)
      (\<lambda>avg. Inr (case avg of None \<Rightarrow> 0 | Some a \<Rightarrow> if a = 0 \<or> gw_category g \<noteq> ERROR then 0
                   else percent_of (count_at cnt (bulk_jitter groups ERROR) GroupModel (gw_id g) s e env) a))"
proof (cases "get_session_interval (get_session_count ct cached (value_from_groups gw_project groups) env e) interval")
  case (Inl x)
  with assms(5) show ?thesis by (simp add: batch_percents_def Let_def)
next
  case (Inr avg)
  note ids = id_in_error [OF assms(2,3)] id_in_generic [OF assms(2,3)]
  note zeros = dict_get_zeros [OF assms(3)]
  note get = chunked_result_get [OF assms(1)]
  show ?thesis
  proof (cases avg)
    case None
    with Inr assms(5) show ?thesis by (simp add: batch_percents_def Let_def lookup_count_def zeros)
  next
    case (Some a)
    show ?thesis
    proof (cases "a = 0 \<or> error_ids groups = []")
      case True
      then have "a = 0 \<or> gw_category g \<noteq> ERROR" using ids by auto
      with True Some Inr assms(4,5) show ?thesis by (auto simp: batch_percents_def Let_def lookup_count_def zeros)
    next
      case False
      with Some Inr assms(4,5) show ?thesis
        by (simp add: batch_percents_def Let_def lookup_count_def dict_get_set_zeros dict_get_map_snd get ids
              get_issue_tsdb_group_model_def bulk_jitter_def)
    qed
  qed
qed

text \<open>
  One query for many issues gives each of them the count that a query for it alone with the same jitter would give,
  whatever the other issues of the batch are and however they fall into chunks. But the jitter is that of the
  first issue of its kind.
\<close>

lemma bulk_counts_single:
  assumes "counts_each (ct_sums ct) events" "counts_each (ct_distinct ct) users" "distinct (map gw_id groups)" "g \<in> set groups"
    and "value_from_groups gw_org groups \<noteq> 0" "value_from_groups gw_project groups = is_project i" "is_project i \<noteq> 0"
    and "is_id i = gw_id g" "is_category i = gw_category g" "fc_class d = FrequencyPercent \<longrightarrow> gw_category g = ERROR"
  shows "bind_result (batch_query_hook ct cached d groups s e env) (\<lambda>r. lookup_count r (is_id i)) =
    query_hook_at (bulk_jitter groups (is_category i)) ct cached d i s e env"
proof (cases "fc_class d")
  case Frequency
  have "dict_get (batch_counts (ct_sums ct) get_issue_tsdb_group_model groups s e env) (gw_id g) =
      Some (count_at events (bulk_jitter groups (gw_category g)) (get_issue_tsdb_group_model (gw_category g)) (gw_id g) s e env)"
    by (rule batch_counts_get [OF assms(1,3,4,5)]) (simp add: get_issue_tsdb_group_model_def ERROR_def)
  with Frequency assms(8,9) show ?thesis
    by (simp add: batch_query_hook_def query_hook_at_def lookup_count_def get_data_get(1) [OF assms(1)])
next
  case UniqueUserFrequency
  have "dict_get (batch_counts (ct_distinct ct) get_issue_tsdb_user_group_model groups s e env) (gw_id g) =
      Some (count_at users (bulk_jitter groups (gw_category g)) (get_issue_tsdb_user_group_model (gw_category g)) (gw_id g) s e env)"
    by (rule batch_counts_get [OF assms(2,3,4,5)]) (simp add: get_issue_tsdb_user_group_model_def ERROR_def)
  with UniqueUserFrequency assms(8,9) show ?thesis
    by (simp add: batch_query_hook_def query_hook_at_def lookup_count_def get_data_get(1) [OF assms(2)])
next
  case FrequencyPercent
  have "value_from_groups gw_project groups \<noteq> 0" using assms(6,7) by simp
  note b = batch_percents_get [OF assms(1,3,4,5) this, of cached "fc_interval d" s e env]
  show ?thesis
  proof (cases "get_session_interval (get_session_count ct cached (is_project i) env e) (fc_interval d)")
    case (Inl x)
    with b FrequencyPercent assms(6,8) show ?thesis by (simp add: batch_query_hook_def query_hook_at_def)
  next
    case (Inr avg)
    have "gw_category g = ERROR" using assms(10) FrequencyPercent by simp
    with Inr b FrequencyPercent assms(6,8,9) show ?thesis
      by (cases avg) (simp_all add: batch_query_hook_def query_hook_at_def lookup_count_def get_data_get(1) [OF assms(1)]
          get_issue_tsdb_group_model_def)
  qed
qed

section \<open>How far a jitter moves the window\<close>

lemma rollup_pos: "0 < get_optimal_rollup start finish"
  by (simp add: get_optimal_rollup_def SENTRY_TSDB_ROLLUPS_def)

lemma shifts_apart:
  fixes d :: rat and p q r :: int
  assumes "0 \<le> p" "p < r" "0 \<le> q" "q < r"
  shows "\<bar>(if d < of_int p then p - r else p) - (if d < of_int q then q - r else q)\<bar> < r"
proof -
  have "q < p" if "d < of_int p" "\<not> d < of_int q"
  proof -
    have "(of_int q :: rat) < of_int p" using that by linarith
    then show ?thesis by simp
  qed
  moreover have "p < q" if "\<not> d < of_int p" "d < of_int q"
  proof -
    have "(of_int p :: rat) < of_int q" using that by linarith
    then show ?thesis by simp
  qed
  ultimately show ?thesis using assms by auto
qed

lemma jitter_shift:
  assumes "0 < rollup" "series \<noteq> []" "0 < a" "0 < b"
  obtains x y where "add_jitter_to_series series start rollup a = map (\<lambda>v. v + x) series"
    "add_jitter_to_series series start rollup b = map (\<lambda>v. v + y) series" "\<bar>x - y\<bar> < rollup"
proof -
  let ?d = "start - of_int (hd series)"
  let ?x = "\<lambda>a. if ?d < of_int (int a mod rollup) then int a mod rollup - rollup else int a mod rollup"
  have "\<bar>?x a - ?x b\<bar> < rollup" by (rule shifts_apart) (use assms(1) in simp_all)
  then show thesis using assms(2-4) by (intro that [of "?x a" "?x b"]) (simp_all add: add_jitter_to_series_def Let_def)
qed

text \<open>Two jitters give windows of the same width that lie less than one bucket apart.\<close>

lemma jitter_windows:
  assumes "start \<le> finish" "0 < a" "0 < b"
  shows "\<bar>hd (tsdb_series a start finish) - hd (tsdb_series b start finish)\<bar> < get_optimal_rollup start finish"
    and "last (tsdb_series a start finish) - hd (tsdb_series a start finish)
       = last (tsdb_series b start finish) - hd (tsdb_series b start finish)"
proof -
  let ?r = "get_optimal_rollup start finish"
  let ?series = "get_optimal_rollup_series start finish ?r"
  have "0 \<le> \<lfloor>(finish - start) / of_int ?r\<rfloor>" using assms(1) rollup_pos [of start finish] by simp
  then have ne: "?series \<noteq> []" by (simp add: get_optimal_rollup_series_def)
  obtain x y where x: "tsdb_series a start finish = map (\<lambda>v. v + x) ?series"
    and y: "tsdb_series b start finish = map (\<lambda>v. v + y) ?series" and "\<bar>x - y\<bar> < ?r"
    using jitter_shift [OF rollup_pos ne assms(2,3), of start] unfolding tsdb_series_def Let_def by metis
  with ne show "\<bar>hd (tsdb_series a start finish) - hd (tsdb_series b start finish)\<bar> < ?r"
    and "last (tsdb_series a start finish) - hd (tsdb_series a start finish)
       = last (tsdb_series b start finish) - hd (tsdb_series b start finish)"
    by (simp_all add: hd_map last_map)
qed

definition sample_counts :: counts where
  "sample_counts = \<lparr>ct_sums = (\<lambda>m ks s e rollup limit env. map (\<lambda>k. (k, 10 * int k)) (remdups ks)),
     ct_distinct = (\<lambda>m ks s e rollup limit env. map (\<lambda>k. (k, int k)) (remdups ks)), ct_sessions = (\<lambda>p env s e. 600)\<rparr>"

definition sample_issue :: "nat \<Rightarrow> nat \<Rightarrow> issue" where
  "sample_issue i category = \<lparr>is_id = i, is_project = 7, is_first_seen = 0, is_priority = None, is_category = category,
     is_unresolved = True, is_times_seen = 1, is_times_seen_pending = 0, is_assignees = []\<rparr>"

definition sample_rows :: "group_row list" where
  "sample_rows = [\<lparr>gw_id = 3, gw_category = 1, gw_project = 7, gw_org = 2\<rparr>, \<lparr>gw_id = 4, gw_category = 2, gw_project = 7, gw_org = 2\<rparr>]"

definition sample_condition :: "frequency_class \<Rightarrow> string option \<Rightarrow> frequency_condition" where
  "sample_condition cls comparison = \<lparr>fc_class = cls, fc_value = 5, fc_interval = ''5m'',
     fc_comparison_type = comparison, fc_comparison_interval = None\<rparr>"

lemma map_keys_get: "dict_get (map (\<lambda>k. (k, f k)) (remdups ks)) k = (if k \<in> set ks then Some (f k) else None)"
proof -
  have "map_of (map (\<lambda>k. (k, f k)) ks) k = (if k \<in> set ks then Some (f k) else None)" for ks k
    by (induction ks) auto
  then show ?thesis by (simp add: dict_get_def)
qed

lemma map_keys_each: "counts_each (\<lambda>m ks s e rollup limit env. map (\<lambda>k. (k, f k)) (remdups ks)) (\<lambda>m k s e rollup env. f k)"
  by (simp add: counts_each_def map_keys_get comp_def)

lemma map_keys_data:
  "get_data (\<lambda>m ks s e rollup limit env. map (\<lambda>k. (k, f k)) (remdups ks)) m ks j s e env = map (\<lambda>k. (k, f k)) (remdups ks)"
proof -
  have "zerofill xs d = d" if "set xs \<subseteq> fst ` set d" for xs and d :: "(nat, int) dict"
    using that unfolding zerofill_def by (induction xs) (auto simp: dict_get_def map_of_eq_None_iff)
  then have "zerofill ks (map (\<lambda>k. (k, f k)) (remdups ks)) = map (\<lambda>k. (k, f k)) (remdups ks)" by (simp add: image_image)
  moreover have "trim ks (map (\<lambda>k. (k, f k)) (remdups ks)) = map (\<lambda>k. (k, f k)) (remdups ks)"
    by (simp add: trim_def filter_id_conv)
  moreover have "zerofill [] [] = []" "trim [] [] = []" by (simp_all add: zerofill_def trim_def)
  ultimately show ?thesis by (cases "ks = []") (simp_all add: get_data_def Let_def)
qed

lemma sample_counts_each:
  "counts_each (ct_sums sample_counts) (\<lambda>m k s e rollup env. 10 * int k)"
  "counts_each (ct_distinct sample_counts) (\<lambda>m k s e rollup env. int k)"
  unfolding sample_counts_def by (simp_all add: map_keys_each)

lemma sample_data:
  "get_data (ct_sums sample_counts) m ks j s e env = map (\<lambda>k. (k, 10 * int k)) (remdups ks)"
  "get_data (ct_distinct sample_counts) m ks j s e env = map (\<lambda>k. (k, int k)) (remdups ks)"
  unfolding sample_counts_def by (simp_all add: map_keys_data)

end
