(* ===== verification/RuleProcessing.thy ===== *)
theory RuleProcessing
  imports EventFrequency
begin

text \<open>
  Issue alerts: \<open>rules/processing/processor.py\<close>, \<open>rules/processing/delayed_processing.py\<close>, the part of
  \<open>buffer/redis.py\<close> they use, \<open>models/rule.py\<close> and \<open>models/grouprulestatus.py\<close>. The state holds the statuses
  of rules with their cache, the history of firings, the buffer of deferred rules and the queued
  tasks. A field \<open>rule:issue\<close> of the buffer is a pair of numbers. What the services answer is the record
  \<open>answers\<close>; what an action yields is a parameter. A query of the database that updates rows is one step.
  Not modelled: the expiry of the buffer after an hour, retries of the task, analytics and logging.
\<close>

section \<open>Rules\<close>

datatype rule_node = SlowNode frequency_condition | PlainNode string rule_data

fun node_id :: "rule_node \<Rightarrow> string" where
  "node_id (SlowNode d) = class_id (fc_class d)"
| "node_id (PlainNode i d) = i"

record future =
  fu_callback :: nat
  fu_key :: "string option"
  fu_kwargs :: nat

text \<open>
  What an action does when its rule fires: it is not registered, it raises when it is called, or it yields
  futures and then ends or raises.
\<close>

datatype action_outcome = Unregistered | NoFutures | Yields "future list" bool

record issue_alert_rule =
  ru_id :: nat
  ru_project :: nat
  ru_environment :: "nat option"
  ru_conditions :: "rule_node list"
  ru_action_match :: "string option"
  ru_filter_match :: "string option"
  ru_minutes :: "rat option"
  ru_actions :: "nat list"

definition string_or_default :: "string option \<Rightarrow> string \<Rightarrow> string" where
  \<comment> \<open>\<open>data.get(k) or default\<close>\<close>
  "string_or_default v dflt = (case v of None \<Rightarrow> dflt | Some s \<Rightarrow> if s = '''' then dflt else s)"

definition condition_match_of :: "issue_alert_rule \<Rightarrow> string" where
  "condition_match_of r = string_or_default (ru_action_match r) ''all''"

definition filter_match_of :: "issue_alert_rule \<Rightarrow> string" where
  "filter_match_of r = string_or_default (ru_filter_match r) ''all''"

definition frequency_of :: "issue_alert_rule \<Rightarrow> rat" where
  \<comment> \<open>in seconds; the default is thirty minutes\<close>
  "frequency_of r = 60 * (case ru_minutes r of None \<Rightarrow> 30 | Some m \<Rightarrow> if m = 0 then 30 else m)"

definition get_match_function :: "string \<Rightarrow> (bool list \<Rightarrow> bool) option" where
  "get_match_function name =
     (if name = ''all'' then Some (list_all id)
      else if name = ''any'' then Some (list_ex id)
      else if name = ''none'' then Some (\<lambda>bs. \<not> list_ex id bs)
      else None)"

definition is_condition_slow :: "rule_node \<Rightarrow> bool" where
  "is_condition_slow n = contains_sub ''event_frequency'' (node_id n)"

definition is_condition_node :: "rule_node \<Rightarrow> bool" where
  "is_condition_node n = (rule_type_of (node_id n) = Some ''condition/event'')"

definition split_conditions_and_filters :: "rule_node list \<Rightarrow> rule_node list \<times> rule_node list" where
  "split_conditions_and_filters ns = (filter is_condition_node ns, filter (\<lambda>n. \<not> is_condition_node n) ns)"

definition group_conditions_by_speed :: "rule_node list \<Rightarrow> rule_node list \<times> rule_node list" where
  "group_conditions_by_speed ns = (filter (\<lambda>n. \<not> is_condition_slow n) ns, filter is_condition_slow ns)"

section \<open>Evaluating a condition\<close>

record answers =
  an_repr :: "pyval \<Rightarrow> string"
  an_high_priority :: bool
  an_project_flag :: bool
  an_latest_release :: "release_info option"
  an_semver :: bool
  an_environment_found :: "rule_data \<Rightarrow> bool"
  an_latest_adopted :: "rule_data \<Rightarrow> release_info option"
  an_issue_release :: "rule_data \<Rightarrow> release_info option"
  an_counts :: counts
  an_sessions :: "int option"

text \<open>\<open>passes\<close> of the class a condition names; a class that is not registered gives nothing.\<close>

fun node_passes :: "answers \<Rightarrow> rat \<Rightarrow> nat option \<Rightarrow> group_event \<Rightarrow> event_state \<Rightarrow> rule_node \<Rightarrow> bool result option" where
  "node_passes an now env ev state (SlowNode d) =
     Some (frequency_passes (an_counts an) (an_sessions an) now env d ev state)"
| "node_passes an now env ev state (PlainNode i d) =
     (case rule_class_of i of
        None \<Rightarrow> None
      | Some EveryEvent \<Rightarrow> Some (Inr True)
      | Some FirstSeenEvent \<Rightarrow> Some (Inr (first_seen_passes env state))
      | Some RegressionEvent \<Rightarrow> Some (Inr (regression_passes state))
      | Some ReappearedEvent \<Rightarrow> Some (Inr (reappeared_passes state))
      | Some NewHighPriorityIssue \<Rightarrow>
          Some (Inr (new_high_priority_passes (an_high_priority an) (an_project_flag an) env ev state))
      | Some ExistingHighPriorityIssue \<Rightarrow> Some (Inr (existing_high_priority_passes (an_high_priority an) ev state))
      | Some TaggedEvent \<Rightarrow> Some (tagged_passes d ev)
      | Some TaggedEventFilter \<Rightarrow> Some (tagged_passes d ev)
      | Some EventAttribute \<Rightarrow> Some (event_attribute_passes (an_repr an) d ev)
      | Some EventAttributeFilter \<Rightarrow> Some (event_attribute_passes (an_repr an) d ev)
      | Some Level \<Rightarrow> Some (level_passes d ev)
      | Some LevelFilter \<Rightarrow> Some (level_passes d ev)
      | Some AgeComparison \<Rightarrow> Some (Inr (age_comparison_passes now d ev))
      | Some IssueOccurrences \<Rightarrow> Some (Inr (issue_occurrences_passes d ev))
      | Some AssignedTo \<Rightarrow> Some (assigned_to_passes d ev)
      | Some LatestAdoptedRelease \<Rightarrow>
          Some (Inr (latest_adopted_passes d (an_semver an) (an_environment_found an d) (an_latest_adopted an d) (an_issue_release an d)))
      | Some LatestRelease \<Rightarrow> Some (Inr (latest_release_passes (an_latest_release an) ev))
      | Some IssueCategory \<Rightarrow> Some (Inr (issue_category_passes d (ev_group ev)))
      | Some _ \<Rightarrow> Some (Inl KeyError))"

text \<open>An exception is caught by \<open>safe_execute\<close>; a class that is not registered gives \<open>None\<close>, which is not true.\<close>

definition condition_matches :: "answers \<Rightarrow> rat \<Rightarrow> nat option \<Rightarrow> group_event \<Rightarrow> event_state \<Rightarrow> rule_node \<Rightarrow> bool" where
  "condition_matches an now env ev state n =
     (case node_passes an now env ev state n of Some (Inr b) \<Rightarrow> b | _ \<Rightarrow> False)"

section \<open>The state\<close>

record instance_data =
  in_event :: "string option"
  in_occurrence :: "string option"

record firing =
  fi_rule :: nat
  fi_issue :: nat
  fi_event :: string
  fi_time :: rat
  fi_frequency :: rat

datatype worker_state = Running | Finished | Failed

record delayed_worker =
  dw_project :: nat
  dw_batch :: "nat option"
  dw_data :: "(nat \<times> nat, instance_data) dict"
  dw_state :: worker_state

type_synonym rule_futures = "(nat + string, nat \<times> (nat \<times> nat) list) dict"

record alert_store =
  al_status :: "nat \<times> nat \<Rightarrow> rat option option"
  al_cache :: "nat \<times> nat \<Rightarrow> rat option option"
  al_history :: "firing list"
  al_projects :: "(nat, rat) dict"
  al_hash :: "nat \<times> nat option \<Rightarrow> (nat \<times> nat, instance_data) dict"
  al_tasks :: "(nat \<times> nat option) list"
  al_batches :: nat
  al_workers :: "delayed_worker list"
  al_sent :: "(string \<times> nat \<times> (nat \<times> nat) list) list"

section \<open>The status of rules\<close>

text \<open>
  \<open>bulk_get_rule_status\<close>: the cached statuses, the rows of the table for the others, and new rows where there
  were none.
\<close>

definition bulk_get_rule_status :: "nat list \<Rightarrow> nat \<Rightarrow> alert_store \<Rightarrow> (nat, rat option) dict \<times> alert_store" where
  "bulk_get_rule_status rules issue st =
     (let missing = filter (\<lambda>r. al_cache st (r, issue) = None) rules;
          absent = filter (\<lambda>r. al_status st (r, issue) = None) missing;
          status = (\<lambda>k. if fst k \<in> set absent \<and> snd k = issue then Some None else al_status st k);
          cache = (\<lambda>k. if fst k \<in> set missing \<and> snd k = issue then status k else al_cache st k)
      in (map (\<lambda>r. (r, case cache (r, issue) of None \<Rightarrow> None | Some last_active \<Rightarrow> last_active)) rules,
          st\<lparr>al_status := status, al_cache := cache\<rparr>))"

text \<open>\<open>filter(id=status.id).exclude(last_active__gt=freq_offset).update(last_active=now)\<close>: one conditional update.\<close>

definition update_last_active :: "nat \<times> nat \<Rightarrow> rat \<Rightarrow> rat \<Rightarrow> alert_store \<Rightarrow> bool \<times> alert_store" where
  "update_last_active k freq_offset now st =
     (case al_status st k of
        None \<Rightarrow> (False, st)
      | Some last_active \<Rightarrow>
          if (case last_active of None \<Rightarrow> False | Some t \<Rightarrow> t > freq_offset) then (False, st)
          else (True, st\<lparr>al_status := (al_status st)(k := Some (Some now))\<rparr>))"

definition record_history :: "issue_alert_rule \<Rightarrow> group_event \<Rightarrow> rat \<Rightarrow> alert_store \<Rightarrow> alert_store" where
  "record_history r ev now st =
     st\<lparr>al_history := al_history st @ [\<lparr>fi_rule = ru_id r, fi_issue = is_id (ev_group ev), fi_event = ev_id ev,
          fi_time = now, fi_frequency = frequency_of r\<rparr>]\<rparr>"

section \<open>Actions\<close>

definition future_key :: "future \<Rightarrow> nat + string" where
  "future_key f = (case fu_key f of None \<Rightarrow> Inl (fu_callback f) | Some k \<Rightarrow> Inr k)"

definition add_future :: "issue_alert_rule \<Rightarrow> rule_futures \<Rightarrow> future \<Rightarrow> rule_futures" where
  "add_future r d f =
     (case dict_get d (future_key f) of
        None \<Rightarrow> dict_set (future_key f) (fu_callback f, [(ru_id r, fu_kwargs f)]) d
      | Some (callback, fs) \<Rightarrow> dict_set (future_key f) (callback, fs @ [(ru_id r, fu_kwargs f)]) d)"

text \<open>
  \<open>activate_downstream_actions\<close>: \<open>safe_execute\<close> only guards the call that makes the generator; what is raised
  while its futures are taken goes through.
\<close>

fun activate_actions :: "(nat \<Rightarrow> action_outcome) \<Rightarrow> issue_alert_rule \<Rightarrow> nat list \<Rightarrow> rule_futures \<Rightarrow> rule_futures result" where
  "activate_actions after r [] d = Inr d"
| "activate_actions after r (a # as) d =
     (case after a of
        Unregistered \<Rightarrow> activate_actions after r as d
      | NoFutures \<Rightarrow> activate_actions after r as d
      | Yields fs raises \<Rightarrow>
          let d = foldl (add_future r) d fs
          in if raises then Inl (OtherError ''action'') else activate_actions after r as d)"

definition activate_downstream_actions :: "(nat \<Rightarrow> action_outcome) \<Rightarrow> issue_alert_rule \<Rightarrow> rule_futures result" where
  "activate_downstream_actions after r = activate_actions after r (ru_actions r) []"

section \<open>The rule processor\<close>

definition push_to_sorted_set :: "nat \<Rightarrow> rat \<Rightarrow> alert_store \<Rightarrow> alert_store" where
  "push_to_sorted_set project time st = st\<lparr>al_projects := dict_set project time (al_projects st)\<rparr>"

definition push_to_hash :: "nat \<times> nat option \<Rightarrow> nat \<times> nat \<Rightarrow> instance_data \<Rightarrow> alert_store \<Rightarrow> alert_store" where
  "push_to_hash k field v st = st\<lparr>al_hash := (al_hash st)(k := dict_set field v (al_hash st k))\<rparr>"

definition push_to_hash_bulk :: "nat \<times> nat option \<Rightarrow> (nat \<times> nat, instance_data) dict \<Rightarrow> alert_store \<Rightarrow> alert_store" where
  "push_to_hash_bulk k d st = st\<lparr>al_hash := (al_hash st)(k := dict_merge (al_hash st k) d)\<rparr>"

definition delete_hash :: "nat \<times> nat option \<Rightarrow> (nat \<times> nat) list \<Rightarrow> alert_store \<Rightarrow> alert_store" where
  "delete_hash k names st = st\<lparr>al_hash := (al_hash st)(k := filter (\<lambda>(f, _). f \<notin> set names) (al_hash st k))\<rparr>"

definition enqueue_field :: "issue_alert_rule \<Rightarrow> group_event \<Rightarrow> alert_store \<Rightarrow> alert_store" where
  "enqueue_field r ev = push_to_hash (ru_project r, None) (ru_id r, is_id (ev_group ev))
     \<lparr>in_event = Some (ev_id ev), in_occurrence = ev_occurrence ev\<rparr>"

text \<open>The two writes of \<open>enqueue_rule\<close>, in the order in which it makes them; other processes may run in between.\<close>

definition enqueue_writes :: "issue_alert_rule \<Rightarrow> group_event \<Rightarrow> rat \<Rightarrow> (alert_store \<Rightarrow> alert_store) list" where
  "enqueue_writes r ev time = [push_to_sorted_set (ru_project r) time, enqueue_field r ev]"

definition enqueue_rule :: "issue_alert_rule \<Rightarrow> group_event \<Rightarrow> rat \<Rightarrow> alert_store \<Rightarrow> alert_store" where
  "enqueue_rule r ev time st = foldl (\<lambda>st write. write st) st (enqueue_writes r ev time)"

datatype rule_decision = Skip | Defer | Activate

text \<open>
  What \<open>apply_rule\<close> decides before it touches the database: the environment of the event (which may not
  exist), the status that was read, the filters, then the fast conditions. The result of the match
  function is only looked at for \<open>any\<close> and \<open>all\<close>.
\<close>

definition filters_pass :: "string \<Rightarrow> (rule_node \<Rightarrow> bool) \<Rightarrow> rule_node list \<Rightarrow> bool" where
  "filters_pass filter_match holds filters =
     (if filters = [] then True
      else case get_match_function filter_match of None \<Rightarrow> False | Some f \<Rightarrow> f (map holds filters))"

definition decide_conditions :: "string \<Rightarrow> (rule_node \<Rightarrow> bool) \<Rightarrow> rule_node list \<Rightarrow> rule_node list \<Rightarrow> rule_decision" where
  "decide_conditions condition_match holds fast slow =
     (if slow = [] \<and> fast = [] then Activate
      else case get_match_function condition_match of
        None \<Rightarrow> Skip
      | Some f \<Rightarrow>
          let result = f (map holds fast)
          in if condition_match = ''any'' then
               (if \<not> result \<and> slow \<noteq> [] then Defer else if \<not> result then Skip else Activate)
             else if condition_match = ''all'' then
               (if \<not> result then Skip else if slow \<noteq> [] then Defer else Activate)
             else Activate)"

definition decide_rule ::
  "answers \<Rightarrow> nat option \<Rightarrow> event_state \<Rightarrow> group_event \<Rightarrow> issue_alert_rule \<Rightarrow> rat option \<Rightarrow> rat \<Rightarrow> rule_decision" where
  "decide_rule an environment state ev r last_active now =
     (case environment of
        None \<Rightarrow> Skip
      | Some env \<Rightarrow>
          if ru_environment r \<noteq> None \<and> ru_environment r \<noteq> Some env then Skip
          else if (case last_active of None \<Rightarrow> False | Some t \<Rightarrow> t > now - frequency_of r) then Skip
          else
            let holds = condition_matches an now (ru_environment r) ev state;
                (conditions, filters) = split_conditions_and_filters (ru_conditions r);
                (fast, slow) = group_conditions_by_speed conditions
            in if \<not> filters_pass (filter_match_of r) holds filters then Skip
               else decide_conditions (condition_match_of r) holds fast slow)"

text \<open>\<open>apply_rule\<close>: the futures of a rule that fires are merged into those of the rules before it.\<close>

definition fire_rule ::
  "(nat \<Rightarrow> action_outcome) \<Rightarrow> issue_alert_rule \<Rightarrow> group_event \<Rightarrow> rat \<Rightarrow> alert_store \<Rightarrow> rule_futures result option \<times> alert_store" where
  \<comment> \<open>nothing when another process was faster\<close>
  "fire_rule after r ev now st =
     (let (updated, st) = update_last_active (ru_id r, is_id (ev_group ev)) (now - frequency_of r) now st
      in if \<not> updated then (None, st)
         else (Some (activate_downstream_actions after r), record_history r ev now st))"

definition apply_rule ::
  "(nat \<Rightarrow> action_outcome) \<Rightarrow> answers \<Rightarrow> nat option \<Rightarrow> event_state \<Rightarrow> group_event \<Rightarrow> issue_alert_rule \<Rightarrow> rat option \<Rightarrow> rat \<Rightarrow> rat
     \<Rightarrow> rule_futures \<Rightarrow> alert_store \<Rightarrow> rule_futures result \<times> alert_store" where
  \<comment> \<open>the clock when the rule is looked at, and when it is deferred\<close>
  "apply_rule after an environment state ev r last_active now pushed futures st =
     (case decide_rule an environment state ev r last_active now of
        Skip \<Rightarrow> (Inr futures, st)
      | Defer \<Rightarrow> (Inr futures, enqueue_rule r ev pushed st)
      | Activate \<Rightarrow>
          (case fire_rule after r ev now st of
             (None, st) \<Rightarrow> (Inr futures, st)
           | (Some (Inl e), st) \<Rightarrow> (Inl e, st)
           | (Some (Inr fs), st) \<Rightarrow> (Inr (dict_merge futures fs), st)))"

fun apply_rules ::
  "(nat \<Rightarrow> action_outcome) \<Rightarrow> answers \<Rightarrow> nat option \<Rightarrow> event_state \<Rightarrow> group_event \<Rightarrow> (nat, rat option) dict \<Rightarrow> (nat \<Rightarrow> rat \<times> rat)
     \<Rightarrow> issue_alert_rule list \<Rightarrow> rule_futures \<Rightarrow> alert_store \<Rightarrow> rule_futures result \<times> alert_store" where
  "apply_rules after an environment state ev statuses clock [] futures st = (Inr futures, st)"
| "apply_rules after an environment state ev statuses clock (r # rs) futures st =
     (case dict_get statuses (ru_id r) of
        None \<Rightarrow> (Inl KeyError, st)
      | Some last_active \<Rightarrow>
          (case apply_rule after an environment state ev r last_active (fst (clock (ru_id r))) (snd (clock (ru_id r))) futures st of
             (Inl e, st) \<Rightarrow> (Inl e, st)
           | (Inr futures, st) \<Rightarrow> apply_rules after an environment state ev statuses clock rs futures st))"

definition apply_processor ::
  "(nat \<Rightarrow> action_outcome) \<Rightarrow> answers \<Rightarrow> nat option \<Rightarrow> event_state \<Rightarrow> group_event \<Rightarrow> issue_alert_rule list \<Rightarrow> nat list
     \<Rightarrow> (nat \<Rightarrow> rat \<times> rat) \<Rightarrow> alert_store \<Rightarrow> rule_futures result \<times> alert_store" where
  \<comment> \<open>\<open>RuleProcessor.apply\<close>, with the active rules of the project and those snoozed for everyone\<close>
  "apply_processor after an environment state ev rules snoozed clock st =
     (if \<not> is_unresolved (ev_group ev) then (Inr [], st)
      else let (statuses, st) = bulk_get_rule_status (map ru_id rules) (is_id (ev_group ev)) st
           in apply_rules after an environment state ev statuses clock (filter (\<lambda>r. ru_id r \<notin> set snoozed) rules) [] st)"

definition send_futures :: "string \<Rightarrow> rule_futures \<Rightarrow> alert_store \<Rightarrow> alert_store" where
  \<comment> \<open>the callbacks, each under \<open>safe_execute\<close>\<close>
  "send_futures event fs st = st\<lparr>al_sent := al_sent st @ map (\<lambda>(_, callback, futures). (event, callback, futures)) fs\<rparr>"

definition process_rules ::
  "bool \<Rightarrow> (nat \<Rightarrow> action_outcome) \<Rightarrow> answers \<Rightarrow> nat option \<Rightarrow> event_state \<Rightarrow> group_event \<Rightarrow> issue_alert_rule list \<Rightarrow> nat list
     \<Rightarrow> (nat \<Rightarrow> rat \<times> rat) \<Rightarrow> alert_store \<Rightarrow> bool result \<times> alert_store" where
  "process_rules is_reprocessed after an environment state ev rules snoozed clock st =
     (if is_reprocessed then (Inr False, st)
      else case apply_processor after an environment state ev rules snoozed clock st of
        (Inl e, st) \<Rightarrow> (Inl e, st)
      | (Inr fs, st) \<Rightarrow> (Inr (fs \<noteq> []), send_futures (ev_id ev) fs st))"

section \<open>Deferred rules: the queries\<close>

record unique_query =
  uq_class :: frequency_class
  uq_interval :: string
  uq_environment :: "nat option"
  uq_comparison :: "string option"

definition get_rules_to_groups :: "(nat \<times> nat, instance_data) dict \<Rightarrow> nat \<Rightarrow> nat list" where
  "get_rules_to_groups d rule = map (snd \<circ> fst) (filter (\<lambda>((r, g), _). r = rule) d)"

definition fetch_alert_rules :: "issue_alert_rule list \<Rightarrow> nat list \<Rightarrow> (nat \<times> nat, instance_data) dict \<Rightarrow> issue_alert_rule list" where
  \<comment> \<open>the table of rules, the rules snoozed for everyone\<close>
  "fetch_alert_rules table snoozed d = filter (\<lambda>r. ru_id r \<in> fst ` fst ` set d \<and> ru_id r \<notin> set snoozed) table"

definition get_slow_conditions :: "issue_alert_rule \<Rightarrow> frequency_condition list" where
  "get_slow_conditions r =
     concat (map (\<lambda>n. case n of SlowNode d \<Rightarrow> [d] | PlainNode _ _ \<Rightarrow> [])
       (filter is_condition_slow (fst (split_conditions_and_filters (ru_conditions r)))))"

definition generate_unique_queries :: "frequency_condition \<Rightarrow> nat option \<Rightarrow> unique_query list" where
  "generate_unique_queries d env =
     (let q = \<lparr>uq_class = fc_class d, uq_interval = fc_interval d, uq_environment = env, uq_comparison = None\<rparr>
      in q # (if is_percent d
              then [q\<lparr>uq_comparison := Some (case fc_comparison_interval d of None \<Rightarrow> DEFAULT_COMPARISON_INTERVAL | Some i \<Rightarrow> i)\<rparr>]
              else []))"

text \<open>A query keeps the first condition that asks it, and collects the issues of all that ask it.\<close>

type_synonym query_groups = "(unique_query, frequency_condition \<times> nat list) dict"

definition add_query :: "nat list \<Rightarrow> frequency_condition \<Rightarrow> query_groups \<Rightarrow> unique_query \<Rightarrow> query_groups" where
  "add_query issues d groups q =
     (case dict_get groups q of
        Some (first, ids) \<Rightarrow> dict_set q (first, ids @ filter (\<lambda>i. i \<notin> set ids) issues) groups
      | None \<Rightarrow> dict_set q (d, issues) groups)"

definition add_rule_queries :: "(nat \<Rightarrow> nat list) \<Rightarrow> query_groups \<Rightarrow> issue_alert_rule \<Rightarrow> query_groups" where
  "add_rule_queries rules_to_groups groups r =
     foldl (\<lambda>groups d. foldl (add_query (rules_to_groups (ru_id r)) d) groups (generate_unique_queries d (ru_environment r)))
       groups (get_slow_conditions r)"

definition get_condition_query_groups :: "issue_alert_rule list \<Rightarrow> (nat \<Rightarrow> nat list) \<Rightarrow> query_groups" where
  "get_condition_query_groups rules rules_to_groups = foldl (add_rule_queries rules_to_groups) [] rules"

text \<open>
  One bulk query for each: the rows of the issues found, and the session count in the cache at that time. An
  exception of the query is caught and read as no result; an interval the class does not have is
  looked up outside and raises.
\<close>

definition query_result ::
  "counts \<Rightarrow> (unique_query \<Rightarrow> int option) \<Rightarrow> (nat list \<Rightarrow> group_row list) \<Rightarrow> rat \<Rightarrow> unique_query \<Rightarrow> frequency_condition
     \<Rightarrow> nat list \<Rightarrow> (nat, int) dict result" where
  "query_result ct cached rows current_time q d ids =
     (case map_of (class_intervals (uq_class q)) (uq_interval q) of
        None \<Rightarrow> Inl KeyError
      | Some duration \<Rightarrow>
          let comparison = (case uq_comparison q of None \<Rightarrow> None | Some i \<Rightarrow> map_of COMPARISON_INTERVALS i)
          in Inr (case get_rate_bulk ct (cached q) (d\<lparr>fc_class := uq_class q\<rparr>) (rows ids) duration current_time comparison (uq_environment q) of
                    Inl _ \<Rightarrow> [] | Inr r \<Rightarrow> r))"

fun get_condition_group_results ::
  "counts \<Rightarrow> (unique_query \<Rightarrow> int option) \<Rightarrow> (nat list \<Rightarrow> group_row list) \<Rightarrow> rat \<Rightarrow> query_groups
     \<Rightarrow> (unique_query, (nat, int) dict) dict result" where
  "get_condition_group_results ct cached rows current_time [] = Inr []"
| "get_condition_group_results ct cached rows current_time ((q, d, ids) # qs) =
     bind_result (query_result ct cached rows current_time q d ids) (\<lambda>r.
       bind_result (get_condition_group_results ct cached rows current_time qs) (\<lambda>rs. Inr ((q, r) # rs)))"

text \<open>
  What a query of the first two classes gives is a \<open>defaultdict\<close>, which has a zero for an issue it does not know; an
  empty one is replaced by an empty dictionary.
\<close>

definition lookup_result :: "unique_query \<Rightarrow> (nat, int) dict \<Rightarrow> nat \<Rightarrow> int result" where
  "lookup_result q r issue =
     (if r \<noteq> [] \<and> uq_class q \<noteq> FrequencyPercent then Inr (case dict_get r issue of None \<Rightarrow> 0 | Some n \<Rightarrow> n)
      else lookup_count r issue)"

definition passes_comparison ::
  "(unique_query, (nat, int) dict) dict \<Rightarrow> frequency_condition \<Rightarrow> nat \<Rightarrow> nat option \<Rightarrow> bool" where
  "passes_comparison results d issue env =
     (case traverse (\<lambda>q. case dict_get results q of None \<Rightarrow> Inl KeyError | Some r \<Rightarrow> lookup_result q r issue)
             (generate_unique_queries d env) of
        Inl _ \<Rightarrow> False
      | Inr values \<Rightarrow>
          let calculated = (if is_percent d then percent_increase (values ! 0) (values ! 1) else values ! 0)
          in of_int calculated > fc_value d)"

section \<open>Deferred rules: firing\<close>

text \<open>The loop over the slow conditions of a rule: whether one of them fires it at once, and how many matched.\<close>

fun slow_loop :: "string \<Rightarrow> (frequency_condition \<Rightarrow> bool) \<Rightarrow> frequency_condition list \<Rightarrow> nat \<Rightarrow> bool \<times> nat" where
  "slow_loop action_match passes [] matched = (False, matched)"
| "slow_loop action_match passes (d # ds) matched =
     (if passes d then
        (if action_match = ''any'' then (True, matched)
         else slow_loop action_match passes ds (if action_match = ''all'' then matched + 1 else matched))
      else slow_loop action_match passes ds matched)"

definition delayed_match_of :: "issue_alert_rule \<Rightarrow> string" where
  \<comment> \<open>the default here is not that of the processor, and an empty text is kept\<close>
  "delayed_match_of r = (case ru_action_match r of None \<Rightarrow> ''any'' | Some m \<Rightarrow> m)"

definition slow_conditions_fire :: "string \<Rightarrow> (frequency_condition \<Rightarrow> bool) \<Rightarrow> frequency_condition list \<Rightarrow> bool" where
  "slow_conditions_fire action_match passes ds =
     (let (fired, matched) = slow_loop action_match passes ds 0
      in fired \<or> action_match = ''all'' \<and> matched = length ds)"

definition get_rules_to_fire ::
  "(unique_query, (nat, int) dict) dict \<Rightarrow> issue_alert_rule list \<Rightarrow> (nat \<Rightarrow> nat list) \<Rightarrow> (issue_alert_rule \<times> nat list) list" where
  "get_rules_to_fire results rules rules_to_groups =
     filter (\<lambda>(_, issues). issues \<noteq> [])
       (map (\<lambda>r. (r, filter (\<lambda>g. slow_conditions_fire (delayed_match_of r)
                               (\<lambda>d. passes_comparison results d g (ru_environment r)) (get_slow_conditions r))
                       (rules_to_groups (ru_id r)))) rules)"

text \<open>Events, issues and occurrences as the stores give them.\<close>

record lookups =
  lk_event :: "string \<Rightarrow> group_event option"
  lk_issue :: "nat \<Rightarrow> issue option"
  lk_occurrence :: "string \<Rightarrow> string option"

definition group_event_of :: "lookups \<Rightarrow> nat list \<Rightarrow> nat \<Rightarrow> instance_data \<Rightarrow> group_event option" where
  "group_event_of lk issues g data =
     (case in_event data of
        None \<Rightarrow> None
      | Some e \<Rightarrow>
          (case (if g \<in> set issues then lk_issue lk g else None, lk_event lk e) of
             (Some i, Some ev) \<Rightarrow>
               Some (ev\<lparr>ev_group := i,
                 ev_occurrence := (case in_occurrence data of None \<Rightarrow> None | Some oc \<Rightarrow> if oc = '''' then None else lk_occurrence lk oc)\<rparr>)
           | _ \<Rightarrow> None))"

definition get_group_to_groupevent ::
  "lookups \<Rightarrow> (nat \<times> nat, instance_data) dict \<Rightarrow> nat list \<Rightarrow> (nat, group_event) dict" where
  \<comment> \<open>the last entry of an issue wins, whichever rule it is for\<close>
  "get_group_to_groupevent lk parsed issues =
     foldl (\<lambda>d ((r, g), data). case group_event_of lk issues g data of None \<Rightarrow> d | Some ev \<Rightarrow> dict_set g ev d) [] parsed"

fun fire_groups ::
  "(nat \<Rightarrow> action_outcome) \<Rightarrow> nat list \<Rightarrow> issue_alert_rule \<Rightarrow> rat \<Rightarrow> (nat, group_event) dict \<Rightarrow> alert_store
     \<Rightarrow> py_exc option \<times> alert_store" where
  "fire_groups after rule_ids r now [] st = (None, st)"
| "fire_groups after rule_ids r now ((g, ev) # rest) st =
     (let (statuses, st) = bulk_get_rule_status rule_ids g st
      in case dict_get statuses (ru_id r) of
           None \<Rightarrow> (Some KeyError, st)
         | Some last_active \<Rightarrow>
             if (case last_active of None \<Rightarrow> False | Some t \<Rightarrow> t > now - frequency_of r) then (None, st)
             else case fire_rule after r ev now st of
               (None, st) \<Rightarrow> (None, st)
             | (Some (Inl e), st) \<Rightarrow> (Some e, st)
             | (Some (Inr fs), st) \<Rightarrow> fire_groups after rule_ids r now rest (send_futures (ev_id ev) fs st))"

fun fire_rules ::
  "(nat \<Rightarrow> action_outcome) \<Rightarrow> lookups \<Rightarrow> (nat \<times> nat, instance_data) dict \<Rightarrow> nat list \<Rightarrow> rat \<Rightarrow> (issue_alert_rule \<times> nat list) list
     \<Rightarrow> alert_store \<Rightarrow> py_exc option \<times> alert_store" where
  "fire_rules after lk parsed rule_ids now [] st = (None, st)"
| "fire_rules after lk parsed rule_ids now ((r, issues) # rest) st =
     (case fire_groups after rule_ids r now (get_group_to_groupevent lk parsed issues) st of
        (Some e, st) \<Rightarrow> (Some e, st)
      | (None, st) \<Rightarrow> fire_rules after lk parsed rule_ids now rest st)"

text \<open>What a run of the task reads of the outside.\<close>

record delayed_env =
  de_table :: "issue_alert_rule list"
  de_snoozed :: "nat list"
  de_counts :: counts
  de_cached :: "unique_query \<Rightarrow> int option"
  de_rows :: "nat list \<Rightarrow> group_row list"
  de_time :: rat
  de_now :: rat
  de_after :: "nat \<Rightarrow> action_outcome"
  de_lookups :: lookups

definition delayed_decision :: "delayed_env \<Rightarrow> (nat \<times> nat, instance_data) dict \<Rightarrow> (issue_alert_rule \<times> nat list) list result" where
  "delayed_decision de data =
     (let rules_to_groups = get_rules_to_groups data;
          rules = fetch_alert_rules (de_table de) (de_snoozed de) data
      in bind_result (get_condition_group_results (de_counts de) (de_cached de) (de_rows de) (de_time de)
                        (get_condition_query_groups rules rules_to_groups)) (\<lambda>results.
           Inr (if results = [] then [] else get_rules_to_fire results rules rules_to_groups)))"

definition cleanup_redis_buffer :: "nat \<Rightarrow> nat option \<Rightarrow> (nat \<times> nat, instance_data) dict \<Rightarrow> alert_store \<Rightarrow> alert_store" where
  "cleanup_redis_buffer project batch data = delete_hash (project, batch) (map fst data)"

definition finish_delayed ::
  "delayed_env \<Rightarrow> nat \<Rightarrow> nat option \<Rightarrow> (nat \<times> nat, instance_data) dict \<Rightarrow> alert_store \<Rightarrow> py_exc option \<times> alert_store" where
  \<comment> \<open>\<open>apply_delayed\<close> after it has read the hash\<close>
  "finish_delayed de project batch data st =
     (case delayed_decision de data of
        Inl e \<Rightarrow> (Some e, st)
      | Inr to_fire \<Rightarrow>
          (case fire_rules (de_after de) (de_lookups de) data (map ru_id (fetch_alert_rules (de_table de) (de_snoozed de) data))
                  (de_now de) to_fire st of
             (Some e, st) \<Rightarrow> (Some e, st)
           | (None, st) \<Rightarrow> (None, cleanup_redis_buffer project batch data st)))"

definition apply_delayed :: "delayed_env \<Rightarrow> bool \<Rightarrow> nat \<Rightarrow> nat option \<Rightarrow> alert_store \<Rightarrow> py_exc option \<times> alert_store" where
  "apply_delayed de project_found project batch st =
     (if \<not> project_found then (None, st) else finish_delayed de project batch (al_hash st (project, batch)) st)"

section \<open>The schedule of deferred rules\<close>

definition new_batch :: "nat \<Rightarrow> (nat \<times> nat, instance_data) dict \<Rightarrow> alert_store \<Rightarrow> alert_store" where
  \<comment> \<open>a batch under a fresh key: its fields leave the hash of the project\<close>
  "new_batch project batch st =
     (let b = al_batches st;
          st = push_to_hash_bulk (project, Some b) batch (st\<lparr>al_batches := b + 1\<rparr>);
          st = delete_hash (project, None) (map fst batch) st
      in st\<lparr>al_tasks := al_tasks st @ [(project, Some b)]\<rparr>)"

definition process_rulegroups_in_batches :: "nat \<Rightarrow> nat \<Rightarrow> alert_store \<Rightarrow> alert_store" where
  "process_rulegroups_in_batches batch_size project st =
     (if length (al_hash st (project, None)) < batch_size then st\<lparr>al_tasks := al_tasks st @ [(project, None)]\<rparr>
      else foldl (\<lambda>st batch. new_batch project batch st) st
             (if batch_size = 0 then [] else chunked (al_hash st (project, None)) batch_size))"

definition due_projects :: "rat \<Rightarrow> alert_store \<Rightarrow> nat list" where
  \<comment> \<open>\<open>get_sorted_set\<close>\<close>
  "due_projects fetch_time st = map fst (filter (\<lambda>(_, s). 0 \<le> s \<and> s \<le> fetch_time) (al_projects st))"

definition delete_due :: "rat \<Rightarrow> alert_store \<Rightarrow> alert_store" where
  \<comment> \<open>\<open>delete_key\<close>\<close>
  "delete_due fetch_time st = st\<lparr>al_projects := filter (\<lambda>(_, s). \<not> (0 \<le> s \<and> s \<le> fetch_time)) (al_projects st)\<rparr>"

definition process_delayed_alert_conditions :: "nat \<Rightarrow> rat \<Rightarrow> alert_store \<Rightarrow> alert_store" where
  "process_delayed_alert_conditions batch_size fetch_time st =
     delete_due fetch_time
       (foldl (\<lambda>st p. process_rulegroups_in_batches batch_size p st) st (due_projects fetch_time st))"

section \<open>Deferring does not change the decision\<close>

definition well_formed_node :: "rule_node \<Rightarrow> bool" where
  \<comment> \<open>conditions that count events were stored with their fields\<close>
  "well_formed_node n = (case n of SlowNode _ \<Rightarrow> True | PlainNode _ _ \<Rightarrow> \<not> is_condition_slow n)"

lemma contains_sub_append: "contains_sub p (s @ p @ t)"
proof (induction s)
  case Nil
  have "startswith p (p @ t)" by (simp add: startswith_def)
  then show ?case by (cases "p @ t") simp_all
qed simp

lemma slow_node: "is_condition_slow (SlowNode d)"
  using contains_sub_append [of "''event_frequency''" "''sentry.rules.conditions.''"
      "CHR ''.'' # (case fc_class d of Frequency \<Rightarrow> ''EventFrequencyCondition'' | UniqueUserFrequency \<Rightarrow> ''EventUniqueUserFrequencyCondition''
        | FrequencyPercent \<Rightarrow> ''EventFrequencyPercentCondition'')"]
  by (simp add: is_condition_slow_def class_id_def)

lemma slow_node_condition: "is_condition_node (SlowNode d)"
  by (cases "fc_class d") (simp_all add: is_condition_node_def rule_type_of_def condition_classes_def class_id_def)

lemma well_formed_slow: "well_formed_node n \<Longrightarrow> is_condition_slow n \<longleftrightarrow> (\<exists>d. n = SlowNode d)"
  by (cases n) (auto simp: well_formed_node_def slow_node)

definition node_holds :: "(rule_node \<Rightarrow> bool) \<Rightarrow> (frequency_condition \<Rightarrow> bool) \<Rightarrow> rule_node \<Rightarrow> bool" where
  "node_holds holds passes n = (case n of SlowNode d \<Rightarrow> passes d | PlainNode _ _ \<Rightarrow> holds n)"

abbreviation rule_conditions :: "issue_alert_rule \<Rightarrow> rule_node list" where
  "rule_conditions r \<equiv> filter is_condition_node (ru_conditions r)"

lemma slow_loop_any: "fst (slow_loop ''any'' passes ds n) = list_ex passes ds"
  by (induction ds arbitrary: n) auto

lemma slow_loop_all: "slow_loop ''all'' passes ds n = (False, n + length (filter passes ds))"
  by (induction ds arbitrary: n) auto

lemma slow_conditions_fire_any [simp]: "slow_conditions_fire ''any'' passes ds = list_ex passes ds"
  using slow_loop_any [of passes ds 0] by (simp add: slow_conditions_fire_def split_beta Let_def)

lemma length_filter_all: "length (filter p xs) = length xs \<longleftrightarrow> list_all p xs"
  by (metis filter_id_conv length_filter_less list_all_iff nat_neq_iff)

lemma list_id_map: "list_ex id (map h xs) = list_ex h xs" "list_all id (map h xs) = list_all h xs"
  by (induction xs) simp_all

lemma slow_conditions_fire_all [simp]: "slow_conditions_fire ''all'' passes ds = list_all passes ds"
  by (simp add: slow_conditions_fire_def slow_loop_all length_filter_all)

lemma get_slow_conditions_eq:
  "list_all well_formed_node (ru_conditions r) \<Longrightarrow>
     map SlowNode (get_slow_conditions r) = filter is_condition_slow (rule_conditions r)"
proof -
  have "map SlowNode (concat (map (\<lambda>n. case n of SlowNode d \<Rightarrow> [d] | PlainNode _ _ \<Rightarrow> []) xs)) = xs"
    if "list_all (\<lambda>n. \<exists>d. n = SlowNode d) xs" for xs using that by (induction xs) auto
  moreover assume "list_all well_formed_node (ru_conditions r)"
  then have "list_all (\<lambda>n. \<exists>d. n = SlowNode d) (filter is_condition_slow (rule_conditions r))"
    by (auto simp: list_all_iff well_formed_slow)
  ultimately show ?thesis by (simp add: get_slow_conditions_def split_conditions_and_filters_def)
qed

lemma holds_split:
  assumes "list_all well_formed_node ns"
  shows "list_ex (node_holds holds passes) ns \<longleftrightarrow>
      list_ex holds (filter (\<lambda>n. \<not> is_condition_slow n) ns) \<or> list_ex (node_holds holds passes) (filter is_condition_slow ns)"
    and "list_all (node_holds holds passes) ns \<longleftrightarrow>
      list_all holds (filter (\<lambda>n. \<not> is_condition_slow n) ns) \<and> list_all (node_holds holds passes) (filter is_condition_slow ns)"
proof -
  have e: "node_holds holds passes n = holds n" if "well_formed_node n" "\<not> is_condition_slow n" for n
    using that by (cases n) (auto simp: node_holds_def slow_node)
  show "list_ex (node_holds holds passes) ns \<longleftrightarrow>
      list_ex holds (filter (\<lambda>n. \<not> is_condition_slow n) ns) \<or> list_ex (node_holds holds passes) (filter is_condition_slow ns)"
    using assms by (induction ns) (auto simp: e)
  show "list_all (node_holds holds passes) ns \<longleftrightarrow>
      list_all holds (filter (\<lambda>n. \<not> is_condition_slow n) ns) \<and> list_all (node_holds holds passes) (filter is_condition_slow ns)"
    using assms by (induction ns) (auto simp: e)
qed

lemma slow_holds: "list_ex (node_holds holds passes) (map SlowNode ds) = list_ex passes ds"
  "list_all (node_holds holds passes) (map SlowNode ds) = list_all passes ds"
  by (induction ds) (simp_all add: node_holds_def)

text \<open>
  C19. A rule that matches any or all of its conditions fires, at once or after its slow conditions were
  counted, exactly if the conditions match when they are evaluated together: that they are split by
  speed and the slow ones deferred cannot be seen in the decision.
\<close>

theorem deferral_decides_alike:
  assumes "list_all well_formed_node (ru_conditions r)" "ru_action_match r = Some m" "m = ''any'' \<or> m = ''all''"
    and "group_conditions_by_speed (rule_conditions r) = (fast, slow)" "get_match_function m = Some f"
  shows "decide_conditions (condition_match_of r) holds fast slow = Activate
      \<or> decide_conditions (condition_match_of r) holds fast slow = Defer
        \<and> slow_conditions_fire (delayed_match_of r) passes (get_slow_conditions r)
    \<longleftrightarrow> rule_conditions r = [] \<or> f (map (node_holds holds passes) (rule_conditions r))"
proof -
  let ?cs = "rule_conditions r"
  have wf: "list_all well_formed_node ?cs" using assms(1) by (auto simp: list_all_iff)
  have fs: "fast = filter (\<lambda>n. \<not> is_condition_slow n) ?cs" "slow = filter is_condition_slow ?cs"
    using assms(4) by (auto simp: group_conditions_by_speed_def)
  have s: "slow = map SlowNode (get_slow_conditions r)" using get_slow_conditions_eq [OF assms(1)] fs(2) by simp
  have empty: "?cs = [] \<longleftrightarrow> fast = [] \<and> slow = []" unfolding fs by (auto simp: filter_empty_conv)
  have m: "condition_match_of r = m" "delayed_match_of r = m"
    using assms(2,3) by (auto simp: condition_match_of_def delayed_match_of_def string_or_default_def)
  show ?thesis
  proof (cases "m = ''any''")
    case True
    then have f: "f = list_ex id" using assms(5) by (simp add: get_match_function_def)
    have "f (map (node_holds holds passes) ?cs) \<longleftrightarrow> list_ex holds fast \<or> list_ex passes (get_slow_conditions r)"
      unfolding f list_id_map holds_split(1) [OF wf] fs(1) [symmetric] fs(2) [symmetric] s slow_holds ..
    moreover have "decide_conditions (condition_match_of r) holds fast slow =
        (if slow = [] \<and> fast = [] then Activate else if list_ex holds fast then Activate else if slow \<noteq> [] then Defer else Skip)"
      using True by (simp add: m decide_conditions_def get_match_function_def list_id_map Let_def)
    ultimately show ?thesis using True s empty by (auto simp: m)
  next
    case False
    then have all: "m = ''all''" using assms(3) by simp
    then have f: "f = list_all id" using assms(5) by (simp add: get_match_function_def)
    have "f (map (node_holds holds passes) ?cs) \<longleftrightarrow> list_all holds fast \<and> list_all passes (get_slow_conditions r)"
      unfolding f list_id_map holds_split(2) [OF wf] fs(1) [symmetric] fs(2) [symmetric] s slow_holds ..
    moreover have "decide_conditions (condition_match_of r) holds fast slow =
        (if slow = [] \<and> fast = [] then Activate else if \<not> list_all holds fast then Skip else if slow \<noteq> [] then Defer else Activate)"
      using all by (simp add: m decide_conditions_def get_match_function_def list_id_map Let_def)
    ultimately show ?thesis using all s empty by (auto simp: m)
  qed
qed

section \<open>Counting in bulk is counting one by one\<close>

lemma foldl_invariant: "(\<And>s y. P s \<Longrightarrow> P (f s y)) \<Longrightarrow> P s \<Longrightarrow> P (foldl f s xs)"
  by (rule foldl_keeps)

lemma foldl_reaches:
  assumes "x \<in> set xs" "I s" "\<And>s y. I s \<Longrightarrow> I (f s y)" "\<And>s. I s \<Longrightarrow> Q (f s x)" "\<And>s y. I s \<Longrightarrow> Q s \<Longrightarrow> Q (f s y)"
  shows "Q (foldl f s xs)"
  using assms(1,2)
proof (induction xs arbitrary: s)
  case (Cons y xs)
  have "I (foldl f s zs) \<and> Q (foldl f s zs)" if "I s" "Q s" for s zs
    using that by (induction zs arbitrary: s) (auto intro: assms(3,5))
  with Cons show ?case by (cases "y = x") (auto intro: assms(3,4))
qed simp

definition queries_ok :: "query_groups \<Rightarrow> bool" where
  "queries_ok groups = (\<forall>q d ids. dict_get groups q = Some (d, ids) \<longrightarrow> fc_interval d = uq_interval q)"

definition covers :: "unique_query \<Rightarrow> nat list \<Rightarrow> query_groups \<Rightarrow> bool" where
  "covers q issues groups = (\<exists>d ids. dict_get groups q = Some (d, ids) \<and> set issues \<subseteq> set ids)"

lemma add_query_ok: "queries_ok groups \<Longrightarrow> fc_interval d = uq_interval q \<Longrightarrow> queries_ok (add_query issues d groups q)"
  by (auto simp: queries_ok_def add_query_def split: option.splits)

lemma add_query_covers: "covers q issues (add_query issues d groups q)"
  by (auto simp: covers_def add_query_def split: option.splits)

lemma add_query_keeps: "covers q0 issues0 groups \<Longrightarrow> covers q0 issues0 (add_query issues d groups q)"
  by (auto simp: covers_def add_query_def split: option.splits)

lemma query_interval: "q \<in> set (generate_unique_queries d env) \<Longrightarrow>
    uq_interval q = fc_interval d \<and> uq_class q = fc_class d \<and> uq_environment q = env"
  by (auto simp: generate_unique_queries_def Let_def split: if_splits)

lemma add_queries_ok:
  "queries_ok groups \<Longrightarrow> set qs \<subseteq> set (generate_unique_queries d env) \<Longrightarrow> queries_ok (foldl (add_query issues d) groups qs)"
proof (induction qs arbitrary: groups)
  case (Cons q qs)
  then have "queries_ok (add_query issues d groups q)" by (intro add_query_ok) (auto dest: query_interval)
  with Cons show ?case by simp
qed simp

lemma add_rule_ok: "queries_ok groups \<Longrightarrow> queries_ok (add_rule_queries rtg groups r)"
  unfolding add_rule_queries_def by (rule foldl_invariant [where P = queries_ok]) (auto intro: add_queries_ok)

lemma add_rule_keeps: "covers q issues groups \<Longrightarrow> covers q issues (add_rule_queries rtg groups r)"
  unfolding add_rule_queries_def
  by (rule foldl_invariant [where P = "covers q issues"]) (auto intro!: foldl_invariant [where P = "covers q issues"] add_query_keeps)

lemma add_rule_covers:
  assumes "d \<in> set (get_slow_conditions r)" "q \<in> set (generate_unique_queries d (ru_environment r))"
  shows "covers q (rtg (ru_id r)) (add_rule_queries rtg groups r)"
  unfolding add_rule_queries_def
proof (rule foldl_reaches [where I = "\<lambda>_. True" and x = d, OF assms(1)])
  show "covers q (rtg (ru_id r)) (foldl (add_query (rtg (ru_id r)) d) groups (generate_unique_queries d (ru_environment r)))" for groups
    by (rule foldl_reaches [where I = "\<lambda>_. True", OF assms(2)]) (auto intro: add_query_covers add_query_keeps)
qed (auto intro!: foldl_invariant [where P = "covers q (rtg (ru_id r))"] add_query_keeps)

lemma query_groups_cover:
  assumes "r \<in> set rules" "d \<in> set (get_slow_conditions r)" "q \<in> set (generate_unique_queries d (ru_environment r))"
  obtains first ids where "dict_get (get_condition_query_groups rules rtg) q = Some (first, ids)"
    "set (rtg (ru_id r)) \<subseteq> set ids" "fc_interval first = uq_interval q"
proof -
  have "covers q (rtg (ru_id r)) (get_condition_query_groups rules rtg)"
    unfolding get_condition_query_groups_def
    by (rule foldl_reaches [where I = "\<lambda>_. True", OF assms(1)]) (auto intro: add_rule_covers [OF assms(2,3)] add_rule_keeps)
  moreover have "queries_ok (get_condition_query_groups rules rtg)"
    unfolding get_condition_query_groups_def
    by (rule foldl_invariant [where P = queries_ok, OF add_rule_ok]) (simp_all add: queries_ok_def)
  ultimately show ?thesis using that unfolding covers_def queries_ok_def by blast
qed

lemma group_results_get:
  "get_condition_group_results ct cached rows now groups = Inr results \<Longrightarrow> dict_get groups q = Some (d, ids) \<Longrightarrow>
     \<exists>x. dict_get results q = Some x \<and> query_result ct cached rows now q d ids = Inr x"
proof (induction groups arbitrary: results)
  case (Cons c groups)
  obtain q' d' ids' where c: "c = (q', d', ids')" by (cases c)
  from Cons.prems(1) obtain x rs where x: "query_result ct cached rows now q' d' ids' = Inr x"
      "get_condition_group_results ct cached rows now groups = Inr rs" "results = (q', x) # rs"
    by (auto simp: c bind_result_Inr_iff)
  show ?case
  proof (cases "q' = q")
    case True
    with Cons.prems(2) x show ?thesis by (auto simp: c dict_get_def)
  next
    case False
    with Cons.prems(2) have "dict_get groups q = Some (d, ids)" by (simp add: c dict_get_def)
    from Cons.IH [OF x(2) this] False show ?thesis by (simp add: x(3) dict_get_def)
  qed
qed simp

text \<open>The rows a bulk query finds for issues of one project include that of the issue.\<close>

definition finds_row :: "(nat list \<Rightarrow> group_row list) \<Rightarrow> issue \<Rightarrow> bool" where
  "finds_row rows i = (\<forall>ids. is_id i \<in> set ids \<longrightarrow> distinct (map gw_id (rows ids))
     \<and> (\<exists>w \<in> set (rows ids). gw_id w = is_id i \<and> gw_category w = is_category i)
     \<and> value_from_groups gw_org (rows ids) \<noteq> 0 \<and> value_from_groups gw_project (rows ids) = is_project i)"

lemma query_hook_cong: "fc_class d = fc_class d' \<Longrightarrow> fc_interval d = fc_interval d' \<Longrightarrow>
    query_hook_at j ct cached d i s e env = query_hook_at j ct cached d' i s e env"
  by (cases "fc_class d'") (simp_all add: query_hook_at_def)

lemma comparison_interval_pos: "map_of COMPARISON_INTERVALS k = Some c \<Longrightarrow> 0 < c"
  by (auto simp: COMPARISON_INTERVALS_def split: if_splits)

lemma query_result_single:
  assumes "counts_each (ct_sums ct) events" "counts_each (ct_distinct ct) users" "finds_row rows i" "is_id i \<in> set ids" "is_project i \<noteq> 0"
    and "fc_class d = FrequencyPercent \<longrightarrow> is_category i = ERROR" "uq_class q = fc_class d" "fc_interval d = uq_interval q"
    and "fc_interval first = uq_interval q" "query_result ct cached rows now q first ids = Inr x"
    and "map_of (class_intervals (fc_class d)) (fc_interval d) = Some duration"
    and "uq_comparison q = None \<and> finish = now \<or> (\<exists>k c. uq_comparison q = Some k \<and> map_of COMPARISON_INTERVALS k = Some c \<and> finish = now - c)"
  shows "lookup_result q x (is_id i) = Inr v \<longleftrightarrow>
    query_hook_at (bulk_jitter (rows ids) (is_category i)) ct (cached q) d i (finish - duration) finish (uq_environment q) = Inr v"
proof -
  let ?d = "first\<lparr>fc_class := uq_class q\<rparr>" and ?rows = "rows ids" and ?j = "bulk_jitter (rows ids) (is_category i)"
  obtain w where w: "w \<in> set ?rows" "gw_id w = is_id i" "gw_category w = is_category i" and r: "distinct (map gw_id ?rows)"
      "value_from_groups gw_org ?rows \<noteq> 0" "value_from_groups gw_project ?rows = is_project i"
    using assms(3,4) unfolding finds_row_def by blast
  have h: "bind_result (batch_query_hook ct (cached q) ?d ?rows (finish - duration) finish (uq_environment q)) (\<lambda>r. lookup_count r (is_id i))
      = query_hook_at ?j ct (cached q) ?d i (finish - duration) finish (uq_environment q)"
    by (rule bulk_counts_single [OF assms(1,2) r(1) w(1) r(2,3) assms(5)]) (use w assms(6,7) in simp_all)
  have e: "query_hook_at ?j ct (cached q) ?d i (finish - duration) finish (uq_environment q)
      = query_hook_at ?j ct (cached q) d i (finish - duration) finish (uq_environment q)"
    by (rule query_hook_cong) (use assms(7,8,9) in simp_all)
  have "x = (case batch_query_hook ct (cached q) ?d ?rows (finish - duration) finish (uq_environment q) of Inl _ \<Rightarrow> [] | Inr r \<Rightarrow> r)"
  proof (cases "uq_comparison q")
    case None
    with assms(12) have "finish = now" by simp
    with None assms(7,8,10,11) show ?thesis by (simp add: query_result_def get_rate_bulk_def get_query_window_def Let_def)
  next
    case (Some k)
    with assms(12) obtain c where c: "map_of COMPARISON_INTERVALS k = Some c" "finish = now - c" by auto
    with comparison_interval_pos [OF c(1)] Some assms(7,8,10,11) show ?thesis
      by (simp add: query_result_def get_rate_bulk_def get_query_window_def Let_def)
  qed
  then have l: "lookup_count x (is_id i) = Inr v \<longleftrightarrow>
      query_hook_at ?j ct (cached q) d i (finish - duration) finish (uq_environment q) = Inr v" for v using h e
    by (cases "batch_query_hook ct (cached q) ?d ?rows (finish - duration) finish (uq_environment q)") (auto simp: lookup_count_def)
  show ?thesis
  proof (cases "x \<noteq> [] \<and> uq_class q \<noteq> FrequencyPercent")
    case False
    then show ?thesis using l by (auto simp: lookup_result_def)
  next
    case True
    obtain n where "query_hook_at ?j ct (cached q) d i (finish - duration) finish (uq_environment q) = Inr n"
      using True assms(7) by (cases "fc_class d")
        (simp_all add: query_hook_at_def lookup_count_def get_data_get(1) [OF assms(1)] get_data_get(1) [OF assms(2)])
    with l [of n] have "dict_get x (is_id i) = Some n" by (auto simp: lookup_count_def split: option.splits)
    with True l show ?thesis by (simp add: lookup_result_def lookup_count_def)
  qed
qed

text \<open>What the bulk queries say of a condition, and what the condition says of itself.\<close>

lemma condition_query_found:
  assumes "get_condition_group_results ct cached rows now (get_condition_query_groups rules rtg) = Inr results"
    and "r \<in> set rules" "d \<in> set (get_slow_conditions r)" "q \<in> set (generate_unique_queries d (ru_environment r))" "i \<in> set (rtg (ru_id r))"
  obtains x first ids where "dict_get (get_condition_query_groups rules rtg) q = Some (first, ids)" "dict_get results q = Some x"
    "i \<in> set ids" "fc_interval first = uq_interval q" "query_result ct cached rows now q first ids = Inr x"
proof -
  obtain first ids where f: "dict_get (get_condition_query_groups rules rtg) q = Some (first, ids)"
      "set (rtg (ru_id r)) \<subseteq> set ids" "fc_interval first = uq_interval q"
    by (rule query_groups_cover [OF assms(2,3,4)])
  from group_results_get [OF assms(1) f(1)] f assms(5) that show ?thesis by blast
qed

text \<open>The jitter with which the events of an issue are counted for a query: that of the first issue of its kind.\<close>

definition shared_jitter :: "query_groups \<Rightarrow> (nat list \<Rightarrow> group_row list) \<Rightarrow> nat \<Rightarrow> unique_query \<Rightarrow> nat" where
  "shared_jitter groups rows category q =
     (case dict_get groups q of None \<Rightarrow> 0 | Some (_, ids) \<Rightarrow> bulk_jitter (rows ids) category)"

definition looked_up :: "(unique_query, (nat, int) dict) dict \<Rightarrow> nat \<Rightarrow> unique_query \<Rightarrow> int result" where
  "looked_up results i q = (case dict_get results q of None \<Rightarrow> Inl KeyError | Some x \<Rightarrow> lookup_result q x i)"

definition count_query :: "frequency_condition \<Rightarrow> nat option \<Rightarrow> unique_query" where
  "count_query d env = \<lparr>uq_class = fc_class d, uq_interval = fc_interval d, uq_environment = env, uq_comparison = None\<rparr>"

definition comparison_interval_of :: "frequency_condition \<Rightarrow> string" where
  "comparison_interval_of d = (case fc_comparison_interval d of None \<Rightarrow> DEFAULT_COMPARISON_INTERVAL | Some k \<Rightarrow> k)"

lemma condition_queries: "generate_unique_queries d env =
    count_query d env # (if is_percent d then [(count_query d env)\<lparr>uq_comparison := Some (comparison_interval_of d)\<rparr>] else [])"
  by (simp add: generate_unique_queries_def count_query_def comparison_interval_of_def Let_def)

lemma passes_comparison_iff:
  "passes_comparison results d i env \<longleftrightarrow>
    (if is_percent d then \<exists>v w. looked_up results i (count_query d env) = Inr v
         \<and> looked_up results i ((count_query d env)\<lparr>uq_comparison := Some (comparison_interval_of d)\<rparr>) = Inr w
         \<and> of_int (percent_increase v w) > fc_value d
     else \<exists>v. looked_up results i (count_query d env) = Inr v \<and> of_int v > fc_value d)"
  by (cases "looked_up results i (count_query d env)";
      cases "looked_up results i ((count_query d env)\<lparr>uq_comparison := Some (comparison_interval_of d)\<rparr>)")
    (simp_all add: passes_comparison_def condition_queries looked_up_def [symmetric])

lemma frequency_passes_iff:
  assumes "map_of (class_intervals (fc_class d)) (fc_interval d) = Some duration"
    and "map_of COMPARISON_INTERVALS (comparison_interval_of d) = Some c" "\<not> (es_is_new state \<and> fc_value d > 1)"
  shows "frequency_passes_at (a, b) ct (Some n) now env d ev state = Inr True \<longleftrightarrow>
    (if is_percent d then \<exists>v w. query_hook_at a ct (Some n) d (ev_group ev) (now - duration) now env = Inr v
         \<and> query_hook_at b ct (Some n) d (ev_group ev) (now - c - duration) (now - c) env = Inr w \<and> of_int (percent_increase v w) > fc_value d
     else \<exists>v. query_hook_at a ct (Some n) d (ev_group ev) (now - duration) now env = Inr v \<and> of_int v > fc_value d)"
proof -
  have "fc_interval d \<noteq> ''''" using assms(1) by (auto simp: class_intervals_def STANDARD_INTERVALS_def PERCENT_INTERVALS_def split: if_splits)
  moreover have "comparison_interval_of d \<noteq> ''''" using assms(2) by (auto simp: COMPARISON_INTERVALS_def)
  ultimately have "frequency_passes_at (a, b) ct (Some n) now env d ev state =
      bind_result (get_rate_at (a, b) ct (Some n) d (ev_group ev) now duration c env) (\<lambda>m. Inr (of_int m > fc_value d))"
    using assms by (auto simp: frequency_passes_at_def comparison_interval_of_def Let_def)
  then show ?thesis
    by (auto simp: get_rate_at_def get_query_window_def bind_result_Inr_iff get_session_count_def)
qed

text \<open>
  C11. A deferred condition is judged like the condition itself, but for the jitter. The bulk queries, shared between the
  rules and issues of a project and cut into chunks, give for every condition of every rule the verdict that the condition
  itself would reach at that time if its queries were made with the jitter of the first issue of the same kind in the bulk
  query, where the code that judges on the spot takes the issue itself: so the two agree when the issue is that first one, and
  any two positive jitters give windows of the same width that lie less than one bucket apart. Snuba counts each issue in a window
  for itself and does not cut its answer off; the bulk queries do not raise and find the row of the issue, which for a share of
  the sessions is an error; the comparison interval is known, the issue is not new (or the threshold is at most one), and
  both find the same session count in the cache.
\<close>

theorem deferred_verdict_is_direct:
  assumes "counts_each (ct_sums ct) events" "counts_each (ct_distinct ct) users" "finds_row rows (ev_group ev)" "is_project (ev_group ev) \<noteq> 0"
    and "get_condition_group_results ct (\<lambda>_. Some n) rows now (get_condition_query_groups rules rtg) = Inr results"
    and "r \<in> set rules" "d \<in> set (get_slow_conditions r)" "is_id (ev_group ev) \<in> set (rtg (ru_id r))"
    and "fc_class d = FrequencyPercent \<longrightarrow> is_category (ev_group ev) = ERROR" "\<not> (es_is_new state \<and> fc_value d > 1)"
    and "map_of COMPARISON_INTERVALS (case fc_comparison_interval d of None \<Rightarrow> DEFAULT_COMPARISON_INTERVAL | Some k \<Rightarrow> k) = Some c"
  shows "let q = \<lparr>uq_class = fc_class d, uq_interval = fc_interval d, uq_environment = ru_environment r, uq_comparison = None\<rparr>;
             p = q\<lparr>uq_comparison := Some (case fc_comparison_interval d of None \<Rightarrow> DEFAULT_COMPARISON_INTERVAL | Some k \<Rightarrow> k)\<rparr>;
             jitter = shared_jitter (get_condition_query_groups rules rtg) rows (is_category (ev_group ev));
             deferred = passes_comparison results d (is_id (ev_group ev)) (ru_environment r)
         in deferred = (frequency_passes_at (jitter q, jitter p) ct (Some n) now (ru_environment r) d ev state = Inr True)
          \<and> (jitter q = is_id (ev_group ev) \<and> (is_percent d \<longrightarrow> jitter p = is_id (ev_group ev)) \<longrightarrow>
               deferred = (frequency_passes ct (Some n) now (ru_environment r) d ev state = Inr True))
          \<and> (\<forall>a b s e. 0 < a \<and> 0 < b \<and> s \<le> e \<longrightarrow>
               \<bar>hd (tsdb_series a s e) - hd (tsdb_series b s e)\<bar> < get_optimal_rollup s e \<and>
               last (tsdb_series a s e) - hd (tsdb_series a s e) = last (tsdb_series b s e) - hd (tsdb_series b s e))"
proof -
  let ?i = "ev_group ev" and ?env = "ru_environment r" and ?look = "looked_up results (is_id (ev_group ev))"
  let ?q = "count_query d ?env" and ?p = "(count_query d ?env)\<lparr>uq_comparison := Some (comparison_interval_of d)\<rparr>"
  let ?j = "shared_jitter (get_condition_query_groups rules rtg) rows (is_category ?i)"
  note found = condition_query_found [OF assms(5,6,7) _ assms(8)]
  have c: "map_of COMPARISON_INTERVALS (comparison_interval_of d) = Some c" using assms(11) by (simp add: comparison_interval_of_def)
  obtain x first ids where "query_result ct (\<lambda>_. Some n) rows now ?q first ids = Inr x" by (rule found [of ?q]) (simp_all add: condition_queries)
  then obtain duration where dur: "map_of (class_intervals (fc_class d)) (fc_interval d) = Some duration"
    by (auto simp: query_result_def count_query_def split: option.splits)
  have single: "?look q = Inr v \<longleftrightarrow> query_hook_at (?j q) ct (Some n) d ?i (finish - duration) finish ?env = Inr v"
    if mem: "q \<in> set (generate_unique_queries d ?env)"
      and cmp: "uq_comparison q = None \<and> finish = now \<or> (\<exists>k c. uq_comparison q = Some k \<and> map_of COMPARISON_INTERVALS k = Some c \<and> finish = now - c)"
    for q finish v
  proof -
    obtain x first ids where x: "dict_get (get_condition_query_groups rules rtg) q = Some (first, ids)" "dict_get results q = Some x"
        "is_id ?i \<in> set ids" "fc_interval first = uq_interval q" "query_result ct (\<lambda>_. Some n) rows now q first ids = Inr x"
      by (rule found [OF mem])
    from query_interval [OF mem] have q: "uq_class q = fc_class d" "fc_interval d = uq_interval q" "uq_environment q = ?env" by simp_all
    show ?thesis
      using query_result_single [OF assms(1,2,3) x(3) assms(4,9) q(1,2) x(4,5) dur cmp] x(1,2) q(3)
      by (simp add: looked_up_def shared_jitter_def)
  qed
  have one: "?look ?q = Inr v \<longleftrightarrow> query_hook_at (?j ?q) ct (Some n) d ?i (now - duration) now ?env = Inr v" for v
    by (rule single) (simp_all add: condition_queries count_query_def)
  have two: "?look ?p = Inr v \<longleftrightarrow> query_hook_at (?j ?p) ct (Some n) d ?i (now - c - duration) (now - c) ?env = Inr v" if "is_percent d" for v
    by (rule single) (use that c in \<open>simp_all add: condition_queries\<close>)
  have verdict: "passes_comparison results d (is_id ?i) ?env
      \<longleftrightarrow> frequency_passes_at (?j ?q, ?j ?p) ct (Some n) now ?env d ev state = Inr True"
    unfolding passes_comparison_iff frequency_passes_iff [OF dur c assms(10)] by (simp add: one two)
  moreover have "passes_comparison results d (is_id ?i) ?env \<longleftrightarrow> frequency_passes ct (Some n) now ?env d ev state = Inr True"
    if "?j ?q = is_id ?i" "is_percent d \<longrightarrow> ?j ?p = is_id ?i"
    unfolding frequency_passes_def passes_comparison_iff frequency_passes_iff [OF dur c assms(10)]
    using that by (simp add: one two)
  moreover have queries: "?q = \<lparr>uq_class = fc_class d, uq_interval = fc_interval d, uq_environment = ?env, uq_comparison = None\<rparr>"
    "comparison_interval_of d = (case fc_comparison_interval d of None \<Rightarrow> DEFAULT_COMPARISON_INTERVAL | Some k \<Rightarrow> k)"
    by (simp_all add: count_query_def comparison_interval_of_def)
  ultimately show ?thesis unfolding Let_def queries [symmetric] using jitter_windows by blast
qed

end
