(* ===== verification/RuleRuns.thy ===== *)
theory RuleRuns
  imports RuleProcessing
begin

text \<open>
  Runs of the issue alerts: workers of the pipeline that look at rules, the flush of the buffer, and the
  tasks that evaluate deferred rules interleave step by step. A rule is looked at with whatever status
  was read before (from the cache, or earlier). The flush holds a lock, so there is one at a time; it takes one step for
  each project. Deferring a rule is one step, or two when its writes are separated.
\<close>

section \<open>The machine\<close>

record alert_run =
  ar_store :: alert_store
  ar_flush :: "(rat \<times> nat list) option"

datatype alert_event =
    ReadStatuses "nat list" nat
  | EvictStatus "nat \<times> nat"
  | TryRule "nat \<Rightarrow> action_outcome" answers "nat option" event_state group_event issue_alert_rule "rat option" rat rat
  | EnqueueWrite nat issue_alert_rule group_event rat
  | FlushStart rat
  | FlushProject nat
  | FlushEnd
  | TaskStart nat bool
  | TaskEnd nat delayed_env
  | TaskCrash nat

definition end_worker :: "nat \<Rightarrow> worker_state \<Rightarrow> alert_store \<Rightarrow> alert_store" where
  "end_worker j outcome st = st\<lparr>al_workers := (al_workers st)[j := (al_workers st ! j)\<lparr>dw_state := outcome\<rparr>]\<rparr>"

definition start_task :: "nat \<Rightarrow> bool \<Rightarrow> alert_store \<Rightarrow> alert_store" where
  "start_task i found st =
     (if i < length (al_tasks st) then
        let (project, batch) = al_tasks st ! i;
            st = st\<lparr>al_tasks := take i (al_tasks st) @ drop (Suc i) (al_tasks st)\<rparr>
        in if \<not> found then st
           else st\<lparr>al_workers := al_workers st @ [\<lparr>dw_project = project, dw_batch = batch,
                     dw_data = al_hash st (project, batch), dw_state = Running\<rparr>]\<rparr>
      else st)"

definition finish_task :: "nat \<Rightarrow> delayed_env \<Rightarrow> alert_store \<Rightarrow> alert_store" where
  "finish_task j de st =
     (if j < length (al_workers st) \<and> dw_state (al_workers st ! j) = Running then
        let w = al_workers st ! j
        in case finish_delayed de (dw_project w) (dw_batch w) (dw_data w) st of
             (None, st) \<Rightarrow> end_worker j Finished st
           | (Some _, st) \<Rightarrow> end_worker j Failed st
      else st)"

definition crash_task :: "nat \<Rightarrow> alert_store \<Rightarrow> alert_store" where
  "crash_task j st =
     (if j < length (al_workers st) \<and> dw_state (al_workers st ! j) = Running then end_worker j Failed st else st)"

abbreviation on_store :: "(alert_store \<Rightarrow> alert_store) \<Rightarrow> alert_run \<Rightarrow> alert_run" where
  "on_store f s \<equiv> s\<lparr>ar_store := f (ar_store s)\<rparr>"

definition try_rule ::
  "(nat \<Rightarrow> action_outcome) \<Rightarrow> answers \<Rightarrow> nat option \<Rightarrow> event_state \<Rightarrow> group_event \<Rightarrow> issue_alert_rule \<Rightarrow> rat option \<Rightarrow> rat \<Rightarrow> rat
     \<Rightarrow> alert_run \<Rightarrow> alert_run" where
  "try_rule after an env state ev r last_active now pushed s =
     on_store (\<lambda>st. snd (apply_rule after an env state ev r last_active now pushed [] st)) s"

fun alert_step :: "alert_run \<Rightarrow> alert_event \<Rightarrow> alert_run" where
  "alert_step s (ReadStatuses rules issue) = on_store (\<lambda>st. snd (bulk_get_rule_status rules issue st)) s"
| "alert_step s (EvictStatus k) = on_store (\<lambda>st. st\<lparr>al_cache := (al_cache st)(k := None)\<rparr>) s"
| "alert_step s (TryRule after an env state ev r last_active now pushed) =
     try_rule after an env state ev r last_active now pushed s"
| "alert_step s (EnqueueWrite i r ev time) =
     on_store (\<lambda>st. if i < length (enqueue_writes r ev time) then (enqueue_writes r ev time ! i) st else st) s"
| "alert_step s (FlushStart fetch_time) =
     (case ar_flush s of
        None \<Rightarrow> s\<lparr>ar_flush := Some (fetch_time, due_projects fetch_time (ar_store s))\<rparr>
      | Some _ \<Rightarrow> s)"
| "alert_step s (FlushProject batch_size) =
     (case ar_flush s of
        Some (t, p # ps) \<Rightarrow> s\<lparr>ar_store := process_rulegroups_in_batches batch_size p (ar_store s), ar_flush := Some (t, ps)\<rparr>
      | _ \<Rightarrow> s)"
| "alert_step s FlushEnd =
     (case ar_flush s of
        Some (t, []) \<Rightarrow> s\<lparr>ar_store := delete_due t (ar_store s), ar_flush := None\<rparr>
      | _ \<Rightarrow> s)"
| "alert_step s (TaskStart i found) = on_store (start_task i found) s"
| "alert_step s (TaskEnd j de) = on_store (finish_task j de) s"
| "alert_step s (TaskCrash j) = on_store (crash_task j) s"

definition no_alerts :: alert_store where
  "no_alerts = \<lparr>al_status = (\<lambda>_. None), al_cache = (\<lambda>_. None), al_history = [], al_projects = [], al_hash = (\<lambda>_. []),
     al_tasks = [], al_batches = 0, al_workers = [], al_sent = []\<rparr>"

definition first_run :: alert_run where
  "first_run = \<lparr>ar_store = no_alerts, ar_flush = None\<rparr>"

abbreviation alert_run_of :: "alert_event list \<Rightarrow> alert_run" where
  "alert_run_of es \<equiv> foldl alert_step first_run es"

section \<open>What firing leaves alone\<close>

lemma dict_get_map_keys: "k \<in> set ks \<Longrightarrow> dict_get (map (\<lambda>i. (i, h i)) ks) k = Some (h k)"
  by (induction ks) (auto simp: dict_get_def)

lemma fire_rule_frame:
  "fire_rule after r ev now st = (x, st') \<Longrightarrow> al_hash st' = al_hash st \<and> al_projects st' = al_projects st
     \<and> al_tasks st' = al_tasks st \<and> al_workers st' = al_workers st \<and> al_batches st' = al_batches st"
  by (auto simp: fire_rule_def update_last_active_def record_history_def Let_def split: option.splits if_splits)

lemma bulk_get_frame:
  "al_hash (snd (bulk_get_rule_status rules g st)) = al_hash st" "al_projects (snd (bulk_get_rule_status rules g st)) = al_projects st"
  "al_tasks (snd (bulk_get_rule_status rules g st)) = al_tasks st" "al_workers (snd (bulk_get_rule_status rules g st)) = al_workers st"
  "al_batches (snd (bulk_get_rule_status rules g st)) = al_batches st"
  "al_history (snd (bulk_get_rule_status rules g st)) = al_history st" "al_sent (snd (bulk_get_rule_status rules g st)) = al_sent st"
  by (simp_all add: bulk_get_rule_status_def Let_def)

text \<open>An invariant of the statuses and the history that reading statuses and firing keep is kept by the task.\<close>

lemma fire_groups_keeps:
  assumes "\<And>rules g st. P st \<Longrightarrow> P (snd (bulk_get_rule_status rules g st))"
    and "\<And>ev st. P st \<Longrightarrow> P (snd (fire_rule after r ev now st))" "\<And>event fs st. P st \<Longrightarrow> P (send_futures event fs st)"
  shows "P st \<Longrightarrow> P (snd (fire_groups after ids r now ges st))"
proof (induction ges arbitrary: st)
  case (Cons ge ges)
  obtain g ev where ge: "ge = (g, ev)" by (cases ge)
  obtain statuses st1 where b: "bulk_get_rule_status ids g st = (statuses, st1)" by (metis surj_pair)
  have p1: "P st1" using assms(1) [OF Cons.prems, of ids g] by (simp add: b)
  obtain x st2 where f: "fire_rule after r ev now st1 = (x, st2)" by (metis surj_pair)
  have p2: "P st2" using assms(2) [OF p1, of ev] by (simp add: f)
  show ?case
    using p1 p2 Cons.IH [OF assms(3) [OF p2]]
    by (simp add: ge b f split: option.split sum.split)
qed simp

lemma fire_rules_keeps:
  assumes "\<And>rules g st. P st \<Longrightarrow> P (snd (bulk_get_rule_status rules g st))"
    and "\<And>r issues ev st. (r, issues) \<in> set to_fire \<Longrightarrow> P st \<Longrightarrow> P (snd (fire_rule after r ev now st))"
    and "\<And>event fs st. P st \<Longrightarrow> P (send_futures event fs st)"
  shows "P st \<Longrightarrow> P (snd (fire_rules after lk parsed ids now to_fire st))"
  using assms(2)
proof (induction to_fire arbitrary: st)
  case (Cons x xs)
  obtain r issues where x: "x = (r, issues)" by (cases x)
  obtain e st1 where f: "fire_groups after ids r now (get_group_to_groupevent lk parsed issues) st = (e, st1)" by (metis surj_pair)
  have "P (snd (fire_groups after ids r now (get_group_to_groupevent lk parsed issues) st))"
    by (rule fire_groups_keeps [where P = P, OF assms(1) _ assms(3) Cons.prems(1)]) (auto intro: Cons.prems(2) simp: x)
  then have p1: "P st1" by (simp add: f)
  have "P (snd (fire_rules after lk parsed ids now xs st1))"
  proof (rule Cons.IH [OF p1])
    show "P (snd (fire_rule after r ev now st))" if "(r, issues) \<in> set xs" "P st" for r issues ev st
      by (rule Cons.prems(2) [of r issues, OF _ that(2)]) (use that(1) in simp)
  qed
  with p1 show ?case by (simp add: x f split: option.split)
qed simp

section \<open>Firings of a rule for an issue are its frequency apart\<close>

definition spaced :: "alert_store \<Rightarrow> bool" where
  "spaced st =
     (sorted_wrt (\<lambda>a b. fi_rule a = fi_rule b \<and> fi_issue a = fi_issue b \<longrightarrow> fi_time a + fi_frequency b \<le> fi_time b) (al_history st)
      \<and> (\<forall>f \<in> set (al_history st). \<exists>t. al_status st (fi_rule f, fi_issue f) = Some (Some t) \<and> fi_time f \<le> t))"

definition patient_rule :: "issue_alert_rule \<Rightarrow> bool" where
  \<comment> \<open>the serializer wants at least five minutes\<close>
  "patient_rule r = (case ru_minutes r of None \<Rightarrow> True | Some m \<Rightarrow> 0 \<le> m)"

fun patient_event :: "alert_event \<Rightarrow> bool" where
  "patient_event (TryRule after an env state ev r last_active now pushed) = patient_rule r"
| "patient_event (TaskEnd j de) = list_all patient_rule (de_table de)"
| "patient_event _ = True"

lemma patient_frequency: "patient_rule r \<Longrightarrow> 0 \<le> frequency_of r"
  by (auto simp: patient_rule_def frequency_of_def split: option.splits)

lemma spaced_cong: "al_history st' = al_history st \<Longrightarrow> al_status st' = al_status st \<Longrightarrow> spaced st' = spaced st"
  by (simp add: spaced_def)

lemma spaced_bulk: "spaced st \<Longrightarrow> spaced (snd (bulk_get_rule_status rules g st))"
proof -
  assume s: "spaced st"
  have "al_status (snd (bulk_get_rule_status rules g st)) k = Some (Some t)" if "al_status st k = Some (Some t)" for k t
    using that by (cases k) (auto simp: bulk_get_rule_status_def Let_def)
  with s show ?thesis unfolding spaced_def bulk_get_frame by blast
qed

lemma spaced_fire:
  assumes "0 \<le> frequency_of r" "spaced st"
  shows "spaced (snd (fire_rule after r ev now st))"
proof -
  let ?k = "(ru_id r, is_id (ev_group ev))"
  obtain updated st1 where u: "update_last_active ?k (now - frequency_of r) now st = (updated, st1)" by (metis surj_pair)
  show ?thesis
  proof (cases updated)
    case False
    with u have "st1 = st" by (auto simp: update_last_active_def split: option.splits if_splits)
    with u False assms(2) show ?thesis by (simp add: fire_rule_def)
  next
    case True
    then obtain last where l: "al_status st ?k = Some last" "\<forall>t. last = Some t \<longrightarrow> t \<le> now - frequency_of r"
        and st1: "st1 = st\<lparr>al_status := (al_status st)(?k := Some (Some now))\<rparr>"
      using u by (auto simp: update_last_active_def split: option.splits if_splits)
    have past: "fi_time f + frequency_of r \<le> now" if "f \<in> set (al_history st)" "fi_rule f = ru_id r" "fi_issue f = is_id (ev_group ev)" for f
      using that assms(2) l unfolding spaced_def by fastforce
    have "snd (fire_rule after r ev now st) = record_history r ev now st1" using u True by (simp add: fire_rule_def)
    moreover have "spaced (record_history r ev now st1)"
      using assms past unfolding spaced_def record_history_def st1
      by (auto simp: sorted_wrt_append) (use past assms(1) in fastforce)
    ultimately show ?thesis by simp
  qed
qed

lemma apply_rule_store:
  "snd (apply_rule after an env state ev r last_active now pushed fs st) =
     (case decide_rule an env state ev r last_active now of
        Skip \<Rightarrow> st | Defer \<Rightarrow> enqueue_rule r ev pushed st | Activate \<Rightarrow> snd (fire_rule after r ev now st))"
  by (simp add: apply_rule_def split: rule_decision.split prod.split option.split sum.split)

text \<open>The buffer and the tasks touch neither the statuses nor the history.\<close>

lemma buffer_frame:
  "al_history (push_to_hash k f v st) = al_history st" "al_status (push_to_hash k f v st) = al_status st"
  "al_history (push_to_sorted_set p t st) = al_history st" "al_status (push_to_sorted_set p t st) = al_status st"
  "al_history (delete_hash k names st) = al_history st" "al_status (delete_hash k names st) = al_status st"
  "al_history (delete_due t st) = al_history st" "al_status (delete_due t st) = al_status st"
  "al_history (start_task i found st) = al_history st" "al_status (start_task i found st) = al_status st"
  "al_history (end_worker j out st) = al_history st" "al_status (end_worker j out st) = al_status st"
  "al_history (crash_task j st) = al_history st" "al_status (crash_task j st) = al_status st"
  "al_history (new_batch p d st) = al_history st" "al_status (new_batch p d st) = al_status st"
  by (simp_all add: push_to_hash_def push_to_sorted_set_def delete_hash_def delete_due_def start_task_def end_worker_def
      crash_task_def new_batch_def push_to_hash_bulk_def Let_def split: prod.split)

lemma enqueue_frame:
  "al_history (enqueue_rule r ev t st) = al_history st" "al_status (enqueue_rule r ev t st) = al_status st"
  "al_history (enqueue_field r ev st) = al_history st" "al_status (enqueue_field r ev st) = al_status st"
  "i < length (enqueue_writes r ev t) \<Longrightarrow> al_history ((enqueue_writes r ev t ! i) st) = al_history st"
  "i < length (enqueue_writes r ev t) \<Longrightarrow> al_status ((enqueue_writes r ev t ! i) st) = al_status st"
  by (simp_all add: enqueue_rule_def enqueue_writes_def enqueue_field_def buffer_frame nth_Cons split: nat.splits)

lemma batches_frame:
  "al_history (process_rulegroups_in_batches n p st) = al_history st"
  "al_status (process_rulegroups_in_batches n p st) = al_status st"
proof -
  have "al_history (foldl (\<lambda>st b. new_batch p b st) st bs) = al_history st
      \<and> al_status (foldl (\<lambda>st b. new_batch p b st) st bs) = al_status st" for bs
    by (induction bs arbitrary: st) (simp_all add: buffer_frame)
  then show "al_history (process_rulegroups_in_batches n p st) = al_history st"
    "al_status (process_rulegroups_in_batches n p st) = al_status st"
    by (simp_all add: process_rulegroups_in_batches_def)
qed

lemma spaced_send: "spaced (send_futures event fs st) = spaced st"
  by (rule spaced_cong) (simp_all add: send_futures_def)

lemma to_fire_rules: "delayed_decision de data = Inr to_fire \<Longrightarrow> (r, issues) \<in> set to_fire \<Longrightarrow>
    r \<in> set (fetch_alert_rules (de_table de) (de_snoozed de) data)"
  by (auto simp: delayed_decision_def get_rules_to_fire_def bind_result_Inr_iff Let_def split: if_splits)

lemma spaced_finish:
  assumes "list_all patient_rule (de_table de)" "spaced st"
  shows "spaced (snd (finish_delayed de p b data st))"
proof (cases "delayed_decision de data")
  case (Inl e)
  with assms(2) show ?thesis by (simp add: finish_delayed_def)
next
  case (Inr to_fire)
  let ?ids = "map ru_id (fetch_alert_rules (de_table de) (de_snoozed de) data)"
  have "spaced (snd (fire_rules (de_after de) (de_lookups de) data ?ids (de_now de) to_fire st))"
  proof (rule fire_rules_keeps [OF spaced_bulk _ _ assms(2)])
    show "spaced (snd (fire_rule (de_after de) r ev (de_now de) st))" if "(r, issues) \<in> set to_fire" "spaced st" for r issues ev st
    proof -
      have "r \<in> set (de_table de)" using to_fire_rules [OF Inr that(1)] by (auto simp: fetch_alert_rules_def)
      then have "0 \<le> frequency_of r" using assms(1) by (auto simp: list_all_iff intro: patient_frequency)
      then show ?thesis by (rule spaced_fire [OF _ that(2)])
    qed
  qed (simp_all add: spaced_send)
  then show ?thesis
    by (auto simp: finish_delayed_def Inr cleanup_redis_buffer_def spaced_def buffer_frame split: prod.split option.split)
qed

lemma spaced_step: "patient_event e \<Longrightarrow> spaced (ar_store s) \<Longrightarrow> spaced (ar_store (alert_step s e))"
proof (induction s e rule: alert_step.induct)
  case (1 s rules issue)
  then show ?case by (simp add: spaced_bulk)
next
  case (3 s after an env state ev r last_active now pushed)
  then have "0 \<le> frequency_of r" by (simp add: patient_frequency)
  from spaced_fire [OF this 3(2)] 3(2) show ?case
    by (cases "decide_rule an env state ev r last_active now")
      (simp_all add: try_rule_def apply_rule_store spaced_def enqueue_frame)
next
  case (9 s j de)
  then have f: "spaced (snd (finish_delayed de p b data (ar_store s)))" for p b data by (simp add: spaced_finish)
  show ?case
  proof (cases "j < length (al_workers (ar_store s)) \<and> dw_state (al_workers (ar_store s) ! j) = Running")
    case True
    let ?w = "al_workers (ar_store s) ! j"
    obtain e st where e: "finish_delayed de (dw_project ?w) (dw_batch ?w) (dw_data ?w) (ar_store s) = (e, st)" by (metis surj_pair)
    then have "spaced st" using f [of "dw_project ?w" "dw_batch ?w" "dw_data ?w"] by simp
    with True e show ?thesis by (simp add: finish_task_def Let_def spaced_def buffer_frame split: option.split)
  qed (use 9(2) in \<open>auto simp: finish_task_def\<close>)
qed (auto simp: spaced_def buffer_frame enqueue_frame batches_frame split: option.split list.split)

interpretation alert_frequency: step_machine "\<lambda>s e. if patient_event e then alert_step s e else s" "\<lambda>s. spaced (ar_store s)"
  by unfold_locales (simp add: spaced_step)

lemma patient_run: "list_all patient_event es \<Longrightarrow> foldl (\<lambda>s e. if patient_event e then alert_step s e else s) s es = foldl alert_step s es"
  by (induction es arbitrary: s) simp_all

text \<open>
  C10. A rule does not fire twice for an issue within its frequency: however workers, deferred evaluations, stale
  caches and failing tasks interleave, the firings of one rule for one issue lie at least the frequency of the
  rule apart.
\<close>

theorem alerts_respect_frequency:
  assumes "list_all patient_event es"
  shows "sorted_wrt (\<lambda>a b. fi_rule a = fi_rule b \<and> fi_issue a = fi_issue b \<longrightarrow> fi_frequency b \<le> fi_time b - fi_time a)
    (al_history (ar_store (alert_run_of es)))"
proof -
  have "spaced (ar_store (alert_run_of es))"
    using alert_frequency.run_inv [of first_run es] by (simp add: patient_run [OF assms] first_run_def no_alerts_def spaced_def)
  then have "sorted_wrt (\<lambda>a b. fi_rule a = fi_rule b \<and> fi_issue a = fi_issue b \<longrightarrow> fi_time a + fi_frequency b \<le> fi_time b)
      (al_history (ar_store (alert_run_of es)))" by (simp add: spaced_def)
  then show ?thesis by (rule sorted_wrt_mono_rel [rotated]) (simp add: algebra_simps)
qed

section \<open>No deferred rule is forgotten\<close>

definition handled_by :: "delayed_worker \<Rightarrow> nat \<Rightarrow> nat option \<Rightarrow> nat \<times> nat \<Rightarrow> bool" where
  "handled_by w p b f = (dw_project w = p \<and> dw_batch w = b \<and> f \<in> fst ` set (dw_data w))"

definition scheduled :: "alert_run \<Rightarrow> nat \<Rightarrow> nat option \<Rightarrow> nat \<times> nat \<Rightarrow> bool" where
  \<comment> \<open>a task is queued or at work on the entry, or the project is waiting for a flush or for its turn in one\<close>
  "scheduled s p b f =
     ((p, b) \<in> set (al_tasks (ar_store s))
      \<or> (\<exists>w \<in> set (al_workers (ar_store s)). dw_state w = Running \<and> handled_by w p b f)
      \<or> b = None \<and>
         (case ar_flush s of
            None \<Rightarrow> dict_get (al_projects (ar_store s)) p \<noteq> None
          | Some (t, ps) \<Rightarrow> p \<in> set ps \<or> (\<exists>u. dict_get (al_projects (ar_store s)) p = Some u \<and> \<not> (0 \<le> u \<and> u \<le> t))))"

definition all_scheduled :: "alert_run \<Rightarrow> bool" where
  "all_scheduled s = (\<forall>p b f. f \<in> fst ` set (al_hash (ar_store s) (p, b)) \<longrightarrow> scheduled s p b f)"

text \<open>
  The hypotheses: rules are deferred in one step, by a clock that is ahead of a flush under way; batches are not
  empty; tasks find their project, do not die, and evaluate rules whose intervals are known and
  whose actions do not raise.
\<close>

definition calm :: "delayed_env \<Rightarrow> bool" where
  "calm de = ((\<forall>a fs. de_after de a \<noteq> Yields fs True)
     \<and> (\<forall>r \<in> set (de_table de). \<forall>d \<in> set (get_slow_conditions r). map_of (class_intervals (fc_class d)) (fc_interval d) \<noteq> None))"

fun smooth_event :: "alert_run \<Rightarrow> alert_event \<Rightarrow> bool" where
  "smooth_event s (TryRule after an env state ev r last_active now pushed) =
     (case ar_flush s of None \<Rightarrow> True | Some (t, _) \<Rightarrow> t < pushed)"
| "smooth_event s (EnqueueWrite i r ev time) = False"
| "smooth_event s (FlushProject n) = (0 < n)"
| "smooth_event s (TaskStart i found) = found"
| "smooth_event s (TaskEnd j de) = calm de"
| "smooth_event s (TaskCrash j) = False"
| "smooth_event s _ = True"

fun smooth :: "alert_run \<Rightarrow> alert_event list \<Rightarrow> bool" where
  "smooth s [] = True"
| "smooth s (e # es) = (smooth_event s e \<and> smooth (alert_step s e) es)"

lemma query_results_known:
  assumes "\<And>q d ids. (q, d, ids) \<in> set groups \<Longrightarrow> map_of (class_intervals (uq_class q)) (uq_interval q) \<noteq> None"
  shows "\<exists>results. get_condition_group_results ct cached rows now groups = Inr results"
  using assms
proof (induction groups)
  case (Cons c groups)
  obtain q d ids where c: "c = (q, d, ids)" by (metis prod_cases3)
  obtain duration where "map_of (class_intervals (uq_class q)) (uq_interval q) = Some duration" using Cons.prems [of q d ids] by (auto simp: c)
  moreover obtain results where "get_condition_group_results ct cached rows now groups = Inr results"
    using Cons.IH Cons.prems by (metis list.set_intros(2))
  ultimately show ?case by (simp add: c query_result_def Let_def)
qed simp

definition known_queries :: "query_groups \<Rightarrow> bool" where
  "known_queries groups = (\<forall>(q, _) \<in> set groups. map_of (class_intervals (uq_class q)) (uq_interval q) \<noteq> None)"

lemma known_add: "known_queries groups \<Longrightarrow> map_of (class_intervals (uq_class q)) (uq_interval q) \<noteq> None \<Longrightarrow>
    known_queries (add_query issues d groups q)"
  by (auto simp: known_queries_def add_query_def split: option.split dest!: subsetD [OF dict_set_subset])

lemma known_add_all:
  "known_queries groups \<Longrightarrow> \<forall>q \<in> set qs. map_of (class_intervals (uq_class q)) (uq_interval q) \<noteq> None \<Longrightarrow>
     known_queries (foldl (add_query issues d) groups qs)"
  by (induction qs arbitrary: groups) (simp_all add: known_add)

lemma known_rule:
  assumes "\<forall>d \<in> set (get_slow_conditions r). map_of (class_intervals (fc_class d)) (fc_interval d) \<noteq> None"
  shows "known_queries groups \<Longrightarrow> known_queries (add_rule_queries rtg groups r)"
proof -
  have "known_queries (foldl (\<lambda>groups d. foldl (add_query (rtg (ru_id r)) d) groups (generate_unique_queries d (ru_environment r))) groups ds)"
    if "known_queries groups" "\<forall>d \<in> set ds. map_of (class_intervals (fc_class d)) (fc_interval d) \<noteq> None" for ds groups
    using that
  proof (induction ds arbitrary: groups)
    case (Cons d ds)
    have "known_queries (foldl (add_query (rtg (ru_id r)) d) groups (generate_unique_queries d (ru_environment r)))"
      by (rule known_add_all [OF Cons.prems(1)]) (use Cons.prems(2) query_interval in fastforce)
    with Cons show ?case by simp
  qed simp
  with assms show "known_queries groups \<Longrightarrow> known_queries (add_rule_queries rtg groups r)"
    unfolding add_rule_queries_def by blast
qed

lemma known_rules:
  "\<forall>r \<in> set rules. \<forall>d \<in> set (get_slow_conditions r). map_of (class_intervals (fc_class d)) (fc_interval d) \<noteq> None \<Longrightarrow>
     known_queries (get_condition_query_groups rules rtg)"
proof -
  have "known_queries (foldl (add_rule_queries rtg) groups rules)"
    if "known_queries groups" "\<forall>r \<in> set rules. \<forall>d \<in> set (get_slow_conditions r). map_of (class_intervals (fc_class d)) (fc_interval d) \<noteq> None"
    for groups using that by (induction rules arbitrary: groups) (simp_all add: known_rule)
  moreover have "known_queries []" by (simp add: known_queries_def)
  ultimately show "\<forall>r \<in> set rules. \<forall>d \<in> set (get_slow_conditions r). map_of (class_intervals (fc_class d)) (fc_interval d) \<noteq> None \<Longrightarrow>
     known_queries (get_condition_query_groups rules rtg)"
    unfolding get_condition_query_groups_def by blast
qed

lemma calm_decides: "calm de \<Longrightarrow> \<exists>to_fire. delayed_decision de data = Inr to_fire"
proof -
  assume c: "calm de"
  let ?rules = "fetch_alert_rules (de_table de) (de_snoozed de) data"
  have "known_queries (get_condition_query_groups ?rules (get_rules_to_groups data))"
    by (rule known_rules) (use c in \<open>auto simp: calm_def fetch_alert_rules_def\<close>)
  then have "\<exists>results. get_condition_group_results (de_counts de) (de_cached de) (de_rows de) (de_time de)
      (get_condition_query_groups ?rules (get_rules_to_groups data)) = Inr results"
    by (intro query_results_known) (auto simp: known_queries_def)
  then show ?thesis by (auto simp: delayed_decision_def Let_def)
qed

lemma calm_actions: "(\<forall>a fs. after a \<noteq> Yields fs True) \<Longrightarrow> \<exists>fs. activate_actions after r as d = Inr fs"
proof (induction as arbitrary: d)
  case (Cons a as)
  then show ?case by (cases "after a") (auto simp: Let_def)
qed simp

lemma calm_fire_groups:
  "(\<forall>a fs. after a \<noteq> Yields fs True) \<Longrightarrow> ru_id r \<in> set ids \<Longrightarrow> fst (fire_groups after ids r now ges st) = None"
proof (induction ges arbitrary: st)
  case (Cons ge ges)
  obtain g ev where ge: "ge = (g, ev)" by (cases ge)
  obtain statuses st1 where b: "bulk_get_rule_status ids g st = (statuses, st1)" by (metis surj_pair)
  have "dict_get statuses (ru_id r) \<noteq> None"
    using b Cons.prems(2) by (auto simp: bulk_get_rule_status_def Let_def dict_get_map_keys)
  then obtain last where l: "dict_get statuses (ru_id r) = Some last" by blast
  obtain x st2 where f: "fire_rule after r ev now st1 = (x, st2)" by (metis surj_pair)
  have "x = None \<or> (\<exists>fs. x = Some (Inr fs))"
    using f calm_actions [OF Cons.prems(1)] by (auto simp: fire_rule_def activate_downstream_actions_def Let_def split: prod.splits if_splits)
  then show ?case using Cons.IH [OF Cons.prems] by (auto simp: ge b l f)
qed simp

lemma calm_fire_rules:
  "(\<forall>a fs. after a \<noteq> Yields fs True) \<Longrightarrow> \<forall>(r, issues) \<in> set to_fire. ru_id r \<in> set ids \<Longrightarrow>
     fst (fire_rules after lk parsed ids now to_fire st) = None"
proof (induction to_fire arbitrary: st)
  case (Cons x xs)
  obtain r issues where x: "x = (r, issues)" by (cases x)
  obtain st1 where "fire_groups after ids r now (get_group_to_groupevent lk parsed issues) st = (None, st1)"
    using calm_fire_groups [OF Cons.prems(1), of r ids] Cons.prems(2) by (metis (no_types, lifting) x case_prodD list.set_intros(1) prod.collapse)
  with Cons show ?case by (simp add: x)
qed simp

lemma calm_finish:
  assumes "calm de"
  obtains st1 where "finish_delayed de p b data st = (None, cleanup_redis_buffer p b data st1)"
    "al_hash st1 = al_hash st" "al_projects st1 = al_projects st" "al_tasks st1 = al_tasks st" "al_workers st1 = al_workers st"
    "al_batches st1 = al_batches st"
proof -
  obtain to_fire where d: "delayed_decision de data = Inr to_fire" using calm_decides [OF assms] by blast
  let ?rules = "fetch_alert_rules (de_table de) (de_snoozed de) data"
  let ?P = "\<lambda>s. al_hash s = al_hash st \<and> al_projects s = al_projects st \<and> al_tasks s = al_tasks st \<and> al_workers s = al_workers st
      \<and> al_batches s = al_batches st"
  obtain e st1 where f: "fire_rules (de_after de) (de_lookups de) data (map ru_id ?rules) (de_now de) to_fire st = (e, st1)"
    by (metis surj_pair)
  have "\<forall>(r, issues) \<in> set to_fire. ru_id r \<in> set (map ru_id ?rules)" using to_fire_rules [OF d] by auto
  then have "e = None" using calm_fire_rules [of "de_after de" to_fire "map ru_id ?rules"] assms f by (metis calm_def fst_conv)
  moreover have "?P (snd (fire_rules (de_after de) (de_lookups de) data (map ru_id ?rules) (de_now de) to_fire st))"
  proof (rule fire_rules_keeps [where P = ?P])
    show "?P (snd (fire_rule (de_after de) r ev (de_now de) s))" if "?P s" for r ev s
      using that fire_rule_frame [of "de_after de" r ev "de_now de" s] by (metis surj_pair snd_conv)
  qed (simp_all add: bulk_get_frame send_futures_def)
  ultimately show ?thesis using that d f by (simp add: finish_delayed_def)
qed

lemma all_scheduled_cong:
  assumes "all_scheduled s" "al_hash (ar_store s') = al_hash (ar_store s)" "al_projects (ar_store s') = al_projects (ar_store s)"
    "al_tasks (ar_store s') = al_tasks (ar_store s)" "al_workers (ar_store s') = al_workers (ar_store s)"
    "ar_flush s' = ar_flush s"
  shows "all_scheduled s'"
  using assms(1) unfolding all_scheduled_def scheduled_def assms(2-) .

text \<open>What a rule leaves in the buffer when it is deferred.\<close>

definition deferral_of :: "group_event \<Rightarrow> instance_data" where
  "deferral_of ev = \<lparr>in_event = Some (ev_id ev), in_occurrence = ev_occurrence ev\<rparr>"

lemma enqueue_rule_simps:
  "al_hash (enqueue_rule r ev pushed st) k = (if k = (ru_project r, None)
     then dict_set (ru_id r, is_id (ev_group ev)) (deferral_of ev) (al_hash st k) else al_hash st k)"
  "al_projects (enqueue_rule r ev pushed st) = dict_set (ru_project r) pushed (al_projects st)"
  "al_tasks (enqueue_rule r ev pushed st) = al_tasks st" "al_workers (enqueue_rule r ev pushed st) = al_workers st"
  "al_batches (enqueue_rule r ev pushed st) = al_batches st"
  by (simp_all add: enqueue_rule_def enqueue_writes_def enqueue_field_def push_to_hash_def push_to_sorted_set_def deferral_of_def)

lemma defer_keeps:
  assumes "all_scheduled s" "case ar_flush s of None \<Rightarrow> True | Some (t, _) \<Rightarrow> t < pushed"
    and "ar_store s' = enqueue_rule r ev pushed (ar_store s)" "ar_flush s' = ar_flush s"
  shows "all_scheduled s'"
proof -
  note st = enqueue_rule_simps [of r ev pushed "ar_store s", folded assms(3)]
  have mono: "scheduled s' p b f" if "scheduled s p b f" for p b f
    using that assms(2) unfolding scheduled_def assms(4) st by (auto split: option.splits)
  have new: "scheduled s' (ru_project r) None f" for f
    using assms(2) unfolding scheduled_def assms(4) st by (auto split: option.splits)
  show ?thesis
    unfolding all_scheduled_def
  proof (intro allI impI)
    fix p b f assume f: "f \<in> fst ` set (al_hash (ar_store s') (p, b))"
    show "scheduled s' p b f"
    proof (cases "(p, b) = (ru_project r, None)")
      case True
      then show ?thesis using new by simp
    next
      case False
      with f have "f \<in> fst ` set (al_hash (ar_store s) (p, b))" by (simp only: st(1) if_False)
      then have "scheduled s p b f" using assms(1) unfolding all_scheduled_def by blast
      then show ?thesis by (rule mono)
    qed
  qed
qed

lemma flush_start_keeps:
  assumes "all_scheduled s" "ar_flush s = None" "s' = s\<lparr>ar_flush := Some (t, due_projects t (ar_store s))\<rparr>"
  shows "all_scheduled s'"
proof -
  have "p \<in> set (due_projects t (ar_store s))" if "dict_get (al_projects (ar_store s)) p = Some u" "0 \<le> u" "u \<le> t" for p u
    using dict_get_in [OF that(1)] that(2,3) by (force simp: due_projects_def)
  then have "scheduled s' p b f" if "scheduled s p b f" for p b f
    using that assms(2) unfolding scheduled_def assms(3) by auto
  then show ?thesis using assms(1) unfolding all_scheduled_def assms(3) by simp
qed

lemma dict_get_filter: "dict_get d k = Some v \<Longrightarrow> P (k, v) \<Longrightarrow> dict_get (filter P d) k = Some v"
  by (induction d) (auto simp: dict_get_def split: if_splits)

lemma flush_end_keeps:
  assumes "all_scheduled s" "ar_flush s = Some (t, [])" "s' = s\<lparr>ar_store := delete_due t (ar_store s), ar_flush := None\<rparr>"
  shows "all_scheduled s'"
proof -
  have "dict_get (al_projects (delete_due t (ar_store s))) p \<noteq> None"
    if "dict_get (al_projects (ar_store s)) p = Some u" "\<not> (0 \<le> u \<and> u \<le> t)" for p u
    using dict_get_filter [OF that(1), of "\<lambda>(_, s). \<not> (0 \<le> s \<and> s \<le> t)"] that(2) by (simp add: delete_due_def)
  then have "scheduled s' p b f" if "scheduled s p b f" for p b f
    using that assms(2) unfolding scheduled_def assms(3) by (auto simp: delete_due_def)
  then show ?thesis using assms(1) unfolding all_scheduled_def assms(3) by (simp add: delete_due_def)
qed

text \<open>What the batches of a flush do to the buffer.\<close>

lemma delete_hash_keys: "fst ` set (al_hash (delete_hash k names st) k') =
    (if k' = k then fst ` set (al_hash st k) - set names else fst ` set (al_hash st k'))"
  by (force simp: delete_hash_def)

lemma dict_merge_keys: "fst ` set (dict_merge d e) = fst ` set d \<union> fst ` set e"
  by (induction d e rule: dict_merge.induct) (auto simp: dict_set_keys)

definition batched :: "nat \<Rightarrow> (nat \<times> nat) set \<Rightarrow> alert_store \<Rightarrow> alert_store \<Rightarrow> bool" where
  \<comment> \<open>some fields of a project were moved to batches with tasks of their own\<close>
  "batched p moved st st' =
     ((\<forall>q. fst ` set (al_hash st' (q, None)) = fst ` set (al_hash st (q, None)) - (if q = p then moved else {}))
      \<and> (\<forall>q b. fst ` set (al_hash st (q, Some b)) \<subseteq> fst ` set (al_hash st' (q, Some b)))
      \<and> (\<forall>q b f. f \<in> fst ` set (al_hash st' (q, Some b)) \<longrightarrow> f \<in> fst ` set (al_hash st (q, Some b)) \<or> (q, Some b) \<in> set (al_tasks st'))
      \<and> (\<forall>f \<in> moved. \<exists>b. f \<in> fst ` set (al_hash st' (p, Some b)))
      \<and> set (al_tasks st) \<subseteq> set (al_tasks st') \<and> al_projects st' = al_projects st \<and> al_workers st' = al_workers st)"

lemma batchedD:
  assumes "batched p moved st st'"
  shows "fst ` set (al_hash st' (q, None)) = fst ` set (al_hash st (q, None)) - (if q = p then moved else {})"
    and "fst ` set (al_hash st (q, Some b)) \<subseteq> fst ` set (al_hash st' (q, Some b))"
    and "f \<in> fst ` set (al_hash st' (q, Some b)) \<Longrightarrow> f \<in> fst ` set (al_hash st (q, Some b)) \<or> (q, Some b) \<in> set (al_tasks st')"
    and "f \<in> moved \<Longrightarrow> \<exists>b. f \<in> fst ` set (al_hash st' (p, Some b))"
    and "set (al_tasks st) \<subseteq> set (al_tasks st')" "al_projects st' = al_projects st" "al_workers st' = al_workers st"
proof -
  note c = assms [unfolded batched_def]
  show "fst ` set (al_hash st' (q, None)) = fst ` set (al_hash st (q, None)) - (if q = p then moved else {})"
    by (rule c [THEN conjunct1, THEN spec])
  note c = c [THEN conjunct2]
  show "fst ` set (al_hash st (q, Some b)) \<subseteq> fst ` set (al_hash st' (q, Some b))"
    by (rule c [THEN conjunct1, THEN spec, THEN spec])
  note c = c [THEN conjunct2]
  show "f \<in> fst ` set (al_hash st' (q, Some b)) \<Longrightarrow> f \<in> fst ` set (al_hash st (q, Some b)) \<or> (q, Some b) \<in> set (al_tasks st')"
    by (rule c [THEN conjunct1, THEN spec, THEN spec, THEN spec, THEN mp])
  note c = c [THEN conjunct2]
  show "f \<in> moved \<Longrightarrow> \<exists>b. f \<in> fst ` set (al_hash st' (p, Some b))" by (rule c [THEN conjunct1, THEN bspec])
  note c = c [THEN conjunct2]
  show "set (al_tasks st) \<subseteq> set (al_tasks st')" "al_projects st' = al_projects st" "al_workers st' = al_workers st"
    using c by simp_all
qed

lemma new_batch_batched: "batched p (fst ` set d) st (new_batch p d st)"
proof -
  have h: "fst ` set (al_hash (new_batch p d st) k) =
      (if k = (p, None) then fst ` set (al_hash st k) - fst ` set d
       else if k = (p, Some (al_batches st)) then fst ` set (al_hash st k) \<union> fst ` set d else fst ` set (al_hash st k))" for k
    by (auto simp: new_batch_def Let_def delete_hash_keys push_to_hash_bulk_def dict_merge_keys)
  have t: "al_tasks (new_batch p d st) = al_tasks st @ [(p, Some (al_batches st))]"
    "al_projects (new_batch p d st) = al_projects st" "al_workers (new_batch p d st) = al_workers st"
    by (simp_all add: new_batch_def Let_def delete_hash_def push_to_hash_bulk_def)
  show ?thesis unfolding batched_def h t by auto
qed

lemma batched_trans:
  assumes "batched p a st1 st2" "batched p b st2 st3"
  shows "batched p (a \<union> b) st1 st3"
proof -
  note one = batchedD [OF assms(1)] and two = batchedD [OF assms(2)]
  show ?thesis
    unfolding batched_def
  proof (intro conjI allI impI ballI)
    show "fst ` set (al_hash st3 (q, None)) = fst ` set (al_hash st1 (q, None)) - (if q = p then a \<union> b else {})" for q
      unfolding two(1) one(1) by auto
    show "fst ` set (al_hash st1 (q, Some c)) \<subseteq> fst ` set (al_hash st3 (q, Some c))" for q c
      using one(2) two(2) by (rule subset_trans)
    show "f \<in> fst ` set (al_hash st1 (q, Some c)) \<or> (q, Some c) \<in> set (al_tasks st3)" if "f \<in> fst ` set (al_hash st3 (q, Some c))" for q c f
      using two(3) [OF that] one(3) two(5) by blast
    show "\<exists>c. f \<in> fst ` set (al_hash st3 (p, Some c))" if "f \<in> a \<union> b" for f
      using that one(4) two(2,4) by blast
    show "set (al_tasks st1) \<subseteq> set (al_tasks st3)" using one(5) two(5) by (rule subset_trans)
  qed (simp_all add: one two)
qed

lemma batches_batched: "batched p (\<Union>d \<in> set ds. fst ` set d) st (foldl (\<lambda>st d. new_batch p d st) st ds)"
proof (induction ds arbitrary: st)
  case Nil
  then show ?case by (simp add: batched_def)
next
  case (Cons d ds)
  from batched_trans [OF new_batch_batched [of p d st] Cons.IH [of "new_batch p d st"]] show ?case by simp
qed

lemma batched_keeps:
  assumes "all_scheduled s" "ar_flush s = Some (t, p # ps)" "batched p (fst ` set (al_hash (ar_store s) (p, None))) (ar_store s) st"
  shows "all_scheduled (s\<lparr>ar_store := st, ar_flush := Some (t, ps)\<rparr>)"
proof -
  let ?s = "s\<lparr>ar_store := st, ar_flush := Some (t, ps)\<rparr>" and ?h = "\<lambda>st k. fst ` set (al_hash st k)"
  note b = batchedD [OF assms(3)]
  have mono: "scheduled ?s q c f" if "scheduled s q c f" "q \<noteq> p \<or> c \<noteq> None" for q c f
    using that assms(2) b(5) unfolding scheduled_def by (auto simp: b(6,7))
  have "scheduled ?s q c f" if f: "f \<in> ?h st (q, c)" for q c f
  proof (cases c)
    case None
    with f have "q \<noteq> p" "f \<in> ?h (ar_store s) (q, c)" by (simp_all only: b(1)) (auto split: if_splits)
    moreover from this(2) have "scheduled s q c f" using assms(1) unfolding all_scheduled_def by blast
    ultimately show ?thesis by (intro mono) simp_all
  next
    case (Some b)
    with f b(3) consider "f \<in> ?h (ar_store s) (q, c)" | "(q, c) \<in> set (al_tasks st)" by blast
    then show ?thesis
    proof cases
      case 1
      with assms(1) have "scheduled s q c f" unfolding all_scheduled_def by blast
      then show ?thesis by (rule mono) (simp add: Some)
    qed (simp add: scheduled_def)
  qed
  then show ?thesis by (simp add: all_scheduled_def)
qed

lemma flush_project_keeps:
  assumes "all_scheduled s" "ar_flush s = Some (t, p # ps)" "0 < n"
  shows "all_scheduled (s\<lparr>ar_store := process_rulegroups_in_batches n p (ar_store s), ar_flush := Some (t, ps)\<rparr>)"
proof (cases "length (al_hash (ar_store s) (p, None)) < n")
  case True
  let ?s = "s\<lparr>ar_store := process_rulegroups_in_batches n p (ar_store s), ar_flush := Some (t, ps)\<rparr>"
  have st: "ar_store ?s = (ar_store s)\<lparr>al_tasks := al_tasks (ar_store s) @ [(p, None)]\<rparr>"
    using True by (simp add: process_rulegroups_in_batches_def)
  have "scheduled ?s q b f" if "scheduled s q b f" for q b f
    using that assms(2) unfolding scheduled_def st by auto
  then show ?thesis using assms(1) unfolding all_scheduled_def st by simp
next
  case False
  let ?ds = "chunked (al_hash (ar_store s) (p, None)) n"
  have "(\<Union>d \<in> set ds. fst ` set d) = fst ` set (concat ds)" for ds :: "(nat \<times> nat, instance_data) dict list"
    by (induction ds) (simp_all add: image_Un)
  then have "(\<Union>d \<in> set ?ds. fst ` set d) = fst ` set (concat ?ds)" .
  also have "\<dots> = fst ` set (al_hash (ar_store s) (p, None))" by simp
  finally have "batched p (fst ` set (al_hash (ar_store s) (p, None))) (ar_store s) (process_rulegroups_in_batches n p (ar_store s))"
    using batches_batched [of p ?ds "ar_store s"] False assms(3) by (simp add: process_rulegroups_in_batches_def)
  then show ?thesis by (rule batched_keeps [OF assms(1,2)])
qed

lemma all_scheduledD: "all_scheduled s \<Longrightarrow> f \<in> fst ` set (al_hash (ar_store s) (p, b)) \<Longrightarrow> scheduled s p b f"
  unfolding all_scheduled_def by blast

lemma start_task_keeps:
  assumes "all_scheduled s"
  shows "all_scheduled (on_store (start_task i True) s)"
proof (cases "i < length (al_tasks (ar_store s))")
  case True
  obtain p b where t: "al_tasks (ar_store s) ! i = (p, b)" by (metis surj_pair)
  let ?s = "on_store (start_task i True) s"
  have st: "al_hash (ar_store ?s) = al_hash (ar_store s)" "al_projects (ar_store ?s) = al_projects (ar_store s)"
      "al_tasks (ar_store ?s) = take i (al_tasks (ar_store s)) @ drop (Suc i) (al_tasks (ar_store s))"
      "al_workers (ar_store ?s) = al_workers (ar_store s) @ [\<lparr>dw_project = p, dw_batch = b,
         dw_data = al_hash (ar_store s) (p, b), dw_state = Running\<rparr>]" "ar_flush ?s = ar_flush s"
    using True by (simp_all add: start_task_def t)
  have tasks: "set (al_tasks (ar_store s)) \<subseteq> insert (p, b) (set (al_tasks (ar_store ?s)))"
    unfolding st(3) using id_take_nth_drop [OF True] t by (metis Un_insert_right list.simps(15) order_refl set_append)
  have "scheduled ?s q c f" if f: "f \<in> fst ` set (al_hash (ar_store s) (q, c))" for q c f
  proof (cases "(q, c) = (p, b)")
    case True
    with f show ?thesis unfolding scheduled_def st by (simp add: handled_by_def)
  next
    case False
    with all_scheduledD [OF assms f] tasks show ?thesis unfolding scheduled_def st(2,4,5) by auto
  qed
  then show ?thesis unfolding all_scheduled_def st(1) by simp
next
  case False
  then have "on_store (start_task i True) s = s" by (simp add: start_task_def)
  with assms show ?thesis by simp
qed

lemma finish_task_keeps:
  assumes "all_scheduled s" "calm de"
  shows "all_scheduled (on_store (finish_task j de) s)"
proof (cases "j < length (al_workers (ar_store s)) \<and> dw_state (al_workers (ar_store s) ! j) = Running")
  case True
  let ?w = "al_workers (ar_store s) ! j" and ?s = "on_store (finish_task j de) s"
  obtain st1 where f: "finish_delayed de (dw_project ?w) (dw_batch ?w) (dw_data ?w) (ar_store s)
        = (None, cleanup_redis_buffer (dw_project ?w) (dw_batch ?w) (dw_data ?w) st1)"
      and frame: "al_hash st1 = al_hash (ar_store s)" "al_projects st1 = al_projects (ar_store s)"
        "al_tasks st1 = al_tasks (ar_store s)" "al_workers st1 = al_workers (ar_store s)"
    by (rule calm_finish [OF assms(2)])
  have s: "ar_store ?s = end_worker j Finished (cleanup_redis_buffer (dw_project ?w) (dw_batch ?w) (dw_data ?w) st1)"
    using True by (simp add: finish_task_def Let_def f)
  have st: "al_projects (ar_store ?s) = al_projects (ar_store s)" "al_tasks (ar_store ?s) = al_tasks (ar_store s)"
      "al_workers (ar_store ?s) = (al_workers (ar_store s))[j := ?w\<lparr>dw_state := Finished\<rparr>]" "ar_flush ?s = ar_flush s"
    unfolding s by (simp_all add: end_worker_def cleanup_redis_buffer_def delete_hash_def frame)
  have h: "fst ` set (al_hash (ar_store ?s) k) =
      (if k = (dw_project ?w, dw_batch ?w) then fst ` set (al_hash (ar_store s) k) - fst ` set (dw_data ?w)
       else fst ` set (al_hash (ar_store s) k))" for k
    unfolding s by (simp add: end_worker_def cleanup_redis_buffer_def delete_hash_keys frame)
  have others: "\<exists>v \<in> set (al_workers (ar_store ?s)). P v" if "v \<in> set (al_workers (ar_store s))" "v \<noteq> ?w" "P v" for v P
    unfolding st(3) using that True by (metis in_set_conv_nth length_list_update nth_list_update_neq)
  have "scheduled ?s q c g" if g: "g \<in> fst ` set (al_hash (ar_store ?s) (q, c))" for q c g
  proof -
    have old: "g \<in> fst ` set (al_hash (ar_store s) (q, c))" "\<not> handled_by ?w q c g"
      using g unfolding h handled_by_def by (auto split: if_splits)
    from all_scheduledD [OF assms(1) old(1)] show ?thesis
      using others [of _ "\<lambda>v. dw_state v = Running \<and> handled_by v q c g"] old(2) unfolding scheduled_def st(1,2,4) by blast
  qed
  then show ?thesis unfolding all_scheduled_def by blast
next
  case False
  then have "on_store (finish_task j de) s = s" by (auto simp: finish_task_def)
  with assms(1) show ?thesis by simp
qed

lemma fire_rule_frame_snd:
  "al_hash (snd (fire_rule after r ev now st)) = al_hash st" "al_projects (snd (fire_rule after r ev now st)) = al_projects st"
  "al_tasks (snd (fire_rule after r ev now st)) = al_tasks st" "al_workers (snd (fire_rule after r ev now st)) = al_workers st"
  using fire_rule_frame [of after r ev now st] by (metis surj_pair snd_conv)+

lemma all_scheduled_step: "smooth_event s e \<Longrightarrow> all_scheduled s \<Longrightarrow> all_scheduled (alert_step s e)"
proof (induction s e rule: alert_step.induct)
  case (3 s after an env state ev r last_active now pushed)
  show ?case
  proof (cases "decide_rule an env state ev r last_active now")
    case Defer
    then show ?thesis
      by (intro defer_keeps [OF 3(2), of pushed _ r ev]) (use 3(1) in \<open>simp_all add: try_rule_def apply_rule_store\<close>)
  qed (rule all_scheduled_cong [OF 3(2)]; simp add: try_rule_def apply_rule_store fire_rule_frame_snd)+
next
  case (5 s t)
  show ?case
  proof (cases "ar_flush s")
    case None
    with flush_start_keeps [OF 5(2) None] show ?thesis by simp
  qed (use 5(2) in simp)
next
  case (6 s n)
  show ?case
  proof (cases "\<exists>t p ps. ar_flush s = Some (t, p # ps)")
    case True
    then obtain t p ps where f: "ar_flush s = Some (t, p # ps)" by blast
    with flush_project_keeps [OF 6(2) f] 6(1) show ?thesis by simp
  next
    case False
    then have "alert_step s (FlushProject n) = s" by (auto split: option.split list.split)
    with 6(2) show ?thesis by simp
  qed
next
  case (7 s)
  show ?case
  proof (cases "\<exists>t. ar_flush s = Some (t, [])")
    case True
    then obtain t where f: "ar_flush s = Some (t, [])" by blast
    with flush_end_keeps [OF 7(2) f] show ?thesis by simp
  next
    case False
    then have "alert_step s FlushEnd = s" by (auto split: option.split list.split)
    with 7(2) show ?thesis by simp
  qed
next
  case (8 s i found)
  then show ?case using start_task_keeps [OF 8(2), of i] by simp
next
  case (9 s j de)
  then show ?case using finish_task_keeps [OF 9(2), of de j] by simp
qed (auto intro: all_scheduled_cong simp: bulk_get_frame)

lemma all_scheduled_run: "smooth s es \<Longrightarrow> all_scheduled s \<Longrightarrow> all_scheduled (foldl alert_step s es)"
  by (induction es arbitrary: s) (simp_all add: all_scheduled_step)

section \<open>What was deferred is evaluated with its data\<close>

text \<open>Batches are numbered apart, and a hash holds a field once.\<close>

definition buffer_ok :: "alert_store \<Rightarrow> bool" where
  "buffer_ok st =
     ((\<forall>k. dict_wf (al_hash st k))
      \<and> (\<forall>q b. al_hash st (q, Some b) \<noteq> [] \<or> (q, Some b) \<in> set (al_tasks st) \<longrightarrow> b < al_batches st)
      \<and> (\<forall>w \<in> set (al_workers st). \<forall>b. dw_batch w = Some b \<longrightarrow> b < al_batches st))"

definition evaluated :: "nat \<Rightarrow> nat \<Rightarrow> nat \<times> nat \<Rightarrow> instance_data \<Rightarrow> alert_store \<Rightarrow> bool" where
  \<comment> \<open>a task that started as the \<open>n\<close>-th or later has read the field with its data and has come to its end\<close>
  "evaluated n p f v st =
     list_ex (\<lambda>w. dw_state w = Finished \<and> dw_project w = p \<and> dict_get (dw_data w) f = Some v) (drop n (al_workers st))"

definition harmless :: "nat \<Rightarrow> nat \<Rightarrow> nat option \<Rightarrow> nat \<times> nat \<Rightarrow> instance_data \<Rightarrow> alert_store \<Rightarrow> bool" where
  \<comment> \<open>whoever will delete the field when it ends has read it with its data\<close>
  "harmless n p c f v st =
     (\<forall>j < length (al_workers st). let w = al_workers st ! j in
        dw_state w = Running \<and> dw_project w = p \<and> dw_batch w = c \<and> dict_get (dw_data w) f \<noteq> None \<longrightarrow>
        n \<le> j \<and> dict_get (dw_data w) f = Some v)"

definition carried :: "nat \<Rightarrow> nat \<Rightarrow> nat \<times> nat \<Rightarrow> instance_data \<Rightarrow> alert_store \<Rightarrow> bool" where
  "carried n p f v st =
     (n \<le> length (al_workers st) \<and>
      (evaluated n p f v st \<or> (\<exists>c. dict_get (al_hash st (p, c)) f = Some v \<and> harmless n p c f v st)))"

lemma evaluated_iff:
  "evaluated n p f v st \<longleftrightarrow>
     (\<exists>j. n \<le> j \<and> j < length (al_workers st) \<and> dw_state (al_workers st ! j) = Finished \<and> dw_project (al_workers st ! j) = p
        \<and> dict_get (dw_data (al_workers st ! j)) f = Some v)"
proof
  assume "evaluated n p f v st"
  then obtain m where "m < length (al_workers st) - n" "dw_state (al_workers st ! (n + m)) = Finished"
    "dw_project (al_workers st ! (n + m)) = p" "dict_get (dw_data (al_workers st ! (n + m))) f = Some v"
    by (auto simp: evaluated_def list_ex_length)
  then show "\<exists>j. n \<le> j \<and> j < length (al_workers st) \<and> dw_state (al_workers st ! j) = Finished \<and> dw_project (al_workers st ! j) = p
        \<and> dict_get (dw_data (al_workers st ! j)) f = Some v" by (intro exI [of _ "n + m"]) simp
next
  assume "\<exists>j. n \<le> j \<and> j < length (al_workers st) \<and> dw_state (al_workers st ! j) = Finished \<and> dw_project (al_workers st ! j) = p
        \<and> dict_get (dw_data (al_workers st ! j)) f = Some v"
  then obtain j where "n \<le> j" "j < length (al_workers st)" "dw_state (al_workers st ! j) = Finished" "dw_project (al_workers st ! j) = p"
    "dict_get (dw_data (al_workers st ! j)) f = Some v" by blast
  then show "evaluated n p f v st" unfolding evaluated_def list_ex_length
    by (intro exI [of _ "j - n"]) simp
qed

lemma harmless_cong: "al_workers st' = al_workers st \<Longrightarrow> harmless n p c f v st' = harmless n p c f v st"
  by (simp add: harmless_def)

lemma carried_keep:
  assumes "carried n p f v st" "al_workers st' = al_workers st"
    and "\<And>c. dict_get (al_hash st (p, c)) f = Some v \<Longrightarrow> dict_get (al_hash st' (p, c)) f = Some v"
  shows "carried n p f v st'"
  using assms(1,3) unfolding carried_def evaluated_iff harmless_cong [OF assms(2)] assms(2) by blast

lemma buffer_ok_cong:
  "al_hash st' = al_hash st \<Longrightarrow> al_tasks st' = al_tasks st \<Longrightarrow> al_workers st' = al_workers st \<Longrightarrow> al_batches st' = al_batches st \<Longrightarrow>
     buffer_ok st' = buffer_ok st"
  by (simp add: buffer_ok_def)

lemma dict_get_None_key: "dict_get d f = None \<longleftrightarrow> f \<notin> fst ` set d"
  by (simp add: dict_get_def map_of_eq_None_iff)

lemma dict_get_key: "dict_get d f = Some v \<Longrightarrow> f \<in> fst ` set d"
  using dict_get_None_key [of d f] by simp

text \<open>A batch takes the fields of the project along with their data.\<close>

lemma new_batch_simps:
  "al_tasks (new_batch q d st) = al_tasks st @ [(q, Some (al_batches st))]" "al_workers (new_batch q d st) = al_workers st"
  "al_batches (new_batch q d st) = Suc (al_batches st)" "al_projects (new_batch q d st) = al_projects st"
  "al_hash (new_batch q d st) k =
     (if k = (q, None) then filter (\<lambda>(f, _). f \<notin> fst ` set d) (al_hash st k)
      else if k = (q, Some (al_batches st)) then dict_merge (al_hash st k) d else al_hash st k)"
  by (auto simp: new_batch_def Let_def push_to_hash_bulk_def delete_hash_def)

lemma new_batch_ok: "buffer_ok st \<Longrightarrow> buffer_ok (new_batch q d st)"
  unfolding buffer_ok_def new_batch_simps by (auto simp: distinct_map_filter less_Suc_eq split: if_splits)

lemma new_batch_carries:
  assumes ok: "buffer_ok st" and c: "carried n p f v st" and d: "dict_wf d"
    and part: "\<And>f x. (f, x) \<in> set d \<Longrightarrow> dict_get (al_hash st (q, None)) f = Some x"
  shows "carried n p f v (new_batch q d st)"
proof (cases "evaluated n p f v st")
  case True
  with c show ?thesis by (simp add: carried_def evaluated_iff new_batch_simps)
next
  case False
  with c obtain c where h: "dict_get (al_hash st (p, c)) f = Some v" "harmless n p c f v st" "n \<le> length (al_workers st)"
    by (auto simp: carried_def)
  let ?st = "new_batch q d st" and ?b = "Some (al_batches st)"
  have same: "harmless n p c f v ?st = harmless n p c f v st" by (rule harmless_cong) (simp add: new_batch_simps)
  show ?thesis
  proof (cases "q = p \<and> c = None \<and> f \<in> fst ` set d")
    case True
    then obtain x where x: "(f, x) \<in> set d" by auto
    with part [OF x] True h(1) have "dict_get d f = Some v" using d by (simp add: dict_get_wf)
    then have "dict_get (al_hash ?st (p, ?b)) f = Some v" using True d by (simp add: new_batch_simps dict_get_merge)
    moreover have "\<forall>w \<in> set (al_workers st). dw_batch w \<noteq> ?b" using ok by (auto simp: buffer_ok_def)
    then have "harmless n p ?b f v ?st" by (auto simp: harmless_def new_batch_simps)
    ultimately show ?thesis using h(3) by (auto simp: carried_def new_batch_simps)
  next
    case False
    have "al_hash st (p, ?b) = []" using ok unfolding buffer_ok_def by blast
    then have "c \<noteq> ?b" using h(1) by auto
    moreover have "dict_get (filter (\<lambda>(f, _). f \<notin> fst ` set d) (al_hash st (p, c))) f = Some v" if "q = p \<and> c = None"
      using that False by (intro dict_get_filter [OF h(1)]) simp
    ultimately have "dict_get (al_hash ?st (p, c)) f = Some v"
      using h(1) unfolding new_batch_simps by (auto simp only: if_True if_False prod.inject split: if_split)
    with h(2,3) same have "dict_get (al_hash ?st (p, c)) f = Some v \<and> harmless n p c f v ?st" by simp
    with h(3) show ?thesis unfolding carried_def new_batch_simps(2) by blast
  qed
qed

lemma batches_carry:
  assumes "buffer_ok st" "carried n p f v st" "dict_wf (concat ds)"
    and "\<And>f x. (f, x) \<in> set (concat ds) \<Longrightarrow> dict_get (al_hash st (q, None)) f = Some x"
  shows "carried n p f v (foldl (\<lambda>st d. new_batch q d st) st ds)"
  using assms
proof (induction ds arbitrary: st)
  case (Cons d ds)
  have wf: "dict_wf d" "dict_wf (concat ds)" and apart: "fst ` set d \<inter> fst ` set (concat ds) = {}"
    using Cons.prems(3) by auto
  have "carried n p f v (new_batch q d st)"
    by (rule new_batch_carries [OF Cons.prems(1,2) wf(1)]) (use Cons.prems(4) in simp)
  moreover have "dict_get (al_hash (new_batch q d st) (q, None)) g = Some x" if "(g, x) \<in> set (concat ds)" for g x
  proof -
    have "g \<notin> fst ` set d" using apart that by force
    moreover have "dict_get (al_hash st (q, None)) g = Some x" using Cons.prems(4) that by simp
    ultimately show ?thesis by (simp add: new_batch_simps dict_get_filter)
  qed
  ultimately show ?case using Cons.IH [OF new_batch_ok [OF Cons.prems(1)] _ wf(2)] by simp
qed simp

lemma process_batches_ok:
  assumes "buffer_ok st"
  shows "buffer_ok (process_rulegroups_in_batches m q st)"
proof -
  have "buffer_ok (foldl (\<lambda>st d. new_batch q d st) st ds)" for ds
    using assms by (induction ds arbitrary: st) (simp_all add: new_batch_ok)
  moreover have "buffer_ok (st\<lparr>al_tasks := al_tasks st @ [(q, None)]\<rparr>)" using assms by (simp add: buffer_ok_def)
  ultimately show ?thesis by (simp add: process_rulegroups_in_batches_def)
qed

lemma process_batches_carries:
  assumes "buffer_ok st" "carried n p f v st"
  shows "carried n p f v (process_rulegroups_in_batches m q st)"
proof (cases "length (al_hash st (q, None)) < m")
  case True
  then have e: "process_rulegroups_in_batches m q st = st\<lparr>al_tasks := al_tasks st @ [(q, None)]\<rparr>"
    by (simp add: process_rulegroups_in_batches_def)
  have "carried n p f v (st\<lparr>al_tasks := al_tasks st @ [(q, None)]\<rparr>)" by (rule carried_keep [OF assms(2)]) simp_all
  then show ?thesis unfolding e .
next
  case False
  show ?thesis
  proof (cases "m = 0")
    case m: False
    let ?ds = "chunked (al_hash st (q, None)) m"
    have "concat ?ds = al_hash st (q, None)" by simp
    moreover have wf: "dict_wf (al_hash st (q, None))" using assms(1) by (simp add: buffer_ok_def)
    ultimately show ?thesis
      using batches_carry [OF assms, of ?ds q] False m by (simp add: process_rulegroups_in_batches_def dict_get_wf)
  qed (use assms False in \<open>simp add: process_rulegroups_in_batches_def\<close>)
qed

lemma start_task_cases:
  obtains "start_task i found st = st"
  | tasks where "set tasks \<subseteq> set (al_tasks st)" "start_task i found st = st\<lparr>al_tasks := tasks\<rparr>"
  | q b tasks where "set tasks \<subseteq> set (al_tasks st)" "(q, b) \<in> set (al_tasks st)"
      "start_task i found st = st\<lparr>al_tasks := tasks, al_workers := al_workers st @
         [\<lparr>dw_project = q, dw_batch = b, dw_data = al_hash st (q, b), dw_state = Running\<rparr>]\<rparr>"
proof (cases "i < length (al_tasks st)")
  case True
  obtain q b where t: "al_tasks st ! i = (q, b)" by (metis surj_pair)
  have m: "(q, b) \<in> set (al_tasks st)" using True t by (metis nth_mem)
  have sub: "set (take i (al_tasks st) @ drop (Suc i) (al_tasks st)) \<subseteq> set (al_tasks st)" by (auto dest: in_set_takeD in_set_dropD)
  show thesis
  proof (cases found)
    case False
    then show thesis using True by (intro that(2) [OF sub]) (simp add: start_task_def t)
  next
    case found: True
    then show thesis using True by (intro that(3) [OF sub m]) (simp add: start_task_def t)
  qed
qed (rule that(1), simp add: start_task_def)

lemma buffer_ok_tasks: "buffer_ok st \<Longrightarrow> set tasks \<subseteq> set (al_tasks st) \<Longrightarrow> buffer_ok (st\<lparr>al_tasks := tasks\<rparr>)"
  unfolding buffer_ok_def by simp blast

lemma start_task_ok:
  assumes "buffer_ok st"
  shows "buffer_ok (start_task i found st)"
proof (cases i found st rule: start_task_cases)
  case (3 q b tasks)
  from buffer_ok_tasks [OF assms 3(1)] assms 3(2) show ?thesis unfolding 3(3) by (auto simp: buffer_ok_def)
qed (use assms buffer_ok_tasks in auto)

lemma start_task_carries:
  assumes "carried n p f v st"
  shows "carried n p f v (start_task i found st)"
proof (cases i found st rule: start_task_cases)
  case 1
  with assms show ?thesis by simp
next
  case (2 tasks)
  show ?thesis unfolding 2(2) by (rule carried_keep [OF assms]) simp_all
next
  case (3 q b tasks)
  let ?st = "start_task i found st"
  show ?thesis
  proof (cases "evaluated n p f v st")
    case True
    then have "evaluated n p f v ?st" unfolding evaluated_def 3(3) by simp
    with assms show ?thesis by (simp add: carried_def 3(3))
  next
    case False
    with assms obtain x where h: "dict_get (al_hash st (p, x)) f = Some v" "harmless n p x f v st" "n \<le> length (al_workers st)"
      by (auto simp: carried_def)
    then have "harmless n p x f v ?st" unfolding harmless_def 3(3) by (auto simp: nth_append less_Suc_eq Let_def)
    with h show ?thesis by (auto simp: carried_def 3(3))
  qed
qed

text \<open>What the end of a task does: its fields leave the buffer, and it is finished.\<close>

lemma finish_task_cases:
  assumes "calm de"
  obtains "finish_task j de st = st"
  | "j < length (al_workers st)" "dw_state (al_workers st ! j) = Running"
      "\<And>k. al_hash (finish_task j de st) k = (if k = (dw_project (al_workers st ! j), dw_batch (al_workers st ! j))
         then filter (\<lambda>(f, _). f \<notin> fst ` set (dw_data (al_workers st ! j))) (al_hash st k) else al_hash st k)"
      "al_workers (finish_task j de st) = (al_workers st)[j := (al_workers st ! j)\<lparr>dw_state := Finished\<rparr>]"
      "al_tasks (finish_task j de st) = al_tasks st" "al_batches (finish_task j de st) = al_batches st"
proof (cases "j < length (al_workers st) \<and> dw_state (al_workers st ! j) = Running")
  case True
  let ?w = "al_workers st ! j"
  obtain st1 where fin: "finish_delayed de (dw_project ?w) (dw_batch ?w) (dw_data ?w) st
        = (None, cleanup_redis_buffer (dw_project ?w) (dw_batch ?w) (dw_data ?w) st1)"
      and frame: "al_hash st1 = al_hash st" "al_tasks st1 = al_tasks st" "al_workers st1 = al_workers st" "al_batches st1 = al_batches st"
    by (rule calm_finish [OF assms])
  have e: "finish_task j de st = end_worker j Finished (cleanup_redis_buffer (dw_project ?w) (dw_batch ?w) (dw_data ?w) st1)"
    using True by (simp add: finish_task_def Let_def fin)
  show thesis
    by (rule that(2)) (use True in \<open>simp_all add: e end_worker_def cleanup_redis_buffer_def delete_hash_def frame\<close>)
qed (rule that(1), auto simp: finish_task_def)

lemma finish_task_ok:
  assumes "calm de" "buffer_ok st"
  shows "buffer_ok (finish_task j de st)"
  using assms(1)
proof (cases rule: finish_task_cases [where j = j and st = st])
  case 2
  have "\<forall>w \<in> set (al_workers (finish_task j de st)). \<forall>b. dw_batch w = Some b \<longrightarrow> b < al_batches st"
  proof (intro ballI allI impI)
    fix w b assume w: "w \<in> set (al_workers (finish_task j de st))" "dw_batch w = Some b"
    then have "w = (al_workers st ! j)\<lparr>dw_state := Finished\<rparr> \<or> w \<in> set (al_workers st)"
      using set_update_subset_insert unfolding 2(4) by fastforce
    then have "\<exists>u \<in> set (al_workers st). dw_batch u = dw_batch w" using nth_mem [OF 2(1)] by auto
    with w(2) assms(2) show "b < al_batches st" unfolding buffer_ok_def by metis
  qed
  moreover have "dict_wf (al_hash (finish_task j de st) k)" for k
    using assms(2) unfolding buffer_ok_def 2(3) by (cases k) (auto simp: distinct_map_filter)
  moreover have "al_hash st k \<noteq> []" if "al_hash (finish_task j de st) k \<noteq> []" for k
    using that unfolding 2(3) by (auto split: if_splits)
  ultimately show ?thesis using assms(2) unfolding buffer_ok_def 2(5,6) by blast
qed (use assms in simp)

lemma finish_task_carries:
  assumes "calm de" "carried n p f v st"
  shows "carried n p f v (finish_task j de st)"
  using assms(1)
proof (cases rule: finish_task_cases [where j = j and st = st])
  case 2
  let ?w = "al_workers st ! j" and ?st = "finish_task j de st"
  show ?thesis
  proof (cases "evaluated n p f v st")
    case True
    then obtain m where m: "n \<le> m" "m < length (al_workers st)" "dw_state (al_workers st ! m) = Finished"
      "dw_project (al_workers st ! m) = p" "dict_get (dw_data (al_workers st ! m)) f = Some v" unfolding evaluated_iff by blast
    with 2(2) have "m \<noteq> j" by auto
    with m have "evaluated n p f v ?st" unfolding evaluated_iff 2(4) by (intro exI [of _ m]) simp
    with assms(2) show ?thesis by (simp add: carried_def 2(4))
  next
    case False
    with assms(2) obtain x where h: "dict_get (al_hash st (p, x)) f = Some v" "harmless n p x f v st" "n \<le> length (al_workers st)"
      by (auto simp: carried_def)
    show ?thesis
    proof (cases "(p, x) = (dw_project ?w, dw_batch ?w) \<and> f \<in> fst ` set (dw_data ?w)")
      case True
      then have "dict_get (dw_data ?w) f \<noteq> None" by (simp add: dict_get_None_key)
      with h(2) True 2(1,2) have "n \<le> j \<and> dict_get (dw_data ?w) f = Some v" unfolding harmless_def Let_def by blast
      with 2(1) True have "evaluated n p f v ?st" unfolding evaluated_iff 2(4) by (intro exI [of _ j]) simp
      with h(3) show ?thesis by (simp add: carried_def 2(4))
    next
      case False
      have "harmless n p x f v ?st" using h(2) 2(1) unfolding harmless_def 2(4) by (auto simp: Let_def nth_list_update)
      moreover have "dict_get (al_hash ?st (p, x)) f = Some v"
        using False h(1) unfolding 2(3) by (auto intro!: dict_get_filter)
      ultimately show ?thesis using h(3) by (auto simp: carried_def 2(4))
    qed
  qed
qed (use assms in simp)

text \<open>Deferring the same rule for the same issue again replaces the data.\<close>

fun defers_again :: "nat \<Rightarrow> nat \<times> nat \<Rightarrow> alert_event \<Rightarrow> bool" where
  "defers_again p f (TryRule after an env state ev r last_active now pushed) =
     (decide_rule an env state ev r last_active now = Defer \<and> ru_project r = p \<and> (ru_id r, is_id (ev_group ev)) = f)"
| "defers_again p f _ = False"

lemma buffer_ok_step:
  assumes "smooth_event s e" "buffer_ok (ar_store s)"
  shows "buffer_ok (ar_store (alert_step s e))"
proof (cases e)
  case (ReadStatuses rules issue)
  have "buffer_ok (snd (bulk_get_rule_status rules issue (ar_store s)))"
    using assms(2) by (subst buffer_ok_cong) (simp_all add: bulk_get_frame)
  then show ?thesis by (simp add: ReadStatuses)
next
  case (TryRule after an env state ev r last_active now pushed)
  have "buffer_ok (enqueue_rule r ev pushed (ar_store s))"
    using assms(2) unfolding buffer_ok_def enqueue_rule_simps by auto
  moreover have "buffer_ok (snd (fire_rule after r ev now (ar_store s)))"
    using assms(2) fire_rule_frame [of after r ev now "ar_store s", OF prod.collapse [symmetric]]
    by (subst buffer_ok_cong) simp_all
  ultimately show ?thesis using assms(2)
    by (simp add: TryRule try_rule_def apply_rule_store split: rule_decision.split)
next
  case (FlushProject m)
  then show ?thesis using assms(2) by (simp add: process_batches_ok split: option.split list.split)
next
  case (TaskStart i found)
  then show ?thesis using assms(2) by (simp add: start_task_ok)
next
  case (TaskEnd j de)
  then show ?thesis using assms by (simp add: finish_task_ok)
qed (use assms in \<open>auto simp: delete_due_def buffer_ok_def split: option.split list.split\<close>)

lemma buffer_ok_run: "smooth s es \<Longrightarrow> buffer_ok (ar_store s) \<Longrightarrow> buffer_ok (ar_store (foldl alert_step s es))"
  by (induction es arbitrary: s) (simp_all add: buffer_ok_step)

lemma carried_step:
  assumes "smooth_event s e" "\<not> defers_again p f e" "buffer_ok (ar_store s)" "carried n p f v (ar_store s)"
  shows "carried n p f v (ar_store (alert_step s e))"
proof -
  have same: "carried n p f v st" if "al_hash st = al_hash (ar_store s)" "al_workers st = al_workers (ar_store s)" for st
    using carried_keep [OF assms(4) that(2)] by (simp add: that(1))
  show ?thesis
  proof (cases e)
    case (ReadStatuses rules issue)
    then show ?thesis by (simp add: same bulk_get_frame)
  next
    case (TryRule after an env state ev r last_active now pushed)
    have "carried n p f v (enqueue_rule r ev pushed (ar_store s))" if "decide_rule an env state ev r last_active now = Defer"
      by (rule carried_keep [OF assms(4)])
        (use assms(2) that in \<open>auto simp: TryRule enqueue_rule_simps dict_get_set\<close>)
    moreover have "carried n p f v (snd (fire_rule after r ev now (ar_store s)))"
      using fire_rule_frame [of after r ev now "ar_store s", OF prod.collapse [symmetric]] by (simp add: same)
    ultimately show ?thesis using assms(4)
      by (simp add: TryRule try_rule_def apply_rule_store split: rule_decision.split)
  next
    case (FlushProject m)
    then show ?thesis using assms(4) process_batches_carries [OF assms(3,4)] by (simp split: option.split list.split)
  next
    case (TaskStart i found)
    then show ?thesis using start_task_carries [OF assms(4)] by simp
  next
    case (TaskEnd j de)
    then show ?thesis using finish_task_carries [OF _ assms(4)] assms(1) by simp
  qed (use assms(1,4) in \<open>simp_all add: same delete_due_def split: option.split list.split\<close>)
qed

lemma carried_run:
  "smooth s es \<Longrightarrow> list_all (\<lambda>e. \<not> defers_again p f e) es \<Longrightarrow> buffer_ok (ar_store s) \<Longrightarrow> carried n p f v (ar_store s) \<Longrightarrow>
     carried n p f v (ar_store (foldl alert_step s es))"
  by (induction es arbitrary: s) (simp_all add: carried_step buffer_ok_step)

lemma smooth_append: "smooth s (es @ es') \<longleftrightarrow> smooth s es \<and> smooth (foldl alert_step s es) es'"
  by (induction es arbitrary: s) auto

lemma all_scheduled_first: "all_scheduled first_run" "buffer_ok (ar_store first_run)"
  by (simp_all add: all_scheduled_def buffer_ok_def first_run_def no_alerts_def)

text \<open>
  C7. A deferred rule is not forgotten. Take a run in which rules are deferred, and the fields of a project moved into batches, in
  one step each, by a clock that is strictly ahead of the fetch time of a flush under way; batches are not empty; tasks find their project and do not die, know
  the intervals of the conditions, and their actions do not raise. When a rule is deferred for an issue while no task at work
  on the buffer of its project holds the two, and until it is deferred for the issue again, the event that
  was stored for it is in the buffer, with a task, a flush or the list of projects that will reach it, or a task
  that started afterwards has read it, with that very event, and has come to its end.
\<close>

theorem no_deferred_rule_forgotten:
  assumes "smooth first_run (es @ [TryRule after an env state ev r last_active now pushed] @ es')"
    and "decide_rule an env state ev r last_active now = Defer"
    and "list_all (\<lambda>w. dw_state w = Running \<and> dw_project w = ru_project r \<and> dw_batch w = None \<longrightarrow>
           dict_get (dw_data w) (ru_id r, is_id (ev_group ev)) = None) (al_workers (ar_store (alert_run_of es)))"
    and "list_all (\<lambda>e. \<not> defers_again (ru_project r) (ru_id r, is_id (ev_group ev)) e) es'"
  shows "let s = alert_run_of (es @ [TryRule after an env state ev r last_active now pushed] @ es');
             n = length (al_workers (ar_store (alert_run_of es))); field = (ru_id r, is_id (ev_group ev));
             data = \<lparr>in_event = Some (ev_id ev), in_occurrence = ev_occurrence ev\<rparr>
         in (\<exists>b. dict_get (al_hash (ar_store s) (ru_project r, b)) field = Some data \<and> scheduled s (ru_project r) b field)
          \<or> (\<exists>w \<in> set (drop n (al_workers (ar_store s))). dw_state w = Finished \<and> dw_project w = ru_project r \<and>
                dict_get (dw_data w) field = Some data)"
proof -
  let ?e = "TryRule after an env state ev r last_active now pushed" and ?f = "(ru_id r, is_id (ev_group ev))"
  let ?s = "alert_run_of es" and ?s' = "alert_run_of (es @ [?e] @ es')"
  let ?n = "length (al_workers (ar_store ?s))"
  have smooth: "smooth first_run es" "smooth_event ?s ?e" "smooth (alert_step ?s ?e) es'"
    using assms(1) by (simp_all add: smooth_append)
  have store: "ar_store (alert_step ?s ?e) = enqueue_rule r ev pushed (ar_store ?s)"
    by (simp add: try_rule_def apply_rule_store assms(2))
  have ok: "buffer_ok (ar_store (alert_step ?s ?e))"
    by (intro buffer_ok_step [OF smooth(2)] buffer_ok_run [OF smooth(1)] all_scheduled_first)
  have "dict_get (al_hash (ar_store (alert_step ?s ?e)) (ru_project r, None)) ?f = Some (deferral_of ev)"
    by (simp only: store) (simp add: enqueue_rule_simps dict_get_set)
  moreover have "harmless ?n (ru_project r) None ?f (deferral_of ev) (ar_store (alert_step ?s ?e))"
    using assms(3) unfolding harmless_def store enqueue_rule_simps by (auto simp: Let_def list_all_length)
  ultimately have "carried ?n (ru_project r) ?f (deferral_of ev) (ar_store (alert_step ?s ?e))"
    unfolding carried_def store enqueue_rule_simps by blast
  from carried_run [OF smooth(3) assms(4) ok this]
  have "carried ?n (ru_project r) ?f (deferral_of ev) (ar_store ?s')" by simp
  moreover have "all_scheduled ?s'" by (rule all_scheduled_run [OF assms(1) all_scheduled_first(1)])
  then have "scheduled ?s' (ru_project r) b ?f" if "dict_get (al_hash (ar_store ?s') (ru_project r, b)) ?f = Some v" for b v
    using dict_get_key [OF that] by (rule all_scheduledD)
  ultimately show ?thesis
    unfolding carried_def evaluated_def list_ex_iff Let_def deferral_of_def by blast
qed

section \<open>The processor is a run of the machine\<close>

lemma apply_rules_run:
  "\<exists>es. list_all (\<lambda>e. \<exists>r \<in> set rs. \<exists>last now pushed. e = TryRule after an env state ev r last now pushed) es
     \<and> ar_store (foldl alert_step s es) = snd (apply_rules after an env state ev statuses clock rs fs (ar_store s))"
proof (induction rs arbitrary: s fs)
  case Nil
  show ?case by (rule exI [of _ "[]"]) simp
next
  case (Cons r rs)
  show ?case
  proof (cases "dict_get statuses (ru_id r)")
    case None
    then show ?thesis by (intro exI [of _ "[]"]) simp
  next
    case (Some last)
    let ?e = "TryRule after an env state ev r last (fst (clock (ru_id r))) (snd (clock (ru_id r)))"
    obtain x st where a: "apply_rule after an env state ev r last (fst (clock (ru_id r))) (snd (clock (ru_id r))) fs (ar_store s) = (x, st)"
      by (metis surj_pair)
    then have st: "ar_store (alert_step s ?e) = st"
      using apply_rule_store [of after an env state ev r last "fst (clock (ru_id r))" "snd (clock (ru_id r))" fs "ar_store s"]
        apply_rule_store [of after an env state ev r last "fst (clock (ru_id r))" "snd (clock (ru_id r))" "[]" "ar_store s"]
      by (simp add: try_rule_def)
    show ?thesis
    proof (cases x)
      case (Inl e)
      with st a Some show ?thesis by (intro exI [of _ "[?e]"]) auto
    next
      case (Inr fs')
      obtain es where es: "list_all (\<lambda>e. \<exists>r \<in> set rs. \<exists>last now pushed. e = TryRule after an env state ev r last now pushed) es"
          "ar_store (foldl alert_step (alert_step s ?e) es) = snd (apply_rules after an env state ev statuses clock rs fs' st)"
        using Cons.IH [of "alert_step s ?e" fs'] unfolding st by blast
      have "list_all (\<lambda>e. \<exists>r' \<in> set (r # rs). \<exists>last now pushed. e = TryRule after an env state ev r' last now pushed) (?e # es)"
        using es(1) by (auto simp: list_all_iff)
      moreover have "ar_store (foldl alert_step s (?e # es)) = snd (apply_rules after an env state ev statuses clock (r # rs) fs (ar_store s))"
        using es(2) a Inr Some by simp
      ultimately show ?thesis by blast
    qed
  qed
qed

text \<open>What \<open>RuleProcessor.apply\<close> does to the store is a run: statuses are read once, then the rules are tried in turn.\<close>

lemma processor_run:
  "\<exists>es. list_all (\<lambda>e. (\<exists>ids. e = ReadStatuses ids (is_id (ev_group ev)))
        \<or> (\<exists>r \<in> set rules. \<exists>last now pushed. e = TryRule after an env state ev r last now pushed)) es
     \<and> ar_store (foldl alert_step s es) = snd (apply_processor after an env state ev rules snoozed clock (ar_store s))"
proof (cases "is_unresolved (ev_group ev)")
  case False
  then show ?thesis by (intro exI [of _ "[]"]) (simp add: apply_processor_def)
next
  case True
  let ?e = "ReadStatuses (map ru_id rules) (is_id (ev_group ev))"
  obtain statuses st where b: "bulk_get_rule_status (map ru_id rules) (is_id (ev_group ev)) (ar_store s) = (statuses, st)" by (metis surj_pair)
  obtain es where es: "list_all (\<lambda>e. \<exists>r \<in> set (filter (\<lambda>r. ru_id r \<notin> set snoozed) rules). \<exists>last now pushed.
        e = TryRule after an env state ev r last now pushed) es"
      "ar_store (foldl alert_step (alert_step s ?e) es) =
        snd (apply_rules after an env state ev statuses clock (filter (\<lambda>r. ru_id r \<notin> set snoozed) rules) [] st)"
    using apply_rules_run [of "filter (\<lambda>r. ru_id r \<notin> set snoozed) rules" after an env state ev "alert_step s ?e" statuses clock "[]"] b
    by auto
  show ?thesis
    by (rule exI [of _ "?e # es"]) (use es True b in \<open>auto simp: apply_processor_def list_all_iff\<close>)
qed

section \<open>Where deferring goes wrong\<close>

text \<open>
  Nothing will look at a field: no task is queued or at work on the buffer of the project, and the project is neither
  on the list nor among those that a flush still has to handle.
\<close>

definition stranded :: "nat \<Rightarrow> nat \<times> nat \<Rightarrow> alert_run \<Rightarrow> bool" where
  "stranded p f s =
     (f \<in> fst ` set (al_hash (ar_store s) (p, None)) \<and> (p, None) \<notin> set (al_tasks (ar_store s))
      \<and> (\<forall>w \<in> set (al_workers (ar_store s)). dw_state w = Running \<longrightarrow> \<not> (dw_project w = p \<and> dw_batch w = None))
      \<and> dict_get (al_projects (ar_store s)) p = None
      \<and> (case ar_flush s of None \<Rightarrow> True | Some (t, ps) \<Rightarrow> p \<notin> set ps))"

lemma stranded_not_scheduled: "stranded p f s \<Longrightarrow> \<not> scheduled s p None f"
  by (auto simp: stranded_def scheduled_def handled_by_def split: option.splits)

lemma stranded_cong:
  assumes "stranded p f s" "al_hash st (p, None) = al_hash (ar_store s) (p, None)" "set (al_tasks st) \<subseteq> set (al_tasks (ar_store s)) \<union> ks"
    "(p, None) \<notin> ks" "al_workers st = al_workers (ar_store s)" "dict_get (al_projects st) p = None"
  shows "stranded p f (s\<lparr>ar_store := st\<rparr>)"
  using assms unfolding stranded_def by auto

fun defers_for :: "nat \<Rightarrow> alert_event \<Rightarrow> bool" where
  "defers_for p (TryRule after an env state ev r last_active now pushed) =
     (decide_rule an env state ev r last_active now = Defer \<and> ru_project r = p)"
| "defers_for p (EnqueueWrite i r ev time) = (ru_project r = p)"
| "defers_for p _ = False"

text \<open>However a task ends, what it touches of the buffer are the fields of its own batch.\<close>

lemma finish_delayed_frame:
  "\<exists>st1. al_hash st1 = al_hash st \<and> al_projects st1 = al_projects st \<and> al_tasks st1 = al_tasks st \<and> al_workers st1 = al_workers st
     \<and> (snd (finish_delayed de p b data st) = st1 \<or> snd (finish_delayed de p b data st) = cleanup_redis_buffer p b data st1)"
proof (cases "delayed_decision de data")
  case (Inl e)
  then show ?thesis by (intro exI [of _ st]) (simp add: finish_delayed_def)
next
  case (Inr to_fire)
  let ?ids = "map ru_id (fetch_alert_rules (de_table de) (de_snoozed de) data)"
  let ?P = "\<lambda>s. al_hash s = al_hash st \<and> al_projects s = al_projects st \<and> al_tasks s = al_tasks st \<and> al_workers s = al_workers st"
  have "?P (snd (fire_rules (de_after de) (de_lookups de) data ?ids (de_now de) to_fire st))"
  proof (rule fire_rules_keeps [where P = ?P])
    show "?P (snd (fire_rule (de_after de) r ev (de_now de) s))" if "?P s" for r ev s
      using that fire_rule_frame [of "de_after de" r ev "de_now de" s, OF prod.collapse [symmetric]] by simp
  qed (simp_all add: bulk_get_frame send_futures_def)
  then show ?thesis
    by (intro exI [of _ "snd (fire_rules (de_after de) (de_lookups de) data ?ids (de_now de) to_fire st)"])
      (simp add: finish_delayed_def Inr split: prod.split option.split)
qed

lemma stranded_ended:
  assumes "stranded p f s" "j < length (al_workers (ar_store s))" "al_hash st (p, None) = al_hash (ar_store s) (p, None)"
    "al_tasks st = al_tasks (ar_store s)" "al_workers st = al_workers (ar_store s)" "al_projects st = al_projects (ar_store s)"
    "out \<noteq> Running"
  shows "stranded p f (s\<lparr>ar_store := end_worker j out st\<rparr>)"
proof -
  have "dw_state w = Running \<Longrightarrow> w \<in> set (al_workers (ar_store s))"
    if "w \<in> set ((al_workers (ar_store s))[j := (al_workers (ar_store s) ! j)\<lparr>dw_state := out\<rparr>])" for w
    using that set_update_subset_insert assms(7) by fastforce
  with assms(1) show ?thesis
    unfolding stranded_def end_worker_def using assms(3-6) by auto
qed

lemma new_batch_stranded:
  assumes "q \<noteq> p"
  shows "al_hash (foldl (\<lambda>st d. new_batch q d st) st ds) (p, None) = al_hash st (p, None)
    \<and> al_workers (foldl (\<lambda>st d. new_batch q d st) st ds) = al_workers st
    \<and> al_projects (foldl (\<lambda>st d. new_batch q d st) st ds) = al_projects st
    \<and> set (al_tasks (foldl (\<lambda>st d. new_batch q d st) st ds)) \<subseteq> set (al_tasks st) \<union> {t. fst t = q}"
proof (induction ds arbitrary: st)
  case (Cons d ds)
  from Cons [of "new_batch q d st"] assms show ?case by (auto simp: new_batch_simps)
qed simp

lemma rule_stranded_step:
  assumes "stranded p f s" "\<not> defers_for p e"
  shows "stranded p f (alert_step s e)"
proof (cases e)
  case (ReadStatuses rules issue)
  show ?thesis unfolding ReadStatuses alert_step.simps
    by (rule stranded_cong [OF assms(1), where ks = "{}"]) (use assms(1) in \<open>simp_all add: bulk_get_frame stranded_def\<close>)
next
  case (EvictStatus k)
  then show ?thesis using assms(1) by (simp add: stranded_def)
next
  case (TryRule after an env state ev r last_active now pushed)
  have "stranded p f (s\<lparr>ar_store := enqueue_rule r ev pushed (ar_store s)\<rparr>)" if "ru_project r \<noteq> p"
    by (rule stranded_cong [OF assms(1), where ks = "{}"])
      (use assms(1) that in \<open>simp_all add: enqueue_rule_simps stranded_def\<close>)
  moreover have "stranded p f (s\<lparr>ar_store := snd (fire_rule after r ev now (ar_store s))\<rparr>)"
    by (rule stranded_cong [OF assms(1), where ks = "{}"])
      (use assms(1) fire_rule_frame [of after r ev now "ar_store s", OF prod.collapse [symmetric]] in \<open>simp_all add: stranded_def\<close>)
  ultimately show ?thesis using assms
    by (auto simp: TryRule try_rule_def apply_rule_store split: rule_decision.split)
next
  case (EnqueueWrite i r ev time)
  have "stranded p f (s\<lparr>ar_store := push_to_sorted_set (ru_project r) time (ar_store s)\<rparr>)"
    "stranded p f (s\<lparr>ar_store := enqueue_field r ev (ar_store s)\<rparr>)"
    by (rule stranded_cong [OF assms(1), where ks = "{}"];
        use assms in \<open>simp add: EnqueueWrite push_to_sorted_set_def enqueue_field_def push_to_hash_def stranded_def\<close>)+
  then show ?thesis using assms(1) by (auto simp: EnqueueWrite enqueue_writes_def nth_Cons split: nat.split)
next
  case (FlushStart t)
  have "p \<notin> set (due_projects t (ar_store s))"
    using assms(1) dict_get_None_key [of "al_projects (ar_store s)" p] by (force simp: due_projects_def stranded_def)
  with assms(1) show ?thesis by (auto simp: FlushStart stranded_def split: option.splits)
next
  case (FlushProject m)
  show ?thesis
  proof (cases "\<exists>t q ps. ar_flush s = Some (t, q # ps)")
    case True
    then obtain t q ps where flush: "ar_flush s = Some (t, q # ps)" by blast
    with assms(1) have q: "q \<noteq> p" "p \<notin> set ps" by (auto simp: stranded_def)
    have "stranded p f (s\<lparr>ar_store := process_rulegroups_in_batches m q (ar_store s)\<rparr>)"
      by (rule stranded_cong [OF assms(1), where ks = "{t. fst t = q}"])
        (use q assms(1) new_batch_stranded [OF q(1), of "ar_store s"] in \<open>auto simp: process_rulegroups_in_batches_def stranded_def\<close>)
    with flush q(2) show ?thesis by (simp add: FlushProject stranded_def)
  next
    case False
    then have "alert_step s (FlushProject m) = s" by (auto split: option.split list.split)
    with assms(1) show ?thesis by (simp add: FlushProject)
  qed
next
  case FlushEnd
  have "dict_get (filter P d) p = None" if "dict_get d p = None" for P and d :: "(nat, rat) dict"
    using that by (induction d) (auto simp: dict_get_def split: if_splits)
  with assms(1) show ?thesis by (auto simp: FlushEnd stranded_def delete_due_def split: option.split list.split)
next
  case (TaskStart i found)
  have "stranded p f (s\<lparr>ar_store := start_task i found (ar_store s)\<rparr>)"
  proof (cases i found "ar_store s" rule: start_task_cases)
    case (3 q b tasks)
    have "(q, b) \<noteq> (p, None)" using 3(2) assms(1) unfolding stranded_def by metis
    with assms(1) 3(1,3) show ?thesis by (auto simp: stranded_def)
  qed (use assms(1) in \<open>auto simp: stranded_def\<close>)
  then show ?thesis by (simp add: TaskStart)
next
  case (TaskEnd j de)
  show ?thesis
  proof (cases "j < length (al_workers (ar_store s)) \<and> dw_state (al_workers (ar_store s) ! j) = Running")
    case True
    let ?w = "al_workers (ar_store s) ! j"
    obtain x st where r: "finish_delayed de (dw_project ?w) (dw_batch ?w) (dw_data ?w) (ar_store s) = (x, st)" by (metis surj_pair)
    have other: "(p, None) \<noteq> (dw_project ?w, dw_batch ?w)"
      using assms(1) True unfolding stranded_def by (metis nth_mem prod.inject)
    obtain st1 where st1: "al_hash st1 = al_hash (ar_store s)" "al_projects st1 = al_projects (ar_store s)"
      "al_tasks st1 = al_tasks (ar_store s)" "al_workers st1 = al_workers (ar_store s)"
      "st = st1 \<or> st = cleanup_redis_buffer (dw_project ?w) (dw_batch ?w) (dw_data ?w) st1"
      using finish_delayed_frame [of "ar_store s" de "dw_project ?w" "dw_batch ?w" "dw_data ?w"] by (auto simp: r)
    have "al_hash st (p, None) = al_hash (ar_store s) (p, None)" "al_tasks st = al_tasks (ar_store s)"
      "al_workers st = al_workers (ar_store s)" "al_projects st = al_projects (ar_store s)"
      using st1 other by (auto simp: cleanup_redis_buffer_def delete_hash_def)
    note ended = stranded_ended [OF assms(1) _ this]
    show ?thesis using True ended by (auto simp: TaskEnd finish_task_def Let_def r split: option.split)
  qed (use assms(1) in \<open>auto simp: TaskEnd finish_task_def\<close>)
next
  case (TaskCrash j)
  have "stranded p f (s\<lparr>ar_store := end_worker j Failed (ar_store s)\<rparr>)" if "j < length (al_workers (ar_store s))"
    by (rule stranded_ended [OF assms(1) that]) simp_all
  with assms(1) show ?thesis by (simp add: TaskCrash crash_task_def)
qed

lemma stranded_run: "stranded p f s \<Longrightarrow> list_all (\<lambda>e. \<not> defers_for p e) es \<Longrightarrow> stranded p f (foldl alert_step s es)"
  by (induction es arbitrary: s) (simp_all add: rule_stranded_step)

text \<open>A flush and its task between the two writes of \<open>enqueue_rule\<close>, whichever they are.\<close>

definition racing_run :: "delayed_env \<Rightarrow> issue_alert_rule \<Rightarrow> group_event \<Rightarrow> rat \<Rightarrow> rat \<Rightarrow> nat \<Rightarrow> alert_event list" where
  "racing_run de r ev pushed fetch_time batch_size =
     [EnqueueWrite 0 r ev pushed, FlushStart fetch_time, FlushProject batch_size, FlushEnd, TaskStart 0 True, TaskEnd 0 de,
      EnqueueWrite 1 r ev pushed]"

text \<open>
  C37. Deferring a rule makes two writes, and puts the project on the list before it puts the field into the buffer. When, on an
  empty buffer, a flush that finds the project due, and the task it queues, run between the first write and the second, the field is left
  in the buffer with nothing that will look at it, and so it stays, whatever workers, flushes and tasks do, until
  a rule of the project is deferred again.
\<close>

theorem deferral_race_strands_rule:
  assumes "0 \<le> pushed" "pushed \<le> fetch_time" "0 < batch_size" "list_all (\<lambda>e. \<not> defers_for (ru_project r) e) es"
  shows "let s = alert_run_of (racing_run de r ev pushed fetch_time batch_size @ es) in
    (ru_id r, is_id (ev_group ev)) \<in> fst ` set (al_hash (ar_store s) (ru_project r, None))
    \<and> \<not> scheduled s (ru_project r) None (ru_id r, is_id (ev_group ev))"
proof -
  have d: "delayed_decision de [] = Inr []"
    by (simp add: delayed_decision_def fetch_alert_rules_def get_condition_query_groups_def Let_def)
  have "stranded (ru_project r) (ru_id r, is_id (ev_group ev)) (alert_run_of (racing_run de r ev pushed fetch_time batch_size))"
    using assms(1-3)
    by (simp add: racing_run_def first_run_def no_alerts_def enqueue_writes_def push_to_sorted_set_def due_projects_def dict_set_def
        process_rulegroups_in_batches_def delete_due_def start_task_def finish_task_def finish_delayed_def d cleanup_redis_buffer_def
        delete_hash_def end_worker_def enqueue_field_def push_to_hash_def stranded_def)
  from stranded_run [OF this assms(4)] stranded_not_scheduled show ?thesis
    by (auto simp: stranded_def Let_def)
qed

text \<open>
  C36. An issue for which the rule fired lately keeps the rule from firing for the issues after it, although their
  conditions were found to hold: the loop ends at the first of them, and the whole batch is deleted from the buffer.
\<close>

theorem throttled_issue_blocks_others:
  assumes "delayed_decision de data = Inr [(r, issues)]" "get_group_to_groupevent (de_lookups de) data issues = (g, ev) # rest"
    and "al_cache st (ru_id r, g) = Some (Some t)" "t > de_now de - frequency_of r"
  shows "al_history (snd (finish_delayed de p b data st)) = al_history st \<and> al_sent (snd (finish_delayed de p b data st)) = al_sent st
    \<and> fst ` set (al_hash (snd (finish_delayed de p b data st)) (p, b)) \<inter> fst ` set data = {}"
proof -
  let ?ids = "map ru_id (fetch_alert_rules (de_table de) (de_snoozed de) data)"
  obtain statuses st1 where b: "bulk_get_rule_status ?ids g st = (statuses, st1)" by (metis surj_pair)
  have "ru_id r \<in> set ?ids" using to_fire_rules [OF assms(1)] by simp
  then have "dict_get (map (\<lambda>i. (i, h i)) ?ids) (ru_id r) = Some (h (ru_id r))" for h :: "nat \<Rightarrow> rat option"
    by (rule dict_get_map_keys)
  then have "dict_get statuses (ru_id r) = Some (Some t)" using b assms(3) by (auto simp: bulk_get_rule_status_def Let_def)
  then have f: "fire_rules (de_after de) (de_lookups de) data ?ids (de_now de) [(r, issues)] st = (None, st1)"
    by (simp add: assms(2,4) b)
  have fr: "al_history st1 = al_history st" "al_sent st1 = al_sent st"
    using bulk_get_frame(6,7) [of ?ids g st] by (simp_all add: b)
  have "snd (finish_delayed de p b data st) = delete_hash (p, b) (map fst data) st1"
    using f by (simp add: finish_delayed_def assms(1) cleanup_redis_buffer_def del: fire_rules.simps)
  moreover have "fst ` set (al_hash (delete_hash (p, b) (map fst data) st1) (p, b)) \<inter> fst ` set data = {}"
    by (simp only: delete_hash_keys) auto
  ultimately show ?thesis using fr by (simp add: delete_hash_def)
qed

text \<open>A rule that wants none of its conditions to hold fires whatever they are, as long as its filters pass.\<close>

theorem none_match_ignores_conditions:
  assumes "ru_action_match r = Some ''none''" "filter (\<lambda>n. \<not> is_condition_node n) (ru_conditions r) = []"
    and "ru_environment r = None"
  shows "decide_rule an (Some env) state ev r None now = Activate"
proof -
  obtain fast slow where "group_conditions_by_speed (rule_conditions r) = (fast, slow)" by (metis surj_pair)
  with assms show ?thesis
    by (simp add: decide_rule_def split_conditions_and_filters_def filters_pass_def decide_conditions_def condition_match_of_def
        string_or_default_def get_match_function_def Let_def)
qed

section \<open>Concrete runs\<close>

definition slow_rule :: "string option \<Rightarrow> issue_alert_rule" where
  "slow_rule m = \<lparr>ru_id = 1, ru_project = 7, ru_environment = None, ru_conditions = [SlowNode (sample_condition Frequency None)],
     ru_action_match = m, ru_filter_match = None, ru_minutes = None, ru_actions = [9]\<rparr>"

definition quick_rule :: issue_alert_rule where
  "quick_rule = \<lparr>ru_id = 2, ru_project = 7, ru_environment = None,
     ru_conditions = [PlainNode ''sentry.rules.conditions.every_event.EveryEventCondition'' []],
     ru_action_match = Some ''all'', ru_filter_match = None, ru_minutes = Some 5, ru_actions = []\<rparr>"

definition sample_event :: "nat \<Rightarrow> group_event" where
  "sample_event g = \<lparr>ev_id = ''e'', ev_occurrence = None, ev_group = sample_issue g 1, ev_tags = [], ev_platform = None,
     ev_message = '''', ev_search_message = '''', ev_data = [], ev_exceptions = None, ev_user = None, ev_request = None,
     ev_stacktrace = None\<rparr>"

definition old_state :: event_state where
  "old_state = \<lparr>es_is_new = False, es_is_regression = False, es_is_new_group_environment = False, es_has_reappeared = False,
     es_has_escalated = False\<rparr>"

definition sample_answers :: answers where
  "sample_answers = \<lparr>an_repr = (\<lambda>_. ''''), an_high_priority = False, an_project_flag = False, an_latest_release = None, an_semver = False,
     an_environment_found = (\<lambda>_. False), an_latest_adopted = (\<lambda>_. None), an_issue_release = (\<lambda>_. None),
     an_counts = sample_counts, an_sessions = None\<rparr>"

definition sample_env :: "rat \<Rightarrow> delayed_env" where
  "sample_env now = \<lparr>de_table = [slow_rule None], de_snoozed = [], de_counts = sample_counts, de_cached = (\<lambda>_. None),
     de_rows = (\<lambda>_. sample_rows), de_time = now, de_now = now, de_after = (\<lambda>_. NoFutures),
     de_lookups = \<lparr>lk_event = (\<lambda>_. Some (sample_event 0)), lk_issue = (\<lambda>g. Some (sample_issue g 1)), lk_occurrence = (\<lambda>_. None)\<rparr>\<rparr>"

definition pending :: "(nat \<times> nat, instance_data) dict" where
  "pending = [((1, 3), \<lparr>in_event = Some ''e'', in_occurrence = None\<rparr>), ((1, 4), \<lparr>in_event = Some ''e'', in_occurrence = None\<rparr>)]"

lemma slow_rule_conditions: "get_slow_conditions (slow_rule m) = [sample_condition Frequency None]"
  by (simp add: get_slow_conditions_def split_conditions_and_filters_def slow_rule_def slow_node slow_node_condition)

lemma slow_rule_fields [simp]: "ru_id (slow_rule m) = 1" "ru_environment (slow_rule m) = None" "ru_action_match (slow_rule m) = m"
  "ru_project (slow_rule m) = 7" "ru_minutes (slow_rule m) = None"
  by (simp_all add: slow_rule_def)

lemma pending_decision: "delayed_decision (sample_env now) pending = Inr [(slow_rule None, [3, 4])]"
  by (simp add: delayed_decision_def sample_env_def pending_def fetch_alert_rules_def get_rules_to_groups_def get_condition_query_groups_def
      add_rule_queries_def slow_rule_conditions generate_unique_queries_def add_query_def sample_condition_def is_percent_def
      query_result_def class_intervals_def STANDARD_INTERVALS_def get_rate_bulk_def get_query_window_def batch_query_hook_def
      batch_counts_def error_ids_def generic_ids_def value_from_groups_def sample_rows_def ERROR_def get_chunked_result_def chunked_def
      SNUBA_LIMIT_def sample_data get_rules_to_fire_def delayed_match_of_def passes_comparison_def lookup_result_def lookup_count_def
      dict_set_def dict_get_def get_issue_tsdb_group_model_def Let_def)

definition throttled_store :: alert_store where
  "throttled_store = no_alerts\<lparr>al_cache := (\<lambda>_. None)((1, 3) := Some (Some 900)), al_status := (\<lambda>_. None)((1, 3) := Some (Some 900)),
     al_hash := (\<lambda>_. [])((7, None) := pending)\<rparr>"

theorem throttled_issue_blocks_others_witness:
  "al_history (snd (finish_delayed (sample_env 1000) 7 None pending throttled_store)) = []
   \<and> fst ` set (al_hash (snd (finish_delayed (sample_env 1000) 7 None pending throttled_store)) (7, None)) \<inter> {(1, 3), (1, 4)} = {}"
proof -
  have "\<exists>ev rest. get_group_to_groupevent (de_lookups (sample_env 1000)) pending [3, 4] = (3, ev) # rest"
    by (simp add: get_group_to_groupevent_def group_event_of_def sample_env_def pending_def dict_set_def)
  then obtain ev rest where g: "get_group_to_groupevent (de_lookups (sample_env 1000)) pending [3, 4] = (3, ev) # rest" by blast
  have "al_cache throttled_store (ru_id (slow_rule None), 3) = Some (Some 900)" by (simp add: throttled_store_def)
  moreover have "(900 :: rat) > de_now (sample_env 1000) - frequency_of (slow_rule None)" by (simp add: sample_env_def frequency_of_def)
  ultimately show ?thesis
    using throttled_issue_blocks_others [OF pending_decision g, of throttled_store 900 7 None]
    by (simp add: throttled_store_def no_alerts_def pending_def)
qed

definition two_firings :: "alert_event list" where
  "two_firings = [ReadStatuses [2] 3, TryRule (\<lambda>_. NoFutures) sample_answers (Some 1) old_state (sample_event 3) quick_rule None 1000 1000,
     TryRule (\<lambda>_. NoFutures) sample_answers (Some 1) old_state (sample_event 3) quick_rule None 1100 1100,
     TryRule (\<lambda>_. NoFutures) sample_answers (Some 1) old_state (sample_event 3) quick_rule None 1300 1300]"

theorem alerts_respect_frequency_witness:
  "sorted_wrt (\<lambda>a b. fi_rule a = fi_rule b \<and> fi_issue a = fi_issue b \<longrightarrow> fi_frequency b \<le> fi_time b - fi_time a)
    (al_history (ar_store (alert_run_of two_firings)))"
  by (rule alerts_respect_frequency) (simp add: two_firings_def patient_rule_def quick_rule_def)

definition deferring_run :: "alert_event list" where
  "deferring_run = [ReadStatuses [1] 3, TryRule (\<lambda>_. NoFutures) sample_answers (Some 1) old_state (sample_event 3) (slow_rule (Some ''any'')) None 1000 1000,
     FlushStart 2000, FlushProject 10, FlushEnd, TaskStart 0 True, TaskEnd 0 (sample_env 2001)]"

lemma slow_rule_defers:
  "decide_rule an (Some env) state ev (slow_rule (Some ''any'')) None now = Defer"
  by (simp add: decide_rule_def split_conditions_and_filters_def group_conditions_by_speed_def slow_node slow_node_condition
      filters_pass_def decide_conditions_def condition_match_of_def string_or_default_def get_match_function_def slow_rule_def Let_def)

theorem no_deferred_rule_forgotten_witness:
  "let s = alert_run_of deferring_run; data = \<lparr>in_event = Some ''e'', in_occurrence = None\<rparr> in
     (\<exists>b. dict_get (al_hash (ar_store s) (7, b)) (1, 3) = Some data \<and> scheduled s 7 b (1, 3))
      \<or> (\<exists>w \<in> set (drop 0 (al_workers (ar_store s))). dw_state w = Finished \<and> dw_project w = 7 \<and> dict_get (dw_data w) (1, 3) = Some data)"
proof -
  let ?e = "TryRule (\<lambda>_. NoFutures) sample_answers (Some 1) old_state (sample_event 3) (slow_rule (Some ''any'')) None 1000 1000"
  let ?es = "[ReadStatuses [1] 3]" and ?es' = "[FlushStart 2000, FlushProject 10, FlushEnd, TaskStart 0 True, TaskEnd 0 (sample_env 2001)]"
  have run: "deferring_run = ?es @ [?e] @ ?es'" by (simp add: deferring_run_def)
  have "calm (sample_env 2001)"
    by (simp add: calm_def sample_env_def slow_rule_conditions sample_condition_def class_intervals_def STANDARD_INTERVALS_def)
  then have smooth: "smooth first_run (?es @ [?e] @ ?es')" by (simp add: first_run_def)
  have workers: "al_workers (ar_store (alert_run_of ?es)) = []" by (simp add: bulk_get_frame first_run_def no_alerts_def)
  have "list_all (\<lambda>e. \<not> defers_again 7 (1, 3) e) ?es'" by simp
  then have later: "list_all (\<lambda>e. \<not> defers_again (ru_project (slow_rule (Some ''any'')))
      (ru_id (slow_rule (Some ''any'')), is_id (ev_group (sample_event 3))) e) ?es'"
    by (simp add: sample_event_def sample_issue_def)
  from no_deferred_rule_forgotten [OF smooth slow_rule_defers _ later, unfolded workers]
  show ?thesis unfolding run by (simp add: sample_event_def sample_issue_def Let_def del: foldl_append foldl_Cons)
qed

theorem deferral_race_strands_rule_witness:
  "let s = alert_run_of (racing_run (sample_env 300) (slow_rule (Some ''any'')) (sample_event 3) 100 200 10 @ [FlushStart 400, FlushEnd]) in
     (1, 3) \<in> fst ` set (al_hash (ar_store s) (7, None)) \<and> \<not> scheduled s 7 None (1, 3)"
  using deferral_race_strands_rule [of 100 200 10 "slow_rule (Some ''any'')" "[FlushStart 400, FlushEnd]" "sample_env 300" "sample_event 3"]
  by (simp add: Let_def sample_event_def sample_issue_def del: foldl_append)

theorem none_match_ignores_conditions_witness:
  "decide_rule sample_answers (Some 1) old_state (sample_event 3) (quick_rule\<lparr>ru_action_match := Some ''none''\<rparr>) None 1000 = Activate"
  by (rule none_match_ignores_conditions)
    (simp_all add: quick_rule_def is_condition_node_def rule_type_of_def condition_classes_def)

theorem deferral_decides_alike_witness:
  "decide_conditions ''any'' (\<lambda>_. False) [] [SlowNode (sample_condition Frequency None)] = Activate
      \<or> decide_conditions ''any'' (\<lambda>_. False) [] [SlowNode (sample_condition Frequency None)] = Defer
        \<and> slow_conditions_fire ''any'' (\<lambda>_. True) [sample_condition Frequency None]
    \<longleftrightarrow> list_ex id [True]"
  using deferral_decides_alike [of "slow_rule (Some ''any'')" "''any''" "[]" "[SlowNode (sample_condition Frequency None)]" "list_ex id"
      "\<lambda>_. False" "\<lambda>_. True"]
  by (simp add: well_formed_node_def slow_rule_conditions slow_node slow_node_condition group_conditions_by_speed_def condition_match_of_def
      delayed_match_of_def string_or_default_def get_match_function_def node_holds_def) (simp add: slow_rule_def slow_node slow_node_condition well_formed_node_def node_holds_def)

theorem deferred_verdict_is_direct_witness:
  "passes_comparison [(\<lparr>uq_class = Frequency, uq_interval = ''5m'', uq_environment = None, uq_comparison = None\<rparr>, [(3, 30), (4, 40)])]
      (sample_condition Frequency None) 3 None
    \<longleftrightarrow> frequency_passes sample_counts (Some 1) 1000 None (sample_condition Frequency None) (sample_event 3) old_state = Inr True"
proof -
  let ?groups = "get_condition_query_groups [slow_rule None] (\<lambda>_. [3, 4])"
  let ?q = "\<lparr>uq_class = Frequency, uq_interval = ''5m'', uq_environment = None, uq_comparison = None\<rparr>"
  have found: "finds_row (\<lambda>_. sample_rows) (ev_group (sample_event 3))"
    by (simp add: finds_row_def sample_rows_def sample_event_def sample_issue_def value_from_groups_def)
  have groups: "?groups = [(?q, sample_condition Frequency None, [3, 4])]"
    by (simp add: get_condition_query_groups_def add_rule_queries_def slow_rule_conditions generate_unique_queries_def add_query_def
        sample_condition_def is_percent_def dict_set_def dict_get_def Let_def)
  have results: "get_condition_group_results sample_counts (\<lambda>_. Some 1) (\<lambda>_. sample_rows) 1000 ?groups = Inr [(?q, [(3, 30), (4, 40)])]"
    unfolding groups by (simp add: sample_condition_def is_percent_def
      query_result_def class_intervals_def STANDARD_INTERVALS_def get_rate_bulk_def get_query_window_def batch_query_hook_def
      batch_counts_def error_ids_def generic_ids_def value_from_groups_def sample_rows_def ERROR_def get_chunked_result_def chunked_def
      SNUBA_LIMIT_def sample_data dict_set_def dict_get_def get_issue_tsdb_group_model_def Let_def)
  have jitter: "shared_jitter ?groups (\<lambda>_. sample_rows) 1 ?q = 3"
    unfolding groups by (simp add: shared_jitter_def bulk_jitter_def error_ids_def sample_rows_def ERROR_def dict_get_def)
  have "sample_condition Frequency None \<in> set (get_slow_conditions (slow_rule None))" by (simp add: slow_rule_conditions)
  note run = deferred_verdict_is_direct [OF sample_counts_each found _ results _ this, where state = old_state and c = 300]
  show ?thesis
    using run [unfolded Let_def] jitter
    by (simp add: sample_event_def sample_issue_def sample_condition_def old_state_def is_percent_def
        COMPARISON_INTERVALS_def DEFAULT_COMPARISON_INTERVAL_def) blast
qed

end
