(* ===== verification/RulePreview.thy ===== *)
theory RulePreview
  imports RuleRuns
begin

text \<open>
  The preview of an issue alert, \<open>rules/history/preview.py\<close> with \<open>types/condition_activity.py\<close> and what the conditions
  give it (\<open>get_activity\<close>, \<open>get_event_columns\<close>, \<open>passes_activity\<close>, \<open>passes_activity_frequency\<close>): the issues for which a
  rule would have fired in the last two weeks. What Snuba answers (data of events, top issues, counts in
  buckets of five minutes) is the record \<open>preview_env\<close>. Conditions that count events have their fields.
  Not modelled: the queries themselves, the choice of the dataset, actions given as filters.
\<close>

section \<open>Activity of issues\<close>

datatype condition_activity_type = CreateIssue | Regression | Reappearance | FrequencyReached | NewHighPriority | ExistingHighPriority

record condition_activity =
  ac_issue :: nat
  ac_type :: condition_activity_type
  ac_time :: rat
  ac_data :: rule_data

text \<open>A row of the table of activities.\<close>

record change =
  ch_issue :: "nat option"
  ch_type :: nat
  ch_user :: "nat option"
  ch_time :: rat
  ch_data :: rule_data

record preview_env =
  pv_issues :: "issue list"
  pv_changes :: "change list"
  pv_tags :: "condition_activity \<Rightarrow> (string \<times> string) list option"
  pv_column :: "condition_activity \<Rightarrow> string \<Rightarrow> pyval option"
  pv_now :: rat
  pv_repr :: "pyval \<Rightarrow> string"
  pv_top :: "nat list option \<Rightarrow> (nat \<times> int) list"
  pv_counts :: "nat \<Rightarrow> frequency_class \<Rightarrow> (rat \<times> int) list"

definition PREVIEW_TIME_RANGE :: rat where "PREVIEW_TIME_RANGE = 1209600"
definition CONDITION_ACTIVITY_LIMIT :: nat where "CONDITION_ACTIVITY_LIMIT = 1000"
definition FREQUENCY_CONDITION_GROUP_LIMIT :: nat where "FREQUENCY_CONDITION_GROUP_LIMIT = 10"
definition FREQUENCY_CONDITION_BUCKET_SIZE :: rat where "FREQUENCY_CONDITION_BUCKET_SIZE = 300"

definition round_to_five_minute :: "rat \<Rightarrow> rat" where
  "round_to_five_minute t = 300 * of_int \<lfloor>t / 300\<rfloor>"

definition PreviewException :: py_exc where "PreviewException = OtherError ''PreviewException''"

definition latest_rows :: "('r \<Rightarrow> rat) \<Rightarrow> nat \<Rightarrow> 'r list \<Rightarrow> 'r list" where
  \<comment> \<open>\<open>order_by("-time")[:limit]\<close>\<close>
  "latest_rows time limit rows = take limit (rev (sort_key time rows))"

definition issue_activities :: "condition_activity_type \<Rightarrow> (issue \<Rightarrow> bool) \<Rightarrow> preview_env \<Rightarrow> rat \<Rightarrow> rat \<Rightarrow> nat \<Rightarrow> condition_activity list" where
  "issue_activities k P pv start finish limit =
     map (\<lambda>i. \<lparr>ac_issue = is_id i, ac_type = k, ac_time = is_first_seen i, ac_data = []\<rparr>)
       (latest_rows is_first_seen limit (filter (\<lambda>i. start \<le> is_first_seen i \<and> is_first_seen i < finish \<and> P i) (pv_issues pv)))"

definition change_activities ::
  "condition_activity_type \<Rightarrow> (change \<Rightarrow> bool) \<Rightarrow> (change \<Rightarrow> rule_data) \<Rightarrow> preview_env \<Rightarrow> rat \<Rightarrow> rat \<Rightarrow> nat \<Rightarrow> condition_activity list" where
  "change_activities k P data pv start finish limit =
     concat (map (\<lambda>c. case ch_issue c of None \<Rightarrow> [] | Some i \<Rightarrow> [\<lparr>ac_issue = i, ac_type = k, ac_time = ch_time c, ac_data = data c\<rparr>])
       (latest_rows ch_time limit (filter (\<lambda>c. start \<le> ch_time c \<and> ch_time c < finish \<and> P c) (pv_changes pv))))"

definition SET_UNRESOLVED :: nat where "SET_UNRESOLVED = 2"
definition SET_REGRESSION :: nat where "SET_REGRESSION = 6"
definition SET_PRIORITY :: nat where "SET_PRIORITY = 26"

definition get_activity :: "rule_class \<Rightarrow> preview_env \<Rightarrow> rat \<Rightarrow> rat \<Rightarrow> nat \<Rightarrow> condition_activity list result" where
  "get_activity cls pv start finish limit =
     (case cls of
        FirstSeenEvent \<Rightarrow> Inr (issue_activities CreateIssue (\<lambda>_. True) pv start finish limit)
      | NewHighPriorityIssue \<Rightarrow> Inr (issue_activities NewHighPriority (\<lambda>i. is_priority i = Some HIGH) pv start finish limit)
      | RegressionEvent \<Rightarrow> Inr (change_activities Regression (\<lambda>c. ch_type c = SET_REGRESSION) ch_data pv start finish limit)
      | ReappearedEvent \<Rightarrow>
          Inr (change_activities Reappearance (\<lambda>c. ch_type c = SET_UNRESOLVED \<and> ch_user c = None) ch_data pv start finish limit)
      | ExistingHighPriorityIssue \<Rightarrow>
          Inr (change_activities ExistingHighPriority (\<lambda>c. ch_type c = SET_PRIORITY \<and> ch_user c = None
                 \<and> py_eq (PDict (ch_data c)) (PDict [(''priority'', PStr ''high''), (''reason'', PStr ''escalating'')])) (\<lambda>_. [])
                 pv start finish limit)
      | _ \<Rightarrow> Inl PreviewException)"

section \<open>Conditions on the state of an issue\<close>

definition ISSUE_STATE_CONDITIONS :: "string list" where
  "ISSUE_STATE_CONDITIONS =
    [''sentry.rules.conditions.first_seen_event.FirstSeenEventCondition'',
     ''sentry.rules.conditions.regression_event.RegressionEventCondition'',
     ''sentry.rules.conditions.reappeared_event.ReappearedEventCondition'',
     ''sentry.rules.conditions.high_priority_issue.NewHighPriorityIssueCondition'',
     ''sentry.rules.conditions.high_priority_issue.ExistingHighPriorityIssueCondition'']"

definition VALID_CONDITION_PAIRS :: "(string \<times> string) list" where
  "VALID_CONDITION_PAIRS =
    [(''sentry.rules.conditions.first_seen_event.FirstSeenEventCondition'',
      ''sentry.rules.conditions.high_priority_issue.NewHighPriorityIssueCondition''),
     (''sentry.rules.conditions.high_priority_issue.NewHighPriorityIssueCondition'',
      ''sentry.rules.conditions.first_seen_event.FirstSeenEventCondition''),
     (''sentry.rules.conditions.reappeared_event.ReappearedEventCondition'',
      ''sentry.rules.conditions.high_priority_issue.ExistingHighPriorityIssueCondition''),
     (''sentry.rules.conditions.high_priority_issue.ExistingHighPriorityIssueCondition'',
      ''sentry.rules.conditions.reappeared_event.ReappearedEventCondition'')]"

text \<open>Identifiers of conditions on the state, each once, and the conditions that count events; nothing if there are others.\<close>

definition categorize_conditions :: "rule_node list \<Rightarrow> string list \<times> frequency_condition list" where
  "categorize_conditions conditions =
     (if list_all (\<lambda>c. case c of SlowNode _ \<Rightarrow> True | PlainNode i _ \<Rightarrow> i \<in> set ISSUE_STATE_CONDITIONS) conditions
      then (remdups (concat (map (\<lambda>c. case c of SlowNode _ \<Rightarrow> [] | PlainNode i _ \<Rightarrow> [i]) conditions)),
            concat (map (\<lambda>c. case c of SlowNode d \<Rightarrow> [d] | PlainNode _ _ \<Rightarrow> []) conditions))
      else ([], []))"

definition mutually_exclusive :: "string list \<Rightarrow> bool" where
  "mutually_exclusive ids =
     (length ids > 1 \<and>
      (length ids > 2 \<or> \<not> list_ex (\<lambda>c. c \<in> set (map fst VALID_CONDITION_PAIRS)) ids
       \<or> list_ex (\<lambda>c. case map_of VALID_CONDITION_PAIRS c of None \<Rightarrow> False | Some d \<Rightarrow> d \<notin> set ids) ids))"

type_synonym group_activities = "(nat, condition_activity list) dict"

definition add_activity :: "group_activities \<Rightarrow> condition_activity \<Rightarrow> group_activities" where
  "add_activity d a = dict_set (ac_issue a) ((case dict_get d (ac_issue a) of None \<Rightarrow> [] | Some as \<Rightarrow> as) @ [a]) d"

definition get_issue_state_activity :: "preview_env \<Rightarrow> string list \<Rightarrow> rat \<Rightarrow> rat \<Rightarrow> group_activities result" where
  "get_issue_state_activity pv ids start finish =
     bind_result (traverse (\<lambda>i. case rule_class_of i of None \<Rightarrow> Inl PreviewException
                     | Some cls \<Rightarrow> get_activity cls pv start finish CONDITION_ACTIVITY_LIMIT) ids) (\<lambda>ass.
       Inr (map (\<lambda>(g, as). (g, sort_key ac_time as)) (foldl add_activity [] (concat ass))))"

section \<open>Filters\<close>

definition ATTR_CHOICES :: "(string \<times> bool) list" where
  \<comment> \<open>whether there is a column\<close>
  "ATTR_CHOICES = map (\<lambda>a. (a, a \<noteq> ''stacktrace.code''))
    [''message'', ''platform'', ''environment'', ''type'', ''error.handled'', ''error.unhandled'', ''error.main_thread'',
     ''exception.type'', ''exception.value'', ''user.id'', ''user.email'', ''user.username'', ''user.ip_address'', ''http.method'',
     ''http.url'', ''http.status_code'', ''sdk.name'', ''stacktrace.code'', ''stacktrace.module'', ''stacktrace.filename'',
     ''stacktrace.abs_path'', ''stacktrace.package'', ''unreal.crashtype'', ''app.in_foreground'', ''os.distribution.name'',
     ''os.distribution.version'']"

definition attribute_column :: "pyval \<Rightarrow> unit result" where
  \<comment> \<open>\<open>ATTR_CHOICES[attr]\<close>, which must be a column\<close>
  "attribute_column a =
     (case a of
        PStr s \<Rightarrow> (case map_of ATTR_CHOICES s of None \<Rightarrow> Inl KeyError | Some c \<Rightarrow> if c then Inr () else Inl PreviewException)
      | _ \<Rightarrow> Inl (if hashable a then KeyError else TypeError))"

text \<open>Whether a filter needs the data of events (\<open>get_event_columns\<close>).\<close>

fun needs_event :: "rule_node \<Rightarrow> bool result" where
  "needs_event (SlowNode d) = Inr False"
| "needs_event (PlainNode i d) =
     (case rule_class_of i of
        None \<Rightarrow> Inl PreviewException
      | Some cls \<Rightarrow>
          if cls \<in> {Level, LevelFilter, TaggedEvent, TaggedEventFilter} then Inr True
          else if cls \<in> {EventAttribute, EventAttributeFilter}
          then bind_result (attribute_column (get_option d ''attribute'' PNone)) (\<lambda>_. Inr True)
          else Inr False)"

definition get_filters :: "rule_node list \<Rightarrow> string \<Rightarrow> ((bool list \<Rightarrow> bool) \<times> bool) result" where
  "get_filters filters filter_match =
     bind_result (traverse needs_event filters) (\<lambda>needs.
       case get_match_function filter_match of None \<Rightarrow> Inl PreviewException | Some f \<Rightarrow> Inr (f, list_ex id needs))"

definition caught_lookup :: "bool result \<Rightarrow> bool result" where
  \<comment> \<open>\<open>except (TypeError, KeyError): return False\<close>\<close>
  "caught_lookup r = (case r of Inl e \<Rightarrow> if e = TypeError \<or> e = KeyError then Inr False else Inl e | Inr b \<Rightarrow> Inr b)"

definition attribute_passes_activity :: "preview_env \<Rightarrow> rule_data \<Rightarrow> condition_activity \<Rightarrow> bool result" where
  "attribute_passes_activity pv d a =
     caught_lookup (bind_result (py_lower (get_option d ''attribute'' PNone)) (\<lambda>attr.
       bind_result (attribute_column (PStr attr)) (\<lambda>_.
         case pv_column pv a attr of
           None \<Rightarrow> Inl KeyError
         | Some v \<Rightarrow>
             bind_result (case v of PStr s \<Rightarrow> Inr [PStr s] | _ \<Rightarrow> py_iter v) (\<lambda>values.
               attribute_values_pass (pv_repr pv) d
                 (if attr = ''error.unhandled'' then map (\<lambda>v. PBool (\<not> py_truth v)) values else values)))))"

definition occurrences_pass_activity :: "preview_env \<Rightarrow> rule_data \<Rightarrow> condition_activity \<Rightarrow> issue \<Rightarrow> bool" where
  \<comment> \<open>as if the occurrences were spread evenly\<close>
  "occurrences_pass_activity pv d a i =
     (case caught_int (get_option d ''value'' PNone) of
        None \<Rightarrow> False
      | Some v \<Rightarrow>
          if pv_now pv = is_first_seen i then is_times_seen i \<ge> v
          else (ac_time a - is_first_seen i) / (pv_now pv - is_first_seen i) * of_int (is_times_seen i) \<ge> of_int v)"

definition issue_row :: "preview_env \<Rightarrow> nat \<Rightarrow> issue option" where
  "issue_row pv g = find (\<lambda>i. is_id i = g) (pv_issues pv)"

fun passes_activity :: "preview_env \<Rightarrow> rule_node \<Rightarrow> condition_activity \<Rightarrow> bool result" where
  "passes_activity pv (SlowNode d) a = Inl PreviewException"
| "passes_activity pv (PlainNode i d) a =
     (case rule_class_of i of
        None \<Rightarrow> Inl PreviewException
      | Some cls \<Rightarrow>
          if cls \<in> {Level, LevelFilter} then
            caught_lookup (case pv_tags pv a of None \<Rightarrow> Inl KeyError | Some tags \<Rightarrow>
              (case map_of tags ''level'' of None \<Rightarrow> Inl KeyError | Some l \<Rightarrow> level_passes_name d l))
          else if cls \<in> {TaggedEvent, TaggedEventFilter} then
            caught_lookup (case pv_tags pv a of None \<Rightarrow> Inl KeyError | Some tags \<Rightarrow> tags_pass d tags)
          else if cls \<in> {EventAttribute, EventAttributeFilter} then attribute_passes_activity pv d a
          else if cls = AgeComparison then
            Inr (case issue_row pv (ac_issue a) of None \<Rightarrow> False | Some g \<Rightarrow> age_passes_at d (is_first_seen g) (ac_time a))
          else if cls = IssueOccurrences then
            Inr (case issue_row pv (ac_issue a) of None \<Rightarrow> False | Some g \<Rightarrow> occurrences_pass_activity pv d a g)
          else if cls = IssueCategory then
            Inr (case issue_row pv (ac_issue a) of None \<Rightarrow> False | Some g \<Rightarrow> issue_category_passes d g)
          else Inl PreviewException)"

section \<open>Firing\<close>

fun fire_activities ::
  "(condition_activity \<Rightarrow> bool list result) \<Rightarrow> (bool list \<Rightarrow> bool) \<Rightarrow> rat \<Rightarrow> rat \<Rightarrow> rat option \<Rightarrow> condition_activity list \<Rightarrow> rat option result" where
  "fire_activities passes func frequency last_fire fired [] = Inr fired"
| "fire_activities passes func frequency last_fire fired (a # as) =
     bind_result (passes a) (\<lambda>ps.
       if last_fire \<le> ac_time a - frequency \<and> func ps
       then fire_activities passes func frequency (ac_time a) (Some (ac_time a)) as
       else fire_activities passes func frequency last_fire fired as)"

definition get_fired_groups ::
  "group_activities \<Rightarrow> (condition_activity \<Rightarrow> bool list result) \<Rightarrow> (bool list \<Rightarrow> bool) \<Rightarrow> rat \<Rightarrow> rat \<Rightarrow> (nat, rat) dict result" where
  "get_fired_groups groups passes func start frequency =
     bind_result (traverse (\<lambda>(g, as). bind_result (fire_activities passes func frequency (start - frequency) None as) (\<lambda>t. Inr (g, t))) groups)
       (\<lambda>fires. Inr (concat (map (\<lambda>(g, t). case t of None \<Rightarrow> [] | Some t \<Rightarrow> [(g, t)]) fires)))"

section \<open>Conditions that count events\<close>

text \<open>
  The counts come with the latest bucket first and only where there are events; the loop fills the others and
  adds up.
\<close>

function fill_buckets :: "rat \<Rightarrow> rat \<Rightarrow> int \<Rightarrow> (rat \<times> int) list \<Rightarrow> (rat, int) dict" where
  "fill_buckets rounded_time rounded_end cumulative counts =
     (if rounded_time \<le> rounded_end then
        let found = counts \<noteq> [] \<and> fst (last counts) = rounded_time;
            cumulative = (if found then cumulative + snd (last counts) else cumulative);
            counts = (if found then butlast counts else counts)
        in (rounded_time, cumulative) # fill_buckets (rounded_time + FREQUENCY_CONDITION_BUCKET_SIZE) rounded_end cumulative counts
      else [])"
  by auto
termination
proof (relation "measure (\<lambda>(t, e, _). nat (\<lfloor>(e - t) / 300\<rfloor> + 1))")
  fix t e :: rat
  assume "t \<le> e"
  then have "0 \<le> \<lfloor>(e - t) / 300\<rfloor>" by simp
  moreover have "(e - (t + 300)) / 300 = (e - t) / 300 - 1" by (simp add: field_simps)
  then have "\<lfloor>(e - (t + 300)) / 300\<rfloor> = \<lfloor>(e - t) / 300\<rfloor> - 1" by (simp only: floor_diff_one)
  ultimately show "((t + FREQUENCY_CONDITION_BUCKET_SIZE, e, x, y), t, e, cumulative, counts) \<in> measure (\<lambda>(t, e, _). nat (\<lfloor>(e - t) / 300\<rfloor> + 1))"
    for x y cumulative counts
    by (simp add: FREQUENCY_CONDITION_BUCKET_SIZE_def)
qed simp_all

declare fill_buckets.simps [simp del]

definition get_frequency_buckets :: "rat \<Rightarrow> rat \<Rightarrow> (rat \<times> int) list \<Rightarrow> (rat, int) dict" where
  "get_frequency_buckets start finish counts = fill_buckets (round_to_five_minute start) (round_to_five_minute finish) 0 counts"

definition bucket_count :: "rat \<Rightarrow> rat \<Rightarrow> (rat, int) dict \<Rightarrow> int" where
  "bucket_count start finish buckets =
     (let upto = (\<lambda>t. case dict_get buckets t of None \<Rightarrow> 0 | Some n \<Rightarrow> n)
      in upto (round_to_five_minute finish) - upto (round_to_five_minute start))"

text \<open>An interval below five minutes is taken as five minutes, and a count as often as it fits.\<close>

definition passes_activity_frequency :: "frequency_condition \<Rightarrow> rat \<Rightarrow> (rat, int) dict \<Rightarrow> bool result" where
  "passes_activity_frequency d time buckets =
     (if fc_class d = FrequencyPercent then Inl PreviewException
      else if fc_interval d = '''' then Inr False
      else case map_of (class_intervals (fc_class d)) (fc_interval d) of
        None \<Rightarrow> Inl KeyError
      | Some delta \<Rightarrow>
          let small = delta < FREQUENCY_CONDITION_BUCKET_SIZE;
              threshold = (if small \<and> \<not> is_percent d then fc_value d * of_int \<lfloor>FREQUENCY_CONDITION_BUCKET_SIZE / delta\<rfloor> else fc_value d);
              delta = (if small then FREQUENCY_CONDITION_BUCKET_SIZE else delta);
              result = bucket_count (time - delta) time buckets
          in if is_percent d then
               (case fc_comparison_interval d of
                  None \<Rightarrow> Inl KeyError
                | Some k \<Rightarrow>
                    (case map_of COMPARISON_INTERVALS k of
                       None \<Rightarrow> Inl KeyError
                     | Some comparison \<Rightarrow>
                         let comparison_end = time - comparison
                         in Inr (of_int (percent_increase result (bucket_count (comparison_end - delta) comparison_end buckets)) > threshold)))
             else Inr (of_int result > threshold))"

definition condition_types :: "frequency_condition list \<Rightarrow> (frequency_class, frequency_condition list) dict" where
  "condition_types ds =
     foldl (\<lambda>t d. dict_set (fc_class d) ((case dict_get t (fc_class d) of None \<Rightarrow> [] | Some xs \<Rightarrow> xs) @ [d]) t) [] ds"

definition group_buckets :: "preview_env \<Rightarrow> rat \<Rightarrow> rat \<Rightarrow> nat \<Rightarrow> frequency_class \<Rightarrow> (rat, int) dict result" where
  \<comment> \<open>the share of sessions has no aggregate\<close>
  "group_buckets pv start finish g cls =
     (if cls = FrequencyPercent then Inl PreviewException else Inr (get_frequency_buckets start finish (pv_counts pv g cls)))"

definition bucket_activity :: "nat \<Rightarrow> rat \<Rightarrow> condition_activity" where
  "bucket_activity g t = \<lparr>ac_issue = g, ac_type = FrequencyReached, ac_time = t, ac_data = []\<rparr>"

definition passing_buckets :: "frequency_condition \<Rightarrow> (rat, int) dict \<Rightarrow> rat list result" where
  "passing_buckets d buckets =
     bind_result (traverse (\<lambda>(t, n). bind_result (passes_activity_frequency d t buckets) (\<lambda>b. Inr (if b then [t] else []))) buckets)
       (\<lambda>ts. Inr (concat ts))"

text \<open>\<open>all\<close>: activities with whether they still pass; a condition is only asked about those that do.\<close>

fun still_passing :: "frequency_condition \<Rightarrow> (rat, int) dict \<Rightarrow> (condition_activity \<times> bool) list \<Rightarrow> (condition_activity \<times> bool) list result" where
  "still_passing d buckets [] = Inr []"
| "still_passing d buckets ((a, p) # as) =
     bind_result (if p then passes_activity_frequency d (ac_time a) buckets else Inr False) (\<lambda>b.
       bind_result (still_passing d buckets as) (\<lambda>rest. Inr ((a, b) # rest)))"

fun apply_conditions :: "(rat, int) dict \<Rightarrow> frequency_condition list \<Rightarrow> (condition_activity \<times> bool) list \<Rightarrow> (condition_activity \<times> bool) list result" where
  "apply_conditions buckets [] as = Inr as"
| "apply_conditions buckets (d # ds) as = bind_result (still_passing d buckets as) (apply_conditions buckets ds)"

fun all_types ::
  "preview_env \<Rightarrow> rat \<Rightarrow> rat \<Rightarrow> nat \<Rightarrow> bool \<Rightarrow> (frequency_class \<times> frequency_condition list) list \<Rightarrow> (condition_activity \<times> bool) list
     \<Rightarrow> (condition_activity \<times> bool) list result" where
  \<comment> \<open>whether the first activities are still to be made from the first condition\<close>
  "all_types pv start finish g initial [] as = Inr as"
| "all_types pv start finish g initial ((cls, ds) # types) as =
     bind_result (group_buckets pv start finish g cls) (\<lambda>buckets.
       if initial then
         bind_result (passing_buckets (hd ds) buckets) (\<lambda>ts.
           bind_result (apply_conditions buckets (tl ds) (map (\<lambda>a. (a, True)) (map fst as @ map (bucket_activity g) ts)))
             (all_types pv start finish g False types))
       else bind_result (apply_conditions buckets ds as) (all_types pv start finish g False types))"

definition apply_all ::
  "preview_env \<Rightarrow> rat \<Rightarrow> rat \<Rightarrow> frequency_condition list \<Rightarrow> bool \<Rightarrow> nat \<times> condition_activity list \<Rightarrow> (nat \<times> condition_activity list) result" where
  "apply_all pv start finish ds has_issue_state = (\<lambda>(g, as).
     bind_result (all_types pv start finish g (\<not> has_issue_state) (condition_types ds) (map (\<lambda>a. (a, True)) as)) (\<lambda>aps.
       Inr (g, map fst (filter snd aps))))"

text \<open>\<open>any\<close>: a bucket that passes a condition is an activity, once.\<close>

definition apply_any :: "preview_env \<Rightarrow> rat \<Rightarrow> rat \<Rightarrow> frequency_condition list \<Rightarrow> nat \<times> condition_activity list \<Rightarrow> (nat \<times> condition_activity list) result" where
  "apply_any pv start finish ds = (\<lambda>(g, as).
     bind_result (traverse (\<lambda>(cls, ds). bind_result (group_buckets pv start finish g cls) (\<lambda>buckets.
                    traverse (\<lambda>d. passing_buckets d buckets) ds)) (condition_types ds)) (\<lambda>tss.
       Inr (g, sort_key ac_time (as @ map (bucket_activity g) (remdups (concat (concat tss)))))))"

definition apply_frequency_conditions ::
  "preview_env \<Rightarrow> rat \<Rightarrow> rat \<Rightarrow> group_activities \<Rightarrow> frequency_condition list \<Rightarrow> string \<Rightarrow> bool \<Rightarrow> group_activities result" where
  "apply_frequency_conditions pv start finish groups ds condition_match has_issue_state =
     (if condition_match = ''all'' then traverse (apply_all pv start finish ds has_issue_state) groups
      else if condition_match = ''any'' then traverse (apply_any pv start finish ds) groups
      else Inr [])"

definition get_top_groups :: "preview_env \<Rightarrow> group_activities \<Rightarrow> bool \<Rightarrow> group_activities" where
  "get_top_groups pv groups has_issue_state =
     (let found = pv_top pv (if has_issue_state then Some (map fst groups) else None);
          top = take FREQUENCY_CONDITION_GROUP_LIMIT (rev (sort_key snd (rev found)))
      in foldl (\<lambda>d (g, n). dict_set g (case dict_get groups g of None \<Rightarrow> [] | Some as \<Rightarrow> as) d) [] top)"

section \<open>The preview\<close>

definition preview_fires ::
  "preview_env \<Rightarrow> string list \<Rightarrow> frequency_condition list \<Rightarrow> rule_node list \<Rightarrow> string \<Rightarrow> string \<Rightarrow> rat \<Rightarrow> rat \<Rightarrow> rat
     \<Rightarrow> (nat, rat) dict option result" where
  "preview_fires pv ids ds filters condition_match filter_match frequency start finish =
     bind_result (get_issue_state_activity pv ids start finish) (\<lambda>groups.
       bind_result (get_filters filters filter_match) (\<lambda>(func, event_columns).
         if ds \<noteq> [] \<and> event_columns then Inr None
         else bind_result (if ds = [] then Inr groups
                  else apply_frequency_conditions pv start finish (get_top_groups pv groups (ids \<noteq> [])) ds condition_match (ids \<noteq> []))
                (\<lambda>groups. bind_result (get_fired_groups groups (\<lambda>a. traverse (\<lambda>f. passes_activity pv f a) filters) func start frequency)
                   (\<lambda>fires. Inr (Some fires)))))"

definition preview ::
  "preview_env \<Rightarrow> rule_node list \<Rightarrow> rule_node list \<Rightarrow> string \<Rightarrow> string \<Rightarrow> rat \<Rightarrow> rat \<Rightarrow> (nat, rat) dict option result" where
  "preview pv conditions filters condition_match filter_match minutes finish =
     (let (ids, ds) = categorize_conditions conditions
      in if ids = [] \<and> ds = [] then Inr None
         else if condition_match = ''all'' \<and> mutually_exclusive ids then Inr (Some [])
         else case preview_fires pv ids ds filters condition_match filter_match (60 * minutes) (finish - PREVIEW_TIME_RANGE) finish of
                Inl e \<Rightarrow> if e = PreviewException then Inr None else Inl e
              | Inr r \<Rightarrow> Inr r)"

section \<open>Counting in buckets\<close>

text \<open>The counts before a time, of buckets given with the latest first.\<close>

definition count_upto :: "rat \<Rightarrow> (rat \<times> int) list \<Rightarrow> int" where
  "count_upto x counts = sum_list (map snd (filter (\<lambda>(t, _). t \<le> x) counts))"

definition on_grid :: "rat \<Rightarrow> bool" where
  "on_grid t = (round_to_five_minute t = t)"

lemma on_grid_iff: "on_grid t \<longleftrightarrow> (\<exists>k. t = 300 * of_int k)"
proof
  assume "\<exists>k. t = 300 * of_int k"
  then show "on_grid t" by (auto simp: on_grid_def round_to_five_minute_def)
qed (auto simp: on_grid_def round_to_five_minute_def dest: sym)

lemma round_on_grid [simp]: "on_grid (round_to_five_minute t)"
  unfolding on_grid_iff by (auto simp: round_to_five_minute_def)

lemma grid_step:
  assumes "on_grid s" "on_grid t" "s < t"
  shows "s + 300 \<le> t"
proof -
  from assms obtain j k where jk: "s = 300 * of_int j" "t = 300 * of_int k" unfolding on_grid_iff by blast
  with assms(3) have "j < k" by simp
  then have "(of_int (j + 1) :: rat) \<le> of_int k" by (simp only: of_int_le_iff)
  then show ?thesis by (simp add: jk)
qed

lemma grid_next: "on_grid t \<Longrightarrow> on_grid (t + 300)"
proof -
  assume "on_grid t"
  then obtain k where "t = 300 * of_int k" unfolding on_grid_iff by blast
  then have "t + 300 = 300 * of_int (k + 1)" by simp
  then show ?thesis unfolding on_grid_iff by blast
qed

lemma round_mono: "s \<le> t \<Longrightarrow> round_to_five_minute s \<le> round_to_five_minute t"
  by (simp add: round_to_five_minute_def floor_mono divide_right_mono)

definition buckets_from :: "rat \<Rightarrow> (rat \<times> int) list \<Rightarrow> bool" where
  "buckets_from t counts = (sorted_wrt (\<lambda>a b. fst b < fst a) counts \<and> (\<forall>c \<in> set counts. on_grid (fst c) \<and> t \<le> fst c))"

lemma buckets_from_next:
  assumes "buckets_from t counts" "on_grid t"
  shows "counts \<noteq> [] \<and> fst (last counts) = t \<Longrightarrow> buckets_from (t + 300) (butlast counts)"
    and "\<not> (counts \<noteq> [] \<and> fst (last counts) = t) \<Longrightarrow> buckets_from (t + 300) counts"
proof -
  have s: "sorted_wrt (\<lambda>a b. fst b < fst a) counts" and g: "\<forall>c \<in> set counts. on_grid (fst c) \<and> t \<le> fst c"
    using assms(1) by (auto simp: buckets_from_def)
  show "buckets_from (t + 300) (butlast counts)" if l: "counts \<noteq> [] \<and> fst (last counts) = t"
  proof -
    have "counts = butlast counts @ [last counts]" using l by simp
    with s have "sorted_wrt (\<lambda>a b. fst b < fst a) (butlast counts @ [last counts])" by simp
    then have "sorted_wrt (\<lambda>a b. fst b < fst a) (butlast counts)" "\<forall>c \<in> set (butlast counts). fst (last counts) < fst c"
      unfolding sorted_wrt_append by simp_all
    moreover have "fst (last counts) = t" using l by simp
    ultimately have "sorted_wrt (\<lambda>a b. fst b < fst a) (butlast counts)" "\<forall>c \<in> set (butlast counts). t < fst c" by simp_all
    then show ?thesis using g grid_step [OF assms(2)] by (auto simp: buckets_from_def dest: in_set_butlastD)
  qed
  show "buckets_from (t + 300) counts" if l: "\<not> (counts \<noteq> [] \<and> fst (last counts) = t)"
  proof (cases counts rule: rev_cases)
    case Nil
    then show ?thesis by (simp add: buckets_from_def)
  next
    case (snoc cs c)
    have "t < fst c" using l g snoc by (auto simp: less_le)
    moreover have "\<forall>d \<in> set cs. fst c < fst d" using s by (simp add: snoc sorted_wrt_append)
    ultimately have "\<forall>d \<in> set counts. t < fst d" using snoc by fastforce
    then show ?thesis using s g grid_step [OF assms(2)] by (auto simp: buckets_from_def)
  qed
qed

lemma count_upto_below: "(\<forall>c \<in> set counts. x < fst c) \<Longrightarrow> count_upto x counts = 0"
  by (induction counts) (auto simp: count_upto_def)

lemma count_upto_last:
  assumes "counts \<noteq> []" "fst (last counts) \<le> x"
  shows "count_upto x counts = count_upto x (butlast counts) + snd (last counts)"
proof -
  have "count_upto x (butlast counts @ [last counts]) = count_upto x (butlast counts) + snd (last counts)"
    using assms(2) by (cases "last counts") (simp add: count_upto_def)
  then show ?thesis using assms(1) by simp
qed

lemma fill_buckets_get:
  "on_grid t \<Longrightarrow> on_grid x \<Longrightarrow> t \<le> x \<Longrightarrow> x \<le> e \<Longrightarrow> buckets_from t counts \<Longrightarrow>
     dict_get (fill_buckets t e n counts) x = Some (n + count_upto x counts)"
proof (induction t e n counts rule: fill_buckets.induct)
  case (1 t e n counts)
  let ?found = "counts \<noteq> [] \<and> fst (last counts) = t"
  let ?n = "if ?found then n + snd (last counts) else n" and ?cs = "if ?found then butlast counts else counts"
  have u: "fill_buckets t e n counts = (t, ?n) # fill_buckets (t + 300) e ?n ?cs"
    using "1.prems" by (subst fill_buckets.simps) (simp add: Let_def FREQUENCY_CONDITION_BUCKET_SIZE_def)
  have b: "buckets_from (t + 300) ?cs" using buckets_from_next [OF "1.prems"(5,1)] by simp
  have c: "count_upto x counts = ?n - n + count_upto x ?cs"
    using count_upto_last [of counts x] "1.prems"(3) by simp
  show ?case
  proof (cases "x = t")
    case True
    have "\<forall>c \<in> set ?cs. t + 300 \<le> fst c" using b by (simp add: buckets_from_def)
    then have "count_upto x ?cs = 0" unfolding True by (intro count_upto_below ballI) force
    then show ?thesis using c by (simp add: u True dict_get_def)
  next
    case False
    then have "t < x" using "1.prems"(3) by simp
    from grid_step [OF "1.prems"(1,2) this] have "t + 300 \<le> x" .
    then have "dict_get (fill_buckets (t + 300) e ?n ?cs) x = Some (?n + count_upto x ?cs)"
      using "1.IH" [OF _ refl refl refl] "1.prems" b grid_next by (simp add: FREQUENCY_CONDITION_BUCKET_SIZE_def)
    then show ?thesis using False c by (simp add: u dict_get_def)
  qed
qed

lemma fill_buckets_keys: "(x, v) \<in> set (fill_buckets t e n counts) \<Longrightarrow> t \<le> x \<and> x \<le> e"
proof (induction t e n counts rule: fill_buckets.induct)
  case (1 t e n counts)
  show ?case
  proof (cases "t \<le> e")
    case True
    with "1.prems" have "x = t \<or> t + 300 \<le> x \<and> x \<le> e"
      using "1.IH" [OF True refl refl refl]
      by (subst (asm) fill_buckets.simps) (auto simp: Let_def FREQUENCY_CONDITION_BUCKET_SIZE_def)
    with True show ?thesis by auto
  next
    case False
    with "1.prems" show ?thesis by (subst (asm) fill_buckets.simps) simp
  qed
qed

lemma count_between:
  assumes "s \<le> t"
  shows "count_upto t counts - count_upto s counts = sum_list (map snd (filter (\<lambda>(x, _). s < x \<and> x \<le> t) counts))"
  using assms by (induction counts) (auto simp: count_upto_def)

text \<open>
  C35. The difference of two sums is the number of events between: for a window that ends in the range of the preview, also
  when it begins before the range, the count is that of the buckets in the window, the first excluded and the last included.
\<close>

theorem bucket_count_exact:
  assumes "sorted_wrt (\<lambda>a b. fst b < fst a) counts" "\<forall>c \<in> set counts. on_grid (fst c) \<and> round_to_five_minute start \<le> fst c"
    and "a \<le> b" "b \<le> finish"
  shows "bucket_count a b (get_frequency_buckets start finish counts)
    = sum_list (map snd (filter (\<lambda>(t, _). round_to_five_minute a < t \<and> t \<le> round_to_five_minute b) counts))"
proof -
  have from_start: "buckets_from (round_to_five_minute start) counts" using assms(1,2) by (simp add: buckets_from_def)
  have upto: "(case dict_get (get_frequency_buckets start finish counts) (round_to_five_minute x) of None \<Rightarrow> 0 | Some n \<Rightarrow> n)
      = count_upto (round_to_five_minute x) counts" if x: "x \<le> finish" for x
  proof (cases "round_to_five_minute start \<le> round_to_five_minute x")
    case True
    then show ?thesis
      using fill_buckets_get [OF round_on_grid round_on_grid True round_mono [OF x] from_start, of 0] by (simp add: get_frequency_buckets_def)
  next
    case False
    then have "count_upto (round_to_five_minute x) counts = 0"
      by (intro count_upto_below) (use assms(2) in force)
    moreover have "dict_get (get_frequency_buckets start finish counts) (round_to_five_minute x) = None"
      using False fill_buckets_keys dict_get_in unfolding get_frequency_buckets_def by (metis not_Some_eq)
    ultimately show ?thesis by simp
  qed
  show ?thesis
    using upto [OF assms(4)] upto [of a] assms(3,4) count_between [OF round_mono [OF assms(3)], of counts] by (simp add: bucket_count_def Let_def)
qed

section \<open>Spacing of fires\<close>

abbreviation passing :: "(condition_activity \<Rightarrow> bool list result) \<Rightarrow> (bool list \<Rightarrow> bool) \<Rightarrow> condition_activity \<Rightarrow> bool" where
  "passing passes func a \<equiv> \<exists>ps. passes a = Inr ps \<and> func ps"

lemma fire_activities_last:
  assumes "fire_activities passes func fr last_fire fired as = Inr r" "sorted (map ac_time as)" "0 < fr"
  shows "r = fired \<and> (\<forall>a \<in> set as. passing passes func a \<longrightarrow> ac_time a < last_fire + fr)
    \<or> (\<exists>t. r = Some t \<and> last_fire + fr \<le> t \<and> (\<exists>a \<in> set as. ac_time a = t \<and> passing passes func a)
         \<and> (\<forall>a \<in> set as. passing passes func a \<longrightarrow> ac_time a < t + fr))"
  using assms
proof (induction as arbitrary: last_fire fired)
  case (Cons a as)
  obtain ps where ps: "passes a = Inr ps" using Cons.prems(1) by (cases "passes a") auto
  have le: "\<forall>b \<in> set as. ac_time a \<le> ac_time b" and so: "sorted (map ac_time as)" using Cons.prems(2) by auto
  show ?case
  proof (cases "last_fire \<le> ac_time a - fr \<and> func ps")
    case True
    then have f: "fire_activities passes func fr (ac_time a) (Some (ac_time a)) as = Inr r" using Cons.prems(1) ps by simp
    from Cons.IH [OF f so Cons.prems(3)] show ?thesis
    proof (elim disjE exE conjE)
      assume "r = Some (ac_time a)" "\<forall>b \<in> set as. passing passes func b \<longrightarrow> ac_time b < ac_time a + fr"
      then show ?thesis using True ps Cons.prems(3) by (intro disjI2 exI [of _ "ac_time a"]) auto
    next
      fix t assume t: "r = Some t" "ac_time a + fr \<le> t" "\<exists>b \<in> set as. ac_time b = t \<and> passing passes func b"
        "\<forall>b \<in> set as. passing passes func b \<longrightarrow> ac_time b < t + fr"
      then show ?thesis using True Cons.prems(3) by (intro disjI2 exI [of _ t]) auto
    qed
  next
    case False
    then have f: "fire_activities passes func fr last_fire fired as = Inr r" using Cons.prems(1) ps by auto
    have n: "passing passes func a \<longrightarrow> ac_time a < last_fire + fr" using False ps by auto
    from Cons.IH [OF f so Cons.prems(3)] show ?thesis
    proof (elim disjE exE conjE)
      assume "r = fired" "\<forall>b \<in> set as. passing passes func b \<longrightarrow> ac_time b < last_fire + fr"
      then show ?thesis using n by auto
    next
      fix t assume t: "r = Some t" "last_fire + fr \<le> t" "\<exists>b \<in> set as. ac_time b = t \<and> passing passes func b"
        "\<forall>b \<in> set as. passing passes func b \<longrightarrow> ac_time b < t + fr"
      moreover have "passing passes func a \<longrightarrow> ac_time a < t + fr" using n t(2) Cons.prems(3) by auto
      ultimately show ?thesis by (intro disjI2 exI [of _ t]) auto
    qed
  qed
qed simp

lemma fired_groups_Cons:
  "get_fired_groups ((h, bs) # groups) passes func start fr = Inr fires \<longleftrightarrow>
     (\<exists>t rest. fire_activities passes func fr (start - fr) None bs = Inr t \<and> get_fired_groups groups passes func start fr = Inr rest
        \<and> fires = (case t of None \<Rightarrow> [] | Some t \<Rightarrow> [(h, t)]) @ rest)"
  unfolding get_fired_groups_def by (fastforce simp: bind_result_Inr_iff)

lemma fired_keys: "get_fired_groups groups passes func start fr = Inr fires \<Longrightarrow> fst ` set fires \<subseteq> fst ` set groups"
proof (induction groups arbitrary: fires)
  case (Cons x groups)
  obtain h bs where x: "x = (h, bs)" by (cases x)
  from Cons.prems obtain t rest where r: "get_fired_groups groups passes func start fr = Inr rest"
      "fires = (case t of None \<Rightarrow> [] | Some t \<Rightarrow> [(h, t)]) @ rest"
    unfolding x fired_groups_Cons by blast
  then show ?case using Cons.IH [OF r(1)] by (cases t) (auto simp: x)
qed (simp add: get_fired_groups_def)

lemma fired_group:
  assumes "get_fired_groups groups passes func start fr = Inr fires" "distinct (map fst groups)" "(g, as) \<in> set groups"
  shows "fire_activities passes func fr (start - fr) None as = Inr (dict_get fires g)"
  using assms
proof (induction groups arbitrary: fires)
  case (Cons x groups)
  obtain h bs where x: "x = (h, bs)" by (cases x)
  from Cons.prems(1) obtain t rest where t: "fire_activities passes func fr (start - fr) None bs = Inr t"
      and rest: "get_fired_groups groups passes func start fr = Inr rest"
      and fires: "fires = (case t of None \<Rightarrow> [] | Some t \<Rightarrow> [(h, t)]) @ rest"
    unfolding x fired_groups_Cons by blast
  show ?case
  proof (cases "g = h")
    case True
    then have "as = bs" using Cons.prems(2,3) x by (force simp: image_iff)
    moreover have "dict_get rest g = None"
    proof (cases "dict_get rest g")
      case (Some u)
      then have "g \<in> fst ` set groups" using fired_keys [OF rest] dict_get_in [OF Some] by force
      then show ?thesis using Cons.prems(2) True x by simp
    qed
    ultimately show ?thesis using t True by (cases t) (simp_all add: fires dict_get_def)
  next
    case False
    then have "fire_activities passes func fr (start - fr) None as = Inr (dict_get rest g)"
      using Cons.IH [OF rest] Cons.prems(2,3) x by simp
    then show ?thesis using False by (cases t) (simp_all add: fires dict_get_def)
  qed
qed simp

text \<open>
  The preview reports for each issue the last time the rule would have fired: an activity of the issue in the range
  at which the filters hold, with none a full frequency after it. An issue is missing only if the filters
  hold for none of its activities in the range.
\<close>

theorem preview_reports_last_fire:
  assumes "get_fired_groups groups passes func start fr = Inr fires" "distinct (map fst groups)" "(g, as) \<in> set groups"
    and "sorted (map ac_time as)" "0 < fr"
  shows "case dict_get fires g of
      None \<Rightarrow> \<forall>a \<in> set as. passing passes func a \<longrightarrow> ac_time a < start
    | Some t \<Rightarrow> start \<le> t \<and> (\<exists>a \<in> set as. ac_time a = t \<and> passing passes func a)
        \<and> (\<forall>a \<in> set as. passing passes func a \<longrightarrow> ac_time a < t + fr)"
  using fire_activities_last [OF fired_group [OF assms(1,2,3)] assms(4,5)] by (auto split: option.splits)

section \<open>Conditions that exclude each other\<close>

lemma holding_conditions:
  assumes "S \<subseteq> {f, r, b, n, e}" "f \<in> S \<Longrightarrow> N" "n \<in> S \<Longrightarrow> N" "r \<in> S \<Longrightarrow> R" "b \<in> S \<Longrightarrow> B" "e \<in> S \<Longrightarrow> \<not> N \<and> (B \<or> X)"
    and "\<not> (N \<and> (R \<or> B))" "\<not> (R \<and> (B \<or> X))"
  shows "S \<subseteq> {f, n} \<or> S \<subseteq> {r} \<or> S \<subseteq> {b, e}"
proof -
  have "b \<notin> S" "e \<notin> S" "r \<notin> S" if "f \<in> S \<or> n \<in> S" using that assms(2-8) by blast+
  moreover have "b \<notin> S" "e \<notin> S" if "r \<in> S" using that assms(4-8) by blast+
  ultimately show ?thesis using assms(1) by blast
qed

lemma few_conditions: "set ids \<subseteq> {x} \<Longrightarrow> distinct ids \<Longrightarrow> \<not> mutually_exclusive ids"
  by (cases ids; cases "tl ids") (auto simp: mutually_exclusive_def)

lemma paired_conditions:
  assumes "set ids \<subseteq> {x, y}" "distinct ids" "(x, y) \<in> set VALID_CONDITION_PAIRS" "(y, x) \<in> set VALID_CONDITION_PAIRS" "x \<noteq> y"
  shows "\<not> mutually_exclusive ids"
proof (cases "length ids > 1")
  case True
  have "card (set ids) \<le> card {x, y}" by (rule card_mono) (use assms(1) in auto)
  then have "length ids = 2" using True assms(2,5) by (simp add: distinct_card)
  then have "card (set ids) = card {x, y}" using assms(2,5) by (simp add: distinct_card)
  then have "set ids = {x, y}" using assms(1) by (intro card_subset_eq) auto
  moreover have "map_of VALID_CONDITION_PAIRS x = Some y" "map_of VALID_CONDITION_PAIRS y = Some x"
    using assms(3,4) by (intro map_of_is_SomeI; simp add: VALID_CONDITION_PAIRS_def)+
  ultimately show ?thesis using \<open>length ids = 2\<close> assms(3) by (force simp: mutually_exclusive_def list_ex_iff)
qed (simp add: mutually_exclusive_def)

text \<open>
  The preview answers at once that nothing fires when conditions exclude each other. This is right: such conditions
  never hold together, for a state in which an issue is not at once new and a regression or back, nor a regression
  and back or escalated.
\<close>

theorem exclusive_conditions_never_meet:
  assumes "mutually_exclusive ids" "set ids \<subseteq> set ISSUE_STATE_CONDITIONS" "distinct ids"
    and "\<not> (es_is_new state \<and> (es_is_regression state \<or> es_has_reappeared state))"
    and "\<not> (es_is_regression state \<and> (es_has_reappeared state \<or> es_has_escalated state))"
  shows "\<not> list_all (\<lambda>i. node_passes an now None ev state (PlainNode i []) = Some (Inr True)) ids"
proof
  assume "list_all (\<lambda>i. node_passes an now None ev state (PlainNode i []) = Some (Inr True)) ids"
  then have all: "\<And>i. i \<in> set ids \<Longrightarrow> node_passes an now None ev state (PlainNode i []) = Some (Inr True)"
    by (simp add: list_all_iff)
  let ?first = "''sentry.rules.conditions.first_seen_event.FirstSeenEventCondition''"
    and ?regression = "''sentry.rules.conditions.regression_event.RegressionEventCondition''"
    and ?again = "''sentry.rules.conditions.reappeared_event.ReappearedEventCondition''"
    and ?new = "''sentry.rules.conditions.high_priority_issue.NewHighPriorityIssueCondition''"
    and ?old = "''sentry.rules.conditions.high_priority_issue.ExistingHighPriorityIssueCondition''"
  note classes = rule_class_of_def condition_classes_def filter_classes_def
  have f: "?first \<in> set ids \<Longrightarrow> es_is_new state" using all [of ?first] by (simp add: classes first_seen_passes_def)
  have r: "?regression \<in> set ids \<Longrightarrow> es_is_regression state" using all [of ?regression] by (simp add: classes regression_passes_def)
  have b: "?again \<in> set ids \<Longrightarrow> es_has_reappeared state" using all [of ?again] by (simp add: classes reappeared_passes_def)
  have n: "?new \<in> set ids \<Longrightarrow> es_is_new state"
    using all [of ?new] by (simp add: classes new_high_priority_passes_def Let_def split: if_splits)
  have e: "?old \<in> set ids \<Longrightarrow> \<not> es_is_new state \<and> (es_has_reappeared state \<or> es_has_escalated state)"
    using all [of ?old] by (simp add: classes existing_high_priority_passes_def split: if_splits)
  have five: "set ids \<subseteq> {?first, ?regression, ?again, ?new, ?old}" using assms(2) by (simp only: ISSUE_STATE_CONDITIONS_def list.set)
  consider "set ids \<subseteq> {?first, ?new}" | "set ids \<subseteq> {?regression}" | "set ids \<subseteq> {?again, ?old}"
    using holding_conditions [OF five f n r b e assms(4,5)] by blast
  then show False
  proof cases
    case 1
    show False using paired_conditions [OF 1 assms(3)] assms(1) by (simp add: VALID_CONDITION_PAIRS_def)
  next
    case 2
    show False using few_conditions [OF 2 assms(3)] assms(1) by simp
  next
    case 3
    show False using paired_conditions [OF 3 assms(3)] assms(1) by (simp add: VALID_CONDITION_PAIRS_def)
  qed
qed

section \<open>Where the preview is not what the rule does\<close>

lemma fires_nothing:
  assumes "\<And>a. \<exists>ps. passes a = Inr ps \<and> \<not> func ps"
  shows "fire_activities passes func fr last_fire fired as = Inr fired"
proof (induction as)
  case (Cons a as)
  obtain ps where "passes a = Inr ps" "\<not> func ps" using assms by blast
  with Cons show ?case by simp
qed simp

text \<open>
  Without filters the processor does not ask for their match; the preview does, and \<open>any\<close> of no filter is
  false: it shows no issue for a rule that fires.
\<close>

theorem preview_any_without_filters:
  assumes "preview pv conditions [] condition_match ''any'' minutes finish = Inr (Some fires)"
  shows "fires = [] \<and> filters_pass ''any'' holds []"
proof -
  have none: "get_fired_groups groups (\<lambda>a. Inr []) (list_ex id) start fr = Inr []" for groups :: group_activities and start fr
  proof -
    have "fire_activities (\<lambda>a. Inr []) (list_ex id) fr (start - fr) None as = Inr None" for as
      by (rule fires_nothing) simp
    then show ?thesis by (induction groups) (auto simp: get_fired_groups_def bind_result_Inr_iff)
  qed
  have any: "get_filters [] ''any'' = Inr (list_ex id, False)"
    by (simp add: get_filters_def get_match_function_def)
  have "preview_fires pv ids ds [] condition_match ''any'' fr start finish = Inr (Some fires') \<Longrightarrow> fires' = []" for ids ds fr start fires'
    by (auto simp: preview_fires_def any none bind_result_Inr_iff)
  then have "fires = []" using assms
    by (auto simp: preview_def Let_def split: prod.splits if_splits sum.splits)
  then show ?thesis by (simp add: filters_pass_def)
qed

lemma preview_none_is_any:
  assumes "snd (categorize_conditions conditions) = []"
  shows "preview pv conditions filters ''none'' fm minutes finish = preview pv conditions filters ''any'' fm minutes finish"
proof -
  have "preview_fires pv ids [] filters ''none'' fm fr start finish = preview_fires pv ids [] filters ''any'' fm fr start finish" for ids fr start
    by (simp add: preview_fires_def)
  then show ?thesis using assms by (cases "categorize_conditions conditions") (simp add: preview_def)
qed

section \<open>Concrete previews\<close>

theorem bucket_count_exact_witness:
  "bucket_count 310 650 (get_frequency_buckets 300 900 [(600, 3), (300, 2)]) = 3"
  using bucket_count_exact [of "[(600, 3), (300, 2)]" 300 310 650 900]
  by (simp add: on_grid_def round_to_five_minute_def)

definition first_activity :: condition_activity where
  "first_activity = \<lparr>ac_issue = 3, ac_type = CreateIssue, ac_time = 100, ac_data = []\<rparr>"

theorem preview_reports_last_fire_witness:
  "\<forall>a \<in> {first_activity, first_activity\<lparr>ac_time := 150\<rparr>}. ac_time a < 100 + 60"
proof -
  have "get_fired_groups [(3, [first_activity, first_activity\<lparr>ac_time := 150\<rparr>])] (\<lambda>_. Inr []) (list_all id) 0 60 = Inr [(3, 100)]"
    by (simp add: get_fired_groups_def first_activity_def)
  from preview_reports_last_fire [OF this, of 3 "[first_activity, first_activity\<lparr>ac_time := 150\<rparr>]"]
  show ?thesis by (simp add: first_activity_def dict_get_def)
qed

theorem exclusive_conditions_never_meet_witness:
  "\<not> list_all (\<lambda>i. node_passes sample_answers 0 None (sample_event 3)
        \<lparr>es_is_new = True, es_is_regression = False, es_is_new_group_environment = False, es_has_reappeared = False, es_has_escalated = False\<rparr>
        (PlainNode i []) = Some (Inr True))
      [''sentry.rules.conditions.first_seen_event.FirstSeenEventCondition'', ''sentry.rules.conditions.regression_event.RegressionEventCondition'']"
  by (rule exclusive_conditions_never_meet) (simp_all add: mutually_exclusive_def VALID_CONDITION_PAIRS_def ISSUE_STATE_CONDITIONS_def)

definition sample_preview :: preview_env where
  "sample_preview = \<lparr>pv_issues = [sample_issue 3 1], pv_changes = [], pv_tags = (\<lambda>_. None), pv_column = (\<lambda>_ _. None), pv_now = 0,
     pv_repr = (\<lambda>_. ''''), pv_top = (\<lambda>_. []), pv_counts = (\<lambda>_ _. [])\<rparr>"

definition first_seen_node :: rule_node where
  "first_seen_node = PlainNode ''sentry.rules.conditions.first_seen_event.FirstSeenEventCondition'' []"

lemma sample_preview_all: "preview sample_preview [first_seen_node] [] ''all'' ''all'' 5 1000 = Inr (Some [(3, 0)])"
  by (simp add: preview_def preview_fires_def categorize_conditions_def first_seen_node_def ISSUE_STATE_CONDITIONS_def mutually_exclusive_def
      get_issue_state_activity_def rule_class_of_def condition_classes_def get_activity_def issue_activities_def latest_rows_def
      CONDITION_ACTIVITY_LIMIT_def PREVIEW_TIME_RANGE_def sample_preview_def sample_issue_def add_activity_def dict_set_def
      get_filters_def get_match_function_def get_fired_groups_def)

lemma sample_preview_any: "preview sample_preview [first_seen_node] [] ''all'' ''any'' 5 1000 = Inr (Some [])"
  by (simp add: preview_def preview_fires_def categorize_conditions_def first_seen_node_def ISSUE_STATE_CONDITIONS_def mutually_exclusive_def
      get_issue_state_activity_def rule_class_of_def condition_classes_def get_activity_def issue_activities_def latest_rows_def
      CONDITION_ACTIVITY_LIMIT_def PREVIEW_TIME_RANGE_def sample_preview_def sample_issue_def add_activity_def dict_set_def
      get_filters_def get_match_function_def get_fired_groups_def)

theorem preview_any_without_filters_witness:
  "preview sample_preview [first_seen_node] [] ''all'' ''all'' 5 1000 = Inr (Some [(3, 0)])
   \<and> preview sample_preview [first_seen_node] [] ''all'' ''any'' 5 1000 = Inr (Some []) \<and> filters_pass ''any'' (\<lambda>_. False) []"
  using preview_any_without_filters [OF sample_preview_any] sample_preview_all sample_preview_any by simp

end
