(* ===== verification/Buffers.thy ===== *)
theory Buffers
  imports Complex_Main Prelude "HOL-Library.Multiset" "HOL-Library.List_Lexorder" "HOL-Library.Char_ord"
begin

text \<open>
  Buffered counters: \<open>buffer/redis.py\<close> (increments, the pending set, the flush and its batches, claiming and processing
  a hash), \<open>buffer/base.py\<close> and \<open>tasks/process_buffer.py\<close>, on a Redis cluster. A hash is a dictionary of fields; its
  values are those of the fields, not their text. Pipelines that are not transactions are run command by
  command. The hash of the filters, the defaults of a model and the score of an issue are parameters. Not modelled: the
  older backend with several hosts (the same loop for each host), pickled values of the past, logging.
  The sets and hashes of deferred rules are in the theory \<open>RuleProcessing\<close>.
\<close>

section \<open>Values and hashes\<close>

datatype bvalue = VStr string | VTime rat | VDate rat | VInt int | VFloat rat

type_synonym filters = "(string, bvalue) dict"

datatype hash_field = HModel string | HFilters filters | HInt int | HValue bvalue | HFlag

type_synonym redis_hash = "(string, hash_field) dict"

definition hsetnx :: "string \<Rightarrow> hash_field \<Rightarrow> redis_hash \<Rightarrow> redis_hash" where
  "hsetnx f v h = (if dict_get h f = None then dict_set f v h else h)"

definition hincrby :: "string \<Rightarrow> int \<Rightarrow> redis_hash \<Rightarrow> redis_hash" where
  "hincrby f n h = dict_set f (HInt ((case dict_get h f of Some (HInt m) \<Rightarrow> m | _ \<Rightarrow> 0) + n)) h"

text \<open>One call of \<open>incr\<close>: the model, what it adds to columns, filters, further values, whether only the signal is wanted.\<close>

record call =
  ca_model :: string
  ca_columns :: "(string, int) dict"
  ca_filters :: filters
  ca_extra :: "(string, bvalue) dict"
  ca_signal_only :: bool

definition incr_hash :: "call \<Rightarrow> redis_hash \<Rightarrow> redis_hash" where
  "incr_hash c h =
     (let h = hsetnx ''m'' (HModel (ca_model c)) h;
          h = hsetnx ''f'' (HFilters (ca_filters c)) h;
          h = foldl (\<lambda>h (col, n). hincrby (''i+'' @ col) n h) h (ca_columns c);
          h = foldl (\<lambda>h (col, v). dict_set (''e+'' @ col) (HValue v) h) h (ca_extra c)
      in if ca_signal_only c then dict_set ''s'' HFlag h else h)"

text \<open>\<open>_make_key\<close>, with the digest of the filters, and the model read back from the key.\<close>

definition make_key :: "(filters \<Rightarrow> string) \<Rightarrow> string \<Rightarrow> filters \<Rightarrow> string" where
  "make_key digest model_key fs = ''b:k:'' @ model_key @ '':'' @ digest fs"

definition extract_model_from_key :: "string \<Rightarrow> string option" where
  "extract_model_from_key k =
     (case split_on CHR '':'' k of
        [a, b, m, d] \<Rightarrow> if a = ''b'' \<and> b = ''k'' then Some m else None
      | _ \<Rightarrow> None)"

lemma extract_make_key:
  assumes "CHR '':'' \<notin> set model_key" "CHR '':'' \<notin> set (digest fs)"
  shows "extract_model_from_key (make_key digest model_key fs) = Some model_key"
proof -
  have "split_on CHR '':'' (make_key digest model_key fs) = [''b'', ''k'', model_key, digest fs]"
    unfolding make_key_def using assms
    by (simp add: split_on_append split_on_nosep)
  then show ?thesis by (simp add: extract_model_from_key_def)
qed

section \<open>Pending buffers and their router\<close>

record pending_buffer =
  pb_buffer :: "string option list"
  pb_size :: nat
  pb_pointer :: nat

definition PendingBuffer :: "nat \<Rightarrow> pending_buffer" where
  "PendingBuffer limit = \<lparr>pb_buffer = replicate limit None, pb_size = limit, pb_pointer = 0\<rparr>"

definition pb_full :: "pending_buffer \<Rightarrow> bool" where
  "pb_full b = (pb_pointer b = pb_size b)"

definition pb_empty :: "pending_buffer \<Rightarrow> bool" where
  "pb_empty b = (pb_pointer b = 0)"

definition pb_append :: "string \<Rightarrow> pending_buffer \<Rightarrow> pending_buffer result" where
  "pb_append item b =
     (if pb_full b then Inl AssertionError
      else Inr (b\<lparr>pb_buffer := (pb_buffer b)[pb_pointer b := Some item], pb_pointer := pb_pointer b + 1\<rparr>))"

definition pb_flush :: "pending_buffer \<Rightarrow> string option list \<times> pending_buffer" where
  "pb_flush b = (take (pb_pointer b) (pb_buffer b), b\<lparr>pb_pointer := 0\<rparr>)"

text \<open>The router has a buffer for each model with a queue of its own, by its key, and one for the others.\<close>

type_synonym queues = "(string, string \<Rightarrow> string option) dict"

record router =
  ro_default :: pending_buffer
  ro_buffers :: "(string, pending_buffer) dict"

record batch =
  ba_keys :: "string option list"
  ba_queue :: "string option"

definition create_router :: "queues \<Rightarrow> nat \<Rightarrow> router" where
  "create_router qs limit = \<lparr>ro_default = PendingBuffer limit, ro_buffers = map (\<lambda>(m, _). (m, PendingBuffer limit)) qs\<rparr>"

definition get_pending_buffer :: "string option \<Rightarrow> router \<Rightarrow> pending_buffer" where
  "get_pending_buffer m r =
     (case m of None \<Rightarrow> ro_default r
      | Some m \<Rightarrow> (case dict_get (ro_buffers r) m of None \<Rightarrow> ro_default r | Some b \<Rightarrow> b))"

definition put_pending_buffer :: "string option \<Rightarrow> pending_buffer \<Rightarrow> router \<Rightarrow> router" where
  "put_pending_buffer m b r =
     (case m of None \<Rightarrow> r\<lparr>ro_default := b\<rparr>
      | Some m \<Rightarrow> (case dict_get (ro_buffers r) m of None \<Rightarrow> r\<lparr>ro_default := b\<rparr>
                  | Some _ \<Rightarrow> r\<lparr>ro_buffers := dict_set m b (ro_buffers r)\<rparr>))"

definition queue_of :: "queues \<Rightarrow> string option \<Rightarrow> string option" where
  "queue_of qs m = (case m of None \<Rightarrow> None | Some m \<Rightarrow> (case dict_get qs m of None \<Rightarrow> None | Some f \<Rightarrow> f m))"

text \<open>The loop over the pending keys: a buffer that is full becomes a task.\<close>

definition route_key :: "queues \<Rightarrow> string \<Rightarrow> router \<Rightarrow> (batch list \<times> router) result" where
  "route_key qs k r =
     (let m = extract_model_from_key k
      in bind_result (pb_append k (get_pending_buffer m r)) (\<lambda>b.
           if pb_full b then
             let (keys, b) = pb_flush b in Inr ([\<lparr>ba_keys = keys, ba_queue = queue_of qs m\<rparr>], put_pending_buffer m b r)
           else Inr ([], put_pending_buffer m b r)))"

fun route_keys :: "queues \<Rightarrow> string list \<Rightarrow> router \<Rightarrow> (batch list \<times> router) result" where
  "route_keys qs [] r = Inr ([], r)"
| "route_keys qs (k # ks) r =
     bind_result (route_key qs k r) (\<lambda>(bs, r). bind_result (route_keys qs ks r) (\<lambda>(cs, r). Inr (bs @ cs, r)))"

definition leftover :: "queues \<Rightarrow> string option \<times> pending_buffer \<Rightarrow> batch list" where
  "leftover qs = (\<lambda>(m, b). if pb_empty b then [] else [\<lparr>ba_keys = fst (pb_flush b), ba_queue = queue_of qs m\<rparr>])"

definition leftovers :: "queues \<Rightarrow> router \<Rightarrow> batch list" where
  "leftovers qs r = concat (map (leftover qs) (map (\<lambda>(m, b). (Some m, b)) (ro_buffers r) @ [(None, ro_default r)]))"

section \<open>Processing a hash\<close>

definition field_kind :: "string \<Rightarrow> string \<Rightarrow> string option" where
  \<comment> \<open>what follows a prefix\<close>
  "field_kind p k = (if startswith p k then Some (drop (length p) k) else None)"

fun read_fields :: "redis_hash \<Rightarrow> call \<Rightarrow> call result" where
  "read_fields [] c = Inr c"
| "read_fields ((k, v) # h) c =
     (case field_kind ''i+'' k of
        Some col \<Rightarrow> (case v of HInt n \<Rightarrow> read_fields h (c\<lparr>ca_columns := dict_set col n (ca_columns c)\<rparr>) | _ \<Rightarrow> Inl ValueError)
      | None \<Rightarrow>
          (case field_kind ''e+'' k of
             Some col \<Rightarrow> (case v of HValue x \<Rightarrow> read_fields h (c\<lparr>ca_extra := dict_set col x (ca_extra c)\<rparr>) | _ \<Rightarrow> Inl TypeError)
           | None \<Rightarrow> read_fields h (if k = ''s'' then c\<lparr>ca_signal_only := True\<rparr> else c)))"

definition read_hash :: "redis_hash \<Rightarrow> call result" where
  "read_hash h =
     (case (dict_get h ''m'', dict_get h ''f'') of
        (Some (HModel m), Some (HFilters fs)) \<Rightarrow>
          read_fields (dict_del ''f'' (dict_del ''m'' h))
            \<lparr>ca_model = m, ca_columns = [], ca_filters = fs, ca_extra = [], ca_signal_only = False\<rparr>
      | _ \<Rightarrow> Inl KeyError)"

text \<open>
  \<open>Buffer.process\<close>: columns of the row are added to and others set; an issue is only updated, a row of another
  model is made from the defaults and the filters if there is none. Columns that are added to have integer defaults.
\<close>

type_synonym row = "(string, bvalue) dict"

definition add_column :: "row \<Rightarrow> row \<Rightarrow> string \<times> int \<Rightarrow> row" where
  \<comment> \<open>the row before the update, the row so far; nothing is added to a column without a number\<close>
  "add_column old r = (\<lambda>(c, n). case dict_get old c of Some (VInt m) \<Rightarrow> dict_set c (VInt (m + n)) r | _ \<Rightarrow> r)"

definition set_columns :: "(string, bvalue) dict \<Rightarrow> row \<Rightarrow> row" where
  "set_columns vs r = foldl (\<lambda>r (k, v). dict_set k v r) r vs"

definition update_row :: "(bvalue \<Rightarrow> bvalue \<Rightarrow> bvalue) option \<Rightarrow> call \<Rightarrow> row \<Rightarrow> row \<Rightarrow> row" where
  "update_row score c old r =
     (let r' = set_columns (ca_extra c) (foldl (add_column old) r (ca_columns c));
          given = fst ` set (ca_columns c) \<union> fst ` set (ca_extra c)
      in case (score, dict_get r' ''times_seen'', dict_get r' ''last_seen'') of
           (Some f, Some t, Some l) \<Rightarrow> if ''times_seen'' \<in> given \<and> ''last_seen'' \<in> given then dict_set ''score'' (f t l) r' else r'
         | _ \<Rightarrow> r')"

definition GROUP :: string where "GROUP = ''sentry.models.group.Group''"

record database =
  db_rows :: "string \<times> filters \<Rightarrow> row option"
  db_defaults :: "string \<Rightarrow> row"
  db_score :: "bvalue \<Rightarrow> bvalue \<Rightarrow> bvalue"
  db_signals :: "(call \<times> bool) list"

definition process_call :: "call \<Rightarrow> database \<Rightarrow> database" where
  "process_call c db =
     (let k = (ca_model c, ca_filters c);
          (rows, created) =
            (if ca_signal_only c then (db_rows db, False)
             else if ca_model c = GROUP then
               ((case db_rows db k of None \<Rightarrow> db_rows db
                 | Some r \<Rightarrow> (db_rows db)(k := Some (update_row (Some (db_score db)) c r r))), False)
             else (case db_rows db k of
                 Some r \<Rightarrow> ((db_rows db)(k := Some (update_row None c r r)), False)
               | None \<Rightarrow>
                   let r = db_defaults db (ca_model c)
                   in ((db_rows db)(k := Some (update_row None c r (set_columns (ca_filters c) r))), True)))
      in db\<lparr>db_rows := rows, db_signals := db_signals db @ [(c, created)]\<rparr>)"

section \<open>The state and its steps\<close>

datatype stage = Waiting | Reading | Removing redis_hash | Clearing redis_hash | Applying redis_hash

record buffer_worker =
  bw_keys :: "string list"
  bw_stage :: stage

record buffers =
  bf_hash :: "string \<Rightarrow> redis_hash"
  bf_pending :: "(string, rat) dict"
  bf_locked :: "string \<Rightarrow> bool"
  bf_tasks :: "batch list"
  bf_flush :: "(string list \<times> bool \<times> batch list) option"
  bf_workers :: "buffer_worker list"
  bf_db :: database
  bf_processed :: "(string \<times> call) list"
  bf_added :: "(string \<times> call) list"

text \<open>\<open>incr\<close> is one transaction; the calls are logged.\<close>

definition buffer_incr :: "string \<Rightarrow> call \<Rightarrow> rat \<Rightarrow> buffers \<Rightarrow> buffers" where
  "buffer_incr k c now st =
     st\<lparr>bf_hash := (bf_hash st)(k := incr_hash c (bf_hash st k)), bf_pending := dict_set k now (bf_pending st),
        bf_added := bf_added st @ [(k, c)]\<rparr>"

definition buffered_value :: "string \<Rightarrow> string \<Rightarrow> buffers \<Rightarrow> int" where
  \<comment> \<open>\<open>get\<close>, for one column\<close>
  "buffered_value k col st = (case dict_get (bf_hash st k) (''i+'' @ col) of Some (HInt n) \<Rightarrow> n | _ \<Rightarrow> 0)"

text \<open>
  \<open>process_pending\<close>: under its lock the keys are read and routed, and full batches queued; the keys are
  removed from the set; what is left is queued. The limit is positive, as the constructor of the buffer asserts; the
  lock of the flush does not expire while it runs.
\<close>

definition flush_begin :: "queues \<Rightarrow> nat \<Rightarrow> buffers \<Rightarrow> buffers" where
  "flush_begin qs limit st =
     (if bf_flush st \<noteq> None then st
      else let keys = map fst (sort_key snd (sort_key fst (bf_pending st)))
           in case route_keys qs keys (create_router qs limit) of
                Inl _ \<Rightarrow> st
              | Inr (bs, r) \<Rightarrow> st\<lparr>bf_tasks := bf_tasks st @ bs, bf_flush := Some (keys, False, leftovers qs r)\<rparr>)"

definition flush_remove :: "buffers \<Rightarrow> buffers" where
  "flush_remove st =
     (case bf_flush st of
        Some (keys, False, rest) \<Rightarrow>
          st\<lparr>bf_pending := filter (\<lambda>(k, _). k \<notin> set keys) (bf_pending st), bf_flush := Some (keys, True, rest)\<rparr>
      | _ \<Rightarrow> st)"

definition flush_end :: "buffers \<Rightarrow> buffers" where
  "flush_end st =
     (case bf_flush st of
        Some (keys, True, rest) \<Rightarrow> st\<lparr>bf_tasks := bf_tasks st @ rest, bf_flush := None\<rparr>
      | _ \<Rightarrow> st)"

definition start_incr_task :: "nat \<Rightarrow> buffers \<Rightarrow> buffers" where
  "start_incr_task i st =
     (if i < length (bf_tasks st) then
        st\<lparr>bf_tasks := take i (bf_tasks st) @ drop (Suc i) (bf_tasks st),
           bf_workers := bf_workers st @ [\<lparr>bw_keys = concat (map (\<lambda>k. case k of None \<Rightarrow> [] | Some k \<Rightarrow> [k]) (ba_keys (bf_tasks st ! i))),
              bw_stage = Waiting\<rparr>]\<rparr>
      else st)"

definition put_worker :: "nat \<Rightarrow> buffer_worker \<Rightarrow> buffers \<Rightarrow> buffers" where
  "put_worker j w st = st\<lparr>bf_workers := (bf_workers st)[j := w]\<rparr>"

definition unlock :: "string \<Rightarrow> buffers \<Rightarrow> buffers" where
  "unlock k st = st\<lparr>bf_locked := (bf_locked st)(k := False)\<rparr>"

text \<open>\<open>_process_single_incr\<close>, command by command, for the key the worker has come to.\<close>

definition work :: "nat \<Rightarrow> string \<Rightarrow> string list \<Rightarrow> stage \<Rightarrow> buffers \<Rightarrow> buffers" where
  "work j k ks stage st =
     (case stage of
        Waiting \<Rightarrow>
          if bf_locked st k then put_worker j \<lparr>bw_keys = ks, bw_stage = Waiting\<rparr> st
          else put_worker j \<lparr>bw_keys = k # ks, bw_stage = Reading\<rparr> (st\<lparr>bf_locked := (bf_locked st)(k := True)\<rparr>)
      | Reading \<Rightarrow> put_worker j \<lparr>bw_keys = k # ks, bw_stage = Removing (bf_hash st k)\<rparr> st
      | Removing h \<Rightarrow> put_worker j \<lparr>bw_keys = k # ks, bw_stage = Clearing h\<rparr> (st\<lparr>bf_pending := dict_del k (bf_pending st)\<rparr>)
      | Clearing h \<Rightarrow>
          (let st = st\<lparr>bf_hash := (bf_hash st)(k := [])\<rparr>
           in if h = [] then put_worker j \<lparr>bw_keys = ks, bw_stage = Waiting\<rparr> (unlock k st)
              else put_worker j \<lparr>bw_keys = k # ks, bw_stage = Applying h\<rparr> st)
      | Applying h \<Rightarrow>
          (case read_hash h of
             Inl _ \<Rightarrow> put_worker j \<lparr>bw_keys = [], bw_stage = Waiting\<rparr> (unlock k st)
           | Inr c \<Rightarrow> put_worker j \<lparr>bw_keys = ks, bw_stage = Waiting\<rparr>
               (unlock k (st\<lparr>bf_db := process_call c (bf_db st), bf_processed := bf_processed st @ [(k, c)]\<rparr>))))"

definition work_step :: "nat \<Rightarrow> buffers \<Rightarrow> buffers" where
  "work_step j st =
     (if j < length (bf_workers st) then
        (case bw_keys (bf_workers st ! j) of
           [] \<Rightarrow> st
         | k # ks \<Rightarrow> work j k ks (bw_stage (bf_workers st ! j)) st)
      else st)"

datatype buffer_event =
    Incr string call rat
  | FlushBegin queues nat
  | FlushRemove
  | FlushEnd
  | StartIncr nat
  | Work nat
  | WorkFails nat
  | HashExpires string
  | LockExpires string

text \<open>A worker that fails while it applies a hash gives up the lock and the rest of its batch; the hash is gone.\<close>

definition work_fails :: "nat \<Rightarrow> buffers \<Rightarrow> buffers" where
  "work_fails j st =
     (if j < length (bf_workers st) then
        (case bw_keys (bf_workers st ! j) of
           [] \<Rightarrow> st
         | k # ks \<Rightarrow>
             let s = put_worker j \<lparr>bw_keys = [], bw_stage = Waiting\<rparr> st
             in if bw_stage (bf_workers st ! j) = Waiting then s else unlock k s)
      else st)"

fun buffer_step :: "buffers \<Rightarrow> buffer_event \<Rightarrow> buffers" where
  "buffer_step st (Incr k c now) = buffer_incr k c now st"
| "buffer_step st (FlushBegin qs limit) = flush_begin qs limit st"
| "buffer_step st FlushRemove = flush_remove st"
| "buffer_step st FlushEnd = flush_end st"
| "buffer_step st (StartIncr i) = start_incr_task i st"
| "buffer_step st (Work j) = work_step j st"
| "buffer_step st (WorkFails j) = work_fails j st"
| "buffer_step st (HashExpires k) = st\<lparr>bf_hash := (bf_hash st)(k := [])\<rparr>"
| "buffer_step st (LockExpires k) = unlock k st"

definition no_buffers :: "database \<Rightarrow> buffers" where
  "no_buffers db = \<lparr>bf_hash = (\<lambda>_. []), bf_pending = [], bf_locked = (\<lambda>_. False), bf_tasks = [], bf_flush = None, bf_workers = [],
     bf_db = db, bf_processed = [], bf_added = []\<rparr>"

section \<open>The flush queues every key once\<close>

definition route_of :: "queues \<Rightarrow> string \<Rightarrow> string option" where
  \<comment> \<open>the model whose buffer a key goes to\<close>
  "route_of qs k =
     (case extract_model_from_key k of None \<Rightarrow> None | Some m \<Rightarrow> if dict_get qs m = None then None else Some m)"

definition pb_holds :: "nat \<Rightarrow> pending_buffer \<Rightarrow> string list \<Rightarrow> bool" where
  "pb_holds n b xs = (pb_size b = n \<and> length (pb_buffer b) = n \<and> pb_pointer b = length xs \<and> length xs \<le> n
     \<and> take (length xs) (pb_buffer b) = map Some xs)"

lemma pb_new [simp]: "pb_holds n (PendingBuffer n) []"
  by (simp add: pb_holds_def PendingBuffer_def)

lemma pb_append_holds:
  assumes "pb_holds n b xs" "length xs < n"
  obtains b' where "pb_append k b = Inr b'" "pb_holds n b' (xs @ [k])"
proof -
  have "take (Suc (length xs)) ((pb_buffer b)[length xs := Some k]) = map Some (xs @ [k])"
    using assms by (simp add: pb_holds_def take_Suc_conv_app_nth)
  with assms that show ?thesis by (simp add: pb_append_def pb_full_def pb_holds_def)
qed

lemma pb_flush_holds: "pb_holds n b xs \<Longrightarrow> fst (pb_flush b) = map Some xs \<and> pb_holds n (snd (pb_flush b)) []"
  by (simp add: pb_flush_def pb_holds_def)

lemma pb_full_holds: "pb_holds n b xs \<Longrightarrow> pb_full b \<longleftrightarrow> length xs = n"
  by (auto simp: pb_full_def pb_holds_def)

lemma pb_empty_holds: "pb_holds n b xs \<Longrightarrow> pb_empty b \<longleftrightarrow> xs = []"
  by (auto simp: pb_empty_def pb_holds_def)

text \<open>What the buffers of a router hold, by the model they are for.\<close>

definition router_holds :: "queues \<Rightarrow> nat \<Rightarrow> router \<Rightarrow> (string option \<Rightarrow> string list) \<Rightarrow> bool" where
  "router_holds qs n r f =
     (pb_holds n (ro_default r) (f None) \<and> map fst (ro_buffers r) = map fst qs
      \<and> (\<forall>m b. dict_get (ro_buffers r) m = Some b \<longrightarrow> pb_holds n b (f (Some m)))
      \<and> (\<forall>c. length (f c) < n) \<and> (\<forall>c. \<forall>k \<in> set (f c). route_of qs k = c))"

definition good_batch :: "queues \<Rightarrow> nat \<Rightarrow> batch \<Rightarrow> bool" where
  "good_batch qs n b = (\<exists>ks c. ba_keys b = map Some ks \<and> ks \<noteq> [] \<and> length ks \<le> n \<and> (\<forall>k \<in> set ks. route_of qs k = c) \<and> ba_queue b = queue_of qs c)"

lemma dict_get_same_keys: "map fst d = map fst e \<Longrightarrow> dict_get d m = None \<longleftrightarrow> dict_get e m = None"
  by (simp add: dict_get_def map_of_eq_None_iff) (metis list.set_map)

lemma get_routed:
  assumes "router_holds qs n r f" "c = route_of qs k"
  shows "get_pending_buffer (extract_model_from_key k) r = get_pending_buffer c r"
    and "put_pending_buffer (extract_model_from_key k) b r = put_pending_buffer c b r"
    and "queue_of qs (extract_model_from_key k) = queue_of qs c" and "pb_holds n (get_pending_buffer c r) (f c)"
proof -
  have keys: "dict_get (ro_buffers r) m = None \<longleftrightarrow> dict_get qs m = None" for m
    by (rule dict_get_same_keys) (use assms(1) in \<open>simp add: router_holds_def\<close>)
  show "get_pending_buffer (extract_model_from_key k) r = get_pending_buffer c r"
    "put_pending_buffer (extract_model_from_key k) b r = put_pending_buffer c b r"
    "queue_of qs (extract_model_from_key k) = queue_of qs c"
  proof (atomize (full), cases "extract_model_from_key k")
    case (Some m)
    then show "get_pending_buffer (extract_model_from_key k) r = get_pending_buffer c r
        \<and> put_pending_buffer (extract_model_from_key k) b r = put_pending_buffer c b r
        \<and> queue_of qs (extract_model_from_key k) = queue_of qs c"
    proof (cases "dict_get qs m = None")
      case True
      then have "dict_get (ro_buffers r) m = None" using keys by simp
      with True Some show ?thesis
        by (simp add: assms(2) route_of_def get_pending_buffer_def put_pending_buffer_def queue_of_def)
    qed (auto simp: assms(2) route_of_def)
  qed (simp add: assms(2) route_of_def)
  show "pb_holds n (get_pending_buffer c r) (f c)"
  proof (cases c)
    case None
    with assms(1) show ?thesis by (simp add: get_pending_buffer_def router_holds_def)
  next
    case (Some m)
    then have "dict_get qs m \<noteq> None" using assms(2) by (auto simp: route_of_def split: option.splits if_splits)
    then obtain b where "dict_get (ro_buffers r) m = Some b" using keys [of m] by (cases "dict_get (ro_buffers r) m") auto
    with assms(1) Some show ?thesis by (simp add: get_pending_buffer_def router_holds_def)
  qed
qed

lemma dict_set_same_keys: "dict_get d k \<noteq> None \<Longrightarrow> map fst (dict_set k v d) = map fst d"
  by (induction d) (auto simp: dict_set_def dict_get_def)

lemma put_routed:
  assumes "router_holds qs n r f" "c = route_of qs k" "pb_holds n b xs" "length xs < n" "\<forall>x \<in> set xs. route_of qs x = c"
  shows "router_holds qs n (put_pending_buffer c b r) (f(c := xs))"
proof (cases c)
  case None
  with assms show ?thesis by (auto simp: router_holds_def put_pending_buffer_def)
next
  case (Some m)
  then have "dict_get qs m \<noteq> None" using assms(2) by (auto simp: route_of_def split: option.splits if_splits)
  then obtain old where old: "dict_get (ro_buffers r) m = Some old"
    using assms(1) dict_get_same_keys [of "ro_buffers r" qs m] by (auto simp: router_holds_def)
  have keys: "map fst (dict_set m b (ro_buffers r)) = map fst qs" using assms(1) old by (simp add: dict_set_same_keys router_holds_def)
  have p: "put_pending_buffer (Some m) b r = r\<lparr>ro_buffers := dict_set m b (ro_buffers r)\<rparr>" using old by (simp add: put_pending_buffer_def)
  show ?thesis using assms(1,3,4,5) keys unfolding Some p router_holds_def by auto
qed

definition batch_keys :: "batch list \<Rightarrow> string option multiset" where
  "batch_keys bs = mset (concat (map ba_keys bs))"

definition held_keys :: "queues \<Rightarrow> (string option \<Rightarrow> string list) \<Rightarrow> string option multiset" where
  "held_keys qs f = mset (concat (map (\<lambda>c. map Some (f c)) (map (Some \<circ> fst) qs @ [None])))"

lemma held_keys_upd:
  assumes "distinct cs" "c \<in> set cs" "\<And>d. d \<noteq> c \<Longrightarrow> g d = f d"
  shows "mset (concat (map (\<lambda>d. map Some (g d)) cs)) + image_mset Some (mset (f c))
    = mset (concat (map (\<lambda>d. map Some (f d)) cs)) + image_mset Some (mset (g c))"
  using assms(1,2)
proof (induction cs)
  case (Cons d cs)
  show ?case
  proof (cases "d = c")
    case True
    have "map (\<lambda>d. map Some (g d)) cs = map (\<lambda>d. map Some (f d)) cs"
    proof (rule map_cong)
      fix x assume "x \<in> set cs"
      then have "x \<noteq> c" using Cons.prems(1) True by auto
      then show "map Some (g x) = map Some (f x)" using assms(3) by simp
    qed simp
    then have "mset (concat (map (\<lambda>d. map Some (g d)) cs)) = mset (concat (map (\<lambda>d. map Some (f d)) cs))"
      by (simp only:)
    with True show ?thesis by (simp add: ac_simps)
  next
    case False
    with Cons assms(3) show ?thesis by (simp add: ac_simps)
  qed
qed simp

lemma route_in_queues: "route_of qs k \<in> set (map (Some \<circ> fst) qs @ [None])"
  by (auto simp: route_of_def dict_get_def map_of_eq_None_iff split: option.splits)

lemma route_key_facts:
  assumes "router_holds qs n r f" "dict_wf qs" "0 < n"
  obtains bs r' f' where "route_key qs k r = Inr (bs, r')" "router_holds qs n r' f'" "\<forall>b \<in> set bs. good_batch qs n b"
    "batch_keys bs + held_keys qs f' = add_mset (Some k) (held_keys qs f)"
proof -
  let ?c = "route_of qs k" and ?cs = "map (Some \<circ> fst) qs @ [None]"
  note g = get_routed [OF assms(1) refl, of k]
  have short: "length (f ?c) < n" and same: "\<forall>x \<in> set (f ?c). route_of qs x = ?c" using assms(1) by (auto simp: router_holds_def)
  obtain b where b: "pb_append k (get_pending_buffer ?c r) = Inr b" "pb_holds n b (f ?c @ [k])"
    by (rule pb_append_holds [OF g(4) short])
  have cs: "distinct ?cs" using assms(2) by (auto simp: distinct_map comp_def inj_on_def)
  show ?thesis
  proof (cases "length (f ?c) + 1 = n")
    case True
    then have full: "pb_full b" using pb_full_holds [OF b(2)] by simp
    obtain keys b' where fl: "pb_flush b = (keys, b')" by (cases "pb_flush b")
    have keys: "keys = map Some (f ?c @ [k])" "pb_holds n b' []" using pb_flush_holds [OF b(2)] fl by simp_all
    have "route_key qs k r = Inr ([\<lparr>ba_keys = keys, ba_queue = queue_of qs ?c\<rparr>], put_pending_buffer ?c b' r)"
      using b full fl by (simp add: route_key_def g)
    moreover have "router_holds qs n (put_pending_buffer ?c b' r) (f(?c := []))"
      by (rule put_routed [OF assms(1) refl keys(2)]) (use assms(3) in simp_all)
    moreover have "good_batch qs n \<lparr>ba_keys = keys, ba_queue = queue_of qs ?c\<rparr>"
      unfolding good_batch_def using True same by (intro exI [of _ "f ?c @ [k]"] exI [of _ ?c]) (auto simp: keys)
    moreover have "image_mset Some (mset (f ?c)) + held_keys qs (f(?c := [])) = held_keys qs f"
      using held_keys_upd [OF cs route_in_queues [of qs k], of "f(?c := [])" f] by (simp add: held_keys_def ac_simps)
    then have "batch_keys [\<lparr>ba_keys = keys, ba_queue = queue_of qs ?c\<rparr>] + held_keys qs (f(?c := [])) = add_mset (Some k) (held_keys qs f)"
      by (simp add: batch_keys_def keys)
    ultimately show ?thesis using that by fastforce
  next
    case False
    then have "\<not> pb_full b" using pb_full_holds [OF b(2)] by simp
    then have "route_key qs k r = Inr ([], put_pending_buffer ?c b r)" using b by (simp add: route_key_def g)
    moreover have "router_holds qs n (put_pending_buffer ?c b r) (f(?c := f ?c @ [k]))"
      by (rule put_routed [OF assms(1) refl b(2)]) (use False short same in auto)
    moreover have "held_keys qs (f(?c := f ?c @ [k])) + image_mset Some (mset (f ?c))
        = held_keys qs f + image_mset Some (mset (f ?c @ [k]))"
      using held_keys_upd [OF cs route_in_queues [of qs k], of "f(?c := f ?c @ [k])" f] by (simp add: held_keys_def)
    then have "batch_keys [] + held_keys qs (f(?c := f ?c @ [k])) = add_mset (Some k) (held_keys qs f)"
      by (simp add: batch_keys_def)
    ultimately show ?thesis using that by fastforce
  qed
qed

lemma route_keys_facts:
  assumes "router_holds qs n r f" "dict_wf qs" "0 < n"
  obtains bs r' f' where "route_keys qs ks r = Inr (bs, r')" "router_holds qs n r' f'" "\<forall>b \<in> set bs. good_batch qs n b"
    "batch_keys bs + held_keys qs f' = mset (map Some ks) + held_keys qs f"
  using assms(1)
proof (induction ks arbitrary: r f thesis)
  case Nil
  then show ?case by (simp add: batch_keys_def)
next
  case (Cons k ks)
  obtain bs r1 f1 where 1: "route_key qs k r = Inr (bs, r1)" "router_holds qs n r1 f1" "\<forall>b \<in> set bs. good_batch qs n b"
      "batch_keys bs + held_keys qs f1 = add_mset (Some k) (held_keys qs f)"
    by (rule route_key_facts [OF Cons.prems(2) assms(2,3)])
  obtain cs r2 f2 where 2: "route_keys qs ks r1 = Inr (cs, r2)" "router_holds qs n r2 f2" "\<forall>b \<in> set cs. good_batch qs n b"
      "batch_keys cs + held_keys qs f2 = mset (map Some ks) + held_keys qs f1"
    by (rule Cons.IH [OF _ 1(2)])
  have "batch_keys (bs @ cs) = batch_keys bs + batch_keys cs" by (simp add: batch_keys_def)
  then have "batch_keys (bs @ cs) + held_keys qs f2 = batch_keys bs + (mset (map Some ks) + held_keys qs f1)"
    using 2(4) by (simp add: ac_simps)
  also have "\<dots> = mset (map Some ks) + add_mset (Some k) (held_keys qs f)" unfolding 1(4) [symmetric] by (simp add: ac_simps)
  finally have "batch_keys (bs @ cs) + held_keys qs f2 = mset (map Some (k # ks)) + held_keys qs f" by simp
  moreover have "route_keys qs (k # ks) r = Inr (bs @ cs, r2)" using 1(1) 2(1) by simp
  ultimately show ?case by (intro Cons.prems(1) [of "bs @ cs" r2 f2]) (use 1(3) 2(2,3) in auto)
qed

lemma leftovers_facts:
  assumes "router_holds qs n r f" "dict_wf qs"
  shows "batch_keys (leftovers qs r) = held_keys qs f" "\<forall>b \<in> set (leftovers qs r). good_batch qs n b"
proof -
  have one: "concat (map ba_keys (leftover qs (c, b))) = map Some (f c) \<and> (\<forall>x \<in> set (leftover qs (c, b)). good_batch qs n x)"
    if h: "pb_holds n b (f c)" for c b
  proof (cases "f c = []")
    case True
    then show ?thesis using pb_empty_holds [OF h] by (simp add: leftover_def)
  next
    case False
    moreover have "\<not> pb_empty b" using pb_empty_holds [OF h] False by simp
    moreover have "length (f c) \<le> n" "\<forall>k \<in> set (f c). route_of qs k = c" using assms(1) by (auto simp: router_holds_def intro: less_imp_le)
    ultimately show ?thesis using pb_flush_holds [OF h] by (auto simp: leftover_def good_batch_def)
  qed
  have keys: "map fst (ro_buffers r) = map fst qs" using assms(1) by (simp add: router_holds_def)
  then have wf: "dict_wf (ro_buffers r)" using assms(2) by simp
  have each: "pb_holds n b (f (Some m))" if "(m, b) \<in> set (ro_buffers r)" for m b
    using assms(1) dict_get_wf [OF wf that] by (simp add: router_holds_def)
  have dflt: "pb_holds n (ro_default r) (f None)" using assms(1) by (simp add: router_holds_def)
  have "concat (map ba_keys (concat (map (leftover qs) (map (\<lambda>(m, b). (Some m, b)) bs)))) = concat (map (\<lambda>m. map Some (f (Some m))) (map fst bs))"
    if "set bs \<subseteq> set (ro_buffers r)" for bs
    using that by (induction bs) (use each one in \<open>auto split: prod.splits\<close>)
  from this [of "ro_buffers r"] show "batch_keys (leftovers qs r) = held_keys qs f"
    using one [OF dflt] keys by (simp add: leftovers_def batch_keys_def held_keys_def comp_def)
  show "\<forall>b \<in> set (leftovers qs r). good_batch qs n b"
    using one [OF dflt] one [OF each] by (auto simp: leftovers_def)
qed

lemma new_router:
  assumes "0 < n"
  shows "router_holds qs n (create_router qs n) (\<lambda>_. [])"
proof -
  have "pb_holds n b []" if "dict_get (ro_buffers (create_router qs n)) m = Some b" for m b
    using dict_get_in [OF that] by (auto simp: create_router_def)
  then show "router_holds qs n (create_router qs n) (\<lambda>_. [])"
    using assms by (auto simp: router_holds_def create_router_def)
qed

text \<open>
  C18. A flush never runs into the assertion of its buffers, and queues every pending key exactly once: in batches that are
  not empty and not larger than the limit, each of keys that share a model with a queue of its own, on
  that queue, or of keys without one.
\<close>

theorem flush_queues_every_key:
  assumes "dict_wf qs" "0 < n"
  shows "\<exists>bs r. route_keys qs keys (create_router qs n) = Inr (bs, r)
    \<and> mset (concat (map ba_keys (bs @ leftovers qs r))) = mset (map Some keys)
    \<and> (\<forall>b \<in> set (bs @ leftovers qs r). \<exists>ks c. ba_keys b = map Some ks \<and> ks \<noteq> [] \<and> length ks \<le> n
         \<and> (\<forall>k \<in> set ks. route_of qs k = c) \<and> ba_queue b = queue_of qs c)"
proof -
  obtain bs r f where r: "route_keys qs keys (create_router qs n) = Inr (bs, r)" "router_holds qs n r f"
      "\<forall>b \<in> set bs. good_batch qs n b" "batch_keys bs + held_keys qs f = mset (map Some keys) + held_keys qs (\<lambda>_. [])"
    by (rule route_keys_facts [OF new_router [OF assms(2)] assms])
  have "held_keys qs (\<lambda>_. []) = {#}" by (simp add: held_keys_def)
  with r(4) leftovers_facts(1) [OF r(2) assms(1)] have "mset (concat (map ba_keys (bs @ leftovers qs r))) = mset (map Some keys)"
    by (simp add: batch_keys_def)
  then show ?thesis using r(1,3) leftovers_facts(2) [OF r(2) assms(1)] unfolding good_batch_def by auto
qed

section \<open>What a hash holds\<close>

definition hash_value :: "redis_hash \<Rightarrow> string \<Rightarrow> int" where
  "hash_value h col = (case dict_get h (''i+'' @ col) of Some (HInt n) \<Rightarrow> n | _ \<Rightarrow> 0)"

definition column_total :: "string \<Rightarrow> (string \<times> int) list \<Rightarrow> int" where
  "column_total col cs = sum_list (map snd (filter (\<lambda>(c, _). c = col) cs))"

definition value_ok :: "string \<Rightarrow> hash_field \<Rightarrow> bool" where
  "value_ok k v = (case v of
     HModel _ \<Rightarrow> k = ''m'' | HFilters _ \<Rightarrow> k = ''f'' | HInt _ \<Rightarrow> startswith ''i+'' k | HValue _ \<Rightarrow> startswith ''e+'' k | HFlag \<Rightarrow> k = ''s'')"

definition fields_ok :: "redis_hash \<Rightarrow> bool" where
  "fields_ok h = (dict_wf h \<and> (\<forall>k v. dict_get h k = Some v \<longrightarrow> value_ok k v))"

definition hash_valid :: "redis_hash \<Rightarrow> bool" where
  "hash_valid h = (fields_ok h \<and> (h \<noteq> [] \<longrightarrow> dict_get h ''m'' \<noteq> None \<and> dict_get h ''f'' \<noteq> None))"

lemma field_prefixes [simp]: "startswith ''i+'' (CHR ''i'' # CHR ''+'' # s)" "startswith ''e+'' (CHR ''e'' # CHR ''+'' # s)"
  by (simp_all add: startswith_def)

lemma fields_ok_set: "fields_ok h \<Longrightarrow> value_ok k v \<Longrightarrow> fields_ok (dict_set k v h)"
  by (simp add: fields_ok_def)

lemma fields_ok_Nil [simp]: "fields_ok []" "hash_valid []"
  by (simp_all add: fields_ok_def hash_valid_def)

lemma hash_value_set:
  "hash_value (dict_set k v h) col = (if k = ''i+'' @ col then (case v of HInt n \<Rightarrow> n | _ \<Rightarrow> 0) else hash_value h col)"
  by (simp add: hash_value_def)

lemma incr_columns:
  assumes "fields_ok h"
  shows "fields_ok (foldl (\<lambda>h (col, n). hincrby (''i+'' @ col) n h) h cs)
    \<and> hash_value (foldl (\<lambda>h (col, n). hincrby (''i+'' @ col) n h) h cs) col = hash_value h col + column_total col cs
    \<and> (dict_get h k \<noteq> None \<longrightarrow> dict_get (foldl (\<lambda>h (col, n). hincrby (''i+'' @ col) n h) h cs) k \<noteq> None)"
  using assms
proof (induction cs arbitrary: h)
  case (Cons c cs)
  obtain d n where c: "c = (d, n)" by (cases c)
  have "fields_ok (hincrby (''i+'' @ d) n h)"
    unfolding hincrby_def by (rule fields_ok_set [OF Cons.prems]) (simp add: value_ok_def)
  moreover have "hash_value (hincrby (''i+'' @ d) n h) col = hash_value h col + (if d = col then n else 0)"
    by (simp add: hincrby_def hash_value_set) (simp add: hash_value_def)
  moreover have "dict_get h k \<noteq> None \<longrightarrow> dict_get (hincrby (''i+'' @ d) n h) k \<noteq> None" by (simp add: hincrby_def)
  ultimately show ?case using Cons.IH [of "hincrby (''i+'' @ d) n h"] by (simp add: c column_total_def)
qed (simp add: column_total_def)

lemma incr_extra:
  assumes "fields_ok h"
  shows "fields_ok (foldl (\<lambda>h (col, v). dict_set (''e+'' @ col) (HValue v) h) h xs)
    \<and> hash_value (foldl (\<lambda>h (col, v). dict_set (''e+'' @ col) (HValue v) h) h xs) col = hash_value h col
    \<and> (dict_get h k \<noteq> None \<longrightarrow> dict_get (foldl (\<lambda>h (col, v). dict_set (''e+'' @ col) (HValue v) h) h xs) k \<noteq> None)"
  using assms
proof (induction xs arbitrary: h)
  case (Cons x xs)
  obtain d v where x: "x = (d, v)" by (cases x)
  have "fields_ok (dict_set (''e+'' @ d) (HValue v) h)" by (rule fields_ok_set [OF Cons.prems]) (simp add: value_ok_def)
  moreover have "hash_value (dict_set (''e+'' @ d) (HValue v) h) col = hash_value h col" by (simp add: hash_value_set)
  moreover have "dict_get h k \<noteq> None \<longrightarrow> dict_get (dict_set (''e+'' @ d) (HValue v) h) k \<noteq> None" by simp
  ultimately show ?case using Cons.IH [of "dict_set (''e+'' @ d) (HValue v) h"] by (simp add: x)
qed simp

lemma incr_hash_facts:
  assumes "fields_ok h"
  shows "hash_valid (incr_hash c h)" "hash_value (incr_hash c h) col = hash_value h col + column_total col (ca_columns c)"
proof -
  let ?h1 = "hsetnx ''f'' (HFilters (ca_filters c)) (hsetnx ''m'' (HModel (ca_model c)) h)"
  let ?h2 = "foldl (\<lambda>h (col, n). hincrby (''i+'' @ col) n h) ?h1 (ca_columns c)"
  let ?h3 = "foldl (\<lambda>h (col, v). dict_set (''e+'' @ col) (HValue v) h) ?h2 (ca_extra c)"
  have 1: "fields_ok ?h1" "hash_value ?h1 col = hash_value h col" "dict_get ?h1 ''m'' \<noteq> None" "dict_get ?h1 ''f'' \<noteq> None"
    using assms by (auto simp: hsetnx_def hash_value_set value_ok_def intro!: fields_ok_set)
  have 2: "fields_ok ?h2" "hash_value ?h2 col = hash_value h col + column_total col (ca_columns c)"
      "dict_get ?h2 ''m'' \<noteq> None" "dict_get ?h2 ''f'' \<noteq> None"
    using incr_columns [OF 1(1), of "ca_columns c" col "''m''"] incr_columns [OF 1(1), of "ca_columns c" col "''f''"] 1 by auto
  have 3: "fields_ok ?h3" "hash_value ?h3 col = hash_value h col + column_total col (ca_columns c)"
      "dict_get ?h3 ''m'' \<noteq> None" "dict_get ?h3 ''f'' \<noteq> None"
    using incr_extra [OF 2(1), of "ca_extra c" col "''m''"] incr_extra [OF 2(1), of "ca_extra c" col "''f''"] 2 by auto
  have i: "incr_hash c h = (if ca_signal_only c then dict_set ''s'' HFlag ?h3 else ?h3)" by (simp add: incr_hash_def Let_def)
  show "hash_valid (incr_hash c h)" "hash_value (incr_hash c h) col = hash_value h col + column_total col (ca_columns c)"
    using 3 unfolding i hash_valid_def by (auto simp: hash_value_set value_ok_def intro: fields_ok_set)
qed

lemma field_kind_iff: "field_kind p k = Some r \<longleftrightarrow> k = p @ r"
  by (auto simp: field_kind_def startswith_def) (metis append_take_drop_id)

lemma column_total_dict: "dict_wf d \<Longrightarrow> column_total col d = (case dict_get d col of None \<Rightarrow> 0 | Some n \<Rightarrow> n)"
proof (induction d)
  case (Cons x d)
  obtain c n where x: "x = (c, n)" by (cases x)
  have "filter (\<lambda>(e, _). e = c) d = []" if "c = col" using Cons.prems x by (auto simp: filter_empty_conv image_iff)
  with Cons x show ?case by (auto simp: column_total_def dict_get_def)
qed (simp add: column_total_def)

lemma read_fields_facts:
  assumes "dict_wf h" "\<forall>(k, v) \<in> set h. value_ok k v" "dict_wf (ca_columns c)"
  obtains c' where "read_fields h c = Inr c'" "dict_wf (ca_columns c')"
    "\<forall>col. dict_get (ca_columns c') col = (case dict_get h (''i+'' @ col) of Some (HInt n) \<Rightarrow> Some n | _ \<Rightarrow> dict_get (ca_columns c) col)"
  using assms
proof (induction h arbitrary: c thesis)
  case (Cons x h)
  obtain k v where x: "x = (k, v)" by (cases x)
  have ok: "value_ok k v" and rest: "dict_wf h" "\<forall>(k, v) \<in> set h. value_ok k v" using Cons.prems(2,3) x by auto
  have fresh: "dict_get h k = None" using Cons.prems(2) x by (simp add: dict_get_def map_of_eq_None_iff)
  show ?case
  proof (cases "field_kind ''i+'' k")
    case (Some d)
    then have k: "k = ''i+'' @ d" by (simp add: field_kind_iff)
    with ok obtain n where v: "v = HInt n" by (auto simp: value_ok_def startswith_def split: hash_field.splits)
    let ?c = "c\<lparr>ca_columns := dict_set d n (ca_columns c)\<rparr>"
    obtain c' where c': "read_fields h ?c = Inr c'" "dict_wf (ca_columns c')"
        "\<forall>col. dict_get (ca_columns c') col = (case dict_get h (''i+'' @ col) of Some (HInt n) \<Rightarrow> Some n | _ \<Rightarrow> dict_get (ca_columns ?c) col)"
      by (rule Cons.IH [OF _ rest, of ?c]) (use Cons.prems(4) in simp_all)
    have "dict_get (ca_columns c') col = (case dict_get (x # h) (''i+'' @ col) of Some (HInt n) \<Rightarrow> Some n | _ \<Rightarrow> dict_get (ca_columns c) col)" for col
      using c'(3) fresh by (cases "d = col") (auto simp: x k v dict_get_def dict_set_def update_conv split: option.splits hash_field.splits)
    with c'(1,2) Some show ?thesis by (intro Cons.prems(1) [of c']) (simp_all add: x v)
  next
    case None
    let ?c = "case field_kind ''e+'' k of Some col \<Rightarrow> (case v of HValue y \<Rightarrow> c\<lparr>ca_extra := dict_set col y (ca_extra c)\<rparr> | _ \<Rightarrow> c)
      | None \<Rightarrow> if k = ''s'' then c\<lparr>ca_signal_only := True\<rparr> else c"
    have cols: "ca_columns ?c = ca_columns c" by (auto split: option.splits hash_field.splits)
    have step: "read_fields (x # h) c = read_fields h ?c"
    proof (cases "field_kind ''e+'' k")
      case (Some d)
      with ok obtain y where "v = HValue y" by (auto simp: field_kind_iff value_ok_def startswith_def split: hash_field.splits)
      with Some None show ?thesis by (simp add: x)
    qed (simp add: x None)
    obtain c' where c': "read_fields h ?c = Inr c'" "dict_wf (ca_columns c')"
        "\<forall>col. dict_get (ca_columns c') col = (case dict_get h (''i+'' @ col) of Some (HInt n) \<Rightarrow> Some n | _ \<Rightarrow> dict_get (ca_columns ?c) col)"
      by (rule Cons.IH [OF _ rest, of ?c]) (use Cons.prems(4) cols in simp_all)
    have "k \<noteq> ''i+'' @ col" for col using None field_kind_iff by (metis option.distinct(1))
    then have "dict_get (x # h) (''i+'' @ col) = dict_get h (''i+'' @ col)" for col by (metis x dict_get_def map_of_Cons_code(2))
    with c'(3) [unfolded cols] c'(1,2) step show ?thesis by (intro Cons.prems(1) [of c']) simp_all
  qed
qed simp

lemma read_hash_facts:
  assumes "hash_valid h" "h \<noteq> []"
  obtains c where "read_hash h = Inr c" "\<forall>col. column_total col (ca_columns c) = hash_value h col"
proof -
  have wf: "dict_wf h" and ok: "\<And>k v. dict_get h k = Some v \<Longrightarrow> value_ok k v" using assms(1) by (auto simp: hash_valid_def fields_ok_def)
  obtain vm vf where v: "dict_get h ''m'' = Some vm" "dict_get h ''f'' = Some vf" using assms by (auto simp: hash_valid_def)
  obtain m fs where mf: "vm = HModel m" "vf = HFilters fs"
    using ok [OF v(1)] ok [OF v(2)] by (cases vm; cases vf) (auto simp: value_ok_def startswith_def)
  let ?h = "dict_del ''f'' (dict_del ''m'' h)" and ?c = "\<lparr>ca_model = m, ca_columns = [], ca_filters = fs, ca_extra = [], ca_signal_only = False\<rparr>"
  have hwf: "dict_wf ?h" using wf by simp
  have "\<forall>(k, v) \<in> set ?h. value_ok k v"
  proof (clarify)
    fix k v assume "(k, v) \<in> set ?h"
    from dict_get_wf [OF hwf this] have "dict_get h k = Some v" by (auto split: if_splits)
    then show "value_ok k v" by (rule ok)
  qed
  then obtain c where c: "read_fields ?h ?c = Inr c" "dict_wf (ca_columns c)"
      "\<forall>col. dict_get (ca_columns c) col = (case dict_get ?h (''i+'' @ col) of Some (HInt n) \<Rightarrow> Some n | _ \<Rightarrow> dict_get (ca_columns ?c) col)"
    by (rule read_fields_facts [OF hwf, of ?c]) simp_all
  have "column_total col (ca_columns c) = hash_value h col" for col
    using c(3) by (simp add: column_total_dict [OF c(2)] hash_value_def split: option.splits hash_field.splits)
  with c(1) v mf that show ?thesis by (simp add: read_hash_def)
qed

section \<open>No increment is lost\<close>

definition logged :: "(string \<times> call) list \<Rightarrow> string \<Rightarrow> string \<Rightarrow> int" where
  "logged cs k col = sum_list (map (\<lambda>(k', c). if k' = k then column_total col (ca_columns c) else 0) cs)"

definition carried :: "string \<Rightarrow> string \<Rightarrow> buffer_worker \<Rightarrow> int" where
  "carried k col w = (case bw_stage w of Applying h \<Rightarrow> if hd (bw_keys w) = k then hash_value h col else 0 | _ \<Rightarrow> 0)"

definition incr_worker_ok :: "buffers \<Rightarrow> buffer_worker \<Rightarrow> bool" where
  "incr_worker_ok st w =
     (bw_stage w \<noteq> Waiting \<longrightarrow> bw_keys w \<noteq> [] \<and> bf_locked st (hd (bw_keys w))
      \<and> (case bw_stage w of
           Removing h \<Rightarrow> bf_hash st (hd (bw_keys w)) = h
         | Clearing h \<Rightarrow> bf_hash st (hd (bw_keys w)) = h
         | Applying h \<Rightarrow> hash_valid h \<and> h \<noteq> []
         | _ \<Rightarrow> True))"

definition busy :: "string \<Rightarrow> buffer_worker \<Rightarrow> bool" where
  "busy k w = (bw_stage w \<noteq> Waiting \<and> hd (bw_keys w) = k)"

definition workers_ok :: "buffers \<Rightarrow> bool" where
  "workers_ok st =
     ((\<forall>k. hash_valid (bf_hash st k)) \<and> (\<forall>w \<in> set (bf_workers st). incr_worker_ok st w)
      \<and> (\<forall>i < length (bf_workers st). \<forall>j < length (bf_workers st). \<forall>k.
           busy k (bf_workers st ! i) \<longrightarrow> busy k (bf_workers st ! j) \<longrightarrow> i = j))"

definition conserved :: "buffers \<Rightarrow> bool" where
  "conserved st = (\<forall>k col. logged (bf_added st) k col
     = hash_value (bf_hash st k) col + sum_list (map (carried k col) (bf_workers st)) + logged (bf_processed st) k col)"

definition buffers_ok :: "buffers \<Rightarrow> bool" where
  "buffers_ok st = (workers_ok st \<and> conserved st)"

text \<open>
  What the code relies on: nothing is added to a hash between reading and deleting it, hashes and locks in use do not
  expire, and no worker fails once it has deleted a hash.
\<close>

definition undisturbed :: "buffers \<Rightarrow> buffer_event \<Rightarrow> bool" where
  "undisturbed st e =
     (case e of
        Incr k c now \<Rightarrow> \<not> list_ex (\<lambda>w. busy k w \<and> bw_stage w \<noteq> Reading \<and> (case bw_stage w of Applying _ \<Rightarrow> False | _ \<Rightarrow> True)) (bf_workers st)
      | WorkFails j \<Rightarrow> j < length (bf_workers st) \<longrightarrow> (case bw_stage (bf_workers st ! j) of Applying _ \<Rightarrow> False | _ \<Rightarrow> True)
      | HashExpires k \<Rightarrow> bf_hash st k = []
      | LockExpires k \<Rightarrow> \<not> list_ex (busy k) (bf_workers st)
      | _ \<Rightarrow> True)"

lemma sum_list_upd: "j < length xs \<Longrightarrow> sum_list (map f (xs[j := x])) = sum_list (map f xs) - f (xs ! j) + (f x :: int)"
proof (induction xs arbitrary: j)
  case (Cons y ys)
  then show ?case by (cases j) simp_all
qed simp

lemma workers_okD:
  assumes "workers_ok st"
  shows "hash_valid (bf_hash st k)" "j < length (bf_workers st) \<Longrightarrow> incr_worker_ok st (bf_workers st ! j)"
    and "i < length (bf_workers st) \<Longrightarrow> j < length (bf_workers st) \<Longrightarrow> busy k (bf_workers st ! i) \<Longrightarrow> busy k (bf_workers st ! j) \<Longrightarrow> i = j"
  using assms unfolding workers_ok_def by (blast intro: nth_mem)+

lemma locked_when_busy: "incr_worker_ok st w \<Longrightarrow> busy k w \<Longrightarrow> bf_locked st k"
  by (auto simp: incr_worker_ok_def busy_def)

text \<open>A worker steps; only its key is touched, and no other worker is at it.\<close>

lemma workers_ok_step:
  assumes ok: "workers_ok st" and j: "j < length (bf_workers st)"
    and frame: "\<And>k'. k' \<noteq> k \<Longrightarrow> bf_hash st' k' = bf_hash st k' \<and> bf_locked st' k' = bf_locked st k'"
    and hash: "hash_valid (bf_hash st' k)" and w: "incr_worker_ok st' w" and mine: "bw_stage w \<noteq> Waiting \<Longrightarrow> hd (bw_keys w) = k"
    and alone: "\<And>i. i < length (bf_workers st) \<Longrightarrow> i \<noteq> j \<Longrightarrow> \<not> busy k (bf_workers st ! i)"
    and ws: "bf_workers st' = (bf_workers st)[j := w]"
  shows "workers_ok st'"
proof -
  have other: "incr_worker_ok st' v" if v: "i < length (bf_workers st)" "i \<noteq> j" "v = bf_workers st ! i" for i v
  proof (cases "bw_stage v = Waiting")
    case True
    then show ?thesis by (simp add: incr_worker_ok_def)
  next
    case False
    then have "hd (bw_keys v) \<noteq> k" using alone [OF v(1,2)] v(3) by (simp add: busy_def)
    moreover have "incr_worker_ok st v" using workers_okD(2) [OF ok v(1)] v(3) by simp
    ultimately show ?thesis using frame unfolding incr_worker_ok_def by (auto split: stage.splits)
  qed
  have "hash_valid (bf_hash st' k')" for k'
    using hash frame workers_okD(1) [OF ok] by (cases "k' = k") simp_all
  moreover have "\<forall>v \<in> set (bf_workers st'). incr_worker_ok st' v"
  proof
    fix v assume "v \<in> set (bf_workers st')"
    then obtain i where i: "i < length (bf_workers st)" "v = (bf_workers st)[j := w] ! i" by (auto simp: ws in_set_conv_nth)
    then show "incr_worker_ok st' v" using other w j by (cases "i = j") simp_all
  qed
  moreover have "i = i'" if h: "i < length (bf_workers st')" "i' < length (bf_workers st')" "busy k' (bf_workers st' ! i)" "busy k' (bf_workers st' ! i')"
    for i i' k'
  proof -
    have key: "k' = k" if "busy k' w" using that mine by (simp add: busy_def)
    consider "i = j" "i' = j" | "i = j" "i' \<noteq> j" | "i \<noteq> j" "i' = j" | "i \<noteq> j" "i' \<noteq> j" by blast
    then show ?thesis
    proof cases
      case 2
      then show ?thesis using h key alone [of i'] j by (simp add: ws)
    next
      case 3
      then show ?thesis using h key alone [of i] j by (simp add: ws)
    next
      case 4
      then show ?thesis using h workers_okD(3) [OF ok] j by (simp add: ws)
    qed simp
  qed
  ultimately show ?thesis unfolding workers_ok_def by blast
qed

text \<open>A worker that is not at any key.\<close>

lemma workers_ok_idle:
  assumes ok: "workers_ok st" and eqs: "bf_hash st' = bf_hash st" "bf_locked st' = bf_locked st"
    and w: "bw_stage w = Waiting" and ws: "bf_workers st' = (bf_workers st)[j := w]"
  shows "workers_ok st'"
proof -
  have same: "incr_worker_ok st' v = incr_worker_ok st v" for v unfolding incr_worker_ok_def eqs ..
  have "incr_worker_ok st' v" if "v \<in> set (bf_workers st')" for v
  proof -
    have "v = w \<or> v \<in> set (bf_workers st)" using that set_update_subset_insert [of "bf_workers st" j w] by (auto simp: ws)
    then show ?thesis using ok w unfolding same by (auto simp: workers_ok_def incr_worker_ok_def)
  qed
  moreover have "i = i'"
    if h: "i < length (bf_workers st')" "i' < length (bf_workers st')" "busy k (bf_workers st' ! i)" "busy k (bf_workers st' ! i')" for i i' k
  proof -
    have "\<not> busy k w" using w by (simp add: busy_def)
    then have "i \<noteq> j" "i' \<noteq> j" using h by (auto simp: ws)
    then show ?thesis using h workers_okD(3) [OF ok, of i i' k] by (simp add: ws)
  qed
  moreover have "hash_valid (bf_hash st' k)" for k using workers_okD(1) [OF ok] by (simp add: eqs)
  ultimately show ?thesis unfolding workers_ok_def by blast
qed

lemma conserved_step:
  assumes con: "conserved st" and j: "j < length (bf_workers st)" and added: "bf_added st' = bf_added st"
    and sums: "\<And>k col. hash_value (bf_hash st' k) col + carried k col w + logged (bf_processed st') k col
       = hash_value (bf_hash st k) col + carried k col (bf_workers st ! j) + logged (bf_processed st) k col"
    and ws: "bf_workers st' = (bf_workers st)[j := w]"
  shows "conserved st'"
  unfolding conserved_def
proof (intro allI)
  fix k col
  show "logged (bf_added st') k col = hash_value (bf_hash st' k) col + sum_list (map (carried k col) (bf_workers st')) + logged (bf_processed st') k col"
    using con sums [of k col] unfolding conserved_def ws added sum_list_upd [OF j] by (auto simp: algebra_simps)
qed

lemma hash_value_Nil [simp]: "hash_value [] col = 0"
  by (simp add: hash_value_def)

lemma logged_append: "logged (cs @ [(k', c)]) k col = logged cs k col + (if k' = k then column_total col (ca_columns c) else 0)"
  by (simp add: logged_def)

lemma put_worker_simps [simp]:
  "bf_workers (put_worker j w st) = (bf_workers st)[j := w]" "bf_hash (put_worker j w st) = bf_hash st"
  "bf_locked (put_worker j w st) = bf_locked st" "bf_added (put_worker j w st) = bf_added st"
  "bf_processed (put_worker j w st) = bf_processed st"
  "bf_workers (unlock k st) = bf_workers st" "bf_hash (unlock k st) = bf_hash st" "bf_added (unlock k st) = bf_added st"
  "bf_processed (unlock k st) = bf_processed st" "bf_locked (unlock k st) = (bf_locked st)(k := False)"
  by (simp_all add: put_worker_def unlock_def)

lemma work_ok:
  assumes ok: "buffers_ok st" and j: "j < length (bf_workers st)" and w: "bf_workers st ! j = \<lparr>bw_keys = k # ks, bw_stage = stage\<rparr>"
  shows "buffers_ok (work j k ks stage st)"
proof -
  have wok: "workers_ok st" and con: "conserved st" using ok by (simp_all add: buffers_ok_def)
  have mine: "incr_worker_ok st \<lparr>bw_keys = k # ks, bw_stage = stage\<rparr>" using workers_okD(2) [OF wok j] w by simp
  have h: "hash_valid (bf_hash st k)" by (rule workers_okD(1) [OF wok])
  have alone: "\<not> busy k (bf_workers st ! i)" if i: "i < length (bf_workers st)" "i \<noteq> j" "stage \<noteq> Waiting \<or> \<not> bf_locked st k" for i
  proof
    assume b: "busy k (bf_workers st ! i)"
    then have "bf_locked st k" using locked_when_busy [OF workers_okD(2) [OF wok i(1)]] by blast
    then have "busy k (bf_workers st ! j)" using i(3) by (simp add: busy_def w)
    then show False using workers_okD(3) [OF wok i(1) j b] i(2) by simp
  qed
  note conserved = conserved_step [OF con j] and workers = workers_ok_step [OF wok j, where k = k]
  show ?thesis
  proof (cases stage)
    case Waiting
    show ?thesis
    proof (cases "bf_locked st k")
      case True
      have "workers_ok (work j k ks stage st)"
        by (rule workers_ok_idle [OF wok, where j = j]) (simp_all add: work_def Waiting True)
      moreover have "conserved (work j k ks stage st)"
        by (rule conserved) (simp_all add: work_def Waiting True carried_def w)
      ultimately show ?thesis by (simp add: buffers_ok_def)
    next
      case False
      have "workers_ok (work j k ks stage st)"
        by (rule workers) (use h alone False in \<open>simp_all add: work_def Waiting incr_worker_ok_def\<close>)
      moreover have "conserved (work j k ks stage st)"
        by (rule conserved) (simp_all add: work_def Waiting False carried_def w)
      ultimately show ?thesis by (simp add: buffers_ok_def)
    qed
  next
    case Reading
    have "workers_ok (work j k ks stage st)"
      by (rule workers) (use h alone mine in \<open>simp_all add: work_def Reading incr_worker_ok_def\<close>)
    moreover have "conserved (work j k ks stage st)"
      by (rule conserved) (simp_all add: work_def Reading carried_def w)
    ultimately show ?thesis by (simp add: buffers_ok_def)
  next
    case (Removing v)
    have "workers_ok (work j k ks stage st)"
      by (rule workers) (use h alone mine in \<open>simp_all add: work_def Removing incr_worker_ok_def\<close>)
    moreover have "conserved (work j k ks stage st)"
      by (rule conserved) (simp_all add: work_def Removing carried_def w)
    ultimately show ?thesis by (simp add: buffers_ok_def)
  next
    case (Clearing v)
    have v: "bf_hash st k = v" using mine by (simp add: incr_worker_ok_def Clearing)
    show ?thesis
    proof (cases "v = []")
      case True
      have "workers_ok (work j k ks stage st)"
        by (rule workers) (use alone in \<open>simp_all add: work_def Clearing True incr_worker_ok_def Let_def\<close>)
      moreover have "conserved (work j k ks stage st)"
        by (rule conserved) (use v True in \<open>simp_all add: work_def Clearing True carried_def w Let_def\<close>)
      ultimately show ?thesis by (simp add: buffers_ok_def)
    next
      case False
      have "workers_ok (work j k ks stage st)"
        by (rule workers) (use h alone mine v False in \<open>simp_all add: work_def Clearing incr_worker_ok_def Let_def\<close>)
      moreover have "conserved (work j k ks stage st)"
        by (rule conserved) (use False in \<open>simp_all add: work_def Clearing carried_def w Let_def v [symmetric]\<close>)
      ultimately show ?thesis by (simp add: buffers_ok_def)
    qed
  next
    case (Applying v)
    have v: "hash_valid v" "v \<noteq> []" using mine by (simp_all add: incr_worker_ok_def Applying)
    obtain c where c: "read_hash v = Inr c" "\<forall>col. column_total col (ca_columns c) = hash_value v col"
      by (rule read_hash_facts [OF v])
    have "workers_ok (work j k ks stage st)"
      by (rule workers) (use h alone mine c in \<open>simp_all add: work_def Applying incr_worker_ok_def\<close>)
    moreover have "conserved (work j k ks stage st)"
      by (rule conserved) (use c(2) in \<open>simp_all add: work_def Applying carried_def w c(1) logged_append\<close>)
    ultimately show ?thesis by (simp add: buffers_ok_def)
  qed
qed

lemma work_step_ok:
  assumes "buffers_ok st"
  shows "buffers_ok (work_step j st)"
proof (cases "j < length (bf_workers st)")
  case True
  then show ?thesis
    using work_ok [OF assms True] assms
    by (cases "bf_workers st ! j") (auto simp: work_step_def split: list.split)
qed (simp add: work_step_def assms)

lemma buffers_ok_same:
  assumes "bf_hash st' = bf_hash st" "bf_locked st' = bf_locked st" "bf_workers st' = bf_workers st"
    "bf_added st' = bf_added st" "bf_processed st' = bf_processed st"
  shows "buffers_ok st' = buffers_ok st"
  unfolding buffers_ok_def workers_ok_def incr_worker_ok_def conserved_def assms ..

lemma flushes_ok:
  assumes "buffers_ok st"
  shows "buffers_ok (flush_begin qs n st)" "buffers_ok (flush_remove st)" "buffers_ok (flush_end st)"
proof -
  show "buffers_ok (flush_begin qs n st)"
    by (rule buffers_ok_same [THEN iffD2, OF _ _ _ _ _ assms]) (auto simp: flush_begin_def Let_def split: sum.split)
  show "buffers_ok (flush_remove st)"
    by (rule buffers_ok_same [THEN iffD2, OF _ _ _ _ _ assms]) (auto simp: flush_remove_def split: option.split prod.split bool.split)
  show "buffers_ok (flush_end st)"
    by (rule buffers_ok_same [THEN iffD2, OF _ _ _ _ _ assms]) (auto simp: flush_end_def split: option.split prod.split bool.split)
qed

lemma start_incr_ok:
  assumes "buffers_ok st"
  shows "buffers_ok (start_incr_task i st)"
proof (cases "i < length (bf_tasks st)")
  case True
  let ?st = "start_incr_task i st"
  obtain w where w: "bf_workers ?st = bf_workers st @ [w]" "bw_stage w = Waiting"
    using True by (auto simp: start_incr_task_def)
  have same: "bf_hash ?st = bf_hash st" "bf_locked ?st = bf_locked st" "bf_added ?st = bf_added st" "bf_processed ?st = bf_processed st"
    using True by (simp_all add: start_incr_task_def)
  have idle: "\<not> busy k w" "carried k col w = 0" for k col using w(2) by (simp_all add: busy_def carried_def)
  have wok: "workers_ok st" using assms by (simp add: buffers_ok_def)
  have "incr_worker_ok ?st v = incr_worker_ok st v" for v unfolding incr_worker_ok_def same ..
  then have "\<forall>v \<in> set (bf_workers ?st). incr_worker_ok ?st v" using wok w by (auto simp: workers_ok_def incr_worker_ok_def)
  moreover have "i = j" if h: "i < length (bf_workers ?st)" "j < length (bf_workers ?st)" "busy k (bf_workers ?st ! i)" "busy k (bf_workers ?st ! j)" for i j k
  proof -
    have "i < length (bf_workers st)" "j < length (bf_workers st)"
      using h idle(1) by (auto simp: w nth_append less_Suc_eq split: if_splits)
    then show ?thesis using h workers_okD(3) [OF wok, of i j k] by (simp add: w nth_append)
  qed
  moreover have "hash_valid (bf_hash ?st k)" for k using workers_okD(1) [OF wok] by (simp add: same)
  ultimately have "workers_ok ?st" unfolding workers_ok_def by blast
  moreover have "conserved ?st" using assms by (simp add: buffers_ok_def conserved_def same w idle)
  ultimately show ?thesis by (simp add: buffers_ok_def)
qed (simp add: start_incr_task_def assms)

lemma incr_ok:
  assumes ok: "buffers_ok st" and quiet: "undisturbed st (Incr k c now)"
  shows "buffers_ok (buffer_incr k c now st)"
proof -
  let ?st = "buffer_incr k c now st"
  have wok: "workers_ok st" and con: "conserved st" using ok by (simp_all add: buffers_ok_def)
  note facts = incr_hash_facts [of "bf_hash st k" c]
  have fok: "fields_ok (bf_hash st k)" using workers_okD(1) [OF wok, of k] by (simp add: hash_valid_def)
  have "incr_worker_ok ?st v" if v: "v \<in> set (bf_workers st)" for v
  proof -
    have "incr_worker_ok st v" using wok v by (simp add: workers_ok_def)
    moreover have "\<not> (busy k v \<and> bw_stage v \<noteq> Reading \<and> (case bw_stage v of Applying _ \<Rightarrow> False | _ \<Rightarrow> True))"
      using quiet v by (auto simp: undisturbed_def list_ex_iff)
    ultimately show ?thesis by (cases "bw_stage v") (auto simp: incr_worker_ok_def buffer_incr_def busy_def)
  qed
  moreover have "hash_valid (bf_hash ?st k')" for k' using facts(1) [OF fok] workers_okD(1) [OF wok, of k'] by (simp add: buffer_incr_def)
  ultimately have "workers_ok ?st" using workers_okD(3) [OF wok] unfolding workers_ok_def by (simp add: buffer_incr_def)
  moreover have "conserved ?st"
    using con facts(2) [OF fok] by (auto simp: conserved_def buffer_incr_def logged_append)
  ultimately show ?thesis by (simp add: buffers_ok_def)
qed

lemma lock_expires_ok:
  assumes ok: "buffers_ok st" and quiet: "undisturbed st (LockExpires k)"
  shows "buffers_ok (unlock k st)"
proof -
  have wok: "workers_ok st" using ok by (simp add: buffers_ok_def)
  have "incr_worker_ok (unlock k st) v" if v: "v \<in> set (bf_workers st)" for v
  proof -
    have "incr_worker_ok st v" "\<not> busy k v" using wok v quiet by (auto simp: workers_ok_def undisturbed_def list_ex_iff)
    then show ?thesis by (cases "bw_stage v") (auto simp: incr_worker_ok_def busy_def)
  qed
  then have "workers_ok (unlock k st)" using wok unfolding workers_ok_def by simp
  then show ?thesis using ok by (simp add: buffers_ok_def conserved_def)
qed

lemma fails_ok:
  assumes ok: "buffers_ok st" and quiet: "undisturbed st (WorkFails j)"
  shows "buffers_ok (work_fails j st)"
proof (cases "j < length (bf_workers st) \<and> bw_keys (bf_workers st ! j) \<noteq> []")
  case True
  then obtain k ks where j: "j < length (bf_workers st)" and keys: "bw_keys (bf_workers st ! j) = k # ks"
    by (auto simp: neq_Nil_conv)
  let ?v = "bf_workers st ! j" and ?w = "\<lparr>bw_keys = [], bw_stage = Waiting\<rparr>" and ?st = "work_fails j st"
  have wok: "workers_ok st" and con: "conserved st" using ok by (simp_all add: buffers_ok_def)
  have none: "carried k' col ?v = 0" for k' col
    using quiet j by (auto simp: undisturbed_def carried_def split: stage.split)
  have ws: "bf_workers ?st = (bf_workers st)[j := ?w]" and same: "bf_hash ?st = bf_hash st" "bf_added ?st = bf_added st" "bf_processed ?st = bf_processed st"
    using j by (simp_all add: work_fails_def keys Let_def)
  have "workers_ok ?st"
  proof (cases "bw_stage ?v = Waiting")
    case True
    show ?thesis by (rule workers_ok_idle [OF wok, where j = j]) (use j True in \<open>simp_all add: work_fails_def keys Let_def\<close>)
  next
    case False
    then have "busy k ?v" by (simp add: busy_def keys)
    then have "\<not> busy k (bf_workers st ! i)" if "i < length (bf_workers st)" "i \<noteq> j" for i
      using workers_okD(3) [OF wok that(1) j] that(2) by blast
    then show ?thesis
      by (intro workers_ok_step [OF wok j, where k = k and w = ?w])
        (use j False workers_okD(1) [OF wok] in \<open>simp_all add: work_fails_def keys Let_def incr_worker_ok_def\<close>)
  qed
  moreover have "conserved ?st"
    by (rule conserved_step [OF con j, where w = ?w]) (simp_all add: same ws none, simp add: carried_def)
  ultimately show ?thesis by (simp add: buffers_ok_def)
qed (auto simp: work_fails_def ok)

lemma buffer_step_ok:
  assumes "buffers_ok st" "undisturbed st e"
  shows "buffers_ok (buffer_step st e)"
proof (cases e)
  case (HashExpires k)
  then have "bf_hash st k = []" using assms(2) by (simp add: undisturbed_def)
  then have "(bf_hash st)(k := []) = bf_hash st" by (simp add: fun_upd_idem)
  then have "buffer_step st e = st" by (simp add: HashExpires)
  with assms(1) show ?thesis by simp
next
  case (Incr k c now)
  with assms show ?thesis by (simp add: incr_ok)
next
  case (WorkFails j)
  with assms show ?thesis by (simp add: fails_ok)
next
  case (LockExpires k)
  with assms show ?thesis by (simp add: lock_expires_ok)
qed (simp_all add: flushes_ok start_incr_ok work_step_ok assms(1))

text \<open>What was processed is what the database has been through.\<close>

definition applied :: "database \<Rightarrow> buffers \<Rightarrow> bool" where
  "applied db st = (bf_db st = foldl (\<lambda>db (_, c). process_call c db) db (bf_processed st))"

lemma applied_step:
  assumes "applied db st"
  shows "applied db (buffer_step st e)"
proof -
  have "applied db (work j k ks stage st)" for j k ks stage
    using assms by (auto simp: work_def applied_def Let_def put_worker_def unlock_def split: stage.split sum.split)
  then have "applied db (work_step j st)" for j using assms by (auto simp: work_step_def split: list.split)
  moreover have "applied db (flush_begin qs n st)" "applied db (flush_remove st)" "applied db (flush_end st)" for qs n
    using assms by (auto simp: applied_def flush_begin_def flush_remove_def flush_end_def Let_def split: sum.split option.split bool.split)
  moreover have "applied db (work_fails j st)" for j
    using assms by (auto simp: applied_def work_fails_def put_worker_def unlock_def Let_def split: list.split)
  ultimately show ?thesis
    using assms by (cases e) (auto simp: applied_def buffer_incr_def start_incr_task_def unlock_def)
qed

interpretation buffer_runs: step_machine "\<lambda>s e. if undisturbed s e then buffer_step s e else s" "\<lambda>s. buffers_ok s \<and> applied db s" for db
  by unfold_locales (simp add: buffer_step_ok applied_step)

fun undisturbed_run :: "buffers \<Rightarrow> buffer_event list \<Rightarrow> bool" where
  "undisturbed_run st [] = True"
| "undisturbed_run st (e # es) = (undisturbed st e \<and> undisturbed_run (buffer_step st e) es)"

lemma undisturbed_foldl:
  "undisturbed_run st es \<Longrightarrow> foldl (\<lambda>s e. if undisturbed s e then buffer_step s e else s) st es = foldl buffer_step st es"
  by (induction es arbitrary: st) simp_all

lemma no_buffers_ok: "buffers_ok (no_buffers db) \<and> applied db (no_buffers db)"
  by (simp add: buffers_ok_def workers_ok_def conserved_def applied_def no_buffers_def logged_def)

text \<open>
  C8. On undisturbed runs no increment is lost and none is counted twice, however flushes, workers, revoked tasks and
  failures interleave: of every column of every key, what was added is what is still buffered, what a worker that
  has deleted the hash is about to apply, and what was processed; and the database is what processing made of it.
\<close>

theorem increments_conserved:
  assumes "undisturbed_run (no_buffers db) es" "st = foldl buffer_step (no_buffers db) es"
  shows "(\<Sum>(k', c) \<leftarrow> bf_added st. if k' = k then column_total col (ca_columns c) else 0)
      = buffered_value k col st
        + (\<Sum>w \<leftarrow> bf_workers st. case bw_stage w of Applying h \<Rightarrow> if hd (bw_keys w) = k then hash_value h col else 0 | _ \<Rightarrow> 0)
        + (\<Sum>(k', c) \<leftarrow> bf_processed st. if k' = k then column_total col (ca_columns c) else 0)
    \<and> bf_db st = foldl (\<lambda>db (_, c). process_call c db) db (bf_processed st)"
proof -
  have "buffers_ok st \<and> applied db st"
    using buffer_runs.run_inv [OF no_buffers_ok [of db], of es] unfolding undisturbed_foldl [OF assms(1)] assms(2) .
  then show ?thesis
    by (simp add: buffers_ok_def conserved_def applied_def logged_def carried_def [abs_def] buffered_value_def hash_value_def)
qed

definition sample_call :: "int \<Rightarrow> call" where
  "sample_call n = \<lparr>ca_model = ''m'', ca_columns = [(''times_seen'', n)], ca_filters = [(''id'', VInt 1)], ca_extra = [], ca_signal_only = False\<rparr>"

definition sample_db :: database where
  "sample_db = \<lparr>db_rows = (\<lambda>_. Some [(''times_seen'', VInt 5)]), db_defaults = (\<lambda>_. []), db_score = (\<lambda>t l. t), db_signals = []\<rparr>"

definition sample_run :: "buffer_event list" where
  "sample_run = [Incr ''k'' (sample_call 2) 1, FlushBegin [] 2, FlushRemove, FlushEnd, StartIncr 0, Work 0, Incr ''k'' (sample_call 3) 2,
     Work 0, Work 0, Work 0, Incr ''k'' (sample_call 4) 3, WorkFails 1, LockExpires ''j'', HashExpires ''j'']"

lemmas buffer_evals = sample_call_def sample_db_def sample_run_def no_buffers_def buffer_incr_def incr_hash_def hsetnx_def hincrby_def
  flush_begin_def flush_remove_def flush_end_def start_incr_task_def work_step_def work_def put_worker_def unlock_def
  route_key_def create_router_def PendingBuffer_def get_pending_buffer_def put_pending_buffer_def pb_append_def pb_full_def pb_empty_def
  pb_flush_def leftovers_def leftover_def queue_of_def extract_model_from_key_def numeral_2_eq_2 undisturbed_def busy_def work_fails_def
  buffered_value_def dict_set_def dict_get_def dict_del_def column_total_def Let_def

lemma increments_conserved_witness:
  "undisturbed_run (no_buffers sample_db) sample_run
   \<and> buffered_value ''k'' ''times_seen'' (foldl buffer_step (no_buffers sample_db) sample_run) = 4
   \<and> (\<Sum>(k', c) \<leftarrow> bf_added (foldl buffer_step (no_buffers sample_db) sample_run).
        if k' = ''k'' then column_total ''times_seen'' (ca_columns c) else 0)
      = 4 + (\<Sum>w \<leftarrow> bf_workers (foldl buffer_step (no_buffers sample_db) sample_run).
          case bw_stage w of Applying h \<Rightarrow> if hd (bw_keys w) = ''k'' then hash_value h ''times_seen'' else 0 | _ \<Rightarrow> 0)
        + (\<Sum>(k', c) \<leftarrow> bf_processed (foldl buffer_step (no_buffers sample_db) sample_run).
          if k' = ''k'' then column_total ''times_seen'' (ca_columns c) else 0)"
proof -
  have u: "undisturbed_run (no_buffers sample_db) sample_run" by (simp add: buffer_evals)
  have v: "buffered_value ''k'' ''times_seen'' (foldl buffer_step (no_buffers sample_db) sample_run) = 4" by (simp add: buffer_evals)
  show ?thesis using increments_conserved [OF u refl, of "''k''" "''times_seen''"] u v by simp
qed

lemma flush_queues_every_key_witness:
  "dict_wf [(''m'', \<lambda>_. Some ''q'')]
   \<and> (\<exists>bs r. route_keys [(''m'', \<lambda>_. Some ''q'')] [''b:k:m:1'', ''x'', ''b:k:m:2'', ''b:k:m:3''] (create_router [(''m'', \<lambda>_. Some ''q'')] 2) = Inr (bs, r)
        \<and> mset (concat (map ba_keys (bs @ leftovers [(''m'', \<lambda>_. Some ''q'')] r))) = mset (map Some [''b:k:m:1'', ''x'', ''b:k:m:2'', ''b:k:m:3'']))"
  using flush_queues_every_key [of "[(''m'', \<lambda>_. Some ''q'')]" 2 "[''b:k:m:1'', ''x'', ''b:k:m:2'', ''b:k:m:3'']"] by auto

section \<open>What the flush and the pipeline lose\<close>

text \<open>
  The pipeline that reads and deletes a hash is not a transaction: an increment that arrives after the hash was read
  and before it is deleted is deleted with it, is in nothing that is processed, and its key is no longer pending.
\<close>

theorem increment_between_commands_lost:
  assumes "j < length (bf_workers st)" "bf_workers st ! j = \<lparr>bw_keys = k # ks, bw_stage = Removing h\<rparr>"
    "st' = foldl buffer_step st [Incr k c now, Work j, Work j]"
  shows "bf_added st' = bf_added st @ [(k, c)] \<and> bf_hash st' k = [] \<and> dict_get (bf_pending st') k = None
    \<and> bf_processed st' = bf_processed st \<and> bf_db st' = bf_db st
    \<and> bf_workers st' ! j = (if h = [] then \<lparr>bw_keys = ks, bw_stage = Waiting\<rparr> else \<lparr>bw_keys = k # ks, bw_stage = Applying h\<rparr>)
    \<and> (\<forall>i. i \<noteq> j \<longrightarrow> bf_workers st' ! i = bf_workers st ! i)"
  unfolding assms(3) using assms(1,2)
  by (simp add: buffer_incr_def work_step_def work_def put_worker_def unlock_def Let_def)

lemma increment_between_commands_lost_witness:
  "bf_hash (foldl buffer_step (foldl buffer_step (no_buffers sample_db) (take 5 sample_run @ [Work 0, Work 0]))
     [Incr ''k'' (sample_call 3) 2, Work 0, Work 0]) ''k'' = []"
proof -
  have "length (bf_workers (foldl buffer_step (no_buffers sample_db) (take 5 sample_run @ [Work 0, Work 0]))) = 1"
    by (simp add: buffer_evals)
  moreover have "bf_workers (foldl buffer_step (no_buffers sample_db) (take 5 sample_run @ [Work 0, Work 0])) ! 0
      = \<lparr>bw_keys = ''k'' # [], bw_stage = Removing (incr_hash (sample_call 2) [])\<rparr>"
    by (simp add: buffer_evals)
  ultimately show ?thesis
    using increment_between_commands_lost [of 0 "foldl buffer_step (no_buffers sample_db) (take 5 sample_run @ [Work 0, Work 0])"
        "''k''" "[]" "incr_hash (sample_call 2) []" _ "sample_call 3" 2, OF _ _ refl] by simp
qed

text \<open>A key that nothing will come to: it is not pending, not queued, and no worker has it.\<close>

definition unqueued :: "string \<Rightarrow> batch list \<Rightarrow> bool" where
  "unqueued k bs = list_all (\<lambda>b. Some k \<notin> set (ba_keys b)) bs"

definition stranded :: "string \<Rightarrow> buffers \<Rightarrow> bool" where
  "stranded k st =
     (dict_get (bf_pending st) k = None \<and> unqueued k (bf_tasks st) \<and> list_all (\<lambda>w. k \<notin> set (bw_keys w)) (bf_workers st)
      \<and> (case bf_flush st of None \<Rightarrow> True | Some (_, _, rest) \<Rightarrow> unqueued k rest))"

definition leaves_alone :: "string \<Rightarrow> buffer_event \<Rightarrow> bool" where
  \<comment> \<open>nothing is added for the key, and its hash does not expire; the router is configured\<close>
  "leaves_alone k e =
     (case e of Incr k' _ _ \<Rightarrow> k' \<noteq> k | HashExpires k' \<Rightarrow> k' \<noteq> k | FlushBegin qs n \<Rightarrow> dict_wf qs \<and> 0 < n | _ \<Rightarrow> True)"

lemma unqueued_simps [simp]: "unqueued k (as @ bs) \<longleftrightarrow> unqueued k as \<and> unqueued k bs" "unqueued k []"
  by (simp_all add: unqueued_def)

lemma unqueued_keys: "unqueued k bs \<longleftrightarrow> Some k \<notin># batch_keys bs"
  by (auto simp: unqueued_def batch_keys_def list_all_iff)

lemma stranded_flush:
  assumes st: "stranded k st" and cfg: "dict_wf qs" "0 < n"
  shows "stranded k (flush_begin qs n st)"
proof -
  let ?keys = "map fst (sort_key snd (sort_key fst (bf_pending st)))"
  obtain bs r f where r: "route_keys qs ?keys (create_router qs n) = Inr (bs, r)" "router_holds qs n r f"
      "batch_keys bs + held_keys qs f = mset (map Some ?keys) + held_keys qs (\<lambda>_. [])"
    by (rule route_keys_facts [OF new_router [OF cfg(2)] cfg])
  have "held_keys qs (\<lambda>_. []) = {#}" by (simp add: held_keys_def)
  then have "batch_keys (bs @ leftovers qs r) = mset (map Some ?keys)"
    using r(3) leftovers_facts(1) [OF r(2) cfg(1)] by (simp add: batch_keys_def)
  moreover have "k \<notin> set ?keys" using st by (auto simp: stranded_def dict_get_def map_of_eq_None_iff)
  ultimately have "Some k \<notin># batch_keys (bs @ leftovers qs r)" by auto
  then have "unqueued k bs" "unqueued k (leftovers qs r)" by (simp_all add: unqueued_keys [symmetric])
  then show ?thesis using st r(1) by (auto simp: flush_begin_def stranded_def Let_def)
qed

lemma stranded_work:
  assumes st: "stranded k st" and j: "j < length (bf_workers st)" and w: "bw_keys (bf_workers st ! j) = k' # ks"
  shows "stranded k (work j k' ks stage st) \<and> bf_hash (work j k' ks stage st) k = bf_hash st k"
proof -
  have "k \<notin> set (k' # ks)" using st j w by (auto simp: stranded_def list_all_length simp del: list.set)
  then have ne: "k' \<noteq> k" "k \<notin> set ks" by auto
  have upd: "list_all (\<lambda>w. k \<notin> set (bw_keys w)) ((bf_workers st)[j := v])" if "k \<notin> set (bw_keys v)" for v
    using st that by (auto simp: stranded_def list_all_iff dest!: set_update_subset_insert [THEN subsetD])
  have "stranded k s" if "dict_get (bf_pending s) k = None" "bf_tasks s = bf_tasks st" "bf_flush s = bf_flush st"
      "bf_workers s = (bf_workers st)[j := v]" "k \<notin> set (bw_keys v)" for s v
    using st upd that by (simp add: stranded_def)
  note kept = this
  have pend: "dict_get (bf_pending st) k = None" using st by (simp add: stranded_def)
  show ?thesis
    by (cases stage) (use ne pend in \<open>auto intro!: kept simp: work_def Let_def put_worker_def unlock_def split: sum.split\<close>)
qed

lemma stranded_step:
  assumes st: "stranded k st" and e: "leaves_alone k e"
  shows "stranded k (buffer_step st e) \<and> bf_hash (buffer_step st e) k = bf_hash st k"
proof (cases e)
  case (Incr k' c now)
  then show ?thesis using assms by (simp add: leaves_alone_def buffer_incr_def stranded_def)
next
  case (FlushBegin qs n)
  moreover have "bf_hash (flush_begin qs n st) = bf_hash st" by (auto simp: flush_begin_def Let_def split: sum.split)
  ultimately show ?thesis using assms stranded_flush by (simp add: leaves_alone_def)
next
  case FlushRemove
  then show ?thesis
    using st by (auto simp: flush_remove_def stranded_def dict_get_def map_of_eq_None_iff split: option.split prod.split bool.split)
next
  case FlushEnd
  then show ?thesis using st by (auto simp: flush_end_def stranded_def split: option.split prod.split bool.split)
next
  case (StartIncr i)
  have "k \<notin> set (concat (map (case_option [] (\<lambda>k. [k])) (ba_keys (bf_tasks st ! i))))" if "i < length (bf_tasks st)"
    using st that by (auto simp: stranded_def unqueued_def list_all_length split: option.splits)
  moreover have "unqueued k (take i (bf_tasks st) @ drop (Suc i) (bf_tasks st))"
    using st by (auto simp: stranded_def unqueued_def list_all_iff dest: in_set_takeD in_set_dropD)
  ultimately show ?thesis using st by (simp add: StartIncr start_incr_task_def stranded_def)
next
  case (Work j)
  then show ?thesis using st stranded_work [OF st] by (auto simp: work_step_def split: list.split)
next
  case (WorkFails j)
  have "list_all (\<lambda>w. k \<notin> set (bw_keys w)) ((bf_workers st)[j := \<lparr>bw_keys = [], bw_stage = Waiting\<rparr>])"
    using st by (auto simp: stranded_def list_all_iff dest!: set_update_subset_insert [THEN subsetD])
  then show ?thesis using st by (auto simp: WorkFails work_fails_def stranded_def Let_def put_worker_def unlock_def split: list.split)
qed (use assms in \<open>simp_all add: stranded_def unlock_def leaves_alone_def\<close>)

interpretation stranded_runs: step_machine "\<lambda>s e. if leaves_alone k e then buffer_step s e else s" "\<lambda>s. stranded k s \<and> bf_hash s k = h" for k h
  by unfold_locales (simp add: stranded_step)

lemma leaves_alone_run:
  "list_all (leaves_alone k) es \<Longrightarrow> foldl (\<lambda>s e. if leaves_alone k e then buffer_step s e else s) s es = foldl buffer_step s es"
  by (induction es arbitrary: s) simp_all

text \<open>
  C38. A flush removes from the pending set every key it has read, also one that came back meanwhile: if the task of the
  first read has run by then, the new increment stays in its hash, whatever flushes and workers do, until the next
  increment of that key or the expiry of the hash.
\<close>

theorem readded_key_stranded:
  assumes "bf_flush st = Some (keys, False, rest)" "k \<in> set keys" "unqueued k (bf_tasks st @ rest)"
    "list_all (\<lambda>w. k \<notin> set (bw_keys w)) (bf_workers st)" "list_all (leaves_alone k) es"
    "st' = foldl buffer_step st (Incr k c now # FlushRemove # es)"
  shows "bf_hash st' k = incr_hash c (bf_hash st k) \<and> dict_get (bf_pending st') k = None"
proof -
  let ?s = "flush_remove (buffer_incr k c now st)"
  have "stranded k ?s \<and> bf_hash ?s k = incr_hash c (bf_hash st k)"
    using assms(1-4) by (auto simp: stranded_def flush_remove_def buffer_incr_def dict_get_def map_of_eq_None_iff)
  from stranded_runs.run_inv [where k = k, OF this, of es] show ?thesis
    unfolding leaves_alone_run [OF assms(5)] assms(6) by (simp add: stranded_def)
qed

definition returning_run :: "buffer_event list" where
  "returning_run = [Incr ''k'' (sample_call 1) 1, FlushBegin [] 1, StartIncr 0, Work 0, Work 0, Work 0, Work 0, Work 0]"

lemma readded_key_stranded_witness:
  "bf_processed (foldl buffer_step (no_buffers sample_db) returning_run) = [(''k'', sample_call 1)]
   \<and> bf_hash (foldl buffer_step (foldl buffer_step (no_buffers sample_db) returning_run)
        (Incr ''k'' (sample_call 7) 2 # FlushRemove # [FlushEnd, FlushBegin [] 1, FlushRemove, FlushEnd])) ''k'' = incr_hash (sample_call 7) []"
proof -
  let ?st = "foldl buffer_step (no_buffers sample_db) returning_run"
  have facts: "bf_flush ?st = Some ([''k''], False, [])" "bf_tasks ?st = []" "bf_hash ?st ''k'' = []"
      "bf_processed ?st = [(''k'', sample_call 1)]" "bf_workers ?st = [\<lparr>bw_keys = [], bw_stage = Waiting\<rparr>]"
    by (simp_all add: returning_run_def buffer_evals read_hash_def field_kind_def startswith_def)
  show ?thesis
    using readded_key_stranded [OF facts(1), of "''k''" "[FlushEnd, FlushBegin [] 1, FlushRemove, FlushEnd]" _ "sample_call 7" 2, OF _ _ _ _ refl]
    by (simp add: facts leaves_alone_def)
qed

end
