(* ===== verification/Spec2Isabelle.thy ===== *)
theory Spec2Isabelle
  imports Flagpole Cursors Paginators CircuitBreaker Uptime Monitors MonitorClock MonitorErrors
    IndexerStack MetricAlerts LeakyBucket ApiRateLimits Outbox
    SamplingTasks BoostedReleases Webhooks DigestContent Quotas RulePreview Buffers
begin

text \<open>
  A verification of core parts of Sentry, the Python sources under \<open>src/src/sentry\<close> and
  \<open>src/src/flagpole\<close>.

  \<^bold>\<open>The program and what is modelled.\<close> Sentry is a web service around Django models, Redis, Kafka
  consumers and task workers. The development models the parts that hold logic of their own and
  can be cut at the client libraries:

  \<^item> \<open>PyValue\<close>, \<open>Flagpole\<close>: feature flags, \<open>flagpole/__init__.py\<close>, \<open>conditions.py\<close>,
    \<open>evaluation_context.py\<close>. Values are those of JSON (\<open>pyval\<close>), a context is a dictionary with
    its identity fields, SHA1 is a parameter.
  \<^item> \<open>Cursors\<close>, \<open>Paginators\<close>: \<open>utils/cursors.py\<close> and \<open>api/paginator.py\<close>. A queryset is the list of
    rows in the order asked for; the database cuts it by the condition the paginator adds.
  \<^item> \<open>CircuitBreaker\<close>: \<open>utils/circuit_breaker2.py\<close>. Redis keys hold an expiry time; the sliding
    window limiter that counts errors is a parameter.
  \<^item> \<open>Uptime\<close>: \<open>uptime/subscriptions\<close>, \<open>uptime/consumers/results_consumer.py\<close>,
    \<open>uptime/detectors/tasks.py\<close>. The state \<open>uptime\<close> holds the rows, the Redis counters, the queued
    tasks and the messages to the checker; every operation and task is a function on it.
  \<^item> \<open>Monitors\<close>, \<open>MonitorClock\<close>, \<open>MonitorErrors\<close>: crons, \<open>monitors/models.py\<close>, \<open>schedule.py\<close>,
    \<open>logic/mark_failed.py\<close>, \<open>logic/mark_ok.py\<close>, \<open>clock_tasks\<close>, \<open>clock_dispatch.py\<close>, \<open>consumers\<close>,
    \<open>rate_limit.py\<close>, \<open>processing_errors/manager.py\<close>. The state \<open>crons\<close> holds the tables; an event is a
    received check-in or a task of the clock. The calendar (cron expressions, time zones) is the
    parameter \<open>scheduler\<close>; the gates of the consumer (kill switch, rate limit, quota) are the
    record \<open>gates\<close>.
  \<^item> \<open>Indexer\<close>, \<open>SharedStrings\<close>, \<open>IndexerStack\<close>: the metrics string indexer,
    \<open>sentry_metrics/indexer\<close>: collections of keys and results, the hard-coded strings, the cache,
    the Postgres indexer with its write limiter, the indexer of the tests. MD5, the limiter's
    grants and the outcomes of inserts are parameters.

  \<^item> \<open>MetricAlerts\<close>: metric alerts, \<open>incidents/subscription_processor.py\<close>, \<open>incidents/logic.py\<close>,
    \<open>incidents/models\<close>. The state \<open>alerts\<close> holds the tables, the counters in Redis and the queued
    actions; \<open>process_update\<close> takes one update of a subscription through a processor of its own.
    What other services answer (the value, the comparison, Seer) comes with the update.
  \<^item> \<open>LeakyBucket\<close>: \<open>ratelimits/leaky_bucket.py\<close> and its Lua script; times are rationals.
  \<^item> \<open>ApiRateLimits\<close>: \<open>ratelimits/redis.py\<close>, \<open>concurrent.py\<close> with its Lua script, \<open>config.py\<close>, \<open>utils.py\<close>
    and \<open>middleware/ratelimit.py\<close>. Every reading of the clock is an argument.
  \<^item> \<open>Outbox\<close>: messages between silos, \<open>hybridcloud/outbox/category.py\<close>, \<open>hybridcloud/models/outbox.py\<close>,
    \<open>hybridcloud/tasks/deliver_from_outbox.py\<close>. Which row a query without an order returns, which
    locks are taken and what arrives while a signal is handled are the record \<open>outbox_env\<close>.
  \<^item> \<open>Webhooks\<close>: delivery of webhooks to the regions, \<open>hybridcloud/models/webhookpayload.py\<close> and
    \<open>hybridcloud/tasks/deliver_webhooks.py\<close>. The state \<open>webhooks\<close> holds the rows and the workers with
    the copies they have read; an event is one atomic step of one worker.
  \<^item> \<open>Digests\<close>, \<open>DigestContent\<close>: digests of notifications, \<open>digests/backends/redis.py\<close> with its Lua script
    and the lock (\<open>utils/locking\<close>), \<open>digests/notifications.py\<close>, \<open>digests/utils.py\<close>, \<open>tasks/digests.py\<close>. The state
    \<open>digest_store\<close> holds the sorted sets, the values, the locks and the digests that are open; the eviction of
    a key is an event like the others.
  \<^item> \<open>Quotas\<close>: \<open>quotas/base.py\<close>, \<open>quotas/redis.py\<close> with its Lua script. Options and the plan of an organization
    are records, the counters in Redis a map with expiry times.

  \<^item> \<open>RuleConditions\<close>, \<open>EventFrequency\<close>, \<open>RuleProcessing\<close>, \<open>RuleRuns\<close>, \<open>RulePreview\<close>: issue alerts, \<open>rules/match.py\<close>,
    \<open>rules/conditions\<close>, \<open>rules/filters\<close>, \<open>rules/processing/processor.py\<close>, \<open>delayed_processing.py\<close> and the hashes of
    \<open>buffer/redis.py\<close>, with the windows of \<open>tsdb/base.py\<close> and \<open>tsdb/snuba.py\<close>. The state \<open>alert_store\<close> holds the statuses of rules with their cache, the history, the
    buffer of deferred rules, the queued tasks and the workers; an event of \<open>alert_run\<close> is a step of the pipeline,
    of the flush or of a task. What Snuba answers and what an action yields are parameters. The preview of a rule is
    \<open>rules/history/preview.py\<close>.
  \<^item> \<open>Buffers\<close>: buffered counters, \<open>buffer/redis.py\<close>, \<open>buffer/base.py\<close>, \<open>tasks/process_buffer.py\<close>. The state \<open>buffers\<close> holds
    the hashes, the pending set, the locks, the running flush, the queued batches, the workers and the database; an event is
    an increment, a part of a flush, or one command of a worker.

  \<^item> \<open>Rebalancing\<close>, \<open>CustomRules\<close>, \<open>SamplingRules\<close>, \<open>SamplingIterators\<close>, \<open>SamplingTasks\<close>,
    \<open>BoostedReleases\<close>: dynamic sampling, \<open>dynamic_sampling/models\<close>, \<open>models/dynamicsampling.py\<close> with
    \<open>api/endpoints/custom_rules.py\<close>, \<open>dynamic_sampling/rules\<close>, \<open>dynamic_sampling/tasks\<close>,
    \<open>rules/helpers/latest_releases.py\<close>. The state \<open>ds_store\<close> holds the values in Redis with their
    expiry, \<open>custom_rules\<close> the table of custom rules, \<open>release_store\<close> the boosted releases. Features,
    quotas, options and the rows of Snuba are arguments; rates are rationals.

  \<open>Prelude\<close> holds what all of them share: results with an exception (\<open>result\<close>), Python
  dictionaries as association lists (\<open>dict\<close>), slices, decimal numbers as text, and the locales
  \<open>step_machine\<close> (a step that keeps an invariant) and \<open>step_refinement\<close> (a step that simulates
  another through an abstraction).

  \<^bold>\<open>How the parts interact.\<close> \<open>Paginators\<close> builds the cursors of \<open>Cursors\<close>; \<open>MonitorClock\<close> dispatches
  the tasks and groups the check-ins that \<open>Monitors\<close> handles; \<open>MonitorErrors\<close> stores the errors
  \<open>process_checkin\<close> returns; each layer of \<open>IndexerStack\<close> relies on the one below only through the
  locale \<open>string_indexer\<close>. \<open>SamplingTasks\<close> feeds the projects that \<open>SamplingIterators\<close> zips to the models of
  \<open>Rebalancing\<close> and stores their rates, which the biases of \<open>SamplingRules\<close> turn into rules, together
  with the custom rules of \<open>CustomRules\<close> and the releases of \<open>BoostedReleases\<close>.

  \<^bold>\<open>What is shown.\<close> Feature matching consults the segments in order, and the dictionary form of a
  feature is read back. Cursors are read back from their text, pages of the chained and the keyset
  paginators cover their sources. The circuit breaker goes BROKEN, RECOVERY, OK, and the order of
  its keys is an invariant of every run. Uptime results are idempotent, an active monitor refines a
  two-state machine that counts failures while each comes less than an hour after the one before (the counter
  lives an hour), and no interleaving of tasks deletes a linked
  subscription. Crons keep at most one active incident for an environment in every run, the
  failure threshold opens it exactly when the last results all failed, and completed check-ins are
  final; the clock misses no minute when consumers do not overlap. The indexer never gives
  two ids to one string, through every layer and every interleaving with evictions and other
  processes, and resolves every id back. Metric alerts keep at most one open incident for a
  subscription in every run, the processor refines a machine that counts breaches and clears of one
  trigger, and enough breaches in a row do fire. The leaky bucket lets no more than its burst and the
  drip rate through any span of time while the clocks of the callers are close to that of Redis (calls that Redis does not
  answer are let through uncounted), and the wait it reports is exact. The fixed window and the
  concurrent slots keep their limits while the clock readings of a call agree, and the middleware
  gives back every slot. No message of an outbox is lost whatever the interleaving, messages of a
  group are sent in order, a flush returns, and a turn of the scheduler drains the table. No webhook is
  lost, a serial worker never sends a webhook that is younger than one that waits, and a mailbox without failures is emptied. A timeline with records is
  always scheduled, its delivery comes in time, no record is lost with its value without evictions unless it is
  added again while a digest holds its key (then its value is lost in any state), and one digest of a
  timeline is open at a time; a digest holds what it should. A quota holds in every window, and a refund
  takes a call back from the quotas that list the error category (not from those that list none). Rebalancing brings all
  classes to one level and spends the budget exactly; the rates stored for transactions come out of the
  rules as they were stored; the tasks keep the stored rates and factors in range (those of organizations and the implicit ones
  under conditions) and recalibration hits its
  target; the ids of rules tell their bias; paging cannot be seen in the batches of the iterators, and the
  zip is a merge of sorted streams. An issue alert fires for an issue at most
  once in its frequency whatever workers and tasks do, a deferred rule is judged as it would have been on the spot but for the jitter of
  the windows, none is forgotten while pushes and flushes do not race, and one that falls into the race stays behind; the preview counts exactly the events of its windows.
  No buffered increment is lost or counted twice while none falls between reading and deleting a hash, and a flush queues every
  pending key once. Where the code does not do what its documentation says,
  a theorem states what it does.

  \<^bold>\<open>Interfaces.\<close> \<open>offset_source\<close> (Paginators) is interpreted on slices of a list and on the chained
  sources; \<open>step_machine\<close> on the circuit breaker, uptime, crons, the clock, the error store, metric alerts,
  concurrent slots, HTTP requests, outboxes, webhooks, digests, issue alerts, buffers, the tasks of dynamic sampling, custom rules and boosted releases;
  \<open>paged_batches\<close> on the iterators over organizations, volumes, totals and transactions;
  \<open>step_refinement\<close> on the results of an uptime monitor; \<open>string_indexer\<close> on the Postgres and the
  in-memory indexer, \<open>static_indexer\<close> and \<open>caching_indexer\<close> on them, and a \<open>sublocale\<close> shows that the
  wrapper keeps the contract of what it wraps.

  \<^bold>\<open>Bounds and fuel.\<close> But for one, no definition takes fuel: loops are structural recursions, or \<open>function\<close>s with
  a measure (the bisection, the retries of an insert, the deletion loop of an outbox, the zip of transactions). The loop over a paged iterator (\<open>drain\<close>)
  takes fuel for the number of calls; one more than the number of rows is enough, as its theorems say. The loop of
  \<open>drain_shard\<close> may run forever while messages keep arriving, so it is a partial function with
  values in an option; \<open>flush_returns\<close> says when it returns. Integers are Python's, so \<open>int\<close> and \<open>nat\<close>;
  ids of the indexer's tables are below \<open>PREFIX\<close>, which is an explicit hypothesis.

  \<^bold>\<open>Assumptions.\<close> MD5 has no collision on the keys in use; rows of a keyset page come in the order
  asked for; the calendar of a scheduler moves forward where a theorem says so; a transaction of the
  database is one step; Snuba counts a key in a window alike in a bulk query and alone and does not cut its answer off
  (\<open>counts_each\<close>).

  \<^bold>\<open>Not modelled.\<close> Floating point (metric values and times are rationals); endpoints, serializers, metrics, logging and issue payloads; the expiry of rows in
  Redis where a reader only skips them; \<open>CombinedQuerysetPaginator\<close>; bulk reverse lookups and
  cache deletion of the indexer; detection of broken monitors; the rest of Sentry.
\<close>

end
